(* ===== verification/Prelude.thy ===== *)
theory Prelude
  imports Main "HOL-Library.Word" "HOL-Library.Multiset"
begin

unbundle bit_operations_syntax

text \<open>
  Shared vocabulary of the development: the machine types of the code, the result type
  for operations that may fail an assertion, and the lemmas on words, ring indices and
  lists that several components use.
\<close>

section \<open>Machine types and failing operations\<close>

type_synonym u8 = "8 word"
type_synonym u16 = "16 word"
type_synonym u32 = "32 word"
type_synonym u64 = "64 word"

text \<open>
  A pointer is a 64-bit address and \<open>nullptr\<close> is 0. A coroutine handle is the address
  of its frame.
\<close>

type_synonym ptr = u64
type_synonym handle = u64

text \<open>
  The ways an operation of the code can go wrong: an \<open>assert\<close> that fails, a
  dereference of the null pointer, \<open>std::terminate\<close>, a thrown \<open>std::system_error\<close>
  with its errno.
\<close>

datatype fault = AssertFail | NullDeref | Terminate | SystemError int

type_synonym 'a result = "fault + 'a"

section \<open>Collections\<close>

named_theorems ring_simps \<open>facts on masked indices of power-of-two rings\<close>
named_theorems abs_simps \<open>what an operation does to the abstract value of a component\<close>
named_theorems inv_intros \<open>operations keep the invariant of a component\<close>

section \<open>Powers of two and masked ring indices\<close>

text \<open>A capacity that is a power of two below the word size, with exponent \<open>k\<close>.\<close>

definition pow2_cap :: "'l::len word \<Rightarrow> nat \<Rightarrow> bool" where
  "pow2_cap c k \<longleftrightarrow> k < LENGTH('l) \<and> c = 2 ^ k"

lemma pow2_cap_unat [ring_simps]: "pow2_cap (c::'l::len word) k \<Longrightarrow> unat c = 2 ^ k"
proof -
  assume a: "pow2_cap c k"
  then have "c = of_nat (2 ^ k)" and "k < LENGTH('l)"
    by (simp_all add: pow2_cap_def)
  then show ?thesis
    by (simp only: unat_of_nat) (simp add: mod_less)
qed

lemma pow2_cap_pos: "pow2_cap c k \<Longrightarrow> (0::nat) < 2 ^ k"
  by simp

lemma pow2_cap_fits: "pow2_cap (c::'l::len word) k \<Longrightarrow> (2::nat) ^ k < 2 ^ LENGTH('l)"
  by (simp add: pow2_cap_def)

lemma unat_of_nat_fits: "n < 2 ^ LENGTH('l) \<Longrightarrow> unat (of_nat n :: 'l::len word) = n"
  by (simp only: unat_of_nat) (simp add: mod_less)

text \<open>Numbers below a capacity are words of themselves.\<close>

lemma pow2_cap_of_nat [ring_simps]:
  "pow2_cap (c::'l::len word) k \<Longrightarrow> n \<le> 2 ^ k \<Longrightarrow> unat (of_nat n :: 'l word) = n"
  by (rule unat_of_nat_fits) (rule le_less_trans [OF _ pow2_cap_fits])

lemma unat_and_mask:
  assumes "pow2_cap (c::'l::len word) k"
  shows "unat (x AND (c - 1)) = unat x mod 2 ^ k"
proof -
  from assms have "c - 1 = mask k"
    by (simp add: pow2_cap_def mask_eq_exp_minus_1)
  then have "x AND (c - 1) = take_bit k x"
    by (simp only: take_bit_eq_mask)
  then show ?thesis
    by (simp only: unsigned_take_bit_eq) (simp only: take_bit_eq_mod)
qed

lemma unat_ring_index:
  assumes "pow2_cap (c::'l::len word) k"
  shows "unat ((h + of_nat i) AND (c - 1)) = (unat h + i) mod 2 ^ k"
proof -
  from assms have d: "(2::nat) ^ k dvd 2 ^ LENGTH('l)"
    by (simp add: pow2_cap_def le_imp_power_dvd)
  have "unat (h + of_nat i) = (unat h + i) mod 2 ^ LENGTH('l)"
    by (simp only: unat_word_ariths(1) unat_of_nat mod_add_right_eq)
  then show ?thesis
    by (simp only: unat_and_mask [OF assms] mod_mod_cancel [OF d])
qed

lemma mod_add_left_inj_nat:
  fixes a i j m :: nat
  assumes "i < m" and "j < m" and "(a + i) mod m = (a + j) mod m"
  shows "i = j"
proof -
  from assms(3) obtain p q where "a + i + m * p = a + j + m * q"
    by (auto simp only: nat_mod_eq_iff)
  then have "i + m * p = j + m * q" by simp
  then have "i mod m = j mod m" by (auto simp only: nat_mod_eq_iff)
  with assms(1,2) show ?thesis by simp
qed

text \<open>Different offsets below the capacity are different slots of the ring.\<close>

lemma ring_index_inj:
  assumes "pow2_cap (c::'l::len word) k" and "i < 2 ^ k" and "j < 2 ^ k"
  shows "(h + of_nat i) AND (c - 1) = (h + of_nat j) AND (c - 1) \<longleftrightarrow> i = j"
proof
  assume "(h + of_nat i) AND (c - 1) = (h + of_nat j) AND (c - 1)"
  then have "(unat h + i) mod 2 ^ k = (unat h + j) mod 2 ^ k"
    using unat_ring_index [OF assms(1)] by metis
  then show "i = j" by (rule mod_add_left_inj_nat [OF assms(2,3)])
qed simp

section \<open>The contents of a ring\<close>

text \<open>
  The entries of a ring buffer \<open>arr\<close> of capacity \<open>c\<close>, from the raw cursor \<open>h\<close>
  on, in order.
\<close>

definition ring_items :: "('l::len word \<Rightarrow> 'a) \<Rightarrow> 'l word \<Rightarrow> 'l word \<Rightarrow> nat \<Rightarrow> 'a list" where
  "ring_items arr c h n = map (\<lambda>i. arr ((h + of_nat i) AND (c - 1))) [0..<n]"

lemma length_ring_items [simp]: "length (ring_items arr c h n) = n"
  by (simp add: ring_items_def)

lemma ring_items_0 [simp]: "ring_items arr c h 0 = []"
  by (simp add: ring_items_def)

lemma ring_items_Suc:
  "ring_items arr c h (Suc n) = ring_items arr c h n @ [arr ((h + of_nat n) AND (c - 1))]"
  by (simp add: ring_items_def)

lemma ring_items_Cons:
  "ring_items arr c h (Suc n) = arr (h AND (c - 1)) # ring_items arr c (h + 1) n"
  by (simp add: ring_items_def upt_conv_Cons map_Suc_upt [symmetric] comp_def add_ac
      del: upt_Suc map_Suc_upt)

lemma ring_items_upd_other:
  assumes "pow2_cap c k" and "n \<le> m" and "m < 2 ^ k"
  shows "ring_items (arr((h + of_nat m) AND (c - 1) := x)) c h n = ring_items arr c h n"
  using assms by (auto simp: ring_items_def ring_index_inj)

text \<open>Writing the slot behind the last entry appends, as long as the ring is not full.\<close>

lemma ring_items_push:
  assumes "pow2_cap c k" and "n < 2 ^ k"
  shows "ring_items (arr((h + of_nat n) AND (c - 1) := x)) c h (Suc n) = ring_items arr c h n @ [x]"
  using assms by (simp add: ring_items_Suc ring_items_upd_other)

lemma ring_items_nth:
  "i < n \<Longrightarrow> ring_items arr c h n ! i = arr ((h + of_nat i) AND (c - 1))"
  by (simp add: ring_items_def)

section \<open>Counting program counters\<close>

text \<open>
  The interleaved models keep a program counter per coroutine. How many are in a given group
  of states changes by what the one that steps contributes.
\<close>

definition pc_count :: "('p \<Rightarrow> bool) \<Rightarrow> ('a \<Rightarrow> 'p) \<Rightarrow> nat" where
  "pc_count P f = card {a. P (f a)}"

definition pc_finite :: "'p \<Rightarrow> ('a \<Rightarrow> 'p) \<Rightarrow> bool" where
  "pc_finite idle f \<longleftrightarrow> finite {a. f a \<noteq> idle}"

lemma pc_finite_init [simp]: "pc_finite idle (\<lambda>_. idle)"
  by (simp add: pc_finite_def)

lemma pc_count_init [simp]: "\<not> P idle \<Longrightarrow> pc_count P (\<lambda>_. idle) = 0"
  by (simp add: pc_count_def)

lemma pc_finite_upd: "pc_finite idle f \<Longrightarrow> pc_finite idle (f(a := p))"
  unfolding pc_finite_def by (rule finite_subset [of _ "insert a {a. f a \<noteq> idle}"]) auto

lemma pc_finite_set: "pc_finite idle f \<Longrightarrow> \<not> P idle \<Longrightarrow> finite {a. P (f a)}"
  unfolding pc_finite_def by (rule finite_subset [rotated]) auto

lemma pc_count_upd:
  assumes "pc_finite idle f" and "\<not> P idle"
  shows "pc_count P (f(a := p)) + of_bool (P (f a)) = pc_count P f + of_bool (P p)"
proof -
  define A where "A = {x. P (f x) \<and> x \<noteq> a}"
  have fin: "finite A"
    unfolding A_def by (rule finite_subset [OF _ pc_finite_set [of idle f P, OF assms]]) auto
  have a: "a \<notin> A" by (simp add: A_def)
  have t: "{x. P ((f(a := p)) x)} = (if P p then insert a A else A)" by (auto simp: A_def)
  have s: "{x. P (f x)} = (if P (f a) then insert a A else A)" by (auto simp: A_def)
  show ?thesis unfolding pc_count_def t s using fin a by simp
qed

lemma pc_count_pos:
  "pc_finite idle f \<Longrightarrow> \<not> P idle \<Longrightarrow> pc_count P f > 0 \<longleftrightarrow> (\<exists>a. P (f a))"
  unfolding pc_count_def by (auto simp: card_gt_0_iff pc_finite_set)

section \<open>Rounding up\<close>

definition round_up :: "nat \<Rightarrow> nat \<Rightarrow> nat" where
  "round_up k n = (n + 2 ^ k - 1) div 2 ^ k * 2 ^ k"

lemma round_up_bounds: "n \<le> round_up k n" "round_up k n < n + 2 ^ k" "2 ^ k dvd round_up k n"
proof -
  have m: "round_up k n + (n + 2 ^ k - 1) mod 2 ^ k = n + 2 ^ k - 1"
    unfolding round_up_def by (rule div_mult_mod_eq)
  have "(n + 2 ^ k - 1) mod 2 ^ k < 2 ^ k" by simp
  then show "n \<le> round_up k n" "round_up k n < n + 2 ^ k" using m by linarith+
  show "2 ^ k dvd round_up k n" by (simp add: round_up_def)
qed

lemma unat_and_not_mask: "unat ((x :: 'l::len word) AND NOT (mask k)) = unat x div 2 ^ k * 2 ^ k"
proof -
  have "x AND NOT (mask k) = push_bit k (drop_bit k x)" by (simp add: bit_eq_iff) (auto simp: bit_simps)
  moreover have "unat (push_bit k (drop_bit k x)) = unat x div 2 ^ k * 2 ^ k"
  proof -
    have le: "unat x div 2 ^ k * 2 ^ k \<le> unat x" by simp
    have "unat (push_bit k (drop_bit k x)) = take_bit LENGTH('l) (unat x div 2 ^ k * 2 ^ k)"
      unfolding unsigned_push_bit_eq unsigned_drop_bit_eq
      by (simp only: push_bit_eq_mult drop_bit_eq_div) (simp add: take_bit_eq_mod)
    also have "\<dots> = unat x div 2 ^ k * 2 ^ k"
      using le_less_trans [OF le unsigned_less [of x]] unfolding take_bit_eq_mod by (rule mod_less)
    finally show ?thesis .
  qed
  ultimately show ?thesis by simp
qed

end
