(* ===== verification/Spsc_Cursor.thy ===== *)
theory Spsc_Cursor
  imports Prelude
begin

text \<open>
  The ring cursor of \<^verbatim>\<open>include/co_context/detail/spsc_cursor.hpp\<close>: two free-running
  unsigned counters of the width \<open>'l\<close> of the template parameter \<open>T\<close>, read through the
  mask \<open>capacity - 1\<close>. Template parameters are arguments: the capacity \<open>cap\<close>, and
  where an operation depends on it the flag \<open>is_thread_safe\<close>. Loads and stores are
  sequentially consistent steps; the memory orders of the code are not represented.
\<close>

section \<open>State and observers\<close>

record 'w cursor =
  m_head :: 'w
  m_tail :: 'w

definition cursor_init :: "'l::len word cursor" where
  "cursor_init = \<lparr>m_head = 0, m_tail = 0\<rparr>"

definition cursor_mask :: "'l::len word \<Rightarrow> 'l word" where
  "cursor_mask cap = cap - 1"

definition cursor_head :: "'l::len word \<Rightarrow> 'l word cursor \<Rightarrow> 'l word" where
  "cursor_head cap c = m_head c AND cursor_mask cap"

definition cursor_tail :: "'l::len word \<Rightarrow> 'l word cursor \<Rightarrow> 'l word" where
  "cursor_tail cap c = m_tail c AND cursor_mask cap"

definition cursor_is_empty :: "'l::len word cursor \<Rightarrow> bool" where
  "cursor_is_empty c \<longleftrightarrow> m_head c = m_tail c"

definition cursor_size :: "'l::len word cursor \<Rightarrow> 'l word" where
  "cursor_size c = m_tail c - m_head c"

definition cursor_available_number :: "'l::len word \<Rightarrow> 'l word cursor \<Rightarrow> 'l word" where
  "cursor_available_number cap c = cap - (m_tail c - m_head c)"

definition cursor_is_available :: "'l::len word \<Rightarrow> 'l word cursor \<Rightarrow> bool" where
  "cursor_is_available cap c \<longleftrightarrow> cap - (m_tail c - m_head c) \<noteq> 0"

section \<open>Operations\<close>

definition cursor_store_raw_tail :: "'l::len word \<Rightarrow> 'l word cursor \<Rightarrow> 'l word cursor" where
  "cursor_store_raw_tail t c = c\<lparr>m_tail := t\<rparr>"

definition cursor_push :: "'l::len word \<Rightarrow> 'l word cursor \<Rightarrow> 'l word cursor" where
  "cursor_push num c = c\<lparr>m_tail := m_tail c + num\<rparr>"

definition cursor_pop :: "'l::len word \<Rightarrow> 'l word cursor \<Rightarrow> 'l word cursor" where
  "cursor_pop num c = c\<lparr>m_head := m_head c + num\<rparr>"

text \<open>
  The two waits. A thread-unsafe cursor only asserts. A thread-safe one loads the other
  side's counter again and again (by \<open>atomic::wait\<close> or by spinning) until it differs from
  the value that means full, or empty; \<open>loads\<close> are the values it observes in turn, and
  the result is the rest of them, or \<open>None\<close> while it is still waiting.
\<close>

fun wait_while_equal :: "'l::len word \<Rightarrow> 'l word list \<Rightarrow> 'l word list option" where
  "wait_while_equal old [] = None"
| "wait_while_equal old (x # xs) = (if x = old then wait_while_equal old xs else Some xs)"

definition cursor_wait_for_available ::
  "bool \<Rightarrow> 'l::len word \<Rightarrow> 'l word list \<Rightarrow> 'l word cursor \<Rightarrow> 'l word list option result" where
  "cursor_wait_for_available is_thread_safe cap loads c =
     (let head_full = m_tail c - cap in
      if \<not> is_thread_safe then (if head_full = m_head c then Inl AssertFail else Inr (Some loads))
      else Inr (wait_while_equal head_full loads))"

definition cursor_wait_for_not_empty ::
  "bool \<Rightarrow> 'l::len word list \<Rightarrow> 'l word cursor \<Rightarrow> 'l word list option result" where
  "cursor_wait_for_not_empty is_thread_safe loads c =
     (let tail_empty = m_head c in
      if \<not> is_thread_safe then (if tail_empty = m_tail c then Inl AssertFail else Inr (Some loads))
      else Inr (wait_while_equal tail_empty loads))"

text \<open>
  The loads. The value that a load observes is an argument \<open>seen\<close>: that of the counter now or at
  an earlier time, when the other side of a thread-safe cursor moves on.
\<close>

definition cursor_load_raw_head :: "bool \<Rightarrow> 'l::len word \<Rightarrow> 'l word cursor \<Rightarrow> 'l word" where
  "cursor_load_raw_head is_thread_safe seen c = (if is_thread_safe then seen else m_head c)"

definition cursor_load_raw_tail :: "bool \<Rightarrow> 'l::len word \<Rightarrow> 'l word cursor \<Rightarrow> 'l word" where
  "cursor_load_raw_tail is_thread_safe seen c = (if is_thread_safe then seen else m_tail c)"

definition cursor_load_raw_tail_relaxed :: "bool \<Rightarrow> 'l::len word \<Rightarrow> 'l word cursor \<Rightarrow> 'l word" where
  "cursor_load_raw_tail_relaxed is_thread_safe seen c = (if is_thread_safe then seen else m_tail c)"

definition cursor_load_head :: "bool \<Rightarrow> 'l::len word \<Rightarrow> 'l word \<Rightarrow> 'l word cursor \<Rightarrow> 'l word" where
  "cursor_load_head is_thread_safe cap seen c = (if is_thread_safe then seen AND cursor_mask cap else cursor_head cap c)"

definition cursor_load_tail :: "bool \<Rightarrow> 'l::len word \<Rightarrow> 'l word \<Rightarrow> 'l word cursor \<Rightarrow> 'l word" where
  "cursor_load_tail is_thread_safe cap seen c = (if is_thread_safe then seen AND cursor_mask cap else cursor_tail cap c)"

definition cursor_is_empty_load_head :: "bool \<Rightarrow> 'l::len word \<Rightarrow> 'l word cursor \<Rightarrow> bool" where
  "cursor_is_empty_load_head is_thread_safe seen c \<longleftrightarrow> m_tail c = cursor_load_raw_head is_thread_safe seen c"

definition cursor_is_empty_load_tail :: "bool \<Rightarrow> 'l::len word \<Rightarrow> 'l word cursor \<Rightarrow> bool" where
  "cursor_is_empty_load_tail is_thread_safe seen c \<longleftrightarrow> m_head c = cursor_load_raw_tail is_thread_safe seen c"

definition cursor_is_empty_load_tail_relaxed :: "bool \<Rightarrow> 'l::len word \<Rightarrow> 'l word cursor \<Rightarrow> bool" where
  "cursor_is_empty_load_tail_relaxed is_thread_safe seen c \<longleftrightarrow>
     m_head c = cursor_load_raw_tail_relaxed is_thread_safe seen c"

definition cursor_is_available_load_head :: "bool \<Rightarrow> 'l::len word \<Rightarrow> 'l word \<Rightarrow> 'l word cursor \<Rightarrow> bool" where
  "cursor_is_available_load_head is_thread_safe cap seen c \<longleftrightarrow>
     cap - (m_tail c - cursor_load_raw_head is_thread_safe seen c) \<noteq> 0"

text \<open>The operations that also wake a side that waits; the flag says whether they do.\<close>

definition cursor_push_notify :: "bool \<Rightarrow> bool \<Rightarrow> 'l::len word \<Rightarrow> 'l word cursor \<Rightarrow> 'l word cursor \<times> bool" where
  "cursor_push_notify is_thread_safe is_blocking num c = (cursor_push num c, is_thread_safe \<and> is_blocking)"

definition cursor_pop_notify :: "bool \<Rightarrow> bool \<Rightarrow> 'l::len word \<Rightarrow> 'l word cursor \<Rightarrow> 'l word cursor \<times> bool" where
  "cursor_pop_notify is_thread_safe is_blocking num c = (cursor_pop num c, is_thread_safe \<and> is_blocking)"

section \<open>Well-formed cursors and what they count\<close>

text \<open>
  The number of entries between the counters, as a natural number: the difference of the
  counters modulo the width, so it survives the wrap-around of either counter. A cursor is
  well formed when this number is at most the capacity.
\<close>

definition cursor_count :: "'l::len word cursor \<Rightarrow> nat" where
  "cursor_count c = unat (m_tail c - m_head c)"

definition cursor_ok :: "nat \<Rightarrow> 'l::len word cursor \<Rightarrow> bool" where
  "cursor_ok k c \<longleftrightarrow> cursor_count c \<le> 2 ^ k"

lemma cursor_init_ok [simp]: "cursor_ok k cursor_init" "cursor_count cursor_init = 0"
  by (simp_all add: cursor_ok_def cursor_count_def cursor_init_def)

lemma m_tail_count: "m_tail c = m_head c + of_nat (cursor_count c)"
  by (simp add: cursor_count_def)

lemma cursor_is_empty_iff: "cursor_is_empty c \<longleftrightarrow> cursor_count c = 0"
  by (auto simp: cursor_is_empty_def cursor_count_def unat_eq_0)

lemma unat_cursor_size: "unat (cursor_size c) = cursor_count c"
  by (simp add: cursor_size_def cursor_count_def)

lemma unat_cap_minus:
  assumes "pow2_cap (cap::'l::len word) k" and "unat d \<le> 2 ^ k"
  shows "unat (cap - d) = 2 ^ k - unat d"
proof -
  from assms have "d \<le> cap"
    by (simp add: word_le_nat_alt pow2_cap_unat)
  then show ?thesis
    by (simp add: unat_sub pow2_cap_unat [OF assms(1)])
qed

lemma unat_available_number:
  assumes "pow2_cap cap k" and "cursor_ok k c"
  shows "unat (cursor_available_number cap c) = 2 ^ k - cursor_count c"
  using assms by (simp add: cursor_available_number_def cursor_ok_def cursor_count_def unat_cap_minus)

lemma cursor_is_available_iff:
  assumes "pow2_cap cap k" and "cursor_ok k c"
  shows "cursor_is_available cap c \<longleftrightarrow> cursor_count c < 2 ^ k"
proof -
  have "cursor_is_available cap c \<longleftrightarrow> unat (cursor_available_number cap c) \<noteq> 0"
    by (simp add: cursor_is_available_def cursor_available_number_def unat_eq_0)
  with assms show ?thesis
    by (auto simp: unat_available_number)
qed

lemma cursor_count_push:
  assumes "cursor_count c + unat num < 2 ^ LENGTH('l)"
  shows "cursor_count (cursor_push num c) = cursor_count (c::'l::len word cursor) + unat num"
proof -
  have shift: "m_tail c + num - m_head c = (m_tail c - m_head c) + num"
    by simp
  have "cursor_count (cursor_push num c) = (cursor_count c + unat num) mod 2 ^ LENGTH('l)"
    by (simp add: cursor_count_def cursor_push_def shift unat_word_ariths(1))
  with assms show ?thesis by simp
qed

lemma cursor_count_pop:
  assumes "unat num \<le> cursor_count c"
  shows "cursor_count (cursor_pop num c) = cursor_count c - unat num"
proof -
  have shift: "m_tail c - (m_head c + num) = (m_tail c - m_head c) - num"
    by simp
  have "cursor_count (cursor_pop num c) = unat ((m_tail c - m_head c) - num)"
    by (simp add: cursor_count_def cursor_pop_def shift)
  with assms show ?thesis
    by (simp only: cursor_count_def unat_sub word_le_nat_alt)
qed

lemma cursor_ok_push1:
  assumes "pow2_cap (cap::'l::len word) k" and "cursor_ok k c" and "cursor_count (c::'l word cursor) < 2 ^ k"
  shows "cursor_count (cursor_push 1 c) = Suc (cursor_count c)" and "cursor_ok k (cursor_push 1 c)"
proof -
  have "cursor_count c + unat (1::'l word) < 2 ^ LENGTH('l)"
    using le_less_trans [OF Suc_leI [OF assms(3)] pow2_cap_fits [OF assms(1)]] by simp
  from cursor_count_push [OF this] show "cursor_count (cursor_push 1 c) = Suc (cursor_count c)"
    by simp
  with assms(3) show "cursor_ok k (cursor_push 1 c)" by (simp add: cursor_ok_def)
qed

lemma cursor_ok_pop1:
  assumes "cursor_ok k c" and "0 < cursor_count c"
  shows "cursor_count (cursor_pop 1 c) = cursor_count c - 1" and "cursor_ok k (cursor_pop 1 c)"
proof -
  show "cursor_count (cursor_pop 1 c) = cursor_count c - 1"
    using cursor_count_pop [of 1 c] assms(2) by simp
  with assms(1) show "cursor_ok k (cursor_pop 1 c)" by (simp add: cursor_ok_def)
qed

section \<open>One producer and one consumer\<close>

text \<open>
  The way the cursor is meant to be used: a producer that checks for room, writes the slot
  under the tail and then publishes it with \<open>push\<close>, and a consumer that checks for an
  entry, reads the slot under the head and then frees it with \<open>pop\<close>. The two sides
  interleave between any two of their accesses. \<open>sent\<close> and \<open>received\<close> record what was
  published and what was taken.
\<close>

datatype 'a producer = PIdle | PRoom | PFilled 'a
datatype 'a consumer = CIdle | CSome | CTaken 'a

record ('w, 'a) spsc =
  cur :: "'w cursor"
  slots :: "'w \<Rightarrow> 'a"
  producer :: "'a producer"
  consumer :: "'a consumer"
  sent :: "'a list"
  received :: "'a list"

inductive spsc_step :: "'l::len word \<Rightarrow> ('l word, 'a) spsc \<Rightarrow> ('l word, 'a) spsc \<Rightarrow> bool"
  for cap :: "'l word" where
  check_room: "producer s = PIdle \<Longrightarrow> cursor_is_available cap (cur s) \<Longrightarrow>
     spsc_step cap s (s\<lparr>producer := PRoom\<rparr>)"
| fill: "producer s = PRoom \<Longrightarrow>
     spsc_step cap s (s\<lparr>slots := (slots s)(cursor_tail cap (cur s) := x), producer := PFilled x\<rparr>)"
| publish: "producer s = PFilled x \<Longrightarrow>
     spsc_step cap s (s\<lparr>cur := cursor_push 1 (cur s), producer := PIdle, sent := sent s @ [x]\<rparr>)"
| check_entry: "consumer s = CIdle \<Longrightarrow> \<not> cursor_is_empty (cur s) \<Longrightarrow>
     spsc_step cap s (s\<lparr>consumer := CSome\<rparr>)"
| take_entry: "consumer s = CSome \<Longrightarrow>
     spsc_step cap s (s\<lparr>consumer := CTaken (slots s (cursor_head cap (cur s)))\<rparr>)"
| free_entry: "consumer s = CTaken x \<Longrightarrow>
     spsc_step cap s (s\<lparr>cur := cursor_pop 1 (cur s), consumer := CIdle, received := received s @ [x]\<rparr>)"

inductive_cases spsc_stepE: "spsc_step cap s t"

definition spsc_start :: "('l::len word \<Rightarrow> 'a) \<Rightarrow> 'l word \<Rightarrow> ('l word, 'a) spsc" where
  "spsc_start junk h =
     \<lparr>cur = \<lparr>m_head = h, m_tail = h\<rparr>, slots = junk, producer = PIdle, consumer = CIdle,
      sent = [], received = []\<rparr>"

inductive spsc_reachable :: "'l::len word \<Rightarrow> ('l word, 'a) spsc \<Rightarrow> bool" for cap :: "'l word" where
  spsc_begin: "spsc_reachable cap (spsc_start junk h)"
| spsc_next: "spsc_reachable cap s \<Longrightarrow> spsc_step cap s t \<Longrightarrow> spsc_reachable cap t"

definition in_flight :: "'l::len word \<Rightarrow> ('l word, 'a) spsc \<Rightarrow> 'a list" where
  "in_flight cap s = ring_items (slots s) cap (m_head (cur s)) (cursor_count (cur s))"

text \<open>
  What the two sides may rely on between their own accesses: a producer that has seen room
  still has it, since only the consumer moves the head, and the slot it filled is not one of
  the published ones; a consumer that has seen an entry still has it.
\<close>

definition spsc_inv :: "nat \<Rightarrow> 'l::len word \<Rightarrow> ('l word, 'a) spsc \<Rightarrow> bool" where
  "spsc_inv k cap s \<longleftrightarrow>
     cursor_ok k (cur s) \<and> sent s = received s @ in_flight cap s \<and>
     (producer s \<noteq> PIdle \<longrightarrow> cursor_count (cur s) < 2 ^ k) \<and>
     (\<forall>x. producer s = PFilled x \<longrightarrow> slots s (cursor_tail cap (cur s)) = x) \<and>
     (consumer s \<noteq> CIdle \<longrightarrow> 0 < cursor_count (cur s)) \<and>
     (\<forall>x. consumer s = CTaken x \<longrightarrow> slots s (cursor_head cap (cur s)) = x)"

lemma cursor_tail_index:
  "cursor_tail cap c = (m_head c + of_nat (cursor_count c)) AND (cap - 1)"
  by (simp add: cursor_tail_def cursor_mask_def flip: m_tail_count)

lemma cursor_head_index: "cursor_head cap c = m_head c AND (cap - 1)"
  by (simp add: cursor_head_def cursor_mask_def)

lemma m_head_push [simp]: "m_head (cursor_push n c) = m_head c"
  by (simp add: cursor_push_def)

lemma m_head_pop [simp]: "m_head (cursor_pop n c) = m_head c + n"
  by (simp add: cursor_pop_def)

lemma in_flight_free:
  assumes "0 < cursor_count (cur s)"
  shows "in_flight cap s = slots s (cursor_head cap (cur s)) #
           ring_items (slots s) cap (m_head (cur s) + 1) (cursor_count (cur s) - 1)"
  using assms ring_items_Cons [of "slots s" cap "m_head (cur s)" "cursor_count (cur s) - 1"]
  by (simp add: in_flight_def cursor_head_index)

lemma cursor_slots_differ:
  assumes "pow2_cap cap k" and "0 < cursor_count c" and "cursor_count c < 2 ^ k"
  shows "cursor_head cap c \<noteq> cursor_tail cap c"
  using assms ring_index_inj [OF assms(1), of 0 "cursor_count c" "m_head c"]
  by (simp add: cursor_tail_index cursor_head_index)

lemma spsc_step_inv:
  assumes cap: "pow2_cap (cap::'l::len word) k"
    and step: "spsc_step cap s t" and inv: "spsc_inv k cap s"
  shows "spsc_inv k cap t"
  using step
proof (cases rule: spsc_step.cases)
  case check_room
  with inv cursor_is_available_iff [OF cap] show ?thesis
    by (simp add: spsc_inv_def in_flight_def)
next
  case (fill x)
  with inv have room: "cursor_count (cur s) < 2 ^ k" by (simp add: spsc_inv_def)
  have "in_flight cap t = in_flight cap s"
    using ring_items_upd_other [OF cap order_refl room] fill
    by (simp add: in_flight_def cursor_tail_index)
  with fill inv room cursor_slots_differ [OF cap, of "cur s"] show ?thesis
    by (auto simp: spsc_inv_def)
next
  case (publish x)
  with inv have room: "cursor_count (cur s) < 2 ^ k" by (simp add: spsc_inv_def)
  note one = cursor_ok_push1 [OF cap _ room]
  have "in_flight cap t = in_flight cap s @ [x]"
    using publish inv one
    by (simp add: in_flight_def ring_items_Suc spsc_inv_def cursor_tail_index)
  with publish inv one show ?thesis
    by (auto simp: spsc_inv_def cursor_head_index)
next
  case check_entry
  with inv show ?thesis
    by (simp add: spsc_inv_def in_flight_def cursor_is_empty_iff)
next
  case take_entry
  with inv show ?thesis by (simp add: spsc_inv_def in_flight_def)
next
  case (free_entry x)
  with inv have some: "0 < cursor_count (cur s)" and ok: "cursor_ok k (cur s)"
    by (simp_all add: spsc_inv_def)
  note one = cursor_ok_pop1 [OF ok some]
  have tail: "cursor_tail cap (cursor_pop 1 (cur s)) = cursor_tail cap (cur s)"
    by (simp add: cursor_tail_def cursor_pop_def)
  have "in_flight cap s = x # in_flight cap t"
    using free_entry inv in_flight_free [OF some, of cap] one
    by (simp add: in_flight_def spsc_inv_def)
  with free_entry inv some one tail show ?thesis
    by (auto simp: spsc_inv_def)
qed

lemma spsc_reachable_inv:
  assumes "pow2_cap cap k" and "spsc_reachable cap s"
  shows "spsc_inv k cap s"
  using assms(2)
proof (induction rule: spsc_reachable.induct)
  case (spsc_begin junk h)
  show ?case
    by (simp add: spsc_inv_def spsc_start_def in_flight_def cursor_ok_def cursor_count_def)
next
  case (spsc_next s t)
  then show ?case using spsc_step_inv [OF assms(1)] by blast
qed

section \<open>Properties\<close>

text \<open>C5. Single producer, single consumer: in every state that the interleaved steps of
  the two sides can reach, whatever the starting value of the counters (so across their
  wrap-around), what the consumer has received is a prefix of what the producer has
  published, in order, nothing lost and nothing twice; the rest is exactly what lies in the
  ring, and it never exceeds the capacity.\<close>

theorem spsc_fifo:
  assumes "pow2_cap cap k" and "spsc_reachable cap s"
  shows "sent s = received s @ in_flight cap s \<and>
         length (in_flight cap s) = unat (cursor_size (cur s)) \<and>
         unat (cursor_size (cur s)) \<le> 2 ^ k"
  using spsc_reachable_inv [OF assms]
  by (simp add: spsc_inv_def in_flight_def unat_cursor_size cursor_ok_def)

lemma spsc_fifo_witness:
  "\<exists>s. spsc_reachable (2::8 word) s \<and> received s = [] \<and> sent s = [7::nat]
     \<and> sent s = received s @ in_flight 2 s \<and> unat (cursor_size (cur s)) \<le> 2 ^ 1"
proof -
  let ?s0 = "spsc_start (\<lambda>_. 0) 255 :: (8 word, nat) spsc"
  let ?s1 = "?s0\<lparr>producer := PRoom\<rparr>"
  let ?s2 = "?s1\<lparr>slots := (slots ?s1)(cursor_tail 2 (cur ?s1) := 7), producer := PFilled 7\<rparr>"
  let ?s3 = "?s2\<lparr>cur := cursor_push 1 (cur ?s2), producer := PIdle, sent := sent ?s2 @ [7]\<rparr>"
  have cap: "pow2_cap (2::8 word) 1" by (simp add: pow2_cap_def)
  have "spsc_step 2 ?s0 ?s1"
    by (rule spsc_step.check_room) (simp_all add: spsc_start_def cursor_is_available_def)
  then have "spsc_reachable 2 ?s1" by (rule spsc_reachable.spsc_next [OF spsc_reachable.spsc_begin])
  moreover have "spsc_step 2 ?s1 ?s2" by (rule spsc_step.fill) simp
  ultimately have "spsc_reachable 2 ?s2" by (rule spsc_reachable.spsc_next)
  moreover have "spsc_step 2 ?s2 ?s3" by (rule spsc_step.publish) simp
  ultimately have r: "spsc_reachable 2 ?s3" by (rule spsc_reachable.spsc_next)
  from spsc_fifo [OF cap r] r show ?thesis
    by (intro exI [of _ ?s3]) (simp add: spsc_start_def)
qed

text \<open>
  The thread-unsafe waits assert exactly when the ring is full, respectively empty, the tests
  that \<open>is_available\<close> and \<open>is_empty\<close> make; the thread-safe ones return at the first load
  that differs.
\<close>

lemma cursor_wait_for_available_asserts:
  "cursor_wait_for_available False cap loads c = Inl AssertFail \<longleftrightarrow> \<not> cursor_is_available cap c"
proof -
  have "m_tail c - cap = m_head c \<longleftrightarrow> cap - (m_tail c - m_head c) = 0"
    by (auto simp: algebra_simps)
  then show ?thesis
    by (simp add: cursor_wait_for_available_def cursor_is_available_def)
qed

lemma cursor_wait_for_not_empty_asserts:
  "cursor_wait_for_not_empty False loads c = Inl AssertFail \<longleftrightarrow> cursor_is_empty c"
  by (simp add: cursor_wait_for_not_empty_def cursor_is_empty_def)

lemma wait_while_equal_Some:
  "wait_while_equal old loads = Some rest \<longleftrightarrow>
     (\<exists>n x. loads = replicate n old @ x # rest \<and> x \<noteq> old)"
proof (induction loads)
  case (Cons y ys)
  show ?case
  proof (cases "y = old")
    case True
    have "(\<exists>n x. old # ys = replicate n old @ x # rest \<and> x \<noteq> old) \<longleftrightarrow>
          (\<exists>n x. ys = replicate n old @ x # rest \<and> x \<noteq> old)" (is "?L = ?R")
    proof
      assume ?L
      then obtain n x where "old # ys = replicate n old @ x # rest" "x \<noteq> old" by blast
      then show ?R by (cases n) auto
    next
      assume ?R
      then obtain n x where "ys = replicate n old @ x # rest" "x \<noteq> old" by blast
      then show ?L by (intro exI [of _ "Suc n"] exI [of _ x]) simp
    qed
    with True Cons show ?thesis by simp
  next
    case False
    then have "(\<exists>n x. y # ys = replicate n old @ x # rest \<and> x \<noteq> old) \<longleftrightarrow> ys = rest" (is "?L = ?R")
    proof -
      have "ys = rest" if "y # ys = replicate n old @ x # rest" "x \<noteq> old" for n x
        using that False by (cases n) auto
      moreover have ?L if "ys = rest"
        using that False by (intro exI [of _ 0] exI [of _ y]) simp
      ultimately show ?thesis by blast
    qed
    with False show ?thesis by simp
  qed
qed simp

section \<open>Loads that are out of date\<close>

text \<open>
  What one side concludes from an old value of the other side's counter is still true: a slot that
  was free when the producer looked at the head is free, and an entry that was there when the
  consumer looked at the tail is there.
\<close>

lemma stale_head_available:
  assumes cap: "pow2_cap cap k" and old: "m_head c = seen + of_nat d" and room: "cursor_count c + d \<le> 2 ^ k"
    and av: "cursor_is_available_load_head True cap seen c"
  shows "cursor_is_available cap c"
proof -
  have ok: "cursor_ok k c" using room by (simp add: cursor_ok_def)
  have "m_tail c - seen = of_nat (cursor_count c + d)" using m_tail_count [of c] old by simp
  then have "cap \<noteq> of_nat (cursor_count c + d)"
    using av by (auto simp: cursor_is_available_load_head_def cursor_load_raw_head_def)
  then have "cursor_count c + d \<noteq> 2 ^ k" using cap by (metis of_nat_power of_nat_numeral pow2_cap_def)
  then show ?thesis using room cursor_is_available_iff [OF cap ok] by simp
qed

lemma stale_tail_not_empty:
  fixes c :: "'l::len word cursor"
  assumes old: "seen = m_head c + of_nat n" and moved: "m_tail c = seen + of_nat d"
    and fits: "n + d < 2 ^ LENGTH('l)" and there: "\<not> cursor_is_empty_load_tail True seen c"
  shows "\<not> cursor_is_empty c"
proof -
  have "n \<noteq> 0" using there old by (cases n) (simp_all add: cursor_is_empty_load_tail_def cursor_load_raw_tail_def)
  moreover have "m_tail c - m_head c = of_nat (n + d)" using old moved by simp
  then have "cursor_count c = n + d" using fits by (simp add: cursor_count_def unat_of_nat_fits del: of_nat_add)
  ultimately show ?thesis by (simp add: cursor_is_empty_iff)
qed

end
