(* ===== verification/Wait_List.thy ===== *)
theory Wait_List
  imports Prelude
begin

text \<open>
  The intrusive linked lists of awaiters on which the mutex, the semaphore, the condition
  variable and the shared task are built. Awaiters live in coroutine frames and are linked
  through a \<open>next\<close> field, here a map from addresses to addresses. New awaiters are pushed on
  a stack; the releasing side takes the whole stack at once and reverses it in place, so
  that awaiters are served in the order of their arrival.
\<close>

section \<open>Chains of next pointers\<close>

fun chain :: "(ptr \<Rightarrow> ptr) \<Rightarrow> ptr \<Rightarrow> ptr list \<Rightarrow> bool" where
  "chain nxt p [] \<longleftrightarrow> p = 0"
| "chain nxt p (a # as) \<longleftrightarrow> p = a \<and> a \<noteq> 0 \<and> chain nxt (nxt a) as"

lemma chain_null [simp]: "chain nxt 0 as \<longleftrightarrow> as = []"
  by (cases as) auto

lemma chain_nonnull: "p \<noteq> 0 \<Longrightarrow> chain nxt p as \<longleftrightarrow> (\<exists>bs. as = p # bs \<and> chain nxt (nxt p) bs)"
  by (cases as) auto

lemma chain_upd [simp]: "u \<notin> set as \<Longrightarrow> chain (nxt(u := v)) p as = chain nxt p as"
  by (induction as arbitrary: p) auto

lemma chain_cong: "(\<And>a. a \<in> set as \<Longrightarrow> f a = g a) \<Longrightarrow> chain f p as = chain g p as"
  by (induction as arbitrary: p) auto

lemma chain_unique: "chain nxt p as \<Longrightarrow> chain nxt p bs \<Longrightarrow> as = bs"
proof (induction as arbitrary: p bs)
  case (Cons a as)
  then show ?case by (cases bs) auto
qed (cases bs; simp)

lemma chain_suffix: "chain nxt p (as @ b # bs) \<Longrightarrow> chain nxt b (b # bs)"
  by (induction as arbitrary: p) auto

lemma chain_distinct: "chain nxt p as \<Longrightarrow> distinct as"
proof (induction as arbitrary: p)
  case (Cons a as)
  have "a \<notin> set as"
  proof
    assume "a \<in> set as"
    then obtain us vs where as: "as = us @ a # vs" by (auto simp: in_set_conv_decomp)
    with Cons.prems have "chain nxt a (a # us @ a # vs)" by simp
    moreover from Cons.prems as have "chain nxt a (a # vs)"
      using chain_suffix [of nxt p "a # us" a vs] by simp
    ultimately have "a # us @ a # vs = a # vs" by (rule chain_unique)
    then have "length (us @ a # vs) = length vs" by (metis list.inject)
    then show False by simp
  qed
  with Cons show ?case by auto
qed simp

lemma chain_no_null: "chain nxt p as \<Longrightarrow> 0 \<notin> set as"
  by (induction as arbitrary: p) auto

lemma chain_push: "chain nxt p as \<Longrightarrow> a \<noteq> 0 \<Longrightarrow> a \<notin> set as \<Longrightarrow> chain (nxt(a := p)) a (a # as)"
  by simp

lemma chain_append:
  assumes "chain nxt p xs" and "xs \<noteq> []" and "chain nxt q ys" and "set xs \<inter> set ys = {}"
  shows "chain (nxt(last xs := q)) p (xs @ ys)"
  using assms
proof (induction xs arbitrary: p)
  case (Cons a xs)
  show ?case
  proof (cases "xs = []")
    case True
    have "chain (nxt(a := q)) q ys" using Cons.prems True by simp
    with Cons.prems True show ?thesis by (simp add: fun_upd_def)
  next
    case False
    have "a \<noteq> last xs" using chain_distinct [OF Cons.prems(1)] False by auto
    with Cons False show ?thesis by simp
  qed
qed simp

section \<open>The in-place reversal loop\<close>

text \<open>
  The loop that both \<open>mutex::unlock\<close> and \<open>counting_semaphore::try_release\<close> run over the
  stack they took:
  \<^verbatim>\<open>
  do { tmp = node->next; node->next = resume_head;
       resume_head = node; node = tmp; } while (node != nullptr);
  \<close>
  It ends only if the list does, so the model returns \<open>None\<close> where it runs forever.
\<close>

partial_function (option) reverse_loop ::
  "(ptr \<Rightarrow> ptr) \<Rightarrow> ptr \<Rightarrow> ptr \<Rightarrow> ((ptr \<Rightarrow> ptr) \<times> ptr) option" where
  "reverse_loop nxt node resume_head =
     (let tmp = nxt node;
          nxt' = nxt(node := resume_head)
      in if tmp \<noteq> 0 then reverse_loop nxt' tmp node else Some (nxt', node))"

lemma reverse_loop_chain:
  assumes "chain nxt node (x # xs)" and "chain nxt resume_head ys" and "set (x # xs) \<inter> set ys = {}"
  obtains nxt' p where "reverse_loop nxt node resume_head = Some (nxt', p)"
    and "chain nxt' p (rev (x # xs) @ ys)" and "\<And>a. a \<notin> set (x # xs) \<Longrightarrow> nxt' a = nxt a"
  using assms
proof (induction xs arbitrary: nxt node resume_head x ys thesis)
  case Nil
  then have x: "node = x" "x \<noteq> 0" "nxt x = 0" by auto
  show ?case
  proof (rule Nil.prems(1))
    show "reverse_loop nxt node resume_head = Some (nxt(x := resume_head), x)"
      using x by (simp add: reverse_loop.simps)
    show "chain (nxt(x := resume_head)) x (rev [x] @ ys)"
      using chain_push [OF Nil.prems(3) x(2)] Nil.prems(4) by simp
  qed simp
next
  case (Cons x' xs)
  let ?nxt = "nxt(x := resume_head)"
  from Cons.prems(2) have x: "node = x" "x \<noteq> 0" "nxt x = x'" "x' \<noteq> 0" "chain nxt x' (x' # xs)"
    by auto
  from chain_distinct [OF Cons.prems(2)] have d: "x \<notin> set (x' # xs)" by simp
  from x(5) chain_upd [OF d] have tl: "chain ?nxt x' (x' # xs)" by blast
  from Cons.prems x have hd: "chain ?nxt x (x # ys)" by auto
  have "set (x' # xs) \<inter> set (x # ys) = {}" using Cons.prems(4) d by auto
  from Cons.IH [OF _ tl hd this] obtain nxt' p where r: "reverse_loop ?nxt x' x = Some (nxt', p)"
    "chain nxt' p (rev (x' # xs) @ x # ys)" "\<And>a. a \<notin> set (x' # xs) \<Longrightarrow> nxt' a = ?nxt a"
    by blast
  show ?case
  proof (rule Cons.prems(1))
    show "reverse_loop nxt node resume_head = Some (nxt', p)"
      using x r(1) by (simp add: reverse_loop.simps [of nxt])
    show "chain nxt' p (rev (x # x' # xs) @ ys)" using r(2) by simp
    show "nxt' a = nxt a" if "a \<notin> set (x # x' # xs)" for a using that r(3) by simp
  qed
qed

text \<open>Taken from the top of a stack that is not empty, the loop ends and reverses it.\<close>

lemma reverse_loop_stack:
  assumes "chain nxt p ss" and "ss \<noteq> []"
  obtains nxt' q where "reverse_loop nxt p 0 = Some (nxt', q)" and "chain nxt' q (rev ss)"
    and "\<And>a. a \<notin> set ss \<Longrightarrow> nxt' a = nxt a"
proof -
  from assms(2) obtain x xs where ss: "ss = x # xs" by (cases ss) auto
  obtain nxt' q where "reverse_loop nxt p 0 = Some (nxt', q)" "chain nxt' q (rev (x # xs) @ [])"
    "\<And>a. a \<notin> set (x # xs) \<Longrightarrow> nxt' a = nxt a"
    by (rule reverse_loop_chain [of nxt p x xs 0 "[]"]) (use assms ss in simp_all)
  with ss that show thesis by simp
qed

section \<open>The contract of a queue of waiters\<close>

text \<open>
  What the blocking primitives promise about their waiters: a state represents the list of
  waiters in the order of arrival; pushing a new awaiter appends it, popping returns the one
  that waited longest. \<open>pop\<close> returns \<open>None\<close> where it does not return and
  \<open>Some (None, s)\<close> where nobody waits.
\<close>

locale fifo_waiters =
  fixes push :: "ptr \<Rightarrow> 's \<Rightarrow> 's"
    and pop :: "'s \<Rightarrow> (ptr option \<times> 's) option"
    and rep :: "'s \<Rightarrow> ptr list \<Rightarrow> bool"
  assumes push_rep: "rep s ws \<Longrightarrow> a \<noteq> 0 \<Longrightarrow> a \<notin> set ws \<Longrightarrow> rep (push a s) (ws @ [a])"
    and pop_empty: "rep s [] \<Longrightarrow> \<exists>s'. pop s = Some (None, s') \<and> rep s' []"
    and pop_first: "rep s (a # ws) \<Longrightarrow> \<exists>s'. pop s = Some (Some a, s') \<and> rep s' ws"
begin

fun pops :: "nat \<Rightarrow> 's \<Rightarrow> (ptr list \<times> 's) option" where
  "pops 0 s = Some ([], s)"
| "pops (Suc n) s = (case pop s of
     None \<Rightarrow> None
   | Some (None, s') \<Rightarrow> Some ([], s')
   | Some (Some a, s') \<Rightarrow> map_option (\<lambda>(as, t). (a # as, t)) (pops n s'))"

lemma pushes_rep:
  "rep s ws \<Longrightarrow> 0 \<notin> set as \<Longrightarrow> distinct (ws @ as) \<Longrightarrow> rep (fold push as s) (ws @ as)"
proof (induction as arbitrary: s ws)
  case (Cons a as)
  then have "rep (push a s) (ws @ [a])" by (auto intro!: push_rep)
  from Cons.IH [OF this] Cons.prems show ?case by simp
qed simp

lemma pops_rep: "rep s ws \<Longrightarrow> \<exists>s'. pops n s = Some (take n ws, s') \<and> rep s' (drop n ws)"
proof (induction n arbitrary: s ws)
  case (Suc n)
  show ?case
  proof (cases ws)
    case Nil
    with Suc.prems pop_empty show ?thesis by fastforce
  next
    case (Cons a as)
    with Suc.prems pop_first obtain s' where "pop s = Some (Some a, s')" "rep s' as" by blast
    with Suc.IH [of s' as] Cons show ?thesis by auto
  qed
qed simp

text \<open>Waiters are served first come, first served.\<close>

lemma served_in_order:
  assumes "rep s []" and "0 \<notin> set as" and "distinct as"
  shows "\<exists>s'. pops n (fold push as s) = Some (take n as, s') \<and> rep s' (drop n as)"
  using pops_rep pushes_rep [OF assms(1,2)] assms(3) by fastforce

end

end
