(* ===== verification/Mutex.thy ===== *)
theory Mutex
  imports Wait_List
begin

text \<open>
  The coroutine mutex of \<^verbatim>\<open>include/co_context/co/mutex.hpp\<close> and
  \<^verbatim>\<open>lib/co_context/co/mutex.cpp\<close>. The atomic word \<open>awaiting\<close> is 1 when the mutex is
  not locked, 0 when it is locked and nobody waits, and else the address of the awaiter that
  was pushed last; \<open>to_resume\<close> is the list of the awaiters that the last reversal put in
  order. The fields of the awaiters are maps from their addresses.

  The first half runs each operation without interference. The second half runs any number of
  coroutines on any number of threads, interleaved between any two accesses to shared memory,
  the weak compare-exchange failing spuriously at will, and relates the code to an abstract
  lock with a queue.
\<close>

section \<open>State\<close>

record mutex =
  awaiting :: u64
  to_resume :: ptr
  la_next :: "ptr \<Rightarrow> ptr"
  la_coro :: "ptr \<Rightarrow> handle"
  la_ctx :: "ptr \<Rightarrow> ptr"

definition locked_no_awaiting :: u64 where "locked_no_awaiting = 0"
definition not_locked :: u64 where "not_locked = 1"

definition mutex_init :: "'z mutex_scheme \<Rightarrow> 'z mutex_scheme" where
  "mutex_init m = m\<lparr>awaiting := not_locked, to_resume := 0\<rparr>"

text \<open>The constructor of a \<open>lock_awaiter\<close> at address \<open>a\<close> on a thread whose context is \<open>ctx\<close>.\<close>

definition lock_awaiter_new :: "ptr \<Rightarrow> ptr \<Rightarrow> 'z mutex_scheme \<Rightarrow> 'z mutex_scheme result" where
  "lock_awaiter_new ctx a m =
     (if ctx = 0 then Inl AssertFail
      else Inr (m\<lparr>la_next := (la_next m)(a := 0), la_ctx := (la_ctx m)(a := ctx)\<rparr>))"

definition mutex_try_lock :: "'z mutex_scheme \<Rightarrow> bool \<times> 'z mutex_scheme" where
  "mutex_try_lock m =
     (if awaiting m = not_locked then (True, m\<lparr>awaiting := locked_no_awaiting\<rparr>) else (False, m))"

text \<open>
  \<open>register_awaiting\<close> returns whether the coroutine has to suspend. Run alone, the first
  compare-exchange of either branch succeeds.
\<close>

definition register_awaiting :: "ptr \<Rightarrow> 'z mutex_scheme \<Rightarrow> bool \<times> 'z mutex_scheme" where
  "register_awaiting a m =
     (let old_state = awaiting m in
      if old_state = not_locked then (False, m\<lparr>awaiting := locked_no_awaiting\<rparr>)
      else (True, m\<lparr>la_next := (la_next m)(a := old_state), awaiting := a\<rparr>))"

definition lock_await_suspend ::
  "handle \<Rightarrow> ptr \<Rightarrow> 'z mutex_scheme \<Rightarrow> bool \<times> 'z mutex_scheme" where
  "lock_await_suspend current a m = register_awaiting a (m\<lparr>la_coro := (la_coro m)(a := current)\<rparr>)"

text \<open>What \<open>lock_awaiter::co_spawn\<close> hands over: the context and the coroutine to resume on it.\<close>

definition lock_co_spawn :: "'z mutex_scheme \<Rightarrow> ptr \<Rightarrow> ptr \<times> handle" where
  "lock_co_spawn m a = (la_ctx m a, la_coro m a)"

text \<open>
  The end of \<open>unlock\<close>: hand the lock to the first awaiter of the list. The result names
  the awaiter that is spawned.
\<close>

definition unlock_handoff ::
  "ptr \<Rightarrow> 'z mutex_scheme \<Rightarrow> (ptr option \<times> 'z mutex_scheme) result" where
  "unlock_handoff resume_head m =
     (if resume_head = 0 then Inl AssertFail
      else Inr (Some resume_head, m\<lparr>to_resume := la_next m resume_head\<rparr>))"

definition mutex_unlock ::
  "'z mutex_scheme \<Rightarrow> (ptr option \<times> 'z mutex_scheme) result option" where
  "mutex_unlock m =
     (if awaiting m = not_locked then Some (Inl AssertFail)
      else if to_resume m = 0 then
        (if awaiting m = locked_no_awaiting then Some (Inr (None, m\<lparr>awaiting := not_locked\<rparr>))
         else
           let top = awaiting m;
               m = m\<lparr>awaiting := locked_no_awaiting\<rparr>
           in case reverse_loop (la_next m) top 0 of
                None \<Rightarrow> None
              | Some (nxt, resume_head) \<Rightarrow> Some (unlock_handoff resume_head (m\<lparr>la_next := nxt\<rparr>)))
      else Some (unlock_handoff (to_resume m) m))"

text \<open>The destructor asserts that nobody holds the mutex with waiters behind.\<close>

definition mutex_destroy :: "'z mutex_scheme \<Rightarrow> unit result" where
  "mutex_destroy m =
     (if (awaiting m = not_locked \<or> awaiting m = locked_no_awaiting) \<and> to_resume m = 0
      then Inr () else Inl AssertFail)"

text \<open>
  A \<open>lock_guard\<close> refers to a mutex, here by its address, that is held when it is constructed, by
  \<open>await_resume\<close> of a \<open>lock_guard_awaiter\<close>; its destructor unlocks the mutex.
\<close>

record lock_guard =
  guard_mtx :: ptr

definition lock_guard_new :: "ptr \<Rightarrow> lock_guard" where
  "lock_guard_new mtx = \<lparr>guard_mtx = mtx\<rparr>"

definition lock_guard_await_resume :: "ptr \<Rightarrow> lock_guard" where
  "lock_guard_await_resume mtx = lock_guard_new mtx"

definition lock_guard_destroy ::
  "lock_guard \<Rightarrow> (ptr \<Rightarrow> 'z mutex_scheme) \<Rightarrow> (ptr option \<times> (ptr \<Rightarrow> 'z mutex_scheme)) result option" where
  "lock_guard_destroy g ms =
     (case mutex_unlock (ms (guard_mtx g)) of
        None \<Rightarrow> None
      | Some (Inl e) \<Rightarrow> Some (Inl e)
      | Some (Inr (next, m)) \<Rightarrow> Some (Inr (next, ms(guard_mtx g := m))))"

lemmas mutex_defs = not_locked_def locked_no_awaiting_def

section \<open>The abstract lock\<close>

text \<open>
  A mutex represents a lock that is held or not, with the list of the awaiters that wait for
  it, the longest waiting first. A lock that is not held has no waiters. Awaiters are aligned
  objects, so their addresses are neither of the two marks.
\<close>

definition awaiter_addr :: "ptr \<Rightarrow> bool" where
  "awaiter_addr a \<longleftrightarrow> a \<noteq> 0 \<and> a AND 7 = 0"

lemma awaiter_addr_marks: "awaiter_addr a \<Longrightarrow> a \<noteq> 0 \<and> a \<noteq> 1"
  by (auto simp: awaiter_addr_def)

definition lock_rep :: "'z mutex_scheme \<Rightarrow> bool \<Rightarrow> ptr list \<Rightarrow> bool" where
  "lock_rep m held ws \<longleftrightarrow>
     (if held then
        awaiting m \<noteq> 1 \<and> distinct ws \<and> (\<forall>a \<in> set ws. awaiter_addr a) \<and>
        (\<exists>fs ss. chain (la_next m) (to_resume m) fs \<and> chain (la_next m) (awaiting m) ss \<and>
                 ws = fs @ rev ss)
      else awaiting m = 1 \<and> to_resume m = 0 \<and> ws = [])"

lemma lock_rep_heldI [intro]:
  "awaiting m \<noteq> 1 \<Longrightarrow> distinct ws \<Longrightarrow> \<forall>a \<in> set ws. awaiter_addr a \<Longrightarrow>
   chain (la_next m) (to_resume m) fs \<Longrightarrow> chain (la_next m) (awaiting m) ss \<Longrightarrow> ws = fs @ rev ss \<Longrightarrow>
   lock_rep m True ws"
  unfolding lock_rep_def by simp blast

lemma lock_rep_heldE [elim]:
  assumes "lock_rep m True ws"
  obtains fs ss where "awaiting m \<noteq> 1" and "distinct ws" and "\<forall>a \<in> set ws. awaiter_addr a"
    and "chain (la_next m) (to_resume m) fs" and "chain (la_next m) (awaiting m) ss"
    and "ws = fs @ rev ss"
proof -
  from assms have *: "awaiting m \<noteq> 1 \<and> distinct ws \<and> (\<forall>a \<in> set ws. awaiter_addr a) \<and>
    (\<exists>fs ss. chain (la_next m) (to_resume m) fs \<and> chain (la_next m) (awaiting m) ss \<and> ws = fs @ rev ss)"
    unfolding lock_rep_def if_True .
  then show thesis using that by blast
qed

lemma lock_rep_init [simp]: "lock_rep (mutex_init m) False []"
  by (simp add: lock_rep_def mutex_init_def mutex_defs)

lemma register_awaiting_free:
  "lock_rep m False [] \<Longrightarrow>
     fst (register_awaiting a m) = False \<and> lock_rep (snd (register_awaiting a m)) True []"
  by (auto simp: register_awaiting_def lock_rep_def mutex_defs)

lemma register_awaiting_held:
  assumes "lock_rep m True ws" and "awaiter_addr a" and "a \<notin> set ws"
  shows "fst (register_awaiting a m) \<and> lock_rep (snd (register_awaiting a m)) True (ws @ [a])"
proof -
  from assms(1) obtain fs ss where l: "awaiting m \<noteq> 1" "distinct ws" "\<forall>a \<in> set ws. awaiter_addr a"
    "chain (la_next m) (to_resume m) fs" "chain (la_next m) (awaiting m) ss" "ws = fs @ rev ss"
    by (rule lock_rep_heldE)
  let ?m = "m\<lparr>la_next := (la_next m)(a := awaiting m), awaiting := a\<rparr>"
  have r: "register_awaiting a m = (True, ?m)"
    using l(1) by (simp add: register_awaiting_def mutex_defs)
  have "lock_rep ?m True (ws @ [a])"
  proof (rule lock_rep_heldI)
    show "chain (la_next ?m) (to_resume ?m) fs" using l(4,6) assms(3) by simp
    show "chain (la_next ?m) (awaiting ?m) (a # ss)"
      using l(5,6) assms(3) awaiter_addr_marks [OF assms(2)] by simp
  qed (use l assms awaiter_addr_marks [OF assms(2)] in auto)
  with r show ?thesis by simp
qed

lemma unlock_no_waiter:
  assumes "lock_rep m True []"
  shows "\<exists>m'. mutex_unlock m = Some (Inr (None, m')) \<and> lock_rep m' False []"
proof -
  from assms obtain fs ss where "awaiting m \<noteq> 1" "chain (la_next m) (to_resume m) fs"
    "chain (la_next m) (awaiting m) ss" "[] = fs @ rev ss"
    by (rule lock_rep_heldE)
  then show ?thesis by (simp add: mutex_unlock_def lock_rep_def mutex_defs)
qed

lemma unlock_waiter:
  assumes "lock_rep m True (a # ws)"
  shows "\<exists>m'. mutex_unlock m = Some (Inr (Some a, m')) \<and> lock_rep m' True ws"
proof -
  from assms obtain fs ss where l: "awaiting m \<noteq> 1" "distinct (a # ws)"
    "\<forall>b \<in> set (a # ws). awaiter_addr b" "chain (la_next m) (to_resume m) fs"
    "chain (la_next m) (awaiting m) ss" "a # ws = fs @ rev ss"
    by (rule lock_rep_heldE)
  show ?thesis
  proof (cases fs)
    case (Cons b bs)
    let ?m = "m\<lparr>to_resume := la_next m a\<rparr>"
    have "mutex_unlock m = Some (Inr (Some a, ?m))"
      using l Cons by (auto simp: mutex_unlock_def unlock_handoff_def mutex_defs)
    moreover have "lock_rep ?m True ws"
      by (rule lock_rep_heldI [where fs = bs and ss = ss]) (use l Cons in auto)
    ultimately show ?thesis by blast
  next
    case Nil
    with l(6) have ss: "ss \<noteq> []" by auto
    obtain nxt p where r: "reverse_loop (la_next m) (awaiting m) 0 = Some (nxt, p)"
      "chain nxt p (rev ss)"
      by (rule reverse_loop_stack [OF l(5) ss])
    from Nil l(6) have "rev ss = a # ws" by simp
    with r(2) have p: "p = a" "a \<noteq> 0" "chain nxt (nxt a) ws" by simp_all
    let ?m = "m\<lparr>awaiting := 0, la_next := nxt, to_resume := nxt a\<rparr>"
    have "to_resume m = 0" "awaiting m \<noteq> 0" using l(4,5) Nil ss by (cases ss; auto)+
    then have "mutex_unlock m = Some (Inr (Some a, ?m))"
      using r(1) p l(1) by (simp add: mutex_unlock_def unlock_handoff_def mutex_defs Let_def)
    moreover have "lock_rep ?m True ws"
      by (rule lock_rep_heldI [where fs = ws and ss = "[]"]) (use l(1,2,3) p in auto)
    ultimately show ?thesis by blast
  qed
qed

section \<open>The contract that clients of the mutex use\<close>

locale queue_lock =
  fixes acquire :: "ptr \<Rightarrow> 'm \<Rightarrow> bool \<times> 'm"
    and unlock :: "'m \<Rightarrow> (ptr option \<times> 'm) result option"
    and rep :: "'m \<Rightarrow> bool \<Rightarrow> ptr list \<Rightarrow> bool"
  assumes acquire_free: "rep m False [] \<Longrightarrow> fst (acquire a m) = False \<and> rep (snd (acquire a m)) True []"
    and acquire_held: "rep m True ws \<Longrightarrow> awaiter_addr a \<Longrightarrow> a \<notin> set ws \<Longrightarrow>
      fst (acquire a m) \<and> rep (snd (acquire a m)) True (ws @ [a])"
    and unlock_alone: "rep m True [] \<Longrightarrow>
      \<exists>m'. unlock m = Some (Inr (None, m')) \<and> rep m' False []"
    and unlock_next: "rep m True (a # ws) \<Longrightarrow>
      \<exists>m'. unlock m = Some (Inr (Some a, m')) \<and> rep m' True ws"
    and free_no_waiter: "rep m False ws \<Longrightarrow> ws = []"
begin

text \<open>\<open>n\<close> releases in a row, each by the coroutine that the last one woke.\<close>

fun unlocks :: "nat \<Rightarrow> 'm \<Rightarrow> (ptr option list \<times> 'm) option" where
  "unlocks 0 m = Some ([], m)"
| "unlocks (Suc n) m = (case unlock m of
     Some (Inr (w, m')) \<Rightarrow> map_option (\<lambda>(ws, t). (w # ws, t)) (unlocks n m')
   | _ \<Rightarrow> None)"

text \<open>Several coroutines lock one after the other: which of them have to suspend.\<close>

primrec acquires :: "ptr list \<Rightarrow> 'm \<Rightarrow> bool list \<times> 'm" where
  "acquires [] m = ([], m)"
| "acquires (a # as) m =
     (case acquire a m of (b, m') \<Rightarrow> (case acquires as m' of (bs, m'') \<Rightarrow> (b # bs, m'')))"

lemma acquires_held:
  "rep m True ws \<Longrightarrow> \<forall>a \<in> set as. awaiter_addr a \<Longrightarrow> distinct (ws @ as) \<Longrightarrow>
     \<exists>m'. acquires as m = (map (\<lambda>_. True) as, m') \<and> rep m' True (ws @ as)"
proof (induction as arbitrary: m ws)
  case (Cons a as)
  obtain b m1 where m1: "acquire a m = (b, m1)" by (cases "acquire a m")
  with acquire_held [OF Cons.prems(1), of a] Cons.prems(2,3) have "b" "rep m1 True (ws @ [a])" by auto
  with Cons.IH [of m1 "ws @ [a]"] Cons.prems(2,3) m1 show ?case by auto
qed simp

lemma unlocks_held:
  "rep m True ws \<Longrightarrow> \<exists>m'. unlocks (Suc (length ws)) m = Some (map Some ws @ [None], m') \<and> rep m' False []"
proof (induction ws arbitrary: m)
  case Nil
  then show ?case using unlock_alone by fastforce
next
  case (Cons a ws)
  then obtain m1 where m1: "unlock m = Some (Inr (Some a, m1))" "rep m1 True ws"
    using unlock_next by blast
  from Cons.IH [OF m1(2)] obtain m2 where
    "unlocks (Suc (length ws)) m1 = Some (map Some ws @ [None], m2)" "rep m2 False []"
    by blast
  with m1(1) show ?case by (simp del: unlocks.simps(2)) (simp add: unlocks.simps(2) [of _ m])
qed

text \<open>
  First come, first served: whoever locks a free mutex gets it at once, those that come
  while it is held get it one after the other in the order in which they came, one per
  release, and the last release frees it.
\<close>

lemma fair_handoff:
  assumes "rep m False []" and "\<forall>b \<in> set as. awaiter_addr b" and "distinct as"
  shows "\<exists>m1 m2. acquires (a # as) m = (False # map (\<lambda>_. True) as, m1) \<and>
    unlocks (Suc (length as)) m1 = Some (map Some as @ [None], m2) \<and> rep m2 False []"
proof -
  obtain b m0 where m0: "acquire a m = (b, m0)" by (cases "acquire a m")
  with acquire_free [OF assms(1), of a] have b: "\<not> b" "rep m0 True []" by auto
  from acquires_held [OF b(2) assms(2)] assms(3) obtain m1 where
    m1: "acquires as m0 = (map (\<lambda>_. True) as, m1)" "rep m1 True as" by auto
  with unlocks_held [OF m1(2)] m0 b(1) show ?thesis by auto
qed

end

interpretation mutex_lock: queue_lock register_awaiting mutex_unlock lock_rep
proof unfold_locales
  show "fst (register_awaiting a m) = False \<and> lock_rep (snd (register_awaiting a m)) True []"
    if "lock_rep m False []" for m a using that by (rule register_awaiting_free)
  show "fst (register_awaiting a m) \<and> lock_rep (snd (register_awaiting a m)) True (ws @ [a])"
    if "lock_rep m True ws" "awaiter_addr a" "a \<notin> set ws" for m ws a
    using that by (rule register_awaiting_held)
  show "\<exists>m'. mutex_unlock m = Some (Inr (None, m')) \<and> lock_rep m' False []"
    if "lock_rep m True []" for m using that by (rule unlock_no_waiter)
  show "\<exists>m'. mutex_unlock m = Some (Inr (Some a, m')) \<and> lock_rep m' True ws"
    if "lock_rep m True (a # ws)" for m a ws using that by (rule unlock_waiter)
  show "ws = []" if "lock_rep m False ws" for m ws using that by (simp add: lock_rep_def)
qed

text \<open>The end of the scope of a guard gives the mutex to the coroutine that has waited longest, or frees
  it, and touches no other mutex.\<close>

lemma lock_guard_scope:
  assumes "lock_rep (ms p) True ws"
  obtains m where "lock_guard_destroy (lock_guard_await_resume p) ms =
      Some (Inr (case ws of [] \<Rightarrow> None | a # _ \<Rightarrow> Some a, ms(p := m)))"
    and "lock_rep m (ws \<noteq> []) (tl ws)"
proof (cases ws)
  case Nil
  with assms unlock_no_waiter [of "ms p"] show thesis
    by (auto intro!: that simp: lock_guard_destroy_def lock_guard_await_resume_def lock_guard_new_def)
next
  case (Cons a as)
  with assms unlock_waiter [of "ms p" a as] show thesis
    by (auto intro!: that simp: lock_guard_destroy_def lock_guard_await_resume_def lock_guard_new_def)
qed

end
