(* ===== verification/Mutex_Threads.thy ===== *)
theory Mutex_Threads
  imports Mutex
begin

text \<open>
  The mutex under interleaving. Every coroutine is named by the address of its lock awaiter
  and has a program counter that says which access to shared memory it makes next in
  \<open>register_awaiting\<close> or \<open>unlock\<close>. A step is one such access of one coroutine, or the
  decision of one to lock, to try to lock or to unlock.
\<close>

section \<open>Program counters and steps\<close>

datatype lock_pc =
    LIdle           \<comment> \<open>not in a call\<close>
  | LLoad           \<comment> \<open>about to load \<open>awaiting\<close>\<close>
  | LRetry u64      \<comment> \<open>at the head of the loop, with this \<open>old_state\<close>\<close>
  | LLinked u64     \<comment> \<open>has linked itself to this \<open>old_state\<close>, about to push itself\<close>
  | LWaiting        \<comment> \<open>suspended\<close>
  | LOwner          \<comment> \<open>holds the mutex\<close>
  | UStart          \<comment> \<open>about to read \<open>to_resume\<close>\<close>
  | UFree           \<comment> \<open>about to try \<open>locked_no_awaiting\<close> to \<open>not_locked\<close>\<close>
  | UGrab           \<comment> \<open>about to take the stack\<close>
  | UReverse ptr ptr \<comment> \<open>in the reversal loop, with \<open>node\<close> and \<open>resume_head\<close>\<close>
  | UHandoff ptr    \<comment> \<open>about to write \<open>to_resume\<close>\<close>
  | USpawn ptr      \<comment> \<open>about to spawn this awaiter\<close>

record mutex_sys = mutex +
  pc :: "ptr \<Rightarrow> lock_pc"

definition set_pc :: "ptr \<Rightarrow> lock_pc \<Rightarrow> mutex_sys \<Rightarrow> mutex_sys" where
  "set_pc a p s = s\<lparr>pc := (pc s)(a := p)\<rparr>"

text \<open>The next access of coroutine \<open>a\<close>; \<open>weak\<close> makes a weak compare-exchange fail.\<close>

definition lock_advance :: "bool \<Rightarrow> ptr \<Rightarrow> mutex_sys \<Rightarrow> mutex_sys" where
  "lock_advance weak a s = (case pc s a of
     LLoad \<Rightarrow> set_pc a (LRetry (awaiting s)) s
   | LRetry old_state \<Rightarrow>
       (if old_state = not_locked then
          (if \<not> weak \<and> awaiting s = old_state
           then set_pc a LOwner (s\<lparr>awaiting := locked_no_awaiting\<rparr>)
           else set_pc a (LRetry (awaiting s)) s)
        else set_pc a (LLinked old_state) (s\<lparr>la_next := (la_next s)(a := old_state)\<rparr>))
   | LLinked old_state \<Rightarrow>
       (if \<not> weak \<and> awaiting s = old_state
        then set_pc a LWaiting (s\<lparr>awaiting := a\<rparr>)
        else set_pc a (LRetry (awaiting s)) s)
   | UStart \<Rightarrow> set_pc a (if to_resume s = 0 then UFree else UHandoff (to_resume s)) s
   | UFree \<Rightarrow>
       (if awaiting s = locked_no_awaiting
        then set_pc a LIdle (s\<lparr>awaiting := not_locked\<rparr>)
        else set_pc a UGrab s)
   | UGrab \<Rightarrow> set_pc a (UReverse (awaiting s) 0) (s\<lparr>awaiting := locked_no_awaiting\<rparr>)
   | UReverse node resume_head \<Rightarrow>
       (let tmp = la_next s node;
            s = s\<lparr>la_next := (la_next s)(node := resume_head)\<rparr>
        in set_pc a (if tmp \<noteq> 0 then UReverse tmp node else UHandoff node) s)
   | UHandoff resume_head \<Rightarrow>
       set_pc a (USpawn resume_head) (s\<lparr>to_resume := la_next s resume_head\<rparr>)
   | USpawn resume_head \<Rightarrow> set_pc resume_head LOwner (set_pc a LIdle s)
   | _ \<Rightarrow> s)"

inductive mutex_step :: "mutex_sys \<Rightarrow> mutex_sys \<Rightarrow> bool" where
  call_lock: "pc s a = LIdle \<Longrightarrow> awaiter_addr a \<Longrightarrow> mutex_step s (set_pc a LLoad s)"
| call_try_lock: "pc s a = LIdle \<Longrightarrow> awaiter_addr a \<Longrightarrow>
     mutex_step s (case mutex_try_lock s of (ok, s') \<Rightarrow> set_pc a (if ok then LOwner else LIdle) s')"
| call_unlock: "pc s a = LOwner \<Longrightarrow> mutex_step s (set_pc a UStart s)"
| advance: "pc s a \<notin> {LIdle, LWaiting, LOwner} \<Longrightarrow> mutex_step s (lock_advance weak a s)"

definition mutex_sys_init :: "mutex_sys \<Rightarrow> bool" where
  "mutex_sys_init s \<longleftrightarrow> awaiting s = not_locked \<and> to_resume s = 0 \<and> pc s = (\<lambda>_. LIdle)"

inductive mutex_reachable :: "mutex_sys \<Rightarrow> bool" where
  mutex_start: "mutex_sys_init s \<Longrightarrow> mutex_reachable s"
| mutex_next: "mutex_reachable s \<Longrightarrow> mutex_step s t \<Longrightarrow> mutex_reachable t"

section \<open>The abstract lock\<close>

text \<open>A lock with its holder and the queue of those who wait.\<close>

type_synonym lock_spec = "ptr option \<times> ptr list"

inductive lock_spec_step :: "lock_spec \<Rightarrow> lock_spec \<Rightarrow> bool" where
  spec_acquire: "lock_spec_step (None, []) (Some a, [])"
| spec_wait: "a \<noteq> h \<Longrightarrow> a \<notin> set q \<Longrightarrow> lock_spec_step (Some h, q) (Some h, q @ [a])"
| spec_release: "lock_spec_step (Some h, []) (None, [])"
| spec_handoff: "lock_spec_step (Some h, a # q) (Some a, q)"

inductive lock_spec_reachable :: "lock_spec \<Rightarrow> bool" where
  spec_start: "lock_spec_reachable (None, [])"
| spec_next: "lock_spec_reachable x \<Longrightarrow> lock_spec_step x y \<Longrightarrow> lock_spec_reachable y"

section \<open>How a state of the code represents the abstract lock\<close>

fun holds_lock :: "lock_pc \<Rightarrow> bool" where
  "holds_lock LOwner = True"
| "holds_lock UStart = True"
| "holds_lock UFree = True"
| "holds_lock UGrab = True"
| "holds_lock (UReverse _ _) = True"
| "holds_lock (UHandoff _) = True"
| "holds_lock (USpawn _) = True"
| "holds_lock _ = False"

text \<open>
  The part of the queue that is no longer on the stack, as a function of where its holder is:
  the list from \<open>to_resume\<close>, or the two halves of the list under reversal, or the list whose
  first awaiter is about to be spawned.
\<close>

definition front_rep :: "mutex_sys \<Rightarrow> lock_pc \<Rightarrow> ptr list \<Rightarrow> bool" where
  "front_rep s p fs = (case p of
     UFree \<Rightarrow> fs = [] \<and> to_resume s = 0
   | UGrab \<Rightarrow> fs = [] \<and> to_resume s = 0 \<and> awaiting s \<noteq> 0
   | UReverse node resume_head \<Rightarrow>
       (\<exists>ns rs. ns \<noteq> [] \<and> chain (la_next s) node ns \<and> chain (la_next s) resume_head rs \<and>
                fs = rev ns @ rs)
   | UHandoff resume_head \<Rightarrow> fs \<noteq> [] \<and> chain (la_next s) resume_head fs
   | USpawn resume_head \<Rightarrow> (\<exists>gs. fs = resume_head # gs \<and> chain (la_next s) (to_resume s) gs)
   | _ \<Rightarrow> chain (la_next s) (to_resume s) fs)"

definition queue_rep :: "mutex_sys \<Rightarrow> lock_pc \<Rightarrow> ptr list \<Rightarrow> bool" where
  "queue_rep s p q \<longleftrightarrow>
     (\<exists>fs ss. front_rep s p fs \<and> chain (la_next s) (awaiting s) ss \<and> q = fs @ rev ss)"

lemma queue_repI:
  "front_rep s p fs \<Longrightarrow> chain (la_next s) (awaiting s) ss \<Longrightarrow> q = fs @ rev ss \<Longrightarrow> queue_rep s p q"
  unfolding queue_rep_def by blast

definition mutex_inv :: "mutex_sys \<Rightarrow> ptr option \<Rightarrow> ptr list \<Rightarrow> bool" where
  "mutex_inv s h q \<longleftrightarrow>
     (\<forall>a. holds_lock (pc s a) \<longleftrightarrow> h = Some a) \<and>
     (\<forall>a. pc s a = LWaiting \<longleftrightarrow> a \<in> set q) \<and>
     (\<forall>a. pc s a \<noteq> LIdle \<longrightarrow> awaiter_addr a) \<and>
     (\<forall>a old. pc s a = LLinked old \<longrightarrow> la_next s a = old \<and> old \<noteq> 1) \<and>
     distinct q \<and>
     (case h of None \<Rightarrow> awaiting s = 1 \<and> to_resume s = 0 \<and> q = []
      | Some a \<Rightarrow> awaiting s \<noteq> 1 \<and> queue_rep s (pc s a) q)"

lemma set_pc_simps [simp]:
  "pc (set_pc a p s) b = (if b = a then p else pc s b)"
  "awaiting (set_pc a p s) = awaiting s" "to_resume (set_pc a p s) = to_resume s"
  "la_next (set_pc a p s) = la_next s"
  by (simp_all add: set_pc_def)

lemma front_rep_cong:
  assumes f: "front_rep s p fs" and nxt: "\<And>b. b \<in> set fs \<Longrightarrow> la_next t b = la_next s b"
    and tr: "to_resume t = to_resume s" and aw: "p = UGrab \<Longrightarrow> awaiting t \<noteq> 0"
  shows "front_rep t p fs"
proof -
  have c: "chain (la_next t) x xs = chain (la_next s) x xs" if "set xs \<subseteq> set fs" for x xs
    using that nxt by (intro chain_cong) auto
  show ?thesis
  proof (cases p)
    case (UReverse node resume_head)
    with f obtain ns rs where "ns \<noteq> []" "chain (la_next s) node ns" "chain (la_next s) resume_head rs"
      "fs = rev ns @ rs"
      by (auto simp: front_rep_def)
    with c [of ns] c [of rs] show ?thesis
      unfolding front_rep_def UReverse lock_pc.case by (intro exI [of _ ns] exI [of _ rs]) auto
  next
    case (USpawn resume_head)
    with f obtain gs where "fs = resume_head # gs" "chain (la_next s) (to_resume s) gs"
      by (auto simp: front_rep_def)
    with c [of gs] tr USpawn show ?thesis by (auto simp: front_rep_def)
  qed (use f c [of fs] tr aw in \<open>simp_all add: front_rep_def\<close>)
qed

lemma queue_rep_same:
  assumes "queue_rep s p q" and "\<And>b. b \<in> set q \<Longrightarrow> la_next t b = la_next s b"
    and "to_resume t = to_resume s" and "awaiting t = awaiting s"
  shows "queue_rep t p q"
proof -
  from assms(1) obtain fs ss where q: "front_rep s p fs" "chain (la_next s) (awaiting s) ss"
    "q = fs @ rev ss"
    by (auto simp: queue_rep_def)
  have g: "p = UGrab \<Longrightarrow> awaiting t \<noteq> 0" using q(1) assms(4) by (simp add: front_rep_def)
  have "la_next t b = la_next s b" if "b \<in> set fs" for b using that assms(2) q(3) by simp
  from front_rep_cong [OF q(1) this assms(3) g] have "front_rep t p fs" .
  moreover have "la_next s b = la_next t b" if "b \<in> set ss" for b using that assms(2) q(3) by simp
  from chain_cong [OF this] have "chain (la_next t) (awaiting t) ss"
    using q(2) assms(4) by simp
  ultimately show ?thesis unfolding queue_rep_def using q(3) by blast
qed

lemma queue_rep_cong:
  "(\<And>b. b \<in> set q \<Longrightarrow> la_next t b = la_next s b) \<Longrightarrow> to_resume t = to_resume s \<Longrightarrow>
   awaiting t = awaiting s \<Longrightarrow> queue_rep s p q \<longleftrightarrow> queue_rep t p q"
  using queue_rep_same [of s p q t] queue_rep_same [of t p q s] by auto

lemma mutex_invI:
  assumes "\<And>a. holds_lock (pc s a) \<longleftrightarrow> h = Some a" and "\<And>a. pc s a = LWaiting \<longleftrightarrow> a \<in> set q"
    and "\<And>a. pc s a \<noteq> LIdle \<Longrightarrow> awaiter_addr a"
    and "\<And>a old. pc s a = LLinked old \<Longrightarrow> la_next s a = old \<and> old \<noteq> 1" and "distinct q"
    and "h = None \<Longrightarrow> awaiting s = 1 \<and> to_resume s = 0 \<and> q = []"
    and "\<And>a. h = Some a \<Longrightarrow> awaiting s \<noteq> 1 \<and> queue_rep s (pc s a) q"
  shows "mutex_inv s h q"
  unfolding mutex_inv_def using assms by (simp split: option.split)

lemma mutex_invD:
  assumes "mutex_inv s h q"
  shows "holds_lock (pc s a) \<longleftrightarrow> h = Some a" and "pc s a = LWaiting \<longleftrightarrow> a \<in> set q"
    and "pc s a \<noteq> LIdle \<Longrightarrow> awaiter_addr a"
    and "pc s a = LLinked old \<Longrightarrow> la_next s a = old" and "pc s a = LLinked old \<Longrightarrow> old \<noteq> 1"
    and "distinct q"
    and "h = None \<Longrightarrow> awaiting s = 1 \<and> to_resume s = 0 \<and> q = []"
    and "h = Some a \<Longrightarrow> awaiting s \<noteq> 1" and "h = Some a \<Longrightarrow> queue_rep s (pc s a) q"
  using assms unfolding mutex_inv_def by simp_all

lemma queue_rep_addr: "mutex_inv s h q \<Longrightarrow> a \<in> set q \<Longrightarrow> awaiter_addr a"
  using mutex_invD(2,3) [of s h q a] by simp

section \<open>Every step of the code is a step of the abstract lock or none\<close>

text \<open>A coroutine that does not wait moves on and touches nothing of the queue.\<close>

lemma mutex_inv_local:
  assumes inv: "mutex_inv s h q" and a: "awaiter_addr a"
    and t: "pc t = (pc s)(a := p)" "awaiting t = awaiting s" "to_resume t = to_resume s"
    and nxt: "\<And>b. b \<noteq> a \<Longrightarrow> la_next t b = la_next s b"
    and p: "holds_lock p \<longleftrightarrow> holds_lock (pc s a)" "p \<noteq> LWaiting" "pc s a \<noteq> LWaiting"
    and link: "\<And>old. p = LLinked old \<Longrightarrow> la_next t a = old \<and> old \<noteq> 1"
    and front: "h = Some a \<Longrightarrow> queue_rep s p q"
  shows "mutex_inv t h q"
proof -
  note i = mutex_invD [OF inv]
  have notin: "a \<notin> set q" using i(2) [of a] p(3) by simp
  have q: "queue_rep t p' q \<longleftrightarrow> queue_rep s p' q" for p'
  proof (rule queue_rep_cong)
    show "la_next s b = la_next t b" if "b \<in> set q" for b using that notin nxt [of b] by force
  qed (use t in simp_all)
  show ?thesis
  proof (rule mutex_invI)
    show "holds_lock (pc t b) \<longleftrightarrow> h = Some b" for b using i(1) [of b] p(1) t(1) by auto
    show "pc t b = LWaiting \<longleftrightarrow> b \<in> set q" for b using i(2) [of b] p notin t(1) by simp
    show "awaiter_addr b" if "pc t b \<noteq> LIdle" for b
      using that i(3) [of b] a t(1) by (cases "b = a") simp_all
    show "la_next t b = old \<and> old \<noteq> 1" if "pc t b = LLinked old" for b old
      using that link [of old] i(4,5) [of b old] nxt [of b] t(1) by (cases "b = a") simp_all
    show "distinct q" by (rule i(6))
    show "awaiting t = 1 \<and> to_resume t = 0 \<and> q = []" if "h = None" using i(7) [OF that] t by simp
    show "awaiting t \<noteq> 1 \<and> queue_rep t (pc t b) q" if "h = Some b" for b
      using that i(8,9) [OF that] front q t by (cases "b = a") simp_all
  qed
qed

text \<open>The holder moves on inside \<open>unlock\<close> and touches only the links of those who wait.\<close>

lemma mutex_inv_holder:
  assumes inv: "mutex_inv s (Some a) q" and t: "pc t = (pc s)(a := p)" and p: "holds_lock p"
    and nxt: "\<And>b. b \<notin> set q \<Longrightarrow> la_next t b = la_next s b"
    and aw: "awaiting t \<noteq> 1" and rep: "queue_rep t p q"
  shows "mutex_inv t (Some a) q"
proof -
  note i = mutex_invD [OF inv]
  have pa: "pc s a \<noteq> LIdle" "pc s a \<noteq> LWaiting" "p \<noteq> LWaiting" "\<And>old. p \<noteq> LLinked old"
    using i(1) [of a] p by auto
  then have notin: "a \<notin> set q" using i(2) [of a] by simp
  show ?thesis
  proof (rule mutex_invI)
    show "holds_lock (pc t b) \<longleftrightarrow> Some a = Some b" for b using i(1) [of b] p t by auto
    show "pc t b = LWaiting \<longleftrightarrow> b \<in> set q" for b using i(2) [of b] pa notin t by simp
    show "awaiter_addr b" if "pc t b \<noteq> LIdle" for b
      using that i(3) [of b] pa t by (cases "b = a") simp_all
    show "la_next t b = old \<and> old \<noteq> 1" if "pc t b = LLinked old" for b old
      using that i(2,4,5) [of b] nxt [of b] pa t by (cases "b = a") auto
  qed (use aw rep t i(6) in auto)
qed

text \<open>Taking a free mutex, by a lock or by a \<open>try_lock\<close>.\<close>

lemma mutex_inv_acquire:
  assumes inv: "mutex_inv s h q" and a: "awaiter_addr a" and free: "awaiting s = 1"
    and t: "pc t = (pc s)(a := LOwner)" "awaiting t = 0" "to_resume t = to_resume s"
      "la_next t = la_next s"
  shows "h = None \<and> q = [] \<and> mutex_inv t (Some a) []"
proof -
  note i = mutex_invD [OF inv]
  have h: "h = None" using i(8) free by (cases h) simp_all
  from i(7) [OF this] have q: "q = []" "to_resume s = 0" by simp_all
  have "mutex_inv t (Some a) []"
  proof (rule mutex_invI)
    show "holds_lock (pc t b) \<longleftrightarrow> Some a = Some b" for b using i(1) [of b] h t(1) by auto
    show "pc t b = LWaiting \<longleftrightarrow> b \<in> set []" for b using i(2) [of b] q t(1) by simp
    show "awaiter_addr b" if "pc t b \<noteq> LIdle" for b
      using that i(3) [of b] a t(1) by (cases "b = a") simp_all
    show "la_next t b = old \<and> old \<noteq> 1" if "pc t b = LLinked old" for b old
      using that i(4,5) [of b old] t by (cases "b = a") simp_all
  qed (use t q in \<open>auto simp: queue_rep_def front_rep_def\<close>)
  with h q show ?thesis by simp
qed

text \<open>The push of an awaiter that finds the word as it linked it.\<close>

lemma mutex_inv_push:
  assumes inv: "mutex_inv s h q" and pa: "pc s a = LLinked (awaiting s)"
    and t: "pc t = (pc s)(a := LWaiting)" "awaiting t = a" "to_resume t = to_resume s"
      "la_next t = la_next s"
  shows "\<exists>b. h = Some b \<and> a \<noteq> b \<and> a \<notin> set q \<and> mutex_inv t h (q @ [a])"
proof -
  note i = mutex_invD [OF inv]
  from i(4,5) [OF pa] have l: "la_next s a = awaiting s" "awaiting s \<noteq> 1" by simp_all
  with i(7) obtain b where h: "h = Some b" by (cases h) simp_all
  have ab: "b \<noteq> a" using i(1) [of a] pa h by auto
  have notin: "a \<notin> set q" using i(2) [of a] pa by simp
  have addr: "awaiter_addr a" using i(3) [of a] pa by simp
  from i(9) [OF h] obtain fs ss where r: "front_rep s (pc s b) fs"
    "chain (la_next s) (awaiting s) ss" "q = fs @ rev ss"
    by (auto simp: queue_rep_def)
  have "front_rep t (pc s b) fs"
    by (rule front_rep_cong [OF r(1)]) (use t awaiter_addr_marks [OF addr] in simp_all)
  moreover have "chain (la_next t) (awaiting t) (a # ss)"
    using r(2) l(1) t awaiter_addr_marks [OF addr] by simp
  moreover have "q @ [a] = fs @ rev (a # ss)" using r(3) by simp
  ultimately have rep: "queue_rep t (pc s b) (q @ [a])" unfolding queue_rep_def by blast
  have "mutex_inv t h (q @ [a])"
  proof (rule mutex_invI)
    show "holds_lock (pc t c) \<longleftrightarrow> h = Some c" for c using i(1) [of c] h ab t(1) by auto
    show "pc t c = LWaiting \<longleftrightarrow> c \<in> set (q @ [a])" for c using i(2) [of c] t(1) by simp
    show "awaiter_addr c" if "pc t c \<noteq> LIdle" for c
      using that i(3) [of c] addr t(1) by (cases "c = a") simp_all
    show "la_next t c = old \<and> old \<noteq> 1" if "pc t c = LLinked old" for c old
      using that i(4,5) [of c old] t by (cases "c = a") simp_all
    show "distinct (q @ [a])" using i(6) notin by simp
    show "awaiting t \<noteq> 1 \<and> queue_rep t (pc t c) (q @ [a])" if "h = Some c" for c
      using that h rep ab t awaiter_addr_marks [OF addr] by simp
  qed (use h in simp)
  with h ab notin show ?thesis by blast
qed

text \<open>The release of a mutex for which nobody waits.\<close>

lemma mutex_inv_release:
  assumes inv: "mutex_inv s h q" and pa: "pc s a = UFree" and aw: "awaiting s = 0"
    and t: "pc t = (pc s)(a := LIdle)" "awaiting t = 1" "to_resume t = to_resume s"
      "la_next t = la_next s"
  shows "h = Some a \<and> q = [] \<and> mutex_inv t None []"
proof -
  note i = mutex_invD [OF inv]
  have h: "h = Some a" using i(1) [of a] pa by simp
  from i(9) [OF this] pa aw have q: "q = []" "to_resume s = 0"
    by (auto simp: queue_rep_def front_rep_def)
  have "mutex_inv t None []"
  proof (rule mutex_invI)
    show "holds_lock (pc t c) \<longleftrightarrow> None = Some c" for c using i(1) [of c] h t(1) by auto
    show "pc t c = LWaiting \<longleftrightarrow> c \<in> set []" for c using i(2) [of c] q t(1) by simp
    show "awaiter_addr c" if "pc t c \<noteq> LIdle" for c
      using that i(3) [of c] t(1) by (cases "c = a") simp_all
    show "la_next t c = old \<and> old \<noteq> 1" if "pc t c = LLinked old" for c old
      using that i(4,5) [of c old] t by (cases "c = a") simp_all
  qed (use t q in simp_all)
  with h q show ?thesis by simp
qed

text \<open>The steps of the holder on the list of those who wait.\<close>

lemma queue_rep_grab:
  assumes "queue_rep s UGrab q" and "la_next t = la_next s" and "awaiting t = 0"
  shows "queue_rep t (UReverse (awaiting s) 0) q"
proof -
  from assms(1) obtain fs ss where r: "front_rep s UGrab fs" "chain (la_next s) (awaiting s) ss"
    "q = fs @ rev ss"
    by (auto simp: queue_rep_def)
  then have "awaiting s \<noteq> 0" "fs = []" by (simp_all add: front_rep_def)
  with r(2) have "ss \<noteq> []" by auto
  with r \<open>fs = []\<close> assms(2,3) show ?thesis by (auto simp: queue_rep_def front_rep_def)
qed

lemma queue_rep_reverse:
  assumes rep: "queue_rep s (UReverse node r) q" and d: "distinct q"
    and t: "la_next t = (la_next s)(node := r)" "awaiting t = awaiting s"
  shows "node \<in> set q \<and>
    queue_rep t (if la_next s node \<noteq> 0 then UReverse (la_next s node) node else UHandoff node) q"
proof -
  from rep obtain ns rs ss where n: "ns \<noteq> []" "chain (la_next s) node ns" "chain (la_next s) r rs"
    "chain (la_next s) (awaiting s) ss" "q = rev ns @ rs @ rev ss"
    by (auto simp: queue_rep_def front_rep_def)
  from n(1,2) obtain ms where ms: "ns = node # ms" "node \<noteq> 0" "chain (la_next s) (la_next s node) ms"
    by (cases ns) auto
  from d n(5) ms(1) have notin: "node \<notin> set ms" "node \<notin> set rs" "node \<notin> set ss" by auto
  have c: "chain (la_next t) (la_next s node) ms" "chain (la_next t) node (node # rs)"
    "chain (la_next t) (awaiting t) ss"
    using ms n(3,4) notin t by simp_all
  show ?thesis
  proof (cases "la_next s node = 0")
    case True
    with ms(3) have "ms = []" by simp
    have "queue_rep t (UHandoff node) q"
      by (rule queue_repI [of _ _ "node # rs" ss])
        (use c n(5) ms(1) \<open>ms = []\<close> in \<open>simp_all add: front_rep_def\<close>)
    with True n(5) ms(1) show ?thesis by simp
  next
    case False
    with ms(3) have "ms \<noteq> []" by auto
    then have "front_rep t (UReverse (la_next s node) node) (rev ms @ node # rs)"
      unfolding front_rep_def lock_pc.case using c(1,2) by blast
    moreover have "q = (rev ms @ node # rs) @ rev ss" using n(5) ms(1) by simp
    ultimately have "queue_rep t (UReverse (la_next s node) node) q"
      by (intro queue_repI [OF _ c(3)])
    with False n(5) ms(1) show ?thesis by simp
  qed
qed

lemma queue_rep_handoff:
  assumes rep: "queue_rep s (UHandoff r) q"
    and t: "la_next t = la_next s" "awaiting t = awaiting s" "to_resume t = la_next s r"
  shows "queue_rep t (USpawn r) q"
proof -
  from rep obtain fs ss where r: "fs \<noteq> []" "chain (la_next s) r fs" "chain (la_next s) (awaiting s) ss"
    "q = fs @ rev ss"
    by (auto simp: queue_rep_def front_rep_def)
  from r(1,2) obtain gs where "fs = r # gs" "chain (la_next s) (la_next s r) gs"
    by (cases fs) auto
  show ?thesis
    by (rule queue_repI [of _ _ "r # gs" ss])
      (use r t \<open>fs = r # gs\<close> \<open>chain _ (la_next s r) gs\<close> in \<open>simp_all add: front_rep_def\<close>)
qed

lemma mutex_inv_spawn:
  assumes inv: "mutex_inv s h q" and pa: "pc s a = USpawn r"
    and t: "pc t = (pc s)(a := LIdle, r := LOwner)" "awaiting t = awaiting s"
      "to_resume t = to_resume s" "la_next t = la_next s"
  shows "\<exists>q'. h = Some a \<and> q = r # q' \<and> mutex_inv t (Some r) q'"
proof -
  note i = mutex_invD [OF inv]
  have h: "h = Some a" using i(1) [of a] pa by simp
  from i(9) [OF this] pa obtain gs ss where r: "chain (la_next s) (to_resume s) gs"
    "chain (la_next s) (awaiting s) ss" "q = (r # gs) @ rev ss"
    by (auto simp: queue_rep_def front_rep_def)
  let ?q = "gs @ rev ss"
  from r(3) have q: "q = r # ?q" by simp
  have rw: "pc s r = LWaiting" using i(2) [of r] q by simp
  have ra: "r \<noteq> a" using rw pa by auto
  have d: "r \<notin> set ?q" "distinct ?q" using i(6) q by simp_all
  have rep: "queue_rep t LOwner ?q"
    unfolding queue_rep_def front_rep_def lock_pc.case using r t by auto
  have "mutex_inv t (Some r) ?q"
  proof (rule mutex_invI)
    show "holds_lock (pc t c) \<longleftrightarrow> Some r = Some c" for c using i(1) [of c] h ra t(1) by auto
    show "pc t c = LWaiting \<longleftrightarrow> c \<in> set ?q" for c
      using i(2) [of c] q pa d(1) t(1) by auto
    show "awaiter_addr c" if "pc t c \<noteq> LIdle" for c
      using that i(3) [of c] rw t(1) by (cases "c = r"; cases "c = a") simp_all
    show "la_next t c = old \<and> old \<noteq> 1" if "pc t c = LLinked old" for c old
      using that i(4,5) [of c old] t by (cases "c = r"; cases "c = a") simp_all
    show "awaiting t \<noteq> 1 \<and> queue_rep t (pc t c) ?q" if "Some r = Some c" for c
      using that i(8) [OF h] rep t by simp
  qed (use d in simp_all)
  with h q show ?thesis by blast
qed

text \<open>Every step, put together.\<close>

definition spec_sim :: "lock_spec \<Rightarrow> mutex_sys \<Rightarrow> bool" where
  "spec_sim x t \<longleftrightarrow> (\<exists>h q. (x = (h, q) \<or> lock_spec_step x (h, q)) \<and> mutex_inv t h q)"

lemma spec_sim_stutter: "mutex_inv t h q \<Longrightarrow> spec_sim (h, q) t"
  unfolding spec_sim_def by blast

lemma spec_sim_step: "lock_spec_step x (h, q) \<Longrightarrow> mutex_inv t h q \<Longrightarrow> spec_sim x t"
  unfolding spec_sim_def by blast

lemma spec_sim_acquire:
  assumes "mutex_inv s h q" and "awaiter_addr a" and "awaiting s = 1"
    and "pc t = (pc s)(a := LOwner)" "awaiting t = 0" "to_resume t = to_resume s"
      "la_next t = la_next s"
  shows "spec_sim (h, q) t"
  using mutex_inv_acquire [OF assms] by (auto intro: spec_sim_step spec_acquire)

lemma advance_sim:
  assumes inv: "mutex_inv s h q" and pa: "pc s a \<notin> {LIdle, LWaiting, LOwner}"
  shows "spec_sim (h, q) (lock_advance weak a s)"
proof -
  note i = mutex_invD [OF inv]
  have addr: "awaiter_addr a" using i(3) [of a] pa by auto
  note loc = mutex_inv_local [OF inv addr]
  have hold: "h = Some a \<and> queue_rep s (pc s a) q \<and> awaiting s \<noteq> 1" if "holds_lock (pc s a)"
    using that i(1) [of a] i(8,9) by simp
  show ?thesis
  proof (cases "pc s a")
    case LLoad
    have "h \<noteq> Some a" using i(1) [of a] LLoad by simp
    show ?thesis
      unfolding lock_advance_def LLoad lock_pc.case
      by (rule spec_sim_stutter, rule loc [where p = "LRetry (awaiting s)"]) (use \<open>h \<noteq> Some a\<close> in \<open>simp_all add: LLoad set_pc_def\<close>)
  next
    case (LRetry old)
    have n: "h \<noteq> Some a" using i(1) [of a] LRetry by simp
    show ?thesis
    proof (cases "old = not_locked")
      case True
      show ?thesis
      proof (cases "\<not> weak \<and> awaiting s = old")
        case go: True
        show ?thesis
          by (rule spec_sim_acquire [OF inv addr])
            (use go True LRetry in \<open>simp_all add: lock_advance_def set_pc_def mutex_defs\<close>)
      next
        case False
        show ?thesis
          unfolding lock_advance_def LRetry lock_pc.case if_P [OF True] if_not_P [OF False]
          by (rule spec_sim_stutter, rule loc [where p = "LRetry (awaiting s)"]) (use n in \<open>simp_all add: LRetry set_pc_def\<close>)
      qed
    next
      case False
      show ?thesis
        unfolding lock_advance_def LRetry lock_pc.case if_not_P [OF False]
        by (rule spec_sim_stutter, rule loc [where p = "LLinked old"]) (use n False in \<open>simp_all add: LRetry set_pc_def mutex_defs\<close>)
    qed
  next
    case (LLinked old)
    have n: "h \<noteq> Some a" using i(1) [of a] LLinked by simp
    show ?thesis
    proof (cases "\<not> weak \<and> awaiting s = old")
      case True
      let ?t = "set_pc a LWaiting (s\<lparr>awaiting := a\<rparr>)"
      have e: "lock_advance weak a s = ?t" using True LLinked by (simp add: lock_advance_def)
      have "\<exists>b. h = Some b \<and> a \<noteq> b \<and> a \<notin> set q \<and> mutex_inv ?t h (q @ [a])"
        by (rule mutex_inv_push [OF inv]) (use True LLinked in \<open>simp_all add: set_pc_def\<close>)
      then show ?thesis unfolding e by (auto intro!: spec_sim_step spec_wait)
    next
      case False
      show ?thesis
        unfolding lock_advance_def LLinked lock_pc.case if_not_P [OF False]
        by (rule spec_sim_stutter, rule loc [where p = "LRetry (awaiting s)"]) (use n in \<open>simp_all add: LLinked set_pc_def\<close>)
    qed
  next
    case UStart
    from hold UStart have q: "queue_rep s UStart q" by simp
    have u: "queue_rep s (if to_resume s = 0 then UFree else UHandoff (to_resume s)) q"
      using q by (auto simp: queue_rep_def front_rep_def chain_nonnull)
    show ?thesis
      unfolding lock_advance_def UStart lock_pc.case
      by (rule spec_sim_stutter, rule loc [where p = "if to_resume s = 0 then UFree else UHandoff (to_resume s)"])
        (use u in \<open>simp_all add: UStart set_pc_def split: if_splits\<close>)
  next
    case UFree
    show ?thesis
    proof (cases "awaiting s = 0")
      case True
      let ?t = "set_pc a LIdle (s\<lparr>awaiting := not_locked\<rparr>)"
      have e: "lock_advance weak a s = ?t"
        using True UFree by (simp add: lock_advance_def mutex_defs)
      have "h = Some a \<and> q = [] \<and> mutex_inv ?t None []"
        by (rule mutex_inv_release [OF inv UFree True]) (simp_all add: set_pc_def mutex_defs)
      then show ?thesis unfolding e by (auto intro: spec_sim_step spec_release)
    next
      case False
      then have e: "lock_advance weak a s = set_pc a UGrab s"
        using UFree by (simp add: lock_advance_def mutex_defs)
      have u: "queue_rep s UGrab q" using hold UFree False by (auto simp: queue_rep_def front_rep_def)
      show ?thesis
        unfolding e
        by (rule spec_sim_stutter, rule loc [where p = UGrab])
          (use u in \<open>simp_all add: UFree set_pc_def\<close>)
    qed
  next
    case UGrab
    let ?t = "set_pc a (UReverse (awaiting s) 0) (s\<lparr>awaiting := locked_no_awaiting\<rparr>)"
    have e: "lock_advance weak a s = ?t" using UGrab by (simp add: lock_advance_def)
    have "queue_rep ?t (UReverse (awaiting s) 0) q"
      using hold UGrab by (intro queue_rep_grab) (simp_all add: mutex_defs)
    then show ?thesis
      unfolding e using mutex_inv_holder [of s a q ?t "UReverse (awaiting s) 0"] hold UGrab inv
      by (intro spec_sim_stutter) (simp_all add: set_pc_def mutex_defs)
  next
    case (UReverse node r)
    let ?p = "if la_next s node \<noteq> 0 then UReverse (la_next s node) node else UHandoff node"
    let ?t = "set_pc a ?p (s\<lparr>la_next := (la_next s)(node := r)\<rparr>)"
    have e: "lock_advance weak a s = ?t" using UReverse by (simp add: lock_advance_def Let_def)
    from hold UReverse have h: "h = Some a" "queue_rep s (UReverse node r) q" "awaiting s \<noteq> 1"
      by simp_all
    have rep: "node \<in> set q \<and> queue_rep ?t ?p q"
      by (rule queue_rep_reverse [OF h(2) i(6)]) simp_all
    have "mutex_inv ?t (Some a) q"
    proof (rule mutex_inv_holder [of s a q ?t ?p])
      show "la_next ?t b = la_next s b" if "b \<notin> set q" for b using that rep by auto
      show "queue_rep ?t ?p q" using rep by blast
      show "pc ?t = (pc s)(a := ?p)" by (simp only: set_pc_def) simp
      show "holds_lock ?p" by simp
    qed (use inv h in simp_all)
    then show ?thesis unfolding e h(1) by (rule spec_sim_stutter)
  next
    case (UHandoff r)
    let ?t = "set_pc a (USpawn r) (s\<lparr>to_resume := la_next s r\<rparr>)"
    have e: "lock_advance weak a s = ?t" using UHandoff by (simp add: lock_advance_def)
    from hold UHandoff have h: "h = Some a" "queue_rep s (UHandoff r) q" "awaiting s \<noteq> 1"
      by simp_all
    have rep: "queue_rep ?t (USpawn r) q" by (rule queue_rep_handoff [OF h(2)]) simp_all
    have "mutex_inv ?t (Some a) q"
      by (rule mutex_inv_holder [of s a q]) (use inv h rep in \<open>simp_all add: set_pc_def\<close>)
    then show ?thesis unfolding e h(1) by (rule spec_sim_stutter)
  next
    case (USpawn r)
    let ?t = "set_pc r LOwner (set_pc a LIdle s)"
    have e: "lock_advance weak a s = ?t" using USpawn by (simp add: lock_advance_def)
    have "\<exists>q'. h = Some a \<and> q = r # q' \<and> mutex_inv ?t (Some r) q'"
      by (rule mutex_inv_spawn [OF inv USpawn]) (simp_all add: set_pc_def)
    then show ?thesis unfolding e by (auto intro: spec_sim_step spec_handoff)
  qed (use pa in simp_all)
qed

lemma mutex_step_sim:
  assumes "mutex_step s t" and inv: "mutex_inv s h q"
  shows "spec_sim (h, q) t"
  using assms(1)
proof cases
  case (call_lock a)
  show ?thesis
    unfolding call_lock(1)
    by (rule spec_sim_stutter, rule mutex_inv_local [OF inv call_lock(3), where p = LLoad])
      (use call_lock mutex_invD(1) [OF inv, of a] in \<open>simp_all add: set_pc_def\<close>)
next
  case (call_try_lock a)
  show ?thesis
  proof (cases "awaiting s = 1")
    case True
    show ?thesis
      unfolding call_try_lock(1)
      by (rule spec_sim_acquire [OF inv call_try_lock(3) True])
        (use True in \<open>simp_all add: mutex_try_lock_def mutex_defs set_pc_def\<close>)
  next
    case False
    have n: "h \<noteq> Some a" using call_try_lock mutex_invD(1) [OF inv, of a] by simp
    show ?thesis
      unfolding call_try_lock(1)
      by (rule spec_sim_stutter, rule mutex_inv_local [OF inv call_try_lock(3), where p = LIdle])
        (use False n call_try_lock in \<open>simp_all add: mutex_try_lock_def mutex_defs set_pc_def\<close>)
  qed
next
  case (call_unlock a)
  have a: "awaiter_addr a" using mutex_invD(3) [OF inv, of a] call_unlock by simp
  have h: "h = Some a" using call_unlock mutex_invD(1) [OF inv, of a] by simp
  have q: "queue_rep s UStart q"
    using mutex_invD(9) [OF inv h] call_unlock by (simp add: queue_rep_def front_rep_def)
  show ?thesis
    unfolding call_unlock(1)
    by (rule spec_sim_stutter, rule mutex_inv_local [OF inv a, where p = UStart])
      (use call_unlock h q in \<open>simp_all add: set_pc_def\<close>)
next
  case (advance a weak)
  then show ?thesis using advance_sim [OF inv] by simp
qed

lemma mutex_inv_init: "mutex_sys_init s \<Longrightarrow> mutex_inv s None []"
  by (simp add: mutex_sys_init_def mutex_inv_def mutex_defs)

lemma mutex_reachable_inv:
  assumes "mutex_reachable s"
  obtains h q where "mutex_inv s h q" and "lock_spec_reachable (h, q)"
  using assms
proof (induction arbitrary: thesis)
  case (mutex_start s)
  then show ?case using mutex_inv_init spec_start by blast
next
  case (mutex_next s t)
  obtain h q where inv: "mutex_inv s h q" "lock_spec_reachable (h, q)"
    using mutex_next.IH by blast
  from mutex_step_sim [OF mutex_next.hyps(2) inv(1)] obtain h' q' where
    "(h, q) = (h', q') \<or> lock_spec_step (h, q) (h', q')" "mutex_inv t h' q'"
    unfolding spec_sim_def by blast
  with inv(2) mutex_next.prems spec_next show ?case by blast
qed

section \<open>What the mutex guarantees\<close>

text \<open>
  The holder alone drives \<open>unlock\<close> to its end. The measure counts the steps that are left.
\<close>

definition unlock_left :: "mutex_sys \<Rightarrow> ptr \<Rightarrow> nat \<Rightarrow> bool" where
  "unlock_left s a n = (case pc s a of
     USpawn _ \<Rightarrow> n = 1 | UHandoff _ \<Rightarrow> n = 2
   | UReverse node _ \<Rightarrow> (\<exists>ns. chain (la_next s) node ns \<and> n = 2 + length ns)
   | UGrab \<Rightarrow> (\<exists>ns. chain (la_next s) (awaiting s) ns \<and> n = 3 + length ns)
   | UFree \<Rightarrow> (\<exists>ns. chain (la_next s) (awaiting s) ns \<and> n = 4 + length ns)
   | UStart \<Rightarrow> (\<exists>ns. chain (la_next s) (awaiting s) ns \<and> n = 5 + length ns)
   | _ \<Rightarrow> False)"

lemma unlock_left_start:
  assumes "mutex_inv s h q" and "pc s a = UStart"
  shows "\<exists>n. unlock_left s a n"
proof -
  have "h = Some a" using mutex_invD(1) [OF assms(1), of a] assms(2) by simp
  from mutex_invD(9) [OF assms(1) this] obtain ss where "chain (la_next s) (awaiting s) ss"
    by (auto simp: queue_rep_def)
  with assms(2) show ?thesis by (auto simp: unlock_left_def)
qed

lemma unlock_left_advance:
  assumes "unlock_left s a n" and "pc s a \<notin> {UFree} \<or> awaiting s \<noteq> 0"
    and "\<And>r. pc s a \<noteq> USpawn r" and "\<And>r. pc s a \<noteq> UReverse 0 r"
  shows "holds_lock (pc (lock_advance False a s) a) \<and> (\<exists>m < n. unlock_left (lock_advance False a s) a m)"
proof (cases "pc s a")
  case UStart
  with assms(1) obtain ns where "chain (la_next s) (awaiting s) ns" "n = 5 + length ns"
    by (auto simp: unlock_left_def)
  with UStart show ?thesis
    by (cases "to_resume s = 0")
      (auto simp: unlock_left_def lock_advance_def intro!: exI [of _ "4 + length ns"])
next
  case UFree
  with assms(1) obtain ns where "chain (la_next s) (awaiting s) ns" "n = 4 + length ns"
    by (auto simp: unlock_left_def)
  with UFree assms(2) show ?thesis
    by (auto simp: unlock_left_def lock_advance_def mutex_defs intro!: exI [of _ "3 + length ns"])
next
  case UGrab
  with assms(1) obtain ns where "chain (la_next s) (awaiting s) ns" "n = 3 + length ns"
    by (auto simp: unlock_left_def)
  with UGrab show ?thesis
    by (auto simp: unlock_left_def lock_advance_def intro!: exI [of _ "2 + length ns"])
next
  case (UReverse node r)
  with assms(1) obtain ns where ns: "chain (la_next s) node ns" "n = 2 + length ns"
    by (auto simp: unlock_left_def)
  from UReverse assms(4) have "node \<noteq> 0" by auto
  with ns obtain ms where ms: "ns = node # ms" "chain (la_next s) (la_next s node) ms"
    by (cases ns) auto
  have "node \<notin> set ms" using chain_distinct [OF ns(1)] ms(1) by simp
  with ms(2) have "chain ((la_next s)(node := r)) (la_next s node) ms" by simp
  with UReverse ms(1) ns(2) show ?thesis by (auto simp: unlock_left_def lock_advance_def Let_def)
next
  case (UHandoff r)
  with assms(1) show ?thesis by (auto simp: unlock_left_def lock_advance_def)
qed (use assms in \<open>simp_all add: unlock_left_def\<close>)

lemma lock_advance_others:
  "b \<noteq> a \<Longrightarrow> (\<And>r. pc s a \<noteq> USpawn r) \<Longrightarrow> pc (lock_advance weak a s) b = pc s b"
  by (auto simp: lock_advance_def Let_def split: lock_pc.splits)

lemma unlock_step:
  assumes inv: "mutex_inv s (Some a) q" and l: "unlock_left s a n"
  defines "t \<equiv> lock_advance False a s"
  shows "(pc t a = LIdle \<and>
      (q = [] \<and> mutex_inv t None [] \<or> (\<exists>b q'. q = b # q' \<and> pc t b = LOwner \<and> mutex_inv t (Some b) q')))
    \<or> mutex_inv t (Some a) q \<and> (\<exists>m < n. unlock_left t a m)"
proof -
  note i = mutex_invD [OF inv]
  consider (spawn) r where "pc s a = USpawn r" | (free) "pc s a = UFree" "awaiting s = 0"
    | (more) "pc s a \<notin> {UFree} \<or> awaiting s \<noteq> 0" "\<And>r. pc s a \<noteq> USpawn r"
    by blast
  then show ?thesis
  proof cases
    case spawn
    have t: "t = set_pc r LOwner (set_pc a LIdle s)" using spawn by (simp add: t_def lock_advance_def)
    have "\<exists>q'. Some a = Some a \<and> q = r # q' \<and> mutex_inv t (Some r) q'"
      by (rule mutex_inv_spawn [OF inv spawn]) (simp_all add: t set_pc_def)
    then obtain q' where q: "q = r # q'" "mutex_inv t (Some r) q'" by blast
    with i(2) [of r] spawn have "r \<noteq> a" by auto
    with q t show ?thesis by simp
  next
    case free
    have t: "t = set_pc a LIdle (s\<lparr>awaiting := not_locked\<rparr>)"
      using free by (simp add: t_def lock_advance_def mutex_defs)
    have "Some a = Some a \<and> q = [] \<and> mutex_inv t None []"
      by (rule mutex_inv_release [OF inv free]) (simp_all add: t set_pc_def mutex_defs)
    with t show ?thesis by simp
  next
    case more
    have "pc s a \<noteq> UReverse 0 r" for r
      using i(9) [OF refl] by (auto simp: queue_rep_def front_rep_def)
    from unlock_left_advance [OF l more this]
    have ul: "holds_lock (pc t a)" "\<exists>m < n. unlock_left t a m" by (simp_all add: t_def)
    have pa: "pc s a \<notin> {LIdle, LWaiting, LOwner}" using l by (auto simp: unlock_left_def)
    from advance_sim [OF inv pa, of False] obtain h' q' where
      st: "(Some a, q) = (h', q') \<or> lock_spec_step (Some a, q) (h', q')" and it: "mutex_inv t h' q'"
      unfolding spec_sim_def t_def by blast
    have h': "h' = Some a" using mutex_invD(1) [OF it, of a] ul(1) by simp
    have w: "\<forall>x. x \<noteq> a \<longrightarrow> (x \<in> set q' \<longleftrightarrow> x \<in> set q)"
    proof (intro allI impI)
      fix x assume "x \<noteq> a"
      from lock_advance_others [OF this more(2), of False] mutex_invD(2) [OF it, of x] i(2) [of x]
      show "x \<in> set q' \<longleftrightarrow> x \<in> set q" by (simp add: t_def)
    qed
    have "a \<notin> set q" using i(2) [of a] pa by simp
    with st h' w have "q' = q" by (auto elim!: lock_spec_step.cases)
    with it h' ul(2) show ?thesis by simp
  qed
qed

text \<open>
  Run alone from its first access on, \<open>unlock\<close> returns, and it has handed the mutex to the
  one that waited longest or freed it when nobody waited.
\<close>

lemma unlock_completes:
  assumes "mutex_inv s (Some a) q" and "unlock_left s a n"
  shows "\<exists>k. let t = (lock_advance False a ^^ k) s in pc t a = LIdle \<and>
    (case q of [] \<Rightarrow> mutex_inv t None [] | b # q' \<Rightarrow> pc t b = LOwner \<and> mutex_inv t (Some b) q')"
  using assms
proof (induction n arbitrary: s rule: less_induct)
  case (less n)
  from unlock_step [OF less.prems] show ?case
  proof
    assume "mutex_inv (lock_advance False a s) (Some a) q \<and>
      (\<exists>m < n. unlock_left (lock_advance False a s) a m)"
    with less.IH [of _ "lock_advance False a s"] obtain k where
      k: "let t = (lock_advance False a ^^ k) (lock_advance False a s) in pc t a = LIdle \<and>
      (case q of [] \<Rightarrow> mutex_inv t None [] | b # q' \<Rightarrow> pc t b = LOwner \<and> mutex_inv t (Some b) q')"
      by blast
    show ?thesis by (rule exI [of _ "Suc k"]) (use k in \<open>simp only: funpow_Suc_right comp_apply\<close>)
  qed (rule exI [of _ 1], auto)
qed

text \<open>A run: 8 locks, 16 locks and waits, 24 links itself and 8 begins to unlock.\<close>

definition mutex_example :: mutex_sys where
  "mutex_example = set_pc 8 UStart
     (fold (lock_advance False) [24, 24] (set_pc 24 LLoad
     (fold (lock_advance False) [16, 16, 16] (set_pc 16 LLoad
     (fold (lock_advance False) [8, 8] (set_pc 8 LLoad
       \<lparr>awaiting = not_locked, to_resume = 0, la_next = (\<lambda>_. 0), la_coro = (\<lambda>_. 0),
        la_ctx = (\<lambda>_. 0), pc = (\<lambda>_. LIdle)\<rparr>))))))"

lemma mutex_example_reachable: "mutex_reachable mutex_example"
  unfolding mutex_example_def fold_simps
  by (intro mutex_next [OF _ call_unlock] mutex_next [OF _ call_lock] mutex_next [OF _ advance]
      mutex_start)
    (simp_all add: lock_advance_def mutex_defs awaiter_addr_def mutex_sys_init_def)

lemma mutex_example_pcs:
  "pc mutex_example 8 = UStart \<and> pc mutex_example 16 = LWaiting \<and> pc mutex_example 24 = LLinked 16"
  by (simp add: mutex_example_def lock_advance_def mutex_defs)

text \<open>C1. In every state that any interleaving of \<open>lock\<close>, \<open>try_lock\<close> and \<open>unlock\<close> of any number
  of coroutines reaches, each step of the code (one access to shared memory, weak
  compare-exchanges failing at will) is either invisible or one step of the abstract lock with
  its first-in-first-out queue: the code refines the lock.\<close>

theorem mutex_refines_lock:
  assumes "mutex_reachable s"
  shows "\<exists>h q. lock_spec_reachable (h, q) \<and> mutex_inv s h q \<and>
    (\<forall>t. mutex_step s t \<longrightarrow>
      (\<exists>h' q'. ((h, q) = (h', q') \<or> lock_spec_step (h, q) (h', q')) \<and> mutex_inv t h' q'))"
proof -
  obtain h q where i: "mutex_inv s h q" "lock_spec_reachable (h, q)"
    using mutex_reachable_inv [OF assms] by blast
  have "\<forall>t. mutex_step s t \<longrightarrow> spec_sim (h, q) t" using mutex_step_sim [OF _ i(1)] by simp
  with i show ?thesis unfolding spec_sim_def by blast
qed

theorem mutex_refines_lock_witness:
  "\<exists>h q h' q'. lock_spec_reachable (h, q) \<and> mutex_inv mutex_example h q \<and>
    ((h, q) = (h', q') \<or> lock_spec_step (h, q) (h', q')) \<and>
    mutex_inv (lock_advance False 24 mutex_example) h' q'"
proof -
  have st: "mutex_step mutex_example (lock_advance False 24 mutex_example)"
    by (rule advance) (use mutex_example_pcs in simp)
  from mutex_refines_lock [OF mutex_example_reachable] obtain h q where
    hq: "lock_spec_reachable (h, q)" "mutex_inv mutex_example h q"
    "\<forall>t. mutex_step mutex_example t \<longrightarrow>
      (\<exists>h' q'. ((h, q) = (h', q') \<or> lock_spec_step (h, q) (h', q')) \<and> mutex_inv t h' q')"
    by (elim exE conjE)
  from hq(3) [rule_format, OF st] obtain h' q' where
    "(h, q) = (h', q') \<or> lock_spec_step (h, q) (h', q')"
    "mutex_inv (lock_advance False 24 mutex_example) h' q'"
    by (elim exE conjE)
  with hq(1,2) show ?thesis by (intro exI conjI)
qed

text \<open>C2. Mutual exclusion: at no time do two coroutines hold the mutex, from the compare-exchange
  that takes it until the store that releases it or the spawn of the next owner.\<close>

theorem mutex_mutual_exclusion:
  assumes "mutex_reachable s" and "holds_lock (pc s a)" and "holds_lock (pc s b)"
  shows "a = b"
proof -
  obtain h q where "mutex_inv s h q" using mutex_reachable_inv [OF assms(1)] by blast
  from mutex_invD(1) [OF this] assms(2,3) show ?thesis by simp
qed

theorem mutex_mutual_exclusion_witness:
  "holds_lock (pc mutex_example 8) \<and> \<not> holds_lock (pc mutex_example 16) \<and>
   \<not> holds_lock (pc mutex_example 24)"
proof -
  have h: "holds_lock (pc mutex_example 8)" using mutex_example_pcs by simp
  then show ?thesis
    using mutex_mutual_exclusion [OF mutex_example_reachable h, of 16]
      mutex_mutual_exclusion [OF mutex_example_reachable h, of 24] by auto
qed

text \<open>C3. No waiter is lost: whenever a coroutine is suspended on the mutex, some coroutine holds
  it, and when the holder that began \<open>unlock\<close> runs it to its end, \<open>unlock\<close> returns and the lock
  either belongs to a coroutine that was waiting or is free with nobody waiting.\<close>

theorem mutex_no_lost_waiter:
  assumes "mutex_reachable s"
  shows "(pc s b = LWaiting \<longrightarrow> (\<exists>a. holds_lock (pc s a))) \<and>
    (pc s a = UStart \<longrightarrow> (\<exists>k. let t = (lock_advance False a ^^ k) s in pc t a = LIdle \<and>
       ((\<exists>c. pc s c = LWaiting \<and> pc t c = LOwner) \<or>
        ((\<forall>c. pc s c \<noteq> LWaiting) \<and> awaiting t = not_locked))))"
proof (intro conjI impI)
  obtain h q where i: "mutex_inv s h q" using mutex_reachable_inv [OF assms] by blast
  show "\<exists>a. holds_lock (pc s a)" if "pc s b = LWaiting"
  proof -
    from that mutex_invD(2) [OF i, of b] have "q \<noteq> []" by auto
    with mutex_invD(7) [OF i] obtain a where "h = Some a" by (cases h) auto
    with mutex_invD(1) [OF i] show ?thesis by auto
  qed
  show "\<exists>k. let t = (lock_advance False a ^^ k) s in pc t a = LIdle \<and>
       ((\<exists>c. pc s c = LWaiting \<and> pc t c = LOwner) \<or>
        ((\<forall>c. pc s c \<noteq> LWaiting) \<and> awaiting t = not_locked))" if pa: "pc s a = UStart"
  proof -
    have h: "h = Some a" using mutex_invD(1) [OF i, of a] pa by simp
    obtain n where "unlock_left s a n" using unlock_left_start [OF i pa] by blast
    from unlock_completes [OF i [unfolded h] this] obtain k where
      k: "pc ((lock_advance False a ^^ k) s) a = LIdle"
      "case q of [] \<Rightarrow> mutex_inv ((lock_advance False a ^^ k) s) None []
       | c # q' \<Rightarrow> pc ((lock_advance False a ^^ k) s) c = LOwner \<and>
           mutex_inv ((lock_advance False a ^^ k) s) (Some c) q'"
      by (auto simp: Let_def)
    show ?thesis
    proof (cases q)
      case Nil
      with k have "awaiting ((lock_advance False a ^^ k) s) = not_locked"
        using mutex_invD(7) by (fastforce simp: mutex_defs)
      with k(1) Nil mutex_invD(2) [OF i] show ?thesis by (auto simp: Let_def)
    next
      case (Cons c q')
      with mutex_invD(2) [OF i, of c] k show ?thesis by (auto simp: Let_def)
    qed
  qed
qed

theorem mutex_no_lost_waiter_witness:
  "\<exists>k. let t = (lock_advance False 8 ^^ k) mutex_example in pc t 8 = LIdle \<and>
     (\<exists>c. pc mutex_example c = LWaiting \<and> pc t c = LOwner)"
  using mutex_no_lost_waiter [OF mutex_example_reachable, of 16 8] mutex_example_pcs
  by (auto simp: Let_def)

text \<open>C4. First come, first served: on a free mutex the first \<open>lock\<close> succeeds at once, the
  coroutines that lock while it is held all suspend, the releases wake them one by one in the
  order in which they came, and the last release wakes none and frees the mutex. (The operations run one
  after the other; that they may be interleaved is \<open>mutex_refines_lock\<close>.)\<close>

theorem mutex_fifo:
  assumes "lock_rep m False []" and "\<forall>b \<in> set as. awaiter_addr b" and "distinct as"
  shows "\<exists>m1 m2. mutex_lock.acquires (a # as) m = (False # map (\<lambda>_. True) as, m1) \<and>
    mutex_lock.unlocks (Suc (length as)) m1 = Some (map Some as @ [None], m2) \<and> lock_rep m2 False []"
  by (rule mutex_lock.fair_handoff [OF assms])

theorem mutex_fifo_witness:
  "\<exists>m1 m2. mutex_lock.acquires [8, 16, 24] (mutex_init (undefined :: mutex)) = ([False, True, True], m1) \<and>
     mutex_lock.unlocks 3 m1 = Some ([Some 16, Some 24, None], m2) \<and> lock_rep m2 False []"
  using mutex_fifo [OF lock_rep_init, of "[16, 24]" 8] by (simp add: awaiter_addr_def numeral_3_eq_3 del: mutex_lock.unlocks.simps)

end
