(* ===== verification/Semaphore.thy ===== *)
theory Semaphore
  imports Wait_List
begin

text \<open>
  The counting semaphore of \<^verbatim>\<open>include/co_context/co/semaphore.hpp\<close> and
  \<^verbatim>\<open>lib/co_context/co/semaphore.cpp\<close>. The counter is the number of permits when it is not
  negative and minus the number of waiters when it is; the waiters are a stack in
  \<open>awaiting\<close> and a list in order in \<open>to_resume\<close>. The first part runs each operation
  alone and relates it to permits with a queue; the second interleaves them.
\<close>

section \<open>State and operations\<close>

text \<open>
  The counter is a \<open>ptrdiff_t\<close>; the atomic \<open>fetch_add\<close> and \<open>fetch_sub\<close> wrap around at
  64 bits.
\<close>

definition wrap64 :: "int \<Rightarrow> int" where
  "wrap64 i = signed_take_bit 63 i"

definition fits64 :: "int \<Rightarrow> bool" where
  "fits64 i \<longleftrightarrow> - (2 ^ 63) \<le> i \<and> i < 2 ^ 63"

lemma wrap64_fits: "fits64 i \<Longrightarrow> wrap64 i = i"
  by (simp add: wrap64_def fits64_def signed_take_bit_int_eq_self)

record semaphore =
  sem_awaiting :: ptr
  sem_to_resume :: ptr
  counter :: int
  sa_next :: "ptr \<Rightarrow> ptr"
  sa_handle :: "ptr \<Rightarrow> handle"
  sa_ctx :: "ptr \<Rightarrow> ptr"

definition sem_init :: "int \<Rightarrow> 'z semaphore_scheme \<Rightarrow> 'z semaphore_scheme" where
  "sem_init desired s = s\<lparr>sem_awaiting := 0, sem_to_resume := 0, counter := desired\<rparr>"

definition acquire_awaiter_new :: "ptr \<Rightarrow> ptr \<Rightarrow> 'z semaphore_scheme \<Rightarrow> 'z semaphore_scheme" where
  "acquire_awaiter_new ctx a s =
     s\<lparr>sa_next := (sa_next s)(a := 0), sa_ctx := (sa_ctx s)(a := ctx)\<rparr>"

definition sem_try_acquire :: "'z semaphore_scheme \<Rightarrow> bool \<times> 'z semaphore_scheme" where
  "sem_try_acquire s =
     (let old_counter = counter s in
      if old_counter > 0 then (True, s\<lparr>counter := wrap64 (old_counter - 1)\<rparr>) else (False, s))"

definition sem_await_ready :: "'z semaphore_scheme \<Rightarrow> bool \<times> 'z semaphore_scheme" where
  "sem_await_ready s =
     (let old_counter = counter s in (old_counter > 0, s\<lparr>counter := wrap64 (old_counter - 1)\<rparr>))"

definition sem_push :: "ptr \<Rightarrow> 'z semaphore_scheme \<Rightarrow> 'z semaphore_scheme" where
  "sem_push a s = s\<lparr>sa_next := (sa_next s)(a := sem_awaiting s), sem_awaiting := a\<rparr>"

definition sem_await_suspend :: "handle \<Rightarrow> ptr \<Rightarrow> 'z semaphore_scheme \<Rightarrow> 'z semaphore_scheme" where
  "sem_await_suspend current a s = sem_push a (s\<lparr>sa_handle := (sa_handle s)(a := current)\<rparr>)"

text \<open>\<open>co_await sem.acquire()\<close>: whether the coroutine goes on, and the state.\<close>

definition sem_acquire :: "handle \<Rightarrow> ptr \<Rightarrow> 'z semaphore_scheme \<Rightarrow> bool \<times> 'z semaphore_scheme" where
  "sem_acquire current a s =
     (let (ready, s) = sem_await_ready s in
      if ready then (True, s) else (False, sem_await_suspend current a s))"

text \<open>
  \<open>try_release\<close> pops the waiter that is next in line. \<open>None\<close> is a reversal that does not
  end and \<open>Some (None, s)\<close> the null pointer.
\<close>

definition sem_try_release :: "'z semaphore_scheme \<Rightarrow> (ptr option \<times> 'z semaphore_scheme) option" where
  "sem_try_release s =
     (if sem_to_resume s = 0 then
        let node = sem_awaiting s; s = s\<lparr>sem_awaiting := 0\<rparr> in
        if node = 0 then Some (None, s)
        else case reverse_loop (sa_next s) node 0 of
            None \<Rightarrow> None
          | Some (nxt, resume_head) \<Rightarrow>
              Some (Some resume_head, s\<lparr>sa_next := nxt, sem_to_resume := nxt resume_head\<rparr>)
      else Some (Some (sem_to_resume s), s\<lparr>sem_to_resume := sa_next s (sem_to_resume s)\<rparr>))"

text \<open>What \<open>co_spawn\<close> of an awaiter hands to the worker of the context it suspended on.\<close>

definition sem_co_spawn :: "'z semaphore_scheme \<Rightarrow> ptr \<Rightarrow> ptr \<times> handle" where
  "sem_co_spawn s a = (sa_ctx s a, sa_handle s a)"

text \<open>\<open>release()\<close>: the awaiters it spawns, and the state.\<close>

definition sem_release1 :: "'z semaphore_scheme \<Rightarrow> (ptr list \<times> 'z semaphore_scheme) result option" where
  "sem_release1 s =
     (let old_counter = counter s; s = s\<lparr>counter := wrap64 (old_counter + 1)\<rparr> in
      if old_counter \<ge> 0 then Some (Inr ([], s))
      else case sem_try_release s of
          None \<Rightarrow> None
        | Some (None, s) \<Rightarrow> Some (Inl NullDeref)
        | Some (Some a, s) \<Rightarrow> Some (Inr ([a], s)))"

text \<open>The loop \<open>do { try_release()->co_spawn(); } while (++update < 0)\<close>.\<close>

function sem_release_loop ::
  "int \<Rightarrow> 'z semaphore_scheme \<Rightarrow> (ptr list \<times> 'z semaphore_scheme) result option" where
  "sem_release_loop update s =
     (case sem_try_release s of
        None \<Rightarrow> None
      | Some (None, s) \<Rightarrow> Some (Inl NullDeref)
      | Some (Some a, s) \<Rightarrow>
          if update + 1 < 0 then
            (case sem_release_loop (update + 1) s of
               None \<Rightarrow> None | Some (Inl e) \<Rightarrow> Some (Inl e)
             | Some (Inr (as, s)) \<Rightarrow> Some (Inr (a # as, s)))
          else Some (Inr ([a], s)))"
  by pat_completeness auto
termination by (relation "measure (\<lambda>(update, s). nat (- update))") auto

declare sem_release_loop.simps [simp del]

definition sem_release_n ::
  "int \<Rightarrow> 'z semaphore_scheme \<Rightarrow> (ptr list \<times> 'z semaphore_scheme) result option" where
  "sem_release_n update s =
     (let old_counter = counter s; s = s\<lparr>counter := wrap64 (old_counter + update)\<rparr> in
      if old_counter \<ge> 0 then Some (Inr ([], s))
      else sem_release_loop (max old_counter (- update)) s)"

section \<open>The queue of waiters\<close>

definition sem_queue :: "'z semaphore_scheme \<Rightarrow> ptr list \<Rightarrow> bool" where
  "sem_queue s ws \<longleftrightarrow> distinct ws \<and>
     (\<exists>fs ss. chain (sa_next s) (sem_to_resume s) fs \<and> chain (sa_next s) (sem_awaiting s) ss \<and>
              ws = fs @ rev ss)"

lemma sem_queueI:
  "distinct ws \<Longrightarrow> chain (sa_next s) (sem_to_resume s) fs \<Longrightarrow> chain (sa_next s) (sem_awaiting s) ss \<Longrightarrow>
   ws = fs @ rev ss \<Longrightarrow> sem_queue s ws"
  unfolding sem_queue_def by blast

lemma sem_queueE:
  assumes "sem_queue s ws"
  obtains fs ss where "distinct ws" and "chain (sa_next s) (sem_to_resume s) fs"
    and "chain (sa_next s) (sem_awaiting s) ss" and "ws = fs @ rev ss"
  using assms unfolding sem_queue_def by (elim conjE exE)

lemma sem_queue_upd [simp]:
  "sem_queue (s\<lparr>counter := c\<rparr>) ws = sem_queue s ws" "sem_queue (s\<lparr>sa_handle := h\<rparr>) ws = sem_queue s ws"
  by (simp_all add: sem_queue_def)

lemma sem_queue_init [simp]: "sem_queue (sem_init n s) []"
  by (simp add: sem_queue_def sem_init_def)

lemma sem_push_queue:
  assumes "sem_queue s ws" and "a \<noteq> 0" and "a \<notin> set ws"
  shows "sem_queue (sem_push a s) (ws @ [a])"
proof -
  from assms(1) obtain fs ss where q: "distinct ws" "chain (sa_next s) (sem_to_resume s) fs"
    "chain (sa_next s) (sem_awaiting s) ss" "ws = fs @ rev ss"
    by (rule sem_queueE)
  show ?thesis
    by (rule sem_queueI [of _ _ fs "a # ss"]) (use q assms in \<open>simp_all add: sem_push_def\<close>)
qed

lemma sem_try_release_empty:
  assumes "sem_queue s []"
  shows "\<exists>s'. sem_try_release s = Some (None, s') \<and> sem_queue s' [] \<and> counter s' = counter s"
proof -
  from assms obtain fs ss where "chain (sa_next s) (sem_to_resume s) fs"
    "chain (sa_next s) (sem_awaiting s) ss" "[] = fs @ rev ss"
    by (rule sem_queueE)
  then show ?thesis by (simp add: sem_try_release_def sem_queue_def)
qed

lemma sem_try_release_first:
  assumes "sem_queue s (a # ws)"
  shows "\<exists>s'. sem_try_release s = Some (Some a, s') \<and> sem_queue s' ws \<and> counter s' = counter s"
proof -
  from assms obtain fs ss where q: "distinct (a # ws)" "chain (sa_next s) (sem_to_resume s) fs"
    "chain (sa_next s) (sem_awaiting s) ss" "a # ws = fs @ rev ss"
    by (rule sem_queueE)
  from q(1) have dw: "distinct ws" by simp
  show ?thesis
  proof (cases fs)
    case (Cons b bs)
    let ?s = "s\<lparr>sem_to_resume := sa_next s a\<rparr>"
    have "sem_try_release s = Some (Some a, ?s)" using q Cons by (simp add: sem_try_release_def)
    moreover have "sem_queue ?s ws"
      by (rule sem_queueI [of _ _ bs ss]) (use q Cons in auto)
    ultimately show ?thesis by simp
  next
    case Nil
    with q(4) have ss: "ss \<noteq> []" by auto
    obtain nxt p where r: "reverse_loop (sa_next s) (sem_awaiting s) 0 = Some (nxt, p)"
      "chain nxt p (rev ss)"
      by (rule reverse_loop_stack [OF q(3) ss])
    from Nil q(4) have "rev ss = a # ws" by simp
    with r(2) have p: "p = a" "chain nxt (nxt a) ws" by simp_all
    let ?s = "s\<lparr>sem_awaiting := 0, sa_next := nxt, sem_to_resume := nxt a\<rparr>"
    have "sem_to_resume s = 0" "sem_awaiting s \<noteq> 0" using q(2,3) Nil ss by (cases ss; auto)+
    then have "sem_try_release s = Some (Some a, ?s)"
      using r(1) p(1) by (simp add: sem_try_release_def)
    moreover have "sem_queue ?s ws"
      by (rule sem_queueI [of _ _ ws "[]"]) (use p dw in simp_all)
    ultimately show ?thesis by simp
  qed
qed

text \<open>What \<open>try_release\<close> leaves alone.\<close>

lemma sem_try_release_others:
  assumes "sem_queue s ws" and "sem_try_release s = Some (r, s')" and "b \<notin> set ws"
  shows "sa_next s' b = sa_next s b"
proof -
  from assms(1) obtain fs ss where q: "distinct ws" "chain (sa_next s) (sem_to_resume s) fs"
    "chain (sa_next s) (sem_awaiting s) ss" "ws = fs @ rev ss"
    by (rule sem_queueE)
  show ?thesis
  proof (cases "sem_to_resume s = 0 \<and> sem_awaiting s \<noteq> 0")
    case True
    with q(3) have ss: "ss \<noteq> []" by auto
    obtain nxt p where r: "reverse_loop (sa_next s) (sem_awaiting s) 0 = Some (nxt, p)"
      "\<And>a. a \<notin> set ss \<Longrightarrow> nxt a = sa_next s a"
      by (rule reverse_loop_stack [OF q(3) ss]) blast
    from r(1) True assms(2) have "sa_next s' = nxt" by (auto simp: sem_try_release_def)
    with r(2) [of b] assms(3) q(4) show ?thesis by simp
  next
    case False
    with assms(2) show ?thesis by (auto simp: sem_try_release_def Let_def split: if_splits)
  qed
qed

interpretation sem_waiters: fifo_waiters sem_push sem_try_release sem_queue
proof unfold_locales
  show "sem_queue (sem_push a s) (ws @ [a])" if "sem_queue s ws" "a \<noteq> 0" "a \<notin> set ws" for s ws a
    using that by (rule sem_push_queue)
  show "\<exists>s'. sem_try_release s = Some (None, s') \<and> sem_queue s' []" if "sem_queue s []" for s
    using sem_try_release_empty [OF that] by blast
  show "\<exists>s'. sem_try_release s = Some (Some a, s') \<and> sem_queue s' ws" if "sem_queue s (a # ws)"
    for s a ws using sem_try_release_first [OF that] by blast
qed

section \<open>Permits with a queue\<close>

text \<open>A semaphore represents \<open>p\<close> free permits and waiters \<open>ws\<close>, one of the two empty.\<close>

definition sem_rep :: "'z semaphore_scheme \<Rightarrow> nat \<Rightarrow> ptr list \<Rightarrow> bool" where
  "sem_rep s p ws \<longleftrightarrow>
     (p = 0 \<or> ws = []) \<and> counter s = int p - int (length ws) \<and> sem_queue s ws"

lemma sem_rep_init: "sem_rep (sem_init (int n) s) n []"
  by (simp add: sem_rep_def) (simp add: sem_init_def)

lemma sem_acquire_rep:
  assumes "sem_rep s p ws" and "fits64 (counter s - 1)" and "a \<noteq> 0" and "a \<notin> set ws"
  shows "if p > 0 then fst (sem_acquire h a s) \<and> sem_rep (snd (sem_acquire h a s)) (p - 1) ws
         else \<not> fst (sem_acquire h a s) \<and> sem_rep (snd (sem_acquire h a s)) 0 (ws @ [a])"
proof -
  have w: "wrap64 (counter s - 1) = counter s - 1" using assms(2) by (rule wrap64_fits)
  show ?thesis
  proof (cases "p > 0")
    case True
    with assms(1) w show ?thesis
      by (auto simp: sem_rep_def sem_acquire_def sem_await_ready_def)
  next
    case False
    with assms(1) have c: "counter s \<le> 0" "sem_queue s ws" by (simp_all add: sem_rep_def)
    let ?s = "s\<lparr>counter := counter s - 1, sa_handle := (sa_handle s)(a := h)\<rparr>"
    have e: "sem_acquire h a s = (False, sem_push a ?s)"
      using c(1) w by (simp add: sem_acquire_def sem_await_ready_def sem_await_suspend_def)
    have "sem_queue (sem_push a ?s) (ws @ [a])"
      using c(2) assms(3,4) by (intro sem_push_queue) simp_all
    with e False assms(1) show ?thesis by (simp add: sem_rep_def sem_push_def)
  qed
qed

lemma sem_release_loop_queue:
  assumes "sem_queue s ws" and "u < 0" and "- u \<le> int (length ws)"
  shows "\<exists>s'. sem_release_loop u s = Some (Inr (take (nat (- u)) ws, s')) \<and>
    sem_queue s' (drop (nat (- u)) ws) \<and> counter s' = counter s"
  using assms
proof (induction u s arbitrary: ws rule: sem_release_loop.induct)
  case (1 u s)
  then obtain a as where ws: "ws = a # as" by (cases ws) auto
  with "1.prems" obtain s1 where s1: "sem_try_release s = Some (Some a, s1)" "sem_queue s1 as"
    "counter s1 = counter s"
    using sem_try_release_first by blast
  show ?case
  proof (cases "u + 1 < 0")
    case True
    have "- (u + 1) \<le> int (length as)" using "1.prems"(3) ws by simp
    from "1.IH" [OF s1(1) refl refl True s1(2) True this] obtain s2 where
      "sem_release_loop (u + 1) s1 = Some (Inr (take (nat (- (u + 1))) as, s2))"
      "sem_queue s2 (drop (nat (- (u + 1))) as)" "counter s2 = counter s1"
      by blast
    moreover have "nat (- u) = Suc (nat (- (u + 1)))" using True by simp
    ultimately show ?thesis using s1 ws True by (simp add: sem_release_loop.simps [of u s])
  next
    case False
    then have "u = - 1" using "1.prems"(2) by simp
    with s1 ws show ?thesis by (simp add: sem_release_loop.simps [of "- 1" s])
  qed
qed

lemma sem_release_n_rep:
  assumes "sem_rep s p ws" and "0 < n" and "fits64 (counter s + int n)"
  shows "\<exists>s'. sem_release_n (int n) s = Some (Inr (take n ws, s')) \<and>
    sem_rep s' (p + (n - length ws)) (drop n ws)"
proof -
  have w: "wrap64 (counter s + int n) = counter s + int n" using assms(3) by (rule wrap64_fits)
  from assms(1) have r: "p = 0 \<or> ws = []" "counter s = int p - int (length ws)" "sem_queue s ws"
    by (simp_all add: sem_rep_def)
  show ?thesis
  proof (cases "ws = []")
    case True
    with r w show ?thesis by (simp add: sem_release_n_def sem_rep_def)
  next
    case False
    with r(1,2) have c: "counter s = - int (length ws)" "p = 0" "counter s < 0" by simp_all
    let ?u = "max (counter s) (- int n)"
    let ?s = "s\<lparr>counter := counter s + int n\<rparr>"
    have "?u < 0" "- ?u \<le> int (length ws)" using c assms(2) by auto
    moreover have "sem_queue ?s ws" using r(3) by simp
    ultimately obtain s' where s': "sem_release_loop ?u ?s = Some (Inr (take (nat (- ?u)) ws, s'))"
      "sem_queue s' (drop (nat (- ?u)) ws)" "counter s' = counter s + int n"
      using sem_release_loop_queue [of ?s ws ?u] by auto
    have t: "nat (- ?u) = min (length ws) n" using c by auto
    have "take (min (length ws) n) ws = take n ws" "drop (min (length ws) n) ws = drop n ws"
      by (simp_all add: min_def)
    with s' t c w False show ?thesis
      by (auto simp: sem_release_n_def sem_rep_def)
  qed
qed

lemma sem_release1_rep:
  assumes "sem_rep s p ws" and "fits64 (counter s + 1)"
  shows "sem_release1 s = sem_release_n 1 s"
proof (cases ws)
  case Nil
  with assms(1) have "counter s \<ge> 0" by (simp add: sem_rep_def)
  then show ?thesis by (simp add: sem_release1_def sem_release_n_def)
next
  case (Cons a as)
  with assms(1) have c: "counter s < 0" "sem_queue s (a # as)" by (simp_all add: sem_rep_def)
  then have "sem_queue (s\<lparr>counter := wrap64 (counter s + 1)\<rparr>) (a # as)" by simp
  from sem_try_release_first [OF this] c(1) show ?thesis
    by (auto simp: sem_release1_def sem_release_n_def sem_release_loop.simps)
qed

section \<open>Properties of the operations alone\<close>

text \<open>On a semaphore with \<open>p\<close> free permits and the waiters \<open>ws\<close>, \<open>acquire\<close> takes a permit and
  goes on when there is one, and else suspends the coroutine behind all others; the counter
  stays the number of permits minus the number of waiters.\<close>

theorem sem_acquire_spec:
  assumes "sem_rep s p ws" and "fits64 (counter s - 1)" and "a \<noteq> 0" and "a \<notin> set ws"
  shows "if p > 0 then fst (sem_acquire h a s) \<and> sem_rep (snd (sem_acquire h a s)) (p - 1) ws
         else \<not> fst (sem_acquire h a s) \<and> sem_rep (snd (sem_acquire h a s)) 0 (ws @ [a])"
  by (rule sem_acquire_rep [OF assms])

definition sem_example :: semaphore where
  "sem_example = snd (sem_acquire 3 24 (snd (sem_acquire 2 16 (snd (sem_acquire 1 8
     (sem_init 1 \<lparr>sem_awaiting = 0, sem_to_resume = 0, counter = 0, sa_next = (\<lambda>_. 0),
                   sa_handle = (\<lambda>_. 0), sa_ctx = (\<lambda>_. 0)\<rparr>))))))"

lemma sem_example_simp: "sem_example =
   \<lparr>sem_awaiting = 24, sem_to_resume = 0, counter = - 2, sa_next = (\<lambda>_. 0)(16 := 0, 24 := 16),
    sa_handle = (\<lambda>_. 0)(16 := 2, 24 := 3), sa_ctx = (\<lambda>_. 0)\<rparr>"
proof -
  have "fits64 0" "fits64 (- 1)" "fits64 (- 2)" by (simp_all add: fits64_def)
  then show ?thesis
    by (simp add: sem_example_def sem_acquire_def sem_await_ready_def sem_init_def
        sem_await_suspend_def sem_push_def wrap64_fits)
qed

lemma sem_example_rep: "sem_rep sem_example 0 [16, 24]"
  by (simp add: sem_rep_def sem_example_simp) (rule sem_queueI [of _ _ "[]" "[24, 16]"], simp_all)

theorem sem_acquire_spec_witness:
  "\<not> fst (sem_acquire 4 32 sem_example) \<and> sem_rep (snd (sem_acquire 4 32 sem_example)) 0 [16, 24, 32]"
  using sem_acquire_spec [OF sem_example_rep, of 32 4] by (simp add: sem_example_simp fits64_def)

text \<open>\<open>release(n)\<close> for a positive \<open>n\<close> wakes the \<open>n\<close> coroutines that waited longest, in the
  order in which they came, or all of them when there are fewer, and what is left of \<open>n\<close>
  becomes free permits; it never fails, and \<open>release()\<close> does the same as \<open>release(1)\<close>.\<close>

theorem sem_release_spec:
  assumes "sem_rep s p ws" and "0 < n" and "fits64 (counter s + int n)"
  shows "(\<exists>s'. sem_release_n (int n) s = Some (Inr (take n ws, s')) \<and>
      sem_rep s' (p + (n - length ws)) (drop n ws)) \<and>
    (n = 1 \<longrightarrow> sem_release1 s = sem_release_n (int n) s)"
  using sem_release_n_rep [OF assms] sem_release1_rep [OF assms(1)] assms(3) by auto

theorem sem_release_spec_witness:
  "\<exists>s'. sem_release_n 3 sem_example = Some (Inr ([16, 24], s')) \<and> sem_rep s' 1 []"
  using sem_release_spec [OF sem_example_rep, of 3] by (simp add: sem_example_simp fits64_def)

text \<open>\<open>release(0)\<close> on a semaphore with waiters is not a no-op: it wakes one of them although no
  permit was given, and the counter no longer agrees with the queue.\<close>

theorem sem_release_zero_wakes:
  assumes "sem_rep s p (a # ws)" and "fits64 (counter s)"
  shows "\<exists>s'. sem_release_n 0 s = Some (Inr ([a], s')) \<and> sem_queue s' ws \<and>
    counter s' = - int (length ws) - 1 \<and> (\<forall>p'. \<not> sem_rep s' p' ws)"
proof -
  from assms(1) have c: "counter s = - int (length ws) - 1" "sem_queue s (a # ws)"
    by (simp_all add: sem_rep_def)
  have w: "wrap64 (counter s + 0) = counter s" using assms(2) by (simp add: wrap64_fits)
  from sem_try_release_first [OF c(2)] obtain s' where
    s': "sem_try_release s = Some (Some a, s')" "sem_queue s' ws" "counter s' = counter s"
    by blast
  have e: "s\<lparr>counter := - int (length ws) - 1\<rparr> = s" using c(1) [symmetric] by simp
  have "sem_release_n 0 s = Some (Inr ([a], s'))"
    using c(1) w s'(1) by (simp add: sem_release_n_def sem_release_loop.simps [of _ s] e)
  moreover have "\<not> sem_rep s' p' ws" for p' using s'(3) c(1) by (simp add: sem_rep_def)
  ultimately show ?thesis using s' c(1) by simp
qed

theorem sem_release_zero_wakes_witness:
  "\<exists>s'. sem_release_n 0 sem_example = Some (Inr ([16], s')) \<and> counter s' = - 2"
  using sem_release_zero_wakes [OF sem_example_rep] by (auto simp: sem_example_simp fits64_def)

end
