(* ===== verification/Semaphore_Threads.thy ===== *)
theory Semaphore_Threads
  imports Semaphore
begin

text \<open>
  The semaphore under interleaving. A step is one access of a coroutine to shared memory in
  \<open>try_acquire\<close>, \<open>acquire\<close> or \<open>release\<close>. What \<open>release\<close> does under the spinlock
  \<open>notifier_mtx\<close>, and the spawn that follows, is one step: the only word in it that another
  coroutine writes is \<open>awaiting\<close>, and that is accessed once. The numbers \<open>grants\<close> and
  \<open>posts\<close> count the acquisitions and the releases so far.
\<close>

section \<open>Program counters and steps\<close>

datatype sem_pc =
    SIdle          \<comment> \<open>not in a call, and not granted a permit by \<open>acquire\<close>\<close>
  | STry int       \<comment> \<open>in \<open>try_acquire\<close>, has loaded this counter\<close>
  | SSuspend       \<comment> \<open>has decremented the counter, about to load \<open>awaiting\<close>\<close>
  | SLinked ptr    \<comment> \<open>linked to this old head, about to push itself\<close>
  | SWaiting       \<comment> \<open>suspended\<close>
  | SGranted       \<comment> \<open>has acquired\<close>
  | SPost          \<comment> \<open>has incremented a negative counter, about to take the spinlock\<close>
  | SCrash         \<comment> \<open>has dereferenced the null pointer\<close>

record sem_sys = semaphore +
  spc :: "ptr \<Rightarrow> sem_pc"
  grants :: nat
  posts :: nat

definition set_spc :: "ptr \<Rightarrow> sem_pc \<Rightarrow> sem_sys \<Rightarrow> sem_sys" where
  "set_spc a p s = s\<lparr>spc := (spc s)(a := p)\<rparr>"

definition grant :: "ptr \<Rightarrow> sem_sys \<Rightarrow> sem_sys" where
  "grant a s = set_spc a SGranted (s\<lparr>grants := grants s + 1\<rparr>)"

text \<open>The accesses of \<open>acquire\<close>.\<close>

definition acquire_fetch :: "ptr \<Rightarrow> sem_sys \<Rightarrow> sem_sys" where
  "acquire_fetch a s =
     (let (ready, s) = sem_await_ready s in if ready then grant a s else set_spc a SSuspend s)"

definition acquire_link :: "ptr \<Rightarrow> sem_sys \<Rightarrow> sem_sys" where
  "acquire_link a s = set_spc a (SLinked (sem_awaiting s)) (s\<lparr>sa_next := (sa_next s)(a := sem_awaiting s)\<rparr>)"

definition acquire_cas :: "bool \<Rightarrow> ptr \<Rightarrow> ptr \<Rightarrow> sem_sys \<Rightarrow> sem_sys" where
  "acquire_cas weak old_head a s =
     (if \<not> weak \<and> sem_awaiting s = old_head then set_spc a SWaiting (s\<lparr>sem_awaiting := a\<rparr>)
      else acquire_link a s)"

text \<open>The accesses of \<open>try_acquire\<close>.\<close>

definition try_load :: "ptr \<Rightarrow> sem_sys \<Rightarrow> sem_sys" where
  "try_load a s = (if counter s > 0 then set_spc a (STry (counter s)) s else s)"

definition try_cas :: "int \<Rightarrow> ptr \<Rightarrow> sem_sys \<Rightarrow> sem_sys" where
  "try_cas old_counter a s =
     (if counter s = old_counter then grant a (s\<lparr>counter := wrap64 (old_counter - 1)\<rparr>)
      else set_spc a SIdle s)"

text \<open>The accesses of \<open>release\<close>.\<close>

definition release_fetch :: "ptr \<Rightarrow> sem_sys \<Rightarrow> sem_sys" where
  "release_fetch a s =
     set_spc a (if counter s \<ge> 0 then SIdle else SPost)
       (s\<lparr>counter := wrap64 (counter s + 1), posts := posts s + 1\<rparr>)"

definition release_wake :: "ptr \<Rightarrow> sem_sys \<Rightarrow> sem_sys option" where
  "release_wake a s = (case sem_try_release s of
     None \<Rightarrow> None
   | Some (None, s) \<Rightarrow> Some (set_spc a SCrash s)
   | Some (Some b, s) \<Rightarrow> Some (grant b (set_spc a SIdle s)))"

inductive sem_step :: "sem_sys \<Rightarrow> sem_sys \<Rightarrow> bool" where
  step_acquire: "spc s a = SIdle \<Longrightarrow> a \<noteq> 0 \<Longrightarrow> fits64 (counter s - 1) \<Longrightarrow> sem_step s (acquire_fetch a s)"
| step_link: "spc s a = SSuspend \<Longrightarrow> sem_step s (acquire_link a s)"
| step_cas: "spc s a = SLinked old \<Longrightarrow> sem_step s (acquire_cas weak old a s)"
| step_try: "spc s a = SIdle \<Longrightarrow> a \<noteq> 0 \<Longrightarrow> sem_step s (try_load a s)"
| step_try_cas: "spc s a = STry old \<Longrightarrow> fits64 (counter s - 1) \<Longrightarrow> sem_step s (try_cas old a s)"
| step_release: "spc s a \<in> {SIdle, SGranted} \<Longrightarrow> a \<noteq> 0 \<Longrightarrow> fits64 (counter s + 1) \<Longrightarrow>
    sem_step s (release_fetch a s)"
| step_leave: "spc s a = SGranted \<Longrightarrow> sem_step s (set_spc a SIdle s)"
| step_wake: "spc s a = SPost \<Longrightarrow> release_wake a s = Some t \<Longrightarrow> sem_step s t"

definition sem_sys_init :: "nat \<Rightarrow> sem_sys \<Rightarrow> bool" where
  "sem_sys_init n s \<longleftrightarrow> sem_awaiting s = 0 \<and> sem_to_resume s = 0 \<and> counter s = int n \<and>
     spc s = (\<lambda>_. SIdle) \<and> grants s = 0 \<and> posts s = 0"

inductive sem_reachable :: "nat \<Rightarrow> sem_sys \<Rightarrow> bool" for n :: nat where
  sem_start: "sem_sys_init n s \<Longrightarrow> sem_reachable n s"
| sem_next: "sem_reachable n s \<Longrightarrow> sem_step s t \<Longrightarrow> sem_reachable n t"

section \<open>Counting program counters\<close>

fun owes :: "sem_pc \<Rightarrow> bool" where
  "owes SSuspend = True"
| "owes (SLinked _) = True"
| "owes SWaiting = True"
| "owes _ = False"

fun posting :: "sem_pc \<Rightarrow> bool" where
  "posting SPost = True"
| "posting SCrash = True"
| "posting _ = False"

text \<open>Those between the decrement and the push, whom \<open>release\<close> cannot see yet.\<close>

fun in_window :: "sem_pc \<Rightarrow> bool" where
  "in_window SSuspend = True"
| "in_window (SLinked _) = True"
| "in_window _ = False"

definition pcs :: "(sem_pc \<Rightarrow> bool) \<Rightarrow> sem_sys \<Rightarrow> nat" where
  "pcs P s = pc_count P (spc s)"

abbreviation busy_finite :: "sem_sys \<Rightarrow> bool" where
  "busy_finite s \<equiv> pc_finite SIdle (spc s)"

lemma set_spc_simps [simp]:
  "spc (set_spc a p s) = (spc s)(a := p)" "counter (set_spc a p s) = counter s"
  "grants (set_spc a p s) = grants s" "posts (set_spc a p s) = posts s"
  "sem_awaiting (set_spc a p s) = sem_awaiting s" "sem_to_resume (set_spc a p s) = sem_to_resume s"
  "sa_next (set_spc a p s) = sa_next s"
  by (simp_all add: set_spc_def)

lemma sem_queue_set_spc [simp]:
  "sem_queue (set_spc a p s) ws = sem_queue s ws" "sem_queue (s\<lparr>spc := f\<rparr>) ws = sem_queue s ws"
  "sem_queue (s\<lparr>grants := n\<rparr>) ws = sem_queue s ws" "sem_queue (s\<lparr>posts := n\<rparr>) ws = sem_queue s ws"
  by (simp_all add: sem_queue_def set_spc_def)

lemma pcs_update:
  "busy_finite s \<Longrightarrow> \<not> P SIdle \<Longrightarrow> spc t = (spc s)(a := p) \<Longrightarrow>
     pcs P t + of_bool (P (spc s a)) = pcs P s + of_bool (P p)"
  unfolding pcs_def using pc_count_upd [of SIdle "spc s" P a p] by simp

section \<open>The invariant\<close>

definition debt :: "int \<Rightarrow> int" where
  "debt c = max 0 (- c)"

definition sem_counts :: "nat \<Rightarrow> sem_sys \<Rightarrow> bool" where
  "sem_counts n s \<longleftrightarrow> busy_finite s \<and>
     counter s = int n + int (posts s) - int (grants s) - int (pcs owes s) \<and>
     int (pcs owes s) = int (pcs posting s) + debt (counter s) \<and>
     (\<forall>a old. spc s a = STry old \<longrightarrow> old > 0)"

definition sem_links :: "sem_sys \<Rightarrow> ptr list \<Rightarrow> bool" where
  "sem_links s ws \<longleftrightarrow> sem_queue s ws \<and> (\<forall>a. spc s a = SWaiting \<longleftrightarrow> a \<in> set ws) \<and>
     (\<forall>a old. spc s a = SLinked old \<longrightarrow> sa_next s a = old) \<and> spc s 0 = SIdle"

text \<open>A step of one coroutine, seen by the counts.\<close>

lemma sem_counts_step:
  assumes c: "sem_counts n s" and t: "spc t = (spc s)(a := p)"
    and bal: "counter t - counter s = int (posts t) - int (posts s) - (int (grants t) - int (grants s))
        - (of_bool (owes p) - of_bool (owes (spc s a)))"
    and due: "of_bool (owes p) - of_bool (owes (spc s a))
        = of_bool (posting p) - of_bool (posting (spc s a)) + (debt (counter t) - debt (counter s))"
    and tr: "\<And>old. p = STry old \<Longrightarrow> old > 0"
  shows "sem_counts n t"
proof -
  from c have b: "busy_finite s"
    and e: "counter s = int n + int (posts s) - int (grants s) - int (pcs owes s)"
      "int (pcs owes s) = int (pcs posting s) + debt (counter s)"
    and str: "\<forall>a old. spc s a = STry old \<longrightarrow> old > 0"
    unfolding sem_counts_def by blast+
  have o: "int (pcs owes t) = int (pcs owes s) + of_bool (owes p) - of_bool (owes (spc s a))"
    using arg_cong [OF pcs_update [OF b _ t, of owes], of int] by simp
  have w: "int (pcs posting t) = int (pcs posting s) + of_bool (posting p) - of_bool (posting (spc s a))"
    using arg_cong [OF pcs_update [OF b _ t, of posting], of int] by simp
  have arith1: "c' = k + p' - g' - x'"
    if "x' = x + u - v" "c = k + p - g - x" "c' - c = p' - p - (g' - g) - (u - v)"
    for c c' k p p' g g' x x' u v :: int using that by linarith
  have arith2: "x' = y' + d'"
    if "x' = x + u - v" "y' = y + u' - v'" "x = y + d" "u - v = u' - v' + (d' - d)"
    for x x' y y' u u' v v' d d' :: int using that by linarith
  show ?thesis
    unfolding sem_counts_def
  proof (intro conjI allI impI)
    show "busy_finite t" using b t by (simp only: pc_finite_upd)
    show "counter t = int n + int (posts t) - int (grants t) - int (pcs owes t)"
      by (rule arith1 [OF o e(1) bal])
    show "int (pcs owes t) = int (pcs posting t) + debt (counter t)"
      by (rule arith2 [OF o w e(2) due])
    show "old > 0" if "spc t x = STry old" for x old
      using that t tr str by (cases "x = a") simp_all
  qed
qed

text \<open>A step of one coroutine that leaves the lists alone.\<close>

lemma sem_links_local:
  assumes l: "sem_links s ws" and t: "spc t = (spc s)(a := p)" "sem_awaiting t = sem_awaiting s"
      "sem_to_resume t = sem_to_resume s"
    and nxt: "\<And>b. b \<noteq> a \<Longrightarrow> sa_next t b = sa_next s b"
    and p: "p \<noteq> SWaiting" "spc s a \<noteq> SWaiting" "a \<noteq> 0"
    and link: "\<And>old. p = SLinked old \<Longrightarrow> sa_next t a = old"
  shows "sem_links t ws"
proof -
  from l have q: "sem_queue s ws" and w: "\<And>b. spc s b = SWaiting \<longleftrightarrow> b \<in> set ws"
    and k: "\<And>b old. spc s b = SLinked old \<Longrightarrow> sa_next s b = old" "spc s 0 = SIdle"
    by (simp_all add: sem_links_def)
  have notin: "a \<notin> set ws" using w [of a] p by simp
  from q obtain fs ss where r: "distinct ws" "chain (sa_next s) (sem_to_resume s) fs"
    "chain (sa_next s) (sem_awaiting s) ss" "ws = fs @ rev ss"
    by (rule sem_queueE)
  have "chain (sa_next t) x xs = chain (sa_next s) x xs" if "set xs \<subseteq> set ws" for x xs
    using that notin nxt by (intro chain_cong) force
  with r t have "sem_queue t ws" by (intro sem_queueI [of _ _ fs ss]) simp_all
  moreover have "spc t b = SWaiting \<longleftrightarrow> b \<in> set ws" for b using w [of b] t(1) p notin by simp
  moreover have "sa_next t b = old" if "spc t b = SLinked old" for b old
    using that k(1) [of b old] nxt [of b] link [of old] t(1) by (cases "b = a") simp_all
  ultimately show ?thesis using k(2) t(1) p(3) by (simp add: sem_links_def)
qed

lemma sem_links_push:
  assumes l: "sem_links s ws" and pa: "spc s a = SLinked (sem_awaiting s)"
    and t: "spc t = (spc s)(a := SWaiting)" "sem_awaiting t = a" "sem_to_resume t = sem_to_resume s"
      "sa_next t = sa_next s"
  shows "sem_links t (ws @ [a])"
proof -
  from l have q: "sem_queue s ws" and w: "\<And>b. spc s b = SWaiting \<longleftrightarrow> b \<in> set ws"
    and k: "\<And>b old. spc s b = SLinked old \<Longrightarrow> sa_next s b = old" "spc s 0 = SIdle"
    by (simp_all add: sem_links_def)
  have notin: "a \<notin> set ws" using w [of a] pa by simp
  have nz: "a \<noteq> 0" using k(2) pa by auto
  from q obtain fs ss where r: "distinct ws" "chain (sa_next s) (sem_to_resume s) fs"
    "chain (sa_next s) (sem_awaiting s) ss" "ws = fs @ rev ss"
    by (rule sem_queueE)
  have "sem_queue t (ws @ [a])"
    by (rule sem_queueI [of _ _ fs "a # ss"]) (use r t notin nz k(1) [OF pa] in simp_all)
  moreover have "spc t b = SWaiting \<longleftrightarrow> b \<in> set (ws @ [a])" for b using w [of b] t(1) by simp
  moreover have "sa_next t b = old" if "spc t b = SLinked old" for b old
    using that k(1) [of b old] t by (cases "b = a") simp_all
  ultimately show ?thesis using k(2) t(1) nz by (simp add: sem_links_def)
qed

text \<open>The wake of \<open>b\<close> by \<open>a\<close>.\<close>

lemma sem_counts_wake:
  assumes c: "sem_counts n s" and pc: "spc s a = SPost" "spc s b = SWaiting"
    and t: "spc t = (spc s)(a := SIdle, b := SGranted)" "counter t = counter s" "posts t = posts s"
      "grants t = grants s + 1"
  shows "sem_counts n t"
proof -
  from c have fin: "busy_finite s"
    and e: "counter s = int n + int (posts s) - int (grants s) - int (pcs owes s)"
      "int (pcs owes s) = int (pcs posting s) + debt (counter s)"
    and str: "\<forall>a old. spc s a = STry old \<longrightarrow> old > 0"
    unfolding sem_counts_def by blast+
  let ?m = "set_spc a SIdle s"
  have ab: "b \<noteq> a" using pc by auto
  have m: "spc ?m = (spc s)(a := SIdle)" by simp
  have mt: "spc t = (spc ?m)(b := SGranted)" using t(1) by simp
  have fm: "busy_finite ?m" using fin m by (simp only: pc_finite_upd)
  have ft: "busy_finite t" using fm mt by (simp only: pc_finite_upd)
  have o: "pcs owes s = Suc (pcs owes t)"
    using pcs_update [OF fin _ m, of owes] pcs_update [OF fm _ mt, of owes] pc ab by simp
  have w: "pcs posting s = Suc (pcs posting t)"
    using pcs_update [OF fin _ m, of posting] pcs_update [OF fm _ mt, of posting] pc ab by simp
  have "counter t = int n + int (posts t) - int (grants t) - int (pcs owes t)"
    using e(1) unfolding o t(2,3,4) by simp
  moreover have "int (pcs owes t) = int (pcs posting t) + debt (counter t)"
    using e(2) unfolding o w t(2) by simp
  moreover have "old > 0" if "spc t x = STry old" for x old
    using that str t(1) by (cases "x = b"; cases "x = a") simp_all
  ultimately show ?thesis using ft unfolding sem_counts_def by blast
qed

lemma sem_links_wake:
  assumes l: "sem_links s ws" and pa: "spc s a = SPost"
    and r: "sem_try_release s = Some (r, s')" and keep: "spc s' = spc s"
  shows "case r of None \<Rightarrow> ws = [] \<and> sem_links (set_spc a SCrash s') []
    | Some b \<Rightarrow> spc s b = SWaiting \<and> (\<exists>vs. ws = b # vs \<and> sem_links (set_spc b SGranted (set_spc a SIdle s')) vs)"
proof -
  from l have q: "sem_queue s ws" and w: "\<And>b. spc s b = SWaiting \<longleftrightarrow> b \<in> set ws"
    and k: "\<And>b old. spc s b = SLinked old \<Longrightarrow> sa_next s b = old" "spc s 0 = SIdle"
    by (simp_all add: sem_links_def)
  have lk: "sa_next s' b = old" if "spc s b = SLinked old" for b old
    using sem_try_release_others [OF q r, of b] k(1) [OF that] w [of b] that by simp
  have a0: "a \<noteq> 0" using k(2) pa by auto
  show ?thesis
  proof (cases ws)
    case Nil
    with q sem_try_release_empty [of s] r have "r = None" "sem_queue s' []" by auto
    with Nil w lk k(2) keep a0 show ?thesis by (simp add: sem_links_def)
  next
    case (Cons b vs)
    with q sem_try_release_first [of s b vs] r have s': "r = Some b" "sem_queue s' vs" by auto
    have d: "b \<notin> set vs" using q Cons unfolding sem_queue_def by simp
    have sb: "spc s b = SWaiting" using w [of b] Cons by simp
    have nz: "b \<noteq> 0" using sb k(2) by auto
    have "sem_links (set_spc b SGranted (set_spc a SIdle s')) vs"
      unfolding sem_links_def
    proof (intro conjI allI impI)
      fix x old
      show "spc (set_spc b SGranted (set_spc a SIdle s')) x = SWaiting \<longleftrightarrow> x \<in> set vs"
        using w [of x] Cons d pa keep by auto
      show "sa_next (set_spc b SGranted (set_spc a SIdle s')) x = old"
        if "spc (set_spc b SGranted (set_spc a SIdle s')) x = SLinked old"
        using that lk [of x old] keep by (simp split: if_splits)
    qed (use s' keep k(2) nz in simp_all)
    with s' sb Cons show ?thesis by simp
  qed
qed

lemma sem_try_release_keeps:
  assumes "sem_try_release (s :: sem_sys) = Some (r, s')"
  shows "spc s' = spc s" and "grants s' = grants s" and "posts s' = posts s" and "counter s' = counter s"
  using assms by (auto simp: sem_try_release_def Let_def split: if_splits option.splits prod.splits)

definition sem_inv :: "nat \<Rightarrow> sem_sys \<Rightarrow> bool" where
  "sem_inv n s \<longleftrightarrow> sem_counts n s \<and> (\<exists>ws. sem_links s ws)"

lemma acquire_fetch_fields:
  "spc (acquire_fetch a s) = (spc s)(a := if counter s > 0 then SGranted else SSuspend)"
  "counter (acquire_fetch a s) = wrap64 (counter s - 1)"
  "grants (acquire_fetch a s) = grants s + (if counter s > 0 then 1 else 0)"
  "posts (acquire_fetch a s) = posts s" "sem_awaiting (acquire_fetch a s) = sem_awaiting s"
  "sem_to_resume (acquire_fetch a s) = sem_to_resume s" "sa_next (acquire_fetch a s) = sa_next s"
  by (simp_all add: acquire_fetch_def sem_await_ready_def grant_def Let_def)

lemma sem_step_inv:
  assumes "sem_step s t" and "sem_inv n s"
  shows "sem_inv n t"
proof -
  from assms(2) obtain ws where c: "sem_counts n s" and l: "sem_links s ws"
    by (auto simp: sem_inv_def)
  have nz: "a \<noteq> 0" if "spc s a \<noteq> SIdle" for a using l that by (auto simp: sem_links_def)
  have local: "sem_inv n t"
    if "spc t = (spc s)(a := p)" "sem_awaiting t = sem_awaiting s" "sem_to_resume t = sem_to_resume s"
      "\<And>b. b \<noteq> a \<Longrightarrow> sa_next t b = sa_next s b" "p \<noteq> SWaiting" "spc s a \<noteq> SWaiting" "a \<noteq> 0"
      "\<And>old. p = SLinked old \<Longrightarrow> sa_next t a = old" "sem_counts n t" for a p
    using sem_links_local [OF l that(1-8)] that(9) by (auto simp: sem_inv_def)
  show ?thesis
    using assms(1)
  proof cases
    case (step_acquire a)
    have w: "wrap64 (counter s - 1) = counter s - 1" using step_acquire by (simp add: wrap64_fits)
    let ?p = "if counter s > 0 then SGranted else SSuspend"
    have pc: "spc t = (spc s)(a := ?p)" using step_acquire by (simp add: acquire_fetch_fields)
    have "sem_counts n t"
      by (rule sem_counts_step [OF c pc])
        (use step_acquire w in \<open>simp_all add: acquire_fetch_fields debt_def split: if_splits\<close>)
    then show ?thesis
      by (intro local [OF pc]) (use step_acquire in \<open>simp_all add: acquire_fetch_fields split: if_splits\<close>)
  next
    case (step_link a)
    have pc: "spc t = (spc s)(a := SLinked (sem_awaiting s))"
      using step_link by (simp add: acquire_link_def)
    have "sem_counts n t"
      by (rule sem_counts_step [OF c pc]) (use step_link in \<open>simp_all add: acquire_link_def\<close>)
    then show ?thesis
      by (intro local [OF pc]) (use step_link nz in \<open>simp_all add: acquire_link_def\<close>)
  next
    case (step_cas a old weak)
    show ?thesis
    proof (cases "\<not> weak \<and> sem_awaiting s = old")
      case True
      have pc: "spc t = (spc s)(a := SWaiting)" using step_cas True by (simp add: acquire_cas_def)
      have "sem_counts n t"
        by (rule sem_counts_step [OF c pc]) (use step_cas True in \<open>simp_all add: acquire_cas_def\<close>)
      moreover have "sem_links t (ws @ [a])"
        by (rule sem_links_push [OF l _ pc]) (use step_cas True in \<open>simp_all add: acquire_cas_def\<close>)
      ultimately show ?thesis by (auto simp: sem_inv_def)
    next
      case False
      then have t: "t = acquire_link a s" using step_cas by (auto simp: acquire_cas_def)
      have pc: "spc t = (spc s)(a := SLinked (sem_awaiting s))" using t by (simp add: acquire_link_def)
      have "sem_counts n t"
        by (rule sem_counts_step [OF c pc]) (use step_cas(2) t in \<open>simp_all add: acquire_link_def\<close>)
      then show ?thesis
        by (intro local [OF pc]) (use step_cas(2) t nz in \<open>simp_all add: acquire_link_def\<close>)
    qed
  next
    case (step_try a)
    show ?thesis
    proof (cases "counter s > 0")
      case True
      then have pc: "spc t = (spc s)(a := STry (counter s))" using step_try by (simp add: try_load_def)
      have "sem_counts n t"
        by (rule sem_counts_step [OF c pc]) (use step_try True in \<open>simp_all add: try_load_def\<close>)
      then show ?thesis by (intro local [OF pc]) (use step_try True in \<open>simp_all add: try_load_def\<close>)
    qed (use step_try assms(2) in \<open>simp add: try_load_def\<close>)
  next
    case (step_try_cas a old)
    have pos: "old > 0" using c step_try_cas(2) unfolding sem_counts_def by blast
    have w: "wrap64 (counter s - 1) = counter s - 1" using step_try_cas by (simp add: wrap64_fits)
    show ?thesis
    proof (cases "counter s = old")
      case True
      have t: "t = grant a (s\<lparr>counter := counter s - 1\<rparr>)"
        using step_try_cas(1) w True by (simp add: try_cas_def)
      have pc: "spc t = (spc s)(a := SGranted)" using t by (simp add: grant_def)
      have "sem_counts n t"
        by (rule sem_counts_step [OF c pc])
          (use step_try_cas(2) t pos True in \<open>simp_all add: grant_def debt_def\<close>)
      then show ?thesis
        by (intro local [OF pc]) (use step_try_cas(2) t nz in \<open>simp_all add: grant_def\<close>)
    next
      case False
      have t: "t = set_spc a SIdle s" using step_try_cas(1) False by (simp add: try_cas_def)
      have pc: "spc t = (spc s)(a := SIdle)" using t by simp
      have "sem_counts n t"
        by (rule sem_counts_step [OF c pc]) (use step_try_cas(2) t in simp_all)
      then show ?thesis by (intro local [OF pc]) (use step_try_cas(2) t nz in simp_all)
    qed
  next
    case (step_release a)
    have w: "wrap64 (counter s + 1) = counter s + 1" using step_release by (simp add: wrap64_fits)
    let ?p = "if counter s \<ge> 0 then SIdle else SPost"
    have pc: "spc t = (spc s)(a := ?p)" using step_release by (simp add: release_fetch_def)
    have "sem_counts n t"
      by (rule sem_counts_step [OF c pc])
        (use step_release w in \<open>auto simp: release_fetch_def debt_def split: if_splits\<close>)
    then show ?thesis
      by (intro local [OF pc]) (use step_release in \<open>auto simp: release_fetch_def split: if_splits\<close>)
  next
    case (step_leave a)
    have pc: "spc t = (spc s)(a := SIdle)" using step_leave by simp
    have "sem_counts n t" by (rule sem_counts_step [OF c pc]) (use step_leave in simp_all)
    then show ?thesis by (intro local [OF pc]) (use step_leave nz in simp_all)
  next
    case (step_wake a)
    then obtain r s' where r: "sem_try_release s = Some (r, s')"
      "t = (case r of None \<Rightarrow> set_spc a SCrash s' | Some b \<Rightarrow> grant b (set_spc a SIdle s'))"
      by (auto simp: release_wake_def split: option.splits)
    note kp = sem_try_release_keeps [OF r(1)]
    note w = sem_links_wake [OF l step_wake(1) r(1) kp(1)]
    show ?thesis
    proof (cases r)
      case None
      then have t: "t = set_spc a SCrash s'" using r(2) by simp
      have pc: "spc t = (spc s)(a := SCrash)" using t kp by simp
      have "sem_counts n t"
        by (rule sem_counts_step [OF c pc]) (use t kp step_wake in simp_all)
      with w None t show ?thesis by (auto simp: sem_inv_def)
    next
      case (Some b)
      then have t: "t = grant b (set_spc a SIdle s')" using r(2) by simp
      from w Some obtain vs where b: "spc s b = SWaiting"
        "sem_links (set_spc b SGranted (set_spc a SIdle s')) vs" by auto
      have "sem_counts n t"
        by (rule sem_counts_wake [OF c step_wake(1) b(1)]) (use t kp in \<open>simp_all add: grant_def\<close>)
      moreover have "sem_links t vs" using b(2) t by (simp add: sem_links_def grant_def sem_queue_def)
      ultimately show ?thesis by (auto simp: sem_inv_def)
    qed
  qed
qed

lemma sem_reachable_inv: "sem_reachable n s \<Longrightarrow> sem_inv n s"
proof (induction rule: sem_reachable.induct)
  case (sem_start s)
  then have "spc s = (\<lambda>_. SIdle)" by (simp add: sem_sys_init_def)
  moreover have "sem_queue s []" using sem_start by (simp add: sem_queue_def sem_sys_init_def)
  ultimately show ?case
    using sem_start
    by (simp add: sem_inv_def sem_counts_def sem_links_def sem_sys_init_def pcs_def
        debt_def)
qed (rule sem_step_inv)

section \<open>Properties\<close>

text \<open>C6. Permits are never overspent: after any interleaving of \<open>acquire\<close>, \<open>try_acquire\<close> and
  \<open>release\<close>, no more acquisitions have been granted than there were permits at the start plus
  releases since; and when nobody is between the counter and the queue and no release is
  pending, everybody who waits does so because every permit is taken.\<close>

theorem sem_never_overspent:
  assumes "sem_reachable n s"
  shows "grants s \<le> n + posts s \<and>
    ((\<forall>a. \<not> posting (spc s a)) \<and> (\<exists>a. owes (spc s a)) \<longrightarrow> grants s = n + posts s)"
proof -
  from sem_reachable_inv [OF assms] have c: "sem_counts n s" by (simp add: sem_inv_def)
  from c have fin: "busy_finite s"
    and e: "counter s = int n + int (posts s) - int (grants s) - int (pcs owes s)"
      "int (pcs owes s) = int (pcs posting s) + debt (counter s)"
    unfolding sem_counts_def by blast+
  have d: "debt (counter s) \<ge> - counter s" "debt (counter s) \<ge> 0"
    "debt (counter s) > 0 \<Longrightarrow> debt (counter s) = - counter s"
    by (simp_all add: debt_def)
  have le: "int (grants s) \<le> int n + int (posts s)" using e d(1,2) by linarith
  have eq: "grants s = n + posts s" if p: "\<forall>a. \<not> posting (spc s a)" and o: "owes (spc s a)" for a
  proof -
    have "pcs posting s = 0" using p by (simp add: pcs_def pc_count_def)
    moreover have "pcs owes s > 0"
      unfolding pcs_def using pc_count_pos [OF fin, of owes] o by auto
    ultimately have "int (grants s) = int n + int (posts s)" using e d(3) by linarith
    then show ?thesis by simp
  qed
  from le eq show ?thesis by auto
qed

definition sem_sys0 :: "nat \<Rightarrow> sem_sys" where
  "sem_sys0 n = \<lparr>sem_awaiting = 0, sem_to_resume = 0, counter = int n, sa_next = (\<lambda>_. 0),
     sa_handle = (\<lambda>_. 0), sa_ctx = (\<lambda>_. 0), spc = (\<lambda>_. SIdle), grants = 0, posts = 0\<rparr>"

text \<open>
  8 takes the only permit, 16 finds none and decrements the counter, 8 releases and finds the
  counter negative; 16 is not on the list yet.
\<close>

definition sem_window :: sem_sys where
  "sem_window = release_fetch 8 (acquire_fetch 16 (acquire_fetch 8 (sem_sys0 1)))"

lemma sem_window_fields:
  "spc sem_window = (\<lambda>_. SIdle)(16 := SSuspend, 8 := SPost)" "counter sem_window = 0"
  "sem_awaiting sem_window = 0" "sem_to_resume sem_window = 0" "sa_next sem_window = (\<lambda>_. 0)"
  "grants sem_window = 1" "posts sem_window = 1"
proof -
  have "fits64 0" "fits64 (- 1)" by (simp_all add: fits64_def)
  then show "spc sem_window = (\<lambda>_. SIdle)(16 := SSuspend, 8 := SPost)" "counter sem_window = 0"
    "sem_awaiting sem_window = 0" "sem_to_resume sem_window = 0" "sa_next sem_window = (\<lambda>_. 0)"
    "grants sem_window = 1" "posts sem_window = 1"
    by (simp_all add: sem_window_def release_fetch_def acquire_fetch_fields sem_sys0_def wrap64_fits
        fun_upd_twist)
qed

lemma sem_window_reachable: "sem_reachable 1 sem_window"
proof -
  have f: "fits64 0" "fits64 (- 1)" by (simp_all add: fits64_def)
  have "sem_reachable 1 (sem_sys0 1)"
    by (rule sem_start) (simp add: sem_sys_init_def sem_sys0_def)
  then have "sem_reachable 1 (acquire_fetch 8 (sem_sys0 1))"
    by (rule sem_next, intro step_acquire) (use f in \<open>simp_all add: sem_sys0_def\<close>)
  then have "sem_reachable 1 (acquire_fetch 16 (acquire_fetch 8 (sem_sys0 1)))"
    by (rule sem_next, intro step_acquire)
      (use f in \<open>simp_all add: sem_sys0_def acquire_fetch_fields wrap64_fits\<close>)
  then show ?thesis
    unfolding sem_window_def
    by (rule sem_next, intro step_release)
      (use f in \<open>simp_all add: sem_sys0_def acquire_fetch_fields wrap64_fits\<close>)
qed

theorem sem_never_overspent_witness:
  "grants (acquire_link 16 sem_window) \<le> 1 + posts (acquire_link 16 sem_window)"
proof -
  have "sem_reachable 1 (acquire_link 16 sem_window)"
    by (rule sem_next [OF sem_window_reachable step_link]) (simp add: sem_window_fields)
  from sem_never_overspent [OF this] show ?thesis by simp
qed

text \<open>C7. The race of \<open>acquire\<close> and \<open>release\<close>: when \<open>release\<close> finds a negative counter and looks
  for the waiter to wake, it may find none, and it then calls \<open>co_spawn\<close> on the null pointer.
  This happens in no other state than one where some coroutine has decremented the counter in
  \<open>await_ready\<close> and has not pushed itself yet; in all others it wakes a waiter.\<close>

theorem sem_null_only_in_window:
  assumes "sem_reachable n s" and "spc s a = SPost"
  shows "(\<exists>t. release_wake a s = Some t \<and>
      (spc t a = SCrash \<and> (\<exists>b. in_window (spc s b)) \<or>
       (\<exists>b. spc s b = SWaiting \<and> spc t b = SGranted \<and> spc t a = SIdle)))"
proof -
  from sem_reachable_inv [OF assms(1)] obtain ws where c: "sem_counts n s" and l: "sem_links s ws"
    by (auto simp: sem_inv_def)
  from c have fin: "busy_finite s"
    and e: "int (pcs owes s) = int (pcs posting s) + debt (counter s)"
    unfolding sem_counts_def by blast+
  from l have q: "sem_queue s ws" by (simp add: sem_links_def)
  obtain r s' where r: "sem_try_release s = Some (r, s')"
    using sem_try_release_empty [of s] sem_try_release_first [of s] q by (cases ws) blast+
  note kp = sem_try_release_keeps [OF r]
  note w = sem_links_wake [OF l assms(2) r kp(1)]
  show ?thesis
  proof (cases r)
    case None
    have "pcs posting s > 0"
      unfolding pcs_def using pc_count_pos [OF fin, of posting] assms(2) by (auto intro!: exI [of _ a])
    moreover have "debt (counter s) \<ge> 0" by (simp add: debt_def)
    ultimately have "pcs owes s > 0" using e by linarith
    then obtain b where b: "owes (spc s b)" using pc_count_pos [OF fin, of owes] by (auto simp: pcs_def)
    have "spc s b \<noteq> SWaiting" using l w None by (auto simp: sem_links_def)
    with b have "in_window (spc s b)" by (cases "spc s b") auto
    with None r show ?thesis by (auto simp: release_wake_def)
  next
    case (Some b)
    with w have b: "spc s b = SWaiting" by simp
    with assms(2) have "b \<noteq> a" by auto
    with Some r b kp(1) show ?thesis by (auto simp: release_wake_def grant_def)
  qed
qed

theorem sem_null_only_in_window_witness:
  "\<exists>t. release_wake 8 sem_window = Some t \<and> sem_reachable 1 t \<and> spc t 8 = SCrash"
proof -
  have pc: "spc sem_window 8 = SPost" by (simp add: sem_window_fields)
  from sem_null_only_in_window [OF sem_window_reachable pc] obtain t where
    t: "release_wake 8 sem_window = Some t"
    "spc t 8 = SCrash \<or> (\<exists>b. spc sem_window b = SWaiting)"
    by blast
  have "\<not> (\<exists>b. spc sem_window b = SWaiting)" by (simp add: sem_window_fields)
  with t have "spc t 8 = SCrash" by blast
  moreover have "sem_reachable 1 t" by (rule sem_next [OF sem_window_reachable step_wake [OF pc t(1)]])
  ultimately show ?thesis using t(1) by blast
qed

end
