(* ===== verification/Cond_Var.thy ===== *)
theory Cond_Var
  imports Mutex
begin

text \<open>
  The condition variable of \<^verbatim>\<open>include/co_context/co/condition_variable.hpp\<close> and
  \<^verbatim>\<open>lib/co_context/co/condition_variable.cpp\<close>, over the model of the mutex. The awaiter
  of \<open>wait\<close> starts with the lock awaiter that it locks the mutex again with, so both have one
  address. All waiters of the condition variable use one mutex. The code of \<open>notify_one\<close> is
  split where it takes and drops the spinlock and at the exchange of the stack, so that two
  calls can be interleaved.
\<close>

section \<open>State and operations\<close>

record cond_var = mutex +
  cv_awaiting :: ptr
  to_resume_head :: ptr
  to_resume_tail :: ptr
  cv_next :: "ptr \<Rightarrow> ptr"

definition cv_init :: "cond_var \<Rightarrow> cond_var" where
  "cv_init s = s\<lparr>cv_awaiting := 0, to_resume_head := 0, to_resume_tail := 0\<rparr>"

definition cv_wait_new :: "ptr \<Rightarrow> ptr \<Rightarrow> cond_var \<Rightarrow> cond_var result" where
  "cv_wait_new ctx a s = map_sum id (\<lambda>s. s\<lparr>cv_next := (cv_next s)(a := 0)\<rparr>) (lock_awaiter_new ctx a s)"

definition cv_push :: "ptr \<Rightarrow> cond_var \<Rightarrow> cond_var" where
  "cv_push a s = s\<lparr>cv_next := (cv_next s)(a := cv_awaiting s), cv_awaiting := a\<rparr>"

text \<open>The suspension: register, push, and only then unlock the mutex.\<close>

definition cv_await_suspend ::
  "handle \<Rightarrow> ptr \<Rightarrow> cond_var \<Rightarrow> (ptr option \<times> cond_var) result option" where
  "cv_await_suspend current a s = mutex_unlock (cv_push a (s\<lparr>la_coro := (la_coro s)(a := current)\<rparr>))"

text \<open>\<open>wait\<close> with a predicate: the values the predicate has each time the coroutine evaluates it
  decide how often it waits; \<open>None\<close> while it still waits.\<close>

fun cv_wait_pred :: "bool list \<Rightarrow> nat option" where
  "cv_wait_pred [] = None"
| "cv_wait_pred (stop # rest) = (if stop then Some 0 else map_option Suc (cv_wait_pred rest))"

definition cv_notify_awaiter :: "ptr \<Rightarrow> cond_var \<Rightarrow> ptr list \<times> cond_var" where
  "cv_notify_awaiter a s =
     (let (suspended, s) = register_awaiting a s in (if suspended then [] else [a], s))"

text \<open>Steps 1 and 2 of \<open>notify_one\<close>, under the spinlock.\<close>

definition cv_take_front :: "cond_var \<Rightarrow> ptr \<times> cond_var" where
  "cv_take_front s =
     (if to_resume_head s \<noteq> 0
      then (to_resume_head s, s\<lparr>to_resume_head := cv_next s (to_resume_head s)\<rparr>)
      else (0, s\<lparr>to_resume_tail := 0\<rparr>))"

definition cv_grab :: "cond_var \<Rightarrow> ptr \<times> cond_var" where
  "cv_grab s = (cv_awaiting s, s\<lparr>cv_awaiting := 0\<rparr>)"

text \<open>The loop of step 3: the links, \<open>head\<close> and \<open>succ\<close> at its end.\<close>

partial_function (option) cv_reverse ::
  "(ptr \<Rightarrow> ptr) \<Rightarrow> ptr \<Rightarrow> ptr \<Rightarrow> ptr \<Rightarrow> ((ptr \<Rightarrow> ptr) \<times> ptr \<times> ptr) option" where
  "cv_reverse nxt head succ pred =
     (if pred \<noteq> 0 then
        let nxt' = nxt(head := succ) in cv_reverse nxt' pred head (nxt' pred)
      else Some (nxt, head, succ))"

text \<open>Steps 4 and 5, under the spinlock again: whom to notify.\<close>

definition cv_put_back :: "ptr \<Rightarrow> ptr \<Rightarrow> ptr \<Rightarrow> cond_var \<Rightarrow> (ptr \<times> cond_var) result" where
  "cv_put_back head succ tail s =
     (if to_resume_head s = 0 then Inr (head, s\<lparr>to_resume_head := succ, to_resume_tail := tail\<rparr>)
      else if to_resume_tail s = 0 then Inl NullDeref
      else
        let s = s\<lparr>cv_next := (cv_next s)(to_resume_tail s := head)\<rparr>;
            to_notify = to_resume_head s
        in Inr (to_notify, s\<lparr>to_resume_head := cv_next s to_notify, to_resume_tail := tail\<rparr>))"

text \<open>The second half of \<open>notify_one\<close>, once it has the stack with the top \<open>head\<close>.\<close>

definition cv_notify_rest :: "ptr \<Rightarrow> cond_var \<Rightarrow> (ptr list \<times> cond_var) result option" where
  "cv_notify_rest head s =
     (if head = 0 then Some (Inr ([], s))
      else case cv_reverse (cv_next s) head 0 (cv_next s head) of
          None \<Rightarrow> None
        | Some (nxt, oldest, succ) \<Rightarrow>
            Some (map_sum id (\<lambda>(a, s). cv_notify_awaiter a s)
              (cv_put_back oldest succ head (s\<lparr>cv_next := nxt\<rparr>))))"

definition cv_notify_one :: "cond_var \<Rightarrow> (ptr list \<times> cond_var) result option" where
  "cv_notify_one s =
     (let (front, s) = cv_take_front s in
      if front \<noteq> 0 then Some (Inr (cv_notify_awaiter front s))
      else let (head, s) = cv_grab s in cv_notify_rest head s)"

text \<open>
  The loop of \<open>notify_all\<close>: it reads \<open>next\<close> after it has notified. \<open>spawned\<close> collects the
  awaiters that got the mutex.
\<close>

partial_function (option) cv_notify_loop ::
  "ptr \<Rightarrow> ptr list \<Rightarrow> cond_var \<Rightarrow> (ptr list \<times> cond_var) option" where
  "cv_notify_loop head spawned s =
     (if head = 0 then Some (spawned, s)
      else case cv_notify_awaiter head s of
        (as, s) \<Rightarrow> cv_notify_loop (cv_next s head) (spawned @ as) s)"

definition cv_notify_all :: "cond_var \<Rightarrow> (ptr list \<times> cond_var) option" where
  "cv_notify_all s =
     (let (resume_head, s) = cv_grab s in
      case cv_notify_loop resume_head [] s of
        None \<Rightarrow> None
      | Some (as, s) \<Rightarrow> cv_notify_loop (to_resume_head s) as (s\<lparr>to_resume_head := 0\<rparr>))"

section \<open>The waiters of a condition variable\<close>

text \<open>The list in order and the stack, newest first.\<close>

definition cv_parts :: "cond_var \<Rightarrow> ptr list \<Rightarrow> ptr list \<Rightarrow> bool" where
  "cv_parts s fs ss \<longleftrightarrow>
     chain (cv_next s) (to_resume_head s) fs \<and> chain (cv_next s) (cv_awaiting s) ss \<and>
     distinct (fs @ ss) \<and> (\<forall>a \<in> set (fs @ ss). awaiter_addr a) \<and>
     (fs \<noteq> [] \<longrightarrow> to_resume_tail s = last fs)"

definition cv_rep :: "cond_var \<Rightarrow> ptr list \<Rightarrow> bool" where
  "cv_rep s ws \<longleftrightarrow> (\<exists>fs ss. cv_parts s fs ss \<and> ws = fs @ rev ss)"

lemma cv_repI: "cv_parts s fs ss \<Longrightarrow> ws = fs @ rev ss \<Longrightarrow> cv_rep s ws"
  unfolding cv_rep_def by blast

lemma cv_repE:
  assumes "cv_rep s ws"
  obtains fs ss where "cv_parts s fs ss" and "ws = fs @ rev ss"
  using assms unfolding cv_rep_def by blast

lemma cv_parts_init: "cv_parts (cv_init s) [] []"
  by (simp add: cv_parts_def cv_init_def)

text \<open>The operations of the mutex do not touch the lists of the condition variable.\<close>

lemma cv_parts_cong:
  "cv_next t = cv_next s \<Longrightarrow> to_resume_head t = to_resume_head s \<Longrightarrow> cv_awaiting t = cv_awaiting s \<Longrightarrow>
   to_resume_tail t = to_resume_tail s \<Longrightarrow> cv_parts t fs ss = cv_parts s fs ss"
  by (simp add: cv_parts_def)

lemma register_awaiting_cv:
  "cv_parts (snd (register_awaiting a s)) fs ss = cv_parts s fs ss"
  "cv_next (snd (register_awaiting a s)) = cv_next s"
  "to_resume_head (snd (register_awaiting a s)) = to_resume_head s"
  by (simp_all add: register_awaiting_def Let_def cv_parts_def)

lemma mutex_unlock_cv:
  "mutex_unlock s = Some (Inr (r, t)) \<Longrightarrow> cv_parts t fs ss = cv_parts s fs ss"
  by (rule cv_parts_cong)
    (auto simp: mutex_unlock_def unlock_handoff_def Let_def split: if_splits option.splits prod.splits)

lemma lock_rep_cv [simp]:
  "lock_rep (s\<lparr>cv_next := f\<rparr>) = lock_rep s" "lock_rep (s\<lparr>cv_awaiting := p\<rparr>) = lock_rep s"
  "lock_rep (s\<lparr>to_resume_head := p\<rparr>) = lock_rep s" "lock_rep (s\<lparr>to_resume_tail := p\<rparr>) = lock_rep s"
  "lock_rep (s\<lparr>la_coro := g\<rparr>) = lock_rep s"
  by (simp_all add: lock_rep_def fun_eq_iff)

lemma cv_push_rep:
  assumes "cv_rep s ws" and "awaiter_addr a" and "a \<notin> set ws"
  shows "cv_rep (cv_push a s) (ws @ [a])"
proof -
  from assms(1) obtain fs ss where p: "cv_parts s fs ss" "ws = fs @ rev ss" by (rule cv_repE)
  have "cv_parts (cv_push a s) fs (a # ss)"
    using p assms(2,3) awaiter_addr_marks [OF assms(2)] by (simp add: cv_parts_def cv_push_def)
  then show ?thesis by (rule cv_repI) (use p in simp)
qed

text \<open>A notified awaiter gets the mutex, or queues for it.\<close>

definition after_notify :: "bool \<Rightarrow> ptr list \<Rightarrow> ptr list \<Rightarrow> ptr list \<times> ptr list" where
  "after_notify held qs as = (if held then ([], qs @ as) else (take 1 as, drop 1 as))"

lemma cv_notify_awaiter_rep:
  assumes "lock_rep s held qs" and "awaiter_addr a" and "a \<notin> set qs"
  shows "\<exists>t. cv_notify_awaiter a s = (fst (after_notify held qs [a]), t) \<and>
    lock_rep t True (snd (after_notify held qs [a])) \<and>
    (\<forall>fs ss. cv_parts t fs ss = cv_parts s fs ss) \<and> cv_next t = cv_next s \<and>
    to_resume_head t = to_resume_head s"
proof -
  obtain b t where r: "register_awaiting a s = (b, t)" by fastforce
  have f: "\<forall>fs ss. cv_parts t fs ss = cv_parts s fs ss" "cv_next t = cv_next s"
    "to_resume_head t = to_resume_head s"
    using register_awaiting_cv [of a s] r by simp_all
  have bl: "b = held \<and> lock_rep t True (if held then qs @ [a] else [])"
  proof (cases held)
    case True
    with assms have "fst (register_awaiting a s) \<and> lock_rep (snd (register_awaiting a s)) True (qs @ [a])"
      by (intro register_awaiting_held) simp_all
    with True r show ?thesis by simp
  next
    case False
    with assms(1) have "qs = []" by (simp add: lock_rep_def)
    with assms(1) False register_awaiting_free [of s a] r show ?thesis by simp
  qed
  show ?thesis
    by (rule exI [of _ t], cases held)
      (use bl r f in \<open>simp_all add: cv_notify_awaiter_def after_notify_def\<close>)
qed

lemma cv_notify_loop_rep:
  assumes "chain (cv_next s) p as" and "lock_rep s held qs"
    and "\<forall>a \<in> set as. awaiter_addr a" and "distinct (qs @ as)"
  shows "\<exists>t. cv_notify_loop p done s = Some (done @ fst (after_notify held qs as), t) \<and>
    lock_rep t (held \<or> as \<noteq> []) (snd (after_notify held qs as)) \<and>
    (\<forall>fs ss. cv_parts t fs ss = cv_parts s fs ss) \<and> cv_next t = cv_next s \<and>
    to_resume_head t = to_resume_head s"
  using assms
proof (induction as arbitrary: p s held qs "done")
  case Nil
  then show ?case
    by (auto simp: cv_notify_loop.simps after_notify_def lock_rep_def)
next
  case (Cons a as)
  from Cons.prems have p: "p = a" "a \<noteq> 0" "chain (cv_next s) (cv_next s a) as" by simp_all
  obtain t where t: "cv_notify_awaiter a s = (fst (after_notify held qs [a]), t)"
    "lock_rep t True (snd (after_notify held qs [a]))"
    "\<forall>fs ss. cv_parts t fs ss = cv_parts s fs ss" "cv_next t = cv_next s"
    "to_resume_head t = to_resume_head s"
    using cv_notify_awaiter_rep [OF Cons.prems(2), of a] Cons.prems(3,4) by auto
  have n: "held \<or> qs = []" using Cons.prems(2) by (cases held) (simp_all add: lock_rep_def)
  have d: "distinct (snd (after_notify held qs [a]) @ as)"
    using Cons.prems(4) by (auto simp: after_notify_def)
  have c: "chain (cv_next t) (cv_next t a) as" using p(3) t(4) by simp
  from Cons.IH [OF c t(2) _ d, of "done @ fst (after_notify held qs [a])"] Cons.prems(3)
  obtain u where u: "cv_notify_loop (cv_next t a) (done @ fst (after_notify held qs [a])) t
      = Some (done @ fst (after_notify held qs [a]) @
          fst (after_notify True (snd (after_notify held qs [a])) as), u)"
    "lock_rep u True (snd (after_notify True (snd (after_notify held qs [a])) as))"
    "\<forall>fs ss. cv_parts u fs ss = cv_parts t fs ss" "cv_next u = cv_next t"
    "to_resume_head u = to_resume_head t"
    by auto
  have e: "fst (after_notify held qs [a]) @ fst (after_notify True (snd (after_notify held qs [a])) as)
      = fst (after_notify held qs (a # as))"
    "snd (after_notify True (snd (after_notify held qs [a])) as) = snd (after_notify held qs (a # as))"
    using n by (auto simp: after_notify_def)
  have "cv_notify_loop p done s = Some (done @ fst (after_notify held qs (a # as)), u)"
    using p(1,2) t(1) u(1) e(1) by (simp add: cv_notify_loop.simps [of a])
  with u t e show ?case by auto
qed

lemma cv_reverse_chain:
  assumes "chain nxt head (x # xs)" and "chain nxt succ gs" and "set (x # xs) \<inter> set gs = {}"
  obtains nxt' where "cv_reverse nxt head succ (nxt head) = Some (nxt', last (x # xs), hd (rev (butlast (x # xs)) @ gs @ [0]))"
    and "chain nxt' (hd (rev (butlast (x # xs)) @ gs @ [0])) (rev (butlast (x # xs)) @ gs)"
    and "nxt' (last (x # xs)) = 0" and "\<And>a. a \<notin> set (x # xs) \<Longrightarrow> nxt' a = nxt a"
  using assms
proof (induction xs arbitrary: nxt head succ x gs thesis)
  case Nil
  then have "succ = hd (gs @ [0])" by (cases gs) auto
  with Nil show ?case by (intro Nil(1) [of nxt]) (auto simp: cv_reverse.simps)
next
  case (Cons y ys)
  let ?nxt = "nxt(x := succ)"
  from Cons.prems(2) have x: "head = x" "x \<noteq> 0" "nxt x = y" "y \<noteq> 0" "chain nxt y (y # ys)"
    by auto
  from chain_distinct [OF Cons.prems(2)] have d: "x \<notin> set (y # ys)" by simp
  from x(5) chain_upd [OF d] have tl: "chain ?nxt y (y # ys)" by blast
  from Cons.prems x have hd: "chain ?nxt x (x # gs)" by auto
  have dis: "set (y # ys) \<inter> set (x # gs) = {}" using Cons.prems(4) d by auto
  obtain nxt' where n: "cv_reverse ?nxt y x (?nxt y)
      = Some (nxt', last (y # ys), List.hd (rev (butlast (y # ys)) @ (x # gs) @ [0]))"
    "chain nxt' (List.hd (rev (butlast (y # ys)) @ (x # gs) @ [0])) (rev (butlast (y # ys)) @ (x # gs))"
    "nxt' (last (y # ys)) = 0" "\<And>a. a \<notin> set (y # ys) \<Longrightarrow> nxt' a = ?nxt a"
    by (rule Cons.IH [OF _ tl hd dis]) blast
  have "cv_reverse nxt head succ (nxt head) = cv_reverse ?nxt y x (?nxt y)"
    using x by (simp add: cv_reverse.simps [of nxt])
  then show ?case using n by (intro Cons.prems(1) [of nxt']) auto
qed

section \<open>The operations alone\<close>

lemma cv_wait_rep:
  assumes "cv_rep s ws" and "awaiter_addr a" and "a \<notin> set ws" and "lock_rep s True qs"
  shows "\<exists>t. cv_await_suspend h a s = Some (Inr (case qs of [] \<Rightarrow> None | b # _ \<Rightarrow> Some b, t)) \<and>
    cv_rep t (ws @ [a]) \<and> lock_rep t (qs \<noteq> []) (drop 1 qs)"
proof -
  let ?s = "cv_push a (s\<lparr>la_coro := (la_coro s)(a := h)\<rparr>)"
  have "cv_rep (s\<lparr>la_coro := (la_coro s)(a := h)\<rparr>) ws"
    using assms(1) by (simp add: cv_rep_def cv_parts_def)
  then have c: "cv_rep ?s (ws @ [a])" using assms(2,3) by (rule cv_push_rep)
  have l: "lock_rep ?s True qs" using assms(4) by (simp add: cv_push_def)
  have "\<exists>t. mutex_unlock ?s = Some (Inr (case qs of [] \<Rightarrow> None | b # _ \<Rightarrow> Some b, t)) \<and>
      lock_rep t (qs \<noteq> []) (drop 1 qs)"
    using l unlock_no_waiter [of ?s] unlock_waiter [of ?s "hd qs" "tl qs"] by (cases qs) auto
  then obtain t where t: "mutex_unlock ?s = Some (Inr (case qs of [] \<Rightarrow> None | b # _ \<Rightarrow> Some b, t))"
    "lock_rep t (qs \<noteq> []) (drop 1 qs)" by blast
  have "cv_rep t (ws @ [a])" using c mutex_unlock_cv [OF t(1)] by (simp add: cv_rep_def)
  with t show ?thesis by (auto simp: cv_await_suspend_def)
qed

lemma cv_notify_rest_rep:
  assumes p: "cv_parts s [] []" and c: "chain (cv_next s) head ss" and ss: "ss \<noteq> []"
    and a: "\<forall>a \<in> set ss. awaiter_addr a" and l: "lock_rep s held qs" and q: "last ss \<notin> set qs"
  shows "\<exists>t. cv_notify_rest head s = Some (Inr (fst (after_notify held qs [last ss]), t)) \<and>
    lock_rep t True (snd (after_notify held qs [last ss])) \<and> cv_parts t (rev (butlast ss)) []"
proof -
  from ss obtain x xs where x: "ss = x # xs" by (cases ss) auto
  from c x have hx: "head = x" "x \<noteq> 0" by simp_all
  have z: "to_resume_head s = 0" "cv_awaiting s = 0" using p by (simp_all add: cv_parts_def)
  obtain nxt where n: "cv_reverse (cv_next s) head 0 (cv_next s head)
      = Some (nxt, last (x # xs), hd (rev (butlast (x # xs)) @ [] @ [0]))"
    "chain nxt (hd (rev (butlast (x # xs)) @ [] @ [0])) (rev (butlast (x # xs)) @ [])"
    by (rule cv_reverse_chain [of "cv_next s" head x xs 0 "[]"]) (use c x in simp_all)
  let ?succ = "hd (rev (butlast ss) @ [0])"
  let ?s = "s\<lparr>cv_next := nxt, to_resume_head := ?succ, to_resume_tail := head\<rparr>"
  have pb: "cv_put_back (last ss) ?succ head (s\<lparr>cv_next := nxt\<rparr>) = Inr (last ss, ?s)"
    using z by (simp add: cv_put_back_def)
  have "last (rev (butlast ss)) = head" if "rev (butlast ss) \<noteq> []"
    using that x hx by (simp add: last_rev split: if_splits)
  then have "cv_parts ?s (rev (butlast ss)) []"
    using n(2) x z(2) a chain_distinct [OF c] in_set_butlastD [of _ ss]
    by (auto simp: cv_parts_def distinct_butlast simp del: butlast.simps)
  moreover have "lock_rep ?s held qs" using l by simp
  moreover have "awaiter_addr (last ss)" using a ss by simp
  ultimately obtain t where t: "cv_notify_awaiter (last ss) ?s = (fst (after_notify held qs [last ss]), t)"
    "lock_rep t True (snd (after_notify held qs [last ss]))" "cv_parts t (rev (butlast ss)) []"
    using cv_notify_awaiter_rep [of ?s held qs "last ss"] q by auto
  have "cv_notify_rest head s = Some (Inr (fst (after_notify held qs [last ss]), t))"
    using hx n(1) x pb t(1) by (simp add: cv_notify_rest_def)
  with t show ?thesis by blast
qed

lemma cv_notify_one_rep:
  assumes "cv_rep s (a # ws)" and "lock_rep s held qs" and "a \<notin> set qs"
  shows "\<exists>t. cv_notify_one s = Some (Inr (fst (after_notify held qs [a]), t)) \<and>
    lock_rep t True (snd (after_notify held qs [a])) \<and> cv_rep t ws"
proof -
  from assms(1) obtain fs ss where p: "cv_parts s fs ss" "a # ws = fs @ rev ss" by (rule cv_repE)
  show ?thesis
  proof (cases fs)
    case (Cons b bs)
    with p have b: "b = a" "to_resume_head s = a" "a \<noteq> 0" "awaiter_addr a"
      by (auto simp: cv_parts_def)
    let ?s = "s\<lparr>to_resume_head := cv_next s a\<rparr>"
    have "cv_parts ?s bs ss" using p(1) Cons b by (auto simp: cv_parts_def split: if_splits)
    moreover have "lock_rep ?s held qs" using assms(2) by simp
    ultimately obtain t where "cv_notify_awaiter a ?s = (fst (after_notify held qs [a]), t)"
      "lock_rep t True (snd (after_notify held qs [a]))" "cv_parts t bs ss"
      using cv_notify_awaiter_rep [of ?s held qs a] b(4) assms(3) by auto
    moreover from this have "cv_notify_one s = Some (Inr (fst (after_notify held qs [a]), t))"
      using b by (simp add: cv_notify_one_def cv_take_front_def)
    ultimately show ?thesis using p(2) Cons by (auto intro: cv_repI)
  next
    case Nil
    let ?s = "s\<lparr>to_resume_tail := 0, cv_awaiting := 0\<rparr>"
    from p(1) Nil have z: "to_resume_head s = 0" "chain (cv_next s) (cv_awaiting s) ss"
      "\<forall>x \<in> set ss. awaiter_addr x"
      by (simp_all add: cv_parts_def)
    from p(2) Nil have r: "rev ss = a # ws" by simp
    then have ss: "ss \<noteq> []" "ss = rev (a # ws)" by (auto simp: rev_swap)
    then have la: "last ss = a" "rev (butlast ss) = ws" by simp_all
    have "cv_parts ?s [] []" using z(1) by (simp add: cv_parts_def)
    moreover have "chain (cv_next ?s) (cv_awaiting s) ss" using z(2) by simp
    moreover have "lock_rep ?s held qs" using assms(2) by simp
    ultimately obtain t where t: "cv_notify_rest (cv_awaiting s) ?s = Some (Inr (fst (after_notify held qs [a]), t))"
      "lock_rep t True (snd (after_notify held qs [a]))" "cv_parts t ws []"
      using cv_notify_rest_rep [of ?s "cv_awaiting s" ss held qs] ss(1) z(3) la assms(3) by auto
    have "cv_notify_one s = cv_notify_rest (cv_awaiting s) ?s"
      using z(1) by (simp add: cv_notify_one_def cv_take_front_def cv_grab_def)
    with t show ?thesis by (auto intro: cv_repI)
  qed
qed

lemma cv_notify_one_empty:
  assumes "cv_rep s []"
  shows "\<exists>t. cv_notify_one s = Some (Inr ([], t)) \<and> cv_rep t [] \<and> lock_rep t = lock_rep s"
proof -
  from assms have "cv_parts s [] []" by (auto simp: cv_rep_def)
  then have z: "to_resume_head s = 0" "cv_awaiting s = 0" by (simp_all add: cv_parts_def)
  let ?t = "s\<lparr>to_resume_tail := 0, cv_awaiting := 0\<rparr>"
  have "cv_notify_one s = Some (Inr ([], ?t))"
    using z by (simp add: cv_notify_one_def cv_take_front_def cv_grab_def cv_notify_rest_def)
  moreover have "cv_rep ?t []" using z by (auto simp: cv_parts_def intro!: cv_repI [of _ "[]" "[]"])
  ultimately show ?thesis by (intro exI [of _ ?t]) simp
qed

lemma cv_notify_all_rep:
  assumes p: "cv_parts s fs ss" and l: "lock_rep s held qs" and q: "set qs \<inter> set (fs @ ss) = {}"
  shows "\<exists>t. cv_notify_all s = Some (fst (after_notify held qs (ss @ fs)), t) \<and>
    lock_rep t (held \<or> fs @ ss \<noteq> []) (snd (after_notify held qs (ss @ fs))) \<and> cv_rep t []"
proof -
  from p have c: "chain (cv_next s) (to_resume_head s) fs" "chain (cv_next s) (cv_awaiting s) ss"
    "distinct (fs @ ss)" "\<forall>a \<in> set (fs @ ss). awaiter_addr a"
    by (simp_all add: cv_parts_def)
  have n: "held \<or> qs = []" and dq: "distinct qs"
    using l by (cases held; auto simp: lock_rep_def)+
  let ?s = "s\<lparr>cv_awaiting := 0\<rparr>"
  have l': "lock_rep ?s held qs" using l by simp
  have p': "cv_parts ?s fs []" using p by (simp add: cv_parts_def)
  obtain t where t: "cv_notify_loop (cv_awaiting s) [] ?s = Some (fst (after_notify held qs ss), t)"
    "lock_rep t (held \<or> ss \<noteq> []) (snd (after_notify held qs ss))" "cv_parts t fs []"
    "cv_next t = cv_next s" "to_resume_head t = to_resume_head s"
    using cv_notify_loop_rep [OF _ l', of "cv_awaiting s" ss "[]"] c q dq p' by auto
  let ?t = "t\<lparr>to_resume_head := 0\<rparr>"
  have pt: "cv_parts ?t [] []" using t(3) by (simp add: cv_parts_def)
  have lt: "lock_rep ?t (held \<or> ss \<noteq> []) (snd (after_notify held qs ss))" using t(2) by simp
  have ct: "chain (cv_next ?t) (to_resume_head t) fs" using c(1) t(4,5) by simp
  have d: "distinct (snd (after_notify held qs ss) @ fs)"
    using c(3) dq q by (auto simp: after_notify_def dest: in_set_dropD)
  obtain u where u: "cv_notify_loop (to_resume_head t) (fst (after_notify held qs ss)) ?t
      = Some (fst (after_notify held qs ss) @
          fst (after_notify (held \<or> ss \<noteq> []) (snd (after_notify held qs ss)) fs), u)"
    "lock_rep u ((held \<or> ss \<noteq> []) \<or> fs \<noteq> [])
       (snd (after_notify (held \<or> ss \<noteq> []) (snd (after_notify held qs ss)) fs))"
    "cv_parts u [] []"
    using cv_notify_loop_rep [OF ct lt, of "fst (after_notify held qs ss)"] c(4) d pt by auto
  have e: "fst (after_notify held qs ss) @
        fst (after_notify (held \<or> ss \<noteq> []) (snd (after_notify held qs ss)) fs)
      = fst (after_notify held qs (ss @ fs))"
    "snd (after_notify (held \<or> ss \<noteq> []) (snd (after_notify held qs ss)) fs)
      = snd (after_notify held qs (ss @ fs))"
    using n by (cases ss; auto simp: after_notify_def)+
  have "cv_notify_all s = Some (fst (after_notify held qs (ss @ fs)), u)"
    using t(1) u(1) e by (simp add: cv_notify_all_def cv_grab_def)
  moreover have "lock_rep u (held \<or> fs @ ss \<noteq> []) (snd (after_notify held qs (ss @ fs)))"
    using u(2) e by (cases "fs = []"; cases "ss = []") simp_all
  ultimately show ?thesis using u(3) by (auto intro: cv_repI)
qed

section \<open>Properties\<close>

text \<open>\<open>wait\<close> loses no notification: the waiter is at the end of the queue of the condition
  variable before the mutex is released, and then the mutex goes to the one that waited longest
  for it, or becomes free.\<close>

theorem cv_wait_spec:
  assumes "cv_rep s ws" and "awaiter_addr a" and "a \<notin> set ws" and "lock_rep s True qs"
  shows "\<exists>t. cv_await_suspend h a s = Some (Inr (case qs of [] \<Rightarrow> None | b # _ \<Rightarrow> Some b, t)) \<and>
    cv_rep t (ws @ [a]) \<and> lock_rep t (qs \<noteq> []) (drop 1 qs)"
  by (rule cv_wait_rep [OF assms])

text \<open>A mutex that is held, with 40 waiting for it, and a condition variable with the waiters
  8 in the list and 16 and 24 on the stack.\<close>

definition cv_example :: cond_var where
  "cv_example = \<lparr>awaiting = 40, to_resume = 0, la_next = (\<lambda>_. 0), la_coro = (\<lambda>_. 0), la_ctx = (\<lambda>_. 0),
     cv_awaiting = 24, to_resume_head = 8, to_resume_tail = 8, cv_next = (\<lambda>_. 0)(24 := 16)\<rparr>"

lemma cv_example_parts: "cv_parts cv_example [8] [24, 16]"
  by (simp add: cv_parts_def cv_example_def awaiter_addr_def)

lemma cv_example_rep: "cv_rep cv_example [8, 16, 24]"
  by (rule cv_repI [OF cv_example_parts]) simp

lemma cv_example_lock: "lock_rep cv_example True [40]"
  by (rule lock_rep_heldI [of _ _ "[]" "[40]"]) (simp_all add: cv_example_def awaiter_addr_def)

theorem cv_wait_spec_witness:
  "\<exists>t. cv_await_suspend 5 32 cv_example = Some (Inr (Some 40, t)) \<and>
    cv_rep t [8, 16, 24, 32] \<and> lock_rep t True []"
  using cv_wait_spec [OF cv_example_rep _ _ cv_example_lock, of 32 5] by (simp add: awaiter_addr_def)

text \<open>C8. \<open>notify_one\<close>, run alone, notifies exactly the coroutine that waited longest: it gets the
  mutex and is resumed when the mutex is free, and is queued for the mutex behind those that
  wait for it when it is not; all others stay in their order. Without waiters it does nothing.\<close>

theorem cv_notify_one_fifo:
  assumes "cv_rep s ws" and "lock_rep s held qs" and "set ws \<inter> set qs = {}"
  shows "\<exists>t. cv_notify_one s = Some (Inr (fst (after_notify held qs (take 1 ws)), t)) \<and>
    lock_rep t (held \<or> ws \<noteq> []) (snd (after_notify held qs (take 1 ws))) \<and> cv_rep t (drop 1 ws)"
proof (cases ws)
  case Nil
  with cv_notify_one_empty [of s] assms(1) obtain t where
    t: "cv_notify_one s = Some (Inr ([], t))" "cv_rep t []" "lock_rep t = lock_rep s"
    by blast
  have "after_notify held qs [] = ([], qs)"
    using assms(2) by (simp add: after_notify_def lock_rep_def)
  with Nil t assms(2) show ?thesis by simp
next
  case (Cons a as)
  with cv_notify_one_rep [of s a as held qs] assms show ?thesis by auto
qed

theorem cv_notify_one_fifo_witness:
  "\<exists>t. cv_notify_one cv_example = Some (Inr ([], t)) \<and> lock_rep t True [40, 8] \<and> cv_rep t [16, 24]"
  using cv_notify_one_fifo [OF cv_example_rep cv_example_lock] by (simp add: after_notify_def)

text \<open>\<open>notify_all\<close>, run alone, notifies every waiter exactly once and leaves none: those on the
  stack first, the newest before the oldest, and then those in the list in order. The first
  gets a free mutex, all others queue for it.\<close>

theorem cv_notify_all_spec:
  assumes "cv_parts s fs ss" and "lock_rep s held qs" and "set qs \<inter> set (fs @ ss) = {}"
  shows "\<exists>t. cv_notify_all s = Some (fst (after_notify held qs (ss @ fs)), t) \<and>
    lock_rep t (held \<or> fs @ ss \<noteq> []) (snd (after_notify held qs (ss @ fs))) \<and> cv_rep t []"
  by (rule cv_notify_all_rep [OF assms])

theorem cv_notify_all_spec_witness:
  "\<exists>t. cv_notify_all cv_example = Some ([], t) \<and> lock_rep t True [40, 24, 16, 8] \<and> cv_rep t []"
  using cv_notify_all_spec [OF cv_example_parts cv_example_lock] by (simp add: after_notify_def)

text \<open>Two calls of \<open>notify_one\<close> at the same time lose waiters: when the second call took a stack
  of several waiters and comes back to a list that is not empty any more, it appends the oldest
  of its stack, whose link is null, and not the chain of all others behind it; the others are
  in no list afterwards and are never notified.\<close>

theorem cv_notify_one_race_loses:
  assumes "chain (cv_next s) (to_resume_head s) (f # fs)" and "to_resume_tail s = last (f # fs)"
    and "chain (cv_next s) head (x # y # ys)" and "chain (cv_next s) (cv_awaiting s) ss"
    and "distinct ((f # fs) @ (x # y # ys) @ ss)"
  shows "\<exists>as t. cv_notify_rest head s = Some (Inr (as, t)) \<and>
    chain (cv_next t) (to_resume_head t) (fs @ [last (y # ys)]) \<and>
    chain (cv_next t) (cv_awaiting t) ss \<and> x \<notin> set (fs @ [last (y # ys)] @ ss)"
proof -
  let ?zs = "x # y # ys" and ?tl = "last (f # fs)"
  let ?o = "last ?zs"
  obtain nxt succ where n: "cv_reverse (cv_next s) head 0 (cv_next s head) = Some (nxt, ?o, succ)"
    "nxt ?o = 0" "\<And>a. a \<notin> set ?zs \<Longrightarrow> nxt a = cv_next s a"
    by (rule cv_reverse_chain [of "cv_next s" head x "y # ys" 0 "[]"]) (use assms(3) in auto)
  have "chain nxt q xs = chain (cv_next s) q xs" if "set xs \<inter> set ?zs = {}" for q xs
    using that n(3) by (intro chain_cong) blast
  from this [of "f # fs"] this [of ss] have
    nf: "chain nxt (to_resume_head s) (f # fs)" "chain nxt (cv_awaiting s) ss"
    using assms(1,4,5) by auto
  have nz: "head \<noteq> 0" "to_resume_head s = f" "f \<noteq> 0" using assms(1,3) by auto
  have o: "?o \<in> set (y # ys)" by simp
  then have oz: "?o \<noteq> 0" using chain_no_null [OF assms(3)] by auto
  have tz: "?tl \<noteq> 0" using chain_no_null [OF assms(1)] last_in_set [of "f # fs"] by fastforce
  have ts: "?tl \<in> set (f # fs)" by (rule last_in_set) simp
  let ?nxt = "nxt(?tl := ?o)"
  have "chain nxt ?o [?o]" using n(2) oz by simp
  moreover have "set (f # fs) \<inter> set [?o] = {}" using o assms(5) by auto
  ultimately have c: "chain ?nxt f ((f # fs) @ [?o])"
    using chain_append [OF nf(1)] nz(2) by blast
  have cs: "chain ?nxt (cv_awaiting s) ss" using nf(2) ts assms(5) by (subst chain_upd) auto
  let ?s = "s\<lparr>cv_next := ?nxt, to_resume_head := ?nxt f, to_resume_tail := head\<rparr>"
  have "cv_put_back ?o succ head (s\<lparr>cv_next := nxt\<rparr>) = Inr (f, ?s)"
    using nz tz assms(2) by (simp add: cv_put_back_def)
  then have "cv_notify_rest head s = Some (Inr (cv_notify_awaiter f ?s))"
    using nz n(1) by (simp add: cv_notify_rest_def)
  moreover obtain as t where t: "cv_notify_awaiter f ?s = (as, t)" by fastforce
  moreover have "cv_next t = ?nxt" "to_resume_head t = ?nxt f" "cv_awaiting t = cv_awaiting s"
    using t by (auto simp: cv_notify_awaiter_def register_awaiting_def Let_def split: if_splits)
  ultimately show ?thesis using c cs o assms(5) by (intro exI [of _ as] exI [of _ t]) auto
qed

text \<open>How the two calls get there: 8 and 16 wait, the first call takes their stack; 24 and 32 wait,
  the second call takes theirs; the first call finishes.\<close>

definition cv_race :: cond_var where
  "cv_race =
     (let s0 = cv_example\<lparr>cv_awaiting := 0, to_resume_head := 0, to_resume_tail := 0\<rparr>;
          (_, s1) = cv_take_front (cv_push 16 (cv_push 8 s0));
          (head1, s2) = cv_grab s1;
          (_, s3) = cv_take_front (cv_push 32 (cv_push 24 s2));
          (head2, s4) = cv_grab s3
      in case cv_notify_rest head1 s4 of Some (Inr (_, s5)) \<Rightarrow> s5 | _ \<Rightarrow> s0)"

lemma cv_race_fields:
  "to_resume_head cv_race = 16" "to_resume_tail cv_race = 16" "cv_awaiting cv_race = 0"
  "cv_next cv_race 16 = 0" "cv_next cv_race 32 = 24" "cv_next cv_race 24 = 0"
  by (simp_all add: cv_race_def cv_example_def cv_take_front_def cv_grab_def cv_push_def
      cv_notify_rest_def cv_reverse.simps cv_put_back_def cv_notify_awaiter_def
      register_awaiting_def mutex_defs Let_def)

theorem cv_notify_one_race_loses_witness:
  "\<exists>as t. cv_notify_rest 32 cv_race = Some (Inr (as, t)) \<and>
    chain (cv_next t) (to_resume_head t) [24] \<and> cv_awaiting t = 0"
  using cv_notify_one_race_loses [of cv_race 16 "[]" 32 32 24 "[]" "[]"]
  by (simp add: cv_race_fields)

text \<open>\<open>notify_all\<close> in the middle of a \<open>notify_one\<close> misses waiters: between the exchange that
  takes the stack and the second critical section of \<open>notify_one\<close> the waiters are in neither
  list, a complete \<open>notify_all\<close> that runs there notifies nobody, and afterwards \<open>notify_one\<close> wakes
  only the oldest and all others still wait.\<close>

theorem cv_notify_all_misses:
  assumes "cv_parts s [] ss" and "ss \<noteq> []" and "lock_rep s True qs" and "set ss \<inter> set qs = {}"
  shows "\<exists>s1 s2 t. cv_grab (snd (cv_take_front s)) = (cv_awaiting s, s1) \<and>
    cv_notify_all s1 = Some ([], s2) \<and> lock_rep s2 True qs \<and>
    cv_notify_rest (cv_awaiting s) s2 = Some (Inr ([], t)) \<and> lock_rep t True (qs @ [last ss]) \<and>
    cv_rep t (rev (butlast ss))"
proof -
  from assms(1) have z: "to_resume_head s = 0" "chain (cv_next s) (cv_awaiting s) ss"
    "\<forall>a \<in> set ss. awaiter_addr a"
    by (simp_all add: cv_parts_def)
  let ?s = "s\<lparr>to_resume_tail := 0, cv_awaiting := 0\<rparr>"
  have g: "cv_grab (snd (cv_take_front s)) = (cv_awaiting s, ?s)"
    using z(1) by (simp add: cv_grab_def cv_take_front_def)
  have a: "cv_notify_all ?s = Some ([], ?s)"
    using z(1) by (simp add: cv_notify_all_def cv_grab_def cv_notify_loop.simps)
  have l: "lock_rep ?s True qs" using assms(3) by simp
  have p: "cv_parts ?s [] []" using z(1) by (simp add: cv_parts_def)
  have c: "chain (cv_next ?s) (cv_awaiting s) ss" using z(2) by simp
  have "last ss \<notin> set qs" using assms(2,4) last_in_set [of ss] by blast
  from cv_notify_rest_rep [OF p c assms(2) z(3) l this] obtain t where
    "cv_notify_rest (cv_awaiting s) ?s = Some (Inr ([], t))" "lock_rep t True (qs @ [last ss])"
    "cv_parts t (rev (butlast ss)) []"
    by (auto simp: after_notify_def)
  with g a l show ?thesis
    by (intro exI [of _ ?s] exI [of _ t]) (auto intro: cv_repI)
qed

theorem cv_notify_all_misses_witness:
  "\<exists>s1 s2 t. cv_grab (snd (cv_take_front (cv_example\<lparr>to_resume_head := 0\<rparr>))) = (24, s1) \<and>
    cv_notify_all s1 = Some ([], s2) \<and> cv_notify_rest 24 s2 = Some (Inr ([], t)) \<and>
    lock_rep t True [40, 16] \<and> cv_rep t [24]"
proof -
  have "cv_parts (cv_example\<lparr>to_resume_head := 0\<rparr>) [] [24, 16]"
    by (simp add: cv_parts_def cv_example_def awaiter_addr_def)
  moreover have "lock_rep (cv_example\<lparr>to_resume_head := 0\<rparr>) True [40]"
    by (simp add: cv_example_lock)
  ultimately have "\<exists>s1 s2 t. cv_grab (snd (cv_take_front (cv_example\<lparr>to_resume_head := 0\<rparr>)))
        = (cv_awaiting (cv_example\<lparr>to_resume_head := 0\<rparr>), s1) \<and>
    cv_notify_all s1 = Some ([], s2) \<and> lock_rep s2 True [40] \<and>
    cv_notify_rest (cv_awaiting (cv_example\<lparr>to_resume_head := 0\<rparr>)) s2 = Some (Inr ([], t)) \<and>
    lock_rep t True ([40] @ [last [24, 16]]) \<and> cv_rep t (rev (butlast [24, 16]))"
    by (intro cv_notify_all_misses) simp_all
  moreover have "cv_awaiting (cv_example\<lparr>to_resume_head := 0\<rparr>) = 24" by (simp add: cv_example_def)
  ultimately show ?thesis by simp blast
qed

end
