(* ===== verification/Channel.thy ===== *)
theory Channel
  imports Cond_Var
begin

text \<open>
  The channel of \<^verbatim>\<open>include/co_context/co/channel.hpp\<close> with capacity at least one: the
  ring buffer of the general template, the one-element specialisation, and the coroutines
  that send and receive, under the mutex and the two condition variables. The slots of the
  buffer hold \<open>None\<close> where no object is alive.
\<close>

section \<open>The buffer of the general template\<close>

record 'a channel =
  m_buf :: "nat \<Rightarrow> 'a option"
  m_first :: nat
  m_last :: nat
  m_size :: nat

definition chan_init :: "'a channel" where
  "chan_init = \<lparr>m_buf = (\<lambda>_. None), m_first = 0, m_last = 0, m_size = 0\<rparr>"

definition chan_empty :: "'a channel \<Rightarrow> bool" where
  "chan_empty c \<longleftrightarrow> m_size c = 0"

definition chan_full :: "nat \<Rightarrow> 'a channel \<Rightarrow> bool" where
  "chan_full capacity c \<longleftrightarrow> m_size c = capacity"

definition chan_pop_one :: "nat \<Rightarrow> 'a channel \<Rightarrow> 'a channel" where
  "chan_pop_one capacity c =
     (let first = m_first c + 1 in
      c\<lparr>m_first := if first = capacity then 0 else first, m_size := m_size c - 1\<rparr>)"

definition chan_push_one :: "nat \<Rightarrow> 'a channel \<Rightarrow> 'a channel" where
  "chan_push_one capacity c =
     (let last = m_last c + 1 in
      c\<lparr>m_last := if last = capacity then 0 else last, m_size := m_size c + 1\<rparr>)"

text \<open>
  The bodies of \<open>acquire\<close>, \<open>drop\<close> and \<open>release\<close> between the predicate and the unlock. To
  move from a slot or destroy it where no object is alive, or to construct over a living
  object, is the \<open>None\<close> of the result.
\<close>

definition chan_take :: "nat \<Rightarrow> 'a channel \<Rightarrow> ('a \<times> 'a channel) option" where
  "chan_take capacity c = (case m_buf c (m_first c) of
     None \<Rightarrow> None
   | Some item \<Rightarrow> Some (item, chan_pop_one capacity (c\<lparr>m_buf := (m_buf c)(m_first c := None)\<rparr>)))"

definition chan_drop :: "nat \<Rightarrow> 'a channel \<Rightarrow> 'a channel option" where
  "chan_drop capacity c =
     (if m_buf c (m_first c) = None then None
      else Some (chan_pop_one capacity (c\<lparr>m_buf := (m_buf c)(m_first c := None)\<rparr>)))"

definition chan_put :: "nat \<Rightarrow> 'a \<Rightarrow> 'a channel \<Rightarrow> 'a channel option" where
  "chan_put capacity x c =
     (if m_buf c (m_last c) \<noteq> None then None
      else Some (chan_push_one capacity (c\<lparr>m_buf := (m_buf c)(m_last c := Some x)\<rparr>)))"

section \<open>The one-element specialisation\<close>

type_synonym 'a channel1 = "'a option"

definition chan1_empty :: "'a channel1 \<Rightarrow> bool" where
  "chan1_empty b \<longleftrightarrow> b = None"

definition chan1_full :: "'a channel1 \<Rightarrow> bool" where
  "chan1_full b \<longleftrightarrow> b \<noteq> None"

definition chan1_take :: "'a channel1 \<Rightarrow> ('a \<times> 'a channel1) option" where
  "chan1_take b = (case b of None \<Rightarrow> None | Some item \<Rightarrow> Some (item, None))"

definition chan1_drop :: "'a channel1 \<Rightarrow> 'a channel1" where
  "chan1_drop b = None"

definition chan1_put :: "'a \<Rightarrow> 'a channel1 \<Rightarrow> 'a channel1" where
  "chan1_put x b = Some x"

section \<open>A bounded queue\<close>

text \<open>A buffer represents the list of its items, oldest first; all other slots are free.\<close>

definition chan_rep :: "nat \<Rightarrow> 'a channel \<Rightarrow> 'a list \<Rightarrow> bool" where
  "chan_rep capacity c xs \<longleftrightarrow>
     0 < capacity \<and> m_size c = length xs \<and> length xs \<le> capacity \<and> m_first c < capacity \<and>
     m_last c = (m_first c + length xs) mod capacity \<and>
     (\<forall>i < length xs. m_buf c ((m_first c + i) mod capacity) = Some (xs ! i)) \<and>
     (\<forall>i < capacity. i \<ge> length xs \<longrightarrow> m_buf c ((m_first c + i) mod capacity) = None)"

lemma chan_rep_init: "0 < capacity \<Longrightarrow> chan_rep capacity chan_init []"
  by (simp add: chan_rep_def chan_init_def)

lemma chan_empty_rep: "chan_rep capacity c xs \<Longrightarrow> chan_empty c \<longleftrightarrow> xs = []"
  by (simp add: chan_rep_def chan_empty_def)

lemma chan_full_rep: "chan_rep capacity c xs \<Longrightarrow> chan_full capacity c \<longleftrightarrow> length xs = capacity"
  by (simp add: chan_rep_def chan_full_def)

lemma mod_next: "i < n \<Longrightarrow> (if Suc i = n then 0 else Suc i) = Suc i mod n"
  by simp

lemma chan_put_rep:
  assumes "chan_rep capacity c xs" and "length xs < capacity"
  shows "\<exists>c'. chan_put capacity x c = Some c' \<and> chan_rep capacity c' (xs @ [x])"
proof -
  let ?k = capacity and ?f = "m_first c" and ?n = "length xs"
  let ?b = "(m_buf c)((?f + ?n) mod ?k := Some x)"
  from assms have r: "0 < ?k" "m_size c = ?n" "?f < ?k" "m_last c = (?f + ?n) mod ?k"
    "\<forall>i < ?n. m_buf c ((?f + i) mod ?k) = Some (xs ! i)"
    "\<forall>i < ?k. i \<ge> ?n \<longrightarrow> m_buf c ((?f + i) mod ?k) = None"
    by (auto simp: chan_rep_def)
  have free: "m_buf c (m_last c) = None" using r(4,6) assms(2) by simp
  have other: "?b ((?f + i) mod ?k) = m_buf c ((?f + i) mod ?k)" if "i < ?k" "i \<noteq> ?n" for i
    using that assms(2) mod_add_left_inj_nat [of i ?k ?n ?f] by auto
  have last: "(m_last c + 1) mod ?k = (?f + (?n + 1)) mod ?k"
    using r(4) by (simp add: mod_Suc_eq)
  let ?c = "c\<lparr>m_buf := ?b, m_last := (?f + (?n + 1)) mod ?k, m_size := ?n + 1\<rparr>"
  have lt: "m_last c < ?k" using r(1,4) by simp
  have pl: "(if Suc (m_last c) = ?k then 0 else Suc (m_last c)) = (?f + (?n + 1)) mod ?k"
    using mod_next [OF lt] last by simp
  have "chan_put ?k x c = Some (c\<lparr>m_buf := (m_buf c)(m_last c := Some x),
      m_last := if Suc (m_last c) = ?k then 0 else Suc (m_last c), m_size := ?n + 1\<rparr>)"
    using free r(2) by (simp add: chan_put_def chan_push_one_def Let_def)
  then have "chan_put ?k x c = Some ?c" unfolding pl unfolding r(4) .
  moreover have "chan_rep ?k ?c (xs @ [x])"
    unfolding chan_rep_def
  proof (intro conjI allI impI)
    fix i assume "i < length (xs @ [x])"
    then show "m_buf ?c ((m_first ?c + i) mod ?k) = Some ((xs @ [x]) ! i)"
      using other [of i] r(5) assms(2) by (cases "i = ?n") (simp_all add: nth_append)
  next
    fix i assume "i < ?k" "i \<ge> length (xs @ [x])"
    then show "m_buf ?c ((m_first ?c + i) mod ?k) = None" using other [of i] r(6) by simp
  qed (use r assms(2) in simp_all)
  ultimately show ?thesis by blast
qed

lemma chan_take_rep:
  assumes "chan_rep capacity c (x # xs)"
  shows "\<exists>c'. chan_take capacity c = Some (x, c') \<and> chan_drop capacity c = Some c' \<and>
    chan_rep capacity c' xs"
proof -
  let ?k = capacity and ?f = "m_first c" and ?n = "length xs"
  let ?b = "(m_buf c)(?f := None)"
  from assms have r: "0 < ?k" "m_size c = ?n + 1" "?n + 1 \<le> ?k" "?f < ?k"
    "m_last c = (?f + (?n + 1)) mod ?k"
    "\<forall>i < ?n + 1. m_buf c ((?f + i) mod ?k) = Some ((x # xs) ! i)"
    "\<forall>i < ?k. i \<ge> ?n + 1 \<longrightarrow> m_buf c ((?f + i) mod ?k) = None"
    by (auto simp: chan_rep_def)
  have hd: "m_buf c ?f = Some x" using r(4,6) by force
  let ?f' = "(?f + 1) mod ?k"
  have nx: "(?f' + i) mod ?k = (?f + (i + 1)) mod ?k" for i by (simp add: mod_add_left_eq)
  have other: "?b ((?f' + i) mod ?k) = m_buf c ((?f + (i + 1)) mod ?k)" if "i + 1 < ?k" for i
    unfolding nx using that r(1,4) mod_add_left_inj_nat [of "i + 1" ?k 0 ?f] by auto
  have wrap: "?b ((?f' + i) mod ?k) = None" if "i + 1 = ?k" for i
    unfolding nx that using r(4) by simp
  let ?c = "c\<lparr>m_buf := ?b, m_first := ?f', m_size := ?n\<rparr>"
  have "chan_pop_one ?k (c\<lparr>m_buf := ?b\<rparr>) =
      c\<lparr>m_buf := ?b, m_first := if Suc ?f = ?k then 0 else Suc ?f, m_size := ?n\<rparr>"
    using r(2) by (simp add: chan_pop_one_def Let_def)
  then have "chan_pop_one ?k (c\<lparr>m_buf := ?b\<rparr>) = ?c" unfolding mod_next [OF r(4)] by simp
  moreover have "chan_rep ?k ?c xs"
    unfolding chan_rep_def
  proof (intro conjI allI impI)
    fix i assume "i < length xs"
    then show "m_buf ?c ((m_first ?c + i) mod ?k) = Some (xs ! i)"
      using other [of i] r(3) r(6) [rule_format, of "i + 1"] by simp
  next
    fix i assume i: "i < ?k" "i \<ge> length xs"
    show "m_buf ?c ((m_first ?c + i) mod ?k) = None"
    proof (cases "i + 1 < ?k")
      case True
      with i other [of i] r(7) [rule_format, of "i + 1"] show ?thesis by simp
    next
      case False
      with i wrap [of i] show ?thesis by simp
    qed
  next
    show "m_last ?c = (m_first ?c + length xs) mod ?k" using r(5) nx [of ?n] by simp
  qed (use r in simp_all)
  ultimately show ?thesis using hd by (simp add: chan_take_def chan_drop_def)
qed

section \<open>Properties\<close>

text \<open>The buffer of a channel of any positive capacity is a bounded first-in-first-out queue:
  it is empty and full exactly when the queue is, sending to a queue with room appends and
  constructs in a free slot, receiving and dropping take the oldest item from a slot with a
  living object, across the wrap-around of both positions.\<close>

theorem chan_refines_queue:
  assumes "chan_rep capacity c xs"
  shows "(chan_empty c \<longleftrightarrow> xs = []) \<and> (chan_full capacity c \<longleftrightarrow> length xs = capacity) \<and>
    (length xs < capacity \<longrightarrow>
      (\<exists>c'. chan_put capacity x c = Some c' \<and> chan_rep capacity c' (xs @ [x]))) \<and>
    (case xs of [] \<Rightarrow> chan_take capacity c = None
     | y # ys \<Rightarrow> \<exists>c'. chan_take capacity c = Some (y, c') \<and> chan_drop capacity c = Some c' \<and>
         chan_rep capacity c' ys)"
proof -
  have "chan_take capacity c = None" if "xs = []"
    using assms that by (auto simp: chan_rep_def chan_take_def)
  then show ?thesis
    using chan_empty_rep [OF assms] chan_full_rep [OF assms] chan_put_rep [OF assms, of x]
      chan_take_rep [of capacity c] assms
    by (cases xs) auto
qed

definition chan_example :: "nat channel" where
  "chan_example = \<lparr>m_buf = (\<lambda>_. None)(1 := Some 7, 0 := Some 8), m_first = 1, m_last = 1, m_size = 2\<rparr>"

lemma chan_example_rep: "chan_rep 2 chan_example [7, 8]"
  unfolding chan_rep_def
proof (intro conjI allI impI)
  fix i :: nat assume "i < length [7::nat, 8]"
  then have "i = 0 \<or> i = 1" by auto
  then show "m_buf chan_example ((m_first chan_example + i) mod 2) = Some ([7, 8] ! i)"
    by (auto simp: chan_example_def)
qed (simp_all add: chan_example_def)

theorem chan_refines_queue_witness:
  "chan_full 2 chan_example \<and> (\<exists>c'. chan_take 2 chan_example = Some (7, c') \<and> chan_rep 2 c' [8])"
  using chan_refines_queue [OF chan_example_rep, of 0] by auto

definition chan1_of :: "'a channel \<Rightarrow> 'a channel1" where
  "chan1_of c = m_buf c 0"

text \<open>The specialisation for capacity one does what the general template does at capacity
  one: the same tests, and sending, receiving and dropping agree step by step.\<close>

theorem chan1_equiv:
  assumes "chan_rep 1 c xs"
  shows "chan1_empty (chan1_of c) = chan_empty c \<and> chan1_full (chan1_of c) = chan_full 1 c \<and>
    (\<not> chan_full 1 c \<longrightarrow> map_option chan1_of (chan_put 1 x c) = Some (chan1_put x (chan1_of c))) \<and>
    map_option (map_prod id chan1_of) (chan_take 1 c) = chan1_take (chan1_of c) \<and>
    (\<not> chan_empty c \<longrightarrow> map_option chan1_of (chan_drop 1 c) = Some (chan1_drop (chan1_of c)))"
proof -
  from assms have r: "m_first c = 0" "m_last c = 0" "m_size c = length xs" "length xs \<le> 1"
    by (auto simp: chan_rep_def)
  from assms have b: "m_buf c 0 = (if xs = [] then None else Some (hd xs))"
    by (cases xs) (auto simp: chan_rep_def)
  show ?thesis
    using r b by (cases xs) (auto simp: chan1_of_def chan1_empty_def chan1_full_def chan_empty_def
        chan_full_def chan_put_def chan_push_one_def chan1_put_def chan_take_def chan_pop_one_def
        chan1_take_def chan_drop_def chan1_drop_def Let_def)
qed

theorem chan1_equiv_witness:
  "map_option (map_prod id chan1_of)
     (chan_take 1 \<lparr>m_buf = (\<lambda>_. None)(0 := Some (7::nat)), m_first = 0, m_last = 0, m_size = 1\<rparr>)
   = Some (7, None)"
proof -
  have "chan_rep 1 \<lparr>m_buf = (\<lambda>_. None)(0 := Some (7::nat)), m_first = 0, m_last = 0, m_size = 1\<rparr> [7]"
    by (simp add: chan_rep_def)
  from chan1_equiv [OF this, of 0] show ?thesis by (simp add: chan1_of_def chan1_take_def)
qed

end
