(* ===== verification/Channel_Threads.thy ===== *)
theory Channel_Threads
  imports Channel
begin

text \<open>
  The coroutines that use a channel. The mutex lets one coroutine at a time into its critical
  section, the queues of the condition variables are served first come, first served and a
  notified coroutine has to get the mutex again: this is what the theories of the mutex and of
  the condition variable prove of them. Which of several coroutines gets the mutex is left
  open, so no order is assumed.

  A notification is one step here, from the beginning of \<^verbatim>\<open>notify_one\<close> to its end. That is so when the
  coroutines of the channel run on one \<^verbatim>\<open>io_context\<close>: nothing in \<^verbatim>\<open>notify_one\<close> suspends. On several
  threads the notifications of a channel come after its mutex was unlocked and may overlap, and
  then they may lose waiters (\<open>cv_notify_one_race_loses\<close>). The order and the number of the items, and
  the bound of the buffer, do not depend on whom a notification reaches; that waiters are woken
  does.
\<close>

section \<open>Steps\<close>

datatype 'a chan_pc =
    ChIdle
  | SendLock 'a     \<comment> \<open>about to lock the mutex, to send this item\<close>
  | SendCrit 'a     \<comment> \<open>holds the mutex, about to test for room\<close>
  | SendWait 'a     \<comment> \<open>waits on \<open>m_not_full_cv\<close>\<close>
  | SendWoken 'a    \<comment> \<open>notified, needs the mutex again\<close>
  | SendNotify      \<comment> \<open>has sent and unlocked, about to notify \<open>m_not_empty_cv\<close>\<close>
  | RecvLock bool   \<comment> \<open>about to lock the mutex, to acquire or to drop an item\<close>
  | RecvCrit bool
  | RecvWait bool   \<comment> \<open>waits on \<open>m_not_empty_cv\<close>\<close>
  | RecvWoken bool
  | RecvNotify      \<comment> \<open>has received and unlocked, about to notify \<open>m_not_full_cv\<close>\<close>
  | ChFault

record 'a chan_sys =
  chan :: "'a channel"
  chan_owner :: "ptr option"
  not_full_q :: "ptr list"
  not_empty_q :: "ptr list"
  cpc :: "ptr \<Rightarrow> 'a chan_pc"
  sent :: "'a list"
  received :: "'a list"

definition set_cpc :: "ptr \<Rightarrow> 'a chan_pc \<Rightarrow> 'a chan_sys \<Rightarrow> 'a chan_sys" where
  "set_cpc a p s = s\<lparr>cpc := (cpc s)(a := p)\<rparr>"

text \<open>Getting the mutex.\<close>

fun chan_enter :: "'a chan_pc \<Rightarrow> 'a chan_pc option" where
  "chan_enter (SendLock x) = Some (SendCrit x)"
| "chan_enter (SendWoken x) = Some (SendCrit x)"
| "chan_enter (RecvLock keep) = Some (RecvCrit keep)"
| "chan_enter (RecvWoken keep) = Some (RecvCrit keep)"
| "chan_enter _ = None"

text \<open>\<open>release\<close> from the test of the predicate to the wait or the unlock.\<close>

definition send_crit :: "nat \<Rightarrow> ptr \<Rightarrow> 'a \<Rightarrow> 'a chan_sys \<Rightarrow> 'a chan_sys" where
  "send_crit capacity a x s =
     (if chan_full capacity (chan s)
      then set_cpc a (SendWait x) (s\<lparr>chan_owner := None, not_full_q := not_full_q s @ [a]\<rparr>)
      else case chan_put capacity x (chan s) of
          None \<Rightarrow> set_cpc a ChFault s
        | Some c \<Rightarrow> set_cpc a SendNotify (s\<lparr>chan := c, chan_owner := None, sent := sent s @ [x]\<rparr>))"

text \<open>\<open>acquire\<close> (with \<open>keep\<close>) and \<open>drop\<close>, likewise.\<close>

definition recv_crit :: "nat \<Rightarrow> ptr \<Rightarrow> bool \<Rightarrow> 'a chan_sys \<Rightarrow> 'a chan_sys" where
  "recv_crit capacity a keep s =
     (if chan_empty (chan s)
      then set_cpc a (RecvWait keep) (s\<lparr>chan_owner := None, not_empty_q := not_empty_q s @ [a]\<rparr>)
      else case (if keep then chan_take capacity (chan s)
                 else map_option (\<lambda>c. (the (m_buf (chan s) (m_first (chan s))), c))
                        (chan_drop capacity (chan s))) of
          None \<Rightarrow> set_cpc a ChFault s
        | Some (item, c) \<Rightarrow>
            set_cpc a RecvNotify (s\<lparr>chan := c, chan_owner := None, received := received s @ [item]\<rparr>))"

fun chan_wake :: "'a chan_pc \<Rightarrow> 'a chan_pc" where
  "chan_wake (SendWait x) = SendWoken x"
| "chan_wake (RecvWait keep) = RecvWoken keep"
| "chan_wake p = p"

text \<open>\<^verbatim>\<open>notify_one\<close>, run without another access to the condition variable in between.\<close>

definition notify_not_empty :: "ptr \<Rightarrow> 'a chan_sys \<Rightarrow> 'a chan_sys" where
  "notify_not_empty a s = (case not_empty_q s of
     [] \<Rightarrow> set_cpc a ChIdle s
   | b # q \<Rightarrow> set_cpc b (chan_wake (cpc s b)) (set_cpc a ChIdle (s\<lparr>not_empty_q := q\<rparr>)))"

definition notify_not_full :: "ptr \<Rightarrow> 'a chan_sys \<Rightarrow> 'a chan_sys" where
  "notify_not_full a s = (case not_full_q s of
     [] \<Rightarrow> set_cpc a ChIdle s
   | b # q \<Rightarrow> set_cpc b (chan_wake (cpc s b)) (set_cpc a ChIdle (s\<lparr>not_full_q := q\<rparr>)))"

inductive chan_step :: "nat \<Rightarrow> 'a chan_sys \<Rightarrow> 'a chan_sys \<Rightarrow> bool" for capacity :: nat where
  ch_send: "cpc s a = ChIdle \<Longrightarrow> chan_step capacity s (set_cpc a (SendLock x) s)"
| ch_recv: "cpc s a = ChIdle \<Longrightarrow> chan_step capacity s (set_cpc a (RecvLock keep) s)"
| ch_lock: "chan_owner s = None \<Longrightarrow> chan_enter (cpc s a) = Some p \<Longrightarrow>
    chan_step capacity s (set_cpc a p (s\<lparr>chan_owner := Some a\<rparr>))"
| ch_send_crit: "cpc s a = SendCrit x \<Longrightarrow> chan_step capacity s (send_crit capacity a x s)"
| ch_recv_crit: "cpc s a = RecvCrit keep \<Longrightarrow> chan_step capacity s (recv_crit capacity a keep s)"
| ch_sent: "cpc s a = SendNotify \<Longrightarrow> chan_step capacity s (notify_not_empty a s)"
| ch_received: "cpc s a = RecvNotify \<Longrightarrow> chan_step capacity s (notify_not_full a s)"

definition chan_sys_init :: "'a chan_sys" where
  "chan_sys_init = \<lparr>chan = chan_init, chan_owner = None, not_full_q = [], not_empty_q = [],
     cpc = (\<lambda>_. ChIdle), sent = [], received = []\<rparr>"

inductive chan_reachable :: "nat \<Rightarrow> 'a chan_sys \<Rightarrow> bool" for capacity :: nat where
  chan_start: "chan_reachable capacity chan_sys_init"
| chan_next: "chan_reachable capacity s \<Longrightarrow> chan_step capacity s t \<Longrightarrow> chan_reachable capacity t"

section \<open>The invariant\<close>

fun in_crit :: "'a chan_pc \<Rightarrow> bool" where
  "in_crit (SendCrit _) = True" | "in_crit (RecvCrit _) = True" | "in_crit _ = False"

fun send_waits :: "'a chan_pc \<Rightarrow> bool" where
  "send_waits (SendWait _) = True" | "send_waits _ = False"

fun recv_waits :: "'a chan_pc \<Rightarrow> bool" where
  "recv_waits (RecvWait _) = True" | "recv_waits _ = False"

text \<open>Those who will look at the buffer for a receiver, or make one look.\<close>

fun recv_active :: "'a chan_pc \<Rightarrow> bool" where
  "recv_active SendNotify = True"
| "recv_active (RecvWoken _) = True"
| "recv_active (RecvCrit _) = True"
| "recv_active _ = False"

fun send_active :: "'a chan_pc \<Rightarrow> bool" where
  "send_active RecvNotify = True"
| "send_active (SendWoken _) = True"
| "send_active (SendCrit _) = True"
| "send_active _ = False"

definition chan_inv :: "nat \<Rightarrow> 'a chan_sys \<Rightarrow> bool" where
  "chan_inv capacity s \<longleftrightarrow>
     (\<exists>xs. chan_rep capacity (chan s) xs \<and> sent s = received s @ xs) \<and>
     (\<forall>a. in_crit (cpc s a) \<longleftrightarrow> chan_owner s = Some a) \<and>
     (\<forall>a. send_waits (cpc s a) \<longleftrightarrow> a \<in> set (not_full_q s)) \<and> distinct (not_full_q s) \<and>
     (\<forall>a. recv_waits (cpc s a) \<longleftrightarrow> a \<in> set (not_empty_q s)) \<and> distinct (not_empty_q s) \<and>
     (\<forall>a. cpc s a \<noteq> ChFault) \<and> pc_finite ChIdle (cpc s) \<and>
     (not_empty_q s \<noteq> [] \<longrightarrow> m_size (chan s) \<le> pc_count recv_active (cpc s)) \<and>
     (not_full_q s \<noteq> [] \<longrightarrow> capacity - m_size (chan s) \<le> pc_count send_active (cpc s))"

lemma set_cpc_simps [simp]:
  "cpc (set_cpc a p s) = (cpc s)(a := p)" "chan (set_cpc a p s) = chan s"
  "chan_owner (set_cpc a p s) = chan_owner s" "not_full_q (set_cpc a p s) = not_full_q s"
  "not_empty_q (set_cpc a p s) = not_empty_q s" "sent (set_cpc a p s) = sent s"
  "received (set_cpc a p s) = received s"
  by (simp_all add: set_cpc_def)

lemma chan_inv_init: "0 < capacity \<Longrightarrow> chan_inv capacity chan_sys_init"
  using chan_rep_init by (auto simp: chan_inv_def chan_sys_init_def)

text \<open>A step that changes one program counter, and what it has to show.\<close>

lemma chan_inv_step:
  assumes inv: "chan_inv capacity s" and t: "cpc t = (cpc s)(a := p)"
    and buf: "\<And>xs. chan_rep capacity (chan s) xs \<Longrightarrow> sent s = received s @ xs \<Longrightarrow>
      \<exists>ys. chan_rep capacity (chan t) ys \<and> sent t = received t @ ys"
    and own: "if in_crit p then chan_owner s = None \<and> chan_owner t = Some a
      else if in_crit (cpc s a) then chan_owner t = None else chan_owner t = chan_owner s"
    and nf: "if send_waits p then not_full_q t = not_full_q s @ [a] \<and> m_size (chan t) = capacity
      else not_full_q t = not_full_q s" and nf': "\<not> send_waits (cpc s a)"
    and ne: "if recv_waits p then not_empty_q t = not_empty_q s @ [a] \<and> m_size (chan t) = 0
      else not_empty_q t = not_empty_q s" and ne': "\<not> recv_waits (cpc s a)"
    and fault: "p \<noteq> ChFault"
    and ra: "m_size (chan s) \<le> pc_count recv_active (cpc s) \<Longrightarrow> \<not> recv_waits p \<Longrightarrow>
       not_empty_q s \<noteq> [] \<Longrightarrow>
       int (m_size (chan t)) - int (m_size (chan s)) \<le> of_bool (recv_active p) - of_bool (recv_active (cpc s a))"
    and sa: "capacity - m_size (chan s) \<le> pc_count send_active (cpc s) \<Longrightarrow> \<not> send_waits p \<Longrightarrow>
       not_full_q s \<noteq> [] \<Longrightarrow>
       int (capacity - m_size (chan t)) - int (capacity - m_size (chan s)) \<le> of_bool (send_active p) - of_bool (send_active (cpc s a))"
  shows "chan_inv capacity t"
proof -
  from inv obtain xs where i: "chan_rep capacity (chan s) xs" "sent s = received s @ xs"
    "\<forall>a. in_crit (cpc s a) \<longleftrightarrow> chan_owner s = Some a"
    "\<forall>a. send_waits (cpc s a) \<longleftrightarrow> a \<in> set (not_full_q s)" "distinct (not_full_q s)"
    "\<forall>a. recv_waits (cpc s a) \<longleftrightarrow> a \<in> set (not_empty_q s)" "distinct (not_empty_q s)"
    "\<forall>a. cpc s a \<noteq> ChFault" "pc_finite ChIdle (cpc s)"
    "not_empty_q s \<noteq> [] \<longrightarrow> m_size (chan s) \<le> pc_count recv_active (cpc s)"
    "not_full_q s \<noteq> [] \<longrightarrow> capacity - m_size (chan s) \<le> pc_count send_active (cpc s)"
    unfolding chan_inv_def by blast
  have cr: "int (pc_count recv_active (cpc t)) = int (pc_count recv_active (cpc s))
      + of_bool (recv_active p) - of_bool (recv_active (cpc s a))"
    using arg_cong [OF pc_count_upd [OF i(9), of recv_active a p], of int] t by simp
  have cs: "int (pc_count send_active (cpc t)) = int (pc_count send_active (cpc s))
      + of_bool (send_active p) - of_bool (send_active (cpc s a))"
    using arg_cong [OF pc_count_upd [OF i(9), of send_active a p], of int] t by simp
  show ?thesis
    unfolding chan_inv_def
  proof (intro conjI allI impI)
    show "\<exists>xs. chan_rep capacity (chan t) xs \<and> sent t = received t @ xs" by (rule buf [OF i(1,2)])
    show "in_crit (cpc t b) \<longleftrightarrow> chan_owner t = Some b" for b
      using own i(3) t by (cases "b = a") (auto split: if_splits)
    show "send_waits (cpc t b) \<longleftrightarrow> b \<in> set (not_full_q t)" for b
      using nf nf' i(4) t by (cases "b = a") (auto split: if_splits)
    show "recv_waits (cpc t b) \<longleftrightarrow> b \<in> set (not_empty_q t)" for b
      using ne ne' i(6) t by (cases "b = a") (auto split: if_splits)
    show "distinct (not_full_q t)" using nf nf' i(4,5) by (auto split: if_splits)
    show "distinct (not_empty_q t)" using ne ne' i(6,7) by (auto split: if_splits)
    show "cpc t b \<noteq> ChFault" for b using fault i(8) t by (cases "b = a") simp_all
    show "pc_finite ChIdle (cpc t)" using i(9) t by (simp add: pc_finite_upd)
    show "m_size (chan t) \<le> pc_count recv_active (cpc t)" if w: "not_empty_q t \<noteq> []"
    proof (cases "recv_waits p")
      case True
      with ne show ?thesis by simp
    next
      case False
      with ne w have q: "not_empty_q s \<noteq> []" by simp
      with i(10) have le: "m_size (chan s) \<le> pc_count recv_active (cpc s)" by blast
      from ra [OF le False q] cr le show ?thesis by linarith
    qed
    show "capacity - m_size (chan t) \<le> pc_count send_active (cpc t)" if w: "not_full_q t \<noteq> []"
    proof (cases "send_waits p")
      case True
      with nf show ?thesis by simp
    next
      case False
      with nf w have q: "not_full_q s \<noteq> []" by simp
      with i(11) have le: "capacity - m_size (chan s) \<le> pc_count send_active (cpc s)" by blast
      from sa [OF le False q] cs le show ?thesis by linarith
    qed
  qed
qed

lemma chan_inv_notify_not_empty:
  assumes inv: "chan_inv capacity s" and pa: "cpc s a = SendNotify"
  shows "chan_inv capacity (notify_not_empty a s)"
proof (cases "not_empty_q s")
  case Nil
  then have t: "notify_not_empty a s = set_cpc a ChIdle s" by (simp add: notify_not_empty_def)
  show ?thesis
    unfolding t by (rule chan_inv_step [OF inv, of _ a ChIdle]) (use pa Nil in auto)
next
  case (Cons b q)
  from inv have i: "\<exists>xs. chan_rep capacity (chan s) xs \<and> sent s = received s @ xs"
    "\<forall>a. in_crit (cpc s a) \<longleftrightarrow> chan_owner s = Some a"
    "\<forall>a. send_waits (cpc s a) \<longleftrightarrow> a \<in> set (not_full_q s)" "distinct (not_full_q s)"
    "\<forall>a. recv_waits (cpc s a) \<longleftrightarrow> a \<in> set (not_empty_q s)" "distinct (not_empty_q s)"
    "\<forall>a. cpc s a \<noteq> ChFault" "pc_finite ChIdle (cpc s)"
    "not_empty_q s \<noteq> [] \<longrightarrow> m_size (chan s) \<le> pc_count recv_active (cpc s)"
    "not_full_q s \<noteq> [] \<longrightarrow> capacity - m_size (chan s) \<le> pc_count send_active (cpc s)"
    unfolding chan_inv_def by blast+
  have "recv_waits (cpc s b)" using i Cons by simp
  then obtain x where b: "cpc s b = RecvWait x" by (cases "cpc s b") auto
  with pa have ab: "b \<noteq> a" by auto
  let ?t = "notify_not_empty a s" and ?m = "(cpc s)(a := ChIdle)"
  have t: "cpc ?t = ?m(b := RecvWoken x)" "chan ?t = chan s" "chan_owner ?t = chan_owner s"
    "not_empty_q ?t = q" "not_full_q ?t = not_full_q s" "sent ?t = sent s" "received ?t = received s"
    using Cons b by (simp_all add: notify_not_empty_def)
  have f: "pc_finite ChIdle ?m" using i(8) by (rule pc_finite_upd)
  have "pc_count recv_active (cpc ?t) = pc_count recv_active (cpc s)"
    using pc_count_upd [OF i(8), of recv_active a ChIdle]
      pc_count_upd [OF f, of recv_active b "RecvWoken x"] pa b ab t(1) by simp
  moreover have "pc_count send_active (cpc ?t) = pc_count send_active (cpc s)"
    using pc_count_upd [OF i(8), of send_active a ChIdle]
      pc_count_upd [OF f, of send_active b "RecvWoken x"] pa b ab t(1) by simp
  moreover have "in_crit (cpc ?t c) = in_crit (cpc s c)" for c using t(1) pa b ab by simp
  moreover have "recv_waits (cpc ?t c) \<longleftrightarrow> c \<in> set q" for c
    using t(1) pa i Cons by auto
  moreover have "send_waits (cpc ?t c) = send_waits (cpc s c)" for c using t(1) pa b ab by simp
  moreover have "distinct q" using i Cons by simp
  moreover have "cpc ?t c \<noteq> ChFault" for c using t(1) i(7) by simp
  moreover have "pc_finite ChIdle (cpc ?t)" unfolding t(1) using f by (rule pc_finite_upd)
  ultimately show ?thesis unfolding chan_inv_def t(2-) using i Cons by simp
qed

lemma chan_inv_notify_not_full:
  assumes inv: "chan_inv capacity s" and pa: "cpc s a = RecvNotify"
  shows "chan_inv capacity (notify_not_full a s)"
proof (cases "not_full_q s")
  case Nil
  then have t: "notify_not_full a s = set_cpc a ChIdle s" by (simp add: notify_not_full_def)
  show ?thesis
    unfolding t by (rule chan_inv_step [OF inv, of _ a ChIdle]) (use pa Nil in auto)
next
  case (Cons b q)
  from inv have i: "\<exists>xs. chan_rep capacity (chan s) xs \<and> sent s = received s @ xs"
    "\<forall>a. in_crit (cpc s a) \<longleftrightarrow> chan_owner s = Some a"
    "\<forall>a. send_waits (cpc s a) \<longleftrightarrow> a \<in> set (not_full_q s)" "distinct (not_full_q s)"
    "\<forall>a. recv_waits (cpc s a) \<longleftrightarrow> a \<in> set (not_empty_q s)" "distinct (not_empty_q s)"
    "\<forall>a. cpc s a \<noteq> ChFault" "pc_finite ChIdle (cpc s)"
    "not_empty_q s \<noteq> [] \<longrightarrow> m_size (chan s) \<le> pc_count recv_active (cpc s)"
    "not_full_q s \<noteq> [] \<longrightarrow> capacity - m_size (chan s) \<le> pc_count send_active (cpc s)"
    unfolding chan_inv_def by blast+
  have "send_waits (cpc s b)" using i Cons by simp
  then obtain x where b: "cpc s b = SendWait x" by (cases "cpc s b") auto
  with pa have ab: "b \<noteq> a" by auto
  let ?t = "notify_not_full a s" and ?m = "(cpc s)(a := ChIdle)"
  have t: "cpc ?t = ?m(b := SendWoken x)" "chan ?t = chan s" "chan_owner ?t = chan_owner s"
    "not_full_q ?t = q" "not_empty_q ?t = not_empty_q s" "sent ?t = sent s" "received ?t = received s"
    using Cons b by (simp_all add: notify_not_full_def)
  have f: "pc_finite ChIdle ?m" using i(8) by (rule pc_finite_upd)
  have "pc_count send_active (cpc ?t) = pc_count send_active (cpc s)"
    using pc_count_upd [OF i(8), of send_active a ChIdle]
      pc_count_upd [OF f, of send_active b "SendWoken x"] pa b ab t(1) by simp
  moreover have "pc_count recv_active (cpc ?t) = pc_count recv_active (cpc s)"
    using pc_count_upd [OF i(8), of recv_active a ChIdle]
      pc_count_upd [OF f, of recv_active b "SendWoken x"] pa b ab t(1) by simp
  moreover have "in_crit (cpc ?t c) = in_crit (cpc s c)" for c using t(1) pa b ab by simp
  moreover have "send_waits (cpc ?t c) \<longleftrightarrow> c \<in> set q" for c
    using t(1) pa i Cons by auto
  moreover have "recv_waits (cpc ?t c) = recv_waits (cpc s c)" for c using t(1) pa b ab by simp
  moreover have "distinct q" using i Cons by simp
  moreover have "cpc ?t c \<noteq> ChFault" for c using t(1) i(7) by simp
  moreover have "pc_finite ChIdle (cpc ?t)" unfolding t(1) using f by (rule pc_finite_upd)
  ultimately show ?thesis unfolding chan_inv_def t(2-) using i Cons by simp
qed

lemma chan_inv_send_crit:
  assumes inv: "chan_inv capacity s" and pa: "cpc s a = SendCrit x"
  shows "chan_inv capacity (send_crit capacity a x s)"
proof -
  from inv obtain xs where r: "chan_rep capacity (chan s) xs" "sent s = received s @ xs"
    unfolding chan_inv_def by blast
  note full = chan_full_rep [OF r(1)]
  have sz: "m_size (chan s) = length xs" "length xs \<le> capacity" using r(1) by (simp_all add: chan_rep_def)
  show ?thesis
  proof (cases "chan_full capacity (chan s)")
    case True
    then have t: "send_crit capacity a x s
        = set_cpc a (SendWait x) (s\<lparr>chan_owner := None, not_full_q := not_full_q s @ [a]\<rparr>)"
      by (simp add: send_crit_def)
    show ?thesis
      unfolding t
      by (rule chan_inv_step [OF inv, of _ a "SendWait x"])
        (use pa True sz in \<open>auto simp: chan_full_def\<close>)
  next
    case False
    with full sz have lt: "length xs < capacity" by simp
    from chan_put_rep [OF r(1) this, of x] obtain c where
      c: "chan_put capacity x (chan s) = Some c" "chan_rep capacity c (xs @ [x])" by blast
    then have szc: "m_size c = Suc (length xs)" by (simp add: chan_rep_def)
    have b: "\<exists>ys. chan_rep capacity c ys \<and> sent s @ [x] = received s @ ys"
      using c(2) r(2) by (intro exI [of _ "xs @ [x]"]) simp
    have t: "send_crit capacity a x s
        = set_cpc a SendNotify (s\<lparr>chan := c, chan_owner := None, sent := sent s @ [x]\<rparr>)"
      using False c(1) by (simp add: send_crit_def)
    show ?thesis
      unfolding t
      by (rule chan_inv_step [OF inv, of _ a SendNotify])
        (use pa sz szc lt b in simp_all)
  qed
qed

lemma chan_inv_recv_crit:
  assumes inv: "chan_inv capacity s" and pa: "cpc s a = RecvCrit keep"
  shows "chan_inv capacity (recv_crit capacity a keep s)"
proof -
  from inv obtain xs where r: "chan_rep capacity (chan s) xs" "sent s = received s @ xs"
    unfolding chan_inv_def by blast
  have sz: "m_size (chan s) = length xs" "length xs \<le> capacity" using r(1) by (simp_all add: chan_rep_def)
  show ?thesis
  proof (cases xs)
    case Nil
    then have "chan_empty (chan s)" using chan_empty_rep [OF r(1)] by simp
    then have t: "recv_crit capacity a keep s
        = set_cpc a (RecvWait keep) (s\<lparr>chan_owner := None, not_empty_q := not_empty_q s @ [a]\<rparr>)"
      by (simp add: recv_crit_def)
    show ?thesis
      unfolding t
      by (rule chan_inv_step [OF inv, of _ a "RecvWait keep"]) (use pa Nil sz in auto)
  next
    case (Cons x ys)
    then have ne: "\<not> chan_empty (chan s)" using chan_empty_rep [OF r(1)] by simp
    from r(1) Cons have hd: "m_buf (chan s) (m_first (chan s)) = Some x"
      by (force simp: chan_rep_def)
    from chan_take_rep [OF r(1) [unfolded Cons]] obtain c where
      c: "chan_take capacity (chan s) = Some (x, c)" "chan_drop capacity (chan s) = Some c"
      "chan_rep capacity c ys" by blast
    then have szc: "m_size c = length ys" by (simp add: chan_rep_def)
    have b: "\<exists>zs. chan_rep capacity c zs \<and> sent s = (received s @ [x]) @ zs"
      using c(3) r(2) Cons by (intro exI [of _ ys]) simp
    have t: "recv_crit capacity a keep s
        = set_cpc a RecvNotify (s\<lparr>chan := c, chan_owner := None, received := received s @ [x]\<rparr>)"
      using ne c(1,2) hd by (simp add: recv_crit_def)
    show ?thesis
      unfolding t
      by (rule chan_inv_step [OF inv, of _ a RecvNotify])
        (use pa sz szc Cons b in simp_all)
  qed
qed

lemma chan_step_inv:
  assumes "chan_step capacity s t" and inv: "chan_inv capacity s"
  shows "chan_inv capacity t"
  using assms(1)
proof cases
  case (ch_send a x)
  show ?thesis
    unfolding ch_send(1) by (rule chan_inv_step [OF inv, of _ a "SendLock x"]) (use ch_send(2) in auto)
next
  case (ch_recv a keep)
  show ?thesis
    unfolding ch_recv(1) by (rule chan_inv_step [OF inv, of _ a "RecvLock keep"]) (use ch_recv(2) in auto)
next
  case (ch_lock a p)
  show ?thesis
    unfolding ch_lock(1)
    by (rule chan_inv_step [OF inv, of _ a p])
      (use ch_lock(2,3) in \<open>auto elim!: chan_enter.elims\<close>)
next
  case (ch_send_crit a x)
  then show ?thesis using chan_inv_send_crit [OF inv] by simp
next
  case (ch_recv_crit a keep)
  then show ?thesis using chan_inv_recv_crit [OF inv] by simp
next
  case (ch_sent a)
  then show ?thesis using chan_inv_notify_not_empty [OF inv] by simp
next
  case (ch_received a)
  then show ?thesis using chan_inv_notify_not_full [OF inv] by simp
qed

lemma chan_reachable_inv: "chan_reachable capacity s \<Longrightarrow> 0 < capacity \<Longrightarrow> chan_inv capacity s"
  by (induction rule: chan_reachable.induct) (auto intro: chan_inv_init chan_step_inv)

section \<open>Properties\<close>

text \<open>C9. A channel delivers in order, each item once: in every state that any number of senders
  and receivers reach in any order of their steps, the items taken are a prefix of the items
  sent, what is in between is what the buffer holds and never more than the capacity, and no
  slot is read without an object or written over one.\<close>

theorem chan_fifo:
  assumes "chan_reachable capacity s" and "0 < capacity"
  shows "(\<exists>xs. sent s = received s @ xs \<and> chan_rep capacity (chan s) xs \<and> length xs \<le> capacity) \<and>
    cpc s a \<noteq> ChFault"
proof -
  from chan_reachable_inv [OF assms] have i: "\<exists>xs. chan_rep capacity (chan s) xs \<and> sent s = received s @ xs"
    "\<forall>a. cpc s a \<noteq> ChFault"
    unfolding chan_inv_def by blast+
  then show ?thesis by (auto simp: chan_rep_def)
qed

text \<open>16 waits for an item, 8 has sent 7 and is about to notify.\<close>

definition chan_sys_example :: "nat chan_sys" where
  "chan_sys_example =
     send_crit 1 8 7 (set_cpc 8 (SendCrit 7) ((set_cpc 8 (SendLock 7)
       (recv_crit 1 16 True (set_cpc 16 (RecvCrit True)
         ((set_cpc 16 (RecvLock True) chan_sys_init)\<lparr>chan_owner := Some 16\<rparr>))))
       \<lparr>chan_owner := Some 8\<rparr>))"

lemmas chan_run_simps = chan_sys_init_def chan_init_def send_crit_def recv_crit_def chan_full_def
  chan_empty_def chan_put_def chan_push_one_def Let_def

lemma chan_sys_example_reachable: "chan_reachable 1 chan_sys_example"
  unfolding chan_sys_example_def
  by (intro chan_next [OF _ ch_send_crit] chan_next [OF _ ch_lock] chan_next [OF _ ch_send]
      chan_next [OF _ ch_recv_crit] chan_next [OF _ ch_recv] chan_start)
    (simp_all add: chan_run_simps)

lemma chan_sys_example_fields:
  "cpc chan_sys_example 8 = SendNotify" "cpc chan_sys_example 16 = RecvWait True"
  "sent chan_sys_example = [7]" "received chan_sys_example = []" "m_size (chan chan_sys_example) = 1"
  by (simp_all add: chan_sys_example_def chan_run_simps)

theorem chan_fifo_witness:
  "\<exists>xs. [7] = [] @ xs \<and> chan_rep 1 (chan chan_sys_example) xs"
  using chan_fifo [OF chan_sys_example_reachable, of 0] by (auto simp: chan_sys_example_fields)

text \<open>The coroutine \<open>c\<close> is in an operation and has a step.\<close>

definition chan_moves :: "nat \<Rightarrow> 'a chan_sys \<Rightarrow> ptr \<Rightarrow> bool" where
  "chan_moves capacity s c \<longleftrightarrow>
     cpc s c \<noteq> ChIdle \<and> (\<exists>t. chan_step capacity s t \<and> cpc t c \<noteq> cpc s c)"

lemma chan_movesI:
  "cpc s c \<noteq> ChIdle \<Longrightarrow> chan_step capacity s t \<Longrightarrow> cpc t c \<noteq> cpc s c \<Longrightarrow> chan_moves capacity s c"
  unfolding chan_moves_def by blast

lemma chan_crit_moves: "in_crit (cpc s c) \<Longrightarrow> chan_moves capacity s c"
proof (cases "cpc s c")
  case (SendCrit x)
  have "cpc (send_crit capacity c x s) c \<noteq> cpc s c"
    using SendCrit by (simp add: send_crit_def split: option.split)
  with SendCrit ch_send_crit [OF SendCrit] show ?thesis unfolding chan_moves_def by auto
next
  case (RecvCrit keep)
  have "cpc (recv_crit capacity c keep s) c \<noteq> cpc s c"
    using RecvCrit by (auto simp: recv_crit_def split: option.split)
  with RecvCrit ch_recv_crit [OF RecvCrit] show ?thesis unfolding chan_moves_def by auto
qed simp_all

lemma chan_active_moves:
  assumes inv: "chan_inv capacity s" and b: "recv_active (cpc s b) \<or> send_active (cpc s b)"
  shows "\<exists>c. chan_moves capacity s c"
proof -
  from inv have q: "\<forall>a. recv_waits (cpc s a) \<longleftrightarrow> a \<in> set (not_empty_q s)"
    "\<forall>a. send_waits (cpc s a) \<longleftrightarrow> a \<in> set (not_full_q s)"
    "\<forall>a. in_crit (cpc s a) \<longleftrightarrow> chan_owner s = Some a"
    unfolding chan_inv_def by blast+
  show ?thesis
  proof (cases "chan_owner s")
    case (Some c)
    with q(3) have "in_crit (cpc s c)" by simp
    then show ?thesis using chan_crit_moves by blast
  next
    case None
    have enter: ?thesis if "chan_enter (cpc s b) = Some p" "cpc s b \<noteq> p" "cpc s b \<noteq> ChIdle" for p
      using chan_movesI [OF that(3) ch_lock [OF None that(1)]] that(2) by auto
    show ?thesis
    proof (cases "cpc s b")
      case SendNotify
      have "b \<notin> set (not_empty_q s)" using q(1) [rule_format, of b] SendNotify by simp
      then have "cpc (notify_not_empty b s) b = ChIdle"
        by (auto simp: notify_not_empty_def split: list.split)
      then have "cpc (notify_not_empty b s) b \<noteq> cpc s b" using SendNotify by simp
      then have "chan_moves capacity s b"
        using SendNotify by (intro chan_movesI [OF _ ch_sent [OF SendNotify]]) simp_all
      then show ?thesis by blast
    next
      case RecvNotify
      have "b \<notin> set (not_full_q s)" using q(2) [rule_format, of b] RecvNotify by simp
      then have "cpc (notify_not_full b s) b = ChIdle"
        by (auto simp: notify_not_full_def split: list.split)
      then have "cpc (notify_not_full b s) b \<noteq> cpc s b" using RecvNotify by simp
      then have "chan_moves capacity s b"
        using RecvNotify by (intro chan_movesI [OF _ ch_received [OF RecvNotify]]) simp_all
      then show ?thesis by blast
    qed (use b enter chan_crit_moves [of s b] in auto)
  qed
qed

text \<open>C10. No wake-up is lost on a channel whose coroutines run on one \<open>io_context\<close>, so that no two
  notifications overlap: while a receiver waits and an item is in the buffer, some coroutine is about
  to notify, or has been notified and will look, or is looking; and likewise while a sender waits
  and there is room. In both cases some coroutine in an operation has a step, so no deadlock leaves
  a receiver next to an item or a sender next to a free slot. (On several threads notifications
  overlap and may lose waiters; this is not covered.)\<close>

theorem chan_no_lost_wakeup:
  assumes "chan_reachable capacity s" and "0 < capacity"
  shows "(recv_waits (cpc s a) \<and> \<not> chan_empty (chan s) \<longrightarrow>
       (\<exists>b. recv_active (cpc s b)) \<and> (\<exists>c. chan_moves capacity s c)) \<and>
    (send_waits (cpc s a) \<and> \<not> chan_full capacity (chan s) \<longrightarrow>
       (\<exists>b. send_active (cpc s b)) \<and> (\<exists>c. chan_moves capacity s c))"
proof -
  note inv = chan_reachable_inv [OF assms]
  from inv obtain xs where i: "chan_rep capacity (chan s) xs"
    "\<forall>a. send_waits (cpc s a) \<longleftrightarrow> a \<in> set (not_full_q s)"
    "\<forall>a. recv_waits (cpc s a) \<longleftrightarrow> a \<in> set (not_empty_q s)"
    "pc_finite ChIdle (cpc s)"
    "not_empty_q s \<noteq> [] \<longrightarrow> m_size (chan s) \<le> pc_count recv_active (cpc s)"
    "not_full_q s \<noteq> [] \<longrightarrow> capacity - m_size (chan s) \<le> pc_count send_active (cpc s)"
    unfolding chan_inv_def by blast
  have "\<exists>b. recv_active (cpc s b)" if "recv_waits (cpc s a)" "\<not> chan_empty (chan s)"
  proof -
    have "not_empty_q s \<noteq> []" using i(3) that(1) by auto
    with i(5) that(2) have "pc_count recv_active (cpc s) > 0" by (auto simp: chan_empty_def)
    then show ?thesis using pc_count_pos [OF i(4), of recv_active] by simp
  qed
  moreover have "\<exists>b. send_active (cpc s b)" if "send_waits (cpc s a)" "\<not> chan_full capacity (chan s)"
  proof -
    have "not_full_q s \<noteq> []" using i(2) that(1) by auto
    moreover have "m_size (chan s) < capacity"
      using i(1) that(2) by (auto simp: chan_rep_def chan_full_def)
    ultimately have "pc_count send_active (cpc s) > 0" using i(6) by auto
    then show ?thesis using pc_count_pos [OF i(4), of send_active] by simp
  qed
  ultimately show ?thesis using chan_active_moves [OF inv] by meson
qed

theorem chan_no_lost_wakeup_witness:
  "\<exists>b. recv_active (cpc chan_sys_example b)"
  using chan_no_lost_wakeup [OF chan_sys_example_reachable, of 16]
  by (simp add: chan_sys_example_fields chan_empty_def)

end
