(* ===== verification/Sq_Entry.thy ===== *)
theory Sq_Entry
  imports Prelude
begin

text \<open>
  The submission queue entry of \<^verbatim>\<open>extern/liburingcxx/include/uring/sq_entry.hpp\<close>, over the
  layout of \<open>io_uring_sqe\<close> in \<^verbatim>\<open>io_uring.h\<close>. A union whose members have one width is one
  field: \<open>sqe_off\<close> is also \<open>addr2\<close>, \<open>sqe_addr\<close> is \<open>splice_off_in\<close>, \<open>sqe_op_flags\<close> are the
  flags of all operations, \<open>sqe_buf_index\<close> is \<open>buf_group\<close>, \<open>sqe_file_index\<close> is \<open>splice_fd_in\<close>
  and holds \<open>addr_len\<close> in its low half. Pointers are their addresses, a span is its data
  pointer and its size, signed arguments are the words of their two's complement, and each
  conversion of the code is the cast it makes: \<open>ucast\<close> where it truncates or extends with
  zeros, \<open>scast\<close> where it extends the sign.
\<close>

section \<open>Layout and constants\<close>

record sqe =
  sqe_opcode :: u8
  sqe_flags :: u8
  sqe_ioprio :: u16
  sqe_fd :: u32
  sqe_off :: u64
  sqe_addr :: u64
  sqe_len :: u32
  sqe_op_flags :: u32
  sqe_user_data :: u64
  sqe_buf_index :: u16
  sqe_personality :: u16
  sqe_file_index :: u32
  sqe_addr3 :: u64
  sqe_pad2 :: u64

abbreviation (input) IORING_OP_NOP :: u8 where "IORING_OP_NOP \<equiv> 0"
abbreviation (input) IORING_OP_READV :: u8 where "IORING_OP_READV \<equiv> 1"
abbreviation (input) IORING_OP_WRITEV :: u8 where "IORING_OP_WRITEV \<equiv> 2"
abbreviation (input) IORING_OP_FSYNC :: u8 where "IORING_OP_FSYNC \<equiv> 3"
abbreviation (input) IORING_OP_READ_FIXED :: u8 where "IORING_OP_READ_FIXED \<equiv> 4"
abbreviation (input) IORING_OP_WRITE_FIXED :: u8 where "IORING_OP_WRITE_FIXED \<equiv> 5"
abbreviation (input) IORING_OP_POLL_ADD :: u8 where "IORING_OP_POLL_ADD \<equiv> 6"
abbreviation (input) IORING_OP_POLL_REMOVE :: u8 where "IORING_OP_POLL_REMOVE \<equiv> 7"
abbreviation (input) IORING_OP_SYNC_FILE_RANGE :: u8 where "IORING_OP_SYNC_FILE_RANGE \<equiv> 8"
abbreviation (input) IORING_OP_SENDMSG :: u8 where "IORING_OP_SENDMSG \<equiv> 9"
abbreviation (input) IORING_OP_RECVMSG :: u8 where "IORING_OP_RECVMSG \<equiv> 10"
abbreviation (input) IORING_OP_TIMEOUT :: u8 where "IORING_OP_TIMEOUT \<equiv> 11"
abbreviation (input) IORING_OP_TIMEOUT_REMOVE :: u8 where "IORING_OP_TIMEOUT_REMOVE \<equiv> 12"
abbreviation (input) IORING_OP_ACCEPT :: u8 where "IORING_OP_ACCEPT \<equiv> 13"
abbreviation (input) IORING_OP_ASYNC_CANCEL :: u8 where "IORING_OP_ASYNC_CANCEL \<equiv> 14"
abbreviation (input) IORING_OP_LINK_TIMEOUT :: u8 where "IORING_OP_LINK_TIMEOUT \<equiv> 15"
abbreviation (input) IORING_OP_CONNECT :: u8 where "IORING_OP_CONNECT \<equiv> 16"
abbreviation (input) IORING_OP_FALLOCATE :: u8 where "IORING_OP_FALLOCATE \<equiv> 17"
abbreviation (input) IORING_OP_OPENAT :: u8 where "IORING_OP_OPENAT \<equiv> 18"
abbreviation (input) IORING_OP_CLOSE :: u8 where "IORING_OP_CLOSE \<equiv> 19"
abbreviation (input) IORING_OP_FILES_UPDATE :: u8 where "IORING_OP_FILES_UPDATE \<equiv> 20"
abbreviation (input) IORING_OP_STATX :: u8 where "IORING_OP_STATX \<equiv> 21"
abbreviation (input) IORING_OP_READ :: u8 where "IORING_OP_READ \<equiv> 22"
abbreviation (input) IORING_OP_WRITE :: u8 where "IORING_OP_WRITE \<equiv> 23"
abbreviation (input) IORING_OP_FADVISE :: u8 where "IORING_OP_FADVISE \<equiv> 24"
abbreviation (input) IORING_OP_MADVISE :: u8 where "IORING_OP_MADVISE \<equiv> 25"
abbreviation (input) IORING_OP_SEND :: u8 where "IORING_OP_SEND \<equiv> 26"
abbreviation (input) IORING_OP_RECV :: u8 where "IORING_OP_RECV \<equiv> 27"
abbreviation (input) IORING_OP_OPENAT2 :: u8 where "IORING_OP_OPENAT2 \<equiv> 28"
abbreviation (input) IORING_OP_EPOLL_CTL :: u8 where "IORING_OP_EPOLL_CTL \<equiv> 29"
abbreviation (input) IORING_OP_SPLICE :: u8 where "IORING_OP_SPLICE \<equiv> 30"
abbreviation (input) IORING_OP_PROVIDE_BUFFERS :: u8 where "IORING_OP_PROVIDE_BUFFERS \<equiv> 31"
abbreviation (input) IORING_OP_REMOVE_BUFFERS :: u8 where "IORING_OP_REMOVE_BUFFERS \<equiv> 32"
abbreviation (input) IORING_OP_TEE :: u8 where "IORING_OP_TEE \<equiv> 33"
abbreviation (input) IORING_OP_SHUTDOWN :: u8 where "IORING_OP_SHUTDOWN \<equiv> 34"
abbreviation (input) IORING_OP_RENAMEAT :: u8 where "IORING_OP_RENAMEAT \<equiv> 35"
abbreviation (input) IORING_OP_UNLINKAT :: u8 where "IORING_OP_UNLINKAT \<equiv> 36"
abbreviation (input) IORING_OP_MKDIRAT :: u8 where "IORING_OP_MKDIRAT \<equiv> 37"
abbreviation (input) IORING_OP_SYMLINKAT :: u8 where "IORING_OP_SYMLINKAT \<equiv> 38"
abbreviation (input) IORING_OP_LINKAT :: u8 where "IORING_OP_LINKAT \<equiv> 39"
abbreviation (input) IORING_OP_MSG_RING :: u8 where "IORING_OP_MSG_RING \<equiv> 40"
abbreviation (input) IORING_OP_FSETXATTR :: u8 where "IORING_OP_FSETXATTR \<equiv> 41"
abbreviation (input) IORING_OP_SETXATTR :: u8 where "IORING_OP_SETXATTR \<equiv> 42"
abbreviation (input) IORING_OP_FGETXATTR :: u8 where "IORING_OP_FGETXATTR \<equiv> 43"
abbreviation (input) IORING_OP_GETXATTR :: u8 where "IORING_OP_GETXATTR \<equiv> 44"
abbreviation (input) IORING_OP_SOCKET :: u8 where "IORING_OP_SOCKET \<equiv> 45"
abbreviation (input) IORING_OP_SEND_ZC :: u8 where "IORING_OP_SEND_ZC \<equiv> 47"
abbreviation (input) IORING_OP_SENDMSG_ZC :: u8 where "IORING_OP_SENDMSG_ZC \<equiv> 48"
abbreviation (input) IORING_OP_LAST :: u8 where "IORING_OP_LAST \<equiv> 55"

abbreviation (input) IOSQE_FIXED_FILE :: u8 where "IOSQE_FIXED_FILE \<equiv> 1"
abbreviation (input) IOSQE_IO_DRAIN :: u8 where "IOSQE_IO_DRAIN \<equiv> 2"
abbreviation (input) IOSQE_IO_LINK :: u8 where "IOSQE_IO_LINK \<equiv> 4"
abbreviation (input) IOSQE_IO_HARDLINK :: u8 where "IOSQE_IO_HARDLINK \<equiv> 8"
abbreviation (input) IOSQE_ASYNC :: u8 where "IOSQE_ASYNC \<equiv> 16"
abbreviation (input) IOSQE_BUFFER_SELECT :: u8 where "IOSQE_BUFFER_SELECT \<equiv> 32"
abbreviation (input) IOSQE_CQE_SKIP_SUCCESS :: u8 where "IOSQE_CQE_SKIP_SUCCESS \<equiv> 64"

abbreviation (input) IORING_TIMEOUT_UPDATE :: u32 where "IORING_TIMEOUT_UPDATE \<equiv> 2"
abbreviation (input) IORING_POLL_ADD_MULTI :: u32 where "IORING_POLL_ADD_MULTI \<equiv> 1"
abbreviation (input) IORING_ASYNC_CANCEL_FD :: u32 where "IORING_ASYNC_CANCEL_FD \<equiv> 2"
abbreviation (input) IORING_RECV_MULTISHOT :: u16 where "IORING_RECV_MULTISHOT \<equiv> 2"
abbreviation (input) IORING_RECVSEND_FIXED_BUF :: u16 where "IORING_RECVSEND_FIXED_BUF \<equiv> 4"
abbreviation (input) IORING_ACCEPT_MULTISHOT :: u16 where "IORING_ACCEPT_MULTISHOT \<equiv> 1"
abbreviation (input) IORING_MSG_SEND_FD :: u64 where "IORING_MSG_SEND_FD \<equiv> 1"
abbreviation (input) IORING_MSG_RING_FLAGS_PASS :: u32 where "IORING_MSG_RING_FLAGS_PASS \<equiv> 2"
abbreviation (input) IORING_FILE_INDEX_ALLOC :: u32 where "IORING_FILE_INDEX_ALLOC \<equiv> - 1"
abbreviation (input) AT_FDCWD :: u32 where "AT_FDCWD \<equiv> - 100"

section \<open>Data, flags and the common preparation\<close>

definition clone_from :: "sqe \<Rightarrow> sqe \<Rightarrow> sqe" where
  "clone_from other s = other"

definition set_data :: "u64 \<Rightarrow> sqe \<Rightarrow> sqe" where
  "set_data d s = s\<lparr>sqe_user_data := d\<rparr>"

definition get_data :: "sqe \<Rightarrow> u64" where
  "get_data s = sqe_user_data s"

definition reset_flags :: "u8 \<Rightarrow> sqe \<Rightarrow> sqe" where
  "reset_flags fl s = s\<lparr>sqe_flags := fl\<rparr>"

definition set_fixed_file :: "sqe \<Rightarrow> sqe" where
  "set_fixed_file s = s\<lparr>sqe_flags := sqe_flags s OR IOSQE_FIXED_FILE\<rparr>"

definition set_link :: "sqe \<Rightarrow> sqe" where
  "set_link s = s\<lparr>sqe_flags := sqe_flags s OR IOSQE_IO_LINK\<rparr>"

definition set_hard_link :: "sqe \<Rightarrow> sqe" where
  "set_hard_link s = s\<lparr>sqe_flags := sqe_flags s OR IOSQE_IO_HARDLINK\<rparr>"

definition set_drain :: "sqe \<Rightarrow> sqe" where
  "set_drain s = s\<lparr>sqe_flags := sqe_flags s OR IOSQE_IO_DRAIN\<rparr>"

definition set_async :: "sqe \<Rightarrow> sqe" where
  "set_async s = s\<lparr>sqe_flags := sqe_flags s OR IOSQE_ASYNC\<rparr>"

definition set_buffer_select :: "sqe \<Rightarrow> sqe" where
  "set_buffer_select s = s\<lparr>sqe_flags := sqe_flags s OR IOSQE_BUFFER_SELECT\<rparr>"

definition set_cqe_skip :: "sqe \<Rightarrow> sqe" where
  "set_cqe_skip s = s\<lparr>sqe_flags := sqe_flags s OR IOSQE_CQE_SKIP_SUCCESS\<rparr>"

definition is_cqe_skip :: "sqe \<Rightarrow> bool" where
  "is_cqe_skip s \<longleftrightarrow> sqe_flags s AND IOSQE_CQE_SKIP_SUCCESS \<noteq> 0"

definition set_target_fixed_file :: "u32 \<Rightarrow> sqe \<Rightarrow> sqe" where
  "set_target_fixed_file fi s = s\<lparr>sqe_file_index := fi + 1\<rparr>"

definition prep_rw :: "u8 \<Rightarrow> u32 \<Rightarrow> u64 \<Rightarrow> u32 \<Rightarrow> u64 \<Rightarrow> sqe \<Rightarrow> sqe" where
  "prep_rw op fd a n offset s =
     s\<lparr>sqe_opcode := op, sqe_flags := 0, sqe_ioprio := 0, sqe_fd := fd, sqe_off := offset,
       sqe_addr := a, sqe_len := n, sqe_op_flags := 0, sqe_buf_index := 0, sqe_personality := 0,
       sqe_file_index := 0, sqe_addr3 := 0, sqe_pad2 := 0\<rparr>"

text \<open>On a big-endian machine the two halves of the mask are swapped.\<close>

definition prep_poll_mask :: "bool \<Rightarrow> u32 \<Rightarrow> u32" where
  "prep_poll_mask be poll_mask = (if be then word_rotl 16 poll_mask else poll_mask)"

section \<open>The operations\<close>

definition prep_splice ::
  "u32 \<Rightarrow> u64 \<Rightarrow> u32 \<Rightarrow> u64 \<Rightarrow> u32 \<Rightarrow> u32 \<Rightarrow> sqe \<Rightarrow> sqe" where
  "prep_splice fd_in off_in fd_out off_out nbytes splice_flags s =
     (prep_rw IORING_OP_SPLICE fd_out 0 nbytes off_out s)
       \<lparr>sqe_addr := off_in, sqe_op_flags := splice_flags, sqe_file_index := fd_in\<rparr>"

definition prep_tee ::
  "u32 \<Rightarrow> u32 \<Rightarrow> u32 \<Rightarrow> u32 \<Rightarrow> sqe \<Rightarrow> sqe" where
  "prep_tee fd_in fd_out nbytes splice_flags s =
     (prep_rw IORING_OP_TEE fd_out 0 nbytes 0 s)
       \<lparr>sqe_addr := 0, sqe_op_flags := splice_flags, sqe_file_index := fd_in\<rparr>"

definition prep_readv ::
  "u32 \<Rightarrow> ptr \<Rightarrow> u64 \<Rightarrow> u64 \<Rightarrow> sqe \<Rightarrow> sqe" where
  "prep_readv fd iovecs n ofs s = prep_rw IORING_OP_READV fd iovecs (ucast n) ofs s"

definition prep_readv2 ::
  "u32 \<Rightarrow> ptr \<Rightarrow> u64 \<Rightarrow> u64 \<Rightarrow> u32 \<Rightarrow> sqe \<Rightarrow> sqe" where
  "prep_readv2 fd iovecs n ofs fl s =
     (prep_readv fd iovecs n ofs s)\<lparr>sqe_op_flags := fl\<rparr>"

definition prep_read_fixed ::
  "u32 \<Rightarrow> ptr \<Rightarrow> u64 \<Rightarrow> u64 \<Rightarrow> u16 \<Rightarrow> sqe \<Rightarrow> sqe" where
  "prep_read_fixed fd buf n ofs bi s =
     (prep_rw IORING_OP_READ_FIXED fd buf (ucast n) ofs s)\<lparr>sqe_buf_index := bi\<rparr>"

definition prep_writev ::
  "u32 \<Rightarrow> ptr \<Rightarrow> u64 \<Rightarrow> u64 \<Rightarrow> sqe \<Rightarrow> sqe" where
  "prep_writev fd iovecs n ofs s = prep_rw IORING_OP_WRITEV fd iovecs (ucast n) ofs s"

definition prep_writev2 ::
  "u32 \<Rightarrow> ptr \<Rightarrow> u64 \<Rightarrow> u64 \<Rightarrow> u32 \<Rightarrow> sqe \<Rightarrow> sqe" where
  "prep_writev2 fd iovecs n ofs fl s =
     (prep_writev fd iovecs n ofs s)\<lparr>sqe_op_flags := fl\<rparr>"

definition prep_write_fixed ::
  "u32 \<Rightarrow> ptr \<Rightarrow> u64 \<Rightarrow> u64 \<Rightarrow> u16 \<Rightarrow> sqe \<Rightarrow> sqe" where
  "prep_write_fixed fd buf n ofs bi s =
     (prep_rw IORING_OP_WRITE_FIXED fd buf (ucast n) ofs s)\<lparr>sqe_buf_index := bi\<rparr>"

definition prep_recvmsg ::
  "u32 \<Rightarrow> ptr \<Rightarrow> u32 \<Rightarrow> sqe \<Rightarrow> sqe" where
  "prep_recvmsg fd msg fl s =
     (prep_rw IORING_OP_RECVMSG fd msg 1 0 s)\<lparr>sqe_op_flags := fl\<rparr>"

definition prep_recvmsg_multishot ::
  "u32 \<Rightarrow> ptr \<Rightarrow> u32 \<Rightarrow> sqe \<Rightarrow> sqe" where
  "prep_recvmsg_multishot fd msg fl s = (let s = prep_recvmsg fd msg fl s in
      s\<lparr>sqe_ioprio := sqe_ioprio s OR IORING_RECV_MULTISHOT\<rparr>)"

definition prep_sendmsg ::
  "u32 \<Rightarrow> ptr \<Rightarrow> u32 \<Rightarrow> sqe \<Rightarrow> sqe" where
  "prep_sendmsg fd msg fl s =
     (prep_rw IORING_OP_SENDMSG fd msg 1 0 s)\<lparr>sqe_op_flags := fl\<rparr>"

definition prep_poll_add ::
  "bool \<Rightarrow> u32 \<Rightarrow> u32 \<Rightarrow> sqe \<Rightarrow> sqe" where
  "prep_poll_add be fd poll_mask s =
     (prep_rw IORING_OP_POLL_ADD fd 0 0 0 s)
       \<lparr>sqe_op_flags := prep_poll_mask be poll_mask\<rparr>"

definition prep_poll_multishot ::
  "bool \<Rightarrow> u32 \<Rightarrow> u32 \<Rightarrow> sqe \<Rightarrow> sqe" where
  "prep_poll_multishot be fd poll_mask s =
     (prep_poll_add be fd poll_mask s)\<lparr>sqe_len := IORING_POLL_ADD_MULTI\<rparr>"

definition prep_poll_remove :: "u64 \<Rightarrow> sqe \<Rightarrow> sqe" where
  "prep_poll_remove d s =
     (prep_rw IORING_OP_POLL_REMOVE (- 1) 0 0 0 s)\<lparr>sqe_addr := d\<rparr>"

definition prep_poll_update ::
  "bool \<Rightarrow> u64 \<Rightarrow> u64 \<Rightarrow> u32 \<Rightarrow> u32 \<Rightarrow> sqe \<Rightarrow> sqe" where
  "prep_poll_update be old_user_data new_user_data poll_mask fl s =
     (prep_rw IORING_OP_POLL_REMOVE (- 1) 0 fl new_user_data s)
       \<lparr>sqe_addr := old_user_data, sqe_op_flags := prep_poll_mask be poll_mask\<rparr>"

definition prep_fsync :: "u32 \<Rightarrow> u32 \<Rightarrow> sqe \<Rightarrow> sqe" where
  "prep_fsync fd fsync_flags s =
     (prep_rw IORING_OP_FSYNC fd 0 0 0 s)\<lparr>sqe_op_flags := fsync_flags\<rparr>"

definition prep_fsync_range ::
  "u32 \<Rightarrow> u32 \<Rightarrow> u64 \<Rightarrow> u32 \<Rightarrow> sqe \<Rightarrow> sqe" where
  "prep_fsync_range fd fsync_flags ofs n s =
     (prep_rw IORING_OP_FSYNC fd 0 n ofs s)\<lparr>sqe_op_flags := fsync_flags\<rparr>"

definition prep_nop :: "sqe \<Rightarrow> sqe" where
  "prep_nop s = prep_rw IORING_OP_NOP (- 1) 0 0 0 s"

definition prep_timeout ::
  "ptr \<Rightarrow> u32 \<Rightarrow> u32 \<Rightarrow> sqe \<Rightarrow> sqe" where
  "prep_timeout ts cnt fl s =
     (prep_rw IORING_OP_TIMEOUT (- 1) ts 1 (ucast cnt) s)\<lparr>sqe_op_flags := fl\<rparr>"

definition prep_timeout_remove :: "u64 \<Rightarrow> u32 \<Rightarrow> sqe \<Rightarrow> sqe" where
  "prep_timeout_remove d fl s =
     (prep_rw IORING_OP_TIMEOUT_REMOVE (- 1) d 0 0 s)\<lparr>sqe_op_flags := fl\<rparr>"

definition prep_timeout_update ::
  "ptr \<Rightarrow> u64 \<Rightarrow> u32 \<Rightarrow> sqe \<Rightarrow> sqe" where
  "prep_timeout_update ts d fl s =
     (prep_rw IORING_OP_TIMEOUT_REMOVE (- 1) d 0 ts s)
       \<lparr>sqe_op_flags := fl OR IORING_TIMEOUT_UPDATE\<rparr>"

definition prep_accept ::
  "u32 \<Rightarrow> ptr \<Rightarrow> ptr \<Rightarrow> u32 \<Rightarrow> sqe \<Rightarrow> sqe" where
  "prep_accept fd a addrlen fl s =
     (prep_rw IORING_OP_ACCEPT fd a 0 addrlen s)\<lparr>sqe_op_flags := fl\<rparr>"

definition prep_accept_direct ::
  "u32 \<Rightarrow> ptr \<Rightarrow> ptr \<Rightarrow> u32 \<Rightarrow> u32 \<Rightarrow> sqe \<Rightarrow> sqe" where
  "prep_accept_direct fd a addrlen fl fi s =
     set_target_fixed_file fi (prep_accept fd a addrlen fl s)"

definition prep_accept_direct_alloc ::
  "u32 \<Rightarrow> ptr \<Rightarrow> ptr \<Rightarrow> u32 \<Rightarrow> sqe \<Rightarrow> sqe" where
  "prep_accept_direct_alloc fd a addrlen fl s =
     prep_accept_direct fd a addrlen fl (IORING_FILE_INDEX_ALLOC - 1) s"

definition prep_multishot_accept ::
  "u32 \<Rightarrow> ptr \<Rightarrow> ptr \<Rightarrow> u32 \<Rightarrow> sqe \<Rightarrow> sqe" where
  "prep_multishot_accept fd a addrlen fl s = (let s = prep_accept fd a addrlen fl s in
      s\<lparr>sqe_ioprio := sqe_ioprio s OR IORING_ACCEPT_MULTISHOT\<rparr>)"

definition prep_multishot_accept_direct ::
  "u32 \<Rightarrow> ptr \<Rightarrow> ptr \<Rightarrow> u32 \<Rightarrow> sqe \<Rightarrow> sqe" where
  "prep_multishot_accept_direct fd a addrlen fl s =
     set_target_fixed_file (IORING_FILE_INDEX_ALLOC - 1) (prep_multishot_accept fd a addrlen fl s)"

definition prep_cancle :: "u64 \<Rightarrow> u32 \<Rightarrow> sqe \<Rightarrow> sqe" where
  "prep_cancle d fl s =
     (prep_rw IORING_OP_ASYNC_CANCEL (- 1) 0 0 0 s)
       \<lparr>sqe_addr := d, sqe_op_flags := fl\<rparr>"

definition prep_cancle_ptr :: "ptr \<Rightarrow> u32 \<Rightarrow> sqe \<Rightarrow> sqe" where
  "prep_cancle_ptr d fl s = prep_cancle d fl s"

definition prep_cancle_fd :: "u32 \<Rightarrow> u32 \<Rightarrow> sqe \<Rightarrow> sqe" where
  "prep_cancle_fd fd fl s =
     (prep_rw IORING_OP_ASYNC_CANCEL fd 0 0 0 s)
       \<lparr>sqe_op_flags := fl OR IORING_ASYNC_CANCEL_FD\<rparr>"

definition prep_link_timeout :: "ptr \<Rightarrow> u32 \<Rightarrow> sqe \<Rightarrow> sqe" where
  "prep_link_timeout ts fl s =
     (prep_rw IORING_OP_LINK_TIMEOUT (- 1) ts 1 0 s)\<lparr>sqe_op_flags := fl\<rparr>"

definition prep_connect ::
  "u32 \<Rightarrow> ptr \<Rightarrow> u32 \<Rightarrow> sqe \<Rightarrow> sqe" where
  "prep_connect fd a addrlen s = prep_rw IORING_OP_CONNECT fd a 0 (ucast addrlen) s"

definition prep_files_update ::
  "ptr \<Rightarrow> u64 \<Rightarrow> u32 \<Rightarrow> sqe \<Rightarrow> sqe" where
  "prep_files_update fds n ofs s =
     prep_rw IORING_OP_FILES_UPDATE (- 1) fds (ucast n) (scast ofs) s"

definition prep_fallocate ::
  "u32 \<Rightarrow> u32 \<Rightarrow> u64 \<Rightarrow> u64 \<Rightarrow> sqe \<Rightarrow> sqe" where
  "prep_fallocate fd mode ofs n s = prep_rw IORING_OP_FALLOCATE fd n mode ofs s"

definition prep_openat ::
  "u32 \<Rightarrow> ptr \<Rightarrow> u32 \<Rightarrow> u32 \<Rightarrow> sqe \<Rightarrow> sqe" where
  "prep_openat dfd path fl mode s =
     (prep_rw IORING_OP_OPENAT dfd path mode 0 s)\<lparr>sqe_op_flags := fl\<rparr>"

definition prep_openat_direct ::
  "u32 \<Rightarrow> ptr \<Rightarrow> u32 \<Rightarrow> u32 \<Rightarrow> u32 \<Rightarrow> sqe \<Rightarrow> sqe" where
  "prep_openat_direct dfd path fl mode fi s =
     set_target_fixed_file fi (prep_openat dfd path fl mode s)"

definition prep_openat_direct_alloc ::
  "u32 \<Rightarrow> ptr \<Rightarrow> u32 \<Rightarrow> u32 \<Rightarrow> sqe \<Rightarrow> sqe" where
  "prep_openat_direct_alloc dfd path fl mode s =
     prep_openat_direct dfd path fl mode (IORING_FILE_INDEX_ALLOC - 1) s"

definition prep_close :: "u32 \<Rightarrow> sqe \<Rightarrow> sqe" where
  "prep_close fd s = prep_rw IORING_OP_CLOSE fd 0 0 0 s"

definition prep_close_direct :: "u32 \<Rightarrow> sqe \<Rightarrow> sqe" where
  "prep_close_direct fi s = set_target_fixed_file fi (prep_close 0 s)"

definition prep_read ::
  "u32 \<Rightarrow> ptr \<Rightarrow> u64 \<Rightarrow> u64 \<Rightarrow> sqe \<Rightarrow> sqe" where
  "prep_read fd buf n ofs s = prep_rw IORING_OP_READ fd buf (ucast n) ofs s"

definition prep_write ::
  "u32 \<Rightarrow> ptr \<Rightarrow> u64 \<Rightarrow> u64 \<Rightarrow> sqe \<Rightarrow> sqe" where
  "prep_write fd buf n ofs s = prep_rw IORING_OP_WRITE fd buf (ucast n) ofs s"

definition prep_statx ::
  "u32 \<Rightarrow> ptr \<Rightarrow> u32 \<Rightarrow> u32 \<Rightarrow> ptr \<Rightarrow> sqe \<Rightarrow> sqe" where
  "prep_statx dfd path fl msk statxbuf s =
     (prep_rw IORING_OP_STATX dfd path msk statxbuf s)\<lparr>sqe_op_flags := fl\<rparr>"

definition prep_fadvise ::
  "u32 \<Rightarrow> u64 \<Rightarrow> u64 \<Rightarrow> u32 \<Rightarrow> sqe \<Rightarrow> sqe" where
  "prep_fadvise fd ofs n advice s =
     (prep_rw IORING_OP_FADVISE fd 0 (ucast n) ofs s)\<lparr>sqe_op_flags := advice\<rparr>"

definition prep_madvise ::
  "ptr \<Rightarrow> u64 \<Rightarrow> u32 \<Rightarrow> sqe \<Rightarrow> sqe" where
  "prep_madvise a n advice s =
     (prep_rw IORING_OP_MADVISE (- 1) a (ucast n) 0 s)\<lparr>sqe_op_flags := advice\<rparr>"

definition prep_send ::
  "u32 \<Rightarrow> ptr \<Rightarrow> u64 \<Rightarrow> u32 \<Rightarrow> sqe \<Rightarrow> sqe" where
  "prep_send sockfd buf n fl s =
     (prep_rw IORING_OP_SEND sockfd buf (ucast n) 0 s)\<lparr>sqe_op_flags := fl\<rparr>"

definition prep_send_zc ::
  "u32 \<Rightarrow> ptr \<Rightarrow> u64 \<Rightarrow> u32 \<Rightarrow> u32 \<Rightarrow> sqe \<Rightarrow> sqe" where
  "prep_send_zc sockfd buf n fl zc_flags s =
     (prep_rw IORING_OP_SEND_ZC sockfd buf (ucast n) 0 s)
       \<lparr>sqe_op_flags := fl, sqe_ioprio := ucast zc_flags\<rparr>"

definition prep_send_zc_fixed ::
  "u32 \<Rightarrow> ptr \<Rightarrow> u64 \<Rightarrow> u32 \<Rightarrow> u32 \<Rightarrow> u32 \<Rightarrow> sqe \<Rightarrow> sqe" where
  "prep_send_zc_fixed sockfd buf n fl zc_flags bi s =
     (let s = prep_send_zc sockfd buf n fl zc_flags s in
      s
       \<lparr>sqe_ioprio := sqe_ioprio s OR IORING_RECVSEND_FIXED_BUF, sqe_buf_index := sqe_buf_index s OR ucast bi\<rparr>)"

definition prep_sendmsg_zc ::
  "u32 \<Rightarrow> ptr \<Rightarrow> u32 \<Rightarrow> sqe \<Rightarrow> sqe" where
  "prep_sendmsg_zc fd msg fl s =
     (prep_sendmsg fd msg fl s)\<lparr>sqe_opcode := IORING_OP_SENDMSG_ZC\<rparr>"

definition prep_recv ::
  "u32 \<Rightarrow> ptr \<Rightarrow> u64 \<Rightarrow> u32 \<Rightarrow> sqe \<Rightarrow> sqe" where
  "prep_recv sockfd buf n fl s =
     (prep_rw IORING_OP_RECV sockfd buf (ucast n) 0 s)\<lparr>sqe_op_flags := fl\<rparr>"

definition prep_recv_multishot ::
  "u32 \<Rightarrow> ptr \<Rightarrow> u64 \<Rightarrow> u32 \<Rightarrow> sqe \<Rightarrow> sqe" where
  "prep_recv_multishot sockfd buf n fl s = (let s = prep_recv sockfd buf n fl s in
      s\<lparr>sqe_ioprio := sqe_ioprio s OR IORING_RECV_MULTISHOT\<rparr>)"

definition prep_openat2 ::
  "u32 \<Rightarrow> ptr \<Rightarrow> ptr \<Rightarrow> sqe \<Rightarrow> sqe" where
  "prep_openat2 dfd path how s = prep_rw IORING_OP_OPENAT2 dfd path 24 how s"

definition prep_openat2_direct ::
  "u32 \<Rightarrow> ptr \<Rightarrow> ptr \<Rightarrow> u32 \<Rightarrow> sqe \<Rightarrow> sqe" where
  "prep_openat2_direct dfd path how fi s = set_target_fixed_file fi (prep_openat2 dfd path how s)"

definition prep_openat2_direct_alloc ::
  "u32 \<Rightarrow> ptr \<Rightarrow> ptr \<Rightarrow> sqe \<Rightarrow> sqe" where
  "prep_openat2_direct_alloc dfd path how s =
     prep_openat2_direct dfd path how (IORING_FILE_INDEX_ALLOC - 1) s"

definition prep_epoll_ctl ::
  "u32 \<Rightarrow> u32 \<Rightarrow> u32 \<Rightarrow> ptr \<Rightarrow> sqe \<Rightarrow> sqe" where
  "prep_epoll_ctl epfd fd opn ev s = prep_rw IORING_OP_EPOLL_CTL epfd ev opn (ucast fd) s"

definition prep_provide_buffers ::
  "ptr \<Rightarrow> u32 \<Rightarrow> u32 \<Rightarrow> u32 \<Rightarrow> u32 \<Rightarrow> sqe \<Rightarrow> sqe" where
  "prep_provide_buffers a n nr bgid bid s =
     (prep_rw IORING_OP_PROVIDE_BUFFERS nr a n (scast bid) s)
       \<lparr>sqe_buf_index := ucast bgid\<rparr>"

definition prep_remove_buffers :: "u32 \<Rightarrow> u32 \<Rightarrow> sqe \<Rightarrow> sqe" where
  "prep_remove_buffers nr bgid s =
     (prep_rw IORING_OP_REMOVE_BUFFERS nr 0 0 0 s)\<lparr>sqe_buf_index := ucast bgid\<rparr>"

definition prep_shutdown :: "u32 \<Rightarrow> u32 \<Rightarrow> sqe \<Rightarrow> sqe" where
  "prep_shutdown fd how s = prep_rw IORING_OP_SHUTDOWN fd 0 how 0 s"

definition prep_unlinkat ::
  "u32 \<Rightarrow> ptr \<Rightarrow> u32 \<Rightarrow> sqe \<Rightarrow> sqe" where
  "prep_unlinkat dfd path fl s =
     (prep_rw IORING_OP_UNLINKAT dfd path 0 0 s)\<lparr>sqe_op_flags := fl\<rparr>"

definition prep_unlink :: "ptr \<Rightarrow> u32 \<Rightarrow> sqe \<Rightarrow> sqe" where
  "prep_unlink path fl s = prep_unlinkat AT_FDCWD path fl s"

definition prep_renameat ::
  "u32 \<Rightarrow> ptr \<Rightarrow> u32 \<Rightarrow> ptr \<Rightarrow> u32 \<Rightarrow> sqe \<Rightarrow> sqe" where
  "prep_renameat olddfd oldpath newdfd newpath fl s =
     (prep_rw IORING_OP_RENAMEAT olddfd oldpath newdfd newpath s)
       \<lparr>sqe_op_flags := fl\<rparr>"

definition prep_rename :: "ptr \<Rightarrow> ptr \<Rightarrow> sqe \<Rightarrow> sqe" where
  "prep_rename oldpath newpath s = prep_renameat AT_FDCWD oldpath AT_FDCWD newpath 0 s"

definition prep_sync_file_range ::
  "u32 \<Rightarrow> u32 \<Rightarrow> u64 \<Rightarrow> u32 \<Rightarrow> sqe \<Rightarrow> sqe" where
  "prep_sync_file_range fd n ofs fl s =
     (prep_rw IORING_OP_SYNC_FILE_RANGE fd 0 n ofs s)\<lparr>sqe_op_flags := fl\<rparr>"

definition prep_mkdirat ::
  "u32 \<Rightarrow> ptr \<Rightarrow> u32 \<Rightarrow> sqe \<Rightarrow> sqe" where
  "prep_mkdirat dfd path mode s = prep_rw IORING_OP_MKDIRAT dfd path mode 0 s"

definition prep_mkdir :: "ptr \<Rightarrow> u32 \<Rightarrow> sqe \<Rightarrow> sqe" where
  "prep_mkdir path mode s = prep_mkdirat AT_FDCWD path mode s"

definition prep_symlinkat ::
  "ptr \<Rightarrow> u32 \<Rightarrow> ptr \<Rightarrow> sqe \<Rightarrow> sqe" where
  "prep_symlinkat tgt newdirfd linkpath s = prep_rw IORING_OP_SYMLINKAT newdirfd tgt 0 linkpath s"

definition prep_symlink :: "ptr \<Rightarrow> ptr \<Rightarrow> sqe \<Rightarrow> sqe" where
  "prep_symlink tgt linkpath s = prep_symlinkat tgt AT_FDCWD linkpath s"

definition prep_linkat ::
  "u32 \<Rightarrow> ptr \<Rightarrow> u32 \<Rightarrow> ptr \<Rightarrow> u32 \<Rightarrow> sqe \<Rightarrow> sqe" where
  "prep_linkat olddfd oldpath newdfd newpath fl s =
     (prep_rw IORING_OP_LINKAT olddfd oldpath newdfd newpath s)\<lparr>sqe_op_flags := fl\<rparr>"

definition prep_link ::
  "ptr \<Rightarrow> ptr \<Rightarrow> u32 \<Rightarrow> sqe \<Rightarrow> sqe" where
  "prep_link oldpath newpath fl s = prep_linkat AT_FDCWD oldpath AT_FDCWD newpath fl s"

definition prep_msg_ring ::
  "u32 \<Rightarrow> u32 \<Rightarrow> u64 \<Rightarrow> u32 \<Rightarrow> sqe \<Rightarrow> sqe" where
  "prep_msg_ring fd cqe_res cqe_user_data fl s =
     (prep_rw IORING_OP_MSG_RING fd 0 cqe_res cqe_user_data s)\<lparr>sqe_op_flags := fl\<rparr>"

definition prep_msg_ring_cqe_flags ::
  "u32 \<Rightarrow> u32 \<Rightarrow> u64 \<Rightarrow> u32 \<Rightarrow> u32 \<Rightarrow> sqe \<Rightarrow> sqe" where
  "prep_msg_ring_cqe_flags fd cqe_res cqe_user_data fl cqe_flags s =
     (prep_rw IORING_OP_MSG_RING fd 0 cqe_res cqe_user_data s)
       \<lparr>sqe_op_flags := IORING_MSG_RING_FLAGS_PASS OR fl, sqe_file_index := cqe_flags\<rparr>"

definition prep_msg_ring_fd ::
  "u32 \<Rightarrow> u32 \<Rightarrow> u32 \<Rightarrow> u64 \<Rightarrow> u32 \<Rightarrow> sqe \<Rightarrow> sqe" where
  "prep_msg_ring_fd fd source_fd target_fd d fl s =
     (prep_rw IORING_OP_MSG_RING fd IORING_MSG_SEND_FD 0 d s)
       \<lparr>sqe_op_flags := fl, sqe_file_index := target_fd + 1, sqe_addr3 := scast source_fd\<rparr>"

definition prep_msg_ring_fd_alloc ::
  "u32 \<Rightarrow> u32 \<Rightarrow> u64 \<Rightarrow> u32 \<Rightarrow> sqe \<Rightarrow> sqe" where
  "prep_msg_ring_fd_alloc fd source_fd d fl s =
     prep_msg_ring_fd fd source_fd (IORING_FILE_INDEX_ALLOC - 1) d fl s"

definition prep_getxattr ::
  "ptr \<Rightarrow> ptr \<Rightarrow> ptr \<Rightarrow> u32 \<Rightarrow> sqe \<Rightarrow> sqe" where
  "prep_getxattr name v path n s =
     (prep_rw IORING_OP_GETXATTR 0 name n v s)\<lparr>sqe_addr3 := path, sqe_op_flags := 0\<rparr>"

definition prep_setxattr ::
  "ptr \<Rightarrow> ptr \<Rightarrow> ptr \<Rightarrow> u32 \<Rightarrow> u32 \<Rightarrow> sqe \<Rightarrow> sqe" where
  "prep_setxattr name v path fl n s =
     (prep_rw IORING_OP_SETXATTR 0 name n v s)
       \<lparr>sqe_addr3 := path, sqe_op_flags := fl\<rparr>"

definition prep_fgetxattr ::
  "u32 \<Rightarrow> ptr \<Rightarrow> ptr \<Rightarrow> u32 \<Rightarrow> sqe \<Rightarrow> sqe" where
  "prep_fgetxattr fd name v n s =
     (prep_rw IORING_OP_FGETXATTR fd name n v s)\<lparr>sqe_op_flags := 0\<rparr>"

definition prep_fsetxattr ::
  "u32 \<Rightarrow> ptr \<Rightarrow> ptr \<Rightarrow> u32 \<Rightarrow> u32 \<Rightarrow> sqe \<Rightarrow> sqe" where
  "prep_fsetxattr fd name v fl n s =
     (prep_rw IORING_OP_FSETXATTR fd name n v s)\<lparr>sqe_op_flags := fl\<rparr>"

definition prep_socket ::
  "u32 \<Rightarrow> u32 \<Rightarrow> u32 \<Rightarrow> u32 \<Rightarrow> sqe \<Rightarrow> sqe" where
  "prep_socket domain ty protocol fl s =
     (prep_rw IORING_OP_SOCKET domain 0 protocol (scast ty) s)\<lparr>sqe_op_flags := fl\<rparr>"

definition prep_socket_direct ::
  "u32 \<Rightarrow> u32 \<Rightarrow> u32 \<Rightarrow> u32 \<Rightarrow> u32 \<Rightarrow> sqe \<Rightarrow> sqe" where
  "prep_socket_direct domain ty protocol fi fl s =
     (prep_rw IORING_OP_SOCKET domain 0 protocol (scast ty) s)
       \<lparr>sqe_op_flags := fl, sqe_file_index := fi + 1\<rparr>"

definition prep_socket_direct_alloc ::
  "u32 \<Rightarrow> u32 \<Rightarrow> u32 \<Rightarrow> u32 \<Rightarrow> sqe \<Rightarrow> sqe" where
  "prep_socket_direct_alloc domain ty protocol fl s =
     prep_socket_direct domain ty protocol (IORING_FILE_INDEX_ALLOC - 1) fl s"

text \<open>Not a preparation of its own: the destination address of a zero-copy send.\<close>

definition prep_send_set_addr :: "ptr \<Rightarrow> u16 \<Rightarrow> sqe \<Rightarrow> sqe" where
  "prep_send_set_addr dest_addr addr_len s =
     s\<lparr>sqe_off := dest_addr,
       sqe_file_index := (sqe_file_index s AND 0xFFFF0000) OR ucast addr_len\<rparr>"

section \<open>What all preparations have in common\<close>

text \<open>The preparations, as functions on entries.\<close>

inductive prep_fn :: "(sqe \<Rightarrow> sqe) \<Rightarrow> bool" where
  "prep_fn (prep_splice fd_in off_in fd_out off_out nbytes splice_flags)"
| "prep_fn (prep_tee fd_in fd_out nbytes splice_flags)"
| "prep_fn (prep_readv fd iovecs n ofs)"
| "prep_fn (prep_readv2 fd iovecs n ofs fl)"
| "prep_fn (prep_read_fixed fd buf n ofs bi)"
| "prep_fn (prep_writev fd iovecs n ofs)"
| "prep_fn (prep_writev2 fd iovecs n ofs fl)"
| "prep_fn (prep_write_fixed fd buf n ofs bi)"
| "prep_fn (prep_recvmsg fd msg fl)"
| "prep_fn (prep_recvmsg_multishot fd msg fl)"
| "prep_fn (prep_sendmsg fd msg fl)"
| "prep_fn (prep_poll_add be fd poll_mask)"
| "prep_fn (prep_poll_multishot be fd poll_mask)"
| "prep_fn (prep_poll_remove d)"
| "prep_fn (prep_poll_update be old_user_data new_user_data poll_mask fl)"
| "prep_fn (prep_fsync fd fsync_flags)"
| "prep_fn (prep_fsync_range fd fsync_flags ofs n)"
| "prep_fn (prep_nop)"
| "prep_fn (prep_timeout ts cnt fl)"
| "prep_fn (prep_timeout_remove d fl)"
| "prep_fn (prep_timeout_update ts d fl)"
| "prep_fn (prep_accept fd a addrlen fl)"
| "prep_fn (prep_accept_direct fd a addrlen fl fi)"
| "prep_fn (prep_accept_direct_alloc fd a addrlen fl)"
| "prep_fn (prep_multishot_accept fd a addrlen fl)"
| "prep_fn (prep_multishot_accept_direct fd a addrlen fl)"
| "prep_fn (prep_cancle d fl)"
| "prep_fn (prep_cancle_ptr d fl)"
| "prep_fn (prep_cancle_fd fd fl)"
| "prep_fn (prep_link_timeout ts fl)"
| "prep_fn (prep_connect fd a addrlen)"
| "prep_fn (prep_files_update fds n ofs)"
| "prep_fn (prep_fallocate fd mode ofs n)"
| "prep_fn (prep_openat dfd path fl mode)"
| "prep_fn (prep_openat_direct dfd path fl mode fi)"
| "prep_fn (prep_openat_direct_alloc dfd path fl mode)"
| "prep_fn (prep_close fd)"
| "prep_fn (prep_close_direct fi)"
| "prep_fn (prep_read fd buf n ofs)"
| "prep_fn (prep_write fd buf n ofs)"
| "prep_fn (prep_statx dfd path fl msk statxbuf)"
| "prep_fn (prep_fadvise fd ofs n advice)"
| "prep_fn (prep_madvise a n advice)"
| "prep_fn (prep_send sockfd buf n fl)"
| "prep_fn (prep_send_zc sockfd buf n fl zc_flags)"
| "prep_fn (prep_send_zc_fixed sockfd buf n fl zc_flags bi)"
| "prep_fn (prep_sendmsg_zc fd msg fl)"
| "prep_fn (prep_recv sockfd buf n fl)"
| "prep_fn (prep_recv_multishot sockfd buf n fl)"
| "prep_fn (prep_openat2 dfd path how)"
| "prep_fn (prep_openat2_direct dfd path how fi)"
| "prep_fn (prep_openat2_direct_alloc dfd path how)"
| "prep_fn (prep_epoll_ctl epfd fd opn ev)"
| "prep_fn (prep_provide_buffers a n nr bgid bid)"
| "prep_fn (prep_remove_buffers nr bgid)"
| "prep_fn (prep_shutdown fd how)"
| "prep_fn (prep_unlinkat dfd path fl)"
| "prep_fn (prep_unlink path fl)"
| "prep_fn (prep_renameat olddfd oldpath newdfd newpath fl)"
| "prep_fn (prep_rename oldpath newpath)"
| "prep_fn (prep_sync_file_range fd n ofs fl)"
| "prep_fn (prep_mkdirat dfd path mode)"
| "prep_fn (prep_mkdir path mode)"
| "prep_fn (prep_symlinkat tgt newdirfd linkpath)"
| "prep_fn (prep_symlink tgt linkpath)"
| "prep_fn (prep_linkat olddfd oldpath newdfd newpath fl)"
| "prep_fn (prep_link oldpath newpath fl)"
| "prep_fn (prep_msg_ring fd cqe_res cqe_user_data fl)"
| "prep_fn (prep_msg_ring_cqe_flags fd cqe_res cqe_user_data fl cqe_flags)"
| "prep_fn (prep_msg_ring_fd fd source_fd target_fd d fl)"
| "prep_fn (prep_msg_ring_fd_alloc fd source_fd d fl)"
| "prep_fn (prep_getxattr name v path n)"
| "prep_fn (prep_setxattr name v path fl n)"
| "prep_fn (prep_fgetxattr fd name v n)"
| "prep_fn (prep_fsetxattr fd name v fl n)"
| "prep_fn (prep_socket domain ty protocol fl)"
| "prep_fn (prep_socket_direct domain ty protocol fi fl)"
| "prep_fn (prep_socket_direct_alloc domain ty protocol fl)"

lemma prep_rw_record:
  "prep_rw op fd a n offset s =
     \<lparr>sqe_opcode = op, sqe_flags = 0, sqe_ioprio = 0, sqe_fd = fd, sqe_off = offset, sqe_addr = a,
      sqe_len = n, sqe_op_flags = 0, sqe_user_data = sqe_user_data s, sqe_buf_index = 0,
      sqe_personality = 0, sqe_file_index = 0, sqe_addr3 = 0, sqe_pad2 = 0\<rparr>"
  by (simp add: prep_rw_def)

lemmas prep_defs = prep_rw_record set_target_fixed_file_def Let_def
  prep_splice_def prep_tee_def prep_readv_def prep_readv2_def prep_read_fixed_def
  prep_writev_def prep_writev2_def prep_write_fixed_def prep_recvmsg_def
  prep_recvmsg_multishot_def prep_sendmsg_def prep_poll_add_def prep_poll_multishot_def
  prep_poll_remove_def prep_poll_update_def prep_fsync_def prep_fsync_range_def prep_nop_def
  prep_timeout_def prep_timeout_remove_def prep_timeout_update_def prep_accept_def
  prep_accept_direct_def prep_accept_direct_alloc_def prep_multishot_accept_def
  prep_multishot_accept_direct_def prep_cancle_def prep_cancle_ptr_def prep_cancle_fd_def
  prep_link_timeout_def prep_connect_def prep_files_update_def prep_fallocate_def
  prep_openat_def prep_openat_direct_def prep_openat_direct_alloc_def prep_close_def
  prep_close_direct_def prep_read_def prep_write_def prep_statx_def prep_fadvise_def
  prep_madvise_def prep_send_def prep_send_zc_def prep_send_zc_fixed_def prep_sendmsg_zc_def
  prep_recv_def prep_recv_multishot_def prep_openat2_def prep_openat2_direct_def
  prep_openat2_direct_alloc_def prep_epoll_ctl_def prep_provide_buffers_def
  prep_remove_buffers_def prep_shutdown_def prep_unlinkat_def prep_unlink_def
  prep_renameat_def prep_rename_def prep_sync_file_range_def prep_mkdirat_def prep_mkdir_def
  prep_symlinkat_def prep_symlink_def prep_linkat_def prep_link_def prep_msg_ring_def
  prep_msg_ring_cqe_flags_def prep_msg_ring_fd_def prep_msg_ring_fd_alloc_def
  prep_getxattr_def prep_setxattr_def prep_fgetxattr_def prep_fsetxattr_def prep_socket_def
  prep_socket_direct_def prep_socket_direct_alloc_def

text \<open>Each preparation is an update with values that do not depend on the old entry.\<close>

definition overwrites :: "(sqe \<Rightarrow> sqe) \<Rightarrow> bool" where
  "overwrites f \<longleftrightarrow> (\<exists>t. sqe_opcode t < IORING_OP_LAST \<and> sqe_flags t = 0 \<and> sqe_personality t = 0 \<and>
     sqe_pad2 t = 0 \<and> (\<forall>s. f s = t\<lparr>sqe_user_data := sqe_user_data s\<rparr>))"

lemma overwritesI:
  assumes "\<And>s. f s = (f undefined)\<lparr>sqe_user_data := sqe_user_data s\<rparr>"
    and "sqe_opcode (f undefined) < IORING_OP_LAST" and "sqe_flags (f undefined) = 0"
    and "sqe_personality (f undefined) = 0" and "sqe_pad2 (f undefined) = 0"
  shows "overwrites f"
  unfolding overwrites_def using assms by blast

lemma prep_fn_overwrites: "prep_fn f \<Longrightarrow> overwrites f"
  by (cases rule: prep_fn.cases) (auto intro!: overwritesI simp: prep_defs)

text \<open>The setters of single flags.\<close>

definition flag_setters :: "(sqe \<Rightarrow> sqe) list" where
  "flag_setters = [set_fixed_file, set_link, set_hard_link, set_drain, set_async,
     set_buffer_select, set_cqe_skip]"

lemmas flag_setter_defs = flag_setters_def set_fixed_file_def set_link_def set_hard_link_def
  set_drain_def set_async_def set_buffer_select_def set_cqe_skip_def

lemma flag_setter:
  "g \<in> set flag_setters \<Longrightarrow> \<exists>b. \<forall>s. g s = s\<lparr>sqe_flags := sqe_flags s OR b\<rparr>"
  by (auto simp: flag_setter_defs)

section \<open>Properties\<close>

text \<open>C12. Entries of the ring are reused, and no preparation leaks what an entry held before:
  every preparation writes every field the kernel reads except \<open>user_data\<close> with values that
  depend on its arguments alone, with a known opcode, no flags and no personality.\<close>

theorem sqe_prep_no_leak:
  assumes "prep_fn f"
  shows "f s = (f s')\<lparr>sqe_user_data := sqe_user_data s\<rparr> \<and> sqe_opcode (f s) < IORING_OP_LAST \<and>
    sqe_flags (f s) = 0 \<and> sqe_personality (f s) = 0"
proof -
  from prep_fn_overwrites [OF assms] obtain t where t: "sqe_opcode t < IORING_OP_LAST"
    "sqe_flags t = 0" "sqe_personality t = 0" "\<forall>s. f s = t\<lparr>sqe_user_data := sqe_user_data s\<rparr>"
    unfolding overwrites_def by blast
  then show ?thesis by simp
qed

definition sqe_example :: sqe where
  "sqe_example = \<lparr>sqe_opcode = 54, sqe_flags = 255, sqe_ioprio = 7, sqe_fd = 3, sqe_off = 9,
     sqe_addr = 4096, sqe_len = 12, sqe_op_flags = 1, sqe_user_data = 77, sqe_buf_index = 5,
     sqe_personality = 6, sqe_file_index = 8, sqe_addr3 = 10, sqe_pad2 = 11\<rparr>"

theorem sqe_prep_no_leak_witness:
  "prep_read 4 8192 16 0 sqe_example = (prep_read 4 8192 16 0 (set_link sqe_example)) \<and>
   sqe_opcode (prep_read 4 8192 16 0 sqe_example) = IORING_OP_READ"
  using sqe_prep_no_leak [OF prep_fn.intros(39) [of 4 8192 16 0], of sqe_example "set_link sqe_example"]
  by (simp add: set_link_def prep_read_def prep_rw_def sqe_example_def)

text \<open>The user data, by which the completion finds its coroutine, survives: set before or after
  a preparation and before or after flags, it is what the entry carries to the kernel; and a
  flag set before the preparation is lost, so flags are to be set after it.\<close>

theorem sqe_user_data_kept:
  assumes "prep_fn f" and "g \<in> set flag_setters"
  shows "get_data (g (f (set_data d s))) = d \<and> set_data d (g (f s)) = g (f (set_data d s)) \<and>
    f (g s) = f s"
proof -
  from prep_fn_overwrites [OF assms(1)] obtain t where
    t: "\<forall>s. f s = t\<lparr>sqe_user_data := sqe_user_data s\<rparr>"
    unfolding overwrites_def by blast
  from flag_setter [OF assms(2)] obtain b where "\<forall>s. g s = s\<lparr>sqe_flags := sqe_flags s OR b\<rparr>" by blast
  with t show ?thesis by (simp add: get_data_def set_data_def)
qed

theorem sqe_user_data_kept_witness:
  "get_data (set_link (prep_nop (set_data 9 sqe_example))) = 9 \<and>
   prep_nop (set_link sqe_example) = prep_nop sqe_example"
proof -
  have "prep_fn prep_nop" by (rule prep_fn.intros)
  moreover have "set_link \<in> set flag_setters" by (simp add: flag_setters_def)
  ultimately show ?thesis using sqe_user_data_kept [of prep_nop set_link 9 sqe_example] by blast
qed

text \<open>Direct descriptors: an operation on the fixed file table stores the index plus one, so
  that zero means no fixed file. The variants that let the kernel allocate a slot store
  \<open>IORING_FILE_INDEX_ALLOC\<close>. The encoding wraps around for exactly one index, the largest:
  with it the request would silently be one without a fixed file.\<close>

theorem sqe_direct_index:
  "sqe_file_index (prep_accept_direct fd a al fl fi s) = fi + 1 \<and>
   sqe_file_index (prep_openat_direct fd path fl mode fi s) = fi + 1 \<and>
   sqe_file_index (prep_openat2_direct fd path how fi s) = fi + 1 \<and>
   sqe_file_index (prep_close_direct fi s) = fi + 1 \<and>
   sqe_file_index (prep_socket_direct domain ty proto fi fl s) = fi + 1 \<and>
   sqe_file_index (prep_accept_direct_alloc fd a al fl s) = IORING_FILE_INDEX_ALLOC \<and>
   sqe_file_index (prep_multishot_accept_direct fd a al fl s) = IORING_FILE_INDEX_ALLOC \<and>
   sqe_file_index (prep_openat_direct_alloc fd path fl mode s) = IORING_FILE_INDEX_ALLOC \<and>
   sqe_file_index (prep_openat2_direct_alloc fd path how s) = IORING_FILE_INDEX_ALLOC \<and>
   sqe_file_index (prep_socket_direct_alloc domain ty proto fl s) = IORING_FILE_INDEX_ALLOC \<and>
   (fi + 1 = 0 \<longleftrightarrow> fi = IORING_FILE_INDEX_ALLOC)"
proof -
  have "fi + 1 = 0 \<longleftrightarrow> fi = - 1" by (simp only: eq_neg_iff_add_eq_0)
  then show ?thesis by (simp add: prep_defs)
qed

theorem sqe_direct_index_witness:
  "sqe_file_index (prep_close_direct 4 sqe_example) = 5"
  using sqe_direct_index [of 0 0 0 0 4 sqe_example] by simp

end
