(* ===== verification/Sq_Ring.thy ===== *)
theory Sq_Ring
  imports Sq_Entry
begin

text \<open>
  The submission queue of \<^verbatim>\<open>extern/liburingcxx/include/uring/detail/sq.hpp\<close>. The ring of slot
  numbers \<open>array\<close> and the words \<open>khead\<close> and \<open>ktail\<close> are shared with the kernel; the setup
  flags that the code tests at compile time are a record. With \<open>sqe_reorder\<close> the application
  takes slots from the free part of the ring and appends them in the order in which it wants
  them submitted.
\<close>

section \<open>State and operations\<close>

record uring_cfg =
  cfg_sqpoll :: bool
  cfg_iopoll :: bool
  cfg_sqe128 :: bool
  cfg_cqe32 :: bool
  cfg_sqe_reorder :: bool
  cfg_reg_fd :: bool    \<comment> \<open>\<open>config::using_register_ring_fd\<close>, Linux 5.18\<close>

record sq =
  sq_head :: u32        \<comment> \<open>\<open>sqe_head\<close>\<close>
  sq_tail :: u32        \<comment> \<open>\<open>sqe_tail\<close>\<close>
  sq_free_head :: u32   \<comment> \<open>\<open>sqe_free_head\<close>\<close>
  sq_khead :: u32
  sq_ktail :: u32
  sq_ring_mask :: u32
  sq_ring_entries :: u32
  sq_kflags :: u32
  sq_array :: "u32 \<Rightarrow> u32"

definition sq_init_free_queue :: "'z sq_scheme \<Rightarrow> 'z sq_scheme" where
  "sq_init_free_queue q =
     q\<lparr>sq_array := (\<lambda>i. if i < sq_ring_entries q then i else sq_array q i)\<rparr>"

definition sq_flush :: "'z sq_scheme \<Rightarrow> u32 \<times> 'z sq_scheme" where
  "sq_flush q =
     (let q = (if sq_tail q \<noteq> sq_head q then q\<lparr>sq_head := sq_tail q, sq_ktail := sq_tail q\<rparr> else q)
      in (sq_tail q - sq_khead q, q))"

definition sq_pending :: "'z sq_scheme \<Rightarrow> u32" where
  "sq_pending q = sq_tail q - sq_khead q"

definition sqe_shift :: "uring_cfg \<Rightarrow> u32 \<Rightarrow> u32" where
  "sqe_shift cfg i = (if cfg_sqe128 cfg then push_bit 1 i else i)"

text \<open>The entry is named by its offset in \<open>sqes\<close>, in units of 64 bytes.\<close>

definition sq_get_sq_entry :: "uring_cfg \<Rightarrow> 'z sq_scheme \<Rightarrow> u32 option \<times> 'z sq_scheme" where
  "sq_get_sq_entry cfg q =
     (let head = sq_khead q in
      if cfg_sqe_reorder cfg then
        (if sq_free_head q - head < sq_ring_entries q
         then (Some (sqe_shift cfg (sq_array q (sq_free_head q AND sq_ring_mask q))),
               q\<lparr>sq_free_head := sq_free_head q + 1\<rparr>)
         else (None, q))
      else
        (if sq_tail q - head < sq_ring_entries q
         then (Some (sqe_shift cfg (sq_tail q AND sq_ring_mask q)), q\<lparr>sq_tail := sq_tail q + 1\<rparr>)
         else (None, q)))"

definition sq_append_sq_entry :: "u32 \<Rightarrow> 'z sq_scheme \<Rightarrow> 'z sq_scheme result" where
  "sq_append_sq_entry sqe q =
     (let q = q\<lparr>sq_array := (sq_array q)(sq_tail q AND sq_ring_mask q := sqe), sq_tail := sq_tail q + 1\<rparr>
      in if sq_tail q - sq_khead q \<le> sq_ring_entries q then Inr q else Inl AssertFail)"

section \<open>The slots of the ring\<close>

text \<open>
  In the middle of its use the ring consists of three parts: from \<open>khead\<close> to the tail what was
  appended and the kernel has not consumed, then the places of the slots that the application
  holds, and from the free head round to \<open>khead\<close> again the free slots.
\<close>

definition sq_inflight :: "'z sq_scheme \<Rightarrow> u32 list" where
  "sq_inflight q = ring_items (sq_array q) (sq_ring_entries q) (sq_khead q) (unat (sq_tail q - sq_khead q))"

definition sq_free :: "'z sq_scheme \<Rightarrow> u32 list" where
  "sq_free q = ring_items (sq_array q) (sq_ring_entries q) (sq_free_head q)
     (unat (sq_ring_entries q - (sq_free_head q - sq_khead q)))"

record sq_sys = sq +
  held :: "u32 list"
  appended :: "u32 list"
  consumed :: "u32 list"

inductive sq_step :: "uring_cfg \<Rightarrow> sq_sys \<Rightarrow> sq_sys \<Rightarrow> bool" for cfg :: uring_cfg where
  sq_take: "sq_get_sq_entry cfg q = (Some i, q') \<Longrightarrow> sq_step cfg q (q'\<lparr>held := i # held q\<rparr>)"
| sq_app: "i \<in> set (held q) \<Longrightarrow> sq_append_sq_entry i q = Inr q' \<Longrightarrow>
     sq_step cfg q (q'\<lparr>held := remove1 i (held q), appended := appended q @ [i]\<rparr>)"
| sq_flushed: "sq_flush q = (n, q') \<Longrightarrow> sq_step cfg q q'"
| sq_consume: "sq_khead q \<noteq> sq_ktail q \<Longrightarrow>
     sq_step cfg q (q\<lparr>sq_khead := sq_khead q + 1,
       consumed := consumed q @ [sq_array q (sq_khead q AND sq_ring_mask q)]\<rparr>)"

definition sq_fresh :: "nat \<Rightarrow> sq_sys \<Rightarrow> bool" where
  "sq_fresh k q \<longleftrightarrow> (\<exists>p. q = sq_init_free_queue p \<and> pow2_cap (sq_ring_entries p) k \<and>
     sq_ring_mask p = sq_ring_entries p - 1 \<and> sq_head p = sq_tail p \<and> sq_free_head p = sq_tail p \<and>
     sq_khead p = sq_tail p \<and> sq_ktail p = sq_tail p \<and> sq_tail p = 0 \<and>
     held p = [] \<and> appended p = [] \<and> consumed p = [])"

inductive sq_reachable :: "uring_cfg \<Rightarrow> nat \<Rightarrow> sq_sys \<Rightarrow> bool" for cfg :: uring_cfg and k :: nat where
  sq_begin: "sq_fresh k q \<Longrightarrow> sq_reachable cfg k q"
| sq_next: "sq_reachable cfg k q \<Longrightarrow> sq_step cfg q r \<Longrightarrow> sq_reachable cfg k r"

text \<open>Every slot is in exactly one of the three parts.\<close>

definition slots_split :: "nat \<Rightarrow> sq_sys \<Rightarrow> nat \<Rightarrow> nat \<Rightarrow> bool" where
  "slots_split k q t f \<longleftrightarrow>
     mset (ring_items (sq_array q) (sq_ring_entries q) (sq_khead q) t) + mset (held q) +
       mset (ring_items (sq_array q) (sq_ring_entries q) (sq_free_head q) (2 ^ k - f))
     = mset (map of_nat [0..<2 ^ k])"

text \<open>The three positions as distances from \<open>khead\<close>.\<close>

definition sq_inv :: "nat \<Rightarrow> sq_sys \<Rightarrow> bool" where
  "sq_inv k q \<longleftrightarrow> (\<exists>b t f.
     pow2_cap (sq_ring_entries q) k \<and> sq_ring_mask q = sq_ring_entries q - 1 \<and>
     b \<le> t \<and> t \<le> f \<and> f \<le> 2 ^ k \<and>
     sq_ktail q = sq_khead q + of_nat b \<and> sq_head q = sq_ktail q \<and>
     sq_tail q = sq_khead q + of_nat t \<and> sq_free_head q = sq_khead q + of_nat f \<and>
     length (held q) = f - t \<and>
     appended q = consumed q @ ring_items (sq_array q) (sq_ring_entries q) (sq_khead q) t \<and>
     slots_split k q t f)"

lemma sq_invI:
  "pow2_cap (sq_ring_entries q) k \<Longrightarrow> sq_ring_mask q = sq_ring_entries q - 1 \<Longrightarrow>
   b \<le> t \<Longrightarrow> t \<le> f \<Longrightarrow> f \<le> 2 ^ k \<Longrightarrow> sq_ktail q = sq_khead q + of_nat b \<Longrightarrow> sq_head q = sq_ktail q \<Longrightarrow>
   sq_tail q = sq_khead q + of_nat t \<Longrightarrow> sq_free_head q = sq_khead q + of_nat f \<Longrightarrow>
   length (held q) = f - t \<Longrightarrow>
   appended q = consumed q @ ring_items (sq_array q) (sq_ring_entries q) (sq_khead q) t \<Longrightarrow>
   slots_split k q t f \<Longrightarrow> sq_inv k q"
  unfolding sq_inv_def by blast

lemma sq_invE:
  assumes "sq_inv k q"
  obtains b t f where "pow2_cap (sq_ring_entries q) k" and "sq_ring_mask q = sq_ring_entries q - 1"
    and "b \<le> t" and "t \<le> f" and "f \<le> 2 ^ k" and "sq_ktail q = sq_khead q + of_nat b"
    and "sq_head q = sq_ktail q" and "sq_tail q = sq_khead q + of_nat t"
    and "sq_free_head q = sq_khead q + of_nat f" and "length (held q) = f - t"
    and "appended q = consumed q @ ring_items (sq_array q) (sq_ring_entries q) (sq_khead q) t"
    and "slots_split k q t f"
  using assms unfolding sq_inv_def by blast

lemma sq_inv_fresh:
  assumes "sq_fresh k q"
  shows "sq_inv k q"
proof -
  from assms obtain p where q: "q = sq_init_free_queue p" and p: "pow2_cap (sq_ring_entries p) k"
    "sq_ring_mask p = sq_ring_entries p - 1" "sq_head p = sq_tail p" "sq_free_head p = sq_tail p"
    "sq_khead p = sq_tail p" "sq_ktail p = sq_tail p" "sq_tail p = 0"
    "held p = []" "appended p = []" "consumed p = []"
    unfolding sq_fresh_def by blast
  note cap = pow2_cap_unat [OF p(1)] and fits = pow2_cap_fits [OF p(1)]
  have idx: "(of_nat i :: u32) AND (sq_ring_entries p - 1) = of_nat i" if "i < 2 ^ k" for i
  proof (rule unsigned_word_eqI [where ?'a = nat])
    have "unat ((of_nat i :: u32) AND (sq_ring_entries p - 1)) = unat (of_nat i :: u32) mod 2 ^ k"
      by (rule unat_and_mask [OF p(1)])
    moreover have "unat (of_nat i :: u32) = i"
      using that by (intro pow2_cap_of_nat [OF p(1)]) simp
    ultimately show "unat ((of_nat i :: u32) AND (sq_ring_entries p - 1)) = unat (of_nat i :: u32)"
      using that by simp
  qed
  have lt: "(of_nat i :: u32) < sq_ring_entries p" if "i < 2 ^ k" for i
    using that cap pow2_cap_of_nat [OF p(1), of i] by (simp only: word_less_nat_alt)
  have "ring_items (sq_array q) (sq_ring_entries q) 0 (2 ^ k) = map of_nat [0..<2 ^ k]"
    using idx lt by (auto simp: ring_items_def q sq_init_free_queue_def)
  then show ?thesis
    by (intro sq_invI [of _ _ 0 0 0])
      (use p in \<open>simp_all add: q sq_init_free_queue_def slots_split_def\<close>)
qed

text \<open>Words at a small distance behind \<open>khead\<close>.\<close>

lemma ring_distance:
  assumes "pow2_cap (c::u32) k" and "n \<le> 2 ^ k"
  shows "h + of_nat n - h < c \<longleftrightarrow> n < 2 ^ k" and "unat (h + of_nat n - h) = n"
proof -
  show u: "unat (h + of_nat n - h) = n" using pow2_cap_of_nat [OF assms] by simp
  show "h + of_nat n - h < c \<longleftrightarrow> n < 2 ^ k"
    unfolding word_less_nat_alt u pow2_cap_unat [OF assms(1)] ..
qed

lemma ring_distance_le:
  assumes "pow2_cap (c::u32) k" and "n \<le> 2 ^ k"
  shows "h + of_nat n - h \<le> c"
  using ring_distance(2) [OF assms] pow2_cap_unat [OF assms(1)] assms(2) by (simp only: word_le_nat_alt)

lemma sq_step_take:
  assumes inv: "sq_inv k q" and g: "sq_get_sq_entry cfg q = (Some i, q')"
    and c: "cfg_sqe_reorder cfg" "\<not> cfg_sqe128 cfg"
  shows "sq_inv k (q'\<lparr>held := i # held q\<rparr>)"
proof -
  from inv obtain b t f where v: "pow2_cap (sq_ring_entries q) k"
    "sq_ring_mask q = sq_ring_entries q - 1" "b \<le> t" "t \<le> f" "f \<le> 2 ^ k"
    "sq_ktail q = sq_khead q + of_nat b" "sq_head q = sq_ktail q"
    "sq_tail q = sq_khead q + of_nat t" "sq_free_head q = sq_khead q + of_nat f"
    "length (held q) = f - t"
    "appended q = consumed q @ ring_items (sq_array q) (sq_ring_entries q) (sq_khead q) t"
    "slots_split k q t f"
    by (rule sq_invE)
  have lt: "f < 2 ^ k"
    using g c(1) ring_distance(1) [OF v(1,5), of "sq_khead q"] v(9)
    by (simp add: sq_get_sq_entry_def Let_def split: if_splits)
  have q': "q' = q\<lparr>sq_free_head := sq_free_head q + 1\<rparr>"
    and i: "i = sq_array q (sq_free_head q AND (sq_ring_entries q - 1))"
    using g c v(2) by (auto simp: sq_get_sq_entry_def sqe_shift_def Let_def split: if_splits)
  have "2 ^ k - f = Suc (2 ^ k - Suc f)" using lt by simp
  then have fr: "ring_items (sq_array q) (sq_ring_entries q) (sq_free_head q) (2 ^ k - f)
      = i # ring_items (sq_array q) (sq_ring_entries q) (sq_free_head q + 1) (2 ^ k - Suc f)"
    unfolding i by (simp only: ring_items_Cons)
  show ?thesis
    by (rule sq_invI [of _ _ b t "Suc f"])
      (use v lt fr in \<open>simp_all add: q' Suc_diff_le add_ac slots_split_def\<close>)
qed

lemma sq_step_app:
  assumes inv: "sq_inv k q" and h: "i \<in> set (held q)" and a: "sq_append_sq_entry i q = Inr q'"
  shows "sq_inv k (q'\<lparr>held := remove1 i (held q), appended := appended q @ [i]\<rparr>)"
proof -
  from inv obtain b t f where v: "pow2_cap (sq_ring_entries q) k"
    "sq_ring_mask q = sq_ring_entries q - 1" "b \<le> t" "t \<le> f" "f \<le> 2 ^ k"
    "sq_ktail q = sq_khead q + of_nat b" "sq_head q = sq_ktail q"
    "sq_tail q = sq_khead q + of_nat t" "sq_free_head q = sq_khead q + of_nat f"
    "length (held q) = f - t"
    "appended q = consumed q @ ring_items (sq_array q) (sq_ring_entries q) (sq_khead q) t"
    "slots_split k q t f"
    by (rule sq_invE)
  from h v(10) have tf: "t < f" by (cases "held q") auto
  let ?c = "sq_ring_entries q" and ?h = "sq_khead q"
  let ?arr = "(sq_array q)((?h + of_nat t) AND (?c - 1) := i)"
  have q': "q' = q\<lparr>sq_array := ?arr, sq_tail := sq_tail q + 1\<rparr>"
    using a v(2,8) by (auto simp: sq_append_sq_entry_def Let_def split: if_splits)
  have it: "ring_items ?arr ?c ?h (Suc t) = ring_items (sq_array q) ?c ?h t @ [i]"
    using tf v(5) by (intro ring_items_push [OF v(1)]) simp
  have "(?h + of_nat (f + j)) AND (?c - 1) \<noteq> (?h + of_nat t) AND (?c - 1)" if "j < 2 ^ k - f" for j
    using that tf v(5) ring_index_inj [OF v(1), of "f + j" t ?h] by simp
  then have fr: "ring_items ?arr ?c (sq_free_head q) (2 ^ k - f)
      = ring_items (sq_array q) ?c (sq_free_head q) (2 ^ k - f)"
    unfolding v(9) by (auto simp: ring_items_def add.assoc)
  let ?r = "q'\<lparr>held := remove1 i (held q), appended := appended q @ [i]\<rparr>"
  from h obtain M where M: "mset (held q) = add_mset i M"
    by (metis set_mset_mset multi_member_split)
  then have "slots_split k ?r (Suc t) f"
    using v(12) unfolding slots_split_def by (simp add: q' it fr)
  moreover have "sq_tail ?r = sq_khead ?r + of_nat (Suc t)" using v(8) by (simp add: q' add_ac)
  moreover have "appended ?r = consumed ?r @ ring_items (sq_array ?r) ?c ?h (Suc t)"
    using v(11) by (simp add: q' it)
  ultimately show ?thesis
    by (intro sq_invI [of ?r k b "Suc t" f])
      (use v(1-7,9,10) tf h in \<open>simp_all add: q' length_remove1\<close>)
qed

lemma sq_step_consume:
  assumes inv: "sq_inv k q" and n: "sq_khead q \<noteq> sq_ktail q"
  shows "sq_inv k (q\<lparr>sq_khead := sq_khead q + 1,
    consumed := consumed q @ [sq_array q (sq_khead q AND sq_ring_mask q)]\<rparr>)"
proof -
  from inv obtain b t f where v: "pow2_cap (sq_ring_entries q) k"
    "sq_ring_mask q = sq_ring_entries q - 1" "b \<le> t" "t \<le> f" "f \<le> 2 ^ k"
    "sq_ktail q = sq_khead q + of_nat b" "sq_head q = sq_ktail q"
    "sq_tail q = sq_khead q + of_nat t" "sq_free_head q = sq_khead q + of_nat f"
    "length (held q) = f - t"
    "appended q = consumed q @ ring_items (sq_array q) (sq_ring_entries q) (sq_khead q) t"
    "slots_split k q t f"
    by (rule sq_invE)
  from n v(6) have b: "0 < b" by (cases b) auto
  then obtain b' t' f' where s: "b = Suc b'" "t = Suc t'" "f = Suc f'"
    using v(3,4) by (cases b; cases t; cases f) auto
  let ?c = "sq_ring_entries q" and ?h = "sq_khead q" and ?a = "sq_array q"
  let ?x = "?a (?h AND (?c - 1))"
  have it: "ring_items ?a ?c ?h t = ?x # ring_items ?a ?c (?h + 1) t'"
    unfolding s by (rule ring_items_Cons)
  have "2 ^ k - f' = Suc (2 ^ k - f)" using v(5) s by simp
  moreover have "(sq_free_head q + of_nat (2 ^ k - f)) AND (?c - 1) = ?h AND (?c - 1)"
  proof (rule unsigned_word_eqI [where ?'a = nat])
    have "sq_free_head q + of_nat (2 ^ k - f) = ?h + of_nat (2 ^ k)"
      using v(5,9) by (simp add: of_nat_diff)
    then show "unat ((sq_free_head q + of_nat (2 ^ k - f)) AND (?c - 1)) = unat (?h AND (?c - 1))"
      using unat_ring_index [OF v(1), of ?h "2 ^ k"] unat_ring_index [OF v(1), of ?h 0] by simp
  qed
  ultimately have fr: "ring_items ?a ?c (sq_free_head q) (2 ^ k - f')
      = ring_items ?a ?c (sq_free_head q) (2 ^ k - f) @ [?x]"
    by (simp add: ring_items_Suc)
  show ?thesis
    by (rule sq_invI [of _ _ b' t' f'])
      (use v s it fr in \<open>simp_all add: add_ac slots_split_def\<close>)
qed

lemma sq_step_inv:
  assumes "sq_step cfg q r" and inv: "sq_inv k q" and c: "cfg_sqe_reorder cfg" "\<not> cfg_sqe128 cfg"
  shows "sq_inv k r"
  using assms(1)
proof cases
  case (sq_take i q')
  then show ?thesis using sq_step_take [OF inv _ c] by simp
next
  case (sq_app i q')
  then show ?thesis using sq_step_app [OF inv] by simp
next
  case (sq_flushed n)
  from inv obtain b t f where v: "pow2_cap (sq_ring_entries q) k"
    "sq_ring_mask q = sq_ring_entries q - 1" "b \<le> t" "t \<le> f" "f \<le> 2 ^ k"
    "sq_ktail q = sq_khead q + of_nat b" "sq_head q = sq_ktail q"
    "sq_tail q = sq_khead q + of_nat t" "sq_free_head q = sq_khead q + of_nat f"
    "length (held q) = f - t"
    "appended q = consumed q @ ring_items (sq_array q) (sq_ring_entries q) (sq_khead q) t"
    "slots_split k q t f"
    by (rule sq_invE)
  show ?thesis
  proof (cases "sq_tail q = sq_head q")
    case True
    then have "r = q" using sq_flushed by (simp add: sq_flush_def)
    with inv show ?thesis by simp
  next
    case False
    then have r: "r = q\<lparr>sq_head := sq_tail q, sq_ktail := sq_tail q\<rparr>"
      using sq_flushed by (simp add: sq_flush_def)
    show ?thesis
      by (rule sq_invI [of _ _ t t f]) (use v in \<open>simp_all add: r slots_split_def\<close>)
  qed
next
  case sq_consume
  then show ?thesis using sq_step_consume [OF inv] by simp
qed

lemma sq_reachable_inv:
  "sq_reachable cfg k q \<Longrightarrow> cfg_sqe_reorder cfg \<Longrightarrow> \<not> cfg_sqe128 cfg \<Longrightarrow> sq_inv k q"
  by (induction rule: sq_reachable.induct) (auto intro: sq_inv_fresh sq_step_inv)

section \<open>Properties\<close>

lemma sq_parts:
  assumes "sq_inv k q"
  shows "mset (sq_inflight q) + mset (held q) + mset (sq_free q) = mset (map of_nat [0..<2 ^ k])"
    and "appended q = consumed q @ sq_inflight q"
proof -
  from assms obtain b t f where v: "pow2_cap (sq_ring_entries q) k"
    "sq_ring_mask q = sq_ring_entries q - 1" "b \<le> t" "t \<le> f" "f \<le> 2 ^ k"
    "sq_ktail q = sq_khead q + of_nat b" "sq_head q = sq_ktail q"
    "sq_tail q = sq_khead q + of_nat t" "sq_free_head q = sq_khead q + of_nat f"
    "length (held q) = f - t"
    "appended q = consumed q @ ring_items (sq_array q) (sq_ring_entries q) (sq_khead q) t"
    "slots_split k q t f"
    by (rule sq_invE)
  have t: "unat (sq_tail q - sq_khead q) = t"
    unfolding v(8) by (rule ring_distance(2) [OF v(1) le_trans [OF v(4,5)]])
  have f: "unat (sq_free_head q - sq_khead q) = f"
    unfolding v(9) by (rule ring_distance(2) [OF v(1,5)])
  have "sq_free_head q - sq_khead q \<le> sq_ring_entries q"
    unfolding v(9) by (rule ring_distance_le [OF v(1,5)])
  then have "unat (sq_ring_entries q - (sq_free_head q - sq_khead q)) = 2 ^ k - f"
    using f pow2_cap_unat [OF v(1)] by (simp add: unat_sub)
  with v(12) t show "mset (sq_inflight q) + mset (held q) + mset (sq_free q) = mset (map of_nat [0..<2 ^ k])"
    unfolding slots_split_def sq_inflight_def sq_free_def by simp
  show "appended q = consumed q @ sq_inflight q" using v(11) t by (simp add: sq_inflight_def)
qed

text \<open>C13. No submission slot is used twice on a ring with \<open>sqe_reorder\<close>, as the framework has it, and entries of
  64 bytes (with \<open>IORING_SETUP_SQE128\<close> this is false, \<open>sq_append_sqe128\<close>): in every state that taking, appending (in any
  order), flushing and the kernel's consuming reach, with the positions wrapping around, each slot of
  the ring is in exactly one of three places: in flight between append and consumption, held by
  the application, or free.\<close>

theorem sq_slots_exclusive:
  assumes "sq_reachable cfg k q" and "cfg_sqe_reorder cfg" and "\<not> cfg_sqe128 cfg"
  shows "mset (sq_inflight q) + mset (held q) + mset (sq_free q) = mset (map of_nat [0..<2 ^ k]) \<and>
    distinct (sq_inflight q @ held q @ sq_free q)"
proof -
  note inv = sq_reachable_inv [OF assms]
  note m = sq_parts(1) [OF inv]
  from inv have cap: "pow2_cap (sq_ring_entries q) k" by (rule sq_invE)
  have "inj_on (of_nat :: nat \<Rightarrow> u32) {0..<2 ^ k}"
  proof (rule inj_onI)
    fix x y :: nat assume "x \<in> {0..<2 ^ k}" "y \<in> {0..<2 ^ k}" "(of_nat x :: u32) = of_nat y"
    moreover have "unat (of_nat z :: u32) = z" if "z \<in> {0..<2 ^ k}" for z
      using that by (intro pow2_cap_of_nat [OF cap]) simp
    ultimately show "x = y" by metis
  qed
  then have "distinct (map (of_nat :: nat \<Rightarrow> u32) [0..<2 ^ k])" by (simp add: distinct_map)
  moreover have "mset (sq_inflight q @ held q @ sq_free q) = mset (map of_nat [0..<2 ^ k])"
    using m by (simp add: add.assoc)
  ultimately show ?thesis using m mset_eq_imp_distinct_iff by blast
qed

text \<open>A run on a ring of two entries: take both, append the second first, flush, consume it.\<close>

definition sq_example0 :: sq_sys where
  "sq_example0 = sq_init_free_queue
     \<lparr>sq_head = 0, sq_tail = 0, sq_free_head = 0, sq_khead = 0, sq_ktail = 0, sq_ring_mask = 1,
      sq_ring_entries = 2, sq_kflags = 0, sq_array = (\<lambda>_. 0), held = [], appended = [], consumed = []\<rparr>"

definition sq_example :: sq_sys where
  "sq_example =
     \<lparr>sq_head = 1, sq_tail = 1, sq_free_head = 2, sq_khead = 1, sq_ktail = 1, sq_ring_mask = 1,
      sq_ring_entries = 2, sq_kflags = 0, sq_array = (\<lambda>i. if i < 2 then i else 0)(0 := 1),
      held = [0], appended = [1], consumed = [1]\<rparr>"

definition cfg_reorder :: uring_cfg where
  "cfg_reorder = \<lparr>cfg_sqpoll = False, cfg_iopoll = False, cfg_sqe128 = False, cfg_cqe32 = False,
     cfg_sqe_reorder = True, cfg_reg_fd = True\<rparr>"

lemma cfg_reorder_ok: "cfg_sqe_reorder cfg_reorder" "\<not> cfg_sqe128 cfg_reorder"
  by (simp_all add: cfg_reorder_def)

lemma sq_example_reachable: "sq_reachable cfg_reorder 1 sq_example"
proof -
  have cap: "pow2_cap (2 :: u32) 1" by (simp add: pow2_cap_def)
  have r0: "sq_reachable cfg_reorder 1 sq_example0"
    unfolding sq_example0_def
    by (rule sq_begin) (unfold sq_fresh_def, rule exI, rule conjI [OF refl], use cap in simp)
  note ev = sq_get_sq_entry_def sq_append_sq_entry_def sq_flush_def cfg_reorder_def sq_example0_def
    sq_init_free_queue_def sqe_shift_def Let_def
  let ?q1 = "sq_example0\<lparr>sq_free_head := 1\<rparr>\<lparr>held := 0 # held sq_example0\<rparr>"
  have "sq_step cfg_reorder sq_example0 ?q1"
    by (rule sq_take) (simp_all add: ev)
  with r0 have r1: "sq_reachable cfg_reorder 1 ?q1" by (rule sq_next)
  let ?q2 = "?q1\<lparr>sq_free_head := 2\<rparr>\<lparr>held := 1 # held ?q1\<rparr>"
  have "sq_step cfg_reorder ?q1 ?q2"
    by (rule sq_take) (simp_all add: ev)
  with r1 have r2: "sq_reachable cfg_reorder 1 ?q2" by (rule sq_next)
  let ?q3 = "?q2\<lparr>sq_array := (sq_array ?q2)(0 := 1), sq_tail := 1\<rparr>
    \<lparr>held := remove1 1 (held ?q2), appended := appended ?q2 @ [1]\<rparr>"
  have "sq_step cfg_reorder ?q2 ?q3" by (rule sq_app) (simp_all add: ev)
  with r2 have r3: "sq_reachable cfg_reorder 1 ?q3" by (rule sq_next)
  let ?q4 = "?q3\<lparr>sq_head := 1, sq_ktail := 1\<rparr>"
  have "sq_step cfg_reorder ?q3 ?q4" by (rule sq_flushed [where n = 1]) (simp add: ev)
  with r3 have r4: "sq_reachable cfg_reorder 1 ?q4" by (rule sq_next)
  let ?q5 = "?q4\<lparr>sq_khead := sq_khead ?q4 + 1,
    consumed := consumed ?q4 @ [sq_array ?q4 (sq_khead ?q4 AND sq_ring_mask ?q4)]\<rparr>"
  have "sq_step cfg_reorder ?q4 ?q5" by (rule sq_consume) (simp add: ev)
  with r4 have r5: "sq_reachable cfg_reorder 1 ?q5" by (rule sq_next)
  have "?q5 = sq_example" by (simp add: ev sq_example_def cong: if_cong)
  with r5 show ?thesis by simp
qed

theorem sq_slots_exclusive_witness:
  "distinct (sq_inflight sq_example @ held sq_example @ sq_free sq_example) \<and>
   held sq_example = [0] \<and> set (sq_free sq_example) = {1}"
proof -
  have "sq_free sq_example = [1]"
    by (simp add: sq_free_def sq_example_def ring_items_def)
  with sq_slots_exclusive [OF sq_example_reachable cfg_reorder_ok] show ?thesis by (simp add: sq_example_def)
qed

text \<open>The kernel sees the requests in the order in which they were appended, whatever the order
  in which their slots were taken: what it has consumed is a prefix of what was appended and
  the rest is in the ring; and it is never shown a slot that was not appended.\<close>

theorem sq_append_order:
  assumes "sq_reachable cfg k q" and "cfg_sqe_reorder cfg" and "\<not> cfg_sqe128 cfg"
  shows "appended q = consumed q @ sq_inflight q \<and>
    unat (sq_ktail q - sq_khead q) \<le> length (sq_inflight q) \<and>
    (sq_khead q \<noteq> sq_ktail q \<longrightarrow>
      sq_inflight q \<noteq> [] \<and> sq_array q (sq_khead q AND sq_ring_mask q) = hd (sq_inflight q))"
proof -
  note inv = sq_reachable_inv [OF assms]
  from inv obtain b t f where v: "pow2_cap (sq_ring_entries q) k"
    "sq_ring_mask q = sq_ring_entries q - 1" "b \<le> t" "t \<le> f" "f \<le> 2 ^ k"
    "sq_ktail q = sq_khead q + of_nat b" "sq_head q = sq_ktail q"
    "sq_tail q = sq_khead q + of_nat t" "sq_free_head q = sq_khead q + of_nat f"
    "length (held q) = f - t"
    "appended q = consumed q @ ring_items (sq_array q) (sq_ring_entries q) (sq_khead q) t"
    "slots_split k q t f"
    by (rule sq_invE)
  have t: "unat (sq_tail q - sq_khead q) = t"
    unfolding v(8) by (rule ring_distance(2) [OF v(1) le_trans [OF v(4,5)]])
  have b: "unat (sq_ktail q - sq_khead q) = b"
    unfolding v(6) by (rule ring_distance(2) [OF v(1) le_trans [OF v(3) le_trans [OF v(4,5)]]])
  have "sq_array q (sq_khead q AND sq_ring_mask q) = hd (sq_inflight q) \<and> sq_inflight q \<noteq> []"
    if "sq_khead q \<noteq> sq_ktail q"
  proof -
    from that v(6) have "0 < b" by (cases b) auto
    with v(3) obtain t' where "t = Suc t'" by (cases t) auto
    then show ?thesis
      using t by (simp add: sq_inflight_def ring_items_Cons v(2))
  qed
  then show ?thesis using sq_parts(2) [OF inv] b t v(3) by (simp add: sq_inflight_def)
qed

theorem sq_append_order_witness:
  "appended sq_example = consumed sq_example @ sq_inflight sq_example \<and> consumed sq_example = [1]"
  using sq_append_order [OF sq_example_reachable cfg_reorder_ok] by (simp add: sq_example_def)

text \<open>With 128-byte entries the order cannot be chosen: the entry that \<open>get_sq_entry\<close> returns
  for slot \<open>i\<close> is the one at offset \<open>2 * i\<close>, and \<open>append_sq_entry\<close> stores that offset as the slot
  number, so the kernel is told to run slot \<open>2 * i\<close>, another one than \<open>i\<close> unless \<open>i\<close> is 0.\<close>

theorem sq_append_sqe128:
  assumes "cfg_sqe128 cfg" and "cfg_sqe_reorder cfg"
    and "sq_get_sq_entry cfg q = (Some e, q')" and "sq_append_sq_entry e q' = Inr r"
    and "i = sq_array q (sq_free_head q AND sq_ring_mask q)" and "i < 2 ^ 31"
  shows "sq_array r (sq_tail q AND sq_ring_mask q) = 2 * i \<and> (2 * i = i \<longleftrightarrow> i = 0)"
proof -
  have "e = 2 * i" "q' = q\<lparr>sq_free_head := sq_free_head q + 1\<rparr>"
    using assms(1-3,5)
    by (auto simp: sq_get_sq_entry_def sqe_shift_def Let_def push_bit_eq_mult split: if_splits)
  moreover from this have "sq_array r (sq_tail q AND sq_ring_mask q) = e"
    using assms(4) by (auto simp: sq_append_sq_entry_def Let_def split: if_splits)
  ultimately show ?thesis by simp
qed

theorem sq_append_sqe128_witness:
  "\<exists>(q :: sq_sys) e r. sq_append_sq_entry e q = Inr r \<and> sq_array r 0 = 2 \<and> sq_array sq_example 0 = 1"
proof -
  let ?q = "sq_example\<lparr>sq_free_head := 2, sq_tail := 2\<rparr>"
  have g: "sq_get_sq_entry (cfg_reorder\<lparr>cfg_sqe128 := True\<rparr>) ?q = (Some 2, ?q\<lparr>sq_free_head := 3\<rparr>)"
    by (simp add: sq_get_sq_entry_def cfg_reorder_def sq_example_def sqe_shift_def Let_def)
  obtain r where r: "sq_append_sq_entry 2 (?q\<lparr>sq_free_head := 3\<rparr>) = Inr r"
    by (simp add: sq_append_sq_entry_def sq_example_def Let_def)
  have "sq_array r (sq_tail ?q AND sq_ring_mask ?q) = 2 * 1 \<and> (2 * 1 = (1 :: u32) \<longleftrightarrow> (1 :: u32) = 0)"
    by (rule sq_append_sqe128 [OF _ _ g r]) (simp_all add: cfg_reorder_def sq_example_def)
  with r show ?thesis by (auto simp: sq_example_def)
qed

end
