(* ===== verification/Cq_Ring.thy ===== *)
theory Cq_Ring
  imports Sq_Ring
begin

text \<open>
  The completion queue of \<^verbatim>\<open>extern/liburingcxx/include/uring/detail/cq.hpp\<close> and the part of
  \<^verbatim>\<open>uring.hpp\<close> that reads it. The kernel writes entries and \<open>ktail\<close>, the application writes
  \<open>khead\<close>. Every acquire load of \<open>ktail\<close> is preceded by a call of the parameter \<open>post\<close>, which
  is what the kernel did to the shared memory since the last one; \<open>posts\<close> says what a kernel
  may do there: add entries behind the ones that are not yet consumed.
\<close>

section \<open>State\<close>

record cqe =
  cqe_user_data :: u64
  cqe_res :: u32
  cqe_flags :: u32

record cq =
  cq_khead :: u32
  cq_ktail :: u32
  cq_ring_mask :: u32
  cq_ring_entries :: u32
  cq_cqes :: "u32 \<Rightarrow> cqe"

text \<open>The ring; what a kernel keeps for itself is the extension of the record.\<close>

record uring =
  ring_sq :: sq
  ring_sqes :: "u32 \<Rightarrow> sqe"
  ring_cq :: cq
  ring_fd :: u32
  ring_features :: u32
  ring_enter_fd :: u32
  ring_int_flags :: u8

type_synonym 'z kernel_post = "'z uring_scheme \<Rightarrow> 'z uring_scheme"

abbreviation (input) IORING_FEAT_SINGLE_MMAP :: u32 where "IORING_FEAT_SINGLE_MMAP \<equiv> 1"
abbreviation (input) IORING_FEAT_EXT_ARG :: u32 where "IORING_FEAT_EXT_ARG \<equiv> 256"
abbreviation (input) LIBURING_UDATA_TIMEOUT :: u64 where "LIBURING_UDATA_TIMEOUT \<equiv> - 1"

section \<open>Operations\<close>

definition cqe_off :: "uring_cfg \<Rightarrow> cq \<Rightarrow> u32 \<Rightarrow> u32" where
  "cqe_off cfg c i = (if cfg_cqe32 cfg then push_bit 1 (i AND cq_ring_mask c) else i AND cq_ring_mask c)"

definition cqe_at :: "uring_cfg \<Rightarrow> cq \<Rightarrow> u32 \<Rightarrow> cqe" where
  "cqe_at cfg c i = cq_cqes c (cqe_off cfg c i)"

definition cq_ready_relaxed :: "'z uring_scheme \<Rightarrow> u32" where
  "cq_ready_relaxed r = cq_ktail (ring_cq r) - cq_khead (ring_cq r)"

definition cq_ready_acquire :: "'z kernel_post \<Rightarrow> 'z uring_scheme \<Rightarrow> u32 \<times> 'z uring_scheme" where
  "cq_ready_acquire post r = (let r = post r in (cq_ktail (ring_cq r) - cq_khead (ring_cq r), r))"

definition cq_store_head :: "u32 \<Rightarrow> 'z uring_scheme \<Rightarrow> 'z uring_scheme" where
  "cq_store_head n r = r\<lparr>ring_cq := (ring_cq r)\<lparr>cq_khead := cq_khead (ring_cq r) + n\<rparr>\<rparr>"

definition cq_advance :: "u32 \<Rightarrow> 'z uring_scheme \<Rightarrow> 'z uring_scheme result" where
  "cq_advance n r = (if n > 0 then Inr (cq_store_head n r) else Inl AssertFail)"

definition seen_cq_entry :: "u32 option \<Rightarrow> 'z uring_scheme \<Rightarrow> 'z uring_scheme result" where
  "seen_cq_entry p r = (if p = None then Inl AssertFail else cq_advance 1 r)"

text \<open>
  The callable \<open>f\<close> may act on the ring, whose head the worker advances in it, and on the state
  \<open>s\<close> of the application; it may fail.
\<close>

type_synonym ('z, 's) cqe_fun = "cqe \<Rightarrow> 'z uring_scheme \<Rightarrow> 's \<Rightarrow> ('z uring_scheme \<times> 's) result"

partial_function (option) for_each_loop ::
  "'z kernel_post \<Rightarrow> ('z, 's) cqe_fun \<Rightarrow> uring_cfg \<Rightarrow> u32 \<Rightarrow> u32 \<Rightarrow> 'z uring_scheme \<Rightarrow> 's \<Rightarrow>
   (u32 \<times> 'z uring_scheme \<times> 's) result option" where
  "for_each_loop post f cfg head cnt r s =
     (let r = post r in
      if head = cq_ktail (ring_cq r) then Some (Inr (cnt, r, s))
      else (case f (cqe_at cfg (ring_cq r) head) r s of
              Inl e \<Rightarrow> Some (Inl e)
            | Inr (r, s) \<Rightarrow> for_each_loop post f cfg (head + 1) (cnt + 1) r s))"

definition for_each_cqe ::
  "'z kernel_post \<Rightarrow> ('z, 's) cqe_fun \<Rightarrow> uring_cfg \<Rightarrow> 'z uring_scheme \<Rightarrow> 's \<Rightarrow>
   (u32 \<times> 'z uring_scheme \<times> 's) result option" where
  "for_each_cqe post f cfg r s = for_each_loop post f cfg (cq_khead (ring_cq r)) 0 r s"

text \<open>
  \<open>__peek_cq_entry\<close> returns the entry, the number of entries that were available and an error;
  a completion of the library's own timeout request is skipped, and its error returned.
\<close>

definition own_timeout :: "'z uring_scheme \<Rightarrow> cqe \<Rightarrow> bool" where
  "own_timeout r e \<longleftrightarrow> ring_features r AND IORING_FEAT_EXT_ARG = 0 \<and>
     cqe_user_data e = LIBURING_UDATA_TIMEOUT"

partial_function (option) peek_loop ::
  "'z kernel_post \<Rightarrow> uring_cfg \<Rightarrow> 'z uring_scheme \<Rightarrow> (u32 option \<times> u32 \<times> u32 \<times> 'z uring_scheme) option" where
  "peek_loop post cfg r =
     (let r = post r; head = cq_khead (ring_cq r); available = cq_ktail (ring_cq r) - head in
      if available = 0 then Some (None, 0, 0, r)
      else
        (let p = cqe_off cfg (ring_cq r) head; e = cq_cqes (ring_cq r) p in
         if own_timeout r e then
           (let err = (if sint (cqe_res e) < 0 then cqe_res e else 0); r = cq_store_head 1 r in
            if err = 0 then peek_loop post cfg r else Some (None, available, err, r))
         else Some (Some p, available, 0, r)))"

section \<open>What is in the queue\<close>

text \<open>The ring is a power of two, the mask belongs to it, and it holds at most that many entries.\<close>

definition cq_wf :: "cq \<Rightarrow> bool" where
  "cq_wf c \<longleftrightarrow> (\<exists>k. pow2_cap (cq_ring_entries c) k) \<and> cq_ring_mask c = cq_ring_entries c - 1 \<and>
     cq_ktail c - cq_khead c \<le> cq_ring_entries c"

definition cq_avail :: "cq \<Rightarrow> nat" where
  "cq_avail c = unat (cq_ktail c - cq_khead c)"

definition cq_items :: "uring_cfg \<Rightarrow> cq \<Rightarrow> cqe list" where
  "cq_items cfg c = map (\<lambda>i. cqe_at cfg c (cq_khead c + of_nat i)) [0..<cq_avail c]"

definition posts :: "uring_cfg \<Rightarrow> 'z uring_scheme \<Rightarrow> 'z uring_scheme \<Rightarrow> bool" where
  "posts cfg r r' \<longleftrightarrow> cq_wf (ring_cq r') \<and> cq_khead (ring_cq r') = cq_khead (ring_cq r) \<and>
     cq_ring_entries (ring_cq r') = cq_ring_entries (ring_cq r) \<and> ring_features r' = ring_features r \<and>
     (\<exists>new. cq_items cfg (ring_cq r') = cq_items cfg (ring_cq r) @ new)"

definition only_posts :: "uring_cfg \<Rightarrow> 'z kernel_post \<Rightarrow> bool" where
  "only_posts cfg post \<longleftrightarrow> (\<forall>r. cq_wf (ring_cq r) \<longrightarrow> posts cfg r (post r))"

lemma length_cq_items [simp]: "length (cq_items cfg c) = cq_avail c"
  by (simp add: cq_items_def)

lemma cq_items_nth: "i < cq_avail c \<Longrightarrow> cq_items cfg c ! i = cqe_at cfg c (cq_khead c + of_nat i)"
  by (simp add: cq_items_def)

lemma cq_avail_0: "cq_avail c = 0 \<longleftrightarrow> cq_ktail c = cq_khead c"
  by (simp add: cq_avail_def unat_eq_0)

lemma cq_wf_avail: "cq_wf c \<Longrightarrow> cq_avail c \<le> unat (cq_ring_entries c)"
  by (simp add: cq_wf_def cq_avail_def word_le_nat_alt)

lemma cq_at_tail:
  assumes "n \<le> cq_avail c"
  shows "cq_khead c + of_nat n = cq_ktail c \<longleftrightarrow> n = cq_avail c"
proof
  assume "cq_khead c + of_nat n = cq_ktail c"
  then have "cq_avail c = unat (of_nat n :: u32)" by (simp add: cq_avail_def flip: \<open>_ = cq_ktail c\<close>)
  moreover have "cq_avail c < 2 ^ LENGTH(32)" unfolding cq_avail_def by (rule unsigned_less)
  then have "n < 2 ^ LENGTH(32)" using assms by (rule le_less_trans [rotated])
  ultimately show "n = cq_avail c" using unat_of_nat_fits [where 'l = 32, of n] by simp
qed (simp add: cq_avail_def)

lemma only_postsD: "only_posts cfg post \<Longrightarrow> cq_wf (ring_cq r) \<Longrightarrow> posts cfg r (post r)"
  by (simp add: only_posts_def)

lemma posts_items: "posts cfg r s \<Longrightarrow> \<exists>new. cq_items cfg (ring_cq s) = cq_items cfg (ring_cq r) @ new"
  by (simp add: posts_def)

lemma posts_refl: "cq_wf (ring_cq r) \<Longrightarrow> posts cfg r r"
  by (simp add: posts_def)

lemma posts_trans: "posts cfg r s \<Longrightarrow> posts cfg s t \<Longrightarrow> posts cfg r t"
  by (auto simp: posts_def)

lemma posts_avail: "posts cfg r s \<Longrightarrow> cq_avail (ring_cq r) \<le> cq_avail (ring_cq s)"
  unfolding posts_def by (metis length_cq_items length_append le_add1)

lemma posts_nth:
  assumes "posts cfg r s" and "i < cq_avail (ring_cq r)"
  shows "cq_items cfg (ring_cq s) ! i = cq_items cfg (ring_cq r) ! i"
  using assms by (auto simp: posts_def nth_append)

lemma posts_take:
  assumes "posts cfg r s" and "n \<le> cq_avail (ring_cq r)"
  shows "take n (cq_items cfg (ring_cq s)) = take n (cq_items cfg (ring_cq r))"
  using assms by (auto simp: posts_def)

text \<open>Advancing by one drops the oldest entry.\<close>

lemma cq_store_head_items:
  assumes "cq_wf (ring_cq r)" and "cq_avail (ring_cq r) = Suc n"
  shows "cq_wf (ring_cq (cq_store_head 1 r))" and "cq_avail (ring_cq (cq_store_head 1 r)) = n"
    and "cq_items cfg (ring_cq (cq_store_head 1 r)) = tl (cq_items cfg (ring_cq r))"
proof -
  let ?c = "ring_cq r"
  have "cq_ktail ?c - cq_khead ?c \<noteq> 0" using assms(2) by (auto simp: cq_avail_def)
  then have u: "unat (cq_ktail ?c - (cq_khead ?c + 1)) = n"
    using assms(2) unat_minus_one [of "cq_ktail ?c - cq_khead ?c"]
    unfolding cq_avail_def diff_diff_eq by simp
  then show n: "cq_avail (ring_cq (cq_store_head 1 r)) = n"
    by (simp add: cq_store_head_def cq_avail_def)
  show "cq_wf (ring_cq (cq_store_head 1 r))"
    using assms u by (simp add: cq_wf_def cq_store_head_def cq_avail_def word_le_nat_alt)
  show "cq_items cfg (ring_cq (cq_store_head 1 r)) = tl (cq_items cfg ?c)"
    by (rule nth_equalityI)
      (simp_all add: n assms(2) cq_items_nth nth_tl, simp add: cqe_at_def cqe_off_def
        cq_store_head_def add_ac)
qed

section \<open>Reading the queue\<close>

text \<open>A callable that only acts on the state, and one that also advances the head, as the worker's
  does.\<close>

definition plain_fun :: "(cqe \<Rightarrow> 's \<Rightarrow> 's) \<Rightarrow> ('z, 's) cqe_fun" where
  "plain_fun g e r s = Inr (r, g e s)"

definition seen_fun :: "(cqe \<Rightarrow> 's \<Rightarrow> 's result) \<Rightarrow> ('z, 's) cqe_fun" where
  "seen_fun g e r s = (case g e s of Inl x \<Rightarrow> Inl x | Inr s \<Rightarrow> Inr (cq_store_head 1 r, s))"

primrec fold_result :: "('e \<Rightarrow> 's \<Rightarrow> 's result) \<Rightarrow> 'e list \<Rightarrow> 's \<Rightarrow> 's result" where
  "fold_result g [] s = Inr s"
| "fold_result g (e # es) s = (case g e s of Inl x \<Rightarrow> Inl x | Inr s \<Rightarrow> fold_result g es s)"

text \<open>
  With a callable that leaves the ring alone the loop ends whatever the kernel posts meanwhile,
  because \<open>khead\<close> stays and the ring does not grow: from entry \<open>n\<close> on at most as many iterations
  remain as the ring has other places.
\<close>

lemma for_each_loop_spec:
  assumes k: "only_posts cfg post" and "cq_wf (ring_cq r)" and "n \<le> cq_avail (ring_cq r)"
    and "h = cq_khead (ring_cq r) + of_nat n" and "m = unat (cq_ring_entries (ring_cq r)) - n"
  shows "\<exists>r'. posts cfg r r' \<and>
    for_each_loop post (plain_fun g) cfg h (of_nat n) r s =
      Some (Inr (of_nat (cq_avail (ring_cq r')), r', fold g (drop n (cq_items cfg (ring_cq r'))) s))"
  using assms(2-)
proof (induction m arbitrary: n h r s)
  case (0 n h r s)
  let ?r = "post r"
  have p: "posts cfg r ?r" using k 0(1) by (rule only_postsD)
  with 0 have "n = cq_avail (ring_cq ?r)"
    using posts_avail [OF p] cq_wf_avail [of "ring_cq ?r"] by (auto simp: posts_def)
  moreover from this have "h = cq_ktail (ring_cq ?r)"
    using cq_at_tail [of n "ring_cq ?r"] p 0(3) by (simp add: posts_def)
  ultimately show ?case
    by (intro exI [of _ ?r]) (simp add: p, subst for_each_loop.simps, simp add: Let_def)
next
  case (Suc m n h r s)
  let ?r = "post r"
  have p: "posts cfg r ?r" using k Suc(2) by (rule only_postsD)
  then have n: "n \<le> cq_avail (ring_cq ?r)" using posts_avail [OF p] Suc(3) by simp
  have h: "h = cq_khead (ring_cq ?r) + of_nat n" using p Suc(4) by (simp add: posts_def)
  show ?case
  proof (cases "n = cq_avail (ring_cq ?r)")
    case True
    then have "h = cq_ktail (ring_cq ?r)" using cq_at_tail [OF n] h by simp
    with True show ?thesis
      by (intro exI [of _ ?r]) (simp add: p, subst for_each_loop.simps, simp add: Let_def)
  next
    case False
    then have lt: "n < cq_avail (ring_cq ?r)" using n by simp
    let ?s = "g (cqe_at cfg (ring_cq ?r) h) s"
    have "h \<noteq> cq_ktail (ring_cq ?r)" using cq_at_tail [OF n] h False by simp
    then have step: "for_each_loop post (plain_fun g) cfg h (of_nat n) r s =
        for_each_loop post (plain_fun g) cfg (h + 1) (of_nat (Suc n)) ?r ?s"
      by (subst for_each_loop.simps) (simp add: Let_def add_ac plain_fun_def)
    have e: "cqe_at cfg (ring_cq ?r) h = cq_items cfg (ring_cq ?r) ! n"
      unfolding h by (rule cq_items_nth [OF lt, symmetric])
    have "cq_wf (ring_cq ?r)" "m = unat (cq_ring_entries (ring_cq ?r)) - Suc n"
      using p Suc(5) by (auto simp: posts_def)
    moreover have "h + 1 = cq_khead (ring_cq ?r) + of_nat (Suc n)" by (simp add: h add_ac)
    ultimately obtain r' where p': "posts cfg ?r r'"
      and res: "for_each_loop post (plain_fun g) cfg (h + 1) (of_nat (Suc n)) ?r ?s =
        Some (Inr (of_nat (cq_avail (ring_cq r')), r',
          fold g (drop (Suc n) (cq_items cfg (ring_cq r'))) ?s))"
      using Suc.IH [of ?r "Suc n" "h + 1" ?s] Suc_leI [OF lt] by blast
    have "n < cq_avail (ring_cq r')" using posts_avail [OF p'] lt by simp
    then have "drop n (cq_items cfg (ring_cq r')) =
        cqe_at cfg (ring_cq ?r) h # drop (Suc n) (cq_items cfg (ring_cq r'))"
      unfolding e posts_nth [OF p' lt, symmetric] by (intro Cons_nth_drop_Suc [symmetric]) simp
    then show ?thesis
      using posts_trans [OF p p'] res step by (intro exI [of _ r']) simp
  qed
qed

lemma cq_items_empty: "cq_items cfg c = [] \<longleftrightarrow> cq_ktail c = cq_khead c"
  by (metis cq_avail_0 length_0_conv length_cq_items)

text \<open>Advancing by the number of all entries.\<close>

lemma cq_advance_all:
  assumes "cq_wf (ring_cq r)" and "cq_avail (ring_cq r) > 0"
  shows "\<exists>r'. cq_advance (of_nat (cq_avail (ring_cq r))) r = Inr r' \<and> cq_items cfg (ring_cq r') = [] \<and>
    cq_wf (ring_cq r')"
proof -
  let ?c = "ring_cq r"
  have n: "of_nat (cq_avail ?c) = cq_ktail ?c - cq_khead ?c" by (simp add: cq_avail_def)
  have "cq_ktail ?c - cq_khead ?c > 0" using assms(2) by (simp add: cq_avail_def word_less_nat_alt)
  then show ?thesis
    using assms(1) unfolding n
    by (auto simp: cq_advance_def cq_store_head_def cq_items_empty cq_wf_def)
qed

text \<open>C14. \<open>for_each_cqe\<close> with a callable that does not touch the ring ends whatever the kernel posts
  while it runs, calls it once on every entry that is then in the queue, in order and beginning
  with the oldest, and returns how many these were; \<open>cq_advance\<close> by that number then empties
  exactly what was seen.\<close>

theorem for_each_cqe_spec:
  assumes "only_posts cfg post" and "cq_wf (ring_cq r)"
  shows "\<exists>r'. posts cfg r r' \<and>
    for_each_cqe post (plain_fun g) cfg r s =
      Some (Inr (of_nat (length (cq_items cfg (ring_cq r'))), r', fold g (cq_items cfg (ring_cq r')) s)) \<and>
    (cq_items cfg (ring_cq r') \<noteq> [] \<longrightarrow>
      (\<exists>r''. cq_advance (of_nat (length (cq_items cfg (ring_cq r')))) r' = Inr r'' \<and>
        cq_items cfg (ring_cq r'') = []))"
proof -
  obtain r' where p: "posts cfg r r'"
    and l: "for_each_loop post (plain_fun g) cfg (cq_khead (ring_cq r)) (of_nat 0) r s =
      Some (Inr (of_nat (cq_avail (ring_cq r')), r', fold g (drop 0 (cq_items cfg (ring_cq r'))) s))"
    using for_each_loop_spec [OF assms, of 0 "cq_khead (ring_cq r)" _ g s] by auto
  from p have "cq_wf (ring_cq r')" by (simp add: posts_def)
  then have "cq_items cfg (ring_cq r') \<noteq> [] \<longrightarrow>
      (\<exists>r''. cq_advance (of_nat (cq_avail (ring_cq r'))) r' = Inr r'' \<and> cq_items cfg (ring_cq r'') = [])"
    using cq_advance_all [of r' cfg] by (auto simp: cq_items_empty cq_avail_0 neq0_conv [symmetric])
  with p l show ?thesis by (intro exI [of _ r']) (simp add: for_each_cqe_def)
qed

text \<open>A ring of four places with the tail of its cursors at the wrap-around of the word.\<close>

definition cqe_of :: "u64 \<Rightarrow> u32 \<Rightarrow> cqe" where
  "cqe_of d res = \<lparr>cqe_user_data = d, cqe_res = res, cqe_flags = 0\<rparr>"

definition cfg_plain :: uring_cfg where
  "cfg_plain = \<lparr>cfg_sqpoll = False, cfg_iopoll = False, cfg_sqe128 = False, cfg_cqe32 = False,
     cfg_sqe_reorder = False, cfg_reg_fd = True\<rparr>"

definition cq_example :: cq where
  "cq_example = \<lparr>cq_khead = - 1, cq_ktail = 1, cq_ring_mask = 3, cq_ring_entries = 4,
     cq_cqes = (\<lambda>i. if i = 3 then cqe_of (- 1) 0 else cqe_of 7 5)\<rparr>"

definition uring_example :: uring where
  "uring_example = \<lparr>ring_sq = \<lparr>sq_head = 0, sq_tail = 0, sq_free_head = 0, sq_khead = 0, sq_ktail = 0,
       sq_ring_mask = 1, sq_ring_entries = 2, sq_kflags = 0, sq_array = (\<lambda>_. 0)\<rparr>,
     ring_sqes = (\<lambda>_. sqe_example), ring_cq = cq_example, ring_fd = 3, ring_features = 0,
     ring_enter_fd = 3, ring_int_flags = 0\<rparr>"

lemma only_posts_id: "only_posts cfg (\<lambda>r. r)"
  by (simp add: only_posts_def posts_refl)

lemma cq_example_wf: "cq_wf (ring_cq uring_example)"
proof -
  have "pow2_cap (4 :: u32) 2" by (simp add: pow2_cap_def)
  then show ?thesis
    unfolding cq_wf_def by (intro conjI exI [of _ 2]) (simp_all add: uring_example_def cq_example_def)
qed

lemma cq_example_items: "cq_items cfg_plain (ring_cq uring_example) = [cqe_of (- 1) 0, cqe_of 7 5]"
  by (simp add: cq_items_def cq_avail_def uring_example_def cq_example_def cqe_at_def cqe_off_def
      cfg_plain_def upt_rec)

theorem for_each_cqe_spec_witness:
  "\<exists>r'. for_each_cqe (\<lambda>r. r) (plain_fun (\<lambda>e l. l @ [cqe_user_data e])) cfg_plain uring_example [] =
    Some (Inr (of_nat (length (cq_items cfg_plain (ring_cq r'))), r',
      fold (\<lambda>e l. l @ [cqe_user_data e]) (cq_items cfg_plain (ring_cq r')) []))"
  using for_each_cqe_spec [OF only_posts_id cq_example_wf,
      of cfg_plain "\<lambda>e l. l @ [cqe_user_data e]" "[]"] by blast

section \<open>Consuming while reading\<close>

text \<open>
  When the callable marks each entry as seen the kernel gets its place back and may post again,
  so the loop ends only because the kernel runs out of requests: \<open>inside\<close> bounds the completions
  that it can still post.
\<close>

definition finite_kernel :: "('z uring_scheme \<Rightarrow> nat) \<Rightarrow> 'z kernel_post \<Rightarrow> bool" where
  "finite_kernel inside post \<longleftrightarrow>
     (\<forall>r. cq_wf (ring_cq r) \<longrightarrow> inside (post r) + cq_avail (ring_cq (post r)) \<le> inside r + cq_avail (ring_cq r)) \<and>
     (\<forall>r. inside (cq_store_head 1 r) = inside r)"

text \<open>The completions that arrive at a reader that takes them one by one until it finds the queue empty: \<open>post\<close> is what
  the kernel does before each look at the queue. They do not depend on what the reader does with them.\<close>

inductive arrivals :: "'z kernel_post \<Rightarrow> uring_cfg \<Rightarrow> 'z uring_scheme \<Rightarrow> cqe list \<Rightarrow> 'z uring_scheme \<Rightarrow> bool"
  for post cfg where
  arrivals_end: "cq_items cfg (ring_cq (post r)) = [] \<Longrightarrow> arrivals post cfg r [] (post r)"
| arrivals_next: "cq_items cfg (ring_cq (post r)) = e # rest \<Longrightarrow>
     arrivals post cfg (cq_store_head 1 (post r)) es r' \<Longrightarrow> arrivals post cfg r (e # es) r'"

lemma arrivals_exist:
  assumes k: "only_posts cfg post" and f: "finite_kernel inside post"
    and "cq_wf (ring_cq r)" and "inside r + cq_avail (ring_cq r) = m"
  shows "\<exists>es new r'. arrivals post cfg r es r' \<and> es = cq_items cfg (ring_cq r) @ new \<and> length es \<le> m \<and>
    cq_items cfg (ring_cq r') = [] \<and> cq_wf (ring_cq r') \<and> inside r' \<le> m"
  using assms(3-)
proof (induction m arbitrary: r rule: less_induct)
  case (less m r)
  let ?r = "post r"
  have p: "posts cfg r ?r" by (rule only_postsD [OF k less(2)])
  then obtain new where new: "cq_items cfg (ring_cq ?r) = cq_items cfg (ring_cq r) @ new"
    using posts_items [OF p] by blast
  have wf: "cq_wf (ring_cq ?r)" using p by (simp add: posts_def)
  show ?case
  proof (cases "cq_items cfg (ring_cq ?r)")
    case Nil
    moreover have "inside ?r \<le> m" using f less(2,3) by (auto simp: finite_kernel_def)
    ultimately show ?thesis using new wf arrivals_end [of cfg post r] by (intro exI [of _ "[]"] exI [of _ ?r]) auto
  next
    case (Cons e es)
    have av: "cq_avail (ring_cq ?r) = Suc (length es)" using Cons by (metis length_Cons length_cq_items)
    note adv = cq_store_head_items(1,2) [OF wf av] cq_store_head_items(3) [OF wf av, of cfg]
    let ?r1 = "cq_store_head 1 ?r"
    have le: "inside ?r1 + Suc (length es) \<le> m" using f less(2,3) av by (auto simp: finite_kernel_def)
    then have "inside ?r1 + cq_avail (ring_cq ?r1) < m" using adv(2) by simp
    from less.IH [OF this adv(1) refl] obtain es1 new1 r' where 1: "arrivals post cfg ?r1 es1 r'"
      "es1 = cq_items cfg (ring_cq ?r1) @ new1" "length es1 \<le> inside ?r1 + cq_avail (ring_cq ?r1)"
      "cq_items cfg (ring_cq r') = []" "cq_wf (ring_cq r')" "inside r' \<le> inside ?r1 + cq_avail (ring_cq ?r1)" by blast
    have "e # es1 = cq_items cfg (ring_cq r) @ (new @ new1)" using adv(3) Cons new 1(2) by simp
    moreover have "length (e # es1) \<le> m" "inside r' \<le> m" using 1(3,6) le adv(2) by simp_all
    ultimately show ?thesis using arrivals_next [where es = es1, OF Cons 1(1)] 1(4,5) by blast
  qed
qed

lemma for_each_arrivals:
  assumes "arrivals post cfg r es r'" and "only_posts cfg post" and "cq_wf (ring_cq r)"
  shows "for_each_loop post (seen_fun g) cfg (cq_khead (ring_cq r)) c r s =
    Some (case fold_result g es s of Inl x \<Rightarrow> Inl x | Inr s' \<Rightarrow> Inr (c + of_nat (length es), r', s'))"
  using assms(1,3)
proof (induction arbitrary: c s rule: arrivals.induct)
  case (arrivals_end r)
  have "cq_khead (ring_cq (post r)) = cq_khead (ring_cq r)" using only_postsD [OF assms(2) arrivals_end(2)] by (simp add: posts_def)
  with arrivals_end(1) show ?case by (subst for_each_loop.simps) (simp add: Let_def cq_items_empty)
next
  case (arrivals_next r e rest es r')
  let ?r = "post r" and ?h = "cq_khead (ring_cq r)"
  have p: "posts cfg r ?r" by (rule only_postsD [OF assms(2) arrivals_next(4)])
  then have wf: "cq_wf (ring_cq ?r)" and hd: "?h = cq_khead (ring_cq ?r)" by (simp_all add: posts_def)
  have av: "cq_avail (ring_cq ?r) = Suc (length rest)" using arrivals_next(1) by (metis length_Cons length_cq_items)
  have at: "cqe_at cfg (ring_cq ?r) ?h = e" using cq_items_nth [of 0 "ring_cq ?r" cfg] arrivals_next(1) av hd by simp
  have ne: "?h \<noteq> cq_ktail (ring_cq ?r)" using arrivals_next(1) hd cq_items_empty [of cfg "ring_cq ?r"] by auto
  have h1: "?h + 1 = cq_khead (ring_cq (cq_store_head 1 ?r))" by (simp add: hd cq_store_head_def)
  show ?case
  proof (cases "g e s")
    case (Inl x)
    then show ?thesis using ne at by (subst for_each_loop.simps) (simp add: Let_def seen_fun_def)
  next
    case (Inr s1)
    then have "for_each_loop post (seen_fun g) cfg ?h c r s =
        for_each_loop post (seen_fun g) cfg (?h + 1) (c + 1) (cq_store_head 1 ?r) s1"
      using ne at by (subst for_each_loop.simps) (simp add: Let_def seen_fun_def)
    then show ?thesis using arrivals_next(3) [OF cq_store_head_items(1) [OF wf av]] h1 Inr
      by (simp add: add.assoc split: sum.split)
  qed
qed

lemma for_each_seen_spec:
  assumes k: "only_posts cfg post" and f: "finite_kernel inside post"
    and "cq_wf (ring_cq r)" and "inside r + cq_avail (ring_cq r) = m" and "h = cq_khead (ring_cq r)"
  shows "\<exists>es new. es = cq_items cfg (ring_cq r) @ new \<and> length es \<le> m \<and>
    (case fold_result g es s of
       Inr s' \<Rightarrow> \<exists>r'. for_each_loop post (seen_fun g) cfg h c r s = Some (Inr (c + of_nat (length es), r', s')) \<and>
         cq_items cfg (ring_cq r') = [] \<and> cq_wf (ring_cq r') \<and> inside r' \<le> m
     | Inl x \<Rightarrow> for_each_loop post (seen_fun g) cfg h c r s = Some (Inl x))"
proof -
  from arrivals_exist [OF assms(1-4)] obtain es new r' where a: "arrivals post cfg r es r'"
    "es = cq_items cfg (ring_cq r) @ new" "length es \<le> m" "cq_items cfg (ring_cq r') = []" "cq_wf (ring_cq r')" "inside r' \<le> m"
    by blast
  from for_each_arrivals [OF a(1) k assms(3), of g c s] a(2-) show ?thesis unfolding assms(5)
    by (intro exI [of _ es] exI [of _ new]) (auto split: sum.splits)
qed

section \<open>Peeking\<close>

lemma peek_loop_null:
  "only_posts cfg post \<Longrightarrow> cq_items cfg (ring_cq (post r)) = [] \<Longrightarrow> peek_loop post cfg r = Some (None, 0, 0, post r)"
  by (subst peek_loop.simps) (simp add: Let_def cq_items_empty)

text \<open>One round of the loop on a queue that is not empty.\<close>

lemma peek_loop_step:
  assumes "cq_items cfg (ring_cq (post r)) = e # es"
  shows "peek_loop post cfg r =
    (if own_timeout (post r) e then
       (if sint (cqe_res e) < 0
        then Some (None, of_nat (Suc (length es)), cqe_res e, cq_store_head 1 (post r))
        else peek_loop post cfg (cq_store_head 1 (post r)))
     else Some (Some (cqe_off cfg (ring_cq (post r)) (cq_khead (ring_cq (post r)))),
       of_nat (Suc (length es)), 0, post r))"
    and "cq_cqes (ring_cq (post r)) (cqe_off cfg (ring_cq (post r)) (cq_khead (ring_cq (post r)))) = e"
proof -
  let ?c = "ring_cq (post r)"
  have n: "cq_avail ?c = Suc (length es)" using assms by (metis length_Cons length_cq_items)
  then have w: "cq_ktail ?c - cq_khead ?c = of_nat (Suc (length es))"
    by (simp flip: n add: cq_avail_def)
  have ne: "cq_ktail ?c \<noteq> cq_khead ?c" using n cq_avail_0 [of ?c] by auto
  show e: "cq_cqes ?c (cqe_off cfg ?c (cq_khead ?c)) = e"
    using cq_items_nth [of 0 ?c cfg] n assms by (simp add: cqe_at_def)
  show "peek_loop post cfg r =
    (if own_timeout (post r) e then
       (if sint (cqe_res e) < 0
        then Some (None, of_nat (Suc (length es)), cqe_res e, cq_store_head 1 (post r))
        else peek_loop post cfg (cq_store_head 1 (post r)))
     else Some (Some (cqe_off cfg ?c (cq_khead ?c)), of_nat (Suc (length es)), 0, post r))"
    using ne e w by (subst peek_loop.simps) (auto simp: Let_def)
qed

lemma own_timeout_cong: "ring_features r = ring_features s \<Longrightarrow> own_timeout r = own_timeout s"
  by (simp add: own_timeout_def fun_eq_iff)

text \<open>\<open>__peek_cq_entry\<close> removes the completions of the library's own timeout requests that
  precede the first other completion and returns that one, still in the queue and followed by
  what the kernel posted meanwhile; if one of them carries an error it is removed too and its
  error returned instead of an entry.\<close>

theorem peek_skips_timeouts:
  assumes "only_posts cfg post" and "cq_wf (ring_cq r)"
    and "cq_items cfg (ring_cq r) = ts @ e # rest"
    and "\<forall>t\<in>set ts. own_timeout r t \<and> 0 \<le> sint (cqe_res t)"
    and "own_timeout r e \<Longrightarrow> sint (cqe_res e) < 0"
  shows "\<exists>r' new. cq_wf (ring_cq r') \<and>
    (if own_timeout r e
     then \<exists>n. peek_loop post cfg r = Some (None, n, cqe_res e, r') \<and> cq_items cfg (ring_cq r') = rest @ new
     else \<exists>p. peek_loop post cfg r = Some (Some p, of_nat (length (e # rest @ new)), 0, r') \<and>
       cq_cqes (ring_cq r') p = e \<and> cq_items cfg (ring_cq r') = e # rest @ new)"
  using assms
proof (induction ts arbitrary: r rest)
  case (Nil r rest)
  from only_postsD [OF Nil(1,2)] have p: "posts cfg r (post r)" .
  then have wf: "cq_wf (ring_cq (post r))" and "ring_features (post r) = ring_features r"
    by (simp_all add: posts_def)
  then have own: "own_timeout (post r) = own_timeout r" by (intro own_timeout_cong)
  obtain new where it: "cq_items cfg (ring_cq (post r)) = e # rest @ new"
    using posts_items [OF p] Nil(3) by auto
  note step = peek_loop_step [of cfg post r, OF it]
  have "cq_avail (ring_cq (post r)) = Suc (length (rest @ new))"
    using it by (metis length_Cons length_cq_items)
  note adv = cq_store_head_items(1,2) [OF wf this] cq_store_head_items(3) [OF wf this, of cfg]
  show ?case
  proof (cases "own_timeout r e")
    case True
    then show ?thesis using adv it step own Nil(5)
      by (intro exI [of _ "cq_store_head 1 (post r)"] exI [of _ new]) simp
  next
    case False
    then show ?thesis using wf it step own by (intro exI [of _ "post r"] exI [of _ new]) auto
  qed
next
  case (Cons t ts r rest)
  from only_postsD [OF Cons(2,3)] have p: "posts cfg r (post r)" .
  then have wf: "cq_wf (ring_cq (post r))" and f: "ring_features (post r) = ring_features r"
    by (simp_all add: posts_def)
  then have own: "own_timeout (post r) = own_timeout r" by (intro own_timeout_cong)
  obtain new where it: "cq_items cfg (ring_cq (post r)) = t # ts @ e # rest @ new"
    using posts_items [OF p] Cons(4) by auto
  note step = peek_loop_step [of cfg post r, OF it]
  have "cq_avail (ring_cq (post r)) = Suc (length (ts @ e # rest @ new))"
    using it by (metis length_Cons length_cq_items)
  note adv = cq_store_head_items(1,2) [OF wf this] cq_store_head_items(3) [OF wf this, of cfg]
  let ?r = "cq_store_head 1 (post r)"
  have own': "own_timeout ?r = own_timeout r"
    by (rule own_timeout_cong) (simp add: cq_store_head_def f)
  have l: "peek_loop post cfg r = peek_loop post cfg ?r"
    using step(1) own Cons(5) by simp
  have "cq_items cfg (ring_cq ?r) = ts @ e # (rest @ new)" using adv(3) it by simp
  from Cons.IH [OF Cons(2) adv(1) this] obtain r' new' where "cq_wf (ring_cq r')" and
    "if own_timeout r e
     then \<exists>n. peek_loop post cfg r = Some (None, n, cqe_res e, r') \<and>
       cq_items cfg (ring_cq r') = rest @ (new @ new')
     else \<exists>p. peek_loop post cfg r = Some (Some p, of_nat (length (e # rest @ (new @ new'))), 0, r') \<and>
       cq_cqes (ring_cq r') p = e \<and> cq_items cfg (ring_cq r') = e # rest @ (new @ new')"
    using Cons(5,6) unfolding l own' append_assoc by auto
  then show ?case by (intro exI [of _ r'] exI [of _ "new @ new'"] conjI)
qed

theorem peek_skips_timeouts_witness:
  "\<exists>r' p n. peek_loop (\<lambda>r. r) cfg_plain uring_example = Some (Some p, n, 0, r') \<and>
    cq_cqes (ring_cq r') p = cqe_of 7 5"
proof -
  have "\<exists>r' new. cq_wf (ring_cq r') \<and>
    (if own_timeout uring_example (cqe_of 7 5)
     then \<exists>n. peek_loop (\<lambda>r. r) cfg_plain uring_example = Some (None, n, cqe_res (cqe_of 7 5), r') \<and>
       cq_items cfg_plain (ring_cq r') = [] @ new
     else \<exists>p. peek_loop (\<lambda>r. r) cfg_plain uring_example =
         Some (Some p, of_nat (length (cqe_of 7 5 # [] @ new)), 0, r') \<and>
       cq_cqes (ring_cq r') p = cqe_of 7 5 \<and> cq_items cfg_plain (ring_cq r') = cqe_of 7 5 # [] @ new)"
    by (rule peek_skips_timeouts [OF only_posts_id cq_example_wf, where ts = "[cqe_of (- 1) 0]"])
      (simp_all only: cq_example_items, simp_all add: own_timeout_def cqe_of_def uring_example_def)
  then show ?thesis
    by (fastforce simp: own_timeout_def cqe_of_def uring_example_def)
qed

end
