(* ===== verification/Buf_Ring.thy ===== *)
theory Buf_Ring
  imports Cq_Ring
begin

text \<open>
  The ring of provided buffers, \<^verbatim>\<open>extern/liburingcxx/include/uring/buf_ring.hpp\<close>: the
  application writes buffers behind \<open>tail\<close>, a 16-bit word, at indices computed in \<open>int\<close>, and
  publishes them by advancing it; the kernel takes them from its own 16-bit head.
\<close>

record io_uring_buf =
  buf_addr :: u64
  buf_len :: u32
  buf_bid :: u16

record buf_ring =
  br_tail :: u16
  br_bufs :: "u32 \<Rightarrow> io_uring_buf"

definition br_init :: "buf_ring \<Rightarrow> buf_ring" where
  "br_init b = b\<lparr>br_tail := 0\<rparr>"

definition br_add :: "ptr \<Rightarrow> u32 \<Rightarrow> u16 \<Rightarrow> u32 \<Rightarrow> u32 \<Rightarrow> buf_ring \<Rightarrow> buf_ring" where
  "br_add a n bid msk offset b =
     (let index = (ucast (br_tail b) + offset) AND msk
      in b\<lparr>br_bufs := (br_bufs b)(index := \<lparr>buf_addr = a, buf_len = n, buf_bid = bid\<rparr>)\<rparr>)"

definition br_advance :: "u32 \<Rightarrow> buf_ring \<Rightarrow> buf_ring" where
  "br_advance n b = b\<lparr>br_tail := ucast ((ucast (br_tail b) :: u32) + n)\<rparr>"

definition br_mask_of :: "u32 \<Rightarrow> u32" where
  "br_mask_of ring_entries = ring_entries - 1"

text \<open>\<open>uring::buf_ring_cq_advance\<close>.\<close>

definition buf_ring_cq_advance ::
  "u32 \<Rightarrow> buf_ring \<Rightarrow> 'z uring_scheme \<Rightarrow> (buf_ring \<times> 'z uring_scheme) result" where
  "buf_ring_cq_advance n b r =
     (let b = b\<lparr>br_tail := ucast ((ucast (br_tail b) :: u32) + n)\<rparr>
      in case cq_advance n r of Inl e \<Rightarrow> Inl e | Inr r \<Rightarrow> Inr (b, r))"

text \<open>The way the ring is filled: one \<open>add\<close> per buffer with increasing offsets.\<close>

primrec br_fill :: "u32 \<Rightarrow> io_uring_buf list \<Rightarrow> nat \<Rightarrow> buf_ring \<Rightarrow> buf_ring" where
  "br_fill c [] off b = b"
| "br_fill c (x # xs) off b = br_fill c xs (Suc off)
     (br_add (buf_addr x) (buf_len x) (buf_bid x) (br_mask_of c) (of_nat off) b)"

text \<open>What the kernel reads from its head \<open>h\<close> up to the published tail.\<close>

definition br_items :: "u32 \<Rightarrow> u16 \<Rightarrow> buf_ring \<Rightarrow> io_uring_buf list" where
  "br_items c h b =
     map (\<lambda>i. br_bufs b (ucast (h + of_nat i :: u16) AND (c - 1))) [0..<unat (br_tail b - h)]"

text \<open>
  The 16-bit cursors of the kernel and the 32-bit sums of \<open>add\<close> name the same places: the
  sizes of the ring divide both moduli.
\<close>

lemma unat_ucast_16_32: "unat (ucast (w :: u16) :: u32) = unat w"
proof -
  have "unat w < 2 ^ LENGTH(16)" by (rule unsigned_less)
  then show ?thesis by (simp add: unsigned_ucast_eq take_bit_nat_eq_self)
qed

lemma br_index:
  assumes "pow2_cap (c :: u32) k" and "k \<le> 16"
  shows "ucast ((h :: u16) + of_nat i) AND (c - 1) = (ucast h + of_nat i) AND (c - 1)"
proof (rule unsigned_word_eqI [where ?'a = nat])
  have d: "(2::nat) ^ k dvd 2 ^ LENGTH(16)"
    by (rule le_imp_power_dvd) (use assms(2) in simp)
  have "unat (ucast (h + of_nat i) AND (c - 1)) = unat (h + of_nat i) mod 2 ^ k"
    by (simp add: unat_and_mask [OF assms(1)] unat_ucast_16_32)
  also have "\<dots> = (unat h + i) mod 2 ^ k"
    by (simp only: unat_word_ariths(1) unat_of_nat mod_add_right_eq mod_mod_cancel [OF d])
  also have "\<dots> = unat ((ucast h + of_nat i) AND (c - 1))"
    by (simp add: unat_ring_index [OF assms(1)] unat_ucast_16_32)
  finally show "unat (ucast (h + of_nat i) AND (c - 1)) = unat ((ucast h + of_nat i) AND (c - 1))" .
qed

lemma br_tail_advance: "br_tail (br_advance (of_nat n) b) = br_tail b + of_nat n"
proof (rule unsigned_word_eqI [where ?'a = nat])
  have d: "(2::nat) ^ LENGTH(16) dvd 2 ^ LENGTH(32)" by simp
  have "unat ((ucast (br_tail b) :: u32) + of_nat n) mod 2 ^ LENGTH(16) = (unat (br_tail b) + n) mod 2 ^ LENGTH(16)"
    by (simp only: unat_word_ariths(1) unat_of_nat mod_add_right_eq mod_mod_cancel [OF d])
      (simp add: unat_ucast_16_32)
  then show "unat (br_tail (br_advance (of_nat n) b)) = unat (br_tail b + of_nat n)"
    by (simp add: br_advance_def unsigned_ucast_eq take_bit_eq_mod unat_word_ariths(1) unat_of_nat mod_add_right_eq)
qed

lemma br_items_ring:
  assumes "pow2_cap c k" and "k \<le> 16"
  shows "br_items c h b = ring_items (br_bufs b) c (ucast h) (unat (br_tail b - h))"
  unfolding br_items_def ring_items_def br_index [OF assms] ..

lemma br_fill_items:
  assumes c: "pow2_cap c k" "k \<le> 16" and t: "br_tail b = h + of_nat m"
    and "m + off + length xs \<le> 2 ^ k"
  shows "ring_items (br_bufs (br_fill c xs off b)) c (ucast h) (m + off + length xs) =
      ring_items (br_bufs b) c (ucast h) (m + off) @ xs \<and>
    br_tail (br_fill c xs off b) = br_tail b"
  using t assms(4)
proof (induction xs arbitrary: off b)
  case (Cons x xs)
  let ?b = "br_add (buf_addr x) (buf_len x) (buf_bid x) (br_mask_of c) (of_nat off) b"
  have "(ucast (br_tail b) + of_nat off) AND (c - 1) = (ucast h + of_nat (m + off)) AND (c - 1)"
    using br_index [OF c, of "br_tail b" off] br_index [OF c, of h "m + off"] Cons(2)
    by (simp add: add.assoc)
  then have bufs: "br_bufs ?b = (br_bufs b)((ucast h + of_nat (m + off)) AND (c - 1) := x)"
    by (cases x) (simp add: br_add_def br_mask_of_def)
  have tl: "br_tail ?b = br_tail b" by (simp add: br_add_def)
  have "ring_items (br_bufs ?b) c (ucast h) (Suc (m + off)) = ring_items (br_bufs b) c (ucast h) (m + off) @ [x]"
    unfolding bufs using Cons(3) by (intro ring_items_push [OF c(1)]) simp
  then show ?case
    using Cons.IH [of ?b "Suc off"] Cons(2,3) tl by simp
qed simp

text \<open>Filling the ring of provided buffers: adding buffers at offsets 0, 1, ... and advancing
  the tail by their number puts exactly them, in that order, behind the buffers that the
  kernel has not taken yet, for every position of the cursors, wrap-around of the 16-bit tail
  included, as long as the ring has room.\<close>

theorem buf_ring_fill:
  assumes "pow2_cap c k" and "k \<le> 15" and "length (br_items c h b) + length xs \<le> 2 ^ k"
  shows "br_items c h (br_advance (of_nat (length xs)) (br_fill c xs 0 b)) = br_items c h b @ xs"
proof -
  define m where "m = unat (br_tail b - h)"
  have k16: "k \<le> 16" using assms(2) by simp
  have len: "m + length xs \<le> 2 ^ k" using assms(3) by (simp add: br_items_def m_def)
  have t: "br_tail b = h + of_nat m" by (simp add: m_def)
  note fill = br_fill_items [OF assms(1) k16 t, of 0 xs]
  have "(2::nat) ^ k \<le> 2 ^ 15" using assms(2) by (intro power_increasing) auto
  then have fits: "m + length xs < 2 ^ LENGTH(16)" using len by simp
  have "br_tail (br_advance (of_nat (length xs)) (br_fill c xs 0 b)) = br_tail b + of_nat (length xs)"
    using fill len by (simp add: br_tail_advance)
  then have "br_tail (br_advance (of_nat (length xs)) (br_fill c xs 0 b)) - h = of_nat (m + length xs)"
    by (simp add: t)
  then have "unat (br_tail (br_advance (of_nat (length xs)) (br_fill c xs 0 b)) - h) = m + length xs"
    using unat_of_nat_fits [OF fits] by simp
  moreover have "br_bufs (br_advance n b') = br_bufs b'" for n b' by (simp add: br_advance_def)
  ultimately show ?thesis
    using fill len by (simp add: br_items_ring [OF assms(1) k16] m_def)
qed

text \<open>Three buffers into a ring of four whose tail wraps around.\<close>

definition buf_of :: "u16 \<Rightarrow> io_uring_buf" where
  "buf_of bid = \<lparr>buf_addr = 4096, buf_len = 512, buf_bid = bid\<rparr>"

theorem buf_ring_fill_witness:
  "br_items 4 (- 2) (br_advance 3 (br_fill 4 [buf_of 7, buf_of 8, buf_of 9] 0
     \<lparr>br_tail = - 1, br_bufs = (\<lambda>_. buf_of 1)\<rparr>)) = [buf_of 1, buf_of 7, buf_of 8, buf_of 9]"
proof -
  have "pow2_cap (4 :: u32) 2" by (simp add: pow2_cap_def)
  moreover have "br_items 4 (- 2) \<lparr>br_tail = - 1, br_bufs = (\<lambda>_. buf_of 1)\<rparr> = [buf_of 1]"
    by (simp add: br_items_def)
  ultimately show ?thesis
    using buf_ring_fill [of 4 2 "- 2" "\<lparr>br_tail = - 1, br_bufs = (\<lambda>_. buf_of 1)\<rparr>"
        "[buf_of 7, buf_of 8, buf_of 9]"] by simp
qed

end
