(* ===== verification/Uring.thy ===== *)
theory Uring
  imports Cq_Ring
begin

text \<open>
  The calls of \<^verbatim>\<open>extern/liburingcxx/include/uring/uring.hpp\<close> that enter the kernel: submission,
  waiting for completions, and the registration of the ring's descriptor. The system call
  \<open>io_uring_enter\<close> is the parameter \<open>enter\<close>, a function of the number of requests to submit, the
  number of completions to wait for, the flags and the ring; it returns the result of the call
  and the ring as the kernel left it.
\<close>

section \<open>Submission\<close>

type_synonym 'z kernel_enter = "u32 \<Rightarrow> u32 \<Rightarrow> u32 \<Rightarrow> 'z uring_scheme \<Rightarrow> u32 \<times> 'z uring_scheme"

abbreviation (input) IORING_ENTER_GETEVENTS :: u32 where "IORING_ENTER_GETEVENTS \<equiv> 1"
abbreviation (input) IORING_ENTER_SQ_WAKEUP :: u32 where "IORING_ENTER_SQ_WAKEUP \<equiv> 2"
abbreviation (input) IORING_ENTER_SQ_WAIT :: u32 where "IORING_ENTER_SQ_WAIT \<equiv> 4"
abbreviation (input) IORING_ENTER_EXT_ARG :: u32 where "IORING_ENTER_EXT_ARG \<equiv> 8"
abbreviation (input) IORING_ENTER_REGISTERED_RING :: u32 where "IORING_ENTER_REGISTERED_RING \<equiv> 16"
abbreviation (input) IORING_SQ_NEED_WAKEUP :: u32 where "IORING_SQ_NEED_WAKEUP \<equiv> 1"
abbreviation (input) IORING_SQ_CQ_OVERFLOW :: u32 where "IORING_SQ_CQ_OVERFLOW \<equiv> 2"
abbreviation (input) IORING_SQ_TASKRUN :: u32 where "IORING_SQ_TASKRUN \<equiv> 4"
abbreviation (input) EAGAIN :: u32 where "EAGAIN \<equiv> 11"
abbreviation (input) ETIME :: u32 where "ETIME \<equiv> 62"

definition default_enter_flags :: "uring_cfg \<Rightarrow> u32" where
  "default_enter_flags cfg = (if cfg_reg_fd cfg then IORING_ENTER_REGISTERED_RING else 0)"

definition is_sq_ring_need_enter :: "uring_cfg \<Rightarrow> u32 \<Rightarrow> u32 \<Rightarrow> 'z uring_scheme \<Rightarrow> bool \<times> u32" where
  "is_sq_ring_need_enter cfg submit flags r =
     (if submit = 0 then (False, flags)
      else if \<not> cfg_sqpoll cfg then (True, flags)
      else if sq_kflags (ring_sq r) AND IORING_SQ_NEED_WAKEUP \<noteq> 0
        then (True, flags OR IORING_ENTER_SQ_WAKEUP)
      else (False, flags))"

definition is_cq_ring_need_flush :: "'z uring_scheme \<Rightarrow> bool" where
  "is_cq_ring_need_flush r \<longleftrightarrow>
     sq_kflags (ring_sq r) AND (IORING_SQ_CQ_OVERFLOW OR IORING_SQ_TASKRUN) \<noteq> 0"

definition is_cq_ring_need_enter :: "uring_cfg \<Rightarrow> 'z uring_scheme \<Rightarrow> bool" where
  "is_cq_ring_need_enter cfg r \<longleftrightarrow> (if cfg_iopoll cfg then True else is_cq_ring_need_flush r)"

text \<open>\<open>__submit\<close>.\<close>

definition submit_flushed ::
  "'z kernel_enter \<Rightarrow> uring_cfg \<Rightarrow> u32 \<Rightarrow> u32 \<Rightarrow> bool \<Rightarrow> 'z uring_scheme \<Rightarrow> u32 \<times> 'z uring_scheme" where
  "submit_flushed enter cfg submitted wait_num getevents r =
     (let cq_enter = getevents \<or> wait_num \<noteq> 0 \<or> is_cq_ring_need_enter cfg r;
          (sq_enter, flags) = is_sq_ring_need_enter cfg submitted (default_enter_flags cfg) r
      in if sq_enter \<or> cq_enter
         then enter submitted wait_num (if cq_enter then flags OR IORING_ENTER_GETEVENTS else flags) r
         else (submitted, r))"

definition uring_flush :: "'z uring_scheme \<Rightarrow> u32 \<times> 'z uring_scheme" where
  "uring_flush r = (let (n, q) = sq_flush (ring_sq r) in (n, r\<lparr>ring_sq := q\<rparr>))"

definition submit_and_wait ::
  "'z kernel_enter \<Rightarrow> uring_cfg \<Rightarrow> u32 \<Rightarrow> 'z uring_scheme \<Rightarrow> u32 \<times> 'z uring_scheme" where
  "submit_and_wait enter cfg wait_num r =
     (let (n, r) = uring_flush r in submit_flushed enter cfg n wait_num False r)"

definition submit :: "'z kernel_enter \<Rightarrow> uring_cfg \<Rightarrow> 'z uring_scheme \<Rightarrow> u32 \<times> 'z uring_scheme" where
  "submit enter cfg r = submit_and_wait enter cfg 0 r"

definition submit_and_get_events ::
  "'z kernel_enter \<Rightarrow> uring_cfg \<Rightarrow> 'z uring_scheme \<Rightarrow> u32 \<times> 'z uring_scheme" where
  "submit_and_get_events enter cfg r =
     (let (n, r) = uring_flush r in submit_flushed enter cfg n 0 True r)"

definition get_events :: "'z kernel_enter \<Rightarrow> uring_cfg \<Rightarrow> 'z uring_scheme \<Rightarrow> u32 \<times> 'z uring_scheme" where
  "get_events enter cfg r = enter 0 0 (IORING_ENTER_GETEVENTS OR default_enter_flags cfg) r"

definition uring_sq_pending :: "'z uring_scheme \<Rightarrow> u32" where
  "uring_sq_pending r = sq_pending (ring_sq r)"

definition sq_space_left :: "'z uring_scheme \<Rightarrow> u32" where
  "sq_space_left r = sq_ring_entries (ring_sq r) - uring_sq_pending r"

definition uring_get_sq_entry :: "uring_cfg \<Rightarrow> 'z uring_scheme \<Rightarrow> u32 option \<times> 'z uring_scheme" where
  "uring_get_sq_entry cfg r = (let (e, q) = sq_get_sq_entry cfg (ring_sq r) in (e, r\<lparr>ring_sq := q\<rparr>))"

definition uring_append_sq_entry :: "uring_cfg \<Rightarrow> u32 \<Rightarrow> 'z uring_scheme \<Rightarrow> 'z uring_scheme result" where
  "uring_append_sq_entry cfg e r =
     (if \<not> cfg_sqe_reorder cfg then Inl AssertFail
      else case sq_append_sq_entry e (ring_sq r) of Inl f \<Rightarrow> Inl f | Inr q \<Rightarrow> Inr (r\<lparr>ring_sq := q\<rparr>))"

definition wait_sq_ring :: "'z kernel_enter \<Rightarrow> uring_cfg \<Rightarrow> 'z uring_scheme \<Rightarrow> (u32 \<times> 'z uring_scheme) result" where
  "wait_sq_ring enter cfg r =
     (if \<not> cfg_sqpoll cfg then Inr (0, r)
      else if sq_space_left r \<noteq> 0 then Inr (0, r)
      else (let (res, r) = enter 0 0 (IORING_ENTER_SQ_WAIT OR default_enter_flags cfg) r
            in if sint res < 0 then Inl (SystemError (- sint res)) else Inr (res, r)))"

section \<open>Completions\<close>

definition peek_batch_ready ::
  "'z kernel_post \<Rightarrow> uring_cfg \<Rightarrow> u32 \<Rightarrow> 'z uring_scheme \<Rightarrow> u32 list option \<times> 'z uring_scheme" where
  "peek_batch_ready post cfg sz r =
     (let (ready, r) = cq_ready_acquire post r in
      if ready \<noteq> 0
      then (Some (map (\<lambda>i. cqe_off cfg (ring_cq r) (cq_khead (ring_cq r) + of_nat i))
              [0..<unat (min sz ready)]), r)
      else (None, r))"

definition peek_batch_cq_entries ::
  "'z kernel_post \<Rightarrow> 'z kernel_enter \<Rightarrow> uring_cfg \<Rightarrow> u32 \<Rightarrow> 'z uring_scheme \<Rightarrow> u32 list \<times> 'z uring_scheme" where
  "peek_batch_cq_entries post enter cfg sz r =
     (case peek_batch_ready post cfg sz r of
        (Some ps, r) \<Rightarrow> (ps, r)
      | (None, r) \<Rightarrow>
          if is_cq_ring_need_flush r
          then (case peek_batch_ready post cfg sz (snd (get_events enter cfg r)) of
                  (Some ps, r) \<Rightarrow> (ps, r)
                | (None, r) \<Rightarrow> ([], r))
          else ([], r))"

text \<open>
  \<open>_get_cq_entry\<close>: \<open>ts\<close> is \<open>None\<close> for the instance without a timeout and otherwise says whether
  \<open>arg.ts\<close> is not null; \<open>sub\<close>, \<open>wt\<close> and \<open>gfl\<close> are the fields of the \<open>cq_entry_getter\<close>.
\<close>

partial_function (option) get_cq_loop ::
  "'z kernel_post \<Rightarrow> 'z kernel_enter \<Rightarrow> uring_cfg \<Rightarrow> bool option \<Rightarrow> u32 \<Rightarrow> u32 \<Rightarrow> bool \<Rightarrow> u32 \<Rightarrow> u32 \<Rightarrow>
   'z uring_scheme \<Rightarrow> (u32 \<times> u32 option \<times> 'z uring_scheme) option" where
  "get_cq_loop post enter cfg ts gfl wt looped err sub r =
     (case peek_loop post cfg r of
        None \<Rightarrow> None
      | Some (e, available, perr, r) \<Rightarrow>
          if perr \<noteq> 0 then Some (if err = 0 then perr else err, e, r)
          else
            (let idle = (e = None \<and> wt = 0 \<and> sub = 0) in
             if idle \<and> (looped \<or> \<not> is_cq_ring_need_enter cfg r)
             then Some (if err = 0 then - EAGAIN else err, e, r)
             else
               (let cq_enter = (wt > available \<or> idle);
                    (sq_enter, flags) = is_sq_ring_need_enter cfg sub
                      (if cq_enter then IORING_ENTER_GETEVENTS OR gfl else 0) r
                in if \<not> (cq_enter \<or> sq_enter) then Some (err, e, r)
                   else if ts \<noteq> None \<and> looped
                   then Some (if e = None \<and> ts = Some True \<and> err = 0 then - ETIME else err, e, r)
                   else
                     (let (res, r) = enter sub wt
                        (if cfg_reg_fd cfg then flags OR IORING_ENTER_REGISTERED_RING else flags) r
                      in if sint res < 0 then Some (if err = 0 then - res else err, e, r)
                         else if e \<noteq> None then Some (err, e, r)
                         else get_cq_loop post enter cfg ts gfl wt True (if looped then err else res)
                           (sub - res) r))))"

definition wait_cq_entry_num ::
  "'z kernel_post \<Rightarrow> 'z kernel_enter \<Rightarrow> uring_cfg \<Rightarrow> u32 \<Rightarrow> 'z uring_scheme \<Rightarrow>
   (u32 \<times> u32 option \<times> 'z uring_scheme) option" where
  "wait_cq_entry_num post enter cfg wt r = get_cq_loop post enter cfg None 0 wt False 0 0 r"

definition peek_or_wait ::
  "'z kernel_post \<Rightarrow> 'z kernel_enter \<Rightarrow> uring_cfg \<Rightarrow> u32 \<Rightarrow> 'z uring_scheme \<Rightarrow>
   (u32 \<times> u32 option \<times> 'z uring_scheme) option" where
  "peek_or_wait post enter cfg wt r =
     (case peek_loop post cfg r of
        None \<Rightarrow> None
      | Some (e, available, perr, r) \<Rightarrow>
          if perr = 0 \<and> e \<noteq> None then Some (0, e, r) else wait_cq_entry_num post enter cfg wt r)"

definition wait_cq_entry ::
  "'z kernel_post \<Rightarrow> 'z kernel_enter \<Rightarrow> uring_cfg \<Rightarrow> 'z uring_scheme \<Rightarrow>
   (u32 \<times> u32 option \<times> 'z uring_scheme) option" where
  "wait_cq_entry post enter cfg r = peek_or_wait post enter cfg 1 r"

definition peek_cq_entry ::
  "'z kernel_post \<Rightarrow> 'z kernel_enter \<Rightarrow> uring_cfg \<Rightarrow> 'z uring_scheme \<Rightarrow>
   (u32 \<times> u32 option \<times> 'z uring_scheme) option" where
  "peek_cq_entry post enter cfg r = peek_or_wait post enter cfg 0 r"

text \<open>With a timeout; the outer sum is the assertion on the kernel's features. The timeout is
  passed by reference, so \<open>arg.ts\<close> is not null.\<close>

definition wait_cq_entries ::
  "'z kernel_post \<Rightarrow> 'z kernel_enter \<Rightarrow> uring_cfg \<Rightarrow> u32 \<Rightarrow> 'z uring_scheme \<Rightarrow>
   (u32 \<times> u32 option \<times> 'z uring_scheme) option result" where
  "wait_cq_entries post enter cfg wt r =
     (if ring_features r AND IORING_FEAT_EXT_ARG = 0 then Inl AssertFail
      else Inr (get_cq_loop post enter cfg (Some True) IORING_ENTER_EXT_ARG wt False 0 0 r))"

definition submit_and_wait_timeout ::
  "'z kernel_post \<Rightarrow> 'z kernel_enter \<Rightarrow> uring_cfg \<Rightarrow> u32 \<Rightarrow> 'z uring_scheme \<Rightarrow>
   (u32 \<times> u32 option \<times> 'z uring_scheme) option result" where
  "submit_and_wait_timeout post enter cfg wt r =
     (if ring_features r AND IORING_FEAT_EXT_ARG = 0 then Inl AssertFail
      else (let (n, r) = uring_flush r
            in Inr (get_cq_loop post enter cfg (Some True) IORING_ENTER_EXT_ARG wt False 0 n r)))"

section \<open>Registration of the ring's descriptor\<close>

text \<open>The parameter \<open>reg\<close> is \<open>io_uring_register\<close>: it maps the descriptor and the offset of the update
  to the result and the offset that the kernel stored.\<close>

definition register_ring_fd ::
  "(u32 \<Rightarrow> u32 \<Rightarrow> u32 \<times> u32) \<Rightarrow> uring_cfg \<Rightarrow> 'z uring_scheme \<Rightarrow> (u32 \<times> 'z uring_scheme) result" where
  "register_ring_fd reg cfg r =
     (if \<not> cfg_reg_fd cfg then Inl AssertFail
      else (let (ret, off) = reg (ring_fd r) (- 1)
            in if ret = 1 then Inr (ret, r\<lparr>ring_enter_fd := off, ring_int_flags := ring_int_flags r OR 1\<rparr>)
               else if sint ret < 0 then Inl (SystemError (- sint ret)) else Inr (ret, r)))"

definition unregister_ring_fd ::
  "(u32 \<Rightarrow> u32 \<Rightarrow> u32 \<times> u32) \<Rightarrow> uring_cfg \<Rightarrow> 'z uring_scheme \<Rightarrow> (u32 \<times> 'z uring_scheme) result" where
  "unregister_ring_fd unreg cfg r =
     (if \<not> cfg_reg_fd cfg then Inl AssertFail
      else (let (ret, off) = unreg (ring_fd r) (ring_enter_fd r)
            in if ret = 1
               then Inr (ret, r\<lparr>ring_enter_fd := ring_fd r, ring_int_flags := ring_int_flags r AND NOT 1\<rparr>)
               else if sint ret < 0 then Inl (SystemError (- sint ret)) else Inr (ret, r)))"

section \<open>What the kernel does in a call\<close>

text \<open>
  A successful \<open>io_uring_enter\<close> without a kernel thread returns the number of requests that it
  consumed, at most those it was given, advances the head of the submission queue by it and
  leaves the rest of that queue alone; it may post completions, and when it consumed everything
  and was asked to wait, there are enough of them.
\<close>

definition enter_ok :: "uring_cfg \<Rightarrow> 'z kernel_enter \<Rightarrow> bool" where
  "enter_ok cfg enter \<longleftrightarrow> (\<forall>n w fl r res r'. enter n w fl r = (res, r') \<and> 0 \<le> sint res \<longrightarrow>
     res \<le> n \<and> ring_sq r' = (ring_sq r)\<lparr>sq_khead := sq_khead (ring_sq r) + res, sq_kflags := sq_kflags (ring_sq r')\<rparr> \<and>
     (cq_wf (ring_cq r) \<longrightarrow> posts cfg r r' \<and>
       (res = n \<and> fl AND IORING_ENTER_GETEVENTS \<noteq> 0 \<longrightarrow> unat w \<le> cq_avail (ring_cq r'))))"

lemma enter_ok_sq:
  assumes "enter_ok cfg enter" and "enter n w fl r = (res, r')" and "0 \<le> sint res"
  shows "res \<le> n" and "sq_khead (ring_sq r') = sq_khead (ring_sq r) + res"
    and "sq_tail (ring_sq r') = sq_tail (ring_sq r)" and "sq_head (ring_sq r') = sq_head (ring_sq r)"
    and "sq_ktail (ring_sq r') = sq_ktail (ring_sq r)" and "sq_array (ring_sq r') = sq_array (ring_sq r)"
proof -
  have "res \<le> n" and "ring_sq r' = (ring_sq r)\<lparr>sq_khead := sq_khead (ring_sq r) + res, sq_kflags := sq_kflags (ring_sq r')\<rparr>"
    using assms unfolding enter_ok_def by blast+
  then show "res \<le> n" and "sq_khead (ring_sq r') = sq_khead (ring_sq r) + res"
    and "sq_tail (ring_sq r') = sq_tail (ring_sq r)" and "sq_head (ring_sq r') = sq_head (ring_sq r)"
    and "sq_ktail (ring_sq r') = sq_ktail (ring_sq r)" and "sq_array (ring_sq r') = sq_array (ring_sq r)"
    by (cases "ring_sq r", cases "ring_sq r'", auto)+
qed


lemma uring_flush_eq:
  "uring_flush r = (uring_sq_pending r, r\<lparr>ring_sq := snd (sq_flush (ring_sq r))\<rparr>)"
  by (simp add: uring_flush_def uring_sq_pending_def sq_pending_def sq_flush_def Let_def)

lemma flush_fields:
  "sq_tail (snd (sq_flush q)) = sq_tail q" "sq_khead (snd (sq_flush q)) = sq_khead q"
  "sq_head (snd (sq_flush q)) = sq_tail q"
  "sq_head q = sq_ktail q \<Longrightarrow> sq_ktail (snd (sq_flush q)) = sq_tail q"
  "sq_array (snd (sq_flush q)) = sq_array q" "sq_kflags (snd (sq_flush q)) = sq_kflags q"
  by (simp_all add: sq_flush_def Let_def)

lemma flush_again: "sq_head q = sq_tail q \<Longrightarrow> sq_flush q = (sq_tail q - sq_khead q, q)"
  by (simp add: sq_flush_def Let_def)

text \<open>Without a kernel thread every submission with pending entries enters the kernel.\<close>

lemma submit_enters:
  assumes "\<not> cfg_sqpoll cfg" and "uring_sq_pending r \<noteq> 0"
  shows "submit enter cfg r = enter (uring_sq_pending r) 0
    (if is_cq_ring_need_enter cfg r then default_enter_flags cfg OR IORING_ENTER_GETEVENTS
     else default_enter_flags cfg) (r\<lparr>ring_sq := snd (sq_flush (ring_sq r))\<rparr>)"
  using assms
  by (simp add: submit_def submit_and_wait_def uring_flush_eq submit_flushed_def is_sq_ring_need_enter_def
      is_cq_ring_need_enter_def is_cq_ring_need_flush_def flush_fields)

text \<open>A submission that the kernel cuts short loses nothing: \<open>submit\<close> publishes the whole queue to
  the kernel, what it did not consume stays pending, and the next \<open>submit\<close>, with nothing appended
  in between, hands the kernel exactly the remaining entries.\<close>

theorem submit_short:
  assumes "enter_ok cfg enter" and "\<not> cfg_sqpoll cfg" and "sq_head (ring_sq r) = sq_ktail (ring_sq r)"
    and "submit enter cfg r = (m, r1)" and "0 \<le> sint m" and "m \<noteq> uring_sq_pending r"
  shows "uring_sq_pending r1 = uring_sq_pending r - m \<and> m < uring_sq_pending r \<and>
    sq_ktail (ring_sq r1) = sq_tail (ring_sq r) \<and> sq_array (ring_sq r1) = sq_array (ring_sq r) \<and>
    submit enter cfg r1 = enter (uring_sq_pending r - m) 0
      (if is_cq_ring_need_enter cfg r1 then default_enter_flags cfg OR IORING_ENTER_GETEVENTS
       else default_enter_flags cfg) r1"
proof -
  have "uring_sq_pending r \<noteq> 0"
  proof
    assume z: "uring_sq_pending r = 0"
    then have "submit enter cfg r = (0, r\<lparr>ring_sq := snd (sq_flush (ring_sq r))\<rparr>) \<or>
        (\<exists>fl r0. submit enter cfg r = enter 0 0 fl r0)"
      by (cases "is_cq_ring_need_enter cfg (r\<lparr>ring_sq := snd (sq_flush (ring_sq r))\<rparr>)")
        (auto simp: submit_def submit_and_wait_def uring_flush_eq submit_flushed_def
          is_sq_ring_need_enter_def Let_def)
    moreover have "m = 0" if "enter 0 0 fl r0 = (m, r1)" for fl r0
      using enter_ok_sq(1) [OF assms(1) that assms(5)] by simp
    ultimately show False using assms(4,6) z by (metis prod.inject)
  qed
  with submit_enters [OF assms(2)] assms(4) obtain fl where
    e: "enter (uring_sq_pending r) 0 fl (r\<lparr>ring_sq := snd (sq_flush (ring_sq r))\<rparr>) = (m, r1)"
    by metis
  note k = enter_ok_sq [OF assms(1) e assms(5), simplified flush_fields uring.simps]
  have p: "uring_sq_pending r1 = uring_sq_pending r - m"
    using k by (simp add: uring_sq_pending_def sq_pending_def flush_fields)
  have hd: "sq_head (ring_sq r1) = sq_tail (ring_sq r1)" using k by (simp add: flush_fields)
  have lt: "m < uring_sq_pending r" using k(1) assms(6) by simp
  then have "uring_sq_pending r1 \<noteq> 0" using p by simp
  from submit_enters [OF assms(2) this, of enter]
  have "submit enter cfg r1 = enter (uring_sq_pending r - m) 0
      (if is_cq_ring_need_enter cfg r1 then default_enter_flags cfg OR IORING_ENTER_GETEVENTS
       else default_enter_flags cfg) r1"
    by (simp add: p flush_again [OF hd])
  with p lt k show ?thesis using assms(3) by (simp add: flush_fields)
qed

text \<open>A kernel that consumes one request per call and posts nothing.\<close>

definition slow_kernel :: "unit kernel_enter" where
  "slow_kernel n w fl r =
     (if fl AND IORING_ENTER_GETEVENTS \<noteq> 0 \<and> w \<noteq> 0 then (- 4, r)
      else if n = 0 then (0, r)
      else (1, r\<lparr>ring_sq := (ring_sq r)\<lparr>sq_khead := sq_khead (ring_sq r) + 1\<rparr>\<rparr>))"

lemma slow_kernel_ok: "enter_ok cfg slow_kernel"
proof -
  have one: "1 \<le> n" if "n \<noteq> (0 :: u32)" for n
    using that by (simp add: word_le_nat_alt unat_eq_0 Suc_le_eq unat_gt_0)
  have wf: "posts cfg r (r\<lparr>ring_sq := q\<rparr>)" if "cq_wf (ring_cq r)" for r :: uring and q
    using that by (simp add: posts_def)
  show ?thesis
    unfolding enter_ok_def slow_kernel_def by (auto simp: posts_refl wf one split: if_splits)
qed

definition uring_two :: uring where
  "uring_two = uring_example\<lparr>ring_sq := (ring_sq uring_example)\<lparr>sq_tail := 2\<rparr>\<rparr>"

theorem submit_short_witness:
  "\<exists>r1. submit slow_kernel cfg_plain uring_two = (1, r1) \<and> uring_sq_pending r1 = 1 \<and>
    submit slow_kernel cfg_plain r1 = slow_kernel 1 0 IORING_ENTER_REGISTERED_RING r1"
proof -
  have ev: "uring_sq_pending uring_two = 2" "sq_head (ring_sq uring_two) = sq_ktail (ring_sq uring_two)"
    "\<not> cfg_sqpoll cfg_plain" "\<not> is_cq_ring_need_enter cfg_plain r" if "sq_kflags (ring_sq r) = 0" for r :: uring
    using that by (simp_all add: uring_two_def uring_example_def uring_sq_pending_def sq_pending_def cfg_plain_def
        is_cq_ring_need_enter_def is_cq_ring_need_flush_def)
  have k0: "sq_kflags (ring_sq uring_two) = 0" by (simp add: uring_two_def uring_example_def)
  define r0 where "r0 = uring_two\<lparr>ring_sq := snd (sq_flush (ring_sq uring_two))\<rparr>"
  define r1 where "r1 = r0\<lparr>ring_sq := (ring_sq r0)\<lparr>sq_khead := sq_khead (ring_sq r0) + 1\<rparr>\<rparr>"
  have k1: "sq_kflags (ring_sq r1) = 0" by (simp add: r1_def r0_def flush_fields k0)
  have fl: "default_enter_flags cfg_plain = IORING_ENTER_REGISTERED_RING"
    by (simp add: default_enter_flags_def cfg_plain_def)
  have s: "submit slow_kernel cfg_plain uring_two = (1, r1)"
    using submit_enters [of cfg_plain uring_two slow_kernel] ev [OF k0]
    by (simp add: slow_kernel_def r1_def r0_def)
  from submit_short [OF slow_kernel_ok ev(3) [OF k0] ev(2) [OF k0] s] show ?thesis
    using s ev [OF k0] ev(4) [OF k1] by (intro exI [of _ r1]) (simp add: fl)
qed

section \<open>Waiting\<close>

text \<open>With extended arguments, as every kernel from 5.11 on has them, no completion is skipped.\<close>

lemma peek_loop_ext:
  assumes "only_posts cfg post" and "cq_wf (ring_cq r)" and "ring_features r AND IORING_FEAT_EXT_ARG \<noteq> 0"
  shows "cq_items cfg (ring_cq (post r)) = [] \<Longrightarrow> peek_loop post cfg r = Some (None, 0, 0, post r)"
    and "cq_items cfg (ring_cq (post r)) = e # es \<Longrightarrow>
      \<exists>p. peek_loop post cfg r = Some (Some p, of_nat (Suc (length es)), 0, post r) \<and>
        cq_cqes (ring_cq (post r)) p = e"
proof -
  show "cq_items cfg (ring_cq (post r)) = [] \<Longrightarrow> peek_loop post cfg r = Some (None, 0, 0, post r)"
    by (rule peek_loop_null [OF assms(1)])
  have "ring_features (post r) = ring_features r"
    using only_postsD [OF assms(1,2)] by (simp add: posts_def)
  then have "\<not> own_timeout (post r) e" using assms(3) by (simp add: own_timeout_def)
  then show "cq_items cfg (ring_cq (post r)) = e # es \<Longrightarrow>
      \<exists>p. peek_loop post cfg r = Some (Some p, of_nat (Suc (length es)), 0, post r) \<and>
        cq_cqes (ring_cq (post r)) p = e"
    using peek_loop_step [of cfg post r e es] by simp
qed



lemma get_cq_enter:
  assumes "peek_loop post cfg r = Some (None, 0, 0, r')" and "wt > 0" and "\<not> looped \<or> ts = None"
    and "enter 0 wt (IORING_ENTER_GETEVENTS OR gfl OR default_enter_flags cfg) r' = (res, r'')"
  shows "get_cq_loop post enter cfg ts gfl wt looped err 0 r =
    (if sint res < 0 then Some (if err = 0 then - res else err, None, r'')
     else get_cq_loop post enter cfg ts gfl wt True (if looped then err else res) (0 - res) r'')"
  using assms
  by (subst get_cq_loop.simps)
    (auto simp: is_sq_ring_need_enter_def default_enter_flags_def Let_def or.assoc)




definition uring_empty :: uring where
  "uring_empty = uring_example\<lparr>ring_cq := cq_example\<lparr>cq_ktail := - 1\<rparr>, ring_features := 256\<rparr>"


text \<open>When the call that waits fails with \<open>-e\<close>, interrupted by a signal for example,
  \<open>wait_cq_entry\<close> returns \<open>e\<close> and no entry: a positive number, where the comments of the code
  promise \<open>-errno\<close>; a caller that tests for a negative result takes it for success.\<close>

theorem wait_cq_error_sign:
  assumes "only_posts cfg post" and "cq_wf (ring_cq r)" and "ring_features r AND IORING_FEAT_EXT_ARG \<noteq> 0"
    and "cq_items cfg (ring_cq (post r)) = []" and "cq_items cfg (ring_cq (post (post r))) = []"
    and "enter 0 1 (IORING_ENTER_GETEVENTS OR 0 OR default_enter_flags cfg) (post (post r)) = (- e, r')"
    and "0 < sint e"
  shows "wait_cq_entry post enter cfg r = Some (e, None, r')"
proof -
  have p: "posts cfg r (post r)" by (rule only_postsD [OF assms(1,2)])
  then have wf: "cq_wf (ring_cq (post r))" and f: "ring_features (post r) AND IORING_FEAT_EXT_ARG \<noteq> 0"
    using assms(3) by (simp_all add: posts_def)
  have neg: "sint (- e) < 0"
  proof -
    have "sint e < 2 ^ (LENGTH(32) - 1)" by (rule sint_lt)
    then have "sint (- e) = - sint e"
      using assms(7) by (simp add: sint_word_ariths signed_take_bit_int_eq_self)
    then show ?thesis using assms(7) by simp
  qed
  have "peek_loop post cfg (post r) = Some (None, 0, 0, post (post r))"
    by (rule peek_loop_ext(1) [OF assms(1) wf f assms(5)])
  from get_cq_enter [of post cfg "post r" "post (post r)" 1 False None enter 0 "- e" r' 0, OF this _ _ assms(6)]
  have "get_cq_loop post enter cfg None 0 1 False 0 0 (post r) = Some (e, None, r')" using neg by simp
  then show ?thesis
    by (simp add: wait_cq_entry_def peek_or_wait_def wait_cq_entry_num_def peek_loop_ext(1) [OF assms(1-4)])
qed

theorem wait_cq_error_sign_witness:
  "wait_cq_entry (\<lambda>r. r) (\<lambda>n w fl r. (- 4, r)) cfg_plain uring_empty = Some (4, None, uring_empty)"
proof -
  have "cq_wf (ring_cq uring_empty)"
    using cq_example_wf by (simp add: uring_empty_def uring_example_def cq_wf_def cq_example_def)
  moreover have "cq_items cfg_plain (ring_cq uring_empty) = []"
    by (simp add: cq_items_empty uring_empty_def cq_example_def)
  ultimately show ?thesis
    by (intro wait_cq_error_sign [OF only_posts_id]) (simp_all add: uring_empty_def)
qed

text \<open>\<open>peek_batch_cq_entries\<close> on a queue that is not empty fills the array with the oldest
  completions, as many as fit, in order, without entering the kernel or consuming anything.\<close>

theorem peek_batch_spec:
  assumes "only_posts cfg post" and "cq_wf (ring_cq r)" and "cq_items cfg (ring_cq (post r)) \<noteq> []"
  shows "\<exists>ps. peek_batch_cq_entries post enter cfg sz r = (ps, post r) \<and>
    map (cq_cqes (ring_cq (post r))) ps = take (unat sz) (cq_items cfg (ring_cq (post r))) \<and>
    posts cfg r (post r)"
proof -
  let ?c = "ring_cq (post r)"
  have ne: "cq_ktail ?c - cq_khead ?c \<noteq> 0" using assms(3) by (simp add: cq_items_empty)
  have "unat (min sz (cq_ktail ?c - cq_khead ?c)) = min (unat sz) (cq_avail ?c)"
    by (simp add: min_def cq_avail_def word_le_nat_alt)
  then have "map (cq_cqes ?c) (map (\<lambda>i. cqe_off cfg ?c (cq_khead ?c + of_nat i))
      [0..<unat (min sz (cq_ktail ?c - cq_khead ?c))]) = take (unat sz) (cq_items cfg ?c)"
    by (simp add: cq_items_def cqe_at_def take_map comp_def min_def)
  then show ?thesis
    using ne only_postsD [OF assms(1,2)]
    by (simp add: peek_batch_cq_entries_def peek_batch_ready_def cq_ready_acquire_def Let_def)
qed

theorem peek_batch_spec_witness:
  "\<exists>ps. peek_batch_cq_entries (\<lambda>r. r) slow_kernel cfg_plain 1 uring_example = (ps, uring_example) \<and>
    map (cq_cqes cq_example) ps = [cqe_of (- 1) 0]"
  using peek_batch_spec [OF only_posts_id cq_example_wf, of cfg_plain slow_kernel 1]
  by (auto simp: cq_example_items) (simp add: uring_example_def)

end
