(* ===== verification/Uring_Init.thy ===== *)
theory Uring_Init
  imports Uring
begin

text \<open>
  Setting up and tearing down a ring (\<open>uring::init\<close>, \<open>mmap_queue\<close>, \<open>unmap_rings\<close> and the
  destructor of \<^verbatim>\<open>uring.hpp\<close>, \<open>set_offset\<close> of \<^verbatim>\<open>sq.hpp\<close> and \<^verbatim>\<open>cq.hpp\<close>). The system calls
  that acquire and release something are recorded in the order in which they are made. The
  results of \<open>io_uring_setup\<close>, \<open>mmap\<close> and \<open>io_uring_register\<close> and the memory behind the mappings
  are parameters.
\<close>

section \<open>State\<close>

record sqring_offsets =
  so_head :: u32
  so_tail :: u32
  so_ring_mask :: u32
  so_ring_entries :: u32
  so_flags :: u32
  so_array :: u32

record cqring_offsets =
  co_head :: u32
  co_tail :: u32
  co_ring_mask :: u32
  co_ring_entries :: u32
  co_cqes :: u32

record uring_params =
  par_sq_entries :: u32
  par_cq_entries :: u32
  par_flags :: u32
  par_features :: u32
  par_sq_off :: sqring_offsets
  par_cq_off :: cqring_offsets

datatype syscall = Mmap ptr u64 | Munmap ptr u64 | CloseFd u32

record ring_mem = uring +
  sq_ring_ptr :: ptr
  sq_ring_sz :: u64
  cq_ring_ptr :: ptr
  cq_ring_sz :: u64
  sqes_ptr :: ptr
  syscalls :: "syscall list"

text \<open>What the kernel and the mapped memory provide.\<close>

record ring_env =
  env_setup :: "u32 \<Rightarrow> uring_params \<Rightarrow> u32 \<times> uring_params"
  env_mmap :: "u64 \<Rightarrow> u64 \<Rightarrow> ptr"         \<comment> \<open>of the size and the offset\<close>
  env_register :: "u32 \<Rightarrow> u32 \<Rightarrow> u32 \<times> u32"
  env_errno :: int
  env_u32 :: "ptr \<Rightarrow> u32"
  env_cqe :: "ptr \<Rightarrow> cqe"
  env_sqe :: "ptr \<Rightarrow> sqe"

abbreviation (input) MAP_FAILED :: ptr where "MAP_FAILED \<equiv> - 1"
abbreviation (input) IORING_OFF_SQ_RING :: u64 where "IORING_OFF_SQ_RING \<equiv> 0"
abbreviation (input) IORING_OFF_CQ_RING :: u64 where "IORING_OFF_CQ_RING \<equiv> 134217728"
abbreviation (input) IORING_OFF_SQES :: u64 where "IORING_OFF_SQES \<equiv> 268435456"

definition IS_ERR :: "ptr \<Rightarrow> bool" where
  "IS_ERR p \<longleftrightarrow> p \<ge> - 4095"

section \<open>Operations\<close>

definition call_log :: "syscall \<Rightarrow> 'z ring_mem_scheme \<Rightarrow> 'z ring_mem_scheme" where
  "call_log c m = m\<lparr>syscalls := syscalls m @ [c]\<rparr>"

definition sq_set_offset :: "ring_env \<Rightarrow> sqring_offsets \<Rightarrow> 'z ring_mem_scheme \<Rightarrow> 'z ring_mem_scheme" where
  "sq_set_offset env off m =
     (let at = (\<lambda>o'. sq_ring_ptr m + ucast o')
      in m\<lparr>ring_sq := (ring_sq m)
        \<lparr>sq_khead := env_u32 env (at (so_head off)), sq_ktail := env_u32 env (at (so_tail off)),
         sq_ring_mask := env_u32 env (at (so_ring_mask off)),
         sq_ring_entries := env_u32 env (at (so_ring_entries off)),
         sq_kflags := env_u32 env (at (so_flags off)),
         sq_array := (\<lambda>i. env_u32 env (at (so_array off) + 4 * ucast i))\<rparr>\<rparr>)"

definition cq_set_offset :: "ring_env \<Rightarrow> cqring_offsets \<Rightarrow> 'z ring_mem_scheme \<Rightarrow> 'z ring_mem_scheme" where
  "cq_set_offset env off m =
     (let at = (\<lambda>o'. cq_ring_ptr m + ucast o')
      in m\<lparr>ring_cq := (ring_cq m)
        \<lparr>cq_khead := env_u32 env (at (co_head off)), cq_ktail := env_u32 env (at (co_tail off)),
         cq_ring_mask := env_u32 env (at (co_ring_mask off)),
         cq_ring_entries := env_u32 env (at (co_ring_entries off)),
         cq_cqes := (\<lambda>i. env_cqe env (at (co_cqes off) + 16 * ucast i))\<rparr>\<rparr>)"

definition unmap_rings :: "'z ring_mem_scheme \<Rightarrow> 'z ring_mem_scheme" where
  "unmap_rings m =
     (let m = call_log (Munmap (sq_ring_ptr m) (sq_ring_sz m)) m
      in if cq_ring_ptr m \<noteq> 0 \<and> cq_ring_ptr m \<noteq> sq_ring_ptr m
         then call_log (Munmap (cq_ring_ptr m) (cq_ring_sz m)) m else m)"

text \<open>A failed operation leaves its object behind, so the state is returned with the fault.\<close>

definition mmap_queue ::
  "ring_env \<Rightarrow> uring_params \<Rightarrow> 'z ring_mem_scheme \<Rightarrow> fault option \<times> 'z ring_mem_scheme" where
  "mmap_queue env p m =
     (let sqsz = ucast (so_array (par_sq_off p)) + ucast (par_sq_entries p) * 4;
          cqsz = ucast (co_cqes (par_cq_off p)) + ucast (par_cq_entries p) * 16;
          single = par_features p AND IORING_FEAT_SINGLE_MMAP \<noteq> 0;
          m = m\<lparr>sq_ring_sz := (if single then max sqsz cqsz else sqsz),
                cq_ring_sz := (if single then max sqsz cqsz else cqsz)\<rparr>;
          q = env_mmap env (sq_ring_sz m) IORING_OFF_SQ_RING;
          m = call_log (Mmap q (sq_ring_sz m)) (m\<lparr>sq_ring_ptr := q\<rparr>)
      in if q = MAP_FAILED then (Some (SystemError (env_errno env)), m)
      else
        (let c = (if single then q else env_mmap env (cq_ring_sz m) IORING_OFF_CQ_RING);
             m = (if single then m else call_log (Mmap c (cq_ring_sz m)) m)\<lparr>cq_ring_ptr := c\<rparr>
         in if \<not> single \<and> c = MAP_FAILED
         then (Some (SystemError (env_errno env)), unmap_rings (m\<lparr>cq_ring_ptr := 0\<rparr>))
         else
           (let m = sq_set_offset env (par_sq_off p) m;
                sz = ucast (par_sq_entries p) * 64;
                s = env_mmap env sz IORING_OFF_SQES;
                m = call_log (Mmap s sz) (m\<lparr>sqes_ptr := s,
                      ring_sqes := (\<lambda>i. env_sqe env (s + 64 * ucast i))\<rparr>)
            in if s = MAP_FAILED then (Some (SystemError (env_errno env)), unmap_rings m)
               else (None, cq_set_offset env (par_cq_off p) m))))"

definition sq_zero :: sq where
  "sq_zero = \<lparr>sq_head = 0, sq_tail = 0, sq_free_head = 0, sq_khead = 0, sq_ktail = 0, sq_ring_mask = 0,
     sq_ring_entries = 0, sq_kflags = 0, sq_array = (\<lambda>_. 0)\<rparr>"

definition cq_zero :: cq where
  "cq_zero = \<lparr>cq_khead = 0, cq_ktail = 0, cq_ring_mask = 0, cq_ring_entries = 0,
     cq_cqes = (\<lambda>_. \<lparr>cqe_user_data = 0, cqe_res = 0, cqe_flags = 0\<rparr>)\<rparr>"

definition uring_init ::
  "ring_env \<Rightarrow> uring_cfg \<Rightarrow> u32 \<Rightarrow> u32 \<Rightarrow> uring_params \<Rightarrow> 'z ring_mem_scheme \<Rightarrow>
   fault option \<times> 'z ring_mem_scheme" where
  "uring_init env cfg flags entries par m =
     (if ring_fd m \<noteq> - 1 then (Some AssertFail, m)
      else
        (let (fd, p) = env_setup env entries (par\<lparr>par_flags := flags\<rparr>)
         in if sint fd < 0 then (Some (SystemError (- sint fd)), m)
         else
           (let m = m\<lparr>ring_sq := sq_zero, ring_sqes := (\<lambda>_. ring_sqes m 0), ring_cq := cq_zero,
                      ring_fd := fd, ring_enter_fd := fd, ring_features := par_features p,
                      ring_int_flags := 0, sq_ring_ptr := 0, sq_ring_sz := 0, cq_ring_ptr := 0,
                      cq_ring_sz := 0, sqes_ptr := 0\<rparr>
            in case mmap_queue env p m of
                 (Some e, m) \<Rightarrow> (Some e, call_log (CloseFd fd) m)
               | (None, m) \<Rightarrow>
                   (let m = m\<lparr>ring_sq := sq_init_free_queue (ring_sq m)\<rparr>
                    in if cfg_reg_fd cfg
                       then (case register_ring_fd (env_register env) cfg m of
                               Inl e \<Rightarrow> (Some e, call_log (CloseFd fd) m)
                             | Inr (_, m) \<Rightarrow> (None, m))
                       else (None, m)))))"

definition uring_destroy :: "'z ring_mem_scheme \<Rightarrow> 'z ring_mem_scheme" where
  "uring_destroy m =
     (if ring_fd m = - 1 then m
      else call_log (CloseFd (ring_fd m))
        (unmap_rings (call_log (Munmap (sqes_ptr m) (ucast (sq_ring_entries (ring_sq m)) * 64)) m)))"

section \<open>Resources\<close>

fun maps_of :: "syscall list \<Rightarrow> (ptr \<times> u64) list" where
  "maps_of [] = []"
| "maps_of (Mmap p n # l) = (p, n) # maps_of l"
| "maps_of (_ # l) = maps_of l"

fun unmaps_of :: "syscall list \<Rightarrow> (ptr \<times> u64) list" where
  "unmaps_of [] = []"
| "unmaps_of (Munmap p n # l) = (p, n) # unmaps_of l"
| "unmaps_of (_ # l) = unmaps_of l"

fun closes_of :: "syscall list \<Rightarrow> u32 list" where
  "closes_of [] = []"
| "closes_of (CloseFd fd # l) = fd # closes_of l"
| "closes_of (_ # l) = closes_of l"

lemma of_append [simp]:
  "maps_of (k @ l) = maps_of k @ maps_of l"
  "unmaps_of (k @ l) = unmaps_of k @ unmaps_of l"
  "closes_of (k @ l) = closes_of k @ closes_of l"
  by (induction k rule: maps_of.induct, simp_all)+

lemma unmap_rings_log:
  "syscalls (unmap_rings m) = syscalls m @ Munmap (sq_ring_ptr m) (sq_ring_sz m) #
    (if cq_ring_ptr m \<noteq> 0 \<and> cq_ring_ptr m \<noteq> sq_ring_ptr m
     then [Munmap (cq_ring_ptr m) (cq_ring_sz m)] else [])"
  "closes_of (syscalls (unmap_rings m)) = closes_of (syscalls m)"
  "ring_fd (unmap_rings m) = ring_fd m"
  by (simp_all add: unmap_rings_def call_log_def Let_def)

lemma set_offset_fields [simp]:
  "syscalls (sq_set_offset env o1 m) = syscalls m" "syscalls (cq_set_offset env o2 m) = syscalls m"
  "ring_fd (sq_set_offset env o1 m) = ring_fd m" "ring_fd (cq_set_offset env o2 m) = ring_fd m"
  "sq_ring_ptr (cq_set_offset env o2 m) = sq_ring_ptr m" "sq_ring_ptr (sq_set_offset env o1 m) = sq_ring_ptr m"
  "cq_ring_ptr (cq_set_offset env o2 m) = cq_ring_ptr m" "cq_ring_ptr (sq_set_offset env o1 m) = cq_ring_ptr m"
  "sq_ring_sz (cq_set_offset env o2 m) = sq_ring_sz m" "sq_ring_sz (sq_set_offset env o1 m) = sq_ring_sz m"
  "cq_ring_sz (cq_set_offset env o2 m) = cq_ring_sz m" "cq_ring_sz (sq_set_offset env o1 m) = cq_ring_sz m"
  "sqes_ptr (cq_set_offset env o2 m) = sqes_ptr m" "ring_sq (cq_set_offset env o2 m) = ring_sq m"
  by (simp_all add: sq_set_offset_def cq_set_offset_def Let_def)

text \<open>What \<open>mmap_queue\<close> maps when it succeeds, and that it never closes the descriptor.\<close>

lemma mmap_queue_ok:
  assumes "mmap_queue env p m = (None, m')"
  shows "\<exists>ssz. sqes_ptr m' \<noteq> MAP_FAILED \<and> ssz = ucast (par_sq_entries p) * 64 \<and> ring_fd m' = ring_fd m \<and>
    syscalls m' = syscalls m @ Mmap (sq_ring_ptr m') (sq_ring_sz m') #
      (if par_features p AND IORING_FEAT_SINGLE_MMAP \<noteq> 0 then [] else [Mmap (cq_ring_ptr m') (cq_ring_sz m')]) @
      [Mmap (sqes_ptr m') ssz] \<and>
    (par_features p AND IORING_FEAT_SINGLE_MMAP \<noteq> 0 \<longrightarrow> cq_ring_ptr m' = sq_ring_ptr m')"
  using assms by (auto simp: mmap_queue_def Let_def call_log_def split: if_splits)

lemma mmap_queue_fd:
  "ring_fd (snd (mmap_queue env p m)) = ring_fd m \<and>
   closes_of (syscalls (snd (mmap_queue env p m))) = closes_of (syscalls m)"
  by (simp add: mmap_queue_def Let_def call_log_def unmap_rings_log)

lemma register_ring_fd_fields:
  assumes "register_ring_fd reg cfg m = Inr (x, m')"
  shows "syscalls m' = syscalls m" "ring_fd m' = ring_fd m" "sq_ring_ptr m' = sq_ring_ptr m"
    "cq_ring_ptr m' = cq_ring_ptr m" "sq_ring_sz m' = sq_ring_sz m" "cq_ring_sz m' = cq_ring_sz m"
    "sqes_ptr m' = sqes_ptr m" "ring_sq m' = ring_sq m" "ring_cq m' = ring_cq m"
  using assms by (auto simp: register_ring_fd_def Let_def split: if_splits prod.splits)

text \<open>The state before the mappings, and the three ways in which \<open>init\<close> ends once it has a descriptor.\<close>

definition init_start :: "u32 \<Rightarrow> uring_params \<Rightarrow> 'z ring_mem_scheme \<Rightarrow> 'z ring_mem_scheme" where
  "init_start fd p m = m\<lparr>ring_sq := sq_zero, ring_sqes := (\<lambda>_. ring_sqes m 0), ring_cq := cq_zero,
     ring_fd := fd, ring_enter_fd := fd, ring_features := par_features p, ring_int_flags := 0,
     sq_ring_ptr := 0, sq_ring_sz := 0, cq_ring_ptr := 0, cq_ring_sz := 0, sqes_ptr := 0\<rparr>"

lemma init_start_fields [simp]:
  "syscalls (init_start fd p m) = syscalls m" "ring_fd (init_start fd p m) = fd"
  "ring_sq (init_start fd p m) = sq_zero" "ring_cq (init_start fd p m) = cq_zero"
  by (simp_all add: init_start_def)

lemma uring_init_cases:
  assumes "uring_init env cfg flags entries par m = (res, m')" and "ring_fd m = - 1"
    and "env_setup env entries (par\<lparr>par_flags := flags\<rparr>) = (fd, p)" and "0 \<le> sint fd"
  obtains (ok) m1 where "mmap_queue env p (init_start fd p m) = (None, m1)" and "res = None"
      and "syscalls m' = syscalls m1" and "ring_fd m' = ring_fd m1" and "sq_ring_ptr m' = sq_ring_ptr m1"
      and "cq_ring_ptr m' = cq_ring_ptr m1" and "sq_ring_sz m' = sq_ring_sz m1"
      and "cq_ring_sz m' = cq_ring_sz m1" and "sqes_ptr m' = sqes_ptr m1"
      and "ring_sq m' = sq_init_free_queue (ring_sq m1)" and "ring_cq m' = ring_cq m1"
  | (failed) e m1 where "res = Some e" and "m' = call_log (CloseFd fd) m1" and "ring_fd m1 = fd"
      and "closes_of (syscalls m1) = closes_of (syscalls m)"
proof -
  let ?s = "init_start fd p m"
  have i: "uring_init env cfg flags entries par m =
      (case mmap_queue env p ?s of
         (Some e, m) \<Rightarrow> (Some e, call_log (CloseFd fd) m)
       | (None, m) \<Rightarrow>
           (let m = m\<lparr>ring_sq := sq_init_free_queue (ring_sq m)\<rparr>
            in if cfg_reg_fd cfg
               then (case register_ring_fd (env_register env) cfg m of
                       Inl e \<Rightarrow> (Some e, call_log (CloseFd fd) m)
                     | Inr (_, m) \<Rightarrow> (None, m))
               else (None, m)))"
    using assms(2-4) by (simp add: uring_init_def init_start_def)
  obtain q m1 where q: "mmap_queue env p ?s = (q, m1)" by (metis surj_pair)
  have f: "ring_fd m1 = fd" "closes_of (syscalls m1) = closes_of (syscalls m)"
    using mmap_queue_fd [of env p ?s] q by simp_all
  show thesis
  proof (cases q)
    case (Some e)
    with i q f assms(1) show thesis by (intro failed [of e m1]) simp_all
  next
    case None
    let ?m = "m1\<lparr>ring_sq := sq_init_free_queue (ring_sq m1)\<rparr>"
    show thesis
    proof (cases "cfg_reg_fd cfg")
      case False
      with None i q assms(1) show thesis by (intro ok [of m1]) (auto simp: Let_def)
    next
      case True
      show thesis
      proof (cases "register_ring_fd (env_register env) cfg ?m")
        case (Inl e)
        with True None i q f assms(1) show thesis by (intro failed [of e ?m]) (auto simp: Let_def)
      next
        case (Inr x)
        obtain ret m2 where x: "x = (ret, m2)" by (metis surj_pair)
        have "m' = m2" "res = None" using True None i q assms(1) Inr x by (auto simp: Let_def)
        with register_ring_fd_fields [OF Inr [unfolded x]] None q show thesis
          by (intro ok [of m1]) simp_all
      qed
    qed
  qed
qed

text \<open>C16. A ring whose \<open>init\<close> succeeds gives back what it took: when it is destroyed, every mapping
  that \<open>init\<close> made is removed exactly once with the address and the size it was made with, and
  the descriptor is closed exactly once.\<close>

theorem uring_balanced:
  assumes "uring_init env cfg flags entries par m = (None, m')" and "ring_fd m = - 1" and "syscalls m = []"
    and "env_setup env entries (par\<lparr>par_flags := flags\<rparr>) = (fd, p)" and "0 \<le> sint fd"
    and "sq_ring_entries (ring_sq m') = par_sq_entries p"
    and "par_features p AND IORING_FEAT_SINGLE_MMAP = 0 \<Longrightarrow> cq_ring_ptr m' \<noteq> 0 \<and> cq_ring_ptr m' \<noteq> sq_ring_ptr m'"
  shows "mset (unmaps_of (syscalls (uring_destroy m'))) = mset (maps_of (syscalls (uring_destroy m'))) \<and>
    closes_of (syscalls (uring_destroy m')) = [fd]"
  using assms(1,2,4,5)
proof (cases rule: uring_init_cases)
  case (ok m1)
  from mmap_queue_ok [OF ok(1)] ok(3-9) have
    log: "syscalls m' = Mmap (sq_ring_ptr m') (sq_ring_sz m') #
      (if par_features p AND IORING_FEAT_SINGLE_MMAP \<noteq> 0 then [] else [Mmap (cq_ring_ptr m') (cq_ring_sz m')]) @
      [Mmap (sqes_ptr m') (ucast (par_sq_entries p) * 64)]"
    and fd: "ring_fd m' = fd"
    and same: "par_features p AND IORING_FEAT_SINGLE_MMAP \<noteq> 0 \<longrightarrow> cq_ring_ptr m' = sq_ring_ptr m'"
    using assms(3) by auto
  have "fd \<noteq> - 1" using assms(5) by auto
  then show ?thesis
    using log fd same assms(6,7) by (auto simp: uring_destroy_def call_log_def unmap_rings_log)
next
  case (failed e m1)
  then show ?thesis by simp
qed

text \<open>When \<open>init\<close> fails after it has got a descriptor, it closes the descriptor but keeps its
  number, and the destructor of the same object closes that number a second time.\<close>

theorem init_failure_closes_twice:
  assumes "uring_init env cfg flags entries par m = (Some e, m')" and "ring_fd m = - 1" and "syscalls m = []"
    and "env_setup env entries (par\<lparr>par_flags := flags\<rparr>) = (fd, p)" and "0 \<le> sint fd"
  shows "closes_of (syscalls m') = [fd] \<and> closes_of (syscalls (uring_destroy m')) = [fd, fd]"
  using assms(1,2,4,5)
proof (cases rule: uring_init_cases)
  case (failed e' m1)
  have "fd \<noteq> - 1" using assms(5) by auto
  with failed assms(3) show ?thesis
    by (simp add: uring_destroy_def call_log_def unmap_rings_log(2,3))
next
  case (ok m1)
  then show ?thesis by simp
qed

text \<open>A kernel with one mapping for both rings, two submission entries and four completions.\<close>

definition params_example :: uring_params where
  "params_example = \<lparr>par_sq_entries = 2, par_cq_entries = 4, par_flags = 0, par_features = 257,
     par_sq_off = \<lparr>so_head = 0, so_tail = 4, so_ring_mask = 8, so_ring_entries = 12, so_flags = 16,
       so_array = 100\<rparr>,
     par_cq_off = \<lparr>co_head = 20, co_tail = 24, co_ring_mask = 28, co_ring_entries = 32, co_cqes = 36\<rparr>\<rparr>"

definition env_example :: "(u64 \<Rightarrow> u64 \<Rightarrow> ptr) \<Rightarrow> ring_env" where
  "env_example mm = \<lparr>env_setup = (\<lambda>n p. (3, params_example)), env_mmap = mm,
     env_register = (\<lambda>fd off. (1, 0)), env_errno = 12,
     env_u32 = (\<lambda>a. if a = 4104 then 1 else if a = 4108 then 2 else if a = 4124 then 3
       else if a = 4128 then 4 else 0),
     env_cqe = (\<lambda>_. cqe_of 0 0), env_sqe = (\<lambda>_. sqe_example)\<rparr>"

definition mem_example :: ring_mem where
  "mem_example = \<lparr>ring_sq = sq_zero, ring_sqes = (\<lambda>_. sqe_example), ring_cq = cq_zero, ring_fd = - 1,
     ring_features = 0, ring_enter_fd = 0, ring_int_flags = 0, sq_ring_ptr = 0, sq_ring_sz = 0,
     cq_ring_ptr = 0, cq_ring_sz = 0, sqes_ptr = 0, syscalls = []\<rparr>"

definition good_mmap :: "u64 \<Rightarrow> u64 \<Rightarrow> ptr" where
  "good_mmap n off = (if off = IORING_OFF_SQES then 8192 else 4096)"

lemmas init_eval = uring_init_def mmap_queue_def env_example_def params_example_def mem_example_def
  sq_set_offset_def cq_set_offset_def call_log_def register_ring_fd_def sq_init_free_queue_def
  good_mmap_def cfg_plain_def Let_def

lemma init_example:
  obtains m where "uring_init (env_example good_mmap) cfg_plain 0 2 params_example mem_example = (None, m)"
    and "sq_ring_entries (ring_sq m) = 2"
proof -
  have "fst (uring_init (env_example good_mmap) cfg_plain 0 2 params_example mem_example) = None \<and>
    sq_ring_entries (ring_sq (snd (uring_init (env_example good_mmap) cfg_plain 0 2 params_example mem_example))) = 2"
    by (simp add: init_eval)
  then show thesis using that by (metis prod.collapse)
qed

theorem uring_balanced_witness:
  "\<exists>m. uring_init (env_example good_mmap) cfg_plain 0 2 params_example mem_example = (None, m) \<and>
    closes_of (syscalls (uring_destroy m)) = [3]"
proof -
  obtain m where m: "uring_init (env_example good_mmap) cfg_plain 0 2 params_example mem_example = (None, m)"
    and n: "sq_ring_entries (ring_sq m) = 2" by (rule init_example)
  have "env_setup (env_example good_mmap) 2 (params_example\<lparr>par_flags := 0\<rparr>) = (3, params_example)"
    by (simp add: env_example_def)
  from uring_balanced [OF m _ _ this] n show ?thesis
    using m by (simp add: mem_example_def params_example_def)
qed

theorem init_failure_closes_twice_witness:
  "closes_of (syscalls (uring_destroy (snd (uring_init (env_example (\<lambda>_ _. MAP_FAILED)) cfg_plain 0 2
    params_example mem_example)))) = [3, 3]"
proof -
  let ?i = "uring_init (env_example (\<lambda>_ _. MAP_FAILED)) cfg_plain 0 2 params_example mem_example"
  have f: "fst ?i = Some (SystemError 12)" by (simp add: init_eval)
  have i: "?i = (Some (SystemError 12), snd ?i)" by (simp flip: f)
  have "env_setup (env_example (\<lambda>_ _. MAP_FAILED)) 2 (params_example\<lparr>par_flags := 0\<rparr>) = (3, params_example)"
    by (simp add: env_example_def)
  from init_failure_closes_twice [OF i _ _ this] show ?thesis by (simp add: mem_example_def)
qed

section \<open>What a fresh ring is\<close>

lemma sq_extend_init: "sq.extend (sq_init_free_queue q) g = sq_init_free_queue (sq.extend q g)"
  by (cases q) (simp add: sq_init_free_queue_def sq.defs cong: if_cong)

lemma sq_extend_fields:
  fixes q :: sq
  defines "e \<equiv> sq.extend q \<lparr>held = [], appended = [], consumed = []\<rparr>"
  shows "sq_head e = sq_head q" "sq_tail e = sq_tail q" "sq_free_head e = sq_free_head q"
    "sq_khead e = sq_khead q" "sq_ktail e = sq_ktail q" "sq_ring_mask e = sq_ring_mask q"
    "sq_ring_entries e = sq_ring_entries q" "held e = []" "appended e = []" "consumed e = []"
  by (simp_all add: e_def sq.defs)

lemma sq_init_free_queue_fields:
  "sq_ring_mask (sq_init_free_queue q) = sq_ring_mask q"
  "sq_ring_entries (sq_init_free_queue q) = sq_ring_entries q"
  "sq_khead (sq_init_free_queue q) = sq_khead q" "sq_ktail (sq_init_free_queue q) = sq_ktail q"
  by (simp_all add: sq_init_free_queue_def)

text \<open>A successful \<open>init\<close> establishes what the operations of the two queues rely on: the
  submission queue is a fresh one (its cursors at 0, every slot free, each slot number once in
  the ring) and the completion queue is well-formed and empty, provided the kernel set up the
  rings it describes: sizes that are powers of two, their masks, and cursors at 0.\<close>

theorem init_establishes:
  assumes "uring_init env cfg flags entries par m = (None, m')" and "ring_fd m = - 1"
    and "env_setup env entries (par\<lparr>par_flags := flags\<rparr>) = (fd, p)" and "0 \<le> sint fd"
    and "pow2_cap (sq_ring_entries (ring_sq m')) k" and "sq_ring_mask (ring_sq m') = sq_ring_entries (ring_sq m') - 1"
    and "sq_khead (ring_sq m') = 0" and "sq_ktail (ring_sq m') = 0"
    and "pow2_cap (cq_ring_entries (ring_cq m')) l" and "cq_ring_mask (ring_cq m') = cq_ring_entries (ring_cq m') - 1"
    and "cq_khead (ring_cq m') = 0" and "cq_ktail (ring_cq m') = 0"
  shows "sq_fresh k (sq.extend (ring_sq m') \<lparr>held = [], appended = [], consumed = []\<rparr>) \<and>
    cq_wf (ring_cq m') \<and> cq_items cfg (ring_cq m') = []"
  using assms(1,2,3,4)
proof (cases rule: uring_init_cases)
  case (ok m1)
  have z: "sq_head (ring_sq m1) = 0" "sq_tail (ring_sq m1) = 0" "sq_free_head (ring_sq m1) = 0"
    using ok(1) by (auto simp: mmap_queue_def sq_set_offset_def cq_set_offset_def call_log_def Let_def
        sq_zero_def init_start_def split: if_splits)
  let ?g = "\<lparr>held = [], appended = [], consumed = []\<rparr>"
  have "sq.extend (ring_sq m') ?g = sq_init_free_queue (sq.extend (ring_sq m1) ?g)"
    unfolding ok(10) by (rule sq_extend_init)
  then have "sq_fresh k (sq.extend (ring_sq m') ?g)"
    unfolding sq_fresh_def using z assms(5-8) [unfolded ok(10) sq_init_free_queue_fields]
    by (intro exI [of _ "sq.extend (ring_sq m1) ?g"]) (simp add: sq_extend_fields)
  moreover have "cq_wf (ring_cq m')" using assms(9-12) by (auto simp: cq_wf_def)
  ultimately show ?thesis using assms(11,12) by (simp add: cq_items_empty)
next
  case (failed e m1)
  then show ?thesis by simp
qed

theorem init_establishes_witness:
  "\<exists>m. uring_init (env_example good_mmap) cfg_plain 0 2 params_example mem_example = (None, m) \<and>
    sq_fresh 1 (sq.extend (ring_sq m) \<lparr>held = [], appended = [], consumed = []\<rparr>)"
proof -
  obtain m where m: "uring_init (env_example good_mmap) cfg_plain 0 2 params_example mem_example = (None, m)"
    by (rule init_example)
  then have "m = snd (uring_init (env_example good_mmap) cfg_plain 0 2 params_example mem_example)" by simp
  then have sq: "sq_ring_entries (ring_sq m) = 2" "sq_ring_mask (ring_sq m) = 1"
      "sq_khead (ring_sq m) = 0" "sq_ktail (ring_sq m) = 0"
    and cq: "cq_ring_entries (ring_cq m) = 4" "cq_ring_mask (ring_cq m) = 3"
      "cq_khead (ring_cq m) = 0" "cq_ktail (ring_cq m) = 0"
    by (simp_all add: init_eval)
  have e: "env_setup (env_example good_mmap) 2 (params_example\<lparr>par_flags := 0\<rparr>) = (3, params_example)"
    by (simp add: env_example_def)
  have "pow2_cap (sq_ring_entries (ring_sq m)) 1" "pow2_cap (cq_ring_entries (ring_cq m)) 2"
    by (simp_all add: sq cq pow2_cap_def)
  with m have "sq_fresh 1 (sq.extend (ring_sq m) \<lparr>held = [], appended = [], consumed = []\<rparr>) \<and>
    cq_wf (ring_cq m) \<and> cq_items cfg_plain (ring_cq m) = []"
    by (intro init_establishes [OF m _ e]) (simp_all add: sq cq mem_example_def)
  with m show ?thesis by blast
qed

text \<open>The architecture's own wrapper of \<open>mmap\<close> returns the negated error number as an address,
  and \<open>mmap_queue\<close> compares with \<open>MAP_FAILED\<close> only: a mapping that fails for want of memory is
  taken for a good one, and the ring is set up over the error number.\<close>

theorem mmap_error_missed:
  assumes "env_mmap env n IORING_OFF_SQ_RING = q" and "IS_ERR q" and "q \<noteq> MAP_FAILED"
    and "par_features p AND IORING_FEAT_SINGLE_MMAP \<noteq> 0"
    and "n = max (ucast (so_array (par_sq_off p)) + ucast (par_sq_entries p) * 4)
      (ucast (co_cqes (par_cq_off p)) + ucast (par_cq_entries p) * 16)"
    and "env_mmap env (ucast (par_sq_entries p) * 64) IORING_OFF_SQES \<noteq> MAP_FAILED"
  shows "\<exists>m'. mmap_queue env p m = (None, m') \<and> IS_ERR (sq_ring_ptr m')"
  using assms by (simp add: mmap_queue_def Let_def call_log_def)

theorem mmap_error_missed_witness:
  "\<exists>m'. mmap_queue (env_example (\<lambda>_ _. - 12)) params_example mem_example = (None, m') \<and>
    IS_ERR (sq_ring_ptr m')"
  by (rule mmap_error_missed [OF refl]) (simp_all add: env_example_def params_example_def IS_ERR_def)

end
