(* ===== verification/Worker.thy ===== *)
theory Worker
  imports Uring_Init Spsc_Cursor
begin

text \<open>
  The worker of an \<open>io_context\<close>, \<^verbatim>\<open>detail/worker_meta.hpp\<close> and \<^verbatim>\<open>lib/co_context/detail/worker_meta.cpp\<close>:
  its ring, the circular queue of coroutines that are ready to run, and the dispatch of
  completions by the tag in the low bits of their user data. The memory of the \<open>task_info\<close> objects
  is two maps from their addresses. What depends on the version of the kernel is a parameter.
\<close>

section \<open>State\<close>

record wk_cfg =
  wc_ring :: uring_cfg
  wc_eventfd :: bool      \<comment> \<open>\<open>CO_CONTEXT_IS_USING_EVENTFD\<close>: before Linux 5.18\<close>
  wc_skip :: bool         \<comment> \<open>Linux 5.17\<close>
  wc_swap_capacity :: u32
  wc_threshold :: u32     \<comment> \<open>\<open>submission_threshold\<close>\<close>

record worker =
  wk_swap :: "u32 \<Rightarrow> handle"
  wk_cur :: "u32 cursor"
  wk_to_reap :: u32
  wk_to_submit :: u32
  wk_co_spawn_queue :: "handle list"
  wk_event_fd :: u32
  wk_event_buf :: ptr
  wk_ring_fd :: u32
  ti_handle :: "ptr \<Rightarrow> handle"
  ti_result :: "ptr \<Rightarrow> u32"

type_synonym ('z, 'y) wstate = "'z uring_scheme \<times> 'y worker_scheme"

text \<open>The numbers of \<open>reserved_user_data\<close> and \<open>user_data_type\<close>.\<close>

definition rud_nop :: "wk_cfg \<Rightarrow> u64" where
  "rud_nop P = (if wc_eventfd P then 1 else 0)"

definition rud_none :: "wk_cfg \<Rightarrow> u64" where
  "rud_none P = (if wc_eventfd P then 2 else 1)"

abbreviation (input) rud_co_spawn_event :: u64 where "rud_co_spawn_event \<equiv> 0"

abbreviation (input) mux_task_info_ptr :: u64 where "mux_task_info_ptr \<equiv> 0"
abbreviation (input) mux_coroutine_handle :: u64 where "mux_coroutine_handle \<equiv> 1"
abbreviation (input) mux_link_sqe :: u64 where "mux_link_sqe \<equiv> 2"
abbreviation (input) mux_msg_ring :: u64 where "mux_msg_ring \<equiv> 3"
abbreviation (input) mux_none :: u64 where "mux_none \<equiv> 4"

definition raw_task_info_mask :: u64 where
  "raw_task_info_mask = NOT 7"

section \<open>The queue of ready coroutines\<close>

definition has_task_ready :: "'y worker_scheme \<Rightarrow> bool" where
  "has_task_ready w \<longleftrightarrow> \<not> cursor_is_empty (wk_cur w)"

definition number_to_schedule :: "'y worker_scheme \<Rightarrow> u32" where
  "number_to_schedule w = cursor_size (wk_cur w)"

definition forward_task :: "wk_cfg \<Rightarrow> handle \<Rightarrow> 'y worker_scheme \<Rightarrow> 'y worker_scheme result" where
  "forward_task P h w =
     (if h = 0 then Inl AssertFail
      else Inr (w\<lparr>wk_swap := (wk_swap w)(cursor_tail (wc_swap_capacity P) (wk_cur w) := h),
                  wk_cur := cursor_push 1 (wk_cur w)\<rparr>))"

definition schedule :: "wk_cfg \<Rightarrow> 'y worker_scheme \<Rightarrow> (handle \<times> 'y worker_scheme) result" where
  "schedule P w =
     (if cursor_is_empty (wk_cur w) then Inl AssertFail
      else (let h = wk_swap w (cursor_head (wc_swap_capacity P) (wk_cur w));
                w = w\<lparr>wk_cur := cursor_pop 1 (wk_cur w)\<rparr>
            in if h = 0 then Inl AssertFail else Inr (h, w)))"

definition wk_co_spawn_unsafe :: "wk_cfg \<Rightarrow> handle \<Rightarrow> 'y worker_scheme \<Rightarrow> 'y worker_scheme result" where
  "wk_co_spawn_unsafe P h w = forward_task P h w"

text \<open>\<open>coro.resume()\<close> is a parameter: what the coroutine does until it suspends again.\<close>

type_synonym ('z, 'y) resume_fun = "handle \<Rightarrow> 'z uring_scheme \<Rightarrow> 'y worker_scheme \<Rightarrow> ('z, 'y) wstate result"

definition work_once ::
  "wk_cfg \<Rightarrow> ('z, 'y) resume_fun \<Rightarrow> 'z uring_scheme \<Rightarrow> 'y worker_scheme \<Rightarrow> ('z, 'y) wstate result" where
  "work_once P resume r w = (case schedule P w of Inl e \<Rightarrow> Inl e | Inr (h, w) \<Rightarrow> resume h r w)"

section \<open>Submission\<close>

definition upd_sqe :: "u32 \<Rightarrow> (sqe \<Rightarrow> sqe) \<Rightarrow> 'z uring_scheme \<Rightarrow> 'z uring_scheme" where
  "upd_sqe e f r = r\<lparr>ring_sqes := (ring_sqes r)(e := f (ring_sqes r e))\<rparr>"

definition get_free_sqe ::
  "wk_cfg \<Rightarrow> 'z uring_scheme \<Rightarrow> 'y worker_scheme \<Rightarrow> (u32 \<times> ('z, 'y) wstate) result" where
  "get_free_sqe P r w =
     (let w = w\<lparr>wk_to_reap := wk_to_reap w + 1, wk_to_submit := wk_to_submit w + 1\<rparr>
      in case uring_get_sq_entry (wc_ring P) r of
           (None, r) \<Rightarrow> Inl AssertFail
         | (Some e, r) \<Rightarrow> Inr (e, r, w))"

definition listen_on_co_spawn ::
  "wk_cfg \<Rightarrow> 'z uring_scheme \<Rightarrow> 'y worker_scheme \<Rightarrow> ('z, 'y) wstate result" where
  "listen_on_co_spawn P r w =
     (case get_free_sqe P r w of
        Inl e \<Rightarrow> Inl e
      | Inr (e, r, w) \<Rightarrow>
          Inr (upd_sqe e (set_data rud_co_spawn_event \<circ> prep_read (wk_event_fd w) (wk_event_buf w) 8 0) r, w))"

text \<open>The state is that of the worker of the calling thread, \<open>fd\<close> the ring of the target.\<close>

definition co_spawn_safe_msg_ring ::
  "wk_cfg \<Rightarrow> u32 \<Rightarrow> handle \<Rightarrow> 'z uring_scheme \<Rightarrow> 'y worker_scheme \<Rightarrow> ('z, 'y) wstate result" where
  "co_spawn_safe_msg_ring P fd h r w =
     (case get_free_sqe P r w of
        Inl e \<Rightarrow> Inl e
      | Inr (e, r, w) \<Rightarrow>
          (let r = upd_sqe e (set_data (rud_nop P) \<circ> prep_msg_ring fd 0 (h OR mux_msg_ring) 0) r
           in if wc_skip P
              then Inr (upd_sqe e set_cqe_skip r, w\<lparr>wk_to_reap := wk_to_reap w - 1\<rparr>)
              else Inr (r, w)))"

text \<open>The queue is protected by a mutex; the number written to the event counter is the second
  component of the result.\<close>

definition co_spawn_safe_eventfd :: "handle \<Rightarrow> 'y worker_scheme \<Rightarrow> 'y worker_scheme \<times> nat" where
  "co_spawn_safe_eventfd h w = (w\<lparr>wk_co_spawn_queue := wk_co_spawn_queue w @ [h]\<rparr>, 1)"

definition poll_submission ::
  "'z kernel_enter \<Rightarrow> wk_cfg \<Rightarrow> 'z uring_scheme \<Rightarrow> 'y worker_scheme \<Rightarrow> ('z, 'y) wstate result" where
  "poll_submission enter P r w =
     (if wk_to_submit w \<noteq> 0
      then (let will_wait = \<not> has_task_ready w;
                (res, r) = submit_and_wait enter (wc_ring P) (of_bool will_wait) r
            in if 0 \<le> sint res \<or> res = - 4 then Inr (r, w\<lparr>wk_to_submit := 0\<rparr>) else Inl AssertFail)
      else Inr (r, w))"

definition check_submission_threshold ::
  "'z kernel_enter \<Rightarrow> wk_cfg \<Rightarrow> 'z uring_scheme \<Rightarrow> 'y worker_scheme \<Rightarrow> ('z, 'y) wstate result" where
  "check_submission_threshold enter P r w =
     (if wc_threshold P \<noteq> - 1 \<and> wk_to_submit w \<ge> wc_threshold P
      then (let (res, r) = submit_and_get_events enter (wc_ring P) r
            in if 0 \<le> sint res then Inr (r, w\<lparr>wk_to_submit := 0\<rparr>) else Inl AssertFail)
      else Inr (r, w))"

section \<open>Completion\<close>

primrec forward_all :: "wk_cfg \<Rightarrow> handle list \<Rightarrow> 'y worker_scheme \<Rightarrow> 'y worker_scheme result" where
  "forward_all P [] w = Inr w"
| "forward_all P (h # hs) w = (case forward_task P h w of Inl e \<Rightarrow> Inl e | Inr w \<Rightarrow> forward_all P hs w)"

definition handle_co_spawn_events ::
  "wk_cfg \<Rightarrow> 'z uring_scheme \<Rightarrow> 'y worker_scheme \<Rightarrow> ('z, 'y) wstate result" where
  "handle_co_spawn_events P r w =
     (let hs = wk_co_spawn_queue w; w = w\<lparr>wk_co_spawn_queue := []\<rparr>
      in if unat (cursor_available_number (wc_swap_capacity P) (wk_cur w)) < length hs
         then Inl Terminate
         else (case forward_all P hs w of Inl e \<Rightarrow> Inl e | Inr w \<Rightarrow> listen_on_co_spawn P r w))"

definition handle_reserved_user_data ::
  "wk_cfg \<Rightarrow> u64 \<Rightarrow> 'z uring_scheme \<Rightarrow> 'y worker_scheme \<Rightarrow> ('z, 'y) wstate result" where
  "handle_reserved_user_data P ud r w =
     (if wc_eventfd P \<and> ud = rud_co_spawn_event then handle_co_spawn_events P r w else Inr (r, w))"

text \<open>The switch on the tag.\<close>

definition dispatch_user_data :: "wk_cfg \<Rightarrow> u64 \<Rightarrow> u32 \<Rightarrow> 'y worker_scheme \<Rightarrow> 'y worker_scheme result" where
  "dispatch_user_data P ud res w =
     (let sel = ud AND 7; p = ud AND raw_task_info_mask
      in if sel \<ge> mux_none then Inl AssertFail
         else if sel = mux_task_info_ptr
           then forward_task P (ti_handle w p) (w\<lparr>ti_result := (ti_result w)(p := res)\<rparr>)
         else if sel = mux_coroutine_handle then forward_task P p w
         else if sel = mux_link_sqe then Inr (w\<lparr>ti_result := (ti_result w)(p := res)\<rparr>)
         else (case forward_task P p w of
                 Inl e \<Rightarrow> Inl e
               | Inr w \<Rightarrow> Inr (w\<lparr>wk_to_reap := wk_to_reap w + 1\<rparr>)))"

definition handle_cq_entry :: "wk_cfg \<Rightarrow> cqe \<Rightarrow> 'z uring_scheme \<Rightarrow> 'y worker_scheme \<Rightarrow> ('z, 'y) wstate result" where
  "handle_cq_entry P e r w =
     (let w = w\<lparr>wk_to_reap := wk_to_reap w - 1\<rparr>; ud = cqe_user_data e
      in case cq_advance 1 r of
           Inl x \<Rightarrow> Inl x
         | Inr r \<Rightarrow>
             if ud < rud_none P then handle_reserved_user_data P ud r w
             else (case dispatch_user_data P ud (cqe_res e) w of Inl x \<Rightarrow> Inl x | Inr w \<Rightarrow> Inr (r, w)))"

definition poll_completion ::
  "'z kernel_post \<Rightarrow> wk_cfg \<Rightarrow> 'z uring_scheme \<Rightarrow> 'y worker_scheme \<Rightarrow> (u32 \<times> ('z, 'y) wstate) result option" where
  "poll_completion post P r w = for_each_cqe post (handle_cq_entry P) (wc_ring P) r w"

text \<open>The results of both calls are ignored by the worker, apart from whether there is an entry.\<close>

definition wait_uring :: "'z kernel_post \<Rightarrow> 'z kernel_enter \<Rightarrow> wk_cfg \<Rightarrow> 'z uring_scheme \<Rightarrow> 'z uring_scheme option" where
  "wait_uring post enter P r =
     (case wait_cq_entry post enter (wc_ring P) r of None \<Rightarrow> None | Some (err, p, r) \<Rightarrow> Some r)"

definition peek_uring ::
  "'z kernel_post \<Rightarrow> 'z kernel_enter \<Rightarrow> wk_cfg \<Rightarrow> 'z uring_scheme \<Rightarrow> (bool \<times> 'z uring_scheme) option" where
  "peek_uring post enter P r =
     (case peek_cq_entry post enter (wc_ring P) r of None \<Rightarrow> None | Some (err, p, r) \<Rightarrow> Some (p \<noteq> None, r))"

text \<open>\<open>init\<close> without the set-up of the ring, which \<open>uring_init\<close> models: the check of its size.\<close>

definition check_init :: "u32 \<Rightarrow> 'z uring_scheme \<Rightarrow> bool" where
  "check_init expect r \<longleftrightarrow> \<not> sq_ring_entries (ring_sq r) < expect"

definition worker_init ::
  "ring_env \<Rightarrow> wk_cfg \<Rightarrow> u32 \<Rightarrow> u32 \<Rightarrow> 'z ring_mem_scheme \<Rightarrow> 'y worker_scheme \<Rightarrow>
   ('z ring_mem_scheme \<times> 'y worker_scheme) result" where
  "worker_init env P flags entries m w =
     (case uring_init env (wc_ring P) flags entries
             \<lparr>par_sq_entries = 0, par_cq_entries = 0, par_flags = flags, par_features = 0,
              par_sq_off = \<lparr>so_head = 0, so_tail = 0, so_ring_mask = 0, so_ring_entries = 0, so_flags = 0, so_array = 0\<rparr>,
              par_cq_off = \<lparr>co_head = 0, co_tail = 0, co_ring_mask = 0, co_ring_entries = 0, co_cqes = 0\<rparr>\<rparr> m of
        (Some e, m) \<Rightarrow> Inl e
      | (None, m) \<Rightarrow>
          (let w = (if wc_eventfd P then w else w\<lparr>wk_ring_fd := ring_fd m\<rparr>)
           in if check_init entries m then Inr (m, w) else Inl Terminate))"

text \<open>
  With an eventfd the constructor opens it (the result of the call is an argument), and the destructor
  closes it; without, both are the default.
\<close>

definition worker_new :: "wk_cfg \<Rightarrow> u32 \<Rightarrow> 'y worker_scheme \<Rightarrow> 'y worker_scheme result" where
  "worker_new P eventfd_result w =
     (if \<not> wc_eventfd P then Inr w
      else if eventfd_result = - 1 then Inl Terminate else Inr (w\<lparr>wk_event_fd := eventfd_result\<rparr>))"

definition worker_destroy :: "wk_cfg \<Rightarrow> 'y worker_scheme \<Rightarrow> u32 list" where
  "worker_destroy P w = (if wc_eventfd P \<and> wk_event_fd w \<noteq> - 1 then [wk_event_fd w] else [])"

lemma worker_closes_eventfd:
  "worker_new P fd w = Inr w' \<Longrightarrow> worker_destroy P w' = (if wc_eventfd P then [fd] else [])"
  by (auto simp: worker_new_def worker_destroy_def split: if_splits)

section \<open>The queue as a list\<close>

definition ready :: "wk_cfg \<Rightarrow> 'y worker_scheme \<Rightarrow> handle list" where
  "ready P w = ring_items (wk_swap w) (wc_swap_capacity P) (m_head (wk_cur w)) (cursor_count (wk_cur w))"

definition wk_ok :: "nat \<Rightarrow> wk_cfg \<Rightarrow> 'y worker_scheme \<Rightarrow> bool" where
  "wk_ok k P w \<longleftrightarrow> pow2_cap (wc_swap_capacity P) k \<and> cursor_ok k (wk_cur w) \<and> 0 \<notin> set (ready P w)"

lemma length_ready [simp]: "length (ready P w) = cursor_count (wk_cur w)"
  by (simp add: ready_def)

lemma ready_cong: "wk_swap w = wk_swap v \<Longrightarrow> wk_cur w = wk_cur v \<Longrightarrow> ready P w = ready P v"
  by (simp add: ready_def)

lemma wk_ok_cong: "wk_swap w = wk_swap v \<Longrightarrow> wk_cur w = wk_cur v \<Longrightarrow> wk_ok k P w = wk_ok k P v"
  by (simp add: wk_ok_def ready_def)

lemma has_task_ready_iff: "has_task_ready w \<longleftrightarrow> ready P w \<noteq> []"
  by (metis has_task_ready_def cursor_is_empty_iff length_ready length_0_conv)

lemma number_to_schedule_ready: "unat (number_to_schedule w) = length (ready P w)"
  by (simp add: number_to_schedule_def unat_cursor_size)

lemma forward_task_ready:
  assumes ok: "wk_ok k P w" and "h \<noteq> 0" and n: "length (ready P w) < 2 ^ k"
  obtains w' where "forward_task P h w = Inr w'" and "ready P w' = ready P w @ [h]" and "wk_ok k P w'"
    and "wk_to_reap w' = wk_to_reap w" and "wk_to_submit w' = wk_to_submit w"
    and "ti_handle w' = ti_handle w" and "ti_result w' = ti_result w"
proof -
  let ?w = "w\<lparr>wk_swap := (wk_swap w)(cursor_tail (wc_swap_capacity P) (wk_cur w) := h),
    wk_cur := cursor_push 1 (wk_cur w)\<rparr>"
  have cap: "pow2_cap (wc_swap_capacity P) k" and c: "cursor_ok k (wk_cur w)" and z: "0 \<notin> set (ready P w)"
    using ok by (simp_all add: wk_ok_def)
  have n': "cursor_count (wk_cur w) < 2 ^ k" using n by simp
  note push = cursor_ok_push1 [OF cap c n']
  have "ready P ?w = ready P w @ [h]"
    using ring_items_push [OF cap n', of "wk_swap w" "m_head (wk_cur w)" h]
    by (simp add: ready_def push(1) cursor_tail_index)
  moreover from this have "wk_ok k P ?w" using cap push(2) z assms(2) by (simp add: wk_ok_def)
  ultimately show thesis using assms(2) by (intro that [of ?w]) (simp_all add: forward_task_def)
qed

lemma schedule_ready:
  assumes ok: "wk_ok k P w" and r: "ready P w = h # hs"
  obtains w' where "schedule P w = Inr (h, w')" and "ready P w' = hs" and "wk_ok k P w'"
    and "w' = w\<lparr>wk_cur := cursor_pop 1 (wk_cur w)\<rparr>"
proof -
  let ?w = "w\<lparr>wk_cur := cursor_pop 1 (wk_cur w)\<rparr>"
  have n: "cursor_count (wk_cur w) = Suc (length hs)" using r by (metis length_Cons length_ready)
  then have h: "wk_swap w (cursor_head (wc_swap_capacity P) (wk_cur w)) = h"
    and hs: "ring_items (wk_swap w) (wc_swap_capacity P) (m_head (wk_cur w) + 1) (length hs) = hs"
    using r by (simp_all add: ready_def ring_items_Cons cursor_head_index)
  have c: "cursor_ok k (wk_cur w)" "pow2_cap (wc_swap_capacity P) k" "0 \<notin> set (ready P w)"
    using ok by (simp_all add: wk_ok_def)
  note pop = cursor_ok_pop1 [OF c(1)]
  have "ready P ?w = hs" using n hs pop by (simp add: ready_def)
  moreover from this have "wk_ok k P ?w" using c pop n r by (simp add: wk_ok_def)
  moreover have "h \<noteq> 0" using c(3) r by auto
  ultimately show thesis
    using n h by (intro that [of ?w]) (simp_all add: schedule_def cursor_is_empty_iff Let_def)
qed

lemma schedule_empty: "ready P w = [] \<Longrightarrow> schedule P w = Inl AssertFail"
  by (metis schedule_def has_task_ready_def has_task_ready_iff)

section \<open>Completions as wake-ups\<close>

text \<open>Which coroutine a completion wakes, and when it is well-formed.\<close>

definition wakes :: "'y worker_scheme \<Rightarrow> cqe \<Rightarrow> handle list" where
  "wakes w e =
     (let ud = cqe_user_data e; sel = ud AND 7; p = ud AND raw_task_info_mask
      in if ud = 0 \<or> sel = mux_link_sqe then []
         else if sel = mux_task_info_ptr then [ti_handle w p] else [p])"

definition from_msg_ring :: "cqe \<Rightarrow> bool" where
  "from_msg_ring e \<longleftrightarrow> cqe_user_data e AND 7 = mux_msg_ring"

definition cqe_valid :: "'y worker_scheme \<Rightarrow> cqe \<Rightarrow> bool" where
  "cqe_valid w e \<longleftrightarrow> cqe_user_data e AND 7 < mux_none \<and> 0 \<notin> set (wakes w e)"

text \<open>With message rings the handler acts on the worker and marks the entry as seen.\<close>

definition on_cqe :: "wk_cfg \<Rightarrow> cqe \<Rightarrow> 'y worker_scheme \<Rightarrow> 'y worker_scheme result" where
  "on_cqe P e w =
     (let w = w\<lparr>wk_to_reap := wk_to_reap w - 1\<rparr>
      in if cqe_user_data e = 0 then Inr w else dispatch_user_data P (cqe_user_data e) (cqe_res e) w)"

lemma handle_cq_entry_seen:
  "\<not> wc_eventfd P \<Longrightarrow> handle_cq_entry P = seen_fun (on_cqe P)"
proof (intro ext)
  fix e r w
  assume "\<not> wc_eventfd P"
  moreover have "ud < 1 \<longleftrightarrow> ud = 0" for ud :: u64
    using word_gt_0 [of ud] by (auto simp: word_less_nat_alt unat_eq_0)
  ultimately show "handle_cq_entry P e r w = seen_fun (on_cqe P) e r w"
    by (simp add: handle_cq_entry_def seen_fun_def on_cqe_def cq_advance_def rud_none_def
        handle_reserved_user_data_def Let_def split: sum.splits)
qed

lemma tag_cases:
  assumes "(ud :: u64) AND 7 < 4"
  shows "ud AND 7 = 0 \<or> ud AND 7 = 1 \<or> ud AND 7 = 2 \<or> ud AND 7 = 3"
proof -
  have "unat (ud AND 7) < 4" using assms by (simp add: word_less_nat_alt)
  then have "unat (ud AND 7) = unat (0 :: u64) \<or> unat (ud AND 7) = unat (1 :: u64) \<or>
      unat (ud AND 7) = unat (2 :: u64) \<or> unat (ud AND 7) = unat (3 :: u64)"
    by (simp, linarith)
  then show ?thesis by (blast dest: unsigned_word_eqI)
qed

lemma four_gt_one [simp]: "\<not> (4 :: u64) \<le> 1"
  by (simp add: word_le_nat_alt)

lemma on_cqe_ready:
  assumes ok: "wk_ok k P w" and v: "cqe_valid w e"
    and n: "length (ready P w) + length (wakes w e) \<le> 2 ^ k"
  obtains w' where "on_cqe P e w = Inr w'" and "ready P w' = ready P w @ wakes w e" and "wk_ok k P w'"
    and "wk_to_reap w' = wk_to_reap w - of_bool (\<not> from_msg_ring e)" and "ti_handle w' = ti_handle w"
proof -
  let ?ud = "cqe_user_data e"
  let ?p = "?ud AND raw_task_info_mask"
  let ?w = "w\<lparr>wk_to_reap := wk_to_reap w - 1\<rparr>"
  let ?v = "?w\<lparr>ti_result := (ti_result ?w)(?p := cqe_res e)\<rparr>"
  have okw: "wk_ok k P ?w" "wk_ok k P ?v" "ready P ?w = ready P w" "ready P ?v = ready P w"
    using ok by (simp_all add: wk_ok_def ready_def)
  note on_cqe_def [simp] dispatch_user_data_def [simp] wakes_def [simp] from_msg_ring_def [simp] Let_def [simp]
  have tag: "?ud AND 7 = 0 \<or> ?ud AND 7 = 1 \<or> ?ud AND 7 = 2 \<or> ?ud AND 7 = 3" "?ud AND 7 < 4"
    using v tag_cases [of ?ud] by (simp_all add: cqe_valid_def)
  show thesis
  proof (cases "?ud = 0")
    case True
    then show thesis using okw by (intro that [of ?w]) simp_all
  next
    case nz: False
    from tag(1) consider "?ud AND 7 = 0" | "?ud AND 7 = 1" | "?ud AND 7 = 2" | "?ud AND 7 = 3" by blast
    then show thesis
    proof cases
      case 1
      then have "ti_handle w ?p \<noteq> 0" "length (ready P ?v) < 2 ^ k"
        using v n nz by (simp_all add: cqe_valid_def okw)
      then obtain w' where "forward_task P (ti_handle w ?p) ?v = Inr w'"
        "ready P w' = ready P ?v @ [ti_handle w ?p]" "wk_ok k P w'"
        "wk_to_reap w' = wk_to_reap ?v" "ti_handle w' = ti_handle ?v"
        by (rule forward_task_ready [OF okw(2)])
      then show thesis using 1 nz okw(4) by (intro that [of w']) simp_all
    next
      case 2
      then have "?p \<noteq> 0" "length (ready P ?w) < 2 ^ k" using v n nz by (simp_all add: cqe_valid_def okw)
      then obtain w' where "forward_task P ?p ?w = Inr w'" "ready P w' = ready P ?w @ [?p]" "wk_ok k P w'"
        "wk_to_reap w' = wk_to_reap ?w" "ti_handle w' = ti_handle ?w"
        by (rule forward_task_ready [OF okw(1)])
      then show thesis using 2 nz okw(3) by (intro that [of w']) simp_all
    next
      case 3
      then show thesis using okw nz by (intro that [of ?v]) simp_all
    next
      case 4
      then have "?p \<noteq> 0" "length (ready P ?w) < 2 ^ k" using v n nz by (simp_all add: cqe_valid_def okw)
      then obtain w' where w': "forward_task P ?p ?w = Inr w'" "ready P w' = ready P ?w @ [?p]" "wk_ok k P w'"
        "wk_to_reap w' = wk_to_reap ?w" "ti_handle w' = ti_handle ?w"
        by (rule forward_task_ready [OF okw(1)])
      let ?u = "w'\<lparr>wk_to_reap := wk_to_reap w' + 1\<rparr>"
      have "ready P ?u = ready P w'" "wk_ok k P ?u" using w'(3) by (simp_all add: ready_def wk_ok_def)
      with w' 4 nz okw(3) show thesis by (intro that [of ?u]) simp_all
    qed
  qed
qed

lemma wakes_cong: "ti_handle w = ti_handle v \<Longrightarrow> wakes w = wakes v"
  by (simp add: wakes_def fun_eq_iff Let_def)

lemma fold_on_cqe_ready:
  assumes "wk_ok k P w" and "\<forall>e\<in>set es. cqe_valid w e"
    and "length (ready P w) + length (concat (map (wakes w) es)) \<le> 2 ^ k"
  shows "\<exists>w'. fold_result (on_cqe P) es w = Inr w' \<and> wk_ok k P w' \<and>
    ready P w' = ready P w @ concat (map (wakes w) es) \<and>
    wk_to_reap w' = wk_to_reap w - of_nat (length (filter (\<lambda>e. \<not> from_msg_ring e) es))"
  using assms
proof (induction es arbitrary: w)
  case (Cons e es)
  have "cqe_valid w e" and "length (ready P w) + length (wakes w e) \<le> 2 ^ k" using Cons.prems by simp_all
  then obtain w1 where w1: "on_cqe P e w = Inr w1" "ready P w1 = ready P w @ wakes w e" "wk_ok k P w1"
    "wk_to_reap w1 = wk_to_reap w - of_bool (\<not> from_msg_ring e)" "ti_handle w1 = ti_handle w"
    by (rule on_cqe_ready [OF Cons.prems(1)])
  have wk: "wakes w1 = wakes w" by (rule wakes_cong [OF w1(5)])
  have "\<forall>e\<in>set es. cqe_valid w1 e" using Cons.prems(2) by (simp add: cqe_valid_def wk)
  moreover have "length (ready P w1) + length (concat (map (wakes w1) es)) \<le> 2 ^ k"
    using Cons.prems(3) by (simp only: w1(2) wk) simp
  ultimately obtain w' where "fold_result (on_cqe P) es w1 = Inr w'" "wk_ok k P w'"
    "ready P w' = ready P w1 @ concat (map (wakes w1) es)"
    "wk_to_reap w' = wk_to_reap w1 - of_nat (length (filter (\<lambda>e. \<not> from_msg_ring e) es))"
    using Cons.IH [OF w1(3)] by blast
  then show ?case using w1 by (intro exI [of _ w']) (simp add: wk diff_diff_eq)
qed simp

text \<open>C17. \<open>poll_completion\<close>, with message rings between the contexts, handles every completion once and in the
  order of arrival, those that the kernel posts while it runs included: it returns how many these were, with
  the queue empty and the worker as the handler leaves it after them, or fails as the handler fails on the first of them that
  is invalid. The coroutines that they wake are appended to the ready queue in that order and \<open>requests_to_reap\<close> goes down by
  the number of completions that do not come from another context, provided that they are valid and the ready queue has
  room. It ends because the kernel has only so many requests inside.\<close>

theorem poll_completion_spec:
  assumes "\<not> wc_eventfd P" and "only_posts (wc_ring P) post" and "finite_kernel inside post"
    and "cq_wf (ring_cq r)" and "wk_ok k P w"
  shows "\<exists>es new r'. arrivals post (wc_ring P) r es r' \<and> es = cq_items (wc_ring P) (ring_cq r) @ new \<and>
    length new \<le> inside r \<and> cq_items (wc_ring P) (ring_cq r') = [] \<and>
    poll_completion post P r w = Some (case fold_result (on_cqe P) es w of
      Inl x \<Rightarrow> Inl x | Inr w' \<Rightarrow> Inr (of_nat (length es), r', w')) \<and>
    ((\<forall>e\<in>set es. cqe_valid w e) \<and> length (ready P w) + length (concat (map (wakes w) es)) \<le> 2 ^ k \<longrightarrow>
     (\<exists>w'. fold_result (on_cqe P) es w = Inr w' \<and> ready P w' = ready P w @ concat (map (wakes w) es) \<and>
        wk_to_reap w' = wk_to_reap w - of_nat (length (filter (\<lambda>e. \<not> from_msg_ring e) es))))"
proof -
  from arrivals_exist [OF assms(2-4) refl] obtain es new r' where a: "arrivals post (wc_ring P) r es r'"
    "es = cq_items (wc_ring P) (ring_cq r) @ new" "length es \<le> inside r + cq_avail (ring_cq r)"
    "cq_items (wc_ring P) (ring_cq r') = []" by blast
  have "poll_completion post P r w = Some (case fold_result (on_cqe P) es w of
      Inl x \<Rightarrow> Inl x | Inr w' \<Rightarrow> Inr (of_nat (length es), r', w'))"
    using for_each_arrivals [OF a(1) assms(2,4), of "on_cqe P" 0 w]
    by (simp add: poll_completion_def for_each_cqe_def handle_cq_entry_seen [OF assms(1)] cong: sum.case_cong)
  moreover have "length new \<le> inside r" using a(2,3) by simp
  moreover have "\<exists>w'. fold_result (on_cqe P) es w = Inr w' \<and> ready P w' = ready P w @ concat (map (wakes w) es) \<and>
        wk_to_reap w' = wk_to_reap w - of_nat (length (filter (\<lambda>e. \<not> from_msg_ring e) es))"
    if "\<forall>e\<in>set es. cqe_valid w e" "length (ready P w) + length (concat (map (wakes w) es)) \<le> 2 ^ k"
    using fold_on_cqe_ready [OF assms(5) that] by blast
  ultimately show ?thesis using a(1,2,4)
    by (intro exI [of _ es] exI [of _ new] exI [of _ r']) simp
qed

text \<open>Two completions, of a task whose \<open>task_info\<close> is at 4096 and of a coroutine at 8192.\<close>

definition wk_cfg_example :: wk_cfg where
  "wk_cfg_example = \<lparr>wc_ring = cfg_plain, wc_eventfd = False, wc_skip = True, wc_swap_capacity = 4,
     wc_threshold = - 1\<rparr>"

definition worker_example :: worker where
  "worker_example = \<lparr>wk_swap = (\<lambda>_. 0), wk_cur = \<lparr>m_head = - 1, m_tail = - 1\<rparr>, wk_to_reap = 2, wk_to_submit = 0,
     wk_co_spawn_queue = [], wk_event_fd = - 1, wk_event_buf = 0, wk_ring_fd = 3,
     ti_handle = (\<lambda>_. 77), ti_result = (\<lambda>_. 0)\<rparr>"

definition uring_done :: uring where
  "uring_done = uring_empty\<lparr>ring_cq := cq_example\<lparr>cq_cqes := (\<lambda>i. if i = 3 then cqe_of 4096 5 else cqe_of 8193 0)\<rparr>\<rparr>"

lemma finite_kernel_id: "finite_kernel (\<lambda>_. 0) (\<lambda>r. r)"
  by (simp add: finite_kernel_def)

lemma uring_done_wf: "cq_wf (ring_cq uring_done)"
  using cq_example_wf by (simp add: uring_done_def uring_example_def cq_wf_def)

lemma uring_done_items: "cq_items cfg_plain (ring_cq uring_done) = [cqe_of 4096 5, cqe_of 8193 0]"
  by (simp add: cq_items_def cq_avail_def uring_done_def cq_example_def cqe_at_def cqe_off_def
      cfg_plain_def upt_rec)

lemma worker_example_ok: "wk_ok 2 wk_cfg_example worker_example"
  by (simp add: wk_ok_def wk_cfg_example_def worker_example_def pow2_cap_def cursor_ok_def
      cursor_count_def ready_def)

theorem poll_completion_spec_witness:
  "\<exists>r' w'. poll_completion (\<lambda>r. r) wk_cfg_example uring_done worker_example = Some (Inr (2, r', w')) \<and>
    ready wk_cfg_example w' = [77, 8192] \<and> wk_to_reap w' = 0"
proof -
  have "\<not> wc_eventfd wk_cfg_example" "only_posts (wc_ring wk_cfg_example) (\<lambda>r. r)"
    by (simp_all add: wk_cfg_example_def only_posts_id)
  from poll_completion_spec [OF this finite_kernel_id uring_done_wf worker_example_ok]
  obtain es r' where es: "es = cq_items (wc_ring wk_cfg_example) (ring_cq uring_done)" and
    poll: "poll_completion (\<lambda>r. r) wk_cfg_example uring_done worker_example =
      Some (case fold_result (on_cqe wk_cfg_example) es worker_example of
        Inl x \<Rightarrow> Inl x | Inr w' \<Rightarrow> Inr (of_nat (length es), r', w'))" and
    imp: "(\<forall>e\<in>set es. cqe_valid worker_example e) \<and>
      length (ready wk_cfg_example worker_example) + length (concat (map (wakes worker_example) es)) \<le> 2 ^ 2 \<longrightarrow>
     (\<exists>w'. fold_result (on_cqe wk_cfg_example) es worker_example = Inr w' \<and>
        ready wk_cfg_example w' = ready wk_cfg_example worker_example @ concat (map (wakes worker_example) es) \<and>
        wk_to_reap w' = wk_to_reap worker_example - of_nat (length (filter (\<lambda>e. \<not> from_msg_ring e) es)))"
    by auto
  have r: "ready wk_cfg_example worker_example = []"
    by (simp add: ready_def worker_example_def cursor_count_def)
  have es: "es = [cqe_of 4096 5, cqe_of 8193 0]"
    by (simp add: es wk_cfg_example_def uring_done_items)
  have w: "wakes worker_example (cqe_of 4096 5) = [77]" "wakes worker_example (cqe_of 8193 0) = [8192]"
    by (simp_all add: wakes_def cqe_of_def worker_example_def raw_task_info_mask_def)
  then have "cqe_valid worker_example (cqe_of 4096 5)" "cqe_valid worker_example (cqe_of 8193 0)"
    "\<not> from_msg_ring (cqe_of 4096 5)" "\<not> from_msg_ring (cqe_of 8193 0)"
    by (simp_all add: cqe_valid_def) (simp_all add: cqe_of_def from_msg_ring_def word_less_nat_alt)
  moreover have "cursor_count (wk_cur worker_example) = 0" "wk_to_reap worker_example = 2"
    by (simp_all add: worker_example_def cursor_count_def)
  ultimately have "\<exists>w'. fold_result (on_cqe wk_cfg_example) es worker_example = Inr w' \<and>
      ready wk_cfg_example w' = [77, 8192] \<and> wk_to_reap w' = 0"
    using imp w r unfolding es by auto
  then show ?thesis using poll es by auto
qed

end
