(* ===== verification/Io_Context.thy ===== *)
theory Io_Context
  imports Worker
begin

text \<open>
  The event loop, \<^verbatim>\<open>io_context.hpp\<close> and \<^verbatim>\<open>lib/co_context/io_context.cpp\<close>: rounds of running the
  ready coroutines, submitting and collecting completions until nothing is left to do. The state
  extends that of the worker; \<open>io_ready_count\<close> is what a read of \<open>meta.ready_count\<close> returns.
\<close>

section \<open>State and operations\<close>

record io_state = worker +
  io_will_stop :: bool
  io_ready_count :: u8
  io_create_count :: u8

definition can_stop :: "'y io_state_scheme \<Rightarrow> 'y io_state_scheme" where
  "can_stop w = w\<lparr>io_will_stop := True\<rparr>"

text \<open>The functions that act on the context of the thread, \<open>ctx\<close>, which is null outside of a loop.\<close>

definition this_io_context :: "ptr \<Rightarrow> ptr result" where
  "this_io_context ctx = (if ctx = 0 then Inl AssertFail else Inr ctx)"

definition io_context_stop :: "ptr \<Rightarrow> 'y io_state_scheme \<Rightarrow> 'y io_state_scheme result" where
  "io_context_stop ctx w = (if ctx = 0 then Inl NullDeref else Inr (can_stop w))"

definition co_spawn_handle :: "wk_cfg \<Rightarrow> ptr \<Rightarrow> handle \<Rightarrow> 'y worker_scheme \<Rightarrow> 'y worker_scheme result" where
  "co_spawn_handle P ctx h w = (if ctx = 0 then Inl AssertFail else wk_co_spawn_unsafe P h w)"

text \<open>The worker of the context and what \<open>co_spawn_auto\<close> decides; the result says which way the
  handle takes.\<close>

datatype spawn_way = SpawnHere | SpawnMsgRing | SpawnEventfd

definition co_spawn_auto :: "wk_cfg \<Rightarrow> bool \<Rightarrow> u8 \<Rightarrow> spawn_way" where
  "co_spawn_auto P same_worker ready_count =
     (if same_worker \<or> ready_count = 0 then SpawnHere
      else if wc_eventfd P then SpawnEventfd else SpawnMsgRing)"

primrec worker_rounds ::
  "'z kernel_enter \<Rightarrow> wk_cfg \<Rightarrow> ('z, 'y) resume_fun \<Rightarrow> nat \<Rightarrow> 'z uring_scheme \<Rightarrow> 'y worker_scheme \<Rightarrow>
   ('z, 'y) wstate result" where
  "worker_rounds enter P resume 0 r w = Inr (r, w)"
| "worker_rounds enter P resume (Suc num) r w =
     (case work_once P resume r w of
        Inl e \<Rightarrow> Inl e
      | Inr (r, w) \<Rightarrow>
          (case check_submission_threshold enter P r w of
             Inl e \<Rightarrow> Inl e
           | Inr (r, w) \<Rightarrow> worker_rounds enter P resume num r w))"

definition do_worker_part ::
  "'z kernel_enter \<Rightarrow> wk_cfg \<Rightarrow> ('z, 'y) resume_fun \<Rightarrow> 'z uring_scheme \<Rightarrow> 'y worker_scheme \<Rightarrow>
   ('z, 'y) wstate result" where
  "do_worker_part enter P resume r w = worker_rounds enter P resume (unat (number_to_schedule w)) r w"

definition do_submission_part ::
  "'z kernel_enter \<Rightarrow> wk_cfg \<Rightarrow> 'z uring_scheme \<Rightarrow> 'y worker_scheme \<Rightarrow> ('z, 'y) wstate result" where
  "do_submission_part enter P r w = poll_submission enter P r w"

definition do_completion_part_bad_path ::
  "'z kernel_post \<Rightarrow> 'z kernel_enter \<Rightarrow> wk_cfg \<Rightarrow> 'z uring_scheme \<Rightarrow> 'y io_state_scheme \<Rightarrow>
   ('z uring_scheme \<times> 'y io_state_scheme) result option" where
  "do_completion_part_bad_path post enter P r w =
     (case peek_uring post enter P r of
        None \<Rightarrow> None
      | Some (there, r) \<Rightarrow>
          (case (if \<not> there \<and> (sint (wk_to_reap w) > 0 \<or> io_ready_count w > 1)
                 then wait_uring post enter P r else Some r) of
             None \<Rightarrow> None
           | Some r \<Rightarrow>
               (case poll_completion post P r w of
                  None \<Rightarrow> None
                | Some (Inl e) \<Rightarrow> Some (Inl e)
                | Some (Inr (handled_num, r, w)) \<Rightarrow>
                    (let is_not_over = handled_num \<noteq> 0 \<or> io_ready_count w > 1 \<or> wk_to_reap w \<noteq> 0
                     in Some (Inr (r, if is_not_over then w else can_stop w))))))"

definition do_completion_part ::
  "'z kernel_post \<Rightarrow> 'z kernel_enter \<Rightarrow> wk_cfg \<Rightarrow> 'z uring_scheme \<Rightarrow> 'y io_state_scheme \<Rightarrow>
   ('z uring_scheme \<times> 'y io_state_scheme) result option" where
  "do_completion_part post enter P r w =
     (case peek_uring post enter P r of
        None \<Rightarrow> None
      | Some (there, r) \<Rightarrow>
          (case (if there then poll_completion post P r w else Some (Inr (0, r, w))) of
             None \<Rightarrow> None
           | Some (Inl e) \<Rightarrow> Some (Inl e)
           | Some (Inr (handled_num, r, w)) \<Rightarrow>
               if wk_to_submit w \<noteq> 0 \<or> has_task_ready w \<or> handled_num \<noteq> 0
               then Some (Inr (r, w))
               else do_completion_part_bad_path post enter P r w))"

partial_function (option) io_loop ::
  "'z kernel_post \<Rightarrow> 'z kernel_enter \<Rightarrow> wk_cfg \<Rightarrow> ('z, 'y io_state_ext) resume_fun \<Rightarrow>
   'z uring_scheme \<Rightarrow> 'y io_state_scheme \<Rightarrow> ('z uring_scheme \<times> 'y io_state_scheme) result option" where
  "io_loop post enter P resume r w =
     (if io_will_stop w then Some (Inr (r, w))
      else (case do_worker_part enter P resume r w of
              Inl e \<Rightarrow> Some (Inl e)
            | Inr (r, w) \<Rightarrow>
                (case do_submission_part enter P r w of
                   Inl e \<Rightarrow> Some (Inl e)
                 | Inr (r, w) \<Rightarrow>
                     (case do_completion_part post enter P r w of
                        None \<Rightarrow> None
                      | Some (Inl e) \<Rightarrow> Some (Inl e)
                      | Some (Inr (r, w)) \<Rightarrow> io_loop post enter P resume r w))))"

definition io_deinit :: "'y io_state_scheme \<Rightarrow> 'y io_state_scheme" where
  "io_deinit w = w\<lparr>io_ready_count := io_ready_count w - 1, io_create_count := io_create_count w - 1\<rparr>"

definition io_run ::
  "'z kernel_post \<Rightarrow> 'z kernel_enter \<Rightarrow> wk_cfg \<Rightarrow> ('z, 'y io_state_ext) resume_fun \<Rightarrow>
   'z uring_scheme \<Rightarrow> 'y io_state_scheme \<Rightarrow> ('z uring_scheme \<times> 'y io_state_scheme) result option" where
  "io_run post enter P resume r w =
     (case (if wc_eventfd P \<and> io_create_count w \<ge> 2 then listen_on_co_spawn P r w else Inr (r, w)) of
        Inl e \<Rightarrow> Some (Inl e)
      | Inr (r, w) \<Rightarrow>
          (case io_loop post enter P resume r w of
             None \<Rightarrow> None
           | Some (Inl e) \<Rightarrow> Some (Inl e)
           | Some (Inr (r, w)) \<Rightarrow> Some (Inr (r, io_deinit w))))"

section \<open>One round of running\<close>

text \<open>
  The contract between a queue of ready coroutines and a loop that takes a fixed number of them:
  \<open>view\<close> is what waits, \<open>hist\<close> what has been run.
\<close>

primrec run_rounds ::
  "('s \<Rightarrow> ('h \<times> 's) result) \<Rightarrow> ('h \<Rightarrow> 's \<Rightarrow> 's result) \<Rightarrow> nat \<Rightarrow> 's \<Rightarrow> 's result" where
  "run_rounds pick run 0 s = Inr s"
| "run_rounds pick run (Suc n) s =
     (case pick s of
        Inl e \<Rightarrow> Inl e
      | Inr (h, s) \<Rightarrow> (case run h s of Inl e \<Rightarrow> Inl e | Inr s \<Rightarrow> run_rounds pick run n s))"

locale run_queue =
  fixes view :: "'s \<Rightarrow> 'h list" and ok :: "'s \<Rightarrow> bool" and pick :: "'s \<Rightarrow> ('h \<times> 's) result"
    and unlike :: "'s \<Rightarrow> 's \<Rightarrow> bool"
  assumes pick: "ok s \<Longrightarrow> view s = h # hs \<Longrightarrow> \<exists>s'. pick s = Inr (h, s') \<and> view s' = hs \<and> ok s' \<and> unlike s s'"
    and pick_empty: "view s = [] \<Longrightarrow> pick s = Inl AssertFail"
begin

lemma rounds_fair:
  assumes "ok s" and "view s = xs @ ys"
    and "\<And>h s. ok s \<Longrightarrow> h \<in> set xs \<Longrightarrow> P h s \<Longrightarrow>
      \<exists>s' hs. run h s = Inr s' \<and> ok s' \<and> view s' = view s @ hs \<and> hist s' = hist s @ [(h, hs)]"
    and "\<And>s s' h hs. ok s \<Longrightarrow> view s = h # hs \<Longrightarrow> view s' = hs \<Longrightarrow> unlike s s' \<Longrightarrow> hist s' = hist s \<and> P h s'"
  shows "\<exists>s' new. run_rounds pick run (length xs) s = Inr s' \<and> ok s' \<and> hist s' = hist s @ new \<and> map fst new = xs \<and>
    view s' = ys @ concat (map snd new)"
  using assms
proof (induction xs arbitrary: s ys)
  case (Cons x xs)
  from pick [OF Cons.prems(1)] Cons.prems(2) obtain s1 where
    s1: "pick s = Inr (x, s1)" "view s1 = xs @ ys" "ok s1" "unlike s s1" by auto
  with Cons.prems have "hist s1 = hist s" "P x s1" by auto
  with Cons.prems(3) [OF s1(3), of x] obtain s2 hs where
    s2: "run x s1 = Inr s2" "ok s2" "view s2 = xs @ (ys @ hs)" "hist s2 = hist s @ [(x, hs)]"
    using s1(2) by auto
  have "\<exists>s' new. run_rounds pick run (length xs) s2 = Inr s' \<and> ok s' \<and> hist s' = hist s2 @ new \<and> map fst new = xs \<and>
      view s' = (ys @ hs) @ concat (map snd new)"
    by (rule Cons.IH [OF s2(2,3)]) (use Cons.prems(3) in simp, use Cons.prems(4) in blast)
  then obtain s' new where
    "run_rounds pick run (length xs) s2 = Inr s'" "ok s'" "hist s' = hist s @ (x, hs) # new" "map fst new = xs"
    "view s' = ys @ concat (map snd ((x, hs) # new))" using s2(4) by auto
  then show ?case using s1(1) s2(1) by (intro exI [of _ s'] exI [of _ "(x, hs) # new"]) simp
qed simp

lemma rounds_beyond: "view s = [] \<Longrightarrow> run_rounds pick run (Suc n) s = Inl AssertFail"
  by (simp add: pick_empty)

end

text \<open>The worker's ready queue meets it; picking changes the cursor only.\<close>

definition wk_pick :: "wk_cfg \<Rightarrow> ('z, 'y) wstate \<Rightarrow> (handle \<times> ('z, 'y) wstate) result" where
  "wk_pick P = (\<lambda>(r, w). case schedule P w of Inl e \<Rightarrow> Inl e | Inr (h, w) \<Rightarrow> Inr (h, r, w))"

definition picked :: "nat \<Rightarrow> ('z, 'y) wstate \<Rightarrow> ('z, 'y) wstate \<Rightarrow> bool" where
  "picked k s s' \<longleftrightarrow> fst s' = fst s \<and> (\<exists>c. snd s' = (snd s)\<lparr>wk_cur := c\<rparr>) \<and> cursor_ok k (wk_cur (snd s))"

interpretation wq: run_queue "\<lambda>s. ready P (snd s)" "\<lambda>s. wk_ok k P (snd s)" "wk_pick P" "picked k" for P k
proof (unfold_locales, goal_cases)
  case (1 s h hs)
  obtain r w where s: "s = (r, w)" by (metis surj_pair)
  from 1 s have ok: "wk_ok k P w" and r: "ready P w = h # hs" by simp_all
  obtain w' where "schedule P w = Inr (h, w')" "ready P w' = hs" "wk_ok k P w'"
    "w' = w\<lparr>wk_cur := cursor_pop 1 (wk_cur w)\<rparr>" by (rule schedule_ready [OF ok r])
  with ok show ?case by (intro exI [of _ "(r, w')"]) (auto simp: s wk_pick_def picked_def wk_ok_def)
next
  case (2 s)
  then show ?case by (cases s) (simp add: wk_pick_def schedule_empty)
qed

definition wk_resume ::
  "'z kernel_enter \<Rightarrow> wk_cfg \<Rightarrow> ('z, 'y) resume_fun \<Rightarrow> handle \<Rightarrow> ('z, 'y) wstate \<Rightarrow> ('z, 'y) wstate result" where
  "wk_resume enter P resume h = (\<lambda>(r, w).
     case resume h r w of Inl e \<Rightarrow> Inl e | Inr (r, w) \<Rightarrow> check_submission_threshold enter P r w)"

lemma worker_rounds_run:
  "worker_rounds enter P resume n r w = run_rounds (wk_pick P) (wk_resume enter P resume) n (r, w)"
  by (induction n arbitrary: r w)
    (simp_all add: work_once_def wk_pick_def wk_resume_def split: sum.splits prod.splits)

text \<open>C18. A round of the worker is fair: it runs exactly the coroutines that were ready when it began,
  each once and in the order in which they became ready, and what they make ready meanwhile,
  themselves included, is what is ready after it, in the order in which they made it so and with none of it run. (The
  submission threshold is off, as it is by default; \<open>hist\<close> is any record of which coroutine ran and what it made ready.)\<close>

theorem do_worker_part_fair:
  fixes resume :: "('z, 'y) resume_fun" and hist :: "'y worker_scheme \<Rightarrow> (handle \<times> handle list) list"
  assumes "wk_ok k P w" and "wc_threshold P = - 1"
    and "\<And>h r w. wk_ok k P w \<Longrightarrow> h \<noteq> 0 \<Longrightarrow> length (ready P w) < 2 ^ k \<Longrightarrow>
      \<exists>r' w' hs. resume h r w = Inr (r', w') \<and> wk_ok k P w' \<and> ready P w' = ready P w @ hs \<and>
        hist w' = hist w @ [(h, hs)]"
    and "\<And>w c. hist (w\<lparr>wk_cur := c\<rparr>) = hist w"
  shows "\<exists>r' w' new. do_worker_part enter P resume r w = Inr (r', w') \<and> wk_ok k P w' \<and>
    hist w' = hist w @ new \<and> map fst new = ready P w \<and> ready P w' = concat (map snd new)"
proof -
  have "\<exists>s' new. run_rounds (wk_pick P) (wk_resume enter P resume) (length (ready P w)) (r, w) = Inr s' \<and>
      wk_ok k P (snd s') \<and> hist (snd s') = hist (snd (r, w)) @ new \<and> map fst new = ready P w \<and>
      ready P (snd s') = [] @ concat (map snd new)"
  proof (rule wq.rounds_fair [of k P "(r, w)" "ready P w" "[]"
        "\<lambda>h s. length (ready P (snd s)) < 2 ^ k" "wk_resume enter P resume" "\<lambda>s. hist (snd s)"])
    fix h and s :: "('z, 'y) wstate"
    assume ok: "wk_ok k P (snd s)" and h: "h \<in> set (ready P w)" and n: "length (ready P (snd s)) < 2 ^ k"
    from h assms(1) have "h \<noteq> 0" by (auto simp: wk_ok_def)
    from assms(3) [OF ok this n, of "fst s"] show "\<exists>s' hs. wk_resume enter P resume h s = Inr s' \<and>
        wk_ok k P (snd s') \<and> ready P (snd s') = ready P (snd s) @ hs \<and> hist (snd s') = hist (snd s) @ [(h, hs)]"
      by (auto simp: wk_resume_def split_beta check_submission_threshold_def assms(2))
  next
    fix s s' :: "('z, 'y) wstate" and h hs
    assume r: "ready P (snd s) = h # hs" "ready P (snd s') = hs" and p: "picked k s s'"
    have "length (ready P (snd s)) \<le> 2 ^ k" using p by (simp add: picked_def cursor_ok_def)
    then have "length hs < 2 ^ k" unfolding r by simp
    with p r(2) assms(4) show "hist (snd s') = hist (snd s) \<and> length (ready P (snd s')) < 2 ^ k"
      by (auto simp: picked_def)
  qed (use assms(1) in simp_all)
  then show ?thesis
    by (auto simp: do_worker_part_def worker_rounds_run number_to_schedule_ready [of _ P] simp del: length_ready)
qed

text \<open>A worker on which every coroutine yields: it runs and is ready again.\<close>

record io_hist = io_state +
  io_ran :: "(handle \<times> handle list) list"

definition yielding :: "wk_cfg \<Rightarrow> (unit, unit io_hist_ext io_state_ext) resume_fun" where
  "yielding P h r w = (case forward_task P h w of
     Inl e \<Rightarrow> Inl e | Inr w \<Rightarrow> Inr (r, w\<lparr>io_ran := io_ran w @ [(h, [h])]\<rparr>))"

definition io_example :: io_hist where
  "io_example = \<lparr>wk_swap = (\<lambda>i. if i = 3 then 64 else 128), wk_cur = \<lparr>m_head = - 1, m_tail = 1\<rparr>,
     wk_to_reap = 0, wk_to_submit = 0, wk_co_spawn_queue = [], wk_event_fd = - 1, wk_event_buf = 0,
     wk_ring_fd = 3, ti_handle = (\<lambda>_. 0), ti_result = (\<lambda>_. 0), io_will_stop = False,
     io_ready_count = 1, io_create_count = 1, io_ran = []\<rparr>"

lemma io_example_ready: "ready wk_cfg_example io_example = [64, 128]"
  by (simp add: ready_def wk_cfg_example_def io_example_def cursor_count_def ring_items_def upt_rec)

lemma io_example_ok: "wk_ok 2 wk_cfg_example io_example"
  using io_example_ready
  by (simp add: wk_ok_def) (simp add: wk_cfg_example_def io_example_def pow2_cap_def cursor_ok_def cursor_count_def)

lemma yielding_runs:
  assumes "wk_ok 2 wk_cfg_example w" and "h \<noteq> 0" and "length (ready wk_cfg_example w) < 2 ^ 2"
  shows "\<exists>r' w' hs. yielding wk_cfg_example h r w = Inr (r', w') \<and> wk_ok 2 wk_cfg_example w' \<and>
    ready wk_cfg_example w' = ready wk_cfg_example w @ hs \<and> io_ran w' = io_ran w @ [(h, hs)]"
proof -
  obtain w' where f: "forward_task wk_cfg_example h w = Inr w'"
    "ready wk_cfg_example w' = ready wk_cfg_example w @ [h]" "wk_ok 2 wk_cfg_example w'"
    by (rule forward_task_ready [OF assms])
  let ?w = "w'\<lparr>io_ran := io_ran w' @ [(h, [h])]\<rparr>"
  have "io_ran w' = io_ran w" using f(1) assms(2) by (auto simp: forward_task_def)
  moreover have "ready wk_cfg_example ?w = ready wk_cfg_example w'" "wk_ok 2 wk_cfg_example ?w"
    using f(3) by (simp_all add: ready_def wk_ok_def)
  ultimately show ?thesis using f by (simp add: yielding_def)
qed

theorem do_worker_part_fair_witness:
  "\<exists>r' w' new. do_worker_part slow_kernel wk_cfg_example (yielding wk_cfg_example) uring_example io_example =
     Inr (r', w') \<and> io_ran w' = new \<and> map fst new = [64, 128] \<and>
     ready wk_cfg_example w' = concat (map snd new)"
proof -
  have "io_ran (w\<lparr>wk_cur := c\<rparr>) = io_ran w" for w :: io_hist and c by simp
  moreover have "wc_threshold wk_cfg_example = - 1" by (simp add: wk_cfg_example_def)
  ultimately obtain r' w' new where "do_worker_part slow_kernel wk_cfg_example (yielding wk_cfg_example) uring_example io_example =
      Inr (r', w')" "io_ran w' = io_ran io_example @ new" "map fst new = ready wk_cfg_example io_example"
      "ready wk_cfg_example w' = concat (map snd new)"
    using do_worker_part_fair [OF io_example_ok, of "yielding wk_cfg_example" io_ran slow_kernel uring_example]
      yielding_runs by blast
  moreover have "io_ran io_example = []" by (simp add: io_example_def)
  ultimately show ?thesis by (intro exI [of _ r'] exI [of _ w'] exI [of _ new]) (simp add: io_example_ready)
qed

section \<open>When the loop stops\<close>

text \<open>
  A kernel that only posts, posts only finitely much for what is inside, and never lets more than
  the counters can count be outstanding: \<open>inside\<close> bounds the completions still to come.
\<close>

definition tame_ring :: "('z uring_scheme \<Rightarrow> nat) \<Rightarrow> 'z uring_scheme \<Rightarrow> bool" where
  "tame_ring inside r \<longleftrightarrow> cq_wf (ring_cq r) \<and> inside r + cq_avail (ring_cq r) < 2 ^ LENGTH(32)"

definition tame_kernel ::
  "wk_cfg \<Rightarrow> ('z uring_scheme \<Rightarrow> nat) \<Rightarrow> 'z kernel_post \<Rightarrow> 'z kernel_enter \<Rightarrow> bool" where
  "tame_kernel P inside post enter \<longleftrightarrow> only_posts (wc_ring P) post \<and> finite_kernel inside post \<and>
     (\<forall>n w fl r. tame_ring inside r \<longrightarrow> tame_ring inside (snd (enter n w fl r)))"

lemma tame_post: "tame_kernel P inside post enter \<Longrightarrow> tame_ring inside r \<Longrightarrow> tame_ring inside (post r)"
  unfolding tame_kernel_def tame_ring_def finite_kernel_def only_posts_def posts_def
  by (meson le_less_trans)

lemma tame_store:
  assumes "tame_kernel P inside post enter" and "tame_ring inside r"
    and "cq_ktail (ring_cq r) \<noteq> cq_khead (ring_cq r)"
  shows "tame_ring inside (cq_store_head 1 r)"
proof -
  from assms(3) have "cq_avail (ring_cq r) \<noteq> 0" by (simp add: cq_avail_0)
  then obtain n where n: "cq_avail (ring_cq r) = Suc n" by (cases "cq_avail (ring_cq r)") auto
  have "cq_wf (ring_cq r)" using assms(2) by (simp add: tame_ring_def)
  from cq_store_head_items(1,2) [OF this n] show ?thesis
    using assms(1,2) n by (simp add: tame_ring_def tame_kernel_def finite_kernel_def)
qed

lemma peek_loop_tame:
  assumes k: "tame_kernel P inside post enter" and p: "peek_loop post cfg r = Some x" and "tame_ring inside r"
  shows "tame_ring inside (snd (snd (snd x)))"
proof -
  have "post = post \<longrightarrow> tame_ring inside r \<longrightarrow> tame_ring inside (snd (snd (snd x)))"
  proof (rule peek_loop.raw_induct [of "\<lambda>q c r x. q = post \<longrightarrow> tame_ring inside r \<longrightarrow> tame_ring inside (snd (snd (snd x)))", OF _ p])
    fix f q c r x
    assume IH: "\<And>q c r x. f q c r = Some x \<Longrightarrow> q = post \<longrightarrow> tame_ring inside r \<longrightarrow> tame_ring inside (snd (snd (snd x)))"
      and body: "(let r = q r; head = cq_khead (ring_cq r); available = cq_ktail (ring_cq r) - head in
      if available = 0 then Some (None, 0, 0, r)
      else
        (let p = cqe_off c (ring_cq r) head; e = cq_cqes (ring_cq r) p in
         if own_timeout r e then
           (let err = (if sint (cqe_res e) < 0 then cqe_res e else 0); r = cq_store_head 1 r in
            if err = 0 then f q c r else Some (None, available, err, r))
         else Some (Some p, available, 0, r))) = Some x"
    show "q = post \<longrightarrow> tame_ring inside r \<longrightarrow> tame_ring inside (snd (snd (snd x)))"
    proof (intro impI)
      assume q: "q = post" and "tame_ring inside r"
      then have t: "tame_ring inside (post r)" using tame_post [OF k] by blast
      show "tame_ring inside (snd (snd (snd x)))"
      proof (cases "cq_ktail (ring_cq (post r)) = cq_khead (ring_cq (post r))")
        case True
        with body q t show ?thesis by (auto simp: Let_def)
      next
        case False
        with body q t tame_store [OF k t False] IH show ?thesis by (auto simp: Let_def split: if_splits)
      qed
    qed
  qed
  with assms(3) show ?thesis by simp
qed

lemma enter_tame:
  "tame_kernel P inside post enter \<Longrightarrow> tame_ring inside r \<Longrightarrow> enter n w fl r = (res, r') \<Longrightarrow> tame_ring inside r'"
  unfolding tame_kernel_def by (metis snd_conv)

lemma get_cq_loop_tame:
  assumes k: "tame_kernel P inside post enter"
    and g: "get_cq_loop post enter cfg ts gfl wt looped err sub r = Some x" and "tame_ring inside r"
  shows "tame_ring inside (snd (snd x))"
proof -
  have "post = post \<longrightarrow> enter = enter \<longrightarrow> tame_ring inside r \<longrightarrow> tame_ring inside (snd (snd x))"
  proof (rule get_cq_loop.raw_induct [of "\<lambda>q n cfg ts gfl wt looped err sub r x. q = post \<longrightarrow> n = enter \<longrightarrow>
      tame_ring inside r \<longrightarrow> tame_ring inside (snd (snd x))", OF _ g], intro impI, goal_cases)
    case (1 f q n cfg ts gfl wt looped err sub r x)
    note IH = 1(1) and body = 1(2) and eqs = 1(3,4) and r = 1(5)
    obtain e av perr r1 where p: "peek_loop post cfg r = Some (e, av, perr, r1)"
      using body eqs by (cases "peek_loop post cfg r") auto
    have t1: "tame_ring inside r1" using peek_loop_tame [OF k p r] by simp
    have ent: "tame_ring inside r2" if "enter sub wt fl r1 = (res, r2)" for fl res r2
      by (rule enter_tame [OF k t1 that])
    have rec: "tame_ring inside (snd (snd x))"
      if "f post enter cfg ts gfl wt b e' s' r2 = Some x" and "tame_ring inside r2" for b e' s' r2
      using IH [OF that(1)] that(2) by simp
    define idle where "idle \<longleftrightarrow> e = None \<and> wt = 0 \<and> sub = 0"
    define ce where "ce \<longleftrightarrow> wt > av \<or> idle"
    obtain se fl where sq: "is_sq_ring_need_enter cfg sub (if ce then IORING_ENTER_GETEVENTS OR gfl else 0) r1 = (se, fl)"
      by (metis surj_pair)
    obtain res r2 where en: "enter sub wt (if cfg_reg_fd cfg then fl OR IORING_ENTER_REGISTERED_RING else fl) r1 = (res, r2)"
      by (metis surj_pair)
    have b: "(if perr \<noteq> 0 then Some (if err = 0 then perr else err, e, r1)
       else if idle \<and> (looped \<or> \<not> is_cq_ring_need_enter cfg r1) then Some (if err = 0 then - EAGAIN else err, e, r1)
       else if \<not> (ce \<or> se) then Some (err, e, r1)
       else if ts \<noteq> None \<and> looped then Some (if e = None \<and> ts = Some True \<and> err = 0 then - ETIME else err, e, r1)
       else if sint res < 0 then Some (if err = 0 then - res else err, e, r2)
       else if e \<noteq> None then Some (err, e, r2)
       else f post enter cfg ts gfl wt True (if looped then err else res) (sub - res) r2) = Some x"
      using body unfolding eqs p option.case prod.case Let_def idle_def [symmetric] ce_def [symmetric] sq en .
    have "snd (snd x) = r1 \<or> snd (snd x) = r2 \<or>
        f post enter cfg ts gfl wt True (if looped then err else res) (sub - res) r2 = Some x"
      using b by (simp only: split: if_splits) auto
    then show ?case using t1 ent [OF en] rec by blast
  qed
  with assms(3) show ?thesis by simp
qed

lemma peek_uring_tame:
  assumes k: "tame_kernel P inside post enter" and p: "peek_uring post enter P r = Some (there, r')"
    and t: "tame_ring inside r"
  shows "tame_ring inside r'"
proof -
  obtain e av perr r1 where l: "peek_loop post (wc_ring P) r = Some (e, av, perr, r1)"
    using p by (cases "peek_loop post (wc_ring P) r") (auto simp: peek_uring_def peek_cq_entry_def peek_or_wait_def)
  have t1: "tame_ring inside r1" using peek_loop_tame [OF k l t] by simp
  show ?thesis
  proof (cases "perr = 0 \<and> e \<noteq> None")
    case True
    with p l t1 show ?thesis by (auto simp: peek_uring_def peek_cq_entry_def peek_or_wait_def)
  next
    case False
    then have "\<exists>x. get_cq_loop post enter (wc_ring P) None 0 0 False 0 0 r1 = Some x \<and> r' = snd (snd x)"
      using p l by (auto simp: peek_uring_def peek_cq_entry_def peek_or_wait_def wait_cq_entry_num_def
          split: option.splits)
    then show ?thesis using get_cq_loop_tame [OF k _ t1] by blast
  qed
qed

lemma wait_uring_tame:
  assumes k: "tame_kernel P inside post enter" and p: "wait_uring post enter P r = Some r'"
    and t: "tame_ring inside r"
  shows "tame_ring inside r'"
proof -
  obtain e av perr r1 where l: "peek_loop post (wc_ring P) r = Some (e, av, perr, r1)"
    using p by (cases "peek_loop post (wc_ring P) r") (auto simp: wait_uring_def wait_cq_entry_def peek_or_wait_def)
  have t1: "tame_ring inside r1" using peek_loop_tame [OF k l t] by simp
  show ?thesis
  proof (cases "perr = 0 \<and> e \<noteq> None")
    case True
    with p l t1 show ?thesis by (auto simp: wait_uring_def wait_cq_entry_def peek_or_wait_def)
  next
    case False
    then have "\<exists>x. get_cq_loop post enter (wc_ring P) None 0 1 False 0 0 r1 = Some x \<and> r' = snd (snd x)"
      using p l by (auto simp: wait_uring_def wait_cq_entry_def peek_or_wait_def wait_cq_entry_num_def
          split: option.splits)
    then show ?thesis using get_cq_loop_tame [OF k _ t1] by blast
  qed
qed

lemma on_cqe_more:
  fixes w :: "'y io_state_scheme"
  assumes "on_cqe P e w = Inr w'"
  shows "io_will_stop w' = io_will_stop w"
  using assms by (auto simp: on_cqe_def dispatch_user_data_def forward_task_def Let_def
      split: if_splits sum.splits)

lemma fold_on_cqe_more:
  fixes w :: "'y io_state_scheme"
  shows "fold_result (on_cqe P) es w = Inr w' \<Longrightarrow> io_will_stop w' = io_will_stop w"
  by (induction es arbitrary: w) (auto dest: on_cqe_more split: sum.splits)

text \<open>A poll that reports no completion changed nothing, and no poll stops the loop.\<close>

lemma poll_completion_zero:
  fixes w :: "'y io_state_scheme"
  assumes "\<not> wc_eventfd P" and k: "tame_kernel P inside post enter" and t: "tame_ring inside r"
    and p: "poll_completion post P r w = Some (Inr (n, r', w'))"
  shows "io_will_stop w' = io_will_stop w" and "n = 0 \<Longrightarrow> w' = w" and "tame_ring inside r'"
    and "cq_items (wc_ring P) (ring_cq r') = []"
proof -
  let ?loop = "for_each_loop post (seen_fun (on_cqe P)) (wc_ring P) (cq_khead (ring_cq r)) 0 r w"
  have k': "only_posts (wc_ring P) post" "finite_kernel inside post" "cq_wf (ring_cq r)"
    using k t by (simp_all add: tame_kernel_def tame_ring_def)
  from for_each_seen_spec [OF k' refl refl, of "on_cqe P" 0 w] obtain es
    where len: "length es \<le> inside r + cq_avail (ring_cq r)" and
    res: "case fold_result (on_cqe P) es w of
       Inr s' \<Rightarrow> \<exists>r'. ?loop = Some (Inr (0 + of_nat (length es), r', s')) \<and>
         cq_items (wc_ring P) (ring_cq r') = [] \<and> cq_wf (ring_cq r') \<and>
         inside r' \<le> inside r + cq_avail (ring_cq r)
     | Inl x \<Rightarrow> ?loop = Some (Inl x)" by blast
  have "?loop = Some (Inr (n, r', w'))"
    using p by (simp add: poll_completion_def for_each_cqe_def handle_cq_entry_seen [OF assms(1)])
  with res have f: "fold_result (on_cqe P) es w = Inr w'" and n: "n = of_nat (length es)"
    and r': "cq_items (wc_ring P) (ring_cq r') = []" "cq_wf (ring_cq r')"
      "inside r' \<le> inside r + cq_avail (ring_cq r)"
    by (auto split: sum.splits)
  have "cq_avail (ring_cq r') = 0" using r'(1) by (metis length_cq_items list.size(3))
  then show "tame_ring inside r'" using r'(2,3) t unfolding tame_ring_def by simp
  show "cq_items (wc_ring P) (ring_cq r') = []" by (rule r'(1))
  from f show "io_will_stop w' = io_will_stop w" by (rule fold_on_cqe_more)
  have "length es < 2 ^ LENGTH(32)" using len t unfolding tame_ring_def by (metis le_less_trans)
  then have "unat n = length es" unfolding n by (rule unat_of_nat_fits)
  then show "w' = w" if "n = 0" using that f by simp
qed

text \<open>C19. The loop never stops with work of its own left, with message rings between the contexts: when a pass
  over the completions sets \<open>will_stop\<close>, no coroutine is ready, nothing waits to be submitted, the last look
  at the completion queue found it empty, the count of the requests whose completion is awaited is zero, and no
  other context is running that could still send a coroutine. (Requests that were detached and messages to other contexts are not
  counted, and may still be in the kernel.)\<close>

theorem io_stops_when_idle:
  fixes w :: "'y io_state_scheme"
  assumes "\<not> wc_eventfd P" and "tame_kernel P inside post enter" and "tame_ring inside r"
    and "\<not> io_will_stop w" and "do_completion_part post enter P r w = Some (Inr (r', w'))"
    and "io_will_stop w'"
  shows "ready P w' = [] \<and> wk_to_submit w' = 0 \<and> wk_to_reap w' = 0 \<and> io_ready_count w' \<le> 1 \<and>
    cq_items (wc_ring P) (ring_cq r') = []"
proof -
  obtain there r1 where pk: "peek_uring post enter P r = Some (there, r1)"
    using assms(5) by (cases "peek_uring post enter P r") (auto simp: do_completion_part_def)
  have t1: "tame_ring inside r1" by (rule peek_uring_tame [OF assms(2) pk assms(3)])
  obtain n r2 w2 where p2: "(if there then poll_completion post P r1 w else Some (Inr (0, r1, w))) = Some (Inr (n, r2, w2))"
    and rest: "(if wk_to_submit w2 \<noteq> 0 \<or> has_task_ready w2 \<or> n \<noteq> 0 then Some (Inr (r2, w2))
      else do_completion_part_bad_path post enter P r2 w2) = Some (Inr (r', w'))"
    using assms(5) by (auto simp: do_completion_part_def pk split: option.splits sum.splits)
  have stop2: "\<not> io_will_stop w2"
    using p2 poll_completion_zero(1) [OF assms(1,2) t1] assms(4) by (auto split: if_splits)
  have idle: "wk_to_submit w2 = 0" "\<not> has_task_ready w2" "n = 0"
    and bad: "do_completion_part_bad_path post enter P r2 w2 = Some (Inr (r', w'))"
    using rest stop2 assms(6) by (auto split: if_splits)
  have t2: "tame_ring inside r2"
    using p2 t1 poll_completion_zero(3) [OF assms(1,2) t1] by (auto split: if_splits)
  obtain there' r3 where pk': "peek_uring post enter P r2 = Some (there', r3)"
    using bad by (cases "peek_uring post enter P r2") (auto simp: do_completion_part_bad_path_def)
  have t3: "tame_ring inside r3" by (rule peek_uring_tame [OF assms(2) pk' t2])
  let ?wait = "\<not> there' \<and> (sint (wk_to_reap w2) > 0 \<or> io_ready_count w2 > 1)"
  obtain r4 where w4: "(if ?wait then wait_uring post enter P r3 else Some r3) = Some r4"
    using bad by (auto simp: do_completion_part_bad_path_def pk' split: option.splits)
  have t4: "tame_ring inside r4"
    using w4 t3 wait_uring_tame [OF assms(2) _ t3] by (auto split: if_splits)
  obtain m r5 w5 where p5: "poll_completion post P r4 w2 = Some (Inr (m, r5, w5))"
    and res: "r' = r5" "w' = (if m \<noteq> 0 \<or> io_ready_count w5 > 1 \<or> wk_to_reap w5 \<noteq> 0 then w5 else can_stop w5)"
    using bad by (auto simp: do_completion_part_bad_path_def pk' w4 Let_def split: option.splits sum.splits)
  note z = poll_completion_zero [OF assms(1,2) t4 p5]
  have "\<not> io_will_stop w5" using z(1) stop2 by simp
  with res assms(6) have m: "m = 0" "\<not> io_ready_count w5 > 1" "wk_to_reap w5 = 0" and w': "w' = can_stop w5"
    by (auto split: if_splits)
  have "ready P w2 = []" using idle(2) has_task_ready_iff by blast
  then show ?thesis
    using z(2,4) m w' idle(1) res(1) by (simp add: can_stop_def ready_def not_less)
qed

text \<open>A context with nothing to do on a kernel that has nothing either.\<close>

lemma tame_kernel_example: "tame_kernel wk_cfg_example (\<lambda>_. 0) (\<lambda>r. r) slow_kernel"
  by (auto simp: tame_kernel_def only_posts_id finite_kernel_id tame_ring_def slow_kernel_def)

definition io_idle :: io_state where
  "io_idle = \<lparr>wk_swap = (\<lambda>_. 0), wk_cur = cursor_init, wk_to_reap = 0, wk_to_submit = 0,
     wk_co_spawn_queue = [], wk_event_fd = - 1, wk_event_buf = 0, wk_ring_fd = 3, ti_handle = (\<lambda>_. 0),
     ti_result = (\<lambda>_. 0), io_will_stop = False, io_ready_count = 1, io_create_count = 1\<rparr>"

lemma uring_empty_wf: "cq_wf (ring_cq uring_empty)"
  using cq_example_wf by (simp add: uring_empty_def uring_example_def cq_wf_def cq_example_def)

lemma uring_empty_peek: "peek_uring (\<lambda>r. r) slow_kernel wk_cfg_example uring_empty = Some (False, uring_empty)"
proof -
  have "peek_loop (\<lambda>r. r) cfg_plain uring_empty = Some (None, 0, 0, uring_empty)"
    by (rule peek_loop_null [OF only_posts_id]) (simp add: cq_items_empty uring_empty_def cq_example_def)
  moreover from this have "get_cq_loop (\<lambda>r. r) slow_kernel cfg_plain None 0 0 False 0 0 uring_empty =
      Some (- EAGAIN, None, uring_empty)"
    by (subst get_cq_loop.simps)
      (simp add: is_cq_ring_need_enter_def is_cq_ring_need_flush_def cfg_plain_def, simp add: uring_empty_def uring_example_def)
  ultimately show ?thesis
    by (simp add: peek_uring_def peek_cq_entry_def peek_or_wait_def wait_cq_entry_num_def wk_cfg_example_def)
qed

lemma uring_empty_poll:
  "poll_completion (\<lambda>r. r) P uring_empty w = Some (Inr (0, uring_empty, w))"
  by (simp add: poll_completion_def for_each_cqe_def, subst for_each_loop.simps,
      simp add: uring_empty_def cq_example_def)

theorem io_stops_when_idle_witness:
  "\<exists>w'. do_completion_part (\<lambda>r. r) slow_kernel wk_cfg_example uring_empty io_idle = Some (Inr (uring_empty, w')) \<and>
    io_will_stop w' \<and> ready wk_cfg_example w' = [] \<and> wk_to_reap w' = 0"
proof -
  have d: "do_completion_part (\<lambda>r. r) slow_kernel wk_cfg_example uring_empty io_idle =
      Some (Inr (uring_empty, can_stop io_idle))"
    by (simp add: do_completion_part_def do_completion_part_bad_path_def uring_empty_peek uring_empty_poll
        io_idle_def has_task_ready_def cursor_is_empty_def cursor_init_def can_stop_def)
  have "\<not> wc_eventfd wk_cfg_example" by (simp add: wk_cfg_example_def)
  moreover have "tame_ring (\<lambda>_. 0) uring_empty"
    using uring_empty_wf by (simp add: tame_ring_def cq_avail_def uring_empty_def cq_example_def)
  moreover have "\<not> io_will_stop io_idle" "io_will_stop (can_stop io_idle)"
    by (simp_all add: io_idle_def can_stop_def)
  ultimately show ?thesis
    using io_stops_when_idle [OF _ tame_kernel_example _ _ d] d by blast
qed

end
