(* ===== verification/Lazy_Io.thy ===== *)
theory Lazy_Io
  imports Io_Context
begin

text \<open>
  The awaitable operations of \<^verbatim>\<open>detail/lazy_io_awaiter.hpp\<close>. An awaiter holds its entry and, at a
  known address, the \<open>task_info\<close> that the completion is addressed to; a parameter \<open>p\<close> is that
  address, \<open>P\<close> the configuration. The arguments of an operation are those of the preparation
  it calls.
\<close>

section \<open>Awaiters\<close>

record lazy_awaiter =
  aw_sqe :: u32
  aw_info :: ptr

type_synonym ('z, 'y) awaiting = "(lazy_awaiter \<times> ('z, 'y) wstate) result"

definition lazy_awaiter_new ::
  "wk_cfg \<Rightarrow> ptr \<Rightarrow> 'z uring_scheme \<Rightarrow> 'y worker_scheme \<Rightarrow> ('z, 'y) awaiting" where
  "lazy_awaiter_new P p r w =
     (case get_free_sqe P r w of
        Inl e \<Rightarrow> Inl e
      | Inr (e, r, w) \<Rightarrow>
          Inr (\<lparr>aw_sqe = e, aw_info = p\<rparr>, upd_sqe e (set_data (p OR mux_task_info_ptr)) r, w))"

text \<open>The constructor of an operation: the awaiter's, then the preparation.\<close>

definition lazy_io ::
  "wk_cfg \<Rightarrow> (sqe \<Rightarrow> sqe) \<Rightarrow> ptr \<Rightarrow> 'z uring_scheme \<Rightarrow> 'y worker_scheme \<Rightarrow> ('z, 'y) awaiting" where
  "lazy_io P prep p r w =
     (case lazy_awaiter_new P p r w of
        Inl e \<Rightarrow> Inl e
      | Inr (a, r, w) \<Rightarrow> Inr (a, upd_sqe (aw_sqe a) prep r, w))"

definition lazy_await_suspend :: "lazy_awaiter \<Rightarrow> handle \<Rightarrow> 'y worker_scheme \<Rightarrow> 'y worker_scheme" where
  "lazy_await_suspend a current w = w\<lparr>ti_handle := (ti_handle w)(aw_info a := current)\<rparr>"

definition lazy_await_resume :: "lazy_awaiter \<Rightarrow> 'y worker_scheme \<Rightarrow> u32" where
  "lazy_await_resume a w = ti_result w (aw_info a)"

definition lazy_set_async :: "lazy_awaiter \<Rightarrow> 'z uring_scheme \<Rightarrow> 'z uring_scheme" where
  "lazy_set_async a r = upd_sqe (aw_sqe a) set_async r"

definition lazy_user_data :: "lazy_awaiter \<Rightarrow> 'z uring_scheme \<Rightarrow> u64" where
  "lazy_user_data a r = get_data (ring_sqes r (aw_sqe a))"

definition lazy_detach ::
  "wk_cfg \<Rightarrow> lazy_awaiter \<Rightarrow> 'z uring_scheme \<Rightarrow> 'y worker_scheme \<Rightarrow> ('z, 'y) wstate result" where
  "lazy_detach P a r w =
     (if wc_skip P
      then (if is_cqe_skip (ring_sqes r (aw_sqe a)) then Inl AssertFail
            else Inr (upd_sqe (aw_sqe a) set_cqe_skip r, w\<lparr>wk_to_reap := wk_to_reap w - 1\<rparr>))
      else Inr (upd_sqe (aw_sqe a) (set_data (rud_nop P)) r, w))"

section \<open>Linked operations\<close>

text \<open>The value of \<open>a && b\<close> is a \<open>lazy_link_io\<close>, which names the last operation of the chain.\<close>

definition set_link_sqe :: "sqe \<Rightarrow> sqe" where
  "set_link_sqe s = (set_link s)\<lparr>sqe_user_data := sqe_user_data s OR mux_link_sqe\<rparr>"

definition set_link_awaiter :: "lazy_awaiter \<Rightarrow> 'z uring_scheme \<Rightarrow> 'z uring_scheme" where
  "set_link_awaiter a r = upd_sqe (aw_sqe a) set_link_sqe r"

record lazy_link_io =
  last_io :: lazy_awaiter

definition link_awaiters ::
  "lazy_awaiter \<Rightarrow> lazy_awaiter \<Rightarrow> 'z uring_scheme \<Rightarrow> lazy_link_io \<times> 'z uring_scheme" where
  "link_awaiters lhs rhs r = (\<lparr>last_io = rhs\<rparr>, set_link_awaiter lhs r)"

definition link_io_awaiter ::
  "lazy_link_io \<Rightarrow> lazy_awaiter \<Rightarrow> 'z uring_scheme \<Rightarrow> lazy_link_io \<times> 'z uring_scheme" where
  "link_io_awaiter lhs rhs r = (lhs\<lparr>last_io := rhs\<rparr>, set_link_awaiter (last_io lhs) r)"

definition link_io_io ::
  "lazy_link_io \<Rightarrow> lazy_link_io \<Rightarrow> 'z uring_scheme \<Rightarrow> lazy_link_io \<times> 'z uring_scheme" where
  "link_io_io lhs rhs r = (rhs, set_link_awaiter (last_io lhs) r)"

definition link_await_suspend :: "lazy_link_io \<Rightarrow> handle \<Rightarrow> 'y worker_scheme \<Rightarrow> 'y worker_scheme" where
  "link_await_suspend l current w = w\<lparr>ti_handle := (ti_handle w)(aw_info (last_io l) := current)\<rparr>"

definition link_await_resume :: "lazy_link_io \<Rightarrow> 'y worker_scheme \<Rightarrow> u32" where
  "link_await_resume l w = ti_result w (aw_info (last_io l))"

section \<open>Coroutine operations without a request\<close>

definition yield_await_suspend :: "wk_cfg \<Rightarrow> handle \<Rightarrow> 'y worker_scheme \<Rightarrow> 'y worker_scheme result" where
  "yield_await_suspend P current w = wk_co_spawn_unsafe P current w"

text \<open>\<open>who_am_i\<close> stores the handle in the awaiter and does not suspend.\<close>

definition who_am_i_await_suspend :: "handle \<Rightarrow> handle \<times> bool" where
  "who_am_i_await_suspend current = (current, False)"

text \<open>\<open>resume_on\<close>: whether the coroutine suspends, and if so the way in which the handle goes to the
  other context.\<close>

definition resume_on_await_suspend :: "wk_cfg \<Rightarrow> bool \<Rightarrow> u8 \<Rightarrow> spawn_way option" where
  "resume_on_await_suspend P same_ctx ready_count =
     (if \<not> same_ctx then Some (co_spawn_auto P same_ctx ready_count) else None)"

section \<open>The operations\<close>

definition lazy_splice where
  "lazy_splice P p fd_in off_in fd_out off_out nbytes splice_flags =
     lazy_io P (prep_splice fd_in off_in fd_out off_out nbytes splice_flags) p"

definition lazy_tee where
  "lazy_tee P p fd_in fd_out nbytes splice_flags =
     lazy_io P (prep_tee fd_in fd_out nbytes splice_flags) p"

definition lazy_readv where
  "lazy_readv P p fd iovecs n ofs =
     lazy_io P (prep_readv fd iovecs n ofs) p"

definition lazy_readv2 where
  "lazy_readv2 P p fd iovecs n ofs fl =
     lazy_io P (prep_readv2 fd iovecs n ofs fl) p"

definition lazy_read_fixed where
  "lazy_read_fixed P p fd buf n ofs bi =
     lazy_io P (prep_read_fixed fd buf n ofs bi) p"

definition lazy_writev where
  "lazy_writev P p fd iovecs n ofs =
     lazy_io P (prep_writev fd iovecs n ofs) p"

definition lazy_writev2 where
  "lazy_writev2 P p fd iovecs n ofs fl =
     lazy_io P (prep_writev2 fd iovecs n ofs fl) p"

definition lazy_write_fixed where
  "lazy_write_fixed P p fd buf n ofs bi =
     lazy_io P (prep_write_fixed fd buf n ofs bi) p"

definition lazy_recvmsg where
  "lazy_recvmsg P p fd msg fl =
     lazy_io P (prep_recvmsg fd msg fl) p"

definition lazy_recvmsg_multishot where
  "lazy_recvmsg_multishot P p fd msg fl =
     lazy_io P (prep_recvmsg_multishot fd msg fl) p"

definition lazy_sendmsg where
  "lazy_sendmsg P p fd msg fl =
     lazy_io P (prep_sendmsg fd msg fl) p"

definition lazy_poll_add where
  "lazy_poll_add P p be fd poll_mask =
     lazy_io P (prep_poll_add be fd poll_mask) p"

definition lazy_poll_multishot where
  "lazy_poll_multishot P p be fd poll_mask =
     lazy_io P (prep_poll_multishot be fd poll_mask) p"

definition lazy_poll_remove where
  "lazy_poll_remove P p d =
     lazy_io P (prep_poll_remove d) p"

definition lazy_poll_update where
  "lazy_poll_update P p be old_user_data new_user_data poll_mask fl =
     lazy_io P (prep_poll_update be old_user_data new_user_data poll_mask fl) p"

definition lazy_fsync where
  "lazy_fsync P p fd fsync_flags =
     lazy_io P (prep_fsync fd fsync_flags) p"

definition lazy_fsync_range where
  "lazy_fsync_range P p fd fsync_flags ofs n =
     lazy_io P (prep_fsync_range fd fsync_flags ofs n) p"

definition lazy_uring_nop where
  "lazy_uring_nop P p =
     lazy_io P (prep_nop) p"

definition lazy_timeout_timespec where
  "lazy_timeout_timespec P p ts cnt fl =
     lazy_io P (prep_timeout ts cnt fl) p"

definition lazy_timeout_remove where
  "lazy_timeout_remove P p d fl =
     lazy_io P (prep_timeout_remove d fl) p"

definition lazy_accept where
  "lazy_accept P p fd a addrlen fl =
     lazy_io P (prep_accept fd a addrlen fl) p"

definition lazy_accept_direct where
  "lazy_accept_direct P p fd a addrlen fl fi =
     lazy_io P (prep_accept_direct fd a addrlen fl fi) p"

definition lazy_multishot_accept where
  "lazy_multishot_accept P p fd a addrlen fl =
     lazy_io P (prep_multishot_accept fd a addrlen fl) p"

definition lazy_multishot_accept_direct where
  "lazy_multishot_accept_direct P p fd a addrlen fl =
     lazy_io P (prep_multishot_accept_direct fd a addrlen fl) p"

definition lazy_cancel where
  "lazy_cancel P p d fl =
     lazy_io P (prep_cancle d fl) p"

definition lazy_cancel_fd where
  "lazy_cancel_fd P p fd fl =
     lazy_io P (prep_cancle_fd fd fl) p"

definition lazy_connect where
  "lazy_connect P p fd a addrlen =
     lazy_io P (prep_connect fd a addrlen) p"

definition lazy_files_update where
  "lazy_files_update P p fds n ofs =
     lazy_io P (prep_files_update fds n ofs) p"

definition lazy_fallocate where
  "lazy_fallocate P p fd mode ofs n =
     lazy_io P (prep_fallocate fd mode ofs n) p"

definition lazy_openat where
  "lazy_openat P p dfd path fl mode =
     lazy_io P (prep_openat dfd path fl mode) p"

definition lazy_openat_direct where
  "lazy_openat_direct P p dfd path fl mode fi =
     lazy_io P (prep_openat_direct dfd path fl mode fi) p"

definition lazy_close where
  "lazy_close P p fd =
     lazy_io P (prep_close fd) p"

definition lazy_close_direct where
  "lazy_close_direct P p fi =
     lazy_io P (prep_close_direct fi) p"

definition lazy_read where
  "lazy_read P p fd buf n ofs =
     lazy_io P (prep_read fd buf n ofs) p"

definition lazy_write where
  "lazy_write P p fd buf n ofs =
     lazy_io P (prep_write fd buf n ofs) p"

definition lazy_statx where
  "lazy_statx P p dfd path fl msk statxbuf =
     lazy_io P (prep_statx dfd path fl msk statxbuf) p"

definition lazy_fadvise where
  "lazy_fadvise P p fd ofs n advice =
     lazy_io P (prep_fadvise fd ofs n advice) p"

definition lazy_madvise where
  "lazy_madvise P p a n advice =
     lazy_io P (prep_madvise a n advice) p"

definition lazy_send where
  "lazy_send P p sockfd buf n fl =
     lazy_io P (prep_send sockfd buf n fl) p"

definition lazy_send_zc where
  "lazy_send_zc P p sockfd buf n fl zc_flags =
     lazy_io P (prep_send_zc sockfd buf n fl zc_flags) p"

definition lazy_send_zc_fixed where
  "lazy_send_zc_fixed P p sockfd buf n fl zc_flags bi =
     lazy_io P (prep_send_zc_fixed sockfd buf n fl zc_flags bi) p"

definition lazy_sendmsg_zc where
  "lazy_sendmsg_zc P p fd msg fl =
     lazy_io P (prep_sendmsg_zc fd msg fl) p"

definition lazy_recv where
  "lazy_recv P p sockfd buf n fl =
     lazy_io P (prep_recv sockfd buf n fl) p"

definition lazy_recv_multishot where
  "lazy_recv_multishot P p sockfd buf n fl =
     lazy_io P (prep_recv_multishot sockfd buf n fl) p"

definition lazy_openat2 where
  "lazy_openat2 P p dfd path how =
     lazy_io P (prep_openat2 dfd path how) p"

definition lazy_openat2_direct where
  "lazy_openat2_direct P p dfd path how fi =
     lazy_io P (prep_openat2_direct dfd path how fi) p"

definition lazy_epoll_ctl where
  "lazy_epoll_ctl P p epfd fd opn ev =
     lazy_io P (prep_epoll_ctl epfd fd opn ev) p"

definition lazy_provide_buffers where
  "lazy_provide_buffers P p a n nr bgid bid =
     lazy_io P (prep_provide_buffers a n nr bgid bid) p"

definition lazy_remove_buffers where
  "lazy_remove_buffers P p nr bgid =
     lazy_io P (prep_remove_buffers nr bgid) p"

definition lazy_shutdown where
  "lazy_shutdown P p fd how =
     lazy_io P (prep_shutdown fd how) p"

definition lazy_unlinkat where
  "lazy_unlinkat P p dfd path fl =
     lazy_io P (prep_unlinkat dfd path fl) p"

definition lazy_unlink where
  "lazy_unlink P p path fl =
     lazy_io P (prep_unlink path fl) p"

definition lazy_renameat where
  "lazy_renameat P p olddfd oldpath newdfd newpath fl =
     lazy_io P (prep_renameat olddfd oldpath newdfd newpath fl) p"

definition lazy_rename where
  "lazy_rename P p oldpath newpath =
     lazy_io P (prep_rename oldpath newpath) p"

definition lazy_sync_file_range where
  "lazy_sync_file_range P p fd n ofs fl =
     lazy_io P (prep_sync_file_range fd n ofs fl) p"

definition lazy_mkdirat where
  "lazy_mkdirat P p dfd path mode =
     lazy_io P (prep_mkdirat dfd path mode) p"

definition lazy_mkdir where
  "lazy_mkdir P p path mode =
     lazy_io P (prep_mkdir path mode) p"

definition lazy_symlinkat where
  "lazy_symlinkat P p tgt newdirfd linkpath =
     lazy_io P (prep_symlinkat tgt newdirfd linkpath) p"

definition lazy_symlink where
  "lazy_symlink P p tgt linkpath =
     lazy_io P (prep_symlink tgt linkpath) p"

definition lazy_linkat where
  "lazy_linkat P p olddfd oldpath newdfd newpath fl =
     lazy_io P (prep_linkat olddfd oldpath newdfd newpath fl) p"

definition lazy_link where
  "lazy_link P p oldpath newpath fl =
     lazy_io P (prep_link oldpath newpath fl) p"

definition lazy_msg_ring where
  "lazy_msg_ring P p fd res ud fl =
     lazy_io P (prep_msg_ring fd res ud fl) p"

definition lazy_msg_ring_cqe_flags where
  "lazy_msg_ring_cqe_flags P p fd res ud fl cfl =
     lazy_io P (prep_msg_ring_cqe_flags fd res ud fl cfl) p"

definition lazy_getxattr where
  "lazy_getxattr P p name v path n =
     lazy_io P (prep_getxattr name v path (ucast (n :: u64))) p"

definition lazy_setxattr where
  "lazy_setxattr P p name v path fl n =
     lazy_io P (prep_setxattr name v path fl (ucast (n :: u64))) p"

definition lazy_fgetxattr where
  "lazy_fgetxattr P p fd name v n =
     lazy_io P (prep_fgetxattr fd name v (ucast (n :: u64))) p"

definition lazy_fsetxattr where
  "lazy_fsetxattr P p fd name v fl n =
     lazy_io P (prep_fsetxattr fd name v fl (ucast (n :: u64))) p"

definition lazy_socket where
  "lazy_socket P p domain ty protocol fl =
     lazy_io P (prep_socket domain ty protocol fl) p"

definition lazy_socket_direct where
  "lazy_socket_direct P p domain ty protocol fi fl =
     lazy_io P (prep_socket_direct domain ty protocol fi fl) p"

definition lazy_socket_direct_alloc where
  "lazy_socket_direct_alloc P p domain ty protocol fl =
     lazy_io P (prep_socket_direct_alloc domain ty protocol fl) p"

lemmas lazy_op_defs =
  lazy_splice_def lazy_tee_def lazy_readv_def lazy_readv2_def lazy_read_fixed_def
  lazy_writev_def lazy_writev2_def lazy_write_fixed_def lazy_recvmsg_def
  lazy_recvmsg_multishot_def lazy_sendmsg_def lazy_poll_add_def lazy_poll_multishot_def
  lazy_poll_remove_def lazy_poll_update_def lazy_fsync_def lazy_fsync_range_def
  lazy_uring_nop_def lazy_timeout_timespec_def lazy_timeout_remove_def lazy_accept_def
  lazy_accept_direct_def lazy_multishot_accept_def lazy_multishot_accept_direct_def
  lazy_cancel_def lazy_cancel_fd_def lazy_connect_def lazy_files_update_def lazy_fallocate_def
  lazy_openat_def lazy_openat_direct_def lazy_close_def lazy_close_direct_def lazy_read_def
  lazy_write_def lazy_statx_def lazy_fadvise_def lazy_madvise_def lazy_send_def
  lazy_send_zc_def lazy_send_zc_fixed_def lazy_sendmsg_zc_def lazy_recv_def
  lazy_recv_multishot_def lazy_openat2_def lazy_openat2_direct_def lazy_epoll_ctl_def
  lazy_provide_buffers_def lazy_remove_buffers_def lazy_shutdown_def lazy_unlinkat_def
  lazy_unlink_def lazy_renameat_def lazy_rename_def lazy_sync_file_range_def lazy_mkdirat_def
  lazy_mkdir_def lazy_symlinkat_def lazy_symlink_def lazy_linkat_def lazy_link_def
  lazy_msg_ring_def lazy_msg_ring_cqe_flags_def lazy_getxattr_def lazy_setxattr_def
  lazy_fgetxattr_def lazy_fsetxattr_def lazy_socket_def lazy_socket_direct_def
  lazy_socket_direct_alloc_def

section \<open>Tagged addresses\<close>

text \<open>A \<open>task_info\<close> is at a multiple of 8, which leaves the three low bits for the tag.\<close>

definition aligned8 :: "ptr \<Rightarrow> bool" where
  "aligned8 p \<longleftrightarrow> p AND 7 = 0 \<and> p \<noteq> 0"

lemma untag:
  assumes "aligned8 p" and "t AND 7 = t"
  shows "(p OR t) AND 7 = t" and "(p OR t) AND raw_task_info_mask = p" and "p OR t \<noteq> 0"
proof -
  have p: "\<not> (bit p n \<and> bit (7 :: u64) n)" for n
    using assms(1) unfolding aligned8_def by (metis bit_and_iff bit_0_eq bot_apply bot_bool_def)
  have t: "bit t n \<Longrightarrow> bit (7 :: u64) n" for n
    using assms(2) by (metis bit_and_iff)
  show "(p OR t) AND 7 = t" using assms by (simp add: word_ao_dist aligned8_def)
  show m: "(p OR t) AND raw_task_info_mask = p" unfolding raw_task_info_mask_def
    using p t by (intro bit_word_eqI) (auto simp only: bit_or_iff bit_and_iff bit_not_iff possible_bit_word)
  show "p OR t \<noteq> 0"
  proof
    assume "p OR t = 0"
    with m have "p = 0" by simp
    then show False using assms(1) by (simp add: aligned8_def)
  qed
qed

lemmas untag0 = untag [of _ 0, simplified]

section \<open>The request of an operation\<close>

lemma get_entry_sqes: "uring_get_sq_entry cfg r = (e, r1) \<Longrightarrow> ring_sqes r1 = ring_sqes r"
  by (auto simp: uring_get_sq_entry_def split: prod.splits)

lemma lazy_io_spec:
  assumes "prep_fn f" and "uring_get_sq_entry (wc_ring P) r = (Some e, r1)"
  obtains r' w' where "lazy_io P f p r w = Inr (\<lparr>aw_sqe = e, aw_info = p\<rparr>, r', w')"
    and "w' = w\<lparr>wk_to_reap := wk_to_reap w + 1, wk_to_submit := wk_to_submit w + 1\<rparr>"
    and "ring_sqes r' = (ring_sqes r)(e := f (set_data p (ring_sqes r e)))"
    and "sqe_user_data (ring_sqes r' e) = p" and "sqe_flags (ring_sqes r' e) = 0"
proof -
  let ?w = "w\<lparr>wk_to_reap := wk_to_reap w + 1, wk_to_submit := wk_to_submit w + 1\<rparr>"
  let ?r = "upd_sqe e f (upd_sqe e (set_data p) r1)"
  have "lazy_io P f p r w = Inr (\<lparr>aw_sqe = e, aw_info = p\<rparr>, ?r, ?w)"
    using assms(2) by (simp add: lazy_io_def lazy_awaiter_new_def get_free_sqe_def Let_def)
  moreover have s: "ring_sqes ?r = (ring_sqes r)(e := f (set_data p (ring_sqes r e)))"
    using get_entry_sqes [OF assms(2)] by (simp add: upd_sqe_def)
  moreover from prep_fn_overwrites [OF assms(1)] obtain t where
    t: "sqe_flags t = 0" "\<forall>s. f s = t\<lparr>sqe_user_data := sqe_user_data s\<rparr>"
    unfolding overwrites_def by blast
  then have "sqe_user_data (ring_sqes ?r e) = p" "sqe_flags (ring_sqes ?r e) = 0"
    by (simp_all add: s set_data_def)
  ultimately show thesis by (intro that [of ?r ?w]) simp_all
qed

text \<open>What the worker does with the completion of a request whose user data is \<open>p\<close>, tagged.\<close>

lemma on_cqe_task_info:
  assumes "aligned8 p" and "wk_ok k P v" and "cqe_user_data c = p" and "ti_handle v p \<noteq> 0"
    and "length (ready P v) < 2 ^ k"
  obtains v' where "on_cqe P c v = Inr v'" and "ready P v' = ready P v @ [ti_handle v p]"
    and "wk_ok k P v'" and "ti_result v' = (ti_result v)(p := cqe_res c)"
    and "ti_handle v' = ti_handle v" and "wk_to_reap v' = wk_to_reap v - 1"
proof -
  let ?v = "v\<lparr>wk_to_reap := wk_to_reap v - 1, ti_result := (ti_result v)(p := cqe_res c)\<rparr>"
  have ok: "wk_ok k P ?v" "ready P ?v = ready P v" using assms(2) by (simp_all add: wk_ok_def ready_def)
  obtain v' where v': "forward_task P (ti_handle v p) ?v = Inr v'" "ready P v' = ready P ?v @ [ti_handle v p]"
    "wk_ok k P v'" "wk_to_reap v' = wk_to_reap ?v" "ti_handle v' = ti_handle ?v" "ti_result v' = ti_result ?v"
    using forward_task_ready [OF ok(1) assms(4)] assms(5) ok(2) by metis
  have "p \<noteq> 0" "p AND 7 = 0" "p AND raw_task_info_mask = p" using assms(1) untag0 [OF assms(1)] by (simp_all add: aligned8_def)
  with v' have "on_cqe P c v = Inr v'"
    by (simp add: on_cqe_def dispatch_user_data_def assms(3) Let_def)
  with v' ok(2) show thesis by (intro that [of v']) simp_all
qed

lemma on_cqe_link:
  assumes "aligned8 p" and "cqe_user_data c = p OR mux_link_sqe"
  shows "on_cqe P c v = Inr (v\<lparr>wk_to_reap := wk_to_reap v - 1, ti_result := (ti_result v)(p := cqe_res c)\<rparr>)"
proof -
  have "(p OR 2) AND 7 = 2" "(p OR 2) AND raw_task_info_mask = p" "p OR 2 \<noteq> 0"
    using untag [OF assms(1), of 2] by simp_all
  then show ?thesis by (simp add: on_cqe_def dispatch_user_data_def assms(2) Let_def)
qed

end
