(* ===== verification/Lazy_Api.thy ===== *)
theory Lazy_Api
  imports Lazy_Io
begin

text \<open>
  The functions of \<^verbatim>\<open>lazy_io.hpp\<close> by which a program starts operations, and what the worker does with
  their completions: the result reaches the coroutine that awaits the operation. An argument with
  a default value is an option.
\<close>

section \<open>The functions\<close>

primrec default_arg :: "'a \<Rightarrow> 'a option \<Rightarrow> 'a" where
  "default_arg d None = d"
| "default_arg d (Some x) = x"

definition api_splice where
  "api_splice P p fd_in off_in fd_out off_out nbytes splice_flags =
     lazy_splice P p fd_in off_in fd_out off_out nbytes (default_arg 0 splice_flags)"

definition api_tee where
  "api_tee P p fd_in fd_out nbytes splice_flags =
     lazy_tee P p fd_in fd_out nbytes splice_flags"

definition api_readv where
  "api_readv P p fd iovecs n ofs =
     lazy_readv P p fd iovecs n (default_arg (- 1) ofs)"

definition api_readv2 where
  "api_readv2 P p fd iovecs n ofs fl =
     lazy_readv2 P p fd iovecs n ofs fl"

definition api_read_fixed where
  "api_read_fixed P p fd buf n ofs bi =
     lazy_read_fixed P p fd buf n ofs bi"

definition api_writev where
  "api_writev P p fd iovecs n ofs =
     lazy_writev P p fd iovecs n (default_arg (- 1) ofs)"

definition api_write_fixed where
  "api_write_fixed P p fd buf n ofs bi =
     lazy_write_fixed P p fd buf n ofs bi"

definition api_recvmsg where
  "api_recvmsg P p fd msg fl =
     lazy_recvmsg P p fd msg fl"

definition api_recvmsg_multishot where
  "api_recvmsg_multishot P p fd msg fl =
     lazy_recvmsg_multishot P p fd msg fl"

definition api_sendmsg where
  "api_sendmsg P p fd msg fl =
     lazy_sendmsg P p fd msg fl"

definition api_poll_add where
  "api_poll_add P p be fd poll_mask =
     lazy_poll_add P p be fd poll_mask"

definition api_poll_multishot where
  "api_poll_multishot P p be fd poll_mask =
     lazy_poll_multishot P p be fd poll_mask"

definition api_poll_remove where
  "api_poll_remove P p d =
     lazy_poll_remove P p d"

definition api_poll_update where
  "api_poll_update P p be old_user_data new_user_data poll_mask fl =
     lazy_poll_update P p be old_user_data new_user_data poll_mask fl"

definition api_fsync where
  "api_fsync P p fd fsync_flags =
     lazy_fsync P p fd fsync_flags"

definition api_fsync_range where
  "api_fsync_range P p fd fsync_flags ofs n =
     lazy_fsync_range P p fd fsync_flags ofs n"

definition api_uring_nop where
  "api_uring_nop P p =
     lazy_uring_nop P p"

definition api_timeout_timespec where
  "api_timeout_timespec P p ts cnt fl =
     lazy_timeout_timespec P p ts cnt fl"

definition api_timeout_remove where
  "api_timeout_remove P p d fl =
     lazy_timeout_remove P p d fl"

definition api_accept where
  "api_accept P p fd a addrlen fl =
     lazy_accept P p fd a addrlen fl"

definition api_accept_direct where
  "api_accept_direct P p fd a addrlen fl fi =
     lazy_accept_direct P p fd a addrlen fl fi"

definition api_multishot_accept where
  "api_multishot_accept P p fd a addrlen fl =
     lazy_multishot_accept P p fd a addrlen fl"

definition api_multishot_accept_direct where
  "api_multishot_accept_direct P p fd a addrlen fl =
     lazy_multishot_accept_direct P p fd a addrlen fl"

definition api_cancel where
  "api_cancel P p d fl =
     lazy_cancel P p d (default_arg 0 fl)"

definition api_cancel_fd where
  "api_cancel_fd P p fd fl =
     lazy_cancel_fd P p fd (default_arg 0 fl)"

definition api_connect where
  "api_connect P p fd a addrlen =
     lazy_connect P p fd a addrlen"

definition api_files_update where
  "api_files_update P p fds n ofs =
     lazy_files_update P p fds n ofs"

definition api_fallocate where
  "api_fallocate P p fd mode ofs n =
     lazy_fallocate P p fd mode ofs n"

definition api_openat where
  "api_openat P p dfd path fl mode =
     lazy_openat P p dfd path fl mode"

definition api_openat_direct where
  "api_openat_direct P p dfd path fl mode fi =
     lazy_openat_direct P p dfd path fl mode fi"

definition api_close where
  "api_close P p fd =
     lazy_close P p fd"

definition api_close_direct where
  "api_close_direct P p fi =
     lazy_close_direct P p fi"

definition api_read where
  "api_read P p fd buf n ofs =
     lazy_read P p fd buf n (default_arg (- 1) ofs)"

definition api_write where
  "api_write P p fd buf n ofs =
     lazy_write P p fd buf n (default_arg (- 1) ofs)"

definition api_statx where
  "api_statx P p dfd path fl msk statxbuf =
     lazy_statx P p dfd path fl msk statxbuf"

definition api_fadvise where
  "api_fadvise P p fd ofs n advice =
     lazy_fadvise P p fd ofs n advice"

definition api_madvise where
  "api_madvise P p a n advice =
     lazy_madvise P p a n advice"

definition api_send where
  "api_send P p sockfd buf n fl =
     lazy_send P p sockfd buf n (default_arg 0 fl)"

definition api_send_zc where
  "api_send_zc P p sockfd buf n fl zc_flags =
     lazy_send_zc P p sockfd buf n fl zc_flags"

definition api_send_zc_fixed where
  "api_send_zc_fixed P p sockfd buf n fl zc_flags bi =
     lazy_send_zc_fixed P p sockfd buf n fl zc_flags bi"

definition api_sendmsg_zc where
  "api_sendmsg_zc P p fd msg fl =
     lazy_sendmsg_zc P p fd msg fl"

definition api_recv where
  "api_recv P p sockfd buf n fl =
     lazy_recv P p sockfd buf n (default_arg 0 fl)"

definition api_recv_multishot where
  "api_recv_multishot P p sockfd buf n fl =
     lazy_recv_multishot P p sockfd buf n (default_arg 0 fl)"

definition api_openat2 where
  "api_openat2 P p dfd path how =
     lazy_openat2 P p dfd path how"

definition api_openat2_direct where
  "api_openat2_direct P p dfd path how fi =
     lazy_openat2_direct P p dfd path how fi"

definition api_epoll_ctl where
  "api_epoll_ctl P p epfd fd opn ev =
     lazy_epoll_ctl P p epfd fd opn ev"

definition api_provide_buffers where
  "api_provide_buffers P p a n nr bgid bid =
     lazy_provide_buffers P p a n nr bgid bid"

definition api_remove_buffers where
  "api_remove_buffers P p nr bgid =
     lazy_remove_buffers P p nr bgid"

definition api_shutdown where
  "api_shutdown P p fd how =
     lazy_shutdown P p fd how"

definition api_unlinkat where
  "api_unlinkat P p dfd path fl =
     lazy_unlinkat P p dfd path fl"

definition api_unlink where
  "api_unlink P p path fl =
     lazy_unlink P p path fl"

definition api_renameat where
  "api_renameat P p olddfd oldpath newdfd newpath fl =
     lazy_renameat P p olddfd oldpath newdfd newpath fl"

definition api_rename where
  "api_rename P p oldpath newpath =
     lazy_rename P p oldpath newpath"

definition api_sync_file_range where
  "api_sync_file_range P p fd n ofs fl =
     lazy_sync_file_range P p fd n ofs fl"

definition api_mkdirat where
  "api_mkdirat P p dfd path mode =
     lazy_mkdirat P p dfd path mode"

definition api_mkdir where
  "api_mkdir P p path mode =
     lazy_mkdir P p path mode"

definition api_symlinkat where
  "api_symlinkat P p tgt newdirfd linkpath =
     lazy_symlinkat P p tgt newdirfd linkpath"

definition api_symlink where
  "api_symlink P p tgt linkpath =
     lazy_symlink P p tgt linkpath"

definition api_linkat where
  "api_linkat P p olddfd oldpath newdfd newpath fl =
     lazy_linkat P p olddfd oldpath newdfd newpath fl"

definition api_link where
  "api_link P p oldpath newpath fl =
     lazy_link P p oldpath newpath fl"

definition api_msg_ring where
  "api_msg_ring P p fd res ud fl =
     lazy_msg_ring P p fd res ud fl"

definition api_msg_ring_cqe_flags where
  "api_msg_ring_cqe_flags P p fd res ud fl cfl =
     lazy_msg_ring_cqe_flags P p fd res ud fl cfl"

definition api_getxattr where
  "api_getxattr P p name v path n =
     lazy_getxattr P p name v path n"

definition api_setxattr where
  "api_setxattr P p name v path fl n =
     lazy_setxattr P p name v path fl n"

definition api_fgetxattr where
  "api_fgetxattr P p fd name v n =
     lazy_fgetxattr P p fd name v n"

definition api_fsetxattr where
  "api_fsetxattr P p fd name v fl n =
     lazy_fsetxattr P p fd name v fl n"

definition api_make_socket where
  "api_make_socket P p domain ty protocol fl =
     lazy_socket P p domain ty protocol fl"

definition api_make_socket_direct where
  "api_make_socket_direct P p domain ty protocol fi fl =
     lazy_socket_direct P p domain ty protocol fi fl"

definition api_make_socket_direct_alloc where
  "api_make_socket_direct_alloc P p domain ty protocol fl =
     lazy_socket_direct_alloc P p domain ty protocol fl"

lemmas api_op_defs =
  api_splice_def api_tee_def api_readv_def api_readv2_def api_read_fixed_def api_writev_def
  api_write_fixed_def api_recvmsg_def api_recvmsg_multishot_def api_sendmsg_def
  api_poll_add_def api_poll_multishot_def api_poll_remove_def api_poll_update_def api_fsync_def
  api_fsync_range_def api_uring_nop_def api_timeout_timespec_def api_timeout_remove_def
  api_accept_def api_accept_direct_def api_multishot_accept_def api_multishot_accept_direct_def
  api_cancel_def api_cancel_fd_def api_connect_def api_files_update_def api_fallocate_def
  api_openat_def api_openat_direct_def api_close_def api_close_direct_def api_read_def
  api_write_def api_statx_def api_fadvise_def api_madvise_def api_send_def api_send_zc_def
  api_send_zc_fixed_def api_sendmsg_zc_def api_recv_def api_recv_multishot_def api_openat2_def
  api_openat2_direct_def api_epoll_ctl_def api_provide_buffers_def api_remove_buffers_def
  api_shutdown_def api_unlinkat_def api_unlink_def api_renameat_def api_rename_def
  api_sync_file_range_def api_mkdirat_def api_mkdir_def api_symlinkat_def api_symlink_def
  api_linkat_def api_link_def api_msg_ring_def api_msg_ring_cqe_flags_def api_getxattr_def
  api_setxattr_def api_fgetxattr_def api_fsetxattr_def api_make_socket_def
  api_make_socket_direct_def api_make_socket_direct_alloc_def

inductive api_op ::
  "wk_cfg \<Rightarrow> ptr \<Rightarrow> ('z uring_scheme \<Rightarrow> 'y worker_scheme \<Rightarrow> ('z, 'y) awaiting) \<Rightarrow> bool" for P :: wk_cfg and p :: ptr where
  "api_op P p (api_splice P p fd_in off_in fd_out off_out nbytes splice_flags)"
| "api_op P p (api_tee P p fd_in fd_out nbytes splice_flags)"
| "api_op P p (api_readv P p fd iovecs n ofs)"
| "api_op P p (api_readv2 P p fd iovecs n ofs fl)"
| "api_op P p (api_read_fixed P p fd buf n ofs bi)"
| "api_op P p (api_writev P p fd iovecs n ofs)"
| "api_op P p (api_write_fixed P p fd buf n ofs bi)"
| "api_op P p (api_recvmsg P p fd msg fl)"
| "api_op P p (api_recvmsg_multishot P p fd msg fl)"
| "api_op P p (api_sendmsg P p fd msg fl)"
| "api_op P p (api_poll_add P p be fd poll_mask)"
| "api_op P p (api_poll_multishot P p be fd poll_mask)"
| "api_op P p (api_poll_remove P p d)"
| "api_op P p (api_poll_update P p be old_user_data new_user_data poll_mask fl)"
| "api_op P p (api_fsync P p fd fsync_flags)"
| "api_op P p (api_fsync_range P p fd fsync_flags ofs n)"
| "api_op P p (api_uring_nop P p)"
| "api_op P p (api_timeout_timespec P p ts cnt fl)"
| "api_op P p (api_timeout_remove P p d fl)"
| "api_op P p (api_accept P p fd a addrlen fl)"
| "api_op P p (api_accept_direct P p fd a addrlen fl fi)"
| "api_op P p (api_multishot_accept P p fd a addrlen fl)"
| "api_op P p (api_multishot_accept_direct P p fd a addrlen fl)"
| "api_op P p (api_cancel P p d fl)"
| "api_op P p (api_cancel_fd P p fd fl)"
| "api_op P p (api_connect P p fd a addrlen)"
| "api_op P p (api_files_update P p fds n ofs)"
| "api_op P p (api_fallocate P p fd mode ofs n)"
| "api_op P p (api_openat P p dfd path fl mode)"
| "api_op P p (api_openat_direct P p dfd path fl mode fi)"
| "api_op P p (api_close P p fd)"
| "api_op P p (api_close_direct P p fi)"
| "api_op P p (api_read P p fd buf n ofs)"
| "api_op P p (api_write P p fd buf n ofs)"
| "api_op P p (api_statx P p dfd path fl msk statxbuf)"
| "api_op P p (api_fadvise P p fd ofs n advice)"
| "api_op P p (api_madvise P p a n advice)"
| "api_op P p (api_send P p sockfd buf n fl)"
| "api_op P p (api_send_zc P p sockfd buf n fl zc_flags)"
| "api_op P p (api_send_zc_fixed P p sockfd buf n fl zc_flags bi)"
| "api_op P p (api_sendmsg_zc P p fd msg fl)"
| "api_op P p (api_recv P p sockfd buf n fl)"
| "api_op P p (api_recv_multishot P p sockfd buf n fl)"
| "api_op P p (api_openat2 P p dfd path how)"
| "api_op P p (api_openat2_direct P p dfd path how fi)"
| "api_op P p (api_epoll_ctl P p epfd fd opn ev)"
| "api_op P p (api_provide_buffers P p a n nr bgid bid)"
| "api_op P p (api_remove_buffers P p nr bgid)"
| "api_op P p (api_shutdown P p fd how)"
| "api_op P p (api_unlinkat P p dfd path fl)"
| "api_op P p (api_unlink P p path fl)"
| "api_op P p (api_renameat P p olddfd oldpath newdfd newpath fl)"
| "api_op P p (api_rename P p oldpath newpath)"
| "api_op P p (api_sync_file_range P p fd n ofs fl)"
| "api_op P p (api_mkdirat P p dfd path mode)"
| "api_op P p (api_mkdir P p path mode)"
| "api_op P p (api_symlinkat P p tgt newdirfd linkpath)"
| "api_op P p (api_symlink P p tgt linkpath)"
| "api_op P p (api_linkat P p olddfd oldpath newdfd newpath fl)"
| "api_op P p (api_link P p oldpath newpath fl)"
| "api_op P p (api_msg_ring P p fd res ud fl)"
| "api_op P p (api_msg_ring_cqe_flags P p fd res ud fl cfl)"
| "api_op P p (api_getxattr P p name v path n)"
| "api_op P p (api_setxattr P p name v path fl n)"
| "api_op P p (api_fgetxattr P p fd name v n)"
| "api_op P p (api_fsetxattr P p fd name v fl n)"
| "api_op P p (api_make_socket P p domain ty protocol fl)"
| "api_op P p (api_make_socket_direct P p domain ty protocol fi fl)"
| "api_op P p (api_make_socket_direct_alloc P p domain ty protocol fl)"

lemma lazy_io_op: "prep_fn f \<Longrightarrow> \<exists>f'. prep_fn f' \<and> lazy_io P f p = lazy_io P f' p"
  by blast

lemma api_op_lazy_io: "api_op P p g \<Longrightarrow> \<exists>f. prep_fn f \<and> g = lazy_io P f p"
  by (induction rule: api_op.induct) (unfold api_op_defs lazy_op_defs, (rule lazy_io_op, rule prep_fn.intros)+)

section \<open>Round trips\<close>

text \<open>C21. An operation of the API and its completion, whose user data the kernel copies from the entry:
  the request carries a tag by which the worker finds the \<open>task_info\<close> of the awaiting coroutine,
  which it appends to the ready queue; what the coroutine then reads is the result of the
  completion, and the count of requests to reap is what it was before the operation.\<close>

theorem api_roundtrip:
  assumes "api_op P p g" and "aligned8 p" and "uring_get_sq_entry (wc_ring P) r = (Some e, r1)"
    and "wk_ok k P w" and "length (ready P w) < 2 ^ k" and "h \<noteq> 0"
  shows "\<exists>a r' w'. g r w = Inr (a, r', w') \<and> lazy_user_data a r' = p \<and>
    wk_to_submit w' = wk_to_submit w + 1 \<and>
    (\<exists>v. on_cqe P (cqe_of (lazy_user_data a r') res) (lazy_await_suspend a h w') = Inr v \<and>
       ready P v = ready P w @ [h] \<and> wk_ok k P v \<and> lazy_await_resume a v = res \<and>
       wk_to_reap v = wk_to_reap w)"
proof -
  from api_op_lazy_io [OF assms(1)] obtain f where f: "prep_fn f" "g = lazy_io P f p" by blast
  from lazy_io_spec [OF f(1) assms(3), of p w] obtain r' w' where
    g: "g r w = Inr (\<lparr>aw_sqe = e, aw_info = p\<rparr>, r', w')" and
    w': "w' = w\<lparr>wk_to_reap := wk_to_reap w + 1, wk_to_submit := wk_to_submit w + 1\<rparr>" and
    ud: "sqe_user_data (ring_sqes r' e) = p" unfolding f(2) by metis
  let ?a = "\<lparr>aw_sqe = e, aw_info = p\<rparr>"
  let ?v = "lazy_await_suspend ?a h w'"
  have v: "wk_ok k P ?v" "ready P ?v = ready P w" "ti_handle ?v p = h" "wk_to_reap ?v = wk_to_reap w + 1"
    using assms(4) by (simp_all add: lazy_await_suspend_def w' wk_ok_def ready_def)
  have d: "lazy_user_data ?a r' = p" using ud by (simp add: lazy_user_data_def get_data_def)
  have c: "cqe_user_data (cqe_of p res) = p" "cqe_res (cqe_of p res) = res" by (simp_all add: cqe_of_def)
  obtain u where "on_cqe P (cqe_of p res) ?v = Inr u" "ready P u = ready P w @ [h]" "wk_ok k P u"
    "ti_result u = (ti_result ?v)(p := res)" "wk_to_reap u = wk_to_reap w"
    using on_cqe_task_info [OF assms(2) v(1) c(1)] assms(5,6) v c(2) by (metis add_diff_cancel)
  with g d w' show ?thesis by (auto simp: lazy_await_resume_def)
qed

text \<open>A read of 16 bytes.\<close>

lemma aligned8_numerals: "aligned8 4096" "aligned8 8192"
  by (simp_all add: aligned8_def)

lemma uring_empty_get: "\<exists>e r1. uring_get_sq_entry (wc_ring wk_cfg_example) uring_empty = (Some e, r1)"
  by (simp add: uring_get_sq_entry_def sq_get_sq_entry_def wk_cfg_example_def cfg_plain_def uring_empty_def
      uring_two_def uring_example_def sqe_shift_def)

theorem api_roundtrip_witness:
  "\<exists>a r' w' v. api_read wk_cfg_example 4096 3 65536 16 (Some 0) uring_empty worker_example = Inr (a, r', w') \<and>
     on_cqe wk_cfg_example (cqe_of 4096 16) (lazy_await_suspend a 77 w') = Inr v \<and>
     ready wk_cfg_example v = [77] \<and> lazy_await_resume a v = 16 \<and> wk_to_reap v = 2"
proof -
  have a: "api_op wk_cfg_example 4096 (api_read wk_cfg_example 4096 3 65536 16 (Some 0))" by (rule api_op.intros)
  obtain e r1 where e: "uring_get_sq_entry (wc_ring wk_cfg_example) uring_empty = (Some e, r1)"
    using uring_empty_get by blast
  have w: "ready wk_cfg_example worker_example = []" "wk_to_reap worker_example = 2"
    by (simp_all add: ready_def worker_example_def cursor_count_def)
  then have l: "length (ready wk_cfg_example worker_example) < 2 ^ 2" by (simp only:) simp
  from api_roundtrip [OF a aligned8_numerals(1) e worker_example_ok l, of 77 16] w show ?thesis by force
qed

section \<open>Linked operations\<close>

text \<open>C22. \<open>a && b\<close> makes one chain of two requests: the first carries the link flag and a tag of its own, so
  its completion stores the result for the program without waking anyone, and the completion of the
  second wakes the coroutine, which reads the result of the second. Both requests are accounted for.\<close>

theorem link_chain:
  assumes "api_op P p f" and "api_op P q g" and "aligned8 p" and "aligned8 q" and "p \<noteq> q"
    and "uring_get_sq_entry (wc_ring P) r = (Some e, r1)" and "f r w = Inr (a, r2, w2)"
    and "uring_get_sq_entry (wc_ring P) r2 = (Some e', r3)" and "g r2 w2 = Inr (b, r4, w4)" and "e \<noteq> e'"
    and "wk_ok k P w" and "length (ready P w) < 2 ^ k" and "h \<noteq> 0"
  shows "\<exists>l r5 v. link_awaiters a b r4 = (l, r5) \<and>
    sqe_flags (ring_sqes r5 (aw_sqe a)) = 4 \<and> sqe_flags (ring_sqes r5 (aw_sqe b)) = 0 \<and>
    fold_result (on_cqe P) [cqe_of (lazy_user_data a r5) ra, cqe_of (lazy_user_data b r5) rb]
      (link_await_suspend l h w4) = Inr v \<and>
    ready P v = ready P w @ [h] \<and> lazy_await_resume a v = ra \<and> link_await_resume l v = rb \<and>
    wk_to_reap v = wk_to_reap w \<and> wk_ok k P v"
proof -
  from api_op_lazy_io [OF assms(1)] obtain f' where f: "prep_fn f'" "f = lazy_io P f' p" by blast
  from api_op_lazy_io [OF assms(2)] obtain g' where g: "prep_fn g'" "g = lazy_io P g' q" by blast
  from lazy_io_spec [OF f(1) assms(6), of p w] assms(7) have
    a: "a = \<lparr>aw_sqe = e, aw_info = p\<rparr>" "sqe_user_data (ring_sqes r2 e) = p" "sqe_flags (ring_sqes r2 e) = 0"
    and w2: "w2 = w\<lparr>wk_to_reap := wk_to_reap w + 1, wk_to_submit := wk_to_submit w + 1\<rparr>"
    unfolding f(2) by (metis Inr_inject Pair_inject)+
  from lazy_io_spec [OF g(1) assms(8), of q w2] assms(9) have
    b: "b = \<lparr>aw_sqe = e', aw_info = q\<rparr>" "sqe_user_data (ring_sqes r4 e') = q" "sqe_flags (ring_sqes r4 e') = 0"
    and w4: "w4 = w2\<lparr>wk_to_reap := wk_to_reap w2 + 1, wk_to_submit := wk_to_submit w2 + 1\<rparr>"
    and r4: "ring_sqes r4 e = ring_sqes r2 e" using assms(10)
    unfolding g(2) by (metis Inr_inject Pair_inject fun_upd_other)+
  let ?r = "set_link_awaiter a r4" and ?l = "\<lparr>last_io = b\<rparr>"
  let ?w = "link_await_suspend ?l h w4"
  let ?v = "?w\<lparr>wk_to_reap := wk_to_reap ?w - 1, ti_result := (ti_result ?w)(p := ra)\<rparr>"
  have ud: "lazy_user_data a ?r = p OR 2" "lazy_user_data b ?r = q"
    using assms(10) by (simp_all add: lazy_user_data_def get_data_def set_link_awaiter_def upd_sqe_def
        set_link_sqe_def set_link_def a b r4)
  have fl: "sqe_flags (ring_sqes ?r (aw_sqe a)) = 4" "sqe_flags (ring_sqes ?r (aw_sqe b)) = 0"
    using assms(10) by (simp_all add: set_link_awaiter_def upd_sqe_def set_link_sqe_def set_link_def a b r4)
  have v: "wk_ok k P ?v" "ready P ?v = ready P w" "ti_handle ?v q = h" "wk_to_reap ?v = wk_to_reap w + 1"
    "ti_result ?v p = ra"
    using assms(11) by (simp_all add: link_await_suspend_def w2 w4 wk_ok_def ready_def b)
  have "on_cqe P (cqe_of (p OR 2) ra) ?w = Inr ?v"
    using on_cqe_link [OF assms(3), of "cqe_of (p OR 2) ra" P ?w] by (simp add: cqe_of_def)
  moreover obtain u where u: "on_cqe P (cqe_of q rb) ?v = Inr u" "ready P u = ready P w @ [h]" "wk_ok k P u"
    "ti_result u = (ti_result ?v)(q := rb)" "wk_to_reap u = wk_to_reap w"
    using on_cqe_task_info [OF assms(4) v(1), of "cqe_of q rb"] assms(12,13) v(2-4)
    by (simp add: cqe_of_def) (metis add_diff_cancel)
  ultimately have "fold_result (on_cqe P) [cqe_of (p OR 2) ra, cqe_of q rb] ?w = Inr u" by simp
  moreover have "lazy_await_resume a u = ra" "link_await_resume ?l u = rb"
    using v(5) assms(5) by (simp_all add: lazy_await_resume_def link_await_resume_def a b u(4))
  ultimately show ?thesis using fl u(2,3,5)
    by (intro exI [of _ ?l] exI [of _ ?r] exI [of _ u]) (simp add: link_awaiters_def ud del: fold_result.simps)
qed

definition uring_one :: uring where
  "uring_one = upd_sqe 0 (prep_nop \<circ> set_data 4096)
     (uring_empty\<lparr>ring_sq := (ring_sq uring_empty)\<lparr>sq_tail := 1\<rparr>\<rparr>)"

definition worker_one :: worker where
  "worker_one = worker_example\<lparr>wk_to_reap := 3, wk_to_submit := 1\<rparr>"

lemma uring_nop_twice:
  "uring_get_sq_entry (wc_ring wk_cfg_example) uring_empty =
     (Some 0, uring_empty\<lparr>ring_sq := (ring_sq uring_empty)\<lparr>sq_tail := 1\<rparr>\<rparr>)"
  "api_uring_nop wk_cfg_example 4096 uring_empty worker_example =
     Inr (\<lparr>aw_sqe = 0, aw_info = 4096\<rparr>, uring_one, worker_one)"
  "\<exists>r. uring_get_sq_entry (wc_ring wk_cfg_example) uring_one = (Some 1, r)"
  "\<exists>r w. api_uring_nop wk_cfg_example 8192 uring_one worker_one = Inr (\<lparr>aw_sqe = 1, aw_info = 8192\<rparr>, r, w)"
proof -
  note defs = uring_get_sq_entry_def sq_get_sq_entry_def wk_cfg_example_def cfg_plain_def uring_empty_def
      uring_two_def uring_example_def sqe_shift_def api_op_defs lazy_op_defs lazy_io_def
      lazy_awaiter_new_def get_free_sqe_def Let_def uring_one_def worker_one_def upd_sqe_def worker_example_def
  show "uring_get_sq_entry (wc_ring wk_cfg_example) uring_empty =
     (Some 0, uring_empty\<lparr>ring_sq := (ring_sq uring_empty)\<lparr>sq_tail := 1\<rparr>\<rparr>)" by (simp add: defs)
  show "api_uring_nop wk_cfg_example 4096 uring_empty worker_example =
     Inr (\<lparr>aw_sqe = 0, aw_info = 4096\<rparr>, uring_one, worker_one)" by (simp add: defs)
  show "\<exists>r. uring_get_sq_entry (wc_ring wk_cfg_example) uring_one = (Some 1, r)" by (simp add: defs)
  show "\<exists>r w. api_uring_nop wk_cfg_example 8192 uring_one worker_one =
     Inr (\<lparr>aw_sqe = 1, aw_info = 8192\<rparr>, r, w)" by (simp add: defs)
qed

lemma worker_example_room: "ready wk_cfg_example worker_example = []" "length (ready wk_cfg_example worker_example) < 2 ^ 2"
  by (simp_all add: ready_def worker_example_def cursor_count_def)

theorem link_chain_witness:
  "\<exists>a b l r2 w2 r4 w4 r5 v. api_uring_nop wk_cfg_example 4096 uring_empty worker_example = Inr (a, r2, w2) \<and>
     api_uring_nop wk_cfg_example 8192 r2 w2 = Inr (b, r4, w4) \<and> link_awaiters a b r4 = (l, r5) \<and>
     fold_result (on_cqe wk_cfg_example)
       [cqe_of (lazy_user_data a r5) 5, cqe_of (lazy_user_data b r5) 6] (link_await_suspend l 77 w4) = Inr v \<and>
     ready wk_cfg_example v = [77] \<and> lazy_await_resume a v = 5 \<and> link_await_resume l v = 6"
proof -
  have ops: "api_op wk_cfg_example p (api_uring_nop wk_cfg_example p)" for p by (rule api_op.intros)
  note n = uring_nop_twice
  from n(3) obtain r3 where e': "uring_get_sq_entry (wc_ring wk_cfg_example) uring_one = (Some 1, r3)" by blast
  from n(4) obtain r4 w4 where
    b: "api_uring_nop wk_cfg_example 8192 uring_one worker_one = Inr (\<lparr>aw_sqe = 1, aw_info = 8192\<rparr>, r4, w4)" by blast
  have ne: "(4096 :: ptr) \<noteq> 8192" "(0 :: u32) \<noteq> 1" "(77 :: handle) \<noteq> 0" by simp_all
  from link_chain [OF ops ops aligned8_numerals ne(1) n(1,2) e' b ne(2) worker_example_ok
      worker_example_room(2) ne(3), of 5 6] n(2) b worker_example_room(1)
  show ?thesis by (metis append_Nil)
qed

section \<open>Detached operations\<close>

text \<open>A detached operation is not waited for: with completions that are skipped on success
  \<open>detach\<close> takes the operation out of the count of requests to reap. It leaves the tag of the
  entry, though, and a request that fails has a completion all the same: that one appends
  whatever handle the \<open>task_info\<close> of the awaiter holds, which \<open>await_suspend\<close> never wrote and whose
  lifetime is over, and takes the request out of the count a second time, below zero where it is
  the last one. Before Linux 5.17 the entry is marked as \<open>nop\<close>, and neither happens.\<close>

theorem detach_failure_stale:
  assumes "api_op P p g" and "aligned8 p" and "uring_get_sq_entry (wc_ring P) r = (Some e, r1)"
    and "wk_ok k P w" and "length (ready P w) < 2 ^ k" and "ti_handle w p \<noteq> 0" and "\<not> wc_eventfd P"
  shows "\<exists>a r2 w2 r3 w3 v. g r w = Inr (a, r2, w2) \<and> lazy_detach P a r2 w2 = Inr (r3, w3) \<and>
    on_cqe P (cqe_of (lazy_user_data a r3) res) w3 = Inr v \<and>
    (if wc_skip P
     then wk_to_reap w3 = wk_to_reap w \<and> ready P v = ready P w @ [ti_handle w p] \<and>
          wk_to_reap v = wk_to_reap w - 1
     else wk_to_reap w3 = wk_to_reap w + 1 \<and> ready P v = ready P w \<and> wk_to_reap v = wk_to_reap w)"
proof -
  from api_op_lazy_io [OF assms(1)] obtain f where f: "prep_fn f" "g = lazy_io P f p" by blast
  from lazy_io_spec [OF f(1) assms(3), of p w] obtain r2 w2 where
    g: "g r w = Inr (\<lparr>aw_sqe = e, aw_info = p\<rparr>, r2, w2)" and
    w2: "w2 = w\<lparr>wk_to_reap := wk_to_reap w + 1, wk_to_submit := wk_to_submit w + 1\<rparr>" and
    ud: "sqe_user_data (ring_sqes r2 e) = p" "sqe_flags (ring_sqes r2 e) = 0" unfolding f(2) by metis
  let ?a = "\<lparr>aw_sqe = e, aw_info = p\<rparr>"
  show ?thesis
  proof (cases "wc_skip P")
    case True
    let ?r = "upd_sqe e set_cqe_skip r2" and ?w = "w2\<lparr>wk_to_reap := wk_to_reap w2 - 1\<rparr>"
    have d: "lazy_detach P ?a r2 w2 = Inr (?r, ?w)" using True ud by (simp add: lazy_detach_def is_cqe_skip_def)
    have c: "lazy_user_data ?a ?r = p" "wk_ok k P ?w" "ready P ?w = ready P w" "ti_handle ?w = ti_handle w"
      "wk_to_reap ?w = wk_to_reap w"
      using ud assms(4) by (simp_all add: lazy_user_data_def upd_sqe_def get_data_def set_cqe_skip_def w2
          wk_ok_def ready_def)
    obtain u where "on_cqe P (cqe_of p res) ?w = Inr u" "ready P u = ready P w @ [ti_handle w p]"
      "wk_to_reap u = wk_to_reap w - 1"
      using on_cqe_task_info [OF assms(2) c(2), of "cqe_of p res"] assms(5,6) c(3-5)
      by (simp add: cqe_of_def) metis
    with g d c True show ?thesis by (intro exI conjI) (assumption | simp)+
  next
    case False
    let ?r = "upd_sqe e (set_data 0) r2" and ?v = "w2\<lparr>wk_to_reap := wk_to_reap w2 - 1\<rparr>"
    have "lazy_detach P ?a r2 w2 = Inr (?r, w2)" using False assms(7) by (simp add: lazy_detach_def rud_nop_def)
    moreover have "lazy_user_data ?a ?r = 0" by (simp add: lazy_user_data_def upd_sqe_def get_data_def set_data_def)
    moreover have "on_cqe P (cqe_of 0 res) w2 = Inr ?v" by (simp add: on_cqe_def cqe_of_def)
    moreover have "ready P ?v = ready P w" by (simp add: ready_def w2)
    ultimately show ?thesis using g False w2 by force
  qed
qed

theorem detach_failure_stale_witness:
  "\<exists>r3 w3 v. lazy_detach wk_cfg_example \<lparr>aw_sqe = 0, aw_info = 4096\<rparr> uring_one worker_one = Inr (r3, w3) \<and>
     on_cqe wk_cfg_example (cqe_of (lazy_user_data \<lparr>aw_sqe = 0, aw_info = 4096\<rparr> r3) (- 9)) w3 = Inr v \<and>
     ready wk_cfg_example v = [77] \<and> wk_to_reap w3 = 2 \<and> wk_to_reap v = 1"
proof -
  have op: "api_op wk_cfg_example 4096 (api_uring_nop wk_cfg_example 4096)" by (rule api_op.intros)
  have w: "ti_handle worker_example 4096 = 77" "\<not> wc_eventfd wk_cfg_example" "wc_skip wk_cfg_example"
    "wk_to_reap worker_example = 2" "ti_handle worker_example 4096 \<noteq> 0"
    by (simp_all add: worker_example_def wk_cfg_example_def)
  from detach_failure_stale [OF op aligned8_numerals(1) uring_nop_twice(1) worker_example_ok
      worker_example_room(2) w(5,2), of "- 9"] w worker_example_room(1) uring_nop_twice(2)
  show ?thesis by simp blast
qed

end
