(* ===== verification/Time_Cast.thy ===== *)
theory Time_Cast
  imports Prelude "HOL-Library.Signed_Division"
begin

text \<open>
  The conversion of durations to the time specification of the kernel, \<^verbatim>\<open>utility/time_cast.hpp\<close>.
  A \<open>std::chrono::duration\<close> is its count and its period, a positive fraction of a second; the
  arithmetic is that of \<open>duration_cast\<close> and of the common type of two durations. Counts are signed integers
  of 64 bits: a product or a sum that does not fit is undefined behaviour, which is \<open>None\<close>.
\<close>

section \<open>Durations\<close>

record duration =
  dur_count :: int
  dur_num :: int
  dur_den :: int

record kernel_timespec =
  tv_sec :: int
  tv_nsec :: int

definition duration_ok :: "duration \<Rightarrow> bool" where
  "duration_ok d \<longleftrightarrow> 0 < dur_num d \<and> 0 < dur_den d \<and> coprime (dur_num d) (dur_den d)"

definition fits64 :: "int \<Rightarrow> bool" where
  "fits64 x \<longleftrightarrow> - (2 ^ 63) \<le> x \<and> x < 2 ^ 63"

definition int64 :: "int \<Rightarrow> int option" where
  "int64 x = (if fits64 x then Some x else None)"

text \<open>The count is multiplied and divided by the reduced fraction of the two periods; the division truncates towards
  zero.\<close>

definition duration_cast :: "int \<Rightarrow> int \<Rightarrow> duration \<Rightarrow> duration option" where
  "duration_cast num den d =
     (let n = dur_num d * den; m = dur_den d * num; g = gcd n m
      in map_option (\<lambda>x. \<lparr>dur_count = x sdiv (m div g), dur_num = num, dur_den = den\<rparr>) (int64 (dur_count d * (n div g))))"

text \<open>Two durations are added and subtracted in their common type.\<close>

definition common_period :: "duration \<Rightarrow> duration \<Rightarrow> int \<times> int" where
  "common_period d e = (gcd (dur_num d) (dur_num e), lcm (dur_den d) (dur_den e))"

definition dur_common :: "(int \<Rightarrow> int \<Rightarrow> int) \<Rightarrow> duration \<Rightarrow> duration \<Rightarrow> duration option" where
  "dur_common f d e = (case common_period d e of (num, den) \<Rightarrow>
     (case (duration_cast num den d, duration_cast num den e) of
        (Some x, Some y) \<Rightarrow>
          map_option (\<lambda>z. \<lparr>dur_count = z, dur_num = num, dur_den = den\<rparr>) (int64 (f (dur_count x) (dur_count y)))
      | _ \<Rightarrow> None))"

definition dur_add :: "duration \<Rightarrow> duration \<Rightarrow> duration option" where
  "dur_add = dur_common (+)"

definition dur_sub :: "duration \<Rightarrow> duration \<Rightarrow> duration option" where
  "dur_sub = dur_common (-)"

abbreviation nanoseconds :: "int \<Rightarrow> duration" where
  "nanoseconds n \<equiv> \<lparr>dur_count = n, dur_num = 1, dur_den = 1000000000\<rparr>"

section \<open>Conversion\<close>

definition to_kernel_timespec :: "duration \<Rightarrow> kernel_timespec option" where
  "to_kernel_timespec d =
     (case duration_cast 1 1 d of
        None \<Rightarrow> None
      | Some sec \<Rightarrow>
          (case dur_sub d sec of
             None \<Rightarrow> None
           | Some rest \<Rightarrow>
               map_option (\<lambda>nano. \<lparr>tv_sec = dur_count sec, tv_nsec = dur_count nano\<rparr>) (duration_cast 1 1000000000 rest)))"

definition to_kernel_timespec_biased :: "int \<Rightarrow> duration \<Rightarrow> kernel_timespec option" where
  "to_kernel_timespec_biased bias d =
     (if bias = 0 then to_kernel_timespec d
      else (case dur_add d (nanoseconds bias) of None \<Rightarrow> None | Some e \<Rightarrow> to_kernel_timespec e))"

definition timeout_bias_nanosecond :: int where
  "timeout_bias_nanosecond = - 30000"

section \<open>The duration as a number of nanoseconds\<close>

text \<open>Durations with a period that is a multiple of a nanosecond have an exact value.\<close>

definition whole_ns :: "duration \<Rightarrow> bool" where
  "whole_ns d \<longleftrightarrow> duration_ok d \<and> dur_den d dvd 1000000000"

definition dur_ns :: "duration \<Rightarrow> int" where
  "dur_ns d = dur_count d * dur_num d * (1000000000 div dur_den d)"

definition timespec_ns :: "kernel_timespec \<Rightarrow> int" where
  "timespec_ns t = tv_sec t * 1000000000 + tv_nsec t"

text \<open>What the kernel accepts: it answers \<open>EINVAL\<close> to anything else.\<close>

definition timespec_valid :: "kernel_timespec \<Rightarrow> bool" where
  "timespec_valid t \<longleftrightarrow> 0 \<le> tv_sec t \<and> 0 \<le> tv_nsec t \<and> tv_nsec t < 1000000000"

lemma fits64_le: "fits64 y \<Longrightarrow> \<bar>x\<bar> \<le> \<bar>y\<bar> \<Longrightarrow> x \<noteq> 2 ^ 63 \<Longrightarrow> fits64 x"
  by (auto simp: fits64_def abs_if split: if_splits)

lemma sdiv_one [simp]: "(x :: int) sdiv 1 = x"
  by (simp add: signed_divide_int_def sgn_mult abs_sgn mult.commute flip: sgn_mult_abs)

text \<open>From a period to one that divides it nothing is lost.\<close>

lemma duration_cast_to_ns:
  assumes "whole_ns d"
  shows "duration_cast 1 1000000000 d = map_option nanoseconds (int64 (dur_ns d))"
proof -
  have den: "0 < dur_den d" "dur_den d dvd 1000000000" using assms by (simp_all add: whole_ns_def duration_ok_def)
  then have "gcd (dur_num d * 1000000000) (dur_den d) = dur_den d" by (simp add: gcd_proj2_if_dvd_int)
  moreover have "dur_num d * 1000000000 div dur_den d = dur_num d * (1000000000 div dur_den d)"
    using den(2) by (simp add: div_mult_swap)
  ultimately show ?thesis using den(1) by (simp add: duration_cast_def Let_def dur_ns_def mult.assoc comp_def)
qed

lemma fits64_part: "fits64 y \<Longrightarrow> 0 \<le> x \<and> x \<le> y \<or> y \<le> x \<and> x \<le> 0 \<Longrightarrow> fits64 x"
  by (auto simp: fits64_def)

text \<open>The quotient and the remainder have the sign of the dividend and are no larger.\<close>

lemma sdiv_part:
  assumes "0 < (b :: int)"
  shows "0 \<le> a sdiv b * b \<and> a sdiv b * b \<le> a \<or> a \<le> a sdiv b * b \<and> a sdiv b * b \<le> 0"
    and "\<bar>a smod b\<bar> < b" and "0 \<le> a \<Longrightarrow> 0 \<le> a sdiv b \<and> 0 \<le> a smod b" and "a \<le> 0 \<Longrightarrow> a sdiv b \<le> 0 \<and> a smod b \<le> 0"
proof -
  have pos: "x sdiv b = x div b" "x smod b = x mod b" if "0 \<le> x" for x
    using that assms by (cases "x = 0"; simp add: signed_divide_int_def signed_modulo_int_def)+
  have neg: "x sdiv b = - ((- x) div b)" "x smod b = - ((- x) mod b)" if "x < 0" for x
    using that assms by (simp_all add: signed_divide_int_def signed_modulo_int_def)
  have m: "x div b * b \<le> x" "0 \<le> x mod b" "x mod b < b" for x
    using assms minus_mod_eq_div_mult [of x b] by (simp_all flip: minus_mod_eq_div_mult)
  show "0 \<le> a sdiv b * b \<and> a sdiv b * b \<le> a \<or> a \<le> a sdiv b * b \<and> a sdiv b * b \<le> 0"
  proof (cases "0 \<le> a")
    case True
    then show ?thesis using assms m(1) [of a] by (simp add: pos pos_imp_zdiv_nonneg_iff)
  next
    case False
    then have "0 \<le> - a div b" using assms by (simp add: pos_imp_zdiv_nonneg_iff)
    then show ?thesis using False m(1) [of "- a"] assms by (simp add: neg)
  qed
  show "\<bar>a smod b\<bar> < b"
    using m(2,3) [of a] m(2,3) [of "- a"] by (cases "0 \<le> a") (simp_all add: pos neg not_le)
  show "0 \<le> a \<Longrightarrow> 0 \<le> a sdiv b \<and> 0 \<le> a smod b" using assms m(2) by (simp add: pos pos_imp_zdiv_nonneg_iff)
  show "a \<le> 0 \<Longrightarrow> a sdiv b \<le> 0 \<and> a smod b \<le> 0"
    using assms m(2) [of "- a"] by (cases "a = 0") (simp_all add: neg pos pos_imp_zdiv_nonneg_iff)
qed

lemma to_kernel_timespec_eq:
  assumes "whole_ns d" and "fits64 (dur_count d * dur_num d)"
  shows "to_kernel_timespec d = Some \<lparr>tv_sec = (dur_count d * dur_num d) sdiv dur_den d,
    tv_nsec = ((dur_count d * dur_num d) smod dur_den d) * (1000000000 div dur_den d)\<rparr>"
proof -
  let ?x = "dur_count d * dur_num d" and ?b = "dur_den d"
  have den: "0 < ?b" "?b dvd 1000000000" "coprime (dur_num d) ?b" using assms by (simp_all add: whole_ns_def duration_ok_def)
  note part = sdiv_part [OF den(1), of ?x]
  let ?k = "1000000000 div ?b"
  have bk: "?b * ?k = 1000000000" using den(2) by simp
  then have k: "0 < ?k" using den(1) by (metis zero_less_mult_pos zero_less_numeral)
  have sec: "duration_cast 1 1 d = Some \<lparr>dur_count = ?x sdiv ?b, dur_num = 1, dur_den = 1\<rparr>"
    using assms(2) den(3) by (simp add: duration_cast_def Let_def int64_def coprime_iff_gcd_eq_1)
  have q: "fits64 (?x sdiv ?b * ?b)" using fits64_part [OF assms(2) part(1)] .
  have r: "fits64 (?x smod ?b)"
    using part(2) den zdvd_imp_le [OF den(2)] by (simp add: fits64_def abs_less_iff)
  have "duration_cast 1 ?b d = Some \<lparr>dur_count = ?x, dur_num = 1, dur_den = ?b\<rparr>"
    using assms(2) den(1) by (simp add: duration_cast_def Let_def int64_def)
  moreover have "duration_cast 1 ?b \<lparr>dur_count = ?x sdiv ?b, dur_num = 1, dur_den = 1\<rparr> =
      Some \<lparr>dur_count = ?x sdiv ?b * ?b, dur_num = 1, dur_den = ?b\<rparr>"
    using q by (simp add: duration_cast_def Let_def int64_def)
  moreover have "?x - ?x sdiv ?b * ?b = ?x smod ?b" by (simp add: minus_sdiv_mult_eq_smod)
  ultimately have sub: "dur_sub d \<lparr>dur_count = ?x sdiv ?b, dur_num = 1, dur_den = 1\<rparr> =
      Some \<lparr>dur_count = ?x smod ?b, dur_num = 1, dur_den = ?b\<rparr>"
    using r den(1) by (simp add: dur_sub_def dur_common_def common_period_def int64_def lcm_pos_int)
  have "\<bar>?x smod ?b * ?k\<bar> < ?b * ?k" using part(2) k by (simp add: abs_mult)
  then have "fits64 (?x smod ?b * ?k)" unfolding bk by (simp add: fits64_def abs_less_iff)
  moreover have "whole_ns \<lparr>dur_count = ?x smod ?b, dur_num = 1, dur_den = ?b\<rparr>"
    using den by (simp add: whole_ns_def duration_ok_def)
  ultimately have "duration_cast 1 1000000000 \<lparr>dur_count = ?x smod ?b, dur_num = 1, dur_den = ?b\<rparr> =
      Some (nanoseconds (?x smod ?b * ?k))"
    by (simp add: duration_cast_to_ns dur_ns_def int64_def)
  with sec sub show ?thesis by (simp add: to_kernel_timespec_def)
qed

lemma timespec_exact:
  assumes "whole_ns d" and "fits64 (dur_count d * dur_num d)"
  shows "\<exists>t. to_kernel_timespec d = Some t \<and> timespec_ns t = dur_ns d \<and> \<bar>tv_nsec t\<bar> < 1000000000 \<and>
    (timespec_valid t \<longleftrightarrow> 0 \<le> dur_ns d)"
proof -
  let ?x = "dur_count d * dur_num d" and ?b = "dur_den d"
  have den: "0 < ?b" "?b dvd 1000000000" using assms by (simp_all add: whole_ns_def duration_ok_def)
  note part = sdiv_part [OF den(1), of ?x]
  let ?k = "1000000000 div ?b"
  have bk: "?b * ?k = 1000000000" using den(2) by simp
  then have k: "0 < ?k" using den(1) by (metis zero_less_mult_pos zero_less_numeral)
  let ?t = "\<lparr>tv_sec = ?x sdiv ?b, tv_nsec = ?x smod ?b * ?k\<rparr>"
  have ns: "timespec_ns ?t = dur_ns d"
  proof -
    have "(?x sdiv ?b) * (?b * ?k) + (?x smod ?b) * ?k = ((?x sdiv ?b) * ?b + ?x smod ?b) * ?k"
      by (simp only: distrib_right mult.assoc)
    then show ?thesis by (simp add: timespec_ns_def dur_ns_def bk sdiv_mult_smod_eq)
  qed
  have lt: "\<bar>tv_nsec ?t\<bar> < 1000000000"
  proof -
    have "\<bar>?x smod ?b * ?k\<bar> < ?b * ?k" using part(2) k by (simp add: abs_mult)
    then show ?thesis unfolding bk by simp
  qed
  have sgn: "0 \<le> dur_ns d \<longleftrightarrow> 0 \<le> ?x" using k by (simp add: dur_ns_def zero_le_mult_iff)
  have "timespec_valid ?t \<longleftrightarrow> 0 \<le> dur_ns d"
  proof (cases "0 \<le> ?x")
    case True
    then show ?thesis using part(3) k lt sgn by (simp add: timespec_valid_def)
  next
    case False
    moreover have "0 \<le> timespec_ns ?t" if "timespec_valid ?t" using that by (simp add: timespec_valid_def timespec_ns_def)
    ultimately show ?thesis using sgn ns by auto
  qed
  with ns lt to_kernel_timespec_eq [OF assms] show ?thesis by auto
qed

lemma fits64_count:
  assumes "whole_ns d" and "fits64 (dur_ns d)"
  shows "fits64 (dur_count d * dur_num d)"
proof -
  have "0 < dur_den d" "dur_den d dvd 1000000000" using assms by (simp_all add: whole_ns_def duration_ok_def)
  then have "0 < 1000000000 div dur_den d" by (simp add: zdvd_imp_le pos_imp_zdiv_pos_iff)
  moreover have "0 \<le> x \<and> x \<le> x * k \<or> x * k \<le> x \<and> x \<le> 0" if "0 < k" for x k :: int
    using that mult_right_mono [of 1 k x] mult_right_mono_neg [of 1 k x] by (cases "0 \<le> x") (auto simp: mult.commute)
  ultimately show ?thesis using fits64_part [OF assms(2) [unfolded dur_ns_def]] by blast
qed

lemma dur_add_ns:
  assumes "whole_ns d"
  shows "dur_add d (nanoseconds b) =
    (if fits64 (dur_ns d) \<and> fits64 b \<and> fits64 (dur_ns d + b) then Some (nanoseconds (dur_ns d + b)) else None)"
proof -
  have "lcm (dur_den d) 1000000000 = 1000000000" using assms by (simp add: whole_ns_def lcm_proj2_if_dvd)
  moreover have "whole_ns (nanoseconds b)" "dur_ns (nanoseconds b) = b" by (simp_all add: whole_ns_def duration_ok_def dur_ns_def)
  ultimately show ?thesis
    by (simp add: dur_add_def dur_common_def common_period_def duration_cast_to_ns [OF assms] duration_cast_to_ns int64_def)
qed

text \<open>C23. A timeout that is a whole number of nanoseconds is converted without loss as long as it, the bias and their sum
  are 64-bit numbers of nanoseconds (292 years): the time specification
  is the duration plus the bias exactly, with less than a second of nanoseconds; otherwise the conversion with a
  bias overflows. It is one the kernel accepts (its parts are not negative and
  the nanoseconds are less than a second) if and only if the biased duration is not negative: with the configured bias
  of -30 microseconds every shorter timeout, zero included, becomes a specification with a negative
  part, which is not one the kernel accepts.\<close>

theorem timespec_biased_exact:
  assumes "whole_ns d"
  shows "(fits64 (dur_ns d) \<and> fits64 b \<and> fits64 (dur_ns d + b) \<longrightarrow>
      (\<exists>t. to_kernel_timespec_biased b d = Some t \<and> timespec_ns t = dur_ns d + b \<and> \<bar>tv_nsec t\<bar> < 1000000000 \<and>
         (timespec_valid t \<longleftrightarrow> 0 \<le> dur_ns d + b))) \<and>
    (b \<noteq> 0 \<and> \<not> (fits64 (dur_ns d) \<and> fits64 b \<and> fits64 (dur_ns d + b)) \<longrightarrow> to_kernel_timespec_biased b d = None) \<and>
    (\<forall>t. to_kernel_timespec_biased timeout_bias_nanosecond d = Some t \<longrightarrow> (timespec_valid t \<longleftrightarrow> 30000 \<le> dur_ns d))"
proof -
  have ns: "whole_ns (nanoseconds n)" "dur_ns (nanoseconds n) = n" for n by (simp_all add: whole_ns_def duration_ok_def dur_ns_def)
  have fit: "\<exists>t. to_kernel_timespec_biased b d = Some t \<and> timespec_ns t = dur_ns d + b \<and> \<bar>tv_nsec t\<bar> < 1000000000 \<and>
      (timespec_valid t \<longleftrightarrow> 0 \<le> dur_ns d + b)" if f: "fits64 (dur_ns d)" "fits64 b" "fits64 (dur_ns d + b)" for b
  proof (cases "b = 0")
    case True
    then show ?thesis using timespec_exact [OF assms fits64_count [OF assms f(1)]] by (simp add: to_kernel_timespec_biased_def)
  next
    case False
    then show ?thesis using timespec_exact [OF ns(1), of "dur_ns d + b"] f
      by (simp add: to_kernel_timespec_biased_def dur_add_ns [OF assms] ns(2))
  qed
  have over: "to_kernel_timespec_biased b d = None" if "b \<noteq> 0" "\<not> (fits64 (dur_ns d) \<and> fits64 b \<and> fits64 (dur_ns d + b))" for b
    using that by (auto simp: to_kernel_timespec_biased_def dur_add_ns [OF assms])
  have "timespec_valid t \<longleftrightarrow> 30000 \<le> dur_ns d" if "to_kernel_timespec_biased timeout_bias_nanosecond d = Some t" for t
    using fit [of timeout_bias_nanosecond] over [of timeout_bias_nanosecond] that by (auto simp: timeout_bias_nanosecond_def)
  then show ?thesis using fit over by blast
qed

text \<open>1500 milliseconds, and 20 microseconds; and a timeout that is meant to be for ever.\<close>

theorem timespec_biased_exact_witness:
  "(\<exists>t. to_kernel_timespec_biased (- 30000) \<lparr>dur_count = 1500, dur_num = 1, dur_den = 1000\<rparr> = Some t \<and> timespec_ns t = 1499970000) \<and>
   (\<exists>t. to_kernel_timespec_biased (- 30000) \<lparr>dur_count = 20, dur_num = 1, dur_den = 1000000\<rparr> = Some t \<and> \<not> timespec_valid t)"
proof -
  have "whole_ns \<lparr>dur_count = 1500, dur_num = 1, dur_den = 1000\<rparr>"
    "whole_ns \<lparr>dur_count = 20, dur_num = 1, dur_den = 1000000\<rparr>" by (simp_all add: whole_ns_def duration_ok_def)
  from timespec_biased_exact [OF this(1), of "- 30000"] timespec_biased_exact [OF this(2), of "- 30000"]
  show ?thesis by (auto simp: dur_ns_def fits64_def)
qed

lemma timespec_overflows:
  "to_kernel_timespec_biased timeout_bias_nanosecond \<lparr>dur_count = 2 ^ 63 - 1, dur_num = 1, dur_den = 1\<rparr> = None"
proof -
  have "whole_ns \<lparr>dur_count = 2 ^ 63 - 1, dur_num = 1, dur_den = 1\<rparr>" by (simp add: whole_ns_def duration_ok_def)
  from dur_add_ns [OF this, of timeout_bias_nanosecond] show ?thesis
    by (simp add: to_kernel_timespec_biased_def timeout_bias_nanosecond_def dur_ns_def fits64_def)
qed

end
