(* ===== verification/Lazy_Timeout.thy ===== *)
theory Lazy_Timeout
  imports Lazy_Api Time_Cast
begin

text \<open>
  The timers of \<^verbatim>\<open>detail/lazy_io_awaiter.hpp\<close> and \<^verbatim>\<open>lazy_io.hpp\<close>: plain timeouts, their update, and an
  operation with a linked timeout. The awaiter of a timer holds the time specification that the
  entry points to, here in a map from its address \<open>q\<close>. The version \<open>v\<close> of the kernel decides
  which flags there are.
\<close>

section \<open>The version of the kernel\<close>

definition is_kernel_reach :: "nat \<times> nat \<Rightarrow> nat \<Rightarrow> nat \<Rightarrow> bool" where
  "is_kernel_reach v major minor = (if fst v \<noteq> major then fst v > major else snd v \<ge> minor)"

section \<open>Timers\<close>

record ts_worker = worker +
  ts_mem :: "ptr \<Rightarrow> kernel_timespec option"   \<comment> \<open>\<open>None\<close>: what an overflow left\<close>

text \<open>A duration, or a point in time of one of two clocks.\<close>

datatype expire = Relative duration | Steady duration | System duration

primrec expire_duration :: "expire \<Rightarrow> duration" where
  "expire_duration (Relative d) = d"
| "expire_duration (Steady d) = d"
| "expire_duration (System d) = d"

definition set_ts :: "ptr \<Rightarrow> expire \<Rightarrow> 'y ts_worker_scheme \<Rightarrow> 'y ts_worker_scheme" where
  "set_ts q ex w =
     w\<lparr>ts_mem := (ts_mem w)(q := to_kernel_timespec_biased timeout_bias_nanosecond (expire_duration ex))\<rparr>"

definition pure_timer_flag :: "nat \<times> nat \<Rightarrow> u32" where
  "pure_timer_flag v = (if is_kernel_reach v 6 0 then 32 else 0)"

definition timeout_relative_flag :: "nat \<times> nat \<Rightarrow> u32" where
  "timeout_relative_flag v = (if is_kernel_reach v 5 15 then 4 else 0)"

definition timeout_absolute_steady_flag :: u32 where
  "timeout_absolute_steady_flag = 1"

definition timeout_absolute_realtime_flag :: "nat \<times> nat \<Rightarrow> u32" where
  "timeout_absolute_realtime_flag v = 1 OR (if is_kernel_reach v 5 15 then 8 else 0)"

primrec clock_flag :: "nat \<times> nat \<Rightarrow> expire \<Rightarrow> u32" where
  "clock_flag v (Relative d) = timeout_relative_flag v"
| "clock_flag v (Steady d) = timeout_absolute_steady_flag"
| "clock_flag v (System d) = timeout_absolute_realtime_flag v"

definition lazy_timeout_base ::
  "wk_cfg \<Rightarrow> ptr \<Rightarrow> ptr \<Rightarrow> expire \<Rightarrow> 'z uring_scheme \<Rightarrow> 'y ts_worker_scheme \<Rightarrow> ('z, 'y ts_worker_ext) awaiting" where
  "lazy_timeout_base P p q ex r w =
     (case lazy_awaiter_new P p r w of
        Inl e \<Rightarrow> Inl e
      | Inr (a, r, w) \<Rightarrow> Inr (a, r, set_ts q ex w))"

definition lazy_timeout ::
  "nat \<times> nat \<Rightarrow> wk_cfg \<Rightarrow> ptr \<Rightarrow> ptr \<Rightarrow> expire \<Rightarrow> 'z uring_scheme \<Rightarrow> 'y ts_worker_scheme \<Rightarrow>
   ('z, 'y ts_worker_ext) awaiting" where
  "lazy_timeout v P p q ex r w =
     (case lazy_timeout_base P p q ex r w of
        Inl e \<Rightarrow> Inl e
      | Inr (a, r, w) \<Rightarrow> Inr (a, upd_sqe (aw_sqe a) (prep_timeout q 0 (clock_flag v ex OR pure_timer_flag v)) r, w))"

definition lazy_timeout_update ::
  "wk_cfg \<Rightarrow> ptr \<Rightarrow> ptr \<Rightarrow> duration \<Rightarrow> u64 \<Rightarrow> u32 \<Rightarrow> 'z uring_scheme \<Rightarrow> 'y ts_worker_scheme \<Rightarrow>
   ('z, 'y ts_worker_ext) awaiting" where
  "lazy_timeout_update P p q d ud fl r w =
     (case lazy_timeout_base P p q (Relative d) r w of
        Inl e \<Rightarrow> Inl e
      | Inr (a, r, w) \<Rightarrow> Inr (a, upd_sqe (aw_sqe a) (prep_timeout_update q ud fl) r, w))"

section \<open>Linked timeouts\<close>

definition lazy_link_timeout_base ::
  "wk_cfg \<Rightarrow> ptr \<Rightarrow> ptr \<Rightarrow> expire \<Rightarrow> u32 \<Rightarrow> 'z uring_scheme \<Rightarrow> 'y ts_worker_scheme \<Rightarrow>
   ('z, 'y ts_worker_ext) awaiting" where
  "lazy_link_timeout_base P p q ex fl r w =
     (case lazy_timeout_base P p q ex r w of
        Inl e \<Rightarrow> Inl e
      | Inr (a, r, w) \<Rightarrow>
          (let r = upd_sqe (aw_sqe a) (prep_link_timeout q fl) r
           in if wc_skip P
              then Inr (a, upd_sqe (aw_sqe a) set_cqe_skip r, w\<lparr>wk_to_reap := wk_to_reap w - 1\<rparr>)
              else Inr (a, upd_sqe (aw_sqe a) (set_data (aw_info a OR mux_link_sqe)) r, w)))"

definition arrange_io :: "lazy_awaiter \<Rightarrow> 'z uring_scheme \<Rightarrow> lazy_link_io \<times> 'z uring_scheme" where
  "arrange_io timed r = (\<lparr>last_io = timed\<rparr>, upd_sqe (aw_sqe timed) set_link r)"

definition lazy_link_timeout ::
  "nat \<times> nat \<Rightarrow> wk_cfg \<Rightarrow> ptr \<Rightarrow> ptr \<Rightarrow> lazy_awaiter \<Rightarrow> expire \<Rightarrow> 'z uring_scheme \<Rightarrow> 'y ts_worker_scheme \<Rightarrow>
   (lazy_link_io \<times> lazy_awaiter \<times> ('z, 'y ts_worker_ext) wstate) result" where
  "lazy_link_timeout v P p q timed ex r w =
     (case lazy_link_timeout_base P p q ex (clock_flag v ex) r w of
        Inl e \<Rightarrow> Inl e
      | Inr (a, r, w) \<Rightarrow> (let (l, r) = arrange_io timed r in Inr (l, a, r, w)))"

definition link_timeout_detach ::
  "wk_cfg \<Rightarrow> lazy_link_io \<Rightarrow> 'z uring_scheme \<Rightarrow> 'y worker_scheme \<Rightarrow> ('z, 'y) wstate result" where
  "link_timeout_detach P l r w = lazy_detach P (last_io l) r w"

definition link_io_timeout ::
  "lazy_awaiter \<Rightarrow> lazy_link_io \<Rightarrow> 'z uring_scheme \<Rightarrow> lazy_link_io \<times> 'z uring_scheme" where
  "link_io_timeout lhs rhs r = (rhs, set_link_awaiter lhs r)"

section \<open>The functions of the API\<close>

definition api_timeout where
  "api_timeout v P p q d = lazy_timeout v P p q (Relative d)"

definition api_timeout_at_steady where
  "api_timeout_at_steady v P p q t = lazy_timeout v P p q (Steady t)"

text \<open>Before Linux 5.15 the program is rejected unless the system clock is steady.\<close>

definition api_timeout_at_system where
  "api_timeout_at_system v P p q t = lazy_timeout v P p q (System t)"

definition api_timeout_io where
  "api_timeout_io v P p q timed d = lazy_link_timeout v P p q timed (Relative d)"

definition api_timeout_io_at_steady where
  "api_timeout_io_at_steady v P p q timed t = lazy_link_timeout v P p q timed (Steady t)"

definition api_timeout_io_at_system where
  "api_timeout_io_at_system v P p q timed t = lazy_link_timeout v P p q timed (System t)"

definition api_timeout_update where
  "api_timeout_update P p q d ud fl = lazy_timeout_update P p q d ud (default_arg 0 fl)"

section \<open>An operation with a timeout\<close>

lemma link_timeout_spec:
  assumes "uring_get_sq_entry (wc_ring P) r = (Some e', r1)" and "aw_sqe a \<noteq> e'"
  obtains r' w' where
    "lazy_link_timeout v P t q a ex r w = Inr (\<lparr>last_io = a\<rparr>, \<lparr>aw_sqe = e', aw_info = t\<rparr>, r', w')"
    and "ring_sqes r' (aw_sqe a) = set_link (ring_sqes r (aw_sqe a))"
    and "sqe_user_data (ring_sqes r' e') = (if wc_skip P then t else t OR mux_link_sqe)"
    and "sqe_flags (ring_sqes r' e') = (if wc_skip P then 64 else 0)"
    and "wk_to_reap w' = (if wc_skip P then wk_to_reap w else wk_to_reap w + 1)"
    and "wk_swap w' = wk_swap w" and "wk_cur w' = wk_cur w"
proof -
  let ?r = "upd_sqe e' (prep_link_timeout q (clock_flag v ex)) (upd_sqe e' (set_data t) r1)"
  let ?w = "set_ts q ex (w\<lparr>wk_to_reap := wk_to_reap w + 1, wk_to_submit := wk_to_submit w + 1\<rparr>)"
  let ?u = "if wc_skip P then upd_sqe e' set_cqe_skip ?r else upd_sqe e' (set_data (t OR mux_link_sqe)) ?r"
  let ?v = "if wc_skip P then ?w\<lparr>wk_to_reap := wk_to_reap ?w - 1\<rparr> else ?w"
  note ops = upd_sqe_def set_data_def set_cqe_skip_def set_ts_def prep_link_timeout_def prep_rw_def
  have "lazy_link_timeout v P t q a ex r w =
      Inr (\<lparr>last_io = a\<rparr>, \<lparr>aw_sqe = e', aw_info = t\<rparr>, upd_sqe (aw_sqe a) set_link ?u, ?v)"
    by (simp add: lazy_link_timeout_def lazy_link_timeout_base_def lazy_timeout_base_def lazy_awaiter_new_def
      get_free_sqe_def assms(1) Let_def arrange_io_def)
  moreover have "ring_sqes (upd_sqe (aw_sqe a) set_link ?u) (aw_sqe a) = set_link (ring_sqes r (aw_sqe a))"
    using assms(2) get_entry_sqes [OF assms(1)] by (simp add: ops)
  moreover have "sqe_user_data (ring_sqes (upd_sqe (aw_sqe a) set_link ?u) e') = (if wc_skip P then t else t OR mux_link_sqe)"
    "sqe_flags (ring_sqes (upd_sqe (aw_sqe a) set_link ?u) e') = (if wc_skip P then 64 else 0)"
    using assms(2) by (simp_all add: ops)
  moreover have "wk_to_reap ?v = (if wc_skip P then wk_to_reap w else wk_to_reap w + 1)" "wk_swap ?v = wk_swap w"
    "wk_cur ?v = wk_cur w" by (simp_all add: set_ts_def)
  ultimately show thesis by (rule that)
qed

text \<open>An operation with a timeout makes a chain of the operation and a timer. Only the completion of the
  operation wakes the coroutine, which reads its result, the timer's own completion being skipped
  (from Linux 5.17) or tagged so that it wakes nobody; in the second case the two may come in
  either order. In every case the count of requests to reap is at the end what it was.\<close>

theorem link_timeout_roundtrip:
  assumes "api_op P p g" and "aligned8 p" and "aligned8 t" and "p \<noteq> t"
    and "uring_get_sq_entry (wc_ring P) r = (Some e, r1)" and "g r w = Inr (a, r2, w2)"
    and "uring_get_sq_entry (wc_ring P) r2 = (Some e', r3)" and "e \<noteq> e'"
    and "wk_ok k P w" and "length (ready P w) < 2 ^ k" and "h \<noteq> 0"
  shows "\<exists>l b r5 w5 u. lazy_link_timeout v P t q a ex r2 w2 = Inr (l, b, r5, w5) \<and>
    sqe_flags (ring_sqes r5 e) = 4 \<and> sqe_flags (ring_sqes r5 e') = (if wc_skip P then 64 else 0) \<and>
    fold_result (on_cqe P)
      (let ca = cqe_of (lazy_user_data a r5) res; cb = cqe_of (lazy_user_data b r5) tres
       in if wc_skip P then [ca] else if timer_first then [cb, ca] else [ca, cb])
      (link_await_suspend l h w5) = Inr u \<and>
    ready P u = ready P w @ [h] \<and> link_await_resume l u = res \<and> wk_to_reap u = wk_to_reap w"
proof -
  from api_op_lazy_io [OF assms(1)] obtain f where f: "prep_fn f" "g = lazy_io P f p" by blast
  from lazy_io_spec [OF f(1) assms(5), of p w] assms(6) have
    a: "a = \<lparr>aw_sqe = e, aw_info = p\<rparr>" "sqe_user_data (ring_sqes r2 e) = p" "sqe_flags (ring_sqes r2 e) = 0"
    and w2: "w2 = w\<lparr>wk_to_reap := wk_to_reap w + 1, wk_to_submit := wk_to_submit w + 1\<rparr>"
    unfolding f(2) by (metis Inr_inject Pair_inject)+
  have ne: "aw_sqe a \<noteq> e'" using assms(8) a(1) by simp
  obtain r5 w5 where
    l: "lazy_link_timeout v P t q a ex r2 w2 = Inr (\<lparr>last_io = a\<rparr>, \<lparr>aw_sqe = e', aw_info = t\<rparr>, r5, w5)" and
    s: "ring_sqes r5 (aw_sqe a) = set_link (ring_sqes r2 (aw_sqe a))"
      "sqe_user_data (ring_sqes r5 e') = (if wc_skip P then t else t OR mux_link_sqe)"
      "sqe_flags (ring_sqes r5 e') = (if wc_skip P then 64 else 0)" and
    w5: "wk_to_reap w5 = (if wc_skip P then wk_to_reap w2 else wk_to_reap w2 + 1)"
      "wk_swap w5 = wk_swap w2" "wk_cur w5 = wk_cur w2"
    by (rule link_timeout_spec [OF assms(7) ne, of v t q ex w2])
  let ?l = "\<lparr>last_io = a\<rparr>" and ?b = "\<lparr>aw_sqe = e', aw_info = t\<rparr>"
  let ?w = "link_await_suspend ?l h w5"
  let ?timer = "\<lambda>x :: 'b ts_worker_scheme. x\<lparr>wk_to_reap := wk_to_reap x - 1, ti_result := (ti_result x)(t := tres)\<rparr>"
  have ud: "lazy_user_data a r5 = p" "lazy_user_data ?b r5 = (if wc_skip P then t else t OR 2)"
    using s a by (simp_all add: lazy_user_data_def get_data_def set_link_def)
  have fl: "sqe_flags (ring_sqes r5 e) = 4" using s(1) a by (simp add: set_link_def)
  have ok: "wk_ok k P x \<and> ready P x = ready P w" if "wk_swap x = wk_swap ?w" "wk_cur x = wk_cur ?w"
    for x :: "'b ts_worker_scheme"
    using assms(9) that w5(2,3) by (simp add: wk_ok_def ready_def link_await_suspend_def w2)
  have hd: "ti_handle ?w p = h" "wk_to_reap ?w = wk_to_reap w + (if wc_skip P then 1 else 2)"
    using w5(1) by (simp_all add: link_await_suspend_def a w2)
  have timer: "on_cqe P (cqe_of (t OR 2) tres) x = Inr (?timer x)" for x :: "'b ts_worker_scheme"
    using on_cqe_link [OF assms(3), of "cqe_of (t OR 2) tres" P x] by (simp add: cqe_of_def)
  have op: "\<exists>u. on_cqe P (cqe_of p res) x = Inr u \<and> ready P u = ready P w @ [h] \<and>
      ti_result u p = res \<and> wk_to_reap u = wk_to_reap x - 1"
    if "wk_swap x = wk_swap ?w" "wk_cur x = wk_cur ?w" "ti_handle x p = h" for x :: "'b ts_worker_scheme"
    using on_cqe_task_info [OF assms(2) conjunct1 [OF ok [OF that(1,2)]], of "cqe_of p res"] that ok [OF that(1,2)]
      assms(10,11) by (simp add: cqe_of_def) (metis fun_upd_same)
  have res: "link_await_resume ?l x = ti_result x p" for x :: "'b ts_worker_scheme"
    by (simp add: link_await_resume_def a)
  have tp: "?timer x = y \<Longrightarrow> ready P y = ready P x \<and> ti_result y p = ti_result x p" for x y :: "'b ts_worker_scheme"
    using assms(4) by (auto simp: ready_def)
  from op [of ?w] op [of "?timer ?w"] hd obtain u u' where
    u: "on_cqe P (cqe_of p res) ?w = Inr u" "ready P u = ready P w @ [h]" "ti_result u p = res"
      "wk_to_reap u = wk_to_reap ?w - 1" and
    u': "on_cqe P (cqe_of p res) (?timer ?w) = Inr u'" "ready P u' = ready P w @ [h]" "ti_result u' p = res"
      "wk_to_reap u' = wk_to_reap ?w - 1 - 1" by auto
  let ?u = "if wc_skip P then u else if timer_first then u' else ?timer u"
  have "fold_result (on_cqe P)
      (let ca = cqe_of (lazy_user_data a r5) res; cb = cqe_of (lazy_user_data ?b r5) tres
       in if wc_skip P then [ca] else if timer_first then [cb, ca] else [ca, cb]) ?w = Inr ?u"
    by (simp add: ud u(1) u'(1) timer Let_def)
  moreover have "ready P ?u = ready P w @ [h]" "link_await_resume ?l ?u = res"
    using u u' tp [OF refl, of u] by (simp_all add: res)
  moreover have "wk_to_reap ?u = wk_to_reap w" using u(4) u'(4) hd(2) by simp
  ultimately show ?thesis using l fl s(3) by metis
qed

text \<open>A request with a timeout of one second.\<close>

definition ts_example :: ts_worker where
  "ts_example = worker.extend worker_example \<lparr>ts_mem = (\<lambda>_. Some \<lparr>tv_sec = 0, tv_nsec = 0\<rparr>)\<rparr>"

lemma ts_example_ok: "wk_ok 2 wk_cfg_example ts_example" "ready wk_cfg_example ts_example = []"
  using worker_example_ok worker_example_room(1)
  by (simp_all add: wk_ok_def ready_def ts_example_def worker.defs)

lemma ts_example_nop:
  "\<exists>w. api_uring_nop wk_cfg_example 4096 uring_empty ts_example = Inr (\<lparr>aw_sqe = 0, aw_info = 4096\<rparr>, uring_one, w)"
  using uring_nop_twice(1)
  by (simp add: api_op_defs lazy_op_defs lazy_io_def lazy_awaiter_new_def get_free_sqe_def Let_def uring_one_def
      upd_sqe_def)

theorem link_timeout_roundtrip_witness:
  "\<exists>a w2 l b r5 w5 u. api_uring_nop wk_cfg_example 4096 uring_empty ts_example = Inr (a, uring_one, w2) \<and>
     lazy_link_timeout (6, 1) wk_cfg_example 8192 12288 a (Relative \<lparr>dur_count = 1, dur_num = 1, dur_den = 1\<rparr>)
       uring_one w2 = Inr (l, b, r5, w5) \<and>
     fold_result (on_cqe wk_cfg_example) [cqe_of (lazy_user_data a r5) 9] (link_await_suspend l 77 w5) = Inr u \<and>
     ready wk_cfg_example u = [77] \<and> link_await_resume l u = 9 \<and> wk_to_reap u = 2"
proof -
  have op: "api_op wk_cfg_example 4096 (api_uring_nop wk_cfg_example 4096)" by (rule api_op.intros)
  from ts_example_nop obtain w2 where
    a: "api_uring_nop wk_cfg_example 4096 uring_empty ts_example = Inr (\<lparr>aw_sqe = 0, aw_info = 4096\<rparr>, uring_one, w2)"
    by blast
  from uring_nop_twice(3) obtain r3 where e': "uring_get_sq_entry (wc_ring wk_cfg_example) uring_one = (Some 1, r3)" by blast
  have ne: "(4096 :: ptr) \<noteq> 8192" "(0 :: u32) \<noteq> 1" "(77 :: handle) \<noteq> 0" by simp_all
  have l: "length (ready wk_cfg_example ts_example) < 2 ^ 2" by (simp only: ts_example_ok(2)) simp
  have w: "wc_skip wk_cfg_example" "wk_to_reap ts_example = 2"
    by (simp_all add: wk_cfg_example_def ts_example_def worker.defs worker_example_def)
  let ?a = "\<lparr>aw_sqe = 0, aw_info = 4096\<rparr>" and ?ex = "Relative \<lparr>dur_count = 1, dur_num = 1, dur_den = 1\<rparr>"
  have "\<exists>l b r5 w5 u. lazy_link_timeout (6, 1) wk_cfg_example 8192 12288 ?a ?ex uring_one w2 = Inr (l, b, r5, w5) \<and>
     fold_result (on_cqe wk_cfg_example) [cqe_of (lazy_user_data ?a r5) 9] (link_await_suspend l 77 w5) = Inr u \<and>
     ready wk_cfg_example u = [77] \<and> link_await_resume l u = 9 \<and> wk_to_reap u = 2"
    using link_timeout_roundtrip [OF op aligned8_numerals ne(1) uring_nop_twice(1) a e' ne(2) ts_example_ok(1) l ne(3),
      of "(6, 1)" 12288 ?ex 9]
    unfolding w(2) ts_example_ok(2) append_Nil Let_def if_P [OF w(1)] by blast
  with a show ?thesis by blast
qed

end
