(* ===== verification/Stop_State.thy ===== *)
theory Stop_State
  imports Wait_List
begin

text \<open>
  The shared state of a stop request, \<^verbatim>\<open>co/stop_token.hpp\<close>: a word with the request bit, a lock
  bit and the number of sources, and a doubly linked list of callbacks. The fields of the
  callbacks are maps from their addresses; \<open>m_destroyed\<close> is whether it points to the local
  variable \<open>destroyed\<close> of the thread that makes the request, which is \<open>st_destroyed\<close>.
\<close>

section \<open>State\<close>

record stop_state =
  st_owners :: u32
  st_value :: u32
  st_head :: ptr
  st_requester :: "nat option"
  st_destroyed :: bool
  cb_prev :: "ptr \<Rightarrow> ptr"
  cb_next :: "ptr \<Rightarrow> ptr"
  cb_destroyed :: "ptr \<Rightarrow> bool"
  cb_done :: "ptr \<Rightarrow> nat"

abbreviation (input) stop_requested_bit :: u32 where "stop_requested_bit \<equiv> 1"
abbreviation (input) locked_bit :: u32 where "locked_bit \<equiv> 2"
abbreviation (input) ssrc_counter_inc :: u32 where "ssrc_counter_inc \<equiv> 4"

definition st_stop_possible :: "'y stop_state_scheme \<Rightarrow> bool" where
  "st_stop_possible s \<longleftrightarrow> st_value s AND NOT locked_bit \<noteq> 0"

definition st_stop_requested :: "'y stop_state_scheme \<Rightarrow> bool" where
  "st_stop_requested s \<longleftrightarrow> st_value s AND stop_requested_bit \<noteq> 0"

definition add_owner :: "'y stop_state_scheme \<Rightarrow> 'y stop_state_scheme" where
  "add_owner s = s\<lparr>st_owners := st_owners s + 1\<rparr>"

text \<open>Whether the state is deleted.\<close>

definition release_ownership :: "'y stop_state_scheme \<Rightarrow> bool \<times> 'y stop_state_scheme" where
  "release_ownership s = (st_owners s = 1, s\<lparr>st_owners := st_owners s - 1\<rparr>)"

definition add_ssrc :: "'y stop_state_scheme \<Rightarrow> 'y stop_state_scheme" where
  "add_ssrc s = s\<lparr>st_value := st_value s + ssrc_counter_inc\<rparr>"

definition sub_ssrc :: "'y stop_state_scheme \<Rightarrow> 'y stop_state_scheme" where
  "sub_ssrc s = s\<lparr>st_value := st_value s - ssrc_counter_inc\<rparr>"

section \<open>The lock\<close>

text \<open>One attempt: \<open>curval\<close> is what the thread read last, \<open>spurious\<close> a failure of the weak exchange
  without a reason.\<close>

definition do_try_lock ::
  "bool \<Rightarrow> u32 \<Rightarrow> u32 \<Rightarrow> 'y stop_state_scheme \<Rightarrow> bool \<times> u32 \<times> 'y stop_state_scheme" where
  "do_try_lock spurious curval newbits s =
     (if curval AND locked_bit \<noteq> 0 then (False, st_value s, s)
      else if st_value s = curval \<and> \<not> spurious
      then (True, curval, s\<lparr>st_value := curval OR (newbits OR locked_bit)\<rparr>)
      else (False, st_value s, s))"

definition try_lock :: "bool \<Rightarrow> u32 \<Rightarrow> 'y stop_state_scheme \<Rightarrow> bool \<times> u32 \<times> 'y stop_state_scheme" where
  "try_lock spurious curval s = do_try_lock spurious curval 0 s"

definition try_lock_and_stop ::
  "bool \<Rightarrow> u32 \<Rightarrow> 'y stop_state_scheme \<Rightarrow> bool \<times> u32 \<times> 'y stop_state_scheme" where
  "try_lock_and_stop spurious curval s = do_try_lock spurious curval stop_requested_bit s"

definition st_unlock :: "'y stop_state_scheme \<Rightarrow> 'y stop_state_scheme" where
  "st_unlock s = s\<lparr>st_value := st_value s - locked_bit\<rparr>"

section \<open>The list of callbacks\<close>

definition cb_link :: "ptr \<Rightarrow> 'y stop_state_scheme \<Rightarrow> 'y stop_state_scheme" where
  "cb_link c s =
     (let s = s\<lparr>cb_next := (cb_next s)(c := st_head s)\<rparr>;
          s = (if st_head s \<noteq> 0 then s\<lparr>cb_prev := (cb_prev s)(st_head s := c)\<rparr> else s)
      in s\<lparr>st_head := c\<rparr>)"

text \<open>The first part of \<open>remove_callback\<close>: whether the callback was in the list.\<close>

definition cb_unlink :: "ptr \<Rightarrow> 'y stop_state_scheme \<Rightarrow> bool \<times> 'y stop_state_scheme" where
  "cb_unlink c s =
     (if c = st_head s
      then (let s = s\<lparr>st_head := cb_next s (st_head s)\<rparr>
            in (True, if st_head s \<noteq> 0 then s\<lparr>cb_prev := (cb_prev s)(st_head s := 0)\<rparr> else s))
      else if cb_prev s c \<noteq> 0
      then (let s = s\<lparr>cb_next := (cb_next s)(cb_prev s c := cb_next s c)\<rparr>
            in (True, if cb_next s c \<noteq> 0
                      then s\<lparr>cb_prev := (cb_prev s)(cb_next s c := cb_prev s c)\<rparr> else s))
      else (False, s))"

text \<open>The first part of an iteration of \<open>request_stop\<close>: the callback and whether it is the last.\<close>

definition cb_pop :: "'y stop_state_scheme \<Rightarrow> ptr \<times> bool \<times> 'y stop_state_scheme" where
  "cb_pop s =
     (let cb = st_head s; s = s\<lparr>st_head := cb_next s (st_head s)\<rparr>
      in if st_head s \<noteq> 0 then (cb, False, s\<lparr>cb_prev := (cb_prev s)(st_head s := 0)\<rparr>) else (cb, True, s))"

section \<open>The list as a list\<close>

text \<open>From \<open>p\<close> on, with \<open>b\<close> before it.\<close>

fun dchain :: "(ptr \<Rightarrow> ptr) \<Rightarrow> (ptr \<Rightarrow> ptr) \<Rightarrow> ptr \<Rightarrow> ptr \<Rightarrow> ptr list \<Rightarrow> bool" where
  "dchain nxt prv b p [] \<longleftrightarrow> p = 0"
| "dchain nxt prv b p (x # xs) \<longleftrightarrow> p = x \<and> x \<noteq> 0 \<and> prv x = b \<and> dchain nxt prv x (nxt x) xs"

definition callbacks :: "'y stop_state_scheme \<Rightarrow> ptr list \<Rightarrow> bool" where
  "callbacks s xs \<longleftrightarrow> dchain (cb_next s) (cb_prev s) 0 (st_head s) xs"

lemma dchain_chain: "dchain nxt prv b p xs \<Longrightarrow> chain nxt p xs"
  by (induction xs arbitrary: b p) auto

lemma callbacks_distinct: "callbacks s xs \<Longrightarrow> distinct xs \<and> 0 \<notin> set xs"
  unfolding callbacks_def using chain_distinct chain_no_null dchain_chain by metis

lemma dchain_cong:
  "(\<And>x. x \<in> set xs \<Longrightarrow> nxt x = nxt' x) \<Longrightarrow> (\<And>x. x \<in> set xs \<Longrightarrow> prv x = prv' x) \<Longrightarrow>
   dchain nxt prv b p xs = dchain nxt' prv' b p xs"
  by (induction xs arbitrary: b p) auto

lemma dchain_head: "dchain nxt prv b p xs \<Longrightarrow> p = (case xs of [] \<Rightarrow> 0 | x # _ \<Rightarrow> x)"
  by (cases xs) auto

lemma dchain_set_prev:
  assumes "dchain nxt prv b p xs" and "distinct xs"
  shows "dchain nxt (if p \<noteq> 0 then prv(p := b') else prv) b' p xs"
proof (cases xs)
  case (Cons x ys)
  then have "dchain nxt (prv(x := b')) x (nxt x) ys"
    using assms by (subst dchain_cong [where nxt' = nxt and prv' = prv]) auto
  with assms Cons show ?thesis by simp
qed (use assms in simp)

lemma callbacks_link:
  assumes "callbacks s xs" and "c \<noteq> 0" and "c \<notin> set xs" and "cb_prev s c = 0"
  shows "callbacks (cb_link c s) (c # xs)"
proof -
  let ?n = "(cb_next s)(c := st_head s)"
  have d: "dchain (cb_next s) (cb_prev s) 0 (st_head s) xs" "distinct xs"
    using assms(1) callbacks_distinct by (auto simp: callbacks_def)
  have "dchain ?n (cb_prev s) 0 (st_head s) xs"
    using d(1) assms(3) by (subst dchain_cong [where nxt' = "cb_next s" and prv' = "cb_prev s"]) auto
  from dchain_set_prev [OF this d(2), of c] have
    "dchain ?n (if st_head s \<noteq> 0 then (cb_prev s)(st_head s := c) else cb_prev s) c (st_head s) xs" .
  moreover have "st_head s \<noteq> c" using dchain_head [OF d(1)] assms(2,3) by (cases xs) auto
  ultimately show ?thesis using assms(2,4) by (simp add: callbacks_def cb_link_def Let_def split: if_splits)
qed

lemma callbacks_pop:
  assumes "callbacks s (x # xs)" and "cb_pop s = (c, lst, s')"
  shows "c = x" and "callbacks s' xs" and "lst \<longleftrightarrow> xs = []"
proof -
  have d: "x = st_head s" "dchain (cb_next s) (cb_prev s) x (cb_next s x) xs" "distinct xs"
    using assms(1) callbacks_distinct [OF assms(1)] by (auto simp: callbacks_def)
  note p = dchain_set_prev [OF d(2,3), of 0]
  show "c = x" "callbacks s' xs" "lst \<longleftrightarrow> xs = []"
    using assms(2) p d(1) dchain_head [OF d(2)]
    by (auto simp: cb_pop_def callbacks_def Let_def split: if_splits list.splits)
qed

lemma dchain_suffix:
  "dchain nxt prv b p (us @ c # vs) \<Longrightarrow>
   dchain nxt prv c (nxt c) vs \<and> prv c = (if us = [] then b else last us) \<and> c \<noteq> 0"
proof (induction us arbitrary: b p)
  case (Cons x us)
  have "dchain nxt prv x (nxt x) (us @ c # vs)" using Cons.prems by simp
  from Cons.IH [OF this] show ?case by (simp split: if_splits)
qed simp

lemma dchain_remove:
  assumes "dchain nxt prv b p (us @ u # c # vs)" and "distinct (us @ u # c # vs)"
  shows "dchain (nxt(u := nxt c)) (if nxt c \<noteq> 0 then prv(nxt c := u) else prv) b p (us @ u # vs)"
  using assms
proof (induction us arbitrary: b p)
  case Nil
  then have c: "dchain nxt prv c (nxt c) vs" "p = u" "u \<noteq> 0" "prv u = b" "u \<notin> set vs" "distinct vs"
    by auto
  have ne: "nxt c \<noteq> u" using dchain_head [OF c(1)] c(3,5) by (cases vs) auto
  have "dchain (nxt(u := nxt c)) prv c (nxt c) vs"
    using c(1,5) by (subst dchain_cong [where nxt' = nxt and prv' = prv]) auto
  from dchain_set_prev [OF this c(6), of u] c(2-4) ne show ?case by (simp add: fun_upd_def split: if_splits)
next
  case (Cons x us)
  then have x: "p = x" "x \<noteq> 0" "prv x = b" "x \<noteq> u" "x \<notin> set vs"
    and t: "dchain nxt prv x (nxt x) (us @ u # c # vs)" "distinct (us @ u # c # vs)" by auto
  have "dchain nxt prv c (nxt c) vs" using dchain_suffix [of nxt prv x "nxt x" "us @ [u]"] t(1) by simp
  then have "nxt c \<noteq> x" using dchain_head x(2,5) by (cases vs) fastforce+
  with x(1-4) Cons.IH [OF t] show ?case by (simp add: fun_upd_def)
qed

lemma callbacks_unlink:
  assumes "callbacks s xs" and "c \<in> set xs"
  obtains s' where "cb_unlink c s = (True, s')" and "callbacks s' (remove1 c xs)"
proof -
  have d: "dchain (cb_next s) (cb_prev s) 0 (st_head s) xs" "distinct xs"
    using assms(1) callbacks_distinct by (auto simp: callbacks_def)
  from assms(2) obtain pre vs where xs: "xs = pre @ c # vs" by (auto simp: in_set_conv_decomp)
  show thesis
  proof (cases pre rule: rev_cases)
    case Nil
    with d xs have c: "c = st_head s" "dchain (cb_next s) (cb_prev s) c (cb_next s c) vs" "distinct vs" by auto
    have "cb_unlink c s = (True, snd (cb_unlink c s))" using c(1) by (simp add: cb_unlink_def Let_def)
    moreover have "callbacks (snd (cb_unlink c s)) vs"
      using dchain_set_prev [OF c(2,3), of 0] c(1) by (simp add: cb_unlink_def Let_def callbacks_def split: if_splits)
    ultimately show thesis using that Nil xs by simp
  next
    case (snoc us u)
    with xs have xs': "xs = us @ u # c # vs" by simp
    have c: "cb_prev s c = u" and u: "u \<noteq> 0"
      using dchain_suffix [of "cb_next s" "cb_prev s" 0 "st_head s" "us @ [u]" c vs]
        dchain_suffix [of "cb_next s" "cb_prev s" 0 "st_head s" us u "c # vs"] d(1) xs' by simp_all
    have "st_head s \<noteq> c" using d xs' by (cases us) auto
    then have h: "cb_unlink c s = (True, snd (cb_unlink c s))" using c u by (simp add: cb_unlink_def Let_def)
    have "callbacks (snd (cb_unlink c s)) (us @ u # vs)"
      using dchain_remove [of "cb_next s" "cb_prev s" 0 "st_head s" us u c vs] d xs' \<open>st_head s \<noteq> c\<close> c u
      by (simp add: cb_unlink_def Let_def callbacks_def split: if_splits)
    moreover have "remove1 c xs = us @ u # vs" using d(2) by (simp add: xs' remove1_append)
    ultimately show thesis using that h by simp
  qed
qed

lemma callbacks_not_in:
  assumes "callbacks s xs" and "c \<notin> set xs" and "c \<noteq> 0" and "cb_prev s c = 0"
  shows "cb_unlink c s = (False, s)"
  using assms dchain_head [of "cb_next s" "cb_prev s" 0 "st_head s" xs]
  by (cases xs) (auto simp: cb_unlink_def callbacks_def)

text \<open>What the operations on the list leave alone.\<close>

lemma callbacks_head: "callbacks s xs \<Longrightarrow> st_head s = (case xs of [] \<Rightarrow> 0 | x # _ \<Rightarrow> x)"
  unfolding callbacks_def by (rule dchain_head)

lemma cb_link_frame:
  assumes "callbacks s xs" and "x \<notin> set xs"
  shows "cb_prev (cb_link c s) x = cb_prev s x"
  using callbacks_head [OF assms(1)] assms(2) by (auto simp: cb_link_def Let_def split: list.splits)

lemma cb_pop_frame:
  assumes "callbacks s (y # xs)" and "cb_pop s = (c, lst, s')" and "x \<notin> set xs"
  shows "cb_prev s' x = cb_prev s x" and "cb_prev s' c = 0"
proof -
  have d: "y = st_head s" "dchain (cb_next s) (cb_prev s) y (cb_next s y) xs" "cb_prev s y = 0" "y \<notin> set xs"
    using assms(1) callbacks_distinct [OF assms(1)] by (auto simp: callbacks_def)
  then show "cb_prev s' x = cb_prev s x" "cb_prev s' c = 0"
    using assms(2,3) dchain_head [OF d(2)] by (auto simp: cb_pop_def Let_def split: if_splits list.splits)
qed

lemma cb_unlink_frame:
  assumes "callbacks s xs" and "c \<in> set xs" and "cb_unlink c s = (b, s')" and "x \<notin> set xs"
  shows "cb_prev s' x = cb_prev s x"
proof -
  have d: "dchain (cb_next s) (cb_prev s) 0 (st_head s) xs" using assms(1) by (simp add: callbacks_def)
  from assms(2) obtain us vs where xs: "xs = us @ c # vs" by (auto simp: in_set_conv_decomp)
  have "dchain (cb_next s) (cb_prev s) c (cb_next s c) vs" using dchain_suffix d xs by blast
  from dchain_head [OF this] have "cb_next s c = 0 \<or> cb_next s c \<in> set xs" using xs by (cases vs) auto
  then show ?thesis using assms(3,4) by (auto simp: cb_unlink_def Let_def split: if_splits)
qed

section \<open>The bits of the word\<close>

definition st_locked :: "'y stop_state_scheme \<Rightarrow> bool" where
  "st_locked s \<longleftrightarrow> st_value s AND locked_bit \<noteq> 0"

lemma low_bits:
  fixes v :: u32
  shows "v AND 1 \<noteq> 0 \<longleftrightarrow> uint v mod 2 = 1" and "v AND 2 \<noteq> 0 \<longleftrightarrow> 2 \<le> uint v mod 4"
proof -
  have "v AND 1 = of_bool (odd v)" by (simp add: and_one_eq mod2_eq_if)
  moreover have "odd v \<longleftrightarrow> uint v mod 2 = 1" by (simp add: even_word_iff odd_iff_mod_2_eq_one flip: uint_and) (metis bit_0 bit_uint_iff odd_iff_mod_2_eq_one len_gt_0)
  ultimately show "v AND 1 \<noteq> 0 \<longleftrightarrow> uint v mod 2 = 1" by simp
next
  have "v AND 2 \<noteq> 0 \<longleftrightarrow> bit v 1" using and_exp_eq_0_iff_not_bit [of v 1] by simp
  moreover have "bit v 1 \<longleftrightarrow> bit (uint v) 1" by (simp add: bit_uint_iff)
  moreover have "bit (uint v) 1 \<longleftrightarrow> 2 \<le> uint v mod 4" by (simp add: bit_iff_odd) presburger
  ultimately show "v AND 2 \<noteq> 0 \<longleftrightarrow> 2 \<le> uint v mod 4" by simp
qed
lemma uint_mod4: "uint (v + w :: u32) mod 4 = (uint v + uint w) mod 4" "uint (v - w :: u32) mod 4 = (uint v - uint w) mod 4"
 "uint v mod 2 = (uint v mod 4) mod 2"
  by (simp_all add: uint_word_ariths mod_mod_cancel)

lemmas st_bits = st_locked_def st_stop_requested_def low_bits

lemma do_try_lock_fails: "do_try_lock sp cur nb s = (False, cur', s') \<Longrightarrow> s' = s \<and> cur' = st_value s"
  by (auto simp: do_try_lock_def split: if_splits)

lemma do_try_lock_takes:
  assumes "do_try_lock sp cur nb s = (True, cur', s')" and "nb = 0 \<or> nb = 1"
  shows "\<not> st_locked s" and "st_value s = cur" and "\<exists>v. s' = s\<lparr>st_value := v\<rparr>" and "st_locked s'"
    and "st_stop_requested s' \<longleftrightarrow> st_stop_requested s \<or> nb = 1"
  using assms by (auto simp: do_try_lock_def st_locked_def st_stop_requested_def word_ao_dist split: if_splits)

lemma st_unlock_bits:
  assumes "st_locked s"
  shows "\<not> st_locked (st_unlock s)" and "st_stop_requested (st_unlock s) \<longleftrightarrow> st_stop_requested s"
proof -
  have "(x - 2) mod 4 = x mod 4 - 2" if "2 \<le> x mod 4" for x :: int using that by presburger
  then have d: "uint (st_value s - 2) mod 4 = uint (st_value s) mod 4 - 2"
    using assms uint_mod4(2) [of "st_value s" 2] by (simp add: st_bits)
  have r: "(x - 2) mod 2 = x mod 2" "x mod 4 < 4" for x :: int by presburger+
  from d show "\<not> st_locked (st_unlock s)" by (simp add: st_locked_def low_bits st_unlock_def r)
  from d show "st_stop_requested (st_unlock s) \<longleftrightarrow> st_stop_requested s"
    using uint_mod4(3) [of "st_value s"] uint_mod4(3) [of "st_value s - 2"]
    by (simp add: st_stop_requested_def low_bits st_unlock_def r)
qed

lemma ssrc_bits:
  "st_locked (add_ssrc s) = st_locked s" "st_stop_requested (add_ssrc s) = st_stop_requested s"
  "st_locked (sub_ssrc s) = st_locked s" "st_stop_requested (sub_ssrc s) = st_stop_requested s"
proof -
  have "uint (st_value s + 4) mod 4 = uint (st_value s) mod 4" "uint (st_value s - 4) mod 4 = uint (st_value s) mod 4"
    using uint_mod4(1,2) [of "st_value s" 4] by simp_all
  then show "st_locked (add_ssrc s) = st_locked s" "st_stop_requested (add_ssrc s) = st_stop_requested s"
    "st_locked (sub_ssrc s) = st_locked s" "st_stop_requested (sub_ssrc s) = st_stop_requested s"
    using uint_mod4(3) [of "st_value s"] uint_mod4(3) [of "st_value s + 4"] uint_mod4(3) [of "st_value s - 4"]
    by (simp_all add: st_bits add_ssrc_def sub_ssrc_def)
qed

end
