(* ===== verification/Stop_Threads.thy ===== *)
theory Stop_Threads
  imports Stop_State
begin

text \<open>
  Threads that share the state of a stop request: some ask for the stop, others construct and
  destroy callbacks, and a callback that runs may do any of this itself. The steps are the
  accesses of the threads to the word, and the bodies of the critical sections with the release
  of the lock. The constructor of a callback runs once for its address and its destructor once
  after that. At most one request succeeds, whose progress is a part of the state.
\<close>

section \<open>Steps\<close>

datatype req_pc = RNone | ROwn | RLoop | RPopped ptr bool | RRun ptr bool | RAfter ptr bool | RRelock u32 | RDone

datatype cb_pc =
    CFresh
  | CReg nat u32
  | CRegBody nat
  | CRegRun nat         \<comment> \<open>the stop was requested before: the constructor runs the callback\<close>
  | CDetached           \<comment> \<open>constructed without being registered\<close>
  | CAlive
  | CRem nat u32
  | CRemBody nat
  | CRemOut nat
  | CRemWait nat
  | CDead

record stop_sys = stop_state +
  req :: req_pc
  req_tid :: nat
  rq_old :: "nat \<Rightarrow> u32 option"
  cbpc :: "ptr \<Rightarrow> cb_pc"

fun cb_tid :: "cb_pc \<Rightarrow> nat option" where
  "cb_tid (CReg t old) = Some t"
| "cb_tid (CRegBody t) = Some t"
| "cb_tid (CRegRun t) = Some t"
| "cb_tid (CRem t old) = Some t"
| "cb_tid (CRemBody t) = Some t"
| "cb_tid (CRemOut t) = Some t"
| "cb_tid (CRemWait t) = Some t"
| "cb_tid _ = None"

text \<open>The thread executes code of the program: outside of every operation or in a callback.\<close>

definition thread_free :: "stop_sys \<Rightarrow> nat \<Rightarrow> bool" where
  "thread_free s t \<longleftrightarrow> rq_old s t = None \<and> (\<forall>c. cb_tid (cbpc s c) = Some t \<longrightarrow> cbpc s c = CRegRun t) \<and>
     (req s \<notin> {RNone, RDone} \<and> t = req_tid s \<longrightarrow> (\<exists>c l. req s = RRun c l))"

abbreviation (input) set_pc :: "ptr \<Rightarrow> cb_pc \<Rightarrow> stop_sys \<Rightarrow> stop_sys" where
  "set_pc c q s \<equiv> s\<lparr>cbpc := (cbpc s)(c := q)\<rparr>"

inductive stop_step :: "stop_sys \<Rightarrow> stop_sys \<Rightarrow> bool" where
  rq_begin: "thread_free s t \<Longrightarrow> stop_step s (s\<lparr>rq_old := (rq_old s)(t \<mapsto> st_value s)\<rparr>)"
| rq_refuse: "rq_old s t = Some old \<Longrightarrow> old AND stop_requested_bit \<noteq> 0 \<Longrightarrow>
     stop_step s (s\<lparr>rq_old := (rq_old s)(t := None)\<rparr>)"
| rq_fail: "rq_old s t = Some old \<Longrightarrow> old AND stop_requested_bit = 0 \<Longrightarrow>
     try_lock_and_stop sp old s = (False, old', s') \<Longrightarrow>
     stop_step s (s'\<lparr>rq_old := (rq_old s)(t \<mapsto> old')\<rparr>)"
| rq_win: "rq_old s t = Some old \<Longrightarrow> old AND stop_requested_bit = 0 \<Longrightarrow>
     try_lock_and_stop sp old s = (True, old', s') \<Longrightarrow>
     stop_step s (s'\<lparr>rq_old := (rq_old s)(t := None), req := ROwn, req_tid := t\<rparr>)"
| rq_requester: "req s = ROwn \<Longrightarrow> stop_step s (s\<lparr>st_requester := Some (req_tid s), req := RLoop\<rparr>)"
| rq_pop: "req s = RLoop \<Longrightarrow> st_head s \<noteq> 0 \<Longrightarrow> cb_pop s = (c, l, s') \<Longrightarrow>
     stop_step s ((st_unlock s')\<lparr>req := RPopped c l\<rparr>)"
| rq_end: "req s = RLoop \<Longrightarrow> st_head s = 0 \<Longrightarrow> stop_step s ((st_unlock s)\<lparr>req := RDone\<rparr>)"
| rq_run: "req s = RPopped c l \<Longrightarrow>
     stop_step s (s\<lparr>st_destroyed := False, cb_destroyed := (cb_destroyed s)(c := True), req := RRun c l\<rparr>)"
| rq_ran: "req s = RRun c l \<Longrightarrow> \<forall>d. cb_tid (cbpc s d) \<noteq> Some (req_tid s) \<Longrightarrow> rq_old s (req_tid s) = None \<Longrightarrow>
     stop_step s (s\<lparr>req := RAfter c l\<rparr>)"
| rq_after: "req s = RAfter c l \<Longrightarrow>
     s' = (if st_destroyed s then s
           else s\<lparr>cb_destroyed := (cb_destroyed s)(c := False), cb_done := (cb_done s)(c := cb_done s c + 1)\<rparr>) \<Longrightarrow>
     stop_step s (s'\<lparr>req := if l then RDone else RRelock (st_value s)\<rparr>)"
| rq_relock: "req s = RRelock old \<Longrightarrow> try_lock sp old s = (ok, old', s') \<Longrightarrow>
     stop_step s (s'\<lparr>req := if ok then RLoop else RRelock old'\<rparr>)"
| reg_begin: "cbpc s c = CFresh \<Longrightarrow> c \<noteq> 0 \<Longrightarrow> thread_free s t \<Longrightarrow> stop_step s (set_pc c (CReg t (st_value s)) s)"
| reg_run: "cbpc s c = CReg t old \<Longrightarrow> old AND stop_requested_bit \<noteq> 0 \<Longrightarrow> stop_step s (set_pc c (CRegRun t) s)"
| reg_ran: "cbpc s c = CRegRun t \<Longrightarrow> stop_step s (set_pc c CDetached s)"
| reg_none: "cbpc s c = CReg t old \<Longrightarrow> old AND stop_requested_bit = 0 \<Longrightarrow> old < ssrc_counter_inc \<Longrightarrow>
     stop_step s (set_pc c CDetached s)"
| reg_try: "cbpc s c = CReg t old \<Longrightarrow> old AND stop_requested_bit = 0 \<Longrightarrow> \<not> old < ssrc_counter_inc \<Longrightarrow>
     try_lock sp old s = (ok, old', s') \<Longrightarrow>
     stop_step s (s'\<lparr>cbpc := (cbpc s)(c := if ok then CRegBody t else CReg t old')\<rparr>)"
| reg_link: "cbpc s c = CRegBody t \<Longrightarrow> stop_step s ((st_unlock (cb_link c s))\<lparr>cbpc := (cbpc s)(c := CAlive)\<rparr>)"
| rem_begin: "cbpc s c = CAlive \<Longrightarrow> thread_free s t \<Longrightarrow> stop_step s (set_pc c (CRem t (st_value s)) s)"
| rem_try: "cbpc s c = CRem t old \<Longrightarrow> try_lock sp old s = (ok, old', s') \<Longrightarrow>
     stop_step s (s'\<lparr>cbpc := (cbpc s)(c := if ok then CRemBody t else CRem t old')\<rparr>)"
| rem_found: "cbpc s c = CRemBody t \<Longrightarrow> cb_unlink c s = (True, s') \<Longrightarrow>
     stop_step s ((st_unlock s')\<lparr>cbpc := (cbpc s)(c := CDead)\<rparr>)"
| rem_out: "cbpc s c = CRemBody t \<Longrightarrow> cb_unlink c s = (False, s') \<Longrightarrow>
     stop_step s ((st_unlock s')\<lparr>cbpc := (cbpc s)(c := CRemOut t)\<rparr>)"
| rem_own: "cbpc s c = CRemOut t \<Longrightarrow> st_requester s = Some t \<Longrightarrow>
     s' = (if cb_destroyed s c then s\<lparr>st_destroyed := True\<rparr> else s) \<Longrightarrow>
     stop_step s (s'\<lparr>cbpc := (cbpc s)(c := CDead)\<rparr>)"
| rem_other: "cbpc s c = CRemOut t \<Longrightarrow> st_requester s \<noteq> Some t \<Longrightarrow> stop_step s (set_pc c (CRemWait t) s)"
| rem_wait: "cbpc s c = CRemWait t \<Longrightarrow> 0 < cb_done s c \<Longrightarrow>
     stop_step s (s\<lparr>cb_done := (cb_done s)(c := cb_done s c - 1), cbpc := (cbpc s)(c := CDead)\<rparr>)"
| ssrc_add: "stop_step s (add_ssrc s)"
| ssrc_sub: "stop_step s (sub_ssrc s)"

definition stop_init :: "stop_sys \<Rightarrow> bool" where
  "stop_init s \<longleftrightarrow> st_value s = ssrc_counter_inc \<and> st_head s = 0 \<and> st_requester s = None \<and>
     cb_prev s = (\<lambda>_. 0) \<and> cb_next s = (\<lambda>_. 0) \<and> cb_destroyed s = (\<lambda>_. False) \<and> cb_done s = (\<lambda>_. 0) \<and>
     req s = RNone \<and> rq_old s = (\<lambda>_. None) \<and> cbpc s = (\<lambda>_. CFresh)"

inductive stop_reachable :: "stop_sys \<Rightarrow> bool" where
  stop_start: "stop_init s \<Longrightarrow> stop_reachable s"
| stop_next: "stop_reachable s \<Longrightarrow> stop_step s s' \<Longrightarrow> stop_reachable s'"

section \<open>Invariant\<close>

fun cb_holds :: "cb_pc \<Rightarrow> bool" where
  "cb_holds (CRegBody t) = True"
| "cb_holds (CRemBody t) = True"
| "cb_holds _ = False"

fun cb_new :: "cb_pc \<Rightarrow> bool" where
  "cb_new CFresh = True"
| "cb_new (CReg t old) = True"
| "cb_new (CRegBody t) = True"
| "cb_new (CRegRun t) = True"
| "cb_new CDetached = True"
| "cb_new _ = False"

fun cb_out :: "cb_pc \<Rightarrow> bool" where
  "cb_out (CRemOut t) = True"
| "cb_out (CRemWait t) = True"
| "cb_out _ = False"

abbreviation cb_live :: "cb_pc \<Rightarrow> bool" where
  "cb_live q \<equiv> \<not> cb_new q \<and> q \<noteq> CDead"

fun req_on :: "req_pc \<Rightarrow> ptr \<Rightarrow> bool" where
  "req_on (RPopped d l) c = (c = d)"
| "req_on (RRun d l) c = (c = d)"
| "req_on (RAfter d l) c = (c = d)"
| "req_on _ c = False"

fun req_runs :: "req_pc \<Rightarrow> ptr \<Rightarrow> bool" where
  "req_runs (RRun d l) c = (c = d)"
| "req_runs (RAfter d l) c = (c = d)"
| "req_runs _ c = False"

abbreviation (input) req_holds :: "req_pc \<Rightarrow> bool" where
  "req_holds q \<equiv> q = ROwn \<or> q = RLoop"

definition lock_inv :: "stop_sys \<Rightarrow> bool" where
  "lock_inv s \<longleftrightarrow> (st_locked s \<longleftrightarrow> req_holds (req s) \<or> (\<exists>c. cb_holds (cbpc s c))) \<and>
     (req_holds (req s) \<longrightarrow> (\<forall>c. \<not> cb_holds (cbpc s c))) \<and>
     (\<forall>c d. cb_holds (cbpc s c) \<and> cb_holds (cbpc s d) \<longrightarrow> c = d)"

definition req_inv :: "stop_sys \<Rightarrow> bool" where
  "req_inv s \<longleftrightarrow> (st_stop_requested s \<longleftrightarrow> req s \<noteq> RNone) \<and>
     (req s \<notin> {RNone, ROwn} \<longrightarrow> st_requester s = Some (req_tid s)) \<and>
     (\<forall>c t. cbpc s c = CRegRun t \<longrightarrow> req s \<noteq> RNone) \<and>
     (\<forall>c t old. cbpc s c = CReg t old \<and> old AND 1 \<noteq> 0 \<longrightarrow> req s \<noteq> RNone)"

definition thr_inv :: "stop_sys \<Rightarrow> bool" where
  "thr_inv s \<longleftrightarrow> (\<forall>t c. rq_old s t \<noteq> None \<and> cb_tid (cbpc s c) = Some t \<longrightarrow> cbpc s c = CRegRun t) \<and>
     (\<forall>c. req s \<notin> {RNone, RDone} \<and> cb_tid (cbpc s c) = Some (req_tid s) \<longrightarrow> (\<exists>d l. req s = RRun d l))"

definition cb_inv :: "stop_sys \<Rightarrow> ptr list \<Rightarrow> ptr \<Rightarrow> bool" where
  "cb_inv s xs c \<longleftrightarrow>
     (c \<in> set xs \<longrightarrow> cb_live (cbpc s c) \<and> \<not> cb_out (cbpc s c) \<and> cb_done s c = 0 \<and> \<not> cb_destroyed s c \<and>
        \<not> req_on (req s) c) \<and>
     (c \<notin> set xs \<and> cb_live (cbpc s c) \<longrightarrow> cb_prev s c = 0 \<and> c \<noteq> 0 \<and> req s \<notin> {RNone, ROwn} \<and>
        cb_done s c = of_bool (\<not> req_on (req s) c)) \<and>
     (cb_new (cbpc s c) \<longrightarrow> cb_prev s c = 0 \<and> cb_done s c = 0 \<and> \<not> cb_destroyed s c \<and> \<not> req_on (req s) c \<and>
        (cb_tid (cbpc s c) \<noteq> None \<longrightarrow> c \<noteq> 0)) \<and>
     (cb_live (cbpc s c) \<longrightarrow> cb_destroyed s c = req_runs (req s) c \<and> (req_on (req s) c \<and> req_runs (req s) c \<longrightarrow> \<not> st_destroyed s)) \<and>
     (cbpc s c = CDead \<and> req_on (req s) c \<longrightarrow> req_runs (req s) c \<and> st_destroyed s) \<and>
     (\<forall>t. cbpc s c = CRemWait t \<longrightarrow> t \<noteq> req_tid s)"

definition stop_inv :: "stop_sys \<Rightarrow> bool" where
  "stop_inv s \<longleftrightarrow> lock_inv s \<and> req_inv s \<and> thr_inv s \<and> (\<exists>xs. callbacks s xs \<and> (\<forall>c. cb_inv s xs c))"

section \<open>Preservation\<close>

lemma cb_ops_same:
  fixes s s' :: stop_sys
  shows "cb_pop s = (c, l, s') \<Longrightarrow> st_value s' = st_value s \<and> st_requester s' = st_requester s \<and> req s' = req s \<and>
      req_tid s' = req_tid s \<and> rq_old s' = rq_old s \<and> cbpc s' = cbpc s \<and> cb_destroyed s' = cb_destroyed s \<and>
      cb_done s' = cb_done s \<and> st_destroyed s' = st_destroyed s"
    and "cb_unlink c s = (b, s') \<Longrightarrow> st_value s' = st_value s \<and> st_requester s' = st_requester s \<and> req s' = req s \<and>
      req_tid s' = req_tid s \<and> rq_old s' = rq_old s \<and> cbpc s' = cbpc s \<and> cb_destroyed s' = cb_destroyed s \<and>
      cb_done s' = cb_done s \<and> st_destroyed s' = st_destroyed s"
    and "st_value (cb_link c s) = st_value s \<and> st_requester (cb_link c s) = st_requester s \<and> req (cb_link c s) = req s \<and>
      req_tid (cb_link c s) = req_tid s \<and> rq_old (cb_link c s) = rq_old s \<and> cbpc (cb_link c s) = cbpc s \<and>
      cb_destroyed (cb_link c s) = cb_destroyed s \<and> cb_done (cb_link c s) = cb_done s \<and>
      st_destroyed (cb_link c s) = st_destroyed s"
  by (auto simp: cb_pop_def cb_unlink_def cb_link_def Let_def split: if_splits)

lemma bits_cong: "st_value s = st_value s' \<Longrightarrow> st_locked s = st_locked s' \<and> st_stop_requested s = st_stop_requested s'"
  by (simp add: st_locked_def st_stop_requested_def)

lemma unlocked:
  assumes "st_locked s" and "st_value s' = st_value s - 2"
  shows "\<not> st_locked s'" and "st_stop_requested s' = st_stop_requested s"
  using st_unlock_bits [OF assms(1)] bits_cong [of "st_unlock s" s'] assms(2) by (simp_all add: st_unlock_def)

lemmas try_defs = try_lock_def try_lock_and_stop_def

lemma try_lock_cases [consumes 1, case_names bits fail taken]:
  fixes s :: stop_sys
  assumes "do_try_lock sp cur nb s = (ok, cur', s')" and "nb = 0 \<or> nb = 1"
  obtains (fail) "\<not> ok" "s' = s" "cur' = st_value s"
    | (taken) "ok" "\<exists>v. s' = s\<lparr>st_value := v\<rparr>" "st_value s = cur" "\<not> st_locked s" "st_locked s'"
      "st_stop_requested s' \<longleftrightarrow> st_stop_requested s \<or> nb = 1"
proof (cases ok)
  case True
  with assms have "do_try_lock sp cur nb s = (True, cur', s')" by simp
  from do_try_lock_takes [OF this assms(2)] True show thesis by (intro taken)
next
  case False
  with assms(1) do_try_lock_fails [of sp cur nb s cur' s'] show thesis by (auto intro: fail)
qed

lemma lock_held: "lock_inv s \<Longrightarrow> cb_holds (cbpc s c) \<Longrightarrow> st_locked s"
  unfolding lock_inv_def by blast

lemma lock_inv_cong:
  "st_locked s' = st_locked s \<Longrightarrow> req_holds (req s') = req_holds (req s) \<Longrightarrow>
   (\<And>c. cb_holds (cbpc s' c) = cb_holds (cbpc s c)) \<Longrightarrow> lock_inv s \<Longrightarrow> lock_inv s'"
  unfolding lock_inv_def by simp

lemma lock_inv_take:
  assumes "lock_inv s" and "\<not> st_locked s" and "st_locked s'"
    and "req_holds (req s') \<and> (\<forall>c. cb_holds (cbpc s' c) = cb_holds (cbpc s c)) \<or>
      req_holds (req s') = req_holds (req s) \<and> (\<exists>d. \<forall>c. cb_holds (cbpc s' c) = (c = d \<or> cb_holds (cbpc s c)))"
  shows "lock_inv s'"
  using assms unfolding lock_inv_def by metis

lemma lock_inv_give:
  assumes "lock_inv s" and "st_locked s" and "\<not> st_locked s'"
    and "req_holds (req s) \<and> \<not> req_holds (req s') \<and> (\<forall>c. cb_holds (cbpc s' c) = cb_holds (cbpc s c)) \<or>
      req_holds (req s') = req_holds (req s) \<and>
      (\<exists>d. cb_holds (cbpc s d) \<and> (\<forall>c. cb_holds (cbpc s' c) = (c \<noteq> d \<and> cb_holds (cbpc s c))))"
  shows "lock_inv s'"
  using assms unfolding lock_inv_def by metis

lemma step_lock:
  assumes "stop_step s s'" and inv: "lock_inv s"
  shows "lock_inv s'"
  using assms(1)
proof cases
  case (rq_fail t old sp old' s1)
  with do_try_lock_fails [of sp old 1 s old' s1] inv show ?thesis
    by (intro lock_inv_cong [OF _ _ _ inv]) (simp_all add: try_defs st_locked_def)
next
  case (rq_win t old sp old' s1)
  from rq_win(4) show ?thesis unfolding try_defs
  proof (cases rule: try_lock_cases)
    case taken
    show ?thesis using taken rq_win(1)
      by (intro lock_inv_take [OF inv taken(4)]) (auto simp: st_locked_def)
  qed (use rq_win in simp_all)
next
  case (rq_pop c l s1)
  have "st_locked s" using inv rq_pop(2) by (simp add: lock_inv_def)
  moreover from unlocked(1) [OF this, of s'] have "\<not> st_locked s'"
    using cb_ops_same(1) [OF rq_pop(4)] by (simp add: rq_pop(1) st_unlock_def)
  ultimately show ?thesis using rq_pop(1,2) cb_ops_same(1) [OF rq_pop(4)]
    by (intro lock_inv_give [OF inv]) (simp_all add: st_unlock_def)
next
  case rq_end
  have "st_locked s" using inv rq_end(2) by (simp add: lock_inv_def)
  moreover from unlocked(1) [OF this, of s'] have "\<not> st_locked s'" by (simp add: rq_end(1) st_unlock_def)
  ultimately show ?thesis using rq_end(1,2) by (intro lock_inv_give [OF inv]) (simp_all add: st_unlock_def)
next
  case (rq_relock old sp ok old' s1)
  from rq_relock(3) show ?thesis unfolding try_defs
  proof (cases rule: try_lock_cases)
    case fail
    then show ?thesis using rq_relock(1,2) by (intro lock_inv_cong [OF _ _ _ inv]) (simp_all add: st_locked_def)
  next
    case taken
    show ?thesis using taken rq_relock(1) by (intro lock_inv_take [OF inv taken(4)]) (auto simp: st_locked_def)
  qed simp
next
  case (reg_try c t old sp ok old' s1)
  from reg_try(5) show ?thesis unfolding try_defs
  proof (cases rule: try_lock_cases)
    case fail
    then show ?thesis using reg_try(1,2) by (intro lock_inv_cong [OF _ _ _ inv]) (simp_all add: st_locked_def)
  next
    case taken
    show ?thesis using taken reg_try(1,2)
      by (intro lock_inv_take [OF inv taken(4)]) (auto simp: st_locked_def intro!: exI [of _ c])
  qed simp
next
  case (reg_link c t)
  have "cb_holds (cbpc s c)" using reg_link(2) by simp
  moreover from this have "st_locked s" by (rule lock_held [OF inv])
  moreover from unlocked(1) [OF this, of s'] have "\<not> st_locked s'"
    using cb_ops_same(3) [of c s] by (simp add: reg_link(1) st_unlock_def)
  ultimately show ?thesis using reg_link(1) cb_ops_same(3) [of c s]
    by (intro lock_inv_give [OF inv]) (auto simp: st_unlock_def intro!: exI [of _ c])
next
  case (rem_try c t old sp ok old' s1)
  from rem_try(3) show ?thesis unfolding try_defs
  proof (cases rule: try_lock_cases)
    case fail
    then show ?thesis using rem_try(1,2) by (intro lock_inv_cong [OF _ _ _ inv]) (simp_all add: st_locked_def)
  next
    case taken
    show ?thesis using taken rem_try(1,2)
      by (intro lock_inv_take [OF inv taken(4)]) (auto simp: st_locked_def intro!: exI [of _ c])
  qed simp
next
  case (rem_found c t s1)
  have "cb_holds (cbpc s c)" using rem_found(2) by simp
  moreover from this have "st_locked s" by (rule lock_held [OF inv])
  moreover from unlocked(1) [OF this, of s'] have "\<not> st_locked s'"
    using cb_ops_same(2) [OF rem_found(3)] by (simp add: rem_found(1) st_unlock_def)
  ultimately show ?thesis using rem_found(1) cb_ops_same(2) [OF rem_found(3)]
    by (intro lock_inv_give [OF inv]) (auto simp: st_unlock_def intro!: exI [of _ c])
next
  case (rem_out c t s1)
  have "cb_holds (cbpc s c)" using rem_out(2) by simp
  moreover from this have "st_locked s" by (rule lock_held [OF inv])
  moreover from unlocked(1) [OF this, of s'] have "\<not> st_locked s'"
    using cb_ops_same(2) [OF rem_out(3)] by (simp add: rem_out(1) st_unlock_def)
  ultimately show ?thesis using rem_out(1) cb_ops_same(2) [OF rem_out(3)]
    by (intro lock_inv_give [OF inv]) (auto simp: st_unlock_def intro!: exI [of _ c])
next
  case ssrc_add
  then show ?thesis using ssrc_bits(1) [of s] by (intro lock_inv_cong [OF _ _ _ inv]) (simp_all add: add_ssrc_def)
next
  case ssrc_sub
  then show ?thesis using ssrc_bits(3) [of s] by (intro lock_inv_cong [OF _ _ _ inv]) (simp_all add: sub_ssrc_def)
qed (rule lock_inv_cong [OF _ _ _ inv]; auto simp: st_locked_def split: if_splits)+

lemma try_lock_req:
  fixes s :: stop_sys
  assumes "do_try_lock sp cur nb s = (ok, cur', s')" and "nb = 0 \<or> nb = 1"
  shows "\<exists>v. s' = s\<lparr>st_value := v\<rparr>" and "nb = 0 \<Longrightarrow> st_stop_requested s' = st_stop_requested s"
    and "ok \<Longrightarrow> st_value s = cur" and "\<not> ok \<Longrightarrow> s' = s \<and> cur' = st_value s"
    and "nb = 1 \<Longrightarrow> ok \<Longrightarrow> st_stop_requested s'"
  using assms(1,2) by (cases rule: try_lock_cases; auto intro: exI [of _ "st_value s"])+

lemma step_req:
  assumes "stop_step s s'" and inv: "req_inv s" and lock: "lock_inv s"
  shows "req_inv s'"
  using assms(1)
proof cases
  case (rq_fail t old sp old' s1)
  with try_lock_req(4) [of sp old 1 s False old' s1] inv show ?thesis by (simp add: try_defs req_inv_def st_stop_requested_def)
next
  case (rq_win t old sp old' s1)
  from try_lock_req(1,5) [OF rq_win(4) [unfolded try_defs]] inv show ?thesis
    by (auto simp: rq_win(1) req_inv_def st_stop_requested_def)
next
  case (rq_pop c l s1)
  then have "st_locked s" using lock by (simp add: lock_inv_def)
  from unlocked(2) [OF this, of s'] rq_pop cb_ops_same(1) [OF rq_pop(4)] inv show ?thesis
    by (simp add: req_inv_def st_unlock_def)
next
  case rq_end
  then have "st_locked s" using lock by (simp add: lock_inv_def)
  from unlocked(2) [OF this, of s'] rq_end inv show ?thesis by (simp add: req_inv_def st_unlock_def)
next
  case (rq_relock old sp ok old' s1)
  from try_lock_req(1,2) [OF rq_relock(3) [unfolded try_defs]] rq_relock(1,2) inv show ?thesis
    by (auto simp: req_inv_def st_stop_requested_def)
next
  case (reg_try c t old sp ok old' s1)
  from try_lock_req(1,2,4) [OF reg_try(5) [unfolded try_defs]] reg_try inv show ?thesis
    by (auto simp: req_inv_def st_stop_requested_def)
next
  case (reg_link c t)
  have "st_locked s" using lock_held [OF lock, of c] reg_link(2) by simp
  from unlocked(2) [OF this, of s'] reg_link cb_ops_same(3) [of c s] inv show ?thesis
    by (auto simp: req_inv_def st_unlock_def)
next
  case (rem_try c t old sp ok old' s1)
  from try_lock_req(1,2) [OF rem_try(3) [unfolded try_defs]] rem_try(1,2) inv show ?thesis
    by (auto simp: req_inv_def st_stop_requested_def)
next
  case (rem_found c t s1)
  have "st_locked s" using lock_held [OF lock, of c] rem_found(2) by simp
  from unlocked(2) [OF this, of s'] rem_found cb_ops_same(2) [OF rem_found(3)] inv show ?thesis
    by (auto simp: req_inv_def st_unlock_def)
next
  case (rem_out c t s1)
  have "st_locked s" using lock_held [OF lock, of c] rem_out(2) by simp
  from unlocked(2) [OF this, of s'] rem_out cb_ops_same(2) [OF rem_out(3)] inv show ?thesis
    by (auto simp: req_inv_def st_unlock_def)
next
  case ssrc_add
  then show ?thesis using ssrc_bits(2) [of s] inv by (simp add: req_inv_def) (simp add: add_ssrc_def)
next
  case ssrc_sub
  then show ?thesis using ssrc_bits(4) [of s] inv by (simp add: req_inv_def) (simp add: sub_ssrc_def)
qed (use inv in \<open>auto simp: req_inv_def st_stop_requested_def split: if_splits\<close>)

lemma thr_invD:
  assumes "thr_inv s"
  shows "rq_old s t \<noteq> None \<Longrightarrow> cb_tid (cbpc s c) = Some t \<Longrightarrow> cbpc s c = CRegRun t"
    and "req s \<noteq> RNone \<Longrightarrow> req s \<noteq> RDone \<Longrightarrow> cb_tid (cbpc s c) = Some (req_tid s) \<Longrightarrow> \<exists>d l. req s = RRun d l"
  using assms unfolding thr_inv_def by blast+

lemma thr_inv_op:
  assumes "thr_inv s" and "req s' = req s" and "req_tid s' = req_tid s" and "rq_old s' = rq_old s"
    and "\<And>d. cb_tid (cbpc s' d) \<noteq> None \<Longrightarrow> cb_tid (cbpc s' d) = cb_tid (cbpc s d)"
    and "\<And>d t. cbpc s d = CRegRun t \<Longrightarrow> cbpc s' d = CRegRun t \<or> cb_tid (cbpc s' d) = None"
  shows "thr_inv s'"
  using assms unfolding thr_inv_def by (metis option.distinct(1))

lemma step_thr:
  assumes "stop_step s s'" and inv: "thr_inv s" and rinv: "req_inv s"
  shows "thr_inv s'"
  using assms(1)
proof cases
  case (rq_begin t)
  then show ?thesis using inv by (auto simp: thr_inv_def thread_free_def)
next
  case (rq_refuse t old)
  then show ?thesis using inv by (auto simp: thr_inv_def)
next
  case (rq_fail t old sp old' s1)
  with do_try_lock_fails [of sp old 1 s old' s1] inv show ?thesis by (auto simp: try_defs thr_inv_def)
next
  case (rq_win t old sp old' s1)
  note tl = rq_win(4) [unfolded try_defs]
  have "\<not> st_stop_requested s" using try_lock_req(3) [OF tl] rq_win(3) by (simp add: st_stop_requested_def)
  then have "req s = RNone" using rinv by (simp add: req_inv_def)
  then have "cb_tid (cbpc s c) \<noteq> Some t" for c
    using thr_invD(1) [OF inv, of t c] rq_win(2) rinv by (auto simp: req_inv_def)
  then show ?thesis using rq_win(1) try_lock_req(1) [OF tl] inv by (auto simp: thr_inv_def)
next
  case rq_requester
  then show ?thesis using inv by (auto simp: thr_inv_def)
next
  case (rq_pop c l s1)
  then show ?thesis using cb_ops_same(1) [OF rq_pop(4)] inv by (auto simp: thr_inv_def st_unlock_def)
next
  case rq_end
  then show ?thesis using inv by (auto simp: thr_inv_def st_unlock_def)
next
  case (rq_run c l)
  then show ?thesis using inv by (auto simp: thr_inv_def)
next
  case (rq_ran c l)
  then show ?thesis using inv by (auto simp: thr_inv_def)
next
  case (rq_after c l s1)
  then show ?thesis using inv by (auto simp: thr_inv_def)
next
  case (rq_relock old sp ok old' s1)
  with try_lock_req(1) [OF rq_relock(3) [unfolded try_defs]] inv show ?thesis by (auto simp: thr_inv_def)
next
  case (reg_begin c t)
  then show ?thesis using inv by (auto simp: thr_inv_def thread_free_def)
next
  case (reg_try c t old sp ok old' s1)
  with try_lock_req(1) [OF reg_try(5) [unfolded try_defs]] show ?thesis by (intro thr_inv_op [OF inv]) auto
next
  case (reg_link c t)
  then show ?thesis using cb_ops_same(3) [of c s] by (intro thr_inv_op [OF inv]) (auto simp: st_unlock_def)
next
  case (rem_begin c t)
  then show ?thesis using inv by (auto simp: thr_inv_def thread_free_def)
next
  case (rem_try c t old sp ok old' s1)
  with try_lock_req(1) [OF rem_try(3) [unfolded try_defs]] show ?thesis by (intro thr_inv_op [OF inv]) auto
next
  case (rem_found c t s1)
  then show ?thesis using cb_ops_same(2) [OF rem_found(3)] by (intro thr_inv_op [OF inv]) (auto simp: st_unlock_def)
next
  case (rem_out c t s1)
  then show ?thesis using cb_ops_same(2) [OF rem_out(3)] by (intro thr_inv_op [OF inv]) (auto simp: st_unlock_def)
qed (rule thr_inv_op [OF inv]; use thr_invD(1) [OF inv] in \<open>auto simp: add_ssrc_def sub_ssrc_def split: if_splits\<close>)+

lemma req_runs_on: "req_runs q c \<Longrightarrow> req_on q c"
  by (cases q) auto

lemma req_on_unique: "req_on q c \<Longrightarrow> req_on q d \<Longrightarrow> c = d"
  by (cases q) auto

lemma step_cb:
  assumes "stop_step s s'" and rinv: "req_inv s" and tinv: "thr_inv s"
    and list: "callbacks s xs" and inv: "\<And>c. cb_inv s xs c"
  shows "\<exists>xs'. callbacks s' xs' \<and> (\<forall>c. cb_inv s' xs' c)"
  using assms(1)
proof cases
  case (rq_begin t)
  then have "cb_inv s' xs x" for x using inv [of x] by (auto simp: cb_inv_def)
  then show ?thesis using list rq_begin by (auto simp: callbacks_def)
next
  case (rq_refuse t old)
  then have "cb_inv s' xs x" for x using inv [of x] by (auto simp: cb_inv_def)
  then show ?thesis using list rq_refuse by (auto simp: callbacks_def)
next
  case (rq_fail t old sp old' s1)
  with do_try_lock_fails [of sp old 1 s old' s1] have s1: "s1 = s" by (simp add: try_defs)
  then have "cb_inv s' xs x" for x using inv [of x] rq_fail by (auto simp: cb_inv_def)
  then show ?thesis using list rq_fail s1 by (auto simp: callbacks_def)
next
  case (rq_win t old sp old' s1)
  note tl = rq_win(4) [unfolded try_defs]
  have "\<not> st_stop_requested s" using try_lock_req(3) [OF tl] rq_win(3) by (simp add: st_stop_requested_def)
  then have "req s = RNone" using rinv by (simp add: req_inv_def)
  then have "cb_inv s' xs c" for c
    using inv [of c] rq_win(1) try_lock_req(1) [OF tl] by (auto simp: cb_inv_def)
  then show ?thesis using list rq_win(1) try_lock_req(1) [OF tl] by (auto simp: callbacks_def)
next
  case rq_requester
  then have "cb_inv s' xs c" for c using inv [of c] by (auto simp: cb_inv_def)
  then show ?thesis using list rq_requester by (auto simp: callbacks_def)
next
  case (rq_pop c l s1)
  then obtain ys where xs: "xs = c # ys"
    using callbacks_head [OF list] callbacks_pop(1) [of s _ _ c l s1] list by (cases xs) auto
  note p = callbacks_pop(2) [OF list [unfolded xs] rq_pop(4)] cb_pop_frame [OF list [unfolded xs] rq_pop(4)]
    cb_ops_same(1) [OF rq_pop(4)]
  have "c \<notin> set ys" "c \<noteq> 0" using callbacks_distinct [OF list] xs by auto
  then have "cb_inv s' ys x" for x
    using inv [of x] p(2,3,4) rq_pop(1,2) by (cases "x = c") (auto simp: cb_inv_def xs st_unlock_def)
  moreover have "callbacks s' ys" using p(1) rq_pop(1) by (simp add: callbacks_def st_unlock_def)
  ultimately show ?thesis by blast
next
  case rq_end
  then have "cb_inv s' xs c" for c using inv [of c] by (auto simp: cb_inv_def st_unlock_def)
  then show ?thesis using list rq_end by (auto simp: callbacks_def st_unlock_def)
next
  case (rq_run c l)
  have "cb_inv s' xs x" for x
    using inv [of x] rq_run by (cases "x = c") (auto simp: cb_inv_def)
  then show ?thesis using list rq_run by (auto simp: callbacks_def)
next
  case (rq_ran c l)
  then have "cb_inv s' xs x" for x using inv [of x] by (auto simp: cb_inv_def)
  then show ?thesis using list rq_ran by (auto simp: callbacks_def)
next
  case (rq_after c l s1)
  have "cb_inv s' xs x" for x
    using inv [of x] inv [of c] rq_after by (cases "x = c") (auto simp: cb_inv_def split: if_splits)
  then show ?thesis using list rq_after by (auto simp: callbacks_def)
next
  case (rq_relock old sp ok old' s1)
  note tl = try_lock_req(1) [OF rq_relock(3) [unfolded try_defs]]
  have "cb_inv s' xs x" for x using inv [of x] rq_relock tl by (auto simp: cb_inv_def)
  then show ?thesis using list rq_relock tl by (auto simp: callbacks_def)
next
  case (reg_try c t old sp ok old' s1)
  from try_lock_req(1) [OF reg_try(5) [unfolded try_defs]] obtain v where v: "s1 = s\<lparr>st_value := v\<rparr>" by blast
  have "cb_inv s' xs x" for x
    using inv [of x] reg_try(2) by (cases ok; cases "x = c") (simp_all add: cb_inv_def reg_try(1) v)
  then show ?thesis using list by (auto simp: callbacks_def reg_try(1) v)
next
  case (reg_link c t)
  note f = cb_ops_same(3) [of c s]
  have c: "c \<notin> set xs" "c \<noteq> 0" "cb_prev s c = 0" using inv [of c] reg_link(2) by (auto simp: cb_inv_def)
  have "cb_inv s' (c # xs) x" for x
    using inv [of x] reg_link f c cb_link_frame [OF list, of x c] req_runs_on [of "req s" x]
    by (cases "x = c") (auto simp: cb_inv_def st_unlock_def)
  moreover have "callbacks s' (c # xs)"
    using callbacks_link [OF list c(2,1,3)] reg_link(1) by (simp add: callbacks_def st_unlock_def)
  ultimately show ?thesis by blast
next
  case (rem_try c t old sp ok old' s1)
  from try_lock_req(1) [OF rem_try(3) [unfolded try_defs]] obtain v where v: "s1 = s\<lparr>st_value := v\<rparr>" by blast
  have "cb_inv s' xs x" for x
    using inv [of x] rem_try(2) by (cases ok; cases "x = c") (simp_all add: cb_inv_def rem_try(1) v)
  then show ?thesis using list by (auto simp: callbacks_def rem_try(1) v)
next
  case (rem_found c t s1)
  have c: "c \<in> set xs"
  proof (rule ccontr)
    assume "c \<notin> set xs"
    moreover from this inv [of c] rem_found(2) have "c \<noteq> 0" "cb_prev s c = 0" by (auto simp: cb_inv_def)
    ultimately show False using callbacks_not_in [OF list] rem_found(3) by simp
  qed
  obtain s2 where "cb_unlink c s = (True, s2)" "callbacks s2 (remove1 c xs)" by (rule callbacks_unlink [OF list c])
  then have l: "callbacks s' (remove1 c xs)" using rem_found(1,3) by (simp add: callbacks_def st_unlock_def)
  have "cb_inv s' (remove1 c xs) x" for x
    using inv [of x] rem_found cb_ops_same(2) [OF rem_found(3)] c cb_unlink_frame [OF list c rem_found(3), of x]
      callbacks_distinct [OF list]
    by (cases "x = c") (auto simp: cb_inv_def st_unlock_def)
  with l show ?thesis by blast
next
  case (rem_out c t s1)
  have "s1 = s" "c \<notin> set xs"
  proof -
    have "c \<notin> set xs"
    proof
      assume c: "c \<in> set xs"
      obtain s2 where "cb_unlink c s = (True, s2)" by (rule callbacks_unlink [OF list c])
      then show False using rem_out(3) by simp
    qed
    moreover from this inv [of c] rem_out(2) have "c \<noteq> 0" "cb_prev s c = 0" by (auto simp: cb_inv_def)
    ultimately show "s1 = s" "c \<notin> set xs" using callbacks_not_in [OF list] rem_out(3) by simp_all
  qed
  then have "cb_inv s' xs x" for x
    using inv [of x] rem_out by (cases "x = c") (auto simp: cb_inv_def st_unlock_def)
  then show ?thesis using list rem_out(1) \<open>s1 = s\<close> by (auto simp: callbacks_def st_unlock_def)
next
  case (rem_own c t s1)
  have c: "c \<notin> set xs" "req s \<notin> {RNone, ROwn}" using inv [of c] rem_own(2) by (auto simp: cb_inv_def)
  then have t: "t = req_tid s" using rinv rem_own(3) by (simp add: req_inv_def)
  have "req_on (req s) c \<Longrightarrow> req_runs (req s) c"
    using thr_invD(2) [OF tinv, of c] rem_own(2) t by (cases "req s") auto
  then have "cb_inv s' xs x" for x
    using inv [of x] inv [of c] rem_own c req_runs_on [of "req s" c] req_on_unique [of "req s" x c]
    by (cases "x = c") (auto simp: cb_inv_def)
  then show ?thesis using list rem_own by (auto simp: callbacks_def)
next
  case (rem_other c t)
  have c: "c \<notin> set xs" "req s \<notin> {RNone, ROwn}" using inv [of c] rem_other(2) by (auto simp: cb_inv_def)
  then have t: "t \<noteq> req_tid s" using rinv rem_other(3) by (auto simp: req_inv_def)
  then have "cb_inv s' xs x" for x
    using inv [of x] rem_other c by (cases "x = c") (auto simp: cb_inv_def)
  then show ?thesis using list rem_other by (auto simp: callbacks_def)
next
  case (rem_wait c t)
  have "cb_inv s' xs x" for x
    using inv [of x] rem_wait by (cases "x = c") (auto simp: cb_inv_def)
  then show ?thesis using list rem_wait by (auto simp: callbacks_def)
next
  case ssrc_add
  then have "cb_inv s' xs x" for x using inv [of x] by (simp add: cb_inv_def add_ssrc_def)
  then show ?thesis using list ssrc_add by (auto simp: callbacks_def add_ssrc_def)
next
  case ssrc_sub
  then have "cb_inv s' xs x" for x using inv [of x] by (simp add: cb_inv_def sub_ssrc_def)
  then show ?thesis using list ssrc_sub by (auto simp: callbacks_def sub_ssrc_def)
next
  case (reg_begin c t)
  then have "cb_inv s' xs x" for x using inv [of x] by (cases "x = c") (auto simp: cb_inv_def)
  then show ?thesis using list reg_begin by (auto simp: callbacks_def)
next
  case (reg_run c t old)
  then have "cb_inv s' xs x" for x using inv [of x] by (cases "x = c") (auto simp: cb_inv_def)
  then show ?thesis using list reg_run by (auto simp: callbacks_def)
next
  case (reg_ran c t)
  then have "cb_inv s' xs x" for x using inv [of x] by (cases "x = c") (auto simp: cb_inv_def)
  then show ?thesis using list reg_ran by (auto simp: callbacks_def)
next
  case (reg_none c t old)
  then have "cb_inv s' xs x" for x using inv [of x] by (cases "x = c") (auto simp: cb_inv_def)
  then show ?thesis using list reg_none by (auto simp: callbacks_def)
next
  case (rem_begin c t)
  then have "cb_inv s' xs x" for x using inv [of x] by (cases "x = c") (auto simp: cb_inv_def)
  then show ?thesis using list rem_begin by (auto simp: callbacks_def)
qed

lemma stop_step_inv: "stop_step s s' \<Longrightarrow> stop_inv s \<Longrightarrow> stop_inv s'"
  unfolding stop_inv_def using step_lock step_req step_thr step_cb by meson

lemma stop_reachable_inv: "stop_reachable s \<Longrightarrow> stop_inv s"
proof (induction rule: stop_reachable.induct)
  case (stop_start s)
  then have "callbacks s []" "\<And>c. cb_inv s [] c" "lock_inv s" "req_inv s" "thr_inv s"
    by (auto simp: stop_init_def callbacks_def cb_inv_def lock_inv_def req_inv_def thr_inv_def st_locked_def
        st_stop_requested_def)
  then show ?case unfolding stop_inv_def by blast
qed (rule stop_step_inv)

section \<open>Destroying a callback\<close>

text \<open>C24. When the destructor of a callback returns, the callback is not in the list and the thread that
  makes the request does not touch it any more; the one exception is a callback that destroys itself
  while it runs, of which that thread is told. A thread that waits in the destructor is
  signalled exactly when the callback does not run. Only one thread is in a critical section.\<close>

theorem stop_callback_safe:
  assumes "stop_reachable s"
  shows "\<exists>xs. callbacks s xs \<and> distinct xs \<and>
    (cbpc s c = CDead \<longrightarrow> c \<notin> set xs \<and> (req_on (req s) c \<longrightarrow> req_runs (req s) c \<and> st_destroyed s)) \<and>
    (cbpc s c = CRemWait t \<longrightarrow> c \<notin> set xs \<and> cb_done s c = of_bool (\<not> req_on (req s) c)) \<and>
    (cb_holds (cbpc s c) \<and> cb_holds (cbpc s d) \<longrightarrow> c = d) \<and> \<not> (req_holds (req s) \<and> cb_holds (cbpc s c))"
proof -
  from stop_reachable_inv [OF assms] obtain xs where xs: "callbacks s xs" "cb_inv s xs c" and l: "lock_inv s"
    unfolding stop_inv_def by blast
  have "cbpc s c = CDead \<longrightarrow> c \<notin> set xs \<and> (req_on (req s) c \<longrightarrow> req_runs (req s) c \<and> st_destroyed s)"
    "cbpc s c = CRemWait t \<longrightarrow> c \<notin> set xs \<and> cb_done s c = of_bool (\<not> req_on (req s) c)"
    using xs(2) by (auto simp: cb_inv_def)
  moreover have "cb_holds (cbpc s c) \<and> cb_holds (cbpc s d) \<longrightarrow> c = d" "\<not> (req_holds (req s) \<and> cb_holds (cbpc s c))"
    using l unfolding lock_inv_def by blast+
  ultimately show ?thesis using xs(1) callbacks_distinct [OF xs(1)] by blast
qed

text \<open>A callback that destroys itself while it runs.\<close>

definition stop_ex :: "u32 \<Rightarrow> ptr \<Rightarrow> nat option \<Rightarrow> bool \<Rightarrow> bool \<Rightarrow> req_pc \<Rightarrow> u32 option \<Rightarrow> cb_pc \<Rightarrow> stop_sys" where
  "stop_ex v h r dest run q old pc =
     \<lparr>st_owners = 2, st_value = v, st_head = h, st_requester = r, st_destroyed = dest, cb_prev = (\<lambda>_. 0),
      cb_next = (\<lambda>_. 0), cb_destroyed = (\<lambda>_. False)(64 := run), cb_done = (\<lambda>_. 0), req = q, req_tid = 0,
      rq_old = (\<lambda>_. None)(0 := old), cbpc = (\<lambda>_. CFresh)(64 := pc)\<rparr>"

lemma stop_step_eq: "stop_step s s' \<Longrightarrow> s' = s'' \<Longrightarrow> stop_step s s''"
  by simp

lemmas stop_ex_simps = stop_ex_def thread_free_def try_defs do_try_lock_def cb_link_def cb_pop_def
  cb_unlink_def st_unlock_def Let_def fun_upd_def

lemma stop_ex_reachable: "stop_reachable (stop_ex 5 0 (Some 0) True True (RRun 64 True) None CDead)"
proof -
  have "stop_reachable (stop_ex 4 0 None False False RNone None CFresh)"
    by (rule stop_start) (auto simp: stop_ex_def stop_init_def)
  then have "stop_reachable (stop_ex 4 0 None False False RNone None (CReg 0 4))"
    by (rule stop_next) (rule stop_step_eq [OF reg_begin [where c = 64 and t = 0]]; auto simp: stop_ex_simps split: if_splits)
  then have "stop_reachable (stop_ex 6 0 None False False RNone None (CRegBody 0))"
    by (rule stop_next) (rule stop_step_eq [OF reg_try [where c = 64 and t = 0 and ok = True and sp = False
      and s' = "stop_ex 6 0 None False False RNone None (CReg 0 4)"]]; auto simp: stop_ex_simps split: if_splits)
  then have "stop_reachable (stop_ex 4 64 None False False RNone None CAlive)"
    by (rule stop_next) (rule stop_step_eq [OF reg_link [where c = 64 and t = 0]]; auto simp: stop_ex_simps split: if_splits)
  then have "stop_reachable (stop_ex 4 64 None False False RNone (Some 4) CAlive)"
    by (rule stop_next) (rule stop_step_eq [OF rq_begin [where t = 0]]; auto simp: stop_ex_simps split: if_splits)
  then have "stop_reachable (stop_ex 7 64 None False False ROwn None CAlive)"
    by (rule stop_next) (rule stop_step_eq [OF rq_win [where t = 0 and sp = False
      and s' = "stop_ex 7 64 None False False RNone (Some 4) CAlive"]]; auto simp: stop_ex_simps split: if_splits)
  then have "stop_reachable (stop_ex 7 64 (Some 0) False False RLoop None CAlive)"
    by (rule stop_next) (rule stop_step_eq [OF rq_requester]; auto simp: stop_ex_simps split: if_splits)
  then have "stop_reachable (stop_ex 5 0 (Some 0) False False (RPopped 64 True) None CAlive)"
    by (rule stop_next) (rule stop_step_eq [OF rq_pop [where c = 64 and l = True
      and s' = "stop_ex 7 0 (Some 0) False False RLoop None CAlive"]]; auto simp: stop_ex_simps split: if_splits)
  then have "stop_reachable (stop_ex 5 0 (Some 0) False True (RRun 64 True) None CAlive)"
    by (rule stop_next) (rule stop_step_eq [OF rq_run [where c = 64 and l = True]]; auto simp: stop_ex_simps split: if_splits)
  then have "stop_reachable (stop_ex 5 0 (Some 0) False True (RRun 64 True) None (CRem 0 5))"
    by (rule stop_next) (rule stop_step_eq [OF rem_begin [where c = 64 and t = 0]]; auto simp: stop_ex_simps split: if_splits)
  then have "stop_reachable (stop_ex 7 0 (Some 0) False True (RRun 64 True) None (CRemBody 0))"
    by (rule stop_next) (rule stop_step_eq [OF rem_try [where c = 64 and t = 0 and ok = True and sp = False
      and s' = "stop_ex 7 0 (Some 0) False True (RRun 64 True) None (CRem 0 5)"]]; auto simp: stop_ex_simps split: if_splits)
  then have "stop_reachable (stop_ex 5 0 (Some 0) False True (RRun 64 True) None (CRemOut 0))"
    by (rule stop_next) (rule stop_step_eq [OF rem_out [where c = 64 and t = 0
      and s' = "stop_ex 7 0 (Some 0) False True (RRun 64 True) None (CRemBody 0)"]]; auto simp: stop_ex_simps split: if_splits)
  then have "stop_reachable (stop_ex 5 0 (Some 0) True True (RRun 64 True) None CDead)"
    by (rule stop_next) (rule stop_step_eq [OF rem_own [where c = 64 and t = 0
      and s' = "stop_ex 5 0 (Some 0) True True (RRun 64 True) None (CRemOut 0)"]]; auto simp: stop_ex_simps split: if_splits)
  then show ?thesis .
qed

theorem stop_callback_safe_witness:
  "\<exists>s. stop_reachable s \<and> cbpc s 64 = CDead \<and> req s = RRun 64 True \<and> st_destroyed s \<and> callbacks s []"
proof -
  let ?s = "stop_ex 5 0 (Some 0) True True (RRun 64 True) None CDead"
  note r = stop_ex_reachable
  have s: "cbpc ?s 64 = CDead" "req ?s = RRun 64 True" "callbacks ?s []" by (simp_all add: stop_ex_def callbacks_def)
  moreover from stop_callback_safe [OF r, of 64 0 64] s(1,2) have "st_destroyed ?s" by auto
  ultimately show ?thesis using r by blast
qed

end
