(* ===== verification/Ref_Count.thy ===== *)
theory Ref_Count
  imports Prelude
begin

text \<open>
  Counted references: objects on a heap with a counter, and a list of reference variables. What the
  stop states and the shared tasks have in common is proved here once, in a locale over the
  operations that change the counter.
\<close>

section \<open>How many variables refer to an object\<close>

definition uses :: "ptr list \<Rightarrow> ptr \<Rightarrow> nat" where
  "uses xs p = length (filter (\<lambda>x. x = p) xs)"

lemma uses_update:
  "i < length xs \<Longrightarrow> uses (xs[i := q]) p + of_bool (xs ! i = p) = uses xs p + of_bool (q = p)"
proof (induction xs arbitrary: i)
  case (Cons x xs)
  then show ?case by (cases i) (force simp: uses_def)+
qed simp

lemma uses_le: "uses xs p \<le> length xs"
  by (simp add: uses_def)

lemma uses_nth: "i < length xs \<Longrightarrow> 0 < uses xs (xs ! i)"
  by (auto simp: uses_def filter_empty_conv)

lemma uses_set:
  assumes "i < length xs" and "p \<noteq> 0"
  shows "xs ! i = 0 \<Longrightarrow> uses (xs[i := q]) p = uses xs p + of_bool (p = q)"
    and "uses (xs[i := 0]) p = uses xs p - of_bool (p = xs ! i)"
  using uses_update [OF assms(1), of q p] uses_update [OF assms(1), of 0 p] assms(2) by (auto split: if_splits)

lemma uses_move:
  assumes "i < length xs" and "j < length xs" and "i \<noteq> j" and "p \<noteq> 0"
  shows "uses (xs[i := xs ! j, j := 0]) p = uses xs p - of_bool (p = xs ! i)"
  using uses_update [OF assms(1), of "xs ! j" p] uses_update [of j "xs[i := xs ! j]" 0 p] assms uses_nth [OF assms(1)]
  by (auto split: if_splits)

lemma uses_swap:
  assumes "i < length xs" and "j < length xs"
  shows "uses (xs[i := xs ! j, j := xs ! i]) p = uses xs p"
  using uses_update [OF assms(1), of "xs ! j" p] uses_update [of j "xs[i := xs ! j]" "xs ! i" p] assms
  by (cases "i = j") (auto simp: nth_list_update split: if_splits)

section \<open>The counter\<close>

lemma of_nat_one: "n < 2 ^ 32 \<Longrightarrow> (of_nat n :: u32) = 1 \<longleftrightarrow> n = 1"
proof -
  assume "n < 2 ^ 32"
  then have "unat (of_nat n :: u32) = n" by (intro unat_of_nat_fits) simp
  then show ?thesis by (metis of_nat_1 unat_1 len_gt_0 zero_less_one)
qed

text \<open>
  To copy a reference the counter goes up; to give one up it goes down, and the object is
  deleted with the last one. \<open>None\<close> is an access to a deleted object; null refers to nothing.
\<close>

definition rc_copy :: "('o \<Rightarrow> 'o) \<Rightarrow> ptr \<Rightarrow> (ptr \<Rightarrow> 'o option) \<Rightarrow> (ptr \<Rightarrow> 'o option) option" where
  "rc_copy add p H = (if p = 0 then Some H else case H p of None \<Rightarrow> None | Some t \<Rightarrow> Some (H(p \<mapsto> add t)))"

definition rc_drop :: "('o \<Rightarrow> bool \<times> 'o) \<Rightarrow> ptr \<Rightarrow> (ptr \<Rightarrow> 'o option) \<Rightarrow> (ptr \<Rightarrow> 'o option) option" where
  "rc_drop release p H =
     (if p = 0 then Some H
      else case H p of
             None \<Rightarrow> None
           | Some t \<Rightarrow> (let (gone, t') = release t in Some (H(p := if gone then None else Some t'))))"

locale ref_counted =
  fixes add :: "'o \<Rightarrow> 'o" and release :: "'o \<Rightarrow> bool \<times> 'o" and cnt :: "'o \<Rightarrow> u32"
  assumes cnt_add: "cnt (add t) = cnt t + 1"
    and gone_last: "fst (release t) \<longleftrightarrow> cnt t = 1"
    and cnt_release: "cnt (snd (release t)) = cnt t - 1"
begin

text \<open>An object has as many references as its counter says, and none when it is deleted.\<close>

definition cnt_ok :: "(ptr \<Rightarrow> 'o option) \<Rightarrow> nat \<Rightarrow> ptr \<Rightarrow> bool" where
  "cnt_ok H n p \<longleftrightarrow> n < 2 ^ 32 \<and> (case H p of None \<Rightarrow> n = 0 | Some t \<Rightarrow> cnt t = of_nat n \<and> 0 < n)"

lemma cnt_ok_other: "cnt_ok H n p \<Longrightarrow> p \<noteq> q \<Longrightarrow> cnt_ok (H(q := x)) n p"
  by (simp add: cnt_ok_def)

lemma cnt_ok_alive: "cnt_ok H n p \<Longrightarrow> H p \<noteq> None \<longleftrightarrow> 0 < n"
  by (auto simp: cnt_ok_def split: option.splits)

lemma copy_ok:
  assumes ok: "\<And>p. p \<noteq> 0 \<Longrightarrow> cnt_ok H (N p) p" and q: "q \<noteq> 0 \<Longrightarrow> 0 < N q" and fits: "N q + 1 < 2 ^ 32"
  obtains H' where "rc_copy add q H = Some H'" and "\<And>p. p \<noteq> 0 \<Longrightarrow> cnt_ok H' (N p + of_bool (p = q)) p"
proof (cases "q = 0")
  case True
  then show thesis using ok by (intro that [of H]) (simp_all add: rc_copy_def)
next
  case False
  then obtain t where t: "H q = Some t" "cnt t = of_nat (N q)"
    using ok [OF False] q [OF False] by (auto simp: cnt_ok_def split: option.splits)
  have "cnt_ok (H(q \<mapsto> add t)) (N q + 1) q" using t fits by (simp add: cnt_ok_def cnt_add)
  then have "cnt_ok (H(q \<mapsto> add t)) (N p + of_bool (p = q)) p" if "p \<noteq> 0" for p
    using ok [OF that] by (cases "p = q") (simp_all add: cnt_ok_other)
  then show thesis using t(1) False by (intro that [of "H(q \<mapsto> add t)"]) (simp_all add: rc_copy_def)
qed

lemma drop_ok:
  assumes ok: "\<And>p. p \<noteq> 0 \<Longrightarrow> cnt_ok H (N p) p" and q: "q \<noteq> 0 \<Longrightarrow> 0 < N q"
  obtains H' where "rc_drop release q H = Some H'" and "\<And>p. p \<noteq> 0 \<Longrightarrow> cnt_ok H' (N p - of_bool (p = q)) p"
proof (cases "q = 0")
  case True
  then show thesis using ok by (intro that [of H]) (simp_all add: rc_drop_def)
next
  case False
  then obtain t where t: "H q = Some t" "cnt t = of_nat (N q)" and n: "0 < N q" "N q < 2 ^ 32"
    using ok [OF False] q [OF False] by (auto simp: cnt_ok_def split: option.splits)
  let ?H = "H(q := if fst (release t) then None else Some (snd (release t)))"
  have g: "fst (release t) \<longleftrightarrow> N q = 1" using t(2) n(2) of_nat_one by (simp add: gone_last)
  have "cnt_ok ?H (N q - 1) q" using t n g by (auto simp: cnt_ok_def cnt_release of_nat_diff)
  then have "cnt_ok ?H (N p - of_bool (p = q)) p" if "p \<noteq> 0" for p
    using ok [OF that] by (cases "p = q") (simp_all add: cnt_ok_other)
  then show thesis using t(1) False
    by (intro that [of ?H]) (simp_all add: rc_drop_def case_prod_beta)
qed

end

end
