(* ===== verification/Stop_Source.thy ===== *)
theory Stop_Source
  imports Stop_State Ref_Count
begin

text \<open>
  The owners of a stop state, \<^verbatim>\<open>co/stop_token.hpp\<close>: the counted pointer \<open>stop_state_ref\<close>, and on it the
  sources and the tokens. A program has a list of source objects and one of other references
  (tokens and registered callbacks); an object without a state, or one that was destroyed, is a
  null pointer. A state that was deleted is \<open>None\<close> in the heap, and so is the outcome of an
  access to it.
\<close>

section \<open>References\<close>

type_synonym stop_heap = "ptr \<Rightarrow> stop_state option"

definition new_stop_state :: stop_state where
  "new_stop_state = \<lparr>st_owners = 1, st_value = ssrc_counter_inc, st_head = 0, st_requester = None,
     st_destroyed = False, cb_prev = (\<lambda>_. 0), cb_next = (\<lambda>_. 0), cb_destroyed = (\<lambda>_. False), cb_done = (\<lambda>_. 0)\<rparr>"

definition on_state :: "ptr \<Rightarrow> (stop_state \<Rightarrow> stop_state) \<Rightarrow> stop_heap \<Rightarrow> stop_heap option" where
  "on_state p f H = (if p = 0 then Some H else case H p of None \<Rightarrow> None | Some s \<Rightarrow> Some (H(p \<mapsto> f s)))"

definition ref_copy :: "ptr \<Rightarrow> stop_heap \<Rightarrow> stop_heap option" where
  "ref_copy p H = on_state p add_owner H"

definition ref_drop :: "ptr \<Rightarrow> stop_heap \<Rightarrow> stop_heap option" where
  "ref_drop p H =
     (if p = 0 then Some H
      else case H p of
             None \<Rightarrow> None
           | Some s \<Rightarrow> (let (gone, s') = release_ownership s in Some (H(p := if gone then None else Some s'))))"

text \<open>A stop state is an object with counted references.\<close>

interpretation stop_ref: ref_counted add_owner release_ownership st_owners
  by unfold_locales (simp_all add: add_owner_def release_ownership_def)

lemma stop_ref_ops: "ref_copy = rc_copy add_owner" "ref_drop = rc_drop release_ownership"
  by (simp_all add: fun_eq_iff ref_copy_def on_state_def rc_copy_def ref_drop_def rc_drop_def)

text \<open>Assignment to a reference that is \<open>p\<close> of one that is \<open>q\<close>.\<close>

definition ref_copy_assign :: "ptr \<Rightarrow> ptr \<Rightarrow> stop_heap \<Rightarrow> (ptr \<times> stop_heap) option" where
  "ref_copy_assign p q H =
     (if q \<noteq> p
      then (case ref_copy q H of
              None \<Rightarrow> None
            | Some H \<Rightarrow> (case ref_drop p H of None \<Rightarrow> None | Some H \<Rightarrow> Some (q, H)))
      else Some (p, H))"

text \<open>The result has both references; the temporary that holds \<open>p\<close> at the end is destroyed.\<close>

definition ref_move_assign :: "ptr \<Rightarrow> ptr \<Rightarrow> stop_heap \<Rightarrow> (ptr \<times> ptr \<times> stop_heap) option" where
  "ref_move_assign p q H = (case ref_drop p H of None \<Rightarrow> None | Some H \<Rightarrow> Some (q, 0, H))"

section \<open>Sources and tokens\<close>

record stop_objs =
  sources :: "ptr list"
  tokens :: "ptr list"
  states :: stop_heap

definition source_copy :: "ptr \<Rightarrow> stop_heap \<Rightarrow> stop_heap option" where
  "source_copy p H = (case ref_copy p H of None \<Rightarrow> None | Some H \<Rightarrow> on_state p add_ssrc H)"

definition source_drop :: "ptr \<Rightarrow> stop_heap \<Rightarrow> stop_heap option" where
  "source_drop p H = (case on_state p sub_ssrc H of None \<Rightarrow> None | Some H \<Rightarrow> ref_drop p H)"

text \<open>Copy assignment: the old state goes to a source \<open>sink\<close> that is destroyed at the end.\<close>

definition source_copy_assign :: "ptr \<Rightarrow> ptr \<Rightarrow> stop_heap \<Rightarrow> (ptr \<times> stop_heap) option" where
  "source_copy_assign p q H =
     (if p \<noteq> q
      then (case ref_copy_assign 0 q H of
              None \<Rightarrow> None
            | Some (m, H) \<Rightarrow>
                (case on_state m add_ssrc H of
                   None \<Rightarrow> None
                 | Some H \<Rightarrow> (case source_drop p H of None \<Rightarrow> None | Some H \<Rightarrow> Some (m, H))))
      else Some (p, H))"

text \<open>Move assignment is the defaulted one, that of the reference.\<close>

definition source_move_assign :: "ptr \<Rightarrow> ptr \<Rightarrow> stop_heap \<Rightarrow> (ptr \<times> ptr \<times> stop_heap) option" where
  "source_move_assign p q H = ref_move_assign p q H"

definition source_stop_possible :: "ptr \<Rightarrow> bool" where
  "source_stop_possible p \<longleftrightarrow> p \<noteq> 0"

definition source_stop_requested :: "ptr \<Rightarrow> stop_heap \<Rightarrow> bool" where
  "source_stop_requested p H \<longleftrightarrow> p \<noteq> 0 \<and> (case H p of None \<Rightarrow> False | Some s \<Rightarrow> st_stop_requested s)"

definition token_stop_possible :: "ptr \<Rightarrow> stop_heap \<Rightarrow> bool" where
  "token_stop_possible p H \<longleftrightarrow> p \<noteq> 0 \<and> (case H p of None \<Rightarrow> False | Some s \<Rightarrow> st_stop_possible s)"

definition token_stop_requested :: "ptr \<Rightarrow> stop_heap \<Rightarrow> bool" where
  "token_stop_requested p H \<longleftrightarrow> p \<noteq> 0 \<and> (case H p of None \<Rightarrow> False | Some s \<Rightarrow> st_stop_requested s)"

section \<open>Callbacks\<close>

text \<open>
  A callback holds a reference to the state it is registered with. Without a stop request and without
  interference, \<open>register_callback\<close> links it unless no source is left; what the accesses do under
  interference, and when a stop is requested, is in \<open>Stop_Threads\<close>.
\<close>

definition register_alone :: "ptr \<Rightarrow> stop_state \<Rightarrow> bool \<times> stop_state" where
  "register_alone c s =
     (if st_stop_requested s then (False, s)
      else if st_value s < ssrc_counter_inc then (False, s)
      else (True, cb_link c s))"

text \<open>Construction from a token that is copied, and from one that may be moved from: the result has the
  reference of the callback, and then that of the token.\<close>

definition callback_new :: "ptr \<Rightarrow> ptr \<Rightarrow> stop_heap \<Rightarrow> (ptr \<times> stop_heap) option" where
  "callback_new c p H = (case ref_copy p H of
       None \<Rightarrow> None
     | Some H \<Rightarrow>
         (if p = 0 then Some (0, H)
          else case H p of
              None \<Rightarrow> None
            | Some s \<Rightarrow> (let (registered, s') = register_alone c s; H = H(p \<mapsto> s')
                in if registered then Some (p, H) else map_option (Pair 0) (ref_drop p H))))"

definition callback_new_move :: "ptr \<Rightarrow> ptr \<Rightarrow> stop_heap \<Rightarrow> (ptr \<times> ptr \<times> stop_heap) option" where
  "callback_new_move c p H =
     (if p = 0 then Some (0, p, H)
      else case H p of
          None \<Rightarrow> None
        | Some s \<Rightarrow> (let (registered, s') = register_alone c s; H = H(p \<mapsto> s')
            in if registered then Some (p, 0, H) else Some (0, p, H)))"

text \<open>Destruction of a callback that is in the list of its state, or in none.\<close>

definition callback_destroy :: "ptr \<Rightarrow> ptr \<Rightarrow> stop_heap \<Rightarrow> stop_heap option" where
  "callback_destroy c q H =
     (if q = 0 then Some H
      else case H q of
          None \<Rightarrow> None
        | Some s \<Rightarrow> (let (there, s') = cb_unlink c s in if there then ref_drop q (H(q \<mapsto> s')) else None))"

section \<open>Programs\<close>

text \<open>The second list has the references of tokens and those of callbacks. Operations on objects: the number of the object that is constructed or assigned to comes first,
  and a constructed object has been empty before. \<open>NewSource\<close> gets the address of the new state.\<close>

datatype stop_op =
    NewSource nat ptr | CopySource nat nat | MoveSource nat nat | AssignSource nat nat | MoveAssignSource nat nat
  | SwapSources nat nat | DropSource nat
  | GetToken nat nat | CopyToken nat nat | MoveToken nat nat | AssignToken nat nat | MoveAssignToken nat nat
  | SwapTokens nat nat | DropToken nat | NewCallback ptr nat nat | NewCallbackMove ptr nat nat | DropCallback ptr nat

definition with_heap :: "stop_heap option \<Rightarrow> (stop_heap \<Rightarrow> stop_objs) \<Rightarrow> stop_objs option" where
  "with_heap H f = (case H of None \<Rightarrow> None | Some H \<Rightarrow> Some (f H))"

fun stop_exec :: "stop_op \<Rightarrow> stop_objs \<Rightarrow> stop_objs option" where
  "stop_exec (NewSource i p) o' =
     Some (o'\<lparr>sources := (sources o')[i := p], states := (states o')(p \<mapsto> new_stop_state)\<rparr>)"
| "stop_exec (CopySource i j) o' = with_heap (source_copy (sources o' ! j) (states o'))
     (\<lambda>H. o'\<lparr>sources := (sources o')[i := sources o' ! j], states := H\<rparr>)"
| "stop_exec (MoveSource i j) o' = Some (o'\<lparr>sources := (sources o')[i := sources o' ! j, j := 0]\<rparr>)"
| "stop_exec (AssignSource i j) o' =
     (case source_copy_assign (sources o' ! i) (sources o' ! j) (states o') of
        None \<Rightarrow> None | Some (p, H) \<Rightarrow> Some (o'\<lparr>sources := (sources o')[i := p], states := H\<rparr>))"
| "stop_exec (MoveAssignSource i j) o' =
     (case source_move_assign (sources o' ! i) (sources o' ! j) (states o') of
        None \<Rightarrow> None | Some (p, q, H) \<Rightarrow> Some (o'\<lparr>sources := (sources o')[i := p, j := q], states := H\<rparr>))"
| "stop_exec (DropSource i) o' = with_heap (source_drop (sources o' ! i) (states o'))
     (\<lambda>H. o'\<lparr>sources := (sources o')[i := 0], states := H\<rparr>)"
| "stop_exec (GetToken i j) o' = with_heap (ref_copy (sources o' ! j) (states o'))
     (\<lambda>H. o'\<lparr>tokens := (tokens o')[i := sources o' ! j], states := H\<rparr>)"
| "stop_exec (CopyToken i j) o' = with_heap (ref_copy (tokens o' ! j) (states o'))
     (\<lambda>H. o'\<lparr>tokens := (tokens o')[i := tokens o' ! j], states := H\<rparr>)"
| "stop_exec (AssignToken i j) o' =
     (case ref_copy_assign (tokens o' ! i) (tokens o' ! j) (states o') of
        None \<Rightarrow> None | Some (p, H) \<Rightarrow> Some (o'\<lparr>tokens := (tokens o')[i := p], states := H\<rparr>))"
| "stop_exec (MoveAssignToken i j) o' =
     (case ref_move_assign (tokens o' ! i) (tokens o' ! j) (states o') of
        None \<Rightarrow> None | Some (p, q, H) \<Rightarrow> Some (o'\<lparr>tokens := (tokens o')[i := p, j := q], states := H\<rparr>))"
| "stop_exec (DropToken i) o' = with_heap (ref_drop (tokens o' ! i) (states o'))
     (\<lambda>H. o'\<lparr>tokens := (tokens o')[i := 0], states := H\<rparr>)"
| "stop_exec (SwapSources i j) o' = Some (o'\<lparr>sources := (sources o')[i := sources o' ! j, j := sources o' ! i]\<rparr>)"
| "stop_exec (SwapTokens i j) o' = Some (o'\<lparr>tokens := (tokens o')[i := tokens o' ! j, j := tokens o' ! i]\<rparr>)"
| "stop_exec (MoveToken i j) o' = Some (o'\<lparr>tokens := (tokens o')[i := tokens o' ! j, j := 0]\<rparr>)"
| "stop_exec (NewCallback c i j) o' = (case callback_new c (tokens o' ! j) (states o') of
       None \<Rightarrow> None | Some (p, H) \<Rightarrow> Some (o'\<lparr>tokens := (tokens o')[i := p], states := H\<rparr>))"
| "stop_exec (NewCallbackMove c i j) o' = (case callback_new_move c (tokens o' ! j) (states o') of
       None \<Rightarrow> None | Some (p, q, H) \<Rightarrow> Some (o'\<lparr>tokens := (tokens o')[i := p, j := q], states := H\<rparr>))"
| "stop_exec (DropCallback c i) o' = with_heap (callback_destroy c (tokens o' ! i) (states o'))
     (\<lambda>H. o'\<lparr>tokens := (tokens o')[i := 0], states := H\<rparr>)"

fun stop_op_ok :: "stop_op \<Rightarrow> stop_objs \<Rightarrow> bool" where
  "stop_op_ok (NewSource i p) o' \<longleftrightarrow> i < length (sources o') \<and> sources o' ! i = 0 \<and> p \<noteq> 0 \<and> states o' p = None"
| "stop_op_ok (CopySource i j) o' \<longleftrightarrow> i < length (sources o') \<and> j < length (sources o') \<and> sources o' ! i = 0"
| "stop_op_ok (MoveSource i j) o' \<longleftrightarrow> i < length (sources o') \<and> j < length (sources o') \<and> sources o' ! i = 0 \<and> i \<noteq> j"
| "stop_op_ok (AssignSource i j) o' \<longleftrightarrow> i < length (sources o') \<and> j < length (sources o')"
| "stop_op_ok (MoveAssignSource i j) o' \<longleftrightarrow> i < length (sources o') \<and> j < length (sources o') \<and> i \<noteq> j"
| "stop_op_ok (DropSource i) o' \<longleftrightarrow> i < length (sources o')"
| "stop_op_ok (GetToken i j) o' \<longleftrightarrow> i < length (tokens o') \<and> j < length (sources o') \<and> tokens o' ! i = 0"
| "stop_op_ok (CopyToken i j) o' \<longleftrightarrow> i < length (tokens o') \<and> j < length (tokens o') \<and> tokens o' ! i = 0"
| "stop_op_ok (AssignToken i j) o' \<longleftrightarrow> i < length (tokens o') \<and> j < length (tokens o')"
| "stop_op_ok (MoveAssignToken i j) o' \<longleftrightarrow> i < length (tokens o') \<and> j < length (tokens o') \<and> i \<noteq> j"
| "stop_op_ok (DropToken i) o' \<longleftrightarrow> i < length (tokens o')"
| "stop_op_ok (SwapSources i j) o' \<longleftrightarrow> i < length (sources o') \<and> j < length (sources o')"
| "stop_op_ok (SwapTokens i j) o' \<longleftrightarrow> i < length (tokens o') \<and> j < length (tokens o')"
| "stop_op_ok (MoveToken i j) o' \<longleftrightarrow> i < length (tokens o') \<and> j < length (tokens o') \<and> tokens o' ! i = 0 \<and> i \<noteq> j"
| "stop_op_ok (NewCallback c i j) o' \<longleftrightarrow> i < length (tokens o') \<and> j < length (tokens o') \<and> tokens o' ! i = 0"
| "stop_op_ok (NewCallbackMove c i j) o' \<longleftrightarrow>
     i < length (tokens o') \<and> j < length (tokens o') \<and> tokens o' ! i = 0 \<and> i \<noteq> j"
| "stop_op_ok (DropCallback c i) o' \<longleftrightarrow> i < length (tokens o') \<and>
     (tokens o' ! i \<noteq> 0 \<longrightarrow> (\<forall>t. states o' (tokens o' ! i) = Some t \<longrightarrow> fst (cb_unlink c t)))"

primrec stop_runs :: "stop_op list \<Rightarrow> stop_objs \<Rightarrow> stop_objs option" where
  "stop_runs [] s = Some s"
| "stop_runs (x # xs) s = (case stop_exec x s of None \<Rightarrow> None | Some s \<Rightarrow> stop_runs xs s)"

text \<open>Every operation of the program is on objects that there are, and of the move assignments of
  sources only those to an empty source are made.\<close>

definition fair_op :: "stop_op \<Rightarrow> stop_objs \<Rightarrow> bool" where
  "fair_op x s \<longleftrightarrow> stop_op_ok x s \<and> (case x of MoveAssignSource i j \<Rightarrow> sources s ! i = 0 | _ \<Rightarrow> True)"

primrec fair_ops :: "stop_op list \<Rightarrow> stop_objs \<Rightarrow> bool" where
  "fair_ops [] s = True"
| "fair_ops (x # xs) s = (fair_op x s \<and> (case stop_exec x s of None \<Rightarrow> True | Some s \<Rightarrow> fair_ops xs s))"

section \<open>Accounting\<close>

text \<open>The counters of a state are the numbers of its sources and of its references.\<close>

definition counted :: "stop_heap \<Rightarrow> nat \<Rightarrow> nat \<Rightarrow> ptr \<Rightarrow> bool" where
  "counted H ns nt p \<longleftrightarrow> ns + nt < 2 ^ 32 \<and> (case H p of
     None \<Rightarrow> ns = 0 \<and> nt = 0
   | Some t \<Rightarrow> st_value t = ssrc_counter_inc * of_nat ns \<and> st_owners t = of_nat (ns + nt) \<and> 0 < ns + nt)"

definition objs_inv :: "stop_objs \<Rightarrow> bool" where
  "objs_inv s \<longleftrightarrow> (\<forall>p. p \<noteq> 0 \<longrightarrow> counted (states s) (uses (sources s) p) (uses (tokens s) p) p) \<and>
     length (sources s) + length (tokens s) + 1 < 2 ^ 32"

lemma counted_other: "counted H a b p \<Longrightarrow> p \<noteq> q \<Longrightarrow> counted (H(q := x)) a b p"
  by (simp add: counted_def)

lemma counted_alive:
  assumes "counted H a b q" and "0 < a + b"
  obtains t where "H q = Some t" and "st_value t = ssrc_counter_inc * of_nat a" and "st_owners t = of_nat (a + b)"
    and "st_owners t = 1 \<longleftrightarrow> a + b = 1"
  using assms of_nat_one [of "a + b"] by (auto simp: counted_def split: option.splits)

lemma ref_copy_counted:
  assumes "\<And>p. p \<noteq> 0 \<Longrightarrow> counted H (S p) (T p) p" and "q \<noteq> 0 \<Longrightarrow> 0 < S q + T q" and "S q + T q + 1 < 2 ^ 32"
  obtains H' where "ref_copy q H = Some H'" and "\<And>p. p \<noteq> 0 \<Longrightarrow> counted H' (S p) (T p + of_bool (p = q)) p"
proof (cases "q = 0")
  case True
  then show thesis using assms(1) by (intro that [of H]) (simp_all add: ref_copy_def on_state_def)
next
  case False
  obtain t where t: "H q = Some t" "st_value t = ssrc_counter_inc * of_nat (S q)" "st_owners t = of_nat (S q + T q)"
    by (rule counted_alive [OF assms(1) [OF False] assms(2) [OF False]])
  let ?H = "H(q \<mapsto> add_owner t)"
  have "counted ?H (S q) (T q + 1) q" using t assms(3) by (simp add: counted_def add_owner_def)
  then have "counted ?H (S p) (T p + of_bool (p = q)) p" if "p \<noteq> 0" for p
    using assms(1) [OF that] by (cases "p = q") (simp_all add: counted_other)
  then show thesis using t(1) False by (intro that [of ?H]) (simp_all add: ref_copy_def on_state_def)
qed

text \<open>The list of callbacks is not counted.\<close>

lemma counted_keep:
  assumes "counted H a b p" and "H q = Some t" and "st_value t' = st_value t" and "st_owners t' = st_owners t"
  shows "counted (H(q \<mapsto> t')) a b p"
  using assms by (cases "p = q") (auto simp: counted_def)

lemma cb_link_counts: "st_value (cb_link c s) = st_value s" "st_owners (cb_link c s) = st_owners s"
  by (simp_all add: cb_link_def Let_def)

lemma cb_unlink_counts: "st_value (snd (cb_unlink c s)) = st_value s" "st_owners (snd (cb_unlink c s)) = st_owners s"
  by (simp_all add: cb_unlink_def Let_def)

lemma register_counts:
  "register_alone c s = (ok, s') \<Longrightarrow> st_value s' = st_value s \<and> st_owners s' = st_owners s"
  by (auto simp: register_alone_def cb_link_counts split: if_splits)

lemma source_copy_counted:
  assumes "\<And>p. p \<noteq> 0 \<Longrightarrow> counted H (S p) (T p) p" and "q \<noteq> 0 \<Longrightarrow> 0 < S q + T q" and "S q + T q + 1 < 2 ^ 32"
  obtains H' where "source_copy q H = Some H'" and "\<And>p. p \<noteq> 0 \<Longrightarrow> counted H' (S p + of_bool (p = q)) (T p) p"
proof (cases "q = 0")
  case True
  then show thesis using assms(1) by (intro that [of H]) (simp_all add: source_copy_def ref_copy_def on_state_def)
next
  case False
  obtain t where t: "H q = Some t" "st_value t = ssrc_counter_inc * of_nat (S q)" "st_owners t = of_nat (S q + T q)"
    by (rule counted_alive [OF assms(1) [OF False] assms(2) [OF False]])
  let ?H = "H(q \<mapsto> add_ssrc (add_owner t))"
  have "counted ?H (S q + 1) (T q) q"
    using t assms(3) by (simp add: counted_def add_owner_def add_ssrc_def algebra_simps)
  then have "counted ?H (S p + of_bool (p = q)) (T p) p" if "p \<noteq> 0" for p
    using assms(1) [OF that] by (cases "p = q") (simp_all add: counted_other)
  then show thesis using t(1) False by (intro that [of ?H]) (simp_all add: source_copy_def ref_copy_def on_state_def)
qed

lemma ref_drop_counted:
  assumes "\<And>p. p \<noteq> 0 \<Longrightarrow> counted H (S p) (T p) p" and "q \<noteq> 0 \<Longrightarrow> 0 < T q"
  obtains H' where "ref_drop q H = Some H'" and "\<And>p. p \<noteq> 0 \<Longrightarrow> counted H' (S p) (T p - of_bool (p = q)) p"
proof (cases "q = 0")
  case True
  then show thesis using assms(1) by (intro that [of H]) (simp_all add: ref_drop_def)
next
  case False
  have c: "counted H (S q) (T q) q" "0 < T q" using assms False by blast+
  then have "0 < S q + T q" by simp
  then obtain t where t: "H q = Some t" "st_value t = ssrc_counter_inc * of_nat (S q)" "st_owners t = of_nat (S q + T q)"
    "st_owners t = 1 \<longleftrightarrow> S q + T q = 1" by (rule counted_alive [OF c(1)])
  let ?H = "H(q := if st_owners t = 1 then None else Some (t\<lparr>st_owners := st_owners t - 1\<rparr>))"
  have "counted ?H (S q) (T q - 1) q"
  proof (cases "S q + T q = 1")
    case True
    then show ?thesis using c t by (simp add: counted_def)
  next
    case False
    then show ?thesis using c t(2-4) by (auto simp: counted_def of_nat_diff)
  qed
  then have "counted ?H (S p) (T p - of_bool (p = q)) p" if "p \<noteq> 0" for p
    using assms(1) [OF that] by (cases "p = q") (simp_all add: counted_other)
  then show thesis using t(1) False by (intro that [of ?H]) (simp_all add: ref_drop_def release_ownership_def)
qed

lemma source_drop_counted:
  assumes "\<And>p. p \<noteq> 0 \<Longrightarrow> counted H (S p) (T p) p" and "q \<noteq> 0 \<Longrightarrow> 0 < S q"
  obtains H' where "source_drop q H = Some H'" and "\<And>p. p \<noteq> 0 \<Longrightarrow> counted H' (S p - of_bool (p = q)) (T p) p"
proof (cases "q = 0")
  case True
  then show thesis using assms(1) by (intro that [of H]) (simp_all add: source_drop_def on_state_def ref_drop_def)
next
  case False
  have c: "counted H (S q) (T q) q" "0 < S q" using assms False by blast+
  then have "0 < S q + T q" by simp
  then obtain t where t: "H q = Some t" "st_value t = ssrc_counter_inc * of_nat (S q)" "st_owners t = of_nat (S q + T q)"
    "st_owners t = 1 \<longleftrightarrow> S q + T q = 1" by (rule counted_alive [OF c(1)])
  let ?H = "H(q := if st_owners t = 1 then None else Some ((sub_ssrc t)\<lparr>st_owners := st_owners t - 1\<rparr>))"
  have "counted ?H (S q - 1) (T q) q"
  proof (cases "S q + T q = 1")
    case True
    then show ?thesis using c t by (simp add: counted_def)
  next
    case False
    then show ?thesis using c t(2-4) by (auto simp: counted_def of_nat_diff sub_ssrc_def algebra_simps)
  qed
  then have "counted ?H (S p - of_bool (p = q)) (T p) p" if "p \<noteq> 0" for p
    using assms(1) [OF that] by (cases "p = q") (simp_all add: counted_other)
  then show thesis using t(1) False
    by (intro that [of ?H]) (simp_all add: source_drop_def on_state_def ref_drop_def release_ownership_def sub_ssrc_def)
qed

lemma callback_new_counted:
  assumes "\<And>p. p \<noteq> 0 \<Longrightarrow> counted H (S p) (T p) p" and "q \<noteq> 0 \<Longrightarrow> 0 < S q + T q" and "S q + T q + 1 < 2 ^ 32"
  obtains p H' where "callback_new c q H = Some (p, H')" and "\<And>x. x \<noteq> 0 \<Longrightarrow> counted H' (S x) (T x + of_bool (x = p)) x"
proof -
  obtain H1 where H1: "ref_copy q H = Some H1" "\<And>p. p \<noteq> 0 \<Longrightarrow> counted H1 (S p) (T p + of_bool (p = q)) p"
    using ref_copy_counted [where S = S and T = T, OF assms] by blast
  show thesis
  proof (cases "q = 0")
    case True
    then show thesis using H1 by (intro that [of 0 H1]) (simp_all add: callback_new_def)
  next
    case False
    have alive: "counted H1 (S q) (T q + 1) q" using H1(2) [OF False] by simp
    then obtain t where t: "H1 q = Some t" by (auto simp: counted_def split: option.splits)
    obtain ok t' where r: "register_alone c t = (ok, t')" by (cases "register_alone c t")
    let ?H = "H1(q \<mapsto> t')"
    have k: "counted ?H (S p) (T p + of_bool (p = q)) p" if "p \<noteq> 0" for p
      using counted_keep [OF H1(2) [OF that] t] register_counts [OF r] by simp
    show thesis
    proof (cases ok)
      case True
      then show thesis using H1(1) False t r k by (intro that [of q ?H]) (simp_all add: callback_new_def)
    next
      case no: False
      obtain H2 where H2: "ref_drop q ?H = Some H2"
        "\<And>p. p \<noteq> 0 \<Longrightarrow> counted H2 (S p) (T p + of_bool (p = q) - of_bool (p = q)) p"
        using ref_drop_counted [where S = S and T = "\<lambda>p. T p + of_bool (p = q)" and q = q, OF k] by auto
      have "counted H2 (S x) (T x + of_bool (x = 0)) x" if "x \<noteq> 0" for x using H2(2) [OF that] that by simp
      then show thesis using H1(1) False t r no H2(1) by (intro that [of 0 H2]) (simp_all add: callback_new_def)
    qed
  qed
qed

lemma callback_new_move_counted:
  assumes "\<And>p. p \<noteq> 0 \<Longrightarrow> counted H (S p) (T p) p" and "q \<noteq> 0 \<Longrightarrow> 0 < S q + T q"
  obtains H' where "callback_new_move c q H = Some (q, 0, H') \<or> callback_new_move c q H = Some (0, q, H')"
    and "\<And>x. x \<noteq> 0 \<Longrightarrow> counted H' (S x) (T x) x"
proof (cases "q = 0")
  case True
  then show thesis using assms(1) by (intro that [of H]) (simp_all add: callback_new_move_def)
next
  case False
  obtain t where t: "H q = Some t" by (rule counted_alive [OF assms(1) [OF False] assms(2) [OF False]])
  obtain ok t' where r: "register_alone c t = (ok, t')" by (cases "register_alone c t")
  have "counted (H(q \<mapsto> t')) (S p) (T p) p" if "p \<noteq> 0" for p
    using counted_keep [OF assms(1) [OF that] t] register_counts [OF r] by simp
  then show thesis using False t r
    by (cases ok) (intro that [of "H(q \<mapsto> t')"], simp_all add: callback_new_move_def Let_def)+
qed

lemma callback_destroy_counted:
  assumes "\<And>p. p \<noteq> 0 \<Longrightarrow> counted H (S p) (T p) p" and "q \<noteq> 0 \<Longrightarrow> 0 < T q"
    and "q \<noteq> 0 \<longrightarrow> (\<forall>t. H q = Some t \<longrightarrow> fst (cb_unlink c t))"
  obtains H' where "callback_destroy c q H = Some H'" and "\<And>p. p \<noteq> 0 \<Longrightarrow> counted H' (S p) (T p - of_bool (p = q)) p"
proof (cases "q = 0")
  case True
  then show thesis using assms(1) by (intro that [of H]) (simp_all add: callback_destroy_def)
next
  case False
  have "0 < S q + T q" using assms(2) [OF False] by simp
  then obtain t where t: "H q = Some t" by (rule counted_alive [OF assms(1) [OF False]])
  obtain t' where u: "cb_unlink c t = (True, t')" using assms(3) False t by (cases "cb_unlink c t") auto
  have "counted (H(q \<mapsto> t')) (S p) (T p) p" if "p \<noteq> 0" for p
    using counted_keep [OF assms(1) [OF that] t] cb_unlink_counts [of c t] u by simp
  then obtain H' where "ref_drop q (H(q \<mapsto> t')) = Some H'" "\<And>p. p \<noteq> 0 \<Longrightarrow> counted H' (S p) (T p - of_bool (p = q)) p"
    using ref_drop_counted [where S = S and T = T and q = q] assms(2) by metis
  then show thesis using False t u by (intro that [of H']) (simp_all add: callback_destroy_def)
qed

lemma objs_invI:
  assumes "objs_inv s" and "length (sources s') = length (sources s)" and "length (tokens s') = length (tokens s)"
    and "\<And>p. p \<noteq> 0 \<Longrightarrow> counted (states s') (uses (sources s') p) (uses (tokens s') p) p"
  shows "objs_inv s'"
  using assms by (simp add: objs_inv_def)

lemma stop_exec_inv:
  assumes ok: "fair_op x s" and inv: "objs_inv s"
  shows "\<exists>s'. stop_exec x s = Some s' \<and> objs_inv s'"
proof -
  let ?S = "uses (sources s)" and ?T = "uses (tokens s)"
  have c: "counted (states s) (?S p) (?T p) p" if "p \<noteq> 0" for p using inv that by (simp add: objs_inv_def)
  have room: "?S q + ?T q + 1 < 2 ^ 32" for q
    using inv uses_le [of "sources s" q] uses_le [of "tokens s" q] by (simp add: objs_inv_def)
  have src: "0 < ?S (sources s ! j)" if "j < length (sources s)" for j using uses_nth that by blast
  have tok: "0 < ?T (tokens s ! j)" if "j < length (tokens s)" for j using uses_nth that by blast
  note I = objs_invI [OF inv]
  show ?thesis
  proof (cases x)
    case (NewSource i p)
    then have o: "i < length (sources s)" "sources s ! i = 0" "p \<noteq> 0" "states s p = None"
      using ok by (simp_all add: fair_op_def)
    have "counted ((states s)(p \<mapsto> new_stop_state)) (?S q + of_bool (q = p)) (?T q) q" if "q \<noteq> 0" for q
      using c [OF that] o(4) by (cases "q = p") (auto simp: counted_other, simp add: counted_def new_stop_state_def)
    with o show ?thesis unfolding NewSource by (intro exI conjI, simp, intro I) (simp_all add: uses_set(1))
  next
    case (CopySource i j)
    then have o: "i < length (sources s)" "j < length (sources s)" "sources s ! i = 0" using ok by (simp_all add: fair_op_def)
    obtain H where "source_copy (sources s ! j) (states s) = Some H"
      "\<And>p. p \<noteq> 0 \<Longrightarrow> counted H (?S p + of_bool (p = sources s ! j)) (?T p) p"
      using source_copy_counted [where S = ?S and T = ?T, OF c _ room] src [OF o(2)] by (metis add_gr_0)
    with o show ?thesis unfolding CopySource
      by (intro exI conjI, simp add: with_heap_def, intro I) (simp_all add: uses_set(1))
  next
    case (MoveSource i j)
    then have o: "i < length (sources s)" "j < length (sources s)" "sources s ! i = 0" "i \<noteq> j" using ok by (simp_all add: fair_op_def)
    with c show ?thesis unfolding MoveSource
      by (intro exI conjI, simp, intro I) (simp_all add: uses_move)
  next
    case (AssignSource i j)
    then have o: "i < length (sources s)" "j < length (sources s)" using ok by (simp_all add: fair_op_def)
    show ?thesis
    proof (cases "sources s ! i = sources s ! j")
      case True
      then have "(sources s)[i := sources s ! j] = sources s" by (metis list_update_id)
      with True show ?thesis using inv unfolding AssignSource by (simp add: source_copy_assign_def)
    next
      case False
      obtain H where H: "source_copy (sources s ! j) (states s) = Some H"
        "\<And>p. p \<noteq> 0 \<Longrightarrow> counted H (?S p + of_bool (p = sources s ! j)) (?T p) p"
        using source_copy_counted [where S = ?S and T = ?T, OF c _ room] src [OF o(2)] by (metis add_gr_0)
      have "0 < ?S (sources s ! i) + of_bool (sources s ! i = sources s ! j)" using src [OF o(1)] by simp
      from source_drop_counted [where S = "\<lambda>p. ?S p + of_bool (p = sources s ! j)" and T = ?T, OF H(2) this]
      obtain H' where H': "source_drop (sources s ! i) H = Some H'"
        "\<And>p. p \<noteq> 0 \<Longrightarrow> counted H' (?S p + of_bool (p = sources s ! j) - of_bool (p = sources s ! i)) (?T p) p"
        by blast
      have "source_copy_assign (sources s ! i) (sources s ! j) (states s) = Some (sources s ! j, H')"
        using H(1) H'(1) False
        by (auto simp: source_copy_assign_def source_copy_def ref_copy_assign_def ref_drop_def ref_copy_def on_state_def
            split: option.splits if_splits)
      moreover have "uses ((sources s)[i := sources s ! j]) p =
          ?S p + of_bool (p = sources s ! j) - of_bool (p = sources s ! i)" for p
        using uses_update [OF o(1), of "sources s ! j" p] by (auto split: if_splits)
      ultimately show ?thesis using H'(2) unfolding AssignSource
        by (intro exI conjI, simp, intro I) simp_all
    qed
  next
    case (MoveAssignSource i j)
    then have o: "i < length (sources s)" "j < length (sources s)" "sources s ! i = 0" "i \<noteq> j" using ok by (simp_all add: fair_op_def)
    with c show ?thesis unfolding MoveAssignSource
      by (intro exI conjI, simp add: source_move_assign_def ref_move_assign_def ref_drop_def, intro I) (simp_all add: uses_move)
  next
    case (DropSource i)
    then have o: "i < length (sources s)" using ok by (simp add: fair_op_def)
    obtain H where "source_drop (sources s ! i) (states s) = Some H"
      "\<And>p. p \<noteq> 0 \<Longrightarrow> counted H (?S p - of_bool (p = sources s ! i)) (?T p) p"
      using source_drop_counted [where S = ?S and T = ?T, OF c src [OF o]] by metis
    with o show ?thesis unfolding DropSource
      by (intro exI conjI, simp add: with_heap_def, intro I) (simp_all add: uses_set(2))
  next
    case (GetToken i j)
    then have o: "i < length (tokens s)" "j < length (sources s)" "tokens s ! i = 0" using ok by (simp_all add: fair_op_def)
    obtain H where "ref_copy (sources s ! j) (states s) = Some H"
      "\<And>p. p \<noteq> 0 \<Longrightarrow> counted H (?S p) (?T p + of_bool (p = sources s ! j)) p"
      using ref_copy_counted [where S = ?S and T = ?T, OF c _ room] src [OF o(2)] by (metis add_gr_0)
    with o show ?thesis unfolding GetToken
      by (intro exI conjI, simp add: with_heap_def, intro I) (simp_all add: uses_set(1))
  next
    case (CopyToken i j)
    then have o: "i < length (tokens s)" "j < length (tokens s)" "tokens s ! i = 0" using ok by (simp_all add: fair_op_def)
    obtain H where "ref_copy (tokens s ! j) (states s) = Some H"
      "\<And>p. p \<noteq> 0 \<Longrightarrow> counted H (?S p) (?T p + of_bool (p = tokens s ! j)) p"
      using ref_copy_counted [where S = ?S and T = ?T, OF c _ room] tok [OF o(2)] by (metis add_gr_0)
    with o show ?thesis unfolding CopyToken
      by (intro exI conjI, simp add: with_heap_def, intro I) (simp_all add: uses_set(1))
  next
    case (AssignToken i j)
    then have o: "i < length (tokens s)" "j < length (tokens s)" using ok by (simp_all add: fair_op_def)
    show ?thesis
    proof (cases "tokens s ! j = tokens s ! i")
      case True
      then have "(tokens s)[i := tokens s ! i] = tokens s" "(tokens s)[i := tokens s ! j] = tokens s"
        by (metis list_update_id)+
      with True show ?thesis using inv unfolding AssignToken by (simp add: ref_copy_assign_def)
    next
      case False
      obtain H where H: "ref_copy (tokens s ! j) (states s) = Some H"
        "\<And>p. p \<noteq> 0 \<Longrightarrow> counted H (?S p) (?T p + of_bool (p = tokens s ! j)) p"
        using ref_copy_counted [where S = ?S and T = ?T, OF c _ room] tok [OF o(2)] by (metis add_gr_0)
      have "0 < ?T (tokens s ! i) + of_bool (tokens s ! i = tokens s ! j)" using tok [OF o(1)] by simp
      from ref_drop_counted [where S = ?S and T = "\<lambda>p. ?T p + of_bool (p = tokens s ! j)", OF H(2) this]
      obtain H' where H': "ref_drop (tokens s ! i) H = Some H'"
        "\<And>p. p \<noteq> 0 \<Longrightarrow> counted H' (?S p) (?T p + of_bool (p = tokens s ! j) - of_bool (p = tokens s ! i)) p"
        by blast
      have "uses ((tokens s)[i := tokens s ! j]) p = ?T p + of_bool (p = tokens s ! j) - of_bool (p = tokens s ! i)" for p
        using uses_update [OF o(1), of "tokens s ! j" p] by (auto split: if_splits)
      with H(1) H' False show ?thesis unfolding AssignToken
        by (intro exI conjI, simp add: ref_copy_assign_def, intro I) simp_all
    qed
  next
    case (MoveAssignToken i j)
    then have o: "i < length (tokens s)" "j < length (tokens s)" "i \<noteq> j" using ok by (simp_all add: fair_op_def)
    obtain H where "ref_drop (tokens s ! i) (states s) = Some H"
      "\<And>p. p \<noteq> 0 \<Longrightarrow> counted H (?S p) (?T p - of_bool (p = tokens s ! i)) p"
      using ref_drop_counted [where S = ?S and T = ?T, OF c tok [OF o(1)]] by metis
    with o show ?thesis unfolding MoveAssignToken
      by (intro exI conjI, simp add: ref_move_assign_def, intro I) (simp_all add: uses_move)
  next
    case (DropToken i)
    then have o: "i < length (tokens s)" using ok by (simp add: fair_op_def)
    obtain H where "ref_drop (tokens s ! i) (states s) = Some H"
      "\<And>p. p \<noteq> 0 \<Longrightarrow> counted H (?S p) (?T p - of_bool (p = tokens s ! i)) p"
      using ref_drop_counted [where S = ?S and T = ?T, OF c tok [OF o]] by metis
    with o show ?thesis unfolding DropToken
      by (intro exI conjI, simp add: with_heap_def, intro I) (simp_all add: uses_set(2))
  next
    case (SwapSources i j)
    then have o: "i < length (sources s)" "j < length (sources s)" using ok by (simp_all add: fair_op_def)
    with c show ?thesis unfolding SwapSources by (intro exI conjI, simp, intro I) (simp_all add: uses_swap)
  next
    case (SwapTokens i j)
    then have o: "i < length (tokens s)" "j < length (tokens s)" using ok by (simp_all add: fair_op_def)
    with c show ?thesis unfolding SwapTokens by (intro exI conjI, simp, intro I) (simp_all add: uses_swap)
  next
    case (MoveToken i j)
    then have o: "i < length (tokens s)" "j < length (tokens s)" "tokens s ! i = 0" "i \<noteq> j" using ok by (simp_all add: fair_op_def)
    with c show ?thesis unfolding MoveToken by (intro exI conjI, simp, intro I) (simp_all add: uses_move)
  next
    case (NewCallback cb i j)
    then have o: "i < length (tokens s)" "j < length (tokens s)" "tokens s ! i = 0" using ok by (simp_all add: fair_op_def)
    obtain p H where "callback_new cb (tokens s ! j) (states s) = Some (p, H)"
      "\<And>q. q \<noteq> 0 \<Longrightarrow> counted H (?S q) (?T q + of_bool (q = p)) q"
      using callback_new_counted [where S = ?S and T = ?T, OF c _ room] tok [OF o(2)] by (metis add_gr_0)
    with o show ?thesis unfolding NewCallback
      by (intro exI conjI, simp, intro I) (simp_all add: uses_set(1))
  next
    case (NewCallbackMove cb i j)
    then have o: "i < length (tokens s)" "j < length (tokens s)" "tokens s ! i = 0" "i \<noteq> j" using ok by (simp_all add: fair_op_def)
    obtain H where H: "callback_new_move cb (tokens s ! j) (states s) = Some (tokens s ! j, 0, H) \<or>
        callback_new_move cb (tokens s ! j) (states s) = Some (0, tokens s ! j, H)"
      "\<And>q. q \<noteq> 0 \<Longrightarrow> counted H (?S q) (?T q) q"
      using callback_new_move_counted [where S = ?S and T = ?T, OF c] tok [OF o(2)] by (metis add_gr_0)
    have e: "(tokens s)[i := 0, j := tokens s ! j] = tokens s" using o by (metis list_update_id)
    have k: "objs_inv (s\<lparr>states := H\<rparr>)" by (intro I) (use H(2) in simp_all)
    have m: "objs_inv (s\<lparr>tokens := (tokens s)[i := tokens s ! j, j := 0], states := H\<rparr>)"
      by (intro I) (use o H(2) in \<open>simp_all add: uses_move\<close>)
    show ?thesis using H(1)
    proof
      assume "callback_new_move cb (tokens s ! j) (states s) = Some (tokens s ! j, 0, H)"
      with o m show ?thesis unfolding NewCallbackMove by (intro exI conjI) (simp, simp)
    next
      assume "callback_new_move cb (tokens s ! j) (states s) = Some (0, tokens s ! j, H)"
      with o k e show ?thesis unfolding NewCallbackMove by (intro exI conjI) (simp, simp)
    qed
  next
    case (DropCallback cb i)
    then have o: "i < length (tokens s)"
      "tokens s ! i \<noteq> 0 \<longrightarrow> (\<forall>t. states s (tokens s ! i) = Some t \<longrightarrow> fst (cb_unlink cb t))"
      using ok by (simp_all add: fair_op_def)
    obtain H where "callback_destroy cb (tokens s ! i) (states s) = Some H"
      "\<And>p. p \<noteq> 0 \<Longrightarrow> counted H (?S p) (?T p - of_bool (p = tokens s ! i)) p"
      using callback_destroy_counted [where S = ?S and T = ?T, OF c tok [OF o(1)] o(2)] by metis
    with o show ?thesis unfolding DropCallback
      by (intro exI conjI, simp add: with_heap_def, intro I) (simp_all add: uses_set(2))
  qed
qed

lemma stop_runs_inv: "fair_ops xs s \<Longrightarrow> objs_inv s \<Longrightarrow> \<exists>s'. stop_runs xs s = Some s' \<and> objs_inv s'"
proof (induction xs arbitrary: s)
  case (Cons x xs)
  from stop_exec_inv [of x s] Cons.prems obtain s1 where "stop_exec x s = Some s1" "objs_inv s1" by auto
  with Cons.IH [of s1] Cons.prems(1) show ?case by simp
qed simp

lemma length_exec:
  "stop_exec x s = Some s' \<Longrightarrow> length (sources s') = length (sources s) \<and> length (tokens s') = length (tokens s)"
  by (cases x) (auto simp: with_heap_def split: option.splits)

lemma length_runs:
  "stop_runs xs s = Some s' \<Longrightarrow> length (sources s') = length (sources s) \<and> length (tokens s') = length (tokens s)"
  by (induction xs arbitrary: s) (auto split: option.splits dest: length_exec)

lemma stop_possible_count:
  assumes "st_value t = ssrc_counter_inc * of_nat n" and "n < 2 ^ 30"
  shows "st_stop_possible t \<longleftrightarrow> 0 < n"
proof -
  have v: "uint (st_value t) = 4 * int n"
  proof -
    have "st_value t = of_nat (4 * n)" using assms(1) by simp
    moreover have "unat (of_nat (4 * n) :: u32) = 4 * n" using assms(2) by (intro unat_of_nat_fits) simp
    ultimately have "nat (uint (st_value t)) = 4 * n" by (simp only: unat_eq_nat_uint)
    moreover have "int (nat (uint (st_value t))) = uint (st_value t)" by simp
    ultimately show ?thesis by simp
  qed
  then have "st_value t AND 2 = 0" using low_bits(2) [of "st_value t"] by simp
  then have "\<not> (bit (st_value t) k \<and> bit (2 :: u32) k)" for k by (metis bit_and_iff bit_0_eq bot_apply bot_bool_def)
  then have "st_value t AND NOT 2 = st_value t" by (intro bit_word_eqI) (auto simp only: bit_and_iff bit_not_iff possible_bit_word)
  moreover have "st_value t = 0 \<longleftrightarrow> n = 0" using v by (metis mult_eq_0_iff of_nat_eq_0_iff uint_0_iff zero_neq_numeral)
  ultimately show ?thesis by (simp add: st_stop_possible_def)
qed

section \<open>Lifetimes\<close>

definition no_objs :: "nat \<Rightarrow> nat \<Rightarrow> stop_objs" where
  "no_objs m n = \<lparr>sources = replicate m 0, tokens = replicate n 0, states = (\<lambda>_. None)\<rparr>"

text \<open>C25. Sources and tokens that are created, copied, moved and destroyed never touch a state that is
  deleted, every state that is not deleted is referred to by an object, and a token
  says that a stop is possible exactly while there is a source for its state. Programs
  do not move-assign to a source that has a state, and request no stop; callbacks count like tokens
  while they are registered.\<close>

theorem stop_objects_safe:
  assumes "fair_ops xs (no_objs m n)" and "m < 2 ^ 30" and "n < 2 ^ 30"
  shows "\<exists>s. stop_runs xs (no_objs m n) = Some s \<and>
    (\<forall>p. p \<noteq> 0 \<longrightarrow> (states s p \<noteq> None \<longleftrightarrow> p \<in> set (sources s) \<union> set (tokens s)) \<and>
       (token_stop_possible p (states s) \<longleftrightarrow> p \<in> set (sources s)))"
proof -
  have u: "0 < uses xs p \<longleftrightarrow> p \<in> set xs" for xs p by (auto simp: uses_def filter_empty_conv)
  have "uses (replicate k 0) p = 0" if "p \<noteq> 0" for k p using that by (simp add: uses_def)
  then have "objs_inv (no_objs m n)" using assms(2,3) by (simp add: objs_inv_def no_objs_def counted_def)
  from stop_runs_inv [OF assms(1) this] obtain s where s: "stop_runs xs (no_objs m n) = Some s" "objs_inv s" by blast
  have "(states s p \<noteq> None \<longleftrightarrow> p \<in> set (sources s) \<union> set (tokens s)) \<and>
       (token_stop_possible p (states s) \<longleftrightarrow> p \<in> set (sources s))" if p: "p \<noteq> 0" for p
  proof (cases "states s p")
    case None
    with s(2) p have "uses (sources s) p = 0 \<and> uses (tokens s) p = 0" by (auto simp: objs_inv_def counted_def)
    with None u [of "sources s" p] u [of "tokens s" p] show ?thesis by (auto simp: token_stop_possible_def)
  next
    case (Some t)
    have c: "st_value t = ssrc_counter_inc * of_nat (uses (sources s) p)" "0 < uses (sources s) p + uses (tokens s) p"
      using s(2) p Some by (auto simp: objs_inv_def counted_def)
    have "uses (sources s) p < 2 ^ 30"
      using uses_le [of "sources s" p] length_runs [OF s(1)] assms(2) by (simp add: no_objs_def)
    from stop_possible_count [OF c(1) this] c(2) Some p u [of "sources s" p] u [of "tokens s" p] show ?thesis
      by (auto simp: token_stop_possible_def)
  qed
  with s(1) show ?thesis by blast
qed

text \<open>A source, a copy of it and a token; then both sources go.\<close>

lemma no_objs_example:
  "no_objs 2 1 = \<lparr>sources = [0, 0], tokens = [0], states = (\<lambda>_. None)\<rparr>"
  "no_objs 2 (Suc 0) = \<lparr>sources = [0, 0], tokens = [0], states = (\<lambda>_. None)\<rparr>"
  by (simp_all add: no_objs_def numeral_2_eq_2)

theorem stop_objects_safe_witness:
  "\<exists>s. stop_runs [NewSource 0 64, GetToken 0 0, CopySource 1 0, DropSource 0, DropSource 1] (no_objs 2 1) = Some s \<and>
     states s 64 \<noteq> None \<and> \<not> token_stop_possible 64 (states s)"
proof -
  let ?p = "[NewSource 0 64, GetToken 0 0, CopySource 1 0, DropSource 0, DropSource 1]"
  note defs = fair_op_def no_objs_example with_heap_def ref_copy_def source_copy_def source_drop_def on_state_def ref_drop_def
    release_ownership_def new_stop_state_def add_owner_def add_ssrc_def sub_ssrc_def
  have "fair_ops ?p (no_objs 2 1)" by (simp add: defs)
  from stop_objects_safe [OF this] obtain s where s: "stop_runs ?p (no_objs 2 1) = Some s"
    "\<forall>p. p \<noteq> 0 \<longrightarrow> (states s p \<noteq> None \<longleftrightarrow> p \<in> set (sources s) \<union> set (tokens s)) \<and>
       (token_stop_possible p (states s) \<longleftrightarrow> p \<in> set (sources s))" by auto
  from s(1) have "sources s = [0, 0] \<and> tokens s = [64]" by (auto simp: defs)
  with s show ?thesis by auto
qed

text \<open>The defaulted move assignment releases the old state without giving up its count of sources: a state
  whose last source is assigned to says for ever that a stop is possible.\<close>

theorem source_move_assign_leaks:
  assumes "objs_inv s" and "i < length (sources s)" and "j < length (sources s)" and "i \<noteq> j"
    and "sources s ! i = p" and "p \<noteq> 0" and "uses (sources s) p = 1" and "0 < uses (tokens s) p"
  shows "\<exists>s'. stop_exec (MoveAssignSource i j) s = Some s' \<and> p \<notin> set (sources s') \<and>
    token_stop_possible p (states s')"
proof -
  have "counted (states s) 1 (uses (tokens s) p) p" using assms(1,6,7) unfolding objs_inv_def by metis
  then obtain t where t: "states s p = Some t" "st_value t = 4" "st_owners t \<noteq> 1"
    using assms(8) of_nat_one [of "1 + uses (tokens s) p"] by (auto simp: counted_def split: option.splits)
  have "uses ((sources s)[i := sources s ! j, j := 0]) p = 0"
    using uses_move [OF assms(2-4,6)] assms(5,7) by simp
  then have "p \<notin> set ((sources s)[i := sources s ! j, j := 0])" by (auto simp: uses_def filter_empty_conv)
  with t assms(5,6) show ?thesis
    by (simp add: source_move_assign_def ref_move_assign_def ref_drop_def release_ownership_def token_stop_possible_def
        st_stop_possible_def)
qed

theorem source_move_assign_leaks_witness:
  "\<exists>s s'. stop_runs [NewSource 0 64, GetToken 0 0] (no_objs 2 1) = Some s \<and>
     stop_exec (MoveAssignSource 0 1) s = Some s' \<and> 64 \<notin> set (sources s') \<and> token_stop_possible 64 (states s')"
proof -
  let ?p = "[NewSource 0 64, GetToken 0 0]"
  note defs = fair_op_def no_objs_example with_heap_def ref_copy_def on_state_def new_stop_state_def add_owner_def
  have "fair_ops ?p (no_objs 2 1)" by (simp add: defs)
  moreover have "objs_inv (no_objs 2 1)" by (simp add: objs_inv_def no_objs_example counted_def uses_def)
  ultimately obtain s where s: "stop_runs ?p (no_objs 2 1) = Some s" "objs_inv s" using stop_runs_inv by blast
  from s(1) have l: "sources s = [64, 0]" "tokens s = [64]" by (auto simp: defs)
  from source_move_assign_leaks [OF s(2), of 0 1 64] l s(1) show ?thesis by (simp add: uses_def)
qed

end
