(* ===== verification/Type_List.thy ===== *)
theory Type_List
  imports Prelude
begin

text \<open>
  The lists of types of \<^verbatim>\<open>mpl/type_list.hpp\<close>: templates that are evaluated by the compiler, here
  functions on lists. A template parameter that is a predicate or a function on types is a
  function, an instance that is not defined is \<open>None\<close>, and \<open>size_t\<close> is a word of 64 bits.
\<close>

section \<open>The templates\<close>

definition tl_append :: "'t list \<Rightarrow> 't list \<Rightarrow> 't list" where
  "tl_append ts us = ts @ us"

definition tl_prepend :: "'t list \<Rightarrow> 't list \<Rightarrow> 't list" where
  "tl_prepend ts us = us @ ts"

fun tl_head :: "'t list \<Rightarrow> 't option" where
  "tl_head [] = None"
| "tl_head (h # ts) = Some h"

fun tl_tails :: "'t list \<Rightarrow> 't list option" where
  "tl_tails [] = None"
| "tl_tails (h # ts) = Some ts"

fun tl_last :: "'t list \<Rightarrow> 't option" where
  "tl_last [] = None"
| "tl_last [h] = Some h"
| "tl_last (h # h2 # ts) = tl_last (h2 # ts)"

fun tl_drop_last :: "'t list \<Rightarrow> 't list \<Rightarrow> 't list option" where
  "tl_drop_last [] out = None"
| "tl_drop_last [l] out = Some out"
| "tl_drop_last (h # h2 # ts) out = tl_drop_last (h2 # ts) (tl_append out [h])"

definition tl_map :: "('t \<Rightarrow> 'u) \<Rightarrow> 't list \<Rightarrow> 'u list" where
  "tl_map f ts = map f ts"

fun tl_filter_to :: "('t \<Rightarrow> bool) \<Rightarrow> 't list \<Rightarrow> 't list \<Rightarrow> 't list" where
  "tl_filter_to p [] out = out"
| "tl_filter_to p (h # ts) out = (if p h then tl_filter_to p ts (tl_append out [h]) else tl_filter_to p ts out)"

definition tl_filter :: "('t \<Rightarrow> bool) \<Rightarrow> 't list \<Rightarrow> 't list" where
  "tl_filter p ts = tl_filter_to p ts []"

definition tl_remove :: "'t \<Rightarrow> 't list \<Rightarrow> 't list" where
  "tl_remove e ts = tl_filter (\<lambda>t. e \<noteq> t) ts"

definition tl_remove_if :: "('t \<Rightarrow> bool) \<Rightarrow> 't list \<Rightarrow> 't list" where
  "tl_remove_if p ts = tl_filter (\<lambda>t. \<not> p t) ts"

fun tl_fold :: "('a \<Rightarrow> 't \<Rightarrow> 'a) \<Rightarrow> 'a \<Rightarrow> 't list \<Rightarrow> 'a" where
  "tl_fold f acc [] = acc"
| "tl_fold f acc (h # ts) = tl_fold f (f acc h) ts"

fun tl_concat :: "'t list list \<Rightarrow> 't list option" where
  "tl_concat [] = None"
| "tl_concat [xs] = Some xs"
| "tl_concat (xs # ys # rest) = tl_concat ((xs @ ys) # rest)"

text \<open>The fold expressions are left folds.\<close>

definition tl_contain :: "'t list \<Rightarrow> 't \<Rightarrow> bool" where
  "tl_contain ts e = foldl (\<lambda>b t. b \<or> e = t) False ts"

definition tl_npos :: u64 where
  "tl_npos = - 1"

fun tl_find_if_impl :: "('t \<Rightarrow> bool) \<Rightarrow> 't list \<Rightarrow> u64 \<Rightarrow> u64" where
  "tl_find_if_impl p [] offset = tl_npos"
| "tl_find_if_impl p (h # ts) offset = (if p h then offset else tl_find_if_impl p ts (offset + 1))"

fun tl_find_impl :: "'t list \<Rightarrow> 't \<Rightarrow> u64 \<Rightarrow> u64" where
  "tl_find_impl [] e offset = tl_npos"
| "tl_find_impl (h # ts) e offset = (if e = h then offset else tl_find_impl ts e (offset + 1))"

definition tl_find :: "'t list \<Rightarrow> 't \<Rightarrow> u64" where
  "tl_find ts e = tl_find_impl ts e 0"

definition tl_find_if :: "('t \<Rightarrow> bool) \<Rightarrow> 't list \<Rightarrow> u64" where
  "tl_find_if p ts = tl_find_if_impl p ts 0"

definition tl_unique :: "'t list \<Rightarrow> 't list" where
  "tl_unique ts = tl_fold (\<lambda>acc e. if tl_contain acc e then acc else tl_append acc [e]) [] ts"

fun tl_reverse :: "'t list \<Rightarrow> 't list" where
  "tl_reverse [] = []"
| "tl_reverse (t # ts) = tl_append (tl_reverse ts) [t]"

definition tl_count :: "'t list \<Rightarrow> 't \<Rightarrow> u64" where
  "tl_count ts e = ucast (foldl (\<lambda>n t. n + of_bool (e = t)) (0 :: u32) ts)"

fun tl_at :: "'t list \<Rightarrow> nat \<Rightarrow> 't option" where
  "tl_at [] idx = None"
| "tl_at (h # ts) 0 = Some h"
| "tl_at (h # ts) (Suc idx) = tl_at ts idx"

definition tl_first_n :: "'t list \<Rightarrow> nat \<Rightarrow> 't list option" where
  "tl_first_n ts n =
     (if n \<le> length ts then tl_concat (map (\<lambda>(t, i). if i < n then [t] else []) (zip ts [0..<length ts])) else None)"

definition tl_replace :: "'t \<Rightarrow> 't \<Rightarrow> 't list \<Rightarrow> 't list" where
  "tl_replace old new ts = tl_map (\<lambda>t. if t = old then new else t) ts"

definition tl_union_set :: "'t list \<Rightarrow> 't list \<Rightarrow> 't list option" where
  "tl_union_set xs ys = map_option tl_unique (tl_concat [xs, ys])"

definition tl_intersection_set :: "'t list \<Rightarrow> 't list \<Rightarrow> 't list" where
  "tl_intersection_set xs ys = tl_filter (tl_contain xs) ys"

definition tl_difference_set :: "'t list \<Rightarrow> 't list \<Rightarrow> 't list" where
  "tl_difference_set xs ys = tl_remove_if (tl_contain ys) xs"

definition tl_symmetric_difference_set :: "'t list \<Rightarrow> 't list \<Rightarrow> 't list option" where
  "tl_symmetric_difference_set xs ys = tl_concat [tl_difference_set xs ys, tl_difference_set ys xs]"

text \<open>The last parameter has the segments found so far, the current one first.\<close>

fun tl_split_if_to :: "('t \<Rightarrow> bool) \<Rightarrow> 't list \<Rightarrow> 't list list \<Rightarrow> 't list list option" where
  "tl_split_if_to p [] out = Some (tl_reverse (tl_remove [] out))"
| "tl_split_if_to p (h # ts) [] = None"
| "tl_split_if_to p (h # ts) (cur # segs) =
     (if p h then tl_split_if_to p ts ([] # cur # segs)
      else tl_split_if_to p ts (tl_append cur [h] # segs))"

definition tl_split_if :: "('t \<Rightarrow> bool) \<Rightarrow> 't list \<Rightarrow> 't list list option" where
  "tl_split_if p ts = tl_split_if_to p ts [[]]"

definition tl_split :: "'t \<Rightarrow> 't list \<Rightarrow> 't list list option" where
  "tl_split delimiter ts = tl_split_if (\<lambda>e. delimiter = e) ts"

text \<open>\<open>reverse_sequence\<close>: the values of \<open>append<app...>\<close>.\<close>

fun rs_append :: "'t list \<Rightarrow> 't list \<Rightarrow> 't list" where
  "rs_append [] app = app"
| "rs_append (idx # idxs) app = rs_append idxs (idx # app)"

fun reverse_sequence :: "'t list \<Rightarrow> 't list" where
  "reverse_sequence [] = []"
| "reverse_sequence (idx # idxs) = rs_append idxs [idx]"

section \<open>The templates as functions of the library\<close>

lemma tl_filter_filter: "tl_filter p ts = filter p ts"
proof -
  have "tl_filter_to p ts out = out @ filter p ts" for out
    by (induction ts arbitrary: out) (simp_all add: tl_append_def)
  then show ?thesis by (simp add: tl_filter_def)
qed

lemma tl_fold_foldl: "tl_fold f a ts = foldl f a ts"
  by (induction ts arbitrary: a) simp_all

lemma tl_contain_set: "tl_contain ts e \<longleftrightarrow> e \<in> set ts"
proof -
  have "foldl (\<lambda>b t. b \<or> e = t) b ts \<longleftrightarrow> b \<or> e \<in> set ts" for b
    by (induction ts arbitrary: b) auto
  then show ?thesis by (simp add: tl_contain_def)
qed

lemma tl_concat_concat: "tl_concat xss = (if xss = [] then None else Some (concat xss))"
  by (induction xss rule: tl_concat.induct) simp_all

lemma tl_reverse_rev: "tl_reverse ts = rev ts"
  by (induction ts) (simp_all add: tl_append_def)

lemma tl_last_last: "tl_last ts = (if ts = [] then None else Some (last ts))"
  by (induction ts rule: tl_last.induct) simp_all

lemma tl_drop_last_butlast: "tl_drop_last ts out = (if ts = [] then None else Some (out @ butlast ts))"
  by (induction ts out rule: tl_drop_last.induct) (simp_all add: tl_append_def)

lemma tl_at_nth: "tl_at ts i = (if i < length ts then Some (ts ! i) else None)"
  by (induction ts i rule: tl_at.induct) simp_all

lemma tl_unique_snoc:
  "tl_unique (ts @ [e]) = (if e \<in> set (tl_unique ts) then tl_unique ts else tl_unique ts @ [e])"
  by (simp add: tl_unique_def tl_fold_foldl tl_contain_set tl_append_def)

lemma tl_unique_spec: "set (tl_unique ts) = set ts \<and> distinct (tl_unique ts) \<and> (distinct ts \<longrightarrow> tl_unique ts = ts)"
proof (induction ts rule: rev_induct)
  case Nil
  show ?case by (simp add: tl_unique_def)
next
  case (snoc e ts)
  then show ?case by (auto simp: tl_unique_snoc)
qed

lemma tl_count_count:
  assumes "length ts < 2 ^ 32"
  shows "unat (tl_count ts e) = length (filter (\<lambda>t. e = t) ts)"
proof -
  have "foldl (\<lambda>n t. n + of_bool (e = t)) n ts = n + of_nat (length (filter (\<lambda>t. e = t) ts))" for n :: u32
    by (induction ts arbitrary: n) simp_all
  then have "tl_count ts e = ucast (of_nat (length (filter (\<lambda>t. e = t) ts)) :: u32)" by (simp add: tl_count_def)
  moreover have "length (filter (\<lambda>t. e = t) ts) < 2 ^ 32"
    using assms length_filter_le [of "\<lambda>t. e = t" ts] by linarith
  then have "unat (of_nat (length (filter (\<lambda>t. e = t) ts)) :: u32) = length (filter (\<lambda>t. e = t) ts)"
    by (intro unat_of_nat_fits) simp
  moreover have "unat (ucast w :: u64) = unat w" for w :: u32
    using unsigned_less [of w, where 'a = nat] by (simp add: unsigned_ucast_eq take_bit_nat_eq_self)
  ultimately show ?thesis by simp
qed

lemma tl_first_n_take: "tl_first_n ts n = (if ts = [] \<or> length ts < n then None else Some (take n ts))"
proof -
  have "concat (map (\<lambda>(t, i). if i < n then [t] else []) (zip ts [k..<k + length ts])) = take (n - k) ts" for k
  proof (induction ts arbitrary: k)
    case (Cons t ts)
    have "[k..<k + length (t # ts)] = k # [Suc k..<Suc k + length ts]" by (simp add: upt_rec)
    with Cons.IH [of "Suc k"] show ?case by (cases "k < n") (auto simp: take_Cons' Suc_diff_Suc)
  qed simp
  from this [of 0] show ?thesis by (auto simp: tl_first_n_def tl_concat_concat)
qed

lemma tl_find_spec:
  assumes "length ts < 2 ^ 64 - 1"
  shows "tl_find ts e = tl_npos \<longleftrightarrow> e \<notin> set ts"
    and "e \<in> set ts \<Longrightarrow> unat (tl_find ts e) < length ts \<and> ts ! unat (tl_find ts e) = e \<and>
      e \<notin> set (take (unat (tl_find ts e)) ts)"
proof -
  have "tl_find_impl ts e k = k + of_nat (length (takeWhile (\<lambda>t. t \<noteq> e) ts)) \<or> e \<notin> set ts" for k
    by (induction ts arbitrary: k) auto
  from this [of 0] have f: "e \<in> set ts \<Longrightarrow> tl_find ts e = of_nat (length (takeWhile (\<lambda>t. t \<noteq> e) ts))"
    by (auto simp: tl_find_def)
  have n: "e \<notin> set ts \<Longrightarrow> tl_find_impl ts e k = tl_npos" for k by (induction ts arbitrary: k) auto
  have u: "unat (tl_find ts e) = length (takeWhile (\<lambda>t. t \<noteq> e) ts)" if "e \<in> set ts"
    unfolding f [OF that] using assms length_takeWhile_le [of "\<lambda>t. t \<noteq> e" ts]
    by (intro unat_of_nat_fits) simp
  have m: "unat tl_npos = 2 ^ 64 - 1" by (simp add: tl_npos_def unsigned_minus_1_eq_mask mask_eq_exp_minus_1)
  show "tl_find ts e = tl_npos \<longleftrightarrow> e \<notin> set ts"
    using u m n [of 0] assms length_takeWhile_le [of "\<lambda>t. t \<noteq> e" ts] by (fastforce simp: tl_find_def)
  show "unat (tl_find ts e) < length ts \<and> ts ! unat (tl_find ts e) = e \<and> e \<notin> set (take (unat (tl_find ts e)) ts)"
    if e: "e \<in> set ts"
  proof -
    have "takeWhile (\<lambda>t. t \<noteq> e) ts \<noteq> ts" using e by (metis set_takeWhileD)
    then have l: "length (takeWhile (\<lambda>t. t \<noteq> e) ts) < length ts"
      by (metis length_takeWhile_le le_neq_implies_less takeWhile_eq_take take_all_iff order_refl)
    then have "ts ! length (takeWhile (\<lambda>t. t \<noteq> e) ts) = e" using nth_length_takeWhile by fastforce
    moreover have "take (length (takeWhile (\<lambda>t. t \<noteq> e) ts)) ts = takeWhile (\<lambda>t. t \<noteq> e) ts"
      by (metis takeWhile_eq_take)
    moreover have "e \<notin> set (takeWhile (\<lambda>t. t \<noteq> e) ts)" by (auto dest: set_takeWhileD)
    ultimately show ?thesis using l by (simp add: u [OF e])
  qed
qed

text \<open>The first occurrence of every type is the one that is kept: \<open>remdups\<close> keeps the last one, and
  the list is taken from its end.\<close>

lemma tl_unique_remdups: "tl_unique ts = rev (remdups (rev ts))"
proof (induction ts rule: rev_induct)
  case Nil
  show ?case by (simp add: tl_unique_def tl_fold_foldl)
next
  case (snoc e ts)
  then show ?case by (simp add: tl_unique_snoc)
qed

lemma tl_set_operations:
  "tl_union_set ts ts' = Some (tl_unique (ts @ ts'))"
  "tl_intersection_set ts ts' = filter (\<lambda>t. t \<in> set ts) ts'"
  "tl_difference_set ts ts' = filter (\<lambda>t. t \<notin> set ts') ts"
  "tl_symmetric_difference_set ts ts' = Some (filter (\<lambda>t. t \<notin> set ts') ts @ filter (\<lambda>t. t \<notin> set ts) ts')"
proof -
  have c: "tl_contain us = (\<lambda>t. t \<in> set us)" for us :: "'a list" by (simp add: fun_eq_iff tl_contain_set)
  show "tl_union_set ts ts' = Some (tl_unique (ts @ ts'))" by (simp add: tl_union_set_def)
  show "tl_intersection_set ts ts' = filter (\<lambda>t. t \<in> set ts) ts'"
    by (simp add: tl_intersection_set_def tl_filter_filter c)
  have d: "tl_difference_set us vs = filter (\<lambda>t. t \<notin> set vs) us" for us vs :: "'a list"
    by (simp add: tl_difference_set_def tl_remove_if_def tl_filter_filter c)
  show "tl_difference_set ts ts' = filter (\<lambda>t. t \<notin> set ts') ts" by (rule d)
  show "tl_symmetric_difference_set ts ts' = Some (filter (\<lambda>t. t \<notin> set ts') ts @ filter (\<lambda>t. t \<notin> set ts) ts')"
    by (simp add: tl_symmetric_difference_set_def d)
qed

lemma tl_remove_filter: "tl_remove e ts = filter (\<lambda>t. e \<noteq> t) ts"
  by (simp add: tl_remove_def tl_filter_filter)

lemma reverse_sequence_rev: "reverse_sequence ts = rev ts"
proof -
  have "rs_append xs ys = rev xs @ ys" for xs ys :: "'a list" by (induction xs arbitrary: ys) simp_all
  then show ?thesis by (cases ts) simp_all
qed

text \<open>Splitting, as a reader would say it: a list is cut at every delimiter, which gives one piece
  more than there are delimiters.\<close>

fun cut_at :: "('t \<Rightarrow> bool) \<Rightarrow> 't list \<Rightarrow> 't list list" where
  "cut_at p [] = [[]]"
| "cut_at p (t # ts) = (if p t then [] # cut_at p ts else (t # hd (cut_at p ts)) # tl (cut_at p ts))"

lemma cut_at_not_Nil [simp]: "cut_at p ts \<noteq> []"
  by (cases ts) simp_all

lemma cut_at_pieces:
  "length (cut_at p ts) = Suc (length (filter p ts)) \<and> concat (cut_at p ts) = filter (\<lambda>t. \<not> p t) ts"
proof (induction ts)
  case (Cons t ts)
  then show ?case by (cases "cut_at p ts") auto
qed simp

lemma tl_split_if_to_cut:
  "tl_split_if_to p ts (cur # segs) =
   Some (filter (\<lambda>s. [] \<noteq> s) (rev segs @ (cur @ hd (cut_at p ts)) # tl (cut_at p ts)))"
proof (induction ts arbitrary: cur segs)
  case Nil
  show ?case by (simp add: tl_reverse_rev tl_remove_filter rev_filter [symmetric])
next
  case (Cons t ts)
  show ?case by (cases "cut_at p ts") (simp_all add: Cons.IH tl_append_def)
qed

lemma tl_split_if_cut: "tl_split_if p ts = Some (filter (\<lambda>s. [] \<noteq> s) (cut_at p ts))"
  by (cases "cut_at p ts") (simp_all add: tl_split_if_def tl_split_if_to_cut)

text \<open>C26. The templates compute what their names say. Filtering, removing, reversal, prefixes and access
  are those of lists, and concatenation joins any positive number of lists (a concatenation of
  none and a prefix of the empty list have no value). \<open>unique\<close> keeps the first of equal types in the
  order of the list. The union is the concatenation made unique; the intersection is the second
  list without the types that are not in the first, the difference the first without those of
  the second, the symmetric difference both differences in turn (these three keep repetitions).
  Splitting cuts the list at every delimiter and drops the empty pieces.\<close>

theorem type_list_spec:
  "tl_filter p ts = filter p ts \<and> tl_remove d ts = filter (\<lambda>t. d \<noteq> t) ts \<and>
   tl_reverse ts = rev ts \<and> reverse_sequence ts = rev ts \<and>
   tl_at ts i = (if i < length ts then Some (ts ! i) else None) \<and>
   tl_first_n ts n = (if ts = [] \<or> length ts < n then None else Some (take n ts)) \<and>
   tl_concat tss = (if tss = [] then None else Some (concat tss)) \<and>
   tl_unique ts = rev (remdups (rev ts)) \<and>
   tl_union_set ts ts' = Some (rev (remdups (rev (ts @ ts')))) \<and>
   tl_intersection_set ts ts' = filter (\<lambda>t. t \<in> set ts) ts' \<and>
   tl_difference_set ts ts' = filter (\<lambda>t. t \<notin> set ts') ts \<and>
   tl_symmetric_difference_set ts ts' =
     Some (filter (\<lambda>t. t \<notin> set ts') ts @ filter (\<lambda>t. t \<notin> set ts) ts') \<and>
   tl_split d ts = Some (filter (\<lambda>s. [] \<noteq> s) (cut_at (\<lambda>t. d = t) ts))"
  by (simp add: tl_filter_filter tl_remove_filter tl_reverse_rev reverse_sequence_rev tl_at_nth
      tl_first_n_take tl_concat_concat tl_unique_remdups tl_set_operations tl_split_def tl_split_if_cut
      del: rev_append)

end
