(* ===== verification/When_All.thy ===== *)
theory When_All
  imports Type_List
begin

text \<open>
  Waiting for all tasks of a list, \<^verbatim>\<open>co/when_all.hpp\<close>. Each task runs in a coroutine of its own that
  stores the result in its place of a buffer and then counts down; the last one wakes the
  coroutine that waits. The result of the \<open>i\<close>-th task is a parameter \<open>res i\<close>; the coroutines of
  the tasks run on one \<open>io_context\<close> and interleave at every step. With \<open>safety::safe\<close> the count
  is an atomic variable, but its decrements are relaxed: on several threads the results of a task
  and the wake-up are not ordered (the note at \<^verbatim>\<open>when_all.hpp:22\<close>, and the theory of the memory
  orders of \<open>all\<close>, which shows the race), so nothing is said of that use here.
\<close>

section \<open>The buffer\<close>

definition all_out_types :: "'t \<Rightarrow> 't list \<Rightarrow> 't list" where
  "all_out_types void ts = tl_remove void ts"

definition all_buffer_offset :: "'t \<Rightarrow> 't list \<Rightarrow> nat \<Rightarrow> u64 option" where
  "all_buffer_offset void ts idx = map_option (\<lambda>us. of_nat idx - tl_count us void) (tl_first_n ts (idx + 1))"

lemma filter_take_nth:
  "i < length xs \<Longrightarrow> P (xs ! i) \<Longrightarrow>
   length (filter P (take i xs)) < length (filter P xs) \<and> filter P xs ! length (filter P (take i xs)) = xs ! i"
proof (induction xs arbitrary: i)
  case (Cons x xs)
  then show ?case by (cases i) auto
qed simp

lemma all_buffer_offset_eq:
  assumes "idx < length ts" and "length ts < 2 ^ 32" and "ts ! idx \<noteq> void"
  shows "all_buffer_offset void ts idx = Some (of_nat (length (filter (\<lambda>t. t \<noteq> void) (take idx ts))))"
proof -
  let ?us = "take (idx + 1) ts"
  have us: "?us = take idx ts @ [ts ! idx]" using assms(1) by (simp add: take_Suc_conv_app_nth)
  have "length ?us < 2 ^ 32" using assms(2) by simp
  from tl_count_count [OF this, of void] have c: "unat (tl_count ?us void) = length (filter (\<lambda>t. t = void) (take idx ts))"
    using assms(3) us by (simp add: eq_commute)
  have "length (filter (\<lambda>t. t = void) (take idx ts)) + length (filter (\<lambda>t. t \<noteq> void) (take idx ts)) = idx"
    using sum_length_filter_compl [of "\<lambda>t. t = void" "take idx ts"] assms(1) by simp
  then have "idx = unat (tl_count ?us void) + length (filter (\<lambda>t. t \<noteq> void) (take idx ts))" using c by simp
  then have "(of_nat idx :: u64) = tl_count ?us void + of_nat (length (filter (\<lambda>t. t \<noteq> void) (take idx ts)))"
    by (metis of_nat_add of_nat_unat ucast_id)
  moreover have "tl_first_n ts (idx + 1) = Some ?us" using assms(1) by (auto simp: tl_first_n_take)
  ultimately show ?thesis by (simp add: all_buffer_offset_def)
qed

lemma all_out_filter: "all_out_types void ts = filter (\<lambda>t. t \<noteq> void) ts"
  by (simp add: all_out_types_def tl_remove_def tl_filter_filter) (metis (mono_tags, lifting) filter_cong)

text \<open>C27. The place of a task in the buffer has the type of its result: for every task that returns
  a value, the last one included, \<open>buffer_offset_v\<close> is an index of the list of result types, the
  type there is that of the task, it is the number of tasks before it that return a value, and
  every such task has a smaller place, so that different tasks have different places in the order
  of the tasks. (There are fewer than \<open>2^32\<close> tasks.)\<close>

theorem all_buffer_typed:
  assumes "idx < length ts" and "length ts < 2 ^ 32" and "ts ! idx \<noteq> void"
  shows "\<exists>m. all_buffer_offset void ts idx = Some m \<and> unat m < length (all_out_types void ts) \<and>
    all_out_types void ts ! unat m = ts ! idx \<and> unat m = length (filter (\<lambda>t. t \<noteq> void) (take idx ts)) \<and>
    (\<forall>j<idx. ts ! j \<noteq> void \<longrightarrow> (\<exists>n. all_buffer_offset void ts j = Some n \<and> n < m))"
proof -
  let ?f = "\<lambda>i. length (filter (\<lambda>t. t \<noteq> void) (take i ts))"
  have b: "?f i < 2 ^ 64" for i
    using assms(2) length_filter_le [of "\<lambda>t. t \<noteq> void" "take i ts"] by simp
  then have u: "unat (of_nat (?f i) :: u64) = ?f i" for i by (intro unat_of_nat_fits) simp
  note nth = filter_take_nth [of idx ts "\<lambda>t. t \<noteq> void", OF assms(1,3)]
  have "\<exists>n. all_buffer_offset void ts j = Some n \<and> n < of_nat (?f idx)" if j: "j < idx" "ts ! j \<noteq> void" for j
  proof -
    have "?f j < ?f idx"
      using filter_take_nth [of j "take idx ts" "\<lambda>t. t \<noteq> void"] j assms(1) by (simp add: min_def)
    moreover have "j < length ts" using j(1) assms(1) by simp
    ultimately show ?thesis using all_buffer_offset_eq [OF _ assms(2) j(2)] u [of j] u [of idx] by (simp add: word_less_nat_alt)
  qed
  then show ?thesis using all_buffer_offset_eq [OF assms] nth u [of idx] by (simp add: all_out_filter)
qed

text \<open>Tasks that return nothing, an \<open>int\<close>, nothing, a \<open>double\<close>: the place of the last one.\<close>

theorem all_buffer_typed_witness:
  "\<exists>m. all_buffer_offset ''void'' [''void'', ''int'', ''void'', ''double''] 3 = Some m \<and> unat m = 1 \<and>
     all_out_types ''void'' [''void'', ''int'', ''void'', ''double''] ! unat m = ''double''"
proof -
  let ?ts = "[''void'', ''int'', ''void'', ''double'']"
  have "?ts ! 3 = ''double''" "take 3 ?ts = [''void'', ''int'', ''void'']" by (simp_all add: numeral_3_eq_3)
  with all_buffer_typed [of 3 ?ts "''void''"] show ?thesis by auto
qed

section \<open>The tasks\<close>

datatype all_pc = AllRun | AllBuilt | AllEnd

record 'v all_meta =
  all_wait_num :: u32
  all_buffer :: "nat \<Rightarrow> 'v option"
  all_woken :: nat            \<comment> \<open>how often the waiting coroutine was spawned\<close>
  all_pcs :: "nat \<Rightarrow> all_pc"

definition all_meta_new :: "nat \<Rightarrow> 'v all_meta" where
  "all_meta_new n = \<lparr>all_wait_num = of_nat n, all_buffer = (\<lambda>_. None), all_woken = 0, all_pcs = (\<lambda>_. AllRun)\<rparr>"

definition all_count_down :: "'v all_meta \<Rightarrow> 'v all_meta" where
  "all_count_down m =
     (let need_wakeup = all_wait_num m = 1; m = m\<lparr>all_wait_num := all_wait_num m - 1\<rparr>
      in if need_wakeup then m\<lparr>all_woken := all_woken m + 1\<rparr> else m)"

text \<open>A task without a result has no place.\<close>

definition all_construct :: "u64 option \<Rightarrow> 'v \<Rightarrow> 'v all_meta \<Rightarrow> 'v all_meta" where
  "all_construct place v m =
     (case place of None \<Rightarrow> m | Some k \<Rightarrow> m\<lparr>all_buffer := (all_buffer m)(unat k := Some v)\<rparr>)"

inductive all_step :: "'t \<Rightarrow> 't list \<Rightarrow> (nat \<Rightarrow> 'v) \<Rightarrow> 'v all_meta \<Rightarrow> 'v all_meta \<Rightarrow> bool"
  for void :: 't and ts :: "'t list" and res :: "nat \<Rightarrow> 'v" where
  all_node: "i < length ts \<Longrightarrow> all_pcs m i = AllRun \<Longrightarrow>
     all_step void ts res m
       ((all_construct (if ts ! i = void then None else all_buffer_offset void ts i) (res i) m)
          \<lparr>all_pcs := (all_pcs m)(i := AllBuilt)\<rparr>)"
| all_counted: "i < length ts \<Longrightarrow> all_pcs m i = AllBuilt \<Longrightarrow>
     all_step void ts res m ((all_count_down m)\<lparr>all_pcs := (all_pcs m)(i := AllEnd)\<rparr>)"

inductive all_reachable :: "'t \<Rightarrow> 't list \<Rightarrow> (nat \<Rightarrow> 'v) \<Rightarrow> 'v all_meta \<Rightarrow> bool"
  for void :: 't and ts :: "'t list" and res :: "nat \<Rightarrow> 'v" where
  all_begin: "all_reachable void ts res (all_meta_new (length ts))"
| all_next: "all_reachable void ts res m \<Longrightarrow> all_step void ts res m m' \<Longrightarrow> all_reachable void ts res m'"

text \<open>The value of \<open>all(...)\<close> when the waiting coroutine goes on.\<close>

definition all_result :: "'t \<Rightarrow> 't list \<Rightarrow> 'v all_meta \<Rightarrow> 'v option list" where
  "all_result void ts m = map (all_buffer m) [0..<length (all_out_types void ts)]"

abbreviation all_open :: "'t list \<Rightarrow> 'v all_meta \<Rightarrow> nat set" where
  "all_open ts m \<equiv> {i. i < length ts \<and> all_pcs m i \<noteq> AllEnd}"

abbreviation (input) all_place :: "'t \<Rightarrow> 't list \<Rightarrow> nat \<Rightarrow> nat" where
  "all_place void ts i \<equiv> length (filter (\<lambda>t. t \<noteq> void) (take i ts))"

definition all_inv :: "'t \<Rightarrow> 't list \<Rightarrow> (nat \<Rightarrow> 'v) \<Rightarrow> 'v all_meta \<Rightarrow> bool" where
  "all_inv void ts res m \<longleftrightarrow> all_wait_num m = of_nat (card (all_open ts m)) \<and>
     all_woken m = of_bool (all_open ts m = {}) \<and>
     (\<forall>i<length ts. all_pcs m i \<noteq> AllRun \<and> ts ! i \<noteq> void \<longrightarrow> all_buffer m (all_place void ts i) = Some (res i))"

lemma all_place_inj:
  assumes "i < length ts" and "j < length ts" and "ts ! i \<noteq> void" and "ts ! j \<noteq> void"
    and "all_place void ts i = all_place void ts j"
  shows "i = j"
proof (rule ccontr)
  have lt: "all_place void ts i < all_place void ts j"
    if "i < j" "j < length ts" "ts ! i \<noteq> void" for i j
    using filter_take_nth [of i "take j ts" "\<lambda>t. t \<noteq> void"] that by (simp add: min_def)
  assume "i \<noteq> j"
  with lt [of i j] lt [of j i] assms show False by (metis linorder_neqE_nat less_irrefl)
qed

lemma all_open_end:
  assumes "i < length ts" and "all_pcs m i \<noteq> AllEnd" and "all_pcs m' = (all_pcs m)(i := AllEnd)"
  shows "all_open ts m' = all_open ts m - {i}" and "card (all_open ts m) = Suc (card (all_open ts m'))"
proof -
  show e: "all_open ts m' = all_open ts m - {i}" using assms(3) by auto
  have "finite (all_open ts m)" "i \<in> all_open ts m" using assms(1,2) by auto
  then show "card (all_open ts m) = Suc (card (all_open ts m'))" unfolding e by (simp only: card_Suc_Diff1)
qed

lemma all_step_inv:
  assumes "all_step void ts res m m'" and inv: "all_inv void ts res m" and n: "length ts < 2 ^ 32"
  shows "all_inv void ts res m'"
  using assms(1)
proof cases
  case (all_node i)
  let ?place = "if ts ! i = void then None else all_buffer_offset void ts i"
  have same: "all_wait_num m' = all_wait_num m" "all_woken m' = all_woken m"
    "all_pcs m' = (all_pcs m)(i := AllBuilt)"
    unfolding all_node(1) by (simp_all add: all_construct_def split: option.split)
  have op: "all_open ts m' = all_open ts m" using all_node(3) by (auto simp: same)
  have "all_buffer m' (all_place void ts j) = Some (res j)"
    if j: "j < length ts" "all_pcs m' j \<noteq> AllRun" "ts ! j \<noteq> void" for j
  proof (cases "ts ! i = void")
    case True
    then have "i \<noteq> j" using j by auto
    then show ?thesis using inv j True same(3) by (simp add: all_inv_def all_node(1) all_construct_def)
  next
    case False
    have "length (filter (\<lambda>t. t \<noteq> void) (take i ts)) < 2 ^ 64"
      using length_filter_le [of "\<lambda>t. t \<noteq> void" "take i ts"] n by simp
    then have u: "unat (of_nat (all_place void ts i) :: u64) = all_place void ts i" by (intro unat_of_nat_fits) simp
    have b: "all_buffer m' = (all_buffer m)(all_place void ts i := Some (res i))"
      using False all_buffer_offset_eq [OF all_node(2) n False] u
      by (simp add: all_node(1) all_construct_def)
    show ?thesis
    proof (cases "i = j")
      case True
      then show ?thesis by (simp add: b)
    next
      case ne: False
      then have "all_place void ts i \<noteq> all_place void ts j"
        using all_place_inj [OF all_node(2) j(1) False j(3)] by blast
      then show ?thesis using inv j ne same(3) by (simp add: all_inv_def b)
    qed
  qed
  then show ?thesis using inv same op by (simp add: all_inv_def)
next
  case (all_counted i)
  have pcs: "all_pcs m' = (all_pcs m)(i := AllEnd)" and buf: "all_buffer m' = all_buffer m"
    using all_counted(1) by (simp_all add: all_count_down_def Let_def)
  note op = all_open_end [OF all_counted(2) _ pcs] all_counted(3)
  have card: "card (all_open ts m) = Suc (card (all_open ts m'))" using op by simp
  have "card (all_open ts m) \<le> card {..<length ts}" by (intro card_mono) auto
  then have lt: "card (all_open ts m) < 2 ^ 32" using n by simp
  have num: "all_wait_num m = of_nat (card (all_open ts m))" and wk: "all_woken m = of_bool (all_open ts m = {})"
    using inv by (simp_all add: all_inv_def)
  have "unat (all_wait_num m) = card (all_open ts m)" unfolding num using lt by (intro unat_of_nat_fits) simp
  then have "all_wait_num m = 1 \<longleftrightarrow> card (all_open ts m') = 0" using card by (simp add: word_unat_eq_iff)
  moreover have "card (all_open ts m') = 0 \<longleftrightarrow> all_open ts m' = {}" by (simp add: card_eq_0_iff)
  moreover have "all_open ts m \<noteq> {}" using card by (metis card.empty nat.distinct(1))
  ultimately have "all_woken m' = of_bool (all_open ts m' = {})"
    using all_counted(1) wk by (auto simp: all_count_down_def Let_def)
  moreover have "all_wait_num m' = all_wait_num m - 1" by (simp add: all_counted(1) all_count_down_def Let_def)
  then have "all_wait_num m' = of_nat (card (all_open ts m'))" using num card by simp
  moreover have "all_buffer m' (all_place void ts j) = Some (res j)"
    if "j < length ts" "all_pcs m' j \<noteq> AllRun" "ts ! j \<noteq> void" for j
    using inv that all_counted(3) by (auto simp: all_inv_def buf pcs split: if_splits)
  ultimately show ?thesis by (simp add: all_inv_def)
qed

text \<open>C28. \<open>all\<close> joins its tasks when they run on one \<open>io_context\<close> (on one thread, or with accesses that
  are sequentially consistent: the relaxed count-down on several threads races, and is not
  covered): in whatever order their steps come, the waiting coroutine is spawned exactly once, when every task has counted down, never before, and what it reads are the results
  of the tasks that return a value, in the order of the tasks.\<close>

theorem all_joins:
  assumes "all_reachable void ts res m" and "ts \<noteq> []" and "length ts < 2 ^ 32"
  shows "all_woken m = of_bool (\<forall>i<length ts. all_pcs m i = AllEnd) \<and>
    (all_woken m = 1 \<longrightarrow>
       all_result void ts m = map (Some \<circ> res) (filter (\<lambda>i. ts ! i \<noteq> void) [0..<length ts]))"
proof -
  from assms(1) have inv: "all_inv void ts res m"
  proof (induction rule: all_reachable.induct)
    case all_begin
    have "{i. i < length ts} = {..<length ts}" by auto
    then show ?case using assms(2) by (auto simp: all_inv_def all_meta_new_def)
  next
    case (all_next m m')
    show ?case by (rule all_step_inv [OF all_next.hyps(2) all_next.IH assms(3)])
  qed
  have op: "all_open ts m = {} \<longleftrightarrow> (\<forall>i<length ts. all_pcs m i = AllEnd)" by auto
  have "all_result void ts m = map (Some \<circ> res) (filter (\<lambda>i. ts ! i \<noteq> void) [0..<length ts])"
    if e: "\<forall>i<length ts. all_pcs m i = AllEnd"
  proof -
    have "map (all_buffer m) [0..<length (filter (\<lambda>t. t \<noteq> void) (take k ts))] =
        map (Some \<circ> res) (filter (\<lambda>i. ts ! i \<noteq> void) [0..<k])" if "k \<le> length ts" for k
      using that
    proof (induction k)
      case (Suc k)
      then have "k < length ts" "take (Suc k) ts = take k ts @ [ts ! k]" by (simp_all add: take_Suc_conv_app_nth)
      moreover from this(1) e inv have "ts ! k \<noteq> void \<Longrightarrow> all_buffer m (all_place void ts k) = Some (res k)"
        by (simp add: all_inv_def)
      ultimately show ?case using Suc by simp
    qed simp
    from this [of "length ts"] show ?thesis by (simp add: all_result_def all_out_filter)
  qed
  moreover have "all_woken m = of_bool (\<forall>i<length ts. all_pcs m i = AllEnd)"
    using inv unfolding all_inv_def op by blast
  ultimately show ?thesis by (cases "\<forall>i<length ts. all_pcs m i = AllEnd") simp_all
qed

text \<open>Two tasks, the second of which ends first.\<close>

theorem all_joins_witness:
  "\<exists>m. all_reachable ''void'' [''int'', ''int''] (\<lambda>i. i + 5) m \<and> all_woken m = 1 \<and>
     all_result ''void'' [''int'', ''int''] m = [Some 5, Some 6]"
proof -
  let ?ts = "[''int'', ''int'']" and ?res = "\<lambda>i. i + 5 :: nat"
  let ?reach = "all_reachable ''void'' ?ts ?res"
  have run: "\<exists>m'. ?reach m' \<and> all_pcs m' = (all_pcs m)(i := AllBuilt)"
    if "?reach m" "i < length ?ts" "all_pcs m i = AllRun" for m i
    using all_next [OF that(1) all_node [OF that(2,3)]] by (intro exI conjI, assumption) simp
  have ends: "\<exists>m'. ?reach m' \<and> all_pcs m' = (all_pcs m)(i := AllEnd)"
    if "?reach m" "i < length ?ts" "all_pcs m i = AllBuilt" for m i
    using all_next [OF that(1) all_counted [OF that(2,3)]] by (intro exI conjI, assumption) simp
  have "?reach (all_meta_new (length ?ts))" by (rule all_begin)
  from run [OF this, of 1] obtain m1 where m1: "?reach m1" "all_pcs m1 = (\<lambda>_. AllRun)(1 := AllBuilt)"
    by (auto simp: all_meta_new_def)
  from ends [OF m1(1), of 1] m1(2) obtain m2 where m2: "?reach m2" "all_pcs m2 = (\<lambda>_. AllRun)(1 := AllEnd)" by auto
  from run [OF m2(1), of 0] m2(2) obtain m3 where
    m3: "?reach m3" "all_pcs m3 = (\<lambda>_. AllRun)(1 := AllEnd, 0 := AllBuilt)" by auto
  from ends [OF m3(1), of 0] m3(2) obtain m4 where
    m4: "?reach m4" "all_pcs m4 = (\<lambda>_. AllRun)(1 := AllEnd, 0 := AllEnd)" by auto
  have f: "filter (\<lambda>i. ?ts ! i \<noteq> ''void'') [0..<length ?ts] = [0, 1]" by (simp add: upt_rec)
  have "\<forall>i<length ?ts. all_pcs m4 i = AllEnd" using m4(2) by (auto simp: less_Suc_eq)
  with all_joins [OF m4(1)] have "all_woken m4 = 1 \<and> all_result ''void'' ?ts m4 = [Some 5, Some 6]"
    unfolding f by simp
  with m4(1) show ?thesis by blast
qed

end
