(* ===== verification/When_Any.thy ===== *)
theory When_Any
  imports Type_List
begin

text \<open>
  Waiting for the first task of a list, or for the first ones, \<^verbatim>\<open>co/when_any.hpp\<close>. Each task runs in
  a coroutine of its own, which gives up at its start when enough tasks have already ended, and
  otherwise runs its task and counts itself in. The result of the \<open>i\<close>-th task is a parameter
  \<open>res i\<close>. A coroutine is a sequence of steps, one per access to the shared object; a schedule is
  the list of the coroutines that take the next step.
\<close>

section \<open>The value of a task\<close>

text \<open>
  The buffer is a variant of the types of the tasks; \<open>None\<close> is the alternative
  \<^verbatim>\<open>monostate\<close>, which a task of type \<^verbatim>\<open>void\<close> leaves in place.
\<close>

type_synonym ('t, 'v) any_variant = "('t \<times> 'v) option"

definition any_variant_types :: "'t \<Rightarrow> 't \<Rightarrow> 't list \<Rightarrow> 't list" where
  "any_variant_types void monostate ts = tl_prepend (tl_remove void ts) [monostate]"

definition any_is_all_void :: "'t \<Rightarrow> 't list \<Rightarrow> bool" where
  "any_is_all_void void ts \<longleftrightarrow> tl_count ts void = of_nat (length ts)"

text \<open>The assignment of a value is defined when its type is one alternative only.\<close>

definition any_assign :: "'t \<Rightarrow> 't \<Rightarrow> 't list \<Rightarrow> 't \<Rightarrow> 'v \<Rightarrow> ('t, 'v) any_variant option" where
  "any_assign void monostate ts t v =
     (if tl_count (any_variant_types void monostate ts) t = 1 then Some (Some (t, v)) else None)"

definition any_instantiable :: "'t \<Rightarrow> 't \<Rightarrow> 't list \<Rightarrow> bool" where
  "any_instantiable void monostate ts \<longleftrightarrow> 2 \<le> length ts \<and>
     (\<forall>t\<in>set ts. t = void \<or> (\<forall>v :: unit. any_assign void monostate ts t v \<noteq> None))"

definition any_value :: "'t \<Rightarrow> 't list \<Rightarrow> (nat \<Rightarrow> 'v) \<Rightarrow> nat \<Rightarrow> ('t, 'v) any_variant" where
  "any_value void ts res i = (if ts ! i = void then None else Some (ts ! i, res i))"

section \<open>The first task\<close>

text \<open>
  The positions of a coroutine: before the test of cancellation, before the task, after each of the
  accesses of the one that came first, at its end, and given up. \<open>any_order\<close> is not in the code: it
  records the order in which the coroutines counted themselves in.
\<close>

datatype any_pc = AnyNew | AnyRun | AnyWon | AnyStored | AnyIndexed | AnyEnd | AnyCancelled

record ('t, 'v) any_meta =
  any_idx :: u32
  any_finish_count :: u32
  any_buffer :: "('t, 'v) any_variant"
  any_woken :: nat
  any_order :: "nat list"

definition any_meta_new :: "('t, 'v) any_meta" where
  "any_meta_new = \<lparr>any_idx = - 1, any_finish_count = 0, any_buffer = None, any_woken = 0, any_order = []\<rparr>"

definition any_is_cancelled :: "('t, 'v) any_meta \<Rightarrow> bool" where
  "any_is_cancelled m \<longleftrightarrow> any_finish_count m \<noteq> 0"

definition any_preempt :: "nat \<Rightarrow> ('t, 'v) any_meta \<Rightarrow> bool \<times> ('t, 'v) any_meta" where
  "any_preempt i m =
     (any_finish_count m = 0, m\<lparr>any_finish_count := any_finish_count m + 1, any_order := any_order m @ [i]\<rparr>)"

fun any_evaluate_to ::
    "'t \<Rightarrow> 't list \<Rightarrow> (nat \<Rightarrow> 'v) \<Rightarrow> nat \<Rightarrow> any_pc \<Rightarrow> ('t, 'v) any_meta \<Rightarrow> any_pc \<times> ('t, 'v) any_meta" where
  "any_evaluate_to void ts res i AnyNew m = (if any_is_cancelled m then AnyCancelled else AnyRun, m)"
| "any_evaluate_to void ts res i AnyRun m =
     (let (first, m') = any_preempt i m in (if first then AnyWon else AnyEnd, m'))"
| "any_evaluate_to void ts res i AnyWon m =
     (AnyStored, if ts ! i = void then m else m\<lparr>any_buffer := any_value void ts res i\<rparr>)"
| "any_evaluate_to void ts res i AnyStored m = (AnyIndexed, m\<lparr>any_idx := of_nat i\<rparr>)"
| "any_evaluate_to void ts res i AnyIndexed m = (AnyEnd, m\<lparr>any_woken := any_woken m + 1\<rparr>)"
| "any_evaluate_to void ts res i AnyEnd m = (AnyEnd, m)"
| "any_evaluate_to void ts res i AnyCancelled m = (AnyCancelled, m)"

fun any_schedule ::
    "'t \<Rightarrow> 't list \<Rightarrow> (nat \<Rightarrow> 'v) \<Rightarrow> nat list \<Rightarrow> (nat \<Rightarrow> any_pc) \<times> ('t, 'v) any_meta \<Rightarrow>
     (nat \<Rightarrow> any_pc) \<times> ('t, 'v) any_meta" where
  "any_schedule void ts res [] s = s"
| "any_schedule void ts res (i # is) (pcs, m) =
     (if i < length ts then
        (let (pc, m') = any_evaluate_to void ts res i (pcs i) m
         in any_schedule void ts res is (pcs(i := pc), m'))
      else any_schedule void ts res is (pcs, m))"

definition any_start :: "(nat \<Rightarrow> any_pc) \<times> ('t, 'v) any_meta" where
  "any_start = (\<lambda>_. AnyNew, any_meta_new)"

definition any_result :: "('t, 'v) any_meta \<Rightarrow> u32 \<times> ('t, 'v) any_variant" where
  "any_result m = (any_idx m, any_buffer m)"

subsection \<open>Who came first\<close>

definition any_winner ::
    "'t \<Rightarrow> 't list \<Rightarrow> (nat \<Rightarrow> 'v) \<Rightarrow> any_pc \<Rightarrow> nat \<Rightarrow> ('t, 'v) any_meta \<Rightarrow> bool" where
  "any_winner void ts res pc w m \<longleftrightarrow> (case pc of
       AnyWon \<Rightarrow> any_woken m = 0 \<and> any_buffer m = None
     | AnyStored \<Rightarrow> any_woken m = 0 \<and> any_buffer m = any_value void ts res w
     | AnyIndexed \<Rightarrow> any_woken m = 0 \<and> any_buffer m = any_value void ts res w \<and> any_idx m = of_nat w
     | AnyEnd \<Rightarrow> any_woken m = 1 \<and> any_buffer m = any_value void ts res w \<and> any_idx m = of_nat w
     | _ \<Rightarrow> False)"

definition any_inv ::
    "'t \<Rightarrow> 't list \<Rightarrow> (nat \<Rightarrow> 'v) \<Rightarrow> (nat \<Rightarrow> any_pc) \<times> ('t, 'v) any_meta \<Rightarrow> bool" where
  "any_inv void ts res s \<longleftrightarrow> (case s of (pcs, m) \<Rightarrow>
     distinct (any_order m) \<and>
     (\<forall>i. i \<in> set (any_order m) \<longleftrightarrow> i < length ts \<and> pcs i \<notin> {AnyNew, AnyRun, AnyCancelled}) \<and>
     any_finish_count m = of_nat (length (any_order m)) \<and>
     (\<forall>i\<in>set (tl (any_order m)). pcs i = AnyEnd) \<and>
     (if any_order m = [] then any_woken m = 0 \<and> any_buffer m = None \<and> (\<forall>i. pcs i \<noteq> AnyCancelled)
      else any_winner void ts res (pcs (hd (any_order m))) (hd (any_order m)) m))"

lemma any_order_bound:
  assumes "any_inv void ts res (pcs, m)"
  shows "length (any_order m) \<le> length ts" and "i \<notin> set (any_order m) \<Longrightarrow> i < length ts \<Longrightarrow> length (any_order m) < length ts"
proof -
  have d: "distinct (any_order m)" "set (any_order m) \<subseteq> {..<length ts}"
    using assms by (auto simp: any_inv_def)
  then show "length (any_order m) \<le> length ts" using card_mono [of "{..<length ts}" "set (any_order m)"] distinct_card by fastforce
  assume "i \<notin> set (any_order m)" "i < length ts"
  with d have "set (any_order m) \<subset> {..<length ts}" by auto
  then show "length (any_order m) < length ts"
    using psubset_card_mono [of "{..<length ts}" "set (any_order m)"] d(1) distinct_card by fastforce
qed

lemma any_hd_tl:
  assumes "any_inv void ts res (pcs, m)" and "any_order m \<noteq> []"
  shows "hd (any_order m) \<notin> set (tl (any_order m))"
    and "set (any_order m) = insert (hd (any_order m)) (set (tl (any_order m)))"
  using assms by (cases "any_order m"; auto simp: any_inv_def)+

lemma any_first_is_hd:
  assumes "any_inv void ts res (pcs, m)" and "i < length ts" and "pcs i \<notin> {AnyNew, AnyRun, AnyCancelled, AnyEnd}"
  shows "any_order m \<noteq> []" and "hd (any_order m) = i"
proof -
  from assms have mem: "i \<in> set (any_order m)" and "\<forall>j\<in>set (tl (any_order m)). pcs j = AnyEnd"
    by (simp_all add: any_inv_def)
  then have "i \<notin> set (tl (any_order m))" using assms(3) by auto
  then show "any_order m \<noteq> []" "hd (any_order m) = i" using mem by (cases "any_order m"; auto)+
qed

text \<open>The steps of the first coroutine after it has counted itself in.\<close>

lemma any_winner_step:
  assumes inv: "any_inv void ts res (pcs, m)" and i: "i < length ts" "pcs i \<notin> {AnyNew, AnyRun, AnyCancelled, AnyEnd}"
    and pc: "pc \<notin> {AnyNew, AnyRun, AnyCancelled}"
    and m': "any_order m' = any_order m" "any_finish_count m' = any_finish_count m"
    and w: "any_winner void ts res pc i m'"
  shows "any_inv void ts res (pcs(i := pc), m')"
proof -
  note f = any_first_is_hd [OF inv i]
  have "i \<notin> set (tl (any_order m))" using any_hd_tl(1) [OF inv f(1)] f(2) by simp
  then show ?thesis using inv f i pc m' w by (auto simp: any_inv_def)
qed

lemma any_step_inv:
  assumes inv: "any_inv void ts res (pcs, m)" and i: "i < length ts" and n: "length ts < 2 ^ 32"
    and st: "any_evaluate_to void ts res i (pcs i) m = (pc, m')"
  shows "any_inv void ts res (pcs(i := pc), m')"
proof -
  note I = inv [unfolded any_inv_def prod.case]
  have len: "length (any_order m) < 2 ^ 32" using any_order_bound(1) [OF inv] n by simp
  have zero: "any_finish_count m = 0 \<longleftrightarrow> any_order m = []"
    using I len unat_of_nat_fits [of "length (any_order m)", where 'l = 32] by (auto simp: word_unat_eq_iff)
  have win: "any_winner void ts res (pcs i) i m" if "pcs i \<notin> {AnyNew, AnyRun, AnyCancelled, AnyEnd}"
    using any_first_is_hd [OF inv i that] I by auto
  show ?thesis
  proof (cases "pcs i")
    case AnyNew
    then have ni: "i \<notin> set (any_order m)" and m: "m' = m"
      and pc: "pc = (if any_order m = [] then AnyRun else AnyCancelled)"
      using I st zero by (auto simp: any_is_cancelled_def)
    show ?thesis
    proof (cases "any_order m = []")
      case True
      then show ?thesis using I AnyNew by (auto simp: any_inv_def m pc)
    next
      case False
      then have "hd (any_order m) \<noteq> i" "i \<notin> set (tl (any_order m))" using ni any_hd_tl(2) [OF inv] by auto
      then show ?thesis using I AnyNew False by (auto simp: any_inv_def m pc)
    qed
  next
    case AnyRun
    then have ni: "i \<notin> set (any_order m)" using I by auto
    have m: "m' = m\<lparr>any_finish_count := any_finish_count m + 1, any_order := any_order m @ [i]\<rparr>"
      and pc: "pc = (if any_order m = [] then AnyWon else AnyEnd)"
      using st AnyRun zero by (auto simp: any_preempt_def)
    have common: "distinct (any_order m')" "any_finish_count m' = of_nat (length (any_order m'))"
      "\<forall>j. j \<in> set (any_order m') \<longleftrightarrow> j < length ts \<and> (pcs(i := pc)) j \<notin> {AnyNew, AnyRun, AnyCancelled}"
      using I ni i by (auto simp: m pc)
    show ?thesis
    proof (cases "any_order m = []")
      case True
      then show ?thesis using I common by (simp add: any_inv_def any_winner_def m pc)
    next
      case False
      then have ht: "hd (any_order m @ [i]) = hd (any_order m)" "tl (any_order m @ [i]) = tl (any_order m) @ [i]"
        and "hd (any_order m) \<noteq> i" "i \<notin> set (tl (any_order m))" using ni any_hd_tl(2) [OF inv] by auto
      moreover have "any_winner void ts res pcw w m' = any_winner void ts res pcw w m" for pcw w
        by (simp add: any_winner_def m split: any_pc.splits)
      ultimately show ?thesis using I common False by (auto simp: any_inv_def m pc)
    qed
  next
    case AnyEnd then show ?thesis using inv st by (simp add: fun_upd_idem)
  next
    case AnyCancelled then show ?thesis using inv st by (simp add: fun_upd_idem)
  next
    case AnyWon
    then show ?thesis using st win
      by (intro any_winner_step [OF inv i]) (auto simp: any_winner_def any_value_def split: if_splits)
  next
    case AnyStored
    then show ?thesis using st win by (intro any_winner_step [OF inv i]) (auto simp: any_winner_def)
  next
    case AnyIndexed
    then show ?thesis using st win by (intro any_winner_step [OF inv i]) (auto simp: any_winner_def)
  qed
qed

lemma any_schedule_inv:
  "any_inv void ts res s \<Longrightarrow> length ts < 2 ^ 32 \<Longrightarrow> any_inv void ts res (any_schedule void ts res is s)"
proof (induction "is" arbitrary: s)
  case (Cons i "is")
  obtain pcs m where s: "s = (pcs, m)" by fastforce
  obtain pc m' where st: "any_evaluate_to void ts res i (pcs i) m = (pc, m')" by fastforce
  from Cons.prems Cons.IH any_step_inv [of void ts res pcs m i pc m'] show ?case by (simp add: s st)
qed simp

lemma any_start_inv: "any_inv void ts res any_start"
  by (simp add: any_inv_def any_start_def any_meta_new_def)

lemma any_evaluate_order:
  assumes "any_evaluate_to void ts res i pc m = (pc', m')"
  shows "\<exists>js. any_order m' = any_order m @ js" and "any_woken m \<le> any_woken m'"
  using assms by (cases pc; auto simp: any_preempt_def split: if_splits)+

lemma any_schedule_order:
  "(\<exists>js. any_order (snd (any_schedule void ts res is s)) = any_order (snd s) @ js) \<and>
   any_woken (snd s) \<le> any_woken (snd (any_schedule void ts res is s))"
proof (induction "is" arbitrary: s)
  case (Cons i "is")
  obtain pcs m where s: "s = (pcs, m)" by fastforce
  obtain pc m' where st: "any_evaluate_to void ts res i (pcs i) m = (pc, m')" by fastforce
  from Cons.IH [of "(pcs(i := pc), m')"] Cons.IH [of s] any_evaluate_order [OF st]
  show ?case by (auto simp: s st)
qed simp

lemma any_inv_woken:
  assumes "any_inv void ts res (pcs, m)"
  shows "any_woken m \<le> 1" and "any_woken m = 1 \<Longrightarrow>
    any_order m \<noteq> [] \<and> any_result m = (of_nat (hd (any_order m)), any_value void ts res (hd (any_order m)))"
  using assms by (auto simp: any_inv_def any_winner_def any_result_def split: if_splits any_pc.splits)

text \<open>C29. \<open>any\<close> returns the first task: in whatever order the coroutines run, the waiting coroutine
  is spawned at most once; once it has been, what it reads is the index and the value of the task
  that counted itself in first, and no later step changes it; and when all coroutines have ended
  it has been spawned.\<close>

theorem any_first:
  assumes "any_instantiable void monostate ts" and "length ts < 2 ^ 32"
    and "any_schedule void ts res is any_start = (pcs, m)"
  shows "any_woken m \<le> 1 \<and>
    (any_woken m = 1 \<longrightarrow> (\<exists>w js. any_order m = w # js \<and> w < length ts \<and>
       (\<forall>later. any_result (snd (any_schedule void ts res later (pcs, m))) = (of_nat w, any_value void ts res w)))) \<and>
    ((\<forall>i<length ts. pcs i \<in> {AnyEnd, AnyCancelled}) \<longrightarrow> any_woken m = 1)"
proof -
  have inv: "any_inv void ts res (pcs, m)"
    using any_schedule_inv [OF any_start_inv assms(2)] assms(3) by metis
  have "\<exists>w js. any_order m = w # js \<and> w < length ts \<and>
      (\<forall>later. any_result (snd (any_schedule void ts res later (pcs, m))) = (of_nat w, any_value void ts res w))"
    if woken: "any_woken m = 1"
  proof -
    obtain w js where w: "any_order m = w # js"
      using any_inv_woken(2) [OF inv woken] by (metis list.exhaust)
    have "any_result (snd (any_schedule void ts res later (pcs, m))) = (of_nat w, any_value void ts res w)" for later
    proof -
      obtain pcs' m' where l: "any_schedule void ts res later (pcs, m) = (pcs', m')" by fastforce
      have inv': "any_inv void ts res (pcs', m')" using any_schedule_inv [OF inv assms(2)] l by metis
      from any_schedule_order [of void ts res later "(pcs, m)"] l w woken
      have "hd (any_order m') = w" "any_woken m' = 1" using any_inv_woken(1) [OF inv'] by auto
      then show ?thesis using any_inv_woken(2) [OF inv'] l by simp
    qed
    moreover have "w < length ts" using inv w by (auto simp: any_inv_def)
    ultimately show ?thesis using w by blast
  qed
  moreover have "any_woken m = 1" if e: "\<forall>i<length ts. pcs i \<in> {AnyEnd, AnyCancelled}"
  proof -
    have "2 \<le> length ts" using assms(1) by (simp add: any_instantiable_def)
    then have "0 < length ts" by linarith
    then have "any_order m \<noteq> []" using e inv by (auto simp: any_inv_def)
    moreover from this e inv have "pcs (hd (any_order m)) = AnyEnd" by (auto simp: any_inv_def)
    ultimately show ?thesis using inv by (simp add: any_inv_def any_winner_def)
  qed
  ultimately show ?thesis using any_inv_woken(1) [OF inv] by blast
qed

text \<open>The second of three tasks is first; the third one then does not run at all.\<close>

theorem any_first_witness:
  "any_instantiable ''void'' ''monostate'' [''int'', ''string'', ''void''] \<and>
   (let (pcs, m) = any_schedule ''void'' [''int'', ''string'', ''void''] (\<lambda>i. i + 5) [0, 1, 1, 0, 2, 1, 1, 1] any_start
    in any_woken m = 1 \<and> pcs 2 = AnyCancelled \<and>
       any_result (snd (any_schedule ''void'' [''int'', ''string'', ''void''] (\<lambda>i. i + 5) [2, 0] (pcs, m))) =
         (1, Some (''string'', 6)))"
proof -
  let ?ts = "[''int'', ''string'', ''void'']" and ?sched = "[0, 1, 1, 0, 2, 1, 1, 1] :: nat list"
  have inst: "any_instantiable ''void'' ''monostate'' ?ts" by code_simp
  obtain pcs m where r: "any_schedule ''void'' ?ts (\<lambda>i. i + 5 :: nat) ?sched any_start = (pcs, m)" by fastforce
  then have m: "any_woken m = 1" "any_order m = [1, 0]" "pcs 2 = AnyCancelled"
    by (auto simp: any_start_def any_meta_new_def any_is_cancelled_def any_preempt_def numeral_eq_Suc)
  from any_first [OF inst _ r] m(1,2)
  have "any_result (snd (any_schedule ''void'' ?ts (\<lambda>i. i + 5) [2, 0] (pcs, m))) = (1, Some (''string'', 6))"
    by (simp add: any_value_def del: any_schedule.simps)
  with r m inst show ?thesis by (simp del: any_schedule.simps)
qed

text \<open>
  Two tasks with a result of the same type cannot be waited for with \<open>any\<close>: the assignment to the
  variant is ambiguous.
\<close>

lemma any_same_types_rejected:
  assumes "t \<noteq> void" and "t \<noteq> monostate"
  shows "\<not> any_instantiable void monostate [t, t]"
proof -
  have "tl_remove void [t, t] = [t, t]" using assms(1) by (simp add: tl_remove_def tl_filter_filter)
  then show ?thesis using assms
    by (simp add: any_instantiable_def any_assign_def any_variant_types_def tl_prepend_def tl_count_def)
qed

section \<open>The first ones\<close>

text \<open>
  The rank is the number of coroutines that have counted themselves in before. \<open>some_order\<close> is
  not in the code: it records the order of the ranks.
\<close>

datatype some_pc = SomeNew | SomeRun | SomeRanked u32 | SomeIndexed u32 | SomeStored u32 | SomeEnd | SomeCancelled

record ('t, 'v) some_meta =
  some_buffer :: "(u32 \<times> ('t, 'v) any_variant) list"
  some_idx :: u32
  some_min_complete :: u32
  some_woken :: nat
  some_order :: "nat list"

definition some_meta_new :: "u32 \<Rightarrow> ('t, 'v) some_meta" where
  "some_meta_new min_complete = \<lparr>some_buffer = replicate (unat min_complete) (0, None), some_idx = 0,
     some_min_complete = min_complete, some_woken = 0, some_order = []\<rparr>"

definition some_is_cancelled :: "('t, 'v) some_meta \<Rightarrow> u32 \<Rightarrow> bool" where
  "some_is_cancelled m min_complete \<longleftrightarrow> min_complete \<le> some_idx m"

definition some_preempt :: "nat \<Rightarrow> ('t, 'v) some_meta \<Rightarrow> u32 \<times> ('t, 'v) some_meta" where
  "some_preempt i m = (some_idx m, m\<lparr>some_idx := some_idx m + 1, some_order := some_order m @ [i]\<rparr>)"

fun some_evaluate_to ::
    "'t \<Rightarrow> 't list \<Rightarrow> (nat \<Rightarrow> 'v) \<Rightarrow> u32 \<Rightarrow> nat \<Rightarrow> some_pc \<Rightarrow> ('t, 'v) some_meta \<Rightarrow>
     some_pc \<times> ('t, 'v) some_meta" where
  "some_evaluate_to void ts res mc i SomeNew m = (if some_is_cancelled m mc then SomeCancelled else SomeRun, m)"
| "some_evaluate_to void ts res mc i SomeRun m =
     (let (rank, m') = some_preempt i m in (if rank < mc then SomeRanked rank else SomeEnd, m'))"
| "some_evaluate_to void ts res mc i (SomeRanked rank) m =
     (SomeIndexed rank, m\<lparr>some_buffer := (some_buffer m)[unat rank := (of_nat i, snd (some_buffer m ! unat rank))]\<rparr>)"
| "some_evaluate_to void ts res mc i (SomeIndexed rank) m =
     (SomeStored rank, if ts ! i = void then m
        else m\<lparr>some_buffer := (some_buffer m)[unat rank := (fst (some_buffer m ! unat rank), any_value void ts res i)]\<rparr>)"
| "some_evaluate_to void ts res mc i (SomeStored rank) m =
     (SomeEnd, if rank + 1 = mc then m\<lparr>some_woken := some_woken m + 1\<rparr> else m)"
| "some_evaluate_to void ts res mc i SomeEnd m = (SomeEnd, m)"
| "some_evaluate_to void ts res mc i SomeCancelled m = (SomeCancelled, m)"

text \<open>
  On one thread a coroutine is not interrupted after its task: it takes all the remaining steps.
  A schedule for several threads interleaves the single steps.
\<close>

definition some_resume ::
    "'t \<Rightarrow> 't list \<Rightarrow> (nat \<Rightarrow> 'v) \<Rightarrow> u32 \<Rightarrow> nat \<Rightarrow> some_pc \<Rightarrow> ('t, 'v) some_meta \<Rightarrow>
     some_pc \<times> ('t, 'v) some_meta" where
  "some_resume void ts res mc i pc m =
     (if pc = SomeNew then some_evaluate_to void ts res mc i pc m
      else ((\<lambda>(pc, m). some_evaluate_to void ts res mc i pc m) ^^ 4) (pc, m))"

fun some_schedule ::
    "(nat \<Rightarrow> some_pc \<Rightarrow> ('t, 'v) some_meta \<Rightarrow> some_pc \<times> ('t, 'v) some_meta) \<Rightarrow> nat \<Rightarrow> nat list \<Rightarrow>
     (nat \<Rightarrow> some_pc) \<times> ('t, 'v) some_meta \<Rightarrow> (nat \<Rightarrow> some_pc) \<times> ('t, 'v) some_meta" where
  "some_schedule step n [] s = s"
| "some_schedule step n (i # is) (pcs, m) =
     (if i < n then (let (pc, m') = step i (pcs i) m in some_schedule step n is (pcs(i := pc), m'))
      else some_schedule step n is (pcs, m))"

definition some_start :: "'t list \<Rightarrow> u32 \<Rightarrow> ((nat \<Rightarrow> some_pc) \<times> ('t, 'v) some_meta) result" where
  "some_start ts mc =
     (if \<not> mc \<le> of_nat (length ts) then Inl AssertFail
      else if \<not> 1 \<le> mc then Inl AssertFail
      else Inr (\<lambda>_. SomeNew, some_meta_new mc))"

subsection \<open>On one thread\<close>

abbreviation (input) some_entry :: "'t \<Rightarrow> 't list \<Rightarrow> (nat \<Rightarrow> 'v) \<Rightarrow> nat \<Rightarrow> u32 \<times> ('t, 'v) any_variant" where
  "some_entry void ts res i \<equiv> (of_nat i, any_value void ts res i)"

definition some_inv ::
    "'t \<Rightarrow> 't list \<Rightarrow> (nat \<Rightarrow> 'v) \<Rightarrow> u32 \<Rightarrow> (nat \<Rightarrow> some_pc) \<times> ('t, 'v) some_meta \<Rightarrow> bool" where
  "some_inv void ts res mc s \<longleftrightarrow> (case s of (pcs, m) \<Rightarrow>
     distinct (some_order m) \<and>
     (\<forall>i. i \<in> set (some_order m) \<longleftrightarrow> i < length ts \<and> pcs i = SomeEnd) \<and>
     (\<forall>i. pcs i \<in> {SomeNew, SomeRun, SomeEnd, SomeCancelled}) \<and>
     ((\<exists>i. pcs i = SomeCancelled) \<longrightarrow> unat mc \<le> length (some_order m)) \<and>
     some_idx m = of_nat (length (some_order m)) \<and>
     some_buffer m = map (some_entry void ts res) (take (unat mc) (some_order m)) @
       replicate (unat mc - length (some_order m)) (0, None) \<and>
     some_woken m = of_bool (unat mc \<le> length (some_order m)))"

lemma some_resume_run:
  assumes "some_preempt i m = (rank, m')" and "unat rank < length (some_buffer m)" and "rank < mc"
    and "snd (some_buffer m ! unat rank) = None"
  shows "some_resume void ts res mc i SomeRun m = (SomeEnd, m'\<lparr>
     some_buffer := (some_buffer m)[unat rank := some_entry void ts res i],
     some_woken := some_woken m + of_bool (rank + 1 = mc)\<rparr>)"
proof -
  have "some_buffer m' = some_buffer m" "some_woken m' = some_woken m" using assms(1) by (auto simp: some_preempt_def)
  then show ?thesis using assms by (simp add: some_resume_def numeral_eq_Suc any_value_def)
qed

lemma some_resume_late:
  assumes "some_preempt i m = (rank, m')" and "\<not> rank < mc"
  shows "some_resume void ts res mc i SomeRun m = (SomeEnd, m')"
  using assms by (simp add: some_resume_def numeral_eq_Suc)

lemma some_order_bound:
  assumes "some_inv void ts res mc (pcs, m)" and "i < length ts" and "pcs i \<noteq> SomeEnd"
  shows "length (some_order m) < length ts"
proof -
  have d: "distinct (some_order m)" "set (some_order m) \<subset> {..<length ts}"
    using assms by (auto simp: some_inv_def)
  then show ?thesis using psubset_card_mono [of "{..<length ts}" "set (some_order m)"] distinct_card by fastforce
qed

lemma some_step_inv:
  assumes inv: "some_inv void ts res mc (pcs, m)" and i: "i < length ts" and n: "length ts < 2 ^ 32"
    and mc: "1 \<le> unat mc" and st: "some_resume void ts res mc i (pcs i) m = (pc, m')"
  shows "some_inv void ts res mc (pcs(i := pc), m')"
proof -
  note I = inv [unfolded some_inv_def prod.case]
  have "pcs i = SomeNew \<or> pcs i = SomeRun \<or> pcs i = SomeEnd \<or> pcs i = SomeCancelled" using I by auto
  then consider "pcs i = SomeNew" | "pcs i = SomeRun" | "pcs i = SomeEnd" | "pcs i = SomeCancelled" by blast
  then show ?thesis
  proof cases
    case 1
    have "length (some_order m) < 2 ^ 32" using some_order_bound [OF inv i] 1 n by simp
    then have u: "unat (some_idx m) = length (some_order m)"
      using I unat_of_nat_fits [of "length (some_order m)", where 'l = 32] by simp
    have m: "m' = m" and pc: "pc = (if unat mc \<le> length (some_order m) then SomeCancelled else SomeRun)"
      using st 1 u by (auto simp: some_resume_def some_is_cancelled_def word_le_nat_alt)
    show ?thesis using I 1 by (auto simp: some_inv_def m pc)
  next
    case 2
    define r where "r = length (some_order m)"
    have lt: "r < 2 ^ 32" using some_order_bound [OF inv i] 2 n by (simp add: r_def)
    then have u: "unat (some_idx m) = r"
      using I unat_of_nat_fits [of r, where 'l = 32] by (simp add: r_def)
    let ?m = "m\<lparr>some_idx := some_idx m + 1, some_order := some_order m @ [i]\<rparr>"
    have p: "some_preempt i m = (some_idx m, ?m)" by (simp add: some_preempt_def)
    have ni: "i \<notin> set (some_order m)" using I 2 by auto
    have idx: "some_idx m + 1 = of_nat (length (some_order m @ [i]))" using I by simp
    have memb: "\<forall>j. j \<in> set (some_order m @ [i]) \<longleftrightarrow> j < length ts \<and> (pcs(i := SomeEnd)) j = SomeEnd"
      using I i by auto
    have dist: "distinct (some_order m @ [i])" using I ni by simp
    have rest: "\<forall>j. (pcs(i := SomeEnd)) j \<in> {SomeNew, SomeRun, SomeEnd, SomeCancelled}"
      "(\<exists>j. (pcs(i := SomeEnd)) j = SomeCancelled) \<longrightarrow> unat mc \<le> length (some_order m @ [i])"
      using I by auto
    have less: "some_idx m < mc \<longleftrightarrow> r < unat mc" using u by (simp add: word_less_nat_alt)
    show ?thesis
    proof (cases "r < unat mc")
      case True
      have len: "unat (some_idx m) < length (some_buffer m)" using I u True by (simp add: r_def)
      have snd: "snd (some_buffer m ! unat (some_idx m)) = None"
        using I u True by (simp add: r_def nth_append)
      have "some_idx m + 1 = mc \<longleftrightarrow> Suc r = unat mc"
      proof -
        have "unat (some_idx m) + 1 < 2 ^ 32" using True u unsigned_less [of mc, where 'a = nat] by simp
        then have "unat (some_idx m + 1) = Suc r" using u by (simp add: unat_word_ariths(1))
        then show ?thesis by (simp add: word_unat_eq_iff)
      qed
      with some_resume_run [OF p len _ snd] st 2 less True have pc: "pc = SomeEnd" and m':
        "m' = ?m\<lparr>some_buffer := (some_buffer m)[r := some_entry void ts res i],
           some_woken := some_woken m + of_bool (Suc r = unat mc)\<rparr>" using u by auto
      have "replicate (unat mc - r) (0 :: u32, None :: ('a, 'b) any_variant) =
          (0, None) # replicate (unat mc - Suc r) (0, None)"
        using True by (metis Suc_diff_Suc replicate_Suc)
      then have buf: "some_buffer m' = map (some_entry void ts res) (take (unat mc) (some_order m @ [i])) @
          replicate (unat mc - length (some_order m @ [i])) (0, None)"
        using I True by (simp add: m' r_def list_update_append)
      have wk: "some_woken m' = of_bool (unat mc \<le> length (some_order m @ [i]))"
        using I True by (auto simp: m' r_def)
      have o: "some_order m' = some_order m @ [i]" and ix: "some_idx m' = of_nat (length (some_order m @ [i]))"
        using idx by (simp_all add: m')
      show ?thesis unfolding some_inv_def prod.case pc o by (intro conjI dist memb rest buf wk ix)
    next
      case False
      with some_resume_late [OF p] st 2 less have pc: "pc = SomeEnd" and m': "m' = ?m" by auto
      from False I have buf: "some_buffer m' = map (some_entry void ts res) (take (unat mc) (some_order m @ [i])) @
          replicate (unat mc - length (some_order m @ [i])) (0, None)"
        and wk: "some_woken m' = of_bool (unat mc \<le> length (some_order m @ [i]))"
        by (simp_all add: m' r_def)
      have o: "some_order m' = some_order m @ [i]" and ix: "some_idx m' = of_nat (length (some_order m @ [i]))"
        using idx by (simp_all add: m')
      show ?thesis unfolding some_inv_def prod.case pc o by (intro conjI dist memb rest buf wk ix)
    qed
  next
    case 3
    then show ?thesis using inv st by (simp add: some_resume_def numeral_eq_Suc fun_upd_idem)
  next
    case 4
    then show ?thesis using inv st by (simp add: some_resume_def numeral_eq_Suc fun_upd_idem)
  qed
qed

lemma some_schedule_inv:
  "some_inv void ts res mc s \<Longrightarrow> length ts < 2 ^ 32 \<Longrightarrow> 1 \<le> unat mc \<Longrightarrow>
   some_inv void ts res mc (some_schedule (some_resume void ts res mc) (length ts) is s)"
proof (induction "is" arbitrary: s)
  case (Cons i "is")
  obtain pcs m where s: "s = (pcs, m)" by fastforce
  obtain pc m' where st: "some_resume void ts res mc i (pcs i) m = (pc, m')" by fastforce
  from Cons.prems Cons.IH some_step_inv [of void ts res mc pcs m i pc m'] show ?case by (simp add: s st)
qed simp

text \<open>On one thread \<open>some\<close> returns the first \<open>min_complete\<close> tasks: the waiting coroutine is
  spawned exactly once, when that many tasks have counted themselves in, what it reads are their
  indices and values in the order in which they did, and when all coroutines have ended it has been
  spawned.\<close>

theorem some_first:
  assumes "some_start ts mc = Inr s" and "length ts < 2 ^ 32"
    and "some_schedule (some_resume void ts res mc) (length ts) is s = (pcs, m)"
  shows "some_woken m = of_bool (unat mc \<le> length (some_order m)) \<and>
    (some_woken m = 1 \<longrightarrow>
       some_buffer m = map (\<lambda>i. (of_nat i, any_value void ts res i)) (take (unat mc) (some_order m))) \<and>
    ((\<forall>i<length ts. pcs i \<in> {SomeEnd, SomeCancelled}) \<longrightarrow> some_woken m = 1)"
proof -
  have mc: "unat mc \<le> length ts" "1 \<le> unat mc" and s: "s = (\<lambda>_. SomeNew, some_meta_new mc)"
    using assms(1) unat_of_nat_fits [of "length ts", where 'l = 32] assms(2)
    by (auto simp: some_start_def word_le_nat_alt split: if_splits)
  then have "some_inv void ts res mc s" by (auto simp: some_inv_def some_meta_new_def)
  from some_schedule_inv [OF this assms(2) mc(2)] assms(3) have inv: "some_inv void ts res mc (pcs, m)" by metis
  have "unat mc \<le> length (some_order m)" if e: "\<forall>i<length ts. pcs i \<in> {SomeEnd, SomeCancelled}"
  proof (cases "\<exists>i. pcs i = SomeCancelled")
    case True
    with inv show ?thesis by (auto simp: some_inv_def)
  next
    case False
    then have "set (some_order m) = {..<length ts}" "distinct (some_order m)" using inv e by (auto simp: some_inv_def)
    then have "length (some_order m) = length ts" using distinct_card by fastforce
    with mc show ?thesis by simp
  qed
  with inv show ?thesis by (simp add: some_inv_def)
qed

text \<open>Two of three tasks: the third one is first, the first one second.\<close>

theorem some_first_witness:
  "some_start [''int'', ''string'', ''void''] 2 = Inr (\<lambda>_. SomeNew, some_meta_new 2 :: (string, nat) some_meta) \<and>
   some_buffer (snd (some_schedule (some_resume ''void'' [''int'', ''string'', ''void''] (\<lambda>i. i + 5) 2) 3
     [0, 1, 2, 2, 0, 1] (\<lambda>_. SomeNew, some_meta_new 2))) = [(2, None), (0, Some (''int'', 5))]"
proof -
  let ?ts = "[''int'', ''string'', ''void'']" and ?sched = "[0, 1, 2, 2, 0, 1] :: nat list"
  have start: "some_start ?ts 2 = Inr (\<lambda>_. SomeNew, some_meta_new 2 :: (string, nat) some_meta)"
    by (simp add: some_start_def)
  obtain pcs m where r: "some_schedule (some_resume ''void'' ?ts (\<lambda>i. i + 5 :: nat) 2) (length ?ts) ?sched
      (\<lambda>_. SomeNew, some_meta_new 2) = (pcs, m)" by fastforce
  then have "some_order m = [2, 0, 1]"
    by (auto simp: some_resume_def some_is_cancelled_def some_preempt_def some_meta_new_def numeral_eq_Suc)
  with some_first [OF start _ r] have "some_buffer m = [(2, None), (0, Some (''int'', 5))]"
    by (simp add: any_value_def)
  with r start show ?thesis by simp
qed

subsection \<open>On several threads\<close>

text \<open>
  The rank is taken before the result is stored: the task with the last rank can wake the
  waiting coroutine while one with a smaller rank has not stored its result yet.
\<close>

theorem some_race:
  "let (pcs, m) = some_schedule (some_evaluate_to ''void'' [''int'', ''string''] (\<lambda>i. i + 5 :: nat) 2) 2
       [0, 1, 0, 1, 1, 1, 1] (\<lambda>_. SomeNew, some_meta_new 2)
   in some_woken m = 1 \<and> pcs 0 = SomeRanked 0 \<and> some_buffer m = [(0, None), (1, Some (''string'', 6))]"
  by code_simp

end
