(* ===== verification/Task.thy ===== *)
theory Task
  imports Prelude
begin

text \<open>
  Lazy coroutines, \<^verbatim>\<open>task.hpp\<close>: the promise of a task in its three specialisations, the awaiters,
  the class \<^verbatim>\<open>task\<close> that owns a coroutine frame, and a machine that runs coroutines by the
  transfer of control between their frames. Frames have numbers, 0 is the null handle; the body of
  a coroutine is a tree of what it returns, throws and awaits.
\<close>

section \<open>The promise\<close>

text \<open>
  The union of the value and the exception with its tag, where a union that has been given neither
  holds the bits that were in the memory of the frame; the union of the flag and the exception
  of a task without a value, whose flag is 0, the mark of a detached task, or the bits of an
  exception; the pointer and the exception of a task that returns a reference.
\<close>

datatype ('v, 'e) value_state = ValueMono ptr | ValueIs 'v | ValueException 'e

datatype 'e void_slot = SlotZero | SlotDetached | SlotException 'e

datatype ('v, 'e) promise_result =
    PromiseT "('v, 'e) value_state"
  | PromiseVoid "'e void_slot"
  | PromiseRef "'v option" "'e option"

datatype result_kind = KindT | KindVoid | KindRef

record ('v, 'e) task_promise =
  parent_coro :: "nat option"
  promised :: "('v, 'e) promise_result"

datatype 'e task_fault = BrokenPromise | NullHandle | Dangling | ResumedDone | WildException | Thrown 'e

fun kind_of :: "('v, 'e) promise_result \<Rightarrow> result_kind" where
  "kind_of (PromiseT s) = KindT"
| "kind_of (PromiseVoid s) = KindVoid"
| "kind_of (PromiseRef p x) = KindRef"

text \<open>The constructor of a task with a value sets the tag and leaves the union as it is.\<close>

fun promise_init :: "ptr \<Rightarrow> result_kind \<Rightarrow> ('v, 'e) promise_result" where
  "promise_init bits KindT = PromiseT (ValueMono bits)"
| "promise_init bits KindVoid = PromiseVoid SlotZero"
| "promise_init bits KindRef = PromiseRef None None"

text \<open>\<open>None\<close> is the result of a task without a value; the last case cannot be written in C++.\<close>

fun return_value :: "'v option \<Rightarrow> ('v, 'e) promise_result \<Rightarrow> ('v, 'e) promise_result" where
  "return_value (Some v) (PromiseT s) = PromiseT (ValueIs v)"
| "return_value None (PromiseVoid s) = PromiseVoid s"
| "return_value (Some v) (PromiseRef p x) = PromiseRef (Some v) x"
| "return_value _ p = p"

text \<open>
  The exception of a task with a value is assigned to the member of the union, which releases what
  its old bits point to: that is harmless where they are a null pointer or an exception, and
  \<open>WildException\<close> otherwise. An exception of a detached task is thrown again, out of \<^verbatim>\<open>resume\<close>.
\<close>

fun value_unhandled_exception :: "'e \<Rightarrow> ('v, 'e) value_state \<Rightarrow> 'e task_fault + ('v, 'e) value_state" where
  "value_unhandled_exception e (ValueMono bits) = (if bits = 0 then Inr (ValueException e) else Inl WildException)"
| "value_unhandled_exception e (ValueIs v) = Inl WildException"
| "value_unhandled_exception e (ValueException e') = Inr (ValueException e)"

lemma value_unhandled_exception_eq:
  "value_unhandled_exception e s =
     (if (case s of ValueMono bits \<Rightarrow> bits = 0 | ValueIs v \<Rightarrow> False | ValueException e' \<Rightarrow> True)
      then Inr (ValueException e) else Inl WildException)"
  by (cases s) simp_all

definition void_unhandled_exception :: "'e \<Rightarrow> 'e void_slot \<Rightarrow> 'e task_fault + 'e void_slot" where
  [simp]: "void_unhandled_exception e s = (if s = SlotDetached then Inl (Thrown e) else Inr (SlotException e))"

fun unhandled_exception :: "'e \<Rightarrow> ('v, 'e) promise_result \<Rightarrow> 'e task_fault + ('v, 'e) promise_result" where
  "unhandled_exception e (PromiseT s) = map_sum id PromiseT (value_unhandled_exception e s)"
| "unhandled_exception e (PromiseVoid s) = map_sum id PromiseVoid (void_unhandled_exception e s)"
| "unhandled_exception e (PromiseRef p x) = Inr (PromiseRef p (Some e))"

text \<open>What \<^verbatim>\<open>result()\<close> of the promise gives: the value, or the exception thrown again.\<close>

fun promise_value :: "('v, 'e) promise_result \<Rightarrow> 'e task_fault + ('e + 'v option)" where
  "promise_value (PromiseT (ValueException e)) = Inr (Inl e)"
| "promise_value (PromiseT (ValueIs v)) = Inr (Inr (Some v))"
| "promise_value (PromiseT (ValueMono bits)) = Inl BrokenPromise"
| "promise_value (PromiseVoid (SlotException e)) = Inr (Inl e)"
| "promise_value (PromiseVoid SlotZero) = Inr (Inr None)"
| "promise_value (PromiseVoid SlotDetached) = Inl Dangling"
| "promise_value (PromiseRef p (Some e)) = Inr (Inl e)"
| "promise_value (PromiseRef (Some v) None) = Inr (Inr (Some v))"
| "promise_value (PromiseRef None None) = Inl NullHandle"

definition set_parent :: "nat option \<Rightarrow> ('v, 'e) task_promise \<Rightarrow> ('v, 'e) task_promise" where
  "set_parent continuation p = p\<lparr>parent_coro := continuation\<rparr>"

definition promise_new :: "ptr \<Rightarrow> result_kind \<Rightarrow> ('v, 'e) task_promise" where
  "promise_new bits k = \<lparr>parent_coro = None, promised = promise_init bits k\<rparr>"

section \<open>Frames and the transfer of control\<close>

text \<open>
  A coroutine returns, throws, or awaits a task it has just created and goes on with its outcome. A
  frame is suspended before a body, or inside an await expression, or at its end.
\<close>

datatype ('v, 'e) body =
    CoReturn "'v option"
  | CoThrow 'e
  | CoAwait result_kind "('v, 'e) body" "'e + 'v option \<Rightarrow> ('v, 'e) body"

datatype ('v, 'e) point =
    AtBody "('v, 'e) body"
  | InAwait nat "'e + 'v option \<Rightarrow> ('v, 'e) body"
  | AtEnd

record ('v, 'e) frame =
  frame_promise :: "('v, 'e) task_promise"
  frame_point :: "('v, 'e) point"

type_synonym ('v, 'e) frames = "nat \<rightharpoonup> ('v, 'e) frame"

definition frame_new :: "ptr \<Rightarrow> result_kind \<Rightarrow> ('v, 'e) body \<Rightarrow> ('v, 'e) frame" where
  "frame_new bits k b = \<lparr>frame_promise = promise_new bits k, frame_point = AtBody b\<rparr>"

definition frame_done :: "('v, 'e) frame \<Rightarrow> bool" where
  "frame_done f \<longleftrightarrow> (case frame_point f of AtEnd \<Rightarrow> True | _ \<Rightarrow> False)"

definition is_detached :: "('v, 'e) frame \<Rightarrow> bool" where
  "is_detached f \<longleftrightarrow> (case promised (frame_promise f) of PromiseVoid SlotDetached \<Rightarrow> True | _ \<Rightarrow> False)"

text \<open>The end of a body: its outcome is put into the promise and the frame is suspended for good.\<close>

definition frame_finish :: "'e + 'v option \<Rightarrow> ('v, 'e) frame \<Rightarrow> 'e task_fault + ('v, 'e) frame" where
  "frame_finish out f =
     (case out of
        Inr v \<Rightarrow> Inr (f\<lparr>frame_promise := (frame_promise f)\<lparr>promised := return_value v (promised (frame_promise f))\<rparr>,
                       frame_point := AtEnd\<rparr>)
      | Inl e \<Rightarrow> (case unhandled_exception e (promised (frame_promise f)) of
          Inl x \<Rightarrow> Inl x
        | Inr p \<Rightarrow> Inr (f\<lparr>frame_promise := (frame_promise f)\<lparr>promised := p\<rparr>, frame_point := AtEnd\<rparr>)))"

text \<open>Which frame goes on after the end of a task; \<open>None\<close> returns to the caller of \<^verbatim>\<open>resume\<close>.\<close>

definition final_await_suspend :: "nat \<Rightarrow> ('v, 'e) frame \<Rightarrow> ('v, 'e) frames \<Rightarrow> ('v, 'e) frames \<times> nat option" where
  "final_await_suspend h f fs =
     (if is_detached f then fs(h := None) else fs(h := Some f), parent_coro (frame_promise f))"

definition await_ready :: "('v, 'e) frames \<Rightarrow> nat \<Rightarrow> 'e task_fault + bool" where
  "await_ready fs h =
     (if h = 0 then Inr True else case fs h of None \<Rightarrow> Inl Dangling | Some f \<Rightarrow> Inr (frame_done f))"

definition await_suspend :: "('v, 'e) frames \<Rightarrow> nat \<Rightarrow> nat \<Rightarrow> 'e task_fault + ('v, 'e) frames" where
  "await_suspend fs h awaiting =
     (case fs h of None \<Rightarrow> Inl Dangling
      | Some f \<Rightarrow> Inr (fs(h \<mapsto> f\<lparr>frame_promise := set_parent (Some awaiting) (frame_promise f)\<rparr>)))"

definition await_resume :: "('v, 'e) frames \<Rightarrow> nat \<Rightarrow> 'e task_fault + ('e + 'v option)" where
  "await_resume fs h =
     (if h = 0 then Inl BrokenPromise
      else case fs h of None \<Rightarrow> Inl Dangling | Some f \<Rightarrow> promise_value (promised (frame_promise f)))"

definition frame_destroy :: "nat \<Rightarrow> ('v, 'e) frames \<Rightarrow> 'e task_fault + ('v, 'e) frames" where
  "frame_destroy h fs = (case fs h of None \<Rightarrow> Inl Dangling | Some f \<Rightarrow> Inr (fs(h := None)))"

subsection \<open>The machine\<close>

text \<open>
  The frames, the number the next frame gets, and the frame that runs; \<open>mem\<close> are the bits that the
  memory of each frame holds where its promise has the union. An await expression creates
  the task, asks whether it is ready, suspends, and when resumed reads the outcome and destroys the
  task, which was a temporary of the expression.
\<close>

record ('v, 'e) machine =
  mc_frames :: "('v, 'e) frames"
  mc_next :: nat
  mc_current :: "nat option"

definition run_await ::
    "(nat \<Rightarrow> ptr) \<Rightarrow> nat \<Rightarrow> ('v, 'e) frame \<Rightarrow> result_kind \<Rightarrow> ('v, 'e) body \<Rightarrow> ('e + 'v option \<Rightarrow> ('v, 'e) body) \<Rightarrow>
     ('v, 'e) machine \<Rightarrow> 'e task_fault + ('v, 'e) machine" where
  "run_await mem h f k b cont m =
     (let c = mc_next m;
          fs = (mc_frames m)(c \<mapsto> frame_new (mem c) k b)
      in case await_ready fs c of
           Inl x \<Rightarrow> Inl x
         | Inr ready \<Rightarrow>
             let fs = fs(h \<mapsto> f\<lparr>frame_point := InAwait c cont\<rparr>)
             in if ready then Inr (m\<lparr>mc_frames := fs, mc_next := c + 1\<rparr>)
                else (case await_suspend fs c h of
                    Inl x \<Rightarrow> Inl x
                  | Inr fs \<Rightarrow> Inr (m\<lparr>mc_frames := fs, mc_next := c + 1, mc_current := Some c\<rparr>)))"

definition run_resume ::
    "nat \<Rightarrow> ('v, 'e) frame \<Rightarrow> nat \<Rightarrow> ('e + 'v option \<Rightarrow> ('v, 'e) body) \<Rightarrow> ('v, 'e) machine \<Rightarrow>
     'e task_fault + ('v, 'e) machine" where
  "run_resume h f c cont m =
     (case await_resume (mc_frames m) c of
        Inl x \<Rightarrow> Inl x
      | Inr r \<Rightarrow> (case frame_destroy c (mc_frames m) of
          Inl x \<Rightarrow> Inl x
        | Inr fs \<Rightarrow> Inr (m\<lparr>mc_frames := fs(h \<mapsto> f\<lparr>frame_point := AtBody (cont r)\<rparr>)\<rparr>)))"

definition run_finish ::
    "nat \<Rightarrow> ('v, 'e) frame \<Rightarrow> 'e + 'v option \<Rightarrow> ('v, 'e) machine \<Rightarrow> 'e task_fault + ('v, 'e) machine" where
  "run_finish h f out m =
     (case frame_finish out f of
        Inl x \<Rightarrow> Inl x
      | Inr f' \<Rightarrow> (let (fs, next) = final_await_suspend h f' (mc_frames m)
                  in Inr (m\<lparr>mc_frames := fs, mc_current := next\<rparr>)))"

definition run_step :: "(nat \<Rightarrow> ptr) \<Rightarrow> ('v, 'e) machine \<Rightarrow> 'e task_fault + ('v, 'e) machine" where
  "run_step mem m =
     (case mc_current m of
        None \<Rightarrow> Inr m
      | Some h \<Rightarrow> (case mc_frames m h of
          None \<Rightarrow> Inl Dangling
        | Some f \<Rightarrow> (case frame_point f of
            AtBody (CoReturn v) \<Rightarrow> run_finish h f (Inr v) m
          | AtBody (CoThrow e) \<Rightarrow> run_finish h f (Inl e) m
          | AtBody (CoAwait k b cont) \<Rightarrow> run_await mem h f k b cont m
          | InAwait c cont \<Rightarrow> run_resume h f c cont m
          | AtEnd \<Rightarrow> Inl ResumedDone)))"

primrec run_steps :: "(nat \<Rightarrow> ptr) \<Rightarrow> nat \<Rightarrow> ('v, 'e) machine \<Rightarrow> 'e task_fault + ('v, 'e) machine" where
  "run_steps mem 0 m = Inr m"
| "run_steps mem (Suc n) m = (case run_step mem m of Inl x \<Rightarrow> Inl x | Inr m' \<Rightarrow> run_steps mem n m')"

section \<open>Tasks are calls\<close>

text \<open>The outcome of a body if awaiting a task were calling a function.\<close>

primrec call_outcome :: "('v, 'e) body \<Rightarrow> 'e + 'v option" where
  "call_outcome (CoReturn v) = Inr v"
| "call_outcome (CoThrow e) = Inl e"
| "call_outcome (CoAwait k b cont) = (call_outcome \<circ> cont) (call_outcome b)"

text \<open>A body returns a value if and only if the type of its task has one.\<close>

primrec body_typed :: "result_kind \<Rightarrow> ('v, 'e) body \<Rightarrow> bool" where
  "body_typed k (CoReturn v) \<longleftrightarrow> (v = None \<longleftrightarrow> k = KindVoid)"
| "body_typed k (CoThrow e) \<longleftrightarrow> True"
| "body_typed k (CoAwait kb b cont) \<longleftrightarrow> body_typed kb b \<and> (\<forall>r. (body_typed k \<circ> cont) r)"

text \<open>
  No task with a value ends with an exception, neither the body itself nor one that it awaits.
\<close>

primrec values_quiet :: "result_kind \<Rightarrow> ('v, 'e) body \<Rightarrow> bool" where
  "values_quiet k (CoReturn v) \<longleftrightarrow> True"
| "values_quiet k (CoThrow e) \<longleftrightarrow> k \<noteq> KindT"
| "values_quiet k (CoAwait kb b cont) \<longleftrightarrow> values_quiet kb b \<and> (values_quiet k \<circ> cont) (call_outcome b)"

text \<open>
  The exceptions of tasks with values meet no wild pointer: the memory of the frames is zero where
  the unions are, or there are no such exceptions.
\<close>

definition exceptions_safe :: "(nat \<Rightarrow> ptr) \<Rightarrow> result_kind \<Rightarrow> ('v, 'e) body \<Rightarrow> bool" where
  "exceptions_safe mem k b \<longleftrightarrow> mem = (\<lambda>_. 0) \<or> values_quiet k b"

text \<open>The promise has not been given an outcome, and its task is not detached.\<close>

definition promise_fresh :: "ptr \<Rightarrow> result_kind \<Rightarrow> ('v, 'e) task_promise \<Rightarrow> bool" where
  "promise_fresh bits k p \<longleftrightarrow> promised p = promise_init bits k"

lemma run_steps_add:
  "run_steps mem m s = Inr s' \<Longrightarrow> run_steps mem (m + n) s = run_steps mem n s'"
  by (induction m arbitrary: s) (auto split: sum.splits)

lemma frame_finish_fresh:
  assumes "promise_fresh bits k (frame_promise f)"
    and "case out of Inr v \<Rightarrow> (v = None \<longleftrightarrow> k = KindVoid) | Inl e \<Rightarrow> bits = 0 \<or> k \<noteq> KindT"
  shows "\<exists>p. frame_finish out f =
      Inr (f\<lparr>frame_promise := (frame_promise f)\<lparr>promised := p\<rparr>, frame_point := AtEnd\<rparr>) \<and>
    promise_value p = Inr out \<and> (\<forall>s. p = PromiseVoid s \<longrightarrow> s \<noteq> SlotDetached)"
  using assms by (cases k; cases out) (auto simp: frame_finish_def promise_fresh_def)

definition machine_ok :: "('v, 'e) machine \<Rightarrow> bool" where
  "machine_ok m \<longleftrightarrow> 0 < mc_next m \<and> (\<forall>h f. mc_frames m h = Some f \<longrightarrow> 0 < h \<and> h < mc_next m)"

text \<open>The machine has run the body of a frame, and everything else is as before.\<close>

definition frame_run :: "nat \<Rightarrow> ('v, 'e) frame \<Rightarrow> 'e + 'v option \<Rightarrow> ('v, 'e) machine \<Rightarrow> ('v, 'e) machine \<Rightarrow> bool" where
  "frame_run h f out m m' \<longleftrightarrow>
     (\<exists>p. mc_frames m' = (mc_frames m)(h \<mapsto> f\<lparr>frame_promise := (frame_promise f)\<lparr>promised := p\<rparr>, frame_point := AtEnd\<rparr>) \<and>
        promise_value p = Inr out) \<and>
     mc_current m' = parent_coro (frame_promise f) \<and> mc_next m \<le> mc_next m'"

lemma run_finish_body:
  assumes "promise_fresh bits k (frame_promise f)"
    and "case out of Inr v \<Rightarrow> (v = None \<longleftrightarrow> k = KindVoid) | Inl e \<Rightarrow> bits = 0 \<or> k \<noteq> KindT"
  shows "\<exists>m'. run_finish h f out m = Inr m' \<and> frame_run h f out m m'"
proof -
  from frame_finish_fresh [OF assms] obtain p where
    f: "frame_finish out f = Inr (f\<lparr>frame_promise := (frame_promise f)\<lparr>promised := p\<rparr>, frame_point := AtEnd\<rparr>)"
    and p: "promise_value p = Inr out" "\<forall>s. p = PromiseVoid s \<longrightarrow> s \<noteq> SlotDetached" by blast
  have "\<not> is_detached (f\<lparr>frame_promise := (frame_promise f)\<lparr>promised := p\<rparr>, frame_point := AtEnd\<rparr>)"
    using p(2) by (auto simp: is_detached_def split: promise_result.splits void_slot.splits)
  with f p(1) show ?thesis by (auto simp: run_finish_def final_await_suspend_def frame_run_def)
qed

lemma run_await_step:
  assumes "machine_ok m" and "mc_frames m h = Some f"
  defines "c \<equiv> mc_next m"
  shows "run_await mem h f k b cont m = Inr (m\<lparr>
      mc_frames := (mc_frames m)(c \<mapsto> (frame_new (mem c) k b)\<lparr>frame_promise := set_parent (Some h) (promise_new (mem c) k)\<rparr>,
        h \<mapsto> f\<lparr>frame_point := InAwait c cont\<rparr>),
      mc_next := c + 1, mc_current := Some c\<rparr>)"
proof -
  have "c \<noteq> 0" "c \<noteq> h" using assms by (auto simp: machine_ok_def)
  then show ?thesis unfolding c_def
    by (simp add: run_await_def Let_def await_ready_def await_suspend_def frame_new_def frame_done_def fun_upd_twist)
qed

lemma run_body:
  assumes "body_typed k b" and "machine_ok m" and "mc_current m = Some h" and "mc_frames m h = Some f"
    and "frame_point f = AtBody b" and "promise_fresh (mem h) k (frame_promise f)"
    and "exceptions_safe mem k b"
  shows "\<exists>n m'. run_steps mem n m = Inr m' \<and> frame_run h f (call_outcome b) m m'"
  using assms
proof (induction b arbitrary: m h f k)
  case (CoReturn v)
  from CoReturn.prems run_finish_body [of "mem h" k f "Inr v" h m] obtain m' where
    "run_finish h f (Inr v) m = Inr m'" "frame_run h f (Inr v) m m'" by auto
  moreover from this(1) CoReturn.prems have "run_steps mem 1 m = Inr m'" by (simp add: run_step_def)
  ultimately show ?case by (metis call_outcome.simps(1) call_outcome.simps(2))
next
  case (CoThrow e)
  from CoThrow.prems(7) have "mem h = 0 \<or> k \<noteq> KindT" by (auto simp: exceptions_safe_def)
  with CoThrow.prems run_finish_body [of "mem h" k f "Inl e" h m] obtain m' where
    "run_finish h f (Inl e) m = Inr m'" "frame_run h f (Inl e) m m'" by auto
  moreover from this(1) CoThrow.prems have "run_steps mem 1 m = Inr m'" by (simp add: run_step_def)
  ultimately show ?case by (metis call_outcome.simps(1) call_outcome.simps(2))
next
  case (CoAwait kb b cont)
  define c where "c = mc_next m"
  define g where "g = (frame_new (mem c) kb b)\<lparr>frame_promise := set_parent (Some h) (promise_new (mem c) kb)\<rparr>"
  define m1 where "m1 = m\<lparr>mc_frames := (mc_frames m)(c \<mapsto> g, h \<mapsto> f\<lparr>frame_point := InAwait c cont\<rparr>),
      mc_next := c + 1, mc_current := Some c\<rparr>"
  have ne: "c \<noteq> h" "c \<noteq> 0" "mc_frames m c = None" using CoAwait.prems by (auto simp: machine_ok_def c_def)
  have s1: "run_steps mem 1 m = Inr m1"
    using run_await_step [OF CoAwait.prems(2,4)] CoAwait.prems(3-5) by (simp add: run_step_def m1_def c_def g_def)
  have ok1: "machine_ok m1" using CoAwait.prems(2,4) by (auto simp: machine_ok_def m1_def c_def intro: less_SucI split: if_splits)
  have "body_typed kb b" "exceptions_safe mem kb b"
    using CoAwait.prems(1,7) by (auto simp: exceptions_safe_def)
  with CoAwait.IH(1) [OF _ ok1, of kb c g] ne obtain n2 m2 where
    s2: "run_steps mem n2 m1 = Inr m2" and r2: "frame_run c g (call_outcome b) m1 m2"
    by (auto simp: m1_def g_def frame_new_def promise_fresh_def set_parent_def promise_new_def)
  define r where "r = call_outcome b"
  define f3 where "f3 = f\<lparr>frame_point := AtBody (cont r)\<rparr>"
  define m3 where "m3 = m2\<lparr>mc_frames := (mc_frames m)(h \<mapsto> f3)\<rparr>"
  from r2 obtain p where
    fr2: "mc_frames m2 = (mc_frames m1)(c \<mapsto> g\<lparr>frame_promise := (frame_promise g)\<lparr>promised := p\<rparr>, frame_point := AtEnd\<rparr>)"
    and p: "promise_value p = Inr r" and cur2: "mc_current m2 = Some h" and nx2: "c + 1 \<le> mc_next m2"
    by (auto simp: frame_run_def r_def g_def set_parent_def m1_def)
  have "await_resume (mc_frames m2) c = Inr r" using p ne(2) by (simp add: await_resume_def fr2)
  moreover have "(mc_frames m2)(c := None, h \<mapsto> f3) = (mc_frames m)(h \<mapsto> f3)"
    using ne by (auto simp: fr2 m1_def fun_eq_iff)
  moreover have "mc_frames m2 h = Some (f\<lparr>frame_point := InAwait c cont\<rparr>)" using ne(1) by (simp add: fr2 m1_def)
  ultimately have s3: "run_steps mem 1 m2 = Inr m3"
    using ne fr2 cur2 by (simp add: run_step_def run_resume_def frame_destroy_def m3_def f3_def)
  have ok3: "machine_ok m3" using CoAwait.prems(2,4) nx2 by (auto simp: machine_ok_def m3_def c_def)
  have "body_typed k (cont r)" "exceptions_safe mem k (cont r)"
    using CoAwait.prems(1,7) by (auto simp: exceptions_safe_def r_def)
  moreover have "promise_fresh (mem h) k (frame_promise f3)" using CoAwait.prems(6) by (simp add: f3_def)
  ultimately obtain n4 m4 where s4: "run_steps mem n4 m3 = Inr m4"
    and r4: "frame_run h f3 (call_outcome (cont r)) m3 m4"
    using CoAwait.IH(2) [OF _ _ ok3, of "cont r" k h f3] cur2 by (auto simp: m3_def f3_def)
  have "run_steps mem (1 + (n2 + (1 + n4))) m = Inr m4"
    by (simp only: run_steps_add [OF s1] run_steps_add [OF s2] run_steps_add [OF s3] s4)
  moreover have "frame_run h f (call_outcome (CoAwait kb b cont)) m m4"
    using r4 nx2 by (auto simp: frame_run_def f3_def m3_def r_def c_def)
  ultimately show ?case by blast
qed

text \<open>
  The assignment of an exception in a task with a value, when the memory of its frame is not zero
  there: the task that awaits it never learns of the exception.
\<close>

lemma task_exception_wild:
  assumes "mc_current m = Some h" and "mc_frames m h = Some (frame_new (mem h) KindT (CoThrow e))" and "mem h \<noteq> 0"
  shows "run_step mem m = Inl WildException"
  using assms by (simp add: run_step_def frame_new_def run_finish_def frame_finish_def promise_new_def)

text \<open>C30. Awaiting tasks is calling functions: a coroutine whose body awaits tasks, which await tasks
  in turn, runs without a fault to its end in finitely many steps; then control is with the frame
  that awaits it, its outcome is the value or the exception that the calls would give, and of the
  frames created meanwhile none is left. That is so where no exception leaves a task that has a
  value, or where the memory of frames is zero before their promises are constructed: the promise
  assigns such an exception to a union that it has not initialised. Tasks without a value and
  tasks of references have no such condition.\<close>

theorem task_is_call:
  assumes "body_typed k b" and "machine_ok m" and "mc_current m = Some h" and "mc_frames m h = Some f"
    and "frame_point f = AtBody b" and "promise_fresh (mem h) k (frame_promise f)"
    and "exceptions_safe mem k b"
  shows "\<exists>n m'. run_steps mem n m = Inr m' \<and>
    await_resume (mc_frames m') h = Inr (call_outcome b) \<and> await_ready (mc_frames m') h = Inr True \<and>
    mc_current m' = parent_coro (frame_promise f) \<and>
    dom (mc_frames m') = dom (mc_frames m) \<and> (\<forall>h'. h' \<noteq> h \<longrightarrow> mc_frames m' h' = mc_frames m h')"
proof -
  have h: "h \<noteq> 0" using assms(2,4) by (auto simp: machine_ok_def)
  from run_body [OF assms] obtain n m' where s: "run_steps mem n m = Inr m'"
    and r: "frame_run h f (call_outcome b) m m'" by blast
  from r h assms(4) have "await_resume (mc_frames m') h = Inr (call_outcome b)"
    "await_ready (mc_frames m') h = Inr True" "mc_current m' = parent_coro (frame_promise f)"
    "dom (mc_frames m') = dom (mc_frames m)" "\<forall>h'. h' \<noteq> h \<longrightarrow> mc_frames m' h' = mc_frames m h'"
    by (auto simp: frame_run_def await_resume_def await_ready_def frame_done_def split: if_splits)
  with s show ?thesis by blast
qed

text \<open>
  A task of another task catches the exception of the task it awaits and awaits one more for its
  value; the memory of the frames holds anything.
\<close>

definition body_example :: "(nat, string) body" where
  "body_example = CoAwait KindVoid (CoThrow ''eof'')
     (\<lambda>r. case r of Inl e \<Rightarrow> CoAwait KindT (CoReturn (Some (length e)))
            (\<lambda>r. case r of Inr (Some v) \<Rightarrow> CoReturn (Some (v + 1)) | _ \<Rightarrow> CoThrow ''none'')
        | Inr v \<Rightarrow> CoReturn (Some 0))"

definition machine_example :: "(nat, string) machine" where
  "machine_example = \<lparr>mc_frames = [1 \<mapsto> frame_new 9 KindT body_example], mc_next = 2, mc_current = Some 1\<rparr>"

theorem task_is_call_witness:
  "\<exists>n m'. run_steps (\<lambda>_. 9) n machine_example = Inr m' \<and> await_resume (mc_frames m') 1 = Inr (Inr (Some 4)) \<and>
     mc_current m' = None \<and> dom (mc_frames m') = {1}"
proof -
  have t: "body_typed KindT body_example"
    by (auto simp: body_example_def split: sum.split option.split)
  have ok: "machine_ok machine_example" by (simp add: machine_ok_def machine_example_def)
  have f: "mc_current machine_example = Some 1" "mc_frames machine_example 1 = Some (frame_new 9 KindT body_example)"
    "frame_point (frame_new 9 KindT body_example) = AtBody body_example"
    "promise_fresh 9 KindT (frame_promise (frame_new 9 KindT body_example))"
    "parent_coro (frame_promise (frame_new 9 KindT body_example)) = None" "dom (mc_frames machine_example) = {1}"
    by (simp_all add: machine_example_def frame_new_def promise_fresh_def promise_new_def)
  have q: "exceptions_safe (\<lambda>_. 9) KindT body_example" by (simp add: exceptions_safe_def body_example_def)
  have "call_outcome body_example = Inr (Some 4)" by (simp add: body_example_def)
  with task_is_call [where mem = "\<lambda>_. 9", OF t ok f(1-4) q] show ?thesis unfolding f(5,6) by metis
qed

end
