(* ===== verification/Task_Owner.thy ===== *)
theory Task_Owner
  imports Task
begin

text \<open>
  The objects of class \<^verbatim>\<open>task\<close>, which own coroutine frames: construction, moves, \<open>swap\<close>,
  destruction, \<open>detach\<close> and the hand-over of a detached task to an event loop by \<open>co_spawn\<close>,
  while the coroutines end at any time.
\<close>

section \<open>Objects and operations\<close>

text \<open>An object is a name bound to its handle, 0 when it owns nothing.\<close>

record ('v, 'e) task_heap =
  th_frames :: "('v, 'e) frames"
  th_next :: nat
  th_objs :: "nat \<rightharpoonup> nat"
  th_spawned :: "nat list"

datatype ('v, 'e) task_op =
    TaskDefault nat
  | TaskNew nat ptr result_kind "('v, 'e) body"   \<comment> \<open>with the bits in the memory of the frame\<close>
  | TaskMove nat nat
  | TaskMoveAssign nat nat
  | TaskSwap nat nat
  | TaskDestroy nat
  | TaskDetach nat
  | TaskCoSpawn nat
  | CoroutineEnds nat "'e + 'v option"

definition task_handle :: "('v, 'e) task_heap \<Rightarrow> nat \<Rightarrow> nat" where
  "task_handle s o' = (case th_objs s o' of None \<Rightarrow> 0 | Some h \<Rightarrow> h)"

definition destroy_handle :: "nat \<Rightarrow> ('v, 'e) task_heap \<Rightarrow> 'e task_fault + ('v, 'e) task_heap" where
  "destroy_handle h s =
     (if h \<noteq> 0 then (case frame_destroy h (th_frames s) of Inl x \<Rightarrow> Inl x | Inr fs \<Rightarrow> Inr (s\<lparr>th_frames := fs\<rparr>))
      else Inr s)"

definition task_new :: "nat \<Rightarrow> ptr \<Rightarrow> result_kind \<Rightarrow> ('v, 'e) body \<Rightarrow> ('v, 'e) task_heap \<Rightarrow> ('v, 'e) task_heap" where
  "task_new x bits k b s = s\<lparr>th_frames := (th_frames s)(th_next s \<mapsto> frame_new bits k b),
     th_next := th_next s + 1, th_objs := (th_objs s)(x \<mapsto> th_next s)\<rparr>"

definition task_move :: "nat \<Rightarrow> nat \<Rightarrow> ('v, 'e) task_heap \<Rightarrow> ('v, 'e) task_heap" where
  "task_move x other s = s\<lparr>th_objs := (th_objs s)(x \<mapsto> task_handle s other, other \<mapsto> 0)\<rparr>"

definition task_move_assign :: "nat \<Rightarrow> nat \<Rightarrow> ('v, 'e) task_heap \<Rightarrow> 'e task_fault + ('v, 'e) task_heap" where
  "task_move_assign x other s =
     (if x \<noteq> other then
        (case destroy_handle (task_handle s x) s of
           Inl e \<Rightarrow> Inl e
         | Inr s' \<Rightarrow> Inr (s'\<lparr>th_objs := (th_objs s')(x \<mapsto> task_handle s' other, other \<mapsto> 0)\<rparr>))
      else Inr s)"

definition task_swap :: "nat \<Rightarrow> nat \<Rightarrow> ('v, 'e) task_heap \<Rightarrow> ('v, 'e) task_heap" where
  "task_swap a b s = s\<lparr>th_objs := (th_objs s)(a \<mapsto> task_handle s b, b \<mapsto> task_handle s a)\<rparr>"

definition task_destroy :: "nat \<Rightarrow> ('v, 'e) task_heap \<Rightarrow> 'e task_fault + ('v, 'e) task_heap" where
  "task_destroy x s =
     (case destroy_handle (task_handle s x) s of
        Inl e \<Rightarrow> Inl e
      | Inr s' \<Rightarrow> Inr (s'\<lparr>th_objs := (th_objs s')(x := None)\<rparr>))"

text \<open>Only a task without a value keeps a mark that it is detached.\<close>

definition set_detached :: "('v, 'e) frame \<Rightarrow> ('v, 'e) frame" where
  "set_detached f = (case promised (frame_promise f) of
       PromiseVoid x \<Rightarrow> f\<lparr>frame_promise := (frame_promise f)\<lparr>promised := PromiseVoid SlotDetached\<rparr>\<rparr>
     | _ \<Rightarrow> f)"

definition task_detach :: "result_kind \<Rightarrow> nat \<Rightarrow> ('v, 'e) task_heap \<Rightarrow> 'e task_fault + ('v, 'e) task_heap" where
  "task_detach k x s =
     (let h = task_handle s x; s' = s\<lparr>th_objs := (th_objs s)(x \<mapsto> 0)\<rparr>
      in if k = KindVoid then
           (if h = 0 then Inl NullHandle
            else case th_frames s h of
                None \<Rightarrow> Inl Dangling
              | Some f \<Rightarrow> Inr (s'\<lparr>th_frames := (th_frames s)(h \<mapsto> set_detached f)\<rparr>))
         else Inr s')"

definition task_co_spawn :: "nat \<Rightarrow> ('v, 'e) task_heap \<Rightarrow> 'e task_fault + ('v, 'e) task_heap" where
  "task_co_spawn x s =
     (let h = task_handle s x
      in case task_detach KindVoid x s of
           Inl e \<Rightarrow> Inl e
         | Inr s' \<Rightarrow> Inr (s'\<lparr>th_spawned := th_spawned s' @ [h]\<rparr>))"

definition coroutine_ends ::
    "nat \<Rightarrow> 'e + 'v option \<Rightarrow> ('v, 'e) task_heap \<Rightarrow> 'e task_fault + ('v, 'e) task_heap" where
  "coroutine_ends h out s =
     (case th_frames s h of
        None \<Rightarrow> Inl Dangling
      | Some f \<Rightarrow> (case frame_finish out f of
          Inl x \<Rightarrow> Inl x
        | Inr f' \<Rightarrow> Inr (s\<lparr>th_frames := fst (final_await_suspend h f' (th_frames s))\<rparr>)))"

fun kind_at :: "('v, 'e) task_heap \<Rightarrow> nat \<Rightarrow> result_kind" where
  "kind_at s h = (case th_frames s h of None \<Rightarrow> KindVoid | Some f \<Rightarrow> kind_of (promised (frame_promise f)))"

fun task_exec :: "('v, 'e) task_op \<Rightarrow> ('v, 'e) task_heap \<Rightarrow> 'e task_fault + ('v, 'e) task_heap" where
  "task_exec (TaskDefault x) s = Inr (s\<lparr>th_objs := (th_objs s)(x \<mapsto> 0)\<rparr>)"
| "task_exec (TaskNew x bits k b) s = Inr (task_new x bits k b s)"
| "task_exec (TaskMove x other) s = Inr (task_move x other s)"
| "task_exec (TaskMoveAssign x other) s = task_move_assign x other s"
| "task_exec (TaskSwap a b) s = Inr (task_swap a b s)"
| "task_exec (TaskDestroy x) s = task_destroy x s"
| "task_exec (TaskDetach x) s = task_detach (kind_at s (task_handle s x)) x s"
| "task_exec (TaskCoSpawn x) s = task_co_spawn x s"
| "task_exec (CoroutineEnds h out) s = coroutine_ends h out s"

text \<open>
  What a program may do: it names objects that exist, and constructs those that do not; it
  detaches a task only if that has a coroutine, finished or not, with a value or without, and hands
  to an event loop a task without a value; a coroutine ends once.
\<close>

fun task_may :: "('v, 'e) task_op \<Rightarrow> ('v, 'e) task_heap \<Rightarrow> bool" where
  "task_may (TaskDefault x) s \<longleftrightarrow> th_objs s x = None"
| "task_may (TaskNew x bits k b) s \<longleftrightarrow> th_objs s x = None"
| "task_may (TaskMove x other) s \<longleftrightarrow> th_objs s x = None \<and> th_objs s other \<noteq> None"
| "task_may (TaskMoveAssign x other) s \<longleftrightarrow> th_objs s x \<noteq> None \<and> th_objs s other \<noteq> None"
| "task_may (TaskSwap a b) s \<longleftrightarrow> th_objs s a \<noteq> None \<and> th_objs s b \<noteq> None"
| "task_may (TaskDestroy x) s \<longleftrightarrow> th_objs s x \<noteq> None"
| "task_may (TaskDetach x) s \<longleftrightarrow> th_objs s x \<noteq> None \<and> task_handle s x \<noteq> 0"
| "task_may (TaskCoSpawn x) s \<longleftrightarrow>
     th_objs s x \<noteq> None \<and> task_handle s x \<noteq> 0 \<and> kind_at s (task_handle s x) = KindVoid"
| "task_may (CoroutineEnds h out) s \<longleftrightarrow> (case th_frames s h of None \<Rightarrow> False | Some f \<Rightarrow> \<not> frame_done f)"

text \<open>\<open>None\<close> is a program that does what it may not.\<close>

fun task_program :: "('v, 'e) task_op list \<Rightarrow> ('v, 'e) task_heap \<Rightarrow> ('e task_fault + ('v, 'e) task_heap) option" where
  "task_program [] s = Some (Inr s)"
| "task_program (op # ops) s =
     (if task_may op s then (case task_exec op s of Inl x \<Rightarrow> Some (Inl x) | Inr s' \<Rightarrow> task_program ops s') else None)"

text \<open>
  The frames that a program abandons: a detached coroutine destroys its own frame when it ends, but
  only that of a task without a value, and only if it is still to end.
\<close>

definition ends_itself :: "('v, 'e) task_heap \<Rightarrow> nat \<Rightarrow> bool" where
  "ends_itself s h \<longleftrightarrow> (case th_frames s h of None \<Rightarrow> False
     | Some f \<Rightarrow> kind_of (promised (frame_promise f)) = KindVoid \<and> \<not> frame_done f)"

fun abandons :: "('v, 'e) task_op \<Rightarrow> ('v, 'e) task_heap \<Rightarrow> nat set" where
  "abandons (TaskDetach x) s = (if ends_itself s (task_handle s x) then {} else {task_handle s x})"
| "abandons (TaskCoSpawn x) s = (if ends_itself s (task_handle s x) then {} else {task_handle s x})"
| "abandons op s = {}"

fun abandoned :: "('v, 'e) task_op list \<Rightarrow> ('v, 'e) task_heap \<Rightarrow> nat set" where
  "abandoned [] s = {}"
| "abandoned (op # ops) s =
     abandons op s \<union> (case task_exec op s of Inl x \<Rightarrow> {} | Inr s' \<Rightarrow> abandoned ops s')"

definition task_heap_new :: "('v, 'e) task_heap" where
  "task_heap_new = \<lparr>th_frames = Map.empty, th_next = 1, th_objs = Map.empty, th_spawned = []\<rparr>"

section \<open>Who owns a frame\<close>

definition owned :: "('v, 'e) task_heap \<Rightarrow> nat \<Rightarrow> nat \<Rightarrow> bool" where
  "owned s x h \<longleftrightarrow> th_objs s x = Some h \<and> h \<noteq> 0"

definition runs_detached :: "('v, 'e) task_heap \<Rightarrow> nat \<Rightarrow> bool" where
  "runs_detached s h \<longleftrightarrow> (\<exists>f. th_frames s h = Some f \<and> is_detached f \<and> \<not> frame_done f)"

text \<open>
  A frame has exactly one owner, or is detached and has not ended, or is one of the abandoned frames
  \<open>A\<close>, which have a value or have ended; the owners have nothing else.
\<close>

definition own_inv :: "nat set \<Rightarrow> ('v, 'e) task_heap \<Rightarrow> bool" where
  "own_inv A s \<longleftrightarrow>
     (\<forall>x h. owned s x h \<longrightarrow> h \<notin> A \<and> (\<exists>f. th_frames s h = Some f \<and> \<not> is_detached f)) \<and>
     (\<forall>x y h. owned s x h \<longrightarrow> owned s y h \<longrightarrow> x = y) \<and>
     (\<forall>h f. th_frames s h = Some f \<longrightarrow>
        0 < h \<and> h < th_next s \<and> ((\<exists>x. owned s x h) \<or> is_detached f \<and> \<not> frame_done f \<or> h \<in> A)) \<and>
     (\<forall>h\<in>A. \<exists>f. th_frames s h = Some f \<and> (kind_of (promised (frame_promise f)) \<noteq> KindVoid \<or> frame_done f)) \<and>
     0 < th_next s"

lemma own_inv_new: "own_inv {} task_heap_new"
  by (simp add: own_inv_def owned_def task_heap_new_def)

lemma task_handle_owned: "th_objs s x \<noteq> None \<Longrightarrow> task_handle s x = h \<Longrightarrow> h \<noteq> 0 \<Longrightarrow> owned s x h"
  by (auto simp: task_handle_def owned_def)

lemma own_invD:
  assumes "own_inv A s"
  shows "owned s x h \<Longrightarrow> h \<notin> A \<and> (\<exists>f. th_frames s h = Some f \<and> \<not> is_detached f)"
    and "owned s x h \<Longrightarrow> owned s y h \<Longrightarrow> x = y"
    and "th_frames s h = Some f \<Longrightarrow>
      0 < h \<and> h < th_next s \<and> ((\<exists>x. owned s x h) \<or> is_detached f \<and> \<not> frame_done f \<or> h \<in> A)"
    and "h \<in> A \<Longrightarrow> \<exists>f. th_frames s h = Some f \<and> (kind_of (promised (frame_promise f)) \<noteq> KindVoid \<or> frame_done f)"
    and "0 < th_next s" and "th_frames s (th_next s) = None"
proof -
  show "th_frames s (th_next s) = None" using assms unfolding own_inv_def by (metis less_irrefl not_None_eq)
qed (use assms in \<open>unfold own_inv_def, blast+\<close>)

lemma own_invI:
  assumes "\<And>x h. owned s x h \<Longrightarrow> h \<notin> A \<and> (\<exists>f. th_frames s h = Some f \<and> \<not> is_detached f)"
    and "\<And>x y h. owned s x h \<Longrightarrow> owned s y h \<Longrightarrow> x = y"
    and "\<And>h f. th_frames s h = Some f \<Longrightarrow>
      0 < h \<and> h < th_next s \<and> ((\<exists>x. owned s x h) \<or> is_detached f \<and> \<not> frame_done f \<or> h \<in> A)"
    and "\<And>h. h \<in> A \<Longrightarrow>
      \<exists>f. th_frames s h = Some f \<and> (kind_of (promised (frame_promise f)) \<noteq> KindVoid \<or> frame_done f)"
    and "0 < th_next s"
  shows "own_inv A s"
  using assms unfolding own_inv_def by simp

lemma own_inv_objs:
  assumes "own_inv A s" and "th_frames s' = th_frames s" and "th_next s' = th_next s"
    and "\<And>x h. owned s' x h \<Longrightarrow> owned s (g x) h" and "\<And>x h. owned s x h \<Longrightarrow> \<exists>y. owned s' y h"
    and "\<And>x y h. owned s' x h \<Longrightarrow> owned s' y h \<Longrightarrow> g x = g y \<Longrightarrow> x = y"
  shows "own_inv A s'"
proof (rule own_invI)
  fix x y h f
  show "owned s' x h \<Longrightarrow> h \<notin> A \<and> (\<exists>f. th_frames s' h = Some f \<and> \<not> is_detached f)"
    using own_invD(1) [OF assms(1) assms(4)] by (simp add: assms(2))
  show "x = y" if "owned s' x h" "owned s' y h"
    using assms(6) [OF that] own_invD(2) [OF assms(1) assms(4) [OF that(1)] assms(4) [OF that(2)]] by blast
  show "0 < h \<and> h < th_next s' \<and> ((\<exists>x. owned s' x h) \<or> is_detached f \<and> \<not> frame_done f \<or> h \<in> A)"
    if "th_frames s' h = Some f"
    using assms(5) own_invD(3) [OF assms(1), of h f] that by (auto simp: assms(2,3))
qed (use own_invD(4,5) [OF assms(1)] in \<open>simp_all add: assms(2,3)\<close>)

text \<open>The owner of a frame gives it up and the frame is destroyed.\<close>

lemma own_inv_drop:
  assumes inv: "own_inv A s" and x: "th_objs s x \<noteq> None"
  obtains s' where "destroy_handle (task_handle s x) s = Inr s'" and "th_objs s' = th_objs s"
    and "\<And>objs. objs x = None \<or> objs x = Some 0 \<Longrightarrow> (\<And>y. y \<noteq> x \<Longrightarrow> objs y = th_objs s y) \<Longrightarrow>
      own_inv A (s'\<lparr>th_objs := objs\<rparr>)"
proof (cases "task_handle s x = 0")
  case True
  then have d: "destroy_handle (task_handle s x) s = Inr s" by (simp add: destroy_handle_def)
  have "own_inv A (s\<lparr>th_objs := objs\<rparr>)"
    if "objs x = None \<or> objs x = Some 0" "\<And>y. y \<noteq> x \<Longrightarrow> objs y = th_objs s y" for objs
  proof (rule own_inv_objs [OF inv, where g = "\<lambda>x. x"])
    have e: "owned (s\<lparr>th_objs := objs\<rparr>) y h = owned s y h" for y h
      using that True by (cases "y = x") (auto simp: owned_def task_handle_def split: option.splits)
    fix y h
    show "owned (s\<lparr>th_objs := objs\<rparr>) y h \<Longrightarrow> owned s y h" by (simp add: e)
    show "owned s y h \<Longrightarrow> \<exists>z. owned (s\<lparr>th_objs := objs\<rparr>) z h" by (auto simp: e)
  qed simp_all
  with d that [of s] show ?thesis by simp
next
  case False
  define h where "h = task_handle s x"
  have o: "owned s x h" using task_handle_owned [OF x] False by (simp add: h_def)
  then obtain f where f: "th_frames s h = Some f" using own_invD(1) [OF inv] by blast
  have d: "destroy_handle h s = Inr (s\<lparr>th_frames := (th_frames s)(h := None)\<rparr>)"
    using False f by (simp add: destroy_handle_def frame_destroy_def h_def)
  have "own_inv A (s\<lparr>th_frames := (th_frames s)(h := None), th_objs := objs\<rparr>)"
    if objs: "objs x = None \<or> objs x = Some 0" "\<And>y. y \<noteq> x \<Longrightarrow> objs y = th_objs s y" for objs
  proof -
    have e: "owned (s\<lparr>th_frames := (th_frames s)(h := None), th_objs := objs\<rparr>) y k \<longleftrightarrow> owned s y k \<and> k \<noteq> h" for y k
    proof (cases "y = x")
      case True
      with objs(1) o show ?thesis by (auto simp: owned_def)
    next
      case False
      have "owned s y k \<Longrightarrow> k \<noteq> h" using inv o False unfolding own_inv_def by blast
      with objs(2) False show ?thesis by (auto simp: owned_def)
    qed
    have "h \<notin> A" using own_invD(1) [OF inv o] by blast
    then show ?thesis using own_invD [OF inv] unfolding own_inv_def e by auto
  qed
  with d that [of "s\<lparr>th_frames := (th_frames s)(h := None)\<rparr>"] show ?thesis by (simp add: h_def)
qed

lemma own_inv_default:
  assumes "own_inv A s" and "th_objs s x = None"
  shows "own_inv A (s\<lparr>th_objs := (th_objs s)(x \<mapsto> 0)\<rparr>)"
proof -
  have "owned (s\<lparr>th_objs := (th_objs s)(x \<mapsto> 0)\<rparr>) y h = owned s y h" for y h using assms(2) by (auto simp: owned_def)
  then show ?thesis using assms(1) by (simp add: own_inv_def)
qed

lemma own_inv_create:
  assumes "own_inv A s" and "th_objs s x = None"
  shows "own_inv A (task_new x bits k b s)"
proof -
  have fresh: "th_frames s (th_next s) = None" "0 < th_next s" using own_invD(5,6) [OF assms(1)] by simp_all
  have e: "owned (task_new x bits k b s) y h \<longleftrightarrow> owned s y h \<or> y = x \<and> h = th_next s" for y h
    using assms(2) fresh by (auto simp: owned_def task_new_def)
  have nd: "\<not> is_detached (frame_new bits k b)" by (cases k) (simp_all add: is_detached_def frame_new_def promise_new_def)
  have old: "owned s y h \<Longrightarrow> h \<noteq> th_next s" for y h using assms(1) by (fastforce simp: own_inv_def)
  have fA: "th_next s \<notin> A" using own_invD(4) [OF assms(1), of "th_next s"] fresh(1) by auto
  show ?thesis
  proof (rule own_invI)
    fix y z h f
    show "owned (task_new x bits k b s) y h \<Longrightarrow>
        h \<notin> A \<and> (\<exists>f. th_frames (task_new x bits k b s) h = Some f \<and> \<not> is_detached f)"
      unfolding e using own_invD(1) [OF assms(1), of y h] nd old fA by (auto simp: task_new_def)
    show "owned (task_new x bits k b s) y h \<Longrightarrow> owned (task_new x bits k b s) z h \<Longrightarrow> y = z"
      using own_invD(2) [OF assms(1), of y h z] old by (auto simp: e)
    show "0 < h \<and> h < th_next (task_new x bits k b s) \<and>
        ((\<exists>y. owned (task_new x bits k b s) y h) \<or> is_detached f \<and> \<not> frame_done f \<or> h \<in> A)"
      if "th_frames (task_new x bits k b s) h = Some f"
      using own_invD(3) [OF assms(1), of h f] that fresh(2) unfolding e
      by (auto simp: task_new_def less_Suc_eq split: if_splits)
    show "h \<in> A \<Longrightarrow> \<exists>f. th_frames (task_new x bits k b s) h = Some f \<and>
        (kind_of (promised (frame_promise f)) \<noteq> KindVoid \<or> frame_done f)"
      using own_invD(4) [OF assms(1), of h] fA by (auto simp: task_new_def)
  qed (simp add: task_new_def)
qed

lemma own_inv_move:
  assumes "own_inv A s" and "th_objs s x = None \<or> th_objs s x = Some 0" and "th_objs s other \<noteq> None" and "x \<noteq> other"
  shows "own_inv A (task_move x other s)"
proof (rule own_inv_objs [OF assms(1), where g = "\<lambda>y. if y = x then other else y"])
  obtain h where h: "th_objs s other = Some h" using assms(3) by blast
  have e: "owned (task_move x other s) y k \<longleftrightarrow> (if y = x then owned s other k else if y = other then False else owned s y k)"
    for y k using h assms(4) by (auto simp: owned_def task_move_def task_handle_def)
  fix y k
  show "owned (task_move x other s) y k \<Longrightarrow> owned s (if y = x then other else y) k"
    by (auto simp: e split: if_splits)
  have "owned s y k \<Longrightarrow> y \<noteq> x" using assms(2) by (auto simp: owned_def)
  then show "owned s y k \<Longrightarrow> \<exists>z. owned (task_move x other s) z k" using assms(4)
    by (cases "y = other") (auto simp: e)
next
  fix y z k
  show "owned (task_move x other s) y k \<Longrightarrow> owned (task_move x other s) z k \<Longrightarrow>
      (if y = x then other else y) = (if z = x then other else z) \<Longrightarrow> y = z"
    using assms(4) by (auto simp: owned_def task_move_def split: if_splits)
qed (simp_all add: task_move_def)

lemma own_inv_swap:
  assumes "own_inv A s" and "th_objs s a \<noteq> None" and "th_objs s b \<noteq> None"
  shows "own_inv A (task_swap a b s)"
proof (rule own_inv_objs [OF assms(1), where g = "\<lambda>y. if y = a then b else if y = b then a else y"])
  have e: "owned (task_swap a b s) y k \<longleftrightarrow> owned s (if y = a then b else if y = b then a else y) k" for y k
    using assms(2,3) by (auto simp: owned_def task_swap_def task_handle_def)
  fix y k
  show "owned (task_swap a b s) y k \<Longrightarrow> owned s (if y = a then b else if y = b then a else y) k" by (simp add: e)
  show "owned s y k \<Longrightarrow> \<exists>z. owned (task_swap a b s) z k"
    by (rule exI [of _ "if y = a then b else if y = b then a else y"]) (auto simp: e)
qed (auto simp: task_swap_def split: if_splits)

text \<open>A frame loses its owner: it runs detached, or is abandoned.\<close>

lemma set_detached_keeps:
  "frame_done (set_detached f) = frame_done f"
  "kind_of (promised (frame_promise (set_detached f))) = kind_of (promised (frame_promise f))"
  "kind_of (promised (frame_promise f)) = KindVoid \<Longrightarrow> is_detached (set_detached f)"
  by (auto simp: set_detached_def frame_done_def is_detached_def split: promise_result.splits)

lemma own_inv_detach:
  assumes inv: "own_inv A s" and x: "th_objs s x \<noteq> None" and h0: "task_handle s x \<noteq> 0"
  obtains s' where "task_detach (kind_at s (task_handle s x)) x s = Inr s'"
    and "own_inv (abandons (TaskDetach x) s \<union> A) s'" and "th_spawned s' = th_spawned s"
proof -
  define h where "h = task_handle s x"
  define B where "B = abandons (TaskDetach x) s \<union> A"
  have o: "owned s x h" using task_handle_owned [OF x] h0 by (simp add: h_def)
  then obtain f where f: "th_frames s h = Some f" "\<not> is_detached f" "h \<notin> A" using own_invD(1) [OF inv] by blast
  define f' where "f' = (if kind_of (promised (frame_promise f)) = KindVoid then set_detached f else f)"
  define s' where "s' = s\<lparr>th_objs := (th_objs s)(x \<mapsto> 0), th_frames := (th_frames s)(h \<mapsto> f')\<rparr>"
  have d: "task_detach (kind_at s h) x s = Inr s'"
    using h0 f(1) by (auto simp: task_detach_def h_def s'_def f'_def Let_def fun_upd_idem)
  have B: "B = (if kind_of (promised (frame_promise f)) = KindVoid \<and> \<not> frame_done f then A else insert h A)"
    using f(1) by (auto simp: B_def ends_itself_def h_def)
  have k: "frame_done f' = frame_done f" "kind_of (promised (frame_promise f')) = kind_of (promised (frame_promise f))"
    "kind_of (promised (frame_promise f)) = KindVoid \<Longrightarrow> is_detached f'"
    by (simp_all add: f'_def set_detached_keeps)
  have e: "owned s' y k \<longleftrightarrow> owned s y k \<and> k \<noteq> h" for y k
  proof (cases "y = x")
    case True
    with o show ?thesis by (auto simp: owned_def s'_def)
  next
    case False
    have "owned s y k \<Longrightarrow> k \<noteq> h" using own_invD(2) [OF inv] o False by blast
    with False show ?thesis by (auto simp: owned_def s'_def)
  qed
  have fr: "th_frames s' = (th_frames s)(h \<mapsto> f')" "th_next s' = th_next s" by (simp_all add: s'_def)
  have "own_inv B s'" unfolding own_inv_def e fr
  proof (intro conjI)
    show "\<forall>y k. owned s y k \<and> k \<noteq> h \<longrightarrow> k \<notin> B \<and> (\<exists>g. ((th_frames s)(h \<mapsto> f')) k = Some g \<and> \<not> is_detached g)"
      using own_invD(1) [OF inv] by (auto simp: B)
    show "\<forall>y z k. owned s y k \<and> k \<noteq> h \<longrightarrow> owned s z k \<and> k \<noteq> h \<longrightarrow> y = z"
      using own_invD(2) [OF inv] by blast
    show "\<forall>k g. ((th_frames s)(h \<mapsto> f')) k = Some g \<longrightarrow> 0 < k \<and> k < th_next s \<and>
        ((\<exists>y. owned s y k \<and> k \<noteq> h) \<or> is_detached g \<and> \<not> frame_done g \<or> k \<in> B)"
      using own_invD(3) [OF inv] f(1) k by (auto simp: B)
    show "\<forall>k\<in>B. \<exists>g. ((th_frames s)(h \<mapsto> f')) k = Some g \<and>
        (kind_of (promised (frame_promise g)) \<noteq> KindVoid \<or> frame_done g)"
      using own_invD(4) [OF inv] f(3) k by (auto simp: B)
    show "0 < th_next s" by (rule own_invD(5) [OF inv])
  qed
  with d that show ?thesis by (simp add: B_def h_def s'_def)
qed

lemma return_value_detached:
  "(case return_value v p of PromiseVoid SlotDetached \<Rightarrow> True | _ \<Rightarrow> False) =
   (case p of PromiseVoid SlotDetached \<Rightarrow> True | _ \<Rightarrow> False)"
  by (cases v; cases p) simp_all

lemma return_value_kind: "kind_of (return_value v p) = kind_of p"
  by (cases v; cases p) simp_all

lemma frame_finish_keeps:
  assumes "frame_finish out f = Inr f'"
  shows "is_detached f' = is_detached f" and "frame_done f'"
    and "kind_of (promised (frame_promise f')) = kind_of (promised (frame_promise f))"
proof -
  have "is_detached f' = is_detached f \<and> kind_of (promised (frame_promise f')) = kind_of (promised (frame_promise f))"
  proof (cases out)
    case (Inr v)
    with assms have "f' = f\<lparr>frame_promise := (frame_promise f)\<lparr>promised := return_value v (promised (frame_promise f))\<rparr>,
        frame_point := AtEnd\<rparr>" by (simp add: frame_finish_def)
    then show ?thesis by (simp add: is_detached_def return_value_detached return_value_kind)
  next
    case (Inl e)
    with assms show ?thesis
      by (cases "promised (frame_promise f)")
        (auto simp: frame_finish_def is_detached_def value_unhandled_exception_eq split: if_splits void_slot.splits)
  qed
  then show "is_detached f' = is_detached f" "kind_of (promised (frame_promise f')) = kind_of (promised (frame_promise f))"
    by simp_all
  show "frame_done f'" using assms
    by (cases out) (auto simp: frame_finish_def frame_done_def split: sum.splits)
qed

text \<open>The exceptions that get out: of a detached coroutine, or through a wild pointer.\<close>

definition escapes :: "'e task_fault \<Rightarrow> bool" where
  "escapes x \<longleftrightarrow> x = WildException \<or> (\<exists>e. x = Thrown e)"

lemma own_inv_ends:
  assumes inv: "own_inv A s" and f: "th_frames s h = Some f" "\<not> frame_done f"
  shows "case coroutine_ends h out s of Inl x \<Rightarrow> escapes x | Inr s' \<Rightarrow> own_inv A s'"
proof (cases "frame_finish out f")
  case (Inl x)
  then have "escapes x"
    by (cases out; cases "promised (frame_promise f)")
      (auto simp: frame_finish_def escapes_def value_unhandled_exception_eq split: if_splits)
  with Inl f(1) show ?thesis by (simp add: coroutine_ends_def)
next
  case (Inr f')
  note k = frame_finish_keeps [OF Inr]
  let ?s = "s\<lparr>th_frames := fst (final_await_suspend h f' (th_frames s))\<rparr>"
  have e: "owned ?s y k = owned s y k" for y k by (simp add: owned_def)
  have "own_inv A ?s"
  proof (cases "is_detached f")
    case True
    then have no: "\<not> owned s y h" for y using own_invD(1) [OF inv] f(1) by fastforce
    have "kind_of (promised (frame_promise f)) = KindVoid"
      using True by (auto simp: is_detached_def split: promise_result.splits)
    with f own_invD(4) [OF inv] have "h \<notin> A" by fastforce
    then show ?thesis using inv True k no unfolding own_inv_def e by (auto simp: final_await_suspend_def)
  next
    case False
    then have "0 < h" "h < th_next s" "(\<exists>y. owned s y h) \<or> h \<in> A" using own_invD(3) [OF inv f(1)] by blast+
    then show ?thesis using inv False k unfolding own_inv_def e by (auto simp: final_await_suspend_def)
  qed
  with Inr f(1) show ?thesis by (simp add: coroutine_ends_def)
qed

lemma task_exec_inv:
  assumes "own_inv A s" and "task_may op s"
  shows "case task_exec op s of Inl x \<Rightarrow> escapes x | Inr s' \<Rightarrow> own_inv (abandons op s \<union> A) s'"
proof (cases op)
  case (TaskDefault x)
  then show ?thesis using assms own_inv_default by auto
next
  case (TaskNew x bits k b)
  then show ?thesis using assms own_inv_create by auto
next
  case (TaskMove x other)
  then have "x \<noteq> other" using assms(2) by auto
  moreover have "th_objs s x = None" "th_objs s other \<noteq> None" using TaskMove assms(2) by simp_all
  ultimately show ?thesis using TaskMove own_inv_move [OF assms(1)] by simp
next
  case (TaskMoveAssign x other)
  then have o: "th_objs s x \<noteq> None" "th_objs s other \<noteq> None" using assms(2) by simp_all
  show ?thesis
  proof (cases "x = other")
    case False
    from own_inv_drop [OF assms(1) o(1)] obtain s' where
      d: "destroy_handle (task_handle s x) s = Inr s'" "th_objs s' = th_objs s"
      and inv': "own_inv A (s'\<lparr>th_objs := (th_objs s)(x \<mapsto> 0)\<rparr>)" by (metis fun_upd_other fun_upd_same)
    have "own_inv A (task_move x other (s'\<lparr>th_objs := (th_objs s)(x \<mapsto> 0)\<rparr>))"
      using o False by (intro own_inv_move [OF inv']) auto
    moreover have "task_move x other (s'\<lparr>th_objs := (th_objs s)(x \<mapsto> 0)\<rparr>) =
        s'\<lparr>th_objs := (th_objs s')(x \<mapsto> task_handle s' other, other \<mapsto> 0)\<rparr>"
      using False d(2) by (simp add: task_move_def task_handle_def)
    ultimately show ?thesis using TaskMoveAssign False d by (simp add: task_move_assign_def)
  qed (use TaskMoveAssign assms in \<open>simp add: task_move_assign_def\<close>)
next
  case (TaskSwap a b)
  then have "th_objs s a \<noteq> None" "th_objs s b \<noteq> None" using assms(2) by simp_all
  then show ?thesis using TaskSwap own_inv_swap [OF assms(1)] by simp
next
  case (TaskDestroy x)
  then have "th_objs s x \<noteq> None" using assms(2) by simp
  from own_inv_drop [OF assms(1) this] obtain s' where
    "destroy_handle (task_handle s x) s = Inr s'" "th_objs s' = th_objs s"
    "own_inv A (s'\<lparr>th_objs := (th_objs s)(x := None)\<rparr>)" by (metis fun_upd_other fun_upd_same)
  with TaskDestroy show ?thesis by (simp add: task_destroy_def)
next
  case (TaskDetach x)
  then have "th_objs s x \<noteq> None" "task_handle s x \<noteq> 0" using assms(2) by simp_all
  from own_inv_detach [OF assms(1) this] TaskDetach show ?thesis by (metis task_exec.simps(7) sum.case(2))
next
  case (TaskCoSpawn x)
  then have "th_objs s x \<noteq> None" "task_handle s x \<noteq> 0" "kind_at s (task_handle s x) = KindVoid"
    using assms(2) by simp_all
  with own_inv_detach [OF assms(1)] obtain s' where
    d: "task_detach KindVoid x s = Inr s'" "own_inv (abandons (TaskDetach x) s \<union> A) s'" by metis
  have "own_inv (abandons (TaskDetach x) s \<union> A) (s'\<lparr>th_spawned := l\<rparr>)" for l
    by (rule own_inv_objs [OF d(2), where g = "\<lambda>x. x"]) (auto simp: owned_def)
  with TaskCoSpawn d(1) show ?thesis by (simp add: task_co_spawn_def)
next
  case (CoroutineEnds h out)
  then obtain f where "th_frames s h = Some f" "\<not> frame_done f" using assms(2) by (auto split: option.splits)
  from own_inv_ends [OF assms(1) this, of out] CoroutineEnds show ?thesis by (auto split: sum.splits)
qed

lemma task_program_inv:
  "own_inv A s \<Longrightarrow> task_program ops s = Some r \<Longrightarrow>
   (case r of Inl x \<Rightarrow> escapes x | Inr s' \<Rightarrow> own_inv (abandoned ops s \<union> A) s')"
proof (induction ops arbitrary: s A)
  case (Cons op ops)
  then have may: "task_may op s" by (auto split: if_splits)
  show ?case
  proof (cases "task_exec op s")
    case (Inl x)
    then show ?thesis using Cons.prems(2) may task_exec_inv [OF Cons.prems(1) may] by (auto simp: Inl)
  next
    case (Inr s1)
    then have "own_inv (abandons op s \<union> A) s1" using task_exec_inv [OF Cons.prems(1) may] by simp
    from Cons.IH [OF this] Inr Cons.prems(2) may show ?thesis by (cases r) (simp_all add: Inr Un_ac)
  qed
qed auto

text \<open>C31. Frames are owned once: whatever tasks a program constructs, moves, swaps, destroys, detaches or
  hands to an event loop, no null or dangling frame is accessed, and every frame has exactly one
  owner, or is detached and still running, or has been abandoned: \<open>detach\<close> was called on a task
  that has a value or has ended, so that nothing is left to destroy its frame. When no task object
  is left and no detached coroutine runs, the frames that are left are the abandoned ones; a
  program that detaches only unfinished tasks without a value leaves none. The programs name
  objects that exist, detach only tasks that have a coroutine and spawn only tasks without a
  value. The only other ways out are an exception that leaves a detached coroutine, and one that a
  promise with a value assigns to its union that was not initialised.\<close>

theorem task_ownership:
  assumes "task_program ops task_heap_new = Some r"
  shows "case r of
      Inl x \<Rightarrow> x = WildException \<or> (\<exists>e. x = Thrown e)
    | Inr s \<Rightarrow>
        (\<forall>h. h \<in> dom (th_frames s) \<longleftrightarrow>
           (\<exists>x. owned s x h) \<or> runs_detached s h \<or> h \<in> abandoned ops task_heap_new) \<and>
        (\<forall>x y h. owned s x h \<and> owned s y h \<longrightarrow> x = y) \<and>
        (\<forall>x h. owned s x h \<longrightarrow> \<not> runs_detached s h \<and> h \<notin> abandoned ops task_heap_new) \<and>
        (\<forall>h. \<not> (runs_detached s h \<and> h \<in> abandoned ops task_heap_new)) \<and>
        (th_objs s = Map.empty \<and> (\<forall>h. \<not> runs_detached s h) \<longrightarrow>
           dom (th_frames s) = abandoned ops task_heap_new)"
proof (cases r)
  case (Inl x)
  then show ?thesis using task_program_inv [OF own_inv_new assms] by (simp add: escapes_def)
next
  case (Inr s)
  define A where "A = abandoned ops task_heap_new"
  have inv: "own_inv A s" using Inr task_program_inv [OF own_inv_new assms] by (simp add: A_def)
  have a: "h \<in> dom (th_frames s) \<longleftrightarrow> (\<exists>x. owned s x h) \<or> runs_detached s h \<or> h \<in> A" for h
    using own_invD(1,3,4) [OF inv] unfolding runs_detached_def by blast
  have b: "\<not> runs_detached s h \<and> h \<notin> A" if "owned s x h" for x h
    using own_invD(1) [OF inv that] unfolding runs_detached_def by auto
  have n: "\<not> (runs_detached s h \<and> h \<in> A)" for h
    using own_invD(4) [OF inv, of h] unfolding runs_detached_def
    by (auto simp: is_detached_def split: promise_result.splits)
  have c: "dom (th_frames s) = A" if "th_objs s = Map.empty" "\<forall>h. \<not> runs_detached s h"
    using a that by (auto simp: owned_def)
  show ?thesis using Inr a b c n own_invD(2) [OF inv] by (auto simp: A_def [symmetric])
qed

text \<open>
  A task is moved over another one and then handed to an event loop; both coroutines are gone when
  the second one has ended. The frame of a third task, which has a value, stays after \<open>detach\<close>.
\<close>

definition program_example :: "(nat, string) task_op list" where
  "program_example = [TaskNew 1 0 KindT (CoReturn (Some 3)), TaskNew 2 0 KindVoid (CoReturn None),
     TaskDefault 3, TaskMoveAssign 3 2, TaskSwap 1 3, TaskCoSpawn 1, CoroutineEnds 2 (Inr None),
     TaskNew 4 0 KindT (CoReturn (Some 5)), TaskDetach 4, CoroutineEnds 3 (Inr (Some 5)),
     TaskDestroy 4, TaskDestroy 3, TaskDestroy 2, TaskDestroy 1]"

theorem task_ownership_witness:
  "\<exists>s. task_program program_example task_heap_new = Some (Inr s) \<and> dom (th_frames s) = {3} \<and> th_spawned s = [2]"
proof -
  note defs = program_example_def task_heap_new_def task_new_def frame_new_def promise_new_def
    task_move_assign_def destroy_handle_def task_handle_def task_swap_def frame_done_def
    task_co_spawn_def task_detach_def Let_def set_detached_def coroutine_ends_def frame_finish_def
    final_await_suspend_def is_detached_def task_destroy_def frame_destroy_def fun_eq_iff
  obtain s where s: "task_program program_example task_heap_new = Some (Inr s)"
    "th_objs s = Map.empty" "th_spawned s = [2]" "\<not> runs_detached s h" for h
    by (auto simp: defs runs_detached_def)
  have "abandoned program_example task_heap_new = {3}" by (auto simp: defs ends_itself_def)
  with task_ownership [OF s(1)] s(2,4) have "dom (th_frames s) = {3}" by simp
  with s show ?thesis by blast
qed

text \<open>The frame of a task that has a value has no owner after \<open>detach\<close> and is never destroyed.\<close>

theorem detach_value_leaks:
  "(case task_program [TaskNew 1 bits KindT (CoReturn (Some 3)), TaskDetach 1, CoroutineEnds 1 (Inr (Some 3)),
        TaskDestroy 1] task_heap_new of
      Some (Inr s) \<Rightarrow> th_objs s = Map.empty \<and> th_frames s 1 \<noteq> None
    | _ \<Rightarrow> False)"
  by (simp add: task_heap_new_def task_new_def frame_new_def promise_new_def task_detach_def task_handle_def
      coroutine_ends_def frame_finish_def final_await_suspend_def is_detached_def task_destroy_def destroy_handle_def
      frame_done_def fun_eq_iff)

end
