(* ===== verification/Task_Promise.thy ===== *)
theory Task_Promise
  imports Task Ref_Count
begin

text \<open>
  The promise of a task as it lies in memory, \<^verbatim>\<open>task.hpp\<close>: the union of the value and the exception
  pointer, the word that is a flag or an exception pointer, and the two pointers of a task that
  returns a reference. An exception pointer is a counted reference to an exception object. The
  promises implement those of \<^verbatim>\<open>Task\<close>, and the lemmas say which references they keep, from the
  construction to the destructor.
\<close>

section \<open>Exception pointers\<close>

text \<open>
  The exception objects with the number of pointers to each; an assignment takes a reference to the
  new object and then gives up the one that was held before. \<open>None\<close> is an access through a pointer
  to no exception object.
\<close>

type_synonym exns = "ptr \<Rightarrow> nat option"

definition exn_last :: "nat \<Rightarrow> bool \<times> nat" where
  "exn_last n = (n = 1, n - 1)"

definition exn_assign :: "ptr \<Rightarrow> ptr \<Rightarrow> exns \<Rightarrow> exns option" where
  "exn_assign old new H = (case rc_copy Suc new H of None \<Rightarrow> None | Some H \<Rightarrow> rc_drop exn_last old H)"

text \<open>An exception is alive: somebody, the handler that runs for one, has a reference.\<close>

definition exn_alive :: "ptr \<Rightarrow> exns \<Rightarrow> bool" where
  "exn_alive e H \<longleftrightarrow> e \<noteq> 0 \<and> (\<exists>n. H e = Some n \<and> 0 < n)"

section \<open>A task with a value\<close>

text \<open>The bytes of the union are those of a value that was constructed there, or some other bits.\<close>

datatype value_tag = TagMono | TagValue | TagException

datatype 'v storage = Bits ptr | Object 'v

record 'v value_promise =
  vp_state :: value_tag
  vp_storage :: "'v storage"

text \<open>The constructor sets the tag only: the union keeps what was in memory.\<close>

definition vp_new :: "ptr \<Rightarrow> 'v value_promise" where
  "vp_new bits = \<lparr>vp_state = TagMono, vp_storage = Bits bits\<rparr>"

definition vp_return_value :: "'v \<Rightarrow> 'v value_promise \<Rightarrow> 'v value_promise" where
  "vp_return_value v p = p\<lparr>vp_storage := Object v, vp_state := TagValue\<rparr>"

text \<open>The union is assigned to as the exception pointer that it need not be; \<open>bits_of\<close> are the first
  bytes of a value.\<close>

fun storage_bits :: "('v \<Rightarrow> ptr) \<Rightarrow> 'v storage \<Rightarrow> ptr" where
  "storage_bits bits_of (Bits b) = b"
| "storage_bits bits_of (Object v) = bits_of v"

definition vp_unhandled_exception ::
    "('v \<Rightarrow> ptr) \<Rightarrow> ptr \<Rightarrow> 'v value_promise \<Rightarrow> exns \<Rightarrow> ('v value_promise \<times> exns) option" where
  "vp_unhandled_exception bits_of e p H =
     (case exn_assign (storage_bits bits_of (vp_storage p)) e H of
        None \<Rightarrow> None
      | Some H \<Rightarrow> Some (p\<lparr>vp_storage := Bits e, vp_state := TagException\<rparr>, H))"

text \<open>What \<^verbatim>\<open>result()\<close> gives, an exception that is thrown again or the value.\<close>

definition vp_result :: "'v value_promise \<Rightarrow> ptr task_fault + (ptr + 'v)" where
  "vp_result p =
     (case (vp_state p, vp_storage p) of
        (TagException, Bits e) \<Rightarrow> Inr (Inl e)
      | (TagValue, Object v) \<Rightarrow> Inr (Inr v)
      | _ \<Rightarrow> Inl BrokenPromise)"

text \<open>The destructor: the value that it destroys, and the exception objects.\<close>

definition vp_destroy :: "'v value_promise \<Rightarrow> exns \<Rightarrow> ('v option \<times> exns) option" where
  "vp_destroy p H =
     (case (vp_state p, vp_storage p) of
        (TagValue, Object v) \<Rightarrow> Some (Some v, H)
      | (TagException, Bits e) \<Rightarrow> map_option (Pair None) (rc_drop exn_last e H)
      | (TagMono, _) \<Rightarrow> Some (None, H)
      | _ \<Rightarrow> None)"

section \<open>A task without a value\<close>

text \<open>One word: null, the mark of a detached task, or an exception pointer.\<close>

definition detached_mark :: ptr where
  "detached_mark = - 1"

definition dp_new :: ptr where
  "dp_new = 0"

definition dp_detach :: "ptr \<Rightarrow> ptr" where
  "dp_detach w = detached_mark"

definition dp_unhandled_exception :: "ptr \<Rightarrow> ptr \<Rightarrow> exns \<Rightarrow> (ptr task_fault + ptr \<times> exns) option" where
  "dp_unhandled_exception e w H =
     (if w = detached_mark then Some (Inl (Thrown e))
      else map_option (\<lambda>H. Inr (e, H)) (exn_assign w e H))"

definition dp_result :: "ptr \<Rightarrow> ptr option" where
  "dp_result w = (if w \<noteq> 0 then Some w else None)"

definition dp_destroy :: "ptr \<Rightarrow> exns \<Rightarrow> exns option" where
  "dp_destroy w H = (if w \<noteq> detached_mark then rc_drop exn_last w H else Some H)"

section \<open>A task that returns a reference\<close>

record ref_promise =
  rp_value :: ptr
  rp_exception :: ptr

definition rp_new :: ref_promise where
  "rp_new = \<lparr>rp_value = 0, rp_exception = 0\<rparr>"

definition rp_return_value :: "ptr \<Rightarrow> ref_promise \<Rightarrow> ref_promise" where
  "rp_return_value v p = p\<lparr>rp_value := v\<rparr>"

definition rp_unhandled_exception :: "ptr \<Rightarrow> ref_promise \<Rightarrow> exns \<Rightarrow> (ref_promise \<times> exns) option" where
  "rp_unhandled_exception e p H =
     map_option (Pair (p\<lparr>rp_exception := e\<rparr>)) (exn_assign (rp_exception p) e H)"

definition rp_result :: "ref_promise \<Rightarrow> ptr task_fault + (ptr + ptr)" where
  "rp_result p =
     (if rp_exception p \<noteq> 0 then Inr (Inl (rp_exception p))
      else if rp_value p = 0 then Inl NullHandle
      else Inr (Inr (rp_value p)))"

definition rp_destroy :: "ref_promise \<Rightarrow> exns \<Rightarrow> exns option" where
  "rp_destroy p H = rc_drop exn_last (rp_exception p) H"

section \<open>What the promises promise\<close>

text \<open>The promise that \<^verbatim>\<open>Task\<close> has for each of them.\<close>

definition vp_abs :: "'v value_promise \<Rightarrow> ('v, ptr) promise_result" where
  "vp_abs p = PromiseT
     (case (vp_state p, vp_storage p) of
        (TagValue, Object v) \<Rightarrow> ValueIs v
      | (TagException, Bits e) \<Rightarrow> ValueException e
      | (_, Bits b) \<Rightarrow> ValueMono b
      | (_, Object v) \<Rightarrow> ValueIs v)"

definition dp_abs :: "ptr \<Rightarrow> ('v, ptr) promise_result" where
  "dp_abs w = PromiseVoid (if w = 0 then SlotZero else if w = detached_mark then SlotDetached else SlotException w)"

definition rp_abs :: "ref_promise \<Rightarrow> (ptr, ptr) promise_result" where
  "rp_abs p = PromiseRef
     (if rp_value p = 0 then None else Some (rp_value p))
     (if rp_exception p = 0 then None else Some (rp_exception p))"

lemma vp_implements:
  "vp_abs (vp_new b :: 'v value_promise) = promise_init b KindT"
  "vp_abs (vp_return_value v p) = return_value (Some v) (vp_abs p)"
  "unhandled_exception e (vp_abs (vp_new b)) = Inr q \<Longrightarrow> exn_alive e H \<Longrightarrow>
   \<exists>p H'. vp_unhandled_exception bits_of e (vp_new b :: 'v value_promise) H = Some (p, H') \<and> vp_abs p = q"
  "vp_state p = TagValue \<longleftrightarrow> (\<exists>v. vp_storage p = Object v) \<Longrightarrow>
   vp_result p = map_sum id (map_sum id the) (promise_value (vp_abs p))"
  by (auto simp: vp_abs_def vp_new_def vp_return_value_def vp_unhandled_exception_def vp_result_def
      exn_alive_def exn_assign_def rc_copy_def rc_drop_def
      split: option.splits value_tag.splits storage.splits if_splits)

lemma dp_implements:
  "dp_abs dp_new = promise_init b KindVoid"
  "e \<noteq> 0 \<Longrightarrow> e \<noteq> detached_mark \<Longrightarrow> dp_unhandled_exception e w H = Some r \<Longrightarrow>
   unhandled_exception e (dp_abs w) = map_sum id (dp_abs \<circ> fst) r"
  "w \<noteq> detached_mark \<Longrightarrow> promise_value (dp_abs w) = Inr (case dp_result w of None \<Rightarrow> Inr None | Some e \<Rightarrow> Inl e)"
  by (auto simp: dp_abs_def dp_new_def dp_unhandled_exception_def dp_result_def detached_mark_def)

lemma rp_implements:
  "rp_abs rp_new = promise_init b KindRef"
  "v \<noteq> 0 \<Longrightarrow> rp_abs (rp_return_value v p) = return_value (Some v) (rp_abs p)"
  "e \<noteq> 0 \<Longrightarrow> rp_unhandled_exception e p H = Some (p', H') \<Longrightarrow> Inr (rp_abs p') = unhandled_exception e (rp_abs p)"
  "rp_result p = map_sum id (map_sum id the) (promise_value (rp_abs p))"
  by (auto simp: rp_abs_def rp_new_def rp_return_value_def rp_unhandled_exception_def rp_result_def)

section \<open>From the construction to the destructor\<close>

lemma exn_assign_null: "exn_alive e H \<Longrightarrow> exn_assign 0 e H = Some (H(e \<mapsto> Suc (the (H e))))"
  by (auto simp: exn_alive_def exn_assign_def rc_copy_def rc_drop_def)

lemma exn_drop_taken: "exn_alive e H \<Longrightarrow> rc_drop exn_last e (H(e \<mapsto> Suc (the (H e)))) = Some H"
  by (auto simp: exn_alive_def rc_drop_def exn_last_def fun_eq_iff)

text \<open>An outcome of the coroutine, and then the end of its frame.\<close>

definition vp_life :: "('v \<Rightarrow> ptr) \<Rightarrow> ptr \<Rightarrow> (ptr + 'v) option \<Rightarrow> exns \<Rightarrow> ('v option \<times> exns) option" where
  "vp_life bits_of bits out H =
     (case out of
        None \<Rightarrow> vp_destroy (vp_new bits) H
      | Some (Inr v) \<Rightarrow> vp_destroy (vp_return_value v (vp_new bits)) H
      | Some (Inl e) \<Rightarrow> (case vp_unhandled_exception bits_of e (vp_new bits) H of
          None \<Rightarrow> None | Some (p, H) \<Rightarrow> vp_destroy p H))"

text \<open>Where the memory of the frame is zero, a value that was returned is destroyed once and the
  exceptions have the references that they had.\<close>

lemma vp_life_balanced:
  assumes "\<And>e. out = Some (Inl e) \<Longrightarrow> bits = 0 \<and> exn_alive e H"
  shows "vp_life bits_of bits out H = Some (case out of Some (Inr v) \<Rightarrow> (Some v, H) | _ \<Rightarrow> (None, H))"
proof (cases out)
  case (Some r)
  with assms show ?thesis
    by (cases r) (simp_all add: vp_life_def vp_destroy_def vp_return_value_def vp_unhandled_exception_def vp_new_def
        exn_assign_null exn_drop_taken)
qed (simp add: vp_life_def vp_destroy_def vp_new_def)

text \<open>
  The memory of a frame is not zero in general. An exception then goes through whatever the bits
  point to: memory that is no exception object, or an exception that somebody else refers to and
  that loses a reference.
\<close>

lemma vp_exception_garbage:
  assumes "exn_alive e H" and "b \<noteq> 0" and "b \<noteq> e" and "H b = None"
  shows "vp_unhandled_exception bits_of e (vp_new b) H = None"
  using assms by (auto simp: vp_unhandled_exception_def vp_new_def exn_assign_def rc_copy_def rc_drop_def exn_alive_def)

lemma vp_exception_stale:
  assumes "exn_alive e H" and "b \<noteq> 0" and "b \<noteq> e" and "H b = Some 1"
  obtains p H' where "vp_unhandled_exception bits_of e (vp_new b) H = Some (p, H')" and "H' b = None"
  using assms by (auto simp: vp_unhandled_exception_def vp_new_def exn_assign_def rc_copy_def rc_drop_def exn_alive_def exn_last_def)

text \<open>The other two promises begin with null.\<close>

lemma dp_life_balanced:
  assumes "exn_alive e H" and "e \<noteq> detached_mark"
  obtains H' where "dp_unhandled_exception e dp_new H = Some (Inr (e, H'))" and "dp_result e = Some e"
    and "dp_destroy e H' = Some H"
  using assms exn_assign_null [OF assms(1)] exn_drop_taken [OF assms(1)]
  by (intro that) (auto simp: dp_unhandled_exception_def dp_new_def dp_destroy_def dp_result_def detached_mark_def exn_alive_def)

lemma rp_life_balanced:
  assumes "exn_alive e H"
  obtains p H' where "rp_unhandled_exception e rp_new H = Some (p, H')" and "rp_result p = Inr (Inl e)"
    and "rp_destroy p H' = Some H"
  using assms exn_assign_null [OF assms] exn_drop_taken [OF assms]
  by (intro that) (auto simp: rp_unhandled_exception_def rp_new_def rp_destroy_def rp_result_def exn_alive_def)

text \<open>A task that has ended with an exception and is detached then forgets the reference.\<close>

lemma dp_detach_leaks:
  assumes "exn_alive e H" and "e \<noteq> detached_mark"
  obtains H' where "dp_unhandled_exception e dp_new H = Some (Inr (e, H'))"
    and "dp_destroy (dp_detach e) H' = Some (H(e \<mapsto> Suc (the (H e))))"
  using assms exn_assign_null [OF assms(1)]
  by (intro that) (auto simp: dp_unhandled_exception_def dp_new_def dp_destroy_def dp_detach_def detached_mark_def)

end
