(* ===== verification/Shared_Task.thy ===== *)
theory Shared_Task
  imports Wait_List
begin

text \<open>
  A coroutine with many awaiters, \<^verbatim>\<open>shared_task.hpp\<close>: the first awaiter starts it, the others are
  put on a list in the promise, and when the coroutine ends it wakes them all. The awaiters
  may be on several threads; they and the coroutine take their steps in any order, one access to
  the promise at a time.
\<close>

section \<open>The promise and its awaiters\<close>

text \<open>
  The word \<open>waiters_\<close> holds the address of itself before the start, the address of the promise
  when the value is ready, and otherwise the first waiter or null.
\<close>

datatype waiters_value = NotStarted | ValueReady | Waiters ptr

datatype await_pc =
    AwIdle
  | AwLoad
  | AwStart
  | AwStarted
  | AwTry waiters_value
  | AwEnqueue waiters_value
  | AwSuspended
  | AwDone

datatype shared_pc = ShInit | ShRun | ShFinal | ShWake ptr | ShNext ptr | ShEnd

text \<open>
  \<open>sh_next\<close> is the field \<^verbatim>\<open>m_next\<close> of the waiters; \<open>sh_woken\<close> and \<open>sh_starts\<close> count how often
  a waiter has been handed to its event loop and the coroutine has been started.
\<close>

record shared_sys =
  sh_waiters :: waiters_value
  sh_next :: "ptr \<Rightarrow> ptr"
  sh_await :: "ptr \<Rightarrow> await_pc"
  sh_task :: shared_pc
  sh_woken :: "ptr \<Rightarrow> nat"
  sh_starts :: nat

definition shared_new :: shared_sys where
  "shared_new = \<lparr>sh_waiters = NotStarted, sh_next = (\<lambda>_. 0), sh_await = (\<lambda>_. AwIdle), sh_task = ShInit,
     sh_woken = (\<lambda>_. 0), sh_starts = 0\<rparr>"

definition shared_is_ready :: "shared_sys \<Rightarrow> bool" where
  "shared_is_ready s \<longleftrightarrow> sh_waiters s = ValueReady"

text \<open>The word read as a pointer to a waiter; the two marks are no such pointers.\<close>

fun waiter_of :: "waiters_value \<Rightarrow> ptr" where
  "waiter_of (Waiters p) = p"
| "waiter_of _ = 0"

abbreviation (input) aw_goto :: "ptr \<Rightarrow> await_pc \<Rightarrow> shared_sys \<Rightarrow> shared_sys" where
  "aw_goto w pc s \<equiv> s\<lparr>sh_await := (sh_await s)(w := pc)\<rparr>"

text \<open>
  The steps of \<^verbatim>\<open>await_ready\<close> and \<^verbatim>\<open>try_await\<close>; the weak exchange may fail for no reason, which is the
  second argument. \<open>None\<close> where the awaiter has no step.
\<close>

fun try_await_at :: "await_pc \<Rightarrow> ptr \<Rightarrow> bool \<Rightarrow> shared_sys \<Rightarrow> shared_sys option" where
  "try_await_at AwIdle w fail s = Some (aw_goto w (if shared_is_ready s then AwDone else AwLoad) s)"
| "try_await_at AwLoad w fail s =
     Some (aw_goto w (if sh_waiters s = NotStarted then AwStart else AwTry (sh_waiters s)) s)"
| "try_await_at AwStart w fail s =
     (if sh_waiters s = NotStarted
      then Some (aw_goto w AwStarted (s\<lparr>sh_waiters := Waiters 0, sh_task := ShRun, sh_starts := sh_starts s + 1\<rparr>))
      else Some (aw_goto w (AwTry (sh_waiters s)) s))"
| "try_await_at AwStarted w fail s = Some (aw_goto w (AwTry (sh_waiters s)) s)"
| "try_await_at (AwTry old) w fail s =
     (if old = ValueReady then Some (aw_goto w AwDone s)
      else Some (aw_goto w (AwEnqueue old) (s\<lparr>sh_next := (sh_next s)(w := waiter_of old)\<rparr>)))"
| "try_await_at (AwEnqueue old) w fail s =
     (if sh_waiters s = old \<and> \<not> fail then Some (aw_goto w AwSuspended (s\<lparr>sh_waiters := Waiters w\<rparr>))
      else Some (aw_goto w (AwTry (sh_waiters s)) s))"
| "try_await_at AwSuspended w fail s = None"
| "try_await_at AwDone w fail s = None"

definition try_await :: "ptr \<Rightarrow> bool \<Rightarrow> shared_sys \<Rightarrow> shared_sys option" where
  "try_await w fail s = (if w = 0 then None else try_await_at (sh_await s w) w fail s)"

text \<open>The coroutine ends, and its final awaiter wakes the waiters.\<close>

fun shared_final_at :: "shared_pc \<Rightarrow> shared_sys \<Rightarrow> shared_sys option" where
  "shared_final_at ShInit s = None"
| "shared_final_at ShRun s = Some (s\<lparr>sh_task := ShFinal\<rparr>)"
| "shared_final_at ShFinal s =
     (let waiters = waiter_of (sh_waiters s)
      in Some (s\<lparr>sh_waiters := ValueReady, sh_task := (if waiters \<noteq> 0 then ShWake waiters else ShEnd)\<rparr>))"
| "shared_final_at (ShWake waiter) s =
     Some (s\<lparr>sh_woken := (sh_woken s)(waiter := sh_woken s waiter + 1), sh_task := ShNext waiter\<rparr>)"
| "shared_final_at (ShNext waiter) s =
     (let waiter = sh_next s waiter in Some (s\<lparr>sh_task := (if waiter \<noteq> 0 then ShWake waiter else ShEnd)\<rparr>))"
| "shared_final_at ShEnd s = None"

definition shared_final :: "shared_sys \<Rightarrow> shared_sys option" where
  "shared_final s = shared_final_at (sh_task s) s"

text \<open>
  The event loop resumes a waiter that it has been handed; the waiter is a variable of the await
  expression, which is gone then, and its field may hold anything.
\<close>

definition shared_resume :: "ptr \<Rightarrow> ptr \<Rightarrow> shared_sys \<Rightarrow> shared_sys option" where
  "shared_resume w junk s =
     (if sh_await s w = AwSuspended \<and> 0 < sh_woken s w
      then Some (aw_goto w AwDone (s\<lparr>sh_next := (sh_next s)(w := junk)\<rparr>)) else None)"

datatype shared_act = ActAwait ptr bool | ActTask | ActResume ptr ptr

fun shared_do :: "shared_act \<Rightarrow> shared_sys \<Rightarrow> shared_sys option" where
  "shared_do (ActAwait w fail) s = try_await w fail s"
| "shared_do ActTask s = shared_final s"
| "shared_do (ActResume w junk) s = shared_resume w junk s"

text \<open>
  No waiter is resumed between being handed to its event loop and the read of its field by the
  loop that wakes the waiters. This is so when all of them are on the event loop that runs the
  coroutine, since it resumes them only after the coroutine has been suspended.
\<close>

definition not_overtaken :: "shared_act \<Rightarrow> shared_sys \<Rightarrow> bool" where
  "not_overtaken a s \<longleftrightarrow> (case a of ActResume w junk \<Rightarrow> sh_task s \<noteq> ShNext w | _ \<Rightarrow> True)"

fun shared_run :: "shared_act list \<Rightarrow> shared_sys \<Rightarrow> shared_sys option" where
  "shared_run [] s = Some s"
| "shared_run (a # as) s = (case shared_do a s of None \<Rightarrow> None | Some s' \<Rightarrow> shared_run as s')"

fun shared_calm :: "shared_act list \<Rightarrow> shared_sys \<Rightarrow> bool" where
  "shared_calm [] s \<longleftrightarrow> True"
| "shared_calm (a # as) s \<longleftrightarrow>
     not_overtaken a s \<and> (case shared_do a s of None \<Rightarrow> True | Some s' \<Rightarrow> shared_calm as s')"

section \<open>The waiters on the list\<close>

definition sh_head :: "shared_sys \<Rightarrow> ptr" where
  "sh_head s = (case sh_waiters s of Waiters p \<Rightarrow> p | NotStarted \<Rightarrow> 0
     | ValueReady \<Rightarrow> (case sh_task s of ShWake p \<Rightarrow> p | ShNext p \<Rightarrow> sh_next s p | _ \<Rightarrow> 0))"

definition phase_ok :: "shared_sys \<Rightarrow> bool" where
  "phase_ok s \<longleftrightarrow> (case sh_task s of
       ShInit \<Rightarrow> sh_waiters s = NotStarted \<and> sh_starts s = 0
     | ShRun \<Rightarrow> (\<exists>p. sh_waiters s = Waiters p) \<and> sh_starts s = 1
     | ShFinal \<Rightarrow> (\<exists>p. sh_waiters s = Waiters p) \<and> sh_starts s = 1
     | ShWake p \<Rightarrow> sh_waiters s = ValueReady \<and> p \<noteq> 0 \<and> sh_starts s = 1
     | ShNext p \<Rightarrow> sh_waiters s = ValueReady \<and> sh_await s p = AwSuspended \<and> sh_woken s p = 1 \<and> sh_starts s = 1
     | ShEnd \<Rightarrow> sh_waiters s = ValueReady \<and> sh_starts s = 1)"

definition await_ok :: "shared_sys \<Rightarrow> ptr \<Rightarrow> bool" where
  "await_ok s w \<longleftrightarrow> sh_woken s w \<le> 1 \<and> (sh_woken s w = 1 \<longrightarrow> sh_waiters s = ValueReady \<and> sh_await s w \<in> {AwSuspended, AwDone}) \<and>
     (case sh_await s w of
        AwStarted \<Rightarrow> sh_waiters s \<noteq> NotStarted
      | AwTry old \<Rightarrow> sh_waiters s \<noteq> NotStarted \<and> old \<noteq> NotStarted \<and> (old = ValueReady \<longrightarrow> sh_waiters s = ValueReady)
      | AwEnqueue old \<Rightarrow> sh_waiters s \<noteq> NotStarted \<and> (\<exists>p. old = Waiters p \<and> sh_next s w = p)
      | AwSuspended \<Rightarrow> w \<noteq> 0
      | AwDone \<Rightarrow> sh_waiters s = ValueReady
      | _ \<Rightarrow> True)"

definition shared_inv :: "shared_sys \<Rightarrow> bool" where
  "shared_inv s \<longleftrightarrow> phase_ok s \<and> (\<forall>w. await_ok s w) \<and>
     (\<exists>ws. chain (sh_next s) (sh_head s) ws \<and> set ws = {w. sh_await s w = AwSuspended \<and> sh_woken s w = 0})"

lemma shared_inv_new: "shared_inv shared_new"
  by (simp add: shared_inv_def shared_new_def phase_ok_def await_ok_def sh_head_def)

lemma shared_invI:
  assumes "phase_ok s" and "\<And>w. await_ok s w" and "chain (sh_next s) (sh_head s) ws"
    and "\<And>w. w \<in> set ws \<longleftrightarrow> sh_await s w = AwSuspended \<and> sh_woken s w = 0"
  shows "shared_inv s"
  using assms unfolding shared_inv_def by blast

text \<open>An awaiter moves between positions at which it is not suspended; the word does not change.\<close>

lemma shared_inv_move:
  assumes inv: "shared_inv s" and pc: "sh_await s w \<noteq> AwSuspended" "pc \<noteq> AwSuspended" "sh_woken s w = 0"
    and ok: "await_ok s' w" and s': "s' = aw_goto w pc (s\<lparr>sh_next := (sh_next s)(w := n)\<rparr>)"
  shows "shared_inv s'"
proof -
  obtain ws where ws: "chain (sh_next s) (sh_head s) ws"
    "set ws = {w. sh_await s w = AwSuspended \<and> sh_woken s w = 0}" using inv by (auto simp: shared_inv_def)
  have nw: "w \<notin> set ws" using ws(2) pc(1) by simp
  have aw: "await_ok s x" for x using inv by (simp add: shared_inv_def)
  have ph: "phase_ok s" using inv by (simp add: shared_inv_def)
  have nx: "sh_task s \<noteq> ShNext w" using ph pc(1) by (auto simp: phase_ok_def)
  show ?thesis
  proof (rule shared_invI)
    show "phase_ok s'" using ph pc(1) nx by (auto simp: phase_ok_def s' split: shared_pc.splits)
    show "await_ok s' x" for x
    proof (cases "x = w")
      case False
      then show ?thesis using aw [of x] by (simp add: await_ok_def s' cong: await_pc.case_cong)
    qed (use ok in simp)
    have "sh_head s' = sh_head s" using nx by (auto simp: sh_head_def s' split: waiters_value.splits shared_pc.splits)
    then show "chain (sh_next s') (sh_head s') ws" using ws(1) nw by (simp add: s')
    show "x \<in> set ws \<longleftrightarrow> sh_await s' x = AwSuspended \<and> sh_woken s' x = 0" for x
      using ws(2) pc by (auto simp: s')
  qed
qed

lemma shared_inv_goto:
  assumes "shared_inv s" and "sh_await s w \<noteq> AwSuspended" "pc \<noteq> AwSuspended" "sh_woken s w = 0"
    and "await_ok (aw_goto w pc s) w"
  shows "shared_inv (aw_goto w pc s)"
  by (rule shared_inv_move [OF assms, where n = "sh_next s w"]) simp

lemma try_await_inv:
  assumes inv: "shared_inv s" and st: "try_await w fail s = Some s'"
  shows "shared_inv s'"
proof -
  have w: "w \<noteq> 0" and st: "try_await_at (sh_await s w) w fail s = Some s'"
    using st by (auto simp: try_await_def split: if_splits)
  have aw: "await_ok s x" for x using inv by (simp add: shared_inv_def)
  have ph: "phase_ok s" using inv by (simp add: shared_inv_def)
  have ns: "sh_await s w \<noteq> AwSuspended" using st by (cases "sh_await s w") auto
  have z: "sh_woken s w = 0" using aw [of w] ns st by (cases "sh_await s w") (auto simp: await_ok_def)
  note go = shared_inv_goto [OF inv ns _ z]
  show ?thesis
  proof (cases "sh_await s w")
    case AwIdle
    then show ?thesis using st z
      by (auto intro!: go simp: await_ok_def shared_is_ready_def split: if_splits)
  next
    case AwLoad
    then show ?thesis using st z by (auto intro!: go simp: await_ok_def split: if_splits)
  next
    case AwStarted
    then show ?thesis using st z aw [of w] by (auto intro!: go simp: await_ok_def)
  next
    case (AwTry old)
    show ?thesis
    proof (cases "old = ValueReady")
      case True
      then show ?thesis using AwTry st z aw [of w] by (auto intro!: go simp: await_ok_def)
    next
      case False
      then have s': "s' = aw_goto w (AwEnqueue old) (s\<lparr>sh_next := (sh_next s)(w := waiter_of old)\<rparr>)"
        using AwTry st by simp
      show ?thesis
        by (rule shared_inv_move [OF inv ns _ z _ s'])
          (use AwTry False z aw [of w] in \<open>cases old; auto simp: await_ok_def s'\<close>)+
    qed
  next
    case (AwEnqueue old)
    show ?thesis
    proof (cases "sh_waiters s = old \<and> \<not> fail")
      case False
      then show ?thesis using AwEnqueue st z aw [of w] by (auto intro!: go simp: await_ok_def)
    next
      case True
      from aw [of w] AwEnqueue obtain p where p: "old = Waiters p" "sh_next s w = p" by (auto simp: await_ok_def)
      obtain ws where ws: "chain (sh_next s) p ws" "set ws = {x. sh_await s x = AwSuspended \<and> sh_woken s x = 0}"
        using inv True p(1) by (auto simp: shared_inv_def sh_head_def)
      have s': "s' = aw_goto w AwSuspended (s\<lparr>sh_waiters := Waiters w\<rparr>)" using True AwEnqueue st by simp
      show ?thesis
      proof (rule shared_invI)
        show "phase_ok s'" using ph True p(1) by (auto simp: phase_ok_def s' split: shared_pc.splits)
        show "await_ok s' x" for x
          using aw [of x] True p(1) w z by (cases "x = w") (auto simp: await_ok_def s' split: await_pc.splits)
        show "chain (sh_next s') (sh_head s') (w # ws)" using ws(1) p(2) w by (simp add: s' sh_head_def)
        show "x \<in> set (w # ws) \<longleftrightarrow> sh_await s' x = AwSuspended \<and> sh_woken s' x = 0" for x
          using ws(2) z by (auto simp: s')
      qed
    qed
  next
    case AwStart
    show ?thesis
    proof (cases "sh_waiters s = NotStarted")
      case False
      then show ?thesis using AwStart st z by (auto intro!: go simp: await_ok_def)
    next
      case True
      then have s': "s' = aw_goto w AwStarted (s\<lparr>sh_waiters := Waiters 0, sh_task := ShRun, sh_starts := sh_starts s + 1\<rparr>)"
        using AwStart st by simp
      have none: "\<not> (sh_await s x = AwSuspended \<and> sh_woken s x = 0)" for x
        using inv True by (auto simp: shared_inv_def sh_head_def)
      show ?thesis
      proof (rule shared_invI)
        show "phase_ok s'" using ph True by (auto simp: phase_ok_def s' split: shared_pc.splits)
        show "await_ok s' x" for x
          using aw [of x] True z by (cases "x = w") (auto simp: await_ok_def s' split: await_pc.splits)
        show "chain (sh_next s') (sh_head s') []" by (simp add: s' sh_head_def)
        show "x \<in> set [] \<longleftrightarrow> sh_await s' x = AwSuspended \<and> sh_woken s' x = 0" for x
          using none [of x] by (auto simp: s')
      qed
    qed
  qed (use st in auto)
qed

lemma shared_final_inv:
  assumes inv: "shared_inv s" and st: "shared_final s = Some s'"
  shows "shared_inv s'"
proof -
  obtain ws where ws: "chain (sh_next s) (sh_head s) ws"
    "\<And>w. w \<in> set ws \<longleftrightarrow> sh_await s w = AwSuspended \<and> sh_woken s w = 0" using inv by (auto simp: shared_inv_def)
  have aw: "await_ok s x" for x using inv by (simp add: shared_inv_def)
  have ph: "phase_ok s" using inv by (simp add: shared_inv_def)
  show ?thesis
  proof (cases "sh_task s")
    case ShRun
    then have s': "s' = s\<lparr>sh_task := ShFinal\<rparr>" using st by (simp add: shared_final_def)
    show ?thesis
    proof (rule shared_invI)
      show "phase_ok s'" using ph ShRun by (auto simp: phase_ok_def s')
      show "await_ok s' x" for x using aw [of x] by (simp add: await_ok_def s' cong: await_pc.case_cong)
      show "chain (sh_next s') (sh_head s') ws" using ws(1) ph ShRun by (auto simp: s' sh_head_def phase_ok_def)
    qed (use ws(2) in \<open>simp add: s'\<close>)
  next
    case ShFinal
    then obtain p where p: "sh_waiters s = Waiters p" "sh_starts s = 1" using ph by (auto simp: phase_ok_def)
    then have s': "s' = s\<lparr>sh_waiters := ValueReady, sh_task := (if p \<noteq> 0 then ShWake p else ShEnd)\<rparr>"
      using st ShFinal by (simp add: shared_final_def)
    show ?thesis
    proof (rule shared_invI)
      show "phase_ok s'" using p by (simp add: phase_ok_def s')
      show "await_ok s' x" for x using aw [of x] by (auto simp: await_ok_def s' split: await_pc.splits)
      show "chain (sh_next s') (sh_head s') ws" using ws(1) p by (auto simp: s' sh_head_def)
    qed (use ws(2) in \<open>simp add: s'\<close>)
  next
    case (ShWake p)
    then have p: "sh_waiters s = ValueReady" "p \<noteq> 0" "sh_starts s = 1" using ph by (simp_all add: phase_ok_def)
    have s': "s' = s\<lparr>sh_woken := (sh_woken s)(p := sh_woken s p + 1), sh_task := ShNext p\<rparr>"
      using st ShWake by (simp add: shared_final_def)
    from ws(1) p ShWake obtain vs where vs: "ws = p # vs" "chain (sh_next s) (sh_next s p) vs"
      by (auto simp: sh_head_def chain_nonnull)
    then have pa: "sh_await s p = AwSuspended" "sh_woken s p = 0" using ws(2) [of p] by simp_all
    have d: "p \<notin> set vs" using chain_distinct [OF ws(1)] vs(1) by simp
    show ?thesis
    proof (rule shared_invI)
      show "phase_ok s'" using p pa by (simp add: phase_ok_def s')
      show "await_ok s' x" for x using aw [of x] pa p(1) by (cases "x = p") (auto simp: await_ok_def s' split: await_pc.splits)
      show "chain (sh_next s') (sh_head s') vs" using vs(2) p by (simp add: s' sh_head_def)
      show "x \<in> set vs \<longleftrightarrow> sh_await s' x = AwSuspended \<and> sh_woken s' x = 0" for x
        using ws(2) [of x] vs(1) d by (auto simp: s')
    qed
  next
    case (ShNext p)
    then have p: "sh_waiters s = ValueReady" "sh_starts s = 1" using ph by (simp_all add: phase_ok_def)
    have s': "s' = s\<lparr>sh_task := (if sh_next s p \<noteq> 0 then ShWake (sh_next s p) else ShEnd)\<rparr>"
      using st ShNext by (simp add: shared_final_def Let_def)
    show ?thesis
    proof (rule shared_invI)
      show "phase_ok s'" using p by (simp add: phase_ok_def s')
      show "await_ok s' x" for x using aw [of x] by (simp add: await_ok_def s' cong: await_pc.case_cong)
      show "chain (sh_next s') (sh_head s') ws" using ws(1) p ShNext by (auto simp: s' sh_head_def)
    qed (use ws(2) in \<open>simp add: s'\<close>)
  qed (use st in \<open>simp_all add: shared_final_def\<close>)
qed

lemma shared_resume_inv:
  assumes inv: "shared_inv s" and st: "shared_resume w junk s = Some s'" and calm: "sh_task s \<noteq> ShNext w"
  shows "shared_inv s'"
proof -
  obtain ws where ws: "chain (sh_next s) (sh_head s) ws"
    "\<And>x. x \<in> set ws \<longleftrightarrow> sh_await s x = AwSuspended \<and> sh_woken s x = 0" using inv by (auto simp: shared_inv_def)
  have aw: "await_ok s x" for x using inv by (simp add: shared_inv_def)
  have ph: "phase_ok s" using inv by (simp add: shared_inv_def)
  have w: "sh_await s w = AwSuspended" "0 < sh_woken s w"
    and s': "s' = aw_goto w AwDone (s\<lparr>sh_next := (sh_next s)(w := junk)\<rparr>)"
    using st by (auto simp: shared_resume_def split: if_splits)
  have nw: "w \<notin> set ws" using ws(2) [of w] w by simp
  show ?thesis
  proof (rule shared_invI)
    show "phase_ok s'" using ph calm by (auto simp: phase_ok_def s' split: shared_pc.splits)
    show "await_ok s' x" for x using aw [of x] w by (cases "x = w") (auto simp: await_ok_def s' split: await_pc.splits)
    show "chain (sh_next s') (sh_head s') ws" using ws(1) nw calm
      by (auto simp: s' sh_head_def split: waiters_value.splits shared_pc.splits)
    show "x \<in> set ws \<longleftrightarrow> sh_await s' x = AwSuspended \<and> sh_woken s' x = 0" for x
      using ws(2) [of x] nw by (auto simp: s')
  qed
qed

lemma shared_run_inv:
  "shared_inv s \<Longrightarrow> shared_run as s = Some s' \<Longrightarrow> shared_calm as s \<Longrightarrow> shared_inv s'"
proof (induction as arbitrary: s)
  case (Cons a as)
  from Cons.prems(2) obtain t where t: "shared_do a s = Some t" "shared_run as t = Some s'"
    by (auto split: option.splits)
  have calm: "not_overtaken a s" "shared_calm as t" using Cons.prems(3) t(1) by simp_all
  have "shared_inv t"
  proof (cases a)
    case (ActAwait w fail)
    then show ?thesis using try_await_inv [OF Cons.prems(1)] t(1) by simp
  next
    case ActTask
    then show ?thesis using shared_final_inv [OF Cons.prems(1)] t(1) by simp
  next
    case (ActResume w junk)
    then show ?thesis using shared_resume_inv [OF Cons.prems(1)] t(1) calm(1) by (simp add: not_overtaken_def)
  qed
  from Cons.IH [OF this t(2) calm(2)] show ?case .
qed simp

text \<open>C32. A shared task runs once and wakes every waiter once: however its awaiters and its
  coroutine interleave, the coroutine is started at most once, an awaiter goes on only when
  the value is ready, no waiter is handed to its event loop twice, and when the coroutine has
  ended each suspended awaiter has been handed over, provided that no waiter is resumed while the
  loop that wakes them still has to read its field.\<close>

theorem shared_task_wakes:
  assumes "shared_run as shared_new = Some s" and "shared_calm as shared_new"
  shows "sh_starts s \<le> 1 \<and> (\<forall>w. sh_woken s w \<le> 1) \<and>
    (\<forall>w. sh_await s w = AwDone \<longrightarrow> shared_is_ready s) \<and>
    (\<forall>w. sh_woken s w = 1 \<longrightarrow> sh_await s w \<in> {AwSuspended, AwDone}) \<and>
    (sh_task s = ShEnd \<longrightarrow> (\<forall>w. sh_await s w = AwSuspended \<longrightarrow> sh_woken s w = 1))"
proof -
  have inv: "shared_inv s" by (rule shared_run_inv [OF shared_inv_new assms])
  then have aw: "await_ok s w" for w by (simp add: shared_inv_def)
  have 1: "sh_starts s \<le> 1" using inv by (auto simp: shared_inv_def phase_ok_def split: shared_pc.splits)
  have 2: "sh_woken s w \<le> 1" "sh_await s w = AwDone \<Longrightarrow> shared_is_ready s"
    "sh_woken s w = 1 \<Longrightarrow> sh_await s w \<in> {AwSuspended, AwDone}" for w
    using aw [of w] by (auto simp: await_ok_def shared_is_ready_def)
  have 3: "sh_woken s w = 1" if "sh_task s = ShEnd" "sh_await s w = AwSuspended" for w
  proof -
    have "sh_waiters s = ValueReady" using inv that(1) by (simp add: shared_inv_def phase_ok_def)
    then have "sh_head s = 0" using that(1) by (simp add: sh_head_def)
    then have "\<not> (sh_await s w = AwSuspended \<and> sh_woken s w = 0)" using inv by (auto simp: shared_inv_def)
    then show ?thesis using that(2) 2(1) [of w] by (auto simp: le_Suc_eq)
  qed
  show ?thesis using 1 2 3 by blast
qed

text \<open>The first awaiter starts the coroutine, a second one suspends behind it, and both are woken.\<close>

definition shared_example :: "shared_act list" where
  "shared_example = [ActAwait 8 False, ActAwait 8 False, ActAwait 8 False, ActAwait 16 False, ActAwait 8 False,
     ActAwait 8 False, ActAwait 8 True, ActAwait 8 False, ActAwait 8 False, ActAwait 16 False, ActAwait 16 False,
     ActAwait 16 False, ActTask, ActTask, ActTask, ActTask, ActTask, ActResume 16 3, ActTask]"

theorem shared_task_wakes_witness:
  "\<exists>s. shared_run shared_example shared_new = Some s \<and> sh_task s = ShEnd \<and> sh_await s 16 = AwDone \<and>
     sh_await s 8 = AwSuspended \<and> sh_woken s 8 = 1"
proof -
  obtain s where s: "shared_run shared_example shared_new = Some s" "sh_task s = ShEnd" "sh_await s 16 = AwDone"
    "sh_await s 8 = AwSuspended" "shared_calm shared_example shared_new"
    by (simp add: shared_example_def shared_new_def try_await_def shared_is_ready_def shared_final_def
        shared_resume_def not_overtaken_def)
  with shared_task_wakes [OF s(1,5)] show ?thesis by blast
qed

text \<open>
  Without the proviso: the waiter with the address 16 is resumed on another thread right after it
  has been handed over; the loop then reads the field of a waiter that is gone, and the waiter with
  the address 8 is never woken although the coroutine has ended.
\<close>

theorem shared_waiter_overtaken:
  "let as = take 15 shared_example @ [ActResume 16 0, ActTask]
   in \<exists>s. shared_run as shared_new = Some s \<and> sh_task s = ShEnd \<and> sh_await s 8 = AwSuspended \<and> sh_woken s 8 = 0"
  by (simp add: shared_example_def shared_new_def try_await_def shared_is_ready_def shared_final_def shared_resume_def)

end
