(* ===== verification/Shared_Owner.thy ===== *)
theory Shared_Owner
  imports Ref_Count
begin

text \<open>
  The objects of class \<^verbatim>\<open>shared_task\<close>, counted references to a coroutine frame whose promise holds
  the counter. A program has a list of variables; one without a coroutine, or that was
  destroyed, is null.
\<close>

section \<open>The counter in the promise\<close>

record shared_frame =
  ref_count :: u32

definition shared_frame_new :: shared_frame where
  "shared_frame_new = \<lparr>ref_count = 1\<rparr>"

definition add_ref :: "shared_frame \<Rightarrow> shared_frame" where
  "add_ref f = f\<lparr>ref_count := ref_count f + 1\<rparr>"

text \<open>True as long as it was not the last reference.\<close>

definition try_detach :: "shared_frame \<Rightarrow> bool \<times> shared_frame" where
  "try_detach f = (ref_count f \<noteq> 1, f\<lparr>ref_count := ref_count f - 1\<rparr>)"

definition shared_release :: "shared_frame \<Rightarrow> bool \<times> shared_frame" where
  "shared_release f = (let (detached, f') = try_detach f in (\<not> detached, f'))"

interpretation shared_ref: ref_counted add_ref shared_release ref_count
  by unfold_locales (simp_all add: add_ref_def shared_release_def try_detach_def)

section \<open>The result in the promise\<close>

text \<open>The storage of the value, once it is constructed, and the exception.\<close>

record ('v, 'e) shared_promise =
  value_storage :: "'v option"
  exception :: "'e option"

definition shared_promise_new :: "('v, 'e) shared_promise" where
  "shared_promise_new = \<lparr>value_storage = None, exception = None\<rparr>"

definition shared_return_value :: "'v \<Rightarrow> ('v, 'e) shared_promise \<Rightarrow> ('v, 'e) shared_promise" where
  "shared_return_value v p = p\<lparr>value_storage := Some v\<rparr>"

definition shared_unhandled_exception :: "'e \<Rightarrow> ('v, 'e) shared_promise \<Rightarrow> ('v, 'e) shared_promise" where
  "shared_unhandled_exception e p = p\<lparr>exception := Some e\<rparr>"

definition completed_with_unhandled_exception :: "('v, 'e) shared_promise \<Rightarrow> bool" where
  "completed_with_unhandled_exception p \<longleftrightarrow> exception p \<noteq> None"

text \<open>The exception thrown again, or the value; \<open>None\<close> reads a value that was not constructed.\<close>

definition shared_result :: "('v, 'e) shared_promise \<Rightarrow> ('e + 'v) option" where
  "shared_result p = (case exception p of Some e \<Rightarrow> Some (Inl e) | None \<Rightarrow> map_option Inr (value_storage p))"

text \<open>Whether the destructor of the promise destroys the value.\<close>

definition destroys_value :: "bool \<Rightarrow> ('v, 'e) shared_promise \<Rightarrow> bool" where
  "destroys_value is_ready p \<longleftrightarrow> is_ready \<and> \<not> completed_with_unhandled_exception p"

text \<open>A coroutine that has ended has a result, and its value is destroyed when there is one.\<close>

lemma shared_outcome:
  "shared_result (shared_return_value v shared_promise_new) = Some (Inr v)"
  "shared_result (shared_unhandled_exception e shared_promise_new) = Some (Inl e)"
  "destroys_value True (shared_return_value v shared_promise_new)"
  "\<not> destroys_value True (shared_unhandled_exception e shared_promise_new)"
  by (simp_all add: shared_result_def shared_return_value_def shared_unhandled_exception_def shared_promise_new_def
      destroys_value_def completed_with_unhandled_exception_def)

section \<open>The objects\<close>

record shared_objs =
  so_vars :: "ptr list"
  so_frames :: "ptr \<Rightarrow> shared_frame option"

definition shared_copy :: "ptr \<Rightarrow> (ptr \<Rightarrow> shared_frame option) \<Rightarrow> (ptr \<Rightarrow> shared_frame option) option" where
  "shared_copy p H = rc_copy add_ref p H"

definition shared_destroy :: "ptr \<Rightarrow> (ptr \<Rightarrow> shared_frame option) \<Rightarrow> (ptr \<Rightarrow> shared_frame option) option" where
  "shared_destroy p H = rc_drop shared_release p H"

datatype shared_op =
    SharedNew nat ptr
  | SharedMove nat nat
  | SharedCopy nat nat
  | SharedDestroy nat
  | SharedMoveAssign nat nat
  | SharedCopyAssign nat nat
  | SharedSwap nat nat

fun shared_exec :: "shared_op \<Rightarrow> shared_objs \<Rightarrow> shared_objs option" where
  "shared_exec (SharedNew i p) s =
     Some (s\<lparr>so_vars := (so_vars s)[i := p], so_frames := (so_frames s)(p \<mapsto> shared_frame_new)\<rparr>)"
| "shared_exec (SharedMove i j) s =
     Some (s\<lparr>so_vars := (so_vars s)[i := so_vars s ! j, j := 0]\<rparr>)"
| "shared_exec (SharedCopy i j) s =
     (case shared_copy (so_vars s ! j) (so_frames s) of
        None \<Rightarrow> None
      | Some H \<Rightarrow> Some (s\<lparr>so_vars := (so_vars s)[i := so_vars s ! j], so_frames := H\<rparr>))"
| "shared_exec (SharedDestroy i) s =
     (case shared_destroy (so_vars s ! i) (so_frames s) of
        None \<Rightarrow> None
      | Some H \<Rightarrow> Some (s\<lparr>so_vars := (so_vars s)[i := 0], so_frames := H\<rparr>))"
| "shared_exec (SharedMoveAssign i j) s =
     (if j \<noteq> i then
        (case shared_destroy (so_vars s ! i) (so_frames s) of
           None \<Rightarrow> None
         | Some H \<Rightarrow> Some (s\<lparr>so_vars := (so_vars s)[i := so_vars s ! j, j := 0], so_frames := H\<rparr>))
      else Some s)"
| "shared_exec (SharedCopyAssign i j) s =
     (if so_vars s ! i \<noteq> so_vars s ! j then
        (case shared_destroy (so_vars s ! i) (so_frames s) of
           None \<Rightarrow> None
         | Some H \<Rightarrow> (case shared_copy (so_vars s ! j) H of
             None \<Rightarrow> None
           | Some H \<Rightarrow> Some (s\<lparr>so_vars := (so_vars s)[i := so_vars s ! j], so_frames := H\<rparr>)))
      else Some s)"
| "shared_exec (SharedSwap i j) s =
     Some (s\<lparr>so_vars := (so_vars s)[i := so_vars s ! j, j := so_vars s ! i]\<rparr>)"

text \<open>
  What a program may do: it names variables that there are, constructs those that are null, and a
  new frame has an address that is not in use.
\<close>

fun shared_may :: "shared_op \<Rightarrow> shared_objs \<Rightarrow> bool" where
  "shared_may (SharedNew i p) s \<longleftrightarrow> i < length (so_vars s) \<and> so_vars s ! i = 0 \<and> p \<noteq> 0 \<and> so_frames s p = None"
| "shared_may (SharedMove i j) s \<longleftrightarrow>
     i < length (so_vars s) \<and> j < length (so_vars s) \<and> i \<noteq> j \<and> so_vars s ! i = 0"
| "shared_may (SharedCopy i j) s \<longleftrightarrow>
     i < length (so_vars s) \<and> j < length (so_vars s) \<and> i \<noteq> j \<and> so_vars s ! i = 0"
| "shared_may (SharedDestroy i) s \<longleftrightarrow> i < length (so_vars s)"
| "shared_may (SharedMoveAssign i j) s \<longleftrightarrow> i < length (so_vars s) \<and> j < length (so_vars s)"
| "shared_may (SharedCopyAssign i j) s \<longleftrightarrow> i < length (so_vars s) \<and> j < length (so_vars s)"
| "shared_may (SharedSwap i j) s \<longleftrightarrow> i < length (so_vars s) \<and> j < length (so_vars s)"

fun shared_program :: "shared_op list \<Rightarrow> shared_objs \<Rightarrow> shared_objs option" where
  "shared_program [] s = Some s"
| "shared_program (x # xs) s = (case shared_exec x s of None \<Rightarrow> None | Some s' \<Rightarrow> shared_program xs s')"

fun shared_allowed :: "shared_op list \<Rightarrow> shared_objs \<Rightarrow> bool" where
  "shared_allowed [] s \<longleftrightarrow> True"
| "shared_allowed (x # xs) s \<longleftrightarrow>
     shared_may x s \<and> (case shared_exec x s of None \<Rightarrow> True | Some s' \<Rightarrow> shared_allowed xs s')"

section \<open>Accounting\<close>

definition shared_counted :: "shared_objs \<Rightarrow> bool" where
  "shared_counted s \<longleftrightarrow> (\<forall>p. p \<noteq> 0 \<longrightarrow> shared_ref.cnt_ok (so_frames s) (uses (so_vars s) p) p) \<and>
     length (so_vars s) + 1 < 2 ^ 32"

lemma shared_countedI:
  assumes "shared_counted s" and "length (so_vars s') = length (so_vars s)"
    and "\<And>p. p \<noteq> 0 \<Longrightarrow> shared_ref.cnt_ok (so_frames s') (uses (so_vars s') p) p"
  shows "shared_counted s'"
  using assms by (simp add: shared_counted_def)

lemma shared_exec_counted:
  assumes may: "shared_may x s" and inv: "shared_counted s"
  obtains s' where "shared_exec x s = Some s'" and "shared_counted s'"
proof -
  have ok: "shared_ref.cnt_ok (so_frames s) (uses (so_vars s) p) p" if "p \<noteq> 0" for p
    using inv that by (simp add: shared_counted_def)
  have len: "length (so_vars s) + 1 < 2 ^ 32" using inv by (simp add: shared_counted_def)
  have us: "0 < uses (so_vars s) (so_vars s ! i)" if "i < length (so_vars s)" for i using uses_nth [OF that] .
  have fits: "uses (so_vars s) p + 1 < 2 ^ 32" for p using uses_le [of "so_vars s" p] len by simp
  note ci = shared_countedI [OF inv]
  show ?thesis
  proof (cases x)
    case (SharedNew i p)
    then have m: "i < length (so_vars s)" "so_vars s ! i = 0" "p \<noteq> 0" "so_frames s p = None" using may by simp_all
    let ?s = "s\<lparr>so_vars := (so_vars s)[i := p], so_frames := (so_frames s)(p \<mapsto> shared_frame_new)\<rparr>"
    have z: "uses (so_vars s) p = 0" using ok [OF m(3)] m(4) shared_ref.cnt_ok_alive by (metis gr_zeroI)
    have "shared_ref.cnt_ok (so_frames ?s) (uses (so_vars ?s) q) q" if "q \<noteq> 0" for q
      using ok [OF that] z uses_set(1) [OF m(1) that m(2), of p]
      by (cases "q = p") (auto simp: shared_ref.cnt_ok_def shared_frame_new_def split: option.splits)
    then have "shared_counted ?s" by (intro ci) simp_all
    with SharedNew that show ?thesis by simp
  next
    case (SharedMove i j)
    then have m: "i < length (so_vars s)" "j < length (so_vars s)" "i \<noteq> j" "so_vars s ! i = 0" using may by simp_all
    have "shared_counted (s\<lparr>so_vars := (so_vars s)[i := so_vars s ! j, j := 0]\<rparr>)"
      using ok m by (intro ci) (auto simp: uses_move)
    with SharedMove that show ?thesis by simp
  next
    case (SharedCopy i j)
    then have m: "i < length (so_vars s)" "j < length (so_vars s)" "so_vars s ! i = 0" using may by simp_all
    obtain H where H: "rc_copy add_ref (so_vars s ! j) (so_frames s) = Some H"
      "\<And>p. p \<noteq> 0 \<Longrightarrow> shared_ref.cnt_ok H (uses (so_vars s) p + of_bool (p = so_vars s ! j)) p"
      by (rule shared_ref.copy_ok [of "so_frames s" "uses (so_vars s)" "so_vars s ! j"]) (use ok us [OF m(2)] fits in auto)
    have "shared_counted (s\<lparr>so_vars := (so_vars s)[i := so_vars s ! j], so_frames := H\<rparr>)"
      using H(2) uses_set(1) [OF m(1) _ m(3)] by (intro ci) auto
    with SharedCopy H(1) that show ?thesis by (simp add: shared_copy_def)
  next
    case (SharedDestroy i)
    then have m: "i < length (so_vars s)" using may by simp
    obtain H where H: "rc_drop shared_release (so_vars s ! i) (so_frames s) = Some H"
      "\<And>p. p \<noteq> 0 \<Longrightarrow> shared_ref.cnt_ok H (uses (so_vars s) p - of_bool (p = so_vars s ! i)) p"
      by (rule shared_ref.drop_ok [of "so_frames s" "uses (so_vars s)" "so_vars s ! i"]) (use ok us [OF m] in auto)
    have "shared_counted (s\<lparr>so_vars := (so_vars s)[i := 0], so_frames := H\<rparr>)"
      using H(2) uses_set(2) [OF m] by (intro ci) auto
    with SharedDestroy H(1) that show ?thesis by (simp add: shared_destroy_def)
  next
    case (SharedMoveAssign i j)
    then have m: "i < length (so_vars s)" "j < length (so_vars s)" using may by simp_all
    show ?thesis
    proof (cases "j = i")
      case False
      obtain H where H: "rc_drop shared_release (so_vars s ! i) (so_frames s) = Some H"
        "\<And>p. p \<noteq> 0 \<Longrightarrow> shared_ref.cnt_ok H (uses (so_vars s) p - of_bool (p = so_vars s ! i)) p"
        by (rule shared_ref.drop_ok [of "so_frames s" "uses (so_vars s)" "so_vars s ! i"]) (use ok us [OF m(1)] in auto)
      have "shared_counted (s\<lparr>so_vars := (so_vars s)[i := so_vars s ! j, j := 0], so_frames := H\<rparr>)"
        using H(2) uses_move [OF m] False by (intro ci) auto
      with SharedMoveAssign False H(1) that show ?thesis by (simp add: shared_destroy_def)
    qed (use SharedMoveAssign inv that in simp)
  next
    case (SharedCopyAssign i j)
    then have m: "i < length (so_vars s)" "j < length (so_vars s)" using may by simp_all
    show ?thesis
    proof (cases "so_vars s ! i = so_vars s ! j")
      case False
      let ?N = "\<lambda>p. uses (so_vars s) p - of_bool (p = so_vars s ! i)"
      obtain H where H: "rc_drop shared_release (so_vars s ! i) (so_frames s) = Some H"
        "\<And>p. p \<noteq> 0 \<Longrightarrow> shared_ref.cnt_ok H (?N p) p"
        by (rule shared_ref.drop_ok [of "so_frames s" "uses (so_vars s)" "so_vars s ! i"]) (use ok us [OF m(1)] in auto)
      have "0 < ?N (so_vars s ! j)" using us [OF m(2)] False by simp
      moreover have "?N (so_vars s ! j) + 1 < 2 ^ 32" using fits [of "so_vars s ! j"] by simp
      ultimately obtain H' where H': "rc_copy add_ref (so_vars s ! j) H = Some H'"
        "\<And>p. p \<noteq> 0 \<Longrightarrow> shared_ref.cnt_ok H' (?N p + of_bool (p = so_vars s ! j)) p"
        using shared_ref.copy_ok [of H ?N "so_vars s ! j"] H(2) by blast
      have "?N p + of_bool (p = so_vars s ! j) = uses ((so_vars s)[i := so_vars s ! j]) p" for p
        using uses_update [OF m(1), of "so_vars s ! j" p] False us [OF m(1)] by (auto split: if_splits)
      then have "shared_counted (s\<lparr>so_vars := (so_vars s)[i := so_vars s ! j], so_frames := H'\<rparr>)"
        using H'(2) by (intro ci) auto
      with SharedCopyAssign False H(1) H'(1) that show ?thesis by (simp add: shared_destroy_def shared_copy_def)
    qed (use SharedCopyAssign inv that in simp)
  next
    case (SharedSwap i j)
    then have m: "i < length (so_vars s)" "j < length (so_vars s)" using may by simp_all
    have "shared_counted (s\<lparr>so_vars := (so_vars s)[i := so_vars s ! j, j := so_vars s ! i]\<rparr>)"
      using ok uses_swap [OF m] by (intro ci) auto
    with SharedSwap that show ?thesis by simp
  qed
qed

lemma shared_program_counted:
  "shared_counted s \<Longrightarrow> shared_allowed xs s \<Longrightarrow> \<exists>s'. shared_program xs s = Some s' \<and> shared_counted s'"
proof (induction xs arbitrary: s)
  case (Cons x xs)
  then obtain s' where "shared_exec x s = Some s'" "shared_counted s'" using shared_exec_counted [of x s] by auto
  with Cons show ?case by simp
qed simp

definition no_shared :: "nat \<Rightarrow> shared_objs" where
  "no_shared n = \<lparr>so_vars = replicate n 0, so_frames = (\<lambda>_. None)\<rparr>"

lemma uses_replicate: "p \<noteq> 0 \<Longrightarrow> uses (replicate n 0) p = 0"
  by (auto simp: uses_def filter_empty_conv)

text \<open>References to a shared task are counted exactly: whatever shared tasks a program
  constructs, copies, moves, assigns, swaps and destroys, no deleted frame is accessed, a frame
  exists as long as a variable refers to it and no longer, and its counter is their number.\<close>

theorem shared_task_counted:
  assumes "shared_allowed xs (no_shared n)" and "n + 1 < 2 ^ 32"
  shows "\<exists>s. shared_program xs (no_shared n) = Some s \<and>
    (\<forall>p. p \<noteq> 0 \<longrightarrow> (so_frames s p \<noteq> None \<longleftrightarrow> p \<in> set (so_vars s)) \<and>
       (\<forall>f. so_frames s p = Some f \<longrightarrow> unat (ref_count f) = length (filter (\<lambda>x. x = p) (so_vars s))))"
proof -
  have "shared_counted (no_shared n)"
    using assms(2) by (simp add: shared_counted_def no_shared_def uses_replicate shared_ref.cnt_ok_def)
  from shared_program_counted [OF this assms(1)] obtain s where
    s: "shared_program xs (no_shared n) = Some s" "shared_counted s" by blast
  have "(so_frames s p \<noteq> None \<longleftrightarrow> p \<in> set (so_vars s)) \<and>
      (\<forall>f. so_frames s p = Some f \<longrightarrow> unat (ref_count f) = length (filter (\<lambda>x. x = p) (so_vars s)))" if "p \<noteq> 0" for p
  proof -
    have c: "shared_ref.cnt_ok (so_frames s) (uses (so_vars s) p) p" using s(2) that by (simp add: shared_counted_def)
    have "0 < uses (so_vars s) p \<longleftrightarrow> p \<in> set (so_vars s)" by (auto simp: uses_def filter_empty_conv)
    with c show ?thesis using unat_of_nat_fits [of "uses (so_vars s) p", where 'l = 32]
      by (auto simp: shared_ref.cnt_ok_def uses_def split: option.splits)
  qed
  with s(1) show ?thesis by blast
qed

text \<open>A task is copied, the copy assigned over another one, which is gone, and swapped.\<close>

definition shared_program_example :: "shared_op list" where
  "shared_program_example = [SharedNew 0 64, SharedNew 1 128, SharedCopy 2 0, SharedCopyAssign 1 2,
     SharedSwap 0 1, SharedMoveAssign 2 0]"

theorem shared_task_counted_witness:
  "\<exists>s f. shared_program shared_program_example (no_shared 3) = Some s \<and> so_vars s = [0, 64, 64] \<and>
     so_frames s 64 = Some f \<and> unat (ref_count f) = 2 \<and> so_frames s 128 = None"
proof -
  have "shared_allowed shared_program_example (no_shared 3)"
    and run: "map_option so_vars (shared_program shared_program_example (no_shared 3)) = Some [0, 64, 64]"
    by (simp_all add: shared_program_example_def no_shared_def shared_copy_def shared_destroy_def rc_copy_def rc_drop_def
        shared_frame_new_def add_ref_def shared_release_def try_detach_def numeral_3_eq_3)
  from shared_task_counted [OF this(1)] obtain s where s: "shared_program shared_program_example (no_shared 3) = Some s"
    "\<And>p. p \<noteq> 0 \<Longrightarrow> (so_frames s p \<noteq> None \<longleftrightarrow> p \<in> set (so_vars s)) \<and>
       (\<forall>f. so_frames s p = Some f \<longrightarrow> unat (ref_count f) = length (filter (\<lambda>x. x = p) (so_vars s)))" by auto
  then have "so_vars s = [0, 64, 64]" using run by simp
  with s(2) [of 64] s(2) [of 128] s(1) show ?thesis by auto
qed

end
