(* ===== verification/Generator.thy ===== *)
theory Generator
  imports Prelude
begin

text \<open>
  Generators, \<^verbatim>\<open>generator.hpp\<close>: coroutines that yield values one by one and may yield all the
  elements of another generator, which may do so in turn. The generator that was called first is
  the root; its promise knows the one that runs now, and each nested one knows its parent and the
  root, so that an increment resumes the innermost generator at once. The body of a generator may be
  infinite.
\<close>

section \<open>Promises and frames\<close>

text \<open>
  A body ends, throws, yields a value, or yields the elements of a generator (\<open>None\<close> when it was
  moved from) and goes on with \<open>None\<close>, or with the exception that left that generator.
\<close>

codatatype ('v, 'e) gen =
    GenReturn
  | GenThrow 'e
  | GenYield 'v "('v, 'e) gen"
  | GenElementsOf "('v, 'e) gen option" "'e option \<Rightarrow> ('v, 'e) gen"

datatype ('v, 'e) gen_point =
    GenAt "('v, 'e) gen"
  | GenNested nat "'e option \<Rightarrow> ('v, 'e) gen"
  | GenAtEnd

text \<open>
  The promise of a frame, and where the frame is suspended. The field \<open>gp_info\<close> points to the
  information of a nested generator, which is a variable of the await expression of the
  parent; it is named by the frame of the parent.
\<close>

record ('v, 'e) gen_frame =
  gp_top :: nat
  gp_ptr :: "'v option"
  gp_info :: "nat option"
  gp_point :: "('v, 'e) gen_point"

record 'e nest_info =
  ni_except :: "'e option"
  ni_parent :: nat
  ni_root :: nat

text \<open>The field \<open>gm_thrown\<close> is the exception with which \<^verbatim>\<open>resume\<close> is left.\<close>

record ('v, 'e) gen_machine =
  gm_frames :: "nat \<rightharpoonup> ('v, 'e) gen_frame"
  gm_infos :: "nat \<rightharpoonup> 'e nest_info"
  gm_next :: nat
  gm_current :: "nat option"
  gm_thrown :: "'e option"

datatype gen_fault = GenDangling | GenAssert | GenNullRead | GenResumedDone

definition gen_frame_new :: "nat \<Rightarrow> ('v, 'e) gen \<Rightarrow> ('v, 'e) gen_frame" where
  "gen_frame_new h g = \<lparr>gp_top = h, gp_ptr = None, gp_info = None, gp_point = GenAt g\<rparr>"

definition gen_done :: "('v, 'e) gen_frame \<Rightarrow> bool" where
  "gen_done f \<longleftrightarrow> (case gp_point f of GenAtEnd \<Rightarrow> True | _ \<Rightarrow> False)"

definition set_top :: "nat \<Rightarrow> nat \<Rightarrow> ('v, 'e) gen_machine \<Rightarrow> gen_fault + ('v, 'e) gen_machine" where
  "set_top root t m = (case gm_frames m root of None \<Rightarrow> Inl GenDangling
     | Some f \<Rightarrow> Inr (m\<lparr>gm_frames := (gm_frames m)(root \<mapsto> f\<lparr>gp_top := t\<rparr>)\<rparr>))"

section \<open>The steps of a generator\<close>

text \<open>A value is yielded: the promise keeps its address, and control returns to the caller of \<^verbatim>\<open>resume\<close>.\<close>

definition yield_value :: "nat \<Rightarrow> ('v, 'e) gen_frame \<Rightarrow> 'v \<Rightarrow> ('v, 'e) gen \<Rightarrow> ('v, 'e) gen_machine \<Rightarrow> ('v, 'e) gen_machine" where
  "yield_value h f v g m =
     m\<lparr>gm_frames := (gm_frames m)(h \<mapsto> f\<lparr>gp_ptr := Some v, gp_point := GenAt g\<rparr>), gm_current := None\<rparr>"

text \<open>The elements of a generator are yielded: it becomes the innermost one and runs.\<close>

definition nested_await_suspend ::
    "nat \<Rightarrow> ('v, 'e) gen_frame \<Rightarrow> ('v, 'e) gen \<Rightarrow> ('e option \<Rightarrow> ('v, 'e) gen) \<Rightarrow> ('v, 'e) gen_machine \<Rightarrow>
     gen_fault + ('v, 'e) gen_machine" where
  "nested_await_suspend h f g k m =
     (let target = gm_next m;
          root = (case gp_info f of None \<Rightarrow> Inr h
            | Some i \<Rightarrow> (case gm_infos m i of None \<Rightarrow> Inl GenDangling | Some n \<Rightarrow> Inr (ni_root n)));
          m1 = m\<lparr>gm_frames := (gm_frames m)(target \<mapsto> (gen_frame_new target g)\<lparr>gp_info := Some h\<rparr>,
                   h \<mapsto> f\<lparr>gp_point := GenNested target k\<rparr>),
                 gm_next := target + 1, gm_current := Some target\<rparr>
      in case root of
           Inl x \<Rightarrow> Inl x
         | Inr r \<Rightarrow> set_top r target
             (m1\<lparr>gm_infos := (gm_infos m)(h \<mapsto> \<lparr>ni_except = None, ni_parent = h, ni_root = r\<rparr>)\<rparr>))"

text \<open>
  The body is left by an exception: the parent gets it, or it is thrown again to the caller of
  \<^verbatim>\<open>resume\<close>. A coroutine whose \<^verbatim>\<open>unhandled_exception\<close> throws counts as suspended at its end, without
  awaiting \<^verbatim>\<open>final_suspend\<close>.
\<close>

definition gen_unhandled_exception ::
    "'e \<Rightarrow> ('v, 'e) gen_frame \<Rightarrow> ('v, 'e) gen_machine \<Rightarrow> gen_fault + ('v, 'e) gen_machine" where
  "gen_unhandled_exception e f m =
     (case gp_info f of
        None \<Rightarrow> Inr (m\<lparr>gm_thrown := Some e\<rparr>)
      | Some i \<Rightarrow> (case gm_infos m i of None \<Rightarrow> Inl GenDangling
          | Some n \<Rightarrow> Inr (m\<lparr>gm_infos := (gm_infos m)(i \<mapsto> n\<lparr>ni_except := Some e\<rparr>)\<rparr>)))"

definition gen_left :: "nat \<Rightarrow> ('v, 'e) gen_frame \<Rightarrow> ('v, 'e) gen_machine \<Rightarrow> ('v, 'e) gen_machine" where
  "gen_left h f m = m\<lparr>gm_frames := (gm_frames m)(h \<mapsto> f\<lparr>gp_point := GenAtEnd\<rparr>), gm_current := None\<rparr>"

text \<open>The end of a body: control goes to the parent, or back to the caller of \<^verbatim>\<open>resume\<close>.\<close>

definition gen_final ::
    "nat \<Rightarrow> ('v, 'e) gen_frame \<Rightarrow> ('v, 'e) gen_machine \<Rightarrow> gen_fault + ('v, 'e) gen_machine" where
  "gen_final h f m =
     (case gp_info f of
        None \<Rightarrow> Inr (m\<lparr>gm_frames := (gm_frames m)(h \<mapsto> f\<lparr>gp_point := GenAtEnd\<rparr>), gm_current := None\<rparr>)
      | Some i \<Rightarrow> (case gm_infos m i of None \<Rightarrow> Inl GenDangling
          | Some n \<Rightarrow> set_top (ni_root n) (ni_parent n)
              (m\<lparr>gm_frames := (gm_frames m)(h \<mapsto> f\<lparr>gp_info := None, gp_point := GenAtEnd\<rparr>),
                 gm_current := Some (ni_parent n)\<rparr>)))"

text \<open>The parent goes on; the nested generator, a variable of the await expression, is destroyed.\<close>

definition nested_await_resume ::
    "nat \<Rightarrow> ('v, 'e) gen_frame \<Rightarrow> nat \<Rightarrow> ('e option \<Rightarrow> ('v, 'e) gen) \<Rightarrow> ('v, 'e) gen_machine \<Rightarrow>
     gen_fault + ('v, 'e) gen_machine" where
  "nested_await_resume h f c k m =
     (case gm_infos m h of
        None \<Rightarrow> Inl GenDangling
      | Some n \<Rightarrow> Inr (m\<lparr>gm_frames := (gm_frames m)(c := None, h \<mapsto> f\<lparr>gp_point := GenAt (k (ni_except n))\<rparr>),
                        gm_infos := (gm_infos m)(h := None)\<rparr>))"

definition gen_step :: "('v, 'e) gen_machine \<Rightarrow> gen_fault + ('v, 'e) gen_machine" where
  "gen_step m =
     (case gm_current m of
        None \<Rightarrow> Inr m
      | Some h \<Rightarrow> (case gm_frames m h of
          None \<Rightarrow> Inl GenDangling
        | Some f \<Rightarrow> (case gp_point f of
            GenAt GenReturn \<Rightarrow> gen_final h f m
          | GenAt (GenThrow e) \<Rightarrow> (case gen_unhandled_exception e f m of
              Inl x \<Rightarrow> Inl x
            | Inr m' \<Rightarrow> if gm_thrown m' = None then gen_final h f m' else Inr (gen_left h f m'))
          | GenAt (GenYield v g) \<Rightarrow> Inr (yield_value h f v g m)
          | GenAt (GenElementsOf g k) \<Rightarrow> (case g of
                None \<Rightarrow> Inr (m\<lparr>gm_frames := (gm_frames m)(h \<mapsto> f\<lparr>gp_point := GenAt (k None)\<rparr>)\<rparr>)
              | Some g \<Rightarrow> nested_await_suspend h f g k m)
          | GenNested c k \<Rightarrow> nested_await_resume h f c k m
          | GenAtEnd \<Rightarrow> Inl GenResumedDone)))"

text \<open>The steps until control is back at the caller of \<^verbatim>\<open>resume\<close>; \<open>None\<close> when they do not end.\<close>

partial_function (option) gen_run ::
    "('v, 'e) gen_machine \<Rightarrow> (gen_fault + ('v, 'e) gen_machine) option" where
  "gen_run m =
     (if gm_current m = None then Some (Inr m)
      else case gen_step m of Inl x \<Rightarrow> Some (Inl x) | Inr m' \<Rightarrow> gen_run m')"

definition gen_resume :: "nat \<Rightarrow> ('v, 'e) gen_machine \<Rightarrow> (gen_fault + ('v, 'e) gen_machine) option" where
  "gen_resume h m = gen_run (m\<lparr>gm_current := Some h, gm_thrown := None\<rparr>)"

section \<open>The range of a generator\<close>

definition gen_call :: "('v, 'e) gen \<Rightarrow> ('v, 'e) gen_machine \<Rightarrow> nat \<times> ('v, 'e) gen_machine" where
  "gen_call g m = (gm_next m, m\<lparr>gm_frames := (gm_frames m)(gm_next m \<mapsto> gen_frame_new (gm_next m) g),
     gm_next := gm_next m + 1\<rparr>)"

definition gen_begin :: "nat \<Rightarrow> ('v, 'e) gen_machine \<Rightarrow> (gen_fault + ('v, 'e) gen_machine) option" where
  "gen_begin h m = (if h = 0 then Some (Inl GenAssert) else gen_resume h m)"

definition gen_increment :: "nat \<Rightarrow> ('v, 'e) gen_machine \<Rightarrow> (gen_fault + ('v, 'e) gen_machine) option" where
  "gen_increment h m =
     (case gm_frames m h of
        None \<Rightarrow> Some (Inl GenDangling)
      | Some f \<Rightarrow> if gen_done f then Some (Inl GenAssert) else gen_resume (gp_top f) m)"

definition gen_deref :: "nat \<Rightarrow> ('v, 'e) gen_machine \<Rightarrow> gen_fault + 'v" where
  "gen_deref h m =
     (case gm_frames m h of
        None \<Rightarrow> Inl GenDangling
      | Some f \<Rightarrow> if gen_done f then Inl GenAssert
          else (case gm_frames m (gp_top f) of
              None \<Rightarrow> Inl GenDangling
            | Some t \<Rightarrow> (case gp_ptr t of None \<Rightarrow> Inl GenNullRead | Some v \<Rightarrow> Inr v)))"

definition gen_at_end :: "nat \<Rightarrow> ('v, 'e) gen_machine \<Rightarrow> bool" where
  "gen_at_end h m \<longleftrightarrow> (case gm_frames m h of None \<Rightarrow> True | Some f \<Rightarrow> gen_done f)"

text \<open>The first \<open>n\<close> rounds of a loop over the range, which an exception leaves.\<close>

fun gen_range ::
    "nat \<Rightarrow> bool \<Rightarrow> nat \<Rightarrow> ('v, 'e) gen_machine \<Rightarrow> ('v list \<times> (gen_fault + ('v, 'e) gen_machine)) option" where
  "gen_range 0 first h m = Some ([], Inr m)"
| "gen_range (Suc n) first h m =
     (case (if first then gen_begin h m else gen_increment h m) of
        None \<Rightarrow> None
      | Some (Inl x) \<Rightarrow> Some ([], Inl x)
      | Some (Inr m') \<Rightarrow>
          if gm_thrown m' \<noteq> None then Some ([], Inr m')
          else if gen_at_end h m' then Some ([], Inr m')
          else (case gen_deref h m' of
              Inl x \<Rightarrow> Some ([], Inl x)
            | Inr v \<Rightarrow> map_option (\<lambda>(vs, r). (v # vs, r)) (gen_range n False h m')))"

text \<open>The elements of any range are yielded by a generator that loops over it.\<close>

primrec range_gen :: "'v list \<Rightarrow> ('v, 'e) gen" where
  "range_gen [] = GenReturn"
| "range_gen (v # vs) = GenYield v (range_gen vs)"

text \<open>
  The destruction of a generator: its frame goes, and with it the variables of the await expression
  it is suspended in, among them the nested generator.
\<close>

partial_function (option) gen_destroy :: "nat \<Rightarrow> ('v, 'e) gen_machine \<Rightarrow> (gen_fault + ('v, 'e) gen_machine) option" where
  "gen_destroy h m =
     (if h = 0 then Some (Inr m)
      else case gm_frames m h of
             None \<Rightarrow> Some (Inl GenDangling)
           | Some f \<Rightarrow> (case gp_point f of
               GenNested c k \<Rightarrow> gen_destroy c (m\<lparr>gm_frames := (gm_frames m)(h := None), gm_infos := (gm_infos m)(h := None)\<rparr>)
             | _ \<Rightarrow> Some (Inr (m\<lparr>gm_frames := (gm_frames m)(h := None)\<rparr>))))"

section \<open>What a generator yields\<close>

datatype 'e gen_ending = GenCut | GenEnds "'e option"

text \<open>
  A body yields these values first; \<open>GenEnds\<close> says that they are all and how it is left.
\<close>

inductive gen_yields :: "('v, 'e) gen \<Rightarrow> 'v list \<Rightarrow> 'e gen_ending \<Rightarrow> bool" where
  yields_cut: "gen_yields g [] GenCut"
| yields_return: "gen_yields GenReturn [] (GenEnds None)"
| yields_throw: "gen_yields (GenThrow e) [] (GenEnds (Some e))"
| yields_value: "gen_yields g vs q \<Longrightarrow> gen_yields (GenYield v g) (v # vs) q"
| yields_moved: "gen_yields (k None) vs q \<Longrightarrow> gen_yields (GenElementsOf None k) vs q"
| yields_within: "gen_yields g vs GenCut \<Longrightarrow> gen_yields (GenElementsOf (Some g) k) vs GenCut"
| yields_after: "gen_yields g vs (GenEnds r) \<Longrightarrow> gen_yields (k r) ws q \<Longrightarrow>
    gen_yields (GenElementsOf (Some g) k) (vs @ ws) q"

lemma yields_range: "gen_yields (range_gen vs) vs (GenEnds None)"
  by (induction vs) (auto intro: gen_yields.intros)

section \<open>The stack of nested generators\<close>

text \<open>
  From the innermost generator \<open>c\<close> to the root \<open>h\<close>: each frame on the way is suspended in the
  await expression of the one before, whose promise points to its information.
\<close>

fun gen_stack :: "('v, 'e) gen_machine \<Rightarrow> nat \<Rightarrow> nat \<Rightarrow> (nat \<times> ('e option \<Rightarrow> ('v, 'e) gen)) list \<Rightarrow> bool" where
  "gen_stack m h c [] \<longleftrightarrow> c = h \<and> (\<exists>f. gm_frames m c = Some f \<and> gp_info f = None)"
| "gen_stack m h c ((p, k) # stk) \<longleftrightarrow>
     (\<exists>f. gm_frames m c = Some f \<and> gp_info f = Some p) \<and>
     gm_infos m p = Some \<lparr>ni_except = None, ni_parent = p, ni_root = h\<rparr> \<and>
     (\<exists>f. gm_frames m p = Some f \<and> gp_point f = GenNested c k) \<and> gen_stack m h p stk"

text \<open>
  The generator with root \<open>h\<close> has the stack \<open>stk\<close> above \<open>c\<close>, which is at the body \<open>g\<close>; all other
  frames are those of \<open>B\<close>, and all other information is that of \<open>I\<close>.
\<close>

definition gen_at ::
    "nat \<Rightarrow> (nat \<rightharpoonup> ('v, 'e) gen_frame) \<Rightarrow> (nat \<rightharpoonup> 'e nest_info) \<Rightarrow> nat \<Rightarrow> (nat \<times> ('e option \<Rightarrow> ('v, 'e) gen)) list \<Rightarrow> ('v, 'e) gen \<Rightarrow>
     ('v, 'e) gen_machine \<Rightarrow> bool" where
  "gen_at h B I c stk g m \<longleftrightarrow>
     gm_thrown m = None \<and> gen_stack m h c stk \<and> (\<exists>f. gm_frames m c = Some f \<and> gp_point f = GenAt g) \<and>
     (\<exists>f. gm_frames m h = Some f \<and> gp_top f = c) \<and>
     distinct (c # map fst stk) \<and> (\<forall>x\<in>set (c # map fst stk). x < gm_next m \<and> B x = None \<and> I x = None) \<and>
     (\<forall>x. x \<notin> set (c # map fst stk) \<longrightarrow> gm_frames m x = B x) \<and>
     (\<forall>x\<in>dom B \<union> dom I. x < gm_next m) \<and> (\<forall>x. x \<notin> set (map fst stk) \<longrightarrow> gm_infos m x = I x)"

lemma gen_stack_root: "gen_stack m h c stk \<Longrightarrow> h \<in> set (c # map fst stk)"
  by (induction stk arbitrary: c) auto

lemma gen_stack_frames: "gen_stack m h c stk \<Longrightarrow> x \<in> set (c # map fst stk) \<Longrightarrow> \<exists>f. gm_frames m x = Some f"
proof (induction stk arbitrary: c)
  case (Cons y stk)
  then show ?case by (cases y; cases "x = c") fastforce+
qed auto

lemma gen_stack_nested: "gen_stack m h c stk \<Longrightarrow> x \<in> set (map fst stk) \<Longrightarrow> \<exists>f d k. gm_frames m x = Some f \<and> gp_point f = GenNested d k"
proof (induction stk arbitrary: c)
  case (Cons y stk)
  then show ?case by (cases y; cases "x = fst y") fastforce+
qed simp

text \<open>Changes of the innermost frame, and of the field \<open>gp_top\<close> of the root, leave the nesting as it is.\<close>

lemma gen_stack_cong:
  assumes "gen_stack m h c stk" and "\<And>x. x \<in> set (map fst stk) \<Longrightarrow> gm_infos m' x = gm_infos m x"
    and "map_option gp_info (gm_frames m' c) = map_option gp_info (gm_frames m c)"
    and "\<And>x. x \<in> set (map fst stk) \<Longrightarrow> map_option gp_info (gm_frames m' x) = map_option gp_info (gm_frames m x)"
    and "\<And>x. x \<in> set (map fst stk) \<Longrightarrow> map_option gp_point (gm_frames m' x) = map_option gp_point (gm_frames m x)"
  shows "gen_stack m' h c stk"
  using assms
proof (induction stk arbitrary: c)
  case Nil
  then show ?case by (auto simp: map_option_case split: option.splits)
next
  case (Cons x stk)
  obtain p k where x: "x = (p, k)" by fastforce
  have "gen_stack m' h p stk" using Cons.prems by (intro Cons.IH) (auto simp: x)
  moreover have "\<exists>f. gm_frames m' c = Some f \<and> gp_info f = Some p"
    using Cons.prems(1,3) by (auto simp: x)
  moreover have "\<exists>f. gm_frames m' p = Some f \<and> gp_point f = GenNested c k"
    using Cons.prems(1) Cons.prems(5) [of p] by (auto simp: x)
  moreover have "gm_infos m' p = Some \<lparr>ni_except = None, ni_parent = p, ni_root = h\<rparr>"
    using Cons.prems(1) Cons.prems(2) [of p] by (simp add: x)
  ultimately show ?case by (simp add: x)
qed

lemma gen_stack_upd:
  assumes "gen_stack m h c stk" and "c \<notin> set (map fst stk)" and "gm_frames m c = Some f" and "gp_info f' = gp_info f"
    and "gm_frames m' = (gm_frames m)(c \<mapsto> f')" and "gm_infos m' = gm_infos m"
  shows "gen_stack m' h c stk"
  using assms by (intro gen_stack_cong [OF assms(1)]) auto

lemma gen_atD:
  assumes "gen_at h B I c stk g m"
  shows "gen_stack m h c stk" and "distinct (c # map fst stk)" and "c \<notin> set (map fst stk)"
    and "\<And>x. x \<in> set (c # map fst stk) \<Longrightarrow> x < gm_next m"
    and "\<And>x. x \<notin> set (c # map fst stk) \<Longrightarrow> gm_frames m x = B x"
    and "\<And>x. x \<in> dom B \<union> dom I \<Longrightarrow> x < gm_next m" and "\<And>x. x \<notin> set (map fst stk) \<Longrightarrow> gm_infos m x = I x"
    and "h \<in> set (c # map fst stk)" and "\<And>x. x \<in> set (c # map fst stk) \<Longrightarrow> B x = None \<and> I x = None"
    and "gm_thrown m = None"
  using assms gen_stack_root [of m h c stk] unfolding gen_at_def by auto

lemma gen_at_root:
  assumes "gen_at h B I c stk g m"
  obtains f where "gm_frames m h = Some f" and "gp_top f = c" and "\<not> gen_done f" and "h \<noteq> c \<Longrightarrow> h \<in> set (map fst stk)"
proof -
  obtain f where f: "gm_frames m h = Some f" "gp_top f = c" using assms by (auto simp: gen_at_def)
  have "\<not> gen_done f"
  proof (cases "h = c")
    case True
    then show ?thesis using assms f(1) by (auto simp: gen_at_def gen_done_def)
  next
    case False
    then show ?thesis using gen_stack_nested [OF gen_atD(1) [OF assms], of h] gen_atD(8) [OF assms] f(1)
      by (auto simp: gen_done_def)
  qed
  then show thesis using that f gen_atD(8) [OF assms] by auto
qed

inductive gen_steps :: "('v, 'e) gen_machine \<Rightarrow> ('v, 'e) gen_machine \<Rightarrow> bool" where
  gen_refl: "gen_steps m m"
| gen_more: "gm_current m \<noteq> None \<Longrightarrow> gen_step m = Inr m' \<Longrightarrow> gen_steps m' m'' \<Longrightarrow> gen_steps m m''"

lemma gen_one: "gm_current m \<noteq> None \<Longrightarrow> gen_step m = Inr m' \<Longrightarrow> gen_steps m m'"
  by (rule gen_more [OF _ _ gen_refl])

lemma gen_steps_trans: "gen_steps m m' \<Longrightarrow> gen_steps m' m'' \<Longrightarrow> gen_steps m m''"
  by (induction rule: gen_steps.induct) (auto intro: gen_more)

lemma gen_steps_run: "gen_steps m m' \<Longrightarrow> gen_run m = gen_run m'"
proof (induction rule: gen_steps.induct)
  case (gen_more m m' m'')
  then show ?case using gen_run.simps [of m] by auto
qed simp

text \<open>The four ways in which the innermost generator goes on.\<close>

lemma gen_at_yield:
  assumes at: "gen_at h B I c stk (GenYield v g) m" and cur: "gm_current m = Some c"
  obtains m' where "gen_step m = Inr m'" and "gm_current m' = None" and "gen_at h B I c stk g m'"
    and "gen_deref h m' = Inr v" and "\<not> gen_at_end h m'"
proof -
  note D = gen_atD [OF at]
  obtain f where f: "gm_frames m c = Some f" "gp_point f = GenAt (GenYield v g)" using at by (auto simp: gen_at_def)
  obtain fh where fh: "gm_frames m h = Some fh" "gp_top fh = c" by (rule gen_at_root [OF at])
  define f' where "f' = f\<lparr>gp_ptr := Some v, gp_point := GenAt g\<rparr>"
  define m' where "m' = m\<lparr>gm_frames := (gm_frames m)(c \<mapsto> f'), gm_current := None\<rparr>"
  have st: "gen_step m = Inr m'" using f cur by (simp add: gen_step_def yield_value_def m'_def f'_def)
  have "gen_stack m' h c stk" by (rule gen_stack_upd [OF D(1,3) f(1), where f' = f']) (simp_all add: m'_def f'_def)
  moreover have top: "\<exists>f. gm_frames m' h = Some f \<and> gp_top f = c"
    using fh f by (cases "h = c") (simp_all add: m'_def f'_def)
  ultimately have at': "gen_at h B I c stk g m'"
    using D(2,4-7,9,10) unfolding gen_at_def by (auto simp: m'_def f'_def)
  obtain fh' where fh': "gm_frames m' h = Some fh'" "gp_top fh' = c" "\<not> gen_done fh'" by (rule gen_at_root [OF at'])
  then have "gen_deref h m' = Inr v" by (simp add: gen_deref_def m'_def f'_def)
  moreover have "\<not> gen_at_end h m'" using fh' by (simp add: gen_at_end_def)
  ultimately show thesis using that st at' by (simp add: m'_def)
qed

lemma gen_at_moved:
  assumes at: "gen_at h B I c stk (GenElementsOf None k) m" and cur: "gm_current m = Some c"
  obtains m' where "gen_step m = Inr m'" and "gm_current m' = Some c" and "gen_at h B I c stk (k None) m'"
proof -
  note D = gen_atD [OF at]
  obtain f where f: "gm_frames m c = Some f" "gp_point f = GenAt (GenElementsOf None k)" using at by (auto simp: gen_at_def)
  obtain fh where fh: "gm_frames m h = Some fh" "gp_top fh = c" by (rule gen_at_root [OF at])
  define f' where "f' = f\<lparr>gp_point := GenAt (k None)\<rparr>"
  define m' where "m' = m\<lparr>gm_frames := (gm_frames m)(c \<mapsto> f')\<rparr>"
  have st: "gen_step m = Inr m'" using f cur by (simp add: gen_step_def m'_def f'_def)
  have "gen_stack m' h c stk" by (rule gen_stack_upd [OF D(1,3) f(1), where f' = f']) (simp_all add: m'_def f'_def)
  moreover have "\<exists>f. gm_frames m' h = Some f \<and> gp_top f = c"
    using fh f by (cases "h = c") (simp_all add: m'_def f'_def)
  ultimately have "gen_at h B I c stk (k None) m'"
    using D(2,4-7,9,10) unfolding gen_at_def by (auto simp: m'_def f'_def)
  then show thesis using that st cur by (simp add: m'_def)
qed

lemma gen_at_nested:
  assumes at: "gen_at h B I c stk (GenElementsOf (Some g) k) m" and cur: "gm_current m = Some c"
  obtains m' c' where "gen_step m = Inr m'" and "gm_current m' = Some c'" and "gen_at h B I c' ((c, k) # stk) g m'"
proof -
  note D = gen_atD [OF at]
  obtain f where f: "gm_frames m c = Some f" "gp_point f = GenAt (GenElementsOf (Some g) k)" using at by (auto simp: gen_at_def)
  obtain fh where fh: "gm_frames m h = Some fh" "gp_top fh = c" by (rule gen_at_root [OF at])
  define c' where "c' = gm_next m"
  have ne: "c' \<noteq> c" "c' \<noteq> h" "c' \<notin> set (map fst stk)" using D(4,8) by (auto simp: c'_def)
  define F where "F = (gm_frames m)(c' \<mapsto> (gen_frame_new c' g)\<lparr>gp_info := Some c\<rparr>, c \<mapsto> f\<lparr>gp_point := GenNested c' k\<rparr>)"
  define fh' where "fh' = (if h = c then f\<lparr>gp_point := GenNested c' k\<rparr> else fh)"
  define m' where "m' = m\<lparr>gm_frames := F(h \<mapsto> fh'\<lparr>gp_top := c'\<rparr>), gm_next := c' + 1, gm_current := Some c',
      gm_infos := (gm_infos m)(c \<mapsto> \<lparr>ni_except = None, ni_parent = c, ni_root = h\<rparr>)\<rparr>"
  have Fh: "F h = Some fh'" using fh(1) ne by (auto simp: F_def fh'_def)
  have root: "(case gp_info f of None \<Rightarrow> Inr c
      | Some i \<Rightarrow> (case gm_infos m i of None \<Rightarrow> Inl GenDangling | Some n \<Rightarrow> Inr (ni_root n))) = (Inr h :: gen_fault + nat)"
    using D(1) f(1) by (cases stk) auto
  have st: "gen_step m = Inr m'" using f cur root Fh
    by (simp add: gen_step_def nested_await_suspend_def Let_def set_top_def m'_def F_def c'_def)
  have "gen_stack m' h c stk"
    by (rule gen_stack_cong [OF D(1)])
      (use D(3) ne fh(1) f(1) in \<open>auto simp: m'_def F_def fh'_def\<close>)
  then have "gen_stack m' h c' ((c, k) # stk)"
    using ne f(1) by (auto simp: m'_def F_def fh'_def gen_frame_new_def)
  moreover have "gm_frames m' x = B x" if "x \<notin> set (c' # map fst ((c, k) # stk))" for x
    using that D(5) [of x] D(8) by (auto simp: m'_def F_def)
  moreover have "x < gm_next m'" if "x \<in> set (c' # map fst ((c, k) # stk)) \<or> x \<in> dom B \<union> dom I" for x
  proof -
    have "x = c' \<or> x < gm_next m" using that D(4) [of x] D(6) [of x] by auto
    then show ?thesis by (auto simp: m'_def c'_def)
  qed
  moreover have "B x = None \<and> I x = None" if "x \<in> set (c' # map fst ((c, k) # stk))" for x
    using that D(9) [of x] D(6) [of c'] by (auto simp: c'_def)
  moreover have "gm_infos m' x = I x" if "x \<notin> set (map fst ((c, k) # stk))" for x
    using that D(7) [of x] by (auto simp: m'_def)
  moreover have "\<exists>f. gm_frames m' h = Some f \<and> gp_top f = c'" by (simp add: m'_def)
  moreover have "\<exists>f. gm_frames m' c' = Some f \<and> gp_point f = GenAt g" using ne by (auto simp: m'_def F_def gen_frame_new_def)
  moreover have "distinct (c' # map fst ((c, k) # stk))" using D(2) ne by auto
  moreover have "gm_thrown m' = None" using D(10) by (simp add: m'_def)
  ultimately have "gen_at h B I c' ((c, k) # stk) g m'" unfolding gen_at_def by blast
  then show thesis using that st by (simp add: m'_def)
qed

text \<open>The body with which a generator is left.\<close>

fun gen_end :: "'e option \<Rightarrow> ('v, 'e) gen" where
  "gen_end None = GenReturn"
| "gen_end (Some e) = GenThrow e"

text \<open>A nested generator ends: in two steps its parent goes on with the way it was left.\<close>

lemma gen_at_return:
  assumes at: "gen_at h B I c ((p, k) # stk) (gen_end r) m" and cur: "gm_current m = Some c"
  obtains m' where "gen_steps m m'" and "gm_current m' = Some p" and "gen_at h B I p stk (k r) m'"
proof -
  note D = gen_atD [OF at]
  obtain f where f: "gm_frames m c = Some f" "gp_point f = GenAt (gen_end r)" "gp_info f = Some p"
    using at by (auto simp: gen_at_def)
  obtain fp where fp: "gm_frames m p = Some fp" "gp_point fp = GenNested c k" using at by (auto simp: gen_at_def)
  obtain fh where fh: "gm_frames m h = Some fh" by (rule gen_at_root [OF at])
  have stk: "gen_stack m h p stk" "gm_infos m p = Some \<lparr>ni_except = None, ni_parent = p, ni_root = h\<rparr>" using D(1) by simp_all
  have ne: "p \<noteq> c" "p \<notin> set (map fst stk)" "c \<notin> set (map fst stk)" using D(2) by auto
  have hin: "h = p \<or> h \<in> set (map fst stk)" using gen_stack_root [OF stk(1)] by auto
  then have hc: "h \<noteq> c" using ne by auto
  define F where "F = (gm_frames m)(c \<mapsto> f\<lparr>gp_info := None, gp_point := GenAtEnd\<rparr>)"
  define m1 where "m1 = m\<lparr>gm_infos := (gm_infos m)(p \<mapsto> \<lparr>ni_except = r, ni_parent = p, ni_root = h\<rparr>),
      gm_frames := F(h \<mapsto> fh\<lparr>gp_top := p\<rparr>), gm_current := Some p\<rparr>"
  have Fh: "F h = Some fh" using fh hc by (simp add: F_def)
  have s1: "gen_step m = Inr m1"
  proof (cases r)
    case None
    then show ?thesis using f cur stk(2) Fh
      by (simp add: gen_step_def gen_final_def set_top_def m1_def F_def fun_upd_idem)
  next
    case (Some e)
    then show ?thesis using f cur stk(2) Fh D(10)
      by (simp add: gen_step_def gen_unhandled_exception_def gen_final_def set_top_def m1_def F_def)
  qed
  define fp1 where "fp1 = (if h = p then fp\<lparr>gp_top := p\<rparr> else fp)"
  have p1: "gm_frames m1 p = Some fp1" using fp(1) fh ne by (auto simp: m1_def F_def fp1_def)
  have pt: "gp_point fp1 = GenNested c k" "gp_info fp1 = gp_info fp" using fp(2) by (simp_all add: fp1_def)
  define m2 where "m2 = m1\<lparr>gm_frames := (gm_frames m1)(c := None, p \<mapsto> fp1\<lparr>gp_point := GenAt (k r)\<rparr>),
      gm_infos := (gm_infos m1)(p := None)\<rparr>"
  have "gm_current m1 = Some p" "gm_infos m1 p = Some \<lparr>ni_except = r, ni_parent = p, ni_root = h\<rparr>" by (simp_all add: m1_def)
  then have s2: "gen_step m1 = Inr m2" using p1 pt(1) by (simp add: gen_step_def nested_await_resume_def m2_def)
  have "gen_steps m m2"
    by (rule gen_more [OF _ s1 gen_one [OF _ s2]]) (simp_all add: cur m1_def)
  moreover have cur2: "gm_current m2 = Some p" by (simp add: m2_def m1_def)
  moreover have "gen_at h B I p stk (k r) m2"
  proof -
    have "gen_stack m2 h p stk"
      by (rule gen_stack_cong [OF stk(1)]) (use ne fp(1) fh pt in \<open>auto simp: m2_def m1_def F_def\<close>)
    moreover have "gm_frames m2 x = B x" if "x \<notin> set (p # map fst stk)" for x
    proof (cases "x = c")
      case True
      then show ?thesis using D(9) [of c] ne by (simp add: m2_def)
    next
      case False
      then show ?thesis using that hin D(5) [of x] by (auto simp: m2_def m1_def F_def)
    qed
    moreover have "x < gm_next m2" if "x \<in> set (p # map fst stk) \<or> x \<in> dom B \<union> dom I" for x
      using that D(4) [of x] D(6) [of x] by (auto simp: m2_def m1_def)
    moreover have "B x = None \<and> I x = None" if "x \<in> set (p # map fst stk)" for x using that D(9) [of x] by auto
    moreover have "gm_infos m2 x = I x" if "x \<notin> set (map fst stk)" for x
      using that D(7) [of x] D(9) [of p] by (auto simp: m2_def m1_def)
    moreover have "\<exists>f. gm_frames m2 h = Some f \<and> gp_top f = p"
      using ne hc by (cases "h = p") (auto simp: m2_def m1_def fp1_def)
    moreover have "\<exists>f. gm_frames m2 p = Some f \<and> gp_point f = GenAt (k r)" by (simp add: m2_def)
    moreover have "distinct (p # map fst stk)" using D(2) by simp
    moreover have "gm_thrown m2 = None" using D(10) by (simp add: m2_def m1_def)
    ultimately show ?thesis unfolding gen_at_def by blast
  qed
  ultimately show thesis using that by blast
qed

lemma gen_at_current: "gen_at h B I c stk g m \<Longrightarrow> gen_at h B I c stk g (m\<lparr>gm_current := x\<rparr>)"
  unfolding gen_at_def by (auto intro: gen_stack_cong)

text \<open>The root ends: control returns, with the exception if there is one.\<close>

lemma gen_root_return:
  assumes at: "gen_at h B I c [] (gen_end r) m" and cur: "gm_current m = Some c"
  shows "\<exists>f m'. gen_run m = Some (Inr m') \<and> gm_thrown m' = r \<and> gp_point f = GenAtEnd \<and>
    gm_frames m' = B(h \<mapsto> f) \<and> gm_infos m' = I"
proof -
  obtain f where f: "gm_frames m c = Some f" "gp_point f = GenAt (gen_end r)" "gp_info f = None" and h: "c = h"
    using at by (auto simp: gen_at_def)
  note D = gen_atD [OF at]
  define f' where "f' = f\<lparr>gp_point := GenAtEnd\<rparr>"
  define m' where "m' = m\<lparr>gm_frames := (gm_frames m)(h \<mapsto> f'), gm_current := None, gm_thrown := r\<rparr>"
  have "gen_step m = Inr m'" using f cur h D(10)
    by (cases r) (simp_all add: gen_step_def gen_final_def gen_unhandled_exception_def gen_left_def m'_def f'_def)
  then have "gen_run m = Some (Inr m')" using cur gen_run.simps [of m] gen_run.simps [of m'] by (simp add: m'_def)
  moreover have "gm_frames m' = B(h \<mapsto> f')" using D(5) h by (auto simp: m'_def fun_eq_iff)
  moreover have "gm_infos m' = I" using D(7) by (auto simp: m'_def fun_eq_iff)
  moreover have "gp_point f' = GenAtEnd" "gm_thrown m' = r" by (simp_all add: f'_def m'_def)
  ultimately show ?thesis by blast
qed

section \<open>Rounds of the loop over the range\<close>

text \<open>
  A running machine hands out these values, being resumed after each one, and is then at another
  state in which it runs; or hands them out and the rest is not looked at.
\<close>

definition gen_hands_out :: "nat \<Rightarrow> ('v, 'e) gen_machine \<Rightarrow> 'v \<Rightarrow> ('v, 'e) gen_machine \<Rightarrow> bool" where
  "gen_hands_out h m v m' \<longleftrightarrow> (\<exists>m1 f. gen_steps m m1 \<and> gm_current m1 = None \<and> gm_thrown m1 = None \<and> gen_deref h m1 = Inr v \<and>
     gm_frames m1 h = Some f \<and> \<not> gen_done f \<and> m' = m1\<lparr>gm_current := Some (gp_top f)\<rparr>)"

inductive gen_produces :: "nat \<Rightarrow> ('v, 'e) gen_machine \<Rightarrow> 'v list \<Rightarrow> ('v, 'e) gen_machine \<Rightarrow> bool" for h where
  produces_nil: "gen_steps m m' \<Longrightarrow> gen_produces h m [] m'"
| produces_cons: "gen_hands_out h m v m1 \<Longrightarrow> gen_produces h m1 vs m' \<Longrightarrow> gen_produces h m (v # vs) m'"

inductive gen_delivers :: "nat \<Rightarrow> ('v, 'e) gen_machine \<Rightarrow> 'v list \<Rightarrow> bool" for h where
  delivers_nil: "gen_delivers h m []"
| delivers_cons: "gen_hands_out h m v m1 \<Longrightarrow> gen_delivers h m1 vs \<Longrightarrow> gen_delivers h m (v # vs)"

lemma hands_out_steps: "gen_steps m m1 \<Longrightarrow> gen_hands_out h m1 v m' \<Longrightarrow> gen_hands_out h m v m'"
  unfolding gen_hands_out_def by (blast intro: gen_steps_trans)

lemma produces_steps: "gen_steps m m1 \<Longrightarrow> gen_produces h m1 vs m' \<Longrightarrow> gen_produces h m vs m'"
  by (erule gen_produces.cases) (auto intro: gen_produces.intros gen_steps_trans hands_out_steps)

lemma delivers_steps: "gen_steps m m1 \<Longrightarrow> gen_delivers h m1 vs \<Longrightarrow> gen_delivers h m vs"
  by (erule gen_delivers.cases) (auto intro: gen_delivers.intros hands_out_steps)

lemma produces_then: "gen_produces h m vs m1 \<Longrightarrow> gen_produces h m1 ws m' \<Longrightarrow> gen_produces h m (vs @ ws) m'"
  by (induction rule: gen_produces.induct) (auto intro: produces_cons produces_steps)

lemma delivers_then: "gen_produces h m vs m1 \<Longrightarrow> gen_delivers h m1 ws \<Longrightarrow> gen_delivers h m (vs @ ws)"
  by (induction rule: gen_produces.induct) (auto intro: delivers_cons delivers_steps)

lemma hands_out_round:
  assumes "gen_hands_out h m v m'" and "(if first then gen_begin h m0 else gen_increment h m0) = gen_run m"
  obtains m1 where "gen_range (Suc n) first h m0 = map_option (\<lambda>(vs, r). (v # vs, r)) (gen_range n False h m1)"
    and "gen_increment h m1 = gen_run m'"
proof -
  from assms(1) obtain m1 f where m1: "gen_steps m m1" "gm_current m1 = None" "gen_deref h m1 = Inr v"
    "gm_frames m1 h = Some f" "\<not> gen_done f" "m' = m1\<lparr>gm_current := Some (gp_top f)\<rparr>" "gm_thrown m1 = None"
    by (auto simp: gen_hands_out_def)
  have "gen_run m = Some (Inr m1)" using gen_steps_run [OF m1(1)] gen_run.simps [of m1] m1(2) by simp
  then have "gen_range (Suc n) first h m0 = map_option (\<lambda>(vs, r). (v # vs, r)) (gen_range n False h m1)"
    using assms(2) m1(3-5,7) by (simp add: gen_at_end_def)
  moreover have "m1\<lparr>gm_current := Some (gp_top f), gm_thrown := None\<rparr> = m'" using m1(6,7) by simp
  then have "gen_increment h m1 = gen_run m'" using m1(4,5) by (simp add: gen_increment_def gen_resume_def)
  ultimately show thesis by (rule that)
qed

lemma produces_range:
  assumes "gen_produces h m vs m'" and "(if first then gen_begin h m0 else gen_increment h m0) = gen_run m"
    and "gen_run m' = Some r" and "\<And>m1. r = Inr m1 \<Longrightarrow> gen_at_end h m1"
  shows "gen_range (Suc (length vs)) first h m0 = Some (vs, r)"
  using assms
proof (induction arbitrary: first m0 rule: gen_produces.induct)
  case (produces_nil m m')
  then have "(if first then gen_begin h m0 else gen_increment h m0) = Some r" using gen_steps_run by metis
  then show ?case using produces_nil(4) by (cases r) simp_all
next
  case (produces_cons m v m1 vs m')
  obtain m2 where m2: "gen_range (Suc (Suc (length vs))) first h m0 =
      map_option (\<lambda>(vs, r). (v # vs, r)) (gen_range (Suc (length vs)) False h m2)" "gen_increment h m2 = gen_run m1"
    by (rule hands_out_round [OF produces_cons.hyps(1) produces_cons.prems(1)])
  from produces_cons.IH [of False m2] m2(2) produces_cons.prems(2,3)
  have "gen_range (Suc (length vs)) False h m2 = Some (vs, r)" by simp
  then show ?case unfolding list.size m2(1) add_0_right add_Suc_right by (simp only: m2(1) option.map prod.case)
qed

lemma delivers_range:
  assumes "gen_delivers h m vs" and "(if first then gen_begin h m0 else gen_increment h m0) = gen_run m"
  shows "\<exists>m1. gen_range (length vs) first h m0 = Some (vs, Inr m1)"
  using assms
proof (induction arbitrary: first m0 rule: gen_delivers.induct)
  case (delivers_cons m v m1 vs)
  obtain m2 where m2: "gen_range (Suc (length vs)) first h m0 =
      map_option (\<lambda>(vs, r). (v # vs, r)) (gen_range (length vs) False h m2)" "gen_increment h m2 = gen_run m1"
    by (rule hands_out_round [OF delivers_cons.hyps(1) delivers_cons.prems(1)])
  from delivers_cons.IH [of False m2] m2(2) obtain m3 where "gen_range (length vs) False h m2 = Some (vs, Inr m3)" by auto
  then have "gen_range (Suc (length vs)) first h m0 = Some (v # vs, Inr m3)" by (simp only: m2(1) option.map prod.case)
  then show ?case by simp
qed simp

lemma yields_machine:
  assumes "gen_yields g vs q" and "gen_at h B I c stk g m" and "gm_current m = Some c"
  shows "case q of GenCut \<Rightarrow> gen_delivers h m vs
    | GenEnds r \<Rightarrow> \<exists>m'. gen_produces h m vs m' \<and> gen_at h B I c stk (gen_end r) m' \<and> gm_current m' = Some c"
  using assms
proof (induction arbitrary: c stk m rule: gen_yields.induct)
  case (yields_cut g)
  then show ?case by (simp add: delivers_nil)
next
  case yields_return
  then show ?case by (auto intro!: exI [of _ m] produces_nil gen_refl)
next
  case (yields_throw e)
  then show ?case by (auto intro!: exI [of _ m] produces_nil gen_refl)
next
  case (yields_value g vs q v)
  obtain m1 where m1: "gen_step m = Inr m1" "gm_current m1 = None" "gen_at h B I c stk g m1" "gen_deref h m1 = Inr v"
    by (rule gen_at_yield [OF yields_value.prems])
  obtain f where f: "gm_frames m1 h = Some f" "gp_top f = c" "\<not> gen_done f" by (rule gen_at_root [OF m1(3)])
  define m2 where "m2 = m1\<lparr>gm_current := Some c\<rparr>"
  have "gen_steps m m1" using m1(1) yields_value.prems(2) by (intro gen_one) simp_all
  then have out: "gen_hands_out h m v m2" using m1 f gen_atD(10) [OF m1(3)] by (auto simp: gen_hands_out_def m2_def)
  have "gen_at h B I c stk g m2" "gm_current m2 = Some c" using gen_at_current [OF m1(3)] by (simp_all add: m2_def)
  from yields_value.IH [OF this] out show ?case
    by (cases q) (auto intro: delivers_cons produces_cons)
next
  case (yields_moved k vs q)
  obtain m1 where m1: "gen_step m = Inr m1" "gm_current m1 = Some c" "gen_at h B I c stk (k None) m1"
    by (rule gen_at_moved [OF yields_moved.prems])
  have "gen_steps m m1" using m1(1) yields_moved.prems(2) by (intro gen_one) simp_all
  with yields_moved.IH [OF m1(3,2)] show ?case by (cases q) (auto intro: delivers_steps produces_steps)
next
  case (yields_within g vs k)
  obtain m1 c1 where m1: "gen_step m = Inr m1" "gm_current m1 = Some c1" "gen_at h B I c1 ((c, k) # stk) g m1"
    by (rule gen_at_nested [OF yields_within.prems])
  have "gen_steps m m1" using m1(1) yields_within.prems(2) by (intro gen_one) simp_all
  with yields_within.IH [OF m1(3,2)] show ?case by (auto intro: delivers_steps)
next
  case (yields_after g vs r k ws q)
  obtain m1 c1 where m1: "gen_step m = Inr m1" "gm_current m1 = Some c1" "gen_at h B I c1 ((c, k) # stk) g m1"
    by (rule gen_at_nested [OF yields_after.prems])
  have s1: "gen_steps m m1" using m1(1) yields_after.prems(2) by (intro gen_one) simp_all
  from yields_after.IH(1) [OF m1(3,2)] obtain m2 where m2: "gen_produces h m1 vs m2"
    "gen_at h B I c1 ((c, k) # stk) (gen_end r) m2" "gm_current m2 = Some c1" by auto
  obtain m3 where m3: "gen_steps m2 m3" "gm_current m3 = Some c" "gen_at h B I c stk (k r) m3"
    by (rule gen_at_return [OF m2(2,3)])
  have p: "gen_produces h m vs m3"
    using produces_steps [OF s1 produces_then [OF m2(1) produces_nil [OF m3(1)]]] by simp
  from yields_after.IH(2) [OF m3(3,2)] p show ?case
    by (cases q) (auto intro: delivers_then produces_then)
qed

section \<open>The destruction of a suspended generator\<close>

fun gen_down :: "('v, 'e) gen_machine \<Rightarrow> nat list \<Rightarrow> bool" where
  "gen_down m [] \<longleftrightarrow> False"
| "gen_down m [c] \<longleftrightarrow> (\<exists>f g. gm_frames m c = Some f \<and> gp_point f = GenAt g)"
| "gen_down m (p # c # cs) \<longleftrightarrow> (\<exists>f k. gm_frames m p = Some f \<and> gp_point f = GenNested c k) \<and> gen_down m (c # cs)"

lemma gen_down_snoc:
  "gen_stack m h p stk \<Longrightarrow> gen_down m (p # cs) \<Longrightarrow> gen_down m (rev (map fst stk) @ p # cs)"
proof (induction stk arbitrary: p cs)
  case (Cons x stk)
  then show ?case by (cases x) fastforce
qed simp

lemma gen_down_cong: "(\<And>x. x \<in> set cs \<Longrightarrow> gm_frames m' x = gm_frames m x) \<Longrightarrow> gen_down m' cs = gen_down m cs"
  by (induction m cs rule: gen_down.induct) auto

lemma gen_down_destroy:
  "gen_down m (h # cs) \<Longrightarrow> distinct (h # cs) \<Longrightarrow> 0 \<notin> set (h # cs) \<Longrightarrow>
   \<exists>m'. gen_destroy h m = Some (Inr m') \<and> gm_frames m' = (\<lambda>x. if x \<in> set (h # cs) then None else gm_frames m x) \<and>
     gm_infos m' = (\<lambda>x. if x \<in> set (butlast (h # cs)) then None else gm_infos m x)"
proof (induction cs arbitrary: h m)
  case Nil
  then obtain f g where "gm_frames m h = Some f" "gp_point f = GenAt g" by auto
  with Nil show ?case by (subst gen_destroy.simps) (auto simp: fun_eq_iff)
next
  case (Cons c cs)
  then obtain f k where f: "gm_frames m h = Some f" "gp_point f = GenNested c k" by auto
  define m1 where "m1 = m\<lparr>gm_frames := (gm_frames m)(h := None), gm_infos := (gm_infos m)(h := None)\<rparr>"
  have "gen_down m1 (c # cs) = gen_down m (c # cs)" by (rule gen_down_cong) (use Cons.prems(2) in \<open>auto simp: m1_def\<close>)
  then have "gen_down m1 (c # cs)" using Cons.prems(1) by simp
  from Cons.IH [OF this] Cons.prems obtain m' where m': "gen_destroy c m1 = Some (Inr m')"
    "gm_frames m' = (\<lambda>x. if x \<in> set (c # cs) then None else gm_frames m1 x)"
    "gm_infos m' = (\<lambda>x. if x \<in> set (butlast (c # cs)) then None else gm_infos m1 x)" by auto
  have "gen_destroy h m = Some (Inr m')" using Cons.prems(3) f m'(1) by (subst gen_destroy.simps) (simp add: m1_def)
  with m'(2,3) show ?case by (auto simp: m1_def fun_eq_iff)
qed

text \<open>With the root all the generators nested in it are destroyed, and nothing else.\<close>

lemma gen_destroy_all:
  assumes "gen_at h B I c stk g m" and "0 \<notin> set (c # map fst stk)"
  shows "\<exists>m'. gen_destroy h m = Some (Inr m') \<and> gm_frames m' = B \<and> gm_infos m' = I"
proof -
  note D = gen_atD [OF assms(1)]
  have "gen_down m [c]" using assms(1) by (auto simp: gen_at_def)
  from gen_down_snoc [OF D(1) this] have down: "gen_down m (rev (c # map fst stk))" by simp
  have last: "gen_stack m h d s \<Longrightarrow> \<exists>r. rev (map fst s) @ [d] = h # r" for d s
  proof (induction m h d s rule: gen_stack.induct)
    case (2 m h c p k stk)
    then obtain r where "rev (map fst stk) @ [p] = h # r" by auto
    then show ?case by simp
  qed simp
  from last [OF D(1)] obtain r where r: "rev (map fst stk) @ [c] = h # r" by blast
  have sets: "set (h # r) = set (c # map fst stk)" using arg_cong [OF r, of set] by simp
  have bl: "set (butlast (h # r)) = set (map fst stk)" using arg_cong [OF r, of butlast] by (metis butlast_snoc set_rev)
  have "distinct (h # r)" using arg_cong [OF r, of distinct] D(2) by simp
  moreover have "gen_down m (h # r)" using down r by simp
  ultimately obtain m' where m': "gen_destroy h m = Some (Inr m')"
    "gm_frames m' = (\<lambda>x. if x \<in> set (c # map fst stk) then None else gm_frames m x)"
    "gm_infos m' = (\<lambda>x. if x \<in> set (map fst stk) then None else gm_infos m x)"
    using gen_down_destroy [of m h r] assms(2) unfolding sets bl by blast
  have "gm_frames m' = B" "gm_infos m' = I" using D(5,7,9) m'(2,3) by (auto simp: fun_eq_iff)
  with m'(1) show ?thesis by blast
qed

section \<open>The elements of a generator\<close>

definition gen_machine_ok :: "('v, 'e) gen_machine \<Rightarrow> bool" where
  "gen_machine_ok m \<longleftrightarrow> 0 < gm_next m \<and> (\<forall>x\<in>dom (gm_frames m) \<union> dom (gm_infos m). x < gm_next m)"

lemma gen_call_at:
  assumes "gen_machine_ok m" and "gen_call g m = (h, m0)"
  shows "h \<noteq> 0" and "gen_at h (gm_frames m) (gm_infos m) h [] g
      (m0\<lparr>gm_current := Some h, gm_thrown := None\<rparr>)"
proof -
  have h: "h = gm_next m" "m0 = m\<lparr>gm_frames := (gm_frames m)(h \<mapsto> gen_frame_new h g), gm_next := h + 1\<rparr>"
    using assms(2) by (auto simp: gen_call_def)
  have "gm_frames m h = None" "gm_infos m h = None" using assms(1) h(1) by (auto simp: gen_machine_ok_def)
  moreover have "x < Suc h" if "x \<in> dom (gm_frames m) \<union> dom (gm_infos m)" for x
    using assms(1) that h(1) less_SucI unfolding gen_machine_ok_def by blast
  ultimately show "gen_at h (gm_frames m) (gm_infos m) h [] g
      (m0\<lparr>gm_current := Some h, gm_thrown := None\<rparr>)"
    by (auto simp: gen_at_def h(2) gen_frame_new_def)
  show "h \<noteq> 0" using assms(1) h(1) by (simp add: gen_machine_ok_def)
qed

text \<open>C33. A loop over a generator visits the values that its body yields, those of nested generators
  in their places: any finite beginning of them, when the body goes on for ever; and when the body
  ends, by an exception too, the loop ends after the last value, with the exception that leaves the
  body if there is one, the root is suspended at its end, of the frames of nested generators none
  is left, and the destruction of the root leaves the frames that were there before. An exception
  that leaves a nested generator is thrown in its parent.\<close>

theorem generator_flattens:
  assumes "gen_yields g vs q" and "gen_machine_ok m" and "gen_call g m = (h, m0)"
  shows "case q of
      GenCut \<Rightarrow> \<exists>m'. gen_range (length vs) True h m0 = Some (vs, Inr m')
    | GenEnds r \<Rightarrow> \<exists>f m' m''. gen_range (Suc (length vs)) True h m0 = Some (vs, Inr m') \<and>
        gm_thrown m' = r \<and> gen_at_end h m' \<and>
        gm_frames m' = (gm_frames m)(h \<mapsto> f) \<and> gm_infos m' = gm_infos m \<and>
        gen_destroy h m' = Some (Inr m'') \<and> gm_frames m'' = gm_frames m"
proof -
  let ?m = "m0\<lparr>gm_current := Some h, gm_thrown := None\<rparr>"
  note c = gen_call_at [OF assms(2,3)]
  have b: "(if True then gen_begin h m0 else gen_increment h m0) = gen_run ?m" using c(1) by (simp add: gen_begin_def gen_resume_def)
  note y = yields_machine [OF assms(1) c(2)]
  show ?thesis
  proof (cases q)
    case GenCut
    then show ?thesis using y delivers_range [OF _ b] by simp
  next
    case (GenEnds r)
    with y obtain m1 where m1: "gen_produces h ?m vs m1" "gen_at h (gm_frames m) (gm_infos m) h [] (gen_end r) m1"
      "gm_current m1 = Some h" by auto
    from gen_root_return [OF m1(2,3)] obtain f m' where m': "gen_run m1 = Some (Inr m')" "gm_thrown m' = r"
      "gp_point f = GenAtEnd" "gm_frames m' = (gm_frames m)(h \<mapsto> f)" "gm_infos m' = gm_infos m" by blast
    have e: "gen_at_end h m'" using m'(3,4) by (simp add: gen_at_end_def gen_done_def)
    have "gm_frames m h = None" using gen_atD(9) [OF m1(2)] by simp
    then have "gen_destroy h m' = Some (Inr (m'\<lparr>gm_frames := gm_frames m\<rparr>))"
      using c(1) m'(3,4) by (subst gen_destroy.simps) (auto simp: fun_eq_iff)
    with produces_range [OF m1(1) b m'(1)] e m' GenEnds show ?thesis by auto
  qed
qed

text \<open>
  A generator that yields 1, then the elements of one that yields 2 and throws, whose exception it
  catches, then those of a range.
\<close>

definition gen_example :: "(nat, string) gen" where
  "gen_example = GenYield 1 (GenElementsOf (Some (GenYield 2 (GenThrow ''stop'')))
     (\<lambda>r. case r of Some e \<Rightarrow> GenElementsOf (Some (range_gen [3, 4])) (\<lambda>r. GenReturn) | None \<Rightarrow> GenThrow ''lost''))"

definition gen_empty_machine :: "(nat, string) gen_machine" where
  "gen_empty_machine = \<lparr>gm_frames = Map.empty, gm_infos = Map.empty, gm_next = 1, gm_current = None, gm_thrown = None\<rparr>"

theorem generator_flattens_witness:
  "\<exists>f m'. gen_range 5 True 1 (snd (gen_call gen_example gen_empty_machine)) = Some ([1, 2, 3, 4], Inr m') \<and>
     gen_at_end 1 m' \<and> gm_frames m' = [1 \<mapsto> f]"
proof -
  have "gen_yields (GenYield 2 (GenThrow ''stop'')) [2 :: nat] (GenEnds (Some ''stop''))"
    by (intro gen_yields.intros)
  moreover have "gen_yields (GenElementsOf (Some (range_gen [3, 4])) (\<lambda>r. GenReturn)) ([3, 4] @ []) (GenEnds None :: string gen_ending)"
    by (rule yields_after [OF yields_range yields_return])
  ultimately have "gen_yields gen_example (1 # [2] @ [3, 4] @ []) (GenEnds None)"
    unfolding gen_example_def by (intro yields_value) (rule yields_after, assumption, simp)
  moreover have "gen_machine_ok gen_empty_machine" by (simp add: gen_machine_ok_def gen_empty_machine_def)
  moreover have "gen_call gen_example gen_empty_machine = (1, snd (gen_call gen_example gen_empty_machine))"
    by (simp add: gen_call_def gen_empty_machine_def)
  ultimately obtain f m' where r: "gen_range (Suc (length (1 # [2] @ [3, 4] @ [] :: nat list))) True 1
      (snd (gen_call gen_example gen_empty_machine)) = Some (1 # [2] @ [3, 4] @ [], Inr m')"
    "gen_at_end 1 m'" "gm_frames m' = (gm_frames gen_empty_machine)(1 \<mapsto> f)"
    using generator_flattens [of gen_example "1 # [2] @ [3, 4] @ []" "GenEnds None"] by fastforce
  have len: "Suc (length [1, 2, 3, 4 :: nat]) = 5" by simp
  have "gm_frames gen_empty_machine = Map.empty" by (simp add: gen_empty_machine_def)
  with r have "gen_range 5 True 1 (snd (gen_call gen_example gen_empty_machine)) = Some ([1, 2, 3, 4], Inr m')"
    "gen_at_end 1 m'" "gm_frames m' = [1 \<mapsto> f]" unfolding append_Cons append_Nil len by (simp_all only:)
  then show ?thesis by blast
qed

end
