(* ===== verification/Gen_Alloc.thy ===== *)
theory Gen_Alloc
  imports Prelude
begin

text \<open>
  The memory of generators, \<^verbatim>\<open>generator.hpp\<close>: behind the coroutine frame of \<open>size\<close> bytes the block
  holds, depending on the allocator, nothing, the allocator, a pointer to the function that frees the
  block, or both. Sizes and addresses are words of 64 bits; a block is a number of units
  of 16 bytes (\<^verbatim>\<open>__STDCPP_DEFAULT_NEW_ALIGNMENT__\<close>).
\<close>

section \<open>Counts and addresses\<close>

definition aligned_block :: u64 where
  "aligned_block = 16"

text \<open>The size and the alignment of an allocator; a stateless one is not stored.\<close>

record gen_allocator =
  al_stateless :: bool
  al_size :: u64
  al_align :: u64

definition dealloc_fn_size :: u64 where
  "dealloc_fn_size = 8"

definition alloc_align :: "gen_allocator \<Rightarrow> u64" where
  "alloc_align a = max (al_align a) aligned_block"

definition stateless_count :: "u64 \<Rightarrow> u64" where
  "stateless_count sz = (sz + aligned_block - 1) div aligned_block"

definition stateful_count :: "gen_allocator \<Rightarrow> u64 \<Rightarrow> u64" where
  "stateful_count a sz = (sz + al_size a + alloc_align a - 1) div aligned_block"

definition al_address :: "gen_allocator \<Rightarrow> ptr \<Rightarrow> u64 \<Rightarrow> ptr" where
  "al_address a p sz = (p + sz + al_align a - 1) AND NOT (al_align a - 1)"

text \<open>
  What is written behind the frame: the address of the function pointer and that of the allocator.
\<close>

record gen_block =
  bl_count :: u64
  bl_fn :: "ptr option"
  bl_alloc :: "ptr option"

definition typed_new :: "gen_allocator \<Rightarrow> ptr \<Rightarrow> u64 \<Rightarrow> gen_block" where
  "typed_new a p sz =
     (if al_stateless a then \<lparr>bl_count = stateless_count sz, bl_fn = None, bl_alloc = None\<rparr>
      else \<lparr>bl_count = stateful_count a sz, bl_fn = None, bl_alloc = Some (al_address a p sz)\<rparr>)"

definition typed_delete :: "gen_allocator \<Rightarrow> ptr \<Rightarrow> u64 \<Rightarrow> gen_block" where
  "typed_delete a p sz =
     (if al_stateless a then
        (let count = (sz + aligned_block - 1) div aligned_block
         in \<lparr>bl_count = count, bl_fn = None, bl_alloc = None\<rparr>)
      else
        (let address = (p + sz + al_align a - 1) AND NOT (al_align a - 1);
             align = max (al_align a) aligned_block;
             count = (sz + al_size a + align - 1) div aligned_block
         in \<lparr>bl_count = count, bl_fn = None, bl_alloc = Some address\<rparr>))"

text \<open>
  The type-erased allocator stores the function behind the frame and the allocator behind the function;
  the function that was stored is run by \<^verbatim>\<open>operator delete\<close> with the size of the frame.
\<close>

definition erased_new :: "gen_allocator \<Rightarrow> ptr \<Rightarrow> u64 \<Rightarrow> gen_block" where
  "erased_new a p sz =
     (if al_stateless a then
        \<lparr>bl_count = (sz + dealloc_fn_size + aligned_block - 1) div aligned_block, bl_fn = Some (p + sz), bl_alloc = None\<rparr>
      else
        (let count = (sz + dealloc_fn_size + al_size a + alloc_align a - 1) div aligned_block;
             fn = p + sz;
             sz = sz + dealloc_fn_size
         in \<lparr>bl_count = count, bl_fn = Some fn, bl_alloc = Some (al_address a p sz)\<rparr>))"

definition erased_dealloc_fn :: "gen_allocator \<Rightarrow> ptr \<Rightarrow> u64 \<Rightarrow> u64 \<times> ptr option" where
  "erased_dealloc_fn a p sz =
     (if al_stateless a then ((sz + dealloc_fn_size + aligned_block - 1) div aligned_block, None)
      else
        (let sz = sz + dealloc_fn_size
         in ((sz + al_size a + alloc_align a - 1) div aligned_block, Some (al_address a p sz))))"

definition erased_delete :: "gen_allocator \<Rightarrow> ptr \<Rightarrow> u64 \<Rightarrow> gen_block" where
  "erased_delete a p sz =
     (let (count, address) = erased_dealloc_fn a p sz
      in \<lparr>bl_count = count, bl_fn = Some (p + sz), bl_alloc = address\<rparr>)"

text \<open>
  Without an allocator the type-erased one takes bytes from the global \<^verbatim>\<open>new\<close> and stores a function that
  gives them back: the number of bytes, and the address of the function pointer.
\<close>

definition plain_new :: "ptr \<Rightarrow> u64 \<Rightarrow> u64 \<times> ptr" where
  "plain_new p sz = (sz + dealloc_fn_size, p + sz)"

definition plain_delete :: "ptr \<Rightarrow> u64 \<Rightarrow> u64 \<times> ptr" where
  "plain_delete p sz = (let fn = p + sz in (sz + dealloc_fn_size, fn))"

text \<open>The overloads of \<^verbatim>\<open>operator new\<close>: the allocator is default constructed, or converted from an
  argument of the coroutine, \<open>None\<close> when no argument is one; the second is for the type-erased allocator.\<close>

definition typed_operator_new :: "gen_allocator \<Rightarrow> gen_allocator option \<Rightarrow> ptr \<Rightarrow> u64 \<Rightarrow> gen_block" where
  "typed_operator_new fresh arg p sz = typed_new (case arg of None \<Rightarrow> fresh | Some a \<Rightarrow> a) p sz"

definition erased_operator_new :: "gen_allocator option \<Rightarrow> ptr \<Rightarrow> u64 \<Rightarrow> u64 \<times> ptr + gen_block" where
  "erased_operator_new arg p sz =
     (case arg of None \<Rightarrow> Inl (plain_new p sz) | Some a \<Rightarrow> Inr (erased_new a p sz))"

section \<open>Everything fits\<close>

text \<open>
  An allocator whose alignment is a power of two that divides its size, as in C++; the sizes and
  the end of the block are representable.
\<close>

definition allocator_ok :: "gen_allocator \<Rightarrow> nat \<Rightarrow> bool" where
  "allocator_ok a k \<longleftrightarrow> k < 64 \<and> al_align a = 2 ^ k \<and> 2 ^ k dvd unat (al_size a)"

lemma aligned_fits:
  fixes P sz S k :: nat
  assumes "16 dvd P" and "2 ^ k dvd S"
  shows "round_up k (P + sz) + S \<le> P + (sz + S + max (2 ^ k) 16 - 1) div 16 * 16"
proof -
  let ?x = "round_up k (P + sz) + S - P"
  have r: "P + sz \<le> round_up k (P + sz)" "round_up k (P + sz) < P + sz + 2 ^ k" "2 ^ k dvd round_up k (P + sz)"
    by (rule round_up_bounds)+
  obtain p where p: "P = 16 * p" using assms(1) by blast
  show ?thesis
  proof (cases "k \<le> 4")
    case True
    \<comment> \<open>the alignment divides a unit: rounding up to units covers it\<close>
    let ?n = "sz + S"
    have m: "max (2 ^ k) (16::nat) = 16" using power_increasing [OF True, of "2::nat"] by simp
    have d: "(2::nat) ^ k dvd 16" using le_imp_power_dvd [OF True, of "2::nat"] by simp
    have c: "(?n + 16 - 1) div 16 * 16 = round_up 4 ?n" by (simp add: round_up_def)
    have b: "?n \<le> round_up 4 ?n" "16 dvd round_up 4 ?n" using round_up_bounds [where n = ?n and k = 4] by simp_all
    have "2 ^ k dvd P + round_up 4 ?n" using d b(2) assms(1) by (meson dvd_add dvd_trans)
    moreover have "2 ^ k dvd round_up k (P + sz) + S" using r(3) assms(2) by simp
    moreover have "round_up k (P + sz) + S < P + round_up 4 ?n + 2 ^ k" using r(2) b(1) by linarith
    ultimately have "round_up k (P + sz) + S \<le> P + round_up 4 ?n"
    proof -
      assume a: "2 ^ k dvd P + round_up 4 ?n" "2 ^ k dvd round_up k (P + sz) + S"
        "round_up k (P + sz) + S < P + round_up 4 ?n + 2 ^ k"
      then obtain u v where "P + round_up 4 ?n = 2 ^ k * u" "round_up k (P + sz) + S = 2 ^ k * v" by (metis dvdE)
      moreover from this a(3) have "2 ^ k * v < 2 ^ k * (u + 1)" by simp
      then have "v < u + 1" by (meson mult_less_cancel1)
      ultimately show ?thesis by simp
    qed
    then show ?thesis unfolding m c .
  next
    case False
    \<comment> \<open>the alignment is a number of units: so is everything\<close>
    then have "(2::nat) ^ 4 dvd 2 ^ k" by (intro le_imp_power_dvd) simp
    then have d: "16 dvd (2::nat) ^ k" by simp
    then have m: "max (2 ^ k) (16::nat) = 2 ^ k" by (intro max_absorb1 dvd_imp_le) simp_all
    have "16 dvd round_up k (P + sz) + S" using d r(3) assms(2) by (meson dvd_add dvd_trans)
    then obtain u where u: "round_up k (P + sz) + S = 16 * u" by (metis dvdE)
    have "16 * u \<le> P + (sz + S + 2 ^ k - 1)" using r(2) u by linarith
    then have "u \<le> p + (sz + S + 2 ^ k - 1) div 16" unfolding p by linarith
    then show ?thesis unfolding m using u p by linarith
  qed
qed

lemma unat_al_address:
  assumes "allocator_ok a k" and "unat p + unat sz + 2 ^ k < 2 ^ 64"
  shows "unat (al_address a p sz) = round_up k (unat p + unat sz)"
proof -
  have k: "al_align a = 2 ^ k" "k < 64" using assms(1) by (simp_all add: allocator_ok_def)
  then have m: "al_align a - 1 = mask k" by (simp add: mask_eq_exp_minus_1)
  have u: "unat (al_align a) = 2 ^ k" using k pow2_cap_unat [of "al_align a" k] by (simp add: pow2_cap_def)
  have s: "unat (p + sz + al_align a) = unat p + unat sz + 2 ^ k"
  proof -
    have "unat (p + sz) = unat p + unat sz" using assms(2) by (subst unat_word_ariths) simp
    then show ?thesis using assms(2) u by (subst unat_word_ariths) simp
  qed
  have "p + sz + al_align a \<noteq> 0" using s by (metis add_is_0 power_not_zero unat_0 zero_neq_numeral)
  then have "unat (p + sz + al_align a - 1) = unat p + unat sz + 2 ^ k - 1" using unat_minus_one s by metis
  then show ?thesis unfolding al_address_def m unat_and_not_mask by (simp only: round_up_def)
qed

lemma unat_stateful_count:
  assumes "allocator_ok a k" and "unat sz + unat (al_size a) + 2 ^ k + 16 < 2 ^ 64"
  shows "unat (stateful_count a sz) = (unat sz + unat (al_size a) + max (2 ^ k) 16 - 1) div 16"
proof -
  have k: "al_align a = 2 ^ k" "k < 64" using assms(1) by (simp_all add: allocator_ok_def)
  have u: "unat (al_align a) = 2 ^ k" using k pow2_cap_unat [of "al_align a" k] by (simp add: pow2_cap_def)
  have m: "unat (alloc_align a) = max (2 ^ k) 16"
    using u by (simp add: alloc_align_def aligned_block_def max_def word_le_nat_alt)
  have s: "unat (sz + al_size a + alloc_align a) = unat sz + unat (al_size a) + max (2 ^ k) 16"
  proof -
    have "unat (sz + al_size a) = unat sz + unat (al_size a)" using assms(2) by (subst unat_word_ariths) simp
    then show ?thesis using assms(2) m by (subst unat_word_ariths) simp
  qed
  then have "sz + al_size a + alloc_align a \<noteq> 0" by (metis add_is_0 max_0L max.absorb_iff2 unat_0 zero_le zero_neq_numeral max_def)
  then have "unat (sz + al_size a + alloc_align a - 1) = unat sz + unat (al_size a) + max (2 ^ k) 16 - 1"
    using unat_minus_one s by metis
  then show ?thesis by (simp add: stateful_count_def unat_div aligned_block_def)
qed

lemma plain_memory:
  assumes "unat p + unat sz + 8 < 2 ^ 64"
  shows "plain_delete p sz = plain_new p sz \<and> unat (snd (plain_new p sz)) = unat p + unat sz \<and>
    unat (snd (plain_new p sz)) + 8 \<le> unat p + unat (fst (plain_new p sz))"
proof -
  have "unat (sz + dealloc_fn_size) = unat sz + 8"
    using assms unfolding dealloc_fn_size_def by (subst unat_word_ariths) simp
  moreover have "unat (p + sz) = unat p + unat sz" using assms by (subst unat_word_ariths) simp
  ultimately show ?thesis by (simp add: plain_new_def plain_delete_def)
qed

text \<open>C34. The memory of a generator is laid out soundly, for each of the five kinds of allocation (typed or
  type-erased, with an allocator that is stored or one that is not, or with the global \<open>new\<close>):
  the coroutine frame, the pointer to the deallocation function behind it and the stored allocator
  behind that do not overlap and end inside the block; the function pointer is there exactly with
  type erasure and the allocator exactly when it has a state; the allocator is aligned; and
  \<open>delete\<close> finds both at the addresses where \<open>new\<close> stored them and frees as many units as were
  allocated.\<close>

theorem generator_memory:
  assumes "allocator_ok a k" and "16 dvd unat p"
    and "unat p + unat sz + unat (al_size a) + 2 ^ k + 64 < 2 ^ 64"
  shows "typed_delete a p sz = typed_new a p sz \<and> erased_delete a p sz = erased_new a p sz \<and>
    plain_delete p sz = plain_new p sz \<and>
    unat sz \<le> unat (bl_count (typed_new a p sz)) * 16 \<and>
    bl_fn (typed_new a p sz) = None \<and> (bl_alloc (typed_new a p sz) = None \<longleftrightarrow> al_stateless a) \<and>
    (\<forall>y. bl_alloc (typed_new a p sz) = Some y \<longrightarrow> 2 ^ k dvd unat y \<and> unat p + unat sz \<le> unat y \<and>
       unat y + unat (al_size a) \<le> unat p + unat (bl_count (typed_new a p sz)) * 16) \<and>
    (\<exists>x. bl_fn (erased_new a p sz) = Some x \<and> unat p + unat sz \<le> unat x \<and>
       unat x + 8 \<le> unat p + unat (bl_count (erased_new a p sz)) * 16 \<and>
       (bl_alloc (erased_new a p sz) = None \<longleftrightarrow> al_stateless a) \<and>
       (\<forall>y. bl_alloc (erased_new a p sz) = Some y \<longrightarrow> 2 ^ k dvd unat y \<and> unat x + 8 \<le> unat y \<and>
          unat y + unat (al_size a) \<le> unat p + unat (bl_count (erased_new a p sz)) * 16)) \<and>
    unat p + unat sz \<le> unat (snd (plain_new p sz)) \<and>
    unat (snd (plain_new p sz)) + 8 \<le> unat p + unat (fst (plain_new p sz))"
proof -
  have ali: "2 ^ k dvd unat (al_size a)" using assms(1) by (simp add: allocator_ok_def)
  have stored: "2 ^ k dvd unat (al_address a p n) \<and> unat p + unat n \<le> unat (al_address a p n) \<and>
      unat (al_address a p n) + unat (al_size a) \<le> unat p + unat (stateful_count a n) * 16"
    if "unat n \<le> unat sz + 8" for n
  proof -
    have "unat p + unat n + 2 ^ k < 2 ^ 64" "unat n + unat (al_size a) + 2 ^ k + 16 < 2 ^ 64" using assms(3) that by linarith+
    then have "unat (al_address a p n) = round_up k (unat p + unat n)"
      "unat (stateful_count a n) = (unat n + unat (al_size a) + max (2 ^ k) 16 - 1) div 16"
      using unat_al_address [OF assms(1)] unat_stateful_count [OF assms(1)] by blast+
    then show ?thesis using aligned_fits [OF assms(2) ali, of "unat n"] round_up_bounds [of "unat p + unat n" k]
        round_up_bounds(3) [where k = k] by simp
  qed
  have stateless: "unat n \<le> unat ((n + 16 - 1) div 16) * 16" if "unat n + 16 < 2 ^ 64" for n :: u64
  proof -
    have s: "unat (n + 16) = unat n + 16" using that by (subst unat_word_ariths) simp
    then have "n + 16 \<noteq> 0" by (metis add_is_0 unat_0 zero_neq_numeral)
    then have "unat (n + 16 - 1) = unat n + 15" using unat_minus_one [of "n + 16"] s by simp
    then have "unat ((n + 16 - 1) div 16) = (unat n + 15) div 16" by (simp add: unat_div)
    then show ?thesis using div_mult_mod_eq [of "unat n + 15" 16] mod_less_divisor [of 16 "unat n + 15"] by linarith
  qed
  have e8: "unat (sz + dealloc_fn_size) = unat sz + 8"
    using assms(3) unfolding dealloc_fn_size_def by (subst unat_word_ariths) simp
  have same: "typed_delete a p sz = typed_new a p sz" "erased_delete a p sz = erased_new a p sz"
    by (simp_all add: typed_delete_def typed_new_def stateless_count_def stateful_count_def al_address_def alloc_align_def
        erased_delete_def erased_new_def erased_dealloc_fn_def Let_def)
  have fn: "bl_fn (erased_new a p sz) = Some (p + sz)" "unat (p + sz) = unat p + unat sz"
    using assms(3) by (simp_all add: erased_new_def Let_def unat_word_ariths)
  have plain: "plain_delete p sz = plain_new p sz" "unat p + unat sz \<le> unat (snd (plain_new p sz))"
    "unat (snd (plain_new p sz)) + 8 \<le> unat p + unat (fst (plain_new p sz))"
    using plain_memory [of p sz] assms(3) by simp_all
  have fit: "unat sz + 16 < 2 ^ 64" "unat (sz + dealloc_fn_size) + 16 < 2 ^ 64" using assms(3) e8 by linarith+
  show ?thesis
  proof (cases "al_stateless a")
    case True
    then have "bl_alloc (typed_new a p sz) = None" "bl_alloc (erased_new a p sz) = None"
      "bl_count (typed_new a p sz) = (sz + 16 - 1) div 16"
      "bl_count (erased_new a p sz) = (sz + dealloc_fn_size + 16 - 1) div 16"
      by (simp_all add: typed_new_def erased_new_def stateless_count_def aligned_block_def)
    moreover have "bl_fn (typed_new a p sz) = None" by (simp add: typed_new_def)
    ultimately show ?thesis using same stateless [OF fit(1)] stateless [OF fit(2)] e8 fn plain True by simp
  next
    case False
    then have b: "bl_alloc (typed_new a p sz) = Some (al_address a p sz)"
      "bl_alloc (erased_new a p sz) = Some (al_address a p (sz + dealloc_fn_size))"
      "bl_count (typed_new a p sz) = stateful_count a sz"
      "bl_count (erased_new a p sz) = stateful_count a (sz + dealloc_fn_size)"
      by (simp_all add: typed_new_def erased_new_def stateful_count_def Let_def)
    have t: "unat sz \<le> unat sz + 8" "unat (sz + dealloc_fn_size) \<le> unat sz + 8" using e8 by simp_all
    have nf: "bl_fn (typed_new a p sz) = None" by (simp add: typed_new_def)
    have c: "unat (p + sz) + 8 \<le> unat p + unat (stateful_count a (sz + dealloc_fn_size)) * 16"
      "unat sz \<le> unat (stateful_count a sz) * 16"
      using stored [OF t(1)] stored [OF t(2)] e8 fn(2) by linarith+
    show ?thesis unfolding b same nf fn(1) using stored [OF t(1)] stored [OF t(2)] c e8 fn(2) plain False by simp
  qed
qed

text \<open>An allocator of 32 bytes with the alignment 32, behind a frame of 100 bytes.\<close>

theorem generator_memory_witness:
  "erased_new \<lparr>al_stateless = False, al_size = 32, al_align = 32\<rparr> 4096 100 =
     \<lparr>bl_count = 10, bl_fn = Some 4196, bl_alloc = Some 4224\<rparr> \<and>
   erased_delete \<lparr>al_stateless = False, al_size = 32, al_align = 32\<rparr> 4096 100 =
     \<lparr>bl_count = 10, bl_fn = Some 4196, bl_alloc = Some 4224\<rparr>"
proof -
  let ?a = "\<lparr>al_stateless = False, al_size = 32, al_align = 32\<rparr>"
  have new: "erased_new ?a 4096 100 = \<lparr>bl_count = 10, bl_fn = Some 4196, bl_alloc = Some 4224\<rparr>" by code_simp
  have "allocator_ok ?a 5" by (simp add: allocator_ok_def)
  from generator_memory [OF this, of 4096 100] have "erased_delete ?a 4096 100 = erased_new ?a 4096 100" by simp
  with new show ?thesis by simp
qed

end
