(* ===== verification/Gen_Owner.thy ===== *)
theory Gen_Owner
  imports Prelude
begin

text \<open>
  The objects of class \<^verbatim>\<open>generator\<close>, which own coroutine frames, and their iterators, which refer
  to them, \<^verbatim>\<open>generator.hpp\<close>: construction, moves, the assignment by value, and destruction. What
  runs in a frame is in \<^verbatim>\<open>Generator\<close>, what memory it takes in \<^verbatim>\<open>Gen_Alloc\<close>.
\<close>

section \<open>Objects and operations\<close>

text \<open>An object is a name bound to its handle, 0 when it owns nothing; a frame is alive until it is
  destroyed.\<close>

record gen_objs =
  go_live :: "nat set"
  go_next :: nat
  go_objs :: "nat \<rightharpoonup> nat"
  go_iters :: "nat \<rightharpoonup> nat"

definition gen_objs_new :: gen_objs where
  "gen_objs_new = \<lparr>go_live = {}, go_next = 1, go_objs = Map.empty, go_iters = Map.empty\<rparr>"

definition gen_handle :: "gen_objs \<Rightarrow> nat \<Rightarrow> nat" where
  "gen_handle s x = (case go_objs s x of None \<Rightarrow> 0 | Some h \<Rightarrow> h)"

definition iter_handle :: "gen_objs \<Rightarrow> nat \<Rightarrow> nat" where
  "iter_handle s i = (case go_iters s i of None \<Rightarrow> 0 | Some h \<Rightarrow> h)"

text \<open>\<open>None\<close> is the destruction of a frame that is not alive, or a failed assertion.\<close>

definition gen_drop :: "nat \<Rightarrow> gen_objs \<Rightarrow> gen_objs option" where
  "gen_drop h s =
     (if h \<noteq> 0 then (if h \<in> go_live s then Some (s\<lparr>go_live := go_live s - {h}\<rparr>) else None) else Some s)"

definition gen_obj_new :: "nat \<Rightarrow> gen_objs \<Rightarrow> gen_objs" where
  "gen_obj_new x s = s\<lparr>go_live := insert (go_next s) (go_live s), go_next := go_next s + 1,
     go_objs := (go_objs s)(x \<mapsto> go_next s)\<rparr>"

definition gen_obj_move :: "nat \<Rightarrow> nat \<Rightarrow> gen_objs \<Rightarrow> gen_objs" where
  "gen_obj_move x that s = s\<lparr>go_objs := (go_objs s)(that \<mapsto> 0, x \<mapsto> gen_handle s that)\<rparr>"

definition gen_obj_destroy :: "nat \<Rightarrow> gen_objs \<Rightarrow> gen_objs option" where
  "gen_obj_destroy x s = map_option (\<lambda>s. s\<lparr>go_objs := (go_objs s)(x := None)\<rparr>) (gen_drop (gen_handle s x) s)"

text \<open>
  The parameter of the assignment is an object of its own: it is constructed by a move, swapped, and
  destroyed at the end, with the frame that the target had.
\<close>

definition gen_obj_assign :: "nat \<Rightarrow> nat \<Rightarrow> gen_objs \<Rightarrow> gen_objs option" where
  "gen_obj_assign x that s =
     (let param = gen_handle s that;
          s = s\<lparr>go_objs := (go_objs s)(that \<mapsto> 0)\<rparr>;
          old = gen_handle s x;
          s = s\<lparr>go_objs := (go_objs s)(x \<mapsto> param)\<rparr>
      in gen_drop old s)"

definition gen_iter_begin :: "nat \<Rightarrow> nat \<Rightarrow> gen_objs \<Rightarrow> gen_objs option" where
  "gen_iter_begin i x s =
     (if gen_handle s x = 0 then None else Some (s\<lparr>go_iters := (go_iters s)(i \<mapsto> gen_handle s x)\<rparr>))"

text \<open>The move constructor and the move assignment of an iterator; nothing is destroyed.\<close>

definition gen_iter_move :: "nat \<Rightarrow> nat \<Rightarrow> gen_objs \<Rightarrow> gen_objs" where
  "gen_iter_move i that s = s\<lparr>go_iters := (go_iters s)(that \<mapsto> 0, i \<mapsto> iter_handle s that)\<rparr>"

datatype gen_op =
    GenNew nat | GenMove nat nat | GenAssign nat nat | GenDestroy nat | IterBegin nat nat | IterMove nat nat

fun gen_op_exec :: "gen_op \<Rightarrow> gen_objs \<Rightarrow> gen_objs option" where
  "gen_op_exec (GenNew x) s = Some (gen_obj_new x s)"
| "gen_op_exec (GenMove x y) s = Some (gen_obj_move x y s)"
| "gen_op_exec (GenAssign x y) s = gen_obj_assign x y s"
| "gen_op_exec (GenDestroy x) s = gen_obj_destroy x s"
| "gen_op_exec (IterBegin i x) s = gen_iter_begin i x s"
| "gen_op_exec (IterMove i j) s = Some (gen_iter_move i j s)"

text \<open>Constructors are given names that are free, the other operations names that are bound.\<close>

fun gen_op_ok :: "gen_op \<Rightarrow> gen_objs \<Rightarrow> bool" where
  "gen_op_ok (GenNew x) s \<longleftrightarrow> go_objs s x = None"
| "gen_op_ok (GenMove x y) s \<longleftrightarrow> go_objs s x = None \<and> go_objs s y \<noteq> None"
| "gen_op_ok (GenAssign x y) s \<longleftrightarrow> go_objs s x \<noteq> None \<and> go_objs s y \<noteq> None"
| "gen_op_ok (GenDestroy x) s \<longleftrightarrow> go_objs s x \<noteq> None"
| "gen_op_ok (IterBegin i x) s \<longleftrightarrow> gen_handle s x \<noteq> 0"
| "gen_op_ok (IterMove i j) s \<longleftrightarrow> go_iters s j \<noteq> None"

primrec gen_ops_run :: "gen_op list \<Rightarrow> gen_objs \<Rightarrow> gen_objs option" where
  "gen_ops_run [] s = Some s"
| "gen_ops_run (a # as) s = (case gen_op_exec a s of None \<Rightarrow> None | Some s' \<Rightarrow> gen_ops_run as s')"

primrec gen_ops_ok :: "gen_op list \<Rightarrow> gen_objs \<Rightarrow> bool" where
  "gen_ops_ok [] s \<longleftrightarrow> True"
| "gen_ops_ok (a # as) s \<longleftrightarrow> gen_op_ok a s \<and> (case gen_op_exec a s of None \<Rightarrow> True | Some s' \<Rightarrow> gen_ops_ok as s')"

section \<open>Ownership\<close>

text \<open>The frames that are alive are those that objects own, each of one object.\<close>

definition gen_objs_inv :: "gen_objs \<Rightarrow> bool" where
  "gen_objs_inv s \<longleftrightarrow> 0 < go_next s \<and>
     (\<forall>h. h \<in> go_live s \<longleftrightarrow> h \<noteq> 0 \<and> (\<exists>x. go_objs s x = Some h)) \<and>
     (\<forall>x h. go_objs s x = Some h \<longrightarrow> h < go_next s) \<and>
     (\<forall>x y h. go_objs s x = Some h \<and> go_objs s y = Some h \<and> h \<noteq> 0 \<longrightarrow> x = y)"

lemma gen_objs_invI [intro]:
  assumes "0 < go_next s" and "\<And>h. h \<in> go_live s \<Longrightarrow> h \<noteq> 0 \<and> (\<exists>x. go_objs s x = Some h)"
    and "\<And>x h. go_objs s x = Some h \<Longrightarrow> h \<noteq> 0 \<Longrightarrow> h \<in> go_live s"
    and "\<And>x h. go_objs s x = Some h \<Longrightarrow> h < go_next s"
    and "\<And>x y h. go_objs s x = Some h \<Longrightarrow> go_objs s y = Some h \<Longrightarrow> h \<noteq> 0 \<Longrightarrow> x = y"
  shows "gen_objs_inv s"
  using assms unfolding gen_objs_inv_def by blast

lemma gen_objs_invD:
  assumes "gen_objs_inv s"
  shows "0 < go_next s" and "h \<in> go_live s \<longleftrightarrow> h \<noteq> 0 \<and> (\<exists>x. go_objs s x = Some h)"
    and "go_objs s x = Some h \<Longrightarrow> h < go_next s"
    and "go_objs s x = Some h \<Longrightarrow> go_objs s y = Some h \<Longrightarrow> h \<noteq> 0 \<Longrightarrow> x = y"
  using assms unfolding gen_objs_inv_def by blast+

lemma gen_objs_new_inv: "gen_objs_inv gen_objs_new"
  by (auto simp: gen_objs_new_def)

lemma gen_obj_new_inv:
  assumes "gen_objs_inv s" and "go_objs s x = None"
  shows "gen_objs_inv (gen_obj_new x s)" (is "gen_objs_inv ?s")
proof
  note d = gen_objs_invD [OF assms(1)]
  show "0 < go_next ?s" by (simp add: gen_obj_new_def)
  have at: "go_objs ?s y = Some h \<longleftrightarrow> (if y = x then h = go_next s else go_objs s y = Some h)" for y h
    by (auto simp: gen_obj_new_def)
  have live: "h \<in> go_live ?s \<longleftrightarrow> h = go_next s \<or> h \<in> go_live s" for h by (auto simp: gen_obj_new_def)
  show "h \<noteq> 0 \<and> (\<exists>y. go_objs ?s y = Some h)" if "h \<in> go_live ?s" for h
  proof (cases "h = go_next s")
    case True
    then show ?thesis using d(1) at by auto
  next
    case False
    with that live have "h \<in> go_live s" by blast
    then obtain y where "h \<noteq> 0" "go_objs s y = Some h" using d(2) by auto
    moreover from this(2) assms(2) have "y \<noteq> x" by auto
    ultimately show ?thesis using at by auto
  qed
  fix y z h
  assume h: "go_objs ?s y = Some h"
  have n: "go_objs s w \<noteq> Some (go_next s)" for w using d(3) by blast
  show "h < go_next ?s" using h d(3) [of y h] at by (auto simp: gen_obj_new_def split: if_splits)
  show "h \<in> go_live ?s" if "h \<noteq> 0" using h that d(2) at live by (auto split: if_splits)
  show "y = z" if "go_objs ?s z = Some h" "h \<noteq> 0"
    using h that d(4) at n by (auto split: if_splits)
qed

text \<open>Handing a handle from one object to another, the target owning nothing.\<close>

lemma gen_hand_over_inv:
  assumes "gen_objs_inv s" and "go_objs s y \<noteq> None" and "x \<noteq> y" and "gen_handle s x = 0"
  shows "gen_objs_inv (s\<lparr>go_objs := (go_objs s)(y \<mapsto> 0, x \<mapsto> gen_handle s y)\<rparr>)"
proof
  note d = gen_objs_invD [OF assms(1)]
  obtain k where k: "go_objs s y = Some k" "gen_handle s y = k" using assms(2) by (auto simp: gen_handle_def)
  have x: "h = 0" if "go_objs s x = Some h" for h using assms(4) that by (simp add: gen_handle_def)
  let ?s = "s\<lparr>go_objs := (go_objs s)(y \<mapsto> 0, x \<mapsto> gen_handle s y)\<rparr>"
  show "0 < go_next ?s" using d(1) by simp
  fix h
  assume "h \<in> go_live ?s"
  then obtain z where z: "h \<noteq> 0" "go_objs s z = Some h" using d(2) by auto
  then have "go_objs ?s (if z = y then x else z) = Some h" using x k assms(3) by auto
  then show "h \<noteq> 0 \<and> (\<exists>z. go_objs ?s z = Some h)" using z(1) by blast
next
  note d = gen_objs_invD [OF assms(1)]
  obtain k where k: "go_objs s y = Some k" "gen_handle s y = k" using assms(2) by (auto simp: gen_handle_def)
  let ?s = "s\<lparr>go_objs := (go_objs s)(y \<mapsto> 0, x \<mapsto> gen_handle s y)\<rparr>"
  fix z w h
  assume z: "go_objs ?s z = Some h"
  then show "h < go_next ?s" using d(1,3) k by (auto split: if_splits)
  show "h \<in> go_live ?s" if "h \<noteq> 0" using z that d(2) k by (auto split: if_splits)
  show "z = w" if "go_objs ?s w = Some h" "h \<noteq> 0"
    using z that d(4) k by (auto split: if_splits)
qed

lemma gen_drop_inv:
  assumes "gen_objs_inv s" and "go_objs s x \<noteq> None" and "v = None \<or> v = Some 0"
  shows "gen_drop (gen_handle s x) s = Some (s\<lparr>go_live := go_live s - {gen_handle s x}\<rparr>) \<and>
    gen_objs_inv (s\<lparr>go_live := go_live s - {gen_handle s x}, go_objs := (go_objs s)(x := v)\<rparr>)"
proof -
  note d = gen_objs_invD [OF assms(1)]
  obtain k where k: "go_objs s x = Some k" "gen_handle s x = k" using assms(2) by (auto simp: gen_handle_def)
  have "gen_drop k s = Some (s\<lparr>go_live := go_live s - {k}\<rparr>)"
    using d(2) [of k] k(1) by (auto simp: gen_drop_def)
  moreover have "gen_objs_inv (s\<lparr>go_live := go_live s - {k}, go_objs := (go_objs s)(x := v)\<rparr>)" (is "gen_objs_inv ?s")
  proof
    show "0 < go_next ?s" using d(1) by simp
    fix h
    assume "h \<in> go_live ?s"
    then obtain z where z: "h \<noteq> 0" "h \<noteq> k" "go_objs s z = Some h" using d(2) by auto
    then have "go_objs ?s z = Some h" using k by auto
    then show "h \<noteq> 0 \<and> (\<exists>z. go_objs ?s z = Some h)" using z(1) by blast
  next
    fix y z h
    assume y: "go_objs ?s y = Some h"
    then show "h < go_next ?s" using d(1,3) assms(3) by (auto split: if_splits)
    show "h \<in> go_live ?s" if "h \<noteq> 0"
      using y that d(2,4) k assms(3) by (auto split: if_splits)
    show "y = z" if "go_objs ?s z = Some h" "h \<noteq> 0"
      using y that d(4) assms(3) by (auto split: if_splits)
  qed
  ultimately show ?thesis using k by simp
qed

text \<open>The assignment, also of an object to itself: the frame of the target is destroyed, and the target
  owns the frame of the source.\<close>

lemma gen_obj_assign_inv:
  assumes "gen_objs_inv s" and "go_objs s x \<noteq> None" and "go_objs s y \<noteq> None"
  shows "\<exists>s'. gen_obj_assign x y s = Some s' \<and> gen_objs_inv s' \<and> gen_handle s' x = gen_handle s y"
proof (cases "x = y")
  case True
  have "s\<lparr>go_objs := (go_objs s)(y \<mapsto> gen_handle s y)\<rparr> = s"
    using assms(3) by (auto simp: gen_handle_def fun_upd_idem)
  then show ?thesis using True assms(1)
    by (simp add: gen_obj_assign_def gen_drop_def Let_def gen_handle_def [of "s\<lparr>go_objs := (go_objs s)(y \<mapsto> 0)\<rparr>"])
next
  case False
  let ?h = "gen_handle s x"
  let ?s1 = "s\<lparr>go_live := go_live s - {?h}, go_objs := (go_objs s)(x := Some 0)\<rparr>"
  have d: "gen_drop ?h s = Some (s\<lparr>go_live := go_live s - {?h}\<rparr>)" "gen_objs_inv ?s1"
    using gen_drop_inv [OF assms(1,2), of "Some 0"] by simp_all
  have h: "gen_handle ?s1 y = gen_handle s y" using False by (simp add: gen_handle_def)
  let ?s2 = "s\<lparr>go_live := go_live s - {?h}, go_objs := (go_objs s)(y \<mapsto> 0, x \<mapsto> gen_handle s y)\<rparr>"
  have "gen_objs_inv (?s1\<lparr>go_objs := (go_objs ?s1)(y \<mapsto> 0, x \<mapsto> gen_handle ?s1 y)\<rparr>)"
    by (rule gen_hand_over_inv [OF d(2)]) (use False assms(3) in \<open>simp_all add: gen_handle_def\<close>)
  moreover have "(go_objs s)(x := Some 0, y \<mapsto> 0, x \<mapsto> gen_handle s y) = (go_objs s)(y \<mapsto> 0, x \<mapsto> gen_handle s y)"
    using False by (auto simp: fun_eq_iff)
  ultimately have i: "gen_objs_inv ?s2" unfolding h by simp
  have "gen_handle (s\<lparr>go_objs := (go_objs s)(y \<mapsto> 0)\<rparr>) x = ?h" using False by (simp add: gen_handle_def)
  then have "gen_obj_assign x y s = Some ?s2"
    using d(1) by (auto simp: gen_obj_assign_def Let_def gen_drop_def split: if_splits)
  with i show ?thesis by (simp add: gen_handle_def)
qed

lemma gen_op_inv:
  assumes "gen_objs_inv s" and "gen_op_ok a s"
  shows "\<exists>s'. gen_op_exec a s = Some s' \<and> gen_objs_inv s'"
proof (cases a)
  case (GenNew x)
  then show ?thesis using assms gen_obj_new_inv by simp
next
  case (GenMove x y)
  with assms(2) have "x \<noteq> y" "go_objs s y \<noteq> None" "gen_handle s x = 0" by (auto simp: gen_handle_def)
  then show ?thesis using GenMove gen_hand_over_inv [OF assms(1)] by (simp add: gen_obj_move_def)
next
  case (GenAssign x y)
  then show ?thesis using assms gen_obj_assign_inv by fastforce
next
  case (GenDestroy x)
  then show ?thesis using assms gen_drop_inv [of s x None] by (auto simp: gen_obj_destroy_def)
next
  case (IterBegin i x)
  then show ?thesis using assms by (simp add: gen_iter_begin_def gen_objs_inv_def)
next
  case (IterMove i j)
  then show ?thesis using assms by (simp add: gen_iter_move_def gen_objs_inv_def)
qed

lemma gen_ops_inv: "gen_objs_inv s \<Longrightarrow> gen_ops_ok as s \<Longrightarrow> \<exists>s'. gen_ops_run as s = Some s' \<and> gen_objs_inv s'"
proof (induction as arbitrary: s)
  case (Cons a as)
  from gen_op_inv [of s a] Cons.prems obtain s1 where "gen_op_exec a s = Some s1" "gen_objs_inv s1" by auto
  with Cons.IH [of s1] Cons.prems(2) show ?case by simp
qed simp

text \<open>No program destroys a frame twice, and when all objects are gone so are all frames.\<close>

lemma gen_ops_safe:
  assumes "gen_ops_ok as gen_objs_new"
  obtains s where "gen_ops_run as gen_objs_new = Some s" and "go_objs s = Map.empty \<Longrightarrow> go_live s = {}"
proof -
  from gen_ops_inv [OF gen_objs_new_inv assms] obtain s where s: "gen_ops_run as gen_objs_new = Some s" "gen_objs_inv s" by blast
  from gen_objs_invD(2) [OF s(2)] have "go_objs s = Map.empty \<Longrightarrow> go_live s = {}" by auto
  with s(1) show thesis by (rule that)
qed

text \<open>An iterator refers to a frame that is alive until the object that owns the frame, which may be
  another one by then, is destroyed or assigned to.\<close>

lemma gen_iter_alive:
  assumes "gen_objs_inv s" and "iter_handle s i \<in> go_live s" and "gen_op_exec a s = Some s'" and "gen_op_ok a s"
    and "\<And>x. a = GenDestroy x \<or> (\<exists>y. a = GenAssign x y \<and> x \<noteq> y) \<Longrightarrow> gen_handle s x \<noteq> iter_handle s i"
    and "\<And>j x. a = IterBegin j x \<Longrightarrow> j \<noteq> i" and "\<And>j k. a = IterMove j k \<Longrightarrow> j \<noteq> i \<and> k \<noteq> i"
  shows "iter_handle s' i = iter_handle s i \<and> iter_handle s' i \<in> go_live s'"
proof (cases a)
  case (GenAssign x y)
  show ?thesis
  proof (cases "x = y")
    case True
    then show ?thesis using assms(2,3) GenAssign
      by (auto simp: gen_obj_assign_def gen_drop_def Let_def iter_handle_def gen_handle_def)
  next
    case False
    then have "gen_handle s x \<noteq> iter_handle s i" using assms(5) GenAssign by blast
    then show ?thesis using assms(2,3) GenAssign False
      by (auto simp: gen_obj_assign_def gen_drop_def Let_def iter_handle_def gen_handle_def split: if_splits)
  qed
next
  case (GenDestroy x)
  then have "gen_handle s x \<noteq> iter_handle s i" using assms(5) by blast
  then show ?thesis using assms(2,3) GenDestroy
    by (auto simp: gen_obj_destroy_def gen_drop_def iter_handle_def split: if_splits)
qed (use assms(2,3,6,7) in \<open>auto simp: gen_obj_new_def gen_obj_move_def gen_iter_begin_def gen_iter_move_def iter_handle_def split: if_splits\<close>)

end
