(* ===== verification/Rendezvous.thy ===== *)
theory Rendezvous
  imports Prelude
begin

text \<open>
  The channel without a buffer, the specialisation of \<^verbatim>\<open>co/channel.hpp\<close> for the capacity zero: a sender
  and a receiver meet. The mutex \<open>m_release_mtx\<close> lets one sender at a time pass, \<open>m_acquire_mtx\<close> one
  receiver, so that the two who meet are enough for a state; the others wait for those mutexes. The
  mutex \<open>m_match_mtx\<close> hands itself over to those who asked for it, first come, first served, the
  condition variable \<open>m_match_cv\<close> wakes its waiters in the same way, and a notified coroutine asks for
  the mutex when it is notified: this is what the theories of the mutex and of the condition variable
  prove of them.
\<close>

section \<open>State\<close>

datatype party = Sender | Receiver

text \<open>
  The positions of \<open>release\<close> with the item, and of \<open>acquire\<close> and \<open>drop\<close>: before the lock of the
  match mutex, in its queue, inside for the first time, waiting for the condition variable, notified
  and in the queue of the mutex, inside again, about to notify, and about to let the next one in.
\<close>

datatype 'a send_pc =
  SndNone | SndLock 'a | SndQueued 'a | SndCrit 'a | SndWait 'a | SndWoken 'a | SndRetry 'a | SndNotify | SndUnlock

datatype recv_pc = RcvNone | RcvLock | RcvQueued | RcvCrit | RcvNotify | RcvWait | RcvWoken | RcvRetry | RcvUnlock

record 'a rendezvous =
  rz_send :: "'a send_pc"
  rz_recv :: recv_pc
  rz_receiver :: bool
  rz_has_sender :: bool
  rz_item :: "'a option"
  rz_owner :: "party option"
  rz_match_q :: "party list"
  rz_cv_q :: "party list"
  rz_sent :: "'a list"
  rz_received :: "'a list"

definition rz_init :: "'a rendezvous" where
  "rz_init = \<lparr>rz_send = SndNone, rz_recv = RcvNone, rz_receiver = False, rz_has_sender = False, rz_item = None,
     rz_owner = None, rz_match_q = [], rz_cv_q = [], rz_sent = [], rz_received = []\<rparr>"

section \<open>The mutex and the condition variable\<close>

fun send_granted :: "'a send_pc \<Rightarrow> 'a send_pc" where
  "send_granted (SndLock x) = SndCrit x"
| "send_granted (SndQueued x) = SndCrit x"
| "send_granted (SndWoken x) = SndRetry x"
| "send_granted p = p"

fun recv_granted :: "recv_pc \<Rightarrow> recv_pc" where
  "recv_granted RcvLock = RcvCrit"
| "recv_granted RcvQueued = RcvCrit"
| "recv_granted RcvWoken = RcvRetry"
| "recv_granted p = p"

fun send_queued :: "'a send_pc \<Rightarrow> 'a send_pc" where
  "send_queued (SndLock x) = SndQueued x"
| "send_queued p = p"

fun recv_queued :: "recv_pc \<Rightarrow> recv_pc" where
  "recv_queued RcvLock = RcvQueued"
| "recv_queued p = p"

definition rz_grant :: "party \<Rightarrow> 'a rendezvous \<Rightarrow> 'a rendezvous" where
  "rz_grant w s = (case w of
       Sender \<Rightarrow> s\<lparr>rz_owner := Some w, rz_send := send_granted (rz_send s)\<rparr>
     | Receiver \<Rightarrow> s\<lparr>rz_owner := Some w, rz_recv := recv_granted (rz_recv s)\<rparr>)"

definition match_lock :: "party \<Rightarrow> 'a rendezvous \<Rightarrow> 'a rendezvous" where
  "match_lock w s =
     (if rz_owner s = None then rz_grant w s
      else (case w of
          Sender \<Rightarrow> s\<lparr>rz_match_q := rz_match_q s @ [w], rz_send := send_queued (rz_send s)\<rparr>
        | Receiver \<Rightarrow> s\<lparr>rz_match_q := rz_match_q s @ [w], rz_recv := recv_queued (rz_recv s)\<rparr>))"

definition match_unlock :: "'a rendezvous \<Rightarrow> 'a rendezvous" where
  "match_unlock s = (case rz_match_q s of
       [] \<Rightarrow> s\<lparr>rz_owner := None\<rparr>
     | w # q \<Rightarrow> rz_grant w (s\<lparr>rz_match_q := q\<rparr>))"

fun send_woken :: "'a send_pc \<Rightarrow> 'a send_pc" where
  "send_woken (SndWait x) = SndWoken x"
| "send_woken p = p"

fun recv_woken :: "recv_pc \<Rightarrow> recv_pc" where
  "recv_woken RcvWait = RcvWoken"
| "recv_woken p = p"

definition match_notify :: "'a rendezvous \<Rightarrow> 'a rendezvous" where
  "match_notify s = (case rz_cv_q s of
       [] \<Rightarrow> s
     | Sender # q \<Rightarrow> match_lock Sender (s\<lparr>rz_cv_q := q, rz_send := send_woken (rz_send s)\<rparr>)
     | Receiver # q \<Rightarrow> match_lock Receiver (s\<lparr>rz_cv_q := q, rz_recv := recv_woken (rz_recv s)\<rparr>))"

section \<open>The coroutines\<close>

text \<open>One round of the wait for the receiver: wait, or emplace the item for the receiver.\<close>

definition send_match :: "'a \<Rightarrow> 'a rendezvous \<Rightarrow> 'a rendezvous" where
  "send_match x s =
     (if \<not> rz_receiver s
      then match_unlock (s\<lparr>rz_send := SndWait x, rz_cv_q := rz_cv_q s @ [Sender]\<rparr>)
      else match_unlock (s\<lparr>rz_item := Some x, rz_receiver := False, rz_sent := rz_sent s @ [x], rz_send := SndNotify\<rparr>))"

text \<open>One round of the wait for the item: wait, or take it.\<close>

definition recv_match :: "'a rendezvous \<Rightarrow> 'a rendezvous" where
  "recv_match s = (case rz_item s of
       None \<Rightarrow> match_unlock (s\<lparr>rz_recv := RcvWait, rz_cv_q := rz_cv_q s @ [Receiver]\<rparr>)
     | Some x \<Rightarrow> match_unlock (s\<lparr>rz_has_sender := False, rz_item := None, rz_received := rz_received s @ [x],
                                rz_recv := RcvUnlock\<rparr>))"

fun rz_send_step :: "'a send_pc \<Rightarrow> 'a rendezvous \<Rightarrow> 'a rendezvous option" where
  "rz_send_step (SndLock x) s = Some (match_lock Sender s)"
| "rz_send_step (SndCrit x) s =
     Some (send_match x (if \<not> rz_receiver s then s\<lparr>rz_has_sender := True\<rparr> else s))"
| "rz_send_step (SndRetry x) s = Some (send_match x s)"
| "rz_send_step SndNotify s = Some ((match_notify s)\<lparr>rz_send := SndUnlock\<rparr>)"
| "rz_send_step SndUnlock s = Some (s\<lparr>rz_send := SndNone\<rparr>)"
| "rz_send_step _ s = None"

fun rz_recv_step :: "recv_pc \<Rightarrow> 'a rendezvous \<Rightarrow> 'a rendezvous option" where
  "rz_recv_step RcvLock s = Some (match_lock Receiver s)"
| "rz_recv_step RcvCrit s =
     (let s = s\<lparr>rz_receiver := True\<rparr>
      in Some (if rz_has_sender s then s\<lparr>rz_recv := RcvNotify\<rparr> else recv_match s))"
| "rz_recv_step RcvNotify s = Some (recv_match (match_notify s))"
| "rz_recv_step RcvRetry s = Some (recv_match s)"
| "rz_recv_step RcvUnlock s = Some (s\<lparr>rz_recv := RcvNone\<rparr>)"
| "rz_recv_step _ s = None"

text \<open>A sender or a receiver gets past the outer mutex, or takes its next step.\<close>

inductive rz_step :: "'a rendezvous \<Rightarrow> 'a rendezvous \<Rightarrow> bool" where
  rz_sender_comes: "rz_send s = SndNone \<Longrightarrow> rz_step s (s\<lparr>rz_send := SndLock x\<rparr>)"
| rz_receiver_comes: "rz_recv s = RcvNone \<Longrightarrow> rz_step s (s\<lparr>rz_recv := RcvLock, rz_item := None\<rparr>)"
| rz_sender_steps: "rz_send_step (rz_send s) s = Some s' \<Longrightarrow> rz_step s s'"
| rz_receiver_steps: "rz_recv_step (rz_recv s) s = Some s' \<Longrightarrow> rz_step s s'"

inductive rz_reachable :: "'a rendezvous \<Rightarrow> bool" where
  rz_start: "rz_reachable rz_init"
| rz_next: "rz_reachable s \<Longrightarrow> rz_step s s' \<Longrightarrow> rz_reachable s'"

section \<open>The states of a meeting\<close>

text \<open>
  The receiver alone (\<open>meet_recv\<close>), and both: who owns the match mutex, who waits for it and who for
  the condition variable, whether the receiver and the sender are announced, and whether the item has
  been handed over, in each combination of positions that is possible.
\<close>

definition rz_conf ::
    "'a rendezvous \<Rightarrow> party option \<Rightarrow> party list \<Rightarrow> party list \<Rightarrow> bool \<Rightarrow> bool \<Rightarrow> bool \<Rightarrow> bool" where
  "rz_conf s owner mq cvq receiver has_sender item \<longleftrightarrow>
     rz_owner s = owner \<and> rz_match_q s = mq \<and> rz_cv_q s = cvq \<and> rz_receiver s = receiver \<and>
     rz_has_sender s = has_sender \<and> (rz_item s \<noteq> None) = item"

definition rz_table :: "'a send_pc \<Rightarrow> recv_pc \<Rightarrow> 'a rendezvous \<Rightarrow> bool" where
  "rz_table p q s = (case p of
     SndNone \<Rightarrow> (case q of
         RcvNone \<Rightarrow> rz_conf s None [] [] False False False
         | RcvLock \<Rightarrow> rz_conf s None [] [] False False False
         | RcvCrit \<Rightarrow> rz_conf s (Some Receiver) [] [] False False False
         | RcvWait \<Rightarrow> rz_conf s None [] [Receiver] True False False
         | RcvRetry \<Rightarrow> rz_conf s (Some Receiver) [] [] False (rz_has_sender s) True
         | RcvUnlock \<Rightarrow> rz_conf s None [] [] False False False
       | _ \<Rightarrow> False)
     | SndLock x \<Rightarrow> (case q of
         RcvNone \<Rightarrow> rz_conf s None [] [] False False False
         | RcvLock \<Rightarrow> rz_conf s None [] [] False False False
         | RcvCrit \<Rightarrow> rz_conf s (Some Receiver) [] [] False False False
         | RcvWait \<Rightarrow> rz_conf s None [] [Receiver] True False False
         | RcvRetry \<Rightarrow> rz_conf s (Some Receiver) [] [] False (rz_has_sender s) True
         | RcvUnlock \<Rightarrow> rz_conf s None [] [] False False False
       | _ \<Rightarrow> False)
     | SndQueued x \<Rightarrow> (case q of
         RcvCrit \<Rightarrow> rz_conf s (Some Receiver) [Sender] [] False False False
         | RcvRetry \<Rightarrow> rz_conf s (Some Receiver) [Sender] [] False (rz_has_sender s) True
       | _ \<Rightarrow> False)
     | SndCrit x \<Rightarrow> (case q of
         RcvNone \<Rightarrow> rz_conf s (Some Sender) [] [] False False False
         | RcvLock \<Rightarrow> rz_conf s (Some Sender) [] [] False False False
         | RcvQueued \<Rightarrow> rz_conf s (Some Sender) [Receiver] [] False False False
         | RcvWait \<Rightarrow> rz_conf s (Some Sender) [] [Receiver] True False False
         | RcvUnlock \<Rightarrow> rz_conf s (Some Sender) [] [] False False False
       | _ \<Rightarrow> False)
     | SndWait x \<Rightarrow> (case q of
         RcvNone \<Rightarrow> rz_conf s None [] [Sender] False True False
         | RcvLock \<Rightarrow> rz_conf s None [] [Sender] False True False
         | RcvCrit \<Rightarrow> rz_conf s (Some Receiver) [] [Sender] False True False
         | RcvNotify \<Rightarrow> rz_conf s (Some Receiver) [] [Sender] True True False
         | RcvUnlock \<Rightarrow> rz_conf s None [] [Sender] False True False
       | _ \<Rightarrow> False)
     | SndRetry x \<Rightarrow> (case q of
         RcvWait \<Rightarrow> rz_conf s (Some Sender) [] [Receiver] True True False
       | _ \<Rightarrow> False)
     | SndNotify \<Rightarrow> (case q of
         RcvWait \<Rightarrow> rz_conf s None [] [Receiver] False (rz_has_sender s) True
       | _ \<Rightarrow> False)
     | SndUnlock \<Rightarrow> (case q of
         RcvNone \<Rightarrow> rz_conf s None [] [] False False False
         | RcvLock \<Rightarrow> rz_conf s None [] [] False False False
         | RcvCrit \<Rightarrow> rz_conf s (Some Receiver) [] [] False False False
         | RcvWait \<Rightarrow> rz_conf s None [] [Receiver] True False False
         | RcvRetry \<Rightarrow> rz_conf s (Some Receiver) [] [] False (rz_has_sender s) True
         | RcvUnlock \<Rightarrow> rz_conf s None [] [] False False False
       | _ \<Rightarrow> False)
     | _ \<Rightarrow> False)"

definition rz_inv :: "'a rendezvous \<Rightarrow> bool" where
  "rz_inv s \<longleftrightarrow> rz_table (rz_send s) (rz_recv s) s \<and>
     rz_sent s = rz_received s @ (case rz_item s of None \<Rightarrow> [] | Some x \<Rightarrow> [x])"

lemmas rz_defs = rz_inv_def rz_table_def rz_conf_def match_lock_def match_unlock_def match_notify_def rz_grant_def
  send_match_def recv_match_def

lemma rz_sender_comes_inv: "rz_inv s \<Longrightarrow> rz_send s = SndNone \<Longrightarrow> rz_inv (s\<lparr>rz_send := SndLock x\<rparr>)"
  by (cases "rz_recv s") (auto simp: rz_defs)

lemma rz_receiver_comes_inv:
  "rz_inv s \<Longrightarrow> rz_recv s = RcvNone \<Longrightarrow> rz_inv (s\<lparr>rz_recv := RcvLock, rz_item := None\<rparr>)"
  by (cases "rz_send s") (auto simp: rz_defs)

lemma rz_sender_inv:
  assumes "rz_inv s" and "rz_send_step (rz_send s) s = Some s'"
  shows "rz_inv s'"
  using assms by (cases "rz_send s"; cases "rz_recv s") (auto simp: rz_defs split: option.splits)

lemma rz_receiver_inv:
  assumes "rz_inv s" and "rz_recv_step (rz_recv s) s = Some s'"
  shows "rz_inv s'"
  using assms by (cases "rz_recv s"; cases "rz_send s") (auto simp: rz_defs Let_def split: option.splits)

lemma rz_reachable_inv: "rz_reachable s \<Longrightarrow> rz_inv s"
proof (induction rule: rz_reachable.induct)
  case rz_start
  show ?case by (simp add: rz_init_def rz_defs)
next
  case (rz_next s s')
  from rz_next.hyps(2) rz_next.IH show ?case
    by cases (auto intro: rz_sender_comes_inv rz_receiver_comes_inv rz_sender_inv rz_receiver_inv)
qed

section \<open>The meeting\<close>

definition rz_advance :: "'a rendezvous \<Rightarrow> 'a rendezvous \<Rightarrow> bool" where
  "rz_advance s s' \<longleftrightarrow> rz_send_step (rz_send s) s = Some s' \<or> rz_recv_step (rz_recv s) s = Some s'"

text \<open>How many positions are left for the two.\<close>

fun send_left :: "'a send_pc \<Rightarrow> nat" where
  "send_left SndNone = 0" | "send_left (SndLock x) = 8" | "send_left (SndQueued x) = 7" | "send_left (SndCrit x) = 6"
| "send_left (SndWait x) = 5" | "send_left (SndWoken x) = 4" | "send_left (SndRetry x) = 3" | "send_left SndNotify = 2"
| "send_left SndUnlock = 1"

fun recv_left :: "recv_pc \<Rightarrow> nat" where
  "recv_left RcvNone = 0" | "recv_left RcvLock = 8" | "recv_left RcvQueued = 7" | "recv_left RcvCrit = 6"
| "recv_left RcvNotify = 5" | "recv_left RcvWait = 4" | "recv_left RcvWoken = 3" | "recv_left RcvRetry = 2"
| "recv_left RcvUnlock = 1"

definition rz_left :: "'a rendezvous \<Rightarrow> nat" where
  "rz_left s = send_left (rz_send s) + recv_left (rz_recv s)"

lemma rz_advance_left:
  assumes "rz_inv s" and "rz_advance s s'"
  shows "rz_left s' < rz_left s"
  using assms unfolding rz_advance_def
  by (cases "rz_send s"; cases "rz_recv s") (auto simp: rz_defs rz_left_def Let_def split: option.splits)

lemma rz_not_stuck:
  assumes "rz_inv s" and "rz_send s \<noteq> SndNone" and "rz_recv s \<noteq> RcvNone"
  shows "\<exists>s'. rz_advance s s'"
  using assms unfolding rz_advance_def by (cases "rz_send s"; cases "rz_recv s") (auto simp: rz_defs Let_def)

text \<open>C11. A sender and a receiver of the channel without a buffer meet: while both are there one of
  them has a step, and each step brings them nearer to the end, so neither is left waiting for a
  notification; items are received once each, in the order in which they were sent, and an item is
  sent only to a receiver that is waiting for it.\<close>

theorem rendezvous_meets:
  assumes "rz_reachable s"
  shows "(rz_send s \<noteq> SndNone \<and> rz_recv s \<noteq> RcvNone \<longrightarrow> (\<exists>s'. rz_advance s s')) \<and>
    (\<forall>s'. rz_advance s s' \<longrightarrow> rz_left s' < rz_left s) \<and>
    rz_sent s = rz_received s @ (case rz_item s of None \<Rightarrow> [] | Some x \<Rightarrow> [x]) \<and>
    (rz_item s \<noteq> None \<longrightarrow> rz_recv s \<in> {RcvWait, RcvWoken, RcvRetry})"
proof -
  have inv: "rz_inv s" by (rule rz_reachable_inv [OF assms])
  have "rz_item s \<noteq> None \<Longrightarrow> rz_recv s \<in> {RcvWait, RcvWoken, RcvRetry}"
    using inv by (cases "rz_send s"; cases "rz_recv s") (auto simp: rz_inv_def rz_table_def rz_conf_def)
  with rz_not_stuck [OF inv] rz_advance_left [OF inv] inv show ?thesis by (auto simp: rz_inv_def)
qed

text \<open>The sender comes first and waits; the receiver notifies it and waits for the item.\<close>

theorem rendezvous_meets_witness:
  "\<exists>s. rz_reachable s \<and> rz_send s = SndRetry (7 :: nat) \<and> rz_recv s = RcvWait \<and> (\<exists>s'. rz_advance s s')"
proof -
  have send: "rz_reachable s \<Longrightarrow> rz_send_step (rz_send s) s = Some s' \<Longrightarrow> rz_reachable s'" for s s' :: "nat rendezvous"
    by (blast intro: rz_next rz_sender_steps)
  have recv: "rz_reachable s \<Longrightarrow> rz_recv_step (rz_recv s) s = Some s' \<Longrightarrow> rz_reachable s'" for s s' :: "nat rendezvous"
    by (blast intro: rz_next rz_receiver_steps)
  let ?s1 = "rz_init\<lparr>rz_send := SndLock (7 :: nat)\<rparr>"
  have "rz_reachable ?s1" by (rule rz_next [OF rz_start rz_sender_comes]) (simp add: rz_init_def)
  from send [OF this] have "rz_reachable (match_lock Sender ?s1)" by simp
  from send [OF this] have r3: "rz_reachable (send_match 7 ((match_lock Sender ?s1)\<lparr>rz_has_sender := True\<rparr>))"
    by (simp add: match_lock_def rz_grant_def rz_init_def)
  define s4 where "s4 = (send_match 7 ((match_lock Sender ?s1)\<lparr>rz_has_sender := True\<rparr>))\<lparr>rz_recv := RcvLock, rz_item := None\<rparr>"
  have r4: "rz_reachable s4" unfolding s4_def
    by (rule rz_next [OF r3 rz_receiver_comes]) (simp add: rz_defs rz_init_def)
  have s4: "s4 = \<lparr>rz_send = SndWait 7, rz_recv = RcvLock, rz_receiver = False, rz_has_sender = True, rz_item = None,
      rz_owner = None, rz_match_q = [], rz_cv_q = [Sender], rz_sent = [], rz_received = []\<rparr>"
    by (simp add: s4_def rz_defs rz_init_def)
  define s5 where "s5 = match_lock Receiver s4"
  have r5: "rz_reachable s5" using recv [OF r4] by (simp add: s4 s5_def)
  define s6 where "s6 = s5\<lparr>rz_receiver := True, rz_recv := RcvNotify\<rparr>"
  have r6: "rz_reachable s6" using recv [OF r5] by (simp add: s5_def s4 s6_def rz_defs)
  define s7 where "s7 = recv_match (match_notify s6)"
  have r7: "rz_reachable s7" using recv [OF r6] by (simp add: s6_def s5_def s4 s7_def rz_defs)
  have "rz_send s7 = SndRetry 7" "rz_recv s7 = RcvWait" by (simp_all add: s7_def s6_def s5_def s4 rz_defs)
  with rendezvous_meets [OF r7] r7 show ?thesis by (intro exI [of _ s7]) simp
qed

end
