(* ===== verification/Io_Start.thy ===== *)
theory Io_Start
  imports Prelude
begin

text \<open>
  How the event loops start and end: the constructor of \<open>io_context\<close>, \<open>init\<close>, \<open>start\<close> and
  \<open>deinit\<close> of \<^verbatim>\<open>io_context.hpp\<close> and \<^verbatim>\<open>io_context.cpp\<close>, over the counts
  \<open>create_count\<close> and \<open>ready_count\<close> of \<^verbatim>\<open>io_context_meta.hpp\<close>. The counts are guarded by one
  \<open>std::mutex\<close>, so a step of the model is one section under that mutex; \<open>wait_for\<close> of the
  \<open>std::condition_variable\<close> is its documented loop: it tests the predicate, sleeps, is woken by a
  notification, by nothing, or by the end of the second that it has, and then tests again.
\<close>

section \<open>State\<close>

text \<open>
  The position of a context and its thread: not constructed, constructed, in \<open>init\<close>, about to enter
  the section of \<open>start\<close>, asleep, woken, past its time, about to notify the others, in its loop,
  deinitialised.
\<close>

datatype start_pc =
  StNone | StCreated | StInit | StArrive | StSleep | StWoken | StExpired | StNotify | StRun | StDone

record start_sys =
  create_count :: u8
  ready_count :: u8
  start_pos :: "ptr \<Rightarrow> start_pc"
  context_id :: "ptr \<Rightarrow> u8"
  thread_ctx :: "ptr \<Rightarrow> ptr"
  thread_ctx_id :: "ptr \<Rightarrow> u8"
  thread_worker :: "ptr \<Rightarrow> ptr"
  worker_ctx_id :: "ptr \<Rightarrow> u8"
  terminated :: bool

text \<open>The counts are static, so they start at zero; \<open>this_thread\<close> has no context.\<close>

definition start_none :: start_sys where
  "start_none = \<lparr>create_count = 0, ready_count = 0, start_pos = (\<lambda>_. StNone), context_id = (\<lambda>_. 0),
     thread_ctx = (\<lambda>_. 0), thread_ctx_id = (\<lambda>_. - 1),
     thread_worker = (\<lambda>_. 0), worker_ctx_id = (\<lambda>_. 0), terminated = False\<rparr>"

definition start_goto :: "ptr \<Rightarrow> start_pc \<Rightarrow> start_sys \<Rightarrow> start_sys" where
  "start_goto a p s = s\<lparr>start_pos := (start_pos s)(a := p)\<rparr>"

section \<open>Operations\<close>

definition io_context_new :: "ptr \<Rightarrow> start_sys \<Rightarrow> start_sys" where
  "io_context_new a s =
     start_goto a StCreated
       (s\<lparr>context_id := (context_id s)(a := create_count s), create_count := create_count s + 1\<rparr>)"

text \<open>What the worker does with \<open>this_thread\<close> in its own \<open>init\<close> and \<open>deinit\<close>; a worker has the name of
  its context. The ring it sets up is that of \<open>Worker\<close>.\<close>

definition worker_bind :: "ptr \<Rightarrow> start_sys \<Rightarrow> start_sys" where
  "worker_bind a s =
     s\<lparr>worker_ctx_id := (worker_ctx_id s)(a := thread_ctx_id s a), thread_worker := (thread_worker s)(a := a)\<rparr>"

definition worker_deinit :: "ptr \<Rightarrow> start_sys \<Rightarrow> start_sys" where
  "worker_deinit a s = s\<lparr>thread_worker := (thread_worker s)(a := 0)\<rparr>"

definition io_context_init :: "ptr \<Rightarrow> start_sys \<Rightarrow> start_sys" where
  "io_context_init a s = worker_bind a
     (s\<lparr>thread_ctx := (thread_ctx s)(a := a), thread_ctx_id := (thread_ctx_id s)(a := context_id s a)\<rparr>)"

definition io_context_deinit :: "ptr \<Rightarrow> start_sys \<Rightarrow> start_sys" where
  "io_context_deinit a s =
     (let s = worker_deinit a (s\<lparr>thread_ctx := (thread_ctx s)(a := 0), thread_ctx_id := (thread_ctx_id s)(a := - 1)\<rparr>)
      in s\<lparr>ready_count := ready_count s - 1, create_count := create_count s - 1\<rparr>)"

lemmas io_init_defs = io_context_init_def worker_bind_def
lemmas io_deinit_defs = io_context_deinit_def worker_deinit_def Let_def

definition all_ready :: "start_sys \<Rightarrow> bool" where
  "all_ready s \<longleftrightarrow> create_count s = ready_count s"

definition notify_ready :: "start_sys \<Rightarrow> start_sys" where
  "notify_ready s = s\<lparr>start_pos := (\<lambda>b. if start_pos s b = StSleep then StWoken else start_pos s b)\<rparr>"

text \<open>The next step of the thread of context \<open>a\<close>.\<close>

fun start_at :: "ptr \<Rightarrow> start_pc \<Rightarrow> start_sys \<Rightarrow> start_sys option" where
  "start_at a StCreated s = Some (start_goto a StInit s)"
| "start_at a StInit s = Some (start_goto a StArrive (io_context_init a s))"
| "start_at a StArrive s =
     (let s = s\<lparr>ready_count := ready_count s + 1\<rparr>
      in Some (start_goto a (if all_ready s then StNotify else StSleep) s))"
| "start_at a StWoken s = Some (start_goto a (if all_ready s then StNotify else StSleep) s)"
| "start_at a StExpired s = Some (if all_ready s then start_goto a StNotify s else s\<lparr>terminated := True\<rparr>)"
| "start_at a StNotify s = Some (start_goto a StRun (notify_ready s))"
| "start_at a StRun s = Some (start_goto a StDone (io_context_deinit a s))"
| "start_at a _ s = None"

text \<open>A context is constructed at an address that is free; at most 255 of them live at a time.\<close>

inductive start_step :: "start_sys \<Rightarrow> start_sys \<Rightarrow> bool" where
  start_new: "\<not> terminated s \<Longrightarrow> start_pos s a = StNone \<Longrightarrow> a \<noteq> 0 \<Longrightarrow> create_count s \<noteq> - 1 \<Longrightarrow>
     start_step s (io_context_new a s)"
| start_next: "\<not> terminated s \<Longrightarrow> start_at a (start_pos s a) s = Some s' \<Longrightarrow> start_step s s'"
| start_spurious: "\<not> terminated s \<Longrightarrow> start_pos s a = StSleep \<Longrightarrow> start_step s (start_goto a StWoken s)"
| start_expires: "\<not> terminated s \<Longrightarrow> start_pos s a \<in> {StSleep, StWoken} \<Longrightarrow> start_step s (start_goto a StExpired s)"

inductive start_reachable :: "start_sys \<Rightarrow> bool" where
  start_first: "start_reachable start_none"
| start_then: "start_reachable s \<Longrightarrow> start_step s s' \<Longrightarrow> start_reachable s'"

section \<open>The counts\<close>

fun ctx_created :: "start_pc \<Rightarrow> bool" where
  "ctx_created StNone = False" | "ctx_created StDone = False" | "ctx_created p = True"

fun ctx_arrived :: "start_pc \<Rightarrow> bool" where
  "ctx_arrived StNone = False" | "ctx_arrived StDone = False" | "ctx_arrived StCreated = False"
| "ctx_arrived StInit = False" | "ctx_arrived StArrive = False" | "ctx_arrived p = True"

fun ctx_bound :: "start_pc \<Rightarrow> bool" where
  "ctx_bound StNone = False" | "ctx_bound StCreated = False" | "ctx_bound StInit = False"
| "ctx_bound StDone = False" | "ctx_bound p = True"

text \<open>The variables of the thread of a context, while it has one that runs and else.\<close>

definition this_bound :: "start_sys \<Rightarrow> ptr \<Rightarrow> bool" where
  "this_bound s a \<longleftrightarrow> thread_ctx s a = a \<and> thread_worker s a = a \<and> thread_ctx_id s a = context_id s a \<and>
     worker_ctx_id s a = context_id s a"

definition this_unbound :: "start_sys \<Rightarrow> ptr \<Rightarrow> bool" where
  "this_unbound s a \<longleftrightarrow> thread_ctx s a = 0 \<and> thread_worker s a = 0"

definition this_same :: "start_sys \<Rightarrow> start_sys \<Rightarrow> ptr \<Rightarrow> bool" where
  "this_same t s b \<longleftrightarrow> thread_ctx t b = thread_ctx s b \<and> thread_worker t b = thread_worker s b \<and>
     thread_ctx_id t b = thread_ctx_id s b \<and> worker_ctx_id t b = worker_ctx_id s b \<and> context_id t b = context_id s b"

lemma this_same_bound: "this_same t s b \<Longrightarrow> this_bound t b = this_bound s b \<and> this_unbound t b = this_unbound s b"
  by (simp add: this_same_def this_bound_def this_unbound_def)

lemma this_pos: "this_bound (s\<lparr>start_pos := f\<rparr>) a = this_bound s a" "this_unbound (s\<lparr>start_pos := f\<rparr>) a = this_unbound s a"
  by (simp_all add: this_bound_def this_unbound_def)

lemmas this_defs = this_same_def this_bound_def this_unbound_def

definition start_inv :: "start_sys \<Rightarrow> bool" where
  "start_inv s \<longleftrightarrow>
     pc_finite StNone (start_pos s) \<and>
     unat (create_count s) = pc_count ctx_created (start_pos s) \<and>
     unat (ready_count s) = pc_count ctx_arrived (start_pos s) \<and>
     (all_ready s \<and> (\<exists>a. start_pos s a = StSleep) \<longrightarrow> (\<exists>b. start_pos s b = StNotify)) \<and>
     (\<forall>a. ctx_bound (start_pos s a) \<longrightarrow> this_bound s a) \<and>
     (\<forall>a. \<not> ctx_bound (start_pos s a) \<longrightarrow> this_unbound s a)"

lemma start_none_inv: "start_inv start_none"
  by (simp add: start_inv_def start_none_def this_defs)

lemma arrived_created: "ctx_arrived p \<Longrightarrow> ctx_created p"
  by (cases p) simp_all

lemma start_counts:
  assumes "pc_finite StNone f"
  shows "pc_count ctx_arrived f \<le> pc_count ctx_created f"
    and "pc_count ctx_arrived f = pc_count ctx_created f \<longleftrightarrow> (\<forall>a. ctx_created (f a) \<longrightarrow> ctx_arrived (f a))"
proof -
  have fin: "finite {a. ctx_created (f a)}" using pc_finite_set [OF assms, of ctx_created] by simp
  have sub: "{a. ctx_arrived (f a)} \<subseteq> {a. ctx_created (f a)}" by (auto dest: arrived_created)
  show "pc_count ctx_arrived f \<le> pc_count ctx_created f" unfolding pc_count_def by (rule card_mono [OF fin sub])
  show "pc_count ctx_arrived f = pc_count ctx_created f \<longleftrightarrow> (\<forall>a. ctx_created (f a) \<longrightarrow> ctx_arrived (f a))"
    using card_subset_eq [OF fin sub] unfolding pc_count_def by (auto dest: arrived_created intro: arg_cong [of _ _ card])
qed

text \<open>All are ready exactly if nobody who was constructed has still to arrive.\<close>

lemma all_ready_iff:
  assumes "start_inv s"
  shows "all_ready s \<longleftrightarrow> (\<forall>a. ctx_created (start_pos s a) \<longrightarrow> ctx_arrived (start_pos s a))"
  using assms start_counts(2) [of "start_pos s"] by (auto simp: start_inv_def all_ready_def word_unat_eq_iff)

section \<open>Every step keeps the counts\<close>

lemma start_inv_move:
  assumes inv: "start_inv s" and pos: "start_pos t = (start_pos s)(a := p)"
    and create: "unat (create_count t) + of_bool (ctx_created (start_pos s a)) =
      unat (create_count s) + of_bool (ctx_created p)"
    and ready: "unat (ready_count t) + of_bool (ctx_arrived (start_pos s a)) =
      unat (ready_count s) + of_bool (ctx_arrived p)"
    and wake: "all_ready t \<Longrightarrow> \<exists>b. start_pos t b = StSleep \<Longrightarrow> \<exists>b. start_pos t b = StNotify"
    and other: "\<And>b. b \<noteq> a \<Longrightarrow> this_same t s b"
    and self: "ctx_bound p \<Longrightarrow> this_bound t a" "\<not> ctx_bound p \<Longrightarrow> this_unbound t a"
  shows "start_inv t"
proof -
  note I = inv [unfolded start_inv_def]
  have fin: "pc_finite StNone (start_pos s)" using I by blast
  have "unat (create_count t) = pc_count ctx_created (start_pos t)"
    using pc_count_upd [OF fin, of ctx_created a p] create I unfolding pos by simp
  moreover have "unat (ready_count t) = pc_count ctx_arrived (start_pos t)"
    using pc_count_upd [OF fin, of ctx_arrived a p] ready I unfolding pos by simp
  moreover have "pc_finite StNone (start_pos t)" unfolding pos by (rule pc_finite_upd [OF fin])
  moreover have "\<forall>b. ctx_bound (start_pos t b) \<longrightarrow> this_bound t b"
  proof (intro allI impI)
    fix b assume "ctx_bound (start_pos t b)"
    then show "this_bound t b"
      using I this_same_bound [OF other [of b]] self(1) by (cases "b = a") (simp_all add: pos)
  qed
  moreover have "\<forall>b. \<not> ctx_bound (start_pos t b) \<longrightarrow> this_unbound t b"
  proof (intro allI impI)
    fix b assume "\<not> ctx_bound (start_pos t b)"
    then show "this_unbound t b" using I this_same_bound [OF other [of b]] self(2) by (cases "b = a") (simp_all add: pos)
  qed
  ultimately show ?thesis using wake unfolding start_inv_def by blast
qed

lemma start_inv_sleeper:
  assumes "start_inv s" and "all_ready s" and "start_pos s b = StSleep"
  obtains c where "start_pos s c = StNotify"
  using assms unfolding start_inv_def by blast

lemma unat_plus1: "(x :: u8) \<noteq> - 1 \<Longrightarrow> unat (x + 1) = unat x + 1"
  using unatSuc [of x] by (simp add: add.commute eq_neg_iff_add_eq_0)

text \<open>A step of a context between two positions of the same counts.\<close>

lemma start_inv_local:
  assumes inv: "start_inv s" and same: "ctx_created p = ctx_created (start_pos s a)"
      "ctx_arrived p = ctx_arrived (start_pos s a)" "ctx_bound p = ctx_bound (start_pos s a)"
    and from_sleep: "start_pos s a \<noteq> StNotify" and sleeps: "p = StSleep \<Longrightarrow> \<not> all_ready s"
  shows "start_inv (start_goto a p s)"
proof (rule start_inv_move [OF inv, of _ a p])
  assume r: "all_ready (start_goto a p s)" and "\<exists>b. start_pos (start_goto a p s) b = StSleep"
  then obtain b where b: "((start_pos s)(a := p)) b = StSleep" by (auto simp: start_goto_def this_defs)
  have r: "all_ready s" using r by (simp add: all_ready_def start_goto_def this_defs)
  have "start_pos s b = StSleep" using b sleeps r by (auto split: if_splits)
  from start_inv_sleeper [OF inv r this] obtain c where "start_pos s c = StNotify" .
  then show "\<exists>c. start_pos (start_goto a p s) c = StNotify" using from_sleep by (intro exI [of _ c]) (auto simp: start_goto_def this_defs)
next
  have *: "ctx_bound (start_pos s a) \<longrightarrow> this_bound s a"
    "\<not> ctx_bound (start_pos s a) \<longrightarrow> this_unbound s a" using inv unfolding start_inv_def by blast+
  show "ctx_bound p \<Longrightarrow> this_bound (start_goto a p s) a"
    using *(1) same(3) by (simp add: start_goto_def this_defs)
  show "\<not> ctx_bound p \<Longrightarrow> this_unbound (start_goto a p s) a"
    using *(2) same(3) by (simp add: start_goto_def this_defs)
qed (simp_all add: start_goto_def this_defs same)

lemma start_inv_new:
  assumes inv: "start_inv s" and a: "start_pos s a = StNone" and room: "create_count s \<noteq> - 1"
  shows "start_inv (io_context_new a s)"
proof (rule start_inv_move [OF inv, of _ a StCreated])
  assume r: "all_ready (io_context_new a s)"
  have "unat (ready_count s) \<le> unat (create_count s)" using inv start_counts(1) [of "start_pos s"] by (simp add: start_inv_def)
  moreover have "unat (ready_count s) = unat (create_count s) + 1"
    using r unat_plus1 [OF room] by (simp add: all_ready_def io_context_new_def start_goto_def this_defs)
  ultimately show "\<exists>b. start_pos (io_context_new a s) b = StNotify" by simp
next
  have "this_unbound s a" using inv a unfolding start_inv_def by simp
  then show "this_unbound (io_context_new a s) a" by (simp add: io_context_new_def start_goto_def this_defs this_defs)
qed (use a in \<open>simp_all add: io_context_new_def start_goto_def this_defs unat_plus1 [OF room]\<close>)

lemma start_inv_arrive:
  assumes inv: "start_inv s" and a: "start_pos s a = StArrive"
  shows "start_inv (start_goto a (if all_ready (s\<lparr>ready_count := ready_count s + 1\<rparr>) then StNotify else StSleep)
    (s\<lparr>ready_count := ready_count s + 1\<rparr>))" (is "start_inv (start_goto a ?p ?s)")
proof -
  have fin: "pc_finite StNone (start_pos s)" using inv by (simp add: start_inv_def)
  have "pc_count ctx_arrived (start_pos s) \<noteq> pc_count ctx_created (start_pos s)"
    using start_counts(2) [OF fin] a by (auto intro!: exI [of _ a])
  with start_counts(1) [OF fin] have "unat (ready_count s) < unat (create_count s)"
    using inv by (simp add: start_inv_def)
  then have "ready_count s < create_count s" by (simp add: word_less_nat_alt)
  then have room: "ready_count s \<noteq> - 1" by (metis word_order.extremum_strict)
  have b: "this_bound s a" using inv a unfolding start_inv_def by simp
  show ?thesis
  proof (rule start_inv_move [OF inv, of _ a ?p])
    assume "all_ready (start_goto a ?p ?s)"
    then have "all_ready ?s" by (simp add: all_ready_def start_goto_def this_defs)
    then show "\<exists>b. start_pos (start_goto a ?p ?s) b = StNotify" by (intro exI [of _ a]) (simp add: start_goto_def this_defs)
  qed (use a b in \<open>simp_all add: start_goto_def this_defs unat_plus1 [OF room] split: if_splits\<close>)
qed

lemma start_inv_run:
  assumes inv: "start_inv s" and a: "start_pos s a = StRun"
  shows "start_inv (start_goto a StDone (io_context_deinit a s))"
proof -
  have fin: "pc_finite StNone (start_pos s)" using inv by (simp add: start_inv_def)
  have "pc_count ctx_created (start_pos s) > 0" "pc_count ctx_arrived (start_pos s) > 0"
    using pc_count_pos [OF fin, of ctx_created] pc_count_pos [OF fin, of ctx_arrived] a by (auto intro: exI [of _ a])
  then have nz: "unat (create_count s) > 0" "unat (ready_count s) > 0" using inv by (simp_all add: start_inv_def)
  then have dec: "unat (create_count s - 1) + 1 = unat (create_count s)" "unat (ready_count s - 1) + 1 = unat (ready_count s)"
    using unat_minus_one [of "create_count s"] unat_minus_one [of "ready_count s"] by (auto simp: unat_gt_0)
  show ?thesis
  proof (rule start_inv_move [OF inv, of _ a StDone])
    assume r: "all_ready (start_goto a StDone (io_context_deinit a s))"
      and "\<exists>b. start_pos (start_goto a StDone (io_context_deinit a s)) b = StSleep"
    then obtain b where "start_pos s b = StSleep" by (auto simp: start_goto_def this_defs io_deinit_defs split: if_splits)
    moreover have "all_ready s" using r by (simp add: all_ready_def start_goto_def this_defs io_deinit_defs)
    ultimately obtain c where "start_pos s c = StNotify" using start_inv_sleeper [OF inv] by metis
    then show "\<exists>b. start_pos (start_goto a StDone (io_context_deinit a s)) b = StNotify"
      using a by (intro exI [of _ c]) (auto simp: start_goto_def this_defs io_deinit_defs)
  qed (use a dec in \<open>simp_all add: start_goto_def this_defs io_deinit_defs\<close>)
qed

lemma notify_count: "P StWoken = P StSleep \<Longrightarrow>
    pc_count P (\<lambda>b. if f b = StSleep then StWoken else f b) = pc_count P f"
  unfolding pc_count_def by (intro arg_cong [where f = card]) auto

lemma notify_ready_inv:
  assumes "start_inv s"
  shows "start_inv (notify_ready s)"
proof -
  note I = assms [unfolded start_inv_def]
  have "pc_finite StNone (start_pos (notify_ready s))"
    using I unfolding pc_finite_def notify_ready_def
    by (auto elim!: finite_subset [rotated] split: if_splits)
  then show ?thesis using I unfolding start_inv_def by (auto simp: notify_ready_def notify_count all_ready_def this_pos)
qed

lemma start_inv_notify:
  assumes inv: "start_inv s" and a: "start_pos s a = StNotify"
  shows "start_inv (start_goto a StRun (notify_ready s))"
proof (rule start_inv_move [OF notify_ready_inv [OF inv], of _ a StRun])
  assume "\<exists>b. start_pos (start_goto a StRun (notify_ready s)) b = StSleep"
  then show "\<exists>b. start_pos (start_goto a StRun (notify_ready s)) b = StNotify"
    by (auto simp: start_goto_def this_defs notify_ready_def split: if_splits)
next
  have "this_bound s a" using inv a unfolding start_inv_def by simp
  then show "this_bound (start_goto a StRun (notify_ready s)) a"
    by (simp add: start_goto_def this_defs notify_ready_def)
qed (use a in \<open>simp_all add: start_goto_def this_defs notify_ready_def\<close>)

lemma start_at_inv:
  assumes inv: "start_inv s" and st: "start_at a (start_pos s a) s = Some s'"
  shows "start_inv s'"
proof (cases "start_pos s a")
  case StCreated
  then show ?thesis using st start_inv_local [OF inv, of StInit a] by simp
next
  case StInit
  have "start_inv (start_goto a StArrive (io_context_init a s))"
  proof (rule start_inv_move [OF inv, of _ a StArrive])
    assume r: "all_ready (start_goto a StArrive (io_context_init a s))"
    then show "\<exists>b. start_pos (start_goto a StArrive (io_context_init a s)) b = StNotify"
      using StInit all_ready_iff [OF inv] by (auto simp: all_ready_def start_goto_def this_defs io_init_defs dest!: spec [of _ a])
  qed (use StInit in \<open>simp_all add: start_goto_def this_defs io_init_defs\<close>)
  then show ?thesis using st StInit by simp
next
  case StArrive
  then show ?thesis using st start_inv_arrive [OF inv StArrive] by (simp add: Let_def)
next
  case StWoken
  then show ?thesis using st start_inv_local [OF inv, of "if all_ready s then StNotify else StSleep" a] by (cases "all_ready s") simp_all
next
  case StExpired
  have "start_inv (s\<lparr>terminated := True\<rparr>)" using inv by (simp add: start_inv_def all_ready_def this_defs)
  then show ?thesis using st StExpired start_inv_local [OF inv, of StNotify a] by (auto split: if_splits)
next
  case StNotify
  then show ?thesis using st start_inv_notify [OF inv StNotify] by simp
next
  case StRun
  then show ?thesis using st start_inv_run [OF inv StRun] by simp
qed (use st in simp_all)

lemma start_reachable_inv: "start_reachable s \<Longrightarrow> start_inv s"
proof (induction rule: start_reachable.induct)
  case start_first
  show ?case by (rule start_none_inv)
next
  case (start_then s s')
  note inv = start_then.IH
  from start_then.hyps(2) show ?case
  proof cases
    case (start_new a)
    then show ?thesis using start_inv_new [OF inv] by simp
  next
    case (start_next a)
    then show ?thesis using start_at_inv [OF inv] by simp
  next
    case (start_spurious a)
    then show ?thesis using start_inv_local [OF inv, of StWoken a] by simp
  next
    case (start_expires a)
    then show ?thesis using start_inv_local [OF inv, of StExpired a] by auto
  qed
qed

section \<open>The barrier\<close>

definition on_the_way :: "start_sys \<Rightarrow> ptr \<Rightarrow> bool" where
  "on_the_way s b \<longleftrightarrow> start_pos s b \<in> {StCreated, StInit, StArrive}"

lemma on_the_way_iff: "on_the_way s b \<longleftrightarrow> ctx_created (start_pos s b) \<and> \<not> ctx_arrived (start_pos s b)"
  by (cases "start_pos s b") (simp_all add: on_the_way_def)

lemma all_ready_way: "start_inv s \<Longrightarrow> all_ready s \<longleftrightarrow> (\<forall>b. \<not> on_the_way s b)"
  using all_ready_iff by (auto simp: on_the_way_iff)

text \<open>The predicate holds when the last one arrives.\<close>

lemma arrive_ready_way:
  assumes inv: "start_inv s" and a: "start_pos s a = StArrive"
    and r: "all_ready (s\<lparr>ready_count := ready_count s + 1\<rparr>)"
  shows "b \<noteq> a \<Longrightarrow> \<not> on_the_way s b"
proof -
  let ?t = "start_goto a StNotify (s\<lparr>ready_count := ready_count s + 1\<rparr>)"
  assume "b \<noteq> a"
  have "start_inv ?t" using start_inv_arrive [OF inv a] r by simp
  moreover have "all_ready ?t" using r by (simp add: all_ready_def start_goto_def)
  ultimately have "\<not> on_the_way ?t b" using all_ready_way by blast
  then show ?thesis using \<open>b \<noteq> a\<close> by (simp add: on_the_way_def start_goto_def)
qed

lemma passes_ready:
  assumes inv: "start_inv s" and st: "start_step s s'" and a: "start_pos s a \<noteq> StNotify" "start_pos s' a = StNotify"
  shows "b \<noteq> a \<Longrightarrow> \<not> on_the_way s b"
  using st
proof cases
  case (start_next c)
  assume b: "b \<noteq> a"
  show ?thesis
  proof (cases "c = a")
    case True
    then show ?thesis using start_next(2) a b arrive_ready_way [OF inv, of a b] all_ready_way [OF inv]
      by (cases "start_pos s a")
         (auto simp: start_goto_def io_init_defs io_deinit_defs notify_ready_def Let_def split: if_splits)
  next
    case False
    then have "start_pos s' a = start_pos s a \<or> start_pos s a = StSleep \<and> start_pos s' a = StWoken"
      using start_next(2) by (cases "start_pos s c")
        (auto simp: start_goto_def io_init_defs io_deinit_defs notify_ready_def Let_def split: if_splits)
    then show ?thesis using a by auto
  qed
qed (use a in \<open>auto simp: start_goto_def io_context_new_def split: if_splits\<close>)

text \<open>C20. The event loops start together: a context goes past the section of \<open>start\<close> only when every
  other context that has been constructed has its ring and has arrived there, on a thread that knows
  it; once all have arrived, whoever still sleeps is going to be notified, and whoever wakes, even too
  late, goes on; the program is terminated only while a context that has been constructed is missing.
  The two counts are the numbers of the contexts that live and of those that have arrived.\<close>

theorem start_barrier:
  assumes "start_reachable s"
  shows "(\<forall>s' a. start_step s s' \<and> start_pos s a \<noteq> StNotify \<and> start_pos s' a = StNotify \<longrightarrow>
      (\<forall>b. b \<noteq> a \<longrightarrow> \<not> on_the_way s b)) \<and>
    ((\<forall>b. \<not> on_the_way s b) \<longrightarrow>
      ((\<exists>a. start_pos s a = StSleep) \<longrightarrow> (\<exists>b. start_pos s b = StNotify)) \<and>
      (\<forall>a. start_pos s a \<in> {StWoken, StExpired} \<longrightarrow> start_at a (start_pos s a) s = Some (start_goto a StNotify s))) \<and>
    (\<forall>s'. start_step s s' \<and> terminated s' \<longrightarrow> (\<exists>b. on_the_way s b)) \<and>
    (\<forall>a. start_pos s a \<in> {StNotify, StRun} \<longrightarrow> this_bound s a) \<and>
    unat (create_count s) = pc_count ctx_created (start_pos s) \<and>
    unat (ready_count s) = pc_count ctx_arrived (start_pos s)"
proof (intro conjI)
  have inv: "start_inv s" by (rule start_reachable_inv [OF assms])
  note I = inv [unfolded start_inv_def]
  show "\<forall>s' a. start_step s s' \<and> start_pos s a \<noteq> StNotify \<and> start_pos s' a = StNotify \<longrightarrow>
      (\<forall>b. b \<noteq> a \<longrightarrow> \<not> on_the_way s b)" using passes_ready [OF inv] by blast
  show "(\<forall>b. \<not> on_the_way s b) \<longrightarrow>
      ((\<exists>a. start_pos s a = StSleep) \<longrightarrow> (\<exists>b. start_pos s b = StNotify)) \<and>
      (\<forall>a. start_pos s a \<in> {StWoken, StExpired} \<longrightarrow> start_at a (start_pos s a) s = Some (start_goto a StNotify s))"
    using I all_ready_way [OF inv] by auto
  show "\<forall>s'. start_step s s' \<and> terminated s' \<longrightarrow> (\<exists>b. on_the_way s b)"
  proof (intro allI impI; elim conjE)
    fix s' assume st: "start_step s s'" and dead: "terminated s'"
    from st obtain a where "\<not> terminated s" "start_at a (start_pos s a) s = Some s'"
      by cases (use dead in \<open>auto simp: io_context_new_def start_goto_def\<close>)
    then have "\<not> all_ready s" using dead by (cases "start_pos s a")
      (auto simp: start_goto_def io_init_defs io_deinit_defs notify_ready_def Let_def split: if_splits)
    then show "\<exists>b. on_the_way s b" using all_ready_way [OF inv] by blast
  qed
  show "\<forall>a. start_pos s a \<in> {StNotify, StRun} \<longrightarrow> this_bound s a"
    using I by auto
  show "unat (create_count s) = pc_count ctx_created (start_pos s)"
    "unat (ready_count s) = pc_count ctx_arrived (start_pos s)" using I by blast+
qed

section \<open>Runs\<close>

text \<open>A run in which the named contexts take a step each; a context that sleeps runs out of time.\<close>

fun start_script :: "ptr list \<Rightarrow> start_sys \<Rightarrow> start_sys option" where
  "start_script [] s = Some s"
| "start_script (a # as) s =
     (if terminated s then None
      else case start_pos s a of
          StNone \<Rightarrow> if a \<noteq> 0 \<and> create_count s \<noteq> - 1 then start_script as (io_context_new a s) else None
        | StSleep \<Rightarrow> start_script as (start_goto a StExpired s)
        | p \<Rightarrow> (case start_at a p s of None \<Rightarrow> None | Some s' \<Rightarrow> start_script as s'))"

lemma start_script_reachable:
  "start_reachable s \<Longrightarrow> start_script as s = Some t \<Longrightarrow> start_reachable t"
proof (induction as arbitrary: s)
  case (Cons a as)
  have next_ok: "start_reachable s'" if "\<not> terminated s" "start_at a (start_pos s a) s = Some s'" for s'
    by (rule start_then [OF Cons.prems(1) start_next [OF that]])
  show ?case
  proof (cases "start_pos s a")
    case StNone
    then have c: "\<not> terminated s" "a \<noteq> 0" "create_count s \<noteq> - 1" "start_script as (io_context_new a s) = Some t"
      using Cons.prems(2) by (auto split: if_splits)
    show ?thesis by (rule Cons.IH [OF start_then [OF Cons.prems(1) start_new [OF c(1) StNone c(2,3)]] c(4)])
  next
    case StSleep
    then have c: "\<not> terminated s" "start_script as (start_goto a StExpired s) = Some t"
      using Cons.prems(2) by (auto split: if_splits)
    have "start_step s (start_goto a StExpired s)" by (rule start_expires) (use c StSleep in auto)
    then show ?thesis by (intro Cons.IH [OF start_then [OF Cons.prems(1)] c(2)])
  qed (use Cons.prems(2) Cons.IH next_ok in \<open>fastforce split: if_splits option.splits\<close>)+
qed simp

text \<open>Two contexts: the first sleeps, the second arrives and is about to notify it.\<close>

theorem start_barrier_witness:
  "\<exists>s. start_reachable s \<and> start_pos s 8 = StSleep \<and> start_pos s 16 = StNotify \<and> (\<forall>b. \<not> on_the_way s b) \<and>
     unat (ready_count s) = pc_count ctx_arrived (start_pos s)"
proof -
  let ?run = "start_script [8, 16, 8, 8, 8, 16, 16, 16] start_none"
  have ex: "?run \<noteq> None" "map_option (\<lambda>s. start_pos s 8) ?run = Some StSleep"
    "map_option (\<lambda>s. start_pos s 16) ?run = Some StNotify" "map_option all_ready ?run = Some True"
    by code_simp+
  then obtain s where s: "?run = Some s" by auto
  have r: "start_reachable s" by (rule start_script_reachable [OF start_first s])
  have "start_pos s 8 = StSleep" "start_pos s 16 = StNotify" "all_ready s" using ex(2-4) unfolding s by simp_all
  moreover have "\<forall>b. \<not> on_the_way s b" using all_ready_way [OF start_reachable_inv [OF r]] \<open>all_ready s\<close> by blast
  ultimately show ?thesis using start_barrier [OF r] r by blast
qed

text \<open>
  A context that is constructed but never started makes those that are started end the program,
  after the second they wait.
\<close>

lemma start_missing_terminates: "\<exists>s. start_reachable s \<and> terminated s \<and> start_pos s 16 = StCreated"
proof -
  let ?run = "start_script [8, 16, 8, 8, 8, 8, 8] start_none"
  have ex: "?run \<noteq> None" "map_option terminated ?run = Some True"
    "map_option (\<lambda>s. start_pos s 16) ?run = Some StCreated" by code_simp+
  then obtain s where s: "?run = Some s" by auto
  then show ?thesis using start_script_reachable [OF start_first s] ex(2,3) unfolding s by auto
qed

text \<open>
  The number of a context is the count at its construction, and the count goes down when one ends:
  two contexts that live can have the same number.
\<close>

lemma context_id_reused:
  "\<exists>s. start_reachable s \<and> start_pos s 16 = StRun \<and> start_pos s 24 = StCreated \<and> context_id s 24 = context_id s 16"
proof -
  let ?run = "start_script [8, 16, 8, 8, 8, 16, 16, 16, 16, 8, 8, 8, 24] start_none"
  have ex: "?run \<noteq> None" "map_option (\<lambda>s. start_pos s 16) ?run = Some StRun"
    "map_option (\<lambda>s. start_pos s 24) ?run = Some StCreated"
    "map_option (\<lambda>s. context_id s 24 = context_id s 16) ?run = Some True" by code_simp+
  then obtain s where s: "?run = Some s" by auto
  then show ?thesis using start_script_reachable [OF start_first s] ex(2-4) unfolding s by auto
qed

end
