(* ===== verification/Spin_Mutex.thy ===== *)
theory Spin_Mutex
  imports Prelude
begin

text \<open>
  The two locks that spin: \<^verbatim>\<open>detail/spinlock.hpp\<close>, which pauses the processor, and
  \<^verbatim>\<open>co/spin_mutex.hpp\<close> with \<^verbatim>\<open>co/spin_mutex.cpp\<close>, which yields to the other coroutines
  of the event loop. They have the same accesses to the flag \<open>occupied\<close>; \<open>lock\<close> of the spin mutex
  is a coroutine, a \<open>trival_task\<close> of \<^verbatim>\<open>detail/trival_task.hpp\<close>, whose frame it needs. Any number
  of threads or coroutines are interleaved between any two accesses. A frame is named by the address
  of the caller, since a caller is in one call at a time.
\<close>

section \<open>The trivial task\<close>

text \<open>The frames that are alive, with the coroutine that awaits each.\<close>

type_synonym trivial_frames = "ptr \<Rightarrow> ptr option option"

definition trivial_new :: "ptr \<Rightarrow> trivial_frames \<Rightarrow> trivial_frames" where
  "trivial_new h fs = fs(h \<mapsto> None)"

text \<open>\<open>await_suspend\<close> of the task stores who awaits and says which coroutine to resume.\<close>

definition trivial_await_suspend :: "ptr \<Rightarrow> ptr \<Rightarrow> trivial_frames \<Rightarrow> trivial_frames \<times> ptr" where
  "trivial_await_suspend h awaiting_coro fs = (fs(h \<mapsto> Some awaiting_coro), h)"

text \<open>The final awaiter reads who awaits, destroys the frame and resumes it.\<close>

definition trivial_final :: "ptr \<Rightarrow> trivial_frames \<Rightarrow> (trivial_frames \<times> ptr option) option" where
  "trivial_final h fs = (case fs h of None \<Rightarrow> None | Some parent \<Rightarrow> Some (fs(h := None), parent))"

section \<open>The locks\<close>

text \<open>
  The position of a caller: nowhere, with a \<open>lock\<close> that it has not awaited, before the exchange,
  before the load, between two loads, in the final awaiter, in the two accesses of \<open>try_lock\<close>, and
  with the lock.
\<close>

datatype spin_pc = SpIdle | SpCreated | SpExchange | SpLoad | SpPause | SpFinal | SpTry | SpTryExchange | SpOwner

record spin_sys =
  occupied :: bool
  spin_pos :: "ptr \<Rightarrow> spin_pc"
  spin_frames :: trivial_frames

definition spin_new :: spin_sys where
  "spin_new = \<lparr>occupied = False, spin_pos = (\<lambda>_. SpIdle), spin_frames = (\<lambda>_. None)\<rparr>"

definition spin_goto :: "ptr \<Rightarrow> spin_pc \<Rightarrow> spin_sys \<Rightarrow> spin_sys" where
  "spin_goto a p s = s\<lparr>spin_pos := (spin_pos s)(a := p)\<rparr>"

text \<open>The call of \<open>lock\<close>; \<open>coro\<close> for the spin mutex, else the spin lock.\<close>

definition spin_call_lock :: "bool \<Rightarrow> ptr \<Rightarrow> spin_sys \<Rightarrow> spin_sys" where
  "spin_call_lock coro a s =
     (if coro then spin_goto a SpCreated (s\<lparr>spin_frames := trivial_new a (spin_frames s)\<rparr>)
      else spin_goto a SpExchange s)"

definition spin_unlock :: "ptr \<Rightarrow> spin_sys \<Rightarrow> spin_sys" where
  "spin_unlock a s = spin_goto a SpIdle (s\<lparr>occupied := False\<rparr>)"

text \<open>The next access of \<open>lock\<close> and of \<open>try_lock\<close>.\<close>

fun spin_at :: "bool \<Rightarrow> ptr \<Rightarrow> spin_pc \<Rightarrow> spin_sys \<Rightarrow> spin_sys option" where
  "spin_at coro a SpCreated s =
     (let (fs, h) = trivial_await_suspend a a (spin_frames s)
      in Some (spin_goto h SpExchange (s\<lparr>spin_frames := fs\<rparr>)))"
| "spin_at coro a SpExchange s =
     Some (spin_goto a (if occupied s then SpLoad else if coro then SpFinal else SpOwner) (s\<lparr>occupied := True\<rparr>))"
| "spin_at coro a SpLoad s = Some (spin_goto a (if occupied s then SpPause else SpExchange) s)"
| "spin_at coro a SpPause s = Some (spin_goto a SpLoad s)"
| "spin_at coro a SpFinal s =
     (case trivial_final a (spin_frames s) of
        Some (fs, Some h) \<Rightarrow> Some (spin_goto h SpOwner (s\<lparr>spin_frames := fs\<rparr>))
      | _ \<Rightarrow> None)"
| "spin_at coro a SpTry s = Some (spin_goto a (if occupied s then SpIdle else SpTryExchange) s)"
| "spin_at coro a SpTryExchange s =
     Some (spin_goto a (if occupied s then SpIdle else SpOwner) (s\<lparr>occupied := True\<rparr>))"
| "spin_at coro a _ s = None"

inductive spin_step :: "bool \<Rightarrow> spin_sys \<Rightarrow> spin_sys \<Rightarrow> bool" for coro :: bool where
  spin_lock: "spin_pos s a = SpIdle \<Longrightarrow> spin_step coro s (spin_call_lock coro a s)"
| spin_try_lock: "spin_pos s a = SpIdle \<Longrightarrow> spin_step coro s (spin_goto a SpTry s)"
| spin_unlocks: "spin_pos s a = SpOwner \<Longrightarrow> spin_step coro s (spin_unlock a s)"
| spin_next: "spin_at coro a (spin_pos s a) s = Some s' \<Longrightarrow> spin_step coro s s'"

inductive spin_reachable :: "bool \<Rightarrow> spin_sys \<Rightarrow> bool" for coro :: bool where
  spin_first: "spin_reachable coro spin_new"
| spin_then: "spin_reachable coro s \<Longrightarrow> spin_step coro s s' \<Longrightarrow> spin_reachable coro s'"

section \<open>The owner\<close>

definition spin_holds :: "spin_pc \<Rightarrow> bool" where
  "spin_holds p \<longleftrightarrow> p \<in> {SpFinal, SpOwner}"

text \<open>The positions inside the coroutine of \<open>lock\<close>.\<close>

definition spin_inside :: "spin_pc \<Rightarrow> bool" where
  "spin_inside p \<longleftrightarrow> p \<in> {SpExchange, SpLoad, SpPause, SpFinal}"

definition frame_of :: "bool \<Rightarrow> ptr \<Rightarrow> spin_pc \<Rightarrow> ptr option option" where
  "frame_of coro a p = (if \<not> coro then None else if p = SpCreated then Some None
     else if spin_inside p then Some (Some a) else None)"

definition spin_inv :: "bool \<Rightarrow> spin_sys \<Rightarrow> bool" where
  "spin_inv coro s \<longleftrightarrow>
     (\<forall>a b. spin_holds (spin_pos s a) \<longrightarrow> spin_holds (spin_pos s b) \<longrightarrow> a = b) \<and>
     (occupied s \<longleftrightarrow> (\<exists>a. spin_holds (spin_pos s a))) \<and>
     (\<forall>a. spin_frames s a = frame_of coro a (spin_pos s a)) \<and>
     (\<forall>a. \<not> coro \<longrightarrow> spin_pos s a \<notin> {SpCreated, SpFinal})"

lemma spin_new_inv: "spin_inv coro spin_new"
  by (simp add: spin_inv_def spin_new_def spin_holds_def frame_of_def spin_inside_def)

text \<open>A step moves one caller: it takes the lock if nobody has it, leaves it, or neither.\<close>

lemma spin_inv_move:
  assumes inv: "spin_inv coro s" and pos: "spin_pos t = (spin_pos s)(a := p)"
    and flag: "occupied t \<longleftrightarrow> (if spin_holds p then True else if spin_holds (spin_pos s a) then False else occupied s)"
    and takes: "spin_holds p \<Longrightarrow> \<not> spin_holds (spin_pos s a) \<Longrightarrow> \<not> occupied s"
    and frames: "spin_frames t = (spin_frames s)(a := frame_of coro a p)"
    and kind: "\<not> coro \<Longrightarrow> p \<notin> {SpCreated, SpFinal}"
  shows "spin_inv coro t"
proof -
  have one: "\<And>b c. spin_holds (spin_pos s b) \<Longrightarrow> spin_holds (spin_pos s c) \<Longrightarrow> b = c"
    and occ: "occupied s \<longleftrightarrow> (\<exists>b. spin_holds (spin_pos s b))"
    and fr: "\<And>b. spin_frames s b = frame_of coro b (spin_pos s b)"
    and kd: "\<And>b. \<not> coro \<Longrightarrow> spin_pos s b \<notin> {SpCreated, SpFinal}" using inv unfolding spin_inv_def by blast+
  have others: "\<not> spin_holds (spin_pos s b)" if "b \<noteq> a" "spin_holds p" for b
    using that takes one [of b a] occ by blast
  have "\<forall>b c. spin_holds (spin_pos t b) \<longrightarrow> spin_holds (spin_pos t c) \<longrightarrow> b = c"
    using one others by (auto simp: pos)
  moreover have "occupied t \<longleftrightarrow> (\<exists>b. spin_holds (spin_pos t b))"
  proof (cases "spin_holds p \<or> spin_holds (spin_pos s a)")
    case True
    then show ?thesis using one unfolding flag pos by (auto split: if_splits)
  next
    case False
    then have "(\<exists>b. spin_holds (((spin_pos s)(a := p)) b)) \<longleftrightarrow> (\<exists>b. spin_holds (spin_pos s b))"
      by (metis fun_upd_apply)
    then show ?thesis using False occ unfolding flag pos by simp
  qed
  moreover have "\<forall>b. spin_frames t b = frame_of coro b (spin_pos t b)" by (auto simp: frames pos fr)
  moreover have "\<forall>b. \<not> coro \<longrightarrow> spin_pos t b \<notin> {SpCreated, SpFinal}" using kd kind by (auto simp: pos)
  ultimately show ?thesis unfolding spin_inv_def by blast
qed

lemmas spin_defs = spin_goto_def spin_holds_def spin_inside_def frame_of_def trivial_await_suspend_def
  trivial_new_def trivial_final_def

lemma spin_at_inv:
  assumes inv: "spin_inv coro s" and st: "spin_at coro a (spin_pos s a) s = Some s'"
  shows "spin_inv coro s'"
proof -
  have fr: "spin_frames s a = frame_of coro a (spin_pos s a)" and kd: "\<not> coro \<Longrightarrow> spin_pos s a \<notin> {SpCreated, SpFinal}"
    using inv unfolding spin_inv_def by blast+
  have upd: "(spin_frames s)(a := x) = spin_frames s" if "spin_frames s a = x" for x using that by auto
  have occ: "spin_holds (spin_pos s a) \<Longrightarrow> occupied s" using inv unfolding spin_inv_def by blast
  note move = spin_inv_move [OF inv, of s' a "spin_pos s' a"]
  show ?thesis
    by (rule move; use st fr kd occ in \<open>cases "spin_pos s a"; auto simp: spin_defs upd split: if_splits option.splits\<close>)
qed

lemma spin_reachable_inv: "spin_reachable coro s \<Longrightarrow> spin_inv coro s"
proof (induction rule: spin_reachable.induct)
  case spin_first
  show ?case by (rule spin_new_inv)
next
  case (spin_then s s')
  note inv = spin_then.IH
  have fr: "spin_frames s a = frame_of coro a (spin_pos s a)" for a using inv unfolding spin_inv_def by blast
  from spin_then.hyps(2) show ?case
  proof cases
    case (spin_lock a)
    have upd: "(spin_frames s)(a := None) = spin_frames s" using fr [of a] spin_lock(2) by (auto simp: spin_defs)
    show ?thesis unfolding spin_lock(1)
      by (rule spin_inv_move [OF inv, of _ a "if coro then SpCreated else SpExchange"])
         (use spin_lock(2) in \<open>auto simp: spin_call_lock_def spin_defs upd split: if_splits\<close>)
  next
    case (spin_try_lock a)
    have upd: "(spin_frames s)(a := None) = spin_frames s" using fr [of a] spin_try_lock(2) by (auto simp: spin_defs)
    show ?thesis unfolding spin_try_lock(1)
      by (rule spin_inv_move [OF inv, of _ a SpTry]) (use spin_try_lock(2) in \<open>simp_all add: spin_defs upd\<close>)
  next
    case (spin_unlocks a)
    have upd: "(spin_frames s)(a := None) = spin_frames s" using fr [of a] spin_unlocks(2) by (auto simp: spin_defs)
    show ?thesis unfolding spin_unlocks(1)
      by (rule spin_inv_move [OF inv, of _ a SpIdle])
         (use spin_unlocks(2) in \<open>simp_all add: spin_unlock_def spin_defs upd\<close>)
  next
    case (spin_next a)
    then show ?thesis by (intro spin_at_inv [OF inv])
  qed
qed

section \<open>Mutual exclusion and progress\<close>

text \<open>A caller that runs alone for a number of steps.\<close>

primrec spin_solo :: "bool \<Rightarrow> ptr \<Rightarrow> nat \<Rightarrow> spin_sys \<Rightarrow> spin_sys" where
  "spin_solo coro a 0 s = s"
| "spin_solo coro a (Suc n) s = (case spin_at coro a (spin_pos s a) s of None \<Rightarrow> s | Some s' \<Rightarrow> spin_solo coro a n s')"

lemma spin_solo_owns:
  assumes inv: "spin_inv coro s" and free: "\<not> occupied s" and a: "spin_pos s a \<in> {SpCreated, SpExchange, SpLoad, SpPause}"
  shows "spin_pos (spin_solo coro a 4 s) a = SpOwner"
proof -
  have "spin_frames s a = frame_of coro a (spin_pos s a)" using inv unfolding spin_inv_def by blast
  then show ?thesis using free a by (auto simp: eval_nat_numeral spin_defs)
qed

text \<open>C35. Each of the two locks that spin excludes: in every interleaving of the atomic accesses of its
  callers (in the order of execution; the memory orders are apart) at most one of them holds the lock, and
  the flag is set exactly while one does. A caller of \<open>lock\<close> that finds the lock free and runs alone holds it
  after at most four steps. A call of \<open>lock\<close> of the spin mutex has a coroutine frame from the call until the
  caller, which awaits it, is resumed with the lock, and none is left behind.\<close>

theorem spin_exclusive:
  assumes "spin_reachable coro s"
  shows "(\<forall>a b. spin_holds (spin_pos s a) \<and> spin_holds (spin_pos s b) \<longrightarrow> a = b) \<and>
    (occupied s \<longleftrightarrow> (\<exists>a. spin_holds (spin_pos s a))) \<and>
    (\<forall>a. \<not> occupied s \<and> spin_pos s a \<in> {SpCreated, SpExchange, SpLoad, SpPause} \<longrightarrow>
       spin_pos (spin_solo coro a 4 s) a = SpOwner) \<and>
    (\<forall>a. spin_frames s a \<noteq> None \<longleftrightarrow> coro \<and> (spin_pos s a = SpCreated \<or> spin_inside (spin_pos s a)))"
proof -
  have inv: "spin_inv coro s" by (rule spin_reachable_inv [OF assms])
  then have "\<forall>a. spin_frames s a = frame_of coro a (spin_pos s a)" unfolding spin_inv_def by blast
  then have "\<forall>a. spin_frames s a \<noteq> None \<longleftrightarrow> coro \<and> (spin_pos s a = SpCreated \<or> spin_inside (spin_pos s a))"
    by (simp add: frame_of_def)
  with inv spin_solo_owns [OF inv] show ?thesis unfolding spin_inv_def by blast
qed

text \<open>A run in which the named callers take a step each; a caller that is nowhere calls \<open>lock\<close>.\<close>

fun spin_script :: "bool \<Rightarrow> ptr list \<Rightarrow> spin_sys \<Rightarrow> spin_sys option" where
  "spin_script coro [] s = Some s"
| "spin_script coro (a # as) s = (case spin_pos s a of
       SpIdle \<Rightarrow> spin_script coro as (spin_call_lock coro a s)
     | SpOwner \<Rightarrow> spin_script coro as (spin_unlock a s)
     | p \<Rightarrow> (case spin_at coro a p s of None \<Rightarrow> None | Some s' \<Rightarrow> spin_script coro as s'))"

lemma spin_script_reachable:
  "spin_reachable coro s \<Longrightarrow> spin_script coro as s = Some t \<Longrightarrow> spin_reachable coro t"
proof (induction as arbitrary: s)
  case (Cons a as)
  have next_ok: "spin_reachable coro s'" if "spin_at coro a (spin_pos s a) s = Some s'" for s'
    by (rule spin_then [OF Cons.prems(1) spin_next [OF that]])
  show ?case
  proof (cases "spin_pos s a")
    case SpIdle
    then have "spin_script coro as (spin_call_lock coro a s) = Some t" using Cons.prems(2) by simp
    then show ?thesis by (rule Cons.IH [OF spin_then [OF Cons.prems(1) spin_lock [OF SpIdle]]])
  next
    case SpOwner
    then have "spin_script coro as (spin_unlock a s) = Some t" using Cons.prems(2) by simp
    then show ?thesis by (rule Cons.IH [OF spin_then [OF Cons.prems(1) spin_unlocks [OF SpOwner]]])
  qed (use Cons.prems(2) Cons.IH next_ok in \<open>fastforce split: option.splits\<close>)+
qed simp

text \<open>One coroutine has had the spin mutex and unlocked it while a second waited.\<close>

theorem spin_exclusive_witness:
  "\<exists>s. spin_reachable True s \<and> spin_pos s 16 = SpLoad \<and> \<not> occupied s \<and> spin_pos (spin_solo True 16 4 s) 16 = SpOwner"
proof -
  let ?run = "spin_script True [8, 8, 16, 16, 8, 8, 16, 8] spin_new"
  have ex: "?run \<noteq> None" "map_option (\<lambda>s. spin_pos s 16) ?run = Some SpLoad" "map_option occupied ?run = Some False"
    by code_simp+
  then obtain s where s: "?run = Some s" by auto
  have r: "spin_reachable True s" by (rule spin_script_reachable [OF spin_first s])
  have "spin_pos s 16 = SpLoad" "\<not> occupied s" using ex(2,3) unfolding s by simp_all
  then show ?thesis using spin_exclusive [OF r] r by blast
qed

text \<open>A \<open>lock\<close> of the spin mutex that is never awaited keeps its frame: the task has no destructor.\<close>

lemma spin_lock_not_awaited: "spin_frames (spin_call_lock True a s) a = Some None"
  by (simp add: spin_call_lock_def spin_goto_def trivial_new_def)

end
