(* ===== verification/Inet_Address.thy ===== *)
theory Inet_Address
  imports Prelude
begin

text \<open>
  Internet addresses: \<^verbatim>\<open>net/inet_address.hpp\<close> and \<^verbatim>\<open>net/inet_address.cpp\<close>. The address is
  a union of a \<open>sockaddr_in\<close> and a \<open>sockaddr_in6\<close>; the record has the bytes of both, those that they
  share once, on a host that is little-endian. A constructor runs on memory that holds anything, its
  last argument. \<open>inet_pton\<close>, \<open>inet_ntop\<close> and \<open>getaddrinfo\<close> are parameters.
\<close>

section \<open>State\<close>

text \<open>
  The family and the port (in network order) are at the same place in both; \<open>sin_word\<close> is the address
  of a \<open>sockaddr_in\<close> and the flow information of a \<open>sockaddr_in6\<close>, whose address begins where the
  padding of the other begins.
\<close>

record inet_address =
  sin_family :: u16
  sin_port :: u16
  sin_word :: "u8 list"
  sin6_bytes :: "u8 list"
  sin6_scope :: u32

definition AF_UNSPEC :: u16 where "AF_UNSPEC = 0"
definition AF_INET :: u16 where "AF_INET = 2"
definition AF_INET6 :: u16 where "AF_INET6 = 10"

definition htons :: "u16 \<Rightarrow> u16" where
  "htons x = or (push_bit 8 x) (drop_bit 8 x)"

definition inet_port :: "inet_address \<Rightarrow> u16" where
  "inet_port a = htons (sin_port a)"

definition reset_port :: "u16 \<Rightarrow> inet_address \<Rightarrow> inet_address" where
  "reset_port p a = a\<lparr>sin_port := htons p\<rparr>"

definition inet_length :: "inet_address \<Rightarrow> nat" where
  "inet_length a = (if sin_family a = AF_INET6 then 28 else 16)"

section \<open>Constructors\<close>

definition inet_default :: "inet_address \<Rightarrow> inet_address" where
  "inet_default m = m\<lparr>sin_family := AF_UNSPEC\<rparr>"

definition inet_of_ip ::
    "(string \<Rightarrow> u8 list option) \<Rightarrow> (string \<Rightarrow> u8 list option) \<Rightarrow> string \<Rightarrow> u16 \<Rightarrow> inet_address \<Rightarrow>
     inet_address result" where
  "inet_of_ip pton4 pton6 ip port m =
     (let m = reset_port port m
      in if CHR '':'' \<notin> set ip
         then (case pton4 ip of None \<Rightarrow> Inl AssertFail
            | Some b \<Rightarrow> Inr (m\<lparr>sin_word := b, sin_family := AF_INET\<rparr>))
         else (case pton6 ip of None \<Rightarrow> Inl AssertFail
            | Some b \<Rightarrow> Inr (m\<lparr>sin6_bytes := b, sin_family := AF_INET6\<rparr>)))"

text \<open>\<open>memset\<close> of a \<open>sockaddr_in6\<close> and of the shorter \<open>sockaddr_in\<close>.\<close>

definition zero_sin6 :: "inet_address \<Rightarrow> inet_address" where
  "zero_sin6 m = \<lparr>sin_family = 0, sin_port = 0, sin_word = replicate 4 0, sin6_bytes = replicate 16 0, sin6_scope = 0\<rparr>"

definition zero_sin :: "inet_address \<Rightarrow> inet_address" where
  "zero_sin m = m\<lparr>sin_family := 0, sin_port := 0, sin_word := replicate 4 0,
     sin6_bytes := replicate 8 0 @ drop 8 (sin6_bytes m)\<rparr>"

definition inet_listen :: "bool \<Rightarrow> u16 \<Rightarrow> bool \<Rightarrow> inet_address \<Rightarrow> inet_address" where
  "inet_listen is_loopback_only port is_ipv6 m =
     (if is_ipv6
      then (zero_sin6 m)\<lparr>sin_family := AF_INET6,
             sin6_bytes := (if is_loopback_only then replicate 15 0 @ [1] else replicate 16 0), sin_port := htons port\<rparr>
      else (zero_sin m)\<lparr>sin_family := AF_INET,
             sin_word := (if is_loopback_only then [127, 0, 0, 1] else [0, 0, 0, 0]), sin_port := htons port\<rparr>)"

text \<open>The copy of a \<open>sockaddr\<close>, which for \<open>AF_INET\<close> has the first 16 bytes only.\<close>

definition inet_of_sockaddr :: "inet_address \<Rightarrow> inet_address \<Rightarrow> inet_address result" where
  "inet_of_sockaddr saddr m =
     (if sin_family saddr = AF_INET
      then Inr (saddr\<lparr>sin6_bytes := take 8 (sin6_bytes saddr) @ drop 8 (sin6_bytes m), sin6_scope := sin6_scope m\<rparr>)
      else if sin_family saddr = AF_INET6 then Inr saddr
      else Inl AssertFail)"

section \<open>Text\<close>

definition to_ip :: "(u8 list \<Rightarrow> string) \<Rightarrow> (u8 list \<Rightarrow> string) \<Rightarrow> inet_address \<Rightarrow> string" where
  "to_ip ntop4 ntop6 a = (if sin_family a = AF_INET then ntop4 (sin_word a) else ntop6 (sin6_bytes a))"

text \<open>\<open>%u\<close> of \<open>snprintf\<close>, which leaves room for the final zero in a buffer of 32 bytes.\<close>

fun decimal :: "nat \<Rightarrow> string" where
  "decimal n = (if n < 10 then [char_of (48 + n)] else decimal (n div 10) @ [char_of (48 + n mod 10)])"

declare decimal.simps [simp del]

definition port_text :: "u16 \<Rightarrow> string" where
  "port_text p = take 31 (CHR '':'' # decimal (unat p))"

definition to_ip_port :: "(u8 list \<Rightarrow> string) \<Rightarrow> (u8 list \<Rightarrow> string) \<Rightarrow> inet_address \<Rightarrow> string" where
  "to_ip_port ntop4 ntop6 a =
     (if sin_family a = AF_INET6 then ''['' @ to_ip ntop4 ntop6 a @ '']'' @ port_text (inet_port a)
      else to_ip ntop4 ntop6 a @ port_text (inet_port a))"

section \<open>Equality\<close>

definition inet_eq :: "inet_address \<Rightarrow> inet_address \<Rightarrow> bool" where
  "inet_eq a b \<longleftrightarrow>
     (if sin_family a \<noteq> sin_family b then False
      else if sin_family a = AF_INET then sin_port a = sin_port b \<and> sin_word a = sin_word b
      else sin_port a = sin_port b \<and> sin6_bytes a = sin6_bytes b)"

section \<open>Name resolution\<close>

text \<open>
  \<open>getaddrinfo\<close> fails or returns a list of addresses. Each new element of the vector is on memory
  that holds anything, here the bytes \<open>junk\<close>.
\<close>

fun resolve_loop :: "u16 \<Rightarrow> inet_address \<Rightarrow> inet_address list \<Rightarrow> inet_address list \<Rightarrow> inet_address list result" where
  "resolve_loop port junk [] ret = Inr ret"
| "resolve_loop port junk (i # is) ret = (case inet_of_sockaddr i junk of
       Inl e \<Rightarrow> Inl e
     | Inr a \<Rightarrow> resolve_loop port junk is (ret @ [reset_port port a]))"

definition resolve_all ::
    "(string \<Rightarrow> inet_address list option) \<Rightarrow> string \<Rightarrow> u16 \<Rightarrow> inet_address \<Rightarrow> inet_address list result" where
  "resolve_all getaddrinfo hostname port junk = (case getaddrinfo hostname of
       None \<Rightarrow> Inr []
     | Some result \<Rightarrow> resolve_loop port junk result [])"

definition resolve ::
    "(string \<Rightarrow> inet_address list option) \<Rightarrow> string \<Rightarrow> u16 \<Rightarrow> inet_address \<Rightarrow> inet_address \<Rightarrow>
     (bool \<times> inet_address) result" where
  "resolve getaddrinfo hostname port junk out = (case resolve_all getaddrinfo hostname port junk of
       Inl e \<Rightarrow> Inl e
     | Inr addrs \<Rightarrow> Inr (if addrs = [] then (False, out) else (True, last addrs)))"

section \<open>Ports\<close>

lemma htons_htons [simp]: "htons (htons x) = x"
  by (rule bit_word_eqI) (auto simp: htons_def bit_simps)

lemma inet_port_reset [simp]: "inet_port (reset_port p a) = p"
  by (simp add: inet_port_def reset_port_def)

lemma length_decimal: "n < 10 ^ Suc k \<Longrightarrow> length (decimal n) \<le> Suc k"
proof (induction k arbitrary: n)
  case 0
  then show ?case by (simp add: decimal.simps [of n])
next
  case (Suc k)
  have "n div 10 < 10 ^ Suc k" using Suc.prems by (simp add: less_mult_imp_div_less)
  then show ?case using Suc.IH [of "n div 10"] by (simp add: decimal.simps [of n])
qed

text \<open>The text of a port is never cut off.\<close>

lemma port_text_whole: "port_text p = CHR '':'' # decimal (unat p)"
proof -
  have "unat p < 10 ^ Suc 4" using unsigned_less [of p, where 'a = nat] by simp
  from length_decimal [OF this] show ?thesis by (simp add: port_text_def)
qed

text \<open>Reading a number back.\<close>

definition read_decimal :: "string \<Rightarrow> nat" where
  "read_decimal cs = foldl (\<lambda>n c. 10 * n + (of_char c - 48)) 0 cs"

lemma read_decimal_snoc: "read_decimal (cs @ [c]) = 10 * read_decimal cs + (of_char c - 48)"
  by (simp add: read_decimal_def)

lemma of_digit: "d < 10 \<Longrightarrow> (of_char (char_of (48 + d) :: char) :: nat) = 48 + d"
  by (simp add: of_char_of)

lemma read_decimal_decimal: "read_decimal (decimal n) = n"
proof (induction n rule: decimal.induct)
  case (1 n)
  show ?case
  proof (cases "n < 10")
    case True
    then have "decimal n = [] @ [char_of (48 + n)]" by (simp add: decimal.simps)
    then show ?thesis using of_digit [OF True] by (simp only: read_decimal_snoc) (simp add: read_decimal_def)
  next
    case False
    then have "decimal n = decimal (n div 10) @ [char_of (48 + n mod 10)]" by (simp add: decimal.simps)
    then show ?thesis using 1 [OF False] of_digit [of "n mod 10"] by (simp add: read_decimal_snoc)
  qed
qed

section \<open>Addresses that are equal\<close>

definition inet_valid :: "inet_address \<Rightarrow> bool" where
  "inet_valid a \<longleftrightarrow> sin_family a \<in> {AF_INET, AF_INET6} \<and> length (sin_word a) = 4 \<and> length (sin6_bytes a) = 16"

lemmas af_defs = AF_UNSPEC_def AF_INET_def AF_INET6_def

lemma inet_eq_equiv:
  "inet_eq a a" "inet_eq a b \<Longrightarrow> inet_eq b a" "inet_eq a b \<Longrightarrow> inet_eq b c \<Longrightarrow> inet_eq a c"
  by (auto simp: inet_eq_def split: if_splits)

lemma inet_of_sockaddr_eq: "inet_of_sockaddr s m = Inr a \<Longrightarrow> inet_eq a s \<and> sin_family a \<in> {AF_INET, AF_INET6}"
  by (auto simp: inet_of_sockaddr_def inet_eq_def split: if_splits)

lemma reset_port_eq: "inet_eq a b \<Longrightarrow> inet_eq (reset_port p a) (reset_port p b)"
  by (auto simp: inet_eq_def reset_port_def split: if_splits)

text \<open>
  What \<open>inet_pton\<close> and \<open>inet_ntop\<close> promise of each other: the text of an address is read as that
  address, and only the text of an IPv6 address has a colon.
\<close>

definition text_format ::
    "(string \<Rightarrow> u8 list option) \<Rightarrow> (string \<Rightarrow> u8 list option) \<Rightarrow> (u8 list \<Rightarrow> string) \<Rightarrow> (u8 list \<Rightarrow> string) \<Rightarrow> bool" where
  "text_format pton4 pton6 ntop4 ntop6 \<longleftrightarrow>
     (\<forall>b. length b = 4 \<longrightarrow> pton4 (ntop4 b) = Some b \<and> CHR '':'' \<notin> set (ntop4 b)) \<and>
     (\<forall>b. length b = 16 \<longrightarrow> pton6 (ntop6 b) = Some b \<and> CHR '':'' \<in> set (ntop6 b))"

text \<open>C36. An address can be written as text and read back: the constructor from the text of its IP and
  its port, on any memory, gives an equal address of the same family and length with the same port,
  whatever the other bytes of the union are; and \<open>to_ip_port\<close> ends with the port in decimal.\<close>

theorem inet_roundtrip:
  assumes "text_format pton4 pton6 ntop4 ntop6" and "inet_valid a"
  shows "(\<exists>a'. inet_of_ip pton4 pton6 (to_ip ntop4 ntop6 a) (inet_port a) m = Inr a' \<and> inet_eq a' a \<and>
      sin_family a' = sin_family a \<and> inet_length a' = inet_length a \<and> inet_port a' = inet_port a) \<and>
    (\<exists>host ds. to_ip_port ntop4 ntop6 a = host @ '':'' @ ds \<and> read_decimal ds = unat (inet_port a) \<and>
      (host = to_ip ntop4 ntop6 a \<or> host = ''['' @ to_ip ntop4 ntop6 a @ '']''))"
proof
  have v: "sin_family a = AF_INET \<or> sin_family a = AF_INET6" "length (sin_word a) = 4" "length (sin6_bytes a) = 16"
    using assms(2) by (auto simp: inet_valid_def)
  from v(1) show "\<exists>a'. inet_of_ip pton4 pton6 (to_ip ntop4 ntop6 a) (inet_port a) m = Inr a' \<and> inet_eq a' a \<and>
      sin_family a' = sin_family a \<and> inet_length a' = inet_length a \<and> inet_port a' = inet_port a"
  proof
    assume f: "sin_family a = AF_INET"
    have "pton4 (ntop4 (sin_word a)) = Some (sin_word a)" "CHR '':'' \<notin> set (ntop4 (sin_word a))"
      using assms(1) v(2) unfolding text_format_def by blast+
    then show ?thesis using f by (auto simp: inet_of_ip_def to_ip_def inet_eq_def inet_port_def reset_port_def inet_length_def)
  next
    assume f: "sin_family a = AF_INET6"
    have "pton6 (ntop6 (sin6_bytes a)) = Some (sin6_bytes a)" "CHR '':'' \<in> set (ntop6 (sin6_bytes a))"
      using assms(1) v(3) unfolding text_format_def by blast+
    then show ?thesis using f
      by (auto simp: inet_of_ip_def to_ip_def inet_eq_def inet_port_def reset_port_def inet_length_def af_defs)
  qed
  show "\<exists>host ds. to_ip_port ntop4 ntop6 a = host @ '':'' @ ds \<and> read_decimal ds = unat (inet_port a) \<and>
      (host = to_ip ntop4 ntop6 a \<or> host = ''['' @ to_ip ntop4 ntop6 a @ '']'')"
    by (intro exI [of _ "if sin_family a = AF_INET6 then ''['' @ to_ip ntop4 ntop6 a @ '']'' else to_ip ntop4 ntop6 a"]
        exI [of _ "decimal (unat (inet_port a))"])
      (simp add: to_ip_port_def port_text_whole read_decimal_decimal)
qed

text \<open>A format of two letters per byte, with a colon in front of an IPv6 address.\<close>

definition byte_text :: "u8 list \<Rightarrow> string" where
  "byte_text b = concat (map (\<lambda>x. [char_of (97 + unat x div 16), char_of (97 + unat x mod 16)]) b)"

fun text_bytes :: "string \<Rightarrow> u8 list" where
  "text_bytes (c # d # cs) = of_nat (16 * (of_char c - 97) + (of_char d - 97)) # text_bytes cs"
| "text_bytes _ = []"

lemma of_letter: "d < 16 \<Longrightarrow> (of_char (char_of (97 + d) :: char) :: nat) = 97 + d"
  by (simp add: of_char_of)

lemma text_bytes_text: "text_bytes (byte_text b) = b"
proof (induction b)
  case (Cons x b)
  have "unat x div 16 < 16" using unsigned_less [of x, where 'a = nat] by (simp add: less_mult_imp_div_less)
  then show ?case using Cons of_letter [of "unat x div 16"] of_letter [of "unat x mod 16"]
    by (simp add: byte_text_def)
qed (simp add: byte_text_def)

lemma byte_text_letters: "CHR '':'' \<notin> set (byte_text b)"
proof -
  have "CHR '':'' \<noteq> char_of (97 + d)" if "d < 16" for d :: nat
  proof
    assume "CHR '':'' = char_of (97 + d)"
    then have "of_char (CHR '':'') = 97 + d" using of_letter [OF that] by simp
    then show False by simp
  qed
  moreover have "unat x div 16 < 16" for x :: u8
    using unsigned_less [of x, where 'a = nat] by (simp add: less_mult_imp_div_less)
  ultimately show ?thesis by (auto simp: byte_text_def)
qed

definition letter_pton6 :: "string \<Rightarrow> u8 list option" where
  "letter_pton6 cs = (if cs = [] then None else Some (text_bytes (tl cs)))"

lemma letter_format:
  "text_format (\<lambda>cs. Some (text_bytes cs)) letter_pton6 byte_text (\<lambda>b. CHR '':'' # byte_text b)"
  unfolding text_format_def using text_bytes_text byte_text_letters by (simp add: letter_pton6_def)

definition inet_example :: inet_address where
  "inet_example = inet_listen True 8080 False
     \<lparr>sin_family = 7, sin_port = 7, sin_word = replicate 4 7, sin6_bytes = replicate 16 7, sin6_scope = 7\<rparr>"

theorem inet_roundtrip_witness:
  "\<exists>a'. inet_of_ip (\<lambda>cs. Some (text_bytes cs)) letter_pton6
       (to_ip byte_text (\<lambda>b. CHR '':'' # byte_text b) inet_example) (inet_port inet_example) inet_example = Inr a' \<and>
     inet_eq a' inet_example"
proof -
  have "inet_valid inet_example"
    by (simp add: inet_valid_def inet_example_def inet_listen_def zero_sin_def af_defs)
  from inet_roundtrip [OF letter_format this, of inet_example] show ?thesis by blast
qed

section \<open>Resolved addresses\<close>

lemma resolve_loop_spec:
  "resolve_loop port junk is ret = Inr ret' \<Longrightarrow>
     \<exists>as. ret' = ret @ as \<and> list_all2 (\<lambda>a i. inet_eq a (reset_port port i) \<and> inet_port a = port) as is"
proof (induction "is" arbitrary: ret)
  case (Cons i "is")
  then obtain a where a: "inet_of_sockaddr i junk = Inr a" "resolve_loop port junk is (ret @ [reset_port port a]) = Inr ret'"
    by (auto split: sum.splits)
  from Cons.IH [OF a(2)] obtain as where
    as: "ret' = (ret @ [reset_port port a]) @ as" "list_all2 (\<lambda>a i. inet_eq a (reset_port port i) \<and> inet_port a = port) as is"
    by blast
  then show ?case using inet_of_sockaddr_eq [OF a(1)] reset_port_eq by (intro exI [of _ "reset_port port a # as"]) auto
qed simp

text \<open>
  \<open>resolve\<close> leaves its argument alone when there is no address, and else stores the last one that
  \<open>getaddrinfo\<close> lists, with the port that was asked for.
\<close>

lemma resolve_spec:
  assumes "resolve g hostname port junk out = Inr (found, a)"
  shows "(\<not> found \<and> a = out \<and> (g hostname = None \<or> g hostname = Some [])) \<or>
    (\<exists>as. found \<and> g hostname = Some as \<and> as \<noteq> [] \<and> inet_eq a (reset_port port (last as)) \<and> inet_port a = port)"
proof (cases "g hostname")
  case None
  then show ?thesis using assms by (simp add: resolve_def resolve_all_def)
next
  case (Some as)
  then obtain ret where ret: "resolve_loop port junk as [] = Inr ret"
      "(found, a) = (if ret = [] then (False, out) else (True, last ret))"
    using assms by (auto simp: resolve_def resolve_all_def split: sum.splits)
  from resolve_loop_spec [OF ret(1)] have l: "list_all2 (\<lambda>a i. inet_eq a (reset_port port i) \<and> inet_port a = port) ret as"
    by simp
  show ?thesis
  proof (cases "ret = []")
    case True
    then show ?thesis using ret(2) l Some by simp
  next
    case False
    then have "as \<noteq> []" using l by auto
    with False l have "inet_eq (last ret) (reset_port port (last as)) \<and> inet_port (last ret) = port"
      by (auto simp: list_all2_conv_all_nth last_conv_nth)
    then show ?thesis using ret(2) False \<open>as \<noteq> []\<close> Some by simp
  qed
qed

text \<open>An address of another family ends the program, or is copied from what the memory held before.\<close>

lemma resolve_other_family:
  assumes "g hostname = Some (i # is)" and "sin_family i \<notin> {AF_INET, AF_INET6}"
  shows "resolve g hostname port junk out = Inl AssertFail"
  using assms by (simp add: resolve_def resolve_all_def inet_of_sockaddr_def)

end
