(* ===== verification/Socket.thy ===== *)
theory Socket
  imports Inet_Address Lazy_Api
begin

text \<open>
  Sockets and acceptors: \<^verbatim>\<open>net/socket.hpp\<close>, \<^verbatim>\<open>net/socket.cpp\<close> and \<^verbatim>\<open>net/acceptor.hpp\<close>. The
  system calls that are made at once are recorded in the order in which they are made, and their
  results are parameters; the operations that are awaited are those of \<open>Lazy_Api\<close>.
\<close>

section \<open>State\<close>

record socket =
  sockfd :: "32 word"

definition no_socket :: "32 word" where "no_socket = - 1"

definition SOCK_STREAM :: u32 where "SOCK_STREAM = 1"
definition SOCK_DGRAM :: u32 where "SOCK_DGRAM = 2"
definition SOCK_CLOEXEC :: u32 where "SOCK_CLOEXEC = 0x80000"
definition IPPROTO_TCP :: u32 where "IPPROTO_TCP = 6"
definition IPPROTO_UDP :: u32 where "IPPROTO_UDP = 17"
definition SOL_SOCKET :: u32 where "SOL_SOCKET = 1"
definition SO_REUSEADDR :: u32 where "SO_REUSEADDR = 2"
definition TCP_NODELAY :: u32 where "TCP_NODELAY = 1"
definition SOMAXCONN :: u32 where "SOMAXCONN = 4096"
definition SHUT_WR :: "32 word" where "SHUT_WR = 1"

datatype net_call =
    SysSocket u16 u32 u32
  | SysSetsockopt "32 word" u32 u32 u32
  | SysBind "32 word" inet_address nat
  | SysListen "32 word" u32

text \<open>The results of the calls, and the calls so far.\<close>

record net_env =
  net_result :: "net_call \<Rightarrow> 32 word"
  net_log :: "net_call list"

definition net_do :: "net_call \<Rightarrow> net_env \<Rightarrow> 32 word \<times> net_env" where
  "net_do c e = (net_result e c, e\<lparr>net_log := net_log e @ [c]\<rparr>)"

section \<open>Sockets\<close>

definition socket_new :: "32 word \<Rightarrow> socket result" where
  "socket_new fd = (if 0 \<le> sint fd then Inr \<lparr>sockfd = fd\<rparr> else Inl AssertFail)"

definition socket_move :: "socket \<Rightarrow> socket \<times> socket" where
  "socket_move other = (\<lparr>sockfd = sockfd other\<rparr>, other\<lparr>sockfd := no_socket\<rparr>)"

text \<open>The assignment to another socket; the addresses of the two differ, as the code asserts.\<close>

definition socket_move_assign :: "socket \<Rightarrow> socket \<Rightarrow> socket \<times> socket" where
  "socket_move_assign this other = (this\<lparr>sockfd := sockfd other\<rparr>, other\<lparr>sockfd := no_socket\<rparr>)"

definition socket_swap :: "socket \<Rightarrow> socket \<Rightarrow> socket \<times> socket" where
  "socket_swap this other = (this\<lparr>sockfd := sockfd other\<rparr>, other\<lparr>sockfd := sockfd this\<rparr>)"

text \<open>\<open>close\<close> gives the descriptor away to the operation that closes it.\<close>

definition socket_close :: "socket \<Rightarrow> 32 word \<times> socket" where
  "socket_close s = (sockfd s, s\<lparr>sockfd := no_socket\<rparr>)"

definition socket_create :: "u32 \<Rightarrow> u32 \<Rightarrow> u16 \<Rightarrow> net_env \<Rightarrow> (socket \<times> net_env) result" where
  "socket_create type protocol family e =
     (let (fd, e) = net_do (SysSocket family (or type SOCK_CLOEXEC) protocol) e
      in if 0 \<le> sint fd then map_sum id (\<lambda>s. (s, e)) (socket_new fd) else Inl AssertFail)"

definition create_tcp :: "u16 \<Rightarrow> net_env \<Rightarrow> (socket \<times> net_env) result" where
  "create_tcp = socket_create SOCK_STREAM IPPROTO_TCP"

definition create_udp :: "u16 \<Rightarrow> net_env \<Rightarrow> (socket \<times> net_env) result" where
  "create_udp = socket_create SOCK_DGRAM IPPROTO_UDP"

text \<open>\<open>bind\<close> and \<open>listen\<close> abort when the call fails; the options are set or not.\<close>

definition socket_bind :: "inet_address \<Rightarrow> socket \<Rightarrow> net_env \<Rightarrow> (socket \<times> net_env) result" where
  "socket_bind addr s e =
     (let (res, e) = net_do (SysBind (sockfd s) addr (inet_length addr)) e
      in if res \<noteq> 0 then Inl Terminate else Inr (s, e))"

definition socket_listen :: "socket \<Rightarrow> net_env \<Rightarrow> (socket \<times> net_env) result" where
  "socket_listen s e =
     (let (res, e) = net_do (SysListen (sockfd s) SOMAXCONN) e
      in if res \<noteq> 0 then Inl Terminate else Inr (s, e))"

definition set_reuse_addr :: "bool \<Rightarrow> socket \<Rightarrow> net_env \<Rightarrow> socket \<times> net_env" where
  "set_reuse_addr on s e = (s, snd (net_do (SysSetsockopt (sockfd s) SOL_SOCKET SO_REUSEADDR (of_bool on)) e))"

definition set_tcp_no_delay :: "bool \<Rightarrow> socket \<Rightarrow> net_env \<Rightarrow> socket \<times> net_env" where
  "set_tcp_no_delay on s e = (s, snd (net_do (SysSetsockopt (sockfd s) IPPROTO_TCP TCP_NODELAY (of_bool on)) e))"

text \<open>The addresses of the two ends, from what the system call left in the buffer.\<close>

definition get_local_addr :: "(32 word \<Rightarrow> inet_address) \<Rightarrow> socket \<Rightarrow> inet_address \<Rightarrow> inet_address result" where
  "get_local_addr getsockname s m = inet_of_sockaddr (getsockname (sockfd s)) m"

definition get_peer_addr :: "(32 word \<Rightarrow> inet_address) \<Rightarrow> socket \<Rightarrow> inet_address \<Rightarrow> inet_address result" where
  "get_peer_addr getpeername s m = inet_of_sockaddr (getpeername (sockfd s)) m"

section \<open>Operations that are awaited\<close>

definition socket_connect where
  "socket_connect P p s saddr addr = api_connect P p (sockfd s) saddr (of_nat (inet_length addr))"

definition socket_recv where
  "socket_recv P p s buf n flags = api_recv P p (sockfd s) buf n (Some (default_arg 0 flags))"

definition socket_send where
  "socket_send P p s buf n flags = api_send P p (sockfd s) buf n (Some (default_arg 0 flags))"

definition socket_await_close where
  "socket_await_close P p s = (api_close P p (fst (socket_close s)), snd (socket_close s))"

definition socket_shutdown_write where
  "socket_shutdown_write P p s = api_shutdown P p (sockfd s) SHUT_WR"

section \<open>Acceptors\<close>

record acceptor =
  listen_socket :: socket

definition acceptor_new :: "inet_address \<Rightarrow> net_env \<Rightarrow> (acceptor \<times> net_env) result" where
  "acceptor_new addr e = (case create_tcp (sin_family addr) e of
       Inl x \<Rightarrow> Inl x
     | Inr (s, e) \<Rightarrow>
         (case socket_bind addr (fst (set_reuse_addr True s e)) (snd (set_reuse_addr True s e)) of
            Inl x \<Rightarrow> Inl x
          | Inr (s, e) \<Rightarrow> map_sum id (\<lambda>(s, e). (\<lparr>listen_socket = s\<rparr>, e)) (socket_listen s e)))"

definition acceptor_accept where
  "acceptor_accept P p a flags = api_accept P p (sockfd (listen_socket a)) 0 0 (default_arg 0 flags)"

text \<open>The calls that an acceptor makes, in this order, and no other.\<close>

lemma acceptor_listens:
  assumes "acceptor_new addr e = Inr (a, e')"
  shows "let fd = sockfd (listen_socket a) in 0 \<le> sint fd \<and>
    net_log e' = net_log e @ [SysSocket (sin_family addr) (or SOCK_STREAM SOCK_CLOEXEC) IPPROTO_TCP,
      SysSetsockopt fd SOL_SOCKET SO_REUSEADDR 1, SysBind fd addr (inet_length addr), SysListen fd SOMAXCONN] \<and>
    net_result e (SysBind fd addr (inet_length addr)) = 0 \<and> net_result e (SysListen fd SOMAXCONN) = 0"
  using assms
  by (auto simp: acceptor_new_def create_tcp_def socket_create_def socket_new_def socket_bind_def socket_listen_def
      set_reuse_addr_def net_do_def Let_def split: if_splits)

section \<open>Who closes a descriptor\<close>

text \<open>
  A program with sockets at numbered places. The kernel gives out descriptors that are not open;
  \<open>closes\<close> records the descriptors that \<open>close\<close> gave to an operation, each with whether it was open.
\<close>

datatype socket_op =
    SockCreate nat "32 word"
  | SockMove nat nat
  | SockMoveAssign nat nat
  | SockSwap nat nat
  | SockClose nat
  | SockDestroy nat

record socket_objs =
  sock_objs :: "nat \<Rightarrow> socket option"
  sock_open :: "32 word set"
  sock_closes :: "(32 word \<times> bool) list"

definition no_sockets :: socket_objs where
  "no_sockets = \<lparr>sock_objs = (\<lambda>_. None), sock_open = {}, sock_closes = []\<rparr>"

fun socket_exec :: "socket_op \<Rightarrow> socket_objs \<Rightarrow> socket_objs option" where
  "socket_exec (SockCreate i fd) s =
     (if sock_objs s i \<noteq> None \<or> fd \<in> sock_open s then None
      else case socket_new fd of Inl _ \<Rightarrow> None
        | Inr x \<Rightarrow> Some (s\<lparr>sock_objs := (sock_objs s)(i \<mapsto> x), sock_open := insert fd (sock_open s)\<rparr>))"
| "socket_exec (SockMove i j) s =
     (case (sock_objs s i, sock_objs s j) of
        (None, Some y) \<Rightarrow> (let (x, y) = socket_move y in Some (s\<lparr>sock_objs := (sock_objs s)(i \<mapsto> x, j \<mapsto> y)\<rparr>))
      | _ \<Rightarrow> None)"
| "socket_exec (SockMoveAssign i j) s =
     (case (sock_objs s i, sock_objs s j) of
        (Some x, Some y) \<Rightarrow>
          if i = j then None
          else (let (x, y) = socket_move_assign x y in Some (s\<lparr>sock_objs := (sock_objs s)(i \<mapsto> x, j \<mapsto> y)\<rparr>))
      | _ \<Rightarrow> None)"
| "socket_exec (SockSwap i j) s =
     (case (sock_objs s i, sock_objs s j) of
        (Some x, Some y) \<Rightarrow> (let (x, y) = socket_swap x y in Some (s\<lparr>sock_objs := (sock_objs s)(i \<mapsto> x, j \<mapsto> y)\<rparr>))
      | _ \<Rightarrow> None)"
| "socket_exec (SockClose i) s =
     (case sock_objs s i of None \<Rightarrow> None
      | Some x \<Rightarrow> (let (fd, x) = socket_close x
          in Some (s\<lparr>sock_objs := (sock_objs s)(i \<mapsto> x), sock_open := sock_open s - {fd},
               sock_closes := sock_closes s @ [(fd, fd \<in> sock_open s)]\<rparr>)))"
| "socket_exec (SockDestroy i) s =
     (if sock_objs s i = None then None else Some (s\<lparr>sock_objs := (sock_objs s)(i := None)\<rparr>))"

fun socket_program :: "socket_op list \<Rightarrow> socket_objs \<Rightarrow> socket_objs option" where
  "socket_program [] s = Some s"
| "socket_program (c # cs) s = (case socket_exec c s of None \<Rightarrow> None | Some s' \<Rightarrow> socket_program cs s')"

definition socket_at :: "socket_objs \<Rightarrow> nat \<Rightarrow> 32 word \<Rightarrow> bool" where
  "socket_at s i fd \<longleftrightarrow> (\<exists>x. sock_objs s i = Some x \<and> sockfd x = fd) \<and> fd \<noteq> no_socket"

definition sockets_inv :: "socket_objs \<Rightarrow> bool" where
  "sockets_inv s \<longleftrightarrow>
     (\<forall>i j fd. socket_at s i fd \<longrightarrow> socket_at s j fd \<longrightarrow> i = j) \<and>
     (\<forall>i fd. socket_at s i fd \<longrightarrow> fd \<in> sock_open s) \<and> no_socket \<notin> sock_open s \<and>
     (\<forall>(fd, opened) \<in> set (sock_closes s). fd \<noteq> no_socket \<longrightarrow> opened)"

lemma sockets_invI:
  assumes inv: "sockets_inv s" and objs: "\<And>k fd. socket_at t k fd \<Longrightarrow> socket_at s (pi k) fd \<and> fd \<in> sock_open t"
    and inj: "\<And>k l fd. socket_at t k fd \<Longrightarrow> socket_at t l fd \<Longrightarrow> pi k = pi l \<Longrightarrow> k = l"
    and op: "sock_open t \<subseteq> sock_open s" and cl: "\<forall>(fd, opened) \<in> set (sock_closes t). fd \<noteq> no_socket \<longrightarrow> opened"
  shows "sockets_inv t"
  using assms unfolding sockets_inv_def by blast

lemma sockets_inv_moved:
  assumes "sockets_inv s"
    and "\<And>k fd. socket_at t k fd \<longleftrightarrow> (if k = j then False else if k = i then socket_at s j fd else socket_at s k fd)"
    and "sock_open t = sock_open s" and "sock_closes t = sock_closes s"
  shows "sockets_inv t"
  using assms(1) unfolding sockets_inv_def assms(2-4) by metis

lemma sockets_inv_swapped:
  assumes "sockets_inv s"
    and "\<And>k fd. socket_at t k fd \<longleftrightarrow> (if k = j then socket_at s i fd else if k = i then socket_at s j fd else socket_at s k fd)"
    and "sock_open t = sock_open s" and "sock_closes t = sock_closes s"
  shows "sockets_inv t"
  using assms(1) unfolding sockets_inv_def assms(2-4) by metis

lemma socket_exec_inv:
  assumes inv: "sockets_inv s" and ex: "socket_exec c s = Some t"
  shows "sockets_inv t"
proof (cases c)
  case (SockCreate i fd)
  have fd: "0 \<le> sint fd" "fd \<notin> sock_open s" "sock_objs s i = None"
    "t = s\<lparr>sock_objs := (sock_objs s)(i \<mapsto> \<lparr>sockfd = fd\<rparr>), sock_open := insert fd (sock_open s)\<rparr>"
    using ex SockCreate by (auto simp: socket_new_def split: if_splits)
  have "fd \<noteq> no_socket" using fd(1) by (auto simp: no_socket_def)
  moreover have at: "socket_at t k x \<longleftrightarrow> (if k = i then x = fd else socket_at s k x)" for k x
    using \<open>fd \<noteq> no_socket\<close> by (auto simp: socket_at_def fd(4))
  ultimately show ?thesis using inv fd(2) unfolding sockets_inv_def at by (auto simp: fd(4))
next
  case (SockMove i j)
  then obtain y where y: "sock_objs s i = None" "sock_objs s j = Some y"
    "t = s\<lparr>sock_objs := (sock_objs s)(i \<mapsto> \<lparr>sockfd = sockfd y\<rparr>, j \<mapsto> y\<lparr>sockfd := no_socket\<rparr>)\<rparr>"
    using ex by (auto simp: socket_move_def split: option.splits)
  have at: "socket_at t k fd \<longleftrightarrow> (if k = j then False else if k = i then socket_at s j fd else socket_at s k fd)" for k fd
    using y by (auto simp: socket_at_def)
  have rest: "sock_open t = sock_open s" "sock_closes t = sock_closes s" by (simp_all add: y)
  show ?thesis by (rule sockets_inv_moved [OF inv at rest])
next
  case (SockMoveAssign i j)
  then obtain x y where y: "sock_objs s i = Some x" "sock_objs s j = Some y" "i \<noteq> j"
    "t = s\<lparr>sock_objs := (sock_objs s)(i \<mapsto> x\<lparr>sockfd := sockfd y\<rparr>, j \<mapsto> y\<lparr>sockfd := no_socket\<rparr>)\<rparr>"
    using ex by (auto simp: socket_move_assign_def split: option.splits if_splits)
  have at: "socket_at t k fd \<longleftrightarrow> (if k = j then False else if k = i then socket_at s j fd else socket_at s k fd)" for k fd
    using y by (auto simp: socket_at_def)
  have rest: "sock_open t = sock_open s" "sock_closes t = sock_closes s" by (simp_all add: y)
  show ?thesis by (rule sockets_inv_moved [OF inv at rest])
next
  case (SockSwap i j)
  then obtain x y where y: "sock_objs s i = Some x" "sock_objs s j = Some y"
    "t = s\<lparr>sock_objs := (sock_objs s)(i \<mapsto> x\<lparr>sockfd := sockfd y\<rparr>, j \<mapsto> y\<lparr>sockfd := sockfd x\<rparr>)\<rparr>"
    using ex by (auto simp: socket_swap_def split: option.splits)
  have at: "socket_at t k fd \<longleftrightarrow> (if k = j then socket_at s i fd else if k = i then socket_at s j fd else socket_at s k fd)" for k fd
    using y by (auto simp: socket_at_def)
  have rest: "sock_open t = sock_open s" "sock_closes t = sock_closes s" by (simp_all add: y)
  show ?thesis by (rule sockets_inv_swapped [OF inv at rest])
next
  case (SockClose i)
  then obtain x where x: "sock_objs s i = Some x"
    "t = s\<lparr>sock_objs := (sock_objs s)(i \<mapsto> x\<lparr>sockfd := no_socket\<rparr>), sock_open := sock_open s - {sockfd x},
       sock_closes := sock_closes s @ [(sockfd x, sockfd x \<in> sock_open s)]\<rparr>"
    using ex by (auto simp: socket_close_def split: option.splits)
  have own: "sockfd x \<noteq> no_socket \<Longrightarrow> socket_at s i (sockfd x)" using x(1) by (simp add: socket_at_def)
  show ?thesis
  proof (rule sockets_invI [OF inv, of t id])
    show "socket_at s (id k) fd \<and> fd \<in> sock_open t" if "socket_at t k fd" for k fd
    proof -
      have k: "k \<noteq> i" "socket_at s k fd" using that by (auto simp: socket_at_def x split: if_splits)
      then have "fd \<noteq> sockfd x" using own inv unfolding sockets_inv_def by (metis socket_at_def)
      then show ?thesis using k inv by (auto simp: sockets_inv_def x)
    qed
    show "\<forall>(fd, opened) \<in> set (sock_closes t). fd \<noteq> no_socket \<longrightarrow> opened"
      using own inv by (auto simp: sockets_inv_def x)
  qed (auto simp: x)
next
  case (SockDestroy i)
  then have t: "t = s\<lparr>sock_objs := (sock_objs s)(i := None)\<rparr>" using ex by (auto split: if_splits)
  have at: "socket_at t k fd \<longleftrightarrow> k \<noteq> i \<and> socket_at s k fd" for k fd by (simp add: t socket_at_def)
  have rest: "sock_open t = sock_open s" "sock_closes t = sock_closes s" by (simp_all add: t)
  show ?thesis using inv unfolding sockets_inv_def at rest by blast
qed

text \<open>
  No two sockets have the same descriptor, what a socket has is open, and \<open>close\<close> never gives an
  operation a descriptor that is not open: none is closed twice, or after it went to someone else.
\<close>

lemma sockets_exclusive:
  assumes "socket_program cs no_sockets = Some s"
  shows "(\<forall>i j fd. socket_at s i fd \<and> socket_at s j fd \<longrightarrow> i = j) \<and> (\<forall>i fd. socket_at s i fd \<longrightarrow> fd \<in> sock_open s) \<and>
    (\<forall>(fd, opened) \<in> set (sock_closes s). fd \<noteq> no_socket \<longrightarrow> opened)"
proof -
  have "sockets_inv t \<Longrightarrow> socket_program cs t = Some s \<Longrightarrow> sockets_inv s" for t
    by (induction cs arbitrary: t) (auto split: option.splits intro: socket_exec_inv)
  moreover have "sockets_inv no_sockets" by (simp add: sockets_inv_def no_sockets_def socket_at_def)
  ultimately show ?thesis using assms unfolding sockets_inv_def by blast
qed

text \<open>The assignment and the destructor forget the descriptor that the socket has: it stays open.\<close>

lemma socket_assign_leaks:
  "\<exists>s. socket_program [SockCreate 0 3, SockCreate 1 4, SockMoveAssign 0 1, SockDestroy 1] no_sockets = Some s \<and>
     3 \<in> sock_open s \<and> (\<forall>i. \<not> socket_at s i 3)"
  by (simp add: no_sockets_def socket_new_def socket_move_assign_def socket_at_def no_socket_def)

end
