(* ===== verification/Mpl.thy ===== *)
theory Mpl
  imports Type_List
begin

text \<open>
  The other metaprograms of \<^verbatim>\<open>mpl\<close>: the loops over integral constants of \<^verbatim>\<open>for.hpp\<close> and
  the tuples of types of \<^verbatim>\<open>tuple.hpp\<close>. The function that a loop calls changes a state; an
  expression that the compiler rejects is the \<open>None\<close> of a result.
\<close>

section \<open>Loops\<close>

text \<open>The fold expressions call the function for each index of the integer sequence.\<close>

definition static_for_impl :: "int \<Rightarrow> int list \<Rightarrow> (int \<Rightarrow> 's \<Rightarrow> 's) \<Rightarrow> 's \<Rightarrow> 's option" where
  "static_for_impl begin idx f s =
     (if length idx > 0 then Some (fold (\<lambda>i. f (begin + i)) idx s) else None)"

definition static_rfor_impl :: "int \<Rightarrow> int list \<Rightarrow> (int \<Rightarrow> 's \<Rightarrow> 's) \<Rightarrow> 's \<Rightarrow> 's option" where
  "static_rfor_impl begin idx f s =
     (if length idx > 0 then Some (fold (\<lambda>i. f (begin + (int (length idx) - i - 1))) idx s) else None)"

definition make_integer_sequence :: "int \<Rightarrow> int list" where
  "make_integer_sequence n = map int [0..<nat n]"

definition static_for :: "int \<Rightarrow> int \<Rightarrow> (int \<Rightarrow> 's \<Rightarrow> 's) \<Rightarrow> 's \<Rightarrow> 's option" where
  "static_for begin end f s =
     (if begin < end then static_for_impl begin (make_integer_sequence (end - begin)) f s else Some s)"

definition static_rfor :: "int \<Rightarrow> int \<Rightarrow> (int \<Rightarrow> 's \<Rightarrow> 's) \<Rightarrow> 's \<Rightarrow> 's option" where
  "static_rfor begin end f s =
     (if begin < end then static_rfor_impl begin (make_integer_sequence (end - begin)) f s else Some s)"

lemma sequence_upto: "begin < end \<Longrightarrow> map (\<lambda>i. begin + i) (make_integer_sequence (end - begin)) = [begin..end - 1]"
  by (rule nth_equalityI) (simp_all add: make_integer_sequence_def)

lemma sequence_downto:
  "begin < end \<Longrightarrow> map (\<lambda>i. begin + (int (length (make_integer_sequence (end - begin))) - i - 1))
     (make_integer_sequence (end - begin)) = rev [begin..end - 1]"
  by (rule nth_equalityI) (simp_all add: make_integer_sequence_def rev_nth)

text \<open>The two loops visit the same integers, in opposite orders, and always compile.\<close>

lemma static_for_fold: "static_for begin end f s = Some (fold f [begin..end - 1] s)"
proof (cases "begin < end")
  case True
  then show ?thesis using fold_map [of f "\<lambda>i. begin + i" "make_integer_sequence (end - begin)"] sequence_upto [OF True]
    by (simp add: static_for_def static_for_impl_def comp_def) (simp add: make_integer_sequence_def)
qed (simp add: static_for_def)

lemma static_rfor_fold: "static_rfor begin end f s = Some (fold f (rev [begin..end - 1]) s)"
proof (cases "begin < end")
  case True
  let ?idx = "make_integer_sequence (end - begin)"
  have "fold (\<lambda>i. f (begin + (int (length ?idx) - i - 1))) ?idx = fold f (rev [begin..end - 1])"
    using fold_map [of f "\<lambda>i. begin + (int (length ?idx) - i - 1)" ?idx] sequence_downto [OF True] by (simp add: comp_def)
  moreover have "length ?idx > 0" using True by (simp add: make_integer_sequence_def)
  ultimately show ?thesis using True by (simp add: static_rfor_def static_rfor_impl_def)
qed (simp add: static_rfor_def)

section \<open>Tuples\<close>

datatype 't cpp_type = CppTuple "'t list" | CppOther 't

fun is_tuple :: "'t cpp_type \<Rightarrow> bool" where
  "is_tuple (CppTuple ts) = True"
| "is_tuple (CppOther t) = False"

fun type_list_from :: "'t cpp_type \<Rightarrow> 't list" where
  "type_list_from (CppTuple ts) = ts"
| "type_list_from (CppOther t) = []"

definition tuple_cat :: "'t cpp_type list \<Rightarrow> 't cpp_type option" where
  "tuple_cat ins = (if list_all is_tuple ins then map_option CppTuple (tl_concat (map type_list_from ins)) else None)"

fun tuple_elements :: "'t list \<Rightarrow> nat list \<Rightarrow> 't list option" where
  "tuple_elements ts [] = Some []"
| "tuple_elements ts (i # idx) = (case tl_at ts i of None \<Rightarrow> None | Some t \<Rightarrow> map_option ((#) t) (tuple_elements ts idx))"

definition tuple_at :: "'t cpp_type \<Rightarrow> nat list \<Rightarrow> 't cpp_type option" where
  "tuple_at t idx = (if is_tuple t then map_option CppTuple (tuple_elements (type_list_from t) idx) else None)"

definition tuple_remove :: "'t cpp_type \<Rightarrow> 't \<Rightarrow> 't cpp_type option" where
  "tuple_remove t e = (if is_tuple t then Some (CppTuple (tl_remove e (type_list_from t))) else None)"

lemma tuple_elements_nth:
  "tuple_elements ts idx = (if \<forall>i \<in> set idx. i < length ts then Some (map ((!) ts) idx) else None)"
  by (induction idx) (auto simp: tl_at_nth)

lemma tuple_spec:
  "tss \<noteq> [] \<Longrightarrow> tuple_cat (map CppTuple tss) = Some (CppTuple (concat tss))"
  "tuple_at (CppTuple ts) [0..<length ts] = Some (CppTuple ts)"
  "tuple_at (CppTuple ts) [length ts] = None"
  "tuple_remove (CppTuple ts) e = Some (CppTuple (filter (\<lambda>t. t \<noteq> e) ts))"
proof -
  show "tuple_cat (map CppTuple tss) = Some (CppTuple (concat tss))" if "tss \<noteq> []"
    using that by (simp add: tuple_cat_def tl_concat_concat comp_def list_all_iff)
  show "tuple_at (CppTuple ts) [0..<length ts] = Some (CppTuple ts)"
    by (simp add: tuple_at_def tuple_elements_nth map_nth)
  show "tuple_at (CppTuple ts) [length ts] = None" by (simp add: tuple_at_def tuple_elements_nth)
  show "tuple_remove (CppTuple ts) e = Some (CppTuple (filter (\<lambda>t. t \<noteq> e) ts))"
    by (simp add: tuple_remove_def tl_remove_def tl_filter_filter) metis
qed

end
