(* ===== verification/Recv_Msg.thy ===== *)
theory Recv_Msg
  imports Prelude
begin

text \<open>
  The buffer that a multishot \<open>recvmsg\<close> fills, as \<^verbatim>\<open>uring/utility/io_helper.hpp\<close> reads it: a
  header, the name, the control messages and the payload. Addresses are words; what the kernel wrote
  is a record and, for the length of a control message at an address, a function.
\<close>

section \<open>The buffer\<close>

record recvmsg_out =
  out_namelen :: u32
  out_controllen :: u32
  out_payloadlen :: u32
  out_flags :: u32

record msghdr =
  msg_namelen :: u32
  msg_controllen :: u64

definition recvmsg_validate :: "ptr \<Rightarrow> u64 \<Rightarrow> msghdr \<Rightarrow> ptr" where
  "recvmsg_validate buf size_of_buf msgh =
     (let header = msg_controllen msgh + ucast (msg_namelen msgh) + 16
      in if size_of_buf < header then 0 else buf)"

definition recvmsg_name :: "ptr \<Rightarrow> ptr" where
  "recvmsg_name o_at = o_at + 16"

definition recvmsg_cmsg_firsthdr :: "ptr \<Rightarrow> recvmsg_out \<Rightarrow> msghdr \<Rightarrow> ptr" where
  "recvmsg_cmsg_firsthdr o_at out msgh =
     (if ucast (out_controllen out) < (16 :: u64) then 0 else recvmsg_name o_at + ucast (msg_namelen msgh))"

definition CMSG_ALIGN :: "u64 \<Rightarrow> u64" where
  "CMSG_ALIGN len = (len + 8 - 1) AND NOT (8 - 1)"

definition recvmsg_cmsg_nexthdr :: "(ptr \<Rightarrow> u64) \<Rightarrow> ptr \<Rightarrow> recvmsg_out \<Rightarrow> msghdr \<Rightarrow> ptr \<Rightarrow> ptr" where
  "recvmsg_cmsg_nexthdr cmsg_len o_at out msgh cmsg =
     (if cmsg_len cmsg < 16 then 0
      else
        let end_at = recvmsg_cmsg_firsthdr o_at out msgh + ucast (out_controllen out);
            cmsg = cmsg + CMSG_ALIGN (cmsg_len cmsg)
        in if cmsg + 16 > end_at then 0
           else if cmsg + CMSG_ALIGN (cmsg_len cmsg) > end_at then 0
           else cmsg)"

definition recvmsg_payload :: "ptr \<Rightarrow> msghdr \<Rightarrow> ptr" where
  "recvmsg_payload o_at msgh = recvmsg_name o_at + ucast (msg_namelen msgh) + msg_controllen msgh"

definition recvmsg_payload_length :: "ptr \<Rightarrow> 32 word \<Rightarrow> msghdr \<Rightarrow> u32" where
  "recvmsg_payload_length o_at buf_len msgh =
     (let payload_start = recvmsg_payload o_at msgh;
          payload_end = o_at + scast buf_len
      in ucast (payload_end - payload_start))"

text \<open>The loop that these functions are for: the control messages from \<open>cmsg\<close> on.\<close>

partial_function (option) cmsg_walk ::
    "(ptr \<Rightarrow> u64) \<Rightarrow> ptr \<Rightarrow> recvmsg_out \<Rightarrow> msghdr \<Rightarrow> ptr \<Rightarrow> ptr list option" where
  "cmsg_walk cmsg_len o_at out msgh cmsg =
     (if cmsg = 0 then Some []
      else Option.bind (cmsg_walk cmsg_len o_at out msgh (recvmsg_cmsg_nexthdr cmsg_len o_at out msgh cmsg))
             (\<lambda>cs. Some (cmsg # cs)))"

section \<open>Inside the buffer\<close>

text \<open>
  What the kernel promises: the buffer, of a length that an \<open>int\<close> holds, does not wrap around, has
  room for the header (this is what \<open>recvmsg_validate\<close> tests), and the control messages that were
  written are not longer than the room for them and say so of themselves.
\<close>

definition recvmsg_ok :: "(ptr \<Rightarrow> u64) \<Rightarrow> ptr \<Rightarrow> u64 \<Rightarrow> recvmsg_out \<Rightarrow> msghdr \<Rightarrow> bool" where
  "recvmsg_ok cmsg_len buf n out msgh \<longleftrightarrow>
     buf \<noteq> 0 \<and> unat n < 2 ^ 31 \<and> unat buf + unat n + 2 ^ 33 < 2 ^ 64 \<and>
     unat (msg_controllen msgh) < 2 ^ 31 \<and> unat (msg_namelen msgh) < 2 ^ 31 \<and>
     unat (out_controllen out) \<le> unat (msg_controllen msgh) \<and>
     (\<forall>c. unat (cmsg_len c) < 2 ^ 31)"

definition cmsg_start :: "ptr \<Rightarrow> msghdr \<Rightarrow> nat" where
  "cmsg_start o_at msgh = unat o_at + 16 + unat (msg_namelen msgh)"

lemma unat_add_fits: "unat (a :: u64) + unat b < 2 ^ 64 \<Longrightarrow> unat (a + b) = unat a + unat b"
  by (subst unat_word_ariths) simp

lemma unat_u32_u64: "unat (ucast (x :: u32) :: u64) = unat x"
proof -
  have "unat x < 2 ^ LENGTH(32)" by (rule unsigned_less)
  then show ?thesis by (simp add: unsigned_ucast_eq take_bit_nat_eq_self)
qed

lemma unat_CMSG_ALIGN:
  assumes "unat len < 2 ^ 31"
  shows "unat (CMSG_ALIGN len) = round_up 3 (unat len)"
proof -
  have m: "(8 - 1 :: u64) = mask 3" by (simp add: mask_eq_exp_minus_1)
  have "unat (len + 7) = unat len + 7" using assms unat_add_fits [of len 7] by simp
  then show ?thesis unfolding CMSG_ALIGN_def m by (simp add: unat_and_not_mask round_up_def add.commute)
qed

lemma recvmsg_layout:
  assumes ok: "recvmsg_ok cmsg_len buf n out msgh" and v: "recvmsg_validate buf n msgh = o_at" "o_at \<noteq> 0"
  shows "o_at = buf" and "cmsg_start buf msgh + unat (msg_controllen msgh) \<le> unat buf + unat n"
    and "unat (recvmsg_name buf + ucast (msg_namelen msgh)) = cmsg_start buf msgh"
proof -
  note K = ok [unfolded recvmsg_ok_def]
  have h: "unat (msg_controllen msgh + ucast (msg_namelen msgh) + 16) =
      unat (msg_controllen msgh) + unat (msg_namelen msgh) + 16"
  proof -
    have "unat (msg_controllen msgh + ucast (msg_namelen msgh)) = unat (msg_controllen msgh) + unat (msg_namelen msgh)"
      using K unat_add_fits [of "msg_controllen msgh" "ucast (msg_namelen msgh)"] by (simp add: unat_u32_u64)
    then show ?thesis using K unat_add_fits [of "msg_controllen msgh + ucast (msg_namelen msgh)" 16] by simp
  qed
  from v show "o_at = buf" by (auto simp: recvmsg_validate_def Let_def split: if_splits)
  from v have "\<not> n < msg_controllen msgh + ucast (msg_namelen msgh) + 16"
    by (auto simp: recvmsg_validate_def Let_def split: if_splits)
  then have "unat (msg_controllen msgh) + unat (msg_namelen msgh) + 16 \<le> unat n"
    using h by (simp add: word_less_nat_alt)
  then show sz: "cmsg_start buf msgh + unat (msg_controllen msgh) \<le> unat buf + unat n" by (simp add: cmsg_start_def)
  have "unat (buf + 16) = unat buf + 16" using K unat_add_fits [of buf 16] by simp
  then show "unat (recvmsg_name buf + ucast (msg_namelen msgh)) = cmsg_start buf msgh"
    using K sz unat_add_fits [of "buf + 16" "ucast (msg_namelen msgh)"]
    by (simp add: recvmsg_name_def cmsg_start_def unat_u32_u64)
qed

section \<open>The control messages\<close>

definition cmsg_end :: "ptr \<Rightarrow> recvmsg_out \<Rightarrow> msghdr \<Rightarrow> nat" where
  "cmsg_end o_at out msgh = cmsg_start o_at msgh + unat (out_controllen out)"

text \<open>Control messages follow one another at their lengths, rounded up to multiples of 8.\<close>

abbreviation cmsg_follows :: "(ptr \<Rightarrow> u64) \<Rightarrow> ptr \<Rightarrow> ptr \<Rightarrow> bool" where
  "cmsg_follows cmsg_len x y \<equiv> unat y = unat x + round_up 3 (unat (cmsg_len x))"

text \<open>A control message whose header is inside the region.\<close>

definition cmsg_inside :: "ptr \<Rightarrow> recvmsg_out \<Rightarrow> msghdr \<Rightarrow> ptr \<Rightarrow> bool" where
  "cmsg_inside o_at out msgh c \<longleftrightarrow> cmsg_start o_at msgh \<le> unat c \<and> unat c + 16 \<le> cmsg_end o_at out msgh"

definition recvmsg_valid :: "(ptr \<Rightarrow> u64) \<Rightarrow> ptr \<Rightarrow> u64 \<Rightarrow> recvmsg_out \<Rightarrow> msghdr \<Rightarrow> bool" where
  "recvmsg_valid cmsg_len buf n out msgh \<longleftrightarrow>
     recvmsg_ok cmsg_len buf n out msgh \<and> recvmsg_validate buf n msgh \<noteq> 0"

lemma recvmsg_validD:
  assumes "recvmsg_valid cmsg_len buf n out msgh"
  shows "recvmsg_ok cmsg_len buf n out msgh" and "cmsg_start buf msgh + unat (msg_controllen msgh) \<le> unat buf + unat n"
    and "unat (recvmsg_name buf + ucast (msg_namelen msgh)) = cmsg_start buf msgh"
    and "cmsg_end buf out msgh + 2 ^ 33 < 2 ^ 64"
proof -
  show ok: "recvmsg_ok cmsg_len buf n out msgh" using assms by (simp add: recvmsg_valid_def)
  have v: "recvmsg_validate buf n msgh \<noteq> 0" using assms by (simp add: recvmsg_valid_def)
  have o_at: "recvmsg_validate buf n msgh = buf" using recvmsg_layout(1) [OF ok refl v] .
  show "cmsg_start buf msgh + unat (msg_controllen msgh) \<le> unat buf + unat n"
    and "unat (recvmsg_name buf + ucast (msg_namelen msgh)) = cmsg_start buf msgh"
    by (rule recvmsg_layout [OF ok refl v])+
  then show "cmsg_end buf out msgh + 2 ^ 33 < 2 ^ 64" using ok by (simp add: cmsg_end_def recvmsg_ok_def)
qed

lemma firsthdr_inside:
  assumes ok: "recvmsg_valid cmsg_len buf n out msgh" and first: "recvmsg_cmsg_firsthdr buf out msgh \<noteq> 0"
  shows "unat (recvmsg_cmsg_firsthdr buf out msgh) = cmsg_start buf msgh"
    and "cmsg_inside buf out msgh (recvmsg_cmsg_firsthdr buf out msgh)"
proof -
  have "\<not> (ucast (out_controllen out) :: u64) < 16" using first by (auto simp: recvmsg_cmsg_firsthdr_def split: if_splits)
  then have len: "16 \<le> unat (out_controllen out)" by (simp add: word_less_nat_alt unat_u32_u64)
  from first show at_start: "unat (recvmsg_cmsg_firsthdr buf out msgh) = cmsg_start buf msgh"
    using recvmsg_validD(3) [OF ok] by (auto simp: recvmsg_cmsg_firsthdr_def split: if_splits)
  show "cmsg_inside buf out msgh (recvmsg_cmsg_firsthdr buf out msgh)"
    using len by (simp add: cmsg_inside_def at_start cmsg_end_def)
qed

lemma nexthdr_inside:
  assumes ok: "recvmsg_valid cmsg_len buf n out msgh" and c: "cmsg_inside buf out msgh c" and first: "recvmsg_cmsg_firsthdr buf out msgh \<noteq> 0"
    and nxt: "recvmsg_cmsg_nexthdr cmsg_len buf out msgh c = d" "d \<noteq> 0"
  shows "unat c + 16 \<le> unat d" and "cmsg_inside buf out msgh d"
    and "unat d + round_up 3 (unat (cmsg_len d)) \<le> cmsg_end buf out msgh"
    and "unat d = unat c + round_up 3 (unat (cmsg_len c))"
proof -
  have small: "unat (cmsg_len x) < 2 ^ 31" for x using recvmsg_validD(1) [OF ok] by (simp add: recvmsg_ok_def)
  note align = unat_CMSG_ALIGN [OF small]
  have up: "round_up 3 (unat (cmsg_len x)) < 2 ^ 31 + 8" for x
    using round_up_bounds(2) [of 3 "unat (cmsg_len x)"] small [of x] by simp
  have e: "unat (recvmsg_cmsg_firsthdr buf out msgh + ucast (out_controllen out)) = cmsg_end buf out msgh"
    using unat_add_fits [of "recvmsg_cmsg_firsthdr buf out msgh" "ucast (out_controllen out)"] firsthdr_inside(1) [OF ok first]
      recvmsg_validD(4) [OF ok] by (simp add: unat_u32_u64 cmsg_end_def)
  have len: "16 \<le> unat (cmsg_len c)" and d: "d = c + CMSG_ALIGN (cmsg_len c)"
    and d16: "\<not> d + 16 > recvmsg_cmsg_firsthdr buf out msgh + ucast (out_controllen out)"
    and dal: "\<not> d + CMSG_ALIGN (cmsg_len d) > recvmsg_cmsg_firsthdr buf out msgh + ucast (out_controllen out)"
    using nxt by (auto simp: recvmsg_cmsg_nexthdr_def Let_def word_less_nat_alt split: if_splits)
  have fit: "unat c + round_up 3 (unat (cmsg_len c)) + 2 ^ 32 < 2 ^ 64"
    using c recvmsg_validD(4) [OF ok] up [of c] unfolding cmsg_inside_def by simp
  show ud: "unat d = unat c + round_up 3 (unat (cmsg_len c))"
    unfolding d using fit align [of c] unat_add_fits [of c "CMSG_ALIGN (cmsg_len c)"] by simp
  show le: "unat c + 16 \<le> unat d" using ud len round_up_bounds(1) [of "unat (cmsg_len c)" 3] by simp
  have "unat (d + 16) = unat d + 16" using fit ud unat_add_fits [of d 16] by simp
  then have "unat d + 16 \<le> cmsg_end buf out msgh" using d16 e by (simp add: word_less_nat_alt)
  then show "cmsg_inside buf out msgh d" using c le by (simp add: cmsg_inside_def)
  have "unat (d + CMSG_ALIGN (cmsg_len d)) = unat d + round_up 3 (unat (cmsg_len d))"
    using fit ud up [of d] align [of d] unat_add_fits [of d "CMSG_ALIGN (cmsg_len d)"] by simp
  then show "unat d + round_up 3 (unat (cmsg_len d)) \<le> cmsg_end buf out msgh"
    using dal e by (simp add: word_less_nat_alt)
qed

lemma cmsg_walk_inside:
  assumes ok: "recvmsg_valid cmsg_len buf n out msgh" and first: "recvmsg_cmsg_firsthdr buf out msgh \<noteq> 0"
  shows "c = 0 \<or> cmsg_inside buf out msgh c \<Longrightarrow>
    \<exists>cs. cmsg_walk cmsg_len buf out msgh c = Some cs \<and> list_all (cmsg_inside buf out msgh) cs \<and>
      sorted_wrt (\<lambda>x y. unat x + 16 \<le> unat y) cs \<and> successively (cmsg_follows cmsg_len) cs \<and> (c \<noteq> 0 \<longrightarrow> (\<exists>ds. cs = c # ds)) \<and> (c = 0 \<longrightarrow> cs = []) \<and>
      (\<forall>d \<in> set (tl cs). unat d + round_up 3 (unat (cmsg_len d)) \<le> cmsg_end buf out msgh)"
proof (induction "cmsg_end buf out msgh - unat c" arbitrary: c rule: less_induct)
  case less
  show ?case
  proof (cases "c = 0")
    case True
    then show ?thesis by (simp add: cmsg_walk.simps)
  next
    case False
    with less.prems have c: "cmsg_inside buf out msgh c" by simp
    define d where "d = recvmsg_cmsg_nexthdr cmsg_len buf out msgh c"
    show ?thesis
    proof (cases "d = 0")
      case True
      have "cmsg_walk cmsg_len buf out msgh c = Some [c]"
        by (subst cmsg_walk.simps) (simp add: False True [unfolded d_def] cmsg_walk.simps [of _ _ _ _ 0])
      then show ?thesis using c False by simp
    next
      case nz: False
      note n = nexthdr_inside [OF ok c first d_def [symmetric] nz]
      have "cmsg_end buf out msgh - unat d < cmsg_end buf out msgh - unat c"
        using n(1,2) unfolding cmsg_inside_def by linarith
      from less.hyps [OF this] n(2) nz obtain cs where cs: "cmsg_walk cmsg_len buf out msgh d = Some cs"
        "list_all (cmsg_inside buf out msgh) cs" "sorted_wrt (\<lambda>x y. unat x + 16 \<le> unat y) cs"
        "successively (cmsg_follows cmsg_len) cs" "\<exists>ds. cs = d # ds" "\<forall>d \<in> set (tl cs). unat d + round_up 3 (unat (cmsg_len d)) \<le> cmsg_end buf out msgh" by auto
      obtain ds where ds: "cs = d # ds" using cs(5) by blast
      have walk: "cmsg_walk cmsg_len buf out msgh c = Some (c # cs)"
        by (subst cmsg_walk.simps) (simp add: False cs(1) d_def [symmetric])
      have "\<forall>y \<in> set cs. unat c + 16 \<le> unat y" using n(1) cs(3) unfolding ds by force
      moreover have "\<forall>y \<in> set cs. unat y + round_up 3 (unat (cmsg_len y)) \<le> cmsg_end buf out msgh"
        using n(3) cs(6) unfolding ds by simp
      moreover have "successively (cmsg_follows cmsg_len) (c # cs)" using n(4) cs(4) unfolding ds by simp
      ultimately show ?thesis using walk c cs(2,3) False by simp
    qed
  qed
qed

section \<open>The whole buffer\<close>

lemma payload_span:
  assumes ok: "recvmsg_valid cmsg_len buf n out msgh" and len: "sint buf_len = int (unat n)"
  shows "unat (recvmsg_payload buf msgh) = cmsg_start buf msgh + unat (msg_controllen msgh)"
    and "unat (recvmsg_payload buf msgh) + unat (recvmsg_payload_length buf buf_len msgh) = unat buf + unat n"
proof -
  note K = recvmsg_validD(1) [OF ok, unfolded recvmsg_ok_def]
  show p: "unat (recvmsg_payload buf msgh) = cmsg_start buf msgh + unat (msg_controllen msgh)"
    using recvmsg_validD(2,3) [OF ok] K
      unat_add_fits [of "recvmsg_name buf + ucast (msg_namelen msgh)" "msg_controllen msgh"]
    by (simp add: recvmsg_payload_def)
  have "(scast buf_len :: u64) = n" using len by (simp add: scast_eq)
  moreover have "unat (buf + n) = unat buf + unat n" using K unat_add_fits [of buf n] by simp
  ultimately have e: "unat (buf + scast buf_len - recvmsg_payload buf msgh) = unat buf + unat n - unat (recvmsg_payload buf msgh)"
    using p recvmsg_validD(2) [OF ok] by (simp add: unat_sub_if')
  have small: "unat buf + unat n - unat (recvmsg_payload buf msgh) < 2 ^ 32"
  proof (rule le_less_trans)
    show "unat buf + unat n - unat (recvmsg_payload buf msgh) \<le> unat n" unfolding p cmsg_start_def by simp
    show "unat n < 2 ^ 32" using K by simp
  qed
  have "unat (recvmsg_payload_length buf buf_len msgh) = unat (buf + scast buf_len - recvmsg_payload buf msgh)"
    unfolding recvmsg_payload_length_def Let_def using e small
    by (simp add: unsigned_ucast_eq take_bit_nat_eq_self)
  then show "unat (recvmsg_payload buf msgh) + unat (recvmsg_payload_length buf buf_len msgh) = unat buf + unat n"
    using e p recvmsg_validD(2) [OF ok] by simp
qed

text \<open>C37. Reading a buffer that a multishot \<open>recvmsg\<close> filled stays inside it. Once the buffer is
  validated, the name begins behind the header and the payload behind the rooms for the name and for
  the control messages, and it ends where the buffer ends. The loop over the control messages ends:
  it visits none when there is no room for a header, and otherwise the first directly behind the
  room for the name and each further one at the aligned length of the one before; no two headers
  overlap, all of them lie between the room for the name and the payload, and every message but
  the first is there as a whole.\<close>

theorem recvmsg_walk_safe:
  assumes "recvmsg_valid cmsg_len buf n out msgh" and "sint buf_len = int (unat n)"
  shows "unat (recvmsg_name buf) = unat buf + 16 \<and>
    unat (recvmsg_payload buf msgh) = unat (recvmsg_name buf) + unat (msg_namelen msgh) + unat (msg_controllen msgh) \<and>
    unat (recvmsg_payload buf msgh) + unat (recvmsg_payload_length buf buf_len msgh) = unat buf + unat n \<and>
    (\<exists>cs. cmsg_walk cmsg_len buf out msgh (recvmsg_cmsg_firsthdr buf out msgh) = Some cs \<and>
      (cs = [] \<longleftrightarrow> unat (out_controllen out) < 16) \<and>
      (\<forall>c ds. cs = c # ds \<longrightarrow> unat c = unat (recvmsg_name buf) + unat (msg_namelen msgh)) \<and>
      successively (cmsg_follows cmsg_len) cs \<and> sorted_wrt (\<lambda>x y. unat x + 16 \<le> unat y) cs \<and>
      (\<forall>c \<in> set cs. unat (recvmsg_name buf) + unat (msg_namelen msgh) \<le> unat c \<and>
         unat c + 16 \<le> unat (recvmsg_payload buf msgh)) \<and>
      (\<forall>c \<in> set (tl cs). unat c + unat (cmsg_len c) \<le> unat (recvmsg_payload buf msgh)))"
proof (intro conjI)
  let ?first = "recvmsg_cmsg_firsthdr buf out msgh" and ?good = "cmsg_inside buf out msgh"
  note p = payload_span [OF assms]
  show name: "unat (recvmsg_name buf) = unat buf + 16"
    using recvmsg_validD(1) [OF assms(1)] unat_add_fits [of buf 16] by (simp add: recvmsg_name_def recvmsg_ok_def)
  then have start: "cmsg_start buf msgh = unat (recvmsg_name buf) + unat (msg_namelen msgh)"
    by (simp add: cmsg_start_def)
  show "unat (recvmsg_payload buf msgh) = unat (recvmsg_name buf) + unat (msg_namelen msgh) + unat (msg_controllen msgh)"
    using p(1) start by simp
  show "unat (recvmsg_payload buf msgh) + unat (recvmsg_payload_length buf buf_len msgh) = unat buf + unat n" by (rule p(2))
  have room: "cmsg_end buf out msgh \<le> unat (recvmsg_payload buf msgh)"
    using recvmsg_validD(1) [OF assms(1)] by (simp add: cmsg_end_def recvmsg_ok_def p(1))
  have f0: "?first = 0 \<longleftrightarrow> unat (out_controllen out) < 16"
  proof -
    have "recvmsg_name buf + ucast (msg_namelen msgh) \<noteq> 0"
      using recvmsg_validD(3) [OF assms(1)] by (auto simp: cmsg_start_def)
    then show ?thesis by (simp add: recvmsg_cmsg_firsthdr_def word_less_nat_alt unat_u32_u64)
  qed
  have "\<exists>cs. cmsg_walk cmsg_len buf out msgh ?first = Some cs \<and> sorted_wrt (\<lambda>x y. unat x + 16 \<le> unat y) cs \<and>
      successively (cmsg_follows cmsg_len) cs \<and> list_all ?good cs \<and>
      (?first \<noteq> 0 \<longrightarrow> (\<exists>ds. cs = ?first # ds)) \<and> (?first = 0 \<longrightarrow> cs = []) \<and>
      (\<forall>d \<in> set (tl cs). unat d + round_up 3 (unat (cmsg_len d)) \<le> cmsg_end buf out msgh)"
  proof (cases "?first = 0")
    case True
    then show ?thesis by (simp add: cmsg_walk.simps)
  next
    case False
    with cmsg_walk_inside [OF assms(1) False, of ?first] firsthdr_inside(2) [OF assms(1) False] show ?thesis by blast
  qed
  then obtain cs where cs: "cmsg_walk cmsg_len buf out msgh ?first = Some cs"
    "sorted_wrt (\<lambda>x y. unat x + 16 \<le> unat y) cs" "successively (cmsg_follows cmsg_len) cs" "list_all ?good cs"
    "?first \<noteq> 0 \<longrightarrow> (\<exists>ds. cs = ?first # ds)" "?first = 0 \<longrightarrow> cs = []"
    "\<forall>d \<in> set (tl cs). unat d + round_up 3 (unat (cmsg_len d)) \<le> cmsg_end buf out msgh" by blast
  have "unat d + unat (cmsg_len d) \<le> unat (recvmsg_payload buf msgh)" if "d \<in> set (tl cs)" for d
    using that cs(7) room round_up_bounds(1) [of "unat (cmsg_len d)" 3] by fastforce
  moreover have "cmsg_start buf msgh \<le> unat c \<and> unat c + 16 \<le> unat (recvmsg_payload buf msgh)" if "c \<in> set cs" for c
    using that cs(4) room by (auto simp: list_all_iff cmsg_inside_def)
  moreover have "cs = [] \<longleftrightarrow> unat (out_controllen out) < 16" using cs(5,6) f0 by blast
  moreover have "unat c = cmsg_start buf msgh" if "cs = c # ds" for c ds
    using firsthdr_inside(1) [OF assms(1)] cs(5,6) that by auto
  ultimately show "\<exists>cs. cmsg_walk cmsg_len buf out msgh ?first = Some cs \<and>
      (cs = [] \<longleftrightarrow> unat (out_controllen out) < 16) \<and>
      (\<forall>c ds. cs = c # ds \<longrightarrow> unat c = unat (recvmsg_name buf) + unat (msg_namelen msgh)) \<and>
      successively (cmsg_follows cmsg_len) cs \<and> sorted_wrt (\<lambda>x y. unat x + 16 \<le> unat y) cs \<and>
      (\<forall>c \<in> set cs. unat (recvmsg_name buf) + unat (msg_namelen msgh) \<le> unat c \<and>
         unat c + 16 \<le> unat (recvmsg_payload buf msgh)) \<and>
      (\<forall>c \<in> set (tl cs). unat c + unat (cmsg_len c) \<le> unat (recvmsg_payload buf msgh))"
    using cs(1-3) unfolding start by blast
qed

text \<open>Two control messages of 24 and 16 bytes in a buffer of 200 bytes, and a payload of 120.\<close>

definition recv_example :: msghdr where
  "recv_example = \<lparr>msg_namelen = 16, msg_controllen = 48\<rparr>"

definition out_example :: recvmsg_out where
  "out_example = \<lparr>out_namelen = 16, out_controllen = 40, out_payloadlen = 120, out_flags = 0\<rparr>"

theorem recvmsg_walk_safe_witness:
  "\<exists>cs. cmsg_walk (\<lambda>c. if c = 4128 then 24 else 16) 4096 out_example recv_example 4128 = Some cs \<and>
     (\<forall>c \<in> set cs. 4128 \<le> unat c \<and> unat c + 16 \<le> 4176) \<and>
     unat (recvmsg_payload_length 4096 200 recv_example) = 120"
proof -
  have v: "recvmsg_valid (\<lambda>c. if c = 4128 then 24 else 16) 4096 200 out_example recv_example"
    by (simp add: recvmsg_valid_def recvmsg_ok_def recvmsg_validate_def recv_example_def out_example_def)
  have f: "recvmsg_cmsg_firsthdr 4096 out_example recv_example = 4128"
    by (simp add: recvmsg_cmsg_firsthdr_def recvmsg_name_def recv_example_def out_example_def)
  have p: "unat (recvmsg_payload 4096 recv_example) = 4176" "unat (recvmsg_name 4096) = 4112"
    "unat (msg_namelen recv_example) = 16"
    by (simp_all add: recvmsg_payload_def recvmsg_name_def recv_example_def)
  show ?thesis using recvmsg_walk_safe [OF v, of 200] unfolding f p by auto
qed

text \<open>
  Without the bound on the lengths the loop need not end: the alignment of the length wraps around
  to zero, and the next control message is the same one.
\<close>

lemma cmsg_walk_wraps: "cmsg_walk (\<lambda>c. - 1) 4096 out_example recv_example 4128 = None"
proof (rule ccontr)
  have next_same: "recvmsg_cmsg_nexthdr (\<lambda>c. - 1) 4096 out_example recv_example 4128 = 4128"
    by (simp add: recvmsg_cmsg_nexthdr_def recvmsg_cmsg_firsthdr_def recvmsg_name_def CMSG_ALIGN_def
        recv_example_def out_example_def)
  assume "cmsg_walk (\<lambda>c. - 1) 4096 out_example recv_example 4128 \<noteq> None"
  then obtain cs where cs: "cmsg_walk (\<lambda>c. - 1) 4096 out_example recv_example 4128 = Some cs" by blast
  then have "cmsg_walk (\<lambda>c. - 1) 4096 out_example recv_example 4128 = Some (4128 # cs)"
    by (subst cmsg_walk.simps) (simp add: next_same)
  with cs show False by simp
qed

end
