(* ===== verification/Syscall.thy ===== *)
theory Syscall
  imports Prelude
begin

text \<open>
  The wrappers of the system calls under \<^verbatim>\<open>liburingcxx/include/uring/arch\<close>: those that
  go through the C library (\<^verbatim>\<open>generic/syscall.h\<close>) and those that enter the kernel
  (\<^verbatim>\<open>syscall-defs.h\<close>, over the assembly of x86 and of aarch64), and the size of a
  page (\<^verbatim>\<open>lib.h\<close>). The kernel, as the instruction that enters it returns, and the C library,
  with the value of \<open>errno\<close> beside each result, are parameters.
\<close>

section \<open>Interfaces\<close>

datatype sys_nr =
    NrOpen | NrOpenat | NrRead | NrMmap | NrMunmap | NrMadvise | NrGetrlimit | NrSetrlimit | NrClose
  | NrRegister | NrSetup | NrEnter

type_synonym kernel_call = "sys_nr \<Rightarrow> u64 list \<Rightarrow> u64"
type_synonym libc_call = "sys_nr \<Rightarrow> u64 list \<Rightarrow> u64 \<times> 32 word"

text \<open>The kernel reports an error as a number between -4095 and -1.\<close>

definition sys_error :: "u64 \<Rightarrow> bool" where
  "sys_error r \<longleftrightarrow> r \<ge> - 4095"

text \<open>The C library turns it into -1 and \<open>errno\<close>.\<close>

definition libc_ok :: "kernel_call \<Rightarrow> libc_call \<Rightarrow> bool" where
  "libc_ok kern libc \<longleftrightarrow> (\<forall>nr args.
     if sys_error (kern nr args) then libc nr args = (- 1, - ucast (kern nr args))
     else fst (libc nr args) = kern nr args)"

text \<open>A call whose result is an \<open>int\<close>, or a length.\<close>

definition int_result :: "u64 \<Rightarrow> bool" where
  "int_result r \<longleftrightarrow> sys_error r \<or> unat r < 2 ^ 31"

definition size_result :: "u64 \<Rightarrow> bool" where
  "size_result r \<longleftrightarrow> sys_error r \<or> unat r < 2 ^ 63"

definition MAP_FAILED :: ptr where "MAP_FAILED = - 1"
definition AT_FDCWD :: u64 where "AT_FDCWD = - 100"
definition NSIG_BYTES :: u64 where "NSIG_BYTES = 8"

definition ERR_PTR :: "u64 \<Rightarrow> ptr" where
  "ERR_PTR n = n"

section \<open>Through the C library\<close>

text \<open>\<open>ret < 0 ? -errno : ret\<close>, for an \<open>int\<close> and for a \<open>ssize_t\<close>.\<close>

definition libc_int :: "u64 \<times> 32 word \<Rightarrow> 32 word" where
  "libc_int x = (let ret = (ucast (fst x) :: 32 word) in if sint ret < 0 then - snd x else ret)"

definition libc_ssize :: "u64 \<times> 32 word \<Rightarrow> u64" where
  "libc_ssize x = (let ret = fst x in if sint ret < 0 then scast (- snd x) else ret)"

definition libc_register :: "libc_call \<Rightarrow> u32 \<Rightarrow> u32 \<Rightarrow> ptr \<Rightarrow> u32 \<Rightarrow> 32 word" where
  "libc_register libc fd opcode arg nr_args = libc_int (libc NrRegister [ucast fd, ucast opcode, arg, ucast nr_args])"

definition libc_setup :: "libc_call \<Rightarrow> u32 \<Rightarrow> ptr \<Rightarrow> 32 word" where
  "libc_setup libc entries p = libc_int (libc NrSetup [ucast entries, p])"

definition libc_enter2 :: "libc_call \<Rightarrow> u32 \<Rightarrow> u32 \<Rightarrow> u32 \<Rightarrow> u32 \<Rightarrow> ptr \<Rightarrow> u64 \<Rightarrow> 32 word" where
  "libc_enter2 libc fd to_submit min_complete flags sig sz =
     libc_int (libc NrEnter [ucast fd, ucast to_submit, ucast min_complete, ucast flags, sig, sz])"

definition libc_enter :: "libc_call \<Rightarrow> u32 \<Rightarrow> u32 \<Rightarrow> u32 \<Rightarrow> u32 \<Rightarrow> ptr \<Rightarrow> 32 word" where
  "libc_enter libc fd to_submit min_complete flags sig = libc_enter2 libc fd to_submit min_complete flags sig NSIG_BYTES"

definition libc_open :: "libc_call \<Rightarrow> ptr \<Rightarrow> 32 word \<Rightarrow> u32 \<Rightarrow> 32 word" where
  "libc_open libc pathname flags mode = libc_int (libc NrOpen [pathname, scast flags, ucast mode])"

definition libc_read :: "libc_call \<Rightarrow> 32 word \<Rightarrow> ptr \<Rightarrow> u64 \<Rightarrow> u64" where
  "libc_read libc fd buffer len = libc_ssize (libc NrRead [scast fd, buffer, len])"

definition libc_mmap :: "libc_call \<Rightarrow> ptr \<Rightarrow> u64 \<Rightarrow> 32 word \<Rightarrow> 32 word \<Rightarrow> 32 word \<Rightarrow> u64 \<Rightarrow> ptr" where
  "libc_mmap libc addr len prot flags fd offset =
     (let x = libc NrMmap [addr, len, scast prot, scast flags, scast fd, offset]
      in if fst x = MAP_FAILED then ERR_PTR (scast (- snd x)) else fst x)"

definition libc_munmap :: "libc_call \<Rightarrow> ptr \<Rightarrow> u64 \<Rightarrow> 32 word" where
  "libc_munmap libc addr len = libc_int (libc NrMunmap [addr, len])"

definition libc_madvise :: "libc_call \<Rightarrow> ptr \<Rightarrow> u64 \<Rightarrow> 32 word \<Rightarrow> 32 word" where
  "libc_madvise libc addr len advice = libc_int (libc NrMadvise [addr, len, scast advice])"

definition libc_getrlimit :: "libc_call \<Rightarrow> 32 word \<Rightarrow> ptr \<Rightarrow> 32 word" where
  "libc_getrlimit libc resource rlim = libc_int (libc NrGetrlimit [scast resource, rlim])"

definition libc_setrlimit :: "libc_call \<Rightarrow> 32 word \<Rightarrow> ptr \<Rightarrow> 32 word" where
  "libc_setrlimit libc resource rlim = libc_int (libc NrSetrlimit [scast resource, rlim])"

definition libc_close :: "libc_call \<Rightarrow> 32 word \<Rightarrow> 32 word" where
  "libc_close libc fd = libc_int (libc NrClose [scast fd])"

section \<open>Into the kernel\<close>

text \<open>The casts of the result to \<open>int\<close>, \<open>ssize_t\<close> and a pointer.\<close>

definition sys_register :: "kernel_call \<Rightarrow> u32 \<Rightarrow> u32 \<Rightarrow> ptr \<Rightarrow> u32 \<Rightarrow> 32 word" where
  "sys_register kern fd opcode arg nr_args = ucast (kern NrRegister [ucast fd, ucast opcode, arg, ucast nr_args])"

definition sys_setup :: "kernel_call \<Rightarrow> u32 \<Rightarrow> ptr \<Rightarrow> 32 word" where
  "sys_setup kern entries p = ucast (kern NrSetup [ucast entries, p])"

definition sys_enter2 :: "kernel_call \<Rightarrow> u32 \<Rightarrow> u32 \<Rightarrow> u32 \<Rightarrow> u32 \<Rightarrow> ptr \<Rightarrow> u64 \<Rightarrow> 32 word" where
  "sys_enter2 kern fd to_submit min_complete flags sig sz =
     ucast (kern NrEnter [ucast fd, ucast to_submit, ucast min_complete, ucast flags, sig, sz])"

definition sys_enter :: "kernel_call \<Rightarrow> u32 \<Rightarrow> u32 \<Rightarrow> u32 \<Rightarrow> u32 \<Rightarrow> ptr \<Rightarrow> 32 word" where
  "sys_enter kern fd to_submit min_complete flags sig = sys_enter2 kern fd to_submit min_complete flags sig NSIG_BYTES"

text \<open>\<open>has_open\<close>: the architecture has the call \<open>open\<close>.\<close>

definition sys_open :: "bool \<Rightarrow> kernel_call \<Rightarrow> ptr \<Rightarrow> 32 word \<Rightarrow> u32 \<Rightarrow> 32 word" where
  "sys_open has_open kern pathname flags mode =
     (if has_open then ucast (kern NrOpen [pathname, scast flags, ucast mode])
      else ucast (kern NrOpenat [AT_FDCWD, pathname, scast flags, ucast mode]))"

definition sys_read :: "kernel_call \<Rightarrow> 32 word \<Rightarrow> ptr \<Rightarrow> u64 \<Rightarrow> u64" where
  "sys_read kern fd buffer len = kern NrRead [scast fd, buffer, len]"

text \<open>On a machine with 64 bits there is no \<open>mmap2\<close>.\<close>

definition sys_mmap :: "kernel_call \<Rightarrow> ptr \<Rightarrow> u64 \<Rightarrow> 32 word \<Rightarrow> 32 word \<Rightarrow> 32 word \<Rightarrow> u64 \<Rightarrow> ptr" where
  "sys_mmap kern addr len prot flags fd offset =
     kern NrMmap [addr, len, scast prot, scast flags, scast fd, offset]"

definition sys_munmap :: "kernel_call \<Rightarrow> ptr \<Rightarrow> u64 \<Rightarrow> 32 word" where
  "sys_munmap kern addr len = ucast (kern NrMunmap [addr, len])"

definition sys_madvise :: "kernel_call \<Rightarrow> ptr \<Rightarrow> u64 \<Rightarrow> 32 word \<Rightarrow> 32 word" where
  "sys_madvise kern addr len advice = ucast (kern NrMadvise [addr, len, scast advice])"

definition sys_getrlimit :: "kernel_call \<Rightarrow> 32 word \<Rightarrow> ptr \<Rightarrow> 32 word" where
  "sys_getrlimit kern resource rlim = ucast (kern NrGetrlimit [scast resource, rlim])"

definition sys_setrlimit :: "kernel_call \<Rightarrow> 32 word \<Rightarrow> ptr \<Rightarrow> 32 word" where
  "sys_setrlimit kern resource rlim = ucast (kern NrSetrlimit [scast resource, rlim])"

definition sys_close :: "kernel_call \<Rightarrow> 32 word \<Rightarrow> 32 word" where
  "sys_close kern fd = ucast (kern NrClose [scast fd])"

section \<open>The size of a page\<close>

text \<open>
  On aarch64 the auxiliary vector is read from a file: the results of \<open>open\<close> and of the calls of
  \<open>read\<close>, each with the two words it left in the buffer. A file that ends reads as nothing.
\<close>

fun scan_auxv :: "(int \<times> u64 \<times> u64) list \<Rightarrow> u64" where
  "scan_auxv [] = 4096"
| "scan_auxv ((x, buf0, buf1) # rest) =
     (if x < 16 then 4096 else if buf0 = 6 then buf1 else scan_auxv rest)"

definition read_page_size :: "int \<Rightarrow> (int \<times> u64 \<times> u64) list \<Rightarrow> u64" where
  "read_page_size fd reads = (if fd < 0 then 4096 else scan_auxv reads)"

text \<open>The result is kept in a static variable, which starts at zero.\<close>

definition get_page_size :: "int \<Rightarrow> (int \<times> u64 \<times> u64) list \<Rightarrow> u64 \<Rightarrow> u64 \<times> u64" where
  "get_page_size fd reads cache_val =
     (if cache_val \<noteq> 0 then (cache_val, cache_val)
      else let cache_val = read_page_size fd reads in (cache_val, cache_val))"

definition get_page_size_generic :: "u64 \<Rightarrow> u64" where
  "get_page_size_generic sysconf_result = (if sint sysconf_result < 0 then 4096 else sysconf_result)"

definition get_page_size_x86 :: u64 where
  "get_page_size_x86 = 4096"

section \<open>The wrappers agree\<close>

text \<open>What the C library makes of a result of the kernel.\<close>

definition libc_of :: "u64 \<Rightarrow> u64 \<times> 32 word \<Rightarrow> bool" where
  "libc_of r x \<longleftrightarrow> (if sys_error r then x = (- 1, - ucast r) else fst x = r)"

lemma libc_okD: "libc_ok kern libc \<Longrightarrow> libc_of (kern nr args) (libc nr args)"
  by (simp add: libc_ok_def libc_of_def)

lemma sint_small: "unat (w :: 'l::len word) < 2 ^ (LENGTH('l) - 1) \<Longrightarrow> 0 \<le> sint w"
proof -
  assume "unat w < 2 ^ (LENGTH('l) - 1)"
  then have "uint w < 2 ^ (LENGTH('l) - 1)"
    by (metis of_nat_less_iff of_nat_numeral of_nat_power uint_nat)
  then have "signed_take_bit (LENGTH('l) - 1) (uint w) = uint w"
    by (intro signed_take_bit_int_eq_self) (auto intro: order_trans [of _ 0])
  then show "0 \<le> sint w" by (simp add: sint_uint)
qed

lemma sys_error_scast:
  assumes "sys_error r"
  shows "scast (ucast r :: 32 word) = r"
proof -
  define k where "k = uint r - 2 ^ 64"
  have "uint (- 4095 :: u64) \<le> uint r" using assms by (simp only: sys_error_def word_le_def)
  moreover have "uint r < 2 ^ 64" using uint_bounded [of r] by simp
  ultimately have k: "- 4095 \<le> k" "k < 0" by (simp_all add: k_def)
  have r: "r = word_of_int k"
  proof -
    have "word_of_int (uint r - 2 ^ 64) = (word_of_int (uint r) - word_of_int (2 ^ 64) :: u64)" by simp
    then show ?thesis by (simp add: k_def)
  qed
  have "(ucast r :: 32 word) = word_of_int (uint r)" by (rule ucast_eq)
  also have "\<dots> = word_of_int k + word_of_int (2 ^ 64)" by (simp add: k_def flip: of_int_add)
  finally have "(ucast r :: 32 word) = word_of_int k" by simp
  moreover have "sint (word_of_int k :: 32 word) = k"
    using k by (simp add: signed_of_int signed_take_bit_int_eq_self)
  ultimately show ?thesis using r by (simp add: scast_eq)
qed

lemma libc_int_of:
  assumes "libc_of r x" and "int_result r"
  shows "libc_int x = ucast r"
proof (cases "sys_error r")
  case True
  have "ucast (- 1 :: u64) = (- 1 :: 32 word)" by (rule bit_word_eqI) (simp add: bit_simps)
  then show ?thesis using True assms(1) by (simp add: libc_of_def libc_int_def)
next
  case False
  then have r: "unat r < 2 ^ 31" "fst x = r" using assms by (simp_all add: libc_of_def int_result_def)
  then have "unat (ucast r :: 32 word) < 2 ^ 31" by (simp add: unsigned_ucast_eq take_bit_nat_eq_self)
  then have "0 \<le> sint (ucast r :: 32 word)" using sint_small [of "ucast r :: 32 word"] by simp
  then show ?thesis using r(2) by (simp add: libc_int_def)
qed

lemma libc_ssize_of:
  assumes "libc_of r x" and "size_result r"
  shows "libc_ssize x = r"
proof (cases "sys_error r")
  case True
  then show ?thesis using assms(1) sys_error_scast [OF True] by (simp add: libc_of_def libc_ssize_def)
next
  case False
  then have r: "unat r < 2 ^ 63" "fst x = r" using assms by (simp_all add: libc_of_def size_result_def)
  then have "0 \<le> sint r" using sint_small [of r] by simp
  then show ?thesis using r(2) by (simp add: libc_ssize_def)
qed

lemma libc_mmap_of:
  assumes "libc_of r x"
  shows "(if fst x = MAP_FAILED then ERR_PTR (scast (- snd x)) else fst x) = r"
proof (cases "sys_error r")
  case True
  then show ?thesis using assms sys_error_scast [OF True] by (simp add: libc_of_def MAP_FAILED_def ERR_PTR_def)
next
  case False
  then have "r \<noteq> MAP_FAILED" by (auto simp: sys_error_def MAP_FAILED_def)
  then show ?thesis using False assms by (simp add: libc_of_def)
qed

text \<open>The two kinds of wrappers do the same: with a C library that turns the errors of the kernel
  into -1 and \<open>errno\<close>, each wrapper that goes through it returns what the wrapper that enters the
  kernel returns, the negated error number included, whenever the result of the kernel is one that the
  type of the call can hold.\<close>

theorem syscalls_agree:
  assumes libc: "libc_ok kern libc" and small: "\<And>nr args. nr \<noteq> NrRead \<Longrightarrow> nr \<noteq> NrMmap \<Longrightarrow> int_result (kern nr args)"
    and lengths: "\<And>args. size_result (kern NrRead args)"
  shows "libc_register libc fd opcode arg n = sys_register kern fd opcode arg n"
    "libc_setup libc entries p = sys_setup kern entries p"
    "libc_enter libc fd to_submit min_complete flags sig = sys_enter kern fd to_submit min_complete flags sig"
    "libc_open libc path oflags mode = sys_open True kern path oflags mode"
    "libc_read libc rfd buf len = sys_read kern rfd buf len"
    "libc_mmap libc addr len prot mflags rfd offset = sys_mmap kern addr len prot mflags rfd offset"
    "libc_munmap libc addr len = sys_munmap kern addr len"
    "libc_madvise libc addr len advice = sys_madvise kern addr len advice"
    "libc_getrlimit libc resource rlim = sys_getrlimit kern resource rlim"
    "libc_setrlimit libc resource rlim = sys_setrlimit kern resource rlim"
    "libc_close libc rfd = sys_close kern rfd"
  using libc_int_of [OF libc_okD [OF libc] small] libc_ssize_of [OF libc_okD [OF libc] lengths]
    libc_mmap_of [OF libc_okD [OF libc]]
  by (simp_all add: libc_register_def sys_register_def libc_setup_def sys_setup_def libc_enter_def sys_enter_def
      libc_enter2_def sys_enter2_def libc_open_def sys_open_def libc_read_def sys_read_def libc_mmap_def sys_mmap_def
      libc_munmap_def sys_munmap_def libc_madvise_def sys_madvise_def libc_getrlimit_def sys_getrlimit_def
      libc_setrlimit_def sys_setrlimit_def libc_close_def sys_close_def Let_def)

text \<open>
  The size of a page is what the auxiliary vector says, the entry with the key 6, if that is read
  before the vector ends; it is read once.
\<close>

lemma scan_auxv_entry:
  assumes "\<forall>(x, key, v) \<in> set before. 16 \<le> x \<and> key \<noteq> 6" and "16 \<le> x"
  shows "scan_auxv (before @ (x, 6, v) # rest) = v"
  using assms(1)
proof (induction before)
  case (Cons e before)
  then show ?case by (cases e) simp
qed (use assms(2) in simp)

lemma get_page_size_once:
  assumes "get_page_size fd reads 0 = (v, cache)" and "v \<noteq> 0"
  shows "get_page_size fd' reads' cache = (v, cache)"
  using assms by (auto simp: get_page_size_def Let_def)

end
