(* ===== verification/Memory_Orders.thy ===== *)
theory Memory_Orders
  imports Prelude
begin

text \<open>
  The memory orders of the atomic accesses, \<^verbatim>\<open>std::memory_order\<close>, and what they promise: a fragment
  of the memory model of C++ without sequentially consistent accesses. A thread has a clock that says
  which accesses of each thread happened before its next one. A store leaves a message with the clock
  that a reader may acquire; a load may read any message that the thread has not seen a newer one
  of. Memory that is not atomic records its last accesses, and an access that did not happen after a
  conflicting one is a data race.
\<close>

section \<open>Clocks\<close>

type_synonym clock = "nat \<Rightarrow> nat"

definition clock_join :: "clock \<Rightarrow> clock \<Rightarrow> clock" where
  "clock_join a b = (\<lambda>t. max (a t) (b t))"

lemma clock_join_apply [simp]: "clock_join a b t = max (a t) (b t)"
  by (simp add: clock_join_def)

datatype memory_order = MoRelaxed | MoAcquire | MoRelease | MoAcqRel | MoSeqCst

definition acquires :: "memory_order \<Rightarrow> bool" where
  "acquires o' \<longleftrightarrow> o' \<in> {MoAcquire, MoAcqRel, MoSeqCst}"

definition releases :: "memory_order \<Rightarrow> bool" where
  "releases o' \<longleftrightarrow> o' \<in> {MoRelease, MoAcqRel, MoSeqCst}"

lemma order_simps [simp]:
  "acquires MoAcquire" "acquires MoAcqRel" "acquires MoSeqCst" "\<not> acquires MoRelaxed" "\<not> acquires MoRelease"
  "releases MoRelease" "releases MoAcqRel" "releases MoSeqCst" "\<not> releases MoRelaxed" "\<not> releases MoAcquire"
  by (simp_all add: acquires_def releases_def)

section \<open>Threads and messages\<close>

text \<open>
  The clock of a thread, the clock it had at its last release fence, and what its relaxed loads have
  read, for the next acquire fence.
\<close>

record view =
  vw_clock :: clock
  vw_release :: clock
  vw_pending :: clock

record 'v message =
  msg_val :: 'v
  msg_clock :: clock

definition view_start :: view where
  "view_start = \<lparr>vw_clock = (\<lambda>_. 0), vw_release = (\<lambda>_. 0), vw_pending = (\<lambda>_. 0)\<rparr>"

definition view_tick :: "nat \<Rightarrow> view \<Rightarrow> view" where
  "view_tick t v = v\<lparr>vw_clock := (vw_clock v)(t := Suc (vw_clock v t))\<rparr>"

definition view_load :: "memory_order \<Rightarrow> 'v message \<Rightarrow> view \<Rightarrow> view" where
  "view_load mo m v =
     v\<lparr>vw_clock := (if acquires mo then clock_join (vw_clock v) (msg_clock m) else vw_clock v),
       vw_pending := clock_join (vw_pending v) (msg_clock m)\<rparr>"

definition store_message :: "memory_order \<Rightarrow> 'v \<Rightarrow> view \<Rightarrow> 'v message" where
  "store_message mo x v = \<lparr>msg_val = x, msg_clock = (if releases mo then vw_clock v else vw_release v)\<rparr>"

text \<open>A read-modify-write reads the last message, and what it stores carries on the release sequence.\<close>

definition view_rmw :: "memory_order \<Rightarrow> 'v message \<Rightarrow> 'v \<Rightarrow> view \<Rightarrow> 'v message \<times> view" where
  "view_rmw mo m x v =
     (let v = view_load mo m v; n = store_message mo x v
      in (n\<lparr>msg_clock := clock_join (msg_clock n) (msg_clock m)\<rparr>, v))"

definition fence_acquire :: "view \<Rightarrow> view" where
  "fence_acquire v = v\<lparr>vw_clock := clock_join (vw_clock v) (vw_pending v)\<rparr>"

definition fence_release :: "view \<Rightarrow> view" where
  "fence_release v = v\<lparr>vw_release := vw_clock v\<rparr>"

lemma view_tick_simps [simp]:
  "vw_clock (view_tick t v) u = (if u = t then Suc (vw_clock v t) else vw_clock v u)"
  "vw_release (view_tick t v) = vw_release v" "vw_pending (view_tick t v) = vw_pending v"
  by (simp_all add: view_tick_def)

lemma view_load_clock:
  "vw_clock (view_load mo m v) u = (if acquires mo then max (vw_clock v u) (msg_clock m u) else vw_clock v u)"
  by (simp add: view_load_def)

lemma store_message_simps [simp]:
  "msg_val (store_message mo x v) = x" "releases mo \<Longrightarrow> msg_clock (store_message mo x v) = vw_clock v"
  by (simp_all add: store_message_def)

section \<open>Memory that is not atomic\<close>

record 'a cell =
  cell_val :: 'a
  cell_writer :: nat
  cell_wtime :: nat
  cell_reads :: clock

definition cell_new :: "'a \<Rightarrow> 'a cell" where
  "cell_new x = \<lparr>cell_val = x, cell_writer = 0, cell_wtime = 0, cell_reads = (\<lambda>_. 0)\<rparr>"

definition read_safe :: "view \<Rightarrow> 'a cell \<Rightarrow> bool" where
  "read_safe v c \<longleftrightarrow> cell_wtime c \<le> vw_clock v (cell_writer c)"

text \<open>The threads of a program are numbered below \<open>n\<close>.\<close>

definition write_safe :: "nat \<Rightarrow> view \<Rightarrow> 'a cell \<Rightarrow> bool" where
  "write_safe n v c \<longleftrightarrow> read_safe v c \<and> list_all (\<lambda>u. cell_reads c u \<le> vw_clock v u) [0..<n]"

definition cell_read :: "nat \<Rightarrow> view \<Rightarrow> 'a cell \<Rightarrow> 'a cell" where
  "cell_read t v c = c\<lparr>cell_reads := (cell_reads c)(t := vw_clock v t)\<rparr>"

definition cell_write :: "nat \<Rightarrow> view \<Rightarrow> 'a \<Rightarrow> 'a cell \<Rightarrow> 'a cell" where
  "cell_write t v x c = c\<lparr>cell_val := x, cell_writer := t, cell_wtime := vw_clock v t\<rparr>"

lemma cell_simps [simp]:
  "cell_val (cell_read t v c) = cell_val c" "cell_writer (cell_read t v c) = cell_writer c"
  "cell_wtime (cell_read t v c) = cell_wtime c" "cell_reads (cell_write t v x c) = cell_reads c"
  "cell_reads (cell_read t v c) u = (if u = t then vw_clock v t else cell_reads c u)"
  "cell_val (cell_write t v x c) = x" "cell_writer (cell_write t v x c) = t"
  "cell_wtime (cell_write t v x c) = vw_clock v t"
  by (simp_all add: cell_read_def cell_write_def)

section \<open>The accesses of the rings\<close>

text \<open>
  The functions of \<^verbatim>\<open>barrier.h\<close> and their orders, and the access that the rings of
  \<open>io_uring\<close> and the cursor make.
\<close>

definition io_uring_write_once_order :: memory_order where "io_uring_write_once_order = MoRelaxed"
definition io_uring_read_once_order :: memory_order where "io_uring_read_once_order = MoRelaxed"
definition io_uring_smp_store_release_order :: memory_order where "io_uring_smp_store_release_order = MoRelease"
definition io_uring_smp_load_acquire_order :: memory_order where "io_uring_smp_load_acquire_order = MoAcquire"

lemmas barrier_defs = io_uring_write_once_order_def io_uring_read_once_order_def
  io_uring_smp_store_release_order_def io_uring_smp_load_acquire_order_def

end
