(* ===== verification/Spsc_Orders.thy ===== *)
theory Spsc_Orders
  imports Memory_Orders Spsc_Cursor
begin

text \<open>
  The ring cursor of \<^verbatim>\<open>detail/spsc_cursor.hpp\<close> with its memory orders: a producer and a consumer on
  two threads, whose loads of the other side's counter may be out of date and whose slots are not
  atomic. Each item is published by a store of its own, \<^verbatim>\<open>push()\<close>, and given back by a store of its
  own, \<^verbatim>\<open>pop()\<close>. Of the rings between the application and the kernel only the orders of the
  accesses are stated here.
\<close>

section \<open>The two sides\<close>

text \<open>
  The orders of the two stores and of the two loads. Those of the cursor are the same for all
  variants of its operations that a thread-safe cursor offers, except for the relaxed test.
\<close>

record ring_orders =
  ro_push :: memory_order
  ro_pop :: memory_order
  ro_load_head :: memory_order
  ro_load_tail :: memory_order

definition cursor_push_order :: memory_order where "cursor_push_order = MoRelease"
definition cursor_pop_order :: memory_order where "cursor_pop_order = MoRelease"
definition cursor_load_raw_head_order :: memory_order where "cursor_load_raw_head_order = MoAcquire"
definition cursor_load_raw_tail_order :: memory_order where "cursor_load_raw_tail_order = MoAcquire"
definition cursor_load_raw_tail_relaxed_order :: memory_order where "cursor_load_raw_tail_relaxed_order = MoRelaxed"

definition cursor_orders :: ring_orders where
  "cursor_orders = \<lparr>ro_push = cursor_push_order, ro_pop = cursor_pop_order,
     ro_load_head = cursor_load_raw_head_order, ro_load_tail = cursor_load_raw_tail_order\<rparr>"

text \<open>The consumer takes the entry after \<open>is_empty_load_tail_relaxed\<close>.\<close>

definition cursor_orders_relaxed :: ring_orders where
  "cursor_orders_relaxed = cursor_orders\<lparr>ro_load_tail := cursor_load_raw_tail_relaxed_order\<rparr>"

text \<open>
  The messages of each counter, oldest first, with the positions up to which the other side has seen
  them. The producer is thread 0, the consumer thread 1. \<open>or_raced\<close> records a data race on a slot.
\<close>

record ('w, 'a) oring =
  or_head :: "'w message list"
  or_tail :: "'w message list"
  or_slots :: "'w \<Rightarrow> 'a cell"
  or_pview :: view
  or_cview :: view
  or_pseen :: nat
  or_cseen :: nat
  or_producer :: "'a producer"
  or_consumer :: "'a consumer"
  or_sent :: "'a list"
  or_received :: "'a list"
  or_raced :: bool

definition or_cursor :: "('w, 'a) oring \<Rightarrow> 'w cursor" where
  "or_cursor s = \<lparr>m_head = msg_val (last (or_head s)), m_tail = msg_val (last (or_tail s))\<rparr>"

definition or_start :: "('l::len word \<Rightarrow> 'a) \<Rightarrow> 'l word \<Rightarrow> ('l word, 'a) oring" where
  "or_start junk h =
     \<lparr>or_head = [\<lparr>msg_val = h, msg_clock = (\<lambda>_. 0)\<rparr>], or_tail = [\<lparr>msg_val = h, msg_clock = (\<lambda>_. 0)\<rparr>],
      or_slots = (\<lambda>i. cell_new (junk i)), or_pview = view_start, or_cview = view_start,
      or_pseen = 0, or_cseen = 0, or_producer = PIdle, or_consumer = CIdle,
      or_sent = [], or_received = [], or_raced = False\<rparr>"

text \<open>
  Each step is an access by one of the sides that is where the access belongs; the message that a load reads
  is its argument, and so is the item that the producer sends.
\<close>

datatype 'a ring_access = LoadHead nat | Fill 'a | Push | LoadTail nat | Take | Pop

definition or_load_head :: "'l::len word \<Rightarrow> ring_orders \<Rightarrow> nat \<Rightarrow> ('l word, 'a) oring \<Rightarrow> ('l word, 'a) oring" where
  "or_load_head cap ro j s =
     (let m = or_head s ! j
      in s\<lparr>or_pseen := j, or_pview := view_load (ro_load_head ro) m (view_tick 0 (or_pview s)),
           or_producer := (if cursor_is_available_load_head True cap (msg_val m) (or_cursor s) then PRoom else PIdle)\<rparr>)"

definition or_fill :: "'l::len word \<Rightarrow> 'a \<Rightarrow> ('l word, 'a) oring \<Rightarrow> ('l word, 'a) oring" where
  "or_fill cap x s =
     (let i = cursor_tail cap (or_cursor s); v = view_tick 0 (or_pview s); c = or_slots s i
      in s\<lparr>or_pview := v, or_slots := (or_slots s)(i := cell_write 0 v x c),
           or_raced := (or_raced s \<or> \<not> write_safe 2 v c), or_producer := PFilled x\<rparr>)"

definition or_push :: "ring_orders \<Rightarrow> 'a \<Rightarrow> ('l::len word, 'a) oring \<Rightarrow> ('l word, 'a) oring" where
  "or_push ro x s =
     (let v = view_tick 0 (or_pview s)
      in s\<lparr>or_pview := v, or_producer := PIdle, or_sent := or_sent s @ [x],
           or_tail := or_tail s @ [store_message (ro_push ro) (m_tail (cursor_push 1 (or_cursor s))) v]\<rparr>)"

definition or_load_tail :: "ring_orders \<Rightarrow> nat \<Rightarrow> ('l::len word, 'a) oring \<Rightarrow> ('l word, 'a) oring" where
  "or_load_tail ro j s =
     (let m = or_tail s ! j
      in s\<lparr>or_cseen := j, or_cview := view_load (ro_load_tail ro) m (view_tick 1 (or_cview s)),
           or_consumer := (if cursor_is_empty_load_tail True (msg_val m) (or_cursor s) then CIdle else CSome)\<rparr>)"

definition or_take :: "'l::len word \<Rightarrow> ('l word, 'a) oring \<Rightarrow> ('l word, 'a) oring" where
  "or_take cap s =
     (let i = cursor_head cap (or_cursor s); v = view_tick 1 (or_cview s); c = or_slots s i
      in s\<lparr>or_cview := v, or_slots := (or_slots s)(i := cell_read 1 v c),
           or_raced := (or_raced s \<or> \<not> read_safe v c), or_consumer := CTaken (cell_val c)\<rparr>)"

definition or_pop :: "ring_orders \<Rightarrow> 'a \<Rightarrow> ('l::len word, 'a) oring \<Rightarrow> ('l word, 'a) oring" where
  "or_pop ro x s =
     (let v = view_tick 1 (or_cview s)
      in s\<lparr>or_cview := v, or_consumer := CIdle, or_received := or_received s @ [x],
           or_head := or_head s @ [store_message (ro_pop ro) (m_head (cursor_pop 1 (or_cursor s))) v]\<rparr>)"

fun or_exec :: "'l::len word \<Rightarrow> ring_orders \<Rightarrow> 'a ring_access \<Rightarrow> ('l word, 'a) oring \<Rightarrow> ('l word, 'a) oring option" where
  "or_exec cap ro (LoadHead j) s = (case or_producer s of
       PIdle \<Rightarrow> if or_pseen s \<le> j \<and> j < length (or_head s) then Some (or_load_head cap ro j s) else None
     | _ \<Rightarrow> None)"
| "or_exec cap ro (Fill x) s = (case or_producer s of PRoom \<Rightarrow> Some (or_fill cap x s) | _ \<Rightarrow> None)"
| "or_exec cap ro Push s = (case or_producer s of PFilled x \<Rightarrow> Some (or_push ro x s) | _ \<Rightarrow> None)"
| "or_exec cap ro (LoadTail j) s = (case or_consumer s of
       CIdle \<Rightarrow> if or_cseen s \<le> j \<and> j < length (or_tail s) then Some (or_load_tail ro j s) else None
     | _ \<Rightarrow> None)"
| "or_exec cap ro Take s = (case or_consumer s of CSome \<Rightarrow> Some (or_take cap s) | _ \<Rightarrow> None)"
| "or_exec cap ro Pop s = (case or_consumer s of CTaken x \<Rightarrow> Some (or_pop ro x s) | _ \<Rightarrow> None)"

primrec or_run :: "'l::len word \<Rightarrow> ring_orders \<Rightarrow> 'a ring_access list \<Rightarrow> ('l word, 'a) oring \<Rightarrow> ('l word, 'a) oring option" where
  "or_run cap ro [] s = Some s"
| "or_run cap ro (a # as) s = (case or_exec cap ro a s of None \<Rightarrow> None | Some t \<Rightarrow> or_run cap ro as t)"

text \<open>The runs of a ring that begins with any counter, and with anything in its slots.\<close>

definition or_reachable :: "'l::len word \<Rightarrow> ring_orders \<Rightarrow> ('l word, 'a) oring \<Rightarrow> bool" where
  "or_reachable cap ro s \<longleftrightarrow> (\<exists>junk h as. or_run cap ro as (or_start junk h) = Some s)"

lemma or_exec_cases:
  assumes "or_exec cap ro a s = Some t"
  obtains (LoadHead) j where "a = LoadHead j" "or_producer s = PIdle" "or_pseen s \<le> j" "j < length (or_head s)"
      "t = or_load_head cap ro j s"
    | (Fill) x where "a = Fill x" "or_producer s = PRoom" "t = or_fill cap x s"
    | (Push) x where "a = Push" "or_producer s = PFilled x" "t = or_push ro x s"
    | (LoadTail) j where "a = LoadTail j" "or_consumer s = CIdle" "or_cseen s \<le> j" "j < length (or_tail s)"
      "t = or_load_tail ro j s"
    | (Take) "a = Take" "or_consumer s = CSome" "t = or_take cap s"
    | (Pop) x where "a = Pop" "or_consumer s = CTaken x" "t = or_pop ro x s"
  using assms by (cases a) (auto split: producer.splits consumer.splits if_splits)

lemmas or_access_defs = or_load_head_def or_fill_def or_push_def or_load_tail_def or_take_def or_pop_def

section \<open>The rings of the kernel\<close>

text \<open>
  The orders of the application's accesses to the counters that it shares with the kernel: of the stores to the
  tail of the submission queue and the head of the completion queue, and of the loads of the others.
\<close>

definition sq_store_tail_order :: "bool \<Rightarrow> memory_order" where
  "sq_store_tail_order sqpoll = (if \<not> sqpoll then io_uring_write_once_order else io_uring_smp_store_release_order)"

definition sq_load_head_order :: "bool \<Rightarrow> memory_order" where
  "sq_load_head_order sqpoll = (if \<not> sqpoll then io_uring_read_once_order else io_uring_smp_load_acquire_order)"

definition cq_store_head_order :: memory_order where
  "cq_store_head_order = io_uring_smp_store_release_order"

definition cq_load_tail_order :: memory_order where
  "cq_load_tail_order = io_uring_smp_load_acquire_order"

text \<open>
  The completion queue, and the submission queue when the kernel polls it on a thread of its own, are accessed
  with releasing stores and acquiring loads; when the kernel reads the submission queue in a system call the
  accesses are relaxed.
\<close>

lemma kernel_ring_orders:
  "releases cq_store_head_order" "acquires cq_load_tail_order"
  "releases (sq_store_tail_order sqpoll) \<longleftrightarrow> sqpoll" "acquires (sq_load_head_order sqpoll) \<longleftrightarrow> sqpoll"
  by (simp_all add: cq_store_head_order_def cq_load_tail_order_def sq_store_tail_order_def sq_load_head_order_def barrier_defs)

section \<open>What happens before what\<close>

definition ring_slot :: "'l::len word \<Rightarrow> 'l word \<Rightarrow> nat \<Rightarrow> 'l word" where
  "ring_slot cap h i = (h + of_nat i) AND (cap - 1)"

lemma ring_slot_neq:
  assumes "pow2_cap cap k" and "i < j" and "j < i + 2 ^ k"
  shows "ring_slot cap h i \<noteq> ring_slot cap h j"
  using ring_index_inj [OF assms(1), of 0 "j - i" "h + of_nat i"] assms(2,3)
  by (simp add: ring_slot_def algebra_simps of_nat_diff)

text \<open>
  The messages are numbered by the items: message \<open>i\<close> of a counter is its start plus \<open>i\<close>. The write
  of an item that has not been taken happened before every message that publishes it; every read of a slot
  that the producer may fill again happened before the message that frees it.
\<close>

definition or_counts :: "nat \<Rightarrow> 'l::len word \<Rightarrow> ('l word, 'a) oring \<Rightarrow> bool" where
  "or_counts k h s \<longleftrightarrow>
     length (or_tail s) = Suc (length (or_sent s)) \<and> length (or_head s) = Suc (length (or_received s)) \<and>
     (\<forall>i < length (or_tail s). msg_val (or_tail s ! i) = h + of_nat i) \<and>
     (\<forall>i < length (or_head s). msg_val (or_head s ! i) = h + of_nat i) \<and>
     length (or_received s) \<le> or_cseen s \<and> or_cseen s \<le> length (or_sent s) \<and>
     or_pseen s \<le> length (or_received s) \<and> length (or_sent s) \<le> or_pseen s + 2 ^ k \<and>
     (or_producer s \<noteq> PIdle \<longrightarrow> length (or_sent s) < or_pseen s + 2 ^ k) \<and>
     (or_consumer s \<noteq> CIdle \<longrightarrow> length (or_received s) < or_cseen s)"

definition or_contents :: "'l::len word \<Rightarrow> 'l word \<Rightarrow> ('l word, 'a) oring \<Rightarrow> bool" where
  "or_contents cap h s \<longleftrightarrow>
     or_received s = take (length (or_received s)) (or_sent s) \<and>
     (\<forall>i. length (or_received s) \<le> i \<and> i < length (or_sent s) \<longrightarrow>
        cell_val (or_slots s (ring_slot cap h i)) = or_sent s ! i) \<and>
     (\<forall>x. or_producer s = PFilled x \<longrightarrow> cell_val (or_slots s (ring_slot cap h (length (or_sent s)))) = x) \<and>
     (\<forall>x. or_consumer s = CTaken x \<longrightarrow> x = or_sent s ! length (or_received s))"

definition or_order :: "nat \<Rightarrow> 'l::len word \<Rightarrow> 'l word \<Rightarrow> ('l word, 'a) oring \<Rightarrow> bool" where
  "or_order k cap h s \<longleftrightarrow>
     (\<forall>i j. length (or_received s) \<le> i \<and> i < j \<and> j \<le> length (or_sent s) \<longrightarrow>
        cell_wtime (or_slots s (ring_slot cap h i)) \<le> msg_clock (or_tail s ! j) 0) \<and>
     (\<forall>i j. j \<le> length (or_received s) \<and> length (or_sent s) \<le> i \<and> i < j + 2 ^ k \<longrightarrow>
        cell_reads (or_slots s (ring_slot cap h i)) 1 \<le> msg_clock (or_head s ! j) 1) \<and>
     (\<forall>a. cell_writer (or_slots s a) = 0 \<and> cell_wtime (or_slots s a) \<le> vw_clock (or_pview s) 0 \<and>
        cell_reads (or_slots s a) 0 = 0 \<and> cell_reads (or_slots s a) 1 \<le> vw_clock (or_cview s) 1) \<and>
     msg_clock (or_tail s ! or_cseen s) 0 \<le> vw_clock (or_cview s) 0 \<and>
     msg_clock (or_head s ! or_pseen s) 1 \<le> vw_clock (or_pview s) 1 \<and> \<not> or_raced s"

definition or_inv :: "nat \<Rightarrow> 'l::len word \<Rightarrow> 'l word \<Rightarrow> ('l word, 'a) oring \<Rightarrow> bool" where
  "or_inv k cap h s \<longleftrightarrow> or_counts k h s \<and> or_contents cap h s \<and> or_order k cap h s"


lemma or_cursor_counts:
  assumes "or_counts k h s"
  shows "m_tail (or_cursor s) = h + of_nat (length (or_sent s))"
    and "m_head (or_cursor s) = h + of_nat (length (or_received s))"
proof -
  have "or_tail s \<noteq> []" "or_head s \<noteq> []" using assms by (auto simp: or_counts_def)
  then show "m_tail (or_cursor s) = h + of_nat (length (or_sent s))"
    and "m_head (or_cursor s) = h + of_nat (length (or_received s))"
    using assms by (simp_all add: or_cursor_def or_counts_def last_conv_nth)
qed

lemma or_cursor_slots:
  assumes "or_counts k h s"
  shows "cursor_tail cap (or_cursor s) = ring_slot cap h (length (or_sent s))"
    and "cursor_head cap (or_cursor s) = ring_slot cap h (length (or_received s))"
  using or_cursor_counts [OF assms] by (simp_all add: cursor_tail_def cursor_head_def cursor_mask_def ring_slot_def)

lemma or_available:
  assumes cap: "pow2_cap cap k" and c: "or_counts k h s" and j: "or_pseen s \<le> j" "j < length (or_head s)"
    and av: "cursor_is_available_load_head True cap (msg_val (or_head s ! j)) (or_cursor s)"
  shows "length (or_sent s) < j + 2 ^ k"
proof -
  let ?d = "length (or_sent s) - j"
  have b: "j \<le> length (or_sent s)" "?d \<le> 2 ^ k" using c j by (auto simp: or_counts_def)
  have "m_tail (or_cursor s) - msg_val (or_head s ! j) = of_nat ?d"
    using c j b or_cursor_counts [OF c] by (simp add: or_counts_def of_nat_diff)
  then have "cap \<noteq> of_nat ?d" using av by (auto simp: cursor_is_available_load_head_def cursor_load_raw_head_def)
  then have "?d \<noteq> 2 ^ k" using cap by (metis of_nat_power of_nat_numeral pow2_cap_def)
  with b show ?thesis by linarith
qed

lemma or_not_empty:
  assumes c: "or_counts k h s" and j: "or_cseen s \<le> j"
    and ne: "\<not> cursor_is_empty_load_tail True (msg_val (or_tail s ! j)) (or_cursor s)" and b: "j < length (or_tail s)"
  shows "length (or_received s) < j"
proof -
  have "j \<noteq> length (or_received s)"
    using ne c b or_cursor_counts [OF c]
    by (auto simp: cursor_is_empty_load_tail_def cursor_load_raw_tail_def or_counts_def)
  with c j show ?thesis by (simp add: or_counts_def)
qed

lemma or_step_counts:
  assumes cap: "pow2_cap (cap::'l::len word) k" and step: "or_exec cap ro a s = Some t" and c: "or_counts k h s"
  shows "or_counts k h t"
  using step
proof (cases rule: or_exec_cases)
  case (LoadHead j)
  have "length (or_sent s) \<le> j + 2 ^ k" using c LoadHead(3) by (simp add: or_counts_def)
  then show ?thesis using c LoadHead or_available [OF cap c LoadHead(3,4)]
    by (auto simp: or_counts_def or_load_head_def Let_def)
next
  case (Push x)
  then show ?thesis using c or_cursor_counts [OF c]
    by (auto simp: or_counts_def or_push_def Let_def nth_append cursor_push_def algebra_simps less_Suc_eq)
next
  case (LoadTail j)
  then show ?thesis using c or_not_empty [OF c LoadTail(3) _ LoadTail(4)]
    by (auto simp: or_counts_def or_load_tail_def Let_def)
next
  case (Pop x)
  then show ?thesis using c or_cursor_counts [OF c]
    by (auto simp: or_counts_def or_pop_def Let_def nth_append cursor_pop_def algebra_simps less_Suc_eq)
qed (use c in \<open>auto simp: or_counts_def or_fill_def or_take_def Let_def\<close>)

lemma or_step_contents:
  assumes cap: "pow2_cap (cap::'l::len word) k" and step: "or_exec cap ro a s = Some t" and c: "or_counts k h s"
    and v: "or_contents cap h s"
  shows "or_contents cap h t"
  using step
proof (cases rule: or_exec_cases)
  case (Fill x)
  have room: "length (or_sent s) < length (or_received s) + 2 ^ k" using c Fill by (auto simp: or_counts_def)
  let ?i = "ring_slot cap h (length (or_sent s))"
  have "ring_slot cap h j \<noteq> ?i" if "length (or_received s) \<le> j" "j < length (or_sent s)" for j
    using ring_slot_neq [OF cap that(2)] that(1) room by simp
  with v Fill or_cursor_slots [OF c, of cap] show ?thesis by (auto simp: or_contents_def or_fill_def Let_def)
next
  case (Push x)
  have le: "length (or_received s) \<le> length (or_sent s)" using c by (simp add: or_counts_def)
  have lt: "length (or_received s) < length (or_sent s)" if "or_consumer s = CTaken y" for y
    using c that by (auto simp: or_counts_def)
  from v Push le lt show ?thesis by (auto simp: or_contents_def or_push_def Let_def nth_append less_Suc_eq)
next
  case Take
  have "length (or_received s) < length (or_sent s)" using c Take by (auto simp: or_counts_def)
  moreover have "cell_val (or_slots t a) = cell_val (or_slots s a)" for a using Take by (simp add: or_take_def Let_def)
  moreover have "or_sent t = or_sent s" "or_received t = or_received s" "or_producer t = or_producer s"
    "or_consumer t = CTaken (cell_val (or_slots s (ring_slot cap h (length (or_received s)))))"
    using Take or_cursor_slots [OF c, of cap] by (simp_all add: or_take_def Let_def)
  ultimately show ?thesis using v by (simp add: or_contents_def)
next
  case (Pop x)
  have "length (or_received s) < length (or_sent s)" using c Pop by (auto simp: or_counts_def)
  with v Pop show ?thesis by (auto simp: or_contents_def or_pop_def Let_def take_Suc_conv_app_nth)
qed (use v in \<open>auto simp: or_contents_def or_load_head_def or_load_tail_def Let_def\<close>)

text \<open>The orders synchronise: the two stores release and the two loads acquire.\<close>

definition synchronising :: "ring_orders \<Rightarrow> bool" where
  "synchronising ro \<longleftrightarrow> releases (ro_push ro) \<and> releases (ro_pop ro) \<and> acquires (ro_load_head ro) \<and> acquires (ro_load_tail ro)"

lemma or_step_order:
  assumes cap: "pow2_cap (cap::'l::len word) k" and sync: "synchronising ro" and step: "or_exec cap ro a s = Some t"
    and c: "or_counts k h s" and r: "or_order k cap h s"
  shows "or_order k cap h t"
proof -
  have sy: "releases (ro_push ro)" "releases (ro_pop ro)" "acquires (ro_load_head ro)" "acquires (ro_load_tail ro)"
    using sync by (simp_all add: synchronising_def)
  have W: "length (or_received s) \<le> i \<Longrightarrow> i < j \<Longrightarrow> j \<le> length (or_sent s) \<Longrightarrow>
      cell_wtime (or_slots s (ring_slot cap h i)) \<le> msg_clock (or_tail s ! j) 0" for i j
    using r by (simp add: or_order_def)
  have R: "j \<le> length (or_received s) \<Longrightarrow> length (or_sent s) \<le> i \<Longrightarrow> i < j + 2 ^ k \<Longrightarrow>
      cell_reads (or_slots s (ring_slot cap h i)) 1 \<le> msg_clock (or_head s ! j) 1" for i j
    using r by (simp add: or_order_def)
  have A: "cell_writer (or_slots s a) = 0" "cell_wtime (or_slots s a) \<le> vw_clock (or_pview s) 0"
    "cell_reads (or_slots s a) 0 = 0" "cell_reads (or_slots s a) 1 \<le> vw_clock (or_cview s) 1" for a
    using r by (simp_all add: or_order_def)
  have K: "msg_clock (or_tail s ! or_cseen s) 0 \<le> vw_clock (or_cview s) 0"
    "msg_clock (or_head s ! or_pseen s) 1 \<le> vw_clock (or_pview s) 1" "\<not> or_raced s"
    using r by (simp_all add: or_order_def)
  have two: "[0..<2] = [0, 1::nat]" by (simp add: upt_rec)
  from step show ?thesis
  proof (cases rule: or_exec_cases)
    case (LoadHead j)
    have "cell_wtime (or_slots s a) \<le> Suc (vw_clock (or_pview s) 0)" for a using A(2) [of a] by simp
    then show ?thesis using LoadHead W R A K sy
      by (auto simp: or_order_def or_load_head_def Let_def view_load_clock max.coboundedI1)
  next
    case (Fill x)
    let ?i = "ring_slot cap h (length (or_sent s))" and ?v = "view_tick 0 (or_pview s)"
    have b: "length (or_sent s) < or_pseen s + 2 ^ k" "or_pseen s \<le> length (or_received s)"
      using c Fill by (auto simp: or_counts_def)
    have "cell_reads (or_slots s ?i) 1 \<le> vw_clock (or_pview s) 1"
      using R [OF b(2) order_refl b(1)] K(2) by (rule order_trans)
    then have safe: "write_safe 2 ?v (or_slots s ?i)"
      using A [of ?i] by (simp add: write_safe_def read_safe_def two le_SucI)
    have t: "t = s\<lparr>or_pview := ?v, or_slots := (or_slots s)(?i := cell_write 0 ?v x (or_slots s ?i)),
        or_raced := False, or_producer := PFilled x\<rparr>"
      using Fill K(3) safe or_cursor_slots [OF c, of cap] by (simp add: or_fill_def Let_def)
    have ne: "ring_slot cap h m \<noteq> ?i" if "length (or_received s) \<le> m" "m < length (or_sent s)" for m
      using ring_slot_neq [OF cap that(2)] that(1) b by simp
    have rd: "cell_reads (or_slots t a) = cell_reads (or_slots s a)" for a using t by simp
    show ?thesis unfolding or_order_def rd using W R A K ne by (auto simp: t le_SucI)
  next
    case (Push x)
    have l: "length (or_tail s) = Suc (length (or_sent s))" "or_cseen s \<le> length (or_sent s)"
      using c by (simp_all add: or_counts_def)
    have "cell_wtime (or_slots s (ring_slot cap h i)) \<le> msg_clock (or_tail t ! j) 0"
      if "length (or_received s) \<le> i" "i < j" "j \<le> Suc (length (or_sent s))" for i j
    proof (cases "j = Suc (length (or_sent s))")
      case True
      then show ?thesis using Push l sy(1) A(2) by (simp add: or_push_def Let_def nth_append le_SucI)
    next
      case False
      then show ?thesis using Push l that W by (simp add: or_push_def Let_def nth_append)
    qed
    then show ?thesis using Push R A K l by (auto simp: or_order_def or_push_def Let_def nth_append le_SucI)
  next
    case (LoadTail j)
    have "cell_reads (or_slots s a) 1 \<le> Suc (vw_clock (or_cview s) 1)" for a using A(4) [of a] by simp
    then show ?thesis using LoadTail W R A K sy
      by (auto simp: or_order_def or_load_tail_def Let_def view_load_clock max.coboundedI1)
  next
    case Take
    let ?i = "ring_slot cap h (length (or_received s))" and ?v = "view_tick 1 (or_cview s)"
    have b: "length (or_received s) < or_cseen s" "or_cseen s \<le> length (or_sent s)"
      using c Take by (auto simp: or_counts_def)
    have "cell_wtime (or_slots s ?i) \<le> vw_clock (or_cview s) 0"
      using W [OF order_refl b] K(1) by (rule order_trans)
    then have safe: "read_safe ?v (or_slots s ?i)" using A [of ?i] by (simp add: read_safe_def)
    have t: "t = s\<lparr>or_cview := ?v, or_slots := (or_slots s)(?i := cell_read 1 ?v (or_slots s ?i)),
        or_raced := False, or_consumer := CTaken (cell_val (or_slots s ?i))\<rparr>"
      using Take K(3) safe or_cursor_slots [OF c, of cap] by (simp add: or_take_def Let_def)
    have ne: "ring_slot cap h m \<noteq> ?i" if "length (or_sent s) \<le> m" "m < length (or_received s) + 2 ^ k" for m
    proof -
      have "length (or_received s) < m" using that b by linarith
      from ring_slot_neq [OF cap this that(2)] show ?thesis by metis
    qed
    have wt: "cell_wtime (or_slots t a) = cell_wtime (or_slots s a)" for a using t by simp
    show ?thesis unfolding or_order_def wt using W R A K ne by (auto simp: t le_SucI)
  next
    case (Pop x)
    have l: "length (or_head s) = Suc (length (or_received s))" "or_pseen s \<le> length (or_received s)"
      using c by (simp_all add: or_counts_def)
    have "cell_reads (or_slots s (ring_slot cap h i)) 1 \<le> msg_clock (or_head t ! j) 1"
      if "j \<le> Suc (length (or_received s))" "length (or_sent s) \<le> i" "i < j + 2 ^ k" for i j
    proof (cases "j = Suc (length (or_received s))")
      case True
      then show ?thesis using Pop l sy(2) A(4) by (simp add: or_pop_def Let_def nth_append le_SucI)
    next
      case False
      then show ?thesis using Pop l that R by (simp add: or_pop_def Let_def nth_append)
    qed
    then show ?thesis using Pop W A K l by (auto simp: or_order_def or_pop_def Let_def nth_append le_SucI)
  qed
qed

lemma or_run_inv:
  assumes cap: "pow2_cap cap k" and sync: "synchronising ro"
  shows "or_run cap ro as s = Some t \<Longrightarrow> or_inv k cap h s \<Longrightarrow> or_inv k cap h t"
proof (induction as arbitrary: s)
  case (Cons a as)
  then obtain u where u: "or_exec cap ro a s = Some u" "or_run cap ro as u = Some t" by (auto split: option.splits)
  have "or_inv k cap h u"
    using Cons.prems(2) or_step_counts [OF cap u(1)] or_step_contents [OF cap u(1)] or_step_order [OF cap sync u(1)]
    unfolding or_inv_def by blast
  with Cons.IH u(2) show ?case by blast
qed simp

lemma or_reachable_inv:
  assumes "pow2_cap cap k" and "synchronising ro" and "or_reachable cap ro s"
  shows "\<exists>h. or_inv k cap h s"
proof -
  obtain junk h as where run: "or_run cap ro as (or_start junk h) = Some s" using assms(3) by (auto simp: or_reachable_def)
  have "or_inv k cap h (or_start junk h)"
    by (simp add: or_inv_def or_counts_def or_contents_def or_order_def or_start_def cell_new_def view_start_def)
  with or_run_inv [OF assms(1,2) run] show ?thesis by blast
qed

section \<open>Properties\<close>

lemma cursor_synchronises: "synchronising cursor_orders"
  by (simp add: synchronising_def cursor_orders_def cursor_push_order_def cursor_pop_order_def
      cursor_load_raw_head_order_def cursor_load_raw_tail_order_def)

text \<open>C38. The memory orders of the thread-safe ring cursor suffice for a producer and a consumer that test
  with \<open>is_available_load_head\<close> and \<open>is_empty_load_tail\<close>, whose loads acquire, and then push or pop one
  item: whatever out-of-date counters the two sides read, no slot is written while the other side
  may read it or read before what was written is there, the consumer takes the items in the order in
  which they were sent, each as it was sent, and the ring is never overfull. (Not so after
  \<open>is_empty_load_tail_relaxed\<close>, whose load does not acquire.)\<close>

theorem spsc_race_free:
  assumes "pow2_cap cap k" and "or_reachable cap cursor_orders s"
  shows "\<not> or_raced s \<and> or_received s = take (length (or_received s)) (or_sent s) \<and>
    length (or_sent s) \<le> length (or_received s) + 2 ^ k \<and>
    (\<forall>x. or_consumer s = CTaken x \<longrightarrow> length (or_received s) < length (or_sent s) \<and> x = or_sent s ! length (or_received s))"
proof -
  from or_reachable_inv [OF assms(1) cursor_synchronises assms(2)] obtain h where "or_inv k cap h s" by blast
  then show ?thesis by (auto simp: or_inv_def or_counts_def or_contents_def or_order_def)
qed

text \<open>One item goes through a ring of two slots, whose counters begin before their wrap-around. With the
  relaxed test the consumer races with the producer in the same run, although it sees the new counter.\<close>

definition or_example :: "ring_orders \<Rightarrow> (8 word, nat) oring option" where
  "or_example ro = or_run 2 ro [LoadHead 0, Fill 7, Push, LoadTail 1, Take] (or_start (\<lambda>_. 0) 255)"

lemma or_example_reachable: "or_example ro = Some s \<Longrightarrow> or_reachable 2 ro s"
  unfolding or_example_def or_reachable_def by blast

theorem spsc_race_free_witness:
  "\<exists>s. or_example cursor_orders = Some s \<and> \<not> or_raced s \<and> or_consumer s = CTaken 7 \<and> or_sent s = [7]"
proof -
  have "map_option (\<lambda>s. (or_consumer s, or_sent s)) (or_example cursor_orders) = Some (CTaken 7, [7])" by code_simp
  then obtain s where s: "or_example cursor_orders = Some s" "or_consumer s = CTaken 7" "or_sent s = [7]" by auto
  have cap: "pow2_cap (2::8 word) 1" by (simp add: pow2_cap_def)
  from spsc_race_free [OF cap or_example_reachable [OF s(1)]] have "\<not> or_raced s" by simp
  with s show ?thesis by blast
qed

lemma spsc_relaxed_races:
  "\<exists>s. or_reachable 2 cursor_orders_relaxed s \<and> or_sent s = [7::nat] \<and> or_cseen s = 1 \<and> or_raced (s :: (8 word, nat) oring)"
proof -
  have "map_option (\<lambda>s. (or_raced s, or_sent s, or_cseen s)) (or_example cursor_orders_relaxed) = Some (True, [7], 1)" by code_simp
  then show ?thesis using or_example_reachable by (auto simp: map_option_case split: option.splits)
qed

end
