(* ===== verification/Join_Orders.thy ===== *)
theory Join_Orders
  imports Memory_Orders When_All
begin

text \<open>
  The thread-safe variants of \<^verbatim>\<open>co/when_all.hpp\<close> with their memory orders: every task runs on a
  thread of its own, stores its result in a place that is not atomic, and counts down; the
  coroutine that waits goes on on the thread of the last one and reads all results. The order of the
  decrement is a parameter, \<open>all_count_order\<close> being that of the code.
\<close>

section \<open>The accesses\<close>

definition all_count_order :: memory_order where "all_count_order = MoRelaxed"

record 'v join =
  jn_wait_num :: "u32 message"
  jn_views :: "nat \<Rightarrow> view"
  jn_cells :: "nat \<Rightarrow> 'v cell"
  jn_pcs :: "nat \<Rightarrow> all_pc"
  jn_woken :: "nat option"
  jn_raced :: bool

text \<open>What happened before \<open>all\<close> is called happened before the tasks begin.\<close>

definition join_start :: "nat \<Rightarrow> (nat \<Rightarrow> 'v) \<Rightarrow> 'v join" where
  "join_start n junk = \<lparr>jn_wait_num = \<lparr>msg_val = of_nat n, msg_clock = (\<lambda>_. 0)\<rparr>, jn_views = (\<lambda>_. view_start),
     jn_cells = (\<lambda>i. cell_new (junk i)), jn_pcs = (\<lambda>_. AllRun), jn_woken = None, jn_raced = False\<rparr>"

definition join_store :: "nat \<Rightarrow> nat \<Rightarrow> 'v \<Rightarrow> 'v join \<Rightarrow> 'v join" where
  "join_store n i x s =
     (let v = fence_acquire (view_tick i (jn_views s i))
      in s\<lparr>jn_views := (jn_views s)(i := v), jn_cells := (jn_cells s)(i := cell_write i v x (jn_cells s i)),
           jn_raced := (jn_raced s \<or> \<not> write_safe n v (jn_cells s i)), jn_pcs := (jn_pcs s)(i := AllBuilt)\<rparr>)"

definition join_count :: "memory_order \<Rightarrow> nat \<Rightarrow> 'v join \<Rightarrow> 'v join" where
  "join_count mo i s =
     (let need_wakeup = msg_val (jn_wait_num s) = 1;
          (m, v) = view_rmw mo (jn_wait_num s) (msg_val (jn_wait_num s) - 1) (view_tick i (jn_views s i));
          v = (if need_wakeup then fence_release v else v)
      in s\<lparr>jn_wait_num := m, jn_views := (jn_views s)(i := v), jn_pcs := (jn_pcs s)(i := AllEnd),
           jn_woken := (if need_wakeup then Some i else jn_woken s)\<rparr>)"

text \<open>The coroutine that waits reads the results, on the thread \<open>t\<close> that spawned it.\<close>

definition join_read :: "nat \<Rightarrow> nat \<Rightarrow> 'v join \<Rightarrow> 'v join" where
  "join_read n t s =
     (let v = fence_acquire (view_tick t (jn_views s t))
      in s\<lparr>jn_views := (jn_views s)(t := v), jn_cells := (\<lambda>i. if i < n then cell_read t v (jn_cells s i) else jn_cells s i),
           jn_raced := (jn_raced s \<or> list_ex (\<lambda>i. \<not> read_safe v (jn_cells s i)) [0..<n])\<rparr>)"

datatype 'v join_access = JoinStore nat 'v | JoinCount nat | JoinRead

fun join_exec :: "memory_order \<Rightarrow> nat \<Rightarrow> 'v join_access \<Rightarrow> 'v join \<Rightarrow> 'v join option" where
  "join_exec mo n (JoinStore i x) s = (if i < n \<and> jn_pcs s i = AllRun then Some (join_store n i x s) else None)"
| "join_exec mo n (JoinCount i) s = (if i < n \<and> jn_pcs s i = AllBuilt then Some (join_count mo i s) else None)"
| "join_exec mo n JoinRead s = map_option (\<lambda>t. join_read n t s) (jn_woken s)"

primrec join_run :: "memory_order \<Rightarrow> nat \<Rightarrow> 'v join_access list \<Rightarrow> 'v join \<Rightarrow> 'v join option" where
  "join_run mo n [] s = Some s"
| "join_run mo n (a # as) s = (case join_exec mo n a s of None \<Rightarrow> None | Some t \<Rightarrow> join_run mo n as t)"

section \<open>A relaxed decrement does not join\<close>

text \<open>Two tasks end on their threads; the second one wakes the coroutine, which reads the result of the first
  although nothing orders the read after the write.\<close>

lemma all_relaxed_races:
  "\<exists>s. join_run all_count_order 2 [JoinStore 0 (5::nat), JoinCount 0, JoinStore 1 6, JoinCount 1, JoinRead]
     (join_start 2 (\<lambda>_. 0)) = Some s \<and> jn_raced s"
proof -
  have "map_option jn_raced (join_run all_count_order 2
      [JoinStore 0 (5::nat), JoinCount 0, JoinStore 1 6, JoinCount 1, JoinRead] (join_start 2 (\<lambda>_. 0))) = Some True"
    by code_simp
  then show ?thesis by auto
qed

section \<open>A decrement that acquires and releases does\<close>

definition join_inv :: "nat \<Rightarrow> 'v join \<Rightarrow> bool" where
  "join_inv n s \<longleftrightarrow> \<not> jn_raced s \<and>
     msg_val (jn_wait_num s) = of_nat (card {i. i < n \<and> jn_pcs s i \<noteq> AllEnd}) \<and>
     (\<forall>i < n. jn_pcs s i = AllRun \<longrightarrow> cell_wtime (jn_cells s i) = 0 \<and> (\<forall>u. cell_reads (jn_cells s i) u = 0)) \<and>
     (\<forall>i. jn_pcs s i \<noteq> AllRun \<longrightarrow> cell_writer (jn_cells s i) = i \<and> cell_wtime (jn_cells s i) \<le> vw_clock (jn_views s i) i) \<and>
     (\<forall>i. jn_pcs s i = AllEnd \<longrightarrow> cell_wtime (jn_cells s i) \<le> msg_clock (jn_wait_num s) i) \<and>
     (\<forall>t. jn_woken s = Some t \<longrightarrow> (\<forall>i < n. jn_pcs s i = AllEnd \<and> cell_wtime (jn_cells s i) \<le> vw_clock (jn_views s t) i))"

lemma fence_acquire_clock: "vw_clock v u \<le> vw_clock (fence_acquire v) u"
  by (simp add: fence_acquire_def)

lemma fence_release_clock [simp]: "vw_clock (fence_release v) = vw_clock v"
  by (simp add: fence_release_def)

lemma join_store_inv:
  assumes inv: "join_inv n s" and i: "i < n" "jn_pcs s i = AllRun"
  shows "join_inv n (join_store n i x s)"
proof -
  let ?v = "fence_acquire (view_tick i (jn_views s i))"
  have "write_safe n ?v (jn_cells s i)" using inv i by (simp add: join_inv_def write_safe_def read_safe_def list_all_iff)
  moreover have "{j. j < n \<and> ((jn_pcs s)(i := AllBuilt)) j \<noteq> AllEnd} = {j. j < n \<and> jn_pcs s j \<noteq> AllEnd}" using i by auto
  moreover have "jn_woken s = None" using inv i by (cases "jn_woken s") (auto simp: join_inv_def)
  ultimately show ?thesis using inv i by (auto simp: join_inv_def join_store_def Let_def simp del: fun_upd_apply)
      (auto split: if_splits)
qed

lemma join_count_inv:
  assumes inv: "join_inv n s" and i: "i < n" "jn_pcs s i = AllBuilt" and n: "n < 2 ^ 32"
    and mo: "acquires mo" "releases mo"
  shows "join_inv n (join_count mo i s)"
proof -
  let ?w = "view_tick i (jn_views s i)" and ?m = "jn_wait_num s"
  let ?open = "\<lambda>p. {j. j < n \<and> p j \<noteq> AllEnd}"
  define m v where "m = fst (view_rmw mo ?m (msg_val ?m - 1) ?w)" and "v = snd (view_rmw mo ?m (msg_val ?m - 1) ?w)"
  have rmw: "view_rmw mo ?m (msg_val ?m - 1) ?w = (m, v)" by (simp add: m_def v_def)
  have mv: "msg_val m = msg_val ?m - 1" "msg_clock m u = max (vw_clock v u) (msg_clock ?m u)"
    "vw_clock v u = max (vw_clock ?w u) (msg_clock ?m u)" for u
    using mo unfolding m_def v_def by (simp_all add: view_rmw_def Let_def view_load_clock)
  have e: "?open ((jn_pcs s)(i := AllEnd)) = ?open (jn_pcs s) - {i}" by auto
  have fin: "finite (?open (jn_pcs s))" "i \<in> ?open (jn_pcs s)" using i by auto
  then have card: "card (?open (jn_pcs s)) = Suc (card (?open ((jn_pcs s)(i := AllEnd))))"
    unfolding e by (simp only: card_Suc_Diff1)
  have "card (?open (jn_pcs s)) \<le> card {..<n}" by (intro card_mono) auto
  then have small: "card (?open (jn_pcs s)) < 2 ^ 32" using n by simp
  have num: "msg_val ?m = of_nat (card (?open (jn_pcs s)))" using inv by (simp add: join_inv_def)
  have "unat (msg_val ?m) = card (?open (jn_pcs s))" unfolding num using small by (intro unat_of_nat_fits) simp
  then have wake: "msg_val ?m = 1 \<longleftrightarrow> card (?open ((jn_pcs s)(i := AllEnd))) = 0" using card by (simp add: word_unat_eq_iff)
  have none: "jn_woken s = None" using inv i by (cases "jn_woken s") (auto simp: join_inv_def)
  let ?t = "join_count mo i s"
  define v' where "v' = (if msg_val ?m = 1 then fence_release v else v)"
  have vv: "vw_clock v' = vw_clock v" by (simp add: v'_def)
  have t: "?t = s\<lparr>jn_wait_num := m, jn_views := (jn_views s)(i := v'), jn_pcs := (jn_pcs s)(i := AllEnd),
      jn_woken := (if msg_val ?m = 1 then Some i else jn_woken s)\<rparr>"
    by (simp add: join_count_def rmw Let_def v'_def)
  have wt: "cell_wtime (jn_cells s j) \<le> vw_clock v j" if "((jn_pcs s)(i := AllEnd)) j = AllEnd" for j
  proof (cases "j = i")
    case True
    then show ?thesis using inv i by (auto simp: join_inv_def mv(3) le_max_iff_disj intro: le_SucI)
  next
    case False
    then show ?thesis using inv that by (auto simp: join_inv_def mv(3) le_max_iff_disj)
  qed
  have end': "\<forall>j<n. ((jn_pcs s)(i := AllEnd)) j = AllEnd" if "msg_val ?m = 1"
  proof -
    have "?open ((jn_pcs s)(i := AllEnd)) = {}" using that wake by (simp add: card_eq_0_iff)
    then show ?thesis by blast
  qed
  have val: "msg_val m = of_nat (card (?open ((jn_pcs s)(i := AllEnd))))" using mv(1) num card by simp
  have view: "cell_wtime (jn_cells s j) \<le> vw_clock (((jn_views s)(i := v')) j) j"
    if "((jn_pcs s)(i := AllEnd)) j \<noteq> AllRun" for j
  proof (cases "j = i")
    case True
    then show ?thesis using wt [of i] by (simp add: vv)
  next
    case False
    then show ?thesis using inv that by (simp add: join_inv_def)
  qed
  have msg: "cell_wtime (jn_cells s j) \<le> msg_clock m j" if "((jn_pcs s)(i := AllEnd)) j = AllEnd" for j
    using wt [OF that] by (simp add: mv(2) le_max_iff_disj)
  have woken: "((jn_pcs s)(i := AllEnd)) j = AllEnd \<and> cell_wtime (jn_cells s j) \<le> vw_clock v' j"
    if "msg_val ?m = 1" "j < n" for j
    using end' that wt by (simp add: vv)
  have run: "cell_wtime (jn_cells s j) = 0 \<and> (\<forall>u. cell_reads (jn_cells s j) u = 0)" if "j < n" "((jn_pcs s)(i := AllEnd)) j = AllRun" for j
    using inv that by (auto simp: join_inv_def split: if_splits)
  have wr: "cell_writer (jn_cells s j) = j" if "((jn_pcs s)(i := AllEnd)) j \<noteq> AllRun" for j
    using inv that i by (auto simp: join_inv_def split: if_splits)
  show ?thesis unfolding t join_inv_def
    using inv val view msg woken run wr none by (simp add: join_inv_def del: fun_upd_apply) (simp split: if_splits)
qed

lemma join_read_inv:
  assumes inv: "join_inv n s" and t: "jn_woken s = Some t"
  shows "join_inv n (join_read n t s)"
proof -
  let ?w = "view_tick t (jn_views s t)"
  let ?v = "fence_acquire ?w"
  have up: "vw_clock (jn_views s t) u \<le> vw_clock ?v u" for u
    using fence_acquire_clock [of ?w u] by (simp split: if_splits)
  have woken: "jn_pcs s i = AllEnd \<and> cell_wtime (jn_cells s i) \<le> vw_clock ?v i" if "i < n" for i
    using inv t that up [of i] by (auto simp: join_inv_def intro: order_trans)
  have "read_safe ?v (jn_cells s i)" if "i < n" for i
    using woken [OF that] inv by (auto simp: join_inv_def read_safe_def)
  then have "\<not> list_ex (\<lambda>i. \<not> read_safe ?v (jn_cells s i)) [0..<n]" by (auto simp: list_ex_iff)
  moreover have "cell_wtime (jn_cells s i) \<le> vw_clock (((jn_views s)(t := ?v)) i) i" if "jn_pcs s i \<noteq> AllRun" for i
  proof -
    have "cell_wtime (jn_cells s i) \<le> vw_clock (jn_views s i) i" using inv that by (simp add: join_inv_def)
    then show ?thesis using up [of i] by (auto intro: order_trans)
  qed
  ultimately show ?thesis using inv t woken
    by (auto simp: join_inv_def join_read_def Let_def fun_upd_same simp del: fun_upd_apply)
qed

text \<open>With a decrement that acquires and releases the coroutine never races with a task.\<close>

lemma join_acq_rel_safe:
  assumes "acquires mo" and "releases mo" and "n < 2 ^ 32"
  shows "join_run mo n as (join_start n junk) = Some s \<Longrightarrow> \<not> jn_raced s"
proof -
  have start: "join_inv n (join_start n junk)"
    by (simp add: join_inv_def join_start_def cell_new_def)
  have "join_run mo n as s0 = Some s \<Longrightarrow> join_inv n s0 \<Longrightarrow> join_inv n s" for s0
  proof (induction as arbitrary: s0)
    case (Cons a as)
    then obtain s1 where s1: "join_exec mo n a s0 = Some s1" "join_run mo n as s1 = Some s" by (auto split: option.splits)
    have "join_inv n s1"
      using s1(1) Cons.prems(2) join_store_inv join_count_inv [OF _ _ _ assms(3,1,2)] join_read_inv
      by (cases a) (auto split: if_splits)
    with Cons.IH s1(2) show ?case by blast
  qed simp
  with start show "join_run mo n as (join_start n junk) = Some s \<Longrightarrow> \<not> jn_raced s" by (auto simp: join_inv_def)
qed

end
