(* ===== verification/Spin_Orders.thy ===== *)
theory Spin_Orders
  imports Memory_Orders
begin

text \<open>
  The spin locks of \<^verbatim>\<open>detail/spinlock.hpp\<close> and \<^verbatim>\<open>co/spin_mutex.cpp\<close> with their memory orders, and a
  datum that is not atomic and that its threads use while they hold the lock. The relaxed loads of
  \<open>lock\<close> and \<open>try_lock\<close> only decide when the exchange is tried; here it may be tried at any time.
\<close>

section \<open>The accesses\<close>

definition spin_exchange_order :: memory_order where "spin_exchange_order = MoAcquire"
definition spin_unlock_order :: memory_order where "spin_unlock_order = MoRelease"

record 'a spin_data =
  sd_occupied :: "bool message"
  sd_views :: "nat \<Rightarrow> view"
  sd_owner :: "nat option"     \<comment> \<open>the thread whose exchange read false\<close>
  sd_cell :: "'a cell"
  sd_last :: 'a                \<comment> \<open>what was written last, in the order of the critical sections\<close>
  sd_raced :: bool

definition spin_data_start :: "'a \<Rightarrow> 'a spin_data" where
  "spin_data_start x = \<lparr>sd_occupied = \<lparr>msg_val = False, msg_clock = (\<lambda>_. 0)\<rparr>, sd_views = (\<lambda>_. view_start),
     sd_owner = None, sd_cell = cell_new x, sd_last = x, sd_raced = False\<rparr>"

definition spin_exchange :: "memory_order \<Rightarrow> nat \<Rightarrow> 'a spin_data \<Rightarrow> 'a spin_data" where
  "spin_exchange mo t s =
     (let (m, v) = view_rmw mo (sd_occupied s) True (view_tick t (sd_views s t))
      in s\<lparr>sd_occupied := m, sd_views := (sd_views s)(t := v),
           sd_owner := (if \<not> msg_val (sd_occupied s) then Some t else sd_owner s)\<rparr>)"

definition spin_store_false :: "memory_order \<Rightarrow> nat \<Rightarrow> 'a spin_data \<Rightarrow> 'a spin_data" where
  "spin_store_false mo t s =
     (let v = view_tick t (sd_views s t)
      in s\<lparr>sd_occupied := store_message mo False v, sd_views := (sd_views s)(t := v), sd_owner := None\<rparr>)"

definition spin_write :: "nat \<Rightarrow> nat \<Rightarrow> 'a \<Rightarrow> 'a spin_data \<Rightarrow> 'a spin_data" where
  "spin_write n t x s =
     (let v = view_tick t (sd_views s t)
      in s\<lparr>sd_views := (sd_views s)(t := v), sd_cell := cell_write t v x (sd_cell s), sd_last := x,
           sd_raced := (sd_raced s \<or> \<not> write_safe n v (sd_cell s))\<rparr>)"

definition spin_read :: "nat \<Rightarrow> 'a spin_data \<Rightarrow> 'a spin_data" where
  "spin_read t s =
     (let v = view_tick t (sd_views s t)
      in s\<lparr>sd_views := (sd_views s)(t := v), sd_cell := cell_read t v (sd_cell s),
           sd_raced := (sd_raced s \<or> \<not> read_safe v (sd_cell s))\<rparr>)"

datatype 'a spin_access = SpinExchange nat | SpinUnlock nat | SpinWrite nat 'a | SpinRead nat

text \<open>The data is used and the lock is released by its owner only.\<close>

fun spin_exec :: "memory_order \<Rightarrow> memory_order \<Rightarrow> nat \<Rightarrow> 'a spin_access \<Rightarrow> 'a spin_data \<Rightarrow> 'a spin_data option" where
  "spin_exec xo uo n (SpinExchange t) s = (if t < n \<and> sd_owner s \<noteq> Some t then Some (spin_exchange xo t s) else None)"
| "spin_exec xo uo n (SpinUnlock t) s = (if sd_owner s = Some t then Some (spin_store_false uo t s) else None)"
| "spin_exec xo uo n (SpinWrite t x) s = (if sd_owner s = Some t then Some (spin_write n t x s) else None)"
| "spin_exec xo uo n (SpinRead t) s = (if sd_owner s = Some t then Some (spin_read t s) else None)"

primrec spin_run :: "memory_order \<Rightarrow> memory_order \<Rightarrow> nat \<Rightarrow> 'a spin_access list \<Rightarrow> 'a spin_data \<Rightarrow> 'a spin_data option" where
  "spin_run xo uo n [] s = Some s"
| "spin_run xo uo n (a # as) s = (case spin_exec xo uo n a s of None \<Rightarrow> None | Some t \<Rightarrow> spin_run xo uo n as t)"

section \<open>Critical sections do not race\<close>

text \<open>Every access to the data happened before whoever has the lock, or before the message that frees it.\<close>

definition cell_before :: "nat \<Rightarrow> 'a cell \<Rightarrow> clock \<Rightarrow> bool" where
  "cell_before n c k \<longleftrightarrow> cell_wtime c \<le> k (cell_writer c) \<and> (\<forall>u < n. cell_reads c u \<le> k u)"

definition spin_data_inv :: "nat \<Rightarrow> 'a spin_data \<Rightarrow> bool" where
  "spin_data_inv n s \<longleftrightarrow> \<not> sd_raced s \<and> cell_val (sd_cell s) = sd_last s \<and>
     (case sd_owner s of
        None \<Rightarrow> \<not> msg_val (sd_occupied s) \<and> cell_before n (sd_cell s) (msg_clock (sd_occupied s))
      | Some t \<Rightarrow> msg_val (sd_occupied s) \<and> t < n \<and> cell_before n (sd_cell s) (vw_clock (sd_views s t)))"

lemma cell_before_mono: "cell_before n c k \<Longrightarrow> (\<And>u. k u \<le> k' u) \<Longrightarrow> cell_before n c k'"
  unfolding cell_before_def by (meson order_trans)

lemma cell_before_tick: "cell_before n c (vw_clock v) \<Longrightarrow> cell_before n c (vw_clock (view_tick t v))"
  by (rule cell_before_mono, assumption) simp

lemma cell_before_safe: "cell_before n c (vw_clock v) \<Longrightarrow> read_safe v c \<and> write_safe n v c"
  by (auto simp: cell_before_def read_safe_def write_safe_def list_all_iff)

lemma spin_exec_inv:
  assumes "acquires xo" and "releases uo" and inv: "spin_data_inv n s" and ex: "spin_exec xo uo n a s = Some s'"
  shows "spin_data_inv n s'"
proof (cases a)
  case (SpinExchange t)
  then have s': "t < n" "sd_owner s \<noteq> Some t" "s' = spin_exchange xo t s" using ex by (auto split: if_splits)
  define m v where "m = fst (view_rmw xo (sd_occupied s) True (view_tick t (sd_views s t)))"
    and "v = snd (view_rmw xo (sd_occupied s) True (view_tick t (sd_views s t)))"
  have rmw: "view_rmw xo (sd_occupied s) True (view_tick t (sd_views s t)) = (m, v)" "msg_val m"
    "vw_clock v u = (if acquires xo then max (vw_clock (view_tick t (sd_views s t)) u) (msg_clock (sd_occupied s) u)
       else vw_clock (view_tick t (sd_views s t)) u)" for u
    unfolding m_def v_def by (simp_all add: view_rmw_def Let_def view_load_clock)
  have st: "s' = s\<lparr>sd_occupied := m, sd_views := (sd_views s)(t := v),
      sd_owner := (if \<not> msg_val (sd_occupied s) then Some t else sd_owner s)\<rparr>"
    using s'(3) by (simp add: spin_exchange_def rmw(1))
  show ?thesis
  proof (cases "sd_owner s")
    case None
    have b: "cell_before n (sd_cell s) (msg_clock (sd_occupied s))" "\<not> msg_val (sd_occupied s)"
      using inv None by (simp_all add: spin_data_inv_def)
    have "cell_before n (sd_cell s) (vw_clock v)"
      using b(1) by (rule cell_before_mono) (simp add: rmw(3) assms(1))
    then show ?thesis using inv None s'(1) b(2) by (simp add: st spin_data_inv_def rmw(2))
  next
    case (Some u)
    then have "msg_val (sd_occupied s)" using inv by (simp add: spin_data_inv_def)
    then show ?thesis using inv s'(2) Some by (simp add: st spin_data_inv_def rmw(2))
  qed
next
  case (SpinUnlock t)
  then have s': "sd_owner s = Some t" "s' = spin_store_false uo t s" using ex by (auto split: if_splits)
  then show ?thesis using inv assms(2) cell_before_tick [of n "sd_cell s" "sd_views s t" t]
    by (simp add: spin_data_inv_def spin_store_false_def Let_def)
next
  case (SpinWrite t x)
  then have s': "sd_owner s = Some t" "s' = spin_write n t x s" using ex by (auto split: if_splits)
  have b: "cell_before n (sd_cell s) (vw_clock (view_tick t (sd_views s t)))"
    by (rule cell_before_tick) (use inv s' in \<open>simp add: spin_data_inv_def\<close>)
  then have "cell_before n (cell_write t (view_tick t (sd_views s t)) x (sd_cell s)) (vw_clock (view_tick t (sd_views s t)))"
    by (simp add: cell_before_def)
  with inv s' cell_before_safe [OF b] show ?thesis by (simp add: spin_data_inv_def spin_write_def Let_def)
next
  case (SpinRead t)
  then have s': "sd_owner s = Some t" "s' = spin_read t s" using ex by (auto split: if_splits)
  have b: "cell_before n (sd_cell s) (vw_clock (view_tick t (sd_views s t)))"
    by (rule cell_before_tick) (use inv s' in \<open>simp add: spin_data_inv_def\<close>)
  then have "cell_before n (cell_read t (view_tick t (sd_views s t)) (sd_cell s)) (vw_clock (view_tick t (sd_views s t)))"
    by (auto simp: cell_before_def split: if_splits)
  with inv s' cell_before_safe [OF b] show ?thesis by (simp add: spin_data_inv_def spin_read_def Let_def)
qed

lemma spin_run_inv:
  "acquires xo \<Longrightarrow> releases uo \<Longrightarrow> spin_run xo uo n as s = Some t \<Longrightarrow> spin_data_inv n s \<Longrightarrow> spin_data_inv n t"
proof (induction as arbitrary: s)
  case (Cons a as)
  then obtain u where "spin_exec xo uo n a s = Some u" "spin_run xo uo n as u = Some t" by (auto split: option.splits)
  with Cons spin_exec_inv [of xo uo n s a u] show ?case by blast
qed simp

text \<open>With the orders of the code no access to the data races, and the owner of the lock finds in the
  datum what was written to it last.\<close>

lemma spin_lock_protects:
  assumes "spin_run spin_exchange_order spin_unlock_order n as (spin_data_start x) = Some s"
  shows "\<not> sd_raced s \<and> cell_val (sd_cell s) = sd_last s"
proof -
  have "spin_data_inv n (spin_data_start x)"
    by (simp add: spin_data_inv_def spin_data_start_def cell_before_def cell_new_def)
  with spin_run_inv [OF _ _ assms] have "spin_data_inv n s"
    by (simp add: spin_exchange_order_def spin_unlock_order_def)
  then show ?thesis by (simp add: spin_data_inv_def)
qed

text \<open>A relaxed store in \<open>unlock\<close> would not do.\<close>

lemma spin_relaxed_unlock_races:
  "\<exists>s. spin_run spin_exchange_order MoRelaxed 2 [SpinExchange 0, SpinWrite 0 (1::nat), SpinUnlock 0, SpinExchange 1, SpinRead 1]
     (spin_data_start 0) = Some s \<and> sd_raced s"
proof -
  have "map_option sd_raced (spin_run spin_exchange_order MoRelaxed 2
     [SpinExchange 0, SpinWrite 0 (1::nat), SpinUnlock 0, SpinExchange 1, SpinRead 1] (spin_data_start 0)) = Some True"
    by code_simp
  then show ?thesis by auto
qed

end
