(* ===== verification/Httpd_Text.thy ===== *)
theory Httpd_Text
  imports Inet_Address
begin

text \<open>
  The text of the web server \<^verbatim>\<open>extern/liburingcxx/example/httpd.cpp\<close>: how it reads the first line of a request
  and what it answers. A C string is the list of its characters before the zero; the functions of
  \<^verbatim>\<open>string.h\<close> that the server calls are those of the C locale.
\<close>

section \<open>How the server ends\<close>

text \<open>
  \<open>exit\<close> with its status; what the language leaves undefined: a null pointer that is used, an array that is
  overrun, memory that is read before it is written or after it was freed, and memory that is
  freed twice; an exception that nobody catches.
\<close>

datatype hstop = HExit int | HNull | HOverflow | HUninit | HDangling | HDoubleFree | HTerminate | HAssert

definition hbind :: "hstop + 'a \<Rightarrow> ('a \<Rightarrow> hstop + 'b) \<Rightarrow> hstop + 'b" where
  "hbind m f = (case m of Inl e \<Rightarrow> Inl e | Inr x \<Rightarrow> f x)"

lemma hbind_simps [simp]: "hbind (Inl e) f = Inl e" "hbind (Inr x) f = f x"
  by (simp_all add: hbind_def)

lemma hbind_Inr: "hbind m f = Inr y \<longleftrightarrow> (\<exists>x. m = Inr x \<and> f x = Inr y)"
  by (cases m) auto

lemma hbind_Inl: "hbind m f = Inl e \<longleftrightarrow> m = Inl e \<or> (\<exists>x. m = Inr x \<and> f x = Inl e)"
  by (cases m) auto

section \<open>Characters and C strings\<close>

definition CR :: char where "CR = CHR 0x0D"
definition LF :: char where "LF = CHR 0x0A"
definition NUL :: char where "NUL = CHR 0x00"
definition crlf :: string where "crlf = [CR, LF]"

definition c_string :: "string \<Rightarrow> string" where
  "c_string = takeWhile (\<lambda>c. c \<noteq> NUL)"

definition tolower :: "char \<Rightarrow> char" where
  "tolower c = (let n = of_char c :: nat in if 65 \<le> n \<and> n \<le> 90 then char_of (n + 32) else c)"

definition strtolower :: "string \<Rightarrow> string" where
  "strtolower = map tolower"

text \<open>The text after the last dot, unless there is none or the name begins with it.\<close>

definition strrchr :: "string \<Rightarrow> char \<Rightarrow> nat option" where
  "strrchr s c = (let n = length (takeWhile (\<lambda>x. x \<noteq> c) (rev s))
     in if n = length s then None else Some (length s - 1 - n))"

definition get_filename_ext :: "string \<Rightarrow> string" where
  "get_filename_ext filename = (case strrchr filename (CHR ''.'') of
     None \<Rightarrow> [] | Some dot \<Rightarrow> if dot = 0 then [] else drop (dot + 1) filename)"

text \<open>The token, if there is one, and where the next call goes on.\<close>

definition strtok_r :: "string \<Rightarrow> string option \<times> string" where
  "strtok_r s = (let s = dropWhile (\<lambda>c. c = CHR '' '') s
     in if s = [] then (None, [])
        else (Some (takeWhile (\<lambda>c. c \<noteq> CHR '' '') s), drop 1 (dropWhile (\<lambda>c. c \<noteq> CHR '' '') s)))"

text \<open>
  The loop of \<open>get_line\<close> over the \<open>n\<close> characters that are left of the destination; \<open>None\<close> is that it
  returns 1, and reading behind the source is an overflow.
\<close>

fun get_line :: "string \<Rightarrow> nat \<Rightarrow> hstop + string option" where
  "get_line src 0 = Inr None"
| "get_line [] (Suc n) = Inl HOverflow"
| "get_line (c # cs) (Suc n) =
     (if c = CR then
        (case cs of [] \<Rightarrow> Inl HOverflow
         | d # _ \<Rightarrow> if d = LF then Inr (Some []) else hbind (get_line cs n) (\<lambda>l. Inr (map_option ((#) c) l)))
      else hbind (get_line cs n) (\<lambda>l. Inr (map_option ((#) c) l)))"

section \<open>The kernel version\<close>

definition isdigit :: "char \<Rightarrow> bool" where
  "isdigit c \<longleftrightarrow> (let n = of_char c :: nat in 48 \<le> n \<and> n \<le> 57)"

text \<open>\<open>strtol\<close> of digits, which stops at the largest \<open>long\<close>.\<close>

definition strtol10 :: "string \<Rightarrow> int" where
  "strtol10 s = min 9223372036854775807 (foldl (\<lambda>v c. 10 * v + (of_char c - 48)) 0 s)"

text \<open>The numbers in the release; there is room for 16 of them.\<close>

function scan_versions :: "string \<Rightarrow> int list \<Rightarrow> hstop + int list" where
  "scan_versions [] ver = Inr ver"
| "scan_versions (c # cs) ver =
     (if isdigit c then
        (if length ver \<ge> 16 then Inl HOverflow
         else scan_versions (dropWhile isdigit cs) (ver @ [strtol10 (c # takeWhile isdigit cs)]))
      else scan_versions cs ver)"
  by pat_completeness auto
termination
  by (relation "measure (\<lambda>(s, _). length s)") (auto simp: le_imp_less_Suc length_dropWhile_le)

definition MIN_KERNEL_VERSION :: int where "MIN_KERNEL_VERSION = 5"
definition MIN_MAJOR_VERSION :: int where "MIN_MAJOR_VERSION = 5"

text \<open>\<open>uname\<close> is \<open>None\<close> when it fails; both branches print the first two numbers.\<close>

definition httpd_check_kernel_version :: "string option \<Rightarrow> hstop + int" where
  "httpd_check_kernel_version uname = (case uname of
     None \<Rightarrow> Inl (HExit 1)
   | Some release \<Rightarrow> hbind (scan_versions (c_string release) []) (\<lambda>ver. case ver of
       v0 # v1 # _ \<Rightarrow>
         Inr (if v0 > MIN_KERNEL_VERSION \<or> (v0 = MIN_KERNEL_VERSION \<and> v1 \<ge> MIN_MAJOR_VERSION) then 0 else 1)
     | _ \<Rightarrow> Inl HUninit))"

section \<open>Answers\<close>

definition unimplemented_content :: string where
  "unimplemented_content = ''HTTP/1.0 400 Bad Request'' @ crlf @ ''Content-type: text/html'' @ crlf @ crlf @
     ''<html><head><title>ZeroHTTPd: Unimplemented</title></head><body><h1>Bad Request (Unimplemented)</h1>'' @
     ''<p>Your client sent a request ZeroHTTPd did not understand and it is probably not your fault.</p></body></html>''"

definition http_404_content :: string where
  "http_404_content = ''HTTP/1.0 404 Not Found'' @ crlf @ ''Content-type: text/html'' @ crlf @ crlf @
     ''<html><head><title>ZeroHTTPd: Not Found</title></head><body><h1>Not Found (404)</h1>'' @
     ''<p>Your client is asking for an object that was not found on this server.</p></body></html>''"

definition status_line :: string where "status_line = ''HTTP/1.0 200 OK'' @ crlf"
definition SERVER_STRING :: string where "SERVER_STRING = ''Server: zerohttpd/0.1'' @ crlf"

text \<open>What \<open>send_buffer\<close> holds after the comparisons; \<open>None\<close> is what was in memory.\<close>

definition content_type :: "string \<Rightarrow> string option" where
  "content_type file_ext =
     (let b = None;
          b = (if ''jpg'' = file_ext then Some (''Content-Type: image/jpeg'' @ crlf) else b);
          b = (if ''jpeg'' = file_ext then Some (''Content-Type: image/jpeg'' @ crlf) else b);
          b = (if ''png'' = file_ext then Some (''Content-Type: image/png'' @ crlf) else b);
          b = (if ''gif'' = file_ext then Some (''Content-Type: image/gif'' @ crlf) else b);
          b = (if ''htm'' = file_ext then Some (''Content-Type: text/html'' @ crlf) else b);
          b = (if ''html'' = file_ext then Some (''Content-Type: text/html'' @ crlf) else b);
          b = (if ''js'' = file_ext then Some (''Content-Type: application/javascript'' @ crlf) else b);
          b = (if ''css'' = file_ext then Some (''Content-Type: text/css'' @ crlf) else b);
          b = (if ''txt'' = file_ext then Some (''Content-Type: text/plain'' @ crlf) else b)
      in b)"

definition content_length :: "nat \<Rightarrow> string" where
  "content_length len = ''content-length: '' @ decimal len @ crlf"

text \<open>The file that a path names, in a buffer of 1024 characters with the zero.\<close>

definition final_path :: "string \<Rightarrow> hstop + string" where
  "final_path path =
     (let p = (if last path = CHR ''/'' then ''public'' @ path @ ''index.html'' else ''public'' @ path)
      in if length p + 1 \<le> 1024 then Inr p else Inl HOverflow)"

section \<open>Lemmas\<close>

text \<open>A line that ends within the buffer is read whole.\<close>

lemma get_line_spec:
  assumes "length l < n" and "\<And>i. i + 1 < length l \<Longrightarrow> l ! i = CR \<Longrightarrow> l ! (i + 1) \<noteq> LF"
  shows "get_line (l @ CR # LF # rest) n = Inr (Some l)"
  using assms
proof (induction l arbitrary: n)
  case Nil
  then show ?case by (cases n) simp_all
next
  case (Cons c l)
  then obtain m where n: "n = Suc m" by (cases n) auto
  have "get_line (l @ CR # LF # rest) m = Inr (Some l)"
  proof (rule Cons.IH)
    fix i assume "i + 1 < length l" "l ! i = CR"
    then show "l ! (i + 1) \<noteq> LF" using Cons.prems(2) [of "Suc i"] by simp
  qed (use Cons.prems n in simp)
  moreover have "hd (l @ CR # LF # rest) \<noteq> LF" if "c = CR"
    using Cons.prems(2) [of 0] that by (cases l) (auto simp: CR_def LF_def)
  ultimately show ?case using n by (cases l) auto
qed

lemma get_line_in_bounds: "n < length src \<Longrightarrow> \<exists>l. get_line src n = Inr l"
proof (induction src n rule: get_line.induct)
  case (3 c cs n)
  then obtain d ds where cs: "cs = d # ds" by (cases cs) auto
  with 3 have "\<exists>l. get_line cs n = Inr l" if "\<not> (c = CR \<and> d = LF)" using that by auto
  with cs show ?case by auto
qed auto

lemma get_line_prefix: "get_line src n = Inr (Some l) \<Longrightarrow> length l < n \<and> l @ crlf = take (length l + 2) src"
proof (induction src n arbitrary: l rule: get_line.induct)
  case (3 c cs n)
  show ?case
  proof (cases "c = CR \<and> (\<exists>d. cs = LF # d)")
    case True
    then show ?thesis using 3(3) by (auto simp: crlf_def)
  next
    case False
    then have "hbind (get_line cs n) (\<lambda>l. Inr (map_option ((#) c) l)) = Inr (Some l)"
      using 3(3) by (auto split: list.splits if_splits)
    then obtain l' where l': "get_line cs n = Inr (Some l')" "l = c # l'" by (auto simp: hbind_Inr)
    have "length l' < n \<and> l' @ crlf = take (length l' + 2) cs"
    proof (cases cs)
      case Nil
      with l'(1) show ?thesis by (cases n) auto
    next
      case (Cons d ds)
      with 3(1,2) l'(1) False show ?thesis by auto
    qed
    with l'(2) show ?thesis by simp
  qed
qed auto

lemma strtok_r_two:
  assumes "a \<noteq> []" and "b \<noteq> []" and "CHR '' '' \<notin> set a" and "CHR '' '' \<notin> set b" and "rest = [] \<or> hd rest = CHR '' ''"
  shows "strtok_r (a @ CHR '' '' # b @ rest) = (Some a, b @ rest)" and "strtok_r (b @ rest) = (Some b, drop 1 rest)"
proof -
  have t: "takeWhile (\<lambda>c. c \<noteq> CHR '' '') (x @ y) = x" "dropWhile (\<lambda>c. c \<noteq> CHR '' '') (x @ y) = y"
    if "CHR '' '' \<notin> set x" "y = [] \<or> hd y = CHR '' ''" for x y :: string
    using that by (induction x) (cases y; auto)+
  have d: "dropWhile (\<lambda>c. c = CHR '' '') (x @ y) = x @ y" if "x \<noteq> []" "CHR '' '' \<notin> set x" for x y :: string
    using that by (cases x) auto
  show "strtok_r (a @ CHR '' '' # b @ rest) = (Some a, b @ rest)"
    using assms d [of a] t [of a] by (simp add: strtok_r_def Let_def)
  show "strtok_r (b @ rest) = (Some b, drop 1 rest)"
    using assms d [of b] t [of b] by (simp add: strtok_r_def Let_def)
qed

lemma strtok_r_nonempty: "strtok_r s = (Some t, r) \<Longrightarrow> t \<noteq> []"
  using hd_dropWhile [of "\<lambda>c. c = CHR '' ''" s]
  by (auto simp: strtok_r_def Let_def takeWhile_eq_Nil_iff split: if_splits)

lemma strrchr_append:
  assumes "c \<notin> set e"
  shows "strrchr (b @ c # e) c = Some (length b)"
proof -
  have "takeWhile (\<lambda>x. x \<noteq> c) (rev e @ c # rev b) = rev e"
    using assms by (subst takeWhile_append2) auto
  then show ?thesis by (simp add: strrchr_def)
qed

text \<open>The extension of a file name, and that one without a dot has none.\<close>

lemma get_filename_ext_spec: "b \<noteq> [] \<Longrightarrow> CHR ''.'' \<notin> set e \<Longrightarrow> get_filename_ext (b @ CHR ''.'' # e) = e"
  by (simp add: get_filename_ext_def strrchr_append)

lemma get_filename_ext_none: "CHR ''.'' \<notin> set f \<Longrightarrow> get_filename_ext f = []"
proof -
  assume "CHR ''.'' \<notin> set f"
  then have t: "takeWhile (\<lambda>x. x \<noteq> CHR ''.'') (rev f) = rev f" by (simp add: takeWhile_eq_all_conv) blast
  have "strrchr f (CHR ''.'') = None" unfolding strrchr_def t by simp
  then show ?thesis by (simp add: get_filename_ext_def)
qed

text \<open>The version of a release like \<^verbatim>\<open>5.15.0-91-generic\<close>; a release with fewer than two numbers is read
  out of bounds.\<close>

lemma check_kernel_version_examples:
  "httpd_check_kernel_version (Some ''5.15.0-91-generic'') = Inr 0"
  "httpd_check_kernel_version (Some ''5.4.0'') = Inr 1"
  "httpd_check_kernel_version (Some ''6'') = Inl HUninit"
  by code_simp+

end
