(* ===== verification/Httpd.thy ===== *)
theory Httpd
  imports Httpd_Text Sq_Entry
begin

text \<open>
  The web server \<^verbatim>\<open>extern/liburingcxx/example/httpd.cpp\<close> over its ring: the requests and buffers that it allocates, the
  entries that it submits, and what it does with each completion. The kernel, the allocator, the
  file system and the configuration of the ring are the parameter \<open>henv\<close>.
\<close>

section \<open>The heap\<close>

text \<open>
  Memory that was not written is \<open>None\<close>. A request has its \<open>iovec\<close>s behind it, 16 bytes after its
  beginning; how many there are follows from the size that is allocated.
\<close>

record iovec =
  iov_base :: ptr
  iov_len :: u64

record request =
  rq_event_type :: "u32 option"
  rq_iovec_count :: "u32 option"
  rq_client_socket :: "u32 option"
  rq_iov :: "iovec option list"

datatype block = Request request | Bytes "char option list"

abbreviation EVENT_TYPE_ACCEPT :: u32 where "EVENT_TYPE_ACCEPT \<equiv> 0"
abbreviation EVENT_TYPE_READ :: u32 where "EVENT_TYPE_READ \<equiv> 1"
abbreviation EVENT_TYPE_WRITE :: u32 where "EVENT_TYPE_WRITE \<equiv> 2"

definition READ_SZ :: nat where "READ_SZ = 8192"
definition QUEUE_DEPTH :: nat where "QUEUE_DEPTH = 256"
definition DEFAULT_SERVER_PORT :: u16 where "DEFAULT_SERVER_PORT = 8000"

text \<open>
  The queue holds what is appended and not yet consumed by the kernel; \<open>hd_pending\<close> is what the kernel has
  and has not completed; \<open>hd_sent\<close> and \<open>hd_closed\<close> are what the clients see.
\<close>

record httpd =
  hd_heap :: "ptr \<Rightarrow> block option"
  hd_queue :: "sqe list"
  hd_pending :: "sqe list"
  hd_sent :: "(u32 \<times> char option list) list"
  hd_closed :: "u32 list"

text \<open>
  The ring for which the program is compiled. The server has a \<^verbatim>\<open>uring<0>\<close>, without \<^verbatim>\<open>sqe_reorder\<close>, and
  yet calls \<^verbatim>\<open>append_sq_entry\<close>: with assertions that ends the program, and without them the entry, which
  \<^verbatim>\<open>get_sq_entry\<close> has already put into the queue, is put there once more. Only a ring with
  \<^verbatim>\<open>sqe_reorder\<close> takes it once.
\<close>

datatype httpd_ring = RingReorder | RingPlainAssert | RingPlainNdebug

text \<open>
  The ring; the allocator, with the heap and the size; how many of the queued entries \<open>io_uring_enter\<close> consumes;
  what the next entry of the queue held before; the addresses of the two locals of \<open>server_loop\<close>; the files: mode and
  size, whether \<open>open\<close> succeeds, and what \<open>read\<close> of so many bytes gives, \<open>None\<close> being an error.
\<close>

record henv =
  he_ring :: httpd_ring
  he_malloc :: "(ptr \<Rightarrow> block option) \<Rightarrow> nat \<Rightarrow> ptr"
  he_enter :: "sqe list \<Rightarrow> nat"
  he_entry :: sqe
  he_client_addr :: ptr
  he_client_addr_len :: ptr
  he_stat :: "string \<Rightarrow> (u32 \<times> nat) option"
  he_open :: "string \<Rightarrow> bool"
  he_read :: "string \<Rightarrow> nat \<Rightarrow> string option"

text \<open>
  An allocated address is not in use, and not null; other blocks are never moved. A kernel consumes no more
  than there is.
\<close>

definition malloc_ok :: "((ptr \<Rightarrow> block option) \<Rightarrow> nat \<Rightarrow> ptr) \<Rightarrow> bool" where
  "malloc_ok f \<longleftrightarrow> (\<forall>h n. f h n \<noteq> 0 \<longrightarrow> h (f h n) = None)"

definition env_ok :: "henv \<Rightarrow> bool" where
  "env_ok e \<longleftrightarrow> malloc_ok (he_malloc e) \<and> he_ring e = RingReorder"

text \<open>\<open>malloc\<close> for bytes and for a request with room for \<open>n\<close> vectors; null when there is no memory.\<close>

definition malloc_bytes :: "henv \<Rightarrow> nat \<Rightarrow> httpd \<Rightarrow> ptr \<times> httpd" where
  "malloc_bytes e n s =
     (let p = he_malloc e (hd_heap s) n
      in (p, if p = 0 then s else s\<lparr>hd_heap := (hd_heap s)(p \<mapsto> Bytes (replicate n None))\<rparr>))"

definition malloc_request :: "henv \<Rightarrow> nat \<Rightarrow> httpd \<Rightarrow> ptr \<times> httpd" where
  "malloc_request e n s =
     (let p = he_malloc e (hd_heap s) (16 + 16 * n)
      in (p, if p = 0 then s else s\<lparr>hd_heap := (hd_heap s)
            (p \<mapsto> Request \<lparr>rq_event_type = None, rq_iovec_count = None, rq_client_socket = None, rq_iov = replicate n None\<rparr>)\<rparr>))"

text \<open>\<open>zh_malloc\<close> ends the program when there is no memory.\<close>

definition zh_malloc :: "ptr \<times> httpd \<Rightarrow> hstop + ptr \<times> httpd" where
  "zh_malloc m = (if fst m = 0 then Inl (HExit 1) else Inr m)"

definition at_request :: "ptr \<Rightarrow> httpd \<Rightarrow> hstop + request" where
  "at_request p s = (if p = 0 then Inl HNull
     else case hd_heap s p of Some (Request r) \<Rightarrow> Inr r | _ \<Rightarrow> Inl HDangling)"

definition at_bytes :: "ptr \<Rightarrow> httpd \<Rightarrow> hstop + char option list" where
  "at_bytes p s = (if p = 0 then Inl HNull
     else case hd_heap s p of Some (Bytes b) \<Rightarrow> Inr b | _ \<Rightarrow> Inl HDangling)"

definition put_request :: "ptr \<Rightarrow> (request \<Rightarrow> request) \<Rightarrow> httpd \<Rightarrow> hstop + httpd" where
  "put_request p f s = hbind (at_request p s) (\<lambda>r. Inr (s\<lparr>hd_heap := (hd_heap s)(p \<mapsto> Request (f r))\<rparr>))"

text \<open>\<open>memcpy\<close> and \<open>memset\<close> to the beginning of a buffer.\<close>

definition put_bytes :: "ptr \<Rightarrow> string \<Rightarrow> httpd \<Rightarrow> hstop + httpd" where
  "put_bytes p t s = hbind (at_bytes p s) (\<lambda>b.
     if length t \<le> length b
     then Inr (s\<lparr>hd_heap := (hd_heap s)(p \<mapsto> Bytes (map Some t @ drop (length t) b))\<rparr>) else Inl HOverflow)"

definition the_init :: "'a option \<Rightarrow> hstop + 'a" where
  "the_init v = (case v of None \<Rightarrow> Inl HUninit | Some x \<Rightarrow> Inr x)"

definition set_iov :: "ptr \<Rightarrow> nat \<Rightarrow> iovec \<Rightarrow> httpd \<Rightarrow> hstop + httpd" where
  "set_iov p i v s = hbind (at_request p s) (\<lambda>r. if i < length (rq_iov r)
     then put_request p (\<lambda>r. r\<lparr>rq_iov := (rq_iov r)[i := Some v]\<rparr>) s else Inl HOverflow)"

definition get_iov :: "ptr \<Rightarrow> nat \<Rightarrow> httpd \<Rightarrow> hstop + iovec" where
  "get_iov p i s = hbind (at_request p s) (\<lambda>r. if i < length (rq_iov r) then the_init (rq_iov r ! i) else Inl HOverflow)"

definition free :: "ptr \<Rightarrow> httpd \<Rightarrow> hstop + httpd" where
  "free p s = (if p = 0 then Inr s else if hd_heap s p = None then Inl HDoubleFree
     else Inr (s\<lparr>hd_heap := (hd_heap s)(p := None)\<rparr>))"

section \<open>Submitting\<close>

text \<open>A queue without a free entry gives a null pointer, which the server uses.\<close>

definition httpd_get_sq_entry :: "henv \<Rightarrow> httpd \<Rightarrow> hstop + sqe" where
  "httpd_get_sq_entry e s = (if length (hd_queue s) < QUEUE_DEPTH then Inr (he_entry e) else Inl HNull)"

text \<open>\<open>append_sq_entry\<close> and \<open>submit\<close>, whose result the server does not look at.\<close>

definition httpd_enter :: "henv \<Rightarrow> httpd \<Rightarrow> httpd" where
  "httpd_enter e s =
     (let queue = hd_queue s; n = he_enter e queue
      in s\<lparr>hd_queue := drop n queue, hd_pending := hd_pending s @ take n queue\<rparr>)"

definition httpd_enqueue :: "henv \<Rightarrow> sqe \<Rightarrow> httpd \<Rightarrow> httpd" where
  "httpd_enqueue e q s = httpd_enter e (s\<lparr>hd_queue := hd_queue s @ [q]\<rparr>)"

text \<open>
  Without \<^verbatim>\<open>sqe_reorder\<close> the entry is in slot \<open>t\<close>, an even one, with \<open>array[t] = t\<close>; \<^verbatim>\<open>append_sq_entry\<close>
  writes \<open>array[t + 1] = t\<close> and moves the tail on again. When 255 places are taken the slot is still that of
  the oldest of them, the second of a pair whose first was consumed, which then names the new entry.
\<close>

definition httpd_enqueue_twice :: "henv \<Rightarrow> sqe \<Rightarrow> httpd \<Rightarrow> httpd" where
  "httpd_enqueue_twice e q s =
     (let queue = if length (hd_queue s) = QUEUE_DEPTH - 1 then (hd_queue s)[0 := q] else hd_queue s
      in httpd_enter e (s\<lparr>hd_queue := queue @ [q, q]\<rparr>))"

definition httpd_submit :: "henv \<Rightarrow> sqe \<Rightarrow> httpd \<Rightarrow> hstop + httpd" where
  "httpd_submit e q s = (case he_ring e of
     RingReorder \<Rightarrow> Inr (httpd_enqueue e q s)
   | RingPlainAssert \<Rightarrow> Inl HAssert
   | RingPlainNdebug \<Rightarrow> Inr (httpd_enqueue_twice e q s))"

lemma httpd_submit_once: "env_ok e \<Longrightarrow> httpd_submit e q s = Inr (httpd_enqueue e q s)"
  by (simp add: httpd_submit_def env_ok_def)

lemma httpd_submit_fun: "env_ok e \<Longrightarrow> httpd_submit e q = (\<lambda>s. Inr (httpd_enqueue e q s))"
  by (simp add: fun_eq_iff httpd_submit_once)

definition add_accept_request :: "henv \<Rightarrow> u32 \<Rightarrow> httpd \<Rightarrow> hstop + httpd" where
  "add_accept_request e server_socket s =
     hbind (httpd_get_sq_entry e s) (\<lambda>q.
     let q = prep_accept server_socket (he_client_addr e) (he_client_addr_len e) 0 q;
         (req, s) = malloc_request e 0 s
     in hbind (put_request req (\<lambda>r. r\<lparr>rq_event_type := Some EVENT_TYPE_ACCEPT\<rparr>) s) (\<lambda>s.
     httpd_submit e (set_data req q) s))"

definition add_read_request :: "henv \<Rightarrow> u32 \<Rightarrow> httpd \<Rightarrow> hstop + httpd" where
  "add_read_request e client_socket s =
     hbind (httpd_get_sq_entry e s) (\<lambda>q.
     let (req, s) = malloc_request e 1 s; (buf, s) = malloc_bytes e READ_SZ s
     in hbind (set_iov req 0 \<lparr>iov_base = buf, iov_len = of_nat READ_SZ\<rparr> s) (\<lambda>s.
     hbind (put_request req (\<lambda>r. r\<lparr>rq_event_type := Some EVENT_TYPE_READ\<rparr>) s) (\<lambda>s.
     hbind (put_request req (\<lambda>r. r\<lparr>rq_client_socket := Some client_socket\<rparr>) s) (\<lambda>s.
     hbind (put_bytes buf (replicate READ_SZ NUL) s) (\<lambda>s.
     let q = prep_readv client_socket (req + 16) 1 0 q
     in httpd_submit e (set_data req q) s)))))"

definition add_write_request :: "henv \<Rightarrow> ptr \<Rightarrow> httpd \<Rightarrow> hstop + httpd" where
  "add_write_request e req s =
     hbind (httpd_get_sq_entry e s) (\<lambda>q.
     hbind (put_request req (\<lambda>r. r\<lparr>rq_event_type := Some EVENT_TYPE_WRITE\<rparr>) s) (\<lambda>s.
     hbind (at_request req s) (\<lambda>r.
     hbind (the_init (rq_client_socket r)) (\<lambda>fd.
     hbind (the_init (rq_iovec_count r)) (\<lambda>n.
     let q = prep_writev fd (req + 16) (ucast n) 0 q
     in httpd_submit e (set_data req q) s)))))"

section \<open>Answers\<close>

text \<open>A copy of a text on the heap, as \<open>iovec\<close> number \<open>i\<close> of a request.\<close>

definition put_iov_text :: "henv \<Rightarrow> ptr \<Rightarrow> nat \<Rightarrow> string \<Rightarrow> httpd \<Rightarrow> hstop + httpd" where
  "put_iov_text e req i str s =
     hbind (zh_malloc (malloc_bytes e (length str) s)) (\<lambda>(buf, s).
     hbind (set_iov req i \<lparr>iov_base = buf, iov_len = of_nat (length str)\<rparr> s) (\<lambda>s.
     put_bytes buf str s))"

definition send_static_string_content :: "henv \<Rightarrow> string \<Rightarrow> u32 \<Rightarrow> httpd \<Rightarrow> hstop + httpd" where
  "send_static_string_content e str client_socket s =
     hbind (zh_malloc (malloc_request e 1 s)) (\<lambda>(req, s).
     hbind (put_request req (\<lambda>r. r\<lparr>rq_iovec_count := Some 1, rq_client_socket := Some client_socket\<rparr>) s) (\<lambda>s.
     hbind (put_iov_text e req 0 str s) (\<lambda>s.
     add_write_request e req s)))"

definition handle_unimplemented_method :: "henv \<Rightarrow> u32 \<Rightarrow> httpd \<Rightarrow> hstop + httpd" where
  "handle_unimplemented_method e client_socket s = send_static_string_content e unimplemented_content client_socket s"

definition handle_http_404 :: "henv \<Rightarrow> u32 \<Rightarrow> httpd \<Rightarrow> hstop + httpd" where
  "handle_http_404 e client_socket s = send_static_string_content e http_404_content client_socket s"

text \<open>The file is read into a buffer of the size that \<open>stat\<close> gave; the rest of it is not written.\<close>

definition copy_file_contents :: "henv \<Rightarrow> string \<Rightarrow> nat \<Rightarrow> ptr \<Rightarrow> nat \<Rightarrow> httpd \<Rightarrow> hstop + httpd" where
  "copy_file_contents e file_path file_size req i s =
     hbind (zh_malloc (malloc_bytes e file_size s)) (\<lambda>(buf, s).
     if \<not> he_open e file_path then Inl (HExit 1)
     else hbind (case he_read e file_path file_size of None \<Rightarrow> Inr s | Some t \<Rightarrow> put_bytes buf t s) (\<lambda>s.
       set_iov req i \<lparr>iov_base = buf, iov_len = of_nat file_size\<rparr> s))"

definition send_headers :: "henv \<Rightarrow> string \<Rightarrow> nat \<Rightarrow> ptr \<Rightarrow> httpd \<Rightarrow> hstop + httpd" where
  "send_headers e path len req s =
     (let small_case_path = strtolower path
      in hbind (put_iov_text e req 0 status_line s) (\<lambda>s.
         hbind (put_iov_text e req 1 SERVER_STRING s) (\<lambda>s.
         hbind (the_init (content_type (get_filename_ext small_case_path))) (\<lambda>send_buffer.
         hbind (put_iov_text e req 2 send_buffer s) (\<lambda>s.
         hbind (put_iov_text e req 3 (content_length len) s) (\<lambda>s.
         put_iov_text e req 4 crlf s))))))"

definition S_ISREG :: "u32 \<Rightarrow> bool" where
  "S_ISREG mode \<longleftrightarrow> mode AND 0xF000 = 0x8000"

definition handle_get_method :: "henv \<Rightarrow> string option \<Rightarrow> u32 \<Rightarrow> httpd \<Rightarrow> hstop + httpd" where
  "handle_get_method e path client_socket s = (case path of
     None \<Rightarrow> Inl HNull
   | Some path \<Rightarrow> hbind (final_path path) (\<lambda>fp. case he_stat e fp of
       None \<Rightarrow> handle_http_404 e client_socket s
     | Some (mode, file_size) \<Rightarrow>
         if S_ISREG mode then
           hbind (zh_malloc (malloc_request e 6 s)) (\<lambda>(req, s).
           hbind (put_request req (\<lambda>r. r\<lparr>rq_iovec_count := Some 6, rq_client_socket := Some client_socket\<rparr>) s) (\<lambda>s.
           hbind (send_headers e fp file_size req s) (\<lambda>s.
           hbind (copy_file_contents e fp file_size req 5 s) (\<lambda>s.
           add_write_request e req s))))
         else handle_http_404 e client_socket s))"

definition handle_http_method :: "henv \<Rightarrow> string \<Rightarrow> u32 \<Rightarrow> httpd \<Rightarrow> hstop + httpd" where
  "handle_http_method e method_buffer client_socket s =
     (let (m, saveptr) = strtok_r method_buffer
      in case m of None \<Rightarrow> Inl HNull
         | Some m \<Rightarrow>
             (let m = strtolower m; (path, saveptr) = strtok_r saveptr
              in if m = ''get'' then handle_get_method e path client_socket s
                 else handle_unimplemented_method e client_socket s))"

definition handle_client_request :: "henv \<Rightarrow> ptr \<Rightarrow> httpd \<Rightarrow> hstop + httpd" where
  "handle_client_request e req s =
     hbind (get_iov req 0 s) (\<lambda>v.
     hbind (at_bytes (iov_base v) s) (\<lambda>b.
     if None \<in> set (take 1025 b) then Inl HUninit
     else hbind (get_line (map the b) 1024) (\<lambda>l. case l of
       None \<Rightarrow> Inl (HExit 1)
     | Some l \<Rightarrow>
         hbind (at_request req s) (\<lambda>r.
         hbind (the_init (rq_client_socket r)) (\<lambda>fd.
         handle_http_method e (c_string l) fd s)))))"

section \<open>Completions\<close>

text \<open>
  What the kernel does before it posts a completion: it writes into the buffers of a read what the
  client has sent, and takes from those of a write what it sends. The vectors are where the entry says.
\<close>

definition kernel_read :: "string \<Rightarrow> sqe \<Rightarrow> httpd \<Rightarrow> hstop + httpd" where
  "kernel_read t q s = hbind (get_iov (sqe_addr q - 16) 0 s) (\<lambda>v. put_bytes (iov_base v) t s)"

definition gather_iov :: "httpd \<Rightarrow> iovec \<Rightarrow> hstop + char option list" where
  "gather_iov s v = hbind (at_bytes (iov_base v) s) (\<lambda>b.
     if unat (iov_len v) \<le> length b then Inr (take (unat (iov_len v)) b) else Inl HOverflow)"

fun gather :: "ptr \<Rightarrow> nat \<Rightarrow> nat \<Rightarrow> httpd \<Rightarrow> hstop + char option list" where
  "gather req i 0 s = Inr []"
| "gather req i (Suc n) s =
     hbind (get_iov req i s) (\<lambda>v. hbind (gather_iov s v) (\<lambda>b. hbind (gather req (Suc i) n s) (\<lambda>bs. Inr (b @ bs))))"

definition kernel_write :: "sqe \<Rightarrow> nat \<Rightarrow> httpd \<Rightarrow> hstop + httpd" where
  "kernel_write q n s = hbind (gather (sqe_addr q - 16) 0 (unat (sqe_len q)) s) (\<lambda>b.
     Inr (s\<lparr>hd_sent := hd_sent s @ [(sqe_fd q, take n b)]\<rparr>))"

definition kernel_complete :: "sqe \<Rightarrow> int \<Rightarrow> string \<Rightarrow> httpd \<Rightarrow> hstop + httpd" where
  "kernel_complete q res t s =
     (if res < 0 then Inr s
      else if sqe_opcode q = IORING_OP_READV then kernel_read t q s
      else if sqe_opcode q = IORING_OP_WRITEV then kernel_write q (nat res) s else Inr s)"

text \<open>The loop over the buffers of a request that was written.\<close>

fun free_iovs :: "ptr \<Rightarrow> nat \<Rightarrow> nat \<Rightarrow> httpd \<Rightarrow> hstop + httpd" where
  "free_iovs req i 0 s = Inr s"
| "free_iovs req i (Suc n) s =
     hbind (get_iov req i s) (\<lambda>v. hbind (free (iov_base v) s) (\<lambda>s. free_iovs req (Suc i) n s))"

definition serve_accept :: "henv \<Rightarrow> u32 \<Rightarrow> ptr \<Rightarrow> int \<Rightarrow> httpd \<Rightarrow> hstop + httpd" where
  "serve_accept e server_socket req res s =
     hbind (add_accept_request e server_socket s) (\<lambda>s.
     hbind (add_read_request e (word_of_int res) s) (\<lambda>s. free req s))"

definition serve_read :: "henv \<Rightarrow> ptr \<Rightarrow> int \<Rightarrow> httpd \<Rightarrow> hstop + httpd" where
  "serve_read e req res s =
     (if res = 0 then Inr s
      else hbind (handle_client_request e req s) (\<lambda>s.
           hbind (get_iov req 0 s) (\<lambda>v. hbind (free (iov_base v) s) (\<lambda>s. free req s))))"

definition serve_write :: "ptr \<Rightarrow> httpd \<Rightarrow> hstop + httpd" where
  "serve_write req s =
     hbind (at_request req s) (\<lambda>r.
     hbind (the_init (rq_iovec_count r)) (\<lambda>n.
     hbind (free_iovs req 0 (unat n) s) (\<lambda>s.
     hbind (the_init (rq_client_socket r)) (\<lambda>fd.
     free req (s\<lparr>hd_closed := hd_closed s @ [fd]\<rparr>)))))"

definition serve_cqe :: "henv \<Rightarrow> u32 \<Rightarrow> ptr \<Rightarrow> int \<Rightarrow> httpd \<Rightarrow> hstop + httpd" where
  "serve_cqe e server_socket req res s =
     hbind (at_request req s) (\<lambda>r.
     hbind (the_init (rq_event_type r)) (\<lambda>t.
     if res < 0 then Inl (HExit 1)
     else if t = EVENT_TYPE_ACCEPT then serve_accept e server_socket req res s
     else if t = EVENT_TYPE_READ then serve_read e req res s
     else if t = EVENT_TYPE_WRITE then serve_write req s
     else Inr s))"

text \<open>
  A pass of the loop: \<open>wait_cq_entry\<close> fails and the completion is null, or entry \<open>i\<close> of those that the
  kernel has completes with a result, and with what the client sent.
\<close>

datatype httpd_event = WaitFails | Completes nat int string

definition server_pass :: "henv \<Rightarrow> u32 \<Rightarrow> httpd_event \<Rightarrow> httpd \<Rightarrow> hstop + httpd" where
  "server_pass e server_socket ev s = (case ev of
     WaitFails \<Rightarrow> Inl HNull
   | Completes i res t \<Rightarrow>
       (let q = hd_pending s ! i
        in hbind (kernel_complete q res t s) (\<lambda>s.
           serve_cqe e server_socket (get_data q) res
             (s\<lparr>hd_pending := take i (hd_pending s) @ drop (Suc i) (hd_pending s)\<rparr>))))"

text \<open>The kernel completes what it has, with no more than fits, and what it reports it has read or written.\<close>

definition event_ok :: "httpd_event \<Rightarrow> httpd \<Rightarrow> bool" where
  "event_ok ev s = (case ev of
     WaitFails \<Rightarrow> True
   | Completes i res t \<Rightarrow> i < length (hd_pending s) \<and> length t \<le> READ_SZ \<and>
       (sqe_opcode (hd_pending s ! i) = IORING_OP_READV \<longrightarrow> res < 0 \<or> nat res = length t))"

text \<open>The loop over what it observes; an event that the kernel cannot produce is \<open>None\<close>.\<close>

primrec server_run :: "henv \<Rightarrow> u32 \<Rightarrow> httpd_event list \<Rightarrow> httpd \<Rightarrow> (hstop + httpd) option" where
  "server_run e server_socket [] s = Some (Inr s)"
| "server_run e server_socket (ev # evs) s =
     (if event_ok ev s then case server_pass e server_socket ev s of
        Inl x \<Rightarrow> Some (Inl x) | Inr s \<Rightarrow> server_run e server_socket evs s
      else None)"

definition httpd_start :: httpd where
  "httpd_start = \<lparr>hd_heap = (\<lambda>_. None), hd_queue = [], hd_pending = [], hd_sent = [], hd_closed = []\<rparr>"

definition server_loop :: "henv \<Rightarrow> u32 \<Rightarrow> httpd_event list \<Rightarrow> (hstop + httpd) option" where
  "server_loop e server_socket evs = (case add_accept_request e server_socket httpd_start of
     Inl x \<Rightarrow> Some (Inl x) | Inr s \<Rightarrow> server_run e server_socket evs s)"

section \<open>The start\<close>

text \<open>
  The listening socket: what \<open>socket\<close>, \<open>setsockopt\<close>, \<open>bind\<close> and \<open>listen\<close> return; \<open>bind\<close> gets the family,
  the port and the address.
\<close>

definition setup_listening_socket ::
  "int \<Rightarrow> (int \<Rightarrow> int) \<Rightarrow> (int \<Rightarrow> u16 \<times> u16 \<times> u32 \<Rightarrow> int) \<Rightarrow> (int \<Rightarrow> int \<Rightarrow> int) \<Rightarrow> u16 \<Rightarrow> hstop + int" where
  "setup_listening_socket socket setsockopt bind' listen port =
     (let sock = socket
      in if sock = - 1 then Inl (HExit 1)
         else if setsockopt sock < 0 then Inl (HExit 1)
         else if bind' sock (AF_INET, htons port, 0) < 0 then Inl (HExit 1)
         else if listen sock 10 < 0 then Inl (HExit 1)
         else Inr sock)"

definition check_for_index_file :: "henv \<Rightarrow> hstop + unit" where
  "check_for_index_file e = (case he_stat e ''public/index.html'' of None \<Rightarrow> Inl (HExit 1) | Some _ \<Rightarrow> Inr ())"

text \<open>The program; \<open>init\<close> of the ring throws what nobody catches. The left result is how it ends.\<close>

definition httpd_main ::
  "henv \<Rightarrow> string option \<Rightarrow> int \<Rightarrow> (int \<Rightarrow> int) \<Rightarrow> (int \<Rightarrow> u16 \<times> u16 \<times> u32 \<Rightarrow> int) \<Rightarrow> (int \<Rightarrow> int \<Rightarrow> int) \<Rightarrow> bool \<Rightarrow>
   httpd_event list \<Rightarrow> (hstop + httpd) option" where
  "httpd_main e uname socket setsockopt bind' listen init_ok evs =
     (case hbind (httpd_check_kernel_version uname) (\<lambda>v.
           if v \<noteq> 0 then Inl (HExit 1)
           else hbind (check_for_index_file e) (\<lambda>_. setup_listening_socket socket setsockopt bind' listen DEFAULT_SERVER_PORT)) of
        Inl x \<Rightarrow> Some (Inl x)
      | Inr server_socket \<Rightarrow> if init_ok then server_loop e (word_of_int server_socket) evs else Some (Inl HTerminate))"

end
