(* ===== verification/Httpd_Safe.thy ===== *)
theory Httpd_Safe
  imports Httpd
begin

text \<open>
  Who owns the memory of the web server \<^verbatim>\<open>example/httpd.cpp\<close>: each entry in flight owns its request and the
  buffers of the request, and a handler owns what it has allocated and what it was handed.
\<close>

section \<open>Entries in flight\<close>

type_synonym heap = "ptr \<Rightarrow> block option"

definition hd_owned :: "heap \<Rightarrow> sqe \<Rightarrow> ptr list" where
  "hd_owned h q = (case h (get_data q) of
     Some (Request r) \<Rightarrow> get_data q # map (\<lambda>v. iov_base (the v)) (rq_iov r) | _ \<Rightarrow> [])"

text \<open>A buffer that is at least as long as its vector says.\<close>

definition buffer_at :: "heap \<Rightarrow> iovec \<Rightarrow> char option list \<Rightarrow> bool" where
  "buffer_at h v b \<longleftrightarrow> iov_base v \<noteq> 0 \<and> h (iov_base v) = Some (Bytes b) \<and> unat (iov_len v) \<le> length b"

definition accept_ok :: "request \<Rightarrow> sqe \<Rightarrow> bool" where
  "accept_ok r q \<longleftrightarrow> rq_event_type r = Some EVENT_TYPE_ACCEPT \<and> rq_iov r = [] \<and> sqe_opcode q = IORING_OP_ACCEPT"

definition read_ok :: "heap \<Rightarrow> request \<Rightarrow> sqe \<Rightarrow> bool" where
  "read_ok h r q \<longleftrightarrow> rq_event_type r = Some EVENT_TYPE_READ \<and> sqe_opcode q = IORING_OP_READV \<and>
     sqe_addr q = get_data q + 16 \<and> rq_client_socket r = Some (sqe_fd q) \<and>
     (\<exists>v b. rq_iov r = [Some v] \<and> buffer_at h v b \<and> length b = READ_SZ \<and> None \<notin> set b)"

definition write_ok :: "heap \<Rightarrow> request \<Rightarrow> sqe \<Rightarrow> bool" where
  "write_ok h r q \<longleftrightarrow> rq_event_type r = Some EVENT_TYPE_WRITE \<and> sqe_opcode q = IORING_OP_WRITEV \<and>
     sqe_addr q = get_data q + 16 \<and> rq_client_socket r = Some (sqe_fd q) \<and>
     rq_iovec_count r = Some (sqe_len q) \<and> unat (sqe_len q) = length (rq_iov r) \<and>
     (\<forall>v\<in>set (rq_iov r). \<exists>w b. v = Some w \<and> buffer_at h w b)"

definition entry_ok :: "heap \<Rightarrow> sqe \<Rightarrow> bool" where
  "entry_ok h q \<longleftrightarrow> get_data q \<noteq> 0 \<and>
     (\<exists>r. h (get_data q) = Some (Request r) \<and> (accept_ok r q \<or> read_ok h r q \<or> write_ok h r q))"

lemma hd_owned_request: "h (get_data q) = Some (Request r) \<Longrightarrow> hd_owned h q = get_data q # map (\<lambda>v. iov_base (the v)) (rq_iov r)"
  by (simp add: hd_owned_def)

lemma entry_frame:
  assumes "entry_ok h q" and "\<And>a. a \<in> set (hd_owned h q) \<Longrightarrow> h' a = h a"
  shows "entry_ok h' q" and "hd_owned h' q = hd_owned h q"
proof -
  from assms(1) obtain r where r: "get_data q \<noteq> 0" "h (get_data q) = Some (Request r)"
    "accept_ok r q \<or> read_ok h r q \<or> write_ok h r q" by (auto simp: entry_ok_def)
  note ow = hd_owned_request [of h q, OF r(2)]
  have h': "h' (get_data q) = Some (Request r)" using assms(2) [of "get_data q"] r(2) ow by simp
  show "hd_owned h' q = hd_owned h q" by (simp add: ow hd_owned_request [of h' q, OF h'])
  have b: "buffer_at h' v b" if "buffer_at h v b" "Some v \<in> set (rq_iov r)" for v b
  proof -
    have "iov_base v \<in> set (hd_owned h q)" using that(2) by (force simp: ow)
    with that(1) assms(2) show ?thesis by (simp add: buffer_at_def)
  qed
  from r(3) have "accept_ok r q \<or> read_ok h' r q \<or> write_ok h' r q"
  proof (elim disjE)
    assume "read_ok h r q"
    then show ?thesis using b by (fastforce simp: read_ok_def)
  next
    assume "write_ok h r q"
    then show ?thesis using b by (fastforce simp: write_ok_def)
  qed blast
  with r(1) h' show "entry_ok h' q" by (auto simp: entry_ok_def)
qed

definition hd_in_flight :: "httpd \<Rightarrow> sqe list" where
  "hd_in_flight s = hd_queue s @ hd_pending s"

definition held :: "heap \<Rightarrow> sqe list \<Rightarrow> ptr list" where
  "held h qs = concat (map (hd_owned h) qs)"

lemma held_simps [simp]: "held h [] = []" "held h (q # qs) = hd_owned h q @ held h qs" "held h (xs @ ys) = held h xs @ held h ys"
  by (simp_all add: held_def)

lemma held_mset: "mset xs = mset ys \<Longrightarrow> mset (held h xs) = mset (held h ys)"
proof -
  have "mset (held h qs) = (\<Sum>q \<in># mset qs. mset (hd_owned h q))" for qs by (induction qs) (simp_all add: held_def)
  then show "mset xs = mset ys \<Longrightarrow> mset (held h xs) = mset (held h ys)" by simp
qed

text \<open>The blocks of the heap are those of the entries in flight and, apart from them, those of \<open>T\<close>.\<close>

definition owns :: "ptr set \<Rightarrow> httpd \<Rightarrow> bool" where
  "owns T s \<longleftrightarrow> (\<forall>q \<in> set (hd_in_flight s). entry_ok (hd_heap s) q) \<and> distinct (held (hd_heap s) (hd_in_flight s)) \<and>
     T \<inter> set (held (hd_heap s) (hd_in_flight s)) = {} \<and> dom (hd_heap s) = T \<union> set (held (hd_heap s) (hd_in_flight s)) \<and>
     hd_heap s 0 = None"

lemma owns_start: "owns {} httpd_start"
  by (simp add: owns_def httpd_start_def hd_in_flight_def)

text \<open>What a handler does to its own blocks and to new ones does not touch the entries in flight.\<close>

lemma owns_frame:
  assumes "owns T s" and "\<And>a. a \<notin> T \<Longrightarrow> hd_heap s a \<noteq> None \<Longrightarrow> h a = hd_heap s a" and "h 0 = None"
    and "hd_queue s' = hd_queue s" and "hd_pending s' = hd_pending s" and "hd_heap s' = h"
  shows "owns (dom h - (dom (hd_heap s) - T)) s'"
proof -
  have fl: "hd_in_flight s' = hd_in_flight s" using assms(4,5) by (simp add: hd_in_flight_def)
  have same: "h a = hd_heap s a" if "a \<in> set (held (hd_heap s) (hd_in_flight s))" for a
    using assms(1) that by (intro assms(2)) (auto simp: owns_def)
  have e: "entry_ok h q \<and> hd_owned h q = hd_owned (hd_heap s) q" if "q \<in> set (hd_in_flight s)" for q
  proof -
    have "\<And>a. a \<in> set (hd_owned (hd_heap s) q) \<Longrightarrow> h a = hd_heap s a" using that by (intro same) (auto simp: held_def)
    with entry_frame [of "hd_heap s" q h] that assms(1) show ?thesis by (simp add: owns_def)
  qed
  then have hd: "held h (hd_in_flight s) = held (hd_heap s) (hd_in_flight s)"
    by (simp add: held_def cong: map_cong)
  have "set (held (hd_heap s) (hd_in_flight s)) \<subseteq> dom h" using same assms(1) by (fastforce simp: owns_def dom_def)
  with assms(1,3) e show ?thesis unfolding owns_def fl assms(6) hd by auto
qed

text \<open>The handler takes over the blocks of a completed entry.\<close>

lemma owns_take:
  assumes "owns T s" and "i < length (hd_pending s)" and "q = hd_pending s ! i"
  shows "owns (T \<union> set (hd_owned (hd_heap s) q)) (s\<lparr>hd_pending := take i (hd_pending s) @ drop (Suc i) (hd_pending s)\<rparr>)"
    and "entry_ok (hd_heap s) q" and "distinct (hd_owned (hd_heap s) q)" and "T \<inter> set (hd_owned (hd_heap s) q) = {}"
proof -
  let ?s = "s\<lparr>hd_pending := take i (hd_pending s) @ drop (Suc i) (hd_pending s)\<rparr>"
  have "mset (hd_pending s) = mset (take i (hd_pending s) @ q # drop (Suc i) (hd_pending s))"
    using assms(2,3) by (simp add: id_take_nth_drop [symmetric])
  then have m: "mset (hd_in_flight s) = mset (q # hd_in_flight ?s)" by (simp add: hd_in_flight_def)
  have mh: "mset (held (hd_heap s) (hd_in_flight s)) = mset (hd_owned (hd_heap s) q @ held (hd_heap s) (hd_in_flight ?s))"
    using held_mset [OF m, of "hd_heap s"] by simp
  have s: "set (hd_in_flight s) = set (q # hd_in_flight ?s)" using m by (rule mset_eq_setD)
  have sh: "set (held (hd_heap s) (hd_in_flight s)) = set (hd_owned (hd_heap s) q) \<union> set (held (hd_heap s) (hd_in_flight ?s))"
    using mset_eq_setD [OF mh] by simp
  have d: "distinct (hd_owned (hd_heap s) q @ held (hd_heap s) (hd_in_flight ?s))"
    using assms(1) mset_eq_imp_distinct_iff [OF mh] by (simp add: owns_def)
  then show "owns (T \<union> set (hd_owned (hd_heap s) q)) ?s" using assms(1) s sh unfolding owns_def by auto
  show "distinct (hd_owned (hd_heap s) q)" using d by simp
  show "entry_ok (hd_heap s) q" using assms(1) s by (simp add: owns_def)
  show "T \<inter> set (hd_owned (hd_heap s) q) = {}" using assms(1) sh by (auto simp: owns_def)
qed

text \<open>It gives the blocks of the entries that it submits away.\<close>

lemma owns_submit:
  assumes "owns T s" and "entry_ok (hd_heap s) q" and "set (hd_owned (hd_heap s) q) \<subseteq> T" and "distinct (hd_owned (hd_heap s) q)"
  shows "owns (T - set (hd_owned (hd_heap s) q)) (httpd_enqueue e q s)"
proof -
  let ?s = "httpd_enqueue e q s"
  have h: "hd_heap ?s = hd_heap s" by (simp add: httpd_enqueue_def httpd_enter_def Let_def)
  have m: "mset (hd_in_flight ?s) = mset (q # hd_in_flight s)"
  proof -
    have "mset (drop n xs @ ys @ take n xs) = mset (xs @ ys)" for n and xs ys :: "sqe list"
      using mset_append [of "take n xs" "drop n xs"] by (simp add: add.commute)
    from this [of _ "hd_queue s @ [q]" "hd_pending s"] show ?thesis
      by (simp add: httpd_enqueue_def httpd_enter_def Let_def hd_in_flight_def del: drop_append take_append)
  qed
  have mh: "mset (held (hd_heap s) (hd_in_flight ?s)) = mset (hd_owned (hd_heap s) q @ held (hd_heap s) (hd_in_flight s))"
    using held_mset [OF m, of "hd_heap s"] by simp
  have sm: "set (hd_in_flight ?s) = set (q # hd_in_flight s)" using m by (rule mset_eq_setD)
  have sh: "set (held (hd_heap s) (hd_in_flight ?s)) = set (hd_owned (hd_heap s) q) \<union> set (held (hd_heap s) (hd_in_flight s))"
    using mset_eq_setD [OF mh] by simp
  have "distinct (hd_owned (hd_heap s) q @ held (hd_heap s) (hd_in_flight s))"
    using assms by (auto simp: owns_def)
  then have d: "distinct (held (hd_heap s) (hd_in_flight ?s))" using mset_eq_imp_distinct_iff [OF mh] by simp
  show ?thesis using assms d unfolding owns_def h sm sh by auto
qed

section \<open>Building an answer\<close>

definition yields :: "hstop + 'a \<Rightarrow> (hstop \<Rightarrow> bool) \<Rightarrow> ('a \<Rightarrow> bool) \<Rightarrow> bool" where
  "yields m P Q \<longleftrightarrow> (case m of Inl x \<Rightarrow> P x | Inr y \<Rightarrow> Q y)"

lemma yields_simps [simp]: "yields (Inl x) P Q \<longleftrightarrow> P x" "yields (Inr y) P Q \<longleftrightarrow> Q y"
  by (simp_all add: yields_def)

lemma yields_bind: "yields m P R \<Longrightarrow> (\<And>y. R y \<Longrightarrow> yields (f y) P Q) \<Longrightarrow> yields (hbind m f) P Q"
  by (cases m) simp_all

lemma yields_mono: "yields m P Q \<Longrightarrow> (\<And>x. P x \<Longrightarrow> P' x) \<Longrightarrow> (\<And>y. Q y \<Longrightarrow> Q' y) \<Longrightarrow> yields m P' Q'"
  by (cases m) simp_all

text \<open>There is memory for eight more blocks.\<close>

definition enough :: "henv \<Rightarrow> httpd \<Rightarrow> bool" where
  "enough e s0 \<longleftrightarrow> (\<forall>h n. card (dom h) < card (dom (hd_heap s0)) + 8 \<longrightarrow> he_malloc e h n \<noteq> 0)"

abbreviation no_room :: "henv \<Rightarrow> httpd \<Rightarrow> hstop \<Rightarrow> bool" where
  "no_room e s0 x \<equiv> x = HExit 1 \<and> \<not> enough e s0"

text \<open>
  Since the state \<open>s0\<close> a request was allocated, and its first vectors \<open>vs\<close> point to new buffers with the
  contents \<open>bs\<close>.
\<close>

definition built :: "httpd \<Rightarrow> ptr \<Rightarrow> request \<Rightarrow> iovec list \<Rightarrow> char option list list \<Rightarrow> httpd \<Rightarrow> bool" where
  "built s0 req r vs bs s \<longleftrightarrow> req \<noteq> 0 \<and> hd_heap s0 req = None \<and> hd_heap s req = Some (Request r) \<and>
     distinct (req # map iov_base vs) \<and> (\<forall>v \<in> set vs. hd_heap s0 (iov_base v) = None) \<and>
     list_all2 (buffer_at (hd_heap s)) vs bs \<and> take (length vs) (rq_iov r) = map Some vs \<and>
     (\<forall>a. a \<notin> set (req # map iov_base vs) \<longrightarrow> hd_heap s a = hd_heap s0 a) \<and>
     hd_queue s = hd_queue s0 \<and> hd_pending s = hd_pending s0 \<and> hd_sent s = hd_sent s0 \<and> hd_closed s = hd_closed s0"

lemma builtD:
  assumes "built s0 req r vs bs s"
  shows "req \<noteq> 0" "hd_heap s0 req = None" "hd_heap s req = Some (Request r)" "req \<notin> iov_base ` set vs"
    "distinct (map iov_base vs)" "v \<in> set vs \<Longrightarrow> hd_heap s0 (iov_base v) = None"
    "list_all2 (buffer_at (hd_heap s)) vs bs" "take (length vs) (rq_iov r) = map Some vs"
    "a \<noteq> req \<Longrightarrow> a \<notin> iov_base ` set vs \<Longrightarrow> hd_heap s a = hd_heap s0 a"
    "hd_queue s = hd_queue s0" "hd_pending s = hd_pending s0" "hd_sent s = hd_sent s0" "hd_closed s = hd_closed s0"
  using assms unfolding built_def by simp_all

lemma built_card:
  assumes "built s0 req r vs bs s"
  shows "card (dom (hd_heap s)) \<le> card (dom (hd_heap s0)) + (1 + length vs)"
proof -
  have "dom (hd_heap s) \<subseteq> dom (hd_heap s0) \<union> set (req # map iov_base vs)"
  proof
    fix a assume "a \<in> dom (hd_heap s)"
    with assms show "a \<in> dom (hd_heap s0) \<union> set (req # map iov_base vs)" unfolding built_def by (metis UnCI domD domI)
  qed
  then have "card (dom (hd_heap s)) \<le> card (dom (hd_heap s0) \<union> set (req # map iov_base vs))" by (intro card_mono) simp_all
  also have "\<dots> \<le> card (dom (hd_heap s0)) + card (set (req # map iov_base vs))" by (rule card_Un_le)
  also have "card (set (req # map iov_base vs)) \<le> 1 + length vs" using card_length [of "req # map iov_base vs"] by simp
  finally show ?thesis by simp
qed

lemma built_no_room: "built s0 req r vs bs s \<Longrightarrow> length vs \<le> 6 \<Longrightarrow> he_malloc e (hd_heap s) n = 0 \<Longrightarrow> \<not> enough e s0"
  using built_card [of s0 req r vs bs s] by (force simp: enough_def)

lemma not_enough: "he_malloc e (hd_heap s0) n = 0 \<Longrightarrow> \<not> enough e s0"
  by (force simp: enough_def)

lemma buffers_frame:
  "list_all2 (buffer_at h) vs bs \<Longrightarrow> (\<And>v. v \<in> set vs \<Longrightarrow> h' (iov_base v) = h (iov_base v)) \<Longrightarrow> list_all2 (buffer_at h') vs bs"
  by (induction vs bs rule: list_all2_induct) (auto simp: buffer_at_def)

lemma malloc_request_spec:
  assumes "env_ok e"
  shows "yields (zh_malloc (malloc_request e n s0)) (no_room e s0) (\<lambda>(req, s). built s0 req
    \<lparr>rq_event_type = None, rq_iovec_count = None, rq_client_socket = None, rq_iov = replicate n None\<rparr> [] [] s)"
  using assms by (auto simp: zh_malloc_def malloc_request_def Let_def built_def env_ok_def malloc_ok_def not_enough)

text \<open>A request keeps what is built when its other fields change.\<close>

lemma built_put_request:
  assumes b: "built s0 req r vs bs s" and f: "rq_iov (f r) = rq_iov r"
  shows "yields (put_request req f s) (\<lambda>_. False) (built s0 req (f r) vs bs)"
proof -
  let ?s = "s\<lparr>hd_heap := (hd_heap s)(req \<mapsto> Request (f r))\<rparr>"
  have "list_all2 (buffer_at (hd_heap ?s)) vs bs"
    using builtD(4,7) [OF b] by (auto intro!: buffers_frame [of "hd_heap s", OF builtD(7) [OF b]])
  with b f have "built s0 req (f r) vs bs ?s" unfolding built_def by simp
  moreover have "put_request req f s = Inr ?s" using builtD(1,3) [OF b] by (simp add: put_request_def at_request_def)
  ultimately show ?thesis by simp
qed

lemma built_set_iov:
  assumes m: "env_ok e" and b: "built s0 req r vs bs s" and i: "i = length vs" "i < length (rq_iov r)"
    and buf: "(buf, s1) = malloc_bytes e n s" "buf \<noteq> 0" and t: "length t \<le> n"
    and v: "iov_base v = buf" "unat (iov_len v) \<le> n"
  shows "yields (hbind (put_bytes buf t s1) (set_iov req i v)) (\<lambda>_. False)
    (built s0 req (r\<lparr>rq_iov := (rq_iov r)[i := Some v]\<rparr>) (vs @ [v]) (bs @ [map Some t @ replicate (n - length t) None]))"
    and "yields (hbind (set_iov req i v s1) (put_bytes buf t)) (\<lambda>_. False)
    (built s0 req (r\<lparr>rq_iov := (rq_iov r)[i := Some v]\<rparr>) (vs @ [v]) (bs @ [map Some t @ replicate (n - length t) None]))"
proof -
  let ?r = "r\<lparr>rq_iov := (rq_iov r)[i := Some v]\<rparr>" and ?b = "map Some t @ replicate (n - length t) None"
  let ?h = "(hd_heap s)(buf \<mapsto> Bytes ?b, req \<mapsto> Request ?r)"
  have s1: "s1 = s\<lparr>hd_heap := (hd_heap s)(buf \<mapsto> Bytes (replicate n None))\<rparr>" and free: "hd_heap s buf = None"
    using buf m by (auto simp: malloc_bytes_def Let_def env_ok_def malloc_ok_def)
  have "iov_base w \<noteq> buf" if "w \<in> set vs" for w
    using builtD(7) [OF b] that free by (auto simp: list_all2_conv_all_nth in_set_conv_nth buffer_at_def)
  then have ne: "req \<noteq> buf" "buf \<notin> iov_base ` set vs" "req \<notin> iov_base ` set vs"
    using builtD(3,4) [OF b] free by auto
  have free0: "hd_heap s0 buf = None" using builtD(9) [OF b, of buf] ne free by simp
  have keep: "list_all2 (buffer_at ?h) vs bs"
    using ne builtD(7) [OF b] by (auto intro!: buffers_frame [of "hd_heap s", OF builtD(7) [OF b]])
  have vb: "buffer_at ?h v ?b" using v t ne buf(2) by (simp add: buffer_at_def)
  have tk: "take (length (vs @ [v])) (rq_iov ?r) = map Some (vs @ [v])"
    using i builtD(8) [OF b] by (simp add: take_Suc_conv_app_nth)
  have bt: "built s0 req ?r (vs @ [v]) (bs @ [?b]) (s\<lparr>hd_heap := ?h\<rparr>)"
    unfolding built_def
  proof (intro conjI allI ballI impI)
    show "list_all2 (buffer_at (hd_heap (s\<lparr>hd_heap := ?h\<rparr>))) (vs @ [v]) (bs @ [?b])"
      using keep vb by (simp add: list_all2_appendI)
    show "distinct (req # map iov_base (vs @ [v]))" using ne v(1) builtD(5) [OF b] by auto
  next
    fix w assume "w \<in> set (vs @ [v])"
    then show "hd_heap s0 (iov_base w) = None" using builtD(6) [OF b, of w] free0 v(1) by auto
  next
    fix a assume "a \<notin> set (req # map iov_base (vs @ [v]))"
    then show "hd_heap (s\<lparr>hd_heap := ?h\<rparr>) a = hd_heap s0 a" using builtD(9) [OF b, of a] v(1) by simp
  qed (use tk builtD [OF b] in simp_all)
  have r: "req \<noteq> 0" "hd_heap s req = Some (Request r)" using b by (simp_all add: built_def)
  let ?s1 = "s\<lparr>hd_heap := (hd_heap s)(buf \<mapsto> Bytes ?b)\<rparr>" and ?s2 = "s1\<lparr>hd_heap := (hd_heap s1)(req \<mapsto> Request ?r)\<rparr>"
  have "put_bytes buf t s1 = Inr ?s1" "put_bytes buf t ?s2 = Inr (s\<lparr>hd_heap := ?h\<rparr>)"
    "set_iov req i v s1 = Inr ?s2" "set_iov req i v ?s1 = Inr (s\<lparr>hd_heap := ?h\<rparr>)"
    using r ne(1) i(2) t buf(2)
    by (simp_all add: s1 put_bytes_def at_bytes_def set_iov_def put_request_def at_request_def fun_upd_twist)
  with bt show "yields (hbind (put_bytes buf t s1) (set_iov req i v)) (\<lambda>_. False) (built s0 req ?r (vs @ [v]) (bs @ [?b]))"
    "yields (hbind (set_iov req i v s1) (put_bytes buf t)) (\<lambda>_. False) (built s0 req ?r (vs @ [v]) (bs @ [?b]))"
    by simp_all
qed

lemma put_iov_text_spec:
  assumes m: "env_ok e" and b: "built s0 req r vs bs s" and i: "i = length vs" "i < length (rq_iov r)" "i \<le> 6"
  shows "yields (put_iov_text e req i str s) (no_room e s0)
    (\<lambda>s. \<exists>v. unat (iov_len v) = length str mod 2 ^ 64 \<and> built s0 req (r\<lparr>rq_iov := (rq_iov r)[i := Some v]\<rparr>) (vs @ [v]) (bs @ [map Some str]) s)"
proof (cases "fst (malloc_bytes e (length str) s) = 0")
  case True
  then have "he_malloc e (hd_heap s) (length str) = 0" by (simp add: malloc_bytes_def Let_def)
  with built_no_room [OF b] i have "\<not> enough e s0" by simp
  with True show ?thesis by (simp add: put_iov_text_def zh_malloc_def)
next
  case False
  obtain buf s1 where ms: "malloc_bytes e (length str) s = (buf, s1)" by fastforce
  let ?v = "\<lparr>iov_base = buf, iov_len = of_nat (length str)\<rparr>"
  have len: "unat (iov_len ?v) = length str mod 2 ^ 64" by (simp add: unat_of_nat)
  have "yields (hbind (set_iov req i ?v s1) (put_bytes buf str)) (\<lambda>_. False)
      (built s0 req (r\<lparr>rq_iov := (rq_iov r)[i := Some ?v]\<rparr>) (vs @ [?v]) (bs @ [map Some str @ replicate (length str - length str) None]))"
    using False ms len by (intro built_set_iov [OF m b i(1,2)]) simp_all
  then have "yields (put_iov_text e req i str s) (\<lambda>_. False)
      (built s0 req (r\<lparr>rq_iov := (rq_iov r)[i := Some ?v]\<rparr>) (vs @ [?v]) (bs @ [map Some str]))"
    using False ms by (simp add: put_iov_text_def zh_malloc_def)
  then show ?thesis using len by (blast intro: yields_mono)
qed

text \<open>A request for \<open>n\<close> vectors on a socket, of which the first are built and point to the buffers \<open>bs\<close>.\<close>

definition iovs_for :: "iovec list \<Rightarrow> char option list list \<Rightarrow> bool" where
  "iovs_for vs bs \<longleftrightarrow> map (\<lambda>v. unat (iov_len v)) vs = map (\<lambda>b. length b mod 2 ^ 64) bs"

definition with_buffers :: "httpd \<Rightarrow> ptr \<Rightarrow> u32 \<Rightarrow> nat \<Rightarrow> char option list list \<Rightarrow> httpd \<Rightarrow> bool" where
  "with_buffers s0 req fd n bs s \<longleftrightarrow> (\<exists>r vs. built s0 req r vs bs s \<and> iovs_for vs bs \<and>
     length (rq_iov r) = n \<and> rq_iovec_count r = Some (of_nat n) \<and> rq_client_socket r = Some fd)"

lemma with_buffers_put:
  assumes m: "env_ok e" and b: "with_buffers s0 req fd n bs s" and i: "i = length bs" "i < n" "n \<le> 6"
  shows "yields (put_iov_text e req i str s) (no_room e s0) (with_buffers s0 req fd n (bs @ [map Some str]))"
proof -
  from b obtain r vs where r: "built s0 req r vs bs s" "iovs_for vs bs" "length (rq_iov r) = n"
    "rq_iovec_count r = Some (of_nat n)" "rq_client_socket r = Some fd" by (auto simp: with_buffers_def)
  have l: "length vs = length bs" using r(2) unfolding iovs_for_def by (metis length_map)
  have "yields (put_iov_text e req i str s) (no_room e s0)
    (\<lambda>s. \<exists>v. unat (iov_len v) = length str mod 2 ^ 64 \<and>
       built s0 req (r\<lparr>rq_iov := (rq_iov r)[i := Some v]\<rparr>) (vs @ [v]) (bs @ [map Some str]) s)"
    by (rule put_iov_text_spec [OF m r(1)]) (use i l r(3) in simp_all)
  then show ?thesis
  proof (rule yields_mono)
    fix s' assume "\<exists>v. unat (iov_len v) = length str mod 2 ^ 64 \<and>
       built s0 req (r\<lparr>rq_iov := (rq_iov r)[i := Some v]\<rparr>) (vs @ [v]) (bs @ [map Some str]) s'"
    then obtain v where v: "unat (iov_len v) = length str mod 2 ^ 64"
      "built s0 req (r\<lparr>rq_iov := (rq_iov r)[i := Some v]\<rparr>) (vs @ [v]) (bs @ [map Some str]) s'" by auto
    have "iovs_for (vs @ [v]) (bs @ [map Some str])" using r(2) v(1) by (simp add: iovs_for_def)
    with v(2) r(3-5) show "with_buffers s0 req fd n (bs @ [map Some str]) s'" unfolding with_buffers_def
      by (intro exI [of _ "r\<lparr>rq_iov := (rq_iov r)[i := Some v]\<rparr>"] exI [of _ "vs @ [v]"]) simp
  qed
qed

lemma new_answer:
  assumes "env_ok e"
  shows "yields (hbind (zh_malloc (malloc_request e n s0)) (\<lambda>(req, s).
      hbind (put_request req (\<lambda>r. r\<lparr>rq_iovec_count := Some (of_nat n), rq_client_socket := Some fd\<rparr>) s) (\<lambda>s. Inr (req, s))))
    (no_room e s0) (\<lambda>(req, s). with_buffers s0 req fd n [] s)"
proof (rule yields_bind [OF malloc_request_spec [OF assms]])
  fix y assume "case y of (req, s) \<Rightarrow> built s0 req
    \<lparr>rq_event_type = None, rq_iovec_count = None, rq_client_socket = None, rq_iov = replicate n None\<rparr> [] [] s"
  then obtain req s where y: "y = (req, s)" "built s0 req
    \<lparr>rq_event_type = None, rq_iovec_count = None, rq_client_socket = None, rq_iov = replicate n None\<rparr> [] [] s" by auto
  let ?f = "\<lambda>r. r\<lparr>rq_iovec_count := Some (of_nat n), rq_client_socket := Some fd\<rparr>"
  have "yields (put_request req ?f s) (\<lambda>_. False) (built s0 req
    \<lparr>rq_event_type = None, rq_iovec_count = Some (of_nat n), rq_client_socket = Some fd, rq_iov = replicate n None\<rparr> [] [])"
    using built_put_request [OF y(2), of ?f] by simp
  then have "yields (put_request req ?f s) (no_room e s0) (with_buffers s0 req fd n [])"
    by (rule yields_mono) (auto simp: with_buffers_def iovs_for_def intro!: exI [of _ "[]"])
  then show "yields (case y of (req, s) \<Rightarrow> hbind (put_request req ?f s) (\<lambda>s. Inr (req, s))) (no_room e s0)
      (\<lambda>(req, s). with_buffers s0 req fd n [] s)"
    unfolding y(1) by (cases "put_request req ?f s") simp_all
qed

text \<open>The headers: without a known extension they read memory that was not written.\<close>

lemma send_headers_spec:
  assumes m: "env_ok e" and b: "with_buffers s0 req fd 6 [] s"
  shows "yields (send_headers e path len req s)
    (\<lambda>x. no_room e s0 x \<or> x = HUninit \<and> content_type (get_filename_ext (strtolower path)) = None)
    (\<lambda>s. \<exists>ct. content_type (get_filename_ext (strtolower path)) = Some ct \<and>
       with_buffers s0 req fd 6 (map (map Some) [status_line, SERVER_STRING, ct, content_length len, crlf]) s)"
proof -
  let ?P = "\<lambda>x. no_room e s0 x \<or> x = HUninit \<and> content_type (get_filename_ext (strtolower path)) = None"
  let ?Q = "\<lambda>s. \<exists>ct. content_type (get_filename_ext (strtolower path)) = Some ct \<and>
       with_buffers s0 req fd 6 (map (map Some) [status_line, SERVER_STRING, ct, content_length len, crlf]) s"
  have put: "yields (put_iov_text e req i str s) P (with_buffers s0 req fd 6 (bs @ [map Some str]))"
    if "with_buffers s0 req fd 6 bs s" "i = length bs" "i < 6" "\<And>x. no_room e s0 x \<Longrightarrow> P x" for i str bs s P
    using with_buffers_put [OF m that(1-3) order_refl] by (rule yields_mono) (use that(4) in simp_all)
  show ?thesis unfolding send_headers_def Let_def
  proof (rule yields_bind [OF put [OF b]])
    fix s assume s: "with_buffers s0 req fd 6 ([] @ [map Some status_line]) s"
    show "yields (hbind (put_iov_text e req 1 SERVER_STRING s) (\<lambda>s.
         hbind (the_init (content_type (get_filename_ext (strtolower path)))) (\<lambda>send_buffer.
         hbind (put_iov_text e req 2 send_buffer s) (\<lambda>s.
         hbind (put_iov_text e req 3 (content_length len) s) (put_iov_text e req 4 crlf))))) ?P ?Q"
    proof (rule yields_bind [OF put [OF s]])
      fix s assume s: "with_buffers s0 req fd 6 (([] @ [map Some status_line]) @ [map Some SERVER_STRING]) s"
      show "yields (hbind (the_init (content_type (get_filename_ext (strtolower path)))) (\<lambda>send_buffer.
         hbind (put_iov_text e req 2 send_buffer s) (\<lambda>s.
         hbind (put_iov_text e req 3 (content_length len) s) (put_iov_text e req 4 crlf)))) ?P ?Q"
      proof (cases "content_type (get_filename_ext (strtolower path))")
        case (Some ct)
        have "yields (hbind (put_iov_text e req 2 ct s) (\<lambda>s. hbind (put_iov_text e req 3 (content_length len) s) (put_iov_text e req 4 crlf)))
          ?P (with_buffers s0 req fd 6 (((([] @ [map Some status_line]) @ [map Some SERVER_STRING]) @ [map Some ct]) @ [map Some (content_length len)] @ [map Some crlf]))"
          by (intro yields_bind [OF put [OF s]] yields_bind [OF put] put [THEN yields_mono]; assumption?) simp_all
        with Some show ?thesis by (simp add: the_init_def)
      qed (simp add: the_init_def)
    qed simp_all
  qed simp_all
qed

text \<open>The file, or as much of it as is read.\<close>

definition file_buffer :: "henv \<Rightarrow> string \<Rightarrow> nat \<Rightarrow> char option list" where
  "file_buffer e f n = (case he_read e f n of
     None \<Rightarrow> replicate n None | Some t \<Rightarrow> map Some t @ replicate (n - length t) None)"

lemma copy_file_contents_spec:
  assumes m: "env_ok e" and b: "with_buffers s0 req fd n bs s" and i: "i = length bs" "i < n" "n \<le> 6"
  shows "yields (copy_file_contents e f file_size req i s)
    (\<lambda>x. no_room e s0 x \<or> x = HExit 1 \<and> \<not> he_open e f \<or>
       x = HOverflow \<and> (\<exists>t. he_read e f file_size = Some t \<and> file_size < length t))
    (with_buffers s0 req fd n (bs @ [file_buffer e f file_size]))"
proof -
  from b obtain r vs where r: "built s0 req r vs bs s" "iovs_for vs bs" "length (rq_iov r) = n"
    "rq_iovec_count r = Some (of_nat n)" "rq_client_socket r = Some fd" by (auto simp: with_buffers_def)
  have l: "i = length vs" using r(2) i(1) unfolding iovs_for_def by (metis length_map)
  obtain buf s1 where ms: "malloc_bytes e file_size s = (buf, s1)" by fastforce
  show ?thesis
  proof (cases "buf = 0")
    case True
    then have "he_malloc e (hd_heap s) file_size = 0" using ms by (simp add: malloc_bytes_def Let_def)
    with built_no_room [OF r(1)] l i have "\<not> enough e s0" by simp
    then show ?thesis using True by (simp add: copy_file_contents_def ms zh_malloc_def)
  next
    case False
    let ?v = "\<lparr>iov_base = buf, iov_len = of_nat file_size\<rparr>"
    have s1: "hd_heap s1 buf = Some (Bytes (replicate file_size None))"
      using ms False by (auto simp: malloc_bytes_def Let_def)
    have put: "yields (hbind (put_bytes buf t s1) (set_iov req i ?v)) (\<lambda>_. False)
        (with_buffers s0 req fd n (bs @ [map Some t @ replicate (file_size - length t) None]))" if "length t \<le> file_size" for t
    proof -
      have "yields (hbind (put_bytes buf t s1) (set_iov req i ?v)) (\<lambda>_. False)
        (built s0 req (r\<lparr>rq_iov := (rq_iov r)[i := Some ?v]\<rparr>) (vs @ [?v]) (bs @ [map Some t @ replicate (file_size - length t) None]))"
        using False r(3) i(2) that ms [symmetric] by (intro built_set_iov(1) [OF m r(1) l]) (simp_all add: unat_of_nat)
      then show ?thesis
      proof (rule yields_mono)
        fix s' assume s': "built s0 req (r\<lparr>rq_iov := (rq_iov r)[i := Some ?v]\<rparr>) (vs @ [?v]) (bs @ [map Some t @ replicate (file_size - length t) None]) s'"
        have "iovs_for (vs @ [?v]) (bs @ [map Some t @ replicate (file_size - length t) None])"
          using r(2) that by (simp add: iovs_for_def unat_of_nat)
        with s' r(3-5) show "with_buffers s0 req fd n (bs @ [map Some t @ replicate (file_size - length t) None]) s'"
          unfolding with_buffers_def
          by (intro exI [of _ "r\<lparr>rq_iov := (rq_iov r)[i := Some ?v]\<rparr>"] exI [of _ "vs @ [?v]"]) simp
      qed
    qed
    show ?thesis
    proof (cases "he_open e f")
      case False
      then show ?thesis using \<open>buf \<noteq> 0\<close> by (simp add: copy_file_contents_def ms zh_malloc_def)
    next
      case True
      show ?thesis
      proof (cases "he_read e f file_size")
        case None
        have "put_bytes buf [] s1 = Inr s1" using False s1 by (simp add: put_bytes_def at_bytes_def fun_upd_idem)
        with put [of "[]"] None True False show ?thesis
          by (simp add: copy_file_contents_def ms zh_malloc_def file_buffer_def) (erule yields_mono; simp)
      next
        case (Some t)
        show ?thesis
        proof (cases "length t \<le> file_size")
          case l: True
          from put [OF l] True False Some show ?thesis
            by (simp add: copy_file_contents_def ms zh_malloc_def file_buffer_def) (erule yields_mono; simp)
        next
          case l: False
          then show ?thesis using True False Some s1
            by (simp add: copy_file_contents_def ms zh_malloc_def put_bytes_def at_bytes_def)
        qed
      qed
    qed
  qed
qed

end
