(* ===== verification/Httpd_Loop.thy ===== *)
theory Httpd_Loop
  imports Httpd_Safe
begin

text \<open>
  The loop of the web server \<^verbatim>\<open>example/httpd.cpp\<close>: what each handler submits, and that the ownership of the
  memory holds from pass to pass.
\<close>

section \<open>Answers that are submitted\<close>

text \<open>Since \<open>s0\<close> an answer with the buffers \<open>bs\<close> to the socket \<open>fd\<close> was built and submitted, and nothing else happened.\<close>

definition submitted :: "henv \<Rightarrow> httpd \<Rightarrow> u32 \<Rightarrow> char option list list \<Rightarrow> httpd \<Rightarrow> bool" where
  "submitted e s0 fd bs s \<longleftrightarrow> (\<exists>q r vs s1. s = httpd_enqueue e q s1 \<and> built s0 (get_data q) r vs bs s1 \<and>
     rq_iov r = map Some vs \<and> iovs_for vs bs \<and> write_ok (hd_heap s1) r q \<and> sqe_fd q = fd \<and> length vs \<le> 6)"

lemma ucast_up_down: "ucast (ucast (x :: u32) :: u64) = x"
  by (rule bit_word_eqI) (auto simp: bit_simps)

lemma add_write_request_spec:
  assumes "with_buffers s0 req fd n bs s" and "n = length bs" and "n \<le> 6" and "env_ok e"
  shows "yields (add_write_request e req s) (\<lambda>x. x = HNull \<and> QUEUE_DEPTH \<le> length (hd_queue s0)) (submitted e s0 fd bs)"
proof (cases "length (hd_queue s0) < QUEUE_DEPTH")
  case True
  from assms(1) obtain r vs where r: "built s0 req r vs bs s" "iovs_for vs bs" "length (rq_iov r) = n"
    "rq_iovec_count r = Some (of_nat n)" "rq_client_socket r = Some fd" by (auto simp: with_buffers_def)
  have l: "length vs = n" using r(2) assms(2) unfolding iovs_for_def by (metis length_map)
  have iov: "rq_iov r = map Some vs" using builtD(8) [OF r(1)] l r(3) by simp
  let ?f = "\<lambda>r. r\<lparr>rq_event_type := Some EVENT_TYPE_WRITE\<rparr>"
  let ?q = "set_data req (prep_writev fd (req + 16) (ucast (of_nat n :: u32)) 0 (he_entry e))"
  from built_put_request [OF r(1), of ?f] obtain s1 where s1: "put_request req ?f s = Inr s1" "built s0 req (?f r) vs bs s1"
    by (cases "put_request req ?f s") auto
  have q: "get_data ?q = req" "sqe_fd ?q = fd" "sqe_addr ?q = req + 16" "sqe_opcode ?q = IORING_OP_WRITEV" "sqe_len ?q = of_nat n"
    by (simp_all add: set_data_def get_data_def prep_writev_def prep_rw_def ucast_up_down)
  have n: "unat (of_nat n :: u32) = n" using assms(3) by (simp add: unat_of_nat)
  have "\<exists>b. buffer_at (hd_heap s1) v b" if "v \<in> set vs" for v
    using builtD(7) [OF s1(2)] that by (auto simp: list_all2_conv_all_nth in_set_conv_nth)
  then have "write_ok (hd_heap s1) (?f r) ?q" using r(3-5) q n iov by (auto simp: write_ok_def)
  then have "submitted e s0 fd bs (httpd_enqueue e ?q s1)"
    unfolding submitted_def using s1(2) q iov r(2) l assms(3)
    by (intro exI [of _ ?q] exI [of _ "?f r"] exI [of _ vs] exI [of _ s1]) simp
  moreover have "add_write_request e req s = Inr (httpd_enqueue e ?q s1)"
    using True builtD(10) [OF r(1)] builtD(1,3) [OF s1(2)] s1(1) r(4,5)
    by (simp add: add_write_request_def httpd_get_sq_entry_def at_request_def the_init_def Let_def httpd_submit_once [OF assms(4)])
  ultimately show ?thesis by simp
next
  case False
  from assms(1) have "hd_queue s = hd_queue s0" by (auto simp: with_buffers_def dest: builtD(10))
  with False show ?thesis by (simp add: add_write_request_def httpd_get_sq_entry_def)
qed

text \<open>An entry whose blocks are all new, in a heap that is otherwise the same.\<close>

lemma owns_new_entry:
  assumes "owns T s0" and "entry_ok (hd_heap s1) q" and d: "distinct (hd_owned (hd_heap s1) q)"
    and new: "\<And>a. a \<in> set (hd_owned (hd_heap s1) q) \<Longrightarrow> hd_heap s0 a = None \<and> hd_heap s1 a \<noteq> None \<and> a \<noteq> 0"
    and old: "\<And>a. a \<notin> set (hd_owned (hd_heap s1) q) \<Longrightarrow> hd_heap s1 a = hd_heap s0 a"
    and fl: "hd_queue s1 = hd_queue s0" "hd_pending s1 = hd_pending s0"
  shows "owns T (httpd_enqueue e q s1)"
proof -
  have h0: "hd_heap s1 0 = None" using old [of 0] new [of 0] assms(1) by (metis owns_def)
  have "owns (dom (hd_heap s1) - (dom (hd_heap s0) - T)) s1"
  proof (rule owns_frame [of T s0 "hd_heap s1", OF assms(1) _ h0])
    show "hd_heap s1 a = hd_heap s0 a" if "a \<notin> T" "hd_heap s0 a \<noteq> None" for a using old [of a] new [of a] that by blast
  qed (simp_all add: fl)
  moreover have "T \<subseteq> dom (hd_heap s0)" using assms(1) by (auto simp: owns_def)
  then have T: "dom (hd_heap s1) - (dom (hd_heap s0) - T) = T \<union> set (hd_owned (hd_heap s1) q)"
  proof (intro set_eqI)
    fix a
    show "a \<in> dom (hd_heap s1) - (dom (hd_heap s0) - T) \<longleftrightarrow> a \<in> T \<union> set (hd_owned (hd_heap s1) q)"
    proof (cases "a \<in> set (hd_owned (hd_heap s1) q)")
      case True
      with new [of a] show ?thesis by auto
    next
      case False
      with old [of a] \<open>T \<subseteq> dom (hd_heap s0)\<close> show ?thesis by (auto simp: domIff)
    qed
  qed
  ultimately have o1: "owns (T \<union> set (hd_owned (hd_heap s1) q)) s1" by simp
  have "T \<inter> set (hd_owned (hd_heap s1) q) = {}" using new \<open>T \<subseteq> dom (hd_heap s0)\<close> by fastforce
  then have "T \<union> set (hd_owned (hd_heap s1) q) - set (hd_owned (hd_heap s1) q) = T" by blast
  with owns_submit [OF o1 assms(2) _ d, of e] show ?thesis by simp
qed

lemma submitted_owns:
  assumes "owns T s0" and "submitted e s0 fd bs s"
  shows "owns T s"
proof -
  from assms(2) obtain q r vs s1 where q: "s = httpd_enqueue e q s1" "built s0 (get_data q) r vs bs s1"
    "rq_iov r = map Some vs" "write_ok (hd_heap s1) r q" by (auto simp: submitted_def)
  note B = builtD [OF q(2)]
  have ow: "hd_owned (hd_heap s1) q = get_data q # map iov_base vs" using B(3) q(3) by (simp add: hd_owned_def)
  have "owns T (httpd_enqueue e q s1)"
  proof (rule owns_new_entry [OF assms(1)])
    show "entry_ok (hd_heap s1) q" using B(1,3) q(4) by (auto simp: entry_ok_def)
    show "distinct (hd_owned (hd_heap s1) q)" using B(4,5) by (simp add: ow)
    show "hd_heap s0 a = None \<and> hd_heap s1 a \<noteq> None \<and> a \<noteq> 0" if "a \<in> set (hd_owned (hd_heap s1) q)" for a
      using B(1-3,6,7) that by (auto simp: ow list_all2_conv_all_nth in_set_conv_nth buffer_at_def)
    show "hd_heap s1 a = hd_heap s0 a" if "a \<notin> set (hd_owned (hd_heap s1) q)" for a using B(9) that by (auto simp: ow)
  qed (simp_all add: B(10,11))
  with q(1) show ?thesis by simp
qed

text \<open>What was on the heap still is.\<close>

lemma submitted_heap:
  assumes "submitted e s0 fd bs s" and "hd_heap s0 a = Some b"
  shows "hd_heap s a = Some b"
proof -
  from assms(1) obtain q r vs s1 where q: "s = httpd_enqueue e q s1" "built s0 (get_data q) r vs bs s1"
    by (auto simp: submitted_def)
  have "a \<notin> set (get_data q # map iov_base vs)" using builtD(2,6) [OF q(2)] assms(2) by auto
  with builtD(9) [OF q(2), of a] assms(2) q(1) show ?thesis by (simp add: httpd_enqueue_def httpd_enter_def Let_def)
qed

lemma hbind_assoc: "hbind (hbind m f) g = hbind m (\<lambda>x. hbind (f x) g)"
  by (cases m) simp_all

text \<open>The ways in which an answer may fail.\<close>

definition full :: "httpd \<Rightarrow> hstop \<Rightarrow> bool" where
  "full s0 x \<longleftrightarrow> x = HNull \<and> QUEUE_DEPTH \<le> length (hd_queue s0)"

lemma send_static_string_content_spec:
  assumes "env_ok e"
  shows "yields (send_static_string_content e str fd s0) (\<lambda>x. no_room e s0 x \<or> full s0 x) (submitted e s0 fd [map Some str])"
proof -
  have e: "send_static_string_content e str fd s0 =
    hbind (hbind (zh_malloc (malloc_request e 1 s0)) (\<lambda>(req, s).
      hbind (put_request req (\<lambda>r. r\<lparr>rq_iovec_count := Some (of_nat 1), rq_client_socket := Some fd\<rparr>) s) (\<lambda>s. Inr (req, s))))
     (\<lambda>(req, s). hbind (put_iov_text e req 0 str s) (add_write_request e req))"
    by (simp add: send_static_string_content_def hbind_assoc split_def)
  show ?thesis unfolding e
  proof (rule yields_bind [OF yields_mono [OF new_answer [OF assms]]])
    fix y assume "case y of (req, s) \<Rightarrow> with_buffers s0 req fd 1 [] s"
    then obtain req s where y: "y = (req, s)" "with_buffers s0 req fd 1 [] s" by auto
    have "yields (hbind (put_iov_text e req 0 str s) (add_write_request e req)) (\<lambda>x. no_room e s0 x \<or> full s0 x)
      (submitted e s0 fd [map Some str])"
    proof (rule yields_bind [OF yields_mono [OF with_buffers_put [OF assms y(2), of 0 str]]])
      fix s assume "with_buffers s0 req fd 1 ([] @ [map Some str]) s"
      then show "yields (add_write_request e req s) (\<lambda>x. no_room e s0 x \<or> full s0 x) (submitted e s0 fd [map Some str])"
        by (intro yields_mono [OF add_write_request_spec]) (auto simp: full_def assms)
    qed auto
    then show "yields (case y of (req, s) \<Rightarrow> hbind (put_iov_text e req 0 str s) (add_write_request e req))
      (\<lambda>x. no_room e s0 x \<or> full s0 x) (submitted e s0 fd [map Some str])" by (simp add: y(1))
  qed auto
qed

text \<open>What the request for a file is answered with.\<close>

definition file_answer :: "henv \<Rightarrow> string \<Rightarrow> string \<Rightarrow> nat \<Rightarrow> char option list list" where
  "file_answer e fp ct fsz =
     map (map Some) [status_line, SERVER_STRING, ct, content_length fsz, crlf] @ [file_buffer e fp fsz]"

definition file_fails :: "henv \<Rightarrow> string \<Rightarrow> nat \<Rightarrow> hstop \<Rightarrow> bool" where
  "file_fails e fp fsz x \<longleftrightarrow>
     x = HUninit \<and> content_type (get_filename_ext (strtolower fp)) = None \<or> x = HExit 1 \<and> \<not> he_open e fp \<or>
     x = HOverflow \<and> (\<exists>t. he_read e fp fsz = Some t \<and> fsz < length t)"

lemma answer_file_spec:
  assumes m: "env_ok e"
  shows "yields (hbind (zh_malloc (malloc_request e 6 s0)) (\<lambda>(req, s).
      hbind (put_request req (\<lambda>r. r\<lparr>rq_iovec_count := Some 6, rq_client_socket := Some fd\<rparr>) s) (\<lambda>s.
      hbind (send_headers e fp fsz req s) (\<lambda>s.
      hbind (copy_file_contents e fp fsz req 5 s) (\<lambda>s. add_write_request e req s)))))
    (\<lambda>x. no_room e s0 x \<or> full s0 x \<or> file_fails e fp fsz x)
    (\<lambda>s. \<exists>ct. content_type (get_filename_ext (strtolower fp)) = Some ct \<and> submitted e s0 fd (file_answer e fp ct fsz) s)"
    (is "yields ?m ?P ?Q")
proof -
  have e: "?m =
    hbind (hbind (zh_malloc (malloc_request e 6 s0)) (\<lambda>(req, s).
      hbind (put_request req (\<lambda>r. r\<lparr>rq_iovec_count := Some (of_nat 6), rq_client_socket := Some fd\<rparr>) s) (\<lambda>s. Inr (req, s))))
     (\<lambda>(req, s). hbind (send_headers e fp fsz req s) (\<lambda>s. hbind (copy_file_contents e fp fsz req 5 s) (add_write_request e req)))"
    by (simp add: hbind_assoc split_def)
  show ?thesis unfolding e
  proof (rule yields_bind [OF yields_mono [OF new_answer [OF m]]])
    fix y assume "case y of (req, s) \<Rightarrow> with_buffers s0 req fd 6 [] s"
    then obtain req s where y: "y = (req, s)" "with_buffers s0 req fd 6 [] s" by auto
    have "yields (hbind (send_headers e fp fsz req s) (\<lambda>s. hbind (copy_file_contents e fp fsz req 5 s) (add_write_request e req))) ?P ?Q"
    proof (rule yields_bind [OF yields_mono [OF send_headers_spec [OF m y(2)]]])
      fix s assume "\<exists>ct. content_type (get_filename_ext (strtolower fp)) = Some ct \<and>
        with_buffers s0 req fd 6 (map (map Some) [status_line, SERVER_STRING, ct, content_length fsz, crlf]) s"
      then obtain ct where ct: "content_type (get_filename_ext (strtolower fp)) = Some ct"
        "with_buffers s0 req fd 6 (map (map Some) [status_line, SERVER_STRING, ct, content_length fsz, crlf]) s" by blast
      show "yields (hbind (copy_file_contents e fp fsz req 5 s) (add_write_request e req)) ?P ?Q"
      proof (rule yields_bind [OF yields_mono [OF copy_file_contents_spec [OF m ct(2)]]])
        fix s assume "with_buffers s0 req fd 6 (map (map Some) [status_line, SERVER_STRING, ct, content_length fsz, crlf] @ [file_buffer e fp fsz]) s"
        then have "with_buffers s0 req fd 6 (file_answer e fp ct fsz) s" by (simp add: file_answer_def)
        then have "yields (add_write_request e req s) (\<lambda>x. x = HNull \<and> QUEUE_DEPTH \<le> length (hd_queue s0))
            (submitted e s0 fd (file_answer e fp ct fsz))"
          by (rule add_write_request_spec) (simp_all add: file_answer_def m)
        then show "yields (add_write_request e req s) ?P ?Q"
          by (rule yields_mono) (simp_all add: full_def ct(1))
      qed (auto simp: file_fails_def)
    qed (auto simp: file_fails_def)
    then show "yields (case y of (req, s) \<Rightarrow> hbind (send_headers e fp fsz req s)
      (\<lambda>s. hbind (copy_file_contents e fp fsz req 5 s) (add_write_request e req))) ?P ?Q" by (simp add: y(1))
  qed auto
qed

section \<open>Handlers\<close>

text \<open>The stops that do not come from a block that is used after it is freed or is freed twice.\<close>

definition memory_safe :: "hstop \<Rightarrow> bool" where
  "memory_safe x \<longleftrightarrow> x \<noteq> HDangling \<and> x \<noteq> HDoubleFree"

lemma memory_safe_simps [simp]:
  "memory_safe (HExit n)" "memory_safe HNull" "memory_safe HOverflow" "memory_safe HUninit" "memory_safe HTerminate"
  "\<not> memory_safe HDangling" "\<not> memory_safe HDoubleFree"
  by (simp_all add: memory_safe_def)

lemma fails_safe [simp]: "full s x \<Longrightarrow> memory_safe x" "file_fails e fp n x \<Longrightarrow> memory_safe x"
  by (auto simp: full_def file_fails_def)

lemma static_safe:
  "env_ok e \<Longrightarrow> yields (send_static_string_content e str fd s) memory_safe (\<lambda>s'. \<exists>bs. submitted e s fd bs s')"
  using send_static_string_content_spec by (rule yields_mono) auto

lemma handle_get_method_safe:
  assumes "env_ok e"
  shows "yields (handle_get_method e path fd s) memory_safe (\<lambda>s'. \<exists>bs. submitted e s fd bs s')"
proof (cases path)
  case (Some p)
  show ?thesis
  proof (cases "final_path p")
    case (Inr fp)
    show ?thesis
    proof (cases "he_stat e fp")
      case None
      then show ?thesis using static_safe [OF assms] Some Inr by (simp add: handle_get_method_def handle_http_404_def)
    next
      case (Some m)
      obtain mode fsz where m: "m = (mode, fsz)" by fastforce
      show ?thesis
      proof (cases "S_ISREG mode")
        case True
        have "yields (handle_get_method e path fd s) (\<lambda>x. no_room e s x \<or> full s x \<or> file_fails e fp fsz x)
          (\<lambda>s'. \<exists>ct. content_type (get_filename_ext (strtolower fp)) = Some ct \<and> submitted e s fd (file_answer e fp ct fsz) s')"
          using answer_file_spec [OF assms, of s fd fp fsz] True Some m Inr \<open>path = Some p\<close> by (simp add: handle_get_method_def)
        then show ?thesis by (rule yields_mono) auto
      next
        case False
        then show ?thesis using static_safe [OF assms] Some m Inr \<open>path = Some p\<close> by (simp add: handle_get_method_def handle_http_404_def)
      qed
    qed
  qed (use Some in \<open>auto simp: handle_get_method_def final_path_def Let_def split: if_splits\<close>)
qed (simp add: handle_get_method_def)

lemma handle_http_method_safe:
  "env_ok e \<Longrightarrow> yields (handle_http_method e l fd s) memory_safe (\<lambda>s'. \<exists>bs. submitted e s fd bs s')"
  using handle_get_method_safe static_safe
  by (auto simp: handle_http_method_def handle_unimplemented_method_def Let_def split: prod.splits option.splits)

text \<open>A request that was read.\<close>

lemma read_request:
  assumes "hd_heap s req = Some (Request r)" and "req \<noteq> 0" and "rq_iov r = [Some v]" and "buffer_at (hd_heap s) v b"
  shows "get_iov req 0 s = Inr v" "at_bytes (iov_base v) s = Inr b" "at_request req s = Inr r"
  using assms by (simp_all add: get_iov_def at_request_def at_bytes_def buffer_at_def the_init_def)

lemma handle_client_request_eq:
  assumes "hd_heap s req = Some (Request r)" and "req \<noteq> 0" and "rq_iov r = [Some v]" and "buffer_at (hd_heap s) v b"
    and "length b = READ_SZ" and "None \<notin> set b" and "rq_client_socket r = Some fd"
  obtains (malformed) "get_line (map the b) 1024 = Inr None" "handle_client_request e req s = Inl (HExit 1)"
    | (line) l where "get_line (map the b) 1024 = Inr (Some l)"
      "handle_client_request e req s = handle_http_method e (c_string l) fd s"
proof -
  have "None \<notin> set (take 1025 b)" using assms(6) by (meson in_set_takeD)
  then have "handle_client_request e req s = hbind (get_line (map the b) 1024) (\<lambda>l. case l of
       None \<Rightarrow> Inl (HExit 1) | Some l \<Rightarrow> handle_http_method e (c_string l) fd s)"
    using read_request [OF assms(1-4)] assms(7) by (simp add: handle_client_request_def the_init_def)
  moreover obtain l where "get_line (map the b) 1024 = Inr l"
    using get_line_in_bounds [of 1024 "map the b"] assms(5) by (auto simp: READ_SZ_def)
  ultimately show thesis using that by (cases l) auto
qed

section \<open>New requests\<close>

lemma add_accept_request_spec:
  assumes m: "env_ok e" and o: "owns T s"
  shows "yields (add_accept_request e srv s) memory_safe (\<lambda>s'. owns T s' \<and> (\<forall>a b. hd_heap s a = Some b \<longrightarrow> hd_heap s' a = Some b))"
proof (cases "length (hd_queue s) < QUEUE_DEPTH \<and> he_malloc e (hd_heap s) 16 \<noteq> 0")
  case True
  define p where "p = he_malloc e (hd_heap s) 16"
  have p: "p \<noteq> 0" "hd_heap s p = None" using m True by (auto simp: env_ok_def malloc_ok_def p_def)
  let ?r = "\<lparr>rq_event_type = Some EVENT_TYPE_ACCEPT, rq_iovec_count = None, rq_client_socket = None, rq_iov = []\<rparr>"
  let ?q = "set_data p (prep_accept srv (he_client_addr e) (he_client_addr_len e) 0 (he_entry e))"
  let ?s = "s\<lparr>hd_heap := (hd_heap s)(p \<mapsto> Request ?r)\<rparr>"
  have q: "get_data ?q = p" "sqe_opcode ?q = IORING_OP_ACCEPT" by (simp_all add: set_data_def get_data_def prep_accept_def prep_rw_def)
  have ow: "hd_owned (hd_heap ?s) ?q = [p]" by (simp add: hd_owned_def q)
  have "add_accept_request e srv s = Inr (httpd_enqueue e ?q ?s)"
    using True p(1) by (simp add: add_accept_request_def httpd_get_sq_entry_def malloc_request_def put_request_def
        at_request_def Let_def httpd_submit_once [OF m] flip: p_def)
  moreover have "owns T (httpd_enqueue e ?q ?s)"
    by (rule owns_new_entry [OF o]) (use ow p q in \<open>auto simp: entry_ok_def accept_ok_def\<close>)
  ultimately show ?thesis using p(2) by (simp add: httpd_enqueue_def httpd_enter_def Let_def)
next
  case False
  then show ?thesis
    by (auto simp: add_accept_request_def httpd_get_sq_entry_def malloc_request_def put_request_def at_request_def Let_def)
qed

lemma add_read_request_spec:
  assumes m: "env_ok e" and o: "owns T s"
  shows "yields (add_read_request e fd s) memory_safe (\<lambda>s'. owns T s' \<and> (\<forall>a b. hd_heap s a = Some b \<longrightarrow> hd_heap s' a = Some b))"
proof (cases "length (hd_queue s) < QUEUE_DEPTH")
  case queue: True
  obtain p s1 where ps: "malloc_request e 1 s = (p, s1)" by fastforce
  obtain b s2 where bs: "malloc_bytes e READ_SZ s1 = (b, s2)" by fastforce
  show ?thesis
  proof (cases "p \<noteq> 0 \<and> b \<noteq> 0")
    case True
    have p: "p \<noteq> 0" "hd_heap s p = None" "s1 = s\<lparr>hd_heap := (hd_heap s)(p \<mapsto> Request
        \<lparr>rq_event_type = None, rq_iovec_count = None, rq_client_socket = None, rq_iov = [None]\<rparr>)\<rparr>"
      using m ps True by (auto simp: malloc_request_def Let_def env_ok_def malloc_ok_def)
    have "hd_heap s1 b = None" using m bs True by (auto simp: malloc_bytes_def Let_def env_ok_def malloc_ok_def)
    then have b: "b \<noteq> 0" "b \<noteq> p" "hd_heap s b = None" "s2 = s1\<lparr>hd_heap := (hd_heap s1)(b \<mapsto> Bytes (replicate READ_SZ None))\<rparr>"
      using bs True by (auto simp: p(3) malloc_bytes_def Let_def split: if_splits)
    let ?v = "\<lparr>iov_base = b, iov_len = of_nat READ_SZ\<rparr>" and ?b = "replicate READ_SZ (Some NUL)"
    let ?r = "\<lparr>rq_event_type = Some EVENT_TYPE_READ, rq_iovec_count = None, rq_client_socket = Some fd, rq_iov = [Some ?v]\<rparr>"
    let ?q = "set_data p (prep_readv fd (p + 16) 1 0 (he_entry e))"
    let ?s = "s\<lparr>hd_heap := (hd_heap s)(p \<mapsto> Request ?r, b \<mapsto> Bytes ?b)\<rparr>"
    have q: "get_data ?q = p" "sqe_opcode ?q = IORING_OP_READV" "sqe_addr ?q = p + 16" "sqe_fd ?q = fd"
      by (simp_all add: set_data_def get_data_def prep_readv_def prep_rw_def)
    have ow: "hd_owned (hd_heap ?s) ?q = [p, b]" using b(2) by (simp add: hd_owned_def q)
    have "unat (of_nat READ_SZ :: u64) = READ_SZ" by (simp add: unat_of_nat READ_SZ_def)
    then have "read_ok (hd_heap ?s) ?r ?q" using q b by (simp add: read_ok_def buffer_at_def READ_SZ_def)
    then have e: "entry_ok (hd_heap ?s) ?q" unfolding entry_ok_def q using p(1) b(2) by auto
    have "add_read_request e fd s =
        hbind (set_iov p 0 ?v s2) (\<lambda>s. hbind (put_request p (\<lambda>r. r\<lparr>rq_event_type := Some EVENT_TYPE_READ\<rparr>) s) (\<lambda>s.
        hbind (put_request p (\<lambda>r. r\<lparr>rq_client_socket := Some fd\<rparr>) s) (\<lambda>s.
        hbind (put_bytes b (replicate READ_SZ NUL) s) (\<lambda>s. Inr (httpd_enqueue e ?q s)))))"
      using queue by (simp add: add_read_request_def httpd_get_sq_entry_def ps [unfolded One_nat_def] bs httpd_submit_fun [OF m])
    also have "\<dots> = Inr (httpd_enqueue e ?q ?s)"
      using p(1) b(1,2) by (simp add: set_iov_def put_request_def at_request_def put_bytes_def at_bytes_def b(4) p(3) fun_upd_twist)
    finally have "add_read_request e fd s = Inr (httpd_enqueue e ?q ?s)" .
    moreover have "owns T (httpd_enqueue e ?q ?s)"
      by (rule owns_new_entry [OF o e]) (use ow p b in auto)
    ultimately show ?thesis using p(2) b(3) by (simp add: httpd_enqueue_def httpd_enter_def Let_def)
  next
    case False
    then consider "p = 0" | "p \<noteq> 0" "b = 0" by auto
    then show ?thesis
    proof cases
      case 2
      then have "s2 = s1" "hd_heap s1 p = Some (Request \<lparr>rq_event_type = None, rq_iovec_count = None, rq_client_socket = None, rq_iov = [None]\<rparr>)"
        using ps bs by (auto simp: malloc_request_def malloc_bytes_def Let_def)
      with 2 queue show ?thesis by (simp add: add_read_request_def httpd_get_sq_entry_def ps [unfolded One_nat_def] bs set_iov_def put_request_def
          at_request_def put_bytes_def at_bytes_def)
    qed (use queue in \<open>simp add: add_read_request_def httpd_get_sq_entry_def ps [unfolded One_nat_def] bs set_iov_def at_request_def\<close>)
  qed
qed (simp add: add_read_request_def httpd_get_sq_entry_def)

section \<open>Releasing\<close>

lemma owns_release:
  assumes "owns T s" and "N \<subseteq> T" and "hd_heap s' = (\<lambda>a. if a \<in> N then None else hd_heap s a)"
    and "hd_queue s' = hd_queue s" "hd_pending s' = hd_pending s"
  shows "owns (T - N) s'"
proof -
  have "owns (dom (hd_heap s') - (dom (hd_heap s) - T)) s'"
  proof (rule owns_frame [of T s "hd_heap s'", OF assms(1)])
    show "hd_heap s' a = hd_heap s a" if "a \<notin> T" for a using that assms(2,3) by auto
    show "hd_heap s' 0 = None" using assms(1,3) by (simp add: owns_def)
  qed (use assms(4,5) in simp_all)
  moreover have "dom (hd_heap s') = dom (hd_heap s) - N" unfolding assms(3) by (auto split: if_splits)
  then have "dom (hd_heap s') - (dom (hd_heap s) - T) = T - N" using assms(1,2) by (auto simp only: owns_def)
  ultimately show ?thesis by simp
qed

lemma free_eq: "p \<noteq> 0 \<Longrightarrow> hd_heap s p \<noteq> None \<Longrightarrow> free p s = Inr (s\<lparr>hd_heap := \<lambda>a. if a \<in> {p} then None else hd_heap s a\<rparr>)"
  by (auto simp: free_def fun_upd_def intro!: ext)

lemma free_iovs_eq:
  assumes "hd_heap s req = Some (Request r)" and "req \<noteq> 0" and "rq_iov r = map Some vs" and "i + n = length vs"
    and "distinct (req # map iov_base vs)" and "\<And>v. v \<in> set (drop i vs) \<Longrightarrow> iov_base v \<noteq> 0 \<and> hd_heap s (iov_base v) \<noteq> None"
  shows "free_iovs req i n s = Inr (s\<lparr>hd_heap := \<lambda>a. if a \<in> iov_base ` set (drop i vs) then None else hd_heap s a\<rparr>)"
  using assms
proof (induction n arbitrary: i s)
  case (Suc n)
  have i: "i < length vs" using Suc.prems(4) by simp
  then have dr: "drop i vs = vs ! i # drop (Suc i) vs" by (simp add: Cons_nth_drop_Suc)
  have get: "get_iov req i s = Inr (vs ! i)" using Suc.prems(1-3) i by (simp add: get_iov_def at_request_def the_init_def)
  let ?s = "s\<lparr>hd_heap := \<lambda>a. if a \<in> {iov_base (vs ! i)} then None else hd_heap s a\<rparr>"
  have fr: "free (iov_base (vs ! i)) s = Inr ?s" by (rule free_eq) (use Suc.prems(6) [of "vs ! i"] dr in auto)
  have ne: "iov_base v \<noteq> iov_base (vs ! i)" if "v \<in> set (drop (Suc i) vs)" for v
  proof -
    have "distinct (map iov_base (drop i vs))" using Suc.prems(5) by (simp add: drop_map [symmetric])
    then have "iov_base (vs ! i) \<notin> iov_base ` set (drop (Suc i) vs)" by (simp add: dr)
    then show ?thesis using that by (metis imageI)
  qed
  have rq: "req \<noteq> iov_base (vs ! i)" using Suc.prems(5) i by (metis distinct.simps(2) list.set_map nth_mem imageI)
  have "free_iovs req (Suc i) n ?s = Inr (?s\<lparr>hd_heap := \<lambda>a. if a \<in> iov_base ` set (drop (Suc i) vs) then None else hd_heap ?s a\<rparr>)"
    by (rule Suc.IH) (use Suc.prems rq ne dr in auto)
  moreover have "?s\<lparr>hd_heap := \<lambda>a. if a \<in> iov_base ` set (drop (Suc i) vs) then None else hd_heap ?s a\<rparr> =
      s\<lparr>hd_heap := \<lambda>a. if a \<in> iov_base ` set (drop i vs) then None else hd_heap s a\<rparr>"
    by (auto simp: dr intro!: arg_cong [of _ _ "\<lambda>h. s\<lparr>hd_heap := h\<rparr>"])
  ultimately show ?case by (simp only: free_iovs.simps get fr hbind_simps)
qed simp

end
