(* ===== verification/Httpd_Run.thy ===== *)
theory Httpd_Run
  imports Httpd_Loop
begin

text \<open>
  The runs of the web server \<^verbatim>\<open>example/httpd.cpp\<close>: its memory is safe in all of them, and a request for a file is
  answered with the file.
\<close>

section \<open>The kernel\<close>

definition read_of :: "heap \<Rightarrow> ptr \<Rightarrow> bool" where
  "read_of h req \<longleftrightarrow> (\<exists>r. h req = Some (Request r) \<and> rq_event_type r = Some EVENT_TYPE_READ)"

text \<open>A completion changes the contents of the entry's own buffers at most.\<close>

lemma kernel_complete_spec:
  assumes e: "entry_ok (hd_heap s) q" and t: "length t \<le> READ_SZ" and d: "distinct (hd_owned (hd_heap s) q)"
  shows "yields (kernel_complete q res t s) (\<lambda>_. False) (\<lambda>s'. \<exists>h x. s' = s\<lparr>hd_heap := h, hd_sent := x\<rparr> \<and>
    entry_ok h q \<and> hd_owned h q = hd_owned (hd_heap s) q \<and> (\<forall>a. a \<notin> set (hd_owned (hd_heap s) q) \<longrightarrow> h a = hd_heap s a) \<and> h 0 = hd_heap s 0 \<and>
    dom h = dom (hd_heap s) \<and> h (get_data q) = hd_heap s (get_data q))"
    (is "yields _ _ ?Q")
proof -
  have id: "?Q s" using e by (intro exI [of _ "hd_heap s"] exI [of _ "hd_sent s"]) simp
  from e obtain r where r: "get_data q \<noteq> 0" "hd_heap s (get_data q) = Some (Request r)"
    "accept_ok r q \<or> read_ok (hd_heap s) r q \<or> write_ok (hd_heap s) r q" by (auto simp: entry_ok_def)
  from r(3) show ?thesis
  proof (elim disjE)
    assume "accept_ok r q"
    then show ?thesis using id by (simp add: kernel_complete_def accept_ok_def)
  next
    assume k: "read_ok (hd_heap s) r q"
    then obtain v b where v: "rq_iov r = [Some v]" "buffer_at (hd_heap s) v b" "length b = READ_SZ" "None \<notin> set b"
      "sqe_addr q - 16 = get_data q" "sqe_opcode q = IORING_OP_READV" by (auto simp: read_ok_def)
    let ?b = "map Some t @ drop (length t) b" and ?h = "\<lambda>b. (hd_heap s)(iov_base v \<mapsto> Bytes b)"
    have ow: "hd_owned (hd_heap s) q = [get_data q, iov_base v]" using r(2) v(1) by (simp add: hd_owned_def)
    have ne: "get_data q \<noteq> iov_base v" using d by (simp add: ow)
    have "None \<notin> set ?b" using v(4) by (auto dest: in_set_dropD)
    then have "read_ok (?h ?b) r q" using k v(1-3) t by (auto simp: read_ok_def buffer_at_def)
    then have "entry_ok (?h ?b) q" using r(1,2) ne by (auto simp: entry_ok_def)
    moreover have "hd_owned (?h ?b) q = hd_owned (hd_heap s) q" using r(2) ne by (simp add: hd_owned_def)
    moreover have "dom (?h ?b) = dom (hd_heap s)" using v(2) by (auto simp: buffer_at_def)
    moreover have "iov_base v \<noteq> 0" using v(2) by (simp add: buffer_at_def)
    moreover have "kernel_read t q s = Inr (s\<lparr>hd_heap := ?h ?b\<rparr>)"
      using read_request [OF r(2,1) v(1,2)] v(3,5) t by (simp add: kernel_read_def put_bytes_def)
    ultimately show ?thesis using id v(6) ow ne
      by (simp add: kernel_complete_def) (auto intro!: exI [of _ "?h ?b"] exI [of _ "hd_sent s"])
  next
    assume k: "write_ok (hd_heap s) r q"
    define vs where "vs = map the (rq_iov r)"
    have iov: "rq_iov r = map Some vs" using k unfolding vs_def by (auto simp: write_ok_def comp_def intro!: map_idI [symmetric])
    have len: "unat (sqe_len q) = length vs" using k iov by (simp add: write_ok_def)
    have g: "\<exists>bs. gather (get_data q) i n s = Inr bs" if "i + n = length vs" for i n
      using that
    proof (induction n arbitrary: i)
      case (Suc n)
      then have i: "i < length vs" by simp
      then obtain b where b: "buffer_at (hd_heap s) (vs ! i) b" using k iov by (force simp: write_ok_def in_set_conv_nth)
      have "get_iov (get_data q) i s = Inr (vs ! i)" using r(1,2) iov i by (simp add: get_iov_def at_request_def the_init_def)
      moreover have "gather_iov s (vs ! i) = Inr (take (unat (iov_len (vs ! i))) b)"
        using b by (simp add: gather_iov_def at_bytes_def buffer_at_def)
      ultimately show ?case using Suc.IH [of "Suc i"] Suc.prems by auto
    qed simp
    have a: "sqe_addr q - 16 = get_data q" "sqe_opcode q = IORING_OP_WRITEV" using k by (simp_all add: write_ok_def)
    from g [of 0 "length vs"] obtain bs where "gather (get_data q) 0 (length vs) s = Inr bs" by auto
    then have "kernel_write q (nat res) s = Inr (s\<lparr>hd_sent := hd_sent s @ [(sqe_fd q, take (nat res) bs)]\<rparr>)"
      by (simp add: kernel_write_def a len)
    then show ?thesis using id a(2) e
      by (simp add: kernel_complete_def)
        (auto intro!: exI [of _ "hd_heap s"] exI [of _ "hd_sent s @ [(sqe_fd q, take (nat res) bs)]"])
  qed
qed

section \<open>A pass of the loop\<close>

lemma free_own:
  assumes "owns (insert a T) s" and "a \<notin> T"
  shows "\<exists>s'. free a s = Inr s' \<and> owns T s' \<and> (\<forall>b. b \<noteq> a \<longrightarrow> hd_heap s' b = hd_heap s b)"
proof -
  have a: "a \<noteq> 0" "hd_heap s a \<noteq> None" using assms(1) by (auto simp: owns_def)
  have "insert a T - {a} = T" using assms(2) by blast
  with owns_release [OF assms(1), of "{a}" "s\<lparr>hd_heap := \<lambda>b. if b \<in> {a} then None else hd_heap s b\<rparr>"] free_eq [OF a]
  show ?thesis by simp
qed

lemma serve_write_spec:
  assumes o: "owns (T \<union> set (hd_owned (hd_heap s) q)) s" and d: "distinct (hd_owned (hd_heap s) q)" and disj: "T \<inter> set (hd_owned (hd_heap s) q) = {}"
    and r: "get_data q \<noteq> 0" "hd_heap s (get_data q) = Some (Request r)" and w: "write_ok (hd_heap s) r q"
  shows "\<exists>s'. serve_write (get_data q) s = Inr s' \<and> owns T s' \<and> hd_closed s' = hd_closed s @ [sqe_fd q] \<and>
    hd_heap s' = (\<lambda>a. if a \<in> set (hd_owned (hd_heap s) q) then None else hd_heap s a) \<and>
    hd_queue s' = hd_queue s \<and> hd_pending s' = hd_pending s \<and> hd_sent s' = hd_sent s"
proof -
  define vs where "vs = map the (rq_iov r)"
  have iov: "rq_iov r = map Some vs" using w unfolding vs_def by (auto simp: write_ok_def comp_def intro!: map_idI [symmetric])
  have ow: "hd_owned (hd_heap s) q = get_data q # map iov_base vs" using r(2) iov by (simp add: hd_owned_def)
  have len: "unat (sqe_len q) = length vs" using w iov by (simp add: write_ok_def)
  have live: "iov_base v \<noteq> 0 \<and> hd_heap s (iov_base v) \<noteq> None" if "v \<in> set (drop 0 vs)" for v
    using w iov that by (fastforce simp: write_ok_def buffer_at_def)
  let ?h = "\<lambda>a. if a \<in> iov_base ` set vs then None else hd_heap s a"
  have f: "free_iovs (get_data q) 0 (length vs) s = Inr (s\<lparr>hd_heap := ?h\<rparr>)"
    using free_iovs_eq [of s "get_data q" r vs 0 "length vs"] r iov live d ow by simp
  let ?s = "s\<lparr>hd_heap := ?h, hd_closed := hd_closed s @ [sqe_fd q]\<rparr>"
  have "get_data q \<notin> iov_base ` set vs" using d ow by simp
  then have "free (get_data q) ?s = Inr (?s\<lparr>hd_heap := \<lambda>a. if a \<in> {get_data q} then None else hd_heap ?s a\<rparr>)"
    using r by (intro free_eq) simp_all
  then have res: "serve_write (get_data q) s = Inr (?s\<lparr>hd_heap := \<lambda>a. if a \<in> {get_data q} then None else hd_heap ?s a\<rparr>)"
    using r f w len by (simp add: serve_write_def at_request_def the_init_def write_ok_def)
  have h: "(\<lambda>a. if a \<in> {get_data q} then None else hd_heap ?s a) = (\<lambda>a. if a \<in> set (hd_owned (hd_heap s) q) then None else hd_heap s a)"
    by (auto simp: ow)
  have "owns (T \<union> set (hd_owned (hd_heap s) q) - set (hd_owned (hd_heap s) q)) (?s\<lparr>hd_heap := \<lambda>a. if a \<in> {get_data q} then None else hd_heap ?s a\<rparr>)"
    by (rule owns_release [OF o]) (simp_all add: h del: insert_iff)
  moreover have "T \<union> set (hd_owned (hd_heap s) q) - set (hd_owned (hd_heap s) q) = T" using disj by blast
  ultimately show ?thesis using res h by simp
qed

lemma serve_read_spec:
  assumes m: "env_ok e" and o: "owns (T \<union> set (hd_owned (hd_heap s) q)) s" and d: "distinct (hd_owned (hd_heap s) q)"
    and disj: "T \<inter> set (hd_owned (hd_heap s) q) = {}" and r: "get_data q \<noteq> 0" "hd_heap s (get_data q) = Some (Request r)"
    and k: "read_ok (hd_heap s) r q" and res: "res \<noteq> 0"
  shows "yields (serve_read e (get_data q) res s) memory_safe (owns T)"
    and "handle_client_request e (get_data q) s = Inr s1 \<Longrightarrow> submitted e s fd bs s1 \<Longrightarrow>
      \<exists>s2. serve_read e (get_data q) res s = Inr s2 \<and> owns T s2 \<and> (\<forall>a. a \<notin> set (hd_owned (hd_heap s) q) \<longrightarrow> hd_heap s2 a = hd_heap s1 a) \<and>
        hd_queue s2 = hd_queue s1 \<and> hd_pending s2 = hd_pending s1 \<and> hd_sent s2 = hd_sent s1 \<and> hd_closed s2 = hd_closed s1"
proof -
  obtain v b where v: "rq_iov r = [Some v]" "buffer_at (hd_heap s) v b" "length b = READ_SZ" "None \<notin> set b" using k by (auto simp: read_ok_def)
  have fd: "rq_client_socket r = Some (sqe_fd q)" using k by (simp add: read_ok_def)
  have ow: "hd_owned (hd_heap s) q = [get_data q, iov_base v]" using r(2) v(1) by (simp add: hd_owned_def)
  have ne: "get_data q \<noteq> iov_base v" "iov_base v \<notin> T" "get_data q \<notin> T" using d disj by (auto simp: ow)
  have fin: "\<exists>s2. hbind (get_iov (get_data q) 0 s1) (\<lambda>v. hbind (free (iov_base v) s1) (free (get_data q))) = Inr s2 \<and> owns T s2 \<and>
      (\<forall>a. a \<notin> set (hd_owned (hd_heap s) q) \<longrightarrow> hd_heap s2 a = hd_heap s1 a) \<and>
      hd_queue s2 = hd_queue s1 \<and> hd_pending s2 = hd_pending s1 \<and> hd_sent s2 = hd_sent s1 \<and> hd_closed s2 = hd_closed s1"
    if sub: "submitted e s fd bs s1" for s1 fd bs
  proof -
    have o1: "owns (T \<union> set (hd_owned (hd_heap s) q)) s1" by (rule submitted_owns [OF o sub])
    have h1: "hd_heap s1 (get_data q) = Some (Request r)" "hd_heap s1 (iov_base v) = Some (Bytes b)"
      using submitted_heap [OF sub] r(2) v(2) by (simp_all add: buffer_at_def)
    have nz: "iov_base v \<noteq> 0" using v(2) by (simp add: buffer_at_def)
    let ?h = "\<lambda>a. if a \<in> set (hd_owned (hd_heap s) q) then None else hd_heap s1 a"
    have "get_iov (get_data q) 0 s1 = Inr v" using r(1) h1(1) v(1) by (simp add: get_iov_def at_request_def the_init_def)
    moreover have "free (iov_base v) s1 = Inr (s1\<lparr>hd_heap := \<lambda>a. if a \<in> {iov_base v} then None else hd_heap s1 a\<rparr>)"
      using nz h1(2) by (intro free_eq) simp_all
    moreover have "free (get_data q) (s1\<lparr>hd_heap := \<lambda>a. if a \<in> {iov_base v} then None else hd_heap s1 a\<rparr>) = Inr (s1\<lparr>hd_heap := ?h\<rparr>)"
      using r(1) h1(1) ne(1) by (subst free_eq) (auto simp: ow intro!: arg_cong [of _ _ "\<lambda>h. s1\<lparr>hd_heap := h\<rparr>"])
    moreover have "owns (T \<union> set (hd_owned (hd_heap s) q) - set (hd_owned (hd_heap s) q)) (s1\<lparr>hd_heap := ?h\<rparr>)"
      by (rule owns_release [OF o1]) simp_all
    moreover have "T \<union> set (hd_owned (hd_heap s) q) - set (hd_owned (hd_heap s) q) = T" using disj by blast
    ultimately show ?thesis by simp
  qed
  have e: "serve_read e (get_data q) res s =
      hbind (handle_client_request e (get_data q) s) (\<lambda>s1. hbind (get_iov (get_data q) 0 s1) (\<lambda>v. hbind (free (iov_base v) s1) (free (get_data q))))"
    using res by (simp add: serve_read_def)
  have "yields (handle_client_request e (get_data q) s) memory_safe (\<lambda>s1. \<exists>fd bs. submitted e s fd bs s1)"
  proof (rule handle_client_request_eq [OF r(2,1) v(1-4) fd])
    fix l assume "handle_client_request e (get_data q) s = handle_http_method e (c_string l) (sqe_fd q) s"
    then show ?thesis using handle_http_method_safe [OF m, of "c_string l" "sqe_fd q" s]
      by simp (erule yields_mono; blast)
  qed simp
  then show "yields (serve_read e (get_data q) res s) memory_safe (owns T)"
    unfolding e by (rule yields_bind) (use fin in \<open>fastforce simp: yields_def\<close>)
  assume "handle_client_request e (get_data q) s = Inr s1" "submitted e s fd bs s1"
  with fin show "\<exists>s2. serve_read e (get_data q) res s = Inr s2 \<and> owns T s2 \<and> (\<forall>a. a \<notin> set (hd_owned (hd_heap s) q) \<longrightarrow> hd_heap s2 a = hd_heap s1 a) \<and>
        hd_queue s2 = hd_queue s1 \<and> hd_pending s2 = hd_pending s1 \<and> hd_sent s2 = hd_sent s1 \<and> hd_closed s2 = hd_closed s1"
    unfolding e by simp
qed

text \<open>Whether a pass is one over a read that found the connection closed, which keeps the request.\<close>

definition empty_read :: "httpd_event \<Rightarrow> httpd \<Rightarrow> bool" where
  "empty_read ev s \<longleftrightarrow> (case ev of WaitFails \<Rightarrow> False
     | Completes i res t \<Rightarrow> res = 0 \<and> read_of (hd_heap s) (get_data (hd_pending s ! i)))"

lemma serve_cqe_safe:
  assumes m: "env_ok e" and o: "owns (T \<union> set (hd_owned (hd_heap s) q)) s" and d: "distinct (hd_owned (hd_heap s) q)"
    and disj: "T \<inter> set (hd_owned (hd_heap s) q) = {}" and en: "entry_ok (hd_heap s) q"
  shows "yields (serve_cqe e srv (get_data q) res s) memory_safe (\<lambda>s'.
    if res = 0 \<and> read_of (hd_heap s) (get_data q) then owns (T \<union> set (hd_owned (hd_heap s) q)) s' else owns T s')"
proof -
  from en obtain r where r: "get_data q \<noteq> 0" "hd_heap s (get_data q) = Some (Request r)"
    "accept_ok r q \<or> read_ok (hd_heap s) r q \<or> write_ok (hd_heap s) r q" by (auto simp: entry_ok_def)
  have at: "at_request (get_data q) s = Inr r" using r by (simp add: at_request_def)
  show ?thesis
  proof (cases "res < 0")
    case True
    from r(3) have "rq_event_type r \<noteq> None" by (auto simp: accept_ok_def read_ok_def write_ok_def)
    then show ?thesis using True at by (auto simp: serve_cqe_def the_init_def)
  next
    case res: False
    from r(3) show ?thesis
    proof (elim disjE)
      assume k: "accept_ok r q"
      have ow: "hd_owned (hd_heap s) q = [get_data q]" using k r(2) by (simp add: hd_owned_def accept_ok_def)
      have ne: "get_data q \<notin> T" using disj by (simp add: ow)
      have o': "owns (insert (get_data q) T) s" using o by (simp add: ow)
      have "yields (serve_accept e srv (get_data q) res s) memory_safe (owns T)" unfolding serve_accept_def
      proof (rule yields_bind [OF add_accept_request_spec [OF m o']], elim conjE)
        fix s1 assume s1: "owns (insert (get_data q) T) s1"
        show "yields (hbind (add_read_request e (word_of_int res) s1) (free (get_data q))) memory_safe (owns T)"
          by (rule yields_bind [OF add_read_request_spec [OF m s1]], elim conjE) (auto dest: free_own [OF _ ne])
      qed
      moreover have "\<not> read_of (hd_heap s) (get_data q)" using k r(2) by (simp add: read_of_def accept_ok_def)
      ultimately show ?thesis using k at res by (simp add: serve_cqe_def the_init_def accept_ok_def)
    next
      assume k: "read_ok (hd_heap s) r q"
      then have t: "rq_event_type r = Some EVENT_TYPE_READ" by (simp add: read_ok_def)
      then have rd: "read_of (hd_heap s) (get_data q)" using r(2) by (simp add: read_of_def)
      show ?thesis
      proof (cases "res = 0")
        case True
        then show ?thesis using o t at rd by (simp add: serve_cqe_def the_init_def serve_read_def)
      next
        case False
        then show ?thesis using serve_read_spec(1) [OF m o d disj r(1,2) k False] t at rd res by (simp add: serve_cqe_def the_init_def)
      qed
    next
      assume k: "write_ok (hd_heap s) r q"
      then have t: "rq_event_type r = Some EVENT_TYPE_WRITE" by (simp add: write_ok_def)
      then have "\<not> read_of (hd_heap s) (get_data q)" using r(2) by (simp add: read_of_def)
      then show ?thesis using serve_write_spec [OF o d disj r(1,2) k] t at res by (auto simp: serve_cqe_def the_init_def)
    qed
  qed
qed

lemma owns_contents:
  assumes "owns T s" and "\<And>a. a \<notin> T \<Longrightarrow> h a = hd_heap s a" and "dom h = dom (hd_heap s)"
    and "hd_queue s' = hd_queue s" "hd_pending s' = hd_pending s" "hd_heap s' = h"
  shows "owns T s'"
proof -
  have "h 0 = None" using assms(1,3) by (auto simp: owns_def domIff)
  then have "owns (dom h - (dom (hd_heap s) - T)) s'" using owns_frame [OF assms(1) _ _ assms(4-6)] assms(2) by simp
  moreover have "dom h - (dom (hd_heap s) - T) = T" using assms(1,3) by (auto simp only: owns_def)
  ultimately show ?thesis by simp
qed

text \<open>The state in which a completion is served, and what the handler then owns.\<close>

lemma pass_begins:
  assumes o: "owns T s" and i: "i < length (hd_pending s)" "length t \<le> READ_SZ" and q: "q = hd_pending s ! i"
  obtains s1 where "kernel_complete q res t s = Inr s1"
    "server_pass e srv (Completes i res t) s = serve_cqe e srv (get_data q) res
       (s1\<lparr>hd_pending := take i (hd_pending s) @ drop (Suc i) (hd_pending s)\<rparr>)"
    "owns (T \<union> set (hd_owned (hd_heap s1) q)) (s1\<lparr>hd_pending := take i (hd_pending s) @ drop (Suc i) (hd_pending s)\<rparr>)"
    "entry_ok (hd_heap s1) q" "hd_owned (hd_heap s1) q = hd_owned (hd_heap s) q" "distinct (hd_owned (hd_heap s1) q)"
    "T \<inter> set (hd_owned (hd_heap s1) q) = {}" "hd_queue s1 = hd_queue s" "hd_pending s1 = hd_pending s" "hd_closed s1 = hd_closed s"
    "dom (hd_heap s1) = dom (hd_heap s)" "hd_heap s1 (get_data q) = hd_heap s (get_data q)"
proof -
  note tk = owns_take [OF o i(1) q]
  have "\<exists>s1. kernel_complete q res t s = Inr s1 \<and> (\<exists>h x. s1 = s\<lparr>hd_heap := h, hd_sent := x\<rparr> \<and>
    entry_ok h q \<and> hd_owned h q = hd_owned (hd_heap s) q \<and> (\<forall>a. a \<notin> set (hd_owned (hd_heap s) q) \<longrightarrow> h a = hd_heap s a) \<and> h 0 = hd_heap s 0 \<and>
    dom h = dom (hd_heap s) \<and> h (get_data q) = hd_heap s (get_data q))"
    using kernel_complete_spec [OF tk(2) i(2) tk(3), of res] by (cases "kernel_complete q res t s") (simp_all only: yields_simps, blast)
  then obtain h x where k:
    "kernel_complete q res t s = Inr (s\<lparr>hd_heap := h, hd_sent := x\<rparr>)" "entry_ok h q" "hd_owned h q = hd_owned (hd_heap s) q"
    "\<And>a. a \<notin> set (hd_owned (hd_heap s) q) \<Longrightarrow> h a = hd_heap s a" "dom h = dom (hd_heap s)" "h (get_data q) = hd_heap s (get_data q)"
    by blast
  let ?s1 = "s\<lparr>hd_heap := h, hd_sent := x\<rparr>"
  have "owns (T \<union> set (hd_owned (hd_heap s) q)) (?s1\<lparr>hd_pending := take i (hd_pending s) @ drop (Suc i) (hd_pending s)\<rparr>)"
    by (rule owns_contents [OF tk(1), of h]) (use k(4,5) in auto)
  then show thesis by (intro that [of ?s1]) (use k(1-3,5,6) tk(3,4) q in \<open>simp_all add: server_pass_def Let_def\<close>)
qed

lemma server_pass_safe:
  assumes m: "env_ok e" and o: "owns T s" and ev: "event_ok ev s"
  shows "yields (server_pass e srv ev s) memory_safe (\<lambda>s'. \<exists>T'. owns T' s' \<and> (\<not> empty_read ev s \<longrightarrow> T' = T))"
proof (cases ev)
  case WaitFails
  then show ?thesis by (simp add: server_pass_def)
next
  case (Completes i res t)
  then have i: "i < length (hd_pending s)" "length t \<le> READ_SZ" using ev by (simp_all add: event_ok_def)
  let ?q = "hd_pending s ! i"
  let ?rest = "\<lambda>s1. s1\<lparr>hd_pending := take i (hd_pending s) @ drop (Suc i) (hd_pending s)\<rparr>"
  show ?thesis unfolding Completes
  proof (rule pass_begins [OF o i refl, of res e srv])
    fix s1
    assume e: "server_pass e srv (Completes i res t) s = serve_cqe e srv (get_data ?q) res (?rest s1)"
      and own: "owns (T \<union> set (hd_owned (hd_heap s1) ?q)) (?rest s1)" "entry_ok (hd_heap s1) ?q"
        "distinct (hd_owned (hd_heap s1) ?q)" "T \<inter> set (hd_owned (hd_heap s1) ?q) = {}"
      and same: "hd_heap s1 (get_data ?q) = hd_heap s (get_data ?q)"
    have "yields (serve_cqe e srv (get_data ?q) res (?rest s1)) memory_safe (\<lambda>s'.
        if res = 0 \<and> read_of (hd_heap (?rest s1)) (get_data ?q) then owns (T \<union> set (hd_owned (hd_heap (?rest s1)) ?q)) s' else owns T s')"
      by (rule serve_cqe_safe [OF m]) (use own in simp_all)
    then show "yields (server_pass e srv (Completes i res t) s) memory_safe
        (\<lambda>s'. \<exists>T'. owns T' s' \<and> (\<not> empty_read (Completes i res t) s \<longrightarrow> T' = T))"
      unfolding e by (rule yields_mono) (use same in \<open>auto simp: empty_read_def read_of_def split: if_splits\<close>)
  qed
qed

text \<open>A run that has no empty read.\<close>

fun no_empty_read :: "henv \<Rightarrow> u32 \<Rightarrow> httpd_event list \<Rightarrow> httpd \<Rightarrow> bool" where
  "no_empty_read e srv [] s \<longleftrightarrow> True"
| "no_empty_read e srv (ev # evs) s \<longleftrightarrow> \<not> empty_read ev s \<and>
     (case server_pass e srv ev s of Inl _ \<Rightarrow> True | Inr s \<Rightarrow> no_empty_read e srv evs s)"

lemma server_run_safe:
  assumes "env_ok e"
  shows "server_run e srv evs s = Some x \<Longrightarrow> owns T s \<Longrightarrow>
    yields x memory_safe (\<lambda>s'. \<exists>T'. owns T' s' \<and> (no_empty_read e srv evs s \<longrightarrow> T' = T))"
proof (induction evs arbitrary: s T)
  case (Cons ev evs)
  have ok: "event_ok ev s" using Cons.prems(1) by (simp split: if_splits)
  note p = server_pass_safe [OF assms Cons.prems(2) ok, of srv]
  show ?case
  proof (cases "server_pass e srv ev s")
    case (Inl y)
    then have "x = Inl y" using Cons.prems(1) ok by simp
    then show ?thesis using p Inl by simp
  next
    case (Inr s1)
    with p obtain T1 where T1: "owns T1 s1" "\<not> empty_read ev s \<longrightarrow> T1 = T" by auto
    have "server_run e srv evs s1 = Some x" using Cons.prems(1) ok Inr by simp
    from Cons.IH [OF this T1(1)] T1(2) Inr show ?thesis by (auto elim!: yields_mono)
  qed
qed auto

section \<open>Properties\<close>

text \<open>
  With a ring that has \<^verbatim>\<open>sqe_reorder\<close>, which \<^verbatim>\<open>append_sq_entry\<close> demands and the \<^verbatim>\<open>uring<0>\<close> of the example does
  not have (\<open>plain_ring_asserts\<close> and \<open>plain_ring_uses_freed\<close> say what happens then), the memory of the server is
  safe in every run of its loop: whatever the clients send, the kernel completes and in which order, wherever the
  allocator places blocks or fails, no block is used after it was freed and none is freed twice, and no
  buffer is touched that the kernel still has, as every request that is in flight owns its block and its
  buffers alone. When no read finds its connection closed, every block on the heap belongs to a request in flight.
\<close>

theorem httpd_memory_safe:
  assumes "env_ok e" and "server_loop e srv evs = Some x"
  shows "case x of
    Inl stop \<Rightarrow> stop \<noteq> HDangling \<and> stop \<noteq> HDoubleFree
  | Inr s \<Rightarrow> (\<forall>q \<in> set (hd_in_flight s). entry_ok (hd_heap s) q) \<and> distinct (held (hd_heap s) (hd_in_flight s)) \<and>
      ((\<forall>s0. add_accept_request e srv httpd_start = Inr s0 \<longrightarrow> no_empty_read e srv evs s0) \<longrightarrow>
        dom (hd_heap s) = set (held (hd_heap s) (hd_in_flight s)))"
proof (cases "add_accept_request e srv httpd_start")
  case (Inl y)
  then have "x = Inl y" using assms(2) by (simp add: server_loop_def)
  then show ?thesis using Inl add_accept_request_spec [OF assms(1) owns_start, of srv] by (simp add: memory_safe_def)
next
  case (Inr s0)
  then have "owns {} s0" using add_accept_request_spec [OF assms(1) owns_start, of srv] by simp
  from server_run_safe [OF assms(1) _ this, of srv evs x] Inr assms(2)
  show ?thesis by (cases x) (auto simp: server_loop_def memory_safe_def owns_def)
qed

section \<open>Serving a file\<close>

lemma kernel_read_eq:
  assumes "get_data q \<noteq> 0" and "hd_heap s (get_data q) = Some (Request r)" and "read_ok (hd_heap s) r q"
    and "rq_iov r = [Some v]" and "buffer_at (hd_heap s) v b" and "length b = READ_SZ" and "length t \<le> READ_SZ" and "res \<ge> 0"
  shows "kernel_complete q res t s = Inr (s\<lparr>hd_heap := (hd_heap s)(iov_base v \<mapsto> Bytes (map Some t @ drop (length t) b))\<rparr>)"
  using read_request [OF assms(2,1,4,5)] assms(3,6-8)
  by (simp add: kernel_complete_def kernel_read_def put_bytes_def read_ok_def)

lemma gather_eq:
  assumes "p \<noteq> 0" and "hd_heap s p = Some (Request r)" and "rq_iov r = map Some vs" and "list_all2 (buffer_at (hd_heap s)) vs bs"
    and "iovs_for vs bs" and "\<forall>b \<in> set bs. length b < 2 ^ 64" and "i + n = length vs"
  shows "gather p i n s = Inr (concat (drop i bs))"
  using assms(7)
proof (induction n arbitrary: i)
  case 0
  then show ?case using list_all2_lengthD [OF assms(4)] by simp
next
  case (Suc n)
  have l: "length bs = length vs" using list_all2_lengthD [OF assms(4)] by simp
  have i: "i < length vs" using Suc.prems by simp
  have "map (\<lambda>v. unat (iov_len v)) vs ! i = map (\<lambda>b. length b mod 2 ^ 64) bs ! i" using assms(5) by (simp add: iovs_for_def)
  moreover have "length (bs ! i) < 2 ^ 64" using assms(6) i l by simp
  ultimately have "unat (iov_len (vs ! i)) = length (bs ! i)" using i l by simp
  moreover have "buffer_at (hd_heap s) (vs ! i) (bs ! i)" using assms(4) i by (simp add: list_all2_nthD)
  ultimately have "gather_iov s (vs ! i) = Inr (bs ! i)" by (simp add: gather_iov_def at_bytes_def buffer_at_def)
  moreover have "get_iov p i s = Inr (vs ! i)" using assms(1-3) i by (simp add: get_iov_def at_request_def the_init_def)
  moreover have "drop i bs = bs ! i # drop (Suc i) bs" using i l by (simp add: Cons_nth_drop_Suc)
  ultimately show ?case using Suc.IH [of "Suc i"] Suc.prems by simp
qed

text \<open>A kernel that consumes what is submitted at once.\<close>

definition prompt :: "henv \<Rightarrow> bool" where
  "prompt e \<longleftrightarrow> (\<forall>qs. he_enter e qs = length qs)"

lemma submitted_entry:
  assumes "submitted e s0 fd bs s" and "prompt e" and "hd_queue s0 = []"
  obtains q r vs where "hd_queue s = []" "hd_pending s = hd_pending s0 @ [q]" "hd_sent s = hd_sent s0" "hd_closed s = hd_closed s0"
    "get_data q \<noteq> 0" "hd_heap s (get_data q) = Some (Request r)" "rq_iov r = map Some vs" "iovs_for vs bs" "write_ok (hd_heap s) r q"
    "list_all2 (buffer_at (hd_heap s)) vs bs" "sqe_fd q = fd" "\<And>a. a \<in> set (hd_owned (hd_heap s) q) \<Longrightarrow> hd_heap s0 a = None"
proof -
  from assms(1) obtain q r vs s1 where q: "s = httpd_enqueue e q s1" "built s0 (get_data q) r vs bs s1"
    "rq_iov r = map Some vs" "iovs_for vs bs" "write_ok (hd_heap s1) r q" "sqe_fd q = fd" by (auto simp: submitted_def)
  note B = builtD [OF q(2)]
  have s: "s = s1\<lparr>hd_queue := [], hd_pending := hd_pending s0 @ [q]\<rparr>"
    using assms(2,3) B(10,11) by (simp add: q(1) httpd_enqueue_def httpd_enter_def Let_def prompt_def)
  have "hd_owned (hd_heap s) q = get_data q # map iov_base vs" using B(3) q(3) by (simp add: s hd_owned_def)
  then show thesis by (intro that [of q r vs]) (use q(3-6) B(1-3,6,7,12,13) in \<open>auto simp: s\<close>)
qed

definition response :: "string \<Rightarrow> string \<Rightarrow> string" where
  "response ct c = status_line @ SERVER_STRING @ ct @ content_length (length c) @ crlf @ c"

text \<open>The request line, with a method and a path of a regular file of a known kind.\<close>

definition asks_for :: "henv \<Rightarrow> string \<Rightarrow> string \<Rightarrow> string \<Rightarrow> string \<Rightarrow> bool" where
  "asks_for e t fp ct c \<longleftrightarrow> (\<exists>m path tail rest mode. t = m @ CHR '' '' # path @ tail @ crlf @ rest \<and>
     length (m @ CHR '' '' # path @ tail) < 1024 \<and> CR \<notin> set (m @ path @ tail) \<and> NUL \<notin> set (m @ path @ tail) \<and>
     strtolower m = ''get'' \<and> path \<noteq> [] \<and> CHR '' '' \<notin> set path \<and> (tail = [] \<or> hd tail = CHR '' '') \<and>
     final_path path = Inr fp \<and> he_stat e fp = Some (mode, length c) \<and> S_ISREG mode \<and> he_open e fp \<and>
     he_read e fp (length c) = Some c \<and> content_type (get_filename_ext (strtolower fp)) = Some ct \<and> length c < 2 ^ 63)"

lemma asks_for_line:
  assumes "asks_for e t fp ct c"
  shows "\<exists>l. get_line (t @ old) 1024 = Inr (Some l) \<and> handle_http_method e (c_string l) fd s =
    hbind (zh_malloc (malloc_request e 6 s)) (\<lambda>(req, s).
      hbind (put_request req (\<lambda>r. r\<lparr>rq_iovec_count := Some 6, rq_client_socket := Some fd\<rparr>) s) (\<lambda>s.
      hbind (send_headers e fp (length c) req s) (\<lambda>s.
      hbind (copy_file_contents e fp (length c) req 5 s) (\<lambda>s. add_write_request e req s))))"
proof -
  from assms obtain m path tail rest mode where t: "t = m @ CHR '' '' # path @ tail @ crlf @ rest"
    "length (m @ CHR '' '' # path @ tail) < 1024" "CR \<notin> set (m @ path @ tail)" "NUL \<notin> set (m @ path @ tail)"
    "strtolower m = ''get''" "path \<noteq> []" "CHR '' '' \<notin> set path" "tail = [] \<or> hd tail = CHR '' ''"
    "final_path path = Inr fp" "he_stat e fp = Some (mode, length c)" "S_ISREG mode"
    unfolding asks_for_def by blast
  let ?l = "m @ CHR '' '' # path @ tail"
  have cr: "CR \<notin> set ?l" "NUL \<notin> set ?l" using t(3,4) by (auto simp: CR_def NUL_def)
  have "get_line (?l @ CR # LF # rest @ old) 1024 = Inr (Some ?l)"
  proof (rule get_line_spec [OF t(2)])
    fix i assume "i + 1 < length ?l" "?l ! i = CR"
    then have "CR \<in> set ?l" by (metis add_lessD1 nth_mem)
    with cr show "?l ! (i + 1) \<noteq> LF" by blast
  qed
  then have gl: "get_line (t @ old) 1024 = Inr (Some ?l)" by (simp add: t(1) crlf_def)
  have "\<forall>x \<in> set ?l. x \<noteq> NUL" using cr(2) by blast
  then have cs: "c_string ?l = ?l" unfolding c_string_def by (rule takeWhile_eq_all_conv [THEN iffD2])
  have "tolower (CHR '' '') = CHR '' ''" by code_simp
  then have "CHR '' '' \<in> set m \<Longrightarrow> CHR '' '' \<in> tolower ` set m" by (metis imageI)
  then have "CHR '' '' \<in> set m \<Longrightarrow> CHR '' '' \<in> set (strtolower m)" by (simp only: strtolower_def set_map)
  moreover have "CHR '' '' \<notin> set (strtolower m)" unfolding t(5) by simp
  moreover have "m \<noteq> []" using t(5) by (rule contrapos_pn) (simp add: strtolower_def)
  ultimately have m: "CHR '' '' \<notin> set m" "m \<noteq> []" by blast+
  have "handle_http_method e (c_string ?l) fd s = handle_get_method e (Some path) fd s"
    unfolding cs handle_http_method_def strtok_r_two(1) [OF m(2) t(6) m(1) t(7,8)] strtok_r_two(2) [OF m(2) t(6) m(1) t(7,8)]
    using t(5) by (simp add: strtok_r_two(2) [OF m(2) t(6) m(1) t(7,8)])
  then show ?thesis using gl t(9-11) by (simp add: handle_get_method_def)
qed

lemma content_type_length: "content_type x = Some ct \<Longrightarrow> length ct < 100"
  unfolding content_type_def Let_def crlf_def by (simp split: if_split_asm; (hypsubst | simp)?)+

lemma file_answer_lengths:
  assumes "asks_for e t fp ct c" and "b \<in> set (file_answer e fp ct (length c))"
  shows "length b < 2 ^ 64"
proof -
  from assms(1) have c: "length c < 2 ^ 63" "he_read e fp (length c) = Some c" "content_type (get_filename_ext (strtolower fp)) = Some ct"
    unfolding asks_for_def by blast+
  have "length c < 10 ^ Suc 19" using c(1) by simp
  from length_decimal [OF this] have "length (content_length (length c)) < 100" by (simp add: content_length_def crlf_def)
  moreover have "length ct < 100" using content_type_length [OF c(3)] .
  moreover have "length status_line < 100" "length SERVER_STRING < 100" "length crlf < 100"
    by (simp_all add: status_line_def SERVER_STRING_def crlf_def)
  moreover have "length (file_buffer e fp (length c)) < 2 ^ 63" using c(1,2) by (simp add: file_buffer_def)
  ultimately show ?thesis using assms(2) by (auto simp: file_answer_def)
qed

lemma file_answer_concat: "asks_for e t fp ct c \<Longrightarrow> concat (file_answer e fp ct (length c)) = map Some (response ct c)"
  by (auto simp: asks_for_def file_answer_def file_buffer_def response_def)

lemma entry_read: "entry_ok h q \<Longrightarrow> sqe_opcode q = IORING_OP_READV \<Longrightarrow> \<exists>r. h (get_data q) = Some (Request r) \<and> read_ok h r q"
  by (auto simp: entry_ok_def accept_ok_def write_ok_def)

text \<open>The first pass: the request is read, the answer is built and submitted, and the request is released.\<close>

lemma get_pass:
  assumes m: "env_ok e" and o: "owns T s" and i: "i < length (hd_pending s)" and op: "sqe_opcode (hd_pending s ! i) = IORING_OP_READV"
    and t: "asks_for e t fp ct c" "length t \<le> READ_SZ" and mem: "enough e s" and q0: "hd_queue s = []"
  shows "\<exists>s1 s2 s3. server_pass e srv (Completes i (int (length t)) t) s = Inr s3 \<and> owns T s3 \<and>
    submitted e s1 (sqe_fd (hd_pending s ! i)) (file_answer e fp ct (length c)) s2 \<and>
    hd_queue s1 = [] \<and> hd_pending s1 = take i (hd_pending s) @ drop (Suc i) (hd_pending s) \<and> hd_sent s1 = hd_sent s \<and> hd_closed s1 = hd_closed s \<and>
    (\<forall>a. hd_heap s1 a = None \<longrightarrow> hd_heap s3 a = hd_heap s2 a) \<and>
    hd_queue s3 = hd_queue s2 \<and> hd_pending s3 = hd_pending s2 \<and> hd_sent s3 = hd_sent s2 \<and> hd_closed s3 = hd_closed s2"
proof -
  let ?q = "hd_pending s ! i" and ?rest = "\<lambda>s'. s'\<lparr>hd_pending := take i (hd_pending s) @ drop (Suc i) (hd_pending s)\<rparr>"
  have "t \<noteq> []" using t(1) by (auto simp: asks_for_def)
  then have res: "int (length t) \<noteq> 0" "int (length t) \<ge> 0" by simp_all
  have en: "entry_ok (hd_heap s) ?q" by (rule owns_take(2) [OF o i refl])
  then obtain r where r: "hd_heap s (get_data ?q) = Some (Request r)" "read_ok (hd_heap s) r ?q" "get_data ?q \<noteq> 0"
    using entry_read [OF en op] by (auto simp: entry_ok_def)
  then obtain v b where v: "rq_iov r = [Some v]" "buffer_at (hd_heap s) v b" "length b = READ_SZ" "None \<notin> set b"
    "rq_event_type r = Some EVENT_TYPE_READ" "rq_client_socket r = Some (sqe_fd ?q)" by (auto simp: read_ok_def)
  let ?b = "map Some t @ drop (length t) b"
  define s1 where "s1 = s\<lparr>hd_heap := (hd_heap s)(iov_base v \<mapsto> Bytes ?b)\<rparr>"
  have kr: "kernel_complete ?q (int (length t)) t s = Inr s1"
    unfolding s1_def by (rule kernel_read_eq [OF r(3,1,2) v(1-3) t(2) res(2)])
  from pass_begins [OF o i t(2) refl, of "int (length t)" e srv] kr have
    p: "server_pass e srv (Completes i (int (length t)) t) s = serve_cqe e srv (get_data ?q) (int (length t)) (?rest s1)"
    "owns (T \<union> set (hd_owned (hd_heap s1) ?q)) (?rest s1)" "entry_ok (hd_heap s1) ?q" "distinct (hd_owned (hd_heap s1) ?q)"
    "T \<inter> set (hd_owned (hd_heap s1) ?q) = {}" "dom (hd_heap s1) = dom (hd_heap s)" "hd_heap s1 (get_data ?q) = hd_heap s (get_data ?q)"
    by (metis Inr_inject)+
  have r1: "hd_heap s1 (get_data ?q) = Some (Request r)" using p(7) r(1) by simp
  have k1: "read_ok (hd_heap s1) r ?q" using entry_read [OF p(3) op] r1 by auto
  have b1: "buffer_at (hd_heap s1) v ?b" "length ?b = READ_SZ" using v(2,3) t(2) by (simp_all add: s1_def buffer_at_def)
  have n1: "None \<notin> set ?b" using v(4) by (auto dest: in_set_dropD)
  have mp: "map the ?b = t @ map the (drop (length t) b)" by simp
  have "enough e (?rest s1)" using mem p(6) by (simp add: enough_def)
  moreover have "\<not> full (?rest s1) x" for x using q0 by (simp add: full_def s1_def QUEUE_DEPTH_def)
  moreover have "\<not> file_fails e fp (length c) x" for x using t(1) by (auto simp: asks_for_def file_fails_def)
  ultimately have fails: "\<not> (no_room e (?rest s1) x \<or> full (?rest s1) x \<or> file_fails e fp (length c) x)" for x by blast
  have "yields (handle_client_request e (get_data ?q) (?rest s1)) (\<lambda>_. False)
      (submitted e (?rest s1) (sqe_fd ?q) (file_answer e fp ct (length c)))"
  proof -
    obtain l where l: "get_line (map the ?b) 1024 = Inr (Some l)"
      "handle_http_method e (c_string l) (sqe_fd ?q) (?rest s1) =
        hbind (zh_malloc (malloc_request e 6 (?rest s1))) (\<lambda>(req, s).
        hbind (put_request req (\<lambda>r. r\<lparr>rq_iovec_count := Some 6, rq_client_socket := Some (sqe_fd ?q)\<rparr>) s) (\<lambda>s.
        hbind (send_headers e fp (length c) req s) (\<lambda>s.
        hbind (copy_file_contents e fp (length c) req 5 s) (\<lambda>s. add_write_request e req s))))"
      using asks_for_line [OF t(1), of "map the (drop (length t) b)" "sqe_fd ?q" "?rest s1"] unfolding mp by blast
    have ct: "content_type (get_filename_ext (strtolower fp)) = Some ct" using t(1) by (auto simp: asks_for_def)
    have "handle_client_request e (get_data ?q) (?rest s1) = handle_http_method e (c_string l) (sqe_fd ?q) (?rest s1)"
    proof (rule handle_client_request_eq [of "?rest s1" "get_data ?q" r v ?b "sqe_fd ?q" e])
    qed (use r1 r(3) v(1,6) b1 n1 l(1) in simp_all)
    then have eq: "handle_client_request e (get_data ?q) (?rest s1) =
        hbind (zh_malloc (malloc_request e 6 (?rest s1))) (\<lambda>(req, s).
        hbind (put_request req (\<lambda>r. r\<lparr>rq_iovec_count := Some 6, rq_client_socket := Some (sqe_fd ?q)\<rparr>) s) (\<lambda>s.
        hbind (send_headers e fp (length c) req s) (\<lambda>s.
        hbind (copy_file_contents e fp (length c) req 5 s) (\<lambda>s. add_write_request e req s))))"
      using l(2) by (rule trans)
    show ?thesis unfolding eq
    proof (rule yields_mono [OF answer_file_spec [OF m]])
      fix x assume "no_room e (?rest s1) x \<or> full (?rest s1) x \<or> file_fails e fp (length c) x"
      then show False using fails [of x] by blast
    next
      fix s2 assume "\<exists>ct. content_type (get_filename_ext (strtolower fp)) = Some ct \<and>
        submitted e (?rest s1) (sqe_fd ?q) (file_answer e fp ct (length c)) s2"
      then show "submitted e (?rest s1) (sqe_fd ?q) (file_answer e fp ct (length c)) s2" unfolding ct by (elim exE conjE) (simp only: option.inject)
    qed
  qed
  then obtain s2 where s2: "handle_client_request e (get_data ?q) (?rest s1) = Inr s2"
    "submitted e (?rest s1) (sqe_fd ?q) (file_answer e fp ct (length c)) s2"
    by (cases "handle_client_request e (get_data ?q) (?rest s1)") simp_all
  from serve_read_spec(2) [where T = T and r = r and fd = "sqe_fd ?q" and bs = "file_answer e fp ct (length c)", OF m _ _ _ r(3) _ _ res(1) s2(1)]
    s2(2) p(2,4,5) r1 k1
  obtain s3 where s3: "serve_read e (get_data ?q) (int (length t)) (?rest s1) = Inr s3" "owns T s3"
    "\<forall>a. a \<notin> set (hd_owned (hd_heap s1) ?q) \<longrightarrow> hd_heap s3 a = hd_heap s2 a"
    "hd_queue s3 = hd_queue s2" "hd_pending s3 = hd_pending s2" "hd_sent s3 = hd_sent s2" "hd_closed s3 = hd_closed s2" by auto
  have "server_pass e srv (Completes i (int (length t)) t) s = Inr s3"
    unfolding p(1) using r1 r(3) v(5) s3(1) by (simp add: serve_cqe_def at_request_def the_init_def)
  moreover have "hd_heap s3 a = hd_heap s2 a" if "hd_heap s1 a = None" for a
  proof -
    have "a \<notin> set (hd_owned (hd_heap s1) ?q)"
      using that r1 v(1) b1(1) by (auto simp: hd_owned_def buffer_at_def)
    then show ?thesis using s3(3) by blast
  qed
  ultimately show ?thesis using s2(2) s3(2,4-7) q0 by (intro exI [of _ "?rest s1"] exI [of _ s2] exI [of _ s3]) (simp add: s1_def)
qed

text \<open>The second pass: the answer is sent, the connection is closed and the blocks of the answer are released.\<close>

lemma write_pass:
  assumes o: "owns T s" and i: "i < length (hd_pending s)" and q: "q = hd_pending s ! i"
    and r: "get_data q \<noteq> 0" "hd_heap s (get_data q) = Some (Request r)" "rq_iov r = map Some vs" "iovs_for vs bs" "write_ok (hd_heap s) r q"
      "list_all2 (buffer_at (hd_heap s)) vs bs" "\<forall>b \<in> set bs. length b < 2 ^ 64" and n: "n \<ge> 0"
  shows "\<exists>s'. server_pass e srv (Completes i n []) s = Inr s' \<and> owns T s' \<and> hd_queue s' = hd_queue s \<and>
    hd_pending s' = take i (hd_pending s) @ drop (Suc i) (hd_pending s) \<and>
    hd_sent s' = hd_sent s @ [(sqe_fd q, take (nat n) (concat bs))] \<and> hd_closed s' = hd_closed s @ [sqe_fd q]"
proof -
  let ?rest = "\<lambda>s'. s'\<lparr>hd_pending := take i (hd_pending s) @ drop (Suc i) (hd_pending s)\<rparr>"
  define s1 where "s1 = s\<lparr>hd_sent := hd_sent s @ [(sqe_fd q, take (nat n) (concat bs))]\<rparr>"
  have len: "length vs = unat (sqe_len q)" using r(3,5) by (simp add: write_ok_def)
  have "gather (get_data q) 0 (length vs) s = Inr (concat bs)" by (simp add: gather_eq [OF r(1-3,6,4,7)])
  then have "kernel_complete q n [] s = Inr s1"
    using r(5) n by (simp add: kernel_complete_def kernel_write_def write_ok_def s1_def len)
  with pass_begins [OF o i _ q, of "[]" n e srv] have p:
    "server_pass e srv (Completes i n []) s = serve_cqe e srv (get_data q) n (?rest s1)"
    "owns (T \<union> set (hd_owned (hd_heap s1) q)) (?rest s1)" "distinct (hd_owned (hd_heap s1) q)" "T \<inter> set (hd_owned (hd_heap s1) q) = {}"
    by (metis Inr_inject list.size(3) le0)+
  have w: "write_ok (hd_heap (?rest s1)) r q" "hd_heap (?rest s1) (get_data q) = Some (Request r)" using r(2,5) by (simp_all add: s1_def)
  from serve_write_spec [of T "?rest s1" q r] p(2-4) r(1) w obtain s' where s': "serve_write (get_data q) (?rest s1) = Inr s'" "owns T s'"
    "hd_closed s' = hd_closed s @ [sqe_fd q]" "hd_queue s' = hd_queue s" "hd_pending s' = take i (hd_pending s) @ drop (Suc i) (hd_pending s)"
    "hd_sent s' = hd_sent s @ [(sqe_fd q, take (nat n) (concat bs))]" by (auto simp: s1_def)
  have "serve_cqe e srv (get_data q) n (?rest s1) = Inr s'"
    using w r(1) n s'(1) by (simp add: serve_cqe_def at_request_def the_init_def write_ok_def)
  with p(1) s' show ?thesis by simp
qed

text \<open>
  With such a ring a request for a file is served: when a client sends a GET request whose path names a regular
  file of a known kind, memory suffices and the kernel consumes what is submitted at once, the server releases the
  request and submits one write of the status line, the headers and the contents of the file in this order to
  the socket of that client; when the kernel has written \<open>n\<close> bytes, those are the first \<open>n\<close> bytes of this response,
  the connection is closed and every block of both requests is free again.
\<close>

theorem httpd_serves_file:
  assumes "env_ok e" and "prompt e" and "owns T s" and "enough e s" and "hd_queue s = []"
    and "i < length (hd_pending s)" and "sqe_opcode (hd_pending s ! i) = IORING_OP_READV"
    and "asks_for e t fp ct c" and "length t \<le> READ_SZ"
  shows "\<exists>s'. server_run e srv [Completes i (int (length t)) t, Completes (length (hd_pending s) - 1) (int n) []] s = Some (Inr s') \<and>
    hd_sent s' = hd_sent s @ [(sqe_fd (hd_pending s ! i), take n (map Some (response ct c)))] \<and>
    hd_closed s' = hd_closed s @ [sqe_fd (hd_pending s ! i)] \<and>
    hd_pending s' = take i (hd_pending s) @ drop (Suc i) (hd_pending s) \<and> owns T s'"
proof -
  let ?q = "hd_pending s ! i" and ?rest = "take i (hd_pending s) @ drop (Suc i) (hd_pending s)" and ?j = "length (hd_pending s) - 1"
  from get_pass [OF assms(1,3,6,7,8,9,4,5), of srv] obtain s1 s2 s3 where
    p1: "server_pass e srv (Completes i (int (length t)) t) s = Inr s3" "owns T s3"
      "submitted e s1 (sqe_fd ?q) (file_answer e fp ct (length c)) s2" "hd_queue s1 = []" "hd_pending s1 = ?rest"
      "hd_sent s1 = hd_sent s" "hd_closed s1 = hd_closed s" "\<And>a. hd_heap s1 a = None \<Longrightarrow> hd_heap s3 a = hd_heap s2 a"
      "hd_queue s3 = hd_queue s2" "hd_pending s3 = hd_pending s2" "hd_sent s3 = hd_sent s2" "hd_closed s3 = hd_closed s2" by blast
  from submitted_entry [OF p1(3) assms(2) p1(4)] obtain q r vs where
    q: "hd_pending s2 = ?rest @ [q]" "hd_sent s2 = hd_sent s" "hd_closed s2 = hd_closed s" "get_data q \<noteq> 0"
      "hd_heap s2 (get_data q) = Some (Request r)" "rq_iov r = map Some vs" "iovs_for vs (file_answer e fp ct (length c))"
      "write_ok (hd_heap s2) r q" "list_all2 (buffer_at (hd_heap s2)) vs (file_answer e fp ct (length c))" "sqe_fd q = sqe_fd ?q"
      "\<And>a. a \<in> set (hd_owned (hd_heap s2) q) \<Longrightarrow> hd_heap s1 a = None" unfolding p1(5-7) by metis
  have ow: "hd_owned (hd_heap s2) q = get_data q # map iov_base vs" using q(5,6) by (simp add: hd_owned_def)
  have same: "hd_heap s3 a = hd_heap s2 a" if "a \<in> insert (get_data q) (iov_base ` set vs)" for a
    using q(11) [of a] p1(8) [of a] that by (simp add: ow)
  have h3: "hd_heap s3 (get_data q) = Some (Request r)" using q(5) same by simp
  have b3: "list_all2 (buffer_at (hd_heap s3)) vs (file_answer e fp ct (length c))"
    by (rule buffers_frame [OF q(9)]) (simp add: same)
  have w3: "write_ok (hd_heap s3) r q" using q(6,8) same by (auto simp: write_ok_def buffer_at_def)
  have j: "?j < length (hd_pending s3)" "q = hd_pending s3 ! ?j" using assms(6) p1(10) q(1) by (auto simp: nth_append)
  have big: "\<forall>b \<in> set (file_answer e fp ct (length c)). length b < 2 ^ 64" using file_answer_lengths [OF assms(8)] by blast
  from write_pass [OF p1(2) j q(4) h3 q(6,7) w3 b3 big, of "int n" e srv] obtain s' where
    s': "server_pass e srv (Completes ?j (int n) []) s3 = Inr s'" "owns T s'"
      "hd_pending s' = take ?j (hd_pending s3) @ drop (Suc ?j) (hd_pending s3)"
      "hd_sent s' = hd_sent s @ [(sqe_fd ?q, take n (map Some (response ct c)))]" "hd_closed s' = hd_closed s @ [sqe_fd ?q]"
    using q(2,3,10) p1(11,12) file_answer_concat [OF assms(8)] by auto
  have "length ?rest = ?j" using assms(6) by simp
  moreover have "take (length xs) (xs @ [q]) @ drop (Suc (length xs)) (xs @ [q]) = xs" for xs by simp
  ultimately have "hd_pending s' = ?rest" using s'(3) p1(10) q(1) by metis
  moreover have "event_ok (Completes i (int (length t)) t) s" using assms(6,9) by (simp add: event_ok_def)
  moreover have "event_ok (Completes ?j (int n) []) s3" using j w3 by (simp add: event_ok_def write_ok_def)
  ultimately show ?thesis using p1(1) s'(1,2,4,5) by (intro exI [of _ s']) simp
qed

text \<open>A client on socket 5 asks for the index file; the allocator gives the first free address.\<close>

definition first_free :: "heap \<Rightarrow> nat \<Rightarrow> ptr" where
  "first_free h n = (case find (\<lambda>p. h p = None) (map of_nat [1..<100]) of None \<Rightarrow> 0 | Some p \<Rightarrow> p)"

definition example_env :: henv where
  "example_env = \<lparr>he_ring = RingReorder, he_malloc = first_free, he_enter = length, he_entry = sqe_example, he_client_addr = 1000, he_client_addr_len = 1016,
     he_stat = (\<lambda>f. if f = ''public/index.html'' then Some (0x81A4, 5) else None),
     he_open = (\<lambda>f. f = ''public/index.html''), he_read = (\<lambda>f n. Some ''hello'')\<rparr>"

definition example_read :: httpd where
  "example_read = \<lparr>hd_heap = [1 \<mapsto> Request \<lparr>rq_event_type = Some EVENT_TYPE_READ, rq_iovec_count = None, rq_client_socket = Some 5,
       rq_iov = [Some \<lparr>iov_base = 2, iov_len = of_nat READ_SZ\<rparr>]\<rparr>, 2 \<mapsto> Bytes (replicate READ_SZ (Some NUL))],
     hd_queue = [], hd_pending = [set_data 1 (prep_readv 5 17 1 0 sqe_example)], hd_sent = [], hd_closed = []\<rparr>"

lemma first_free_ok: "malloc_ok first_free"
  by (auto simp: env_ok_def malloc_ok_def first_free_def find_Some_iff split: option.splits)

lemma first_free_enough: "card (dom h) < 99 \<Longrightarrow> first_free h n \<noteq> 0"
proof -
  assume c: "card (dom h) < 99"
  let ?ps = "map of_nat [1..<100] :: ptr list"
  have inj: "inj_on (of_nat :: nat \<Rightarrow> ptr) {1..<100}" by (rule inj_onI) (auto simp: word_of_nat_eq_iff take_bit_nat_eq_self)
  have "card (set ?ps) = 99" using card_image [OF inj] by simp
  then have "\<not> set ?ps \<subseteq> dom h" using c card_mono [of "dom h" "set ?ps"] by auto
  then have "find (\<lambda>p. h p = None) ?ps \<noteq> None" by (auto simp: find_None_iff)
  then obtain p where p: "find (\<lambda>p. h p = None) ?ps = Some p" by blast
  then have "p \<in> set ?ps" unfolding find_Some_iff by (metis nth_mem)
  moreover have "0 \<notin> set ?ps" by (auto simp: word_of_nat_eq_0_iff dvd_def)
  ultimately show ?thesis using p unfolding first_free_def by (metis option.simps(5))
qed

lemma example_read_owns: "owns {} example_read"
  by (auto simp: owns_def hd_in_flight_def example_read_def entry_ok_def read_ok_def buffer_at_def hd_owned_def
      set_data_def get_data_def prep_readv_def prep_rw_def READ_SZ_def unat_of_nat)

theorem httpd_serves_file_witness:
  "\<exists>s'. server_run example_env 3 [Completes 0 18 (''GET / HTTP/1.0'' @ crlf @ crlf), Completes 0 200 []] example_read = Some (Inr s') \<and>
    hd_sent s' = [(5, take 200 (map Some (response (''Content-Type: text/html'' @ crlf) ''hello'')))] \<and> hd_closed s' = [5] \<and> hd_pending s' = []"
proof -
  let ?t = "''GET / HTTP/1.0'' @ crlf @ crlf" and ?ct = "''Content-Type: text/html'' @ crlf"
  have "content_type (get_filename_ext (strtolower ''public/index.html'')) = Some ?ct" "final_path ''/'' = Inr ''public/index.html''"
    "strtolower ''GET'' = ''get''" "S_ISREG 0x81A4" by code_simp+
  then have t: "asks_for example_env ?t ''public/index.html'' ?ct ''hello''" unfolding asks_for_def
    by (intro exI [of _ "''GET''"] exI [of _ "''/''"] exI [of _ "'' HTTP/1.0''"] exI [of _ crlf] exI [of _ "0x81A4"])
      (simp add: example_env_def CR_def NUL_def)
  have "card (dom (hd_heap example_read)) = 2" by (simp add: example_read_def)
  then have mem: "enough example_env example_read" by (simp add: enough_def example_env_def first_free_enough)
  have q: "hd_pending example_read = [set_data 1 (prep_readv 5 17 1 0 sqe_example)]" "hd_queue example_read = []"
    "hd_sent example_read = []" "hd_closed example_read = []" by (simp_all add: example_read_def)
  have f: "sqe_opcode (set_data 1 (prep_readv 5 17 1 0 sqe_example)) = IORING_OP_READV"
    "sqe_fd (set_data 1 (prep_readv 5 17 1 0 sqe_example)) = 5" by (simp_all add: set_data_def prep_readv_def prep_rw_def)
  have env: "env_ok example_env" "prompt example_env" by (simp_all add: env_ok_def example_env_def first_free_ok prompt_def)
  have l: "length ?t = 18" by (simp add: crlf_def)
  have "\<exists>s'. server_run example_env 3 [Completes 0 (int (length ?t)) ?t, Completes (length (hd_pending example_read) - 1) (int 200) []] example_read = Some (Inr s') \<and>
    hd_sent s' = hd_sent example_read @ [(sqe_fd (hd_pending example_read ! 0), take 200 (map Some (response ?ct ''hello'')))] \<and>
    hd_closed s' = hd_closed example_read @ [sqe_fd (hd_pending example_read ! 0)] \<and>
    hd_pending s' = take 0 (hd_pending example_read) @ drop (Suc 0) (hd_pending example_read) \<and> owns {} s'"
    by (rule httpd_serves_file [OF env example_read_owns mem q(2) _ _ t]) (use f in \<open>simp_all add: q READ_SZ_def crlf_def\<close>)
  moreover have "[Completes 0 (int (length ?t)) ?t, Completes (length (hd_pending example_read) - 1) (int 200) []] =
      [Completes 0 18 ?t, Completes 0 200 []]" "sqe_fd (hd_pending example_read ! 0) = 5"
    "take 0 (hd_pending example_read) @ drop (Suc 0) (hd_pending example_read) = []" by (simp_all add: l q f crlf_def)
  ultimately show ?thesis by (simp only: q(3,4) append_Nil) blast
qed

text \<open>The server accepts a client and waits for the next one and for what the client sends.\<close>

lemma first_free_next:
  "h 1 = None \<Longrightarrow> first_free h n = 1"
  "h 1 \<noteq> None \<Longrightarrow> h 2 = None \<Longrightarrow> first_free h n = 2"
  "h 1 \<noteq> None \<Longrightarrow> h 2 \<noteq> None \<Longrightarrow> h 3 = None \<Longrightarrow> first_free h n = 3"
  "h 1 \<noteq> None \<Longrightarrow> h 2 \<noteq> None \<Longrightarrow> h 3 \<noteq> None \<Longrightarrow> h 4 = None \<Longrightarrow> first_free h n = 4"
  by (simp_all add: first_free_def upt_rec [of _ 100] del: upt_Suc)

theorem httpd_memory_safe_witness:
  "\<exists>s. server_loop example_env 3 [Completes 0 5 []] = Some (Inr s) \<and> length (hd_in_flight s) = 2 \<and>
     distinct (held (hd_heap s) (hd_in_flight s)) \<and> dom (hd_heap s) = set (held (hd_heap s) (hd_in_flight s))"
proof -
  have m: "env_ok example_env" by (simp add: env_ok_def example_env_def first_free_ok)
  note defs = add_accept_request_def add_read_request_def httpd_get_sq_entry_def malloc_request_def malloc_bytes_def set_iov_def
    put_request_def at_request_def put_bytes_def at_bytes_def httpd_submit_def httpd_enqueue_def httpd_enter_def example_env_def first_free_next QUEUE_DEPTH_def
  obtain s0 where s0: "add_accept_request example_env 3 httpd_start = Inr s0"
    "hd_heap s0 = [1 \<mapsto> Request \<lparr>rq_event_type = Some 0, rq_iovec_count = None, rq_client_socket = None, rq_iov = []\<rparr>]"
    "hd_queue s0 = []" "hd_pending s0 = [set_data 1 (prep_accept 3 1000 1016 0 sqe_example)]"
    by (simp add: httpd_start_def defs)
  have d: "get_data (set_data 1 (prep_accept 3 1000 1016 0 sqe_example)) = 1"
    "sqe_opcode (set_data 1 (prep_accept 3 1000 1016 0 sqe_example)) = IORING_OP_ACCEPT"
    by (simp_all add: set_data_def get_data_def prep_accept_def prep_rw_def)
  obtain s where s: "server_pass example_env 3 (Completes 0 5 []) s0 = Inr s" "length (hd_in_flight s) = 2"
    by (simp add: server_pass_def Let_def s0(2-4) d kernel_complete_def serve_cqe_def serve_accept_def the_init_def defs hd_in_flight_def free_def)
  have "server_loop example_env 3 [Completes 0 5 []] = Some (Inr s)" using s0 s(1) d by (simp add: server_loop_def event_ok_def READ_SZ_def)
  moreover have "no_empty_read example_env 3 [Completes 0 5 []] s0" using s(1) by (simp add: empty_read_def)
  ultimately show ?thesis using httpd_memory_safe [OF m, of 3 "[Completes 0 5 []]" "Inr s"] s0(1) s(2) by auto
qed

end
