(* ===== verification/Httpd_Limits.thy ===== *)
theory Httpd_Limits
  imports Httpd_Run
begin

text \<open>
  What one client can do to the web server \<^verbatim>\<open>example/httpd.cpp\<close>: the requests and the results of operations that
  end it for all clients, or that it does not release.
\<close>

section \<open>The ring without \<open>sqe_reorder\<close>\<close>

text \<open>
  The server as it is compiled has a \<^verbatim>\<open>uring<0>\<close>. With assertions its first request ends it. Without them
  that request, an accept, is submitted twice; the first completion frees it and the second uses it.
\<close>

lemma plain_ring_asserts:
  assumes "he_ring e = RingPlainAssert" and "he_malloc e (hd_heap httpd_start) 16 \<noteq> 0"
  shows "server_loop e srv evs = Some (Inl HAssert)"
  using assms by (simp add: server_loop_def add_accept_request_def httpd_get_sq_entry_def httpd_start_def QUEUE_DEPTH_def
      malloc_request_def Let_def put_request_def at_request_def httpd_submit_def)

lemma plain_ring_uses_freed:
  "server_loop (example_env\<lparr>he_ring := RingPlainNdebug\<rparr>) 3 [Completes 0 5 [], Completes 0 6 []] = Some (Inl HDangling)"
proof -
  let ?e = "example_env\<lparr>he_ring := RingPlainNdebug\<rparr>"
  let ?q = "set_data 1 (prep_accept 3 1000 1016 0 sqe_example)"
  note defs = add_accept_request_def add_read_request_def httpd_get_sq_entry_def malloc_request_def malloc_bytes_def set_iov_def
    put_request_def at_request_def put_bytes_def at_bytes_def httpd_submit_def httpd_enqueue_twice_def httpd_enter_def
    example_env_def first_free_next QUEUE_DEPTH_def
  have d: "get_data ?q = 1" "sqe_opcode ?q = IORING_OP_ACCEPT"
    by (simp_all add: set_data_def get_data_def prep_accept_def prep_rw_def)
  obtain s0 where s0: "add_accept_request ?e 3 httpd_start = Inr s0"
    "hd_heap s0 = [1 \<mapsto> Request \<lparr>rq_event_type = Some 0, rq_iovec_count = None, rq_client_socket = None, rq_iov = []\<rparr>]"
    "hd_queue s0 = []" "hd_pending s0 = [?q, ?q]"
    by (simp add: httpd_start_def defs Let_def)
  obtain s where s: "server_pass ?e 3 (Completes 0 5 []) s0 = Inr s" "hd_pending s ! 0 = ?q" "hd_heap s 1 = None"
    "0 < length (hd_pending s)"
    by (simp add: server_pass_def Let_def s0(2-4) d kernel_complete_def serve_cqe_def serve_accept_def the_init_def defs free_def)
  have "server_pass ?e 3 (Completes 0 6 []) s = Inl HDangling"
    using s(2,3) d by (simp add: server_pass_def Let_def kernel_complete_def serve_cqe_def at_request_def)
  then show ?thesis using s0 s d by (simp add: server_loop_def event_ok_def READ_SZ_def)
qed

section \<open>Operations that fail\<close>

text \<open>Any operation that fails, such as a read from a connection that the client reset, ends the server.\<close>

lemma failed_operation_stops:
  assumes "owns T s" and "i < length (hd_pending s)" and "res < 0"
  shows "server_pass e srv (Completes i res []) s = Inl (HExit 1)"
proof -
  obtain r where r: "get_data (hd_pending s ! i) \<noteq> 0" "hd_heap s (get_data (hd_pending s ! i)) = Some (Request r)"
    "rq_event_type r \<noteq> None"
    using owns_take(2) [OF assms(1,2) refl] by (auto simp: entry_ok_def accept_ok_def read_ok_def write_ok_def)
  then show ?thesis using assms(3)
    by (auto simp: server_pass_def Let_def kernel_complete_def serve_cqe_def at_request_def the_init_def)
qed

section \<open>Requests that end the server\<close>

lemma get_line_none: "CR \<notin> set s \<Longrightarrow> n < length s \<Longrightarrow> get_line s n = Inr None"
proof (induction s n rule: get_line.induct)
  case (3 c cs n)
  then show ?case by auto
qed auto

text \<open>A text without the end of a line.\<close>

lemma malformed_request_stops:
  assumes "CR \<notin> set t" and "t \<noteq> []" and "length t \<le> READ_SZ"
  shows "server_pass e srv (Completes 0 (int (length t)) t) example_read = Inl (HExit 1)"
proof -
  let ?q = "set_data 1 (prep_readv 5 17 1 0 sqe_example)"
  have q: "get_data ?q = 1" "sqe_addr ?q = 17" "sqe_opcode ?q = IORING_OP_READV"
    by (simp_all add: set_data_def get_data_def prep_readv_def prep_rw_def)
  let ?b = "map Some t @ replicate (READ_SZ - length t) (Some NUL)"
  have b: "map the ?b = t @ replicate (READ_SZ - length t) NUL" "None \<notin> set (take 1025 ?b)"
    by (simp_all add: comp_def in_set_conv_nth nth_append)
  have "get_line (map the ?b) 1024 = Inr None" unfolding b(1)
    by (rule get_line_none) (use assms in \<open>auto simp: CR_def NUL_def READ_SZ_def\<close>)
  with b(2) show ?thesis using assms(2,3) q
    by (simp add: server_pass_def Let_def example_read_def kernel_complete_def kernel_read_def get_iov_def at_request_def the_init_def
        put_bytes_def at_bytes_def serve_cqe_def serve_read_def handle_client_request_def)
qed

text \<open>A line without a method or without a path: a null pointer is read.\<close>

lemma no_path_crashes:
  "handle_http_method e '''' fd s = Inl HNull" "handle_http_method e ''GET'' fd s = Inl HNull"
proof -
  have "strtok_r '''' = (None, '''')" "strtok_r ''GET'' = (Some ''GET'', '''')" "strtolower ''GET'' = ''get''" by code_simp+
  then show "handle_http_method e '''' fd s = Inl HNull" "handle_http_method e ''GET'' fd s = Inl HNull"
    by (simp_all add: handle_http_method_def handle_get_method_def)
qed

text \<open>A path that fits into the line but not into \<open>final_path\<close>, which has the same size: the stack is overrun.\<close>

lemma long_path_overflows:
  assumes "length p = 1018" and "CHR '' '' \<notin> set p" and "last p \<noteq> CHR ''/''"
  shows "length (''GET '' @ p) < 1024" and "handle_http_method e (''GET '' @ p) fd s = Inl HOverflow"
proof -
  have p: "p \<noteq> []" using assms(1) by auto
  note two = strtok_r_two [of "''GET''" p "[]", OF _ p _ assms(2)]
  have "strtolower ''GET'' = ''get''" by code_simp
  moreover have "final_path p = Inl HOverflow" using assms(1,3) by (simp add: final_path_def)
  ultimately show "handle_http_method e (''GET '' @ p) fd s = Inl HOverflow"
    using two by (simp add: handle_http_method_def handle_get_method_def)
qed (use assms in simp)

text \<open>A file whose kind is not known, such as a document in PDF, is answered from memory that was not written.\<close>

lemma unknown_kind_uninitialised:
  assumes "env_ok e" and "with_buffers s0 req fd 6 [] s" and "enough e s0"
    and "content_type (get_filename_ext (strtolower path)) = None"
  shows "send_headers e path n req s = Inl HUninit"
  using send_headers_spec [OF assms(1,2), of path n] assms(3,4) by (cases "send_headers e path n req s") auto

lemma pdf_unknown: "content_type (get_filename_ext (strtolower ''public/paper.PDF'')) = None"
  by code_simp

section \<open>Files outside the directory\<close>

lemma path_leaves_directory: "final_path ''/../secret.txt'' = Inr ''public/../secret.txt''"
  by code_simp

section \<open>Connections that are never closed\<close>

text \<open>A client that connects and closes leaves its request, its buffer and its descriptor behind.\<close>

lemma empty_read_leaks:
  "\<exists>s. server_pass e srv (Completes 0 0 []) example_read = Inr s \<and> hd_in_flight s = [] \<and> dom (hd_heap s) = {1, 2} \<and> hd_closed s = []"
proof -
  let ?q = "set_data 1 (prep_readv 5 17 1 0 sqe_example)"
  have q: "get_data ?q = 1" "sqe_addr ?q = 17" "sqe_opcode ?q = IORING_OP_READV"
    by (simp_all add: set_data_def get_data_def prep_readv_def prep_rw_def)
  show ?thesis using q
    by (simp add: server_pass_def Let_def example_read_def kernel_complete_def kernel_read_def get_iov_def at_request_def the_init_def
        put_bytes_def at_bytes_def serve_cqe_def serve_read_def hd_in_flight_def insert_commute)
qed

end
