(* ===== verification/Sessions.thy ===== *)
theory Sessions
  imports Socket Lazy_Timeout "HOL-Library.Sublist"
begin

text \<open>
  Programs over the library: the coroutines of \<^verbatim>\<open>example/echo_server.cpp\<close>, \<^verbatim>\<open>echo_server_MT.cpp\<close>,
  \<^verbatim>\<open>redis_echo.cpp\<close>, \<^verbatim>\<open>redis_echo_MT.cpp\<close>, \<^verbatim>\<open>netcat.cpp\<close> and \<^verbatim>\<open>netcat_timeout.cpp\<close>. A coroutine is what
  it awaits and how it goes on with the result; that the result of an operation reaches it is shown
  with \<open>Lazy_Api\<close> and \<open>Lazy_Timeout\<close>. What the kernel answers, and what it reads and writes in the
  memory of the coroutine, are the replies that a run is given.
\<close>

section \<open>Coroutines\<close>

text \<open>Operations linked by \<open>&&\<close>, of which the last one gives the result, and an operation with a timer.\<close>

datatype awaited = Linked "(sqe \<Rightarrow> sqe) list" | Timed "sqe \<Rightarrow> sqe" "sqe \<Rightarrow> sqe"

text \<open>\<open>Spawn i c k\<close> gives the coroutine \<open>c\<close> to the context \<open>i\<close>.\<close>

codatatype coroutine =
    Finished
  | Aborted fault
  | Await awaited "32 word \<Rightarrow> coroutine"
  | Spawn nat coroutine coroutine

definition sqe_clean :: sqe where
  "sqe_clean = \<lparr>sqe_opcode = 0, sqe_flags = 0, sqe_ioprio = 0, sqe_fd = 0, sqe_off = 0, sqe_addr = 0, sqe_len = 0,
     sqe_op_flags = 0, sqe_user_data = 0, sqe_buf_index = 0, sqe_personality = 0, sqe_file_index = 0, sqe_addr3 = 0,
     sqe_pad2 = 0\<rparr>"

fun linked_entries :: "(sqe \<Rightarrow> sqe) list \<Rightarrow> sqe list" where
  "linked_entries [] = []"
| "linked_entries [f] = [f sqe_clean]"
| "linked_entries (f # g # fs) = set_link_sqe (f sqe_clean) # linked_entries (g # fs)"

fun awaited_entries :: "awaited \<Rightarrow> sqe list" where
  "awaited_entries (Linked fs) = linked_entries fs"
| "awaited_entries (Timed f t) = [set_link (f sqe_clean), t sqe_clean]"

section \<open>The kernel's replies\<close>

record reply =
  rp_res :: "32 word"
  rp_data :: "u8 list"

type_synonym memory = "ptr \<Rightarrow> u8"

definition mem_read :: "ptr \<Rightarrow> nat \<Rightarrow> memory \<Rightarrow> u8 list" where
  "mem_read p n m = map (\<lambda>i. m (p + of_nat i)) [0..<n]"

definition mem_write :: "ptr \<Rightarrow> u8 list \<Rightarrow> memory \<Rightarrow> memory" where
  "mem_write p bs m = (\<lambda>a. if unat (a - p) < length bs then bs ! unat (a - p) else m a)"

definition is_input :: "sqe \<Rightarrow> bool" where
  "is_input e \<longleftrightarrow> sqe_opcode e = IORING_OP_RECV \<or> sqe_opcode e = IORING_OP_READ"

definition is_output :: "sqe \<Rightarrow> bool" where
  "is_output e \<longleftrightarrow> sqe_opcode e = IORING_OP_SEND \<or> sqe_opcode e = IORING_OP_WRITE"

definition transferred :: "reply \<Rightarrow> nat" where
  "transferred r = nat (sint (rp_res r))"

text \<open>What a coroutine has seen: the bytes that came in and those that went out, and the entries it
  has given to the ring.\<close>

record seen =
  sn_mem :: memory
  sn_came :: "u8 list"
  sn_went :: "u8 list"
  sn_entries :: "sqe list"
  sn_spawned :: "(nat \<times> coroutine) list"

definition serve_entry :: "sqe \<Rightarrow> reply \<Rightarrow> seen \<Rightarrow> seen" where
  "serve_entry e r s = s\<lparr>sn_entries := sn_entries s @ [e],
     sn_mem := (if is_input e then mem_write (sqe_addr e) (rp_data r) (sn_mem s) else sn_mem s),
     sn_came := (if is_input e then sn_came s @ rp_data r else sn_came s),
     sn_went := (if is_output e then sn_went s @ mem_read (sqe_addr e) (transferred r) (sn_mem s) else sn_went s)\<rparr>"

definition serve_all :: "sqe list \<Rightarrow> reply list \<Rightarrow> seen \<Rightarrow> seen" where
  "serve_all es rs = fold (\<lambda>(e, r). serve_entry e r) (zip es rs)"

fun awaited_result :: "awaited \<Rightarrow> reply list \<Rightarrow> 32 word" where
  "awaited_result (Linked fs) rs = rp_res (last rs)"
| "awaited_result (Timed f t) rs = rp_res (hd rs)"

text \<open>What is documented of the replies: no more is transferred than the entry asks for, what came in
  is as long as the result says, and after a failure the rest of a chain is cancelled.\<close>

definition reply_ok :: "sqe \<Rightarrow> reply \<Rightarrow> bool" where
  "reply_ok e r \<longleftrightarrow> (is_input e \<or> is_output e \<longrightarrow> transferred r \<le> unat (sqe_len e)) \<and>
     length (rp_data r) = (if is_input e then transferred r else 0)"

definition ECANCELED :: "32 word" where "ECANCELED = 125"

fun chain_cancelled :: "reply list \<Rightarrow> bool" where
  "chain_cancelled (r # r' # rs) \<longleftrightarrow> (sint (rp_res r) < 0 \<longrightarrow> rp_res r' = - ECANCELED) \<and> chain_cancelled (r' # rs)"
| "chain_cancelled rs \<longleftrightarrow> True"

fun replies_ok :: "awaited \<Rightarrow> reply list \<Rightarrow> bool" where
  "replies_ok (Linked fs) rs \<longleftrightarrow> list_all2 reply_ok (linked_entries fs) rs \<and> rs \<noteq> [] \<and> chain_cancelled rs"
| "replies_ok (Timed f t) rs \<longleftrightarrow> list_all2 reply_ok (awaited_entries (Timed f t)) rs"

section \<open>Runs\<close>

text \<open>One item of the list is the replies to what is awaited, or an empty one for a coroutine that is spawned.\<close>

fun run_coroutine :: "coroutine \<Rightarrow> reply list list \<Rightarrow> seen \<Rightarrow> coroutine \<times> seen" where
  "run_coroutine (Await a k) (r # rs) s =
     run_coroutine (k (awaited_result a r)) rs (serve_all (awaited_entries a) r s)"
| "run_coroutine (Spawn i c k) (r # rs) s =
     run_coroutine k rs (s\<lparr>sn_spawned := sn_spawned s @ [(i, c)]\<rparr>)"
| "run_coroutine c rs s = (c, s)"

fun run_ok :: "coroutine \<Rightarrow> reply list list \<Rightarrow> bool" where
  "run_ok (Await a k) (r # rs) \<longleftrightarrow> replies_ok a r \<and> run_ok (k (awaited_result a r)) rs"
| "run_ok (Spawn i c k) (r # rs) \<longleftrightarrow> r = [] \<and> run_ok k rs"
| "run_ok c rs \<longleftrightarrow> True"

definition seen_new :: "memory \<Rightarrow> seen" where
  "seen_new m = \<lparr>sn_mem = m, sn_came = [], sn_went = [], sn_entries = [], sn_spawned = []\<rparr>"

section \<open>Operations on a socket\<close>

text \<open>The entries of \<open>recv\<close> and \<open>send\<close> of a socket, of \<open>read\<close> and \<open>write\<close>, and of \<open>accept\<close>.\<close>

definition sock_recv :: "socket \<Rightarrow> ptr \<Rightarrow> u64 \<Rightarrow> sqe \<Rightarrow> sqe" where
  "sock_recv s buf n = prep_recv (sockfd s) buf n 0"

definition sock_send :: "socket \<Rightarrow> ptr \<Rightarrow> u64 \<Rightarrow> sqe \<Rightarrow> sqe" where
  "sock_send s buf n = prep_send (sockfd s) buf n 0"

definition file_read :: "u32 \<Rightarrow> ptr \<Rightarrow> u64 \<Rightarrow> sqe \<Rightarrow> sqe" where
  "file_read fd buf n = prep_read fd buf n (- 1)"

definition file_write :: "u32 \<Rightarrow> ptr \<Rightarrow> u64 \<Rightarrow> sqe \<Rightarrow> sqe" where
  "file_write fd buf n = prep_write fd buf n (- 1)"

definition ac_accept :: "acceptor \<Rightarrow> sqe \<Rightarrow> sqe" where
  "ac_accept a = prep_accept (sockfd (listen_socket a)) 0 0 0"

lemma operations_of_the_api:
  "socket_recv P p s buf n None = lazy_io P (sock_recv s buf n) p"
  "socket_send P p s buf n None = lazy_io P (sock_send s buf n) p"
  "api_read P p fd buf n None = lazy_io P (file_read fd buf n) p"
  "api_write P p fd buf n None = lazy_io P (file_write fd buf n) p"
  "acceptor_accept P p a None = lazy_io P (ac_accept a) p"
  by (simp_all add: socket_recv_def socket_send_def acceptor_accept_def api_op_defs lazy_op_defs sock_recv_def
      sock_send_def file_read_def file_write_def ac_accept_def)

section \<open>The sessions\<close>

definition STDIN_FILENO :: u32 where "STDIN_FILENO = 0"
definition STDOUT_FILENO :: u32 where "STDOUT_FILENO = 1"

text \<open>A coroutine that takes a descriptor makes a socket of it, which must not be negative.\<close>

definition with_socket :: "32 word \<Rightarrow> (socket \<Rightarrow> coroutine) \<Rightarrow> coroutine" where
  "with_socket fd f = (case socket_new fd of Inl x \<Rightarrow> Aborted x | Inr s \<Rightarrow> f s)"

text \<open>\<open>echo_server.cpp\<close>: the position is the start of the loop, or between the two operations.\<close>

primcorec echo_loop :: "socket \<Rightarrow> ptr \<Rightarrow> 32 word option \<Rightarrow> coroutine" where
  "echo_loop sock buf st = (case st of
     None \<Rightarrow> Await (Linked [sock_recv sock buf 8192]) (\<lambda>nr. echo_loop sock buf (Some nr))
   | Some nr \<Rightarrow> Await (Linked [sock_send sock buf (scast nr)]) (\<lambda>_. echo_loop sock buf None))"

definition echo_session :: "32 word \<Rightarrow> ptr \<Rightarrow> coroutine" where
  "echo_session fd buf = with_socket fd (\<lambda>sock. echo_loop sock buf None)"

text \<open>\<open>echo_server_MT.cpp\<close>.\<close>

primcorec echo_mt_loop :: "socket \<Rightarrow> ptr \<Rightarrow> 32 word \<Rightarrow> coroutine" where
  "echo_mt_loop sock buf nr = (if 0 < sint nr
     then Await (Linked [sock_send sock buf (scast nr), sock_recv sock buf 8192]) (\<lambda>nr. echo_mt_loop sock buf nr)
     else Finished)"

definition echo_mt_session :: "32 word \<Rightarrow> ptr \<Rightarrow> coroutine" where
  "echo_mt_session fd buf =
     with_socket fd (\<lambda>sock. Await (Linked [sock_recv sock buf 8192]) (echo_mt_loop sock buf))"

text \<open>\<open>redis_echo.cpp\<close> and \<open>redis_echo_MT.cpp\<close>: \<open>ok\<close> is where the literal \<open>"+OK\r\n"\<close> is.\<close>

primcorec redis_loop :: "socket \<Rightarrow> ptr \<Rightarrow> ptr \<Rightarrow> 32 word \<Rightarrow> coroutine" where
  "redis_loop sock recv_buf ok n = (if 0 < sint n
     then Await (Linked [sock_send sock ok 5, sock_recv sock recv_buf 100]) (\<lambda>n. redis_loop sock recv_buf ok n)
     else Finished)"

definition redis_reply :: "socket \<Rightarrow> ptr \<Rightarrow> ptr \<Rightarrow> coroutine" where
  "redis_reply sock recv_buf ok = Await (Linked [sock_recv sock recv_buf 100]) (redis_loop sock recv_buf ok)"

text \<open>\<open>netcat.cpp\<close>.\<close>

primcorec netcat_recv_loop :: "socket \<Rightarrow> ptr \<Rightarrow> 32 word \<Rightarrow> coroutine" where
  "netcat_recv_loop sock buf nr = (if 0 < sint nr
     then Await (Linked [file_write STDOUT_FILENO buf (scast nr), sock_recv sock buf 8192])
       (\<lambda>nr. netcat_recv_loop sock buf nr)
     else Finished)"

definition netcat_recv_session :: "socket \<Rightarrow> ptr \<Rightarrow> coroutine" where
  "netcat_recv_session sock buf = Await (Linked [sock_recv sock buf 8192]) (netcat_recv_loop sock buf)"

primcorec netcat_send_loop :: "socket \<Rightarrow> ptr \<Rightarrow> 32 word \<Rightarrow> coroutine" where
  "netcat_send_loop sock buf nr = (if 0 < sint nr
     then Await (Linked [sock_send sock buf (scast nr), file_read STDIN_FILENO buf 8192])
       (\<lambda>nr. netcat_send_loop sock buf nr)
     else Finished)"

definition netcat_send_session :: "socket \<Rightarrow> ptr \<Rightarrow> coroutine" where
  "netcat_send_session sock buf = Await (Linked [file_read STDIN_FILENO buf 8192]) (netcat_send_loop sock buf)"

text \<open>\<open>netcat_timeout.cpp\<close>: \<open>tm\<close> is the entry of the timer of \<open>timeout(..., 3s)\<close>.\<close>

primcorec timed_loop :: "(sqe \<Rightarrow> sqe) \<Rightarrow> socket \<Rightarrow> ptr \<Rightarrow> 32 word option \<Rightarrow> 32 word \<Rightarrow> coroutine" where
  "timed_loop tm sock buf st nr = (case st of
     None \<Rightarrow> if 0 < sint nr
       then Await (Linked [file_write STDOUT_FILENO buf (scast nr)]) (\<lambda>nw. timed_loop tm sock buf (Some nw) nr)
       else Finished
   | Some nw \<Rightarrow> Await (Timed (sock_recv sock buf 8192) tm) (\<lambda>nr. timed_loop tm sock buf None nr))"

definition timed_session :: "(sqe \<Rightarrow> sqe) \<Rightarrow> socket \<Rightarrow> ptr \<Rightarrow> coroutine" where
  "timed_session tm sock buf = Await (Timed (sock_recv sock buf 8192) tm) (timed_loop tm sock buf None)"

section \<open>The servers\<close>

text \<open>\<open>session\<close> is what the server starts for a descriptor, \<open>worker_num\<close> the number of contexts.\<close>

primcorec accept_loop :: "(32 word \<Rightarrow> coroutine) \<Rightarrow> acceptor \<Rightarrow> 32 word option \<Rightarrow> coroutine" where
  "accept_loop session ac st = (case st of
     None \<Rightarrow> Await (Linked [ac_accept ac]) (\<lambda>sock. accept_loop session ac (Some sock))
   | Some sock \<Rightarrow> if 0 \<le> sint sock then Spawn 0 (session sock) (accept_loop session ac None) else Finished)"

primcorec accept_mt_loop :: "u32 \<Rightarrow> (32 word \<Rightarrow> coroutine) \<Rightarrow> acceptor \<Rightarrow> u32 \<Rightarrow> 32 word option \<Rightarrow> coroutine" where
  "accept_mt_loop worker_num session ac turn st = (case st of
     None \<Rightarrow> Await (Linked [ac_accept ac]) (\<lambda>sock. accept_mt_loop worker_num session ac turn (Some sock))
   | Some sock \<Rightarrow> if 0 \<le> sint sock
       then Spawn (unat turn) (session sock) (accept_mt_loop worker_num session ac ((turn + 1) mod worker_num) None)
       else Finished)"

section \<open>Memory\<close>

lemma length_mem_read [simp]: "length (mem_read p n m) = n"
  by (simp add: mem_read_def)

lemma mem_read_zero [simp]: "mem_read p 0 m = []"
  by (simp add: mem_read_def)

lemma mem_read_write:
  assumes "length bs < 2 ^ 64"
  shows "mem_read p (length bs) (mem_write p bs m) = bs"
  by (rule nth_equalityI) (use assms in \<open>auto simp: mem_read_def mem_write_def unat_of_nat take_bit_nat_eq_self\<close>)

section \<open>Bytes stay in the buffer and in order\<close>

lemma entry_kinds [simp]:
  "is_input (sock_recv s buf n e)" "\<not> is_output (sock_recv s buf n e)"
  "is_output (sock_send s buf n e)" "\<not> is_input (sock_send s buf n e)"
  "is_input (file_read fd buf n e)" "\<not> is_output (file_read fd buf n e)"
  "is_output (file_write fd buf n e)" "\<not> is_input (file_write fd buf n e)"
  "\<not> is_input (ac_accept a e)" "\<not> is_output (ac_accept a e)"
  by (simp_all add: is_input_def is_output_def sock_recv_def sock_send_def file_read_def file_write_def ac_accept_def
      prep_recv_def prep_send_def prep_read_def prep_write_def prep_accept_def prep_rw_def)

lemma entry_ranges [simp]:
  "sqe_addr (sock_recv s buf n e) = buf" "sqe_len (sock_recv s buf n e) = ucast n"
  "sqe_addr (sock_send s buf n e) = buf" "sqe_len (sock_send s buf n e) = ucast n"
  "sqe_addr (file_read fd buf n e) = buf" "sqe_len (file_read fd buf n e) = ucast n"
  "sqe_addr (file_write fd buf n e) = buf" "sqe_len (file_write fd buf n e) = ucast n"
  by (simp_all add: sock_recv_def sock_send_def file_read_def file_write_def
      prep_recv_def prep_send_def prep_read_def prep_write_def prep_rw_def)

lemma linked_same [simp]:
  "is_input (set_link_sqe e) = is_input e" "is_output (set_link_sqe e) = is_output e"
  "sqe_addr (set_link_sqe e) = sqe_addr e" "sqe_len (set_link_sqe e) = sqe_len e"
  "is_input (set_link e) = is_input e" "is_output (set_link e) = is_output e"
  "sqe_addr (set_link e) = sqe_addr e" "sqe_len (set_link e) = sqe_len e"
  by (simp_all add: is_input_def is_output_def set_link_sqe_def set_link_def)

text \<open>The kernel reads or writes only the first \<open>n\<close> bytes from \<open>buf\<close>.\<close>

definition in_buffer :: "ptr \<Rightarrow> nat \<Rightarrow> sqe \<Rightarrow> bool" where
  "in_buffer buf n e \<longleftrightarrow> (is_input e \<or> is_output e \<longrightarrow> sqe_addr e = buf \<and> unat (sqe_len e) \<le> n)"

text \<open>Everything that is sent goes out.\<close>

definition reply_complete :: "sqe \<Rightarrow> reply \<Rightarrow> bool" where
  "reply_complete e r \<longleftrightarrow> (is_output e \<longrightarrow> rp_res r = sqe_len e)"

fun sends_complete :: "coroutine \<Rightarrow> reply list list \<Rightarrow> bool" where
  "sends_complete (Await a k) (r # rs) \<longleftrightarrow>
     list_all2 reply_complete (awaited_entries a) r \<and> sends_complete (k (awaited_result a r)) rs"
| "sends_complete (Spawn i c k) (r # rs) \<longleftrightarrow> sends_complete k rs"
| "sends_complete c rs \<longleftrightarrow> True"

lemma transferred_pos: "0 < sint (rp_res r) \<Longrightarrow> int (transferred r) = sint (rp_res r)"
  by (simp add: transferred_def)

lemma unat_pos:
  assumes "0 < sint (x :: 32 word)"
  shows "unat x = nat (sint x)"
proof -
  have "uint x = take_bit 32 (sint x)" using uint_sint [of x] by simp
  moreover have "sint x < 2 ^ 31" using sint_lt [of x] by simp
  ultimately show ?thesis using assms by (simp add: unat_eq_nat_uint take_bit_int_eq_self)
qed

lemma length_of_result:
  assumes "0 < sint nr"
  shows "unat (ucast (scast nr :: u64) :: u32) = nat (sint (nr :: 32 word))"
proof -
  have "(ucast (scast nr :: u64) :: u32) = nr" by (rule bit_word_eqI) (auto simp: bit_simps)
  then show ?thesis using assms by (simp add: unat_pos)
qed

text \<open>A loop that sends on what has come in, while something has, whatever it reads from and writes to.\<close>

locale forwarder =
  fixes loop :: "32 word \<Rightarrow> coroutine" and outp :: "u64 \<Rightarrow> sqe \<Rightarrow> sqe" and inp :: "sqe \<Rightarrow> sqe"
    and buf :: ptr and n :: nat
  assumes loop: "loop nr = (if 0 < sint nr then Await (Linked [outp (scast nr), inp]) loop else Finished)"
    and outp: "is_output (outp k e)" "\<not> is_input (outp k e)" "sqe_addr (outp k e) = buf" "sqe_len (outp k e) = ucast k"
    and inp: "is_input (inp e)" "\<not> is_output (inp e)" "sqe_addr (inp e) = buf" "unat (sqe_len (inp e)) = n"
begin

lemma pair_of_replies:
  assumes "list_all2 R (linked_entries [f, g]) r"
  obtains ro ri where "r = [ro, ri]" and "R (set_link_sqe (f sqe_clean)) ro" and "R (g sqe_clean) ri"
  using assms by (auto simp: list_all2_Cons1)

lemma input_bound:
  assumes "reply_ok (inp e) ri"
  shows "sint (rp_res ri) \<le> int n" and "length (rp_data ri) = nat (sint (rp_res ri))"
  using assms by (auto simp: reply_ok_def inp transferred_def)

lemma first_of_run:
  assumes "run_ok (Await (Linked [inp]) loop) rs" and "run_coroutine (Await (Linked [inp]) loop) rs s = (c, s')"
  obtains "rs = []" "c = Await (Linked [inp]) loop" "s' = s"
  | ri rs' where "rs = [ri] # rs'" "reply_ok (inp sqe_clean) ri" "run_ok (loop (rp_res ri)) rs'"
      "run_coroutine (loop (rp_res ri)) rs' (serve_entry (inp sqe_clean) ri s) = (c, s')"
  using assms by (cases rs) (auto simp: list_all2_Cons1 serve_all_def)

lemma loop_in_buffer:
  assumes "run_ok (loop nr) rs" and "run_coroutine (loop nr) rs s = (c, s')" and "sint nr \<le> int n"
    and "\<forall>e \<in> set (sn_entries s). in_buffer buf n e"
  shows "\<forall>e \<in> set (sn_entries s'). in_buffer buf n e"
  using assms
proof (induction rs arbitrary: nr s)
  case Nil
  then show ?case by (subst (asm) (2) loop) (simp split: if_splits)
next
  case (Cons r rs)
  show ?case
  proof (cases "0 < sint nr")
    case False
    then show ?thesis using Cons.prems by (subst (asm) (2) loop) simp
  next
    case True
    let ?a = "Linked [outp (scast nr), inp]"
    have lp: "loop nr = Await ?a loop" using True by (subst loop) simp
    have ok: "replies_ok ?a r" "run_ok (loop (awaited_result ?a r)) rs" using Cons.prems(1) by (simp_all add: lp del: replies_ok.simps)
    obtain ro ri where r: "r = [ro, ri]" "reply_ok (inp sqe_clean) ri"
      using ok(1) pair_of_replies [of reply_ok] by (metis replies_ok.simps(1))
    have "in_buffer buf n (set_link_sqe (outp (scast nr) sqe_clean))"
      using True Cons.prems(3) by (simp add: in_buffer_def outp length_of_result)
    moreover have "in_buffer buf n (inp sqe_clean)" by (simp add: in_buffer_def inp)
    ultimately have "\<forall>e \<in> set (sn_entries (serve_all (awaited_entries ?a) r s)). in_buffer buf n e"
      using Cons.prems(4) by (simp add: serve_all_def r(1) serve_entry_def)
    moreover have "run_coroutine (loop (awaited_result ?a r)) rs (serve_all (awaited_entries ?a) r s) = (c, s')"
      using Cons.prems(2) by (simp add: lp)
    moreover have "sint (awaited_result ?a r) \<le> int n" using input_bound(1) [OF r(2)] by (simp add: r(1))
    ultimately show ?thesis by (intro Cons.IH [OF ok(2)])
  qed
qed

text \<open>What has come in is what has gone out, and what is in the buffer.\<close>

definition in_hand :: "32 word \<Rightarrow> seen \<Rightarrow> u8 list" where
  "in_hand nr s = mem_read buf (nat (sint nr)) (sn_mem s)"

lemma loop_forwards:
  assumes "run_ok (loop nr) rs" and "run_coroutine (loop nr) rs s = (c, s')" and "sint nr \<le> int n" and "n < 2 ^ 31"
    and "sends_complete (loop nr) rs" and "sn_came s = sn_went s @ in_hand nr s"
  shows "\<exists>p. sn_came s' = sn_went s' @ p \<and> length p \<le> n \<and> (c = Finished \<longrightarrow> p = [])"
  using assms
proof (induction rs arbitrary: nr s)
  case Nil
  then show ?case
    by (subst (asm) (2) loop) (auto simp: in_hand_def split: if_splits)
next
  case (Cons r rs)
  show ?case
  proof (cases "0 < sint nr")
    case False
    then show ?thesis using Cons.prems by (subst (asm) (2) loop) (auto simp: in_hand_def)
  next
    case True
    let ?a = "Linked [outp (scast nr), inp]"
    let ?o = "set_link_sqe (outp (scast nr) sqe_clean)" and ?i = "inp sqe_clean"
    have lp: "loop nr = Await ?a loop" using True by (subst loop) simp
    have ok: "replies_ok ?a r" "run_ok (loop (awaited_result ?a r)) rs" using Cons.prems(1) by (simp_all add: lp del: replies_ok.simps)
    obtain ro ri where r: "r = [ro, ri]" "reply_ok ?o ro" "reply_ok ?i ri"
      using ok(1) pair_of_replies [of reply_ok] by (metis replies_ok.simps(1))
    have sc: "list_all2 reply_complete (awaited_entries ?a) r" "sends_complete (loop (awaited_result ?a r)) rs"
      using Cons.prems(5) by (simp_all add: lp)
    have "rp_res ro = sqe_len ?o" using sc(1) by (simp add: r(1) reply_complete_def outp)
    then have "rp_res ro = ucast (scast nr :: u64)" by (simp add: outp)
    also have "\<dots> = nr" by (rule bit_word_eqI) (auto simp: bit_simps)
    finally have ro: "rp_res ro = nr" .
    let ?s = "serve_all (awaited_entries ?a) r s"
    have b: "sint (rp_res ri) \<le> int n" "length (rp_data ri) = nat (sint (rp_res ri))" using input_bound [OF r(3)] .
    then have "length (rp_data ri) \<le> n" by simp
    then have "length (rp_data ri) < 2 ^ 64" using Cons.prems(4) by simp
    from mem_read_write [OF this, of buf] have "in_hand (rp_res ri) ?s = rp_data ri"
      by (simp add: in_hand_def serve_all_def r(1) serve_entry_def outp inp b(2) [symmetric])
    moreover have "sn_went ?s = sn_went s @ in_hand nr s" "sn_came ?s = sn_came s @ rp_data ri"
      using r(2) by (simp_all add: serve_all_def r(1) serve_entry_def outp inp in_hand_def transferred_def ro)
    ultimately have "sn_came ?s = sn_went ?s @ in_hand (awaited_result ?a r) ?s"
      using Cons.prems(6) by (simp add: r(1))
    moreover have "run_coroutine (loop (awaited_result ?a r)) rs ?s = (c, s')" using Cons.prems(2) by (simp add: lp)
    moreover have "sint (awaited_result ?a r) \<le> int n" using b(1) by (simp add: r(1))
    ultimately show ?thesis using Cons.prems(4) sc(2) by (intro Cons.IH [OF ok(2)])
  qed
qed

lemma session_forwards:
  assumes "run_ok (Await (Linked [inp]) loop) rs" and "n < 2 ^ 31"
    and "run_coroutine (Await (Linked [inp]) loop) rs (seen_new m) = (c, s')"
  shows "(\<forall>e \<in> set (sn_entries s'). in_buffer buf n e) \<and>
    (sends_complete (Await (Linked [inp]) loop) rs \<longrightarrow>
      (\<exists>p. sn_came s' = sn_went s' @ p \<and> length p \<le> n \<and> (c = Finished \<longrightarrow> p = [])))"
  using assms(1,3)
proof (cases rule: first_of_run)
  case (2 ri rs')
  let ?s = "serve_entry (inp sqe_clean) ri (seen_new m)"
  have b: "sint (rp_res ri) \<le> int n" "length (rp_data ri) = nat (sint (rp_res ri))" using input_bound [OF 2(2)] .
  then have "length (rp_data ri) \<le> n" by simp
  then have "length (rp_data ri) < 2 ^ 64" using assms(2) by simp
  from mem_read_write [OF this, of buf] have "sn_came ?s = sn_went ?s @ in_hand (rp_res ri) ?s"
    by (simp add: in_hand_def serve_entry_def inp seen_new_def b(2) [symmetric])
  moreover have "\<forall>e \<in> set (sn_entries ?s). in_buffer buf n e" by (simp add: serve_entry_def seen_new_def in_buffer_def inp)
  ultimately show ?thesis using loop_in_buffer [OF 2(3,4) b(1)] loop_forwards [OF 2(3,4) b(1) assms(2)] by (simp add: 2(1))
qed (simp add: seen_new_def)

end

lemma buffer_size: "unat (ucast (8192 :: u64) :: u32) = 8192"
  by simp

interpretation emt: forwarder "echo_mt_loop sock buf" "sock_send sock buf" "sock_recv sock buf 8192" buf 8192
  by unfold_locales (subst echo_mt_loop.code, simp_all)

interpretation nrecv: forwarder "netcat_recv_loop sock buf" "file_write STDOUT_FILENO buf" "sock_recv sock buf 8192" buf 8192
  by unfold_locales (subst netcat_recv_loop.code, simp_all)

interpretation nsend: forwarder "netcat_send_loop sock buf" "sock_send sock buf" "file_read STDIN_FILENO buf 8192" buf 8192
  by unfold_locales (subst netcat_send_loop.code, simp_all)

text \<open>C39. A session of the echo server of several threads, and of netcat in either direction, forwards a
  stream. Whatever the kernel answers, as far as replies are documented (no more is transferred than an
  entry asks for, what has come in is as long as the result says, and the entries of a chain are served one
  after the other), every entry that the session gives to the ring has the kernel read or write within the
  8192 bytes of the buffer in its frame. And when every send or write of the run is whole, the bytes that
  have gone out are those that have come in, in order and none twice, but for at most 8192 last ones that are
  still in the buffer; when the session has ended there are none of these.\<close>

theorem sessions_forward:
  assumes "0 \<le> sint fd" and "c = echo_mt_session fd buf \<or> c = netcat_recv_session sock buf \<or> c = netcat_send_session sock buf"
    and "run_ok c rs" and "run_coroutine c rs (seen_new m) = (c', s)"
  shows "(\<forall>e \<in> set (sn_entries s). in_buffer buf 8192 e) \<and>
    (sends_complete c rs \<longrightarrow>
      (\<exists>p. sn_came s = sn_went s @ p \<and> length p \<le> 8192 \<and> (c' = Finished \<longrightarrow> p = [])))"
proof -
  have "echo_mt_session fd buf =
      Await (Linked [sock_recv \<lparr>sockfd = fd\<rparr> buf 8192]) (echo_mt_loop \<lparr>sockfd = fd\<rparr> buf)"
    using assms(1) by (simp add: echo_mt_session_def with_socket_def socket_new_def)
  then show ?thesis using assms(2-4) emt.session_forwards nrecv.session_forwards nsend.session_forwards
    by (elim disjE) (simp_all only: netcat_recv_session_def netcat_send_session_def, simp_all)
qed

definition reply_of :: "int \<Rightarrow> u8 list \<Rightarrow> reply" where
  "reply_of res bs = \<lparr>rp_res = word_of_int res, rp_data = bs\<rparr>"

lemma echo_mt_example:
  "\<exists>s. run_coroutine (echo_mt_session 5 4096) [[reply_of 2 [104, 105]], [reply_of 2 [], reply_of 0 []]] (seen_new (\<lambda>_. 0)) = (Finished, s) \<and>
     sn_went s = [104, 105]"
  by (simp add: echo_mt_session_def with_socket_def socket_new_def reply_of_def echo_mt_loop.code seen_new_def
      serve_all_def serve_entry_def transferred_def mem_read_def mem_write_def upt_rec)

theorem sessions_forward_witness:
  "\<exists>s. run_coroutine (echo_mt_session 5 4096) [[reply_of 2 [104, 105]], [reply_of 2 [], reply_of 0 []]] (seen_new (\<lambda>_. 0)) = (Finished, s) \<and>
     sn_went s = [104, 105] \<and> sn_came s = [104, 105] \<and> list_all (in_buffer 4096 8192) (sn_entries s)"
proof -
  let ?rs = "[[reply_of 2 [104, 105]], [reply_of 2 [], reply_of 0 []]]"
  obtain s where s: "run_coroutine (echo_mt_session 5 4096) ?rs (seen_new (\<lambda>_. 0)) = (Finished, s)" "sn_went s = [104, 105]"
    using echo_mt_example by blast
  have defs: "echo_mt_session 5 4096 = Await (Linked [sock_recv \<lparr>sockfd = 5\<rparr> 4096 8192]) (echo_mt_loop \<lparr>sockfd = 5\<rparr> 4096)"
    by (simp add: echo_mt_session_def with_socket_def socket_new_def)
  have "run_ok (echo_mt_session 5 4096) ?rs" "sends_complete (echo_mt_session 5 4096) ?rs"
    unfolding defs by (simp_all add: echo_mt_loop.code reply_of_def reply_ok_def transferred_def reply_complete_def)
  with sessions_forward [of 5 "echo_mt_session 5 4096" 4096, OF _ _ _ s(1)] have
    "(\<forall>e \<in> set (sn_entries s). in_buffer 4096 8192 e) \<and> (\<exists>p. sn_came s = sn_went s @ p \<and> p = [])" by simp
  with s show ?thesis by (simp add: list_all_iff)
qed

section \<open>Where the forwarding fails\<close>

text \<open>A send need not be whole: what is left of it is not sent again, whether the kernel then goes on with
  the rest of the chain or cancels it.\<close>

lemma forward_short_send_drops:
  "\<exists>s. run_ok (echo_mt_session 5 4096) [[reply_of 2 [104, 105]], [reply_of 1 [], reply_of 0 []]] \<and>
     run_coroutine (echo_mt_session 5 4096) [[reply_of 2 [104, 105]], [reply_of 1 [], reply_of 0 []]] (seen_new (\<lambda>_. 0)) = (Finished, s) \<and>
     sn_came s = [104, 105] \<and> sn_went s = [104]"
  "\<exists>s. run_ok (echo_mt_session 5 4096) [[reply_of 2 [104, 105]], [reply_of 1 [], reply_of (- 125) []]] \<and>
     run_coroutine (echo_mt_session 5 4096) [[reply_of 2 [104, 105]], [reply_of 1 [], reply_of (- 125) []]] (seen_new (\<lambda>_. 0)) = (Finished, s) \<and>
     sn_came s = [104, 105] \<and> sn_went s = [104]"
  by (simp_all add: echo_mt_session_def with_socket_def socket_new_def reply_of_def echo_mt_loop.code seen_new_def
      serve_all_def serve_entry_def transferred_def mem_read_def mem_write_def upt_rec reply_ok_def)

text \<open>The echo server of one thread does not look at the result of \<open>recv\<close>: it never ends, and a result that is an
  error is the length of what it sends, which lies outside of the buffer.\<close>

lemma echo_loop_at:
  "echo_loop sock buf None = Await (Linked [sock_recv sock buf 8192]) (\<lambda>nr. echo_loop sock buf (Some nr))"
  "echo_loop sock buf (Some nr) = Await (Linked [sock_send sock buf (scast nr)]) (\<lambda>_. echo_loop sock buf None)"
  by (subst echo_loop.code, simp)+

lemma run_echo:
  "run_coroutine (echo_loop sock buf None) (r # rs) s =
     run_coroutine (echo_loop sock buf (Some (rp_res (last r)))) rs (serve_all [sock_recv sock buf 8192 sqe_clean] r s)"
  "run_coroutine (echo_loop sock buf (Some nr)) (r # rs) s =
     run_coroutine (echo_loop sock buf None) rs (serve_all [sock_send sock buf (scast nr) sqe_clean] r s)"
  by (subst echo_loop_at, simp only: run_coroutine.simps awaited_result.simps awaited_entries.simps linked_entries.simps)+

lemma echo_never_ends:
  assumes "run_coroutine (echo_loop sock buf st) rs s = (c, s')"
  shows "\<exists>st. c = echo_loop sock buf st"
  using assms
proof (induction rs arbitrary: st s)
  case (Cons r rs)
  then show ?case by (cases st) (auto simp: run_echo)
qed auto

lemma echo_error_leaves_buffer:
  assumes "sint (nr :: 32 word) < 0"
  shows "\<not> in_buffer buf 8192 (sock_send sock buf (scast nr) e)"
proof -
  have "(ucast (scast nr :: u64) :: u32) = nr" by (rule bit_word_eqI) (auto simp: bit_simps)
  moreover have "8192 < unat nr"
  proof -
    have "uint nr = sint nr mod 2 ^ 32" using uint_sint [of nr] by (simp add: take_bit_eq_mod)
    also have "\<dots> = (sint nr + 2 ^ 32) mod 2 ^ 32" by simp
    also have "\<dots> = sint nr + 2 ^ 32" using assms sint_ge [of nr] by (intro mod_pos_pos_trivial) simp_all
    finally show ?thesis using sint_ge [of nr] by (simp add: unat_eq_nat_uint)
  qed
  ultimately show ?thesis by (simp add: in_buffer_def)
qed

lemma echo_after_error:
  assumes "0 \<le> sint fd" and "sint nr < 0"
  shows "\<exists>c s. run_coroutine (echo_session fd buf) [[\<lparr>rp_res = nr, rp_data = []\<rparr>], [r]] (seen_new m) = (c, s) \<and>
    \<not> list_all (in_buffer buf 8192) (sn_entries s)"
proof -
  have "echo_session fd buf = echo_loop \<lparr>sockfd = fd\<rparr> buf None"
    using assms(1) by (simp add: echo_session_def with_socket_def socket_new_def)
  then show ?thesis using echo_error_leaves_buffer [OF assms(2), of buf]
    by (simp add: run_echo serve_all_def serve_entry_def seen_new_def)
qed

section \<open>The other sessions\<close>

text \<open>The session with a time limit keeps to its buffer, too.\<close>

lemma timed_loop_at:
  "timed_loop tm sock buf None nr = (if 0 < sint nr
     then Await (Linked [file_write STDOUT_FILENO buf (scast nr)]) (\<lambda>nw. timed_loop tm sock buf (Some nw) nr)
     else Finished)"
  "timed_loop tm sock buf (Some nw) nr = Await (Timed (sock_recv sock buf 8192) tm) (\<lambda>nr. timed_loop tm sock buf None nr)"
  by (subst timed_loop.code, simp)+

lemma timer_entry [simp]: "\<not> is_input (prep_link_timeout ts fl e)" "\<not> is_output (prep_link_timeout ts fl e)"
  by (simp_all add: is_input_def is_output_def prep_link_timeout_def prep_rw_def)

lemma timed_recv_bound:
  assumes "replies_ok (Timed (sock_recv sock buf 8192) tm) r"
  shows "sint (awaited_result (Timed (sock_recv sock buf 8192) tm) r) \<le> 8192"
  using assms by (auto simp: list_all2_Cons1 reply_ok_def transferred_def)

lemma entries_served:
  "sn_entries (serve_all es rs s) = sn_entries s @ map fst (zip es rs)"
proof -
  have "sn_entries (fold (\<lambda>(e, r). serve_entry e r) ps s) = sn_entries s @ map fst ps" for ps
    by (induction ps arbitrary: s) (auto simp: serve_entry_def)
  then show ?thesis by (simp add: serve_all_def)
qed

lemma in_buffer_more:
  assumes "\<forall>e \<in> set (sn_entries s). in_buffer buf n e" and "\<forall>e \<in> set es. in_buffer buf n e"
  shows "\<forall>e \<in> set (sn_entries (serve_all es rs s)). in_buffer buf n e"
  using assms by (auto simp: entries_served dest: set_zip_leftD)

lemma timed_loop_in_buffer:
  assumes "run_ok (timed_loop (prep_link_timeout ts fl) sock buf st nr) rs" and "sint nr \<le> 8192"
    and "run_coroutine (timed_loop (prep_link_timeout ts fl) sock buf st nr) rs s = (c, s')"
    and "\<forall>e \<in> set (sn_entries s). in_buffer buf 8192 e"
  shows "\<forall>e \<in> set (sn_entries s'). in_buffer buf 8192 e"
  using assms
proof (induction rs arbitrary: st nr s)
  case Nil
  then show ?case by simp
next
  case (Cons r rs)
  let ?tm = "prep_link_timeout ts fl"
  show ?case
  proof (cases st)
    case None
    show ?thesis
    proof (cases "0 < sint nr")
      case False
      then show ?thesis using Cons.prems by (simp add: None timed_loop_at(1))
    next
      case True
      let ?a = "Linked [file_write STDOUT_FILENO buf (scast nr)]"
      have "\<forall>e \<in> set (awaited_entries ?a). in_buffer buf 8192 e"
        using True Cons.prems(2) by (simp add: in_buffer_def length_of_result)
      from in_buffer_more [OF Cons.prems(4) this] show ?thesis
        using Cons.IH [where st = "Some (awaited_result ?a r)" and nr = nr] Cons.prems(1-3) True
        by (simp add: None timed_loop_at(1))
    qed
  next
    case (Some nw)
    let ?a = "Timed (sock_recv sock buf 8192) ?tm"
    have "\<forall>e \<in> set (awaited_entries ?a). in_buffer buf 8192 e" by (simp add: in_buffer_def)
    from in_buffer_more [OF Cons.prems(4) this, of r] show ?thesis
      using Cons.IH [where st = None and nr = "awaited_result ?a r"] timed_recv_bound [of sock buf ?tm r] Cons.prems(1,3)
      by (simp add: Some timed_loop_at(2) del: replies_ok.simps awaited_entries.simps awaited_result.simps)
  qed
qed

lemma timed_session_in_buffer:
  assumes "run_ok (timed_session (prep_link_timeout ts fl) sock buf) rs"
    and "run_coroutine (timed_session (prep_link_timeout ts fl) sock buf) rs (seen_new m) = (c, s)"
  shows "\<forall>e \<in> set (sn_entries s). in_buffer buf 8192 e"
proof -
  have "timed_session (prep_link_timeout ts fl) sock buf = timed_loop (prep_link_timeout ts fl) sock buf (Some 0) 0"
    by (simp add: timed_session_def timed_loop_at(2))
  then show ?thesis using assms timed_loop_in_buffer [of ts fl sock buf "Some 0" 0] by (simp add: seen_new_def)
qed

text \<open>The reply of the Redis server lies outside of the buffer that it receives into: what goes out is the reply,
  once for each time that something came in and was answered.\<close>

lemma mem_read_apart:
  assumes "\<And>i. i < k \<Longrightarrow> length bs \<le> unat (q + of_nat i - p)"
  shows "mem_read q k (mem_write p bs m) = mem_read q k m"
  using assms by (simp add: mem_read_def mem_write_def leD)

lemma redis_loop_replies:
  assumes "run_ok (redis_loop sock recv_buf ok n) rs" and "sends_complete (redis_loop sock recv_buf ok n) rs"
    and "run_coroutine (redis_loop sock recv_buf ok n) rs s = (c, s')"
    and "\<And>i. i < 5 \<Longrightarrow> 100 \<le> unat (ok + of_nat i - recv_buf)"
  shows "\<exists>k. sn_went s' = sn_went s @ concat (replicate k (mem_read ok 5 (sn_mem s))) \<and> k \<le> length rs"
  using assms(1-3)
proof (induction rs arbitrary: n s)
  case Nil
  then show ?case by (intro exI [of _ 0]) simp
next
  case (Cons r rs)
  show ?case
  proof (cases "0 < sint n")
    case False
    then show ?thesis using Cons.prems(3) by (subst (asm) redis_loop.code) (auto intro: exI [of _ 0])
  next
    case True
    let ?a = "Linked [sock_send sock ok 5, sock_recv sock recv_buf 100]"
    have lp: "redis_loop sock recv_buf ok n = Await ?a (redis_loop sock recv_buf ok)" using True by (subst redis_loop.code) simp
    have ok: "replies_ok ?a r" "run_ok (redis_loop sock recv_buf ok (awaited_result ?a r)) rs"
      using Cons.prems(1) by (simp_all add: lp del: replies_ok.simps)
    have sc: "list_all2 reply_complete (awaited_entries ?a) r" "sends_complete (redis_loop sock recv_buf ok (awaited_result ?a r)) rs"
      using Cons.prems(2) by (simp_all add: lp)
    from ok(1) obtain ro ri where r: "r = [ro, ri]" "reply_ok (sock_recv sock recv_buf 100 sqe_clean) ri"
      by (auto simp: list_all2_Cons1)
    let ?s = "serve_all (awaited_entries ?a) r s"
    have "transferred ro = 5" using sc(1) by (simp add: r(1) reply_complete_def transferred_def)
    then have "sn_went ?s = sn_went s @ mem_read ok 5 (sn_mem s)" by (simp add: serve_all_def r(1) serve_entry_def)
    moreover have "length (rp_data ri) \<le> 100" using r(2) by (simp add: reply_ok_def)
    then have "mem_read ok 5 (sn_mem ?s) = mem_read ok 5 (sn_mem s)"
      using assms(4) by (auto simp: serve_all_def r(1) serve_entry_def intro!: mem_read_apart elim: order_trans)
    moreover have "run_coroutine (redis_loop sock recv_buf ok (awaited_result ?a r)) rs ?s = (c, s')"
      using Cons.prems(3) by (simp add: lp)
    ultimately show ?thesis using Cons.IH [OF ok(2) sc(2)] by (metis append_assoc concat.simps(2) le_SucI length_Cons
        not_less_eq_eq replicate_Suc)
  qed
qed

section \<open>Accepted connections\<close>

lemma accept_mt_at:
  "accept_mt_loop N session ac turn None =
     Await (Linked [ac_accept ac]) (\<lambda>sock. accept_mt_loop N session ac turn (Some sock))"
  "accept_mt_loop N session ac turn (Some sock) = (if 0 \<le> sint sock
     then Spawn (unat turn) (session sock) (accept_mt_loop N session ac ((turn + 1) mod N) None) else Finished)"
  by (subst accept_mt_loop.code, simp)+

definition accept_results :: "reply list list \<Rightarrow> 32 word list" where
  "accept_results rs = map (\<lambda>r. rp_res (last r)) (filter (\<lambda>r. r \<noteq> []) rs)"

definition accepted :: "32 word option \<Rightarrow> reply list list \<Rightarrow> 32 word list" where
  "accepted st rs = takeWhile (\<lambda>fd. 0 \<le> sint fd) (case st of None \<Rightarrow> accept_results rs | Some fd \<Rightarrow> fd # accept_results rs)"

lemma next_turn:
  assumes "turn < N"
  shows "unat ((turn + 1) mod N) = (unat turn + 1) mod unat (N :: u32)" and "(turn + 1) mod N < N"
proof -
  have "unat turn < unat N" using assms by (simp add: word_less_nat_alt)
  then have "unat (turn + 1) = unat turn + 1" using unsigned_less [of N, where 'a = nat] by (simp add: unat_word_ariths)
  then show "unat ((turn + 1) mod N) = (unat turn + 1) mod unat N" by (simp add: unat_mod)
  show "(turn + 1) mod N < N" using assms by (simp add: word_less_nat_alt unat_mod)
qed

text \<open>The session of the i-th connection runs on the context i modulo the number of contexts, in the order in
  which the connections are accepted, until \<open>accept\<close> fails; one may just have been accepted.\<close>

lemma accept_mt_spawns:
  assumes "run_ok (accept_mt_loop N session ac turn st) rs" and "turn < N"
    and "run_coroutine (accept_mt_loop N session ac turn st) rs s = (c, s')"
  shows "\<exists>fds. sn_spawned s' = sn_spawned s @ map (\<lambda>i. ((unat turn + i) mod unat N, session (fds ! i))) [0..<length fds] \<and>
    prefix fds (accepted st rs) \<and> length (accepted st rs) \<le> length fds + 1"
  using assms
proof (induction rs arbitrary: turn st s)
  case Nil
  then show ?case by (intro exI [of _ "[]"]) (auto simp: accepted_def accept_results_def split: option.splits)
next
  case (Cons r rs)
  show ?case
  proof (cases st)
    case None
    have r: "r \<noteq> []" "run_ok (accept_mt_loop N session ac turn (Some (rp_res (last r)))) rs"
      using Cons.prems(1) by (simp_all add: None accept_mt_at(1))
    have "accepted None (r # rs) = accepted (Some (rp_res (last r))) rs" using r(1) by (simp add: accepted_def accept_results_def)
    moreover have "sn_spawned (serve_all es r s) = sn_spawned s" for es
    proof -
      have "sn_spawned (fold (\<lambda>(e, r). serve_entry e r) ps s) = sn_spawned s" for ps
        by (induction ps arbitrary: s) (auto simp: serve_entry_def)
      then show ?thesis by (simp add: serve_all_def)
    qed
    moreover have "run_coroutine (accept_mt_loop N session ac turn (Some (rp_res (last r)))) rs
        (serve_all (awaited_entries (Linked [ac_accept ac])) r s) = (c, s')"
      using Cons.prems(3) by (simp add: None accept_mt_at(1))
    from Cons.IH [OF r(2) Cons.prems(2) this] obtain fds where
      "sn_spawned s' = sn_spawned (serve_all (awaited_entries (Linked [ac_accept ac])) r s) @
         map (\<lambda>i. ((unat turn + i) mod unat N, session (fds ! i))) [0..<length fds]"
      "prefix fds (accepted (Some (rp_res (last r))) rs)" "length (accepted (Some (rp_res (last r))) rs) \<le> length fds + 1"
      by blast
    ultimately show ?thesis unfolding None by (intro exI [of _ fds]) (simp only: simp_thms)
  next
    case (Some fd)
    show ?thesis
    proof (cases "0 \<le> sint fd")
      case False
      then show ?thesis using Cons.prems(3)
        by (intro exI [of _ "[]"]) (auto simp: Some accept_mt_at(2) accepted_def)
    next
      case True
      let ?s = "s\<lparr>sn_spawned := sn_spawned s @ [(unat turn, session fd)]\<rparr>"
      have r: "r = []" "run_ok (accept_mt_loop N session ac ((turn + 1) mod N) None) rs"
        "run_coroutine (accept_mt_loop N session ac ((turn + 1) mod N) None) rs ?s = (c, s')"
        using Cons.prems(1,3) True by (simp_all add: Some accept_mt_at(2))
      from Cons.IH [OF r(2) next_turn(2) [OF Cons.prems(2)] r(3)] obtain fds where
        fds: "sn_spawned s' = sn_spawned ?s @ map (\<lambda>i. (((unat turn + 1) mod unat N + i) mod unat N, session (fds ! i))) [0..<length fds]"
        "prefix fds (accepted None rs)" "length (accepted None rs) \<le> length fds + 1"
        unfolding next_turn(1) [OF Cons.prems(2)] by blast
      have "unat turn mod unat N = unat turn" using Cons.prems(2) by (simp add: word_less_nat_alt)
      then have "sn_spawned s' = sn_spawned s @
          map (\<lambda>i. ((unat turn + i) mod unat N, session ((fd # fds) ! i))) [0..<length (fd # fds)]"
        unfolding fds(1) by (simp add: upt_conv_Cons map_Suc_upt [symmetric] mod_simps del: upt_Suc)
      moreover have "accepted st (r # rs) = fd # accepted None rs" using True r(1) by (simp add: Some accepted_def accept_results_def)
      ultimately show ?thesis using fds(2,3) by (intro exI [of _ "fd # fds"]) simp
    qed
  qed
qed

end
