(* ===== verification/Syscall_Asm.thy ===== *)
theory Syscall_Asm
  imports Prelude
begin

text \<open>
  The assembly that enters the kernel, \<^verbatim>\<open>arch/x86/syscall.h\<close> (64 bits, and 32 bits without a C library) and
  \<^verbatim>\<open>arch/aarch64/syscall.h\<close>: which register holds what when the instruction is executed, and what has
  changed when it returns. Registers are a function of their names, memory one of addresses of machine words.
\<close>

section \<open>The machine\<close>

text \<open>The names are those of all three machines; the rest of the registers are numbered.\<close>

datatype reg =
    AX | BX | CX | DX | SI | DI | BP | SP | R8 | R9 | R10 | R11
  | X0 | X1 | X2 | X3 | X4 | X5 | X8 | OtherReg nat

record 'w cpu =
  cpu_regs :: "reg \<Rightarrow> 'w"
  cpu_mem :: "'w \<Rightarrow> 'w"
  cpu_ip :: 'w
  cpu_flags :: 'w

text \<open>
  The kernel: from the number, the contents of the six argument registers and the memory to the result and the memory. A
  call takes as many arguments as its number says, and does not look at the others.
\<close>

type_synonym 'w kern = "'w \<Rightarrow> 'w list \<Rightarrow> ('w \<Rightarrow> 'w) \<Rightarrow> 'w \<times> ('w \<Rightarrow> 'w)"

definition takes :: "'w kern \<Rightarrow> ('w \<Rightarrow> nat) \<Rightarrow> bool" where
  "takes kern arity \<longleftrightarrow> (\<forall>nr args m. kern nr args m = kern nr (take (arity nr) args) m)"

text \<open>The operands that the constraints of an \<open>asm\<close> load into registers.\<close>

definition load_operands :: "(reg \<times> 'w) list \<Rightarrow> 'w cpu \<Rightarrow> 'w cpu" where
  "load_operands ops s = s\<lparr>cpu_regs := fold (\<lambda>(r, v) f. f(r := v)) ops (cpu_regs s)\<rparr>"

section \<open>x86-64\<close>

text \<open>The instruction \<open>syscall\<close>, which overwrites \<open>rcx\<close> and \<open>r11\<close>.\<close>

definition x64_syscall :: "u64 kern \<Rightarrow> u64 cpu \<Rightarrow> u64 cpu" where
  "x64_syscall kern s =
     (let (r, m) = kern (cpu_regs s AX) (map (cpu_regs s) [DI, SI, DX, R10, R8, R9]) (cpu_mem s)
      in s\<lparr>cpu_regs := (cpu_regs s)(AX := r, CX := cpu_ip s, R11 := cpu_flags s), cpu_mem := m\<rparr>)"

definition x64_call :: "u64 kern \<Rightarrow> (reg \<times> u64) list \<Rightarrow> u64 cpu \<Rightarrow> u64 \<times> u64 cpu" where
  "x64_call kern ops s = (let s = x64_syscall kern (load_operands ops s) in (cpu_regs s AX, s))"

definition x64_do_syscall0 :: "u64 kern \<Rightarrow> u64 \<Rightarrow> u64 cpu \<Rightarrow> u64 \<times> u64 cpu" where
  "x64_do_syscall0 kern num = x64_call kern [(AX, num)]"

definition x64_do_syscall1 :: "u64 kern \<Rightarrow> u64 \<Rightarrow> u64 \<Rightarrow> u64 cpu \<Rightarrow> u64 \<times> u64 cpu" where
  "x64_do_syscall1 kern num a1 = x64_call kern [(AX, num), (DI, a1)]"

definition x64_do_syscall2 :: "u64 kern \<Rightarrow> u64 \<Rightarrow> u64 \<Rightarrow> u64 \<Rightarrow> u64 cpu \<Rightarrow> u64 \<times> u64 cpu" where
  "x64_do_syscall2 kern num a1 a2 = x64_call kern [(AX, num), (DI, a1), (SI, a2)]"

definition x64_do_syscall3 :: "u64 kern \<Rightarrow> u64 \<Rightarrow> u64 \<Rightarrow> u64 \<Rightarrow> u64 \<Rightarrow> u64 cpu \<Rightarrow> u64 \<times> u64 cpu" where
  "x64_do_syscall3 kern num a1 a2 a3 = x64_call kern [(AX, num), (DI, a1), (SI, a2), (DX, a3)]"

definition x64_do_syscall4 :: "u64 kern \<Rightarrow> u64 \<Rightarrow> u64 \<Rightarrow> u64 \<Rightarrow> u64 \<Rightarrow> u64 \<Rightarrow> u64 cpu \<Rightarrow> u64 \<times> u64 cpu" where
  "x64_do_syscall4 kern num a1 a2 a3 a4 = x64_call kern [(R10, a4), (AX, num), (DI, a1), (SI, a2), (DX, a3)]"

definition x64_do_syscall5 ::
  "u64 kern \<Rightarrow> u64 \<Rightarrow> u64 \<Rightarrow> u64 \<Rightarrow> u64 \<Rightarrow> u64 \<Rightarrow> u64 \<Rightarrow> u64 cpu \<Rightarrow> u64 \<times> u64 cpu" where
  "x64_do_syscall5 kern num a1 a2 a3 a4 a5 =
     x64_call kern [(R10, a4), (R8, a5), (AX, num), (DI, a1), (SI, a2), (DX, a3)]"

definition x64_do_syscall6 ::
  "u64 kern \<Rightarrow> u64 \<Rightarrow> u64 \<Rightarrow> u64 \<Rightarrow> u64 \<Rightarrow> u64 \<Rightarrow> u64 \<Rightarrow> u64 \<Rightarrow> u64 cpu \<Rightarrow> u64 \<times> u64 cpu" where
  "x64_do_syscall6 kern num a1 a2 a3 a4 a5 a6 =
     x64_call kern [(R10, a4), (R8, a5), (R9, a6), (AX, num), (DI, a1), (SI, a2), (DX, a3)]"

fun x64_do_syscall :: "u64 kern \<Rightarrow> u64 \<Rightarrow> u64 list \<Rightarrow> u64 cpu \<Rightarrow> (u64 \<times> u64 cpu) option" where
  "x64_do_syscall kern num [] s = Some (x64_do_syscall0 kern num s)"
| "x64_do_syscall kern num [a] s = Some (x64_do_syscall1 kern num a s)"
| "x64_do_syscall kern num [a, b] s = Some (x64_do_syscall2 kern num a b s)"
| "x64_do_syscall kern num [a, b, c] s = Some (x64_do_syscall3 kern num a b c s)"
| "x64_do_syscall kern num [a, b, c, d] s = Some (x64_do_syscall4 kern num a b c d s)"
| "x64_do_syscall kern num [a, b, c, d, e] s = Some (x64_do_syscall5 kern num a b c d e s)"
| "x64_do_syscall kern num [a, b, c, d, e, f] s = Some (x64_do_syscall6 kern num a b c d e f s)"
| "x64_do_syscall kern num _ s = None"

section \<open>x86, 32 bits\<close>

definition x32_int80 :: "u32 kern \<Rightarrow> u32 cpu \<Rightarrow> u32 cpu" where
  "x32_int80 kern s =
     (let (r, m) = kern (cpu_regs s AX) (map (cpu_regs s) [BX, CX, DX, SI, DI, BP]) (cpu_mem s)
      in s\<lparr>cpu_regs := (cpu_regs s)(AX := r), cpu_mem := m\<rparr>)"

definition x32_call :: "u32 kern \<Rightarrow> (reg \<times> u32) list \<Rightarrow> u32 cpu \<Rightarrow> u32 \<times> u32 cpu" where
  "x32_call kern ops s = (let s = x32_int80 kern (load_operands ops s) in (cpu_regs s AX, s))"

definition x32_do_syscall0 :: "u32 kern \<Rightarrow> u32 \<Rightarrow> u32 cpu \<Rightarrow> u32 \<times> u32 cpu" where
  "x32_do_syscall0 kern num = x32_call kern [(AX, num)]"

definition x32_do_syscall1 :: "u32 kern \<Rightarrow> u32 \<Rightarrow> u32 \<Rightarrow> u32 cpu \<Rightarrow> u32 \<times> u32 cpu" where
  "x32_do_syscall1 kern num a1 = x32_call kern [(AX, num), (BX, a1)]"

definition x32_do_syscall2 :: "u32 kern \<Rightarrow> u32 \<Rightarrow> u32 \<Rightarrow> u32 \<Rightarrow> u32 cpu \<Rightarrow> u32 \<times> u32 cpu" where
  "x32_do_syscall2 kern num a1 a2 = x32_call kern [(AX, num), (BX, a1), (CX, a2)]"

definition x32_do_syscall3 :: "u32 kern \<Rightarrow> u32 \<Rightarrow> u32 \<Rightarrow> u32 \<Rightarrow> u32 \<Rightarrow> u32 cpu \<Rightarrow> u32 \<times> u32 cpu" where
  "x32_do_syscall3 kern num a1 a2 a3 = x32_call kern [(AX, num), (BX, a1), (CX, a2), (DX, a3)]"

definition x32_do_syscall4 :: "u32 kern \<Rightarrow> u32 \<Rightarrow> u32 \<Rightarrow> u32 \<Rightarrow> u32 \<Rightarrow> u32 \<Rightarrow> u32 cpu \<Rightarrow> u32 \<times> u32 cpu" where
  "x32_do_syscall4 kern num a1 a2 a3 a4 = x32_call kern [(AX, num), (BX, a1), (CX, a2), (DX, a3), (SI, a4)]"

definition x32_do_syscall5 ::
  "u32 kern \<Rightarrow> u32 \<Rightarrow> u32 \<Rightarrow> u32 \<Rightarrow> u32 \<Rightarrow> u32 \<Rightarrow> u32 \<Rightarrow> u32 cpu \<Rightarrow> u32 \<times> u32 cpu" where
  "x32_do_syscall5 kern num a1 a2 a3 a4 a5 =
     x32_call kern [(AX, num), (BX, a1), (CX, a2), (DX, a3), (SI, a4), (DI, a5)]"

text \<open>
  The sixth argument goes into \<open>ebp\<close>, which an \<open>asm\<close> cannot name: the code pushes the argument and the old \<open>ebp\<close>,
  loads the argument, and takes both off the stack again. \<open>arg6\<close> is the address of the operand in memory.
\<close>

definition pushl :: "u32 \<Rightarrow> u32 cpu \<Rightarrow> u32 cpu" where
  "pushl v s = (let sp = cpu_regs s SP - 4 in s\<lparr>cpu_regs := (cpu_regs s)(SP := sp), cpu_mem := (cpu_mem s)(sp := v)\<rparr>)"

definition popl :: "reg \<Rightarrow> u32 cpu \<Rightarrow> u32 cpu" where
  "popl r s = (let sp = cpu_regs s SP in s\<lparr>cpu_regs := (cpu_regs s)(r := cpu_mem s sp, SP := sp + 4)\<rparr>)"

definition x32_do_syscall6 ::
  "u32 kern \<Rightarrow> u32 \<Rightarrow> u32 \<Rightarrow> u32 \<Rightarrow> u32 \<Rightarrow> u32 \<Rightarrow> u32 \<Rightarrow> u32 \<Rightarrow> u32 cpu \<Rightarrow> u32 \<times> u32 cpu" where
  "x32_do_syscall6 kern num a1 a2 a3 a4 a5 arg6 s =
     (let s = load_operands [(AX, num), (BX, a1), (CX, a2), (DX, a3), (SI, a4), (DI, a5)] s;
          s = pushl (cpu_mem s arg6) s;
          s = pushl (cpu_regs s BP) s;
          s = s\<lparr>cpu_regs := (cpu_regs s)(BP := cpu_mem s (cpu_regs s SP + 4))\<rparr>;
          s = x32_int80 kern s;
          s = popl BP s;
          s = s\<lparr>cpu_regs := (cpu_regs s)(SP := cpu_regs s SP + 4)\<rparr>
      in (cpu_regs s AX, s))"

section \<open>aarch64\<close>

text \<open>The instruction \<open>svc 0\<close>.\<close>

definition a64_svc :: "u64 kern \<Rightarrow> u64 cpu \<Rightarrow> u64 cpu" where
  "a64_svc kern s =
     (let (r, m) = kern (cpu_regs s X8) (map (cpu_regs s) [X0, X1, X2, X3, X4, X5]) (cpu_mem s)
      in s\<lparr>cpu_regs := (cpu_regs s)(X0 := r), cpu_mem := m\<rparr>)"

text \<open>
  The result is read from the variable in \<open>x0\<close>, which has the type of the first argument, and converted to \<open>long\<close>: the
  upper half is lost when that type is an \<open>int\<close> or an \<open>unsigned\<close>.
\<close>

datatype c_type = CInt | CUnsigned | CLong

definition as_long :: "c_type \<Rightarrow> u64 \<Rightarrow> u64" where
  "as_long ty v = (case ty of CInt \<Rightarrow> scast (ucast v :: u32) | CUnsigned \<Rightarrow> ucast (ucast v :: u32) | CLong \<Rightarrow> v)"

definition a64_do_syscallN :: "u64 kern \<Rightarrow> c_type \<Rightarrow> (reg \<times> u64) list \<Rightarrow> u64 cpu \<Rightarrow> u64 \<times> u64 cpu" where
  "a64_do_syscallN kern ty ops s = (let s = a64_svc kern (load_operands ops s) in (as_long ty (cpu_regs s X0), s))"

definition a64_do_syscall0 :: "u64 kern \<Rightarrow> u64 \<Rightarrow> u64 cpu \<Rightarrow> u64 \<times> u64 cpu" where
  "a64_do_syscall0 kern n = a64_do_syscallN kern CLong [(X8, n)]"

definition a64_do_syscall1 :: "u64 kern \<Rightarrow> c_type \<Rightarrow> u64 \<Rightarrow> u64 \<Rightarrow> u64 cpu \<Rightarrow> u64 \<times> u64 cpu" where
  "a64_do_syscall1 kern ty n a = a64_do_syscallN kern ty [(X8, n), (X0, a)]"

definition a64_do_syscall2 :: "u64 kern \<Rightarrow> c_type \<Rightarrow> u64 \<Rightarrow> u64 \<Rightarrow> u64 \<Rightarrow> u64 cpu \<Rightarrow> u64 \<times> u64 cpu" where
  "a64_do_syscall2 kern ty n a b = a64_do_syscallN kern ty [(X8, n), (X0, a), (X1, b)]"

definition a64_do_syscall3 :: "u64 kern \<Rightarrow> c_type \<Rightarrow> u64 \<Rightarrow> u64 \<Rightarrow> u64 \<Rightarrow> u64 \<Rightarrow> u64 cpu \<Rightarrow> u64 \<times> u64 cpu" where
  "a64_do_syscall3 kern ty n a b c = a64_do_syscallN kern ty [(X8, n), (X0, a), (X1, b), (X2, c)]"

definition a64_do_syscall4 :: "u64 kern \<Rightarrow> c_type \<Rightarrow> u64 \<Rightarrow> u64 \<Rightarrow> u64 \<Rightarrow> u64 \<Rightarrow> u64 \<Rightarrow> u64 cpu \<Rightarrow> u64 \<times> u64 cpu" where
  "a64_do_syscall4 kern ty n a b c d = a64_do_syscallN kern ty [(X8, n), (X0, a), (X1, b), (X2, c), (X3, d)]"

definition a64_do_syscall5 ::
  "u64 kern \<Rightarrow> c_type \<Rightarrow> u64 \<Rightarrow> u64 \<Rightarrow> u64 \<Rightarrow> u64 \<Rightarrow> u64 \<Rightarrow> u64 \<Rightarrow> u64 cpu \<Rightarrow> u64 \<times> u64 cpu" where
  "a64_do_syscall5 kern ty n a b c d e = a64_do_syscallN kern ty [(X8, n), (X0, a), (X1, b), (X2, c), (X3, d), (X4, e)]"

definition a64_do_syscall6 ::
  "u64 kern \<Rightarrow> c_type \<Rightarrow> u64 \<Rightarrow> u64 \<Rightarrow> u64 \<Rightarrow> u64 \<Rightarrow> u64 \<Rightarrow> u64 \<Rightarrow> u64 \<Rightarrow> u64 cpu \<Rightarrow> u64 \<times> u64 cpu" where
  "a64_do_syscall6 kern ty n a b c d e f =
     a64_do_syscallN kern ty [(X8, n), (X0, a), (X1, b), (X2, c), (X3, d), (X4, e), (X5, f)]"

fun a64_do_syscall :: "u64 kern \<Rightarrow> c_type \<Rightarrow> u64 \<Rightarrow> u64 list \<Rightarrow> u64 cpu \<Rightarrow> (u64 \<times> u64 cpu) option" where
  "a64_do_syscall kern ty n [] s = Some (a64_do_syscall0 kern n s)"
| "a64_do_syscall kern ty n [a] s = Some (a64_do_syscall1 kern ty n a s)"
| "a64_do_syscall kern ty n [a, b] s = Some (a64_do_syscall2 kern ty n a b s)"
| "a64_do_syscall kern ty n [a, b, c] s = Some (a64_do_syscall3 kern ty n a b c s)"
| "a64_do_syscall kern ty n [a, b, c, d] s = Some (a64_do_syscall4 kern ty n a b c d s)"
| "a64_do_syscall kern ty n [a, b, c, d, e] s = Some (a64_do_syscall5 kern ty n a b c d e s)"
| "a64_do_syscall kern ty n [a, b, c, d, e, f] s = Some (a64_do_syscall6 kern ty n a b c d e f s)"
| "a64_do_syscall kern ty n _ s = None"

text \<open>The dispatch on 32 bits; the compiler has put the sixth argument at the address \<open>p\<close>.\<close>

fun x32_do_syscall :: "u32 kern \<Rightarrow> u32 \<Rightarrow> u32 list \<Rightarrow> u32 \<Rightarrow> u32 cpu \<Rightarrow> (u32 \<times> u32 cpu) option" where
  "x32_do_syscall kern num [] p s = Some (x32_do_syscall0 kern num s)"
| "x32_do_syscall kern num [a] p s = Some (x32_do_syscall1 kern num a s)"
| "x32_do_syscall kern num [a, b] p s = Some (x32_do_syscall2 kern num a b s)"
| "x32_do_syscall kern num [a, b, c] p s = Some (x32_do_syscall3 kern num a b c s)"
| "x32_do_syscall kern num [a, b, c, d] p s = Some (x32_do_syscall4 kern num a b c d s)"
| "x32_do_syscall kern num [a, b, c, d, e] p s = Some (x32_do_syscall5 kern num a b c d e s)"
| "x32_do_syscall kern num [a, b, c, d, e, f] p s = (if cpu_mem s p = f then Some (x32_do_syscall6 kern num a b c d e p s) else None)"
| "x32_do_syscall kern num _ p s = None"

section \<open>What reaches the kernel\<close>

lemma takes_eq: "takes kern arity \<Longrightarrow> arity nr = length args \<Longrightarrow> kern nr (args @ rest) m = kern nr args m"
  unfolding takes_def by (metis append_eq_conv_conj)

lemmas x64_defs = x64_do_syscall0_def x64_do_syscall1_def x64_do_syscall2_def x64_do_syscall3_def x64_do_syscall4_def
  x64_do_syscall5_def x64_do_syscall6_def x64_call_def x64_syscall_def load_operands_def
lemmas x32_defs = x32_do_syscall0_def x32_do_syscall1_def x32_do_syscall2_def x32_do_syscall3_def x32_do_syscall4_def
  x32_do_syscall5_def x32_do_syscall6_def x32_call_def x32_int80_def pushl_def popl_def load_operands_def
lemmas a64_defs = a64_do_syscall0_def a64_do_syscall1_def a64_do_syscall2_def a64_do_syscall3_def a64_do_syscall4_def
  a64_do_syscall5_def a64_do_syscall6_def a64_do_syscallN_def a64_svc_def load_operands_def

text \<open>The registers of the arguments, in their order; on 32 bits \<open>ebp\<close> comes last and is restored.\<close>

definition x64_arg_regs :: "reg list" where "x64_arg_regs = [DI, SI, DX, R10, R8, R9]"
definition x32_arg_regs :: "reg list" where "x32_arg_regs = [BX, CX, DX, SI, DI]"
definition a64_arg_regs :: "reg list" where "a64_arg_regs = [X0, X1, X2, X3, X4, X5]"

lemmas arg_regs_defs = x64_arg_regs_def x32_arg_regs_def a64_arg_regs_def

lemma x64_reaches:
  assumes "takes kern arity" and "arity num = length args" and "x64_do_syscall kern num args s = Some (r, s')"
  shows "r = fst (kern num args (cpu_mem s)) \<and> cpu_mem s' = snd (kern num args (cpu_mem s)) \<and>
    (\<forall>x. x \<notin> {AX, CX, R11} \<union> set (take (length args) x64_arg_regs) \<longrightarrow> cpu_regs s' x = cpu_regs s x)"
proof -
  have six: "rest \<noteq> [] \<Longrightarrow> kern num (args @ rest) m = kern num args m" for rest m
    using takes_eq [OF assms(1,2)] by simp
  from assms(3) show ?thesis
    by (elim x64_do_syscall.elims) (use six in \<open>auto simp: arg_regs_defs x64_defs Let_def split_def\<close>)
qed

text \<open>On 32 bits the kernel must leave the two words on the stack alone.\<close>

definition spares_stack :: "u32 kern \<Rightarrow> u32 \<Rightarrow> u32 list \<Rightarrow> u32 \<Rightarrow> bool" where
  "spares_stack kern num args sp \<longleftrightarrow> (\<forall>m. \<forall>a \<in> {sp - 4, sp - 8}. snd (kern num args m) a = m a)"

lemma x32_reaches:
  assumes "takes kern arity" and "arity num = length args" and "x32_do_syscall kern num args p s = Some (r, s')"
    and "spares_stack kern num args (cpu_regs s SP)"
  shows "\<exists>m. (\<forall>a. a \<notin> {cpu_regs s SP - 4, cpu_regs s SP - 8} \<longrightarrow> m a = cpu_mem s a) \<and> r = fst (kern num args m) \<and> cpu_mem s' = snd (kern num args m) \<and>
    (\<forall>x. x \<notin> {AX} \<union> set (take (length args) x32_arg_regs) \<longrightarrow> cpu_regs s' x = cpu_regs s x)"
proof -
  have six: "rest \<noteq> [] \<Longrightarrow> kern num (args @ rest) m = kern num args m" for rest m
    using takes_eq [OF assms(1,2)] by simp
  have keep: "snd (kern num args m) (cpu_regs s SP - 8) = m (cpu_regs s SP - 8)" for m
    using assms(4) by (simp add: spares_stack_def)
  show ?thesis
  proof (cases "length args = 6")
    case False
    then obtain t where t: "x32_do_syscall kern num args p s = Some t" "t = (r, s')" "length args < 6"
      using assms(3) by (elim x32_do_syscall.elims) simp_all
    then have "\<exists>rest. rest \<noteq> [] \<and> t = (let (r, m) = kern num (args @ rest) (cpu_mem s) in
        (r, s\<lparr>cpu_regs := (fold (\<lambda>(r, v) f. f(r := v)) ((AX, num) # zip [BX, CX, DX, SI, DI] args) (cpu_regs s))(AX := r), cpu_mem := m\<rparr>))"
      by (elim x32_do_syscall.elims) (auto simp: x32_defs Let_def split_def)
    then obtain rest where rest: "rest \<noteq> []" "t = (let (r, m) = kern num (args @ rest) (cpu_mem s) in
        (r, s\<lparr>cpu_regs := (fold (\<lambda>(r, v) f. f(r := v)) ((AX, num) # zip [BX, CX, DX, SI, DI] args) (cpu_regs s))(AX := r), cpu_mem := m\<rparr>))"
      by blast
    have "fold (\<lambda>(r, v) f. f(r := v)) ops g x = g x" if "x \<notin> fst ` set ops" for x ops and g :: "reg \<Rightarrow> u32"
      using that by (induction ops arbitrary: g) auto
    moreover have "fst ` set (zip [BX, CX, DX, SI, DI] args) = set (take (length args) x32_arg_regs)"
      unfolding x32_arg_regs_def set_map [symmetric] map_fst_zip_take by (simp add: min_def take_Cons' split: nat_diff_split)
    ultimately have "fold (\<lambda>(r, v) f. f(r := v)) ((AX, num) # zip [BX, CX, DX, SI, DI] args) (cpu_regs s) x = cpu_regs s x"
      if "x \<notin> {AX} \<union> set (take (length args) x32_arg_regs)" for x
      using that by (metis (no_types, lifting) Un_iff fst_conv image_insert insert_iff list.simps(15))
    then have "cpu_regs s' x = cpu_regs s x" if "x \<notin> {AX} \<union> set (take (length args) x32_arg_regs)" for x
      using t(2) rest(2) that by (auto simp: Let_def split_def)
    then show ?thesis using t(2) rest(2) six [OF rest(1)] by (intro exI [of _ "cpu_mem s"]) (auto simp: Let_def split_def)
  next
    case True
    then obtain a b c d e f where args: "args = [a, b, c, d, e, f]" by (auto simp: length_Suc_conv numeral_eq_Suc)
    let ?sp = "cpu_regs s SP"
    let ?m = "(cpu_mem s)(?sp - 4 := f, ?sp - 8 := cpu_regs s BP)"
    have sp: "?sp - 4 - 4 = ?sp - 8" "?sp - 8 + 4 = ?sp - 4" "?sp - 8 + 4 + 4 = ?sp" "?sp - 4 \<noteq> ?sp - 8" by simp_all
    have "cpu_mem s p = f" "(r, s') = x32_do_syscall6 kern num a b c d e p s" using assms(3) by (auto simp: args split: if_splits)
    then show ?thesis using keep [of ?m]
      by (intro exI [of _ ?m]) (auto simp: x32_defs Let_def split_def args sp x32_arg_regs_def)
  qed
qed

lemma as_long_long [simp]: "as_long CLong v = v"
  by (simp add: as_long_def)

lemma a64_reaches:
  assumes "takes kern arity" and "arity n = length args" and "a64_do_syscall kern ty n args s = Some (r, s')"
  shows "r = (if args = [] then id else as_long ty) (fst (kern n args (cpu_mem s))) \<and> cpu_mem s' = snd (kern n args (cpu_mem s)) \<and>
    (\<forall>x. x \<notin> {X0, X8} \<union> set (take (length args) a64_arg_regs) \<longrightarrow> cpu_regs s' x = cpu_regs s x)"
proof -
  have six: "rest \<noteq> [] \<Longrightarrow> kern n (args @ rest) m = kern n args m" for rest m
    using takes_eq [OF assms(1,2)] by simp
  from assms(3) show ?thesis
    by (elim a64_do_syscall.elims) (use six in \<open>auto simp: arg_regs_defs a64_defs Let_def split_def\<close>)
qed

text \<open>The narrow result is the result itself when it is a number of an \<open>int\<close>, as the kernel's errors are.\<close>

lemma as_long_int: "sint v \<in> {- (2 ^ 31) ..< 2 ^ 31} \<Longrightarrow> as_long CInt v = v"
proof (rule bit_word_eqI)
  assume "sint v \<in> {- (2 ^ 31) ..< 2 ^ 31}"
  then have e: "signed_take_bit 31 (sint v) = sint v" by (intro signed_take_bit_int_eq_self) auto
  fix n assume n: "n < LENGTH(64)"
  have "bit v n = bit (sint v) n" using n by (cases "n = 63") (simp_all add: bit_simps min_def)
  also have "\<dots> = bit (sint v) (min 31 n)" using arg_cong [OF e, of "\<lambda>i. bit i n"] by (simp add: bit_signed_take_bit_iff min.commute)
  also have "\<dots> = bit v (min 31 n)" by (simp add: bit_simps min_def)
  also have "\<dots> = bit (as_long CInt v) n" using n by (simp add: as_long_def bit_simps min_def not_le)
  finally show "bit (as_long CInt v) n = bit v n" by (rule sym)
qed

text \<open>As an \<open>int\<close> or a 32-bit \<open>unsigned\<close> the result is what the kernel returns, however it was converted.\<close>

lemma as_long_low: "(ucast (as_long ty v) :: u32) = ucast v"
  by (rule bit_word_eqI) (auto simp: as_long_def bit_simps split: c_type.splits)

text \<open>C40. The assembly of the three machines is one interface: for a system call that takes up to six arguments each
  of them hands the kernel the number and exactly the arguments that it is given, whatever the other registers hold, and leaves in
  memory what the kernel leaves there (an argument that is narrower than a register counts as the word
  that the compiler puts there; the sixth argument on 32-bit x86 is an operand in memory). On x86 it returns what the kernel returns. On aarch64 the result passes
  through the type of the first argument: it is returned as it is when that is as wide as a \<open>long\<close>,
  or an \<open>int\<close> that can hold it, as the errors and descriptors are, or when there are no
  arguments; and its lower 32 bits, which are what the functions that return an \<open>int\<close> use, always
  are. The registers that are neither arguments nor declared clobbered are as before, on 32 bits also
  the frame pointer, which carries the sixth argument, and the stack pointer, provided that the
  kernel does not write to the two words below the stack that the code uses.\<close>

theorem syscall_reaches_kernel:
  assumes "takes kern arity" and "arity num = length args" and "length args \<le> 6"
    and "takes kern' arity'" and "arity' num' = length args'" and "length args' \<le> 6" and "length args' = 6 \<Longrightarrow> cpu_mem t p = args' ! 5"
    and "spares_stack kern' num' args' (cpu_regs t SP)"
  shows "(\<exists>r r2 s1 s2. x64_do_syscall kern num args s = Some (r, s1) \<and> a64_do_syscall kern ty num args s = Some (r2, s2) \<and>
      r = fst (kern num args (cpu_mem s)) \<and> cpu_mem s1 = snd (kern num args (cpu_mem s)) \<and> cpu_mem s2 = cpu_mem s1 \<and>
      (ty = CLong \<or> args = [] \<or> ty = CInt \<and> sint r \<in> {- (2 ^ 31) ..< 2 ^ 31} \<longrightarrow> r2 = r) \<and>
      (ucast r2 :: u32) = ucast r \<and>
      (\<forall>x. x \<notin> {AX, CX, R11} \<union> set (take (length args) x64_arg_regs) \<longrightarrow> cpu_regs s1 x = cpu_regs s x) \<and>
      (\<forall>x. x \<notin> {X0, X8} \<union> set (take (length args) a64_arg_regs) \<longrightarrow> cpu_regs s2 x = cpu_regs s x)) \<and>
    (\<exists>r t1 m. x32_do_syscall kern' num' args' p t = Some (r, t1) \<and>
      (\<forall>a. a \<notin> {cpu_regs t SP - 4, cpu_regs t SP - 8} \<longrightarrow> m a = cpu_mem t a) \<and> r = fst (kern' num' args' m) \<and>
      cpu_mem t1 = snd (kern' num' args' m) \<and>
      (\<forall>x. x \<notin> {AX} \<union> set (take (length args') x32_arg_regs) \<longrightarrow> cpu_regs t1 x = cpu_regs t x))"
    (is "?wide \<and> ?narrow")
proof (rule conjI)
  have "\<exists>y. x64_do_syscall kern num args s = Some y" using assms(3) by (cases "(kern, num, args, s)" rule: x64_do_syscall.cases) simp_all
  then obtain r1 s1 where y1: "x64_do_syscall kern num args s = Some (r1, s1)" by auto
  have "\<exists>y. a64_do_syscall kern ty num args s = Some y"
    using assms(3) by (cases "(kern, ty, num, args, s)" rule: a64_do_syscall.cases) simp_all
  then obtain r2 s2 where y2: "a64_do_syscall kern ty num args s = Some (r2, s2)" by auto
  note X = x64_reaches [OF assms(1,2) y1] and A = a64_reaches [OF assms(1,2) y2]
  have r2: "r2 = (if args = [] then r1 else as_long ty r1)" using X A by simp
  then have low: "(ucast r2 :: u32) = ucast r1" by (simp add: as_long_low)
  have same: "ty = CLong \<or> args = [] \<or> ty = CInt \<and> sint r1 \<in> {- (2 ^ 31) ..< 2 ^ 31} \<longrightarrow> r2 = r1"
    using r2 as_long_int [of r1] by auto
  have mem: "cpu_mem s2 = cpu_mem s1" using X A by simp
  note X' = X [THEN conjunct1] X [THEN conjunct2, THEN conjunct1] X [THEN conjunct2, THEN conjunct2]
  note A' = A [THEN conjunct2, THEN conjunct2]
  show ?wide
    by (rule exI [of _ r1], rule exI [of _ r2], rule exI [of _ s1], rule exI [of _ s2])
      (intro conjI y1 y2 low same mem X' A')
  have "\<exists>y. x32_do_syscall kern' num' args' p t = Some y"
    using assms(6,7) by (cases "(kern', num', args', p, t)" rule: x32_do_syscall.cases) simp_all
  then obtain r t1 where y3: "x32_do_syscall kern' num' args' p t = Some (r, t1)" by auto
  with x32_reaches [OF assms(4,5) y3 assms(8)] show ?narrow by blast
qed

text \<open>\<open>io_uring_enter\<close> with its six arguments, and a kernel that answers with their sum and writes the number to
  address 4096.\<close>

definition sum_kernel :: "'l::len word kern" where
  "sum_kernel nr args m = (sum_list (take 6 args), m(4096 := nr))"

definition cpu_example :: "'l::len word cpu" where
  "cpu_example = \<lparr>cpu_regs = (\<lambda>x. if x = SP then 8192 else 99), cpu_mem = (\<lambda>a. if a = 12288 then 6 else 0), cpu_ip = 7, cpu_flags = 2\<rparr>"

theorem syscall_reaches_kernel_witness:
  "(\<exists>s1 s2. x64_do_syscall sum_kernel 426 [1, 2, 3, 4, 5, 6] cpu_example = Some (21, s1) \<and>
      a64_do_syscall sum_kernel CInt 426 [1, 2, 3, 4, 5, 6] cpu_example = Some (21, s2) \<and> cpu_mem s1 4096 = 426 \<and> cpu_mem s2 4096 = 426) \<and>
   (\<exists>t1. x32_do_syscall sum_kernel 426 [1, 2, 3, 4, 5, 6] 12288 cpu_example = Some (21, t1) \<and> cpu_regs t1 BP = 99 \<and> cpu_regs t1 SP = 8192)"
proof -
  have t: "takes sum_kernel (\<lambda>_. 6)" by (simp add: takes_def sum_kernel_def)
  have sp: "spares_stack sum_kernel 426 [1, 2, 3, 4, 5, 6] (cpu_regs cpu_example SP)"
    by (simp add: spares_stack_def sum_kernel_def cpu_example_def)
  have m: "cpu_mem cpu_example (12288 :: u32) = [1, 2, 3, 4, 5, 6] ! 5" by (simp add: cpu_example_def)
  have len: "6 = length [1 :: u64, 2, 3, 4, 5, 6]" "6 = length [1 :: u32, 2, 3, 4, 5, 6]" by simp_all
  have le: "length [1 :: u64, 2, 3, 4, 5, 6] \<le> 6" "length [1 :: u32, 2, 3, 4, 5, 6] \<le> 6" by simp_all
  note R = syscall_reaches_kernel [where num = 426 and args = "[1, 2, 3, 4, 5, 6]" and s = cpu_example and ty = CInt,
      OF t len(1) le(1) t len(2) le(2) m sp]
  obtain r r2 s1 s2 where 1: "x64_do_syscall sum_kernel 426 [1, 2, 3, 4, 5, 6] cpu_example = Some (r, s1)"
    "a64_do_syscall sum_kernel CInt 426 [1, 2, 3, 4, 5, 6] cpu_example = Some (r2, s2)"
    "r = fst (sum_kernel 426 [1, 2, 3, 4, 5, 6] (cpu_mem cpu_example))"
    "cpu_mem s1 = snd (sum_kernel 426 [1, 2, 3, 4, 5, 6] (cpu_mem cpu_example))" "cpu_mem s2 = cpu_mem s1"
    "CInt = CLong \<or> [1 :: u64, 2, 3, 4, 5, 6] = [] \<or> CInt = CInt \<and> sint r \<in> {- (2 ^ 31) ..< 2 ^ 31} \<longrightarrow> r2 = r"
    using R [THEN conjunct1] by (elim exE conjE) (rule that)
  have r: "r = 21" using 1(3) by (simp add: sum_kernel_def)
  with 1(6) have "r2 = 21" by simp
  moreover obtain r' t1 m where 2: "x32_do_syscall sum_kernel 426 [1, 2, 3, 4, 5, 6] 12288 cpu_example = Some (r', t1)"
    "r' = fst (sum_kernel 426 [1, 2, 3, 4, 5, 6] m)"
    "\<forall>x. x \<notin> {AX} \<union> set (take (length [1 :: u32, 2, 3, 4, 5, 6]) x32_arg_regs) \<longrightarrow>
       cpu_regs t1 x = cpu_regs cpu_example x"
    using R [THEN conjunct2] by (elim exE conjE) (rule that)
  from 2(3) have "cpu_regs t1 BP = 99" "cpu_regs t1 SP = 8192" by (simp_all add: cpu_example_def x32_arg_regs_def)
  moreover have "r' = 21" "cpu_mem s1 4096 = 426" "cpu_mem s2 4096 = 426" using 1(3-5) 2(2) by (simp_all add: sum_kernel_def)
  ultimately show ?thesis using 1(1,2) 2(1) r by (simp del: x64_do_syscall.simps a64_do_syscall.simps x32_do_syscall.simps)
qed

text \<open>
  A first argument of type \<^verbatim>\<open>unsigned\<close> makes an error a large positive \<open>long\<close> on aarch64, which is negative again only
  when it is used as an \<^verbatim>\<open>int\<close>.
\<close>

lemma a64_unsigned_error:
  assumes "fst (kern n [a] (cpu_mem s)) = - 4" and "takes kern arity" and "arity n = 1"
  shows "\<exists>r s'. a64_do_syscall kern CUnsigned n [a] s = Some (r, s') \<and> 0 < sint r \<and> sint (ucast r :: 32 word) = - 4"
proof -
  obtain r s' where y: "a64_do_syscall kern CUnsigned n [a] s = Some (r, s')" by fastforce
  with a64_reaches [OF assms(2) _ y] assms(1,3) have "r = as_long CUnsigned (- 4)" by simp
  moreover have "0 < sint (as_long CUnsigned (- 4))" "sint (ucast (as_long CUnsigned (- 4)) :: 32 word) = - 4" by code_simp+
  ultimately show ?thesis using y by blast
qed

end
