(* ===== verification/Uring_Abi.thy ===== *)
theory Uring_Abi
  imports Sq_Entry
begin

text \<open>
  The interface with the kernel in \<^verbatim>\<open>uring/io_uring.h\<close>: its enumerations, with the rule by which C numbers
  them, and its structures, with the rule by which C lays them out. A 64-bit integer is aligned to 8 bytes
  on 64-bit machines, and to 4 bytes on 32-bit x86 unless its type is \<open>__aligned_u64\<close>; the layouts must not
  depend on it, because the kernel and the program may differ.
\<close>

section \<open>Enumerations\<close>

datatype enumerator = Plain string | Valued string int

text \<open>An enumerator without a value is one more than the one before it, the first one 0.\<close>

fun enum_from :: "int \<Rightarrow> enumerator list \<Rightarrow> (string \<times> int) list" where
  "enum_from n [] = []"
| "enum_from n (Plain x # es) = (x, n) # enum_from (n + 1) es"
| "enum_from n (Valued x v # es) = (x, v) # enum_from (v + 1) es"

definition enum_values :: "enumerator list \<Rightarrow> (string \<times> int) list" where
  "enum_values = enum_from 0"

definition sqe_flag_bits :: "enumerator list" where
  "sqe_flag_bits = [
     Plain ''IOSQE_FIXED_FILE_BIT'', Plain ''IOSQE_IO_DRAIN_BIT'', Plain ''IOSQE_IO_LINK_BIT'',
     Plain ''IOSQE_IO_HARDLINK_BIT'', Plain ''IOSQE_ASYNC_BIT'', Plain ''IOSQE_BUFFER_SELECT_BIT'',
     Plain ''IOSQE_CQE_SKIP_SUCCESS_BIT'']"

definition io_uring_op :: "enumerator list" where
  "io_uring_op = [
     Plain ''IORING_OP_NOP'', Plain ''IORING_OP_READV'', Plain ''IORING_OP_WRITEV'',
     Plain ''IORING_OP_FSYNC'', Plain ''IORING_OP_READ_FIXED'', Plain ''IORING_OP_WRITE_FIXED'',
     Plain ''IORING_OP_POLL_ADD'', Plain ''IORING_OP_POLL_REMOVE'', Plain ''IORING_OP_SYNC_FILE_RANGE'',
     Plain ''IORING_OP_SENDMSG'', Plain ''IORING_OP_RECVMSG'', Plain ''IORING_OP_TIMEOUT'',
     Plain ''IORING_OP_TIMEOUT_REMOVE'', Plain ''IORING_OP_ACCEPT'', Plain ''IORING_OP_ASYNC_CANCEL'',
     Plain ''IORING_OP_LINK_TIMEOUT'', Plain ''IORING_OP_CONNECT'', Plain ''IORING_OP_FALLOCATE'',
     Plain ''IORING_OP_OPENAT'', Plain ''IORING_OP_CLOSE'', Plain ''IORING_OP_FILES_UPDATE'',
     Plain ''IORING_OP_STATX'', Plain ''IORING_OP_READ'', Plain ''IORING_OP_WRITE'',
     Plain ''IORING_OP_FADVISE'', Plain ''IORING_OP_MADVISE'', Plain ''IORING_OP_SEND'',
     Plain ''IORING_OP_RECV'', Plain ''IORING_OP_OPENAT2'', Plain ''IORING_OP_EPOLL_CTL'',
     Plain ''IORING_OP_SPLICE'', Plain ''IORING_OP_PROVIDE_BUFFERS'', Plain ''IORING_OP_REMOVE_BUFFERS'',
     Plain ''IORING_OP_TEE'', Plain ''IORING_OP_SHUTDOWN'', Plain ''IORING_OP_RENAMEAT'',
     Plain ''IORING_OP_UNLINKAT'', Plain ''IORING_OP_MKDIRAT'', Plain ''IORING_OP_SYMLINKAT'',
     Plain ''IORING_OP_LINKAT'', Plain ''IORING_OP_MSG_RING'', Plain ''IORING_OP_FSETXATTR'',
     Plain ''IORING_OP_SETXATTR'', Plain ''IORING_OP_FGETXATTR'', Plain ''IORING_OP_GETXATTR'',
     Plain ''IORING_OP_SOCKET'', Plain ''IORING_OP_URING_CMD'', Plain ''IORING_OP_SEND_ZC'',
     Plain ''IORING_OP_SENDMSG_ZC'', Plain ''IORING_OP_READ_MULTISHOT'', Plain ''IORING_OP_WAITID'',
     Plain ''IORING_OP_FUTEX_WAIT'', Plain ''IORING_OP_FUTEX_WAKE'', Plain ''IORING_OP_FUTEX_WAITV'',
     Plain ''IORING_OP_FIXED_FD_INSTALL'', Plain ''IORING_OP_LAST'']"

definition msg_ring_commands :: "enumerator list" where
  "msg_ring_commands = [
     Plain ''IORING_MSG_DATA'', Plain ''IORING_MSG_SEND_FD'']"

definition cqe_buffer_shift :: "enumerator list" where
  "cqe_buffer_shift = [
     Valued ''IORING_CQE_BUFFER_SHIFT'' 16]"

definition register_opcodes :: "enumerator list" where
  "register_opcodes = [
     Valued ''IORING_REGISTER_BUFFERS'' 0, Valued ''IORING_UNREGISTER_BUFFERS'' 1,
     Valued ''IORING_REGISTER_FILES'' 2, Valued ''IORING_UNREGISTER_FILES'' 3,
     Valued ''IORING_REGISTER_EVENTFD'' 4, Valued ''IORING_UNREGISTER_EVENTFD'' 5,
     Valued ''IORING_REGISTER_FILES_UPDATE'' 6, Valued ''IORING_REGISTER_EVENTFD_ASYNC'' 7,
     Valued ''IORING_REGISTER_PROBE'' 8, Valued ''IORING_REGISTER_PERSONALITY'' 9,
     Valued ''IORING_UNREGISTER_PERSONALITY'' 10, Valued ''IORING_REGISTER_RESTRICTIONS'' 11,
     Valued ''IORING_REGISTER_ENABLE_RINGS'' 12, Valued ''IORING_REGISTER_FILES2'' 13,
     Valued ''IORING_REGISTER_FILES_UPDATE2'' 14, Valued ''IORING_REGISTER_BUFFERS2'' 15,
     Valued ''IORING_REGISTER_BUFFERS_UPDATE'' 16, Valued ''IORING_REGISTER_IOWQ_AFF'' 17,
     Valued ''IORING_UNREGISTER_IOWQ_AFF'' 18, Valued ''IORING_REGISTER_IOWQ_MAX_WORKERS'' 19,
     Valued ''IORING_REGISTER_RING_FDS'' 20, Valued ''IORING_UNREGISTER_RING_FDS'' 21,
     Valued ''IORING_REGISTER_PBUF_RING'' 22, Valued ''IORING_UNREGISTER_PBUF_RING'' 23,
     Valued ''IORING_REGISTER_SYNC_CANCEL'' 24, Valued ''IORING_REGISTER_FILE_ALLOC_RANGE'' 25,
     Plain ''IORING_REGISTER_LAST'', Valued ''IORING_REGISTER_USE_REGISTERED_RING'' 2147483648]"

definition wq_kinds :: "enumerator list" where
  "wq_kinds = [
     Plain ''IO_WQ_BOUND'', Plain ''IO_WQ_UNBOUND'']"

definition pbuf_ring_flags :: "enumerator list" where
  "pbuf_ring_flags = [
     Valued ''IOU_PBUF_RING_MMAP'' 1]"

definition restriction_opcodes :: "enumerator list" where
  "restriction_opcodes = [
     Valued ''IORING_RESTRICTION_REGISTER_OP'' 0, Valued ''IORING_RESTRICTION_SQE_OP'' 1,
     Valued ''IORING_RESTRICTION_SQE_FLAGS_ALLOWED'' 2, Valued ''IORING_RESTRICTION_SQE_FLAGS_REQUIRED'' 3,
     Plain ''IORING_RESTRICTION_LAST'']"

definition socket_commands :: "enumerator list" where
  "socket_commands = [
     Valued ''SOCKET_URING_OP_SIOCINQ'' 0, Plain ''SOCKET_URING_OP_SIOCOUTQ'',
     Plain ''SOCKET_URING_OP_GETSOCKOPT'', Plain ''SOCKET_URING_OP_SETSOCKOPT'']"

section \<open>Structures\<close>

datatype c_layout =
    CU8 | CU16 | CU32 | CU64 | CAligned64
  | CArray nat c_layout
  | CStruct members
  | CUnion members
  | CPacked c_layout
and members = MNil | MCons string c_layout members

text \<open>The alignment, when that of \<open>__u64\<close> is \<open>w\<close>, and the size.\<close>

fun c_align :: "nat \<Rightarrow> c_layout \<Rightarrow> nat" and members_align :: "nat \<Rightarrow> members \<Rightarrow> nat" where
  "c_align w CU8 = 1"
| "c_align w CU16 = 2"
| "c_align w CU32 = 4"
| "c_align w CU64 = w"
| "c_align w CAligned64 = 8"
| "c_align w (CArray n t) = c_align w t"
| "c_align w (CStruct ms) = members_align w ms"
| "c_align w (CUnion ms) = members_align w ms"
| "c_align w (CPacked t) = 1"
| "members_align w MNil = 1"
| "members_align w (MCons x t ms) = max (c_align w t) (members_align w ms)"

definition to_align :: "nat \<Rightarrow> nat \<Rightarrow> nat" where
  "to_align a n = (n + a - 1) div a * a"

text \<open>\<open>struct_end\<close> is where the members end that begin after \<open>n\<close> bytes.\<close>

fun c_size :: "nat \<Rightarrow> c_layout \<Rightarrow> nat" and struct_end :: "nat \<Rightarrow> nat \<Rightarrow> members \<Rightarrow> nat" and union_size :: "nat \<Rightarrow> members \<Rightarrow> nat" where
  "c_size w CU8 = 1"
| "c_size w CU16 = 2"
| "c_size w CU32 = 4"
| "c_size w CU64 = 8"
| "c_size w CAligned64 = 8"
| "c_size w (CArray n t) = n * c_size w t"
| "c_size w (CStruct ms) = to_align (members_align w ms) (struct_end w 0 ms)"
| "c_size w (CUnion ms) = to_align (members_align w ms) (union_size w ms)"
| "c_size w (CPacked t) = c_size w t"
| "struct_end w n MNil = n"
| "struct_end w n (MCons x t ms) = struct_end w (to_align (c_align w t) n + c_size w t) ms"
| "union_size w MNil = 0"
| "union_size w (MCons x t ms) = max (c_size w t) (union_size w ms)"

text \<open>The members with offset and size, those of anonymous structures and unions in their places.\<close>

fun c_leaves :: "nat \<Rightarrow> string \<Rightarrow> nat \<Rightarrow> c_layout \<Rightarrow> (string \<times> nat \<times> nat) list"
  and struct_leaves :: "nat \<Rightarrow> nat \<Rightarrow> members \<Rightarrow> (string \<times> nat \<times> nat) list"
  and union_leaves :: "nat \<Rightarrow> nat \<Rightarrow> members \<Rightarrow> (string \<times> nat \<times> nat) list" where
  "c_leaves w x n (CStruct ms) = struct_leaves w n ms"
| "c_leaves w x n (CUnion ms) = union_leaves w n ms"
| "c_leaves w x n (CPacked t) = c_leaves w x n t"
| "c_leaves w x n t = [(x, n, c_size w t)]"
| "struct_leaves w n MNil = []"
| "struct_leaves w n (MCons x t ms) =
     (let n = to_align (c_align w t) n in c_leaves w x n t @ struct_leaves w (n + c_size w t) ms)"
| "union_leaves w n MNil = []"
| "union_leaves w n (MCons x t ms) = c_leaves w x n t @ union_leaves w n ms"

text \<open>A member without a name is an anonymous structure or union; a flexible array has no elements.\<close>

fun members_of :: "(string \<times> c_layout) list \<Rightarrow> members" where
  "members_of [] = MNil"
| "members_of ((x, t) # ms) = MCons x t (members_of ms)"

abbreviation struct_of :: "(string \<times> c_layout) list \<Rightarrow> c_layout" where "struct_of ms \<equiv> CStruct (members_of ms)"
abbreviation union_of :: "(string \<times> c_layout) list \<Rightarrow> c_layout" where "union_of ms \<equiv> CUnion (members_of ms)"

definition abi_sqe :: c_layout where
  "abi_sqe = struct_of [
     (''opcode'', CU8), (''flags'', CU8), (''ioprio'', CU16), (''fd'', CU32),
     ('''', union_of [(''off'', CU64), (''addr2'', CU64), ('''', struct_of [(''cmd_op'', CU32), (''__pad1'', CU32)])]),
     ('''', union_of [(''addr'', CU64), (''splice_off_in'', CU64), ('''', struct_of [(''level'', CU32), (''optname'',
       CU32)])]),
     (''len'', CU32),
     ('''', union_of [(''rw_flags'', CU32), (''fsync_flags'', CU32), (''poll_events'', CU16), (''poll32_events'', CU32),
       (''sync_range_flags'', CU32), (''msg_flags'', CU32), (''timeout_flags'', CU32), (''accept_flags'', CU32),
       (''cancel_flags'', CU32), (''open_flags'', CU32), (''statx_flags'', CU32), (''fadvise_advice'', CU32),
       (''splice_flags'', CU32), (''rename_flags'', CU32), (''unlink_flags'', CU32), (''hardlink_flags'', CU32),
       (''xattr_flags'', CU32), (''msg_ring_flags'', CU32), (''uring_cmd_flags'', CU32), (''waitid_flags'', CU32),
       (''futex_flags'', CU32), (''install_fd_flags'', CU32)]),
     (''user_data'', CU64), ('''', CPacked (union_of [(''buf_index'', CU16), (''buf_group'', CU16)])),
     (''personality'', CU16),
     ('''', union_of [(''splice_fd_in'', CU32), (''file_index'', CU32), (''optlen'', CU32), ('''', struct_of
       [(''addr_len'', CU16), (''__pad3'', CArray 1 CU16)])]),
     ('''', union_of [('''', struct_of [(''addr3'', CU64), (''__pad2'', CArray 1 CU64)]), (''optval'', CU64), (''cmd'',
       CArray 0 CU8)])]"

definition abi_cqe :: c_layout where
  "abi_cqe = struct_of [
     (''user_data'', CU64), (''res'', CU32), (''flags'', CU32), (''big_cqe'', CArray 0 CU64)]"

definition abi_sqring_offsets :: c_layout where
  "abi_sqring_offsets = struct_of [
     (''head'', CU32), (''tail'', CU32), (''ring_mask'', CU32), (''ring_entries'', CU32), (''flags'', CU32),
     (''dropped'', CU32), (''array'', CU32), (''resv1'', CU32), (''user_addr'', CU64)]"

definition abi_cqring_offsets :: c_layout where
  "abi_cqring_offsets = struct_of [
     (''head'', CU32), (''tail'', CU32), (''ring_mask'', CU32), (''ring_entries'', CU32), (''overflow'', CU32),
     (''cqes'', CU32), (''flags'', CU32), (''resv1'', CU32), (''user_addr'', CU64)]"

definition abi_params :: c_layout where
  "abi_params = struct_of [
     (''sq_entries'', CU32), (''cq_entries'', CU32), (''flags'', CU32), (''sq_thread_cpu'', CU32),
     (''sq_thread_idle'', CU32), (''features'', CU32), (''wq_fd'', CU32), (''resv'', CArray 3 CU32),
     (''sq_off'', abi_sqring_offsets), (''cq_off'', abi_cqring_offsets)]"

definition abi_files_update :: c_layout where
  "abi_files_update = struct_of [
     (''offset'', CU32), (''resv'', CU32), (''fds'', CAligned64)]"

definition abi_rsrc_register :: c_layout where
  "abi_rsrc_register = struct_of [
     (''nr'', CU32), (''flags'', CU32), (''resv2'', CU64), (''data'', CAligned64), (''tags'', CAligned64)]"

definition abi_rsrc_update :: c_layout where
  "abi_rsrc_update = struct_of [
     (''offset'', CU32), (''resv'', CU32), (''data'', CAligned64)]"

definition abi_rsrc_update2 :: c_layout where
  "abi_rsrc_update2 = struct_of [
     (''offset'', CU32), (''resv'', CU32), (''data'', CAligned64), (''tags'', CAligned64), (''nr'', CU32),
     (''resv2'', CU32)]"

definition abi_probe_op :: c_layout where
  "abi_probe_op = struct_of [
     (''op'', CU8), (''resv'', CU8), (''flags'', CU16), (''resv2'', CU32)]"

definition abi_probe :: c_layout where
  "abi_probe = struct_of [
     (''last_op'', CU8), (''ops_len'', CU8), (''resv'', CU16), (''resv2'', CArray 3 CU32),
     (''ops'', CArray 0 abi_probe_op)]"

definition abi_restriction :: c_layout where
  "abi_restriction = struct_of [
     (''opcode'', CU16), ('''', union_of [(''register_op'', CU8), (''sqe_op'', CU8), (''sqe_flags'', CU8)]),
     (''resv'', CU8), (''resv2'', CArray 3 CU32)]"

definition abi_buf :: c_layout where
  "abi_buf = struct_of [
     (''addr'', CU64), (''len'', CU32), (''bid'', CU16), (''resv'', CU16)]"

definition abi_buf_ring :: c_layout where
  "abi_buf_ring = struct_of [
     ('''', union_of [('''', struct_of [(''resv1'', CU64), (''resv2'', CU32), (''resv3'', CU16), (''tail'', CU16)]),
       (''bufs'', CArray 0 abi_buf)])]"

definition abi_buf_reg :: c_layout where
  "abi_buf_reg = struct_of [
     (''ring_addr'', CU64), (''ring_entries'', CU32), (''bgid'', CU16), (''flags'', CU16),
     (''resv'', CArray 3 CU64)]"

definition abi_getevents_arg :: c_layout where
  "abi_getevents_arg = struct_of [
     (''sigmask'', CU64), (''sigmask_sz'', CU32), (''pad'', CU32), (''ts'', CU64)]"

definition abi_sync_cancel_reg :: c_layout where
  "abi_sync_cancel_reg = struct_of [
     (''addr'', CU64), (''fd'', CU32), (''flags'', CU32),
     (''timeout'', struct_of [(''tv_sec'', CU64), (''tv_nsec'', CU64)]), (''pad'', CArray 4 CU64)]"

definition abi_file_index_range :: c_layout where
  "abi_file_index_range = struct_of [
     (''off'', CU32), (''len'', CU32), (''resv'', CU64)]"

definition abi_recvmsg_out :: c_layout where
  "abi_recvmsg_out = struct_of [
     (''namelen'', CU32), (''controllen'', CU32), (''payloadlen'', CU32), (''flags'', CU32)]"

section \<open>What the kernel relies on\<close>

definition abi_structs :: "(c_layout \<times> nat) list" where
  "abi_structs = [(abi_sqe, 64), (abi_cqe, 16), (abi_sqring_offsets, 40), (abi_cqring_offsets, 40), (abi_params, 120), (abi_files_update, 16), (abi_rsrc_register, 32), (abi_rsrc_update, 16), (abi_rsrc_update2, 32), (abi_probe_op, 8), (abi_probe, 16), (abi_restriction, 16), (abi_buf, 16), (abi_buf_ring, 16), (abi_buf_reg, 40), (abi_getevents_arg, 24), (abi_sync_cancel_reg, 64), (abi_file_index_range, 16), (abi_recvmsg_out, 16)]"

text \<open>Every byte of a structure belongs to a member.\<close>

definition no_padding :: "nat \<Rightarrow> c_layout \<Rightarrow> bool" where
  "no_padding w t \<longleftrightarrow> list_all (\<lambda>i. list_ex (\<lambda>(x, n, k). n \<le> i \<and> i < n + k) (c_leaves w [] 0 t)) [0..<c_size w t]"

lemmas abi_defs = abi_sqe_def abi_cqe_def abi_sqring_offsets_def abi_cqring_offsets_def abi_params_def abi_files_update_def abi_rsrc_register_def abi_rsrc_update_def abi_rsrc_update2_def abi_probe_op_def abi_probe_def abi_restriction_def abi_buf_def abi_buf_ring_def abi_buf_reg_def abi_getevents_arg_def abi_sync_cancel_reg_def abi_file_index_range_def abi_recvmsg_out_def

text \<open>The structures that are shared with the kernel have one layout, whether 64-bit integers are aligned to 4
  bytes or to 8: the members have the same offsets and sizes, the structures the sizes that the kernel expects, with an entry of
  the submission queue of 64 bytes and one of the completion queue of 16, and there are no hidden padding bytes, whose
  contents would be left to chance.\<close>

theorem abi_portable:
  "list_all (\<lambda>(t, n). c_size 4 t = n \<and> c_size 8 t = n \<and> c_leaves 4 [] 0 t = c_leaves 8 [] 0 t \<and> no_padding 8 t) abi_structs"
  unfolding abi_structs_def abi_defs by code_simp

text \<open>The numbers that the preparations of entries use for the operations and for the flags are those of the
  enumerations.\<close>

lemma abi_opcodes:
  "list_all (\<lambda>(x, v). map_of (enum_values io_uring_op) x = Some v)
    [(''IORING_OP_NOP'', uint IORING_OP_NOP), (''IORING_OP_READV'', uint IORING_OP_READV),
     (''IORING_OP_WRITEV'', uint IORING_OP_WRITEV), (''IORING_OP_FSYNC'', uint IORING_OP_FSYNC),
     (''IORING_OP_READ_FIXED'', uint IORING_OP_READ_FIXED), (''IORING_OP_WRITE_FIXED'', uint IORING_OP_WRITE_FIXED),
     (''IORING_OP_POLL_ADD'', uint IORING_OP_POLL_ADD), (''IORING_OP_POLL_REMOVE'', uint IORING_OP_POLL_REMOVE),
     (''IORING_OP_SYNC_FILE_RANGE'', uint IORING_OP_SYNC_FILE_RANGE),
     (''IORING_OP_SENDMSG'', uint IORING_OP_SENDMSG), (''IORING_OP_RECVMSG'', uint IORING_OP_RECVMSG),
     (''IORING_OP_TIMEOUT'', uint IORING_OP_TIMEOUT), (''IORING_OP_TIMEOUT_REMOVE'', uint IORING_OP_TIMEOUT_REMOVE),
     (''IORING_OP_ACCEPT'', uint IORING_OP_ACCEPT), (''IORING_OP_ASYNC_CANCEL'', uint IORING_OP_ASYNC_CANCEL),
     (''IORING_OP_LINK_TIMEOUT'', uint IORING_OP_LINK_TIMEOUT), (''IORING_OP_CONNECT'', uint IORING_OP_CONNECT),
     (''IORING_OP_FALLOCATE'', uint IORING_OP_FALLOCATE), (''IORING_OP_OPENAT'', uint IORING_OP_OPENAT),
     (''IORING_OP_CLOSE'', uint IORING_OP_CLOSE), (''IORING_OP_FILES_UPDATE'', uint IORING_OP_FILES_UPDATE),
     (''IORING_OP_STATX'', uint IORING_OP_STATX), (''IORING_OP_READ'', uint IORING_OP_READ),
     (''IORING_OP_WRITE'', uint IORING_OP_WRITE), (''IORING_OP_FADVISE'', uint IORING_OP_FADVISE),
     (''IORING_OP_MADVISE'', uint IORING_OP_MADVISE), (''IORING_OP_SEND'', uint IORING_OP_SEND),
     (''IORING_OP_RECV'', uint IORING_OP_RECV), (''IORING_OP_OPENAT2'', uint IORING_OP_OPENAT2),
     (''IORING_OP_EPOLL_CTL'', uint IORING_OP_EPOLL_CTL), (''IORING_OP_SPLICE'', uint IORING_OP_SPLICE),
     (''IORING_OP_PROVIDE_BUFFERS'', uint IORING_OP_PROVIDE_BUFFERS),
     (''IORING_OP_REMOVE_BUFFERS'', uint IORING_OP_REMOVE_BUFFERS), (''IORING_OP_TEE'', uint IORING_OP_TEE),
     (''IORING_OP_SHUTDOWN'', uint IORING_OP_SHUTDOWN), (''IORING_OP_RENAMEAT'', uint IORING_OP_RENAMEAT),
     (''IORING_OP_UNLINKAT'', uint IORING_OP_UNLINKAT), (''IORING_OP_MKDIRAT'', uint IORING_OP_MKDIRAT),
     (''IORING_OP_SYMLINKAT'', uint IORING_OP_SYMLINKAT), (''IORING_OP_LINKAT'', uint IORING_OP_LINKAT),
     (''IORING_OP_MSG_RING'', uint IORING_OP_MSG_RING), (''IORING_OP_FSETXATTR'', uint IORING_OP_FSETXATTR),
     (''IORING_OP_SETXATTR'', uint IORING_OP_SETXATTR), (''IORING_OP_FGETXATTR'', uint IORING_OP_FGETXATTR),
     (''IORING_OP_GETXATTR'', uint IORING_OP_GETXATTR), (''IORING_OP_SOCKET'', uint IORING_OP_SOCKET),
     (''IORING_OP_SEND_ZC'', uint IORING_OP_SEND_ZC), (''IORING_OP_SENDMSG_ZC'', uint IORING_OP_SENDMSG_ZC),
     (''IORING_OP_LAST'', uint IORING_OP_LAST)]"
  unfolding enum_values_def io_uring_op_def by code_simp

lemma abi_flags:
  "list_all (\<lambda>(x, v). map_option (\<lambda>b. 2 ^ nat b) (map_of (enum_values sqe_flag_bits) x) = Some v)
    [(''IOSQE_FIXED_FILE_BIT'', uint IOSQE_FIXED_FILE), (''IOSQE_IO_DRAIN_BIT'', uint IOSQE_IO_DRAIN), (''IOSQE_IO_LINK_BIT'', uint IOSQE_IO_LINK), (''IOSQE_IO_HARDLINK_BIT'', uint IOSQE_IO_HARDLINK), (''IOSQE_ASYNC_BIT'', uint IOSQE_ASYNC), (''IOSQE_BUFFER_SELECT_BIT'', uint IOSQE_BUFFER_SELECT), (''IOSQE_CQE_SKIP_SUCCESS_BIT'', uint IOSQE_CQE_SKIP_SUCCESS)]"
  unfolding enum_values_def sqe_flag_bits_def by code_simp

end
