(* ===== verification/Spec2Isabelle.thy ===== *)
theory Spec2Isabelle
  imports Spsc_Cursor Mutex_Threads Semaphore_Threads Cond_Var Channel_Threads Buf_Ring Lazy_Timeout
    Stop_Threads Stop_Source When_All When_Any Task_Owner Task_Promise Shared_Task Shared_Owner Generator Gen_Alloc
    Gen_Owner Rendezvous Io_Start Spin_Mutex Socket Mpl Recv_Msg Syscall Spsc_Orders
    Join_Orders Spin_Orders Httpd_Limits Sessions Syscall_Asm Uring_Abi
begin

text \<open>
  A verification library for co\_context, a framework of C++20 coroutines over io\_uring. The names
  of files are relative to \<^verbatim>\<open>src/\<close>; \<^verbatim>\<open>include\<close> and \<^verbatim>\<open>lib\<close> stand for
  \<^verbatim>\<open>include/co_context\<close> and \<^verbatim>\<open>lib/co_context\<close>, \<^verbatim>\<open>uring\<close> for
  \<^verbatim>\<open>extern/liburingcxx/include/uring\<close>.

  \<^bold>\<open>The program.\<close> A program constructs \<open>io_context\<close>s, each with a host thread, a worker and a ring
  shared with the kernel. Coroutines (\<open>task\<close>, \<open>shared_task\<close>, \<open>generator\<close>) run on the workers. A coroutine
  that awaits an operation takes an entry of the submission queue, writes into its user data where it
  is to be resumed, and suspends; the event loop submits the entries, reads the completions and
  puts the coroutines they name into the run queue of the worker. Coroutines on the same or different
  workers synchronise with a mutex, a semaphore, a condition variable, channels, stop tokens and the
  combinators that wait for all or the first of several tasks.

  \<^bold>\<open>Theories, from the bottom up.\<close>
  \<^item> \<open>Prelude\<close>: machine types, the result type \<open>fault + 'a\<close> (a failed assertion, a null pointer that is
    read, \<open>std::terminate\<close>, an exception), ring indices under a mask, rounding up, counting coroutines by
    their position. \<open>Wait_List\<close>: intrusive stacks of awaiters and their reversal; the locale
    \<open>fifo_waiters\<close>. \<open>Ref_Count\<close>: counted references, the locale \<open>ref_counted\<close>.
  \<^item> Synchronisation, \<^verbatim>\<open>include/co\<close>: \<open>Mutex\<close> and \<open>Mutex_Threads\<close> (\<^verbatim>\<open>mutex\<close>), \<open>Semaphore\<close> and
    \<open>Semaphore_Threads\<close> (\<^verbatim>\<open>semaphore\<close>), \<open>Cond_Var\<close> (\<^verbatim>\<open>condition_variable\<close>), \<open>Channel\<close>,
    \<open>Channel_Threads\<close> and \<open>Rendezvous\<close> (\<^verbatim>\<open>channel.hpp\<close>, the general template, capacity one and
    capacity zero), \<open>Spin_Mutex\<close> (\<^verbatim>\<open>spin_mutex\<close>, \<^verbatim>\<open>detail/spinlock.hpp\<close>,
    \<^verbatim>\<open>detail/trival_task.hpp\<close>), \<open>Stop_State\<close>, \<open>Stop_Threads\<close> and \<open>Stop_Source\<close>
    (\<^verbatim>\<open>stop_token.hpp\<close>), \<open>When_All\<close>, \<open>When_Any\<close>.
  \<^item> Coroutine types: \<open>Task\<close>, \<open>Task_Owner\<close> and \<open>Task_Promise\<close> (\<^verbatim>\<open>task.hpp\<close>), \<open>Shared_Task\<close> and \<open>Shared_Owner\<close>
    (\<^verbatim>\<open>shared_task.hpp\<close>), \<open>Generator\<close>, \<open>Gen_Alloc\<close> and \<open>Gen_Owner\<close> (\<^verbatim>\<open>generator.hpp\<close>).
  \<^item> The ring, \<^verbatim>\<open>uring\<close>: \<open>Sq_Entry\<close> (\<^verbatim>\<open>sq_entry.hpp\<close>), \<open>Sq_Ring\<close> (\<^verbatim>\<open>detail/sq.hpp\<close>),
    \<open>Cq_Ring\<close> (\<^verbatim>\<open>detail/cq.hpp\<close>), \<open>Buf_Ring\<close> (\<^verbatim>\<open>buf_ring.hpp\<close>), \<open>Uring\<close> and \<open>Uring_Init\<close>
    (\<^verbatim>\<open>uring.hpp\<close>), \<open>Recv_Msg\<close> (\<^verbatim>\<open>utility/io_helper.hpp\<close>), \<open>Syscall\<close> (\<^verbatim>\<open>arch\<close>: the
    wrappers of the system calls), \<open>Syscall_Asm\<close> (\<^verbatim>\<open>arch\<close>: the assembly that enters the kernel) and
    \<open>Uring_Abi\<close> (\<^verbatim>\<open>io_uring.h\<close>: the numbers of its enumerations, the layout of its structures).
  \<^item> The event loop: \<open>Spsc_Cursor\<close> (\<^verbatim>\<open>detail/spsc_cursor.hpp\<close>), \<open>Worker\<close>
    (\<^verbatim>\<open>detail/worker_meta\<close>), \<open>Io_Context\<close> and \<open>Io_Start\<close> (\<^verbatim>\<open>io_context\<close>: the loop, and how
    the loops of all threads start together and end).
  \<^item> Operations: \<open>Lazy_Io\<close> (\<^verbatim>\<open>detail/lazy_io_awaiter.hpp\<close>), \<open>Lazy_Api\<close> (\<^verbatim>\<open>lazy_io.hpp\<close>),
    \<open>Time_Cast\<close> and \<open>Lazy_Timeout\<close> (timers), \<open>Inet_Address\<close> and \<open>Socket\<close> (\<^verbatim>\<open>net\<close>).
  \<^item> Memory orders: \<open>Memory_Orders\<close> (\<^verbatim>\<open>barrier.h\<close>, and what the orders promise), \<open>Spsc_Orders\<close> (the
    cursor and the rings shared with the kernel), \<open>Join_Orders\<close> (\<^verbatim>\<open>when_all.hpp\<close>), \<open>Spin_Orders\<close>.
  \<^item> A client of the ring, \<^verbatim>\<open>extern/liburingcxx/example/httpd.cpp\<close>: \<open>Httpd_Text\<close> (the texts), \<open>Httpd\<close> (the
    server over a heap), \<open>Httpd_Safe\<close> and \<open>Httpd_Loop\<close> (who owns which block), \<open>Httpd_Run\<close> (its runs) and
    \<open>Httpd_Limits\<close> (what ends it).
  \<^item> Clients of the library, \<^verbatim>\<open>example\<close>: \<open>Sessions\<close> (the coroutines of \<^verbatim>\<open>echo_server.cpp\<close>,
    \<^verbatim>\<open>echo_server_MT.cpp\<close>, \<^verbatim>\<open>redis_echo.cpp\<close>, \<^verbatim>\<open>netcat.cpp\<close> and \<^verbatim>\<open>netcat_timeout.cpp\<close>).
  \<^item> Metaprograms: \<open>Type_List\<close> and \<open>Mpl\<close> (\<^verbatim>\<open>mpl\<close>), at the level of lists of types.

  \<^bold>\<open>How code becomes definitions.\<close> A class is a record with its fields under their names, an enumeration
  or a tagged union a datatype, an integer a word of its width; where a word of 64 bits holds a pointer
  or a mark, it is a word here too. A field of objects that are linked through pointers is a map from
  their addresses. An operation is a function of the same name on the state, with one branch for
  each branch of the code. An assertion that fails is \<open>Inl AssertFail\<close>; a loop that need not end is a
  \<open>partial_function (option)\<close>, or carries a list of what it observes, and \<open>None\<close> is that it has not
  ended. Code that several threads run at once is a step relation in which a step is one access to
  shared memory (or one section under a lock that is modelled elsewhere), with a program counter for
  each coroutine or thread; a weak compare-exchange may fail at any time. Interleaving is sequentially
  consistent, except in the theories \<open>*_Orders\<close>: there a thread has a clock of what happened before its
  next access, a load may read any message that the thread has not seen a newer one of, and what
  it acquires depends on the orders that the code names. Ghost fields, such as the lists of
  what was sent and received, are named as such where they are introduced.

  \<^bold>\<open>What is outside.\<close> The kernel, the C library and the bodies of the user's coroutines are parameters:
  functions with what is documented of them as named predicates (for example \<open>enter_ok\<close>,
  \<open>libc_ok\<close>, \<open>text_format\<close>), each shown to be satisfiable by a concrete function in a witness. The kernel
  version and the options of the build are arguments.

  \<^bold>\<open>What the lemmas show.\<close>
  \<^item> Refinement of an abstract specification: the mutex is a lock with a queue, under every interleaving
    (\<open>mutex_refines_lock\<close>); the channel is a bounded queue (\<open>chan_refines_queue\<close>, \<open>chan_fifo\<close>); awaiting a
    task is calling a function, as long as no exception leaves a task with a value whose memory reads as
    an exception pointer (\<open>task_is_call\<close>); a range over nested generators is the list of what
    they yield, in order (\<open>generator_flattens\<close>).
  \<^item> Safety and invariants: mutual exclusion, permits that are never overspent, ring slots that are never
    shared with the kernel while they are written, callbacks that do not run after they are
    deregistered, frames and reference counts that are released once; the memory orders of the ring
    cursor suffice (\<open>spsc_race_free\<close>; of the rings shared with the kernel only the orders are compared) and
    so do those of the spin lock (\<open>spin_lock_protects\<close>).
  \<^item> Clients: the sessions of the echo server and of netcat forward a stream (\<open>sessions_forward\<close>). The example
    web server would use no block that it has freed (\<open>httpd_memory_safe\<close>) and would answer with the file
    that is asked for (\<open>httpd_serves_file\<close>) over a ring that is made with \<open>sqe_reorder\<close>; over the
    \<open>uring<0>\<close> that it declares it stops at an assertion, or without assertions submits each request twice
    and uses what it has freed (\<open>plain_ring_asserts\<close>, \<open>plain_ring_uses_freed\<close>).
  \<^item> Progress: no waiter is lost by the mutex, by the start of the loops, and by a channel whose coroutines
    run on one \<open>io_context\<close>, so that its notifications do not overlap; the loop serves the coroutines it finds; the walk over completions, and over control messages, ends.
  \<^item> Round trips and bounds: an operation's result reaches the coroutine that awaits it; an address can be
    written and read; time specifications are exact and in range; memory of generators fits.
  \<^item> Defects, as theorems on the faithful model, listed as findings: for instance two overlapping
    \<open>notify_one\<close> that lose waiters (\<open>cv_notify_one_race_loses\<close>), or a
    decrement of \<open>all\<close> that does not order the results before their reads (\<open>all_relaxed_races\<close>).

  \<^bold>\<open>Locales.\<close> \<open>queue_lock\<close> is what the condition variable needs of a mutex and is interpreted on the code's
  mutex; \<open>fifo_waiters\<close> is what a release needs of the list of waiters and is interpreted on that of
  the semaphore; \<open>ref_counted\<close> is interpreted on stop states and on shared tasks; \<open>run_queue\<close> is the
  contract between the run queue of the worker and a loop that takes from it, interpreted on the worker.

  \<^bold>\<open>Bounds.\<close> Rings have a capacity that is a power of two below the width of the counters, which wrap around.
  The semaphore's counter is assumed to stay in 64 bits, the number of tasks of a \<open>when_any\<close> in 32, the
  number of contexts that live in 8, as the types of the code demand. No fuel bounds a loop: where a
  loop is recursive on a list, the list is what it observes.

  \<^bold>\<open>Not modelled.\<close> Weak memory outside the four theories above; logging; macros of
  \<^verbatim>\<open>uring/io_uring.h\<close> that no code of the library uses; casts between representations of the same
  bytes (\<^verbatim>\<open>include/utility\<close>); and, but for the web server and the sessions above, the programs
  under \<^verbatim>\<open>example\<close> and \<^verbatim>\<open>test\<close>, which are clients of the library.
\<close>

end
